(* ===== verification/Rue_Prelude.thy ===== *)
theory Rue_Prelude
  imports Main "HOL-Library.Word" "HOL-Library.Signed_Division"
begin

unbundle bit_operations_syntax

text \<open>
  Machine types and generic lemmas shared by every component of the model.

  The compiler is written in Rust.  Three conventions carry its integers:
  \<^item> an \<open>i128\<close>, which the compiler uses as a container for mathematical integers, is an
    \<open>int\<close> with the range check of the \<open>checked\<close> operations and the wrap-around of the
    \<open>wrapping\<close> operations written out (\<open>i128_check\<close>, \<open>i128_wrap\<close>);
  \<^item> a \<open>u8\<close>, \<open>u32\<close> or \<open>u64\<close> register image is a word of that width;
  \<^item> a \<open>usize\<close> used as an index is a \<open>nat\<close>, with the overflow checks of the source written
    out where the source has them.
\<close>

named_theorems i128_simps \<open>definitions of the i128 primitives\<close>
named_theorems width_simps \<open>facts about the supported integer widths\<close>

type_synonym u8 = "8 word"
type_synonym u32 = "32 word"
type_synonym u64 = "64 word"

section \<open>Rust's i128 primitives on mathematical integers\<close>

abbreviation i128_min :: int where "i128_min \<equiv> - (2 ^ 127)"
abbreviation i128_max :: int where "i128_max \<equiv> 2 ^ 127 - 1"

definition is_i128 :: "int \<Rightarrow> bool" where
  "is_i128 x \<longleftrightarrow> i128_min \<le> x \<and> x \<le> i128_max"

definition i128_check :: "int \<Rightarrow> int option" where
  "i128_check x = (if i128_min \<le> x \<and> x \<le> i128_max then Some x else None)"

definition i128_wrap :: "int \<Rightarrow> int" where
  "i128_wrap x = (x + 2 ^ 127) mod 2 ^ 128 - 2 ^ 127"

text \<open>The wrap-around of an \<open>i64\<close>, for the places where the source computes in one.\<close>

definition wrap_i64 :: "int \<Rightarrow> int" where
  "wrap_i64 x = (x + 2 ^ 63) mod 2 ^ 64 - 2 ^ 63"

definition i128_checked_add :: "int \<Rightarrow> int \<Rightarrow> int option" where
  "i128_checked_add a b = i128_check (a + b)"

definition i128_checked_sub :: "int \<Rightarrow> int \<Rightarrow> int option" where
  "i128_checked_sub a b = i128_check (a - b)"

definition i128_checked_mul :: "int \<Rightarrow> int \<Rightarrow> int option" where
  "i128_checked_mul a b = i128_check (a * b)"

definition i128_checked_div :: "int \<Rightarrow> int \<Rightarrow> int option" where
  "i128_checked_div a b = (if b = 0 then None else i128_check (a sdiv b))"

definition i128_checked_rem :: "int \<Rightarrow> int \<Rightarrow> int option" where
  "i128_checked_rem a b =
     (if b = 0 then None else if a = i128_min \<and> b = -1 then None else Some (a smod b))"

definition i128_checked_neg :: "int \<Rightarrow> int option" where
  "i128_checked_neg a = i128_check (- a)"

definition i128_wrapping_shl :: "int \<Rightarrow> nat \<Rightarrow> int" where
  "i128_wrapping_shl v a = i128_wrap (push_bit (a mod 128) v)"

definition i128_as_u128 :: "int \<Rightarrow> int" where
  "i128_as_u128 v = v mod 2 ^ 128"

lemmas [i128_simps] = i128_checked_add_def i128_checked_sub_def i128_checked_mul_def
  i128_checked_div_def i128_checked_rem_def i128_checked_neg_def i128_check_def

lemma i128_wrap_is_i128 [simp]: "is_i128 (i128_wrap x)"
proof -
  have "0 \<le> (x + 2 ^ 127) mod 2 ^ 128" "(x + 2 ^ 127) mod 2 ^ 128 < (2 ^ 128 :: int)"
    by simp_all
  then show ?thesis by (simp add: is_i128_def i128_wrap_def)
qed

lemma i128_wrap_mod:
  assumes "n \<le> 128"
  shows "i128_wrap x mod 2 ^ n = x mod 2 ^ n"
proof -
  have dvd: "(2 ^ n :: int) dvd 2 ^ 128" using assms by (rule le_imp_power_dvd)
  have "i128_wrap x mod 2 ^ n = ((x + 2 ^ 127) mod 2 ^ 128 mod 2 ^ n - 2 ^ 127) mod 2 ^ n"
    unfolding i128_wrap_def by (simp add: mod_diff_left_eq)
  also have "\<dots> = ((x + 2 ^ 127) mod 2 ^ n - 2 ^ 127) mod 2 ^ n"
    using dvd by (simp add: mod_mod_cancel)
  also have "\<dots> = x mod 2 ^ n" by (simp add: mod_diff_left_eq)
  finally show ?thesis .
qed

lemma int_and_mask: "(x :: int) AND (2 ^ n - 1) = x mod 2 ^ n"
  by (metis mask_eq_exp_minus_1 take_bit_eq_mask take_bit_eq_mod)

lemma sdiv_trunc: "(a :: int) sdiv b = sgn a * sgn b * (\<bar>a\<bar> div \<bar>b\<bar>)"
  by (simp add: signed_divide_int_def sgn_mult)

lemma abs_sdiv_le: "\<bar>(a :: int) sdiv b\<bar> \<le> \<bar>a\<bar>"
proof -
  have nn: "0 \<le> \<bar>a\<bar> div \<bar>b\<bar>"
    by (cases "b = 0") (simp_all add: pos_imp_zdiv_nonneg_iff)
  have "\<bar>a sdiv b\<bar> \<le> \<bar>a\<bar> div \<bar>b\<bar>"
    using nn by (auto simp: sdiv_trunc abs_mult sgn_if)
  also have "\<dots> \<le> \<bar>a\<bar>"
  proof (cases "b = 0")
    case False
    then have "\<bar>a\<bar> div \<bar>b\<bar> \<le> \<bar>a\<bar> div 1" by (intro zdiv_mono2) auto
    then show ?thesis by simp
  qed simp
  finally show ?thesis .
qed

section \<open>Source positions\<close>

record span =
  file_id :: nat
  start_byte :: nat
  end_byte :: nat

text \<open>A span for the examples.\<close>

definition span0 :: span where
  "span0 = \<lparr>file_id = 0, start_byte = 0, end_byte = 1\<rparr>"

section \<open>Options\<close>

definition or_else :: "'a option \<Rightarrow> 'a option \<Rightarrow> 'a option" where
  "or_else a b = (case a of None \<Rightarrow> b | Some x \<Rightarrow> Some x)"

definition then_some :: "bool \<Rightarrow> 'a \<Rightarrow> 'a option" where
  "then_some c x = (if c then Some x else None)"

lemma or_else_Some: "or_else a b = Some x \<longleftrightarrow> a = Some x \<or> a = None \<and> b = Some x"
  by (cases a) (auto simp: or_else_def)

lemma then_some_Some [simp]: "then_some c x = Some y \<longleftrightarrow> c \<and> x = y"
  by (simp add: then_some_def)

text \<open>Clearing the low bits of a 64-bit value rounds it down.\<close>

lemma clear_low_bits:
  fixes x :: nat
  assumes "x < 2 ^ 64" "k \<le> 64"
  shows "x AND (2 ^ 64 - 1 - (2 ^ k - 1)) = (x div 2 ^ k) * 2 ^ k"
proof -
  have "2 ^ 64 - 1 - (2 ^ k - 1) = push_bit k (mask (64 - k) :: nat)"
    using assms(2) by (simp add: push_bit_eq_mult mask_eq_exp_minus_1 algebra_simps flip: power_add)
  moreover have "x AND push_bit k (mask (64 - k)) = push_bit k (drop_bit k x)"
  proof (rule bit_eqI)
    fix n
    have "bit x n \<Longrightarrow> n < 64"
      using assms(1) by (metis bit_take_bit_iff take_bit_nat_eq_self)
    then show "bit (x AND push_bit k (mask (64 - k))) n = bit (push_bit k (drop_bit k x)) n"
      by (auto simp: bit_simps)
  qed
  ultimately show ?thesis by (simp add: push_bit_eq_mult drop_bit_eq_div)
qed

section \<open>Indexing that can fail\<close>

text \<open>
  A vector indexed past its end panics in the source: reading and writing at an index is an
  option.  A loop whose body can panic folds over its list in the option monad.
\<close>

definition get_at :: "'a list \<Rightarrow> nat \<Rightarrow> 'a option" where
  "get_at xs i = (if i < length xs then Some (xs ! i) else None)"

definition put_at :: "'a list \<Rightarrow> nat \<Rightarrow> 'a \<Rightarrow> 'a list option" where
  "put_at xs i x = (if i < length xs then Some (xs[i := x]) else None)"

primrec fold_option :: "('a \<Rightarrow> 's \<Rightarrow> 's option) \<Rightarrow> 'a list \<Rightarrow> 's \<Rightarrow> 's option" where
  "fold_option f [] s = Some s"
| "fold_option f (x # xs) s = Option.bind (f x s) (fold_option f xs)"

lemma get_at_Some [simp]: "get_at xs i = Some x \<longleftrightarrow> i < length xs \<and> xs ! i = x"
  by (simp add: get_at_def)

lemma put_at_Some [simp]: "put_at xs i x = Some ys \<longleftrightarrow> i < length xs \<and> xs[i := x] = ys"
  by (simp add: put_at_def)

lemma fold_option_append:
  "fold_option f (xs @ ys) s = Option.bind (fold_option f xs s) (fold_option f ys)"
  by (induction xs arbitrary: s) (simp_all split: Option.bind_split)

lemma fold_option_cong [fundef_cong]:
  assumes "xs = ys" "s = t" "\<And>x s. x \<in> set ys \<Longrightarrow> f x s = g x s"
  shows "fold_option f xs s = fold_option g ys t"
  using assms(3) unfolding assms(1,2) by (induction ys arbitrary: t) (auto split: Option.bind_split)

text \<open>An invariant over the part of the list that has been visited.\<close>

lemma fold_option_induct:
  assumes "P [] s"
    "\<And>pre x rest s. xs = pre @ x # rest \<Longrightarrow> P pre s \<Longrightarrow> \<exists>s'. f x s = Some s' \<and> P (pre @ [x]) s'"
  shows "\<exists>s'. fold_option f xs s = Some s' \<and> P xs s'"
proof -
  have "\<exists>s'. fold_option f ys s = Some s' \<and> P ys s'" if "xs = ys @ zs" for ys zs
    using that
  proof (induction ys arbitrary: zs rule: rev_induct)
    case Nil
    then show ?case using assms(1) by simp
  next
    case (snoc y ys)
    then obtain s' where "fold_option f ys s = Some s'" "P ys s'" by (metis append.assoc append_Cons append_Nil)
    moreover from snoc.prems have "xs = ys @ y # zs" by simp
    ultimately show ?case using assms(2) by (fastforce simp: fold_option_append)
  qed
  from this[of xs "[]"] show ?thesis by simp
qed

end
