(* ===== verification/Integer_Semantics.thy ===== *)
theory Integer_Semantics
  imports Rue_Prelude
begin

unbundle bit_operations_syntax

text \<open>
  The language-level semantics of Rue's fixed-width integers
  (\<open>crates/rue-air/src/integer_semantics.rs\<close>): the type descriptor, canonicalisation, and the
  checked, wrapping, shifting and comparing operations on mathematical values and on 64-bit
  register images.
\<close>

section \<open>Descriptors and results\<close>

record checked_integer_result =
  raw :: "int option"
  checked :: "int option"

definition from_raw :: "int option \<Rightarrow> checked_integer_result" where
  "from_raw r = \<lparr>raw = r, checked = r\<rparr>"

record integer_type =
  bits :: nat
  is_signed :: bool

datatype cmp_ordering = Less | Equal | Greater

definition int_cmp :: "int \<Rightarrow> int \<Rightarrow> cmp_ordering" where
  "int_cmp a b = (if a < b then Less else if a = b then Equal else Greater)"

definition new_integer_type :: "nat \<Rightarrow> bool \<Rightarrow> integer_type option" where
  "new_integer_type b s =
     (if b = 8 \<or> b = 16 \<or> b = 32 \<or> b = 64 then Some \<lparr>bits = b, is_signed = s\<rparr> else None)"

definition min_i128 :: "integer_type \<Rightarrow> int" where
  "min_i128 ty = (if is_signed ty then - push_bit (bits ty - 1) 1 else 0)"

definition max_i128 :: "integer_type \<Rightarrow> int" where
  "max_i128 ty =
     (if is_signed ty then push_bit (bits ty - 1) 1 - 1 else push_bit (bits ty) 1 - 1)"

definition mask_u128 :: "integer_type \<Rightarrow> int" where
  "mask_u128 ty = push_bit (bits ty) 1 - 1"

definition fits_i128 :: "integer_type \<Rightarrow> int \<Rightarrow> bool" where
  "fits_i128 ty v \<longleftrightarrow> min_i128 ty \<le> v \<and> v \<le> max_i128 ty"

definition canonicalize_i128 :: "integer_type \<Rightarrow> int \<Rightarrow> int" where
  "canonicalize_i128 ty v =
     (let masked = i128_as_u128 v AND mask_u128 ty in
      if is_signed ty \<and> masked \<ge> push_bit (bits ty - 1) 1
      then masked - push_bit (bits ty) 1 else masked)"

section \<open>Register images\<close>

definition mask_u64 :: "integer_type \<Rightarrow> u64 \<Rightarrow> u64" where
  "mask_u64 ty v = v AND word_of_int (mask_u128 ty)"

definition canonicalize_u64 :: "integer_type \<Rightarrow> u64 \<Rightarrow> u64" where
  "canonicalize_u64 ty v = word_of_int (canonicalize_i128 ty (uint v))"

definition sign_extend_u64 :: "integer_type \<Rightarrow> u64 \<Rightarrow> u64" where
  "sign_extend_u64 ty v = canonicalize_u64 ty v"

definition to_i128 :: "integer_type \<Rightarrow> u64 \<Rightarrow> int" where
  "to_i128 ty v = (if is_signed ty then sint (canonicalize_u64 ty v) else uint (mask_u64 ty v))"

definition map_u64 :: "integer_type \<Rightarrow> int \<Rightarrow> u64 option" where
  "map_u64 ty v =
     (if fits_i128 ty v then Some (word_of_int (canonicalize_i128 ty v)) else None)"

section \<open>Shift counts\<close>

definition shift_count_mask :: "integer_type \<Rightarrow> int" where
  "shift_count_mask ty = int (bits ty) - 1"

definition shift_count_i128 :: "integer_type \<Rightarrow> int \<Rightarrow> nat" where
  "shift_count_i128 ty v = nat (i128_as_u128 v AND shift_count_mask ty)"

definition shift_count_u64 :: "integer_type \<Rightarrow> u64 \<Rightarrow> nat" where
  "shift_count_u64 ty v = unat (v AND word_of_int (shift_count_mask ty))"

section \<open>Checked operations on mathematical values\<close>

definition report_raw :: "integer_type \<Rightarrow> int option \<Rightarrow> checked_integer_result" where
  "report_raw ty r =
     \<lparr>raw = r, checked = (case r of None \<Rightarrow> None | Some x \<Rightarrow> if fits_i128 ty x then Some x else None)\<rparr>"

definition checked_binary_report_i128 ::
  "integer_type \<Rightarrow> int \<Rightarrow> int \<Rightarrow> (int \<Rightarrow> int \<Rightarrow> int option) \<Rightarrow> checked_integer_result" where
  "checked_binary_report_i128 ty lhs rhs op =
     report_raw ty (op (canonicalize_i128 ty lhs) (canonicalize_i128 ty rhs))"

definition checked_add_report_i128 :: "integer_type \<Rightarrow> int \<Rightarrow> int \<Rightarrow> checked_integer_result" where
  "checked_add_report_i128 ty lhs rhs = checked_binary_report_i128 ty lhs rhs i128_checked_add"

definition checked_sub_report_i128 :: "integer_type \<Rightarrow> int \<Rightarrow> int \<Rightarrow> checked_integer_result" where
  "checked_sub_report_i128 ty lhs rhs = checked_binary_report_i128 ty lhs rhs i128_checked_sub"

definition checked_mul_report_i128 :: "integer_type \<Rightarrow> int \<Rightarrow> int \<Rightarrow> checked_integer_result" where
  "checked_mul_report_i128 ty lhs rhs = checked_binary_report_i128 ty lhs rhs i128_checked_mul"

definition checked_div_report_i128 :: "integer_type \<Rightarrow> int \<Rightarrow> int \<Rightarrow> checked_integer_result" where
  "checked_div_report_i128 ty lhs rhs =
     (let l = canonicalize_i128 ty lhs; r = canonicalize_i128 ty rhs in
      if is_signed ty \<and> l = min_i128 ty \<and> r = -1 then from_raw None
      else checked_binary_report_i128 ty l r i128_checked_div)"

definition checked_rem_report_i128 :: "integer_type \<Rightarrow> int \<Rightarrow> int \<Rightarrow> checked_integer_result" where
  "checked_rem_report_i128 ty lhs rhs =
     (let l = canonicalize_i128 ty lhs; r = canonicalize_i128 ty rhs;
          report = checked_binary_report_i128 ty l r i128_checked_rem in
      if is_signed ty \<and> l = min_i128 ty \<and> r = -1 then from_raw None else report)"

definition checked_neg_report_i128 :: "integer_type \<Rightarrow> int \<Rightarrow> checked_integer_result" where
  "checked_neg_report_i128 ty v = report_raw ty (i128_checked_neg (canonicalize_i128 ty v))"

definition checked_neg_literal_report_i128 :: "integer_type \<Rightarrow> int \<Rightarrow> checked_integer_result" where
  "checked_neg_literal_report_i128 ty magnitude =
     (if magnitude < 0 then from_raw None else report_raw ty (i128_checked_neg magnitude))"

definition checked_add_i128 :: "integer_type \<Rightarrow> int \<Rightarrow> int \<Rightarrow> int option" where
  "checked_add_i128 ty lhs rhs = checked (checked_add_report_i128 ty lhs rhs)"

definition checked_sub_i128 :: "integer_type \<Rightarrow> int \<Rightarrow> int \<Rightarrow> int option" where
  "checked_sub_i128 ty lhs rhs = checked (checked_sub_report_i128 ty lhs rhs)"

definition checked_mul_i128 :: "integer_type \<Rightarrow> int \<Rightarrow> int \<Rightarrow> int option" where
  "checked_mul_i128 ty lhs rhs = checked (checked_mul_report_i128 ty lhs rhs)"

definition checked_div_i128 :: "integer_type \<Rightarrow> int \<Rightarrow> int \<Rightarrow> int option" where
  "checked_div_i128 ty lhs rhs = checked (checked_div_report_i128 ty lhs rhs)"

definition checked_rem_i128 :: "integer_type \<Rightarrow> int \<Rightarrow> int \<Rightarrow> int option" where
  "checked_rem_i128 ty lhs rhs = checked (checked_rem_report_i128 ty lhs rhs)"

definition checked_neg_i128 :: "integer_type \<Rightarrow> int \<Rightarrow> int option" where
  "checked_neg_i128 ty v = checked (checked_neg_report_i128 ty v)"

definition checked_neg_literal_i128 :: "integer_type \<Rightarrow> int \<Rightarrow> int option" where
  "checked_neg_literal_i128 ty magnitude = checked (checked_neg_literal_report_i128 ty magnitude)"

section \<open>Wrapping, shifting, complementing and comparing\<close>

definition wrapping_add_i128 :: "integer_type \<Rightarrow> int \<Rightarrow> int \<Rightarrow> int" where
  "wrapping_add_i128 ty lhs rhs = canonicalize_i128 ty (i128_wrap (lhs + rhs))"

definition wrapping_sub_i128 :: "integer_type \<Rightarrow> int \<Rightarrow> int \<Rightarrow> int" where
  "wrapping_sub_i128 ty lhs rhs = canonicalize_i128 ty (i128_wrap (lhs - rhs))"

definition wrapping_mul_i128 :: "integer_type \<Rightarrow> int \<Rightarrow> int \<Rightarrow> int" where
  "wrapping_mul_i128 ty lhs rhs = canonicalize_i128 ty (i128_wrap (lhs * rhs))"

definition shift_i128 :: "integer_type \<Rightarrow> int \<Rightarrow> int \<Rightarrow> bool \<Rightarrow> int" where
  "shift_i128 ty v amount left =
     (let a = shift_count_i128 ty amount; x = canonicalize_i128 ty v;
          shifted = (if left then i128_wrapping_shl x a else drop_bit a x) in
      canonicalize_i128 ty shifted)"

definition bitnot_i128 :: "integer_type \<Rightarrow> int \<Rightarrow> int" where
  "bitnot_i128 ty v = canonicalize_i128 ty (NOT v)"

definition compare_i128 :: "integer_type \<Rightarrow> int \<Rightarrow> int \<Rightarrow> cmp_ordering" where
  "compare_i128 ty lhs rhs = int_cmp (canonicalize_i128 ty lhs) (canonicalize_i128 ty rhs)"

section \<open>Adapters on 64-bit register images\<close>

definition checked_add_u64 :: "integer_type \<Rightarrow> u64 \<Rightarrow> u64 \<Rightarrow> u64 option" where
  "checked_add_u64 ty lhs rhs =
     Option.bind (checked_add_i128 ty (to_i128 ty lhs) (to_i128 ty rhs)) (map_u64 ty)"

definition checked_sub_u64 :: "integer_type \<Rightarrow> u64 \<Rightarrow> u64 \<Rightarrow> u64 option" where
  "checked_sub_u64 ty lhs rhs =
     Option.bind (checked_sub_i128 ty (to_i128 ty lhs) (to_i128 ty rhs)) (map_u64 ty)"

definition checked_mul_u64 :: "integer_type \<Rightarrow> u64 \<Rightarrow> u64 \<Rightarrow> u64 option" where
  "checked_mul_u64 ty lhs rhs =
     Option.bind (checked_mul_i128 ty (to_i128 ty lhs) (to_i128 ty rhs)) (map_u64 ty)"

definition checked_div_u64 :: "integer_type \<Rightarrow> u64 \<Rightarrow> u64 \<Rightarrow> u64 option" where
  "checked_div_u64 ty lhs rhs =
     Option.bind (checked_div_i128 ty (to_i128 ty lhs) (to_i128 ty rhs)) (map_u64 ty)"

definition checked_rem_u64 :: "integer_type \<Rightarrow> u64 \<Rightarrow> u64 \<Rightarrow> u64 option" where
  "checked_rem_u64 ty lhs rhs =
     Option.bind (checked_rem_i128 ty (to_i128 ty lhs) (to_i128 ty rhs)) (map_u64 ty)"

definition checked_neg_u64 :: "integer_type \<Rightarrow> u64 \<Rightarrow> u64 option" where
  "checked_neg_u64 ty v = Option.bind (checked_neg_i128 ty (to_i128 ty v)) (map_u64 ty)"

definition wrapping_add_u64 :: "integer_type \<Rightarrow> u64 \<Rightarrow> u64 \<Rightarrow> u64" where
  "wrapping_add_u64 ty lhs rhs = canonicalize_u64 ty (lhs + rhs)"

definition wrapping_sub_u64 :: "integer_type \<Rightarrow> u64 \<Rightarrow> u64 \<Rightarrow> u64" where
  "wrapping_sub_u64 ty lhs rhs = canonicalize_u64 ty (lhs - rhs)"

definition wrapping_mul_u64 :: "integer_type \<Rightarrow> u64 \<Rightarrow> u64 \<Rightarrow> u64" where
  "wrapping_mul_u64 ty lhs rhs = canonicalize_u64 ty (lhs * rhs)"

definition shift_u64 :: "integer_type \<Rightarrow> u64 \<Rightarrow> u64 \<Rightarrow> bool \<Rightarrow> u64" where
  "shift_u64 ty v amount left = word_of_int (shift_i128 ty (to_i128 ty v) (uint amount) left)"

definition bitnot_u64 :: "integer_type \<Rightarrow> u64 \<Rightarrow> u64" where
  "bitnot_u64 ty v = canonicalize_u64 ty (NOT v)"

definition compare_u64 :: "integer_type \<Rightarrow> u64 \<Rightarrow> u64 \<Rightarrow> cmp_ordering" where
  "compare_u64 ty lhs rhs = int_cmp (to_i128 ty lhs) (to_i128 ty rhs)"

section \<open>Canonical values\<close>

text \<open>The widths the constructor accepts; every property is about these.\<close>

definition supported :: "integer_type \<Rightarrow> bool" where
  "supported ty \<longleftrightarrow> bits ty = 8 \<or> bits ty = 16 \<or> bits ty = 32 \<or> bits ty = 64"

lemma new_integer_type_supported: "new_integer_type b s = Some ty \<longleftrightarrow> supported ty \<and> ty = \<lparr>bits = b, is_signed = s\<rparr>"
  by (auto simp: new_integer_type_def supported_def split: if_splits)

lemma supported_bits [width_simps]:
  assumes "supported ty"
  shows "0 < bits ty" "bits ty \<le> 64" "bits ty \<le> 128"
  using assms by (auto simp: supported_def)

lemma half_width [width_simps]:
  assumes "supported ty"
  shows "(2 :: int) ^ bits ty = 2 * 2 ^ (bits ty - 1)"
  using assms by (auto simp: supported_def)

lemma width_bound [width_simps]:
  assumes "supported ty"
  shows "(2 :: int) ^ bits ty \<le> 2 ^ 64" "(0 :: int) < 2 ^ (bits ty - 1)"
  using assms by (auto simp: supported_def)

lemma fits_alt:
  "fits_i128 ty v \<longleftrightarrow>
     (if is_signed ty then - (2 ^ (bits ty - 1)) \<le> v \<and> v < 2 ^ (bits ty - 1)
      else 0 \<le> v \<and> v < 2 ^ bits ty)"
  by (auto simp: fits_i128_def min_i128_def max_i128_def push_bit_eq_mult)

lemma canonicalize_alt:
  assumes "supported ty"
  shows "canonicalize_i128 ty v =
     (let m = v mod 2 ^ bits ty in
      if is_signed ty \<and> m \<ge> 2 ^ (bits ty - 1) then m - 2 ^ bits ty else m)"
proof -
  have "(2 ^ bits ty :: int) dvd 2 ^ 128"
    using supported_bits [OF assms] by (intro le_imp_power_dvd)
  then have "i128_as_u128 v AND mask_u128 ty = v mod 2 ^ bits ty"
    unfolding i128_as_u128_def mask_u128_def push_bit_eq_mult mult_1
    by (simp only: int_and_mask mod_mod_cancel)
  then show ?thesis by (simp add: canonicalize_i128_def push_bit_eq_mult Let_def)
qed

lemma canonicalize_mod:
  assumes "supported ty"
  shows "canonicalize_i128 ty v mod 2 ^ bits ty = v mod 2 ^ bits ty"
  by (simp add: canonicalize_alt [OF assms] Let_def)

lemma canonicalize_fits:
  assumes "supported ty"
  shows "fits_i128 ty (canonicalize_i128 ty v)"
proof -
  define m h w :: int where "m = v mod 2 ^ bits ty" and "h = 2 ^ (bits ty - 1)" and "w = 2 ^ bits ty"
  have "0 \<le> m" "m < w" "w = 2 * h" "0 < h"
    using half_width [OF assms] by (simp_all add: m_def h_def w_def)
  moreover have "canonicalize_i128 ty v = (if is_signed ty \<and> m \<ge> h then m - w else m)"
    by (simp add: canonicalize_alt [OF assms] Let_def m_def h_def w_def)
  moreover have "fits_i128 ty x \<longleftrightarrow> (if is_signed ty then - h \<le> x \<and> x < h else 0 \<le> x \<and> x < w)" for x
    by (simp add: fits_alt h_def w_def)
  ultimately show ?thesis by simp
qed

lemma fits_unique:
  assumes "supported ty" "fits_i128 ty x" "fits_i128 ty y"
    and "x mod 2 ^ bits ty = y mod 2 ^ bits ty"
  shows "x = y"
proof -
  define h w :: int where "h = 2 ^ (bits ty - 1)" and "w = 2 ^ bits ty"
  have "w = 2 * h" "0 < h" using half_width [OF assms(1)] by (simp_all add: h_def w_def)
  moreover have "fits_i128 ty x \<longleftrightarrow> (if is_signed ty then - h \<le> x \<and> x < h else 0 \<le> x \<and> x < w)" for x
    by (simp add: fits_alt h_def w_def)
  ultimately have small: "\<bar>x - y\<bar> < w" using assms(2,3) by (auto simp: abs_less_iff split: if_splits)
  have "w dvd x - y" using assms(4) unfolding w_def by (simp only: mod_eq_dvd_iff)
  with small show ?thesis by (metis dvd_imp_le_int linorder_not_less right_minus_eq abs_of_pos \<open>w = 2 * h\<close> \<open>0 < h\<close> zero_less_mult_iff zero_less_numeral)
qed

lemma canonicalize_eqI:
  assumes "supported ty" "fits_i128 ty x" "x mod 2 ^ bits ty = v mod 2 ^ bits ty"
  shows "canonicalize_i128 ty v = x"
  by (rule fits_unique [of ty]) (use assms in \<open>simp_all add: canonicalize_fits canonicalize_mod\<close>)

lemma canonicalize_id:
  assumes "supported ty" "fits_i128 ty v"
  shows "canonicalize_i128 ty v = v"
  using assms by (rule canonicalize_eqI) simp

lemma canonicalize_zero:
  assumes "supported ty"
  shows "canonicalize_i128 ty 0 = 0"
  using assms by (intro canonicalize_id) (auto simp: fits_alt)

lemma canonicalize_cong:
  assumes "supported ty" "v mod 2 ^ bits ty = w mod 2 ^ bits ty"
  shows "canonicalize_i128 ty v = canonicalize_i128 ty w"
  by (rule canonicalize_eqI) (use assms in \<open>simp_all add: canonicalize_fits canonicalize_mod\<close>)

lemma canonicalize_wrap:
  assumes "supported ty"
  shows "canonicalize_i128 ty (i128_wrap v) = canonicalize_i128 ty v"
  by (rule canonicalize_cong [OF assms i128_wrap_mod]) (rule supported_bits [OF assms])

lemma fits_i64_range:
  assumes "supported ty" "fits_i128 ty v"
  shows "- (2 ^ 63) \<le> v" "v < 2 ^ 64" "is_signed ty \<Longrightarrow> v < 2 ^ 63"
  using assms by (auto simp: fits_alt supported_def split: if_splits)


lemmas checked_i128_defs =
  checked_add_i128_def checked_add_report_i128_def checked_sub_i128_def checked_sub_report_i128_def
  checked_mul_i128_def checked_mul_report_i128_def checked_div_i128_def checked_div_report_i128_def
  checked_rem_i128_def checked_rem_report_i128_def checked_neg_i128_def checked_neg_report_i128_def
  checked_neg_literal_i128_def checked_neg_literal_report_i128_def
  checked_binary_report_i128_def report_raw_def from_raw_def

section \<open>Exactness of the checked operations\<close>

definition checked_result :: "integer_type \<Rightarrow> int \<Rightarrow> int option" where
  "checked_result ty x = (if fits_i128 ty x then Some x else None)"

lemma fits_is_i128:
  assumes "supported ty" "fits_i128 ty x"
  shows "i128_min \<le> x" "x \<le> i128_max"
  using fits_i64_range [OF assms] by simp_all

lemma checked_via_i128:
  assumes "supported ty"
  shows "checked (report_raw ty (i128_check x)) = checked_result ty x"
  using fits_is_i128 [OF assms, of x] by (auto simp: report_raw_def i128_check_def checked_result_def)

lemma sdiv_self_fits:
  assumes "supported ty" "fits_i128 ty l" "fits_i128 ty r"
    and "\<not> (is_signed ty \<and> l = min_i128 ty \<and> r = -1)"
  shows "fits_i128 ty (l sdiv r)"
proof (cases "is_signed ty")
  case False
  then have "0 \<le> l sdiv r" using assms(2,3)
    by (auto simp: fits_alt sdiv_trunc sgn_if pos_imp_zdiv_nonneg_iff)
  then show ?thesis using False assms(2) abs_sdiv_le [of l r] by (simp add: fits_alt)
next
  case True
  define h :: int where "h = 2 ^ (bits ty - 1)"
  have l: "- h \<le> l" "l < h" using True assms(2) by (simp_all add: fits_alt h_def)
  have "l sdiv r < h"
  proof (cases "l = - h")
    case l_min: True
    then have "r \<noteq> -1" using True assms(4) by (simp add: h_def min_i128_def push_bit_eq_mult)
    moreover have "\<bar>l\<bar> div \<bar>r\<bar> < h \<and> 0 \<le> \<bar>l\<bar> div \<bar>r\<bar>" if "2 \<le> \<bar>r\<bar>"
    proof -
      have "\<bar>l\<bar> div \<bar>r\<bar> \<le> \<bar>l\<bar> div 2" using that by (intro zdiv_mono2) auto
      moreover have "0 \<le> \<bar>l\<bar> div \<bar>r\<bar>" using that by (subst pos_imp_zdiv_nonneg_iff) auto
      ultimately show ?thesis using l_min l by simp
    qed
    ultimately show ?thesis
      using l l_min by (cases "r = 0 \<or> r = 1") (auto simp: sdiv_trunc sgn_if not_less split: if_splits)
  next
    case False
    then show ?thesis using l abs_sdiv_le [of l r] by simp
  qed
  moreover have "- h \<le> l sdiv r" using l abs_sdiv_le [of l r] by simp
  ultimately show ?thesis using True by (simp add: fits_alt h_def)
qed


text \<open>
  Canonicalisation picks the one value the type can represent that is congruent to the
  given mathematical integer modulo two to the width; values that already fit are unchanged.
\<close>

theorem canonicalize_i128_correct:
  assumes "supported ty"
  shows "fits_i128 ty (canonicalize_i128 ty v)
    \<and> canonicalize_i128 ty v mod 2 ^ bits ty = v mod 2 ^ bits ty
    \<and> (\<forall>x. fits_i128 ty x \<and> x mod 2 ^ bits ty = v mod 2 ^ bits ty \<longrightarrow> x = canonicalize_i128 ty v)"
  using assms by (auto simp: canonicalize_fits canonicalize_mod intro: fits_unique)

lemma canonicalize_i128_correct_witness:
  "canonicalize_i128 \<lparr>bits = 8, is_signed = True\<rparr> 200 = -56"
proof -
  let ?t = "\<lparr>bits = 8, is_signed = True\<rparr>"
  have "supported ?t" by (simp add: supported_def)
  moreover have "fits_i128 ?t (-56)" by (simp add: fits_alt)
  ultimately show ?thesis
    using canonicalize_i128_correct
      [of ?t 200, THEN conjunct2, THEN conjunct2, THEN spec, of "-56"] by simp
qed

lemma min_sdiv_not_fits:
  assumes "supported ty" "is_signed ty"
  shows "\<not> fits_i128 ty (min_i128 ty sdiv (-1))"
  using assms by (simp add: fits_alt min_i128_def push_bit_eq_mult sdiv_trunc)

lemma smod_between:
  "(l :: int) smod r = 0 \<or> sgn (l smod r) = sgn l \<and> \<bar>l smod r\<bar> \<le> \<bar>l\<bar>"
proof -
  have eq: "l smod r = sgn l * (\<bar>l\<bar> mod \<bar>r\<bar>)" by (simp add: smod_int_alt_def)
  have nn: "0 \<le> \<bar>l\<bar> mod \<bar>r\<bar>" by (cases "r = 0") auto
  have le: "\<bar>l\<bar> mod \<bar>r\<bar> \<le> \<bar>l\<bar>"
    by (cases "r = 0") (auto intro: zmod_le_nonneg_dividend)
  show ?thesis using nn le by (auto simp: eq sgn_mult abs_mult sgn_if)
qed

lemma smod_fits:
  assumes "fits_i128 ty l"
  shows "fits_i128 ty (l smod r)"
  using assms smod_between [of l r] by (auto simp: fits_alt sgn_if split: if_splits)

lemma checked_i128_eqs:
  assumes "supported ty" "fits_i128 ty l" "fits_i128 ty r"
  shows "checked_add_i128 ty l r = checked_result ty (l + r)
    \<and> checked_sub_i128 ty l r = checked_result ty (l - r)
    \<and> checked_mul_i128 ty l r = checked_result ty (l * r)
    \<and> checked_neg_i128 ty l = checked_result ty (- l)
    \<and> checked_div_i128 ty l r = (if r = 0 then None else checked_result ty (l sdiv r))
    \<and> checked_rem_i128 ty l r =
        (if r = 0 \<or> \<not> fits_i128 ty (l sdiv r) then None else Some (l smod r))"
proof -
  note can = canonicalize_id [OF assms(1,2)] canonicalize_id [OF assms(1,3)]
  note chk = checked_via_i128 [OF assms(1), unfolded report_raw_def, simplified]
  let ?ov = "is_signed ty \<and> l = min_i128 ty \<and> r = -1"
  have ov: "fits_i128 ty (l sdiv r) \<longleftrightarrow> \<not> ?ov"
    using sdiv_self_fits [OF assms] min_sdiv_not_fits [OF assms(1)] by auto
  have rem_ok: "i128_checked_rem l r = (if r = 0 then None else Some (l smod r))"
    using fits_i64_range [OF assms(1,2)] by (simp add: i128_checked_rem_def)
  have "checked_add_i128 ty l r = checked_result ty (l + r)"
    "checked_sub_i128 ty l r = checked_result ty (l - r)"
    "checked_mul_i128 ty l r = checked_result ty (l * r)"
    "checked_neg_i128 ty l = checked_result ty (- l)"
    using chk by (simp_all add: checked_i128_defs can i128_checked_add_def i128_checked_sub_def
        i128_checked_mul_def i128_checked_neg_def)
  moreover have "checked_div_i128 ty l r = (if r = 0 then None else checked_result ty (l sdiv r))"
    using chk ov canonicalize_zero [OF assms(1)]
    by (simp add: checked_i128_defs can i128_checked_div_def Let_def checked_result_def)
  moreover have "checked_rem_i128 ty l r =
      (if r = 0 \<or> \<not> fits_i128 ty (l sdiv r) then None else Some (l smod r))"
    using rem_ok smod_fits [OF assms(2), of r]
    by (cases "r = 0") (simp_all add: checked_i128_defs can Let_def ov
        canonicalize_zero [OF assms(1)])
  ultimately show ?thesis by simp
qed

text \<open>
  The checked operations are exact: on representable operands each returns precisely the
  mathematical result when the type can represent it and no value otherwise. This includes the
  products whose mathematical value overflows the compiler's own i128 container, division by
  zero, and the one overflowing signed division.
\<close>

theorem checked_i128_exact:
  assumes "supported ty" "fits_i128 ty l" "fits_i128 ty r"
  shows "checked_add_i128 ty l r = checked_result ty (l + r)
    \<and> checked_sub_i128 ty l r = checked_result ty (l - r)
    \<and> checked_mul_i128 ty l r = checked_result ty (l * r)
    \<and> checked_neg_i128 ty l = checked_result ty (- l)
    \<and> checked_div_i128 ty l r = (if r = 0 then None else checked_result ty (l sdiv r))
    \<and> checked_rem_i128 ty l r =
        (if r = 0 \<or> \<not> fits_i128 ty (l sdiv r) then None else Some (l smod r))"
  using checked_i128_eqs [OF assms] .

lemma checked_i128_exact_witness:
  "checked_mul_i128 \<lparr>bits = 64, is_signed = False\<rparr> (2 ^ 64 - 1) (2 ^ 64 - 1) = None
   \<and> checked_div_i128 \<lparr>bits = 8, is_signed = True\<rparr> (-128) (-1) = None
   \<and> checked_rem_i128 \<lparr>bits = 8, is_signed = True\<rparr> (-7) 2 = Some (-1)"
proof -
  let ?u = "\<lparr>bits = 64, is_signed = False\<rparr>" and ?i = "\<lparr>bits = 8, is_signed = True\<rparr>"
  have s: "supported ?u" "supported ?i" by (simp_all add: supported_def)
  have f: "fits_i128 ?u (2 ^ 64 - 1)" "fits_i128 ?i (-128)" "fits_i128 ?i (-1)"
    "fits_i128 ?i (-7)" "fits_i128 ?i 2" by (simp_all add: fits_alt)
  show ?thesis
    using checked_i128_exact [OF s(1) f(1) f(1)] checked_i128_exact [OF s(2) f(2) f(3)]
      checked_i128_exact [OF s(2) f(4) f(5)]
    by (simp add: checked_result_def fits_alt)
qed

section \<open>Wrapping and bitwise operations\<close>

lemma shift_count_exact:
  assumes "supported ty"
  shows "shift_count_i128 ty k = nat (k mod int (bits ty))"
    and "shift_count_i128 ty k < bits ty"
proof -
  have "bits ty = 2 ^ 3 \<or> bits ty = 2 ^ 4 \<or> bits ty = 2 ^ 5 \<or> bits ty = 2 ^ 6"
    using assms by (auto simp: supported_def)
  then obtain n where n: "bits ty = 2 ^ n" "n \<le> 6"
    by (elim disjE) (erule that, simp)+
  have "(2 ^ n :: int) dvd 2 ^ 128" using n(2) by (intro le_imp_power_dvd) simp
  then have "i128_as_u128 k AND shift_count_mask ty = k mod 2 ^ n"
    by (simp only: i128_as_u128_def shift_count_mask_def n(1) of_nat_power of_nat_numeral
        int_and_mask mod_mod_cancel)
  then show "shift_count_i128 ty k = nat (k mod int (bits ty))"
    by (simp add: shift_count_i128_def n(1))
  then show "shift_count_i128 ty k < bits ty"
    using supported_bits [OF assms] by (simp add: nat_less_iff)
qed

lemma drop_bit_fits:
  assumes "fits_i128 ty x"
  shows "fits_i128 ty (drop_bit n x)"
proof -
  have "drop_bit n x \<le> x" if "0 \<le> x"
    using that zdiv_mono2 [of x 1 "2 ^ n"] by (simp add: drop_bit_eq_div)
  moreover have "x \<le> drop_bit n x" if "x < 0"
  proof -
    have "x * 2 ^ n \<le> x" using that by (simp add: mult_le_cancel_left1)
    then have "x * 2 ^ n div 2 ^ n \<le> x div 2 ^ n" by (intro zdiv_mono1) auto
    then show ?thesis by (simp add: drop_bit_eq_div)
  qed
  moreover have "0 \<le> drop_bit n x \<longleftrightarrow> 0 \<le> x" by (simp add: drop_bit_nonnegative_int_iff)
  moreover define y h where "y = drop_bit n x" and "h = (2 :: int) ^ (bits ty - 1)"
  moreover have "0 < h" by (simp add: h_def)
  ultimately show ?thesis using assms
    unfolding fits_alt y_def [symmetric] h_def [symmetric] by (auto split: if_splits)
qed

lemma wrapping_i128_eqs:
  assumes "supported ty"
  shows "wrapping_add_i128 ty l r = canonicalize_i128 ty (l + r)"
    and "wrapping_sub_i128 ty l r = canonicalize_i128 ty (l - r)"
    and "wrapping_mul_i128 ty l r = canonicalize_i128 ty (l * r)"
    and "bitnot_i128 ty l = canonicalize_i128 ty (- l - 1)"
  by (simp_all add: wrapping_add_i128_def wrapping_sub_i128_def wrapping_mul_i128_def
      canonicalize_wrap [OF assms] bitnot_i128_def not_int_def)

lemma shift_i128_eqs:
  assumes "supported ty"
  shows "shift_i128 ty l k True = canonicalize_i128 ty (l * 2 ^ nat (k mod int (bits ty)))"
    and "shift_i128 ty l k False = canonicalize_i128 ty l div 2 ^ nat (k mod int (bits ty))"
proof -
  note sc = shift_count_exact [OF assms, of k]
  have small: "shift_count_i128 ty k mod 128 = shift_count_i128 ty k"
    using sc(2) supported_bits [OF assms] by simp
  have "shift_i128 ty l k True = canonicalize_i128 ty (canonicalize_i128 ty l * 2 ^ shift_count_i128 ty k)"
    by (simp add: shift_i128_def Let_def i128_wrapping_shl_def small canonicalize_wrap [OF assms]
        push_bit_eq_mult)
  also have "\<dots> = canonicalize_i128 ty (l * 2 ^ shift_count_i128 ty k)"
    using canonicalize_mod [OF assms, of l]
    by (intro canonicalize_cong [OF assms]) (rule mod_mult_cong, simp_all)
  finally show "shift_i128 ty l k True = canonicalize_i128 ty (l * 2 ^ nat (k mod int (bits ty)))"
    by (simp add: sc(1))
  have "shift_i128 ty l k False = drop_bit (shift_count_i128 ty k) (canonicalize_i128 ty l)"
    using canonicalize_id [OF assms drop_bit_fits [OF canonicalize_fits [OF assms]]]
    by (simp add: shift_i128_def Let_def)
  then show "shift_i128 ty l k False = canonicalize_i128 ty l div 2 ^ nat (k mod int (bits ty))"
    by (simp add: sc(1) drop_bit_eq_div)
qed

text \<open>
  C39. The wrapping operations are exact modulo the width: whatever the compiler's own i128
  arithmetic does, the result is the canonical form of the unbounded mathematical result, and
  shifts mask their count and agree with multiplication and flooring division by powers of two.
\<close>

theorem wrapping_i128_exact:
  assumes "supported ty"
  shows "wrapping_add_i128 ty l r = canonicalize_i128 ty (l + r)
    \<and> wrapping_sub_i128 ty l r = canonicalize_i128 ty (l - r)
    \<and> wrapping_mul_i128 ty l r = canonicalize_i128 ty (l * r)
    \<and> bitnot_i128 ty l = canonicalize_i128 ty (- l - 1)
    \<and> shift_i128 ty l k True = canonicalize_i128 ty (l * 2 ^ nat (k mod int (bits ty)))
    \<and> shift_i128 ty l k False = canonicalize_i128 ty l div 2 ^ nat (k mod int (bits ty))"
  using wrapping_i128_eqs [OF assms] shift_i128_eqs [OF assms] by simp

lemma wrapping_i128_exact_witness:
  "wrapping_add_i128 \<lparr>bits = 8, is_signed = True\<rparr> 127 1 = -128
   \<and> shift_i128 \<lparr>bits = 8, is_signed = True\<rparr> (-7) 9 False = -4"
proof -
  let ?t = "\<lparr>bits = 8, is_signed = True\<rparr>"
  have s: "supported ?t" by (simp add: supported_def)
  have "canonicalize_i128 ?t 128 = -128" "canonicalize_i128 ?t (-7) = -7"
    by (rule canonicalize_eqI [OF s], simp_all add: fits_alt)+
  then show ?thesis
    using wrapping_i128_exact [OF s, of 127 1 0] wrapping_i128_exact [OF s, of "-7" 0 9] by simp
qed

section \<open>Register images refine mathematical values\<close>

definition canonical_image :: "integer_type \<Rightarrow> u64 \<Rightarrow> bool" where
  "canonical_image ty w \<longleftrightarrow> canonicalize_u64 ty w = w"

lemma canonicalize_uint_of_int:
  assumes "supported ty"
  shows "canonicalize_i128 ty (uint (word_of_int x :: u64)) = canonicalize_i128 ty x"
proof -
  have "(2 ^ bits ty :: int) dvd 2 ^ 64" using supported_bits [OF assms] by (intro le_imp_power_dvd)
  then have "x mod 2 ^ 64 mod 2 ^ bits ty = x mod 2 ^ bits ty" by (rule mod_mod_cancel)
  then show ?thesis
    by (intro canonicalize_cong [OF assms]) (simp add: unsigned_of_int take_bit_eq_mod)
qed

lemma to_i128_eq:
  assumes "supported ty"
  shows "to_i128 ty v = canonicalize_i128 ty (uint v)"
proof (cases "is_signed ty")
  case True
  have "- (2 ^ 63) \<le> canonicalize_i128 ty (uint v)" "canonicalize_i128 ty (uint v) < 2 ^ 63"
    using fits_i64_range [OF assms canonicalize_fits [OF assms]] True by auto
  then have "sint (canonicalize_u64 ty v) = canonicalize_i128 ty (uint v)"
    by (simp add: canonicalize_u64_def signed_of_int signed_take_bit_int_eq_self)
  with True show ?thesis by (simp add: to_i128_def)
next
  case False
  have mask: "mask_u128 ty = 2 ^ bits ty - 1" by (simp add: mask_u128_def push_bit_eq_mult)
  have "0 \<le> mask_u128 ty" "mask_u128 ty < 2 ^ 64"
    using width_bound [OF assms] by (simp_all add: mask)
  then have "uint (word_of_int (mask_u128 ty) :: u64) = mask_u128 ty"
    by (simp add: unsigned_of_int take_bit_int_eq_self)
  then have "uint (mask_u64 ty v) = uint v AND mask_u128 ty"
    by (simp add: mask_u64_def unsigned_and_eq)
  also have "\<dots> = uint v mod 2 ^ bits ty" by (simp only: mask int_and_mask)
  finally show ?thesis using False by (simp add: to_i128_def canonicalize_alt [OF assms] Let_def)
qed

lemma to_i128_fits:
  assumes "supported ty"
  shows "fits_i128 ty (to_i128 ty v)"
  by (simp add: to_i128_eq [OF assms] canonicalize_fits [OF assms])

lemma to_i128_of_int:
  assumes "supported ty" "fits_i128 ty x"
  shows "to_i128 ty (word_of_int x) = x"
  by (simp add: to_i128_eq canonicalize_uint_of_int canonicalize_id assms)

lemma to_i128_canonicalize_u64:
  assumes "supported ty"
  shows "to_i128 ty (canonicalize_u64 ty v) = to_i128 ty v"
  by (simp add: canonicalize_u64_def to_i128_of_int canonicalize_fits to_i128_eq assms
      canonicalize_uint_of_int canonicalize_id)

lemma canonical_image_of_int:
  assumes "supported ty" "fits_i128 ty x"
  shows "canonical_image ty (word_of_int x)"
  by (simp add: canonical_image_def canonicalize_u64_def canonicalize_uint_of_int canonicalize_id assms)

lemma map_u64_to_i128:
  assumes "supported ty" "\<And>x. m = Some x \<Longrightarrow> fits_i128 ty x"
  shows "map_option (to_i128 ty) (Option.bind m (map_u64 ty)) = m"
    and "Option.bind m (map_u64 ty) = Some w \<Longrightarrow> canonical_image ty w"
  using assms by (cases m, auto simp: map_u64_def to_i128_of_int canonicalize_id canonical_image_of_int)+

lemma to_i128_mod:
  assumes "supported ty"
  shows "to_i128 ty v mod 2 ^ bits ty = uint v mod 2 ^ bits ty"
  by (simp add: to_i128_eq canonicalize_mod assms)

lemma canonical_image_canonicalize:
  assumes "supported ty"
  shows "canonical_image ty (canonicalize_u64 ty v)"
  using canonical_image_of_int [OF assms canonicalize_fits [OF assms]]
  by (simp add: canonicalize_u64_def)

lemma canonicalize_i128_uint_cong:
  assumes "supported ty" "uint v mod 2 ^ bits ty = x mod 2 ^ bits ty"
  shows "to_i128 ty (canonicalize_u64 ty v) = canonicalize_i128 ty x"
  using canonicalize_cong [OF assms] to_i128_canonicalize_u64 [OF assms(1)] to_i128_eq [OF assms(1)]
  by simp

lemma uint_arith_mod:
  assumes "supported ty"
  shows "uint (a + b :: u64) mod 2 ^ bits ty = (to_i128 ty a + to_i128 ty b) mod 2 ^ bits ty"
    and "uint (a - b :: u64) mod 2 ^ bits ty = (to_i128 ty a - to_i128 ty b) mod 2 ^ bits ty"
    and "uint (a * b :: u64) mod 2 ^ bits ty = (to_i128 ty a * to_i128 ty b) mod 2 ^ bits ty"
    and "uint (NOT a :: u64) mod 2 ^ bits ty = (- to_i128 ty a - 1) mod 2 ^ bits ty"
proof -
  have dvd: "(2 ^ bits ty :: int) dvd 2 ^ 64"
    using supported_bits [OF assms] by (intro le_imp_power_dvd)
  have red: "x mod 2 ^ 64 mod 2 ^ bits ty = x mod 2 ^ bits ty" for x :: int
    by (rule mod_mod_cancel [OF dvd])
  note m = to_i128_mod [OF assms]
  show "uint (a + b :: u64) mod 2 ^ bits ty = (to_i128 ty a + to_i128 ty b) mod 2 ^ bits ty"
    using red [of "uint a + uint b"] mod_add_cong [OF m [of a] m [of b]]
    by (simp add: uint_word_ariths)
  show "uint (a - b :: u64) mod 2 ^ bits ty = (to_i128 ty a - to_i128 ty b) mod 2 ^ bits ty"
    using red [of "uint a - uint b"] mod_diff_cong [OF m [of a] m [of b]]
    by (simp add: uint_word_ariths)
  show "uint (a * b :: u64) mod 2 ^ bits ty = (to_i128 ty a * to_i128 ty b) mod 2 ^ bits ty"
    using red [of "uint a * uint b"] mod_mult_cong [OF m [of a] m [of b]]
    by (simp add: uint_word_ariths)
  have neg: "(- uint a - 1) mod 2 ^ bits ty = (- to_i128 ty a - 1) mod 2 ^ bits ty"
    by (rule mod_diff_cong [OF _ refl]) (metis m mod_minus_eq)
  have "uint (NOT a :: u64) = (- uint a - 1) mod 2 ^ 64"
    by (simp add: unsigned_not_eq take_bit_eq_mod not_int_def)
  then show "uint (NOT a :: u64) mod 2 ^ bits ty = (- to_i128 ty a - 1) mod 2 ^ bits ty"
    using red [of "- uint a - 1"] neg by simp
qed

lemma checked_i128_results_fit:
  assumes "supported ty" "fits_i128 ty l" "fits_i128 ty r"
  shows "checked_add_i128 ty l r = Some x \<Longrightarrow> fits_i128 ty x"
    "checked_sub_i128 ty l r = Some x \<Longrightarrow> fits_i128 ty x"
    "checked_mul_i128 ty l r = Some x \<Longrightarrow> fits_i128 ty x"
    "checked_div_i128 ty l r = Some x \<Longrightarrow> fits_i128 ty x"
    "checked_rem_i128 ty l r = Some x \<Longrightarrow> fits_i128 ty x"
    "checked_neg_i128 ty l = Some x \<Longrightarrow> fits_i128 ty x"
  by (auto simp: checked_i128_defs split: option.splits if_splits simp: Let_def)

lemma u64_adapters_eqs:
  assumes "supported ty"
  defines "m \<equiv> to_i128 ty"
  shows "map_option m (checked_add_u64 ty a b) = checked_add_i128 ty (m a) (m b)
    \<and> map_option m (checked_sub_u64 ty a b) = checked_sub_i128 ty (m a) (m b)
    \<and> map_option m (checked_mul_u64 ty a b) = checked_mul_i128 ty (m a) (m b)
    \<and> map_option m (checked_div_u64 ty a b) = checked_div_i128 ty (m a) (m b)
    \<and> map_option m (checked_rem_u64 ty a b) = checked_rem_i128 ty (m a) (m b)
    \<and> map_option m (checked_neg_u64 ty a) = checked_neg_i128 ty (m a)
    \<and> m (wrapping_add_u64 ty a b) = wrapping_add_i128 ty (m a) (m b)
    \<and> m (wrapping_sub_u64 ty a b) = wrapping_sub_i128 ty (m a) (m b)
    \<and> m (wrapping_mul_u64 ty a b) = wrapping_mul_i128 ty (m a) (m b)
    \<and> m (bitnot_u64 ty a) = bitnot_i128 ty (m a)
    \<and> m (shift_u64 ty a k left) = shift_i128 ty (m a) (uint k) left
    \<and> compare_u64 ty a b = compare_i128 ty (m a) (m b)"
proof -
  note fit = to_i128_fits [OF assms(1)]
  note res = checked_i128_results_fit [OF assms(1) fit fit]
  have "map_option m (checked_add_u64 ty a b) = checked_add_i128 ty (m a) (m b)"
    "map_option m (checked_sub_u64 ty a b) = checked_sub_i128 ty (m a) (m b)"
    "map_option m (checked_mul_u64 ty a b) = checked_mul_i128 ty (m a) (m b)"
    "map_option m (checked_div_u64 ty a b) = checked_div_i128 ty (m a) (m b)"
    "map_option m (checked_rem_u64 ty a b) = checked_rem_i128 ty (m a) (m b)"
    "map_option m (checked_neg_u64 ty a) = checked_neg_i128 ty (m a)"
    unfolding m_def checked_add_u64_def checked_sub_u64_def checked_mul_u64_def
      checked_div_u64_def checked_rem_u64_def checked_neg_u64_def
    by (rule map_u64_to_i128 [OF assms(1)], erule res)+
  moreover have "m (wrapping_add_u64 ty a b) = wrapping_add_i128 ty (m a) (m b)"
    "m (wrapping_sub_u64 ty a b) = wrapping_sub_i128 ty (m a) (m b)"
    "m (wrapping_mul_u64 ty a b) = wrapping_mul_i128 ty (m a) (m b)"
    "m (bitnot_u64 ty a) = bitnot_i128 ty (m a)"
    unfolding m_def wrapping_add_u64_def wrapping_sub_u64_def wrapping_mul_u64_def bitnot_u64_def
    by (simp_all add: wrapping_i128_eqs [OF assms(1)]
        canonicalize_i128_uint_cong [OF assms(1) uint_arith_mod(1) [OF assms(1)]]
        canonicalize_i128_uint_cong [OF assms(1) uint_arith_mod(2) [OF assms(1)]]
        canonicalize_i128_uint_cong [OF assms(1) uint_arith_mod(3) [OF assms(1)]]
        canonicalize_i128_uint_cong [OF assms(1) uint_arith_mod(4) [OF assms(1)]])
  moreover have "m (shift_u64 ty a k left) = shift_i128 ty (m a) (uint k) left"
    by (simp add: m_def shift_u64_def shift_i128_def Let_def to_i128_of_int assms(1) canonicalize_fits)
  moreover have "compare_u64 ty a b = compare_i128 ty (m a) (m b)"
    by (simp add: m_def compare_u64_def compare_i128_def canonicalize_id assms(1) fit)
  ultimately show ?thesis by blast
qed

section \<open>Register images in closed form\<close>

lemma canonicalize_u64_word: "supported ty \<Longrightarrow> canonicalize_u64 ty v = word_of_int (to_i128 ty v)"
  by (simp add: canonicalize_u64_def to_i128_eq)

lemma canonical_image_word: "supported ty \<Longrightarrow> canonical_image ty w \<longleftrightarrow> word_of_int (to_i128 ty w) = w"
  by (simp add: canonical_image_def canonicalize_u64_word)

lemma bind_map_u64:
  assumes "supported ty" "\<And>x. m = Some x \<Longrightarrow> fits_i128 ty x"
  shows "Option.bind m (map_u64 ty) = map_option word_of_int m"
  using assms by (cases m) (simp_all add: map_u64_def canonicalize_id)

lemma checked_u64_eqs:
  fixes a b :: u64
  assumes "supported ty"
  defines "m \<equiv> to_i128 ty"
  shows "checked_add_u64 ty a b = map_option word_of_int (checked_result ty (m a + m b))"
    "checked_sub_u64 ty a b = map_option word_of_int (checked_result ty (m a - m b))"
    "checked_mul_u64 ty a b = map_option word_of_int (checked_result ty (m a * m b))"
    "checked_neg_u64 ty a = map_option word_of_int (checked_result ty (- m a))"
    "checked_div_u64 ty a b =
       (if m b = 0 then None else map_option word_of_int (checked_result ty (m a sdiv m b)))"
    "checked_rem_u64 ty a b =
       (if m b = 0 \<or> \<not> fits_i128 ty (m a sdiv m b) then None else Some (word_of_int (m a smod m b)))"
proof -
  note fit = to_i128_fits [OF assms(1)]
  note res = checked_i128_results_fit [OF assms(1) fit fit]
  note eqs = checked_i128_eqs [OF assms(1) fit fit]
  note defs = m_def checked_add_u64_def checked_sub_u64_def checked_mul_u64_def
      checked_div_u64_def checked_rem_u64_def checked_neg_u64_def
  show "checked_add_u64 ty a b = map_option word_of_int (checked_result ty (m a + m b))"
    unfolding defs using eqs [of a b] res(1) [of a b] by (metis bind_map_u64 assms(1))
  show "checked_sub_u64 ty a b = map_option word_of_int (checked_result ty (m a - m b))"
    unfolding defs using eqs [of a b] res(2) [of a b] by (metis bind_map_u64 assms(1))
  show "checked_mul_u64 ty a b = map_option word_of_int (checked_result ty (m a * m b))"
    unfolding defs using eqs [of a b] res(3) [of a b] by (metis bind_map_u64 assms(1))
  show "checked_neg_u64 ty a = map_option word_of_int (checked_result ty (- m a))"
    unfolding defs using eqs [of a b] res(6) [of a] by (metis bind_map_u64 assms(1))
  have "checked_div_u64 ty a b = map_option word_of_int (checked_div_i128 ty (m a) (m b))"
    unfolding defs using res(4) [of a b] by (metis bind_map_u64 assms(1))
  then show "checked_div_u64 ty a b =
      (if m b = 0 then None else map_option word_of_int (checked_result ty (m a sdiv m b)))"
    using eqs [of a b] by (simp add: m_def)
  have "checked_rem_u64 ty a b = map_option word_of_int (checked_rem_i128 ty (m a) (m b))"
    unfolding defs using res(5) [of a b] by (metis bind_map_u64 assms(1))
  then show "checked_rem_u64 ty a b =
      (if m b = 0 \<or> \<not> fits_i128 ty (m a sdiv m b) then None else Some (word_of_int (m a smod m b)))"
    using eqs [of a b] by (simp add: m_def)
qed

lemma wrapping_u64_eqs:
  fixes a b :: u64
  assumes "supported ty"
  defines "m \<equiv> to_i128 ty"
  shows "wrapping_add_u64 ty a b = word_of_int (canonicalize_i128 ty (m a + m b))"
    "wrapping_sub_u64 ty a b = word_of_int (canonicalize_i128 ty (m a - m b))"
    "wrapping_mul_u64 ty a b = word_of_int (canonicalize_i128 ty (m a * m b))"
  unfolding m_def wrapping_add_u64_def wrapping_sub_u64_def wrapping_mul_u64_def canonicalize_u64_def
  by (simp_all only: canonicalize_cong [OF assms(1) uint_arith_mod(1) [OF assms(1)]]
      canonicalize_cong [OF assms(1) uint_arith_mod(2) [OF assms(1)]]
      canonicalize_cong [OF assms(1) uint_arith_mod(3) [OF assms(1)]])

text \<open>Every result is the register image of the number that it reads back as.\<close>

lemma word_of_reading: "supported ty \<Longrightarrow> word_of_int (to_i128 ty (canonicalize_u64 ty v)) = canonicalize_u64 ty v"
  using canonical_image_canonicalize[of ty v] canonical_image_word[of ty "canonicalize_u64 ty v"] by simp

lemma word_of_fitting: "supported ty \<Longrightarrow> fits_i128 ty x \<Longrightarrow> word_of_int (to_i128 ty (word_of_int x)) = (word_of_int x :: u64)"
  by (simp add: to_i128_of_int canonicalize_id)

lemma results_canonical:
  assumes "supported ty"
  shows "\<forall>r \<in> {wrapping_add_u64 ty a b, wrapping_sub_u64 ty a b, wrapping_mul_u64 ty a b, bitnot_u64 ty a, shift_u64 ty a k left}.
      r = word_of_int (to_i128 ty r)"
    "\<forall>r. Some r \<in> {checked_add_u64 ty a b, checked_sub_u64 ty a b, checked_mul_u64 ty a b, checked_div_u64 ty a b,
      checked_rem_u64 ty a b, checked_neg_u64 ty a} \<longrightarrow> r = word_of_int (to_i128 ty r)"
proof -
  have "shift_u64 ty a k left = word_of_int (to_i128 ty (shift_u64 ty a k left))"
    by (simp add: shift_u64_def shift_i128_def Let_def word_of_fitting canonicalize_fits assms)
  then show "\<forall>r \<in> {wrapping_add_u64 ty a b, wrapping_sub_u64 ty a b, wrapping_mul_u64 ty a b, bitnot_u64 ty a, shift_u64 ty a k left}.
      r = word_of_int (to_i128 ty r)"
    by (simp add: wrapping_add_u64_def wrapping_sub_u64_def wrapping_mul_u64_def bitnot_u64_def word_of_reading assms)
  note fit = to_i128_fits [OF assms]
  note res = checked_i128_results_fit [OF assms fit fit]
  have image: "w = word_of_int (to_i128 ty w)" if "Option.bind m (map_u64 ty) = Some w" "\<And>x. m = Some x \<Longrightarrow> fits_i128 ty x" for m w
    using that word_of_fitting[OF assms] bind_map_u64[OF assms that(2), of m] by (cases m) auto
  show "\<forall>r. Some r \<in> {checked_add_u64 ty a b, checked_sub_u64 ty a b, checked_mul_u64 ty a b, checked_div_u64 ty a b,
      checked_rem_u64 ty a b, checked_neg_u64 ty a} \<longrightarrow> r = word_of_int (to_i128 ty r)"
    unfolding checked_add_u64_def checked_sub_u64_def checked_mul_u64_def checked_div_u64_def checked_rem_u64_def checked_neg_u64_def
    using image res by (metis insert_iff singletonD)
qed

text \<open>
  C32. The 64-bit adapters the compiler folds and emits with are a faithful image of the
  mathematical operations: reading a result back gives the mathematical operation on the read
  operands, with the same failures, and every result is again a canonical register image: it is
  the register image of the number that it reads back as.
\<close>

theorem u64_adapters_refine:
  assumes "supported ty"
  defines "m \<equiv> to_i128 ty"
  shows "map_option m (checked_add_u64 ty a b) = checked_add_i128 ty (m a) (m b)
    \<and> map_option m (checked_sub_u64 ty a b) = checked_sub_i128 ty (m a) (m b)
    \<and> map_option m (checked_mul_u64 ty a b) = checked_mul_i128 ty (m a) (m b)
    \<and> map_option m (checked_div_u64 ty a b) = checked_div_i128 ty (m a) (m b)
    \<and> map_option m (checked_rem_u64 ty a b) = checked_rem_i128 ty (m a) (m b)
    \<and> map_option m (checked_neg_u64 ty a) = checked_neg_i128 ty (m a)
    \<and> m (wrapping_add_u64 ty a b) = wrapping_add_i128 ty (m a) (m b)
    \<and> m (wrapping_sub_u64 ty a b) = wrapping_sub_i128 ty (m a) (m b)
    \<and> m (wrapping_mul_u64 ty a b) = wrapping_mul_i128 ty (m a) (m b)
    \<and> m (bitnot_u64 ty a) = bitnot_i128 ty (m a)
    \<and> m (shift_u64 ty a k left) = shift_i128 ty (m a) (uint k) left
    \<and> compare_u64 ty a b = compare_i128 ty (m a) (m b)
    \<and> (\<forall>r \<in> {wrapping_add_u64 ty a b, wrapping_sub_u64 ty a b, wrapping_mul_u64 ty a b, bitnot_u64 ty a, shift_u64 ty a k left}.
        r = word_of_int (m r))
    \<and> (\<forall>r. Some r \<in> {checked_add_u64 ty a b, checked_sub_u64 ty a b, checked_mul_u64 ty a b, checked_div_u64 ty a b,
        checked_rem_u64 ty a b, checked_neg_u64 ty a} \<longrightarrow> r = word_of_int (m r))"
  unfolding m_def using u64_adapters_eqs [OF assms(1)] results_canonical [OF assms(1)] by blast

lemma u64_adapters_refine_witness:
  "to_i128 \<lparr>bits = 8, is_signed = True\<rparr> (wrapping_add_u64 \<lparr>bits = 8, is_signed = True\<rparr> 127 1)
   = wrapping_add_i128 \<lparr>bits = 8, is_signed = True\<rparr> (to_i128 \<lparr>bits = 8, is_signed = True\<rparr> 127)
       (to_i128 \<lparr>bits = 8, is_signed = True\<rparr> 1)
   \<and> wrapping_add_u64 \<lparr>bits = 8, is_signed = True\<rparr> 127 1
     = word_of_int (to_i128 \<lparr>bits = 8, is_signed = True\<rparr> (wrapping_add_u64 \<lparr>bits = 8, is_signed = True\<rparr> 127 1))"
proof -
  have "supported \<lparr>bits = 8, is_signed = True\<rparr>" by (simp add: supported_def)
  then show ?thesis using u64_adapters_refine [of "\<lparr>bits = 8, is_signed = True\<rparr>" 127 1 0 True] by blast
qed

lemma to_i128_zero [simp]: "supported ty \<Longrightarrow> to_i128 ty 0 = 0"
  by (simp add: to_i128_eq canonicalize_zero)

lemma to_i128_one [simp]: "supported ty \<Longrightarrow> to_i128 ty 1 = 1"
  by (simp add: to_i128_eq canonicalize_id fits_alt) (auto simp: supported_def intro!: canonicalize_id simp: fits_alt)

lemma fits_zero [simp]: "fits_i128 ty 0"
  by (simp add: fits_alt)

end
