(* ===== verification/Branch_Join.thy ===== *)
theory Branch_Join
  imports Main "HOL-Library.Multiset"
begin

text \<open>
  The contract of a control-flow join: the operation the ownership checker applies at the
  end of an \<open>if\<close>, a \<open>match\<close> or a loop.  A client only looks at an observation of the joined
  state (which paths may and must have been moved), and relies on the join being commutative,
  associative and idempotent up to that observation.  From the contract follows that the
  result of joining the arms of a branch does not depend on the order in which they are
  visited.
\<close>

locale branch_join =
  fixes join :: "'a \<Rightarrow> 'a \<Rightarrow> 'a"
    and ok :: "'a \<Rightarrow> bool"
    and obs :: "'a \<Rightarrow> 'o"
  assumes ok_join: "ok a \<Longrightarrow> ok b \<Longrightarrow> ok (join a b)"
    and obs_cong: "ok a \<Longrightarrow> ok a' \<Longrightarrow> ok b \<Longrightarrow> ok b' \<Longrightarrow> obs a = obs a' \<Longrightarrow> obs b = obs b' \<Longrightarrow>
      obs (join a b) = obs (join a' b')"
    and obs_comm: "ok a \<Longrightarrow> ok b \<Longrightarrow> obs (join a b) = obs (join b a)"
    and obs_assoc: "ok a \<Longrightarrow> ok b \<Longrightarrow> ok c \<Longrightarrow>
      obs (join (join a b) c) = obs (join a (join b c))"
    and obs_idem: "ok a \<Longrightarrow> obs (join a a) = obs a"
begin

lemma ok_foldl: "ok a \<Longrightarrow> list_all ok xs \<Longrightarrow> ok (foldl join a xs)"
  by (induction xs arbitrary: a) (auto intro: ok_join)

lemma obs_swap:
  assumes "ok a" "ok x" "ok y"
  shows "obs (join (join a x) y) = obs (join (join a y) x)"
proof -
  have "obs (join (join a x) y) = obs (join a (join x y))" using assms by (simp add: obs_assoc)
  also have "\<dots> = obs (join a (join y x))"
    using assms by (intro obs_cong refl obs_comm ok_join)
  also have "\<dots> = obs (join (join a y) x)" using assms by (simp add: obs_assoc)
  finally show ?thesis .
qed

lemma foldl_obs_cong:
  "ok a \<Longrightarrow> ok a' \<Longrightarrow> obs a = obs a' \<Longrightarrow> list_all ok xs \<Longrightarrow>
    obs (foldl join a xs) = obs (foldl join a' xs)"
proof (induction xs arbitrary: a a')
  case (Cons x xs)
  then have "obs (join a x) = obs (join a' x)" by (intro obs_cong) auto
  with Cons show ?case by (auto intro: ok_join)
qed simp

lemma foldl_obs_move:
  "ok a \<Longrightarrow> ok x \<Longrightarrow> list_all ok xs \<Longrightarrow>
    obs (foldl join a (xs @ [x])) = obs (foldl join a (x # xs))"
proof (induction xs arbitrary: a)
  case (Cons y ys)
  then have "obs (foldl join (join a y) (ys @ [x])) = obs (foldl join (join (join a y) x) ys)"
    by (auto intro: ok_join)
  also have "\<dots> = obs (foldl join (join (join a x) y) ys)"
    using Cons.prems by (intro foldl_obs_cong) (auto intro: ok_join obs_swap)
  finally show ?case by simp
qed simp

lemma foldl_obs_perm:
  "ok a \<Longrightarrow> list_all ok xs \<Longrightarrow> mset xs = mset ys \<Longrightarrow>
    obs (foldl join a xs) = obs (foldl join a ys)"
proof (induction xs arbitrary: a ys)
  case (Cons x xs)
  then have "x \<in> set ys" using mset_eq_setD by fastforce
  then obtain us vs where ys: "ys = us @ x # vs" by (auto simp: in_set_conv_decomp)
  with Cons.prems have perm: "mset xs = mset (us @ vs)" by simp
  then have oks: "list_all ok (us @ vs)"
    using Cons.prems(2) mset_eq_setD [OF perm] by (simp add: list_all_iff)
  have "obs (foldl join a (x # xs)) = obs (foldl join (join a x) (us @ vs))"
    using Cons.IH [of "join a x" "us @ vs"] Cons.prems perm by (auto intro: ok_join)
  also have "\<dots> = obs (foldl join (foldl join a (us @ [x])) vs)"
    using Cons.prems oks foldl_obs_move [of a x us]
    by (simp del: foldl_append add: foldl_append [of _ _ us vs])
      (rule foldl_obs_cong, auto intro: ok_join ok_foldl)
  finally show ?case by (simp add: ys)
qed simp

lemma join_arms_perm:
  assumes "list_all ok (a # xs)" and "mset (a # xs) = mset (b # ys)"
  shows "obs (foldl join a xs) = obs (foldl join b ys)"
proof (cases "a = b")
  case True
  with assms foldl_obs_perm [of a xs ys] show ?thesis by simp
next
  case False
  with mset_eq_setD [OF assms(2)] have "b \<in> set xs" by auto
  then obtain us vs where xs: "xs = us @ b # vs" by (auto simp: in_set_conv_decomp)
  then have ys: "mset ys = mset (a # us @ vs)" using assms(2) by simp
  have oks: "ok a" "ok b" "list_all ok (us @ vs)" "list_all ok xs" using assms(1) xs by auto
  then have "list_all ok ys" using mset_eq_setD [OF ys] by (simp add: list_all_iff)
  have "obs (foldl join a xs) = obs (foldl join a (b # us @ vs))"
    using oks xs by (intro foldl_obs_perm) auto
  also have "\<dots> = obs (foldl join b (a # us @ vs))"
    using oks by (simp del: foldl_append) (intro foldl_obs_cong ok_join obs_comm, auto)
  also have "\<dots> = obs (foldl join b ys)"
    using oks \<open>list_all ok ys\<close> ys by (intro foldl_obs_perm [symmetric]) auto
  finally show ?thesis .
qed

lemma join_absorbs:
  assumes "ok a" "ok b"
  shows "obs (join (join a b) b) = obs (join a b)"
proof -
  have "obs (join (join a b) b) = obs (join a (join b b))" using assms by (simp add: obs_assoc)
  also have "\<dots> = obs (join a b)" using assms by (intro obs_cong) (auto intro: ok_join obs_idem)
  finally show ?thesis .
qed

end

end
