(* ===== verification/Move_State.thy ===== *)
theory Move_State
  imports Rue_Prelude Branch_Join "HOL-Library.Sublist"
begin

text \<open>
  The per-variable move lattice and the move maps of the ownership checker
  (\<open>crates/rue-air/src/sema/ownership_state.rs\<close>, first half): marking and clearing moved
  field paths, the queries the use-after-move checks ask, the branch join, and its
  point-wise extension to maps from variables to states.

  An interned symbol (\<open>Spur\<close>) is a \<open>nat\<close>; a hash map is a partial function; the \<open>Vec\<close>
  of partial moves is a list, because the code keeps it as an association list whose order the
  queries see.
\<close>

type_synonym spur = nat
type_synonym field_path = "spur list"

record move_state =
  full_move :: "span option"
  full_move_on_all_paths :: bool
  partial_moves :: "(field_path \<times> span) list"
  partial_moves_on_all_paths :: "field_path set"

type_synonym move_map = "spur \<rightharpoonup> move_state"

definition default_move_state :: move_state where
  "default_move_state =
     \<lparr>full_move = None, full_move_on_all_paths = False,
      partial_moves = [], partial_moves_on_all_paths = {}\<rparr>"

section \<open>Operations on one variable\<close>

fun upsert_partial :: "field_path \<Rightarrow> span \<Rightarrow> (field_path \<times> span) list \<Rightarrow> (field_path \<times> span) list" where
  "upsert_partial path sp [] = [(path, sp)]"
| "upsert_partial path sp ((p, s) # ms) =
     (if p = path then (p, sp) # ms else (p, s) # upsert_partial path sp ms)"

definition mark_path_moved :: "field_path \<Rightarrow> span \<Rightarrow> move_state \<Rightarrow> move_state" where
  "mark_path_moved path sp st =
     (if path = [] then
        st\<lparr>full_move := Some sp, full_move_on_all_paths := True,
           partial_moves := [], partial_moves_on_all_paths := {}\<rparr>
      else if full_move st = None then
        st\<lparr>partial_moves := upsert_partial path sp (partial_moves st),
           partial_moves_on_all_paths := insert path (partial_moves_on_all_paths st)\<rparr>
      else st)"

definition at_or_below :: "field_path \<Rightarrow> field_path \<Rightarrow> bool" where
  "at_or_below path moved \<longleftrightarrow> length moved \<ge> length path \<and> take (length path) moved = path"

definition mark_path_reinitialized :: "field_path \<Rightarrow> move_state \<Rightarrow> move_state" where
  "mark_path_reinitialized path st =
     st\<lparr>partial_moves := filter (\<lambda>(moved, _). \<not> at_or_below path moved) (partial_moves st),
        partial_moves_on_all_paths :=
          Set.filter (\<lambda>moved. \<not> at_or_below path moved) (partial_moves_on_all_paths st)\<rparr>"

definition path_rank :: "field_path \<Rightarrow> field_path \<Rightarrow> nat" where
  "path_rank path moved = (if length moved = length path then 0 else length moved)"

fun best_moved :: "field_path \<Rightarrow> (field_path \<times> span) list \<Rightarrow> (nat \<times> span) option \<Rightarrow> (nat \<times> span) option" where
  "best_moved path [] best = best"
| "best_moved path ((moved, sp) # ms) best =
     best_moved path ms
       (if length moved \<le> length path \<and> take (length moved) path = moved
        then (case best of
                None \<Rightarrow> Some (path_rank path moved, sp)
              | Some (r, _) \<Rightarrow>
                  if path_rank path moved < r then Some (path_rank path moved, sp) else best)
        else best)"

definition is_path_moved :: "field_path \<Rightarrow> move_state \<Rightarrow> span option" where
  "is_path_moved path st =
     (case full_move st of
        Some sp \<Rightarrow> Some sp
      | None \<Rightarrow> map_option snd (best_moved path (partial_moves st) None))"

definition moved_strict_descendant :: "field_path \<Rightarrow> move_state \<Rightarrow> (field_path \<times> span) option" where
  "moved_strict_descendant path st =
     find (\<lambda>(moved, _). length moved > length path \<and> take (length path) moved = path)
       (partial_moves st)"

definition is_path_or_descendant_moved :: "field_path \<Rightarrow> move_state \<Rightarrow> span option" where
  "is_path_or_descendant_moved path st =
     (case is_path_moved path st of
        Some sp \<Rightarrow> Some sp
      | None \<Rightarrow> map_option snd (moved_strict_descendant path st))"

definition is_any_part_moved :: "move_state \<Rightarrow> span option" where
  "is_any_part_moved st =
     (case full_move st of
        Some sp \<Rightarrow> Some sp
      | None \<Rightarrow> (case partial_moves st of [] \<Rightarrow> None | (_, sp) # _ \<Rightarrow> Some sp))"

definition is_empty_state :: "move_state \<Rightarrow> bool" where
  "is_empty_state st \<longleftrightarrow> full_move st = None \<and> partial_moves st = []"

section \<open>The branch join\<close>

fun append_missing ::
  "(field_path \<times> span) list \<Rightarrow> (field_path \<times> span) list \<Rightarrow> (field_path \<times> span) list" where
  "append_missing acc [] = acc"
| "append_missing acc ((path, sp) # ms) =
     append_missing (if list_ex (\<lambda>(p, _). p = path) acc then acc else acc @ [(path, sp)]) ms"

definition merge_union :: "move_state \<Rightarrow> move_state \<Rightarrow> move_state" where
  "merge_union b1 b2 =
     \<lparr>full_move = (case full_move b1 of Some sp \<Rightarrow> Some sp | None \<Rightarrow> full_move b2),
      full_move_on_all_paths = (full_move_on_all_paths b1 \<and> full_move_on_all_paths b2),
      partial_moves = append_missing (partial_moves b1) (partial_moves b2),
      partial_moves_on_all_paths =
        (if full_move_on_all_paths b1 then partial_moves_on_all_paths b2
         else if full_move_on_all_paths b2 then partial_moves_on_all_paths b1
         else partial_moves_on_all_paths b1 \<inter> partial_moves_on_all_paths b2)\<rparr>"

definition move_state_eq :: "move_state \<Rightarrow> move_state \<Rightarrow> bool" where
  "move_state_eq a b \<longleftrightarrow>
     full_move a = full_move b
     \<and> full_move_on_all_paths a = full_move_on_all_paths b
     \<and> partial_moves_on_all_paths a = partial_moves_on_all_paths b
     \<and> length (partial_moves a) = length (partial_moves b)
     \<and> list_all (\<lambda>(p, s). list_ex (\<lambda>(op, os). op = p \<and> os = s) (partial_moves b)) (partial_moves a)"

section \<open>Move maps\<close>

definition union_move_maps :: "move_map \<Rightarrow> move_map \<Rightarrow> move_map" where
  "union_move_maps m1 m2 = (\<lambda>symbol.
     if m1 symbol = None \<and> m2 symbol = None then None
     else
       (let state1 = (case m1 symbol of Some st \<Rightarrow> st | None \<Rightarrow> default_move_state);
            state2 = (case m2 symbol of Some st \<Rightarrow> st | None \<Rightarrow> default_move_state);
            merged = merge_union state1 state2
        in if is_empty_state merged then None else Some merged))"

definition move_map_eq :: "move_map \<Rightarrow> move_map \<Rightarrow> bool" where
  "move_map_eq m1 m2 \<longleftrightarrow> (\<forall>symbol. rel_option move_state_eq (m1 symbol) (m2 symbol))"

definition move_map_below :: "move_map \<Rightarrow> move_map \<Rightarrow> bool" where
  "move_map_below lower upper \<longleftrightarrow> move_map_eq (union_move_maps upper lower) upper"

definition restore_scope_moves :: "move_map \<Rightarrow> (spur \<times> move_state option) list \<Rightarrow> move_map" where
  "restore_scope_moves moves frame =
     fold (\<lambda>(symbol, old_moves) m. m(symbol := old_moves)) (rev frame) moves"

section \<open>Invariant\<close>

text \<open>
  The invariant the comments of the source state: keys are unique, the whole variable is never a
  partial move, the must-set lies within the may-keys, and a variable moved on every path has no
  partial moves left.
\<close>

definition path_keys :: "(field_path \<times> span) list \<Rightarrow> field_path set" where
  "path_keys ms = fst ` set ms"

definition wf_move_state :: "move_state \<Rightarrow> bool" where
  "wf_move_state st \<longleftrightarrow>
     distinct (map fst (partial_moves st)) \<and> [] \<notin> path_keys (partial_moves st)
     \<and> partial_moves_on_all_paths st \<subseteq> path_keys (partial_moves st)
     \<and> (full_move_on_all_paths st \<longrightarrow> full_move st \<noteq> None \<and> partial_moves st = [])"

definition wf_move_map :: "move_map \<Rightarrow> bool" where
  "wf_move_map m \<longleftrightarrow> (\<forall>st \<in> ran m. wf_move_state st)"

lemma path_keys_simps [simp]:
  "path_keys [] = {}" "path_keys ((p, sp) # ms) = insert p (path_keys ms)"
  "path_keys (ms @ ms') = path_keys ms \<union> path_keys ms'"
  by (auto simp: path_keys_def)

lemma path_keys_empty [simp]: "path_keys ms = {} \<longleftrightarrow> ms = []"
  by (simp add: path_keys_def)

lemma path_keysI: "(p, sp) \<in> set ms \<Longrightarrow> p \<in> path_keys ms"
  by (force simp: path_keys_def)

lemma path_keysE: "p \<in> path_keys ms \<Longrightarrow> (\<And>sp. (p, sp) \<in> set ms \<Longrightarrow> P) \<Longrightarrow> P"
  by (auto simp: path_keys_def)

lemma map_of_None_keys [simp]: "map_of ms p = None \<longleftrightarrow> p \<notin> path_keys ms"
  by (simp add: map_of_eq_None_iff path_keys_def)

lemma list_ex_key [simp]: "list_ex (\<lambda>(p, _). p = path) ms \<longleftrightarrow> path \<in> path_keys ms"
  by (force simp: list_ex_iff path_keys_def)

lemma path_keys_filter [simp]:
  "path_keys (filter (\<lambda>(p, _). P p) ms) = {p \<in> path_keys ms. P p}"
  by (force simp: path_keys_def)

lemma fst_image_keys [simp]: "fst ` set ms = path_keys ms"
  by (simp add: path_keys_def)

lemma map_of_not_key [simp]: "p \<notin> path_keys ms \<Longrightarrow> map_of ms p = None"
  by simp

lemma at_or_below_prefix [simp]: "at_or_below path moved \<longleftrightarrow> prefix path moved"
  by (auto simp: at_or_below_def prefix_def) (metis append_take_drop_id)

lemma stored_prefix_iff:
  "length moved \<le> length path \<and> take (length moved) path = moved \<longleftrightarrow> prefix moved path"
  by (auto simp: prefix_def) (metis append_take_drop_id)

lemma keys_upsert [simp]: "path_keys (upsert_partial path sp ms) = insert path (path_keys ms)"
  by (induction ms rule: upsert_partial.induct) auto

lemma map_fst_upsert:
  "map fst (upsert_partial path sp ms) =
     (if path \<in> path_keys ms then map fst ms else map fst ms @ [path])"
  by (induction ms rule: upsert_partial.induct) auto

lemma map_of_upsert: "map_of (upsert_partial path sp ms) = (map_of ms)(path \<mapsto> sp)"
  by (induction ms rule: upsert_partial.induct) auto

lemma keys_append_missing [simp]:
  "path_keys (append_missing acc ms) = path_keys acc \<union> path_keys ms"
  by (induction acc ms rule: append_missing.induct) auto

lemma distinct_append_missing:
  "distinct (map fst acc) \<Longrightarrow> distinct (map fst (append_missing acc ms))"
  by (induction acc ms rule: append_missing.induct) auto

lemma append_missing_nil [simp]: "append_missing acc ms = [] \<longleftrightarrow> acc = [] \<and> ms = []"
  by (metis keys_append_missing path_keys_empty Un_empty)

lemma wf_default [simp]: "wf_move_state default_move_state"
  by (simp add: wf_move_state_def default_move_state_def)

lemma wf_mark: "wf_move_state st \<Longrightarrow> wf_move_state (mark_path_moved path sp st)"
  by (auto simp: wf_move_state_def mark_path_moved_def map_fst_upsert)

lemma wf_reinit: "wf_move_state st \<Longrightarrow> wf_move_state (mark_path_reinitialized path st)"
  by (force simp: wf_move_state_def mark_path_reinitialized_def distinct_map_filter)

lemma wf_merge: "wf_move_state a \<Longrightarrow> wf_move_state b \<Longrightarrow> wf_move_state (merge_union a b)"
  by (auto simp: wf_move_state_def merge_union_def distinct_append_missing split: option.splits)

section \<open>May-moved and must-moved paths\<close>

definition may_moved :: "move_state \<Rightarrow> field_path \<Rightarrow> bool" where
  "may_moved st path \<longleftrightarrow> full_move st \<noteq> None \<or> (\<exists>q \<in> path_keys (partial_moves st). prefix q path)"

definition must_moved :: "move_state \<Rightarrow> field_path \<Rightarrow> bool" where
  "must_moved st path \<longleftrightarrow>
     full_move_on_all_paths st \<or> (\<exists>q \<in> partial_moves_on_all_paths st. prefix q path)"

lemma must_imp_may: "wf_move_state st \<Longrightarrow> must_moved st path \<Longrightarrow> may_moved st path"
  by (auto simp: wf_move_state_def must_moved_def may_moved_def)

lemma may_merge: "may_moved (merge_union a b) path \<longleftrightarrow> may_moved a path \<or> may_moved b path"
  by (auto simp: may_moved_def merge_union_def split: option.splits)

lemma must_merge: "must_moved (merge_union a b) path \<Longrightarrow> must_moved a path \<and> must_moved b path"
  by (auto simp: must_moved_def merge_union_def split: if_splits)

text \<open>The scan keeps the best candidate seen: least rank, first on a tie.\<close>

lemma best_moved_bound:
  "best_moved path ms best = Some (r, sp) \<Longrightarrow>
     (best = Some (r, sp) \<or> (\<exists>moved. (moved, sp) \<in> set ms \<and> prefix moved path \<and> r = path_rank path moved))
     \<and> (\<forall>moved \<in> path_keys ms. prefix moved path \<longrightarrow> r \<le> path_rank path moved)
     \<and> (\<forall>r' s'. best = Some (r', s') \<longrightarrow> r \<le> r')"
proof (induction path ms best rule: best_moved.induct)
  case (2 path moved s ms best)
  let ?best' = "if prefix moved path then
      (case best of None \<Rightarrow> Some (path_rank path moved, s)
       | Some (r, _) \<Rightarrow> if path_rank path moved < r then Some (path_rank path moved, s) else best)
      else best"
  from "2.prems" have "best_moved path ms ?best' = Some (r, sp)"
    by (simp add: stored_prefix_iff)
  from "2.IH" [unfolded stored_prefix_iff, OF this] show ?case
    by (auto split: if_splits option.splits prod.splits)
qed simp

lemma best_moved_None:
  "best_moved path ms best = None \<longleftrightarrow> best = None \<and> (\<forall>q \<in> path_keys ms. \<not> prefix q path)"
  by (induction path ms best rule: best_moved.induct)
    (auto simp: stored_prefix_iff split: option.splits)

lemma is_path_moved_iff: "is_path_moved path st \<noteq> None \<longleftrightarrow> may_moved st path"
  using best_moved_None [of path "partial_moves st" None]
  by (cases "best_moved path (partial_moves st) None")
    (auto simp: is_path_moved_def may_moved_def split: option.splits)

lemma is_path_or_descendant_moved_iff:
  "is_path_or_descendant_moved path st \<noteq> None \<longleftrightarrow>
     may_moved st path \<or> (\<exists>q \<in> path_keys (partial_moves st). prefix path q)"
proof -
  have strict: "length q > length path \<and> take (length path) q = path \<longleftrightarrow> strict_prefix path q" for q
    using at_or_below_prefix [of path q] unfolding at_or_below_def
    by (metis nat_less_le prefix_length_less prefix_order.less_le not_equal_is_parallel parallelD1)
  have "moved_strict_descendant path st = None \<longleftrightarrow>
      (\<forall>q \<in> path_keys (partial_moves st). \<not> strict_prefix path q)"
    unfolding moved_strict_descendant_def find_None_iff strict
    by (auto elim!: path_keysE dest: path_keysI)
  then show ?thesis
    using is_path_moved_iff [of path st] prefix_order.order_iff_strict
    by (auto simp: is_path_or_descendant_moved_def may_moved_def strict_prefix_def split: option.splits)
qed

section \<open>The scan against the probe order it replaced\<close>

definition probe_paths :: "field_path \<Rightarrow> field_path list" where
  "probe_paths path = path # map (\<lambda>n. take n path) [1..<length path]"

fun first_probe :: "(field_path \<times> span) list \<Rightarrow> field_path list \<Rightarrow> span option" where
  "first_probe ms [] = None"
| "first_probe ms (p # ps) = (case map_of ms p of Some sp \<Rightarrow> Some sp | None \<Rightarrow> first_probe ms ps)"

lemma first_probe_append:
  "first_probe ms (ps @ qs) =
     (case first_probe ms ps of Some sp \<Rightarrow> Some sp | None \<Rightarrow> first_probe ms qs)"
  by (induction ps) (auto split: option.splits)

lemma first_probe_None: "first_probe ms ps = None \<longleftrightarrow> (\<forall>p \<in> set ps. p \<notin> path_keys ms)"
proof (induction ps)
  case (Cons p ps)
  then show ?case
  proof (cases "map_of ms p")
    case None
    then have "p \<notin> path_keys ms" by simp
    with None Cons show ?thesis by simp
  next
    case (Some sp)
    then have "p \<in> path_keys ms" by (metis map_of_None_keys option.distinct(1))
    with Some show ?thesis by simp
  qed
qed simp

lemma first_probe_ancestor:
  assumes "map_of ms (take k path) = Some sp" "1 \<le> k" "k < length path"
    and "\<And>n. 1 \<le> n \<Longrightarrow> n < k \<Longrightarrow> take n path \<notin> path_keys ms"
  shows "first_probe ms (map (\<lambda>n. take n path) [1..<length path]) = Some sp"
proof -
  have "[1..<length path] = [1..<k] @ k # [Suc k..<length path]"
    using assms(2,3) upt_add_eq_append [of 1 k "length path - k"] upt_conv_Cons [of k "length path"]
    by simp
  moreover have "first_probe ms (map (\<lambda>n. take n path) [1..<k]) = None"
    using assms(4) by (auto simp: first_probe_None)
  ultimately show ?thesis using assms(1) by (simp add: first_probe_append)
qed

text \<open>
  The single scan over the moved paths reports the same move as the probe order it
  replaced: the exact path first, then its ancestors from the shortest up.
\<close>

theorem is_path_moved_probe_order:
  assumes "wf_move_state st" "full_move st = None"
  shows "is_path_moved path st = first_probe (partial_moves st) (probe_paths path)"
proof (cases "best_moved path (partial_moves st) None")
  case None
  then have "\<forall>q \<in> path_keys (partial_moves st). \<not> prefix q path" by (simp add: best_moved_None)
  moreover have "\<forall>p \<in> set (probe_paths path). prefix p path"
    by (auto simp: probe_paths_def take_is_prefix)
  ultimately have "first_probe (partial_moves st) (probe_paths path) = None"
    unfolding first_probe_None by blast
  with None assms(2) show ?thesis by (simp add: is_path_moved_def)
next
  case (Some best)
  let ?ms = "partial_moves st"
  obtain r sp where "best = (r, sp)" by force
  with Some obtain moved where moved: "(moved, sp) \<in> set ?ms" "prefix moved path" "r = path_rank path moved"
    and least: "\<And>q. q \<in> path_keys ?ms \<Longrightarrow> prefix q path \<Longrightarrow> r \<le> path_rank path q"
    using best_moved_bound [of path ?ms None r sp] by fastforce
  have dist: "distinct (map fst ?ms)" using assms(1) by (simp add: wf_move_state_def)
  have ne: "moved \<noteq> []" using assms(1) path_keysI [OF moved(1)] by (auto simp: wf_move_state_def)
  then have lookup: "map_of ?ms moved = Some sp" using dist moved(1) by simp
  have "first_probe ?ms (probe_paths path) = Some sp"
  proof (cases "length moved = length path")
    case True
    with moved(2) have "moved = path" by (auto simp: prefix_def)
    with lookup show ?thesis by (simp add: probe_paths_def)
  next
    case False
    let ?k = "length moved"
    have k: "1 \<le> ?k" "?k < length path" "take ?k path = moved"
      using False moved(2) ne prefix_length_le [OF moved(2)] by (auto simp: prefix_def Suc_le_eq)
    have "take n path \<notin> path_keys ?ms" if "1 \<le> n" "n < ?k" for n
      using least [of "take n path"] that k moved(3) False
      by (auto simp: path_rank_def take_is_prefix)
    moreover have "path \<notin> path_keys ?ms"
      using least [of path] k moved(3) False by (auto simp: path_rank_def)
    ultimately show ?thesis
      using first_probe_ancestor [of ?ms ?k path sp] lookup k
      by (auto simp: probe_paths_def split: option.splits)
  qed
  with Some \<open>best = (r, sp)\<close> assms(2) show ?thesis by (simp add: is_path_moved_def)
qed

lemma is_path_moved_probe_order_witness:
  "let sp = (\<lambda>n. \<lparr>file_id = 0, start_byte = n, end_byte = n + 1\<rparr>);
       st = default_move_state\<lparr>partial_moves := [([1, 2], sp 5), ([1], sp 9)]\<rparr>
   in is_path_moved [1, 2, 3] st = Some (sp 9) \<and> is_path_moved [1, 2] st = Some (sp 5)"
proof -
  define sp where "sp = (\<lambda>n. \<lparr>file_id = 0, start_byte = n, end_byte = n + 1\<rparr>)"
  define st where "st = default_move_state\<lparr>partial_moves := [([1, 2], sp 5), ([1], sp 9)]\<rparr>"
  have "wf_move_state st" "full_move st = None"
    by (simp_all add: st_def wf_move_state_def default_move_state_def)
  note eq = is_path_moved_probe_order [OF this]
  have "is_path_moved [1, 2, 3] st = Some (sp 9)" "is_path_moved [1, 2] st = Some (sp 5)"
    by (simp_all add: eq probe_paths_def upt_rec) (simp_all add: st_def)
  then show ?thesis unfolding Let_def st_def sp_def by blast
qed

section \<open>Marking and clearing\<close>

text \<open>
  C40. Every operation of the move lattice keeps its invariant: the fresh state has it, and
  marking a path moved, reinitialising a path and joining two branches preserve it.
\<close>

theorem move_state_invariant:
  assumes "wf_move_state a" "wf_move_state b"
  shows "wf_move_state default_move_state
    \<and> wf_move_state (mark_path_moved path sp a)
    \<and> wf_move_state (mark_path_reinitialized path a)
    \<and> wf_move_state (merge_union a b)"
  using assms by (simp add: wf_mark wf_reinit wf_merge)

lemma move_state_invariant_witness:
  "wf_move_state (merge_union (mark_path_moved [1] span0 default_move_state) default_move_state)"
  using move_state_invariant [OF wf_mark [OF wf_default, of "[1]" span0] wf_default, of "[]" span0] by simp

text \<open>
  Marking a path moves exactly that path and everything below it; reinitialising a path
  leaves the path usable as a whole value when none of its ancestors is moved, and changes
  nothing about paths outside it.
\<close>

theorem mark_reinit_effect:
  assumes "wf_move_state st" "full_move st = None"
  shows "(may_moved (mark_path_moved path sp st) q \<longleftrightarrow> may_moved st q \<or> prefix path q)
    \<and> (must_moved (mark_path_moved path sp st) q \<longleftrightarrow> must_moved st q \<or> prefix path q)
    \<and> (\<not> prefix path q \<longrightarrow>
         (may_moved (mark_path_reinitialized path st) q \<longleftrightarrow> may_moved st q)
         \<and> (must_moved (mark_path_reinitialized path st) q \<longleftrightarrow> must_moved st q))
    \<and> (\<not> (\<exists>k \<in> path_keys (partial_moves st). strict_prefix k path) \<longrightarrow>
         is_path_or_descendant_moved path (mark_path_reinitialized path st) = None)"
proof (intro conjI impI)
  show "may_moved (mark_path_moved path sp st) q \<longleftrightarrow> may_moved st q \<or> prefix path q"
    using assms by (auto simp: mark_path_moved_def may_moved_def)
  show "must_moved (mark_path_moved path sp st) q \<longleftrightarrow> must_moved st q \<or> prefix path q"
    using assms by (auto simp: mark_path_moved_def must_moved_def)
  let ?st' = "mark_path_reinitialized path st"
  have keys: "path_keys (partial_moves ?st') = {k \<in> path_keys (partial_moves st). \<not> prefix path k}"
    by (simp add: mark_path_reinitialized_def)
  show "may_moved ?st' q \<longleftrightarrow> may_moved st q" if "\<not> prefix path q"
    using that assms(2) prefix_order.trans
    by (auto simp: may_moved_def keys) (auto simp: mark_path_reinitialized_def)
  show "must_moved ?st' q \<longleftrightarrow> must_moved st q" if "\<not> prefix path q"
    using that prefix_order.trans by (auto simp: must_moved_def mark_path_reinitialized_def)
  show "is_path_or_descendant_moved path ?st' = None"
    if "\<not> (\<exists>k \<in> path_keys (partial_moves st). strict_prefix k path)"
  proof -
    have "full_move ?st' = None" using assms(2) by (simp add: mark_path_reinitialized_def)
    moreover have "\<not> prefix k path \<and> \<not> prefix path k" if "k \<in> path_keys (partial_moves ?st')" for k
      using that \<open>\<not> (\<exists>k \<in> _. _)\<close> unfolding keys by (auto simp: strict_prefix_def)
    ultimately show ?thesis
      using is_path_or_descendant_moved_iff [of path ?st'] unfolding may_moved_def by blast
  qed
qed

lemma mark_reinit_effect_witness:
  "let st = mark_path_moved [1, 2] span0 default_move_state
   in \<not> may_moved st [1, 3] \<and> may_moved st [1, 2, 4]
      \<and> is_path_or_descendant_moved [1] (mark_path_reinitialized [1] st) = None"
proof -
  define st where "st = mark_path_moved [1, 2] span0 default_move_state"
  have st: "wf_move_state st" "full_move st = None" "path_keys (partial_moves st) = {[1, 2]}"
    unfolding st_def by (simp_all add: wf_mark) (simp_all add: mark_path_moved_def default_move_state_def)
  have wf0: "wf_move_state default_move_state" "full_move default_move_state = None"
    by (simp, simp add: default_move_state_def)
  have "may_moved st [1, 2, 4]"
    unfolding st_def using mark_reinit_effect [OF wf0, of "[1, 2]" span0 "[1, 2, 4]"] by simp
  moreover have "\<not> may_moved st [1, 3]" by (simp add: may_moved_def st)
  moreover have "is_path_or_descendant_moved [1] (mark_path_reinitialized [1] st) = None"
    using mark_reinit_effect [OF st(1,2), of "[1]" span0 "[]"] st(3) by (simp add: strict_prefix_def)
  ultimately show ?thesis unfolding Let_def st_def by blast
qed

section \<open>What a join shows\<close>

text \<open>
  Diagnostics quote the span recorded first, so two joins of the same arms may differ in
  spans and in the order of the partial moves.  The shape of a state is what is left: the
  paths that may have moved and those that have moved on every path.
\<close>

type_synonym move_shape = "bool \<times> bool \<times> field_path set \<times> field_path set"

definition shape :: "move_state \<Rightarrow> move_shape" where
  "shape st = (full_move st \<noteq> None, full_move_on_all_paths st,
     path_keys (partial_moves st), partial_moves_on_all_paths st)"

definition shape_may :: "move_shape \<Rightarrow> field_path \<Rightarrow> bool" where
  "shape_may = (\<lambda>(full, all_paths, keys, must) path. full \<or> (\<exists>q \<in> keys. prefix q path))"

definition shape_must :: "move_shape \<Rightarrow> field_path \<Rightarrow> bool" where
  "shape_must = (\<lambda>(full, all_paths, keys, must) path. all_paths \<or> (\<exists>q \<in> must. prefix q path))"

lemma may_moved_shape: "may_moved st path \<longleftrightarrow> shape_may (shape st) path"
  by (simp add: may_moved_def shape_def shape_may_def)

lemma must_moved_shape: "must_moved st path \<longleftrightarrow> shape_must (shape st) path"
  by (simp add: must_moved_def shape_def shape_must_def)

lemma shape_merge:
  "shape (merge_union a b) =
     (let (f1, a1, k1, m1) = shape a; (f2, a2, k2, m2) = shape b
      in (f1 \<or> f2, a1 \<and> a2, k1 \<union> k2, if a1 then m2 else if a2 then m1 else m1 \<inter> m2))"
  by (auto simp: shape_def merge_union_def split: option.splits)

lemma wf_all_paths: "wf_move_state st \<Longrightarrow> full_move_on_all_paths st \<Longrightarrow>
    full_move st \<noteq> None \<and> partial_moves st = [] \<and> partial_moves_on_all_paths st = {}"
  by (auto simp: wf_move_state_def)

interpretation state_join: branch_join merge_union wf_move_state shape
proof unfold_locales
  show "wf_move_state (merge_union a b)" if "wf_move_state a" "wf_move_state b" for a b
    using that by (rule wf_merge)
  show "shape (merge_union a b) = shape (merge_union a' b')"
    if "shape a = shape a'" "shape b = shape b'" for a a' b b'
    using that by (simp add: shape_merge)
  show "shape (merge_union a b) = shape (merge_union b a)"
    if "wf_move_state a" "wf_move_state b" for a b
    using wf_all_paths [OF that(1)] wf_all_paths [OF that(2)]
    by (auto simp: shape_def merge_union_def split: option.splits)
  show "shape (merge_union (merge_union a b) c) = shape (merge_union a (merge_union b c))"
    if "wf_move_state a" "wf_move_state b" "wf_move_state c" for a b c
    using wf_all_paths [OF that(1)] wf_all_paths [OF that(2)] wf_all_paths [OF that(3)]
    unfolding shape_merge by (auto simp: shape_def)
  show "shape (merge_union a a) = shape a" if "wf_move_state a" for a
    by (auto simp: shape_def merge_union_def split: option.splits)
qed

section \<open>Joins of move maps\<close>

definition state_of :: "move_map \<Rightarrow> spur \<Rightarrow> move_state" where
  "state_of m symbol = (case m symbol of Some st \<Rightarrow> st | None \<Rightarrow> default_move_state)"

definition map_shape :: "move_map \<Rightarrow> spur \<Rightarrow> move_shape" where
  "map_shape m symbol = shape (state_of m symbol)"

lemma wf_state_of: "wf_move_map m \<Longrightarrow> wf_move_state (state_of m symbol)"
  by (auto simp: wf_move_map_def state_of_def ran_def split: option.splits)

lemma wf_move_mapI: "(\<And>symbol st. m symbol = Some st \<Longrightarrow> wf_move_state st) \<Longrightarrow> wf_move_map m"
  by (auto simp: wf_move_map_def ran_def)

lemma empty_state_shape:
  "wf_move_state st \<Longrightarrow> is_empty_state st \<Longrightarrow> shape st = shape default_move_state"
  by (auto simp: wf_move_state_def is_empty_state_def shape_def default_move_state_def)

lemma state_of_update [simp]: "state_of (m(symbol \<mapsto> st)) = (state_of m)(symbol := st)"
  by (auto simp: state_of_def)

lemma union_move_maps_state:
  "union_move_maps a b symbol =
     (if a symbol = None \<and> b symbol = None then None
      else let merged = merge_union (state_of a symbol) (state_of b symbol)
           in if is_empty_state merged then None else Some merged)"
  by (simp add: union_move_maps_def state_of_def)

lemma wf_union_maps: "wf_move_map a \<Longrightarrow> wf_move_map b \<Longrightarrow> wf_move_map (union_move_maps a b)"
  by (auto intro!: wf_move_mapI wf_merge wf_state_of
      simp: union_move_maps_state Let_def split: if_splits)

lemma map_shape_union:
  assumes "wf_move_map a" "wf_move_map b"
  shows "map_shape (union_move_maps a b) symbol =
    shape (merge_union (state_of a symbol) (state_of b symbol))"
proof (cases "a symbol = None \<and> b symbol = None")
  case True
  then show ?thesis
    by (simp add: map_shape_def union_move_maps_def state_of_def shape_def merge_union_def
        default_move_state_def)
next
  case False
  let ?st = "merge_union (state_of a symbol) (state_of b symbol)"
  have "wf_move_state ?st" using assms by (intro wf_merge wf_state_of)
  moreover have "state_of (union_move_maps a b) symbol =
      (if is_empty_state ?st then default_move_state else ?st)"
    using False by (auto simp: state_of_def [of "union_move_maps a b"] union_move_maps_state Let_def)
  ultimately show ?thesis by (simp add: map_shape_def empty_state_shape)
qed

interpretation map_join: branch_join union_move_maps wf_move_map map_shape
proof unfold_locales
  note [simp] = map_shape_union wf_union_maps wf_state_of
  show "wf_move_map (union_move_maps a b)" if "wf_move_map a" "wf_move_map b" for a b
    using that by simp
  show "map_shape (union_move_maps a b) = map_shape (union_move_maps a' b')"
    if "wf_move_map a" "wf_move_map a'" "wf_move_map b" "wf_move_map b'"
      "map_shape a = map_shape a'" "map_shape b = map_shape b'" for a a' b b'
  proof
    fix symbol
    have "shape (state_of a symbol) = shape (state_of a' symbol)"
      "shape (state_of b symbol) = shape (state_of b' symbol)"
      using fun_cong [OF that(5)] fun_cong [OF that(6)] by (simp_all add: map_shape_def)
    with that show "map_shape (union_move_maps a b) symbol = map_shape (union_move_maps a' b') symbol"
      by (simp add: shape_merge)
  qed
  show "map_shape (union_move_maps a b) = map_shape (union_move_maps b a)"
    if "wf_move_map a" "wf_move_map b" for a b
    using that by (auto simp: fun_eq_iff intro: state_join.obs_comm)
  show "map_shape (union_move_maps (union_move_maps a b) c) =
      map_shape (union_move_maps a (union_move_maps b c))"
    if "wf_move_map a" "wf_move_map b" "wf_move_map c" for a b c
  proof
    fix symbol
    let ?s = "\<lambda>m. state_of m symbol"
    have join: "shape (?s (union_move_maps x y)) = shape (merge_union (?s x) (?s y))"
      if "wf_move_map x" "wf_move_map y" for x y
      using map_shape_union [OF that] by (simp add: map_shape_def)
    have "shape (merge_union (?s (union_move_maps a b)) (?s c)) =
        shape (merge_union (merge_union (?s a) (?s b)) (?s c))"
      using that by (intro state_join.obs_cong) (auto intro: wf_merge simp: join)
    also have "\<dots> = shape (merge_union (?s a) (merge_union (?s b) (?s c)))"
      using that by (intro state_join.obs_assoc) simp_all
    also have "\<dots> = shape (merge_union (?s a) (?s (union_move_maps b c)))"
      using that by (intro state_join.obs_cong) (auto intro: wf_merge simp: join)
    finally show "map_shape (union_move_maps (union_move_maps a b) c) symbol =
        map_shape (union_move_maps a (union_move_maps b c)) symbol"
      using that by simp
  qed
  show "map_shape (union_move_maps a a) = map_shape a" if "wf_move_map a" for a
    using that by (simp add: fun_eq_iff) (simp add: map_shape_def state_join.obs_idem)
qed

text \<open>
  After a join a path may be moved exactly when it may be moved on one of the two
  branches, and it is reported as moved on every path only when it is moved on every path of
  both branches; a variable one of the maps does not mention counts as untouched there.
\<close>

theorem union_move_maps_sound:
  assumes "wf_move_map a" "wf_move_map b"
  shows "(may_moved (state_of (union_move_maps a b) symbol) path \<longleftrightarrow>
      may_moved (state_of a symbol) path \<or> may_moved (state_of b symbol) path)
    \<and> (must_moved (state_of (union_move_maps a b) symbol) path \<longrightarrow>
      must_moved (state_of a symbol) path \<and> must_moved (state_of b symbol) path)
    \<and> wf_move_map (union_move_maps a b)"
proof -
  have "shape (state_of (union_move_maps a b) symbol) =
      shape (merge_union (state_of a symbol) (state_of b symbol))"
    using map_shape_union [OF assms] by (simp add: map_shape_def)
  then have "may_moved (state_of (union_move_maps a b) symbol) path =
      may_moved (merge_union (state_of a symbol) (state_of b symbol)) path"
    "must_moved (state_of (union_move_maps a b) symbol) path =
      must_moved (merge_union (state_of a symbol) (state_of b symbol)) path"
    by (simp_all add: may_moved_shape must_moved_shape)
  then show ?thesis using may_merge must_merge wf_union_maps [OF assms] by blast
qed

lemma union_move_maps_sound_witness:
  "let a = [1 \<mapsto> mark_path_moved [7] span0 default_move_state]
   in may_moved (state_of (union_move_maps a Map.empty) 1) [7]
      \<and> \<not> must_moved (state_of (union_move_maps a Map.empty) 1) [7]"
proof -
  define a :: move_map where "a = [1 \<mapsto> mark_path_moved [7] span0 default_move_state]"
  have wf: "wf_move_map a" "wf_move_map Map.empty"
    by (auto intro!: wf_move_mapI wf_mark simp: a_def split: if_splits)
  have "may_moved (state_of a 1) [7]" "\<not> must_moved (state_of Map.empty 1) [7]"
    by (simp_all add: a_def state_of_def may_moved_def must_moved_def mark_path_moved_def
        default_move_state_def)
  then have "may_moved (state_of (union_move_maps a Map.empty) 1) [7]"
    "\<not> must_moved (state_of (union_move_maps a Map.empty) 1) [7]"
    using union_move_maps_sound [OF wf, of 1 "[7]"] by blast+
  then show ?thesis unfolding Let_def a_def by blast
qed

end
