(* ===== verification/Ownership_State.thy ===== *)
theory Ownership_State
  imports Move_State
begin

text \<open>
  The body-wide ownership state (\<open>crates/rue-air/src/sema/ownership_state.rs\<close>, second half,
  and the divergence provenance of \<open>sema/context.rs\<close>): scope frames that save the move state
  of a shadowed binding, the edge snapshots of the enclosing loops, the expression ledgers,
  the branch and arm joins, and the table of settled loop heads.

  A \<open>Vec\<close> is a list whose last element is the innermost entry, as in the code.  An index
  that would panic gives \<open>None\<close>.
\<close>

section \<open>Divergence provenance\<close>

datatype divergence_kind = Panic | Other | Exit

type_synonym divergence_kinds = u8

definition kinds_none :: divergence_kinds where "kinds_none = 0"
definition kinds_panic :: divergence_kinds where "kinds_panic = 1"
definition kinds_other :: divergence_kinds where "kinds_other = 2"
definition kinds_exit :: divergence_kinds where "kinds_exit = 4"

fun from_kind :: "divergence_kind \<Rightarrow> divergence_kinds" where
  "from_kind Panic = kinds_panic"
| "from_kind Other = kinds_other"
| "from_kind Exit = kinds_exit"

definition kinds_is_empty :: "divergence_kinds \<Rightarrow> bool" where
  "kinds_is_empty k \<longleftrightarrow> k = 0"

definition has_other :: "divergence_kinds \<Rightarrow> bool" where
  "has_other k \<longleftrightarrow> k AND kinds_other \<noteq> 0"

definition without_other :: "divergence_kinds \<Rightarrow> divergence_kinds" where
  "without_other k = k AND NOT kinds_other"

definition kinds_union :: "divergence_kinds \<Rightarrow> divergence_kinds \<Rightarrow> divergence_kinds" where
  "kinds_union a b = a OR b"

definition insert_kind :: "divergence_kind \<Rightarrow> divergence_kinds \<Rightarrow> divergence_kinds" where
  "insert_kind kind k = kinds_union k (from_kind kind)"

section \<open>Loop edges\<close>

type_synonym edge_snaps = "(move_map \<times> nat) list"

record loop_edge_states =
  broke :: bool
  break_snaps :: edge_snaps
  continue_snaps :: edge_snaps
  first_unwound_frame :: nat

definition record_edge_snapshot :: "edge_snaps \<Rightarrow> move_map \<Rightarrow> nat \<Rightarrow> edge_snaps" where
  "record_edge_snapshot snaps moves depth =
     (if snaps \<noteq> [] \<and> snd (last snaps) = depth
      then butlast snaps @ [(union_move_maps (fst (last snaps)) moves, depth)]
      else snaps @ [(moves, depth)])"

fun merged_edge_moves :: "edge_snaps \<Rightarrow> move_map option" where
  "merged_edge_moves [] = None"
| "merged_edge_moves ((first, _) # snaps) = Some (foldl union_move_maps first (map fst snaps))"

definition entered_at :: "nat \<Rightarrow> loop_edge_states" where
  "entered_at frame =
     \<lparr>broke = False, break_snaps = [], continue_snaps = [], first_unwound_frame = frame\<rparr>"

definition record_break :: "move_map \<Rightarrow> nat \<Rightarrow> loop_edge_states \<Rightarrow> loop_edge_states" where
  "record_break moves depth e =
     e\<lparr>broke := True, break_snaps := record_edge_snapshot (break_snaps e) moves depth\<rparr>"

definition record_continue :: "move_map \<Rightarrow> nat \<Rightarrow> loop_edge_states \<Rightarrow> loop_edge_states" where
  "record_continue moves depth e =
     e\<lparr>continue_snaps := record_edge_snapshot (continue_snaps e) moves depth\<rparr>"

definition record_all :: "edge_snaps \<Rightarrow> edge_snaps \<Rightarrow> edge_snaps" where
  "record_all snaps events = foldl (\<lambda>s (moves, depth). record_edge_snapshot s moves depth) snaps events"

definition absorb :: "loop_edge_states \<Rightarrow> loop_edge_states \<Rightarrow> loop_edge_states" where
  "absorb e other =
     e\<lparr>broke := (broke e \<or> broke other),
       break_snaps := record_all (break_snaps e) (break_snaps other),
       continue_snaps := record_all (continue_snaps e) (continue_snaps other)\<rparr>"

definition merged_moves :: "loop_edge_states \<Rightarrow> move_map option \<times> move_map option" where
  "merged_moves e = (merged_edge_moves (break_snaps e), merged_edge_moves (continue_snaps e))"

section \<open>The ownership state of a body\<close>

datatype call_loan_kind = Inout | Borrow

fun keyword :: "call_loan_kind \<Rightarrow> string" where
  "keyword Inout = ''inout''"
| "keyword Borrow = ''borrow''"

record ledger_root =
  root_name :: spur
  root_slot :: "u32 option"

record full_expression_boundary =
  boundary_loans :: nat
  boundary_shared_reads :: "(ledger_root \<times> span) list"
  boundary_exclusive_uses :: "(ledger_root \<times> span) list"

record expression_ledger_checkpoint =
  checkpoint_loans :: nat
  checkpoint_shared_reads :: nat
  checkpoint_exclusive_uses :: nat

type_synonym move_frame = "(spur \<times> move_state option) list"
type_synonym expression_loan = "ledger_root \<times> span \<times> call_loan_kind"

record ownership_state =
  moved_vars :: move_map
  moved_scope_stack :: "move_frame list"
  loop_break_stack :: "loop_edge_states list"
  byref_arg_root :: "spur option"
  drop_intrinsic_operand :: "spur option"
  call_loaned_roots :: "(ledger_root \<times> call_loan_kind \<times> bool) list list"
  iter_borrows :: "spur list"
  expression_loans :: "expression_loan list"
  expression_shared_reads :: "(ledger_root \<times> span) list"
  expression_exclusive_uses :: "(ledger_root \<times> span) list"

definition default_ownership :: ownership_state where
  "default_ownership =
     \<lparr>moved_vars = Map.empty, moved_scope_stack = [], loop_break_stack = [],
      byref_arg_root = None, drop_intrinsic_operand = None, call_loaned_roots = [],
      iter_borrows = [], expression_loans = [], expression_shared_reads = [],
      expression_exclusive_uses = []\<rparr>"

definition bind_fresh :: "spur \<Rightarrow> ownership_state \<Rightarrow> ownership_state" where
  "bind_fresh symbol st =
     (let old_moves = moved_vars st symbol;
          st' = st\<lparr>moved_vars := (moved_vars st)(symbol := None)\<rparr>;
          frames = moved_scope_stack st
      in if frames = [] then st'
         else st'\<lparr>moved_scope_stack := butlast frames @ [last frames @ [(symbol, old_moves)]]\<rparr>)"

definition push_scope_frame :: "ownership_state \<Rightarrow> ownership_state" where
  "push_scope_frame st = st\<lparr>moved_scope_stack := moved_scope_stack st @ [[]]\<rparr>"

definition restore_snap :: "nat \<Rightarrow> move_frame \<Rightarrow> move_map \<times> nat \<Rightarrow> move_map \<times> nat" where
  "restore_snap depth_before frame = (\<lambda>(snap, depth).
     if depth \<ge> depth_before then (restore_scope_moves snap frame, depth_before - 1)
     else (snap, depth))"

definition restore_edges :: "nat \<Rightarrow> move_frame \<Rightarrow> loop_edge_states \<Rightarrow> loop_edge_states" where
  "restore_edges depth_before frame e =
     e\<lparr>break_snaps := map (restore_snap depth_before frame) (break_snaps e),
       continue_snaps := map (restore_snap depth_before frame) (continue_snaps e)\<rparr>"

definition pop_scope_frame :: "ownership_state \<Rightarrow> ownership_state" where
  "pop_scope_frame st =
     (let frames = moved_scope_stack st in
      if frames = [] then st
      else st\<lparr>moved_scope_stack := butlast frames,
              moved_vars := restore_scope_moves (moved_vars st) (last frames),
              loop_break_stack :=
                map (restore_edges (length frames) (last frames)) (loop_break_stack st)\<rparr>)"

definition fork_for_recheck :: "ownership_state \<Rightarrow> ownership_state" where
  "fork_for_recheck st = st\<lparr>byref_arg_root := None, drop_intrinsic_operand := None\<rparr>"

definition checkpoint_expression_ledgers :: "ownership_state \<Rightarrow> expression_ledger_checkpoint" where
  "checkpoint_expression_ledgers st =
     \<lparr>checkpoint_loans = length (expression_loans st),
      checkpoint_shared_reads = length (expression_shared_reads st),
      checkpoint_exclusive_uses = length (expression_exclusive_uses st)\<rparr>"

definition rollback_expression_ledgers ::
  "expression_ledger_checkpoint \<Rightarrow> ownership_state \<Rightarrow> ownership_state" where
  "rollback_expression_ledgers c st =
     st\<lparr>expression_loans := take (checkpoint_loans c) (expression_loans st),
        expression_shared_reads := take (checkpoint_shared_reads c) (expression_shared_reads st),
        expression_exclusive_uses := take (checkpoint_exclusive_uses c) (expression_exclusive_uses st)\<rparr>"

definition enter_full_expression ::
  "ownership_state \<Rightarrow> full_expression_boundary \<times> ownership_state" where
  "enter_full_expression st =
     (\<lparr>boundary_loans = length (expression_loans st),
       boundary_shared_reads = expression_shared_reads st,
       boundary_exclusive_uses = expression_exclusive_uses st\<rparr>,
      st\<lparr>expression_shared_reads := [], expression_exclusive_uses := []\<rparr>)"

definition nested_expression_loans ::
  "full_expression_boundary \<Rightarrow> ownership_state \<Rightarrow> expression_loan list option" where
  "nested_expression_loans b st =
     (if boundary_loans b \<le> length (expression_loans st)
      then Some (drop (boundary_loans b) (expression_loans st)) else None)"

definition readmit_expression_loans ::
  "expression_loan list \<Rightarrow> ownership_state \<Rightarrow> ownership_state" where
  "readmit_expression_loans loans st = st\<lparr>expression_loans := expression_loans st @ loans\<rparr>"

definition exit_full_expression ::
  "full_expression_boundary \<Rightarrow> ownership_state \<Rightarrow> ownership_state" where
  "exit_full_expression b st =
     st\<lparr>expression_loans := take (boundary_loans b) (expression_loans st),
        expression_shared_reads := boundary_shared_reads b,
        expression_exclusive_uses := boundary_exclusive_uses b\<rparr>"

definition merge_branch_moves ::
  "move_map \<Rightarrow> move_map \<Rightarrow> bool \<Rightarrow> bool \<Rightarrow> divergence_kinds \<Rightarrow> divergence_kinds \<Rightarrow>
   ownership_state \<Rightarrow> ownership_state" where
  "merge_branch_moves then_moves else_moves then_div else_div then_kinds else_kinds st =
     st\<lparr>moved_vars :=
       (if then_div \<and> else_div then
          (if has_other then_kinds \<and> \<not> has_other else_kinds then then_moves
           else if has_other else_kinds \<and> \<not> has_other then_kinds then else_moves
           else if \<not> has_other then_kinds \<and> \<not> has_other else_kinds then then_moves
           else union_move_maps then_moves else_moves)
        else if then_div then else_moves
        else if else_div then then_moves
        else union_move_maps then_moves else_moves)\<rparr>"

type_synonym arm_moves = "move_map \<times> bool \<times> divergence_kinds"

definition arm_sources :: "arm_moves list \<Rightarrow> move_map list" where
  "arm_sources arms =
     (let live = map fst (filter (\<lambda>(_, diverges, _). \<not> diverges) arms);
          nonpanic = map fst (filter (\<lambda>(_, _, kinds). has_other kinds) arms)
      in if live \<noteq> [] then live else if nonpanic \<noteq> [] then nonpanic else map fst arms)"

definition merge_arm_moves :: "arm_moves list \<Rightarrow> ownership_state \<Rightarrow> ownership_state" where
  "merge_arm_moves arms st =
     st\<lparr>moved_vars := (case arm_sources arms of
          [] \<Rightarrow> Map.empty
        | first # rest \<Rightarrow> foldl union_move_maps first rest)\<rparr>"

section \<open>Settled loop heads\<close>

type_synonym body_key = "nat \<times> nat"

record loop_head_hint =
  hint_body :: body_key
  settled :: "(move_map \<times> move_map) option"
  children :: "nat list"

record loop_head_hints =
  nodes :: "loop_head_hint list"
  passes :: "(nat \<times> nat) list"

definition no_hints :: loop_head_hints where
  "no_hints = \<lparr>nodes = [], passes = []\<rparr>"

definition fresh_hint :: "body_key \<Rightarrow> loop_head_hint" where
  "fresh_hint body = \<lparr>hint_body = body, settled = None, children = []\<rparr>"

definition enter_loop :: "body_key \<Rightarrow> loop_head_hints \<Rightarrow> (nat \<times> loop_head_hints) option" where
  "enter_loop body h =
     (if passes h = [] then Some (0, h\<lparr>nodes := [fresh_hint body]\<rparr>)
      else
        (let (parent, ordinal) = last (passes h);
             h1 = h\<lparr>passes := butlast (passes h) @ [(parent, ordinal + 1)]\<rparr>
         in if parent \<ge> length (nodes h) then None
         else if ordinal < length (children (nodes h ! parent)) then
           (let child = children (nodes h ! parent) ! ordinal in
            if child \<ge> length (nodes h) then None
            else if hint_body (nodes h ! child) = body then Some (child, h1)
            else Some (child, h1\<lparr>nodes := (nodes h)[child := fresh_hint body]\<rparr>))
         else
           (let child = length (nodes h);
                nodes' = nodes h @ [fresh_hint body];
                p = nodes' ! parent
            in Some (child, h1\<lparr>nodes := nodes'[parent := p\<lparr>children := children p @ [child]\<rparr>]\<rparr>))))"

definition begin_pass :: "nat \<Rightarrow> loop_head_hints \<Rightarrow> loop_head_hints" where
  "begin_pass node h = h\<lparr>passes := passes h @ [(node, 0)]\<rparr>"

definition end_pass :: "loop_head_hints \<Rightarrow> loop_head_hints" where
  "end_pass h = h\<lparr>passes := butlast (passes h)\<rparr>"

definition seed :: "nat \<Rightarrow> move_map \<Rightarrow> loop_head_hints \<Rightarrow> move_map option option" where
  "seed node entry h =
     (if node < length (nodes h)
      then Some (case settled (nodes h ! node) of
             None \<Rightarrow> None
           | Some (settled_entry, settled_head) \<Rightarrow>
               if move_map_below settled_entry entry
               then Some (union_move_maps entry settled_head) else None)
      else None)"

definition record_head ::
  "nat \<Rightarrow> move_map \<Rightarrow> move_map \<Rightarrow> loop_head_hints \<Rightarrow> loop_head_hints option" where
  "record_head node entry head h =
     (if node < length (nodes h)
      then Some (h\<lparr>nodes := (nodes h)[node := (nodes h ! node)\<lparr>settled := Some (entry, head)\<rparr>]\<rparr>)
      else None)"

section \<open>Divergence kinds as a set\<close>

definition kinds_set :: "divergence_kinds \<Rightarrow> divergence_kind set" where
  "kinds_set k = {kind. k AND from_kind kind \<noteq> 0}"

fun kind_bit :: "divergence_kind \<Rightarrow> nat" where
  "kind_bit Panic = 0"
| "kind_bit Other = 1"
| "kind_bit Exit = 2"

lemma from_kind_bit: "bit (from_kind kind) n \<longleftrightarrow> n = kind_bit kind"
proof -
  have single: "bit (push_bit m 1 :: u8) n \<longleftrightarrow> n = m" if "m < 8" for m
    using that by (auto simp: bit_exp_iff)
  have "from_kind kind = push_bit (kind_bit kind) 1"
    by (cases kind) (simp_all add: kinds_panic_def kinds_other_def kinds_exit_def push_bit_eq_mult)
  then show ?thesis using single [of "kind_bit kind"] by (cases kind) simp_all
qed

lemma kinds_set_iff: "kind \<in> kinds_set k \<longleftrightarrow> bit k (kind_bit kind)"
proof -
  have "bit (k AND from_kind kind) n \<longleftrightarrow> bit k n \<and> n = kind_bit kind" for n
    by (auto simp: bit_and_iff from_kind_bit)
  then have "k AND from_kind kind = 0 \<longleftrightarrow> \<not> bit k (kind_bit kind)"
    by (metis bit_0_eq bit_eq_iff bot_apply bot_boolE)
  then show ?thesis by (simp add: kinds_set_def)
qed

text \<open>
  The byte of divergence provenance is a set of edge kinds: inserting, joining, removing
  and testing for the non-exempt kind act on the bits as the set operations do.
\<close>

theorem divergence_kinds_refine_sets:
  "kinds_set kinds_none = {}
   \<and> kinds_set (from_kind kind) = {kind}
   \<and> kinds_set (kinds_union a b) = kinds_set a \<union> kinds_set b
   \<and> kinds_set (insert_kind kind a) = insert kind (kinds_set a)
   \<and> kinds_set (without_other a) = kinds_set a - {Other}
   \<and> has_other a = (Other \<in> kinds_set a)"
proof (intro conjI set_eqI)
  show "has_other a = (Other \<in> kinds_set a)" by (simp add: has_other_def kinds_set_def)
  fix x
  show "x \<in> kinds_set kinds_none \<longleftrightarrow> x \<in> {}" by (simp add: kinds_set_def kinds_none_def)
  show single: "x \<in> kinds_set (from_kind kind) \<longleftrightarrow> x \<in> {kind}" for x
    by (cases x; cases kind) (simp_all add: kinds_set_iff from_kind_bit del: from_kind.simps)
  show union: "x \<in> kinds_set (kinds_union a b) \<longleftrightarrow> x \<in> kinds_set a \<union> kinds_set b" for x a b
    by (simp add: kinds_set_iff kinds_union_def bit_or_iff)
  show "x \<in> kinds_set (insert_kind kind a) \<longleftrightarrow> x \<in> insert kind (kinds_set a)"
    using single [of x] union [of x a "from_kind kind"] by (auto simp: insert_kind_def)
  have "bit (without_other a) n \<longleftrightarrow> bit a n \<and> n \<noteq> 1" for n
    using from_kind_bit [of Other n]
    by (auto simp: without_other_def bit_and_iff bit_not_iff dest: bit_imp_le_length)
  then show "x \<in> kinds_set (without_other a) \<longleftrightarrow> x \<in> kinds_set a - {Other}"
    by (cases x) (simp_all add: kinds_set_iff)
qed

section \<open>Scopes by binding identity\<close>

text \<open>
  \<open>moved_vars\<close> is keyed by name.  The specification keeps, for every name, the stack of the
  move states of its bindings, innermost first, and for every open scope the names it bound:
  a declaration pushes a fresh state, a move changes the top one, the end of a scope pops
  the bindings made in it.
\<close>

datatype scope_op = Open_Scope | Close_Scope | Bind spur | Set_Moves spur "move_state option"

fun exec_op :: "scope_op \<Rightarrow> ownership_state \<Rightarrow> ownership_state" where
  "exec_op Open_Scope st = push_scope_frame st"
| "exec_op Close_Scope st = pop_scope_frame st"
| "exec_op (Bind symbol) st = bind_fresh symbol st"
| "exec_op (Set_Moves symbol moves) st = st\<lparr>moved_vars := (moved_vars st)(symbol := moves)\<rparr>"

type_synonym binding_state = "(spur \<Rightarrow> move_state option list) \<times> spur list list"

fun spec_op :: "scope_op \<Rightarrow> binding_state \<Rightarrow> binding_state" where
  "spec_op Open_Scope (stacks, scopes) = (stacks, scopes @ [[]])"
| "spec_op Close_Scope (stacks, scopes) =
     (if scopes = [] then (stacks, scopes)
      else (\<lambda>s. drop (count_list (last scopes) s) (stacks s), butlast scopes))"
| "spec_op (Bind symbol) (stacks, scopes) =
     (if scopes = [] then (stacks(symbol := None # tl (stacks symbol)), scopes)
      else (stacks(symbol := None # stacks symbol), butlast scopes @ [last scopes @ [symbol]]))"
| "spec_op (Set_Moves symbol moves) (stacks, scopes) =
     (stacks(symbol := moves # tl (stacks symbol)), scopes)"

definition saved_moves :: "move_frame \<Rightarrow> spur \<Rightarrow> move_state option list" where
  "saved_moves frame symbol = map snd (filter (\<lambda>(s, _). s = symbol) (rev frame))"

definition outer_bindings :: "move_frame list \<Rightarrow> spur \<Rightarrow> move_state option list" where
  "outer_bindings frames symbol = concat (map (\<lambda>frame. saved_moves frame symbol) (rev frames))"

definition binding_view :: "ownership_state \<Rightarrow> binding_state" where
  "binding_view st =
     (\<lambda>symbol. moved_vars st symbol # outer_bindings (moved_scope_stack st) symbol,
      map (map fst) (moved_scope_stack st))"

lemma saved_moves_simps [simp]:
  "saved_moves [] symbol = []"
  "saved_moves (frame @ [(s, m)]) symbol =
     (if s = symbol then m # saved_moves frame symbol else saved_moves frame symbol)"
  by (simp_all add: saved_moves_def)

lemma length_saved_moves: "length (saved_moves frame symbol) = count_list (map fst frame) symbol"
  by (induction frame rule: rev_induct) auto

lemma outer_bindings_simps [simp]:
  "outer_bindings [] symbol = []"
  "outer_bindings (frames @ [frame]) symbol = saved_moves frame symbol @ outer_bindings frames symbol"
  by (simp_all add: outer_bindings_def)

lemma restore_scope_moves_snoc [simp]:
  "restore_scope_moves moves [] = moves"
  "restore_scope_moves moves (frame @ [(s, m)]) = restore_scope_moves (moves(s := m)) frame"
  by (simp_all add: restore_scope_moves_def)

lemma restore_scope_moves_stack:
  "restore_scope_moves moves frame symbol = last (moves symbol # saved_moves frame symbol)"
  by (induction frame arbitrary: moves rule: rev_induct) (auto split: prod.splits)

lemma restored_stack:
  "restore_scope_moves moves frame symbol # outer =
     drop (count_list (map fst frame) symbol) (moves symbol # saved_moves frame symbol @ outer)"
proof -
  have "last (xs) # ys = drop (length xs - 1) (xs @ ys)" if "xs \<noteq> []" for xs ys :: "'a list"
    using that by (induction xs rule: rev_induct) simp_all
  from this [of "moves symbol # saved_moves frame symbol" outer] show ?thesis
    by (simp add: restore_scope_moves_stack length_saved_moves del: last.simps)
qed

text \<open>
  C28. Declarations, moves and scope ends on the name-keyed move map behave exactly like the
  same operations on the bindings themselves: shadowing keeps the move state of the outer
  binding, and the end of the scope makes it current again, whatever happened in between.
\<close>

theorem scope_ops_refine_bindings:
  "binding_view (exec_op op st) = spec_op op (binding_view st)"
proof (cases op)
  case Close_Scope
  show ?thesis
  proof (cases "moved_scope_stack st" rule: rev_cases)
    case Nil
    with Close_Scope show ?thesis by (simp add: binding_view_def pop_scope_frame_def)
  next
    case (snoc frames frame)
    with Close_Scope show ?thesis
      by (simp add: binding_view_def pop_scope_frame_def fun_eq_iff restored_stack)
  qed
next
  case (Bind symbol)
  then show ?thesis
    by (cases "moved_scope_stack st" rule: rev_cases)
      (auto simp: binding_view_def bind_fresh_def fun_eq_iff Let_def)
qed (auto simp: binding_view_def push_scope_frame_def fun_eq_iff)

section \<open>Snapshots of the loop edges\<close>

text \<open>
  A snapshot taken at scope depth \<open>d\<close> names the bindings visible at its edge: the states
  below the current ones are those saved in the first \<open>d\<close> frames.
\<close>

definition snapshot_view :: "move_frame list \<Rightarrow> move_map \<times> nat \<Rightarrow> spur \<Rightarrow> move_state option list" where
  "snapshot_view frames = (\<lambda>(snap, depth) symbol. snap symbol # outer_bindings (take depth frames) symbol)"

text \<open>
  Closing a scope treats every snapshot taken inside it as it treats the current state:
  the snapshot loses exactly the bindings of that scope, and its depth becomes the depth of
  the enclosing one; a snapshot of an enclosing scope is left alone.
\<close>

theorem pop_scope_restores_snapshots:
  assumes "moved_scope_stack st = frames @ [frame]" "depth \<le> length frames + 1"
  shows "snapshot_view (moved_scope_stack (pop_scope_frame st))
        (restore_snap (length frames + 1) frame (snap, depth)) symbol =
      drop (if depth = length frames + 1 then count_list (map fst frame) symbol else 0)
        (snapshot_view (moved_scope_stack st) (snap, depth) symbol)
    \<and> snd (restore_snap (length frames + 1) frame (snap, depth)) = min depth (length frames)"
proof (cases "depth = length frames + 1")
  case True
  with assms(1) show ?thesis
    by (simp add: snapshot_view_def restore_snap_def pop_scope_frame_def restored_stack)
next
  case False
  with assms show ?thesis
    by (auto simp: snapshot_view_def restore_snap_def pop_scope_frame_def)
qed

lemma pop_scope_restores_snapshots_witness:
  "let st = bind_fresh 1 (push_scope_frame (default_ownership\<lparr>moved_vars := [1 \<mapsto> default_move_state]\<rparr>))
   in fst (restore_snap 1 (last (moved_scope_stack st)) (Map.empty, 1)) 1 = Some default_move_state"
proof -
  define st where
    "st = bind_fresh 1 (push_scope_frame (default_ownership\<lparr>moved_vars := [1 \<mapsto> default_move_state]\<rparr>))"
  have frames: "moved_scope_stack st = [] @ [[(1, Some default_move_state)]]"
    by (simp add: st_def bind_fresh_def push_scope_frame_def default_ownership_def)
  from pop_scope_restores_snapshots [OF frames, of 1 "Map.empty" 1]
  have "fst (restore_snap 1 [(1, Some default_move_state)] (Map.empty, 1)) 1 = Some default_move_state"
    by (simp add: frames snapshot_view_def restore_snap_def saved_moves_def
        pop_scope_frame_def outer_bindings_def split: if_splits)
  then show ?thesis unfolding Let_def st_def [symmetric] by (simp add: frames)
qed

section \<open>Joins of the loop edges\<close>

lemma list_all_mset_cong: "mset xs = mset ys \<Longrightarrow> list_all P xs = list_all P ys"
  by (drule mset_eq_setD) (simp add: list_all_iff)

definition wf_snaps :: "edge_snaps \<Rightarrow> bool" where
  "wf_snaps snaps \<longleftrightarrow> list_all (\<lambda>(moves, _). wf_move_map moves) snaps"

abbreviation join_all :: "move_map \<Rightarrow> move_map list \<Rightarrow> move_map" where
  "join_all \<equiv> foldl union_move_maps"

lemma wf_snaps_maps: "wf_snaps snaps \<longleftrightarrow> list_all wf_move_map (map fst snaps)"
  by (auto simp: wf_snaps_def list_all_iff)

lemma merged_edge_moves_snoc:
  "merged_edge_moves (snaps @ [(moves, depth)]) =
     Some (case merged_edge_moves snaps of None \<Rightarrow> moves | Some m \<Rightarrow> union_move_maps m moves)"
  by (cases snaps rule: merged_edge_moves.cases) auto

lemma wf_merged_edge: "wf_snaps snaps \<Longrightarrow> merged_edge_moves snaps = Some m \<Longrightarrow> wf_move_map m"
  by (cases snaps rule: merged_edge_moves.cases)
    (auto simp: wf_snaps_maps list.pred_map comp_def intro!: map_join.ok_foldl)

lemma merged_edge_None [simp]: "merged_edge_moves snaps = None \<longleftrightarrow> snaps = []"
  by (cases snaps rule: merged_edge_moves.cases) auto

lemma wf_record: "wf_snaps snaps \<Longrightarrow> wf_move_map moves \<Longrightarrow> wf_snaps (record_edge_snapshot snaps moves depth)"
  by (cases snaps rule: rev_cases) (auto simp: wf_snaps_def record_edge_snapshot_def wf_union_maps)

lemma merged_record:
  assumes "wf_snaps snaps" "wf_move_map moves"
  shows "\<exists>m. merged_edge_moves (record_edge_snapshot snaps moves depth) = Some m \<and>
    map_shape m = map_shape (case merged_edge_moves snaps of None \<Rightarrow> moves | Some j \<Rightarrow> union_move_maps j moves)"
proof (cases snaps rule: rev_cases)
  case Nil
  then show ?thesis by (simp add: record_edge_snapshot_def)
next
  case (snoc init x)
  obtain m0 d0 where x: "x = (m0, d0)" by force
  have wf: "wf_snaps init" "wf_move_map m0" using assms(1) snoc x by (auto simp: wf_snaps_def)
  show ?thesis
  proof (cases "d0 = depth")
    case False
    with snoc x have "record_edge_snapshot snaps moves depth = snaps @ [(moves, depth)]"
      by (simp add: record_edge_snapshot_def)
    then show ?thesis by (simp only: merged_edge_moves_snoc) simp
  next
    case True
    have merged: "merged_edge_moves (record_edge_snapshot snaps moves depth) =
        merged_edge_moves (init @ [(union_move_maps m0 moves, depth)])"
      using True snoc x by (simp add: record_edge_snapshot_def)
    show ?thesis
      using map_join.obs_assoc [of "the (merged_edge_moves init)" m0 moves] wf assms(2)
        wf_merged_edge [OF wf(1)]
      unfolding merged unfolding snoc x merged_edge_moves_snoc
      by (cases "merged_edge_moves init") auto
  qed
qed

lemma record_all_simps [simp]:
  "record_all snaps [] = snaps"
  "record_all snaps ((moves, depth) # events) = record_all (record_edge_snapshot snaps moves depth) events"
  by (simp_all add: record_all_def)

lemma merged_record_all:
  "wf_snaps snaps \<Longrightarrow> wf_snaps events \<Longrightarrow> merged_edge_moves snaps = Some j \<Longrightarrow>
    \<exists>m. merged_edge_moves (record_all snaps events) = Some m
      \<and> map_shape m = map_shape (join_all j (map fst events))"
proof (induction events arbitrary: snaps j)
  case (Cons ev events)
  obtain moves depth where ev: "ev = (moves, depth)" by force
  have wf: "wf_move_map moves" "wf_snaps events" using Cons.prems(2) ev by (auto simp: wf_snaps_def)
  obtain j1 where j1: "merged_edge_moves (record_edge_snapshot snaps moves depth) = Some j1"
      "map_shape j1 = map_shape (union_move_maps j moves)"
    using merged_record [OF Cons.prems(1) wf(1), of depth] Cons.prems(3) by auto
  have wfs: "wf_snaps (record_edge_snapshot snaps moves depth)" by (rule wf_record [OF Cons.prems(1) wf(1)])
  obtain m where "merged_edge_moves (record_all (record_edge_snapshot snaps moves depth) events) = Some m"
      "map_shape m = map_shape (join_all j1 (map fst events))"
    using Cons.IH [OF wfs wf(2) j1(1)] by blast
  moreover have "map_shape (join_all j1 (map fst events)) =
      map_shape (join_all (union_move_maps j moves) (map fst events))"
    using wf j1 wf_merged_edge [OF wfs j1(1)] wf_merged_edge [OF Cons.prems(1,3)]
    by (intro map_join.foldl_obs_cong) (auto simp: wf_snaps_maps intro: wf_union_maps)
  ultimately show ?case by (simp add: ev)
qed simp

lemma join_all_moved:
  assumes "wf_move_map m" "list_all wf_move_map ms"
  shows "(may_moved (state_of (join_all m ms) symbol) path \<longleftrightarrow>
        (\<exists>x \<in> set (m # ms). may_moved (state_of x symbol) path))
    \<and> (must_moved (state_of (join_all m ms) symbol) path \<longrightarrow>
        (\<forall>x \<in> set (m # ms). must_moved (state_of x symbol) path))"
  using assms
proof (induction ms arbitrary: m)
  case (Cons x ms)
  have "map_shape (union_move_maps m x) symbol = shape (merge_union (state_of m symbol) (state_of x symbol))"
    using Cons.prems by (intro map_shape_union) auto
  then have step: "may_moved (state_of (union_move_maps m x) symbol) path \<longleftrightarrow>
        may_moved (state_of m symbol) path \<or> may_moved (state_of x symbol) path"
      "must_moved (state_of (union_move_maps m x) symbol) path \<Longrightarrow>
        must_moved (state_of m symbol) path \<and> must_moved (state_of x symbol) path"
    using may_merge [of "state_of m symbol" "state_of x symbol" path]
      must_merge [of "state_of m symbol" "state_of x symbol" path]
    by (simp_all add: map_shape_def may_moved_shape must_moved_shape)
  from Cons.IH [of "union_move_maps m x"] Cons.prems step show ?case
    by (auto intro: wf_union_maps)
qed simp

lemma moved_of_shape:
  "map_shape a = map_shape b \<Longrightarrow>
    may_moved (state_of a symbol) path = may_moved (state_of b symbol) path
    \<and> must_moved (state_of a symbol) path = must_moved (state_of b symbol) path"
  by (auto simp: map_shape_def may_moved_shape must_moved_shape fun_eq_iff)

text \<open>
  The exit state of a loop is the join over all the break edges recorded, however the
  record merged them on the way: a path may be moved after the loop exactly when some break
  moved it, and is moved on every path only if every break moved it.  The order in which the
  edges were met does not matter.
\<close>

theorem loop_exit_joins_breaks:
  assumes "wf_snaps ((moves, depth) # events)"
  shows "\<exists>m. merged_edge_moves (record_all [] ((moves, depth) # events)) = Some m
    \<and> (may_moved (state_of m symbol) path \<longleftrightarrow>
        (\<exists>(e, _) \<in> set ((moves, depth) # events). may_moved (state_of e symbol) path))
    \<and> (must_moved (state_of m symbol) path \<longrightarrow>
        (\<forall>(e, _) \<in> set ((moves, depth) # events). must_moved (state_of e symbol) path))
    \<and> (\<forall>events' m'. mset ((moves, depth) # events) = mset events' \<longrightarrow>
        merged_edge_moves (record_all [] events') = Some m' \<longrightarrow> map_shape m' = map_shape m)"
proof -
  have joined: "\<exists>m. merged_edge_moves (record_all [] ((mv, d) # evs)) = Some m
      \<and> map_shape m = map_shape (join_all mv (map fst evs))"
    if "wf_snaps ((mv, d) # evs)" for mv d evs
    using merged_record_all [of "[(mv, d)]" evs mv] that
    by (auto simp: record_edge_snapshot_def wf_snaps_def)
  obtain m where m: "merged_edge_moves (record_all [] ((moves, depth) # events)) = Some m"
      "map_shape m = map_shape (join_all moves (map fst events))"
    using joined [OF assms] by blast
  have wf: "wf_move_map moves" "list_all wf_move_map (map fst events)"
    using assms by (auto simp: wf_snaps_maps)
  have perm: "map_shape m' = map_shape m"
    if "mset ((moves, depth) # events) = mset events'"
      "merged_edge_moves (record_all [] events') = Some m'" for events' m'
  proof (cases events')
    case (Cons ev rest)
    obtain mv d where ev: "ev = (mv, d)" by force
    have "wf_snaps events'"
      using assms list_all_mset_cong [OF that(1)] unfolding wf_snaps_def by blast
    then have "map_shape m' = map_shape (join_all mv (map fst rest))"
      using joined [of mv d rest] that(2) Cons ev by auto
    moreover have "mset (moves # map fst events) = mset (mv # map fst rest)"
      using arg_cong [OF that(1), of "image_mset fst"] Cons ev by simp
    then have "map_shape (join_all moves (map fst events)) = map_shape (join_all mv (map fst rest))"
      using wf by (intro map_join.join_arms_perm) auto
    ultimately show ?thesis using m(2) by simp
  qed (use that(1) in simp)
  show ?thesis
    using m(1) perm join_all_moved [OF wf, of symbol path] moved_of_shape [OF m(2), of symbol path]
    by (intro exI [of _ m]) (force simp: case_prod_beta)
qed

lemma loop_exit_joins_breaks_witness:
  "\<exists>m. merged_edge_moves (record_all [] [(Map.empty, 2), ([1 \<mapsto> mark_path_moved [] span0 default_move_state], 2)])
      = Some m \<and> may_moved (state_of m 1) [] \<and> \<not> must_moved (state_of m 1) []"
proof -
  let ?moved = "[1 \<mapsto> mark_path_moved [] span0 default_move_state] :: move_map"
  have "wf_snaps [(Map.empty, 2), (?moved, 2)]"
    by (auto simp: wf_snaps_def intro!: wf_move_mapI wf_mark split: if_splits)
  from loop_exit_joins_breaks [OF this, of 1 "[]"] show ?thesis
    by (auto simp: state_of_def may_moved_def must_moved_def mark_path_moved_def default_move_state_def)
qed

section \<open>Joins of branches and arms\<close>

definition wf_arms :: "arm_moves list \<Rightarrow> bool" where
  "wf_arms arms \<longleftrightarrow> list_all (\<lambda>(moves, _, _). wf_move_map moves) arms"

lemma wf_arm_sources: "wf_arms arms \<Longrightarrow> list_all wf_move_map (arm_sources arms)"
  by (auto simp: wf_arms_def arm_sources_def list_all_iff Let_def)

lemma mset_arm_sources: "mset arms = mset arms' \<Longrightarrow> mset (arm_sources arms) = mset (arm_sources arms')"
proof -
  assume eq: "mset arms = mset arms'"
  have sel: "mset (map f (filter P arms)) = mset (map f (filter P arms'))" for P and f :: "arm_moves \<Rightarrow> move_map"
    using eq by simp
  have empty: "map f (filter P arms) = [] \<longleftrightarrow> map f (filter P arms') = []" for P and f :: "arm_moves \<Rightarrow> move_map"
    using arg_cong [OF sel [of f P], of size] by (metis length_0_conv size_mset)
  show ?thesis
    unfolding arm_sources_def Let_def empty using sel eq by simp
qed

text \<open>
  C16. After a \<open>match\<close> some arm of which completes, a path may be moved exactly when a
  completing arm moved it, it is moved on every path only if every completing arm moved it,
  and diverging arms are ignored.
\<close>

theorem merge_arm_moves_sound:
  assumes "wf_arms arms" "\<exists>(_, diverges, _) \<in> set arms. \<not> diverges"
  shows "(may_moved (state_of (moved_vars (merge_arm_moves arms st)) symbol) path \<longleftrightarrow>
        (\<exists>(moves, diverges, _) \<in> set arms. \<not> diverges \<and> may_moved (state_of moves symbol) path))
    \<and> (must_moved (state_of (moved_vars (merge_arm_moves arms st)) symbol) path \<longrightarrow>
        (\<forall>(moves, diverges, _) \<in> set arms. \<not> diverges \<longrightarrow> must_moved (state_of moves symbol) path))"
proof -
  let ?live = "map fst (filter (\<lambda>(_, diverges, _). \<not> diverges) arms)"
  have "?live \<noteq> []" using assms(2) by (auto simp: filter_empty_conv)
  then have src: "arm_sources arms = ?live" by (simp add: arm_sources_def)
  obtain m ms where live: "?live = m # ms" using \<open>?live \<noteq> []\<close> by (cases ?live) auto
  have set: "set (m # ms) = {moves. \<exists>kinds. (moves, False, kinds) \<in> set arms}"
    unfolding live [symmetric] by force
  have wf: "wf_move_map m" "list_all wf_move_map ms"
    using wf_arm_sources [OF assms(1)] src live by auto
  have "moved_vars (merge_arm_moves arms st) = join_all m ms"
    by (simp add: merge_arm_moves_def src live)
  moreover have "(\<exists>(moves, diverges, _) \<in> set arms. \<not> diverges \<and> P moves) \<longleftrightarrow> (\<exists>x \<in> set (m # ms). P x)"
    "(\<forall>(moves, diverges, _) \<in> set arms. \<not> diverges \<longrightarrow> P moves) \<longleftrightarrow> (\<forall>x \<in> set (m # ms). P x)" for P
    unfolding set by auto blast+
  ultimately show ?thesis
    using join_all_moved [OF wf, of symbol path] by (simp only:) blast
qed

lemma merge_arm_moves_sound_witness:
  "let moved = [1 \<mapsto> mark_path_moved [] span0 default_move_state]
   in \<not> may_moved (state_of (moved_vars
        (merge_arm_moves [(moved, True, kinds_exit), (Map.empty, False, kinds_none)] default_ownership)) 1) []"
proof -
  let ?arms = "[([1 \<mapsto> mark_path_moved [] span0 default_move_state], True, kinds_exit),
    (Map.empty, False, kinds_none)] :: arm_moves list"
  have "wf_arms ?arms"
    by (auto simp: wf_arms_def intro!: wf_move_mapI wf_mark split: if_splits)
  from merge_arm_moves_sound [OF this, of default_ownership 1 "[]"] show ?thesis
    by (simp add: state_of_def may_moved_def default_move_state_def)
qed

text \<open>
  The join of the arms of a \<open>match\<close> does not depend on the order of the arms, whichever
  of them diverge.
\<close>

theorem merge_arm_moves_order:
  assumes "wf_arms arms" "mset arms = mset arms'"
  shows "map_shape (moved_vars (merge_arm_moves arms st)) =
    map_shape (moved_vars (merge_arm_moves arms' st))"
proof -
  have perm: "mset (arm_sources arms) = mset (arm_sources arms')"
    using assms(2) by (rule mset_arm_sources)
  have wf: "list_all wf_move_map (arm_sources arms)" using assms(1) by (rule wf_arm_sources)
  show ?thesis
  proof (cases "arm_sources arms")
    case Nil
    with perm show ?thesis by (simp add: merge_arm_moves_def)
  next
    case (Cons m ms)
    with perm obtain m' ms' where Cons': "arm_sources arms' = m' # ms'"
      by (cases "arm_sources arms'") auto
    have "map_shape (join_all m ms) = map_shape (join_all m' ms')"
      using wf perm unfolding Cons Cons' by (rule map_join.join_arms_perm)
    with Cons Cons' show ?thesis by (simp add: merge_arm_moves_def)
  qed
qed

lemma merge_arm_moves_order_witness:
  "let moved = [1 \<mapsto> mark_path_moved [] span0 default_move_state]
   in map_shape (moved_vars (merge_arm_moves [(moved, False, 0), (Map.empty, False, 0)] default_ownership)) =
      map_shape (moved_vars (merge_arm_moves [(Map.empty, False, 0), (moved, False, 0)] default_ownership))"
  unfolding Let_def
  by (rule merge_arm_moves_order)
    (auto simp: wf_arms_def intro!: wf_move_mapI wf_mark split: if_splits)

text \<open>
  The join of an \<open>if\<close> is the join of a two-armed \<open>match\<close>, except when both branches
  diverge through exempt edges only: then the \<open>if\<close> keeps the state of the then-branch and the
  \<open>match\<close> the union of both.
\<close>

theorem merge_branch_is_two_arm_merge:
  "merge_branch_moves then_moves else_moves then_div else_div then_kinds else_kinds st =
     (if then_div \<and> else_div \<and> \<not> has_other then_kinds \<and> \<not> has_other else_kinds
      then st\<lparr>moved_vars := then_moves\<rparr>
      else merge_arm_moves [(then_moves, then_div, then_kinds), (else_moves, else_div, else_kinds)] st)
   \<and> moved_vars (merge_arm_moves [(then_moves, True, kinds_exit), (else_moves, True, kinds_exit)] st) =
      union_move_maps then_moves else_moves"
  by (auto simp: merge_branch_moves_def merge_arm_moves_def arm_sources_def has_other_def
      kinds_exit_def kinds_other_def)

section \<open>Expression ledgers\<close>

text \<open>
  A nested full expression that only appends to the loan ledger leaves the enclosing
  expression's ledgers as they were, and the loans it still holds can be read without panic
  and readmitted; rolling back to a checkpoint discards exactly what was appended since.
\<close>

theorem full_expression_boundary_restores:
  assumes "entered = enter_full_expression st"
    and "expression_loans child = expression_loans st @ extra"
  shows "expression_loans (exit_full_expression (fst entered) child) = expression_loans st
    \<and> expression_shared_reads (exit_full_expression (fst entered) child) = expression_shared_reads st
    \<and> expression_exclusive_uses (exit_full_expression (fst entered) child) = expression_exclusive_uses st
    \<and> nested_expression_loans (fst entered) child = Some extra
    \<and> expression_loans (readmit_expression_loans extra (exit_full_expression (fst entered) child)) =
        expression_loans child
    \<and> (\<forall>reads uses. expression_shared_reads child = expression_shared_reads st @ reads \<longrightarrow>
        expression_exclusive_uses child = expression_exclusive_uses st @ uses \<longrightarrow>
        rollback_expression_ledgers (checkpoint_expression_ledgers st) child =
          child\<lparr>expression_loans := expression_loans st,
                expression_shared_reads := expression_shared_reads st,
                expression_exclusive_uses := expression_exclusive_uses st\<rparr>)"
  using assms
  by (simp add: enter_full_expression_def exit_full_expression_def nested_expression_loans_def
      readmit_expression_loans_def rollback_expression_ledgers_def checkpoint_expression_ledgers_def)

lemma full_expression_boundary_restores_witness:
  "let loan = (\<lparr>root_name = 3, root_slot = None\<rparr>, \<lparr>file_id = 0, start_byte = 1, end_byte = 2\<rparr>, Inout);
       entered = enter_full_expression default_ownership;
       child = snd entered\<lparr>expression_loans := [loan]\<rparr>
   in expression_loans (exit_full_expression (fst entered) child) = []
      \<and> nested_expression_loans (fst entered) child = Some [loan]"
proof -
  define loan :: expression_loan where
    "loan = (\<lparr>root_name = 3, root_slot = None\<rparr>, \<lparr>file_id = 0, start_byte = 1, end_byte = 2\<rparr>, Inout)"
  define child where "child = snd (enter_full_expression default_ownership)\<lparr>expression_loans := [loan]\<rparr>"
  have "expression_loans child = expression_loans default_ownership @ [loan]"
    by (simp add: child_def default_ownership_def)
  from full_expression_boundary_restores [OF refl this] show ?thesis
    unfolding Let_def child_def loan_def by (simp add: default_ownership_def)
qed

section \<open>A snapshot taken before a shadowing declaration\<close>

text \<open>
  The steps the checker takes on a loop body that breaks inside an \<open>if\<close> after moving \<open>x\<close>, and
  declares a new \<open>x\<close> after the \<open>if\<close>.
\<close>

definition break_then_shadow :: "spur \<Rightarrow> span \<Rightarrow> ownership_state" where
  "break_then_shadow x sp =
     (let body = push_scope_frame default_ownership;
          body = body\<lparr>loop_break_stack := [entered_at 0]\<rparr>;
          arm = push_scope_frame body;
          arm = arm\<lparr>moved_vars := (moved_vars arm)(x \<mapsto> mark_path_moved [] sp default_move_state)\<rparr>;
          arm = arm\<lparr>loop_break_stack :=
            [record_break (moved_vars arm) (length (moved_scope_stack arm)) (last (loop_break_stack arm))]\<rparr>;
          arm = pop_scope_frame arm;
          joined = merge_branch_moves (moved_vars arm) (moved_vars body) True False kinds_exit kinds_none arm;
          shadowed = bind_fresh x joined
      in pop_scope_frame shadowed)"

text \<open>
  A loop body that breaks after moving a variable, and later in the same body shadows
  it by a declaration, loses the move: the scope end replays onto the break snapshot a
  restoration saved after the break, so the outer variable counts as never moved after the
  loop although the break edge moved it.
\<close>

lemma break_then_shadow_forgets_move:
  "moved_vars (break_then_shadow x sp) x = None
   \<and> fst (merged_moves (hd (loop_break_stack (break_then_shadow x sp)))) = Some Map.empty
   \<and> fst (merged_moves (record_break [x \<mapsto> mark_path_moved [] sp default_move_state] 2 (entered_at 0)))
      = Some [x \<mapsto> mark_path_moved [] sp default_move_state]"
  by (simp add: break_then_shadow_def push_scope_frame_def pop_scope_frame_def default_ownership_def
      entered_at_def record_break_def record_edge_snapshot_def merge_branch_moves_def bind_fresh_def
      merged_moves_def restore_edges_def restore_snap_def
      restore_scope_moves_def)

section \<open>The table of settled loop heads\<close>

text \<open>
  The table is a forest: children are allocated after their parent and belong to one parent
  only.  The passes in progress run from the root inwards, and never stand more than one
  position past the children the parent has.
\<close>

definition forest :: "nat list list \<Rightarrow> bool" where
  "forest ks \<longleftrightarrow>
     (\<forall>p < length ks. \<forall>c \<in> set (ks ! p). p < c \<and> c < length ks)
     \<and> (\<forall>p < length ks. distinct (ks ! p))
     \<and> (\<forall>p < length ks. \<forall>q < p. set (ks ! p) \<inter> set (ks ! q) = {})"

definition passes_ok :: "nat list list \<Rightarrow> (nat \<times> nat) list \<Rightarrow> bool" where
  "passes_ok ks ps \<longleftrightarrow> sorted_wrt (<) (map fst ps)
     \<and> list_all (\<lambda>(p, k). p < length ks \<and> k \<le> length (ks ! p)) ps"

definition hints_ok :: "loop_head_hints \<Rightarrow> bool" where
  "hints_ok h \<longleftrightarrow> forest (map children (nodes h)) \<and> passes_ok (map children (nodes h)) (passes h)"

lemma fresh_hint_children [simp]: "children (fresh_hint body) = []" "hint_body (fresh_hint body) = body"
  by (simp_all add: fresh_hint_def)

lemma forestI:
  assumes "\<And>p c. p < length ks \<Longrightarrow> c \<in> set (ks ! p) \<Longrightarrow> p < c \<and> c < length ks"
    and "\<And>p. p < length ks \<Longrightarrow> distinct (ks ! p)"
    and "\<And>p q. p < length ks \<Longrightarrow> q < p \<Longrightarrow> set (ks ! p) \<inter> set (ks ! q) = {}"
  shows "forest ks"
  using assms unfolding forest_def by blast

lemma forest_child: "forest ks \<Longrightarrow> p < length ks \<Longrightarrow> c \<in> set (ks ! p) \<Longrightarrow> p < c \<and> c < length ks"
  unfolding forest_def by blast

lemma forest_distinct: "forest ks \<Longrightarrow> p < length ks \<Longrightarrow> distinct (ks ! p)"
  unfolding forest_def by blast

lemma forest_disjoint:
  "forest ks \<Longrightarrow> p < length ks \<Longrightarrow> q < p \<Longrightarrow> set (ks ! p) \<inter> set (ks ! q) = {}"
  unfolding forest_def by blast

lemma forest_reset:
  assumes "forest ks"
  shows "forest (ks[c := []])"
proof (rule forestI)
  fix p assume p: "p < length (ks[c := []])"
  then have nth: "ks[c := []] ! q = (if q = c then [] else ks ! q)" if "q \<le> p" for q
    using that by (simp add: nth_list_update)
  show "p < d \<and> d < length (ks[c := []])" if "d \<in> set (ks[c := []] ! p)" for d
    using forest_child [OF assms, of p d] p that nth [of p] by (simp split: if_splits)
  show "distinct (ks[c := []] ! p)"
    using forest_distinct [OF assms, of p] p nth [of p] by simp
  show "set (ks[c := []] ! p) \<inter> set (ks[c := []] ! q) = {}" if "q < p" for q
    using forest_disjoint [OF assms, of p q] p that nth [of p] nth [of q] by simp
qed

lemma forest_append:
  assumes "forest ks" "p < length ks"
  shows "forest ((ks @ [[]])[p := ks ! p @ [length ks]])" (is "forest ?ks")
proof (rule forestI)
  let ?n = "length ks"
  have nth: "?ks ! q = (if q = p then ks ! p @ [?n] else if q < ?n then ks ! q else [])" if "q \<le> ?n" for q
    using assms(2) that by (auto simp: nth_list_update nth_append)
  have new: "?n \<notin> set (ks ! q)" if "q < ?n" for q
    using forest_child [OF assms(1) that] by blast
  fix q assume q: "q < length ?ks"
  show "q < c \<and> c < length ?ks" if "c \<in> set (?ks ! q)" for c
    using that q assms(2) nth [of q] forest_child [OF assms(1), of q c]
    by (auto split: if_splits)
  show "distinct (?ks ! q)"
    using q assms(2) nth [of q] new [of p] forest_distinct [OF assms(1), of q] by auto
  show "set (?ks ! q) \<inter> set (?ks ! r) = {}" if "r < q" for r
    using that q assms(2) nth [of q] nth [of r] new [of q] new [of r]
      forest_disjoint [OF assms(1), of q r] by (auto split: if_splits)
qed

lemma passes_ok_snoc:
  "passes_ok ks (ps @ [(p, k)]) \<longleftrightarrow> passes_ok ks ps \<and> list_all (\<lambda>(q, j). q < p) ps
     \<and> p < length ks \<and> k \<le> length (ks ! p)"
  by (auto simp: passes_ok_def sorted_wrt_append list_all_iff)

lemma passes_ok_cong:
  "length ks \<le> length ks' \<Longrightarrow> list_all (\<lambda>(q, j). ks' ! q = ks ! q) ps \<Longrightarrow> passes_ok ks ps \<Longrightarrow> passes_ok ks' ps"
  by (force simp: passes_ok_def list_all_iff)

lemma passes_ok_update:
  "passes_ok ks ps \<Longrightarrow> list_all (\<lambda>(q, j). q < c) ps \<Longrightarrow> passes_ok (ks[c := xs]) ps"
  by (rule passes_ok_cong) (auto simp: list_all_iff)

lemma hints_ok_root: "hints_ok \<lparr>nodes = [fresh_hint body], passes = []\<rparr>"
  by (simp add: hints_ok_def forest_def passes_ok_def)

lemma enter_loop_ok:
  assumes "hints_ok h" "enter_loop body h = Some (node, h')"
  shows "hints_ok h' \<and> node < length (nodes h') \<and> hint_body (nodes h' ! node) = body
    \<and> list_all (\<lambda>(p, k). p < node) (passes h')"
proof (cases "passes h" rule: rev_cases)
  case Nil
  then have "node = 0" "h' = \<lparr>nodes = [fresh_hint body], passes = []\<rparr>"
    using assms(2) by (auto simp: enter_loop_def)
  then show ?thesis using hints_ok_root by simp
next
  case (snoc ps x)
  obtain p k where x: "x = (p, k)" by force
  with snoc have passes: "passes h = ps @ [(p, k)]" by simp
  let ?ks = "map children (nodes h)" and ?n = "length (nodes h)"
  have forest: "forest ?ks" and ps: "passes_ok ?ks ps" "list_all (\<lambda>(q, j). q < p) ps"
    and p: "p < ?n" "k \<le> length (children (nodes h ! p))"
    using assms(1) unfolding hints_ok_def passes passes_ok_snoc by (simp, simp, simp, simp, auto)
  have below: "list_all (\<lambda>(q, j). q < c) ps" if "p < c" for c
    using ps(2) that by (auto simp: list_all_iff)
  show ?thesis
  proof (cases "k < length (children (nodes h ! p))")
    case True
    let ?c = "children (nodes h ! p) ! k"
    have c: "p < ?c" "?c < ?n" using forest_child [OF forest, of p ?c] p(1) True by simp_all
    have ok1: "hints_ok (h\<lparr>passes := ps @ [(p, k + 1)]\<rparr>)"
      using forest ps p True by (simp add: hints_ok_def passes_ok_snoc)
    show ?thesis
    proof (cases "hint_body (nodes h ! ?c) = body")
      case same: True
      then have "node = ?c" "h' = h\<lparr>passes := ps @ [(p, k + 1)]\<rparr>"
        using assms(2) True c p by (simp_all add: enter_loop_def passes Let_def)
      with ok1 c same below [OF c(1)] show ?thesis by simp
    next
      case False
      then have eq: "node = ?c" "h' = h\<lparr>passes := ps @ [(p, k + 1)], nodes := (nodes h)[?c := fresh_hint body]\<rparr>"
        using assms(2) True c p by (auto simp: enter_loop_def passes Let_def)
      have "hints_ok h'"
        using forest_reset [OF forest] passes_ok_update [OF ps(1) below [OF c(1)]] ps(2) p True c
        by (simp add: eq hints_ok_def passes_ok_snoc map_update)
      with eq c below [OF c(1)] show ?thesis by simp
    qed
  next
    case False
    let ?ks' = "(?ks @ [[]])[p := ?ks ! p @ [?n]]"
    have eq: "node = ?n"
      "h' = h\<lparr>passes := ps @ [(p, k + 1)],
        nodes := (nodes h @ [fresh_hint body])[p := (nodes h ! p)\<lparr>children := children (nodes h ! p) @ [?n]\<rparr>]\<rparr>"
      using False assms(2) p by (auto simp: enter_loop_def passes Let_def nth_append)
    then have ks': "map children (nodes h') = ?ks'" using p(1) by (simp add: map_update)
    have "passes_ok ?ks' ps"
      by (rule passes_ok_cong [OF _ _ ps(1)]) (use p ps(2) ps(1) in
          \<open>auto simp: list_all_iff nth_append passes_ok_def\<close>)
    then have "hints_ok h'"
      unfolding hints_ok_def ks' using forest_append [OF forest, of p] ps(2) p False
      by (simp add: eq passes_ok_snoc)
    with eq p below [OF p(1)] show ?thesis by (simp add: nth_append)
  qed
qed

lemma enter_loop_total:
  assumes "hints_ok h"
  shows "enter_loop body h \<noteq> None"
proof (cases "passes h" rule: rev_cases)
  case Nil
  then show ?thesis by (simp add: enter_loop_def)
next
  case (snoc ps x)
  obtain p k where x: "x = (p, k)" by force
  have "forest (map children (nodes h))" and p: "p < length (nodes h)"
    using assms by (simp_all add: hints_ok_def snoc x passes_ok_snoc)
  from forest_child [OF this(1), of p] this show ?thesis
    by (simp add: enter_loop_def snoc x Let_def) (meson nth_mem linorder_not_le)
qed

text \<open>
  The table of settled loop heads never indexes out of bounds and stays a forest while
  loops are entered, passed over and recorded, and the node a loop enters is a node of that
  loop below every pass in progress.
\<close>

theorem loop_hints_stay_forest:
  assumes "hints_ok h"
  shows "\<exists>node h'. enter_loop body h = Some (node, h')
    \<and> hint_body (nodes h' ! node) = body
    \<and> hints_ok h' \<and> hints_ok (begin_pass node h') \<and> hints_ok (end_pass h')
    \<and> (\<exists>h''. record_head node entry head h' = Some h'' \<and> hints_ok h'')
    \<and> seed node entry h' \<noteq> None"
proof -
  obtain node h' where enter: "enter_loop body h = Some (node, h')"
    using enter_loop_total [OF assms, of body] by (metis option.exhaust surj_pair)
  note ok = enter_loop_ok [OF assms enter]
  then have ok': "hints_ok h'" "node < length (nodes h')" "list_all (\<lambda>(p, k). p < node) (passes h')"
    by simp_all
  have pass: "hints_ok (begin_pass node h')"
    using ok' by (simp add: hints_ok_def begin_pass_def passes_ok_snoc)
  have finished: "hints_ok (end_pass h')"
    using ok'(1) by (cases "passes h'" rule: rev_cases)
      (auto simp: hints_ok_def end_pass_def passes_ok_snoc)
  have "map children ((nodes h')[node := (nodes h' ! node)\<lparr>settled := s\<rparr>]) = map children (nodes h')" for s
    using ok'(2) by (simp add: map_update list_update_same_conv)
  then have recorded: "\<exists>h''. record_head node entry head h' = Some h'' \<and> hints_ok h''"
    using ok'(1,2) by (simp add: record_head_def hints_ok_def)
  have "seed node entry h' \<noteq> None" using ok'(2) by (simp add: seed_def)
  then show ?thesis using enter ok pass finished recorded by blast
qed

lemma loop_hints_stay_forest_witness:
  "\<exists>node h'. enter_loop (3, 4) no_hints = Some (node, h') \<and> hints_ok (begin_pass node h')"
proof -
  have "hints_ok no_hints" by (simp add: hints_ok_def no_hints_def forest_def passes_ok_def)
  from loop_hints_stay_forest [OF this, of "(3, 4)"] show ?thesis by blast
qed

text \<open>
  A pass over a loop body that meets the same nested loop at the same position finds the
  head recorded there, and starts from a state above both its entry and the recorded head:
  every path one of them may have moved counts as moved, and no path counts as moved on every
  path unless both say so.
\<close>

theorem seed_above_entry_and_head:
  assumes "hints_ok h" "enter_loop body h = Some (node, h')"
    and "passes h = ps @ [(p, k)]" "k < length (children (nodes h ! p))"
    and "children (nodes h ! p) ! k = c" "hint_body (nodes h ! c) = body"
    and "settled (nodes h ! c) = Some (settled_entry, settled_head)"
    and "wf_move_map entry" "wf_move_map settled_head"
  shows "node = c \<and> seed node entry h' =
        Some (if move_map_below settled_entry entry then Some (union_move_maps entry settled_head) else None)
    \<and> (\<forall>start. seed node entry h' = Some (Some start) \<longrightarrow>
        (may_moved (state_of start symbol) path \<longleftrightarrow>
           may_moved (state_of entry symbol) path \<or> may_moved (state_of settled_head symbol) path)
        \<and> (must_moved (state_of start symbol) path \<longrightarrow>
           must_moved (state_of entry symbol) path \<and> must_moved (state_of settled_head symbol) path))"
proof -
  have p: "p < length (nodes h)" "forest (map children (nodes h))"
    using assms(1,3) by (simp_all add: hints_ok_def passes_ok_snoc)
  then have c: "c < length (nodes h)"
    using forest_child [OF p(2), of p c] assms(4,5) nth_mem [OF assms(4)] by simp
  have h': "node = c" "h' = h\<lparr>passes := ps @ [(p, k + 1)]\<rparr>"
    using assms(2-6) p c by (auto simp: enter_loop_def Let_def)
  then have seed: "seed node entry h' =
      Some (if move_map_below settled_entry entry then Some (union_move_maps entry settled_head) else None)"
    using c assms(7) by (simp add: seed_def)
  then show ?thesis
    using h'(1) join_all_moved [of entry "[settled_head]" symbol path] assms(8,9)
    by (auto split: if_splits)
qed

lemma seed_above_entry_and_head_witness:
  "let h = \<lparr>nodes = [(fresh_hint (1, 1))\<lparr>children := [1]\<rparr>,
               (fresh_hint (2, 1))\<lparr>settled := Some (Map.empty, Map.empty)\<rparr>],
             passes = [(0, 0)]\<rparr>
   in seed 1 Map.empty (snd (the (enter_loop (2, 1) h))) = Some (Some Map.empty)"
proof -
  define h :: loop_head_hints where
    "h = \<lparr>nodes = [(fresh_hint (1, 1))\<lparr>children := [1]\<rparr>,
             (fresh_hint (2, 1))\<lparr>settled := Some (Map.empty, Map.empty)\<rparr>], passes = [(0, 0)]\<rparr>"
  have ok: "hints_ok h" by (auto simp: hints_ok_def h_def less_Suc_eq forest_def passes_ok_def)
  have enter: "enter_loop (2, 1) h = Some (1, h\<lparr>passes := [(0, 1)]\<rparr>)"
    by (simp add: enter_loop_def h_def Let_def)
  have empty: "union_move_maps Map.empty Map.empty = Map.empty" "wf_move_map Map.empty"
    by (auto simp: union_move_maps_def wf_move_map_def)
  have "seed 1 Map.empty (h\<lparr>passes := [(0, 1)]\<rparr>) = Some (Some Map.empty)"
    using seed_above_entry_and_head [OF ok enter, of "[]" 0 0 1 Map.empty Map.empty Map.empty]
    by (simp add: h_def empty move_map_below_def move_map_eq_def)
  then show ?thesis unfolding Let_def h_def [symmetric] using enter by simp
qed

end
