(* ===== verification/Reg_Class.thy ===== *)
theory Reg_Class
  imports Rue_Prelude
begin

text \<open>
  The classes of physical and virtual registers (\<open>rue-codegen/src/reg_class.rs\<close>), which the
  scheduler and the register allocator share.
\<close>

section \<open>Register classes\<close>

datatype reg_class = Gp | Fp

fun class_index :: "reg_class \<Rightarrow> nat" where
  "class_index Gp = 0"
| "class_index Fp = 1"

definition class_all :: "reg_class list" where
  "class_all = [Gp, Fp]"

lemma in_class_all [simp]: "class \<in> set class_all"
  by (cases "class") (simp_all add: class_all_def)

fun class_name :: "reg_class \<Rightarrow> string" where
  "class_name Gp = ''gp''"
| "class_name Fp = ''fp''"

type_synonym vreg_classes = "reg_class list"

definition all_gp :: "u32 \<Rightarrow> vreg_classes" where
  "all_gp n = replicate (unat n) Gp"

definition push_class :: "reg_class \<Rightarrow> vreg_classes \<Rightarrow> vreg_classes" where
  "push_class class cs = cs @ [class]"

definition class_of :: "u32 \<Rightarrow> vreg_classes \<Rightarrow> reg_class" where
  "class_of vreg cs = (if unat vreg < length cs then cs ! unat vreg else Gp)"

definition count_in :: "reg_class \<Rightarrow> vreg_classes \<Rightarrow> u32" where
  "count_in class cs = of_nat (length (filter (\<lambda>c. c = class) cs))"

end
