(* ===== verification/Dependence.thy ===== *)
theory Dependence
  imports Main "HOL-Library.Multiset"
begin

text \<open>
  Program-order dependence, as the instruction scheduler uses it: tables that remember the
  last writer and the readers since then (the interface \<open>fact_table\<close>), the argument that the
  edges drawn from such a table order every conflicting pair, and the argument that a
  reordering which keeps every conflicting pair in order computes the same result.
\<close>

section \<open>The last index with a property\<close>

fun last_index :: "(nat \<Rightarrow> bool) \<Rightarrow> nat \<Rightarrow> nat option" where
  "last_index P 0 = None"
| "last_index P (Suc n) = (if P n then Some n else last_index P n)"

lemma last_index_None: "last_index P n = None \<longleftrightarrow> (\<forall>m < n. \<not> P m)"
  by (induction n) (auto simp: less_Suc_eq)

lemma last_index_Some:
  "last_index P n = Some w \<longleftrightarrow> w < n \<and> P w \<and> (\<forall>m. w < m \<longrightarrow> m < n \<longrightarrow> \<not> P m)"
  by (induction n) (auto simp: less_Suc_eq)

section \<open>Tables of writers and readers\<close>

locale fact_table =
  fixes writer :: "'s \<Rightarrow> 'k \<Rightarrow> nat option"
    and readers :: "'s \<Rightarrow> 'k \<Rightarrow> nat list"
    and wrote :: "'k \<Rightarrow> nat \<Rightarrow> 's \<Rightarrow> 's"
    and seen :: "'k \<Rightarrow> nat \<Rightarrow> 's \<Rightarrow> 's"
    and reset :: "'s \<Rightarrow> 's"
  assumes writer_reset: "writer (reset s) k = None"
    and readers_reset: "readers (reset s) k = []"
    and writer_write: "writer (wrote k i s) k' = (if k' = k then Some i else writer s k')"
    and readers_write: "readers (wrote k i s) k' = (if k' = k then [] else readers s k')"
    and writer_read: "writer (seen k i s) k' = writer s k'"
    and readers_read: "readers (seen k i s) k' = (if k' = k then readers s k @ [i] else readers s k')"
begin

lemma writer_reads: "writer (fold (\<lambda>k. seen k i) ks s) k' = writer s k'"
  by (induction ks arbitrary: s) (simp_all add: writer_read)

lemma readers_reads:
  "set (readers (fold (\<lambda>k. seen k i) ks s) k') = (if k' \<in> set ks then {i} else {}) \<union> set (readers s k')"
  by (induction ks arbitrary: s) (auto simp: readers_read)

lemma writer_writes:
  "writer (fold (\<lambda>k. wrote k i) ks s) k' = (if k' \<in> set ks then Some i else writer s k')"
  by (induction ks arbitrary: s) (auto simp: writer_write)

lemma readers_writes:
  "readers (fold (\<lambda>k. wrote k i) ks s) k' = (if k' \<in> set ks then [] else readers s k')"
  by (induction ks arbitrary: s) (auto simp: readers_write)

lemma writer_run:
  assumes "t 0 = reset s"
    and "\<And>i. i < n \<Longrightarrow> t (Suc i) = fold (\<lambda>k. seen k i) (rs i) (fold (\<lambda>k. wrote k i) (ws i) (t i))"
  shows "m \<le> n \<Longrightarrow> writer (t m) k = last_index (\<lambda>i. k \<in> set (ws i)) m"
proof (induction m)
  case (Suc m)
  then have m: "m < n" and IH: "writer (t m) k = last_index (\<lambda>i. k \<in> set (ws i)) m" by simp_all
  show ?case unfolding assms(2) [OF m] writer_reads writer_writes IH by simp
qed (simp add: assms(1) writer_reset)

lemma readers_run:
  assumes "t 0 = reset s"
    and "\<And>i. i < n \<Longrightarrow> t (Suc i) = fold (\<lambda>k. seen k i) (rs i) (fold (\<lambda>k. wrote k i) (ws i) (t i))"
  shows "m \<le> n \<Longrightarrow> set (readers (t m) k) =
    {r. r < m \<and> k \<in> set (rs r) \<and> (\<forall>j. r < j \<longrightarrow> j < m \<longrightarrow> k \<notin> set (ws j))}"
proof (induction m)
  case (Suc m)
  then have m: "m < n" and IH: "set (readers (t m) k) =
      {r. r < m \<and> k \<in> set (rs r) \<and> (\<forall>j. r < j \<longrightarrow> j < m \<longrightarrow> k \<notin> set (ws j))}" by simp_all
  have "set (readers (t (Suc m)) k) = (if k \<in> set (rs m) then {m} else {}) \<union>
      (if k \<in> set (ws m) then {} else set (readers (t m) k))"
    unfolding assms(2) [OF m] readers_reads readers_writes by simp
  then show ?case unfolding IH by (auto simp: less_Suc_eq)
qed (simp add: assms(1) readers_reset)

end

section \<open>Paths through one resource\<close>

lemma last_writer_exists:
  fixes wr :: "nat \<Rightarrow> bool"
  assumes "wr k" "k < j"
  obtains w where "k \<le> w" "w < j" "wr w" "\<forall>m. w < m \<longrightarrow> m < j \<longrightarrow> \<not> wr m"
proof -
  have "last_index wr j \<noteq> None" using assms by (auto simp: last_index_None)
  then obtain w where w: "w < j" "wr w" "\<forall>m. w < m \<longrightarrow> m < j \<longrightarrow> \<not> wr m"
    by (auto simp: last_index_Some)
  with assms have "k \<le> w" by (meson linorder_not_le)
  with w that show thesis by blast
qed

lemma resource_path:
  fixes wr rd :: "nat \<Rightarrow> bool"
  assumes after_writer: "\<And>w j. j < n \<Longrightarrow> w < j \<Longrightarrow> wr w \<Longrightarrow> wr j \<or> rd j \<Longrightarrow>
      \<forall>m. w < m \<longrightarrow> m < j \<longrightarrow> \<not> wr m \<Longrightarrow> (w, j) \<in> E"
    and after_reader: "\<And>r j. j < n \<Longrightarrow> r < j \<Longrightarrow> rd r \<Longrightarrow> wr j \<Longrightarrow>
      \<forall>m. r < m \<longrightarrow> m < j \<longrightarrow> \<not> wr m \<Longrightarrow> (r, j) \<in> E"
    and "i < j" "j < n" "wr i \<and> (wr j \<or> rd j) \<or> rd i \<and> wr j"
  shows "(i, j) \<in> E\<^sup>+"
  using assms(3-5)
proof (induction j rule: less_induct)
  case (less j)
  show ?case
  proof (cases "\<exists>m. i < m \<and> m < j \<and> wr m")
    case False
    then show ?thesis using after_writer [of j i] after_reader [of j i] less.prems by blast
  next
    case True
    then obtain m where m: "i < m" "m < j" "wr m" by blast
    then obtain w where w: "m \<le> w" "w < j" "wr w" "\<forall>m. w < m \<longrightarrow> m < j \<longrightarrow> \<not> wr m"
      using last_writer_exists [of wr m j] by blast
    have "(i, w) \<in> E\<^sup>+" using less.IH [of w] w m less.prems by auto
    moreover have "(w, j) \<in> E" using after_writer [of j w] w less.prems by blast
    ultimately show ?thesis by (rule trancl_into_trancl)
  qed
qed

section \<open>Reorderings that keep every dependence\<close>

text \<open>
  \<open>order\<close> lists the old positions in their new order.  When the steps of every pair of
  positions that changes places commute, the reordered program computes the same state.
\<close>

lemma fold_move_front:
  assumes "\<And>y. y \<in> set ys \<Longrightarrow> exec x \<circ> exec y = exec y \<circ> exec x"
  shows "fold exec (ys @ [x]) s = fold exec (x # ys) s"
  using assms
proof (induction ys arbitrary: s)
  case (Cons y ys)
  have "exec x (exec y s) = exec y (exec x s)"
    using Cons.prems [of y] by (metis comp_apply list.set_intros(1))
  with Cons.IH [of "exec y s"] Cons.prems show ?case by simp
qed simp

lemma fold_reorder:
  assumes "sorted_wrt (<) (ps :: nat list)" "mset order = mset ps"
    and "\<And>a b. b < a \<Longrightarrow> a < length order \<Longrightarrow> order ! a < order ! b \<Longrightarrow>
      f (order ! a) \<circ> f (order ! b) = f (order ! b) \<circ> f (order ! a)"
  shows "fold f order s = fold f ps s"
  using assms
proof (induction ps arbitrary: order s)
  case (Cons p ps)
  have "p \<in> set order" using mset_eq_setD [OF Cons.prems(2)] by simp
  then obtain us vs where order: "order = us @ p # vs" by (auto simp: in_set_conv_decomp)
  have dist: "distinct order"
    using Cons.prems(1,2) by (metis mset_eq_imp_distinct_iff strict_sorted_iff)
  have set: "set order = insert p (set ps)" using mset_eq_setD [OF Cons.prems(2)] by simp
  have above: "p < u" if "u \<in> set us" for u
    using that Cons.prems(1) dist set order by auto
  have commute: "f p \<circ> f u = f u \<circ> f p" if u: "u \<in> set us" for u
  proof -
    obtain b where "b < length us" "us ! b = u" using u by (auto simp: in_set_conv_nth)
    then show ?thesis
      using Cons.prems(3) [of b "length us"] above [OF u] by (simp add: order nth_append comp_def)
  qed
  have rest: "fold f (us @ vs) t = fold f ps t" for t
  proof (rule Cons.IH)
    show "sorted_wrt (<) ps" using Cons.prems(1) by simp
    show "mset (us @ vs) = mset ps" using Cons.prems(2) order by simp
    fix a b assume ab: "b < a" "a < length (us @ vs)" "(us @ vs) ! a < (us @ vs) ! b"
    let ?g = "\<lambda>a. if a < length us then a else Suc a"
    have g: "(us @ vs) ! c = order ! ?g c" if "c < length (us @ vs)" for c
      using that by (cases "c < length us") (simp_all add: order nth_append Suc_diff_le)
    show "f ((us @ vs) ! a) \<circ> f ((us @ vs) ! b) = f ((us @ vs) ! b) \<circ> f ((us @ vs) ! a)"
      using Cons.prems(3) [of "?g b" "?g a"] ab g [of a] g [of b] by (auto simp: order comp_def)
  qed
  have "fold f order s = fold f vs (fold f (us @ [p]) s)" by (simp add: order)
  also have "\<dots> = fold f vs (fold f (p # us) s)"
    using fold_move_front [of us f p s] commute by simp
  also have "\<dots> = fold f (p # ps) s" using rest [of "f p s"] by simp
  finally show ?case .
qed simp

end
