(* ===== verification/Sched_Graph.thy ===== *)
theory Sched_Graph
  imports Reg_Class Dependence
begin

text \<open>
  The dependency graph of the instruction scheduler
  (\<open>crates/rue-codegen/src/schedule_core.rs\<close>): the per-register tables, the edges, and the
  critical-path priorities.

  The backend's trait implementation is a record of functions, the adapter; every theorem
  holds for an arbitrary one.  A vector is a list; indices are shown to stay in range.
\<close>

section \<open>The backend's facts\<close>

record ('i, 'r) adapter =
  adapter_class :: "'r \<Rightarrow> reg_class"
  adapter_index :: "'r \<Rightarrow> nat"
  adapter_latency :: "'i \<Rightarrow> u32"
  is_barrier :: "'i \<Rightarrow> bool"
  accesses_memory :: "'i \<Rightarrow> bool"
  regs_read :: "'i \<Rightarrow> 'r list"
  regs_written :: "'i \<Rightarrow> 'r list"
  clobbers :: "'i \<Rightarrow> 'r list"
  writes_flags :: "'i \<Rightarrow> bool"
  reads_flags :: "'i \<Rightarrow> bool"

definition push_reg :: "'r \<Rightarrow> 'r list \<Rightarrow> 'r list option" where
  "push_reg reg regs = (if length regs < 3 then Some (regs @ [reg]) else None)"

section \<open>The register tables\<close>

record reg_tracker =
  last_writer_tab :: "reg_class \<Rightarrow> nat option list"
  last_readers_tab :: "reg_class \<Rightarrow> nat list list"

definition new_tracker :: reg_tracker where
  "new_tracker = \<lparr>last_writer_tab = (\<lambda>_. []), last_readers_tab = (\<lambda>_. [])\<rparr>"

definition clear_tracker :: "reg_tracker \<Rightarrow> reg_tracker" where
  "clear_tracker t =
     \<lparr>last_writer_tab = (\<lambda>c. map (\<lambda>_. None) (last_writer_tab t c)),
      last_readers_tab = (\<lambda>c. map (\<lambda>_. []) (last_readers_tab t c))\<rparr>"

definition resized :: "nat \<Rightarrow> 'a \<Rightarrow> 'a list \<Rightarrow> 'a list" where
  "resized n x xs = (if length xs < n then xs @ replicate (n - length xs) x else xs)"

definition ensure_reg :: "reg_class \<Rightarrow> nat \<Rightarrow> reg_tracker \<Rightarrow> reg_tracker" where
  "ensure_reg class reg t =
     \<lparr>last_writer_tab = (last_writer_tab t)(class := resized (reg + 1) None (last_writer_tab t class)),
      last_readers_tab = (last_readers_tab t)(class := resized (reg + 1) [] (last_readers_tab t class))\<rparr>"

definition last_writer :: "reg_tracker \<Rightarrow> reg_class \<times> nat \<Rightarrow> nat option" where
  "last_writer t = (\<lambda>(class, reg).
     if reg < length (last_writer_tab t class) then last_writer_tab t class ! reg else None)"

definition last_readers :: "reg_tracker \<Rightarrow> reg_class \<times> nat \<Rightarrow> nat list" where
  "last_readers t = (\<lambda>(class, reg).
     if reg < length (last_readers_tab t class) then last_readers_tab t class ! reg else [])"

definition record_write :: "reg_class \<times> nat \<Rightarrow> nat \<Rightarrow> reg_tracker \<Rightarrow> reg_tracker" where
  "record_write = (\<lambda>(class, reg) idx t.
     let t = ensure_reg class reg t in
     t\<lparr>last_writer_tab := (last_writer_tab t)(class := (last_writer_tab t class)[reg := Some idx]),
       last_readers_tab := (last_readers_tab t)(class := (last_readers_tab t class)[reg := []])\<rparr>)"

definition record_read :: "reg_class \<times> nat \<Rightarrow> nat \<Rightarrow> reg_tracker \<Rightarrow> reg_tracker" where
  "record_read = (\<lambda>(class, reg) idx t.
     let t = ensure_reg class reg t in
     t\<lparr>last_readers_tab := (last_readers_tab t)(class :=
         (last_readers_tab t class)[reg := last_readers_tab t class ! reg @ [idx]])\<rparr>)"

section \<open>Nodes and edges\<close>

record sched_node =
  deps :: "nat list"
  users :: "nat list"
  priority :: u32
  node_latency :: u32

definition new_node :: "u32 \<Rightarrow> sched_node" where
  "new_node lat = \<lparr>deps = [], users = [], priority = 0, node_latency = lat\<rparr>"

definition usize_max :: nat where "usize_max = 2 ^ 64 - 1"

type_synonym graph = "sched_node list \<times> nat list"

definition add_edge :: "nat \<Rightarrow> nat \<Rightarrow> graph \<Rightarrow> graph" where
  "add_edge to from = (\<lambda>(nodes, last_edge_target).
     if last_edge_target ! from \<noteq> to
     then
       (let nodes = nodes[to := (nodes ! to)\<lparr>deps := deps (nodes ! to) @ [from]\<rparr>];
            nodes = nodes[from := (nodes ! from)\<lparr>users := users (nodes ! from) @ [to]\<rparr>]
        in (nodes, last_edge_target[from := to]))
     else (nodes, last_edge_target))"

definition reg_key :: "('i, 'r) adapter \<Rightarrow> 'r \<Rightarrow> reg_class \<times> nat" where
  "reg_key A r = (adapter_class A r, adapter_index A r)"

record dep_state =
  dep_graph :: graph
  tracker :: reg_tracker
  last_memory_access :: "nat option"
  flags :: "nat option \<times> nat list"

fun opt_list :: "'a option \<Rightarrow> 'a list" where
  "opt_list None = []"
| "opt_list (Some x) = [x]"

text \<open>
  The predecessors the code draws edges from while it visits instruction \<open>i\<close>, in its order.
  No table changes until all of them are drawn, except that of the last memory access, which
  the same instruction does not read again.
\<close>

definition dep_sources :: "('i, 'r) adapter \<Rightarrow> nat \<Rightarrow> 'i \<Rightarrow> dep_state \<Rightarrow> nat list" where
  "dep_sources A i inst st =
     (let writer = (\<lambda>r. opt_list (last_writer (tracker st) (reg_key A r)));
          readers = (\<lambda>r. filter (\<lambda>k. k \<noteq> i) (last_readers (tracker st) (reg_key A r)));
          (flags_writer, flags_readers) = flags st
      in concat (map writer (regs_read A inst))
         @ concat (map writer (regs_written A inst))
         @ concat (map readers (regs_written A inst))
         @ (if reads_flags A inst then opt_list flags_writer else [])
         @ (if writes_flags A inst then opt_list flags_writer else [])
         @ (if writes_flags A inst then filter (\<lambda>k. k \<noteq> i) flags_readers else [])
         @ (if accesses_memory A inst then opt_list (last_memory_access st) else [])
         @ concat (map (\<lambda>r. readers r @ writer r) (clobbers A inst)))"

definition write_flags :: "unit \<Rightarrow> nat \<Rightarrow> nat option \<times> nat list \<Rightarrow> nat option \<times> nat list" where
  "write_flags u i f = (Some i, [])"

definition read_flags :: "unit \<Rightarrow> nat \<Rightarrow> nat option \<times> nat list \<Rightarrow> nat option \<times> nat list" where
  "read_flags u i f = (fst f, snd f @ [i])"

definition dep_step :: "('i, 'r) adapter \<Rightarrow> 'i list \<Rightarrow> nat \<Rightarrow> dep_state \<Rightarrow> dep_state" where
  "dep_step A block i st =
     (let inst = block ! i in
      st\<lparr>dep_graph := fold (add_edge i) (dep_sources A i inst st) (dep_graph st),
         last_memory_access := (if accesses_memory A inst then Some i else last_memory_access st),
         tracker :=
           fold (\<lambda>k. record_read k i) (map (reg_key A) (regs_read A inst))
             (fold (\<lambda>k. record_write k i)
               (map (reg_key A) (clobbers A inst) @ map (reg_key A) (regs_written A inst))
               (tracker st)),
         flags :=
           fold (\<lambda>k. read_flags k i) (if reads_flags A inst then [()] else [])
             (fold (\<lambda>k. write_flags k i) (if writes_flags A inst then [()] else []) (flags st))\<rparr>)"

definition dep_init :: "('i, 'r) adapter \<Rightarrow> 'i list \<Rightarrow> reg_tracker \<Rightarrow> dep_state" where
  "dep_init A block regs =
     \<lparr>dep_graph = (map (\<lambda>inst. new_node (adapter_latency A inst)) block, replicate (length block) usize_max),
      tracker = clear_tracker regs, last_memory_access = None, flags = (None, [])\<rparr>"

definition dep_run :: "('i, 'r) adapter \<Rightarrow> 'i list \<Rightarrow> reg_tracker \<Rightarrow> nat \<Rightarrow> dep_state" where
  "dep_run A block regs n = fold (dep_step A block) [0..<n] (dep_init A block regs)"

definition build_dep_graph_reusing ::
  "('i, 'r) adapter \<Rightarrow> 'i list \<Rightarrow> reg_tracker \<Rightarrow> sched_node list \<times> reg_tracker" where
  "build_dep_graph_reusing A block regs =
     (let st = dep_run A block regs (length block) in (fst (dep_graph st), tracker st))"

section \<open>Priorities\<close>

definition max_user :: "sched_node list \<Rightarrow> nat \<Rightarrow> u32" where
  "max_user nodes idx = fold max (map (\<lambda>user. priority (nodes ! user)) (users (nodes ! idx))) 0"

definition set_priority :: "nat \<Rightarrow> sched_node list \<Rightarrow> sched_node list" where
  "set_priority idx nodes =
     nodes[idx := (nodes ! idx)\<lparr>priority := node_latency (nodes ! idx) + max_user nodes idx\<rparr>]"

definition calculate_priorities :: "sched_node list \<Rightarrow> sched_node list" where
  "calculate_priorities nodes = fold set_priority (rev [0..<length nodes]) nodes"

section \<open>The tables as partial maps\<close>

lemma nth_resized [simp]: "j < length xs \<Longrightarrow> resized n x xs ! j = xs ! j"
  by (simp add: resized_def nth_append)

lemma nth_resized_new [simp]: "length xs \<le> j \<Longrightarrow> j < n \<Longrightarrow> resized n x xs ! j = x"
  by (simp add: resized_def nth_append)

lemma length_resized [simp]: "length (resized n x xs) = max n (length xs)"
  by (simp add: resized_def)

lemma writer_ensure [simp]: "last_writer (ensure_reg class reg t) k = last_writer t k"
  by (cases k) (auto simp: last_writer_def ensure_reg_def not_less)

lemma readers_ensure [simp]: "last_readers (ensure_reg class reg t) k = last_readers t k"
  by (cases k) (auto simp: last_readers_def ensure_reg_def not_less)

lemma ensure_covers [simp]:
  "reg < length (last_writer_tab (ensure_reg class reg t) class)"
  "reg < length (last_readers_tab (ensure_reg class reg t) class)"
  by (simp_all add: ensure_reg_def)

interpretation regs: fact_table last_writer last_readers record_write record_read clear_tracker
proof unfold_locales
  fix s :: reg_tracker and k k' :: "reg_class \<times> nat" and i :: nat
  obtain cl reg where k: "k = (cl, reg)" by force
  obtain cl' reg' where k': "k' = (cl', reg')" by force
  let ?s = "ensure_reg cl reg s"
  have s: "last_writer s k' = last_writer ?s k'" "last_readers s k' = last_readers ?s k'"
    "last_readers s k = last_readers ?s k" by simp_all
  show "last_writer (clear_tracker s) k = None" "last_readers (clear_tracker s) k = []"
    by (simp_all add: k last_writer_def last_readers_def clear_tracker_def)
  show "last_writer (record_write k i s) k' = (if k' = k then Some i else last_writer s k')"
    unfolding s by (simp add: k k' last_writer_def record_write_def Let_def del: writer_ensure)
  show "last_readers (record_write k i s) k' = (if k' = k then [] else last_readers s k')"
    unfolding s by (simp add: k k' last_readers_def record_write_def Let_def del: readers_ensure)
  show "last_writer (record_read k i s) k' = last_writer s k'"
    unfolding s by (simp add: k k' last_writer_def record_read_def Let_def del: writer_ensure)
  show "last_readers (record_read k i s) k' =
      (if k' = k then last_readers s k @ [i] else last_readers s k')"
    unfolding s by (simp add: k k' last_readers_def record_read_def Let_def del: readers_ensure)
qed

interpretation flag: fact_table "\<lambda>f _. fst f" "\<lambda>f _. snd f" write_flags read_flags "\<lambda>_. (None, [])"
  by unfold_locales (simp_all add: write_flags_def read_flags_def)

section \<open>Edges are drawn once, forwards and in range\<close>

definition edges :: "sched_node list \<Rightarrow> (nat \<times> nat) set" where
  "edges nodes = {(u, v). v < length nodes \<and> u \<in> set (deps (nodes ! v))}"

definition graph_ok :: "sched_node list \<Rightarrow> bool" where
  "graph_ok nodes \<longleftrightarrow>
     (\<forall>v < length nodes. distinct (deps (nodes ! v)) \<and> distinct (users (nodes ! v))
        \<and> (\<forall>u \<in> set (deps (nodes ! v)). u < v)
        \<and> (\<forall>w. w \<in> set (users (nodes ! v)) \<longleftrightarrow> (v, w) \<in> edges nodes))"

lemma edgeI: "v < length nodes \<Longrightarrow> u \<in> set (deps (nodes ! v)) \<Longrightarrow> (u, v) \<in> edges nodes"
  by (simp add: edges_def)

lemma graph_okD:
  assumes "graph_ok nodes" "v < length nodes"
  shows "distinct (deps (nodes ! v))" "distinct (users (nodes ! v))"
    "u \<in> set (deps (nodes ! v)) \<Longrightarrow> u < v"
    "w \<in> set (users (nodes ! v)) \<longleftrightarrow> (v, w) \<in> edges nodes"
  using assms by (simp_all add: graph_ok_def)

lemma edge_forward: "graph_ok nodes \<Longrightarrow> (u, v) \<in> edges nodes \<Longrightarrow> u < v \<and> v < length nodes"
  by (auto simp: edges_def graph_okD)

lemma edges_cong:
  "length nodes' = length nodes \<Longrightarrow> (\<And>v. v < length nodes \<Longrightarrow> deps (nodes' ! v) = deps (nodes ! v)) \<Longrightarrow>
    edges nodes' = edges nodes"
  by (auto simp: edges_def)

text \<open>While instruction \<open>i\<close> is visited, its edges are the ones whose target entry is \<open>i\<close>.\<close>

definition visiting :: "nat \<Rightarrow> nat \<Rightarrow> graph \<Rightarrow> bool" where
  "visiting n i = (\<lambda>(nodes, last_edge_target).
     length nodes = n \<and> length last_edge_target = n \<and> graph_ok nodes
     \<and> (\<forall>j. i < j \<longrightarrow> j < n \<longrightarrow> deps (nodes ! j) = [])
     \<and> (\<forall>u < n. u \<in> set (deps (nodes ! i)) \<longleftrightarrow> last_edge_target ! u = i)
     \<and> (\<forall>u < n. last_edge_target ! u \<le> i \<or> last_edge_target ! u = usize_max))"

lemma add_edge_visiting:
  assumes "visiting n i (nodes, targets)" "from < i" "i < n"
  shows "visiting n i (add_edge i from (nodes, targets))"
    and "edges (fst (add_edge i from (nodes, targets))) = insert (from, i) (edges nodes)"
    and "map node_latency (fst (add_edge i from (nodes, targets))) = map node_latency nodes"
proof -
  note inv = assms(1) [unfolded visiting_def prod.case]
  have len: "length nodes = n" "length targets = n" and ok: "graph_ok nodes"
    and later: "\<And>j. i < j \<Longrightarrow> j < n \<Longrightarrow> deps (nodes ! j) = []"
    and seen: "\<And>u. u < n \<Longrightarrow> u \<in> set (deps (nodes ! i)) \<longleftrightarrow> targets ! u = i"
    and bound: "\<And>u. u < n \<Longrightarrow> targets ! u \<le> i \<or> targets ! u = usize_max"
    using inv by auto
  have all: "visiting n i (add_edge i from (nodes, targets))
    \<and> edges (fst (add_edge i from (nodes, targets))) = insert (from, i) (edges nodes)
    \<and> map node_latency (fst (add_edge i from (nodes, targets))) = map node_latency nodes"
  proof (cases "targets ! from = i")
    case True
    then have "(from, i) \<in> edges nodes" using seen [of "from"] assms(2,3) len by (simp add: edges_def)
    with True assms(1) show ?thesis by (simp add: add_edge_def insert_absorb)
  next
    case False
    let ?nodes = "fst (add_edge i from (nodes, targets))"
    let ?targets = "snd (add_edge i from (nodes, targets))"
    have targets': "?targets = targets[from := i]" using False by (simp add: add_edge_def Let_def)
    have node: "?nodes ! v = (nodes ! v)\<lparr>
        deps := deps (nodes ! v) @ (if v = i then [from] else []),
        users := users (nodes ! v) @ (if v = from then [i] else [])\<rparr>" for v
      using False assms(2,3) len
      by (cases "v < n") (auto simp: add_edge_def Let_def nth_list_update)
    have len': "length ?nodes = n" using False len by (simp add: add_edge_def Let_def)
    have fresh: "from \<notin> set (deps (nodes ! i))" using False seen [of "from"] assms(2,3) by simp
    have edges': "edges ?nodes = insert (from, i) (edges nodes)"
      using assms(3) len len' by (auto simp: edges_def node)
    have "graph_ok ?nodes"
      unfolding graph_ok_def
    proof (intro allI impI conjI)
      fix v assume "v < length ?nodes"
      then have v: "v < length nodes" using len len' by simp
      show "distinct (deps (?nodes ! v))" using graph_okD(1) [OF ok v] fresh by (simp add: node)
      show "distinct (users (?nodes ! v))"
        using graph_okD(2,4) [OF ok v] fresh by (auto simp: node edges_def)
      show "\<forall>u \<in> set (deps (?nodes ! v)). u < v"
        using graph_okD(3) [OF ok v] assms(2) by (auto simp: node)
      show "w \<in> set (users (?nodes ! v)) \<longleftrightarrow> (v, w) \<in> edges ?nodes" for w
        using graph_okD(4) [OF ok v, of w] by (auto simp: node edges')
    qed
    moreover have "map node_latency ?nodes = map node_latency nodes"
      by (rule nth_equalityI) (simp_all add: len len' node)
    moreover have "visiting n i (?nodes, ?targets)"
      unfolding visiting_def prod.case targets'
      using len len' later seen bound assms(2,3) \<open>graph_ok ?nodes\<close>
      by (auto simp: node nth_list_update)
    ultimately show ?thesis using edges' by simp
  qed
  show "visiting n i (add_edge i from (nodes, targets))"
    "edges (fst (add_edge i from (nodes, targets))) = insert (from, i) (edges nodes)"
    "map node_latency (fst (add_edge i from (nodes, targets))) = map node_latency nodes"
    using all by simp_all
qed

lemma add_edges_visiting:
  "visiting n i g \<Longrightarrow> i < n \<Longrightarrow> \<forall>u \<in> set us. u < i \<Longrightarrow>
    visiting n i (fold (add_edge i) us g)
    \<and> edges (fst (fold (add_edge i) us g)) = edges (fst g) \<union> (\<lambda>u. (u, i)) ` set us
    \<and> map node_latency (fst (fold (add_edge i) us g)) = map node_latency (fst g)"
proof (induction us arbitrary: g)
  case (Cons u us)
  obtain nodes targets where g: "g = (nodes, targets)" by force
  have "u < i" using Cons.prems by simp
  note step = add_edge_visiting [OF Cons.prems(1) [unfolded g] \<open>u < i\<close> Cons.prems(2)]
  from Cons.IH [OF step(1) Cons.prems(2)] Cons.prems(3) step(2,3) g show ?case by auto
qed simp

definition visited :: "nat \<Rightarrow> nat \<Rightarrow> graph \<Rightarrow> bool" where
  "visited n i = (\<lambda>(nodes, last_edge_target).
     length nodes = n \<and> length last_edge_target = n \<and> graph_ok nodes
     \<and> (\<forall>j. i \<le> j \<longrightarrow> j < n \<longrightarrow> deps (nodes ! j) = [])
     \<and> (\<forall>u < n. last_edge_target ! u < i \<or> last_edge_target ! u = usize_max))"

lemma visited_visiting: "visited n i g \<Longrightarrow> i < n \<Longrightarrow> n \<le> usize_max \<Longrightarrow> visiting n i g"
  by (cases g) (force simp: visited_def visiting_def)

lemma visiting_visited: "visiting n i g \<Longrightarrow> visited n (Suc i) g"
  by (cases g) (auto simp: visited_def visiting_def less_Suc_eq_le Suc_le_eq)

section \<open>What the tables hold when an instruction is visited\<close>

definition reg_writes :: "('i, 'r) adapter \<Rightarrow> 'i \<Rightarrow> (reg_class \<times> nat) set" where
  "reg_writes A inst = reg_key A ` (set (clobbers A inst) \<union> set (regs_written A inst))"

definition reg_reads :: "('i, 'r) adapter \<Rightarrow> 'i \<Rightarrow> (reg_class \<times> nat) set" where
  "reg_reads A inst = reg_key A ` set (regs_read A inst)"

definition conflicts :: "('i, 'r) adapter \<Rightarrow> 'i \<Rightarrow> 'i \<Rightarrow> bool" where
  "conflicts A a b \<longleftrightarrow>
     reg_writes A a \<inter> (reg_writes A b \<union> reg_reads A b) \<noteq> {}
     \<or> reg_reads A a \<inter> reg_writes A b \<noteq> {}
     \<or> writes_flags A a \<and> (writes_flags A b \<or> reads_flags A b)
     \<or> reads_flags A a \<and> writes_flags A b
     \<or> accesses_memory A a \<and> accesses_memory A b"

lemma dep_run_simps:
  "dep_run A block regs 0 = dep_init A block regs"
  "dep_run A block regs (Suc n) = dep_step A block n (dep_run A block regs n)"
  by (simp_all add: dep_run_def)

lemma dep_run_writer:
  "last_writer (tracker (dep_run A block regs n)) k =
     last_index (\<lambda>i. k \<in> reg_writes A (block ! i)) n"
  using regs.writer_run [of "\<lambda>m. tracker (dep_run A block regs m)" regs n
      "\<lambda>i. map (reg_key A) (regs_read A (block ! i))"
      "\<lambda>i. map (reg_key A) (clobbers A (block ! i)) @ map (reg_key A) (regs_written A (block ! i))" n k]
  by (simp add: dep_run_simps dep_init_def dep_step_def Let_def reg_writes_def image_Un)

lemma dep_run_readers:
  "set (last_readers (tracker (dep_run A block regs n)) k) =
     {r. r < n \<and> k \<in> reg_reads A (block ! r) \<and> (\<forall>j. r < j \<longrightarrow> j < n \<longrightarrow> k \<notin> reg_writes A (block ! j))}"
  using regs.readers_run [of "\<lambda>m. tracker (dep_run A block regs m)" regs n
      "\<lambda>i. map (reg_key A) (regs_read A (block ! i))"
      "\<lambda>i. map (reg_key A) (clobbers A (block ! i)) @ map (reg_key A) (regs_written A (block ! i))" n k]
  by (simp add: dep_run_simps dep_init_def dep_step_def Let_def reg_writes_def reg_reads_def image_Un)

lemma dep_run_flags_writer:
  "fst (flags (dep_run A block regs n)) = last_index (\<lambda>i. writes_flags A (block ! i)) n"
  using flag.writer_run [of "\<lambda>m. flags (dep_run A block regs m)" n
      "\<lambda>i. if reads_flags A (block ! i) then [()] else []"
      "\<lambda>i. if writes_flags A (block ! i) then [()] else []" n "()"]
  by (simp add: dep_run_simps dep_init_def dep_step_def Let_def cong: if_cong)

lemma dep_run_flags_readers:
  "set (snd (flags (dep_run A block regs n))) =
     {r. r < n \<and> reads_flags A (block ! r) \<and> (\<forall>j. r < j \<longrightarrow> j < n \<longrightarrow> \<not> writes_flags A (block ! j))}"
  using flag.readers_run [of "\<lambda>m. flags (dep_run A block regs m)" n
      "\<lambda>i. if reads_flags A (block ! i) then [()] else []"
      "\<lambda>i. if writes_flags A (block ! i) then [()] else []" n "()"]
  by (auto simp: dep_run_simps dep_init_def dep_step_def Let_def cong: if_cong)

lemma dep_run_memory:
  "last_memory_access (dep_run A block regs n) = last_index (\<lambda>i. accesses_memory A (block ! i)) n"
  by (induction n) (simp_all add: dep_run_simps dep_init_def dep_step_def Let_def)

lemmas dep_run_facts = dep_run_writer dep_run_readers dep_run_flags_writer dep_run_flags_readers
  dep_run_memory

lemma dep_sources_iff:
  "u \<in> set (dep_sources A i (block ! i) (dep_run A block regs i)) \<longleftrightarrow>
     (\<exists>k \<in> reg_writes A (block ! i) \<union> reg_reads A (block ! i). u < i \<and> k \<in> reg_writes A (block ! u)
         \<and> (\<forall>m. u < m \<longrightarrow> m < i \<longrightarrow> k \<notin> reg_writes A (block ! m)))
      \<or> (\<exists>k \<in> reg_writes A (block ! i). u \<noteq> i \<and> u < i \<and> k \<in> reg_reads A (block ! u)
         \<and> (\<forall>m. u < m \<longrightarrow> m < i \<longrightarrow> k \<notin> reg_writes A (block ! m)))
      \<or> (reads_flags A (block ! i) \<or> writes_flags A (block ! i)) \<and> u < i \<and> writes_flags A (block ! u)
         \<and> (\<forall>m. u < m \<longrightarrow> m < i \<longrightarrow> \<not> writes_flags A (block ! m))
      \<or> writes_flags A (block ! i) \<and> u \<noteq> i \<and> u < i \<and> reads_flags A (block ! u)
         \<and> (\<forall>m. u < m \<longrightarrow> m < i \<longrightarrow> \<not> writes_flags A (block ! m))
      \<or> accesses_memory A (block ! i) \<and> u < i \<and> accesses_memory A (block ! u)
         \<and> (\<forall>m. u < m \<longrightarrow> m < i \<longrightarrow> \<not> accesses_memory A (block ! m))"
proof -
  let ?st = "dep_run A block regs i" and ?b = "block ! i"
  have opt: "u \<in> set (opt_list x) \<longleftrightarrow> x = Some u" for x by (cases x) auto
  have "u \<in> set (dep_sources A i ?b ?st) \<longleftrightarrow>
      (\<exists>r \<in> set (regs_read A ?b). last_writer (tracker ?st) (reg_key A r) = Some u)
      \<or> (\<exists>r \<in> set (regs_written A ?b). last_writer (tracker ?st) (reg_key A r) = Some u)
      \<or> (\<exists>r \<in> set (clobbers A ?b). last_writer (tracker ?st) (reg_key A r) = Some u)
      \<or> (\<exists>r \<in> set (regs_written A ?b). u \<noteq> i \<and> u \<in> set (last_readers (tracker ?st) (reg_key A r)))
      \<or> (\<exists>r \<in> set (clobbers A ?b). u \<noteq> i \<and> u \<in> set (last_readers (tracker ?st) (reg_key A r)))
      \<or> (reads_flags A ?b \<or> writes_flags A ?b) \<and> fst (flags ?st) = Some u
      \<or> writes_flags A ?b \<and> u \<noteq> i \<and> u \<in> set (snd (flags ?st))
      \<or> accesses_memory A ?b \<and> last_memory_access ?st = Some u"
    by (cases "flags ?st") (auto simp: dep_sources_def Let_def opt)
  also have "\<dots> \<longleftrightarrow>
      (\<exists>k \<in> reg_writes A ?b \<union> reg_reads A ?b. last_writer (tracker ?st) k = Some u)
      \<or> (\<exists>k \<in> reg_writes A ?b. u \<noteq> i \<and> u \<in> set (last_readers (tracker ?st) k))
      \<or> (reads_flags A ?b \<or> writes_flags A ?b) \<and> fst (flags ?st) = Some u
      \<or> writes_flags A ?b \<and> u \<noteq> i \<and> u \<in> set (snd (flags ?st))
      \<or> accesses_memory A ?b \<and> last_memory_access ?st = Some u"
    by (auto simp: reg_writes_def reg_reads_def)
  finally show ?thesis
    unfolding dep_run_facts last_index_Some mem_Collect_eq .
qed

lemma dep_sources_less: "u \<in> set (dep_sources A i (block ! i) (dep_run A block regs i)) \<Longrightarrow> u < i"
  unfolding dep_sources_iff by blast

lemma dep_run_visited:
  assumes "length block \<le> usize_max"
  shows "n \<le> length block \<Longrightarrow> visited (length block) n (dep_graph (dep_run A block regs n))
    \<and> map node_latency (fst (dep_graph (dep_run A block regs n))) = map (adapter_latency A) block
    \<and> edges (fst (dep_graph (dep_run A block regs n))) =
        {(u, i). i < n \<and> u \<in> set (dep_sources A i (block ! i) (dep_run A block regs i))}"
proof (induction n)
  case 0
  show ?case
    by (auto simp: dep_run_simps dep_init_def visited_def graph_ok_def edges_def new_node_def comp_def)
next
  case (Suc n)
  let ?g = "dep_graph (dep_run A block regs n)"
  let ?us = "dep_sources A n (block ! n) (dep_run A block regs n)"
  from Suc have g: "visited (length block) n ?g"
    "map node_latency (fst ?g) = map (adapter_latency A) block"
    "edges (fst ?g) = {(u, i). i < n \<and> u \<in> set (dep_sources A i (block ! i) (dep_run A block regs i))}"
    by simp_all
  have "visiting (length block) n ?g" by (rule visited_visiting) (use g Suc.prems assms in auto)
  moreover have "\<forall>u \<in> set ?us. u < n" using dep_sources_less by blast
  ultimately have "visiting (length block) n (fold (add_edge n) ?us ?g)
      \<and> edges (fst (fold (add_edge n) ?us ?g)) = edges (fst ?g) \<union> (\<lambda>u. (u, n)) ` set ?us
      \<and> map node_latency (fst (fold (add_edge n) ?us ?g)) = map node_latency (fst ?g)"
    using Suc.prems by (intro add_edges_visiting) auto
  moreover have "dep_graph (dep_run A block regs (Suc n)) = fold (add_edge n) ?us ?g"
    by (simp add: dep_run_simps dep_step_def Let_def)
  ultimately show ?case using g visiting_visited by (auto simp: less_Suc_eq)
qed

lemma dep_graph_facts:
  fixes A :: "('i, 'r) adapter" and block :: "'i list"
  assumes "length block \<le> usize_max" "build_dep_graph_reusing A block regs = (nodes, regs')"
  shows "graph_ok nodes" "length nodes = length block"
    "map node_latency nodes = map (adapter_latency A) block"
    "(u, i) \<in> edges nodes \<longleftrightarrow> i < length block \<and>
      u \<in> set (dep_sources A i (block ! i) (dep_run A block regs i))"
proof -
  obtain targets where "dep_graph (dep_run A block regs (length block)) = (nodes, targets)"
    using assms(2) by (cases "dep_graph (dep_run A block regs (length block))")
      (auto simp: build_dep_graph_reusing_def Let_def)
  then show "graph_ok nodes" "length nodes = length block"
    "map node_latency nodes = map (adapter_latency A) block"
    "(u, i) \<in> edges nodes \<longleftrightarrow> i < length block \<and>
      u \<in> set (dep_sources A i (block ! i) (dep_run A block regs i))"
    using dep_run_visited [OF assms(1), of "length block" A regs] by (simp_all add: visited_def)
qed

lemma conflict_path:
  assumes "length block \<le> usize_max" "build_dep_graph_reusing A block regs = (nodes, regs')"
    and "i < j" "j < length block" "conflicts A (block ! i) (block ! j)"
  shows "(i, j) \<in> (edges nodes)\<^sup>+"
proof -
  let ?E = "edges nodes" and ?n = "length block"
  have edge: "(u, v) \<in> ?E" if "v < ?n"
    "u \<in> set (dep_sources A v (block ! v) (dep_run A block regs v))" for u v
    using dep_graph_facts(4) [OF assms(1,2)] that by blast
  note path = resource_path [of ?n _ _ ?E i j, OF _ _ assms(3,4)]
  have regs: "(i, j) \<in> ?E\<^sup>+"
    if "k \<in> reg_writes A (block ! i) \<and> (k \<in> reg_writes A (block ! j) \<or> k \<in> reg_reads A (block ! j))
      \<or> k \<in> reg_reads A (block ! i) \<and> k \<in> reg_writes A (block ! j)" for k
    by (rule path [of "\<lambda>x. k \<in> reg_writes A (block ! x)" "\<lambda>x. k \<in> reg_reads A (block ! x)"])
      (rule edge, assumption, unfold dep_sources_iff, blast, rule edge, assumption, unfold dep_sources_iff, blast, fact that)
  have flags: "(i, j) \<in> ?E\<^sup>+"
    if "writes_flags A (block ! i) \<and> (writes_flags A (block ! j) \<or> reads_flags A (block ! j))
      \<or> reads_flags A (block ! i) \<and> writes_flags A (block ! j)"
    by (rule path [of "\<lambda>x. writes_flags A (block ! x)" "\<lambda>x. reads_flags A (block ! x)"])
      (rule edge, assumption, unfold dep_sources_iff, blast, rule edge, assumption, unfold dep_sources_iff, blast, fact that)
  have memory: "(i, j) \<in> ?E\<^sup>+" if "accesses_memory A (block ! i)" "accesses_memory A (block ! j)"
    by (rule path [of "\<lambda>x. accesses_memory A (block ! x)" "\<lambda>_. False"])
      (rule edge, assumption, unfold dep_sources_iff, blast, blast, use that in blast)
  show ?thesis
    using assms(5) regs flags memory unfolding conflicts_def by blast
qed

text \<open>
  C4. The dependency graph of a block is well formed (edges run forwards within the block,
  none is drawn twice, and the user lists mirror the dependency lists), and whenever two
  instructions of the block conflict on a register, a clobber, the flags or memory, a chain of
  edges leads from the earlier to the later one, whatever an earlier block left in the tables.
\<close>

theorem dep_graph_orders_conflicts:
  assumes "length block \<le> usize_max" "build_dep_graph_reusing A block regs = (nodes, regs')"
  shows "graph_ok nodes \<and> length nodes = length block
    \<and> (\<forall>j < length block. \<forall>i < j. conflicts A (block ! i) (block ! j) \<longrightarrow> (i, j) \<in> (edges nodes)\<^sup>+)
    \<and> (\<forall>(i, j) \<in> edges nodes. conflicts A (block ! i) (block ! j))"
proof (intro conjI)
  show "graph_ok nodes" "length nodes = length block" using dep_graph_facts [OF assms] by auto
  show "\<forall>j < length block. \<forall>i < j. conflicts A (block ! i) (block ! j) \<longrightarrow> (i, j) \<in> (edges nodes)\<^sup>+"
    using conflict_path [OF assms] by blast
  have "conflicts A (block ! i) (block ! j)" if "(i, j) \<in> edges nodes" for i j
    using that dep_graph_facts(4) [OF assms, of i j] unfolding dep_sources_iff conflicts_def by blast
  then show "\<forall>(i, j) \<in> edges nodes. conflicts A (block ! i) (block ! j)" by blast
qed

text \<open>A small machine for examples: an instruction lists the registers it writes and reads.\<close>

definition toy_adapter :: "(nat list \<times> nat list, nat) adapter" where
  "toy_adapter =
     \<lparr>adapter_class = (\<lambda>_. Gp), adapter_index = (\<lambda>r. r), adapter_latency = (\<lambda>(ws, _). of_nat (length ws)),
      is_barrier = (\<lambda>(ws, rs). ws = [] \<and> rs = []), accesses_memory = (\<lambda>_. False),
      regs_read = snd, regs_written = fst, clobbers = (\<lambda>_. []),
      writes_flags = (\<lambda>_. False), reads_flags = (\<lambda>_. False)\<rparr>"

lemma dep_graph_orders_conflicts_witness:
  "(0, 2) \<in> (edges (fst (build_dep_graph_reusing toy_adapter [([0], []), ([1], []), ([2], [0])] new_tracker)))\<^sup>+"
proof -
  let ?block = "[([0], []), ([1], []), ([2], [0])] :: (nat list \<times> nat list) list"
  obtain nodes regs' where built: "build_dep_graph_reusing toy_adapter ?block new_tracker = (nodes, regs')"
    by force
  have "conflicts toy_adapter (?block ! 0) (?block ! 2)"
    by (simp add: conflicts_def reg_writes_def reg_reads_def reg_key_def toy_adapter_def)
  then have "(0, 2) \<in> (edges nodes)\<^sup>+"
    using dep_graph_orders_conflicts [OF _ built] by (simp add: usize_max_def)
  then show ?thesis unfolding built fst_conv .
qed

section \<open>Critical paths\<close>

definition priorities_from :: "nat \<Rightarrow> sched_node list \<Rightarrow> sched_node list" where
  "priorities_from k nodes = fold set_priority (rev [k..<length nodes]) nodes"

lemma priorities_from_step:
  "k < length nodes \<Longrightarrow> priorities_from k nodes = set_priority k (priorities_from (Suc k) nodes)"
  by (simp add: priorities_from_def upt_conv_Cons)

lemma set_priority_other [simp]:
  "length (set_priority k nodes) = length nodes"
  "deps (set_priority k nodes ! j) = deps (nodes ! j)"
  "users (set_priority k nodes ! j) = users (nodes ! j)"
  "node_latency (set_priority k nodes ! j) = node_latency (nodes ! j)"
  "j \<noteq> k \<Longrightarrow> set_priority k nodes ! j = nodes ! j"
proof -
  have nth: "set_priority k nodes ! j =
      (if k = j \<and> k < length nodes
       then (nodes ! k)\<lparr>priority := node_latency (nodes ! k) + max_user nodes k\<rparr> else nodes ! j)"
    unfolding set_priority_def
    by (cases "k < length nodes") (simp_all add: nth_list_update list_update_beyond)
  show "length (set_priority k nodes) = length nodes" by (simp add: set_priority_def)
  show "j \<noteq> k \<Longrightarrow> set_priority k nodes ! j = nodes ! j" by (simp add: nth)
  show "deps (set_priority k nodes ! j) = deps (nodes ! j)"
    "users (set_priority k nodes ! j) = users (nodes ! j)"
    "node_latency (set_priority k nodes ! j) = node_latency (nodes ! j)"
    by (simp_all add: nth)
qed

lemma priorities_from_shape:
  "length (priorities_from k nodes) = length nodes"
  "deps (priorities_from k nodes ! j) = deps (nodes ! j)"
  "users (priorities_from k nodes ! j) = users (nodes ! j)"
  "node_latency (priorities_from k nodes ! j) = node_latency (nodes ! j)"
proof -
  have fold: "length (fold set_priority ks ns) = length ns
      \<and> deps (fold set_priority ks ns ! j) = deps (ns ! j)
      \<and> users (fold set_priority ks ns ! j) = users (ns ! j)
      \<and> node_latency (fold set_priority ks ns ! j) = node_latency (ns ! j)" for ks ns
    by (induction ks arbitrary: ns) simp_all
  show "length (priorities_from k nodes) = length nodes"
    "deps (priorities_from k nodes ! j) = deps (nodes ! j)"
    "users (priorities_from k nodes ! j) = users (nodes ! j)"
    "node_latency (priorities_from k nodes ! j) = node_latency (nodes ! j)"
    using fold by (simp_all add: priorities_from_def)
qed

lemma max_user_set_priority:
  "k \<notin> set (users (nodes ! idx)) \<Longrightarrow> max_user (set_priority k nodes) idx = max_user nodes idx"
proof -
  assume k: "k \<notin> set (users (nodes ! idx))"
  have "map (\<lambda>u. priority (set_priority k nodes ! u)) (users (nodes ! idx)) =
      map (\<lambda>u. priority (nodes ! u)) (users (nodes ! idx))"
    using k by (intro map_cong refl) (metis set_priority_other(5))
  then show ?thesis unfolding max_user_def set_priority_other by (simp only:)
qed

lemma priorities_from_eq:
  assumes "graph_ok nodes"
  shows "k \<le> length nodes \<Longrightarrow> k \<le> idx \<Longrightarrow> idx < length nodes \<Longrightarrow>
    priority (priorities_from k nodes ! idx) =
      node_latency (nodes ! idx) + max_user (priorities_from k nodes) idx"
proof (induction k rule: inc_induct)
  case base
  then show ?case by simp
next
  case (step k)
  let ?ns = "priorities_from (Suc k) nodes"
  have eq: "priorities_from k nodes = set_priority k ?ns" using step by (intro priorities_from_step) simp
  have above: "k \<notin> set (users (nodes ! idx))"
    using graph_okD(4) [OF assms, of idx k] edge_forward [OF assms] step by fastforce
  have same: "max_user (set_priority k ?ns) idx = max_user ?ns idx"
    using above by (intro max_user_set_priority) (simp add: priorities_from_shape)
  show ?case
  proof (cases "idx = k")
    case True
    with step same show ?thesis
      by (simp add: eq) (simp add: set_priority_def priorities_from_shape)
  next
    case False
    with step same show ?thesis by (simp add: eq)
  qed
qed

lemma unat_fold_max: "unat (fold max xs (a :: u32)) = fold max (map unat xs) (unat a)"
proof (induction xs arbitrary: a)
  case (Cons x xs)
  have "unat (max x a) = max (unat x) (unat a)" by (simp add: max_def word_le_nat_alt)
  with Cons show ?case by simp
qed simp

lemma fold_max_le: "(\<forall>x \<in> set xs. x \<le> b) \<Longrightarrow> a \<le> b \<Longrightarrow> fold max xs (a :: nat) \<le> b"
  by (induction xs arbitrary: a) auto

lemma fold_max_upper: "a \<le> fold max xs (a :: nat) \<and> (\<forall>x \<in> set xs. x \<le> fold max xs a)"
proof (induction xs arbitrary: a)
  case (Cons x xs)
  from Cons.IH [of "max x a"] show ?case by auto
qed simp

text \<open>
  When the latencies of a block add up below \<open>2\<^sup>3\<^sup>2\<close>, the priority of an instruction is
  its latency plus the largest priority among the instructions that depend on it, computed
  without wrap-around: the length of the critical path to the end of the block.  Nothing else
  in the graph changes.
\<close>

theorem priorities_are_critical_paths:
  assumes "graph_ok nodes" "idx < length nodes"
    and "sum_list (map (unat \<circ> node_latency) nodes) < 2 ^ 32"
  shows "unat (priority (calculate_priorities nodes ! idx)) =
      unat (node_latency (nodes ! idx))
      + fold max (map (\<lambda>u. unat (priority (calculate_priorities nodes ! u))) (users (nodes ! idx))) 0
    \<and> length (calculate_priorities nodes) = length nodes
    \<and> deps (calculate_priorities nodes ! idx) = deps (nodes ! idx)
    \<and> users (calculate_priorities nodes ! idx) = users (nodes ! idx)"
proof -
  let ?ns = "calculate_priorities nodes" and ?n = "length nodes"
  let ?lat = "\<lambda>i. unat (node_latency (nodes ! i))"
  let ?best = "\<lambda>i. fold max (map (\<lambda>u. unat (priority (?ns ! u))) (users (nodes ! i))) 0"
  have ns: "?ns = priorities_from 0 nodes" by (simp add: calculate_priorities_def priorities_from_def)
  have eq: "priority (?ns ! i) = node_latency (nodes ! i) + max_user ?ns i" if "i < ?n" for i
    using priorities_from_eq [OF assms(1), of 0 i] that by (simp add: ns)
  have best: "unat (max_user ?ns i) = ?best i" for i
    by (simp add: max_user_def unat_fold_max comp_def ns priorities_from_shape)
  have total: "sum ?lat {0..<?n} < 2 ^ 32"
    using assms(3) by (simp add: sum_list_sum_nth)
  have split: "sum ?lat {i..<?n} = ?lat i + sum ?lat {Suc i..<?n}" if "i < ?n" for i
    using that by (rule sum.atLeast_Suc_lessThan)
  have small: "sum ?lat {i..<?n} < 2 ^ 32" for i
    using total sum_mono2 [of "{0..<?n}" "{i..<?n}" ?lat] by (simp add: subset_eq)
  have unwrapped: "unat (priority (?ns ! i)) = ?lat i + ?best i" if "i < ?n" "?best i \<le> sum ?lat {Suc i..<?n}" for i
  proof -
    have "?lat i + ?best i < 2 ^ 32" using split [OF that(1)] small [of i] that(2) by linarith
    then have "unat (node_latency (nodes ! i) + max_user ?ns i) = ?lat i + ?best i"
      by (simp add: unat_word_ariths best take_bit_eq_mod)
    then show ?thesis by (simp add: eq [OF that(1)])
  qed
  have bound: "unat (priority (?ns ! i)) \<le> sum ?lat {i..<?n} \<and> ?best i \<le> sum ?lat {Suc i..<?n}" if "i < ?n" for i
    using that
  proof (induction "?n - i" arbitrary: i rule: less_induct)
    case less
    have "unat (priority (?ns ! u)) \<le> sum ?lat {Suc i..<?n}" if "u \<in> set (users (nodes ! i))" for u
    proof -
      have "(i, u) \<in> edges nodes" using graph_okD(4) [OF assms(1) less.prems] that by simp
      then have u: "i < u" "u < ?n" using edge_forward [OF assms(1)] by auto
      then have "unat (priority (?ns ! u)) \<le> sum ?lat {u..<?n}" using less.hyps [of u] less.prems by simp
      also have "\<dots> \<le> sum ?lat {Suc i..<?n}" using u by (intro sum_mono2) auto
      finally show ?thesis .
    qed
    then have "?best i \<le> sum ?lat {Suc i..<?n}" by (intro fold_max_le) auto
    with unwrapped [OF less.prems] split [OF less.prems] show ?case by simp
  qed
  show ?thesis
    using unwrapped [OF assms(2)] bound [OF assms(2)] by (simp add: ns priorities_from_shape)
qed

lemma priorities_are_critical_paths_witness:
  "let nodes = fst (build_dep_graph_reusing toy_adapter [([0], []), ([1], [0]), ([2], [1])] new_tracker)
   in unat (priority (calculate_priorities nodes ! 2)) = 1 + fold max (map (\<lambda>u. unat (priority (calculate_priorities nodes ! u))) (users (nodes ! 2))) 0"
proof -
  let ?block = "[([0], []), ([1], [0]), ([2], [1])] :: (nat list \<times> nat list) list"
  obtain nodes regs' where built: "build_dep_graph_reusing toy_adapter ?block new_tracker = (nodes, regs')"
    by force
  have len: "length ?block \<le> usize_max" by (simp add: usize_max_def)
  note facts = dep_graph_facts [OF len built]
  have lat: "map node_latency nodes = [1, 1, 1]" using facts(3) by (simp add: toy_adapter_def)
  then have "sum_list (map (unat \<circ> node_latency) nodes) < 2 ^ 32"
    by (simp only: list.map_comp [symmetric] lat) simp
  moreover have "node_latency (nodes ! 2) = 1"
    using arg_cong [OF lat, of "\<lambda>xs. xs ! 2"] facts(2) by simp
  ultimately show ?thesis
    using priorities_are_critical_paths [OF facts(1), of 2] facts(2)
    unfolding built fst_conv Let_def by simp
qed

end
