(* ===== verification/Sched_List.thy ===== *)
theory Sched_List
  imports Sched_Graph
begin

text \<open>
  List scheduling and its application to a whole instruction stream
  (\<open>crates/rue-codegen/src/schedule_core.rs\<close>, \<open>schedule_block_reusing\<close>,
  \<open>record_block_permutation\<close>, \<open>apply_permutation\<close> and \<open>schedule_instructions\<close>).

  An underflow or an index out of range, which would panic, gives \<open>None\<close>; the theorems show
  that it does not happen.  The standard library's \<open>BinaryHeap\<close> is a list kept in descending
  order of the instance of \<open>Ord\<close>, whose head \<open>pop\<close> removes.
\<close>

section \<open>The ready queue\<close>

datatype ready_inst = ReadyInst (ready_priority: u32) (ready_idx: nat)

fun at_most_as_ready :: "ready_inst \<Rightarrow> ready_inst \<Rightarrow> bool" where
  "at_most_as_ready (ReadyInst p i) (ReadyInst q j) \<longleftrightarrow> p < q \<or> p = q \<and> j \<le> i"

instantiation ready_inst :: linorder
begin

definition less_eq_ready_inst :: "ready_inst \<Rightarrow> ready_inst \<Rightarrow> bool" where
  "less_eq_ready_inst a b \<longleftrightarrow> at_most_as_ready a b"

lemma ready_inst_le [simp]: "ReadyInst p i \<le> ReadyInst q j \<longleftrightarrow> p < q \<or> p = q \<and> j \<le> i"
  by (simp add: less_eq_ready_inst_def)

definition less_ready_inst :: "ready_inst \<Rightarrow> ready_inst \<Rightarrow> bool" where
  "less_ready_inst a b \<longleftrightarrow> a \<le> b \<and> \<not> b \<le> (a :: ready_inst)"

instance
proof
  fix a b c :: ready_inst
  show "a < b \<longleftrightarrow> a \<le> b \<and> \<not> b \<le> a" by (simp add: less_ready_inst_def)
  show "a \<le> a" by (cases a) simp
  show "a \<le> b \<Longrightarrow> b \<le> c \<Longrightarrow> a \<le> c" by (cases a; cases b; cases c) auto
  show "a \<le> b \<Longrightarrow> b \<le> a \<Longrightarrow> a = b" by (cases a; cases b) auto
  show "a \<le> b \<or> b \<le> a" by (cases a; cases b) auto
qed

end

fun heap_push :: "'a :: linorder \<Rightarrow> 'a list \<Rightarrow> 'a list" where
  "heap_push x [] = [x]"
| "heap_push x (y # ys) = (if y \<le> x then x # y # ys else y # heap_push x ys)"

lemma set_heap_push [simp]: "set (heap_push x h) = insert x (set h)"
  by (induction h) auto

lemma length_heap_push [simp]: "length (heap_push x h) = Suc (length h)"
  by (induction h) auto

lemma sorted_heap_push: "sorted_wrt (\<ge>) h \<Longrightarrow> sorted_wrt (\<ge>) (heap_push x h)"
  by (induction h) auto

section \<open>Scheduling one block\<close>

fun complete_users ::
  "sched_node list \<Rightarrow> nat list \<Rightarrow> nat list \<times> ready_inst list \<Rightarrow> (nat list \<times> ready_inst list) option" where
  "complete_users nodes [] st = Some st"
| "complete_users nodes (user # us) (remaining, ready) =
     (if user \<ge> length remaining \<or> user \<ge> length nodes \<or> remaining ! user = 0 then None
      else
        (let remaining = remaining[user := remaining ! user - 1];
             ready = (if remaining ! user = 0
                      then heap_push (ReadyInst (priority (nodes ! user)) user) ready else ready)
         in complete_users nodes us (remaining, ready)))"

lemma complete_users_measure:
  "complete_users nodes us (remaining, ready) = Some (remaining', ready') \<Longrightarrow>
     length ready' + sum_list remaining' \<le> length ready + sum_list remaining"
proof (induction us arbitrary: remaining ready)
  case (Cons u us)
  let ?rem = "remaining[u := remaining ! u - 1]"
  let ?ready = "if ?rem ! u = 0 then heap_push (ReadyInst (priority (nodes ! u)) u) ready else ready"
  have u: "u < length remaining" "remaining ! u \<noteq> 0"
    and rest: "complete_users nodes us (?rem, ?ready) = Some (remaining', ready')"
    using Cons.prems by (auto simp: Let_def split: if_splits)
  have "sum_list ?rem + 1 = sum_list remaining"
    using u elem_le_sum_list [OF u(1)] by (simp add: sum_list_update)
  moreover have "length ?ready \<le> Suc (length ready)" by simp
  ultimately show ?case using Cons.IH [OF rest] by linarith
qed simp

function schedule_loop ::
  "sched_node list \<Rightarrow> nat list \<Rightarrow> nat list \<Rightarrow> ready_inst list \<Rightarrow> nat list option" where
  "schedule_loop nodes scheduled remaining [] = Some scheduled"
| "schedule_loop nodes scheduled remaining (ReadyInst p idx # ready) =
     (if idx \<ge> length nodes then None
      else (case complete_users nodes (users (nodes ! idx)) (remaining, ready) of
              None \<Rightarrow> None
            | Some (remaining, ready) \<Rightarrow> schedule_loop nodes (scheduled @ [idx]) remaining ready))"
  by pat_completeness auto
termination
proof (relation "measure (\<lambda>(nodes, scheduled, remaining, ready). length ready + sum_list remaining)")
  fix nodes scheduled remaining p idx ready x remaining' ready'
  assume "complete_users nodes (users (nodes ! idx)) (remaining, ready) = Some x" "(remaining', ready') = x"
  then have "length ready' + sum_list remaining' \<le> length ready + sum_list remaining"
    by (intro complete_users_measure) simp
  then show "((nodes, scheduled @ [idx], remaining', ready'), (nodes, scheduled, remaining, ReadyInst p idx # ready))
      \<in> measure (\<lambda>(nodes, scheduled, remaining, ready). length ready + sum_list remaining)" by simp
qed simp

definition initial_ready :: "sched_node list \<Rightarrow> ready_inst list" where
  "initial_ready nodes =
     fold (\<lambda>idx ready. if length (deps (nodes ! idx)) = 0
                       then heap_push (ReadyInst (priority (nodes ! idx)) idx) ready else ready)
       [0..<length nodes] []"

definition schedule_block_reusing :: "sched_node list \<Rightarrow> nat list option" where
  "schedule_block_reusing nodes =
     (if nodes = [] then Some []
      else schedule_loop nodes [] (map (\<lambda>node. length (deps node)) nodes) (initial_ready nodes))"

section \<open>The whole instruction stream\<close>

definition swap_at :: "nat \<Rightarrow> nat \<Rightarrow> 'a list \<Rightarrow> 'a list" where
  "swap_at i j xs = xs[i := xs ! j, j := xs ! i]"

partial_function (option) settle :: "nat \<Rightarrow> 'a list \<Rightarrow> nat list \<Rightarrow> ('a list \<times> nat list) option" where
  "settle current items destination =
     (if current \<ge> length destination then None
      else
        (let target = destination ! current in
         if target = current then Some (items, destination)
         else if current \<ge> length items \<or> target \<ge> length items \<or> target \<ge> length destination then None
         else settle current (swap_at current target items) (swap_at current target destination)))"

fun settle_all :: "nat list \<Rightarrow> 'a list \<times> nat list \<Rightarrow> ('a list \<times> nat list) option" where
  "settle_all [] st = Some st"
| "settle_all (current # cs) (items, destination) =
     (case settle current items destination of None \<Rightarrow> None | Some st \<Rightarrow> settle_all cs st)"

definition apply_permutation :: "'a list \<Rightarrow> nat list \<Rightarrow> 'a list option" where
  "apply_permutation items destination =
     map_option fst (settle_all [0..<length destination] (items, destination))"

definition place_order :: "nat \<Rightarrow> nat list \<Rightarrow> nat list \<Rightarrow> nat list" where
  "place_order start order destination =
     fold (\<lambda>(new_offset, old_offset) d. d[start + old_offset := start + new_offset])
       (List.enumerate 0 order) destination"

definition record_block_permutation ::
  "('i, 'r) adapter \<Rightarrow> 'i list \<Rightarrow> nat \<Rightarrow> nat \<Rightarrow> nat list \<times> reg_tracker \<Rightarrow> (nat list \<times> reg_tracker) option" where
  "record_block_permutation A instructions start sched_end = (\<lambda>(destination, regs).
     if sched_end - start \<le> 2 then Some (destination, regs)
     else
       (let block = take (sched_end - start) (drop start instructions);
            (nodes, regs) = build_dep_graph_reusing A block regs;
            nodes = calculate_priorities nodes
        in case schedule_block_reusing nodes of
             None \<Rightarrow> None
           | Some order \<Rightarrow> Some (place_order start order destination, regs)))"

fun scan_blocks ::
  "('i, 'r) adapter \<Rightarrow> 'i list \<Rightarrow> nat list \<Rightarrow> nat \<Rightarrow> nat list \<times> reg_tracker \<Rightarrow>
   (nat \<times> nat list \<times> reg_tracker) option" where
  "scan_blocks A instructions [] block_start st = Some (block_start, st)"
| "scan_blocks A instructions (block_end # ends) block_start st =
     (if \<not> is_barrier A (instructions ! block_end)
      then scan_blocks A instructions ends block_start st
      else (case record_block_permutation A instructions block_start block_end st of
              None \<Rightarrow> None
            | Some st \<Rightarrow> scan_blocks A instructions ends (block_end + 1) st))"

definition schedule_instructions :: "('i, 'r) adapter \<Rightarrow> 'i list \<Rightarrow> 'i list option" where
  "schedule_instructions A instructions =
     (if length instructions < 3 then Some instructions
      else
        (case scan_blocks A instructions [0..<length instructions] 0
                ([0..<length instructions], new_tracker) of
           None \<Rightarrow> None
         | Some (block_start, st) \<Rightarrow>
             (case (if block_start < length instructions
                    then record_block_permutation A instructions block_start (length instructions) st
                    else Some st) of
                None \<Rightarrow> None
              | Some (destination, _) \<Rightarrow> apply_permutation instructions destination)))"

section \<open>The list scheduler visits every node, in dependence order\<close>

definition ready_of :: "sched_node list \<Rightarrow> nat \<Rightarrow> ready_inst" where
  "ready_of nodes v = ReadyInst (priority (nodes ! v)) v"

lemma ready_of_inj [simp]: "ready_of nodes u = ready_of nodes v \<longleftrightarrow> u = v"
  by (auto simp: ready_of_def)

text \<open>
  A schedule prefix is greedy when each instruction was a greatest one, by priority and then
  original order, among those whose dependencies had all been scheduled before.
\<close>

definition available :: "sched_node list \<Rightarrow> nat list \<Rightarrow> nat \<Rightarrow> bool" where
  "available nodes before v \<longleftrightarrow> v < length nodes \<and> v \<notin> set before \<and> set (deps (nodes ! v)) \<subseteq> set before"

definition greedy :: "sched_node list \<Rightarrow> nat list \<Rightarrow> bool" where
  "greedy nodes order \<longleftrightarrow>
     (\<forall>k < length order. available nodes (take k order) (order ! k)
        \<and> (\<forall>v. available nodes (take k order) v \<longrightarrow> ready_of nodes v \<le> ready_of nodes (order ! k)))"

lemma greedy_snoc:
  "greedy nodes (order @ [x]) \<longleftrightarrow> greedy nodes order \<and> available nodes order x
     \<and> (\<forall>v. available nodes order v \<longrightarrow> ready_of nodes v \<le> ready_of nodes x)"
  by (auto simp: greedy_def less_Suc_eq nth_append)

lemma greedy_distinct: "greedy nodes order \<Longrightarrow> distinct order \<and> set order \<subseteq> {..<length nodes}"
  by (induction order rule: rev_induct) (auto simp: greedy_snoc available_def)

definition queued :: "sched_node list \<Rightarrow> nat list \<Rightarrow> ready_inst list \<Rightarrow> bool" where
  "queued nodes before ready \<longleftrightarrow> sorted_wrt (\<ge>) ready
     \<and> distinct ready \<and> set ready = ready_of nodes ` {v. available nodes before v}"

definition counted :: "sched_node list \<Rightarrow> nat list \<Rightarrow> nat list \<Rightarrow> bool" where
  "counted nodes before remaining \<longleftrightarrow> length remaining = length nodes
     \<and> (\<forall>v < length nodes. remaining ! v = card (set (deps (nodes ! v)) - set before))"

lemma counted_zero:
  "counted nodes before remaining \<Longrightarrow> v < length nodes \<Longrightarrow>
    remaining ! v = 0 \<longleftrightarrow> set (deps (nodes ! v)) \<subseteq> set before"
  by (simp add: counted_def)

lemma complete_users_effect:
  assumes "distinct us" "\<forall>u \<in> set us. u < length remaining \<and> u < length nodes \<and> remaining ! u \<noteq> 0"
    and "\<forall>u \<in> set us. ready_of nodes u \<notin> set ready" "sorted_wrt (\<ge>) ready" "distinct ready"
  shows "\<exists>remaining' ready'. complete_users nodes us (remaining, ready) = Some (remaining', ready')
    \<and> length remaining' = length remaining
    \<and> (\<forall>v < length remaining. remaining' ! v = remaining ! v - (if v \<in> set us then 1 else 0))
    \<and> sorted_wrt (\<ge>) ready' \<and> distinct ready'
    \<and> set ready' = set ready \<union> ready_of nodes ` {u \<in> set us. remaining ! u = 1}"
  using assms
proof (induction us arbitrary: remaining ready)
  case (Cons u us)
  let ?rem = "remaining[u := remaining ! u - 1]"
  let ?ready = "if ?rem ! u = 0 then heap_push (ready_of nodes u) ready else ready"
  have u: "u < length remaining" "u < length nodes" "remaining ! u \<noteq> 0" "u \<notin> set us"
    using Cons.prems by auto
  have dist: "distinct (heap_push x ready)" if "x \<notin> set ready" for x
  proof -
    have "distinct (heap_push x h)" if "distinct h" "x \<notin> set h" for h :: "ready_inst list"
      using that by (induction h) auto
    with that Cons.prems(5) show ?thesis by blast
  qed
  have other: "?rem ! v = remaining ! v" if "v \<noteq> u" for v using that by simp
  have "\<exists>remaining' ready'. complete_users nodes us (?rem, ?ready) = Some (remaining', ready')
    \<and> length remaining' = length ?rem
    \<and> (\<forall>v < length ?rem. remaining' ! v = ?rem ! v - (if v \<in> set us then 1 else 0))
    \<and> sorted_wrt (\<ge>) ready' \<and> distinct ready'
    \<and> set ready' = set ?ready \<union> ready_of nodes ` {w \<in> set us. ?rem ! w = 1}"
  proof (rule Cons.IH)
    show "distinct us" using Cons.prems(1) by simp
    show "\<forall>w \<in> set us. w < length ?rem \<and> w < length nodes \<and> ?rem ! w \<noteq> 0"
      using Cons.prems(2) u other by (metis length_list_update list.set_intros(2))
    show "\<forall>w \<in> set us. ready_of nodes w \<notin> set ?ready" using Cons.prems(3) u by auto
    show "sorted_wrt (\<ge>) ?ready" using Cons.prems(4) sorted_heap_push by auto
    show "distinct ?ready" using Cons.prems(3,5) dist by auto
  qed
  then obtain remaining' ready' where rest: "complete_users nodes us (?rem, ?ready) = Some (remaining', ready')"
    "length remaining' = length remaining"
    "\<forall>v < length remaining. remaining' ! v = ?rem ! v - (if v \<in> set us then 1 else 0)"
    "sorted_wrt (\<ge>) ready'" "distinct ready'"
    "set ready' = set ?ready \<union> ready_of nodes ` {w \<in> set us. ?rem ! w = 1}"
    by auto
  have "complete_users nodes (u # us) (remaining, ready) = complete_users nodes us (?rem, ?ready)"
    using u by (simp add: Let_def ready_of_def)
  then have "complete_users nodes (u # us) (remaining, ready) = Some (remaining', ready')"
    using rest(1) by simp
  moreover have "remaining' ! v = remaining ! v - (if v \<in> set (u # us) then 1 else 0)"
    if "v < length remaining" for v
    using rest(3) that u by (cases "v = u") auto
  moreover have "{w \<in> set us. ?rem ! w = 1} = {w \<in> set us. remaining ! w = 1}"
    using u(4) other by (intro Collect_cong) metis
  then have "set ready' = set ready \<union> ready_of nodes ` {w \<in> set (u # us). remaining ! w = 1}"
    using rest(6) u(1,3) by (cases "remaining ! u = 1") auto
  ultimately show ?case using rest(2,4,5) by blast
qed simp

lemma greedy_closed: "greedy nodes order \<Longrightarrow> v \<in> set order \<Longrightarrow> set (deps (nodes ! v)) \<subseteq> set order"
  by (induction order rule: rev_induct) (auto simp: greedy_snoc available_def)

lemma user_edge:
  assumes "graph_ok nodes" "idx < length nodes" "v < length nodes"
  shows "v \<in> set (users (nodes ! idx)) \<longleftrightarrow> idx \<in> set (deps (nodes ! v))"
  using graph_okD(4) [OF assms(1,2), of v] assms(3) by (simp add: edges_def)

lemma available_snoc:
  assumes "graph_ok nodes" "greedy nodes before" "counted nodes before remaining"
    and "available nodes before idx"
  shows "available nodes (before @ [idx]) v \<longleftrightarrow>
    available nodes before v \<and> v \<noteq> idx \<or> v \<in> set (users (nodes ! idx)) \<and> remaining ! v = 1"
proof
  let ?missing = "set (deps (nodes ! v)) - set before"
  have idx: "idx < length nodes" "idx \<notin> set before" using assms(4) by (auto simp: available_def)
  show "available nodes before v \<and> v \<noteq> idx \<or> v \<in> set (users (nodes ! idx)) \<and> remaining ! v = 1"
    if avail: "available nodes (before @ [idx]) v"
  proof (cases "idx \<in> set (deps (nodes ! v))")
    case True
    have v: "v < length nodes" using avail by (simp add: available_def)
    have "?missing = {idx}" using avail True idx by (auto simp: available_def)
    then have "remaining ! v = 1" using assms(3) v by (simp add: counted_def)
    with True user_edge [OF assms(1) idx(1) v] show ?thesis by simp
  qed (use avail in \<open>auto simp: available_def\<close>)
  show "available nodes (before @ [idx]) v"
    if "available nodes before v \<and> v \<noteq> idx \<or> v \<in> set (users (nodes ! idx)) \<and> remaining ! v = 1"
    using that
  proof
    assume user: "v \<in> set (users (nodes ! idx)) \<and> remaining ! v = 1"
    then have "(idx, v) \<in> edges nodes" using graph_okD(4) [OF assms(1) idx(1)] by simp
    then have v: "idx < v" "v < length nodes" "idx \<in> set (deps (nodes ! v))"
      using edge_forward [OF assms(1), of idx v] by (simp, simp, simp add: edges_def)
    have "card ?missing = 1" using user assms(3) v(2) by (simp add: counted_def)
    then have "?missing = {idx}" using v(3) idx(2) by (metis DiffI card_1_singletonE singletonD)
    then show ?thesis using v idx greedy_closed [OF assms(2), of v] by (auto simp: available_def)
  qed (auto simp: available_def)
qed

lemma counted_snoc:
  assumes "graph_ok nodes" "counted nodes before remaining" "available nodes before idx"
    and "length remaining' = length remaining"
    and "\<forall>v < length remaining. remaining' ! v = remaining ! v - (if v \<in> set (users (nodes ! idx)) then 1 else 0)"
  shows "counted nodes (before @ [idx]) remaining'"
  unfolding counted_def
proof (intro conjI allI impI)
  show "length remaining' = length nodes" using assms(2,4) by (simp add: counted_def)
  fix v assume v: "v < length nodes"
  have idx: "idx < length nodes" "idx \<notin> set before" using assms(3) by (auto simp: available_def)
  let ?missing = "set (deps (nodes ! v)) - set before"
  have eq: "set (deps (nodes ! v)) - set (before @ [idx]) = ?missing - {idx}" by auto
  have "remaining' ! v = card ?missing - (if idx \<in> ?missing then 1 else 0)"
    using assms(2,5) v idx user_edge [OF assms(1) idx(1) v] by (simp add: counted_def)
  also have "\<dots> = card (?missing - {idx})" by (simp add: card_Diff_singleton_if)
  finally show "remaining' ! v = card (set (deps (nodes ! v)) - set (before @ [idx]))" by (simp only: eq)
qed

lemma pop_step:
  assumes "graph_ok nodes" "greedy nodes before" "counted nodes before remaining"
    and "queued nodes before (ReadyInst p idx # ready)"
  shows "available nodes before idx \<and> greedy nodes (before @ [idx])
    \<and> (\<exists>remaining' ready'. complete_users nodes (users (nodes ! idx)) (remaining, ready) = Some (remaining', ready')
        \<and> counted nodes (before @ [idx]) remaining' \<and> queued nodes (before @ [idx]) ready')"
proof -
  have set: "set (ReadyInst p idx # ready) = ready_of nodes ` {v. available nodes before v}"
    and head: "\<forall>x \<in> set ready. x \<le> ReadyInst p idx" "ReadyInst p idx \<notin> set ready"
    and tail: "sorted_wrt (\<ge>) ready" "distinct ready"
    using assms(4) by (auto simp: queued_def)
  have "ReadyInst p idx \<in> ready_of nodes ` {v. available nodes before v}" using set by auto
  then have idx: "available nodes before idx" "ReadyInst p idx = ready_of nodes idx"
    by (auto simp: ready_of_def)
  then have len: "idx < length nodes" "idx \<notin> set before" by (auto simp: available_def)
  have "ready_of nodes v \<le> ReadyInst p idx" if "available nodes before v" for v
    using that set head(1) by (metis imageI mem_Collect_eq order_refl set_ConsD)
  then have greedy': "greedy nodes (before @ [idx])" using assms(2) idx by (simp add: greedy_snoc)
  have user: "u < length nodes \<and> idx \<in> set (deps (nodes ! u))" if "u \<in> set (users (nodes ! idx))" for u
    using that graph_okD(4) [OF assms(1) len(1)] by (simp add: edges_def)
  have pending: "u < length remaining \<and> u < length nodes \<and> remaining ! u \<noteq> 0"
    if "u \<in> set (users (nodes ! idx))" for u
    using user [OF that] len counted_zero [OF assms(3), of u] assms(3) by (auto simp: counted_def)
  have unready: "ready_of nodes u \<notin> set ready" if "u \<in> set (users (nodes ! idx))" for u
  proof
    assume "ready_of nodes u \<in> set ready"
    then have "ready_of nodes u \<in> ready_of nodes ` {v. available nodes before v}" using set by auto
    then have "available nodes before u" by auto
    with user [OF that] len show False by (auto simp: available_def)
  qed
  obtain remaining' ready' where completed: "complete_users nodes (users (nodes ! idx)) (remaining, ready) = Some (remaining', ready')"
    "length remaining' = length remaining"
    "\<forall>v < length remaining. remaining' ! v = remaining ! v - (if v \<in> set (users (nodes ! idx)) then 1 else 0)"
    "sorted_wrt (\<ge>) ready'" "distinct ready'"
    "set ready' = set ready \<union> ready_of nodes ` {u \<in> set (users (nodes ! idx)). remaining ! u = 1}"
    using complete_users_effect [of "users (nodes ! idx)" remaining nodes ready]
      graph_okD(2) [OF assms(1) len(1)] pending unready tail by blast
  have "set ready = ready_of nodes ` {v. available nodes before v \<and> v \<noteq> idx}"
  proof -
    have "set ready = set (ReadyInst p idx # ready) - {ready_of nodes idx}" using head(2) idx(2) by auto
    also have "\<dots> = ready_of nodes ` {v. available nodes before v} - {ready_of nodes idx}"
      by (simp only: set)
    also have "\<dots> = ready_of nodes ` {v. available nodes before v \<and> v \<noteq> idx}" by auto
    finally show ?thesis .
  qed
  then have "set ready' = ready_of nodes ` {v. available nodes (before @ [idx]) v}"
    unfolding completed(6) available_snoc [OF assms(1-3) idx(1)] by blast
  then have "queued nodes (before @ [idx]) ready'" using completed(4,5) by (simp add: queued_def)
  with completed(1) idx(1) greedy' counted_snoc [OF assms(1,3) idx(1) completed(2,3)] show ?thesis by blast
qed

lemma schedule_loop_greedy:
  "graph_ok nodes \<Longrightarrow> greedy nodes scheduled \<Longrightarrow> counted nodes scheduled remaining \<Longrightarrow>
    queued nodes scheduled ready \<Longrightarrow>
    \<exists>order. schedule_loop nodes scheduled remaining ready = Some order \<and> greedy nodes order
      \<and> (\<forall>v. \<not> available nodes order v)"
proof (induction nodes scheduled remaining ready rule: schedule_loop.induct)
  case (1 nodes scheduled remaining)
  then show ?case by (auto simp: queued_def)
next
  case (2 nodes scheduled remaining p idx ready)
  from pop_step [OF "2.prems"] obtain remaining' ready'
    where step: "available nodes scheduled idx" "greedy nodes (scheduled @ [idx])"
      "complete_users nodes (users (nodes ! idx)) (remaining, ready) = Some (remaining', ready')"
      "counted nodes (scheduled @ [idx]) remaining'" "queued nodes (scheduled @ [idx]) ready'"
    by blast
  then have "idx < length nodes" by (simp add: available_def)
  with "2.IH" [OF _ step(3) refl "2.prems"(1) step(2,4,5)] step(3) show ?case by simp
qed

lemma initial_ready_fold:
  assumes "distinct ks" "set ks \<inter> set js = {}"
    and "sorted_wrt (\<ge>) ready" "distinct ready" "set ready = ready_of nodes ` {k \<in> set js. deps (nodes ! k) = []}"
  shows "let ready' = fold (\<lambda>idx ready. if length (deps (nodes ! idx)) = 0
            then heap_push (ReadyInst (priority (nodes ! idx)) idx) ready else ready) ks ready
    in sorted_wrt (\<ge>) ready' \<and> distinct ready'
      \<and> set ready' = ready_of nodes ` {k \<in> set js \<union> set ks. deps (nodes ! k) = []}"
  using assms
proof (induction ks arbitrary: js ready)
  case (Cons k ks)
  let ?ready = "if length (deps (nodes ! k)) = 0
    then heap_push (ReadyInst (priority (nodes ! k)) k) ready else ready"
  have "distinct (heap_push x h)" if "distinct h" "x \<notin> set h" for x and h :: "ready_inst list"
    using that by (induction h) auto
  moreover have "ready_of nodes k \<notin> set ready" using Cons.prems(2,5) by auto
  ultimately have "distinct ?ready" using Cons.prems(4) by (simp add: ready_of_def)
  moreover have "set ?ready = ready_of nodes ` {j \<in> set (k # js). deps (nodes ! j) = []}"
    using Cons.prems(5) by (auto simp: ready_of_def [symmetric])
  moreover have "sorted_wrt (\<ge>) ?ready" using Cons.prems(3) sorted_heap_push by auto
  ultimately show ?case using Cons.IH [of "k # js" ?ready] Cons.prems(1,2) by simp
qed simp

lemma queued_initial: "queued nodes [] (initial_ready nodes)"
proof -
  have "{k. k < length nodes \<and> deps (nodes ! k) = []} = {v. available nodes [] v}"
    by (auto simp: available_def)
  with initial_ready_fold [of "[0..<length nodes]" "[]" "[]" nodes] show ?thesis
    by (simp add: queued_def initial_ready_def Let_def)
qed

lemma counted_initial:
  "graph_ok nodes \<Longrightarrow> counted nodes [] (map (\<lambda>node. length (deps node)) nodes)"
  by (simp add: counted_def graph_okD distinct_card)

lemma schedule_block_greedy:
  assumes "graph_ok nodes"
  shows "\<exists>order. schedule_block_reusing nodes = Some order \<and> greedy nodes order \<and> (\<forall>v. \<not> available nodes order v)"
proof (cases "nodes = []")
  case True
  then show ?thesis by (simp add: schedule_block_reusing_def greedy_def available_def)
next
  case False
  have "greedy nodes []" by (simp add: greedy_def)
  from schedule_loop_greedy [OF assms this counted_initial [OF assms] queued_initial] False
  show ?thesis by (simp add: schedule_block_reusing_def)
qed

lemma greedy_complete:
  assumes "graph_ok nodes" "greedy nodes order" "\<forall>v. \<not> available nodes order v"
  shows "distinct order" "set order = {..<length nodes}"
proof -
  note sub = greedy_distinct [OF assms(2)]
  show "distinct order" using sub by simp
  have "v \<in> set order" if "v < length nodes" for v
    using that
  proof (induction v rule: less_induct)
    case (less v)
    have "set (deps (nodes ! v)) \<subseteq> set order"
      using graph_okD(3) [OF assms(1) less.prems] less.IH less.prems by auto
    with less.prems assms(3) show ?case by (auto simp: available_def)
  qed
  with sub show "set order = {..<length nodes}" by auto
qed

lemma greedy_edge_order:
  assumes "graph_ok nodes" "greedy nodes order" "b < length order" "(order ! a, order ! b) \<in> edges nodes"
    and "a < length order"
  shows "a < b"
proof -
  have "order ! a \<in> set (take b order)"
    using assms(2,3,4) by (auto simp: greedy_def available_def edges_def)
  then obtain c where c: "c < b" "order ! c = order ! a" using assms(3) by (auto simp: in_set_conv_nth)
  then have "c = a"
    using greedy_distinct [OF assms(2)] assms(3,5) nth_eq_iff_index_eq [of order c a] by simp
  with c show ?thesis by simp
qed

lemma greedy_path_order:
  assumes "graph_ok nodes" "greedy nodes order" "set order = {..<length nodes}"
    and "(u, v) \<in> (edges nodes)\<^sup>+" "a < length order" "b < length order" "order ! a = u" "order ! b = v"
  shows "a < b"
  using assms(4-8)
proof (induction arbitrary: b rule: trancl_induct)
  case (base v)
  then show ?case using greedy_edge_order [OF assms(1,2)] by blast
next
  case (step w v)
  have "w < length nodes" using step.hyps(2) edge_forward [OF assms(1)] by fastforce
  then obtain c where "c < length order" "order ! c = w"
    using assms(3) by (metis in_set_conv_nth lessThan_iff)
  moreover from this have "a < c" using step.IH step.prems by blast
  moreover have "c < b" using greedy_edge_order [OF assms(1,2)] step calculation by blast
  ultimately show ?case by simp
qed

text \<open>
  List scheduling of a well-formed graph ends without panic and schedules every
  instruction exactly once; each one comes after everything it depends on, and is at its turn
  the ready instruction with the longest critical path, the earliest one on a tie.
\<close>

theorem schedule_block_correct:
  assumes "graph_ok nodes"
  shows "\<exists>order. schedule_block_reusing nodes = Some order \<and> greedy nodes order
    \<and> distinct order \<and> set order = {..<length nodes}
    \<and> (\<forall>a < length order. \<forall>b < length order. (order ! a, order ! b) \<in> (edges nodes)\<^sup>+ \<longrightarrow> a < b)"
  using schedule_block_greedy [OF assms] greedy_complete [OF assms] greedy_path_order [OF assms] by metis

lemma schedule_block_correct_witness:
  "\<exists>order. schedule_block_reusing [new_node 3, new_node 1] = Some order \<and> set order = {..<2}"
proof -
  let ?ns = "[new_node 3, new_node 1]"
  have lone: "deps (?ns ! v) = [] \<and> users (?ns ! v) = []" if "v < length ?ns" for v
    using nth_mem [OF that] by (auto simp: new_node_def)
  then have "edges ?ns = {}" by (auto simp: edges_def)
  with lone have "graph_ok ?ns" by (simp add: graph_ok_def)
  from schedule_block_correct [OF this] show ?thesis by auto
qed

section \<open>Applying the permutation\<close>

lemma length_swap_at [simp]: "length (swap_at i j xs) = length xs"
  by (simp add: swap_at_def)

lemma nth_swap_at:
  "i < length xs \<Longrightarrow> j < length xs \<Longrightarrow> k < length xs \<Longrightarrow>
    swap_at i j xs ! k = (if k = j then xs ! i else if k = i then xs ! j else xs ! k)"
  by (auto simp: swap_at_def nth_list_update)

lemma zip_swap_at:
  "i < length xs \<Longrightarrow> j < length xs \<Longrightarrow> length xs = length ys \<Longrightarrow>
    zip (swap_at i j xs) (swap_at i j ys) = swap_at i j (zip xs ys)"
  by (rule nth_equalityI) (simp_all add: nth_swap_at)

lemma mset_swap_at: "i < length xs \<Longrightarrow> j < length xs \<Longrightarrow> mset (swap_at i j xs) = mset xs"
  using mset_swap [of j xs i] by (simp add: swap_at_def)

definition placement :: "nat list \<Rightarrow> nat \<Rightarrow> bool" where
  "placement destination n \<longleftrightarrow> length destination = n \<and> distinct destination \<and> set destination = {..<n}"

lemma placement_swap:
  assumes "placement d n" "i < n" "j < n"
  shows "placement (swap_at i j d) n"
proof -
  have mset: "mset (swap_at i j d) = mset d" using assms by (intro mset_swap_at) (auto simp: placement_def)
  show ?thesis
    using assms mset_eq_setD [OF mset] mset_eq_imp_distinct_iff [OF mset]
    by (simp add: placement_def)
qed

lemma settle_step:
  "current < length destination \<Longrightarrow> length items = length destination \<Longrightarrow> destination ! current < length destination \<Longrightarrow>
    settle current items destination =
      (if destination ! current = current then Some (items, destination)
       else settle current (swap_at current (destination ! current) items)
              (swap_at current (destination ! current) destination))"
  by (subst settle.simps) (simp add: Let_def)

lemma settle_effect:
  assumes "placement d n" "length items = n" "current < n"
  shows "\<exists>items' d'. settle current items d = Some (items', d') \<and> placement d' n \<and> length items' = n
    \<and> mset (zip d' items') = mset (zip d items) \<and> d' ! current = current
    \<and> (\<forall>k < n. d ! k = k \<longrightarrow> d' ! k = k)"
  using assms
proof (induction "card {k. k < n \<and> d ! k \<noteq> k}" arbitrary: d items rule: less_induct)
  case less
  let ?t = "d ! current"
  have len: "length d = n" "?t < n" using less.prems nth_mem [of current d] by (auto simp: placement_def)
  show ?case
  proof (cases "?t = current")
    case True
    then have "settle current items d = Some (items, d)"
      using settle_step [of current d items] less.prems len by simp
    with True less.prems show ?thesis by blast
  next
    case False
    let ?d = "swap_at current ?t d" and ?items = "swap_at current ?t items"
    have nth: "?d ! k = (if k = ?t then ?t else if k = current then d ! ?t else d ! k)" if "k < n" for k
      using that len less.prems(3) by (simp add: nth_swap_at)
    have unfixed: "d ! ?t \<noteq> ?t"
      using False less.prems(1,3) len nth_eq_iff_index_eq [of d ?t current] by (auto simp: placement_def)
    have keep: "?d ! k = k" if "k < n" "d ! k = k" for k
      using nth [OF that(1)] that(2) False by metis
    have "?t \<in> {k. k < n \<and> d ! k \<noteq> k}" "?t \<notin> {k. k < n \<and> ?d ! k \<noteq> k}"
      using unfixed len(2) nth [OF len(2)] by simp_all
    then have "{k. k < n \<and> ?d ! k \<noteq> k} \<subset> {k. k < n \<and> d ! k \<noteq> k}"
      using keep by blast
    then have fewer: "card {k. k < n \<and> ?d ! k \<noteq> k} < card {k. k < n \<and> d ! k \<noteq> k}"
      by (intro psubset_card_mono) auto
    have place: "placement ?d n" using less.prems len by (intro placement_swap)
    obtain items' d' where rest: "settle current ?items ?d = Some (items', d')" "placement d' n"
      "length items' = n" "mset (zip d' items') = mset (zip ?d ?items)" "d' ! current = current"
      "\<forall>k < n. ?d ! k = k \<longrightarrow> d' ! k = k"
      using less.hyps [OF fewer place _ less.prems(3), of ?items] less.prems(2) by auto
    have "mset (zip ?d ?items) = mset (zip d items)"
      using len less.prems(2,3) by (simp add: zip_swap_at mset_swap_at)
    moreover have "settle current items d = settle current ?items ?d"
      using settle_step [of current d items] less.prems(2,3) len False by simp
    moreover have "d' ! k = k" if "k < n" "d ! k = k" for k
      using rest(6) that keep by blast
    ultimately show ?thesis using rest by simp
  qed
qed

lemma settle_all_effect:
  "placement d n \<Longrightarrow> length items = n \<Longrightarrow> set cs \<subseteq> {..<n} \<Longrightarrow>
    \<exists>items' d'. settle_all cs (items, d) = Some (items', d') \<and> placement d' n \<and> length items' = n
      \<and> mset (zip d' items') = mset (zip d items)
      \<and> (\<forall>k < n. k \<in> set cs \<or> d ! k = k \<longrightarrow> d' ! k = k)"
proof (induction cs arbitrary: items d)
  case (Cons c cs)
  then have c: "c < n" by simp
  obtain items1 d1 where one: "settle c items d = Some (items1, d1)" "placement d1 n" "length items1 = n"
    "mset (zip d1 items1) = mset (zip d items)" "d1 ! c = c" "\<forall>k < n. d ! k = k \<longrightarrow> d1 ! k = k"
    using settle_effect [OF Cons.prems(1,2) c] by blast
  obtain items' d' where rest: "settle_all cs (items1, d1) = Some (items', d')" "placement d' n"
    "length items' = n" "mset (zip d' items') = mset (zip d1 items1)"
    "\<forall>k < n. k \<in> set cs \<or> d1 ! k = k \<longrightarrow> d' ! k = k"
    using Cons.IH [OF one(2,3)] Cons.prems(3) by auto
  have "settle_all (c # cs) (items, d) = Some (items', d')" using one(1) rest(1) by simp
  moreover have "\<forall>k < n. k \<in> set (c # cs) \<or> d ! k = k \<longrightarrow> d' ! k = k"
    using one(5,6) rest(5) by (metis set_ConsD)
  ultimately show ?case using one(4) rest(2-4) by auto
qed auto

lemma apply_permutation_effect:
  assumes "placement destination n" "length items = n"
  shows "\<exists>result. apply_permutation items destination = Some result \<and> length result = n
    \<and> (\<forall>i < n. result ! (destination ! i) = items ! i)"
proof -
  have len: "length destination = n" using assms(1) by (simp add: placement_def)
  obtain items' d' where run: "settle_all [0..<n] (items, destination) = Some (items', d')"
    "length items' = n" "placement d' n" "mset (zip d' items') = mset (zip destination items)"
    "\<forall>k < n. d' ! k = k"
    using settle_all_effect [OF assms, of "[0..<n]"] by (auto simp: atLeast0LessThan)
  have "items' ! (destination ! i) = items ! i" if "i < n" for i
  proof -
    have "(destination ! i, items ! i) \<in> set (zip destination items)"
      using that len assms(2) by (auto simp: set_zip)
    then have "(destination ! i, items ! i) \<in> set (zip d' items')" using mset_eq_setD [OF run(4)] by simp
    then show ?thesis using run(5) run(3) by (auto simp: set_zip placement_def)
  qed
  with run(1,2) len show ?thesis by (simp add: apply_permutation_def)
qed

text \<open>
  Applied to a placement (a permutation of the positions), the in-place cycle walk ends,
  stays in bounds and puts every element where its destination says.
\<close>

theorem apply_permutation_places:
  assumes "placement destination n" "length items = n"
  shows "\<exists>result. apply_permutation items destination = Some result \<and> length result = n
    \<and> (\<forall>i < n. result ! (destination ! i) = items ! i)"
  using apply_permutation_effect [OF assms] .

lemma apply_permutation_places_witness:
  "\<exists>result. apply_permutation ''abc'' [2, 0, 1] = Some result \<and> result ! 2 = CHR ''a''"
proof -
  have "placement [2, 0, 1] 3" by (auto simp: placement_def)
  from apply_permutation_places [OF this, of "''abc''"] show ?thesis by force
qed

section \<open>Block by block\<close>

lemma place_order_effect:
  "distinct order \<Longrightarrow> \<forall>x \<in> set order. start + x < length d \<Longrightarrow>
    length (place_order start order d) = length d
    \<and> (\<forall>k < length order. place_order start order d ! (start + order ! k) = start + k)
    \<and> (\<forall>i. (\<forall>x \<in> set order. i \<noteq> start + x) \<longrightarrow> place_order start order d ! i = d ! i)"
proof (induction order rule: rev_induct)
  case Nil
  show ?case by (simp add: place_order_def)
next
  case (snoc x order)
  let ?d = "place_order start order d"
  have eq: "place_order start (order @ [x]) d = ?d[start + x := start + length order]"
    by (simp add: place_order_def enumerate_append_eq)
  from snoc have IH: "length ?d = length d" "\<forall>k < length order. ?d ! (start + order ! k) = start + k"
    "\<forall>i. (\<forall>x \<in> set order. i \<noteq> start + x) \<longrightarrow> ?d ! i = d ! i" by simp_all
  have "order ! k \<noteq> x" if "k < length order" for k using snoc.prems(1) nth_mem [OF that] by auto
  then show ?case using IH snoc.prems(2) unfolding eq by (auto simp: nth_append less_Suc_eq nth_list_update)
qed

definition ordered :: "('i, 'r) adapter \<Rightarrow> 'i \<Rightarrow> 'i \<Rightarrow> bool" where
  "ordered A a b \<longleftrightarrow> conflicts A a b \<or> is_barrier A a \<or> is_barrier A b"

definition placed_upto :: "('i, 'r) adapter \<Rightarrow> 'i list \<Rightarrow> nat list \<Rightarrow> nat \<Rightarrow> bool" where
  "placed_upto A xs d m \<longleftrightarrow>
     length d = length xs \<and> distinct d
     \<and> (\<forall>i < length xs. m \<le> i \<longrightarrow> d ! i = i) \<and> (\<forall>i < m. d ! i < m)
     \<and> (\<forall>j < m. \<forall>i < j. ordered A (xs ! i) (xs ! j) \<longrightarrow> d ! i < d ! j)
     \<and> (\<forall>i < m. is_barrier A (xs ! i) \<longrightarrow> d ! i = i)"

lemma placed_uptoD:
  assumes "placed_upto A xs d m"
  shows "length d = length xs" "distinct d" "i < length xs \<Longrightarrow> m \<le> i \<Longrightarrow> d ! i = i"
    "i < m \<Longrightarrow> d ! i < m" "i < j \<Longrightarrow> j < m \<Longrightarrow> ordered A (xs ! i) (xs ! j) \<Longrightarrow> d ! i < d ! j"
    "i < m \<Longrightarrow> is_barrier A (xs ! i) \<Longrightarrow> d ! i = i"
  using assms unfolding placed_upto_def by blast+

text \<open>A stretch of the stream that is permuted within itself, keeping its ordered pairs.\<close>

lemma placed_upto_extend:
  assumes "placed_upto A xs d s" "s \<le> e" "e \<le> length xs" "length d' = length xs"
    and outside: "\<And>i. i < s \<or> e \<le> i \<Longrightarrow> d' ! i = d ! i"
    and inside: "\<And>i. s \<le> i \<Longrightarrow> i < e \<Longrightarrow> s \<le> d' ! i \<and> d' ! i < e"
    and inj: "\<And>i j. s \<le> i \<Longrightarrow> i < j \<Longrightarrow> j < e \<Longrightarrow> d' ! i \<noteq> d' ! j"
    and order: "\<And>i j. s \<le> i \<Longrightarrow> i < j \<Longrightarrow> j < e \<Longrightarrow> ordered A (xs ! i) (xs ! j) \<Longrightarrow> d' ! i < d' ! j"
    and barrier: "\<And>i. s \<le> i \<Longrightarrow> i < e \<Longrightarrow> is_barrier A (xs ! i) \<Longrightarrow> d' ! i = i"
  shows "placed_upto A xs d' e"
proof -
  note old = placed_uptoD [OF assms(1)]
  have low: "d' ! i < s" if "i < s" for i using old(4) [OF that] outside [of i] that by simp
  have high: "d' ! i = i" if "e \<le> i" "i < length xs" for i
    using old(3) [of i] outside [of i] that assms(2) by simp
  have "d' ! i \<noteq> d' ! j" if "i < j" "j < length xs" for i j
  proof -
    consider "j < s" | "i < s" "s \<le> j" "j < e" | "s \<le> i" "j < e" | "i < e" "e \<le> j" | "e \<le> i"
      using that by linarith
    then show ?thesis
    proof cases
      case 1
      have "d ! i \<noteq> d ! j" using old(1,2) that 1 assms(2,3) by (simp add: nth_eq_iff_index_eq)
      with 1 that outside [of i] outside [of j] show ?thesis by simp
    next
      case 2
      with low [of i] inside [of j] show ?thesis by simp
    next
      case 3
      with inj that show ?thesis by blast
    next
      case 4
      then have "d' ! i < e" using low [of i] inside [of i] assms(2) by (cases "i < s") auto
      with high [of j] that 4 show ?thesis by simp
    next
      case 5
      with high [of i] high [of j] that show ?thesis by simp
    qed
  qed
  then have dist: "distinct d'"
    unfolding distinct_conv_nth assms(4) by (metis linorder_neqE_nat)
  have ord: "d' ! i < d' ! j" if "i < j" "j < e" "ordered A (xs ! i) (xs ! j)" for i j
  proof -
    consider "j < s" | "i < s" "s \<le> j" | "s \<le> i" using that by linarith
    then show ?thesis
    proof cases
      case 1
      with old(5) [of i j] that outside [of i] outside [of j] show ?thesis by simp
    next
      case 2
      with low [of i] inside [of j] that show ?thesis by simp
    next
      case 3
      with order that show ?thesis by blast
    qed
  qed
  show ?thesis
    unfolding placed_upto_def
  proof (intro conjI allI impI)
    show "d' ! i < e" if "i < e" for i
      using low [of i] inside [of i] assms(2) that by (cases "i < s") auto
    show "d' ! i = i" if "i < e" "is_barrier A (xs ! i)" for i
      using old(6) [of i] outside [of i] barrier [of i] that by (cases "i < s") auto
  qed (use assms(4) dist high ord in auto)
qed

lemma placed_upto_same:
  assumes "placed_upto A xs d s" "s \<le> e" "e \<le> length xs"
  shows "placed_upto A xs d e"
proof (rule placed_upto_extend [OF assms])
  note old = placed_uptoD [OF assms(1)]
  show "length d = length xs" by (rule old(1))
  show "s \<le> d ! i \<and> d ! i < e" if "s \<le> i" "i < e" for i using old(3) [of i] that assms(3) by simp
  show "d ! i \<noteq> d ! j" if "s \<le> i" "i < j" "j < e" for i j
    using old(3) [of i] old(3) [of j] that assms(3) by simp
  show "d ! i < d ! j" if "s \<le> i" "i < j" "j < e" for i j
    using old(3) [of i] old(3) [of j] that assms(3) by simp
  show "d ! i = i" if "s \<le> i" "i < e" for i using old(3) [of i] that assms(3) by simp
qed simp

lemma calculate_priorities_graph:
  assumes "graph_ok nodes"
  shows "graph_ok (calculate_priorities nodes) \<and> edges (calculate_priorities nodes) = edges nodes
    \<and> length (calculate_priorities nodes) = length nodes"
proof -
  have eq: "calculate_priorities nodes = priorities_from 0 nodes"
    by (simp add: calculate_priorities_def priorities_from_def)
  have edges: "edges (priorities_from 0 nodes) = edges nodes"
    by (rule edges_cong) (simp_all add: priorities_from_shape)
  show ?thesis
    using assms unfolding eq graph_ok_def edges by (simp add: priorities_from_shape)
qed

lemma record_block_placed:
  assumes "placed_upto A xs d s" "s \<le> e" "e \<le> length xs" "length xs \<le> usize_max"
    and "\<And>i. s \<le> i \<Longrightarrow> i < e \<Longrightarrow> \<not> is_barrier A (xs ! i)"
  shows "\<exists>d' regs'. record_block_permutation A xs s e (d, regs) = Some (d', regs') \<and> placed_upto A xs d' e"
proof (cases "e - s \<le> 2")
  case True
  then show ?thesis
    using placed_upto_same [OF assms(1-3)] by (simp add: record_block_permutation_def)
next
  case False
  let ?block = "take (e - s) (drop s xs)"
  obtain nodes regs' where built: "build_dep_graph_reusing A ?block regs = (nodes, regs')" by force
  have len: "length ?block = e - s" "length ?block \<le> usize_max" using assms(2-4) by auto
  have nth: "?block ! k = xs ! (s + k)" if "k < e - s" for k using that assms(3) by simp
  note graph = dep_graph_facts [OF len(2) built]
  let ?nodes = "calculate_priorities nodes"
  have ok: "graph_ok ?nodes" "edges ?nodes = edges nodes" "length ?nodes = e - s"
    using calculate_priorities_graph [OF graph(1)] graph(2) len(1) by auto
  obtain order where order: "schedule_block_reusing ?nodes = Some order" "greedy ?nodes order"
    "distinct order" "set order = {..<e - s}"
    using schedule_block_greedy [OF ok(1)] greedy_complete [OF ok(1)] ok(3) by metis
  have m: "length order = e - s" using order(3,4) distinct_card [of order] by simp
  let ?d = "place_order s order d"
  note old = placed_uptoD [OF assms(1)]
  have range: "\<forall>x \<in> set order. s + x < length d"
    unfolding order(4) old(1) using assms(2,3) by (intro ballI) (simp add: less_diff_conv)
  note placed = place_order_effect [OF order(3) range]
  have at: "\<exists>k < e - s. order ! k = i - s \<and> ?d ! i = s + k" if "s \<le> i" "i < e" for i
  proof -
    have "i - s \<in> set order" using that order(4) by auto
    then obtain k where k: "k < length order" "order ! k = i - s" by (auto simp: in_set_conv_nth)
    then have "?d ! (s + order ! k) = s + k" using placed by blast
    with k that m show ?thesis by auto
  qed
  have "placed_upto A xs ?d e"
  proof (rule placed_upto_extend [OF assms(1-3)])
    show "length ?d = length xs" using placed old(1) by simp
    show "?d ! i = d ! i" if "i < s \<or> e \<le> i" for i
    proof -
      have "\<forall>x \<in> set order. i \<noteq> s + x"
        unfolding order(4) using that assms(2) by (intro ballI) (auto simp: less_diff_conv)
      with placed show ?thesis by blast
    qed
    show "s \<le> ?d ! i \<and> ?d ! i < e" if "s \<le> i" "i < e" for i using at [OF that] by auto
    show "?d ! i \<noteq> ?d ! j" if "s \<le> i" "i < j" "j < e" for i j
      using at [of i] at [of j] that by auto
    show "?d ! i < ?d ! j" if ij: "s \<le> i" "i < j" "j < e" "ordered A (xs ! i) (xs ! j)" for i j
    proof -
      obtain a where a: "a < e - s" "order ! a = i - s" "?d ! i = s + a" using at [of i] ij by auto
      obtain b where b: "b < e - s" "order ! b = j - s" "?d ! j = s + b" using at [of j] ij by auto
      have "conflicts A (xs ! i) (xs ! j)" using ij assms(5) by (simp add: ordered_def)
      then have conflict: "conflicts A (?block ! (i - s)) (?block ! (j - s))"
        using ij nth [of "i - s"] nth [of "j - s"] by simp
      have lt: "i - s < j - s" "j - s < e - s" using ij by linarith+
      then have "j - s < length ?block" unfolding len(1) by blast
      from conflict_path [OF len(2) built lt(1) this conflict]
      have "(i - s, j - s) \<in> (edges ?nodes)\<^sup>+" unfolding ok(2) .
      from greedy_path_order [OF ok(1) order(2) _ this, of a b] a b m order(4) ok(3)
      show ?thesis by simp
    qed
    show "?d ! i = i" if "s \<le> i" "i < e" "is_barrier A (xs ! i)" for i using that assms(5) by blast
  qed
  then show ?thesis using False built order(1) by (simp add: record_block_permutation_def Let_def)
qed

lemma scan_blocks_placed:
  "placed_upto A xs d bs \<Longrightarrow> bs \<le> e \<Longrightarrow> e \<le> length xs \<Longrightarrow> length xs \<le> usize_max \<Longrightarrow>
    \<forall>i. bs \<le> i \<longrightarrow> i < e \<longrightarrow> \<not> is_barrier A (xs ! i) \<Longrightarrow>
    \<exists>bs' d' regs'. scan_blocks A xs [e..<length xs] bs (d, regs) = Some (bs', d', regs')
      \<and> placed_upto A xs d' bs' \<and> bs' \<le> length xs
      \<and> (\<forall>i. bs' \<le> i \<longrightarrow> i < length xs \<longrightarrow> \<not> is_barrier A (xs ! i))"
proof (induction "length xs - e" arbitrary: e bs d regs)
  case 0
  then show ?case by simp
next
  case (Suc k)
  then have e: "e < length xs" by simp
  then have upt: "[e..<length xs] = e # [e + 1..<length xs]" by (simp add: upt_conv_Cons)
  show ?case
  proof (cases "is_barrier A (xs ! e)")
    case False
    then have "\<forall>i. bs \<le> i \<longrightarrow> i < e + 1 \<longrightarrow> \<not> is_barrier A (xs ! i)"
      using Suc.prems(5) less_Suc_eq by auto
    from Suc.hyps(1) [of "e + 1" d bs regs, OF _ Suc.prems(1) _ _ Suc.prems(4) this]
    show ?thesis using Suc.hyps(2) Suc.prems(2) e False by (simp add: upt)
  next
    case True
    obtain d' regs' where block: "record_block_permutation A xs bs e (d, regs) = Some (d', regs')"
      "placed_upto A xs d' e"
      using record_block_placed [OF Suc.prems(1-4)] Suc.prems(5) by blast
    have "placed_upto A xs d' (e + 1)" using placed_upto_same [OF block(2), of "e + 1"] e by simp
    from Suc.hyps(1) [of "e + 1" d' "e + 1" regs', OF _ this] Suc.hyps(2) Suc.prems(4) e block(1) True
    show ?thesis by (simp add: upt)
  qed
qed

lemma placed_upto_placement: "placed_upto A xs d (length xs) \<Longrightarrow> placement d (length xs)"
proof -
  assume placed: "placed_upto A xs d (length xs)"
  have sub: "set d \<subseteq> {..<length xs}" using placed_uptoD(1,4) [OF placed] by (auto simp: in_set_conv_nth)
  have "card (set d) = length xs" using distinct_card [OF placed_uptoD(2) [OF placed]] placed_uptoD(1) [OF placed] by simp
  then have "set d = {..<length xs}" using sub by (intro card_subset_eq) auto
  with placed_uptoD(1,2) [OF placed] show ?thesis by (simp add: placement_def)
qed

lemma schedule_instructions_placed:
  assumes "length xs \<le> usize_max"
  shows "\<exists>ys d. schedule_instructions A xs = Some ys \<and> length ys = length xs
    \<and> placed_upto A xs d (length xs) \<and> (\<forall>i < length xs. ys ! (d ! i) = xs ! i)"
proof -
  let ?n = "length xs" and ?id = "[0..<length xs]"
  have start: "placed_upto A xs ?id 0" by (simp add: placed_upto_def)
  show ?thesis
  proof (cases "?n < 3")
    case True
    have "placed_upto A xs ?id ?n" using placed_upto_same [OF start, of ?n] by simp
    then have "schedule_instructions A xs = Some xs \<and> length xs = length xs
        \<and> placed_upto A xs ?id ?n \<and> (\<forall>i < length xs. xs ! (?id ! i) = xs ! i)"
      using True by (simp add: schedule_instructions_def)
    then show ?thesis by blast
  next
    case False
    obtain bs d regs where scan: "scan_blocks A xs ?id 0 (?id, new_tracker) = Some (bs, d, regs)"
      "placed_upto A xs d bs" "bs \<le> ?n" "\<forall>i. bs \<le> i \<longrightarrow> i < ?n \<longrightarrow> \<not> is_barrier A (xs ! i)"
      using scan_blocks_placed [OF start, of 0 new_tracker] assms by auto
    have "\<exists>d' regs'. (if bs < ?n then record_block_permutation A xs bs ?n (d, regs) else Some (d, regs))
        = Some (d', regs') \<and> placed_upto A xs d' ?n"
      using record_block_placed [OF scan(2,3) order_refl assms] scan by auto
    then obtain d' regs' where last: "(if bs < ?n then record_block_permutation A xs bs ?n (d, regs)
        else Some (d, regs)) = Some (d', regs')" "placed_upto A xs d' ?n" by blast
    have "placement d' ?n" using last(2) by (rule placed_upto_placement)
    then have "\<exists>result. apply_permutation xs d' = Some result \<and> length result = ?n
        \<and> (\<forall>i < ?n. result ! (d' ! i) = xs ! i)"
      by (rule apply_permutation_effect) simp
    then obtain ys where ys: "apply_permutation xs d' = Some ys" "length ys = ?n"
      "\<forall>i < ?n. ys ! (d' ! i) = xs ! i" by blast
    have "schedule_instructions A xs = Some ys"
      using False scan(1) last(1) ys(1) by (simp add: schedule_instructions_def)
    with ys(2,3) last(2) show ?thesis by blast
  qed
qed

text \<open>
  Scheduling an instruction stream never panics and returns a permutation of it: barriers
  stay at their position, and two instructions that conflict, or one of which is a barrier,
  keep their order.
\<close>

theorem schedule_keeps_dependences:
  assumes "length xs \<le> usize_max"
  shows "\<exists>ys place. schedule_instructions A xs = Some ys \<and> mset ys = mset xs
    \<and> placement place (length xs) \<and> (\<forall>i < length xs. ys ! (place ! i) = xs ! i)
    \<and> (\<forall>j < length xs. \<forall>i < j. ordered A (xs ! i) (xs ! j) \<longrightarrow> place ! i < place ! j)
    \<and> (\<forall>i < length xs. is_barrier A (xs ! i) \<longrightarrow> place ! i = i)"
proof -
  let ?n = "length xs"
  obtain ys d where run: "schedule_instructions A xs = Some ys" "length ys = ?n"
    "placed_upto A xs d ?n" "\<forall>i < ?n. ys ! (d ! i) = xs ! i"
    using schedule_instructions_placed [OF assms] by blast
  have d: "placement d ?n" using run(3) by (rule placed_upto_placement)
  have "xs = map (\<lambda>i. ys ! (d ! i)) [0..<?n]"
    using run(4) by (intro nth_equalityI) simp_all
  also have "\<dots> = map ((!) ys) d"
    using d by (intro nth_equalityI) (simp_all add: placement_def)
  finally have "mset xs = image_mset ((!) ys) (mset d)" by simp
  also have "mset d = mset [0..<?n]"
    using d unfolding placement_def
    by (intro set_eq_iff_mset_eq_distinct [THEN iffD1]) (simp_all add: atLeast0LessThan)
  also have "image_mset ((!) ys) (mset [0..<?n]) = mset ys"
    by (metis map_nth mset_map run(2))
  finally show ?thesis
    using run d placed_uptoD(5,6) [OF run(3)] by (intro exI [of _ ys] exI [of _ d]) simp
qed

lemma schedule_keeps_dependences_witness:
  "\<exists>ys place. schedule_instructions toy_adapter [([0], []), ([1], []), ([2], [0])] = Some ys
    \<and> mset ys = mset [([0], []), ([1], []), ([2], [0])] \<and> place ! 0 < (place ! 2 :: nat)"
proof -
  define xs :: "(nat list \<times> nat list) list" where "xs = [([0], []), ([1], []), ([2], [0])]"
  have dep: "ordered toy_adapter (xs ! 0) (xs ! 2)"
    by (simp add: ordered_def conflicts_def reg_writes_def reg_reads_def reg_key_def toy_adapter_def xs_def)
  have len: "length xs \<le> usize_max" "2 < length xs" by (simp_all add: usize_max_def xs_def)
  obtain ys and place :: "nat list" where run: "schedule_instructions toy_adapter xs = Some ys" "mset ys = mset xs"
    "\<forall>j < length xs. \<forall>i < j. ordered toy_adapter (xs ! i) (xs ! j) \<longrightarrow> place ! i < place ! j"
    using schedule_keeps_dependences [OF len(1), of toy_adapter] by blast
  have "place ! 0 < place ! 2" using run(3) len(2) dep by (meson zero_less_numeral)
  with run(1,2) show ?thesis unfolding xs_def by blast
qed

text \<open>
  C1. Scheduling preserves the meaning of the stream: on any machine on which instructions
  commute when neither is a barrier and they share no written register, clobber, flag or
  memory access, the scheduled stream computes the state the original one computes.
\<close>

theorem schedule_preserves_semantics:
  assumes "length xs \<le> usize_max"
    and "\<And>a b. \<not> ordered A a b \<Longrightarrow> exec a \<circ> exec b = exec b \<circ> exec a"
  shows "\<exists>ys. schedule_instructions A xs = Some ys \<and> fold exec ys s = fold exec xs s"
proof -
  let ?n = "length xs"
  obtain ys d where run: "schedule_instructions A xs = Some ys" "length ys = ?n"
    "placed_upto A xs d ?n" "\<forall>i < ?n. ys ! (d ! i) = xs ! i"
    using schedule_instructions_placed [OF assms(1)] by blast
  have d: "placement d ?n" using run(3) by (rule placed_upto_placement)
  let ?order = "map (\<lambda>k. inv_into {..<?n} ((!) d) k) [0..<?n]"
  have image: "(!) d ` {..<?n} = {..<?n}"
    using d nth_image [of ?n d] by (simp add: placement_def lessThan_atLeast0)
  have inv: "?order ! k < ?n \<and> d ! (?order ! k) = k" if "k < ?n" for k
    using that inv_into_into [of k "(!) d" "{..<?n}"] f_inv_into_f [of k "(!) d" "{..<?n}"] image by simp
  have "inj_on (inv_into {..<?n} ((!) d)) {..<?n}" using inj_on_inv_into [of "{..<?n}" "(!) d" "{..<?n}"] image by simp
  then have dist: "distinct ?order" by (simp add: distinct_map atLeast0LessThan)
  have "set ?order \<subseteq> {..<?n}" using inv by (auto simp: in_set_conv_nth)
  moreover have "card (set ?order) = ?n" using distinct_card [OF dist] by simp
  ultimately have "set ?order = {..<?n}" by (intro card_subset_eq) auto
  then have perm: "mset ?order = mset [0..<?n]"
    using dist by (intro set_eq_iff_mset_eq_distinct [THEN iffD1]) auto
  have "fold (\<lambda>i. exec (xs ! i)) ?order s = fold (\<lambda>i. exec (xs ! i)) [0..<?n] s"
  proof (rule fold_reorder [OF _ perm])
    show "sorted_wrt (<) [0..<?n]" by simp
    fix a b assume ab: "b < a" "a < length ?order" "?order ! a < ?order ! b"
    then have "\<not> ordered A (xs ! (?order ! a)) (xs ! (?order ! b))"
      using inv [of a] inv [of b] placed_uptoD(5) [OF run(3), of "?order ! a" "?order ! b"] by auto
    then show "exec (xs ! (?order ! a)) \<circ> exec (xs ! (?order ! b)) =
        exec (xs ! (?order ! b)) \<circ> exec (xs ! (?order ! a))" by (rule assms(2))
  qed
  moreover have "ys = map ((!) xs) ?order"
    using run(2,4) inv by (intro nth_equalityI) (simp_all, metis)
  ultimately have "fold exec ys s = fold exec (map ((!) xs) [0..<?n]) s"
    by (simp add: fold_map comp_def)
  then show ?thesis using run(1) by (simp add: map_nth)
qed

text \<open>The toy machine adds up the registers an instruction reads.\<close>

definition toy_exec :: "nat list \<times> nat list \<Rightarrow> (nat \<Rightarrow> nat) \<Rightarrow> nat \<Rightarrow> nat" where
  "toy_exec = (\<lambda>(ws, rs) regs r. if r \<in> set ws then Suc (sum_list (map regs rs)) else regs r)"

lemma toy_exec_commute:
  assumes "\<not> ordered toy_adapter a b"
  shows "toy_exec a \<circ> toy_exec b = toy_exec b \<circ> toy_exec a"
proof -
  obtain wa ra wb rb where ab: "a = (wa, ra)" "b = (wb, rb)" by (cases a, cases b)
  have "set wa \<inter> set wb = {}" "set wa \<inter> set rb = {}" "set ra \<inter> set wb = {}"
    using assms by (auto simp: ab ordered_def conflicts_def reg_writes_def reg_reads_def reg_key_def toy_adapter_def)
  then have reads: "map (toy_exec b regs) ra = map regs ra" "map (toy_exec a regs) rb = map regs rb" for regs
    by (auto simp: ab toy_exec_def)
  have A: "toy_exec a f r = (if r \<in> set wa then Suc (sum_list (map f ra)) else f r)"
    and B: "toy_exec b f r = (if r \<in> set wb then Suc (sum_list (map f rb)) else f r)" for f r
    by (simp_all add: ab toy_exec_def)
  have "toy_exec a (toy_exec b regs) r = toy_exec b (toy_exec a regs) r" for regs r
    unfolding A [of "toy_exec b regs"] B [of "toy_exec a regs"] reads
    using \<open>set wa \<inter> set wb = {}\<close> A [of regs r] B [of regs r] by auto
  then show ?thesis by (simp add: fun_eq_iff)
qed

lemma schedule_preserves_semantics_witness:
  "\<exists>ys. schedule_instructions toy_adapter [([0], []), ([1], []), ([2], [0])] = Some ys
    \<and> fold toy_exec ys (\<lambda>_. 0) = fold toy_exec [([0], []), ([1], []), ([2], [0])] (\<lambda>_. 0)"
  by (rule schedule_preserves_semantics) (simp add: usize_max_def, rule toy_exec_commute)

end
