(* ===== verification/Cfg_Model.thy ===== *)
theory Cfg_Model
  imports Integer_Semantics
begin

text \<open>
  The control-flow graph the optimizer and the backends work on
  (\<open>crates/rue-cfg/src/inst.rs\<close>): types as the passes see them, instructions, terminators,
  blocks, and the operations on the graph that the modelled passes use.

  A value or block id is a \<open>nat\<close>, an index into the vector it names.  The code keeps variable
  length operand lists in shared stores and an instruction holds a range of one; here the
  instruction holds the list itself.  The limits of those stores are not modelled, the limit
  of the value arena is.
\<close>

type_synonym cfg_value = nat
type_synonym block_id = nat

section \<open>Types\<close>

datatype type_kind =
    I8 | I16 | I32 | I64 | U8 | U16 | U32 | U64 | Bool | Unit
  | Struct nat | Enum nat | Array nat | PtrConst nat | PtrMut nat | Function nat | Module nat
  | Error | Never | ComptimeType | F32 | F64 | ComptimeFloat

definition is_float :: "type_kind \<Rightarrow> bool" where
  "is_float ty \<longleftrightarrow> ty = F32 \<or> ty = F64"

definition is_signed_kind :: "type_kind \<Rightarrow> bool" where
  "is_signed_kind ty \<longleftrightarrow> ty = I8 \<or> ty = I16 \<or> ty = I32 \<or> ty = I64"

definition integer_semantics :: "type_kind \<Rightarrow> integer_type option" where
  "integer_semantics ty =
     (if ty = I8 \<or> ty = U8 then new_integer_type 8 (is_signed_kind ty)
      else if ty = I16 \<or> ty = U16 then new_integer_type 16 (is_signed_kind ty)
      else if ty = I32 \<or> ty = U32 then new_integer_type 32 (is_signed_kind ty)
      else if ty = I64 \<or> ty = U64 then new_integer_type 64 (is_signed_kind ty)
      else None)"

section \<open>Instructions\<close>

datatype 'v place_base = Local u32 | ParamSlot u32 | Accessor 'v | Indirect 'v

datatype 'v projection = Field nat u32 | Index type_kind 'v

datatype 'v place = Place "'v place_base" type_kind "'v projection list"

datatype arg_mode = Normal | Inout | Borrow

datatype array_init_shape = Elementwise | Repeat

datatype (plugins only: size code) 'v inst_data =
    Const u64
  | BoolConst bool
  | StringConst u32
  | Param u32
  | BlockParam u32
  | Add 'v 'v | Sub 'v 'v | Mul 'v 'v
  | WrappingAdd 'v 'v | WrappingSub 'v 'v | WrappingMul 'v 'v
  | Div 'v 'v | Mod 'v 'v
  | Eq 'v 'v | Ne 'v 'v | Lt 'v 'v | Gt 'v 'v | Le 'v 'v | Ge 'v 'v
  | BitAnd 'v 'v | BitOr 'v 'v | BitXor 'v 'v | Shl 'v 'v | Shr 'v 'v
  | Neg 'v | LogicalNot 'v | BitNot 'v
  | Alloc u32 'v
  | Load u32
  | Store u32 'v
  | ParamStore u32 'v
  | PlaceRead "'v place"
  | PlaceWrite "'v place" 'v
  | Call "nat option" nat "('v \<times> arg_mode) list"
  | AccessorCall nat "('v \<times> arg_mode) list"
  | FnAddr nat
  | CallIndirect 'v "('v \<times> arg_mode) list"
  | Intrinsic nat nat "'v list"
  | StructInit nat "'v list"
  | ArrayInit "'v list" array_init_shape
  | EnumVariant nat u32 "'v list"
  | EnumPayloadGet 'v nat u32 u32
  | IntCast 'v type_kind
  | Drop 'v
  | StorageLive u32 type_kind
  | StorageDead u32 type_kind
  | MoveOut "'v place"
  for map: map_operands

record cfg_inst =
  data :: "cfg_value inst_data"
  ty :: type_kind
  inst_span :: span

datatype (term_uses: 'v) terminator =
    Goto block_id "'v list"
  | Branch 'v block_id "'v list" block_id "'v list"
  | Switch 'v "(int \<times> block_id) list" block_id
  | Return "'v option"
  | Unreachable
  | NoTerminator
  for map: map_term_operands

record basic_block =
  block_params :: "(cfg_value \<times> type_kind) list"
  block_insts :: "cfg_value list"
  terminator :: "cfg_value terminator"

section \<open>The graph\<close>

text \<open>The fields the modelled passes read or write.\<close>

record cfg =
  blocks :: "basic_block list"
  entry :: block_id
  cfg_values :: "cfg_inst list"
  ownership_boundary_values :: "cfg_value set"
  capacity_exceeded :: "string option"

definition get_inst :: "cfg \<Rightarrow> cfg_value \<Rightarrow> cfg_inst" where
  "get_inst g v = cfg_values g ! v"

definition set_data :: "cfg_value \<Rightarrow> cfg_value inst_data \<Rightarrow> cfg \<Rightarrow> cfg" where
  "set_data v d g = g\<lparr>cfg_values := (cfg_values g)[v := (cfg_values g ! v)\<lparr>data := d\<rparr>]\<rparr>"

definition max_cfg_entities :: nat where
  "max_cfg_entities = 2 ^ 32 - 1"

definition checked_owner_index :: "nat \<Rightarrow> nat option" where
  "checked_owner_index n = (if n < max_cfg_entities then Some n else None)"

definition add_inst :: "cfg_inst \<Rightarrow> cfg \<Rightarrow> cfg_value \<times> cfg" where
  "add_inst inst g =
     (case checked_owner_index (length (cfg_values g)) of
        None \<Rightarrow> (0, g\<lparr>capacity_exceeded :=
                 (case capacity_exceeded g of None \<Rightarrow> Some ''values'' | Some f \<Rightarrow> Some f)\<rparr>)
      | Some index \<Rightarrow> (index, g\<lparr>cfg_values := cfg_values g @ [inst]\<rparr>))"

definition rewrite_value_uses :: "(cfg_value \<Rightarrow> cfg_value) \<Rightarrow> cfg \<Rightarrow> cfg" where
  "rewrite_value_uses f g =
     g\<lparr>cfg_values := map (\<lambda>inst. inst\<lparr>data := map_operands f (data inst)\<rparr>) (cfg_values g),
       blocks := map (\<lambda>b. b\<lparr>terminator := map_term_operands f (terminator b)\<rparr>) (blocks g),
       ownership_boundary_values :=
         ownership_boundary_values g \<union> f ` ownership_boundary_values g\<rparr>"

fun successors :: "'v terminator \<Rightarrow> block_id list" where
  "successors (Goto target args) = [target]"
| "successors (Branch cond then_block then_args else_block else_args) = [then_block, else_block]"
| "successors (Switch scrutinee cases default_block) = map snd cases @ [default_block]"
| "successors (Return v) = []"
| "successors Unreachable = []"
| "successors NoTerminator = []"

definition visit_successors :: "cfg \<Rightarrow> block_id \<Rightarrow> block_id list" where
  "visit_successors g b = successors (terminator (blocks g ! b))"

section \<open>Basic facts\<close>

lemma get_set_data:
  "v < length (cfg_values g) \<Longrightarrow>
    get_inst (set_data v d g) u = (if u = v then (get_inst g v)\<lparr>data := d\<rparr> else get_inst g u)"
  by (simp add: get_inst_def set_data_def nth_list_update)

lemma set_data_simps [simp]:
  "length (cfg_values (set_data v d g)) = length (cfg_values g)"
  "blocks (set_data v d g) = blocks g" "entry (set_data v d g) = entry g"
  "capacity_exceeded (set_data v d g) = capacity_exceeded g"
  by (simp_all add: set_data_def)

lemma integer_semantics_supported: "integer_semantics k = Some it \<Longrightarrow> supported it"
  by (auto simp: integer_semantics_def new_integer_type_supported split: if_splits)

lemma integer_semantics_not_float: "integer_semantics k = Some it \<Longrightarrow> \<not> is_float k"
  by (auto simp: integer_semantics_def is_float_def split: if_splits)

section \<open>What a pure instruction computes\<close>

text \<open>
  The meaning of the operations that depend on their operands only, stated with the language's
  integer kernel: a value, a trap, or no statement (\<open>Unspecified\<close>) when the operands do not
  have the shape the operation needs or the instruction is not pure.
\<close>

datatype rt_value = RInt u64 | RBool bool | REnum nat u32 "rt_value list" | ROther nat

datatype outcome = Value rt_value | Trap | Unspecified

fun of_checked :: "u64 option \<Rightarrow> outcome" where
  "of_checked None = Trap"
| "of_checked (Some w) = Value (RInt w)"

definition int_op ::
  "type_kind \<Rightarrow> (integer_type \<Rightarrow> u64 \<Rightarrow> u64 \<Rightarrow> u64 option) \<Rightarrow> rt_value \<Rightarrow> rt_value \<Rightarrow> outcome" where
  "int_op k f x y =
     (case (integer_semantics k, x, y) of
        (Some it, RInt a, RInt b) \<Rightarrow> of_checked (f it a b)
      | _ \<Rightarrow> Unspecified)"

definition eq_op :: "type_kind \<Rightarrow> type_kind \<Rightarrow> rt_value \<Rightarrow> rt_value \<Rightarrow> bool \<Rightarrow> outcome" where
  "eq_op k k' x y negated =
     (if is_float k \<or> is_float k' then Unspecified
      else case (x, y) of
        (ROther _, _) \<Rightarrow> Unspecified
      | (_, ROther _) \<Rightarrow> Unspecified
      | _ \<Rightarrow> Value (RBool ((x = y) \<noteq> negated)))"

definition ord_op :: "type_kind \<Rightarrow> (cmp_ordering \<Rightarrow> bool) \<Rightarrow> rt_value \<Rightarrow> rt_value \<Rightarrow> outcome" where
  "ord_op k f x y =
     (case (integer_semantics k, x, y) of
        (Some it, RInt a, RInt b) \<Rightarrow> Value (RBool (f (compare_u64 it a b)))
      | _ \<Rightarrow> Unspecified)"

type_synonym env = "cfg_value \<Rightarrow> rt_value"

definition eval_data :: "cfg \<Rightarrow> env \<Rightarrow> type_kind \<Rightarrow> cfg_value inst_data \<Rightarrow> outcome" where
  "eval_data g env k d =
     (case d of
        Const w \<Rightarrow> Value (RInt w)
      | BoolConst b \<Rightarrow> Value (RBool b)
      | Add a b \<Rightarrow> int_op k checked_add_u64 (env a) (env b)
      | Sub a b \<Rightarrow> int_op k checked_sub_u64 (env a) (env b)
      | Mul a b \<Rightarrow> int_op k checked_mul_u64 (env a) (env b)
      | WrappingAdd a b \<Rightarrow> int_op k (\<lambda>it x y. Some (wrapping_add_u64 it x y)) (env a) (env b)
      | WrappingSub a b \<Rightarrow> int_op k (\<lambda>it x y. Some (wrapping_sub_u64 it x y)) (env a) (env b)
      | WrappingMul a b \<Rightarrow> int_op k (\<lambda>it x y. Some (wrapping_mul_u64 it x y)) (env a) (env b)
      | Div a b \<Rightarrow> int_op k checked_div_u64 (env a) (env b)
      | Mod a b \<Rightarrow> int_op k checked_rem_u64 (env a) (env b)
      | Eq a b \<Rightarrow> eq_op (ty (get_inst g a)) (ty (get_inst g b)) (env a) (env b) False
      | Ne a b \<Rightarrow> eq_op (ty (get_inst g a)) (ty (get_inst g b)) (env a) (env b) True
      | Lt a b \<Rightarrow> ord_op (ty (get_inst g a)) (\<lambda>c. c = Less) (env a) (env b)
      | Gt a b \<Rightarrow> ord_op (ty (get_inst g a)) (\<lambda>c. c = Greater) (env a) (env b)
      | Le a b \<Rightarrow> ord_op (ty (get_inst g a)) (\<lambda>c. c \<noteq> Greater) (env a) (env b)
      | Ge a b \<Rightarrow> ord_op (ty (get_inst g a)) (\<lambda>c. c \<noteq> Less) (env a) (env b)
      | BitAnd a b \<Rightarrow> int_op k (\<lambda>_ x y. Some (x AND y)) (env a) (env b)
      | BitOr a b \<Rightarrow> int_op k (\<lambda>_ x y. Some (x OR y)) (env a) (env b)
      | BitXor a b \<Rightarrow> int_op k (\<lambda>_ x y. Some (x XOR y)) (env a) (env b)
      | Shl a b \<Rightarrow> int_op k (\<lambda>it x y. Some (shift_u64 it x y True)) (env a) (env b)
      | Shr a b \<Rightarrow> int_op k (\<lambda>it x y. Some (shift_u64 it x y False)) (env a) (env b)
      | Neg a \<Rightarrow> int_op k (\<lambda>it x _. checked_neg_u64 it x) (env a) (env a)
      | BitNot a \<Rightarrow> int_op k (\<lambda>it x _. Some (bitnot_u64 it x)) (env a) (env a)
      | LogicalNot a \<Rightarrow> (case env a of RBool b \<Rightarrow> Value (RBool (\<not> b)) | _ \<Rightarrow> Unspecified)
      | EnumVariant e i payload \<Rightarrow> Value (REnum e i (map env payload))
      | _ \<Rightarrow> Unspecified)"

lemma eval_data_simps [simp]:
  "eval_data g env k (Const w) = Value (RInt w)"
  "eval_data g env k (BoolConst c) = Value (RBool c)"
  "eval_data g env k (Add a b) = int_op k checked_add_u64 (env a) (env b)"
  "eval_data g env k (Sub a b) = int_op k checked_sub_u64 (env a) (env b)"
  "eval_data g env k (Mul a b) = int_op k checked_mul_u64 (env a) (env b)"
  "eval_data g env k (WrappingAdd a b) = int_op k (\<lambda>it x y. Some (wrapping_add_u64 it x y)) (env a) (env b)"
  "eval_data g env k (WrappingSub a b) = int_op k (\<lambda>it x y. Some (wrapping_sub_u64 it x y)) (env a) (env b)"
  "eval_data g env k (WrappingMul a b) = int_op k (\<lambda>it x y. Some (wrapping_mul_u64 it x y)) (env a) (env b)"
  "eval_data g env k (Div a b) = int_op k checked_div_u64 (env a) (env b)"
  "eval_data g env k (Mod a b) = int_op k checked_rem_u64 (env a) (env b)"
  "eval_data g env k (Eq a b) = eq_op (ty (get_inst g a)) (ty (get_inst g b)) (env a) (env b) False"
  "eval_data g env k (Ne a b) = eq_op (ty (get_inst g a)) (ty (get_inst g b)) (env a) (env b) True"
  "eval_data g env k (Lt a b) = ord_op (ty (get_inst g a)) (\<lambda>c. c = Less) (env a) (env b)"
  "eval_data g env k (Gt a b) = ord_op (ty (get_inst g a)) (\<lambda>c. c = Greater) (env a) (env b)"
  "eval_data g env k (Le a b) = ord_op (ty (get_inst g a)) (\<lambda>c. c \<noteq> Greater) (env a) (env b)"
  "eval_data g env k (Ge a b) = ord_op (ty (get_inst g a)) (\<lambda>c. c \<noteq> Less) (env a) (env b)"
  "eval_data g env k (BitAnd a b) = int_op k (\<lambda>_ x y. Some (x AND y)) (env a) (env b)"
  "eval_data g env k (BitOr a b) = int_op k (\<lambda>_ x y. Some (x OR y)) (env a) (env b)"
  "eval_data g env k (BitXor a b) = int_op k (\<lambda>_ x y. Some (x XOR y)) (env a) (env b)"
  "eval_data g env k (Shl a b) = int_op k (\<lambda>it x y. Some (shift_u64 it x y True)) (env a) (env b)"
  "eval_data g env k (Shr a b) = int_op k (\<lambda>it x y. Some (shift_u64 it x y False)) (env a) (env b)"
  "eval_data g env k (Neg a) = int_op k (\<lambda>it x _. checked_neg_u64 it x) (env a) (env a)"
  "eval_data g env k (BitNot a) = int_op k (\<lambda>it x _. Some (bitnot_u64 it x)) (env a) (env a)"
  "eval_data g env k (LogicalNot a) = (case env a of RBool b \<Rightarrow> Value (RBool (\<not> b)) | _ \<Rightarrow> Unspecified)"
  "eval_data g env k (EnumVariant e i payload) = Value (REnum e i (map env payload))"
  by (simp_all add: eval_data_def)

lemma int_op_specified:
  "int_op k f x y \<noteq> Unspecified \<Longrightarrow> \<exists>it a b. integer_semantics k = Some it \<and> x = RInt a \<and> y = RInt b"
  by (auto simp: int_op_def split: option.splits rt_value.splits)

lemma int_op_None [simp]: "integer_semantics k = None \<Longrightarrow> int_op k f x y = Unspecified"
  by (simp add: int_op_def)

lemma int_op_eq [simp]:
  "integer_semantics k = Some it \<Longrightarrow> int_op k f (RInt a) (RInt b) = of_checked (f it a b)"
  by (simp add: int_op_def)

text \<open>
  An environment of a graph gives every value a run-time value: one that an instruction
  computes from the values of its operands, for an integer-typed value a canonical register
  image.  Operands are values of the graph, and those of a logical negation are booleans.
\<close>

definition env_of :: "cfg \<Rightarrow> env \<Rightarrow> bool" where
  "env_of g env \<longleftrightarrow> (\<forall>v < length (cfg_values g). let inst = get_inst g v in
     (case eval_data g env (ty inst) (data inst) of Value x \<Rightarrow> env v = x | _ \<Rightarrow> True)
     \<and> (\<forall>it. integer_semantics (ty inst) = Some it \<longrightarrow> (\<exists>w. env v = RInt w \<and> canonical_image it w))
     \<and> (\<forall>u \<in> set_inst_data (data inst). u < length (cfg_values g))
     \<and> (\<forall>u. data inst = LogicalNot u \<longrightarrow> (\<exists>c. env u = RBool c)))"

lemma env_ofD:
  assumes "env_of g env" "v < length (cfg_values g)"
  shows "eval_data g env (ty (get_inst g v)) (data (get_inst g v)) = Value x \<Longrightarrow> env v = x"
    "integer_semantics (ty (get_inst g v)) = Some it \<Longrightarrow> \<exists>w. env v = RInt w \<and> canonical_image it w"
    "u \<in> set_inst_data (data (get_inst g v)) \<Longrightarrow> u < length (cfg_values g)"
    "data (get_inst g v) = LogicalNot u \<Longrightarrow> \<exists>c. env u = RBool c"
  using assms by (auto simp: env_of_def Let_def)

end
