(* ===== verification/Const_Fold.thy ===== *)
theory Const_Fold
  imports Cfg_Model
begin


section \<open>Reading constants\<close>

definition get_const_int :: "cfg \<Rightarrow> cfg_value \<Rightarrow> u64 option" where
  "get_const_int g v = (case data (get_inst g v) of Const w \<Rightarrow> Some w | _ \<Rightarrow> None)"

definition get_const_bool :: "cfg \<Rightarrow> cfg_value \<Rightarrow> bool option" where
  "get_const_bool g v = (case data (get_inst g v) of BoolConst b \<Rightarrow> Some b | _ \<Rightarrow> None)"

definition get_enum_variant :: "cfg \<Rightarrow> cfg_value \<Rightarrow> (nat \<times> u32 \<times> u32) option" where
  "get_enum_variant g v =
     (case data (get_inst g v) of
        EnumVariant enum_id variant_index payload \<Rightarrow> Some (enum_id, variant_index, of_nat (length payload))
      | _ \<Rightarrow> None)"

section \<open>Checked arithmetic\<close>







section \<open>Folding one shape\<close>

definition fold_binary_arith ::
  "cfg \<Rightarrow> cfg_value \<Rightarrow> cfg_value \<Rightarrow> (u64 \<Rightarrow> u64 \<Rightarrow> u64 option) \<Rightarrow> cfg_value inst_data option" where
  "fold_binary_arith g lhs rhs f =
     Option.bind (get_const_int g lhs) (\<lambda>a.
     Option.bind (get_const_int g rhs) (\<lambda>b.
     map_option Const (f a b)))"

definition fold_comparison ::
  "cfg \<Rightarrow> cfg_value \<Rightarrow> cfg_value \<Rightarrow> (u64 \<Rightarrow> u64 \<Rightarrow> bool) \<Rightarrow> cfg_value inst_data option" where
  "fold_comparison g lhs rhs f =
     (if is_float (ty (get_inst g lhs)) \<or> is_float (ty (get_inst g rhs)) then None
      else
        Option.bind (get_const_int g lhs) (\<lambda>a.
        Option.bind (get_const_int g rhs) (\<lambda>b.
        Some (BoolConst (f a b)))))"

definition fold_enum_comparison ::
  "cfg \<Rightarrow> cfg_value \<Rightarrow> cfg_value \<Rightarrow> (u32 \<Rightarrow> u32 \<Rightarrow> bool) \<Rightarrow> cfg_value inst_data option" where
  "fold_enum_comparison g lhs rhs f =
     Option.bind (get_enum_variant g lhs) (\<lambda>(lhs_enum, lhs_variant, lhs_len).
     Option.bind (get_enum_variant g rhs) (\<lambda>(rhs_enum, rhs_variant, rhs_len).
     if lhs_enum = rhs_enum \<and> lhs_len = 0 \<and> rhs_len = 0
     then Some (BoolConst (f lhs_variant rhs_variant)) else None))"

definition fold_comparison_ordered ::
  "cfg \<Rightarrow> cfg_value \<Rightarrow> cfg_value \<Rightarrow> type_kind \<Rightarrow> (cmp_ordering \<Rightarrow> bool) \<Rightarrow> cfg_value inst_data option" where
  "fold_comparison_ordered g lhs rhs k f =
     Option.bind (get_const_int g lhs) (\<lambda>a.
     Option.bind (get_const_int g rhs) (\<lambda>b.
     Option.bind (integer_semantics k) (\<lambda>it.
     Some (BoolConst (f (compare_u64 it a b))))))"



definition fold_not :: "cfg \<Rightarrow> cfg_value \<Rightarrow> cfg_value inst_data option" where
  "fold_not g operand = map_option (\<lambda>b. BoolConst (\<not> b)) (get_const_bool g operand)"

section \<open>The kernel\<close>



section \<open>Reading the environment at constants\<close>

lemma get_const_int_env:
  assumes "env_of g env" "v < length (cfg_values g)" "get_const_int g v = Some w"
  shows "env v = RInt w"
proof -
  have "data (get_inst g v) = Const w"
    using assms(3) by (simp add: get_const_int_def split: inst_data.splits)
  then show ?thesis using env_ofD(1) [OF assms(1,2)] by simp
qed

lemma get_const_bool_env:
  assumes "env_of g env" "v < length (cfg_values g)" "get_const_bool g v = Some b"
  shows "env v = RBool b"
proof -
  have "data (get_inst g v) = BoolConst b"
    using assms(3) by (simp add: get_const_bool_def split: inst_data.splits)
  then show ?thesis using env_ofD(1) [OF assms(1,2)] by simp
qed

definition payloads_fit :: "cfg \<Rightarrow> bool" where
  "payloads_fit g \<longleftrightarrow> (\<forall>v < length (cfg_values g). \<forall>e i payload.
     data (get_inst g v) = EnumVariant e i payload \<longrightarrow> length payload < 2 ^ 32)"

lemma get_enum_variant_env:
  assumes "env_of g env" "payloads_fit g" "v < length (cfg_values g)" "get_enum_variant g v = Some (e, i, 0)"
  shows "env v = REnum e i []"
proof -
  obtain payload where d: "data (get_inst g v) = EnumVariant e i payload" "of_nat (length payload) = (0 :: u32)"
    using assms(4) by (auto simp: get_enum_variant_def split: inst_data.splits)
  then have "length payload < 2 ^ 32" using assms(2,3) by (auto simp: payloads_fit_def)
  then have "unat (of_nat (length payload) :: u32) = length payload" by (simp add: unat_of_nat)
  with d(2) have "payload = []" by simp
  with d(1) show ?thesis using env_ofD(1) [OF assms(1,3)] by simp
qed

section \<open>Annihilators\<close>


section \<open>Every folded shape\<close>

lemma fold_binary_arith_Some:
  "fold_binary_arith g l r f = Some d \<longleftrightarrow>
     (\<exists>a b c. get_const_int g l = Some a \<and> get_const_int g r = Some b \<and> f a b = Some c \<and> d = Const c)"
  by (auto simp: fold_binary_arith_def bind_eq_Some_conv)

text \<open>A folded integer operation computes the constant, once folding and meaning use the same kernel.\<close>

lemma fold_binary_sound:
  assumes "env_of g env" "l < length (cfg_values g)" "r < length (cfg_values g)"
    and "fold_binary_arith g l r f = Some d" "int_op k h (env l) (env r) \<noteq> Unspecified"
    and "\<And>it a b c. integer_semantics k = Some it \<Longrightarrow> f a b = Some c \<Longrightarrow> h it a b = Some c"
  shows "eval_data g env k d = int_op k h (env l) (env r)"
proof -
  obtain a b c where f: "get_const_int g l = Some a" "get_const_int g r = Some b" "f a b = Some c" "d = Const c"
    using assms(4) by (auto simp: fold_binary_arith_Some)
  obtain it where it: "integer_semantics k = Some it" using int_op_specified [OF assms(5)] by blast
  have "env l = RInt a" "env r = RInt b"
    using get_const_int_env [OF assms(1)] assms(2,3) f(1,2) by blast+
  then show ?thesis using f(4) it assms(6) [OF it f(3)] by simp
qed


lemma fold_comparison_sound:
  assumes "env_of g env" "payloads_fit g" "l < length (cfg_values g)" "r < length (cfg_values g)"
    and "or_else (fold_comparison g l r (\<lambda>a b. (a = b) \<noteq> negated))
           (fold_enum_comparison g l r (\<lambda>a b. (a = b) \<noteq> negated)) = Some d"
    and "eq_op (ty (get_inst g l)) (ty (get_inst g r)) (env l) (env r) negated \<noteq> Unspecified"
  shows "eval_data g env k d = eq_op (ty (get_inst g l)) (ty (get_inst g r)) (env l) (env r) negated"
proof -
  have nf: "\<not> is_float (ty (get_inst g l))" "\<not> is_float (ty (get_inst g r))"
    using assms(6) by (auto simp: eq_op_def split: if_splits)
  consider a b where "get_const_int g l = Some a" "get_const_int g r = Some b" "d = BoolConst ((a = b) \<noteq> negated)"
    | e i j where "get_enum_variant g l = Some (e, i, 0)" "get_enum_variant g r = Some (e, j, 0)"
      "d = BoolConst ((i = j) \<noteq> negated)"
    using assms(5) nf unfolding or_else_Some
    by (auto simp: fold_comparison_def fold_enum_comparison_def bind_eq_Some_conv split: if_splits)
  then show ?thesis
  proof cases
    case 1
    then have "env l = RInt a" "env r = RInt b" using get_const_int_env [OF assms(1)] assms(3,4) by blast+
    with 1(3) nf show ?thesis by (simp add: eq_op_def)
  next
    case 2
    then have "env l = REnum e i []" "env r = REnum e j []"
      using get_enum_variant_env [OF assms(1,2)] assms(3,4) by blast+
    with 2(3) nf show ?thesis by (simp add: eq_op_def)
  qed
qed

lemma fold_ordered_sound:
  assumes "env_of g env" "l < length (cfg_values g)" "r < length (cfg_values g)"
    and "fold_comparison_ordered g l r k' f = Some d"
  shows "eval_data g env k d = ord_op k' f (env l) (env r)"
proof -
  obtain a b it where f: "get_const_int g l = Some a" "get_const_int g r = Some b"
    "integer_semantics k' = Some it" "d = BoolConst (f (compare_u64 it a b))"
    using assms(4) by (auto simp: fold_comparison_ordered_def bind_eq_Some_conv)
  have "env l = RInt a" "env r = RInt b"
    using get_const_int_env [OF assms(1)] assms(2,3) f(1,2) by blast+
  with f(3,4) show ?thesis by (simp add: ord_op_def)
qed



lemma fold_not_sound:
  assumes "env_of g env" "x < length (cfg_values g)" "fold_not g x = Some d"
  shows "eval_data g env k d = eval_data g env k (LogicalNot x)"
  using assms get_const_bool_env [OF assms(1,2)] by (auto simp: fold_not_def)

lemma fold_or_const_sound:
  assumes "env_of g env" "l < length (cfg_values g)" "r < length (cfg_values g)"
    and "or_else (fold_binary_arith g l r f) (then_some c (Const 0)) = Some d"
    and "int_op k h (env l) (env r) \<noteq> Unspecified"
    and "\<And>it a b w. integer_semantics k = Some it \<Longrightarrow> f a b = Some w \<Longrightarrow> h it a b = Some w"
    and "\<And>it a b. c \<Longrightarrow> integer_semantics k = Some it \<Longrightarrow> env l = RInt a \<Longrightarrow> env r = RInt b \<Longrightarrow> h it a b = Some 0"
  shows "eval_data g env k d = int_op k h (env l) (env r)"
proof (cases "fold_binary_arith g l r f = Some d")
  case True
  show ?thesis by (rule fold_binary_sound [OF assms(1-3) True assms(5,6)])
next
  case False
  then have "c" "d = Const 0" using assms(4) by (auto simp: or_else_Some then_some_def split: if_splits)
  moreover obtain it a b where "integer_semantics k = Some it" "env l = RInt a" "env r = RInt b"
    using int_op_specified [OF assms(5)] by blast
  ultimately show ?thesis using assms(7) by simp
qed

section \<open>Folding preserves meaning\<close>

lemmas fold_shape_sounds = fold_binary_sound fold_or_const_sound fold_comparison_sound fold_ordered_sound fold_not_sound


















end
