(* ===== verification/Peephole.thy ===== *)
theory Peephole
  imports Cfg_Model
begin

text \<open>
  Peephole simplification (\<open>crates/rue-cfg/src/opt/peephole.rs\<close>): strength reduction of unsigned
  division and remainder by a power of two, and the rewiring of identity operations to their
  operand.  Both are shown to keep what every instruction computes, traps included.
\<close>

definition is_unsigned :: "type_kind \<Rightarrow> bool" where
  "is_unsigned k \<longleftrightarrow> k = U8 \<or> k = U16 \<or> k = U32 \<or> k = U64"

definition const_int :: "cfg \<Rightarrow> cfg_value \<Rightarrow> u64 option" where
  "const_int g v = (case data (get_inst g v) of Const w \<Rightarrow> Some w | _ \<Rightarrow> None)"

section \<open>Strength reduction\<close>

definition is_power_of_two :: "u64 \<Rightarrow> bool" where
  "is_power_of_two w \<longleftrightarrow> length (filter (bit w) [0..<64]) = 1"

definition trailing_zeros :: "u64 \<Rightarrow> nat" where
  "trailing_zeros w = length (takeWhile (\<lambda>i. \<not> bit w i) [0..<64])"

definition div_mod_shape :: "cfg_value inst_data \<Rightarrow> (cfg_value \<times> cfg_value \<times> bool) option" where
  "div_mod_shape d =
     (case d of Div a b \<Rightarrow> Some (a, b, True) | Mod a b \<Rightarrow> Some (a, b, False) | _ \<Rightarrow> None)"

definition reduce_inst ::
  "nat \<Rightarrow> cfg_value \<Rightarrow> cfg \<times> (nat \<times> cfg_value) list \<Rightarrow> cfg \<times> (nat \<times> cfg_value) list" where
  "reduce_inst i v st = (case st of (g, insertions) \<Rightarrow>
     let inst = get_inst g v in
     if \<not> is_unsigned (ty inst) then (g, insertions)
     else case div_mod_shape (data inst) of
       None \<Rightarrow> (g, insertions)
     | Some (numerator, divisor, is_div) \<Rightarrow>
         (case const_int g divisor of
            None \<Rightarrow> (g, insertions)
          | Some d \<Rightarrow>
              if d < 2 \<or> \<not> is_power_of_two d then (g, insertions)
              else
                let new_data = (if is_div then Const (of_nat (trailing_zeros d)) else Const (d - 1));
                    (amount, g1) = add_inst \<lparr>data = new_data, ty = ty inst, inst_span = inst_span inst\<rparr> g
                in (set_data v (if is_div then Shr numerator amount else BitAnd numerator amount) g1,
                    insertions @ [(i, amount)])))"

definition insert_at :: "nat \<Rightarrow> 'a \<Rightarrow> 'a list \<Rightarrow> 'a list" where
  "insert_at i x xs = take i xs @ x # drop i xs"

definition insert_inst :: "block_id \<Rightarrow> nat \<times> cfg_value \<Rightarrow> cfg \<Rightarrow> cfg" where
  "insert_inst b ins g =
     g\<lparr>blocks := (blocks g)[b := (blocks g ! b)
        \<lparr>block_insts := insert_at (fst ins) (snd ins) (block_insts (blocks g ! b))\<rparr>]\<rparr>"

definition reduce_block :: "block_id \<Rightarrow> cfg \<Rightarrow> cfg" where
  "reduce_block b g =
     (let (g', insertions) =
        fold (\<lambda>i st. reduce_inst i (block_insts (blocks (fst st) ! b) ! i) st)
          [0..<length (block_insts (blocks g ! b))] (g, [])
      in fold (insert_inst b) (rev insertions) g')"

definition reduce_unsigned_div_mod :: "cfg \<Rightarrow> cfg" where
  "reduce_unsigned_div_mod g = fold reduce_block [0..<length (blocks g)] g"

section \<open>Identity rewiring\<close>

definition identity_target :: "cfg \<Rightarrow> cfg_value \<Rightarrow> cfg_value option" where
  "identity_target g v =
     (let is0 = (\<lambda>x. const_int g x = Some 0); is1 = (\<lambda>x. const_int g x = Some 1) in
      if is_float (ty (get_inst g v)) then None
      else case data (get_inst g v) of
        Add a b \<Rightarrow> if is0 b then Some a else if is0 a then Some b else None
      | Sub a b \<Rightarrow> if is0 b then Some a else None
      | Mul a b \<Rightarrow> if is1 b then Some a else if is1 a then Some b else None
      | WrappingAdd a b \<Rightarrow> if is0 b then Some a else if is0 a then Some b else None
      | WrappingSub a b \<Rightarrow> if is0 b then Some a else None
      | WrappingMul a b \<Rightarrow> if is1 b then Some a else if is1 a then Some b else None
      | Div a b \<Rightarrow> if is1 b then Some a else None
      | BitOr a b \<Rightarrow> if is0 b then Some a else if is0 a then Some b else if a = b then Some a else None
      | BitXor a b \<Rightarrow> if is0 b then Some a else if is0 a then Some b else None
      | BitAnd a b \<Rightarrow> if a = b then Some a else None
      | Shl a b \<Rightarrow> if is0 b then Some a else None
      | Shr a b \<Rightarrow> if is0 b then Some a else None
      | LogicalNot a \<Rightarrow> (case data (get_inst g a) of LogicalNot inner \<Rightarrow> Some inner | _ \<Rightarrow> None)
      | _ \<Rightarrow> None)"

text \<open>Following an alias chain; \<open>None\<close> is a chain that never ends.\<close>

partial_function (option) resolve :: "cfg_value option list \<Rightarrow> cfg_value \<Rightarrow> cfg_value option" where
  "resolve alias v =
     (case alias ! v of Some next_value \<Rightarrow> resolve alias next_value | None \<Rightarrow> Some v)"

declare resolve.simps [code]

definition aliases :: "cfg \<Rightarrow> cfg_value option list" where
  "aliases g = map (identity_target g) [0..<length (cfg_values g)]"

definition place_dummies :: "cfg_value option list \<Rightarrow> cfg \<Rightarrow> cfg" where
  "place_dummies alias g =
     fold (\<lambda>i g. if alias ! i \<noteq> None then set_data i (Const 0) g else g) [0..<length alias] g"

text \<open>The values the use rewriting visits.\<close>

definition used_values :: "cfg \<Rightarrow> cfg_value set" where
  "used_values g =
     (\<Union>inst \<in> set (cfg_values g). set_inst_data (data inst))
     \<union> (\<Union>b \<in> set (blocks g). term_uses (terminator b)) \<union> ownership_boundary_values g"

definition rewire_identities :: "cfg \<Rightarrow> cfg option" where
  "rewire_identities g =
     (let alias = aliases g in
      if \<forall>a \<in> set alias. a = None then Some g
      else
        let g1 = place_dummies alias g in
        if \<exists>v \<in> used_values g1. resolve alias v = None then None
        else Some (rewrite_value_uses (\<lambda>v. the (resolve alias v)) g1))"

definition run :: "cfg \<Rightarrow> cfg option" where
  "run g = rewire_identities (reduce_unsigned_div_mod g)"

section \<open>Powers of two\<close>

lemma power_of_two_word:
  assumes "is_power_of_two d"
  shows "trailing_zeros d < 64 \<and> d = 2 ^ trailing_zeros d"
proof -
  obtain k where k: "filter (bit d) [0..<64] = [k]"
    using assms by (auto simp: is_power_of_two_def length_Suc_conv)
  then have "set (filter (bit d) [0..<64]) = {k}" by simp
  then have mem: "{i. i < 64 \<and> bit d i} = {k}" unfolding set_filter by auto
  then have k64: "k < 64" by blast
  have bit: "bit d i \<longleftrightarrow> i = k" if "i < 64" for i using mem that by blast
  have tw: "takeWhile (\<lambda>i. \<not> bit d i) [0..<64] = takeWhile (\<lambda>i. i \<noteq> k) [0..<64]"
    by (rule takeWhile_cong) (simp_all add: bit)
  have split: "[0..<64] = [0..<k] @ k # [Suc k..<64]"
    using k64 upt_conv_Cons [of k 64] upt_add_eq_append [of 0 k "64 - k"] by simp
  have "takeWhile (\<lambda>i. i \<noteq> k) ([0..<k] @ k # [Suc k..<64]) = [0..<k]"
    by (subst takeWhile_append2) simp_all
  then have "length (takeWhile (\<lambda>i. i \<noteq> k) [0..<64]) = k" unfolding split by simp
  then have "trailing_zeros d = k" by (simp only: trailing_zeros_def tw)
  moreover have "d = push_bit k 1"
    by (rule bit_word_eqI) (use bit k64 in \<open>simp add: bit_simps\<close>)
  ultimately show ?thesis using k64 by (simp add: push_bit_eq_mult)
qed

lemma sdiv_nonneg:
  assumes "0 \<le> (x :: int)" "0 < y"
  shows "x sdiv y = x div y" "x smod y = x mod y"
  using assms by (cases "x = 0"; simp add: sdiv_trunc signed_modulo_int_def minus_div_mult_eq_mod)+

lemma canonical_unsigned:
  assumes "supported it" "\<not> is_signed it" "canonical_image it a"
  shows "to_i128 it a = uint a" "uint a < 2 ^ bits it"
proof -
  have r: "0 \<le> to_i128 it a" "to_i128 it a < 2 ^ bits it"
    using to_i128_fits [OF assms(1), of a] assms(2) by (simp_all add: fits_alt)
  have "to_i128 it a < 2 ^ 64" using r(2) width_bound(1) [OF assms(1)] by linarith
  then have "uint (word_of_int (to_i128 it a) :: u64) = to_i128 it a"
    using r(1) by (simp add: unsigned_of_int take_bit_int_eq_self)
  then show "to_i128 it a = uint a" using assms by (simp add: canonical_image_word)
  with r(2) show "uint a < 2 ^ bits it" by simp
qed

lemma uint_power_2: "k < 64 \<Longrightarrow> uint (2 ^ k :: u64) = 2 ^ k"
proof -
  assume k: "k < 64"
  have "uint (word_of_int (2 ^ k) :: u64) = 2 ^ k" using k by (simp only: unsigned_of_int) simp
  then show ?thesis by simp
qed

lemma reduced_div_exact:
  assumes "supported it" "\<not> is_signed it" "canonical_image it a" "canonical_image it (2 ^ k)" "k < 64"
  shows "checked_div_u64 it a (2 ^ k) = Some (shift_u64 it a (of_nat k) False)"
    "checked_rem_u64 it a (2 ^ k) = Some (a AND (2 ^ k - 1))"
proof -
  note u = uint_power_2 [OF assms(5)]
  note a = canonical_unsigned [OF assms(1-3)] and d = canonical_unsigned [OF assms(1,2,4)]
  have k: "k < bits it" using d(2) unfolding u by (rule power_less_imp_less_exp [rotated]) simp
  have fits: "fits_i128 it (uint a div 2 ^ k)"
  proof -
    have "uint a div 2 ^ k \<le> uint a" using zdiv_mono2 [of "uint a" 1 "2 ^ k"] by simp
    then show ?thesis using a(2) assms(2) by (simp add: fits_alt pos_imp_zdiv_nonneg_iff)
  qed
  have sdiv: "uint a sdiv 2 ^ k = uint a div 2 ^ k" and smod: "uint a smod 2 ^ k = uint a mod 2 ^ k"
    by (simp_all add: sdiv_nonneg)
  have count: "nat (uint (of_nat k :: u64) mod int (bits it)) = k"
    using k assms(5) by (simp add: unsigned_of_nat take_bit_nat_eq_self less_imp_le_nat)
  have "shift_u64 it a (of_nat k) False = word_of_int (uint a div 2 ^ k)"
    using canonicalize_id [OF assms(1) to_i128_fits [OF assms(1)], of a]
    by (simp add: shift_u64_def shift_i128_eqs [OF assms(1)] count a(1))
  then show "checked_div_u64 it a (2 ^ k) = Some (shift_u64 it a (of_nat k) False)"
    using fits by (simp add: checked_u64_eqs [OF assms(1)] a(1) d(1) u sdiv checked_result_def)
  have "word_of_int (uint a mod 2 ^ k) = a AND (2 ^ k - 1)"
  proof -
    have "word_of_int (uint a mod 2 ^ k) = (word_of_int (take_bit k (uint a)) :: u64)"
      by (simp only: take_bit_eq_mod)
    also have "\<dots> = word_of_int (uint (take_bit k a))" by (simp only: unsigned_take_bit_eq)
    also have "\<dots> = take_bit k a" by (rule word_of_int_uint)
    also have "\<dots> = a AND (2 ^ k - 1)" by (simp only: take_bit_eq_mask mask_eq_exp_minus_1)
    finally show ?thesis .
  qed
  then show "checked_rem_u64 it a (2 ^ k) = Some (a AND (2 ^ k - 1))"
    using fits by (simp add: checked_u64_eqs [OF assms(1)] a(1) d(1) u sdiv smod)
qed

section \<open>Identity operations\<close>

lemma identity_kernels:
  assumes "supported it" "canonical_image it a"
  shows "checked_add_u64 it a 0 = Some a" "checked_add_u64 it 0 a = Some a" "checked_sub_u64 it a 0 = Some a"
    "checked_mul_u64 it a 1 = Some a" "checked_mul_u64 it 1 a = Some a" "checked_div_u64 it a 1 = Some a"
    "wrapping_add_u64 it a 0 = a" "wrapping_add_u64 it 0 a = a" "wrapping_sub_u64 it a 0 = a"
    "wrapping_mul_u64 it a 1 = a" "wrapping_mul_u64 it 1 a = a" "shift_u64 it a 0 left = a"
proof -
  have a: "word_of_int (to_i128 it a) = a" using assms by (simp add: canonical_image_word)
  note fit = to_i128_fits [OF assms(1), of a]
  note id = canonicalize_id [OF assms(1) fit]
  show "checked_add_u64 it a 0 = Some a" "checked_add_u64 it 0 a = Some a" "checked_sub_u64 it a 0 = Some a"
    "checked_mul_u64 it a 1 = Some a" "checked_mul_u64 it 1 a = Some a"
    by (simp_all add: checked_u64_eqs assms(1) checked_result_def fit a)
  have "to_i128 it a sdiv 1 = to_i128 it a" by (simp add: sdiv_trunc sgn_mult_abs)
  then show "checked_div_u64 it a 1 = Some a" by (simp add: checked_u64_eqs assms(1) checked_result_def fit a)
  show "wrapping_add_u64 it a 0 = a" "wrapping_add_u64 it 0 a = a" "wrapping_sub_u64 it a 0 = a"
    "wrapping_mul_u64 it a 1 = a" "wrapping_mul_u64 it 1 a = a"
    by (simp_all add: wrapping_u64_eqs assms(1) id a)
  show "shift_u64 it a 0 left = a"
    by (cases left) (simp_all add: shift_u64_def shift_i128_eqs assms(1) id a)
qed

text \<open>The operands that have the type of the result.\<close>

definition same_type_operands :: "cfg_value inst_data \<Rightarrow> cfg_value list" where
  "same_type_operands d =
     (case d of
        Add a b \<Rightarrow> [a, b] | Sub a b \<Rightarrow> [a, b] | Mul a b \<Rightarrow> [a, b]
      | WrappingAdd a b \<Rightarrow> [a, b] | WrappingSub a b \<Rightarrow> [a, b] | WrappingMul a b \<Rightarrow> [a, b]
      | Div a b \<Rightarrow> [a, b] | Mod a b \<Rightarrow> [a, b]
      | BitAnd a b \<Rightarrow> [a, b] | BitOr a b \<Rightarrow> [a, b] | BitXor a b \<Rightarrow> [a, b]
      | Shl a b \<Rightarrow> [a] | Shr a b \<Rightarrow> [a]
      | Neg a \<Rightarrow> [a] | LogicalNot a \<Rightarrow> [a] | BitNot a \<Rightarrow> [a]
      | _ \<Rightarrow> [])"

definition operands_typed :: "cfg \<Rightarrow> bool" where
  "operands_typed g \<longleftrightarrow> (\<forall>v < length (cfg_values g). \<forall>u \<in> set (same_type_operands (data (get_inst g v))).
     ty (get_inst g u) = ty (get_inst g v))"

lemma const_int_env:
  assumes "env_of g env" "v < length (cfg_values g)" "const_int g v = Some w"
  shows "env v = RInt w"
proof -
  have "data (get_inst g v) = Const w" using assms(3) by (simp add: const_int_def split: inst_data.splits)
  then show ?thesis using env_ofD(1) [OF assms(1,2)] by simp
qed

text \<open>How an identity shape was recognised.\<close>

lemma identity_target_cases:
  assumes "identity_target g v = Some t"
  obtains (right_zero) z where "const_int g z = Some 0"
      "data (get_inst g v) \<in> {Add t z, Sub t z, WrappingAdd t z, WrappingSub t z, BitOr t z, BitXor t z, Shl t z, Shr t z}"
  | (left_zero) z where "const_int g z = Some 0"
      "data (get_inst g v) \<in> {Add z t, WrappingAdd z t, BitOr z t, BitXor z t}"
  | (right_one) e where "const_int g e = Some 1" "data (get_inst g v) \<in> {Mul t e, WrappingMul t e, Div t e}"
  | (left_one) e where "const_int g e = Some 1" "data (get_inst g v) \<in> {Mul e t, WrappingMul e t}"
  | (self) "data (get_inst g v) \<in> {BitAnd t t, BitOr t t}"
  | (not_not) a where "data (get_inst g v) = LogicalNot a" "data (get_inst g a) = LogicalNot t"
  using assms unfolding identity_target_def Let_def
  by (cases "data (get_inst g v)") (auto split: if_splits inst_data.splits)

lemma typed_operand_image:
  assumes "env_of g env" "operands_typed g" "v < length (cfg_values g)"
    and "u \<in> set (same_type_operands (data (get_inst g v)))" "integer_semantics (ty (get_inst g v)) = Some it"
  shows "\<exists>w. env u = RInt w \<and> canonical_image it w"
proof -
  have "u \<in> set_inst_data (data (get_inst g v))" using assms(4)
    by (cases "data (get_inst g v)") (auto simp: same_type_operands_def)
  then have "u < length (cfg_values g)" using env_ofD(3) [OF assms(1,3)] by blast
  moreover have "ty (get_inst g u) = ty (get_inst g v)" using assms(2-4) by (simp add: operands_typed_def)
  ultimately show ?thesis using env_ofD(2) [OF assms(1)] assms(5) by simp
qed

lemma identity_in_uses:
  assumes "env_of g env" "operands_typed g" "v < length (cfg_values g)" "identity_target g v = Some t"
  shows "t < length (cfg_values g) \<and> ty (get_inst g t) = ty (get_inst g v)"
  using assms(4)
proof (cases rule: identity_target_cases)
  case (not_not a)
  have a: "a < length (cfg_values g)" using env_ofD(3) [OF assms(1,3)] not_not(1) by simp
  then have "t < length (cfg_values g)" using env_ofD(3) [OF assms(1) a] not_not(2) by simp
  then show ?thesis using assms(2,3) a not_not by (simp add: operands_typed_def same_type_operands_def)
next
  case (right_zero z)
  then show ?thesis using env_ofD(3) [OF assms(1,3), of t] assms(2,3)
    by (auto simp: operands_typed_def same_type_operands_def)
next
  case (left_zero z)
  then show ?thesis using env_ofD(3) [OF assms(1,3), of t] assms(2,3)
    by (auto simp: operands_typed_def same_type_operands_def)
next
  case (right_one z)
  then show ?thesis using env_ofD(3) [OF assms(1,3), of t] assms(2,3)
    by (auto simp: operands_typed_def same_type_operands_def)
next
  case (left_one z)
  then show ?thesis using env_ofD(3) [OF assms(1,3), of t] assms(2,3)
    by (auto simp: operands_typed_def same_type_operands_def)
next
  case self
  then show ?thesis using env_ofD(3) [OF assms(1,3), of t] assms(2,3)
    by (auto simp: operands_typed_def same_type_operands_def)
qed

lemma int_data_typed:
  assumes "env_of g env" "operands_typed g" "v < length (cfg_values g)"
    and "eval_data g env (ty (get_inst g v)) (data (get_inst g v)) \<noteq> Unspecified"
    and "data (get_inst g v) \<in> {Add a b, Sub a b, Mul a b, WrappingAdd a b, WrappingSub a b, WrappingMul a b,
           Div a b, BitAnd a b, BitOr a b, BitXor a b, Shl a b, Shr a b}"
  obtains it w where "integer_semantics (ty (get_inst g v)) = Some it" "supported it"
    "env a = RInt w" "canonical_image it w"
proof -
  obtain it where it: "integer_semantics (ty (get_inst g v)) = Some it"
    using assms(4,5) by (cases "integer_semantics (ty (get_inst g v))") auto
  have "a \<in> set (same_type_operands (data (get_inst g v)))"
    using assms(5) by (auto simp: same_type_operands_def)
  then show ?thesis using typed_operand_image [OF assms(1-3) _ it] integer_semantics_supported [OF it] it that
    by blast
qed

lemma identity_value:
  assumes "env_of g env" "operands_typed g" "v < length (cfg_values g)" "identity_target g v = Some t"
    and "eval_data g env (ty (get_inst g v)) (data (get_inst g v)) \<noteq> Unspecified"
  shows "eval_data g env (ty (get_inst g v)) (data (get_inst g v)) = Value (env t)"
proof -
  note uses = env_ofD(3) [OF assms(1,3)]
  note image = int_data_typed [OF assms(1-3,5)]
  note const = const_int_env [OF assms(1)]
  from assms(4) show ?thesis
  proof (cases rule: identity_target_cases)
    case (right_zero z)
    then have z: "env z = RInt 0" using uses [of z] const by auto
    obtain it w where "integer_semantics (ty (get_inst g v)) = Some it" "supported it"
      "env t = RInt w" "canonical_image it w"
      using image [of t z] right_zero(2) by blast
    then show ?thesis using right_zero(2) z by (auto simp: identity_kernels)
  next
    case (left_zero z)
    then have z: "env z = RInt 0" using uses [of z] const by auto
    obtain it where it: "integer_semantics (ty (get_inst g v)) = Some it" "supported it"
      using image [of z t] left_zero(2) by blast
    moreover obtain w where "env t = RInt w" "canonical_image it w"
      using typed_operand_image [OF assms(1-3) _ it(1), of t] left_zero(2) by (auto simp: same_type_operands_def)
    ultimately show ?thesis using left_zero(2) z by (auto simp: identity_kernels)
  next
    case (right_one z)
    then have z: "env z = RInt 1" using uses [of z] const by auto
    obtain it w where "integer_semantics (ty (get_inst g v)) = Some it" "supported it"
      "env t = RInt w" "canonical_image it w"
      using image [of t z] right_one(2) by blast
    then show ?thesis using right_one(2) z by (auto simp: identity_kernels)
  next
    case (left_one z)
    then have z: "env z = RInt 1" using uses [of z] const by auto
    obtain it where it: "integer_semantics (ty (get_inst g v)) = Some it" "supported it"
      using image [of z t] left_one(2) by blast
    moreover obtain w where "env t = RInt w" "canonical_image it w"
      using typed_operand_image [OF assms(1-3) _ it(1), of t] left_one(2) by (auto simp: same_type_operands_def)
    ultimately show ?thesis using left_one(2) z by (auto simp: identity_kernels)
  next
    case self
    obtain it w where "integer_semantics (ty (get_inst g v)) = Some it" "supported it" "env t = RInt w"
      using image [of t t] self by blast
    then show ?thesis using self by auto
  next
    case (not_not a)
    then have a: "a < length (cfg_values g)" using uses by simp
    obtain b where b: "env a = RBool b"
      using assms(5) not_not(1) by (auto split: rt_value.splits)
    obtain c where c: "env t = RBool c" using env_ofD(4) [OF assms(1) a not_not(2)] by blast
    then have "env a = RBool (\<not> c)" using env_ofD(1) [OF assms(1) a] not_not(2) by simp
    then have "env t = RBool (\<not> b)" using b c by simp
    then show ?thesis using not_not(1) b by simp
  qed
qed

section \<open>Rewiring\<close>

lemma eval_map_operands:
  assumes "\<And>u. u \<in> set_inst_data d \<Longrightarrow> env (f u) = env u \<and> ty (get_inst g' (f u)) = ty (get_inst g u)"
  shows "eval_data g' env k (map_operands f d) = eval_data g env k d"
  using assms by (cases d) (simp_all add: eval_data_def)

lemma fold_dummies:
  fixes "alias" :: "cfg_value option list"
  assumes "set is \<subseteq> {..<length (cfg_values g)}" "v < length (cfg_values g)"
  shows "get_inst (fold (\<lambda>i g. if alias ! i \<noteq> None then set_data i (Const 0) g else g) is g) v =
      (if v \<in> set is \<and> alias ! v \<noteq> None then (get_inst g v)\<lparr>data := Const 0\<rparr> else get_inst g v)"
  using assms
proof (induction "is" arbitrary: g)
  case (Cons i "is")
  have "i < length (cfg_values g)" using Cons.prems by simp
  then show ?case
    using Cons.IH [of "if alias ! i \<noteq> None then set_data i (Const 0) g else g"] Cons.prems
    by (auto simp: get_set_data)
qed simp

lemma place_dummies_inst:
  assumes "v < length (cfg_values g)"
  shows "get_inst (place_dummies (aliases g) g) v =
      (if identity_target g v \<noteq> None then (get_inst g v)\<lparr>data := Const 0\<rparr> else get_inst g v)"
proof -
  have "set [0..<length (aliases g)] \<subseteq> {..<length (cfg_values g)}" "v \<in> set [0..<length (aliases g)]"
    "aliases g ! v = identity_target g v"
    using assms by (auto simp: aliases_def)
  then show ?thesis using fold_dummies [of "[0..<length (aliases g)]" g v "aliases g"] assms
    by (simp only: place_dummies_def) simp
qed

lemma place_dummies_same:
  "length (cfg_values (place_dummies (aliases g) g)) = length (cfg_values g)"
  "blocks (place_dummies (aliases g) g) = blocks g"
  "ownership_boundary_values (place_dummies (aliases g) g) = ownership_boundary_values g"
proof -
  have "length (cfg_values (fold (\<lambda>i g. if alias ! i \<noteq> None then set_data i (Const 0) g else g) is g)) = length (cfg_values g)
    \<and> blocks (fold (\<lambda>i g. if alias ! i \<noteq> None then set_data i (Const 0) g else g) is g) = blocks g
    \<and> ownership_boundary_values (fold (\<lambda>i g. if alias ! i \<noteq> None then set_data i (Const 0) g else g) is g)
      = ownership_boundary_values g" for "alias" :: "cfg_value option list" and "is"
    by (induction "is" arbitrary: g) (auto simp: set_data_def)
  then show "length (cfg_values (place_dummies (aliases g) g)) = length (cfg_values g)"
    "blocks (place_dummies (aliases g) g) = blocks g"
    "ownership_boundary_values (place_dummies (aliases g) g) = ownership_boundary_values g"
    by (simp_all add: place_dummies_def)
qed

text \<open>Operands are computed before the instruction that uses them.\<close>

definition ordered_by :: "(cfg_value \<Rightarrow> nat) \<Rightarrow> cfg \<Rightarrow> bool" where
  "ordered_by rank g \<longleftrightarrow>
     (\<forall>v < length (cfg_values g). \<forall>u \<in> set_inst_data (data (get_inst g v)). rank u < rank v)"

definition identities_specified :: "cfg \<Rightarrow> env \<Rightarrow> bool" where
  "identities_specified g env \<longleftrightarrow> (\<forall>v < length (cfg_values g). identity_target g v \<noteq> None \<longrightarrow>
     eval_data g env (ty (get_inst g v)) (data (get_inst g v)) \<noteq> Unspecified)"

lemma identity_rank:
  assumes "env_of g env" "ordered_by rank g" "v < length (cfg_values g)" "identity_target g v = Some t"
  shows "rank t < rank v"
  using assms(4)
proof (cases rule: identity_target_cases)
  case (not_not a)
  then have a: "a < length (cfg_values g)" using env_ofD(3) [OF assms(1,3)] by simp
  have "rank t < rank a" using assms(2) a not_not(2) by (simp add: ordered_by_def)
  moreover have "rank a < rank v" using assms(2,3) not_not(1) by (simp add: ordered_by_def)
  ultimately show ?thesis by simp
qed (use assms(2,3) in \<open>auto simp: ordered_by_def\<close>)

lemma resolve_sound:
  assumes "env_of g env" "operands_typed g" "ordered_by rank g" "identities_specified g env"
  shows "v < length (cfg_values g) \<Longrightarrow> \<exists>t. resolve (aliases g) v = Some t \<and> t < length (cfg_values g)
    \<and> identity_target g t = None \<and> env t = env v \<and> ty (get_inst g t) = ty (get_inst g v)"
proof (induction "rank v" arbitrary: v rule: less_induct)
  case less
  have al: "aliases g ! v = identity_target g v" using less.prems by (simp add: aliases_def)
  show ?case
  proof (cases "identity_target g v")
    case None
    then show ?thesis using less.prems al by (subst resolve.simps) simp
  next
    case (Some t)
    have t: "t < length (cfg_values g)" "ty (get_inst g t) = ty (get_inst g v)"
      using identity_in_uses [OF assms(1,2) less.prems Some] by auto
    have "eval_data g env (ty (get_inst g v)) (data (get_inst g v)) = Value (env t)"
      using identity_value [OF assms(1,2) less.prems Some] assms(4) less.prems Some
      by (simp add: identities_specified_def)
    then have "env v = env t" by (rule env_ofD(1) [OF assms(1) less.prems])
    moreover have "resolve (aliases g) v = resolve (aliases g) t"
      using al Some by (subst resolve.simps) simp
    ultimately show ?thesis
      using less.hyps [OF identity_rank [OF assms(1,3) less.prems Some] t(1)] t(2) by auto
  qed
qed

lemma rewrite_value_uses_inst:
  "v < length (cfg_values g) \<Longrightarrow>
    get_inst (rewrite_value_uses f g) v = (get_inst g v)\<lparr>data := map_operands f (data (get_inst g v))\<rparr>"
  by (simp add: rewrite_value_uses_def get_inst_def)

lemma used_values_dummies: "used_values (place_dummies (aliases g) g) \<subseteq> used_values g"
proof -
  have "set_inst_data (data inst) \<subseteq> used_values g" if m: "inst \<in> set (cfg_values (place_dummies (aliases g) g))" for inst
  proof -
    obtain v where v: "v < length (cfg_values (place_dummies (aliases g) g))"
        "cfg_values (place_dummies (aliases g) g) ! v = inst"
      using m unfolding in_set_conv_nth by blast
    then have v: "v < length (cfg_values g)" "inst = get_inst (place_dummies (aliases g) g) v"
      by (simp_all add: place_dummies_same get_inst_def)
    then have "set_inst_data (data inst) \<subseteq> set_inst_data (data (get_inst g v))" by (simp add: place_dummies_inst)
    moreover have "get_inst g v \<in> set (cfg_values g)" using v(1) by (simp add: get_inst_def)
    ultimately show ?thesis unfolding used_values_def by blast
  qed
  then show ?thesis unfolding used_values_def [of "place_dummies (aliases g) g"]
    by (auto simp: place_dummies_same) (auto simp: used_values_def)
qed

text \<open>
  On a graph whose operands are computed before their users, rewiring always ends, and it
  changes nothing observable: every use in an instruction or a terminator is re-pointed at a
  value that is equal in every environment and has the same type, every instruction that is
  not an identity still computes what it did, identities become the constant zero, and
  nothing refers to them any more.
\<close>

theorem rewire_identities_sound:
  assumes "env_of g env" "operands_typed g" "ordered_by rank g" "identities_specified g env"
    and "used_values g \<subseteq> {..<length (cfg_values g)}"
  shows "\<exists>g' f. rewire_identities g = Some g' \<and> length (cfg_values g') = length (cfg_values g)
    \<and> (\<forall>u < length (cfg_values g). env (f u) = env u \<and> ty (get_inst g (f u)) = ty (get_inst g u)
         \<and> identity_target g (f u) = None)
    \<and> (\<forall>v < length (cfg_values g). identity_target g v = None \<longrightarrow>
         data (get_inst g' v) = map_operands f (data (get_inst g v))
         \<and> eval_data g' env (ty (get_inst g' v)) (data (get_inst g' v))
           = eval_data g env (ty (get_inst g v)) (data (get_inst g v)))
    \<and> (\<forall>v < length (cfg_values g). identity_target g v \<noteq> None \<longrightarrow> data (get_inst g' v) = Const 0)
    \<and> map terminator (blocks g') = map (map_term_operands f \<circ> terminator) (blocks g)
    \<and> (\<forall>v < length (cfg_values g'). \<forall>u \<in> set_inst_data (data (get_inst g' v)). identity_target g u = None)"
proof (cases "\<forall>a \<in> set (aliases g). a = None")
  case True
  then have none: "identity_target g v = None" if "v < length (cfg_values g)" for v
    using that by (auto simp: aliases_def)
  have "rewire_identities g = Some g" using True by (simp add: rewire_identities_def)
  moreover have "map_operands (\<lambda>u. u) d = d" "map_term_operands (\<lambda>u. u) t = t"
    for d :: "cfg_value inst_data" and t :: "cfg_value terminator"
    by (simp_all add: inst_data.map_ident terminator.map_ident)
  ultimately show ?thesis using none env_ofD(3) [OF assms(1)]
    by (intro exI [of _ g] exI [of _ "\<lambda>u. u"]) (auto simp: comp_def)
next
  case False
  define f where "f u = the (resolve (aliases g) u)" for u
  define g1 where "g1 = place_dummies (aliases g) g"
  define g' where "g' = rewrite_value_uses f g1"
  have res: "resolve (aliases g) u \<noteq> None" "f u < length (cfg_values g)" "env (f u) = env u"
    "ty (get_inst g (f u)) = ty (get_inst g u)" "identity_target g (f u) = None"
    if "u < length (cfg_values g)" for u
    using resolve_sound [OF assms(1-4) that] by (auto simp: f_def)
  have "\<not> (\<exists>v \<in> used_values g1. resolve (aliases g) v = None)"
    using used_values_dummies [of g] assms(5) res(1) by (auto simp: g1_def)
  then have run: "rewire_identities g = Some g'"
    using False unfolding rewire_identities_def Let_def g1_def g'_def f_def [abs_def] by (simp only: if_False)
  have len: "length (cfg_values g') = length (cfg_values g)"
    by (simp add: g'_def g1_def rewrite_value_uses_def place_dummies_same)
  have inst: "get_inst g' v = (if identity_target g v \<noteq> None then (get_inst g v)\<lparr>data := Const 0\<rparr>
      else (get_inst g v)\<lparr>data := map_operands f (data (get_inst g v))\<rparr>)" if "v < length (cfg_values g)" for v
    using that by (simp add: g'_def g1_def rewrite_value_uses_inst place_dummies_same place_dummies_inst)
  have eval: "eval_data g' env (ty (get_inst g' v)) (data (get_inst g' v))
      = eval_data g env (ty (get_inst g v)) (data (get_inst g v))"
    if "v < length (cfg_values g)" "identity_target g v = None" for v
  proof -
    have i: "get_inst g' v = (get_inst g v)\<lparr>data := map_operands f (data (get_inst g v))\<rparr>"
      using inst [OF that(1)] that(2) by simp
    have "ty (get_inst g' (f u)) = ty (get_inst g u) \<and> env (f u) = env u" if "u \<in> set_inst_data (data (get_inst g v))" for u
    proof -
      have u: "u < length (cfg_values g)" by (rule env_ofD(3) [OF assms(1) \<open>v < _\<close> that])
      show ?thesis using inst [OF res(2) [OF u]] res(3-5) [OF u] by simp
    qed
    then show ?thesis using eval_map_operands [of "data (get_inst g v)" env f g' g] i by simp
  qed
  have uses: "identity_target g u = None" if v: "v < length (cfg_values g)" and "u \<in> set_inst_data (data (get_inst g' v))" for u v
  proof -
    have "u \<in> f ` set_inst_data (data (get_inst g v))"
    proof (cases "identity_target g v")
      case None
      then have "data (get_inst g' v) = map_operands f (data (get_inst g v))" using inst [OF v] by simp
      then show ?thesis using that(2) by (simp only: inst_data.set_map)
    next
      case (Some t)
      then have "data (get_inst g' v) = Const 0" using inst [OF v] by simp
      then show ?thesis using that(2) by simp
    qed
    then obtain w where w: "w \<in> set_inst_data (data (get_inst g v))" "u = f w" by blast
    show ?thesis unfolding w(2) by (rule res(5) [OF env_ofD(3) [OF assms(1) v w(1)]])
  qed
  have terms: "map terminator (blocks g') = map (map_term_operands f \<circ> terminator) (blocks g)"
    by (simp add: g'_def g1_def rewrite_value_uses_def place_dummies_same)
  show ?thesis
  proof (intro exI [of _ g'] exI [of _ f] conjI run len terms allI impI ballI)
    show "env (f u) = env u" "ty (get_inst g (f u)) = ty (get_inst g u)" "identity_target g (f u) = None"
      if "u < length (cfg_values g)" for u using res [OF that] by blast+
    show "data (get_inst g' v) = map_operands f (data (get_inst g v))"
      if "v < length (cfg_values g)" "identity_target g v = None" for v using inst that by simp
    show "data (get_inst g' v) = Const 0"
      if "v < length (cfg_values g)" "identity_target g v \<noteq> None" for v using inst that by simp
    show "identity_target g u = None"
      if "v < length (cfg_values g')" "u \<in> set_inst_data (data (get_inst g' v))" for u v
      using uses that unfolding len by blast
  qed (rule eval)
qed

section \<open>Strength reduction keeps meaning\<close>

text \<open>A graph that extends another: old values evaluate as before, in an environment that extends the old one.\<close>

definition refines :: "cfg \<Rightarrow> env \<Rightarrow> cfg \<Rightarrow> env \<Rightarrow> bool" where
  "refines g env g' env' \<longleftrightarrow> env_of g' env' \<and> operands_typed g'
     \<and> length (cfg_values g) \<le> length (cfg_values g')
     \<and> (\<forall>v < length (cfg_values g). env' v = env v \<and> ty (get_inst g' v) = ty (get_inst g v)
          \<and> eval_data g' env' (ty (get_inst g' v)) (data (get_inst g' v))
            = eval_data g env (ty (get_inst g v)) (data (get_inst g v)))"

lemma refines_trans:
  assumes "refines g env g1 env1" "refines g1 env1 g2 env2"
  shows "refines g env g2 env2"
proof -
  have "v < length (cfg_values g1)" if "v < length (cfg_values g)" for v
    using assms(1) that by (simp add: refines_def)
  then have "env2 v = env v \<and> ty (get_inst g2 v) = ty (get_inst g v)
      \<and> eval_data g2 env2 (ty (get_inst g2 v)) (data (get_inst g2 v))
        = eval_data g env (ty (get_inst g v)) (data (get_inst g v))" if "v < length (cfg_values g)" for v
    using assms that unfolding refines_def by metis
  then show ?thesis using assms unfolding refines_def by auto
qed

text \<open>The constant that an instruction got when it was reduced: its operand beyond the old values.\<close>

definition new_operand :: "nat \<Rightarrow> cfg \<Rightarrow> cfg_value \<Rightarrow> cfg_value list" where
  "new_operand n g v =
     (case data (get_inst g v) of
        Shr a c \<Rightarrow> if n \<le> c then [c] else []
      | BitAnd a c \<Rightarrow> if n \<le> c then [c] else []
      | _ \<Rightarrow> [])"

lemma new_operand_old: "\<forall>u \<in> set_inst_data (data (get_inst g v)). u < n \<Longrightarrow> new_operand n g v = []"
  by (cases "data (get_inst g v)") (auto simp: new_operand_def)

lemma add_inst_eq:
  "length (cfg_values g) < max_cfg_entities \<Longrightarrow>
    add_inst i g = (length (cfg_values g), g\<lparr>cfg_values := cfg_values g @ [i]\<rparr>)"
  by (simp add: add_inst_def checked_owner_index_def)

text \<open>An instruction replaced by a computation of the same outcome on one appended constant.\<close>

lemma append_const_refines:
  fixes g :: cfg and sp :: span
  assumes "env_of g env" "operands_typed g" "v < length (cfg_values g)" "ty (get_inst g v) = k"
    and "integer_semantics k = Some it" "canonical_image it w" "n < length (cfg_values g)" "ty (get_inst g n) = k"
    and "d = Shr n (length (cfg_values g)) \<or> d = BitAnd n (length (cfg_values g))"
    and "\<And>g' env'. env' n = env n \<Longrightarrow> env' (length (cfg_values g)) = RInt w
          \<Longrightarrow> eval_data g' env' k d = eval_data g env k (data (get_inst g v))"
  defines "g1 \<equiv> g\<lparr>cfg_values := cfg_values g @ [\<lparr>data = Const w, ty = k, inst_span = sp\<rparr>]\<rparr>"
  defines "env' \<equiv> env(length (cfg_values g) := RInt w)"
  shows "refines g env (set_data v d g1) env'"
proof -
  let ?g' = "set_data v d g1" and ?c = "length (cfg_values g)"
  have len: "length (cfg_values ?g') = Suc ?c" by (simp add: g1_def)
  have inst: "get_inst ?g' u = (if u = v then (get_inst g v)\<lparr>data := d\<rparr> else if u < ?c then get_inst g u
      else \<lparr>data = Const w, ty = k, inst_span = sp\<rparr>)" if "u < Suc ?c" for u
  proof -
    have "v < length (cfg_values g1)" using assms(3) by (simp add: g1_def)
    then show ?thesis using that assms(3) by (auto simp: get_set_data) (auto simp: g1_def get_inst_def nth_append)
  qed
  have tys: "ty (get_inst ?g' u) = ty (get_inst g u)" if "u < ?c" for u using inst [of u] that by simp
  have env: "env' u = env u" if "u < ?c" for u using that by (simp add: env'_def)
  have map_id: "map_operands (\<lambda>u. u) x = x" for x :: "cfg_value inst_data" by (rule inst_data.map_ident)
  have eval: "eval_data ?g' env' (ty (get_inst ?g' u)) (data (get_inst ?g' u))
      = eval_data g env (ty (get_inst g u)) (data (get_inst g u))" if "u < ?c" for u
  proof (cases "u = v")
    case True
    then show ?thesis using inst [of v] assms(3,4,7) assms(10) [of env' ?g'] by (simp add: env'_def)
  next
    case False
    have same: "data (get_inst ?g' u) = data (get_inst g u)" using inst [of u] that False by simp
    have u_env: "eval_data ?g' env' k' (data (get_inst g u)) = eval_data ?g' env k' (data (get_inst g u))" for k'
    proof -
      have e: "env' x = env x" if "x \<in> set_inst_data (data (get_inst g u))" for x
        using env_ofD(3) [OF assms(1) \<open>u < ?c\<close> that] env by blast
      show ?thesis using e by (cases "data (get_inst g u)") (simp_all add: eval_data_def)
    qed
    have "eval_data ?g' env k' (data (get_inst g u)) = eval_data g env k' (data (get_inst g u))" for k'
      using eval_map_operands [of "data (get_inst g u)" env "\<lambda>x. x" ?g' g] tys env_ofD(3) [OF assms(1) that]
      by (simp add: map_id)
    then show ?thesis using same u_env tys [OF that] by simp
  qed
  have uses: "x < Suc ?c" if "u < Suc ?c" "x \<in> set_inst_data (data (get_inst ?g' u))" for u x
    using that inst [OF that(1)] assms(7,9) env_ofD(3) [OF assms(1)]
    by (auto split: if_splits intro: less_SucI)
  have lnot: "\<exists>c. env' x = RBool c" if "u < Suc ?c" "data (get_inst ?g' u) = LogicalNot x" for u x
  proof -
    have u: "u < ?c" "data (get_inst g u) = LogicalNot x"
      using that inst [OF that(1)] assms(9) by (auto split: if_splits)
    then have "x < ?c" using env_ofD(3) [OF assms(1) u(1)] by simp
    then show ?thesis using env_ofD(4) [OF assms(1) u] env by simp
  qed
  have vals: "env' u = x" if "u < Suc ?c" "eval_data ?g' env' (ty (get_inst ?g' u)) (data (get_inst ?g' u)) = Value x" for u x
  proof (cases "u < ?c")
    case True
    then show ?thesis using that eval env env_ofD(1) [OF assms(1) True] by simp
  next
    case False
    then show ?thesis using that inst [OF that(1)] assms(3) by (simp add: env'_def)
  qed
  have canon: "\<exists>y. env' u = RInt y \<and> canonical_image it' y"
    if "u < Suc ?c" "integer_semantics (ty (get_inst ?g' u)) = Some it'" for u it'
  proof (cases "u < ?c")
    case True
    then show ?thesis using that tys env env_ofD(2) [OF assms(1) True] by simp
  next
    case False
    then show ?thesis using that inst [OF that(1)] assms(3,5,6) by (simp add: env'_def)
  qed
  have env_of: "env_of ?g' env'"
    using vals canon uses lnot unfolding env_of_def len Let_def by (auto split: outcome.splits)
  have typed: "operands_typed ?g'" unfolding operands_typed_def len
  proof (intro allI impI ballI)
    fix u x assume u: "u < Suc ?c" and x: "x \<in> set (same_type_operands (data (get_inst ?g' u)))"
    consider "u = v" | "u \<noteq> v" "u < ?c" | "u = ?c" using u by linarith
    then show "ty (get_inst ?g' x) = ty (get_inst ?g' u)"
    proof cases
      case 1
      then have "data (get_inst ?g' u) = d" "ty (get_inst ?g' u) = k" using inst [of v] assms(3,4) by simp_all
      then have "x = n \<or> x = ?c" using x assms(9) by (auto simp: same_type_operands_def)
      then show ?thesis using 1 \<open>ty (get_inst ?g' u) = k\<close> tys [of n] assms(3,7,8) inst [of "?c"] by auto
    next
      case 2
      then have x': "x \<in> set (same_type_operands (data (get_inst g u)))" using x inst [of u] by simp
      then have "x \<in> set_inst_data (data (get_inst g u))"
        by (cases "data (get_inst g u)") (auto simp: same_type_operands_def)
      then have "x < ?c" using env_ofD(3) [OF assms(1) 2(2)] by blast
      then show ?thesis using tys 2(2) x' assms(2) by (simp add: operands_typed_def)
    next
      case 3
      then have "data (get_inst ?g' u) = Const w" using inst [of u] assms(3) by simp
      then show ?thesis using x by (simp add: same_type_operands_def)
    qed
  qed
  show ?thesis unfolding refines_def using env_of typed len env tys eval by simp
qed

text \<open>
  One instruction.  The state relates the graph being rewritten to the original one, whose first
  \<open>n\<close> values are the old ones, of which those in \<open>T\<close> have been visited.
\<close>

definition reduced :: "cfg \<Rightarrow> env \<Rightarrow> cfg_value set \<Rightarrow> cfg \<Rightarrow> env \<Rightarrow> bool" where
  "reduced g env T g' env' \<longleftrightarrow> refines g env g' env'
     \<and> (\<forall>v < length (cfg_values g). v \<notin> T \<longrightarrow> get_inst g' v = get_inst g v)
     \<and> (\<forall>v < length (cfg_values g). \<forall>u \<in> set_inst_data (data (get_inst g' v)).
          u < length (cfg_values g) \<or> new_operand (length (cfg_values g)) g' v = [u])"

lemma unsigned_semantics:
  assumes "is_unsigned k"
  obtains it where "integer_semantics k = Some it" "supported it" "\<not> is_signed it"
  using assms
  by (auto simp: is_unsigned_def integer_semantics_def is_signed_kind_def new_integer_type_def supported_def)

lemma small_canonical:
  assumes "supported it" "\<not> is_signed it" "uint w < 2 ^ bits it"
  shows "canonical_image it w"
  using canonical_image_of_int [OF assms(1), of "uint w"] assms(2,3) by (simp add: fits_alt)

lemma reduce_inst_reduces:
  fixes g :: cfg and sp :: span
  assumes "env_of g env" "operands_typed g" "v < length (cfg_values g)" "is_unsigned (ty (get_inst g v))"
    and "div_mod_shape (data (get_inst g v)) = Some (n, m, is_div)" "const_int g m = Some d"
    and "2 \<le> d" "is_power_of_two d"
  defines "w \<equiv> (if is_div then of_nat (trailing_zeros d) else d - 1)"
  defines "c \<equiv> length (cfg_values g)"
  defines "d' \<equiv> (if is_div then Shr n c else BitAnd n c)"
  defines "g1 \<equiv> g\<lparr>cfg_values := cfg_values g @ [\<lparr>data = Const w, ty = ty (get_inst g v), inst_span = sp\<rparr>]\<rparr>"
  shows "refines g env (set_data v d' g1) (env(c := RInt w))"
proof -
  define k where "k = ty (get_inst g v)"
  obtain it where it: "integer_semantics k = Some it" "supported it" "\<not> is_signed it"
    using unsigned_semantics [OF assms(4)] unfolding k_def by metis
  have shape: "data (get_inst g v) = (if is_div then Div n m else Mod n m)"
    using assms(5) by (auto simp: div_mod_shape_def split: inst_data.splits)
  have nm: "n < c" "m < c" using env_ofD(3) [OF assms(1,3)] unfolding shape c_def by auto
  have tys: "ty (get_inst g n) = k" "ty (get_inst g m) = k"
    using assms(2,3) unfolding operands_typed_def k_def by (auto simp: shape same_type_operands_def)
  obtain a where a: "env n = RInt a" "canonical_image it a"
    using env_ofD(2) [OF assms(1) nm(1) [unfolded c_def]] tys(1) it(1) by auto
  have m: "env m = RInt d" using const_int_env [OF assms(1) nm(2) [unfolded c_def] assms(6)] .
  then have d: "canonical_image it d"
    using env_ofD(2) [OF assms(1) nm(2) [unfolded c_def]] tys(2) it(1) by auto
  note p = power_of_two_word [OF assms(8)]
  define j where "j = trailing_zeros d"
  have j: "j < 64" "d = 2 ^ j" using p by (simp_all add: j_def)
  note exact = reduced_div_exact [OF it(2,3) a(2) d [unfolded j(2)] j(1)]
  show ?thesis unfolding g1_def c_def d'_def
  proof (rule append_const_refines [OF assms(1-3) refl it(1) [unfolded k_def]])
    have ud: "uint d < 2 ^ bits it" by (rule canonical_unsigned(2) [OF it(2,3) d])
    have "uint w < 2 ^ bits it"
    proof (cases is_div)
      case True
      have "uint w = int j" using True j(1) by (simp add: w_def j_def [symmetric] unsigned_of_nat take_bit_nat_eq_self)
      also have "\<dots> < 2 ^ j" by (simp add: less_exp flip: of_nat_less_iff)
      also have "\<dots> = uint d" using j by (simp add: uint_power_2)
      finally show ?thesis using ud by simp
    next
      case False
      have "uint w \<le> uint d" using assms(7) by (simp add: w_def False uint_sub_if' word_le_def)
      then show ?thesis using ud by simp
    qed
    then show "canonical_image it w" by (rule small_canonical [OF it(2,3)])
    show "n < length (cfg_values g)" "ty (get_inst g n) = ty (get_inst g v)" using nm(1) tys(1) by (simp_all add: c_def k_def)
    fix g' :: cfg and env' :: env
    assume e: "env' n = env n" "env' (length (cfg_values g)) = RInt w"
    show "eval_data g' env' (ty (get_inst g v)) (if is_div then Shr n (length (cfg_values g)) else BitAnd n (length (cfg_values g)))
        = eval_data g env (ty (get_inst g v)) (data (get_inst g v))"
      using e a(1) m it(1) exact by (simp add: shape w_def flip: k_def j_def) (simp add: j(2) )
  qed simp
qed

lemma reduced_step:
  assumes "env_of g env" "reduced g env T g1 env1" "v < length (cfg_values g)" "v \<notin> T"
    and "length (cfg_values g1) < max_cfg_entities" "reduce_inst i v (g1, ins) = (g2, ins2)"
  shows "\<exists>env2. reduced g env (insert v T) g2 env2 \<and> blocks g2 = blocks g1
    \<and> length (cfg_values g2) \<le> Suc (length (cfg_values g1))
    \<and> ins2 = ins @ map (Pair i) (new_operand (length (cfg_values g)) g2 v)
    \<and> (\<forall>u < length (cfg_values g). u \<noteq> v \<longrightarrow> get_inst g2 u = get_inst g1 u)"
proof -
  let ?n = "length (cfg_values g)"
  have inv: "refines g env g1 env1" "\<And>u. u < ?n \<Longrightarrow> u \<notin> T \<Longrightarrow> get_inst g1 u = get_inst g u"
    "\<And>x u. x < ?n \<Longrightarrow> u \<in> set_inst_data (data (get_inst g1 x)) \<Longrightarrow> u < ?n \<or> new_operand ?n g1 x = [u]"
    using assms(2) by (auto simp: reduced_def)
  have g1: "env_of g1 env1" "operands_typed g1" "?n \<le> length (cfg_values g1)"
    using inv(1) by (auto simp: refines_def)
  have v1: "v < length (cfg_values g1)" using assms(3) g1(3) by simp
  have old: "\<forall>u \<in> set_inst_data (data (get_inst g1 v)). u < ?n"
    using inv(2) [OF assms(3,4)] env_ofD(3) [OF assms(1,3)] by simp
  note step = assms(6) [unfolded reduce_inst_def prod.case Let_def]
  consider (skip) "g2 = g1" "ins2 = ins"
    | (reduce) n m is_div d where "is_unsigned (ty (get_inst g1 v))"
      "div_mod_shape (data (get_inst g1 v)) = Some (n, m, is_div)" "const_int g1 m = Some d" "2 \<le> d" "is_power_of_two d"
      "g2 = set_data v (if is_div then Shr n (length (cfg_values g1)) else BitAnd n (length (cfg_values g1)))
        (g1\<lparr>cfg_values := cfg_values g1 @ [\<lparr>data = Const (if is_div then of_nat (trailing_zeros d) else d - 1),
           ty = ty (get_inst g1 v), inst_span = inst_span (get_inst g1 v)\<rparr>]\<rparr>)"
      "ins2 = ins @ [(i, length (cfg_values g1))]"
    using step unfolding add_inst_eq [OF assms(5)]
    by (auto simp: not_less split: if_splits option.splits)
  then show ?thesis
  proof cases
    case skip
    then show ?thesis using assms(2) new_operand_old [OF old] by (intro exI [of _ env1]) (auto simp: reduced_def)
  next
    case reduce
    let ?c = "length (cfg_values g1)"
    obtain env2 where r: "refines g1 env1 g2 env2"
      using reduce_inst_reduces [OF g1(1,2) v1 reduce(1-5)] unfolding reduce(6) if_distrib [of Const] by blast
    have len: "length (cfg_values g2) = Suc ?c" by (simp add: reduce(6))
    have inst: "get_inst g2 u = (if u = v then (get_inst g1 v)\<lparr>data := if is_div then Shr n ?c else BitAnd n ?c\<rparr>
        else get_inst g1 u)" if "u < ?c" for u
      using that v1 unfolding reduce(6) by (subst get_set_data) (auto simp: get_inst_def nth_append)
    have new: "new_operand ?n g2 v = [?c]" using inst [OF v1] g1(3) by (simp add: new_operand_def)
    have n: "n < ?n"
      using reduce(2) old by (auto simp: div_mod_shape_def split: inst_data.splits)
    have "reduced g env (insert v T) g2 env2" unfolding reduced_def
    proof (intro conjI allI impI ballI)
      show "refines g env g2 env2" by (rule refines_trans [OF inv(1) r])
      show "get_inst g2 u = get_inst g u" if "u < ?n" "u \<notin> insert v T" for u
        using inst [of u] inv(2) that g1(3) by simp
      show "u < ?n \<or> new_operand ?n g2 x = [u]" if x: "x < ?n" and u: "u \<in> set_inst_data (data (get_inst g2 x))" for x u
      proof (cases "x = v")
        case True
        then show ?thesis using u new n inst [OF v1] by (auto split: if_splits)
      next
        case False
        then have "get_inst g2 x = get_inst g1 x" using inst [of x] x g1(3) by simp
        then show ?thesis using inv(3) [OF x] u by (simp add: new_operand_def)
      qed
    qed
    then show ?thesis using reduce(7) new len inst g1(3) reduce(6) by (intro exI [of _ env2]) simp
  qed
qed

text \<open>Inserting back to front puts every constant immediately before its instruction.\<close>

lemma insert_back_to_front:
  assumes "n \<le> length xs" "\<And>j. length (p j) \<le> 1"
  shows "foldr (\<lambda>(i, a). insert_at i a) (concat (map (\<lambda>j. map (Pair j) (p j)) [0..<n])) xs
    = concat (map (\<lambda>j. p j @ [xs ! j]) [0..<n]) @ drop n xs"
  using assms(1)
proof (induction n arbitrary: xs)
  case (Suc n)
  consider "p n = []" | a where "p n = [a]"
    using assms(2) [of n] by (cases "p n") auto
  then show ?case
  proof cases
    case 1
    then show ?thesis using Suc by (simp add: Cons_nth_drop_Suc)
  next
    case 2
    let ?ys = "insert_at n a xs"
    have "?ys ! j = xs ! j" if "j < n" for j using that Suc.prems by (simp add: insert_at_def nth_append)
    then have map_eq: "map (\<lambda>j. p j @ [?ys ! j]) [0..<n] = map (\<lambda>j. p j @ [xs ! j]) [0..<n]" by simp
    have "n \<le> length ?ys" using Suc.prems by (simp add: insert_at_def)
    note IH = Suc.IH [OF this]
    have "drop n ?ys = a # xs ! n # drop (Suc n) xs"
      using Suc.prems by (simp add: insert_at_def Cons_nth_drop_Suc)
    then show ?thesis using IH 2 unfolding map_eq by simp
  qed
qed simp

lemma fold_insert_inst:
  "b < length (blocks g) \<Longrightarrow> fold (insert_inst b) ins g =
    g\<lparr>blocks := (blocks g)[b := (blocks g ! b)
      \<lparr>block_insts := fold (\<lambda>(i, a). insert_at i a) ins (block_insts (blocks g ! b))\<rparr>]\<rparr>"
  by (induction ins arbitrary: g) (auto simp: insert_inst_def case_prod_beta)

lemma env_of_blocks [simp]: "env_of (g\<lparr>blocks := bs\<rparr>) env = env_of g env"
  and operands_typed_blocks [simp]: "operands_typed (g\<lparr>blocks := bs\<rparr>) = operands_typed g"
  and get_inst_blocks [simp]: "get_inst (g\<lparr>blocks := bs\<rparr>) = get_inst g"
  and eval_data_blocks [simp]: "eval_data (g\<lparr>blocks := bs\<rparr>) = eval_data g"
proof -
  show inst: "get_inst (g\<lparr>blocks := bs\<rparr>) = get_inst g" by (simp add: get_inst_def fun_eq_iff)
  show eval: "eval_data (g\<lparr>blocks := bs\<rparr>) = eval_data g"
    unfolding fun_eq_iff eval_data_def inst by simp
  show "env_of (g\<lparr>blocks := bs\<rparr>) env = env_of g env" unfolding env_of_def inst eval by simp
  show "operands_typed (g\<lparr>blocks := bs\<rparr>) = operands_typed g" unfolding operands_typed_def inst by simp
qed

lemma reduced_blocks: "reduced g env T (g'\<lparr>blocks := bs\<rparr>) env' = reduced g env T g' env'"
proof -
  have "cfg_values (g'\<lparr>blocks := bs\<rparr>) = cfg_values g'" by simp
  then show ?thesis
    unfolding reduced_def refines_def new_operand_def get_inst_blocks eval_data_blocks env_of_blocks
      operands_typed_blocks by (simp only:)
qed

lemma new_operand_length: "length (new_operand n g v) \<le> 1"
  by (simp add: new_operand_def split: inst_data.splits)

lemma reduced_scan:
  assumes "env_of g env" "reduced g env T g1 env1" "set xs \<subseteq> {..<length (cfg_values g)}" "set xs \<inter> T = {}" "distinct xs"
    and "block_insts (blocks g1 ! b) = xs" "length (cfg_values g1) + length xs \<le> max_cfg_entities"
    and "m \<le> length xs"
  shows "\<exists>g2 env2. fold (\<lambda>i st. reduce_inst i (block_insts (blocks (fst st) ! b) ! i) st) [0..<m] (g1, [])
      = (g2, concat (map (\<lambda>j. map (Pair j) (new_operand (length (cfg_values g)) g2 (xs ! j))) [0..<m]))
    \<and> reduced g env (set (take m xs) \<union> T) g2 env2 \<and> blocks g2 = blocks g1
    \<and> length (cfg_values g2) \<le> length (cfg_values g1) + m
    \<and> (\<forall>u < length (cfg_values g). u \<notin> set (take m xs) \<longrightarrow> get_inst g2 u = get_inst g1 u)"
  using assms(8)
proof (induction m)
  case 0
  then show ?case using assms(2) by (intro exI [of _ g1] exI [of _ env1]) simp
next
  case (Suc m)
  let ?n = "length (cfg_values g)" and ?ops = "\<lambda>g j. map (Pair j) (new_operand (length (cfg_values g1)) g (xs ! j))"
  obtain g2 env2 where IH: "fold (\<lambda>i st. reduce_inst i (block_insts (blocks (fst st) ! b) ! i) st) [0..<m] (g1, [])
      = (g2, concat (map (\<lambda>j. map (Pair j) (new_operand ?n g2 (xs ! j))) [0..<m]))"
    "reduced g env (set (take m xs) \<union> T) g2 env2" "blocks g2 = blocks g1"
    "length (cfg_values g2) \<le> length (cfg_values g1) + m"
    "\<And>u. u < ?n \<Longrightarrow> u \<notin> set (take m xs) \<Longrightarrow> get_inst g2 u = get_inst g1 u"
    using Suc by auto
  have m: "m < length xs" using Suc.prems by simp
  then have x: "xs ! m < ?n" "xs ! m \<notin> set (take m xs) \<union> T"
  proof -
    show "xs ! m < ?n" using assms(3) nth_mem [OF m] by blast
    have "xs ! m \<notin> set (take m xs)" using assms(5) m by (auto simp: in_set_conv_nth nth_eq_iff_index_eq)
    then show "xs ! m \<notin> set (take m xs) \<union> T" using assms(4) nth_mem [OF m] by blast
  qed
  have cap: "length (cfg_values g2) < max_cfg_entities" using IH(4) assms(7) m by simp
  obtain g3 ins3 where r: "reduce_inst m (xs ! m)
      (g2, concat (map (\<lambda>j. map (Pair j) (new_operand ?n g2 (xs ! j))) [0..<m])) = (g3, ins3)"
    by fastforce
  obtain env3 where s: "reduced g env (insert (xs ! m) (set (take m xs) \<union> T)) g3 env3" "blocks g3 = blocks g2"
    "length (cfg_values g3) \<le> Suc (length (cfg_values g2))"
    "ins3 = concat (map (\<lambda>j. map (Pair j) (new_operand ?n g2 (xs ! j))) [0..<m]) @ map (Pair m) (new_operand ?n g3 (xs ! m))"
    "\<And>u. u < ?n \<Longrightarrow> u \<noteq> xs ! m \<Longrightarrow> get_inst g3 u = get_inst g2 u"
    using reduced_step [OF assms(1) IH(2) x cap r] by blast
  have same: "new_operand ?n g3 (xs ! j) = new_operand ?n g2 (xs ! j)" if "j < m" for j
  proof -
    have "xs ! j \<in> set xs" using that m by simp
    then have "xs ! j < ?n" using assms(3) by blast
    moreover have "xs ! j \<noteq> xs ! m" using that m assms(5) by (simp add: nth_eq_iff_index_eq)
    ultimately show ?thesis using s(5) by (simp add: new_operand_def)
  qed
  have "fold (\<lambda>i st. reduce_inst i (block_insts (blocks (fst st) ! b) ! i) st) [0..<Suc m] (g1, []) = (g3, ins3)"
    using IH(1,3) assms(6) r by simp
  moreover have "ins3 = concat (map (\<lambda>j. map (Pair j) (new_operand ?n g3 (xs ! j))) [0..<Suc m])"
  proof -
    have "map (\<lambda>j. map (Pair j) (new_operand ?n g3 (xs ! j))) [0..<m]
        = map (\<lambda>j. map (Pair j) (new_operand ?n g2 (xs ! j))) [0..<m]"
      by (rule map_cong [OF refl]) (simp add: same)
    note eq = this
    show ?thesis unfolding s(4) by (simp add: eq)
  qed
  moreover have "set (take (Suc m) xs) = insert (xs ! m) (set (take m xs))" using m by (simp add: take_Suc_conv_app_nth)
  ultimately show ?case using s(1-3,5) IH(3-5) x
    by (intro exI [of _ g3] exI [of _ env3]) simp
qed

lemma reduced_block:
  assumes "env_of g env" "reduced g env T g1 env1" "b < length (blocks g1)" "block_insts (blocks g1 ! b) = xs"
    and "set xs \<subseteq> {..<length (cfg_values g)}" "set xs \<inter> T = {}" "distinct xs"
    and "length (cfg_values g1) + length xs \<le> max_cfg_entities"
  shows "\<exists>env2. reduced g env (set xs \<union> T) (reduce_block b g1) env2
    \<and> blocks (reduce_block b g1) = (blocks g1)[b := (blocks g1 ! b)
        \<lparr>block_insts := concat (map (\<lambda>v. new_operand (length (cfg_values g)) (reduce_block b g1) v @ [v]) xs)\<rparr>]
    \<and> length (cfg_values (reduce_block b g1)) \<le> length (cfg_values g1) + length xs
    \<and> (\<forall>u < length (cfg_values g). u \<notin> set xs \<longrightarrow> get_inst (reduce_block b g1) u = get_inst g1 u)"
proof -
  let ?n = "length (cfg_values g)"
  let ?ins = "\<lambda>g2. concat (map (\<lambda>j. map (Pair j) (new_operand ?n g2 (xs ! j))) [0..<length xs])"
  obtain g2 env2 where s: "fold (\<lambda>i st. reduce_inst i (block_insts (blocks (fst st) ! b) ! i) st) [0..<length xs] (g1, [])
      = (g2, ?ins g2)" "reduced g env (set xs \<union> T) g2 env2" "blocks g2 = blocks g1"
    "length (cfg_values g2) \<le> length (cfg_values g1) + length xs"
    "\<And>u. u < ?n \<Longrightarrow> u \<notin> set xs \<Longrightarrow> get_inst g2 u = get_inst g1 u"
    using reduced_scan [OF assms(1,2,5-7,4,8) order_refl] by auto
  have weave: "fold (\<lambda>(i, a). insert_at i a) (rev (?ins g2)) xs
      = concat (map (\<lambda>v. new_operand ?n g2 v @ [v]) xs)"
  proof -
    have "concat (map (\<lambda>j. new_operand ?n g2 (xs ! j) @ [xs ! j]) [0..<length xs])
        = concat (map (\<lambda>v. new_operand ?n g2 v @ [v]) (map ((!) xs) [0..<length xs]))"
      by (simp add: comp_def)
    then show ?thesis
      using insert_back_to_front [OF order_refl, of "\<lambda>j. new_operand ?n g2 (xs ! j)" xs] new_operand_length
      by (simp add: foldr_conv_fold map_nth)
  qed
  have blk: "reduce_block b g1 = g2\<lparr>blocks := (blocks g1)[b := (blocks g1 ! b)
      \<lparr>block_insts := concat (map (\<lambda>v. new_operand ?n g2 v @ [v]) xs)\<rparr>]\<rparr>"
    using s(1) fold_insert_inst [of b g2 "rev (?ins g2)"] assms(3,4) s(3) weave
    by (simp add: reduce_block_def)
  have same: "new_operand ?n (reduce_block b g1) = new_operand ?n g2"
    by (simp add: blk new_operand_def fun_eq_iff)
  have "reduced g env (set xs \<union> T) (reduce_block b g1) env2"
    using s(2) unfolding blk reduced_blocks .
  then show ?thesis using s(4,5) by (intro exI [of _ env2]) (simp add: same, simp add: blk)
qed

lemma new_operand_cong: "get_inst g v = get_inst g' v \<Longrightarrow> new_operand n g v = new_operand n g' v"
  by (simp add: new_operand_def)

lemma reduced_pass:
  assumes "env_of g env" "operands_typed g" "set (concat (map block_insts (blocks g))) \<subseteq> {..<length (cfg_values g)}"
    and "distinct (concat (map block_insts (blocks g)))"
    and "length (cfg_values g) + length (concat (map block_insts (blocks g))) \<le> max_cfg_entities"
    and "m \<le> length (blocks g)"
  shows "\<exists>env'. reduced g env (set (concat (map block_insts (take m (blocks g))))) (fold reduce_block [0..<m] g) env'
    \<and> length (cfg_values (fold reduce_block [0..<m] g))
        \<le> length (cfg_values g) + length (concat (map block_insts (take m (blocks g))))
    \<and> blocks (fold reduce_block [0..<m] g)
      = map (\<lambda>b. b\<lparr>block_insts := concat (map (\<lambda>v. new_operand (length (cfg_values g)) (fold reduce_block [0..<m] g) v @ [v])
              (block_insts b))\<rparr>) (take m (blocks g)) @ drop m (blocks g)"
  using assms(6)
proof (induction m)
  case 0
  have "new_operand (length (cfg_values g)) g v = []" if "v < length (cfg_values g)" for v
    by (rule new_operand_old) (use env_ofD(3) [OF assms(1) that] in blast)
  have "reduced g env {} g env"
    using assms(1,2) env_ofD(3) [OF assms(1)] by (auto simp: reduced_def refines_def)
  then show ?case by auto
next
  case (Suc m)
  let ?n = "length (cfg_values g)" and ?g = "fold reduce_block [0..<m] g" and ?b = "blocks g ! m"
  let ?T = "set (concat (map block_insts (take m (blocks g))))" and ?xs = "block_insts ?b"
  obtain env1 where IH: "reduced g env ?T ?g env1"
    "length (cfg_values ?g) \<le> ?n + length (concat (map block_insts (take m (blocks g))))"
    "blocks ?g = map (\<lambda>b. b\<lparr>block_insts := concat (map (\<lambda>v. new_operand ?n ?g v @ [v]) (block_insts b))\<rparr>) (take m (blocks g))
      @ drop m (blocks g)"
    using Suc by auto
  have m: "m < length (blocks g)" using Suc.prems by simp
  have parts: "blocks g = take m (blocks g) @ ?b # drop (Suc m) (blocks g)" using m by (simp add: id_take_nth_drop)
  have "distinct (concat (map block_insts (take m (blocks g) @ ?b # drop (Suc m) (blocks g))))"
    using assms(4) parts by argo
  then have xs: "distinct ?xs" "set ?xs \<inter> ?T = {}" by auto
  have sub: "set ?xs \<subseteq> {..<?n}" using assms(3) m by (auto dest: nth_mem)
  have tk: "take (Suc m) (blocks g) = take m (blocks g) @ [?b]" using m by (simp add: take_Suc_conv_app_nth)
  have "length (concat (map block_insts (take m (blocks g)))) + length ?xs \<le> length (concat (map block_insts (blocks g)))"
    by (subst (3) parts) simp
  then have cap: "length (cfg_values ?g) + length ?xs \<le> max_cfg_entities" using IH(2) assms(5) by linarith
  have bm: "m < length (blocks ?g)" "blocks ?g ! m = ?b" using IH(3) m by (simp_all add: nth_append)
  obtain env2 where s: "reduced g env (set ?xs \<union> ?T) (reduce_block m ?g) env2"
    "blocks (reduce_block m ?g) = (blocks ?g)[m := ?b
        \<lparr>block_insts := concat (map (\<lambda>v. new_operand ?n (reduce_block m ?g) v @ [v]) ?xs)\<rparr>]"
    "length (cfg_values (reduce_block m ?g)) \<le> length (cfg_values ?g) + length ?xs"
    "\<And>u. u < ?n \<Longrightarrow> u \<notin> set ?xs \<Longrightarrow> get_inst (reduce_block m ?g) u = get_inst ?g u"
    using reduced_block [OF assms(1) IH(1) bm(1) _ sub xs(2,1) cap] bm(2) by auto
  have old: "map (\<lambda>v. new_operand ?n (reduce_block m ?g) v @ [v]) (block_insts b)
      = map (\<lambda>v. new_operand ?n ?g v @ [v]) (block_insts b)" if "b \<in> set (take m (blocks g))" for b
  proof (rule map_cong [OF refl])
    fix v assume v: "v \<in> set (block_insts b)"
    then have "v \<in> ?T" "v < ?n" using that assms(3) by (auto dest: in_set_takeD)
    then have "get_inst (reduce_block m ?g) v = get_inst ?g v" using s(4) xs(2) by blast
    then show "new_operand ?n (reduce_block m ?g) v @ [v] = new_operand ?n ?g v @ [v]"
      by (simp only: new_operand_cong [of "reduce_block m ?g" v ?g])
  qed
  have "blocks (reduce_block m ?g)
      = map (\<lambda>b. b\<lparr>block_insts := concat (map (\<lambda>v. new_operand ?n (reduce_block m ?g) v @ [v]) (block_insts b))\<rparr>)
          (take (Suc m) (blocks g)) @ drop (Suc m) (blocks g)"
  proof -
    have "map (\<lambda>b. b\<lparr>block_insts := concat (map (\<lambda>v. new_operand ?n ?g v @ [v]) (block_insts b))\<rparr>) (take m (blocks g))
        = map (\<lambda>b. b\<lparr>block_insts := concat (map (\<lambda>v. new_operand ?n (reduce_block m ?g) v @ [v]) (block_insts b))\<rparr>)
            (take m (blocks g))"
      by (rule map_cong [OF refl]) (simp only: old)
    note kept = this
    have "drop m (blocks g) = ?b # drop (Suc m) (blocks g)" using m by (simp add: Cons_nth_drop_Suc)
    then show ?thesis using m unfolding s(2) IH(3) kept tk by (simp add: list_update_append)
  qed
  then show ?case using s(1,3) IH(2) by (intro exI [of _ env2]) (simp add: tk Un_commute)
qed

text \<open>
  C17. Strength reduction of a graph whose instructions are placed once keeps the meaning of
  every old value, traps included; every block is the old block with at most one new constant
  immediately before the instruction that got it as its operand, and no other new value is
  used; terminators are unchanged.
\<close>

theorem reduce_unsigned_div_mod_sound:
  assumes "env_of g env" "operands_typed g" "set (concat (map block_insts (blocks g))) \<subseteq> {..<length (cfg_values g)}"
    and "distinct (concat (map block_insts (blocks g)))"
    and "length (cfg_values g) + length (concat (map block_insts (blocks g))) \<le> max_cfg_entities"
  shows "\<exists>env'. refines g env (reduce_unsigned_div_mod g) env'
    \<and> map block_insts (blocks (reduce_unsigned_div_mod g))
      = map (\<lambda>b. concat (map (\<lambda>v. new_operand (length (cfg_values g)) (reduce_unsigned_div_mod g) v @ [v])
              (block_insts b))) (blocks g)
    \<and> map terminator (blocks (reduce_unsigned_div_mod g)) = map terminator (blocks g)
    \<and> (\<forall>v < length (cfg_values g). \<forall>u \<in> set_inst_data (data (get_inst (reduce_unsigned_div_mod g) v)).
         u < length (cfg_values g) \<or> new_operand (length (cfg_values g)) (reduce_unsigned_div_mod g) v = [u])"
  using reduced_pass [OF assms order_refl]
  by (auto simp: reduce_unsigned_div_mod_def reduced_def comp_def)

section \<open>Witnesses\<close>

text \<open>\<open>x / 4\<close> and \<open>x + 0\<close> on an unsigned parameter.\<close>

definition peep_cfg :: cfg where
  "peep_cfg =
     \<lparr>blocks = [\<lparr>block_params = [], block_insts = [0, 1, 2, 3, 4], terminator = Return (Some 4)\<rparr>], entry = 0,
      cfg_values =
        [\<lparr>data = Param 0, ty = U8, inst_span = span0\<rparr>, \<lparr>data = Const 4, ty = U8, inst_span = span0\<rparr>,
         \<lparr>data = Div 0 1, ty = U8, inst_span = span0\<rparr>, \<lparr>data = Const 0, ty = U8, inst_span = span0\<rparr>,
         \<lparr>data = Add 2 3, ty = U8, inst_span = span0\<rparr>],
      ownership_boundary_values = {}, capacity_exceeded = None\<rparr>"

definition peep_env :: env where
  "peep_env v = (if v = 0 then RInt 21 else if v = 1 then RInt 4 else if v = 3 then RInt 0 else RInt 5)"

lemma peep_kernels:
  "integer_semantics U8 = Some \<lparr>bits = 8, is_signed = False\<rparr>"
  "checked_div_u64 \<lparr>bits = 8, is_signed = False\<rparr> 21 4 = Some 5"
  "checked_add_u64 \<lparr>bits = 8, is_signed = False\<rparr> 5 0 = Some 5"
  "canonical_image \<lparr>bits = 8, is_signed = False\<rparr> 21" "canonical_image \<lparr>bits = 8, is_signed = False\<rparr> 4"
  "canonical_image \<lparr>bits = 8, is_signed = False\<rparr> 0" "canonical_image \<lparr>bits = 8, is_signed = False\<rparr> 5"
  by code_simp+

lemma peep_values: "v < length (cfg_values peep_cfg) \<longleftrightarrow> v = 0 \<or> v = 1 \<or> v = 2 \<or> v = 3 \<or> v = 4"
  by (simp add: peep_cfg_def) arith

lemma peep_insts:
  "get_inst peep_cfg 0 = \<lparr>data = Param 0, ty = U8, inst_span = span0\<rparr>"
  "get_inst peep_cfg 1 = \<lparr>data = Const 4, ty = U8, inst_span = span0\<rparr>"
  "get_inst peep_cfg 2 = \<lparr>data = Div 0 1, ty = U8, inst_span = span0\<rparr>"
  "get_inst peep_cfg 3 = \<lparr>data = Const 0, ty = U8, inst_span = span0\<rparr>"
  "get_inst peep_cfg 4 = \<lparr>data = Add 2 3, ty = U8, inst_span = span0\<rparr>"
  by (simp_all add: peep_cfg_def get_inst_def)

lemma peep_hyps: "env_of peep_cfg peep_env" "operands_typed peep_cfg" "ordered_by id peep_cfg"
  "identities_specified peep_cfg peep_env"
proof -
  have param: "eval_data g env k (Param i) = Unspecified" for g env k i by (simp add: eval_data_def)
  have all: "(\<forall>v < length (cfg_values peep_cfg). P v) \<longleftrightarrow> P 0 \<and> P 1 \<and> P 2 \<and> P 3 \<and> P 4" for P
    unfolding peep_values by blast
  note defs = peep_env_def peep_kernels peep_insts [simplified] param
  show "env_of peep_cfg peep_env" unfolding env_of_def all Let_def
    by (simp add: peep_values defs)
  show "operands_typed peep_cfg" unfolding operands_typed_def all
    by (simp add: same_type_operands_def defs)
  show "ordered_by id peep_cfg" unfolding ordered_by_def all by (simp add: defs)
  show "identities_specified peep_cfg peep_env" unfolding identities_specified_def all
    by (simp add: identity_target_def const_int_def is_float_def defs)
qed

lemma rewire_identities_sound_witness:
  "\<exists>g'. rewire_identities peep_cfg = Some g' \<and> data (get_inst g' 4) = Const 0
    \<and> (\<forall>v < length (cfg_values g'). 4 \<notin> set_inst_data (data (get_inst g' v)))"
proof -
  have used: "used_values peep_cfg \<subseteq> {..<length (cfg_values peep_cfg)}"
    by (auto simp: used_values_def peep_cfg_def)
  have four: "4 < length (cfg_values peep_cfg)" by (simp add: peep_values)
  have t4: "identity_target peep_cfg 4 \<noteq> None"
    by (simp add: identity_target_def const_int_def is_float_def peep_insts [simplified])
  obtain g' where g': "rewire_identities peep_cfg = Some g'"
    "\<forall>v < length (cfg_values peep_cfg). identity_target peep_cfg v \<noteq> None \<longrightarrow> data (get_inst g' v) = Const 0"
    "\<forall>v < length (cfg_values g'). \<forall>u \<in> set_inst_data (data (get_inst g' v)). identity_target peep_cfg u = None"
    using rewire_identities_sound [OF peep_hyps used] by (elim exE conjE) (rule that)
  have "data (get_inst g' 4) = Const 0" by (rule g'(2) [rule_format, OF four t4])
  moreover have "\<forall>v < length (cfg_values g'). 4 \<notin> set_inst_data (data (get_inst g' v))"
    using g'(3) t4 by metis
  ultimately show ?thesis using g'(1) by (intro exI [of _ g'] conjI)
qed

lemma reduce_unsigned_div_mod_sound_witness:
  "\<exists>env'. refines peep_cfg peep_env (reduce_unsigned_div_mod peep_cfg) env'
    \<and> map terminator (blocks (reduce_unsigned_div_mod peep_cfg)) = [Return (Some 4)]"
proof -
  have placed: "set (concat (map block_insts (blocks peep_cfg))) \<subseteq> {..<length (cfg_values peep_cfg)}"
    "distinct (concat (map block_insts (blocks peep_cfg)))"
    "length (cfg_values peep_cfg) + length (concat (map block_insts (blocks peep_cfg))) \<le> max_cfg_entities"
    by (auto simp: peep_cfg_def max_cfg_entities_def)
  have "map terminator (blocks peep_cfg) = [Return (Some 4)]" by (simp add: peep_cfg_def)
  then show ?thesis using reduce_unsigned_div_mod_sound [OF peep_hyps(1,2) placed] by auto
qed

end
