(* ===== verification/Runtime_Numbers.thy ===== *)
theory Runtime_Numbers
  imports Rue_Prelude
begin

text \<open>
  Decimal numbers in the language runtime: the parsing intrinsics (\<open>rue-runtime/src/parse.rs\<close>)
  and the integer formatters (\<open>rue-runtime/src/string.rs\<close>).  A byte string is a list of
  bytes; an \<open>i64\<close> is an \<open>int\<close> with the wrap-around of its operations written out, a
  \<open>u64\<close> a word.  The pointers of the C interface are the lists they point to.
\<close>

type_synonym bytes = "u8 list"

section \<open>Parsing\<close>

abbreviation i64_min :: int where "i64_min \<equiv> - (2 ^ 63)"
abbreviation i64_max :: int where "i64_max \<equiv> 2 ^ 63 - 1"

definition u64_max :: u64 where "u64_max = 18446744073709551615"

definition u32_max :: u32 where "u32_max = 4294967295"

definition is_ascii_digit :: "u8 \<Rightarrow> bool" where
  "is_ascii_digit b \<longleftrightarrow> 48 \<le> b \<and> b \<le> 57"

definition digit_i64 :: "bool \<Rightarrow> int \<Rightarrow> u8 \<Rightarrow> int option" where
  "digit_i64 is_negative result byte =
     (if \<not> is_ascii_digit byte then None
      else
        let digit = uint (byte - 48) in
        if is_negative then
          if result < i64_min sdiv 10 then None
          else
            let result = wrap_i64 (result * 10) in
            if result < wrap_i64 (i64_min + digit) then None else Some (wrap_i64 (result - digit))
        else
          if result > i64_max sdiv 10 then None
          else
            let result = wrap_i64 (result * 10) in
            if result > wrap_i64 (i64_max - digit) then None else Some (wrap_i64 (result + digit)))"

fun digits_i64 :: "bool \<Rightarrow> int \<Rightarrow> bytes \<Rightarrow> int option" where
  "digits_i64 is_negative result [] = Some result"
| "digits_i64 is_negative result (byte # rest) =
     (case digit_i64 is_negative result byte of
        None \<Rightarrow> None
      | Some result' \<Rightarrow> digits_i64 is_negative result' rest)"

definition parse_i64_checked :: "bytes \<Rightarrow> int option" where
  "parse_i64_checked bytes =
     (case bytes of
        [] \<Rightarrow> None
      | b # rest \<Rightarrow>
          if b = 45 then (if rest = [] then None else digits_i64 True 0 rest)
          else digits_i64 False 0 (b # rest))"

definition digit_u64 :: "u64 \<Rightarrow> u8 \<Rightarrow> u64 option" where
  "digit_u64 result byte =
     (if \<not> is_ascii_digit byte then None
      else
        let digit = ucast (byte - 48) in
        if result > u64_max div 10 then None
        else
          let result = result * 10 in
          if result > u64_max - digit then None else Some (result + digit))"

fun digits_u64 :: "u64 \<Rightarrow> bytes \<Rightarrow> u64 option" where
  "digits_u64 result [] = Some result"
| "digits_u64 result (byte # rest) =
     (case digit_u64 result byte of None \<Rightarrow> None | Some result' \<Rightarrow> digits_u64 result' rest)"

definition parse_u64_checked :: "bytes \<Rightarrow> u64 option" where
  "parse_u64_checked bytes =
     (case bytes of [] \<Rightarrow> None | b # _ \<Rightarrow> if b = 45 then None else digits_u64 0 bytes)"

definition parse_i32_checked :: "bytes \<Rightarrow> int option" where
  "parse_i32_checked bytes =
     (case parse_i64_checked bytes of
        None \<Rightarrow> None
      | Some v \<Rightarrow> if v < - (2 ^ 31) \<or> v > 2 ^ 31 - 1 then None else Some v)"

definition parse_u32_checked :: "bytes \<Rightarrow> u32 option" where
  "parse_u32_checked bytes =
     (case parse_u64_checked bytes of
        None \<Rightarrow> None
      | Some v \<Rightarrow> if v > ucast u32_max then None else Some (ucast v))"

record option_int_result =
  disc :: u64
  int_value :: u64

definition write_parse_result :: "u64 option \<Rightarrow> u64 \<Rightarrow> u64 \<Rightarrow> option_int_result" where
  "write_parse_result parsed some_disc none_disc =
     (case parsed of
        Some v \<Rightarrow> \<lparr>disc = some_disc, int_value = v\<rparr>
      | None \<Rightarrow> \<lparr>disc = none_disc, int_value = 0\<rparr>)"

definition rue_parse_i32 :: "bytes \<Rightarrow> u64 \<Rightarrow> u64 \<Rightarrow> option_int_result" where
  "rue_parse_i32 bytes = write_parse_result (map_option word_of_int (parse_i32_checked bytes))"

definition rue_parse_i64 :: "bytes \<Rightarrow> u64 \<Rightarrow> u64 \<Rightarrow> option_int_result" where
  "rue_parse_i64 bytes = write_parse_result (map_option word_of_int (parse_i64_checked bytes))"

definition rue_parse_u32 :: "bytes \<Rightarrow> u64 \<Rightarrow> u64 \<Rightarrow> option_int_result" where
  "rue_parse_u32 bytes = write_parse_result (map_option ucast (parse_u32_checked bytes))"

definition rue_parse_u64 :: "bytes \<Rightarrow> u64 \<Rightarrow> u64 \<Rightarrow> option_int_result" where
  "rue_parse_u64 bytes = write_parse_result (parse_u64_checked bytes)"

section \<open>Formatting\<close>

text \<open>The digit loop, filling the buffer from the back; \<open>None\<close> is a write before its start.\<close>

function fill_digits :: "u64 \<Rightarrow> nat \<Rightarrow> bytes \<Rightarrow> (nat \<times> bytes) option" where
  "fill_digits mag i buf =
     (if mag > 0 then
        if i = 0 then None
        else fill_digits (mag div 10) (i - 1) (buf[i - 1 := 48 + ucast (mag mod 10)])
      else Some (i, buf))"
  by pat_completeness auto
termination by (relation "measure (\<lambda>(mag, i, buf). unat mag)") (auto simp: unat_div word_gt_0 unat_gt_0)

declare fill_digits.simps [simp del]

definition put_byte :: "u8 \<Rightarrow> nat \<times> bytes \<Rightarrow> (nat \<times> bytes) option" where
  "put_byte b st = (case st of (i, buf) \<Rightarrow> if i = 0 then None else Some (i - 1, buf[i - 1 := b]))"

definition format_magnitude :: "u64 \<Rightarrow> (nat \<times> bytes) option" where
  "format_magnitude mag =
     (let buf = replicate 20 0 in
      if mag = 0 then put_byte 48 (length buf, buf) else fill_digits mag (length buf) buf)"

record strbuf =
  contents :: bytes
  cap :: u64

definition string_min_capacity :: u64 where
  "string_min_capacity = 16"

text \<open>
  The result of a formatter: the fresh buffer, when the heap has one of the size that is asked
  for; \<open>None\<close> is the allocation trap.  The heap is a parameter here.
\<close>

definition publish_owned_strbuf :: "(u64 \<Rightarrow> u64 \<Rightarrow> bool) \<Rightarrow> bytes \<Rightarrow> strbuf option" where
  "publish_owned_strbuf heap_alloc bytes =
     (let len = of_nat (length bytes);
          new_cap = (if len < string_min_capacity then string_min_capacity else len)
      in if heap_alloc new_cap 1 then Some \<lparr>contents = bytes, cap = new_cap\<rparr> else None)"

definition rue_to_string_unsigned :: "(u64 \<Rightarrow> u64 \<Rightarrow> bool) \<Rightarrow> u64 \<Rightarrow> strbuf option" where
  "rue_to_string_unsigned heap_alloc n =
     (case format_magnitude n of
        None \<Rightarrow> None
      | Some (i, buf) \<Rightarrow> publish_owned_strbuf heap_alloc (drop i buf))"

definition rue_to_string :: "(u64 \<Rightarrow> u64 \<Rightarrow> bool) \<Rightarrow> int \<Rightarrow> strbuf option" where
  "rue_to_string heap_alloc n =
     (let negative = n < 0;
          mag = word_of_int n;
          mag = (if negative then - mag else mag)
      in case Option.bind (format_magnitude mag) (\<lambda>st. if negative then put_byte 45 st else Some st) of
        None \<Rightarrow> None
      | Some (i, buf) \<Rightarrow> publish_owned_strbuf heap_alloc (drop i buf))"

section \<open>Decimal notation\<close>

fun decimal :: "nat \<Rightarrow> bytes" where
  "decimal n = (if n < 10 then [48 + of_nat n] else decimal (n div 10) @ [48 + of_nat (n mod 10)])"

declare decimal.simps [simp del]

definition decimal_value :: "bytes \<Rightarrow> nat" where
  "decimal_value = foldl (\<lambda>n b. 10 * n + unat (b - 48)) 0"

definition decimal_of_int :: "int \<Rightarrow> bytes" where
  "decimal_of_int n = (if n < 0 then 45 # decimal (nat (- n)) else decimal (nat n))"

section \<open>What the parsers compute\<close>

definition dec_from :: "nat \<Rightarrow> bytes \<Rightarrow> nat" where
  "dec_from = foldl (\<lambda>n b. 10 * n + unat (b - 48))"

lemma dec_from_simps [simp]:
  "dec_from m [] = m" "dec_from m (b # bs) = dec_from (10 * m + unat (b - 48)) bs"
  by (simp_all add: dec_from_def)

lemma dec_from_ge: "m \<le> dec_from m bs"
proof (induction bs arbitrary: m)
  case (Cons b bs)
  have "m \<le> 10 * m + unat (b - 48)" by simp
  also have "\<dots> \<le> dec_from (10 * m + unat (b - 48)) bs" by (rule Cons)
  finally show ?case by simp
qed simp

lemma decimal_value_dec_from: "decimal_value = dec_from 0"
  by (simp add: decimal_value_def dec_from_def)

lemma digit_value:
  assumes "is_ascii_digit b"
  obtains d where "d \<le> 9" "unat (b - 48) = d" "uint (b - 48) = int d"
proof
  have "48 \<le> b" "unat b \<le> 57"
    using assms by (simp_all add: is_ascii_digit_def word_le_nat_alt)
  then show "unat (b - 48) \<le> 9" by (simp add: unat_sub)
qed simp_all

lemma wrap_i64_id: "i64_min \<le> x \<Longrightarrow> x \<le> i64_max \<Longrightarrow> wrap_i64 x = x"
  by (simp add: wrap_i64_def)

lemma i64_tenths: "i64_min sdiv 10 = - 922337203685477580" "i64_max sdiv 10 = 922337203685477580"
  by (simp_all add: signed_divide_int_def)

lemma digit_i64_negative:
  assumes "m \<le> 2 ^ 63"
  shows "digit_i64 True (- int m) b =
     (if is_ascii_digit b \<and> 10 * m + unat (b - 48) \<le> 2 ^ 63
      then Some (- int (10 * m + unat (b - 48))) else None)"
proof (cases "is_ascii_digit b")
  case True
  obtain d where d: "d \<le> 9" "unat (b - 48) = d" "uint (b - 48) = int d"
    using digit_value [OF True] .
  have w: "wrap_i64 (- int m * 10) = - int m * 10" "wrap_i64 (i64_min + int d) = i64_min + int d"
    if "m \<le> 922337203685477580" using d(1) that by (intro wrap_i64_id; simp)+
  have w3: "wrap_i64 (- int m * 10 - int d) = - int m * 10 - int d" if "10 * m + d \<le> 2 ^ 63"
    using that by (intro wrap_i64_id; simp)
  have unfold: "digit_i64 True (- int m) b = (if - int m < - 922337203685477580 then None
      else if wrap_i64 (- int m * 10) < wrap_i64 (i64_min + int d) then None
      else Some (wrap_i64 (wrap_i64 (- int m * 10) - int d)))"
    using True by (simp add: digit_i64_def Let_def i64_tenths d)
  consider "922337203685477580 < m" | "m \<le> 922337203685477580" "2 ^ 63 < 10 * m + d"
    | "m \<le> 922337203685477580" "10 * m + d \<le> 2 ^ 63" by linarith
  then show ?thesis
    by cases (use True w w3 in \<open>simp_all only: unfold d if_True simp_thms\<close>, simp_all)
qed (simp add: digit_i64_def)

lemma digit_i64_positive:
  assumes "m < 2 ^ 63"
  shows "digit_i64 False (int m) b =
     (if is_ascii_digit b \<and> 10 * m + unat (b - 48) < 2 ^ 63
      then Some (int (10 * m + unat (b - 48))) else None)"
proof (cases "is_ascii_digit b")
  case True
  obtain d where d: "d \<le> 9" "unat (b - 48) = d" "uint (b - 48) = int d"
    using digit_value [OF True] .
  have w: "wrap_i64 (int m * 10) = int m * 10" "wrap_i64 (i64_max - int d) = i64_max - int d"
    if "m \<le> 922337203685477580" using d(1) that by (intro wrap_i64_id; simp)+
  have w3: "wrap_i64 (int m * 10 + int d) = int m * 10 + int d" if "10 * m + d < 2 ^ 63"
    using that by (intro wrap_i64_id; simp)
  have unfold: "digit_i64 False (int m) b = (if int m > 922337203685477580 then None
      else if wrap_i64 (int m * 10) > wrap_i64 (i64_max - int d) then None
      else Some (wrap_i64 (wrap_i64 (int m * 10) + int d)))"
    using True by (simp add: digit_i64_def Let_def i64_tenths d)
  consider "922337203685477580 < m" | "m \<le> 922337203685477580" "2 ^ 63 \<le> 10 * m + d"
    | "m \<le> 922337203685477580" "10 * m + d < 2 ^ 63" by linarith
  then show ?thesis
    by cases (use True w w3 in \<open>simp_all only: unfold d if_True simp_thms\<close>, simp_all)
qed (simp add: digit_i64_def)

lemma digits_i64_negative:
  "m \<le> 2 ^ 63 \<Longrightarrow> digits_i64 True (- int m) bs =
     (if (\<forall>b \<in> set bs. is_ascii_digit b) \<and> dec_from m bs \<le> 2 ^ 63 then Some (- int (dec_from m bs)) else None)"
proof (induction bs arbitrary: m)
  case (Cons b bs)
  let ?m = "10 * m + unat (b - 48)"
  show ?case
  proof (cases "is_ascii_digit b \<and> ?m \<le> 2 ^ 63")
    case True
    then show ?thesis using Cons.IH [of ?m] Cons.prems by (simp add: digit_i64_negative)
  next
    case False
    then show ?thesis using Cons.prems dec_from_ge [of ?m bs] by (auto simp: digit_i64_negative)
  qed
qed simp

lemma digits_i64_positive:
  "m < 2 ^ 63 \<Longrightarrow> digits_i64 False (int m) bs =
     (if (\<forall>b \<in> set bs. is_ascii_digit b) \<and> dec_from m bs < 2 ^ 63 then Some (int (dec_from m bs)) else None)"
proof (induction bs arbitrary: m)
  case (Cons b bs)
  let ?m = "10 * m + unat (b - 48)"
  show ?case
  proof (cases "is_ascii_digit b \<and> ?m < 2 ^ 63")
    case True
    then show ?thesis using Cons.IH [of ?m] Cons.prems by (simp add: digit_i64_positive)
  next
    case False
    then show ?thesis using Cons.prems dec_from_ge [of ?m bs] by (auto simp: digit_i64_positive)
  qed
qed simp

lemma unat_nat64: "m < 2 ^ 64 \<Longrightarrow> unat (of_nat m :: u64) = m"
  by (simp add: unat_of_nat)

lemma digit_u64_nat:
  assumes "m < 2 ^ 64"
  shows "digit_u64 (of_nat m) b =
     (if is_ascii_digit b \<and> 10 * m + unat (b - 48) < 2 ^ 64
      then Some (of_nat (10 * m + unat (b - 48))) else None)"
proof (cases "is_ascii_digit b")
  case True
  obtain d where d: "d \<le> 9" "unat (b - 48) = d" "uint (b - 48) = int d"
    using digit_value [OF True] .
  have dw: "ucast (b - 48) = (of_nat d :: u64)" by (rule word_unat_eq_iff [THEN iffD2]) (use d in \<open>simp add: unsigned_ucast_eq take_bit_nat_eq_self unat_of_nat\<close>)
  have tenth: "of_nat m > u64_max div 10 \<longleftrightarrow> 1844674407370955161 < m"
    using assms by (simp add: u64_max_def word_less_nat_alt unat_nat64)
  have high: "of_nat m * 10 > u64_max - of_nat d \<longleftrightarrow> 2 ^ 64 \<le> 10 * m + d" if "m \<le> 1844674407370955161"
  proof -
    have "unat (of_nat m * 10 :: u64) = 10 * m"
      using that unat_nat64 [of "10 * m"] by (simp add: mult.commute)
    moreover have "unat (u64_max - of_nat d) = 18446744073709551615 - d"
      using d(1) by (subst unat_sub) (simp_all add: u64_max_def word_le_nat_alt unat_nat64)
    ultimately show ?thesis using d(1) that by (simp add: word_less_nat_alt) arith
  qed
  have sum: "of_nat m * 10 + of_nat d = (of_nat (10 * m + d) :: u64)" by (simp add: mult.commute)
  consider "1844674407370955161 < m" | "m \<le> 1844674407370955161" "2 ^ 64 \<le> 10 * m + d"
    | "m \<le> 1844674407370955161" "10 * m + d < 2 ^ 64" by linarith
  then show ?thesis
    by cases (use True tenth high sum in \<open>simp_all add: digit_u64_def Let_def dw d(2)\<close>)
qed (simp add: digit_u64_def)

lemma digits_u64_nat:
  "m < 2 ^ 64 \<Longrightarrow> digits_u64 (of_nat m) bs =
     (if (\<forall>b \<in> set bs. is_ascii_digit b) \<and> dec_from m bs < 2 ^ 64 then Some (of_nat (dec_from m bs)) else None)"
proof (induction bs arbitrary: m)
  case (Cons b bs)
  let ?m = "10 * m + unat (b - 48)"
  show ?case
  proof (cases "is_ascii_digit b \<and> ?m < 2 ^ 64")
    case True
    then show ?thesis using Cons.IH [of ?m] Cons.prems unfolding digits_u64.simps digit_u64_nat [OF Cons.prems] by simp
  next
    case False
    then show ?thesis using dec_from_ge [of ?m bs] unfolding digits_u64.simps digit_u64_nat [OF Cons.prems] by auto
  qed
qed simp

text \<open>The value of an optionally signed decimal number.\<close>

definition signed_value :: "bytes \<Rightarrow> int option" where
  "signed_value bs =
     (case bs of
        [] \<Rightarrow> None
      | b # rest \<Rightarrow>
          if b = 45 then if rest \<noteq> [] \<and> (\<forall>c \<in> set rest. is_ascii_digit c) then Some (- int (decimal_value rest)) else None
          else if \<forall>c \<in> set bs. is_ascii_digit c then Some (int (decimal_value bs)) else None)"

definition unsigned_value :: "bytes \<Rightarrow> nat option" where
  "unsigned_value bs = (if bs \<noteq> [] \<and> (\<forall>c \<in> set bs. is_ascii_digit c) then Some (decimal_value bs) else None)"

definition within :: "int \<Rightarrow> int \<Rightarrow> int option \<Rightarrow> int option" where
  "within lo hi r = Option.bind r (\<lambda>v. if lo \<le> v \<and> v \<le> hi then Some v else None)"

lemma parse_i64_within: "parse_i64_checked bs = within i64_min i64_max (signed_value bs)"
proof (cases bs)
  case (Cons b rest)
  have neg: "digits_i64 True 0 rest =
      (if (\<forall>c \<in> set rest. is_ascii_digit c) \<and> decimal_value rest \<le> 2 ^ 63 then Some (- int (decimal_value rest)) else None)"
    using digits_i64_negative [of 0 rest] by (simp add: decimal_value_dec_from)
  have pos: "digits_i64 False 0 bs =
      (if (\<forall>c \<in> set bs. is_ascii_digit c) \<and> decimal_value bs < 2 ^ 63 then Some (int (decimal_value bs)) else None)"
    using digits_i64_positive [of 0 bs] by (simp add: decimal_value_dec_from)
  show ?thesis
  proof (cases "b = 45")
    case True
    then show ?thesis using Cons neg by (auto simp: parse_i64_checked_def signed_value_def within_def)
  next
    case False
    then show ?thesis using Cons pos by (auto simp: parse_i64_checked_def signed_value_def within_def)
  qed
qed (simp add: parse_i64_checked_def signed_value_def within_def)

lemma parse_u64_value:
  "parse_u64_checked bs = Option.bind (unsigned_value bs) (\<lambda>v. if v < 2 ^ 64 then Some (of_nat v) else None)"
proof (cases bs)
  case (Cons b rest)
  have "\<not> is_ascii_digit 45" by (simp add: is_ascii_digit_def)
  then show ?thesis using Cons digits_u64_nat [of 0 bs]
    by (auto simp: parse_u64_checked_def unsigned_value_def decimal_value_dec_from)
qed (simp add: parse_u64_checked_def unsigned_value_def)

text \<open>
  C33. The parsers accept exactly the decimal numbers of their type: the signed ones an optional
  minus followed by at least one digit, the unsigned ones digits only, each exactly when the
  value fits; everything else, and every value out of range, yields none, and no intermediate
  overflow changes a result.
\<close>

theorem parse_exact:
  "parse_i64_checked bs = within i64_min i64_max (signed_value bs)
   \<and> parse_i32_checked bs = within (- (2 ^ 31)) (2 ^ 31 - 1) (signed_value bs)
   \<and> map_option uint (parse_u64_checked bs) = within 0 (2 ^ 64 - 1) (map_option int (unsigned_value bs))
   \<and> map_option uint (parse_u32_checked bs) = within 0 (2 ^ 32 - 1) (map_option int (unsigned_value bs))"
proof (intro conjI)
  show "parse_i64_checked bs = within i64_min i64_max (signed_value bs)" by (rule parse_i64_within)
  show "parse_i32_checked bs = within (- (2 ^ 31)) (2 ^ 31 - 1) (signed_value bs)"
    by (cases "signed_value bs") (auto simp: parse_i32_checked_def parse_i64_within within_def)
  have uv: "uint (of_nat v :: u64) = int v" if "v < 2 ^ 64" for v
    using that by (simp add: uint_nat unat_nat64)
  show "map_option uint (parse_u64_checked bs) = within 0 (2 ^ 64 - 1) (map_option int (unsigned_value bs))"
    by (cases "unsigned_value bs") (auto simp: parse_u64_value within_def uv)
  have "uint (ucast (of_nat v :: u64) :: u32) = int v" if "v < 2 ^ 32" for v
  proof -
    have "unat (ucast (of_nat v :: u64) :: u32) = v" using that by (simp add: unsigned_ucast_eq take_bit_nat_eq_self unat_nat64)
    then show ?thesis by (simp add: uint_nat)
  qed
  moreover have "of_nat v > (ucast u32_max :: u64) \<longleftrightarrow> 2 ^ 32 \<le> v" if "v < 2 ^ 64" for v
    using that by (simp add: word_less_nat_alt unat_nat64 u32_max_def) arith
  ultimately show "map_option uint (parse_u32_checked bs) = within 0 (2 ^ 32 - 1) (map_option int (unsigned_value bs))"
    by (cases "unsigned_value bs") (auto simp: parse_u32_checked_def parse_u64_value within_def)
qed

lemma parse_exact_examples:
  "parse_i64_checked [45, 49, 55] = Some (-17) \<and> parse_u64_checked [45, 49] = None \<and> parse_i64_checked [] = None
   \<and> parse_i32_checked [50, 49, 52, 55, 52, 56, 51, 54, 52, 56] = None"
  by code_simp

section \<open>What the formatters produce\<close>

definition digits0 :: "nat \<Rightarrow> bytes" where
  "digits0 n = (if n = 0 then [] else decimal n)"

lemma digits0_step: "0 < n \<Longrightarrow> digits0 n = digits0 (n div 10) @ [48 + of_nat (n mod 10)]"
  by (subst (2) digits0_def) (auto simp: digits0_def decimal.simps [of n])

lemma digits0_zero [simp]: "digits0 0 = []"
  by (simp add: digits0_def)

lemma digits0_length: "n < 10 ^ k \<Longrightarrow> length (digits0 n) \<le> k"
proof (induction k arbitrary: n)
  case (Suc k)
  show ?case
  proof (cases "n = 0")
    case False
    have "n div 10 < 10 ^ k" using Suc.prems by (simp add: less_mult_imp_div_less mult.commute)
    then show ?thesis using Suc.IH False by (simp add: digits0_step)
  qed simp
qed simp

lemma word_digit:
  assumes "n < 2 ^ 64"
  shows "(of_nat n :: u64) div 10 = of_nat (n div 10)" "48 + ucast ((of_nat n :: u64) mod 10) = (48 + of_nat (n mod 10) :: u8)"
proof -
  show "(of_nat n :: u64) div 10 = of_nat (n div 10)"
    by (rule word_unat_eq_iff [THEN iffD2]) (use assms in \<open>simp add: unat_div unat_nat64\<close>)
  have "ucast ((of_nat n :: u64) mod 10) = (of_nat (n mod 10) :: u8)"
  proof (rule word_unat_eq_iff [THEN iffD2])
    have "n mod 10 < 256" by (rule less_le_trans [of _ 10]) simp_all
    then show "unat (ucast ((of_nat n :: u64) mod 10) :: u8) = unat (of_nat (n mod 10) :: u8)"
      using assms by (simp add: unsigned_ucast_eq unat_mod unat_nat64 unat_of_nat take_bit_nat_eq_self)
  qed
  then show "48 + ucast ((of_nat n :: u64) mod 10) = (48 + of_nat (n mod 10) :: u8)" by simp
qed

lemma fill_digits_result:
  "n < 2 ^ 64 \<Longrightarrow> length (digits0 n) \<le> i \<Longrightarrow> i \<le> length buf \<Longrightarrow>
    \<exists>buf'. fill_digits (of_nat n) i buf = Some (i - length (digits0 n), buf') \<and> length buf' = length buf
      \<and> drop (i - length (digits0 n)) buf' = digits0 n @ drop i buf"
proof (induction n arbitrary: i buf rule: less_induct)
  case (less n)
  show ?case
  proof (cases "n = 0")
    case True
    then show ?thesis by (subst fill_digits.simps) simp
  next
    case False
    let ?c = "48 + of_nat (n mod 10) :: u8"
    have pos: "0 < (of_nat n :: u64)" using less.prems(1) False by (simp add: word_less_nat_alt unat_nat64)
    have i: "0 < i" "length (digits0 (n div 10)) \<le> i - 1" using less.prems(2) False by (auto simp: digits0_step)
    obtain buf' where b: "fill_digits (of_nat (n div 10)) (i - 1) (buf[i - 1 := ?c])
        = Some (i - 1 - length (digits0 (n div 10)), buf')" "length buf' = length buf"
      "drop (i - 1 - length (digits0 (n div 10))) buf' = digits0 (n div 10) @ drop (i - 1) (buf[i - 1 := ?c])"
    proof -
      have small: "n div 10 < n" "n div 10 < 2 ^ 64" "i - 1 \<le> length (buf[i - 1 := ?c])"
        using False less.prems by auto
      show ?thesis using less.IH [OF small(1,2) i(2) small(3)] that by auto
    qed
    have "drop (i - 1) (buf[i - 1 := ?c]) = ?c # drop i buf"
      using i(1) less.prems(3) Cons_nth_drop_Suc [of "i - 1" "buf[i - 1 := ?c]", symmetric] by simp
    then show ?thesis using b i(1) pos False less.prems(1)
      by (subst fill_digits.simps) (simp add: word_digit digits0_step)
  qed
qed

lemma format_magnitude_result:
  assumes "n < 2 ^ 64"
  shows "\<exists>i buf. format_magnitude (of_nat n) = Some (i, buf) \<and> length buf = 20 \<and> drop i buf = decimal n
    \<and> (n < 10 ^ 19 \<longrightarrow> 0 < i)"
proof (cases "n = 0")
  case True
  then show ?thesis
    by (simp add: format_magnitude_def put_byte_def decimal.simps [of 0]) (simp add: numeral_eq_Suc)
next
  case False
  have "(of_nat n :: u64) \<noteq> 0" using assms False by (simp add: word_unat_eq_iff unat_nat64)
  have "n < 10 ^ 20" by (rule less_le_trans [OF assms]) simp
  then have "length (digits0 n) \<le> 20" by (rule digits0_length)
  then obtain buf' where "fill_digits (of_nat n) 20 (replicate 20 0) = Some (20 - length (digits0 n), buf')"
    "length buf' = 20" "drop (20 - length (digits0 n)) buf' = digits0 n"
    using fill_digits_result [OF assms, of 20 "replicate 20 0"] by auto
  moreover have "n < 10 ^ 19 \<longrightarrow> length (digits0 n) \<le> 19" using digits0_length by blast
  ultimately show ?thesis using False \<open>of_nat n \<noteq> 0\<close> by (auto simp: format_magnitude_def digits0_def)
qed

lemma decimal_digits:
  "(\<forall>b \<in> set (decimal n). is_ascii_digit b) \<and> decimal n \<noteq> [] \<and> dec_from 0 (decimal n) = n"
proof (induction n rule: less_induct)
  case (less n)
  have digit: "is_ascii_digit (48 + of_nat d)" "unat (of_nat d :: u8) = d" if "d < 10" for d :: nat
  proof -
    have "d \<in> {0, 1, 2, 3, 4, 5, 6, 7, 8, 9}" using that by auto
    then show "is_ascii_digit (48 + of_nat d)" "unat (of_nat d :: u8) = d"
      by (auto simp: is_ascii_digit_def)
  qed
  have app: "dec_from m (xs @ [b]) = 10 * dec_from m xs + unat (b - 48)" for m xs b
    by (induction xs arbitrary: m) simp_all
  show ?case
  proof (cases "n < 10")
    case True
    then show ?thesis using digit by (subst (1 2 3) decimal.simps) simp
  next
    case False
    have "n mod 10 < 10" by simp
    moreover have "n div 10 < n" using False by simp
    ultimately show ?thesis using less.IH [of "n div 10"] digit [of "n mod 10"] False
      by (subst (1 2 3) decimal.simps) (auto simp: app)
  qed
qed

lemma publish_result:
  assumes "\<And>c. heap_alloc c 1" "length bytes \<le> 20"
  shows "\<exists>sb. publish_owned_strbuf heap_alloc bytes = Some sb \<and> contents sb = bytes \<and> length bytes \<le> unat (cap sb)"
proof -
  have "unat (of_nat (length bytes) :: u64) = length bytes" using assms(2) by (intro unat_nat64) simp
  then show ?thesis using assms(1)
    by (auto simp: publish_owned_strbuf_def Let_def string_min_capacity_def word_less_nat_alt)
qed

lemma not_minus_digit: "is_ascii_digit b \<Longrightarrow> b \<noteq> 45"
  by (auto simp: is_ascii_digit_def)

lemma decimal_first: "\<exists>b rest. decimal n = b # rest \<and> b \<noteq> 45"
  using decimal_digits [of n] not_minus_digit by (cases "decimal n") auto

lemma parse_decimal_u64: "n < 2 ^ 64 \<Longrightarrow> parse_u64_checked (decimal n) = Some (of_nat n)"
  using decimal_digits [of n] by (simp add: parse_u64_value unsigned_value_def decimal_value_dec_from)

lemma parse_decimal_i64: "i64_min \<le> n \<Longrightarrow> n \<le> i64_max \<Longrightarrow> parse_i64_checked (decimal_of_int n) = Some n"
proof -
  assume n: "i64_min \<le> n" "n \<le> i64_max"
  have "signed_value (decimal_of_int n) = Some n"
  proof (cases "n < 0")
    case True
    then show ?thesis using decimal_digits [of "nat (- n)"]
      by (simp add: decimal_of_int_def signed_value_def decimal_value_dec_from)
  next
    case False
    obtain b rest where b: "decimal (nat n) = b # rest" "b \<noteq> 45" using decimal_first by blast
    then show ?thesis using decimal_digits [of "nat n"] False
      by (simp add: decimal_of_int_def signed_value_def decimal_value_dec_from)
  qed
  with n show ?thesis by (simp add: parse_i64_within within_def)
qed

lemma drop_put: "0 < i \<Longrightarrow> i \<le> length buf \<Longrightarrow> drop (i - 1) (buf[i - 1 := b]) = b # drop i buf"
  using Cons_nth_drop_Suc [of "i - 1" "buf[i - 1 := b]", symmetric] by simp

lemma to_string_bytes:
  assumes "i64_min \<le> n" "n \<le> i64_max"
  shows "\<exists>i buf. Option.bind (format_magnitude (if n < 0 then - word_of_int n else word_of_int n))
      (\<lambda>st. if n < 0 then put_byte 45 st else Some st) = Some (i, buf)
    \<and> drop i buf = decimal_of_int n \<and> length (drop i buf) \<le> 20"
proof -
  define m where "m = nat \<bar>n\<bar>"
  have "m \<le> 2 ^ 63" using assms by (simp add: m_def)
  then have m: "m < 2 ^ 64" "m < 10 ^ 19" by simp_all
  have mag: "(if n < 0 then - word_of_int n else word_of_int n) = (of_nat m :: u64)"
    by (cases "n < 0") (simp_all add: m_def)
  obtain i buf where f: "format_magnitude (of_nat m) = Some (i, buf)" "length buf = 20" "drop i buf = decimal m" "0 < i"
    using format_magnitude_result [OF m(1)] m(2) by blast
  have "i < 20" using decimal_first [of m] f(2,3) by (metis drop_all leI list.distinct(1))
  show ?thesis
  proof (cases "n < 0")
    case True
    then have "drop (i - 1) (buf[i - 1 := 45]) = decimal_of_int n"
      using drop_put [OF f(4), of buf 45] f(2,3) \<open>i < 20\<close> by (simp add: decimal_of_int_def m_def)
    then show ?thesis using True f mag by (simp add: put_byte_def)
  next
    case False
    then show ?thesis using f mag by (simp add: decimal_of_int_def m_def)
  qed
qed

text \<open>
  C35. Formatting an integer never runs out of its twenty-byte buffer, produces its decimal
  notation in a buffer at least as large, and parsing that notation gives the integer back;
  for every \<open>i64\<close>, the least one included, and every \<open>u64\<close>, when the heap has memory.
\<close>

theorem to_string_roundtrip:
  assumes "i64_min \<le> n" "n \<le> i64_max" "\<And>c. heap_alloc c 1"
  shows "(\<exists>sb. rue_to_string heap_alloc n = Some sb \<and> contents sb = decimal_of_int n
      \<and> length (contents sb) \<le> unat (cap sb) \<and> parse_i64_checked (contents sb) = Some n)
    \<and> (\<exists>sb. rue_to_string_unsigned heap_alloc w = Some sb \<and> contents sb = decimal (unat w)
      \<and> length (contents sb) \<le> unat (cap sb) \<and> parse_u64_checked (contents sb) = Some w)"
proof
  obtain i buf where b: "Option.bind (format_magnitude (if n < 0 then - word_of_int n else word_of_int n))
      (\<lambda>st. if n < 0 then put_byte 45 st else Some st) = Some (i, buf)"
    "drop i buf = decimal_of_int n" "length (drop i buf) \<le> 20"
    using to_string_bytes [OF assms(1,2)] by blast
  show "\<exists>sb. rue_to_string heap_alloc n = Some sb \<and> contents sb = decimal_of_int n
      \<and> length (contents sb) \<le> unat (cap sb) \<and> parse_i64_checked (contents sb) = Some n"
    using publish_result [of heap_alloc "drop i buf", OF assms(3) b(3)] b parse_decimal_i64 [OF assms(1,2)]
    by (auto simp: rue_to_string_def Let_def)
  have w: "unat w < 2 ^ 64" using unsigned_less [of w, where 'a = nat] by simp
  obtain i buf where u: "format_magnitude w = Some (i, buf)" "length buf = 20" "drop i buf = decimal (unat w)"
    using format_magnitude_result [OF w] by auto
  then have "length (drop i buf) \<le> 20" unfolding length_drop by simp
  then show "\<exists>sb. rue_to_string_unsigned heap_alloc w = Some sb \<and> contents sb = decimal (unat w)
      \<and> length (contents sb) \<le> unat (cap sb) \<and> parse_u64_checked (contents sb) = Some w"
    using publish_result [of heap_alloc "drop i buf", OF assms(3)] u parse_decimal_u64 [OF w]
    by (auto simp: rue_to_string_unsigned_def)
qed

lemma to_string_roundtrip_witness:
  "\<exists>sb. rue_to_string (\<lambda>_ _. True) (- (2 ^ 63)) = Some sb \<and> parse_i64_checked (contents sb) = Some (- (2 ^ 63))"
  using to_string_roundtrip [of "- (2 ^ 63)" "\<lambda>_ _. True" 0] by auto

end
