(* ===== verification/Runtime_Utf8.thy ===== *)
theory Runtime_Utf8
  imports Rue_Prelude
begin

text \<open>
  UTF-8 in the language runtime: the table of well-formed sequences
  (\<open>rue-runtime/src/utf8.rs\<close>), the strict and the lossy decoder
  (\<open>rue-runtime/src/string.rs\<close>) and the validation of the test channel
  (\<open>rue-runtime/src/test_channel.rs\<close>).  A buffer is a list of bytes; the invalid-UTF-8 trap is
  \<open>None\<close>.
\<close>

type_synonym bytes = "u8 list"

section \<open>The table\<close>

record utf8_lead =
  width :: nat
  first_continuation_min :: u8
  first_continuation_max :: u8
  scalar_prefix :: u32

definition lead_row :: "u8 \<Rightarrow> (nat \<times> u8 \<times> u8) option" where
  "lead_row byte =
     (if 0xC2 \<le> byte \<and> byte \<le> 0xDF then Some (2, 0x80, 0xBF)
      else if byte = 0xE0 then Some (3, 0xA0, 0xBF)
      else if 0xE1 \<le> byte \<and> byte \<le> 0xEC then Some (3, 0x80, 0xBF)
      else if byte = 0xED then Some (3, 0x80, 0x9F)
      else if 0xEE \<le> byte \<and> byte \<le> 0xEF then Some (3, 0x80, 0xBF)
      else if byte = 0xF0 then Some (4, 0x90, 0xBF)
      else if 0xF1 \<le> byte \<and> byte \<le> 0xF3 then Some (4, 0x80, 0xBF)
      else if byte = 0xF4 then Some (4, 0x80, 0x8F)
      else None)"

definition lead :: "u8 \<Rightarrow> utf8_lead option" where
  "lead byte = map_option (\<lambda>(w, lo, hi).
     \<lparr>width = w, first_continuation_min = lo, first_continuation_max = hi,
      scalar_prefix = ucast (byte AND drop_bit w 0x7F)\<rparr>) (lead_row byte)"

definition accepts_first_continuation :: "utf8_lead \<Rightarrow> u8 \<Rightarrow> bool" where
  "accepts_first_continuation l byte \<longleftrightarrow> first_continuation_min l \<le> byte \<and> byte \<le> first_continuation_max l"

definition is_continuation :: "u8 \<Rightarrow> bool" where
  "is_continuation byte \<longleftrightarrow> byte AND 0xC0 = 0x80"

section \<open>Decoding\<close>

definition add_bits :: "u32 \<Rightarrow> u8 \<Rightarrow> u32" where
  "add_bits cp b = push_bit 6 cp OR (ucast b AND 0x3F)"

function decode_rest :: "bytes \<Rightarrow> nat \<Rightarrow> nat \<Rightarrow> nat \<Rightarrow> u32 \<Rightarrow> u32 option" where
  "decode_rest buf i w k cp =
     (if k < w then
        let b = buf ! (i + k) in
        if \<not> is_continuation b then None else decode_rest buf i w (k + 1) (add_bits cp b)
      else Some cp)"
  by pat_completeness auto
termination by (relation "measure (\<lambda>(buf, i, w, k, cp). w - k)") auto

definition decode_utf8_at :: "bytes \<Rightarrow> nat \<Rightarrow> (u32 \<times> nat) option" where
  "decode_utf8_at buf i =
     (if i \<ge> length buf then None
      else
        let b0 = buf ! i in
        if b0 < 0x80 then Some (ucast b0, 1)
        else case lead b0 of
          None \<Rightarrow> None
        | Some l \<Rightarrow>
            if i + width l > length buf then None
            else
              let b1 = buf ! (i + 1) in
              if \<not> accepts_first_continuation l b1 then None
              else map_option (\<lambda>cp. (cp, width l)) (decode_rest buf i (width l) 2 (add_bits (scalar_prefix l) b1)))"

definition str_char_scalar :: "bytes \<Rightarrow> nat \<Rightarrow> u32 option" where
  "str_char_scalar buf offset = map_option fst (decode_utf8_at buf offset)"

definition str_char_next :: "bytes \<Rightarrow> nat \<Rightarrow> nat option" where
  "str_char_next buf offset = map_option (\<lambda>(_, w). offset + w) (decode_utf8_at buf offset)"

definition replacement_char :: u32 where
  "replacement_char = 0xFFFD"

function lossy_rest :: "bytes \<Rightarrow> nat \<Rightarrow> nat \<Rightarrow> nat \<Rightarrow> u32 \<Rightarrow> u32 \<times> nat" where
  "lossy_rest buf i w consumed cp =
     (if consumed < w then
        if i + consumed \<ge> length buf then (replacement_char, consumed)
        else
          let b = buf ! (i + consumed) in
          if \<not> is_continuation b then (replacement_char, consumed)
          else lossy_rest buf i w (consumed + 1) (add_bits cp b)
      else (cp, w))"
  by pat_completeness auto
termination by (relation "measure (\<lambda>(buf, i, w, consumed, cp). w - consumed)") auto

definition decode_utf8_lossy_at :: "bytes \<Rightarrow> nat \<Rightarrow> u32 \<times> nat" where
  "decode_utf8_lossy_at buf i =
     (if i \<ge> length buf then (replacement_char, 1)
      else
        let b0 = buf ! i in
        if b0 < 0x80 then (ucast b0, 1)
        else case lead b0 of
          None \<Rightarrow> (replacement_char, 1)
        | Some l \<Rightarrow>
            if i + 1 \<ge> length buf then (replacement_char, 1)
            else
              let b1 = buf ! (i + 1) in
              if \<not> accepts_first_continuation l b1 then (replacement_char, 1)
              else lossy_rest buf i (width l) 2 (add_bits (scalar_prefix l) b1))"

definition str_char_scalar_lossy :: "bytes \<Rightarrow> nat \<Rightarrow> u32" where
  "str_char_scalar_lossy buf offset = fst (decode_utf8_lossy_at buf offset)"

definition str_char_next_lossy :: "bytes \<Rightarrow> nat \<Rightarrow> nat" where
  "str_char_next_lossy buf offset = offset + snd (decode_utf8_lossy_at buf offset)"

section \<open>Validation\<close>

function trail_ok :: "bytes \<Rightarrow> nat \<Rightarrow> nat \<Rightarrow> bool" where
  "trail_ok bs w index =
     (if index < w then if \<not> is_continuation (bs ! index) then False else trail_ok bs w (index + 1) else True)"
  by pat_completeness auto
termination by (relation "measure (\<lambda>(bs, w, index). w - index)") auto

definition utf8_sequence_width :: "bytes \<Rightarrow> nat option" where
  "utf8_sequence_width bs =
     (case bs of
        [] \<Rightarrow> None
      | b0 # _ \<Rightarrow>
          (case lead b0 of
             None \<Rightarrow> None
           | Some l \<Rightarrow>
               if length bs < width l \<or> \<not> accepts_first_continuation l (bs ! 1) then None
               else if trail_ok bs (width l) 2 then Some (width l) else None))"

declare decode_rest.simps [simp del] lossy_rest.simps [simp del] trail_ok.simps [simp del]

section \<open>The encoding form\<close>

text \<open>Unicode's definition of UTF-8: which code points are scalar values, and their encoding.\<close>

definition is_scalar :: "nat \<Rightarrow> bool" where
  "is_scalar c \<longleftrightarrow> c < 0xD800 \<or> 0xE000 \<le> c \<and> c < 0x110000"

definition encode :: "nat \<Rightarrow> bytes" where
  "encode c =
     (if c < 0x80 then [of_nat c]
      else if c < 0x800 then [of_nat (0xC0 + c div 64), of_nat (0x80 + c mod 64)]
      else if c < 0x10000 then
        [of_nat (0xE0 + c div 4096), of_nat (0x80 + c div 64 mod 64), of_nat (0x80 + c mod 64)]
      else
        [of_nat (0xF0 + c div 262144), of_nat (0x80 + c div 4096 mod 64),
         of_nat (0x80 + c div 64 mod 64), of_nat (0x80 + c mod 64)])"

section \<open>Bytes as numbers\<close>

lemma all_bytesI:
  assumes "list_all (\<lambda>n. P (of_nat n)) [0..<256]"
  shows "P (b :: u8)"
proof -
  have "unat b < 256" using unsigned_less [of b, where 'a = nat] by simp
  then have "unat b \<in> set [0..<256]" by simp
  with assms [unfolded list_all_iff] have "P (of_nat (unat b))" by (rule bspec)
  then show ?thesis by simp
qed

lemma is_continuation_iff: "is_continuation b \<longleftrightarrow> 128 \<le> unat b \<and> unat b \<le> 191"
  by (rule all_bytesI [of "\<lambda>b. is_continuation b = (128 \<le> unat b \<and> unat b \<le> 191)"]) code_simp

text \<open>The rows of the table, by the value of the lead byte.\<close>

definition row :: "nat \<Rightarrow> nat \<Rightarrow> nat \<Rightarrow> nat \<Rightarrow> utf8_lead \<Rightarrow> bool" where
  "row w lo hi p l \<longleftrightarrow> width l = w \<and> unat (first_continuation_min l) = lo \<and> unat (first_continuation_max l) = hi
     \<and> unat (scalar_prefix l) = p"

definition row_of :: "nat \<Rightarrow> utf8_lead \<Rightarrow> bool" where
  "row_of n l \<longleftrightarrow>
     194 \<le> n \<and> n \<le> 223 \<and> row 2 128 191 (n - 192) l \<or> n = 224 \<and> row 3 160 191 0 l
     \<or> 225 \<le> n \<and> n \<le> 236 \<and> row 3 128 191 (n - 224) l \<or> n = 237 \<and> row 3 128 159 13 l
     \<or> 238 \<le> n \<and> n \<le> 239 \<and> row 3 128 191 (n - 224) l \<or> n = 240 \<and> row 4 144 191 0 l
     \<or> 241 \<le> n \<and> n \<le> 243 \<and> row 4 128 191 (n - 240) l \<or> n = 244 \<and> row 4 128 143 4 l"

lemma lead_rows:
  "case lead b of None \<Rightarrow> unat b < 194 \<or> 244 < unat b | Some l \<Rightarrow> row_of (unat b) l"
  by (rule all_bytesI [of "\<lambda>b. case lead b of None \<Rightarrow> unat b < 194 \<or> 244 < unat b | Some l \<Rightarrow> row_of (unat b) l"])
    code_simp

lemma lead_Some: "lead b = Some l \<Longrightarrow> row_of (unat b) l"
  using lead_rows [of b] by simp

lemma lead_exists: "194 \<le> unat b \<Longrightarrow> unat b \<le> 244 \<Longrightarrow> \<exists>l. lead b = Some l \<and> row_of (unat b) l"
  using lead_rows [of b] by (cases "lead b") auto

lemma lead_width: "lead b = Some l \<Longrightarrow> width l = 2 \<or> width l = 3 \<or> width l = 4"
  using lead_Some [of b l] by (auto simp: row_of_def row_def)

lemma accepts_iff:
  "row w lo hi p l \<Longrightarrow> accepts_first_continuation l b \<longleftrightarrow> lo \<le> unat b \<and> unat b \<le> hi"
  by (auto simp: row_def accepts_first_continuation_def word_le_nat_alt)

lemma add_bits_nat:
  assumes "unat cp < 2 ^ 26"
  shows "unat (add_bits cp b) = unat cp * 64 + unat b mod 64"
proof -
  have low: "ucast b AND 0x3F = (of_nat (unat b mod 64) :: u32)"
    by (rule all_bytesI [of "\<lambda>b. ucast b AND 0x3F = (of_nat (unat b mod 64) :: u32)"]) code_simp
  have shift: "unat (push_bit 6 cp) = unat cp * 64"
    using assms by (simp add: push_bit_eq_mult unat_word_ariths)
  have m: "(0x3F :: u32) = mask 6" by (simp add: mask_eq_exp_minus_1)
  have "push_bit 6 cp AND (ucast b AND 0x3F) = 0"
    unfolding m by (intro bit_word_eqI) (auto simp: bit_simps)
  then have "add_bits cp b = push_bit 6 cp + (ucast b AND 0x3F)"
    by (simp add: add_bits_def disjunctive_add_eq_or)
  moreover have small: "unat b mod 64 < 64" by simp
  then have "unat (of_nat (unat b mod 64) :: u32) = unat b mod 64" by (simp add: unat_of_nat)
  moreover have "unat cp * 64 + unat b mod 64 < 2 ^ 32"
  proof -
    have "unat cp * 64 + 64 \<le> 2 ^ 26 * 64" using assms by simp
    then show ?thesis using small by simp
  qed
  ultimately show ?thesis using shift
    by (simp only: low unat_word_ariths) simp
qed

lemma decode_rest_eqs:
  "decode_rest buf i 2 2 cp = Some cp"
  "decode_rest buf i 3 2 cp =
     (if is_continuation (buf ! (i + 2)) then Some (add_bits cp (buf ! (i + 2))) else None)"
  "decode_rest buf i 4 2 cp =
     (if is_continuation (buf ! (i + 2)) \<and> is_continuation (buf ! (i + 3))
      then Some (add_bits (add_bits cp (buf ! (i + 2))) (buf ! (i + 3))) else None)"
  by (simp_all add: decode_rest.simps Let_def numeral_eq_Suc)

lemma take_drop_nth:
  assumes "i + 2 \<le> length buf"
  shows "take 2 (drop i buf) = [buf ! i, buf ! (i + 1)]"
    "i + 3 \<le> length buf \<Longrightarrow> take 3 (drop i buf) = [buf ! i, buf ! (i + 1), buf ! (i + 2)]"
    "i + 4 \<le> length buf \<Longrightarrow> take 4 (drop i buf) = [buf ! i, buf ! (i + 1), buf ! (i + 2), buf ! (i + 3)]"
  using assms by (simp_all add: numeral_eq_Suc Cons_nth_drop_Suc [symmetric])

section \<open>The decoders against the encoding form\<close>

lemma byte_of_nat: "n < 256 \<Longrightarrow> unat (of_nat n :: u8) = n"
  by (simp add: unat_of_nat)

lemma byte_eqI: "unat b = n \<Longrightarrow> b = (of_nat n :: u8)"
  by auto

text \<open>The three multi-byte forms, in terms of the values of the bytes.\<close>

lemma base64_digit:
  assumes "(r :: nat) < 64"
  shows "(m * 64 + r) div 64 = m" "(m * 64 + r) mod 64 = r"
  using assms by simp_all

lemma div_4096: "(c :: nat) div 4096 = c div 64 div 64" "(c :: nat) div 262144 = c div 64 div 64 div 64"
  by (simp_all flip: div_mult2_eq)

lemma continuation_digit:
  assumes "128 \<le> n" "n \<le> 191"
  obtains q where "n = 128 + q" "n mod 64 = q" "q < (64 :: nat)"
proof
  show "n = 128 + (n - 128)" using assms by simp
  then have "n mod 64 = (128 + (n - 128)) mod 64" by (rule arg_cong)
  also have "\<dots> = (n - 128) mod 64" by (simp add: mod_add_left_eq [of 128 64, symmetric])
  also have "\<dots> = n - 128" using assms by simp
  finally show "n mod 64 = n - 128" .
  show "n - 128 < 64" using assms by simp
qed

lemma encode_two:
  assumes "194 \<le> unat b0" "unat b0 \<le> 223" "128 \<le> unat b1" "unat b1 \<le> 191"
  defines "c \<equiv> (unat b0 - 192) * 64 + unat b1 mod 64"
  shows "is_scalar c \<and> encode c = [b0, b1]"
proof -
  define p where "p = unat b0 - 192"
  have p: "unat b0 = 192 + p" "2 \<le> p" "p \<le> 31" using assms(1,2) by (simp_all add: p_def)
  obtain q where q: "unat b1 = 128 + q" "unat b1 mod 64 = q" "q < 64" using continuation_digit [OF assms(3,4)] .
  have c: "c = p * 64 + q" by (simp add: c_def p_def q(2))
  note d = base64_digit [OF q(3), of p]
  have "128 \<le> c" "c < 0x800" using p(2,3) q(3) by (simp_all add: c)
  then show ?thesis using byte_eqI [OF p(1)] byte_eqI [OF q(1)] q(3)
    by (simp add: encode_def is_scalar_def c d)
qed

lemma encode_three:
  assumes "224 \<le> unat b0" "unat b0 \<le> 239" "128 \<le> unat b1" "unat b1 \<le> 191" "128 \<le> unat b2" "unat b2 \<le> 191"
    and "unat b0 = 224 \<Longrightarrow> 160 \<le> unat b1" "unat b0 = 237 \<Longrightarrow> unat b1 \<le> 159"
  defines "c \<equiv> ((unat b0 - 224) * 64 + unat b1 mod 64) * 64 + unat b2 mod 64"
  shows "is_scalar c \<and> encode c = [b0, b1, b2]"
proof -
  define p where "p = unat b0 - 224"
  have p: "unat b0 = 224 + p" "p \<le> 15" using assms(1,2) by (simp_all add: p_def)
  obtain q where q: "unat b1 = 128 + q" "unat b1 mod 64 = q" "q < 64" using continuation_digit [OF assms(3,4)] .
  obtain r where r: "unat b2 = 128 + r" "unat b2 mod 64 = r" "r < 64" using continuation_digit [OF assms(5,6)] .
  have c: "c = (p * 64 + q) * 64 + r" by (simp add: c_def p_def q(2) r(2))
  then have c': "c = 4096 * p + 64 * q + r" by simp
  have digits: "c div 64 div 64 = p" "c div 64 mod 64 = q" "c mod 64 = r"
    by (simp_all only: c base64_digit [OF r(3), of "p * 64 + q"] base64_digit [OF q(3), of p])
  have low: "p = 0 \<Longrightarrow> 32 \<le> q" "p = 13 \<Longrightarrow> q \<le> 31" using assms(7,8) p(1) q(1) by simp_all
  consider "p = 0" "32 \<le> q" | "1 \<le> p" "p \<le> 12" | "p = 13" "q \<le> 31" | "14 \<le> p"
    using low by linarith
  then have "0x800 \<le> c \<and> c < 0xD800 \<or> 0xE000 \<le> c \<and> c < 0x10000"
  proof cases
    case 1
    then have "0x800 \<le> c" "c < 0xD800" unfolding c' using q(3) r(3) by - linarith+
    then show ?thesis by simp
  next
    case 2
    then have "0x800 \<le> c" "c < 0xD800" unfolding c' using q(3) r(3) by - linarith+
    then show ?thesis by simp
  next
    case 3
    then have "0x800 \<le> c" "c < 0xD800" unfolding c' using q(3) r(3) by - linarith+
    then show ?thesis by simp
  next
    case 4
    then have "0xE000 \<le> c" "c < 0x10000" unfolding c' using p(2) q(3) r(3) by - linarith+
    then show ?thesis by simp
  qed
  then have "0x800 \<le> c" "c < 0x10000" "is_scalar c" by (auto simp: is_scalar_def)
  then show ?thesis using byte_eqI [OF p(1)] byte_eqI [OF q(1)] byte_eqI [OF r(1)]
    by (simp add: encode_def div_4096 digits)
qed

lemma encode_four:
  assumes "240 \<le> unat b0" "unat b0 \<le> 244" "128 \<le> unat b1" "unat b1 \<le> 191" "128 \<le> unat b2" "unat b2 \<le> 191"
    "128 \<le> unat b3" "unat b3 \<le> 191"
    and "unat b0 = 240 \<Longrightarrow> 144 \<le> unat b1" "unat b0 = 244 \<Longrightarrow> unat b1 \<le> 143"
  defines "c \<equiv> (((unat b0 - 240) * 64 + unat b1 mod 64) * 64 + unat b2 mod 64) * 64 + unat b3 mod 64"
  shows "is_scalar c \<and> encode c = [b0, b1, b2, b3]"
proof -
  define p where "p = unat b0 - 240"
  have p: "unat b0 = 240 + p" "p \<le> 4" using assms(1,2) by (simp_all add: p_def)
  obtain q where q: "unat b1 = 128 + q" "unat b1 mod 64 = q" "q < 64" using continuation_digit [OF assms(3,4)] .
  obtain r where r: "unat b2 = 128 + r" "unat b2 mod 64 = r" "r < 64" using continuation_digit [OF assms(5,6)] .
  obtain t where t: "unat b3 = 128 + t" "unat b3 mod 64 = t" "t < 64" using continuation_digit [OF assms(7,8)] .
  have c: "c = ((p * 64 + q) * 64 + r) * 64 + t" by (simp add: c_def p_def q(2) r(2) t(2))
  then have c': "c = 262144 * p + 4096 * q + 64 * r + t" by simp
  have digits: "c div 64 div 64 div 64 = p" "c div 64 div 64 mod 64 = q" "c div 64 mod 64 = r" "c mod 64 = t"
    by (simp_all only: c base64_digit [OF t(3), of "(p * 64 + q) * 64 + r"] base64_digit [OF r(3), of "p * 64 + q"]
        base64_digit [OF q(3), of p])
  have low: "p = 0 \<Longrightarrow> 16 \<le> q" "p = 4 \<Longrightarrow> q \<le> 15" using assms(9,10) p(1) q(1) by simp_all
  consider "p = 0" "16 \<le> q" | "1 \<le> p" "p \<le> 3" | "p = 4" "q \<le> 15"
    using low p(2) by linarith
  then have "0x10000 \<le> c \<and> c < 0x110000"
  proof cases
    case 1
    then have "0x10000 \<le> c" "c < 0x110000" unfolding c' using q(3) r(3) t(3) by - linarith+
    then show ?thesis by simp
  next
    case 2
    then have "0x10000 \<le> c" "c < 0x110000" unfolding c' using q(3) r(3) t(3) by - linarith+
    then show ?thesis by simp
  next
    case 3
    then have "0x10000 \<le> c" "c < 0x110000" unfolding c' using q(3) r(3) t(3) by - linarith+
    then show ?thesis by simp
  qed
  then have "0x10000 \<le> c" "is_scalar c" by (simp_all add: is_scalar_def)
  then show ?thesis using byte_eqI [OF p(1)] byte_eqI [OF q(1)] byte_eqI [OF r(1)] byte_eqI [OF t(1)]
    by (simp add: encode_def div_4096 digits)
qed

text \<open>A strict decode in terms of the bytes at the offset.\<close>

definition decoded :: "bytes \<Rightarrow> nat \<Rightarrow> u32 \<Rightarrow> nat \<Rightarrow> bool" where
  "decoded buf i cp w \<longleftrightarrow> i + w \<le> length buf \<and> is_scalar (unat cp)
     \<and> take w (drop i buf) = encode (unat cp) \<and> w = length (encode (unat cp))"

lemma decode_sound:
  assumes "decode_utf8_at buf i = Some (cp, w)"
  shows "decoded buf i cp w"
proof -
  define b0 b1 b2 b3 where b: "b0 = buf ! i" "b1 = buf ! (i + 1)" "b2 = buf ! (i + 2)" "b3 = buf ! (i + 3)"
  have i: "i < length buf" using assms by (auto simp: decode_utf8_at_def split: if_splits)
  show ?thesis
  proof (cases "b0 < 0x80")
    case True
    then have "unat b0 < 128" by (simp add: word_less_nat_alt)
    moreover have "cp = ucast b0" "w = 1" using assms i True by (auto simp: decode_utf8_at_def b)
    moreover have "unat (ucast b0 :: u32) = unat b0" by (simp add: unsigned_ucast_eq take_bit_nat_eq_self
          less_trans [OF unsigned_less [of b0, where 'a = nat]])
    moreover have "take 1 (drop i buf) = [b0]" using i by (simp add: b Cons_nth_drop_Suc [symmetric])
    ultimately show ?thesis using i by (simp add: decoded_def encode_def is_scalar_def)
  next
    case False
    obtain l where l: "lead b0 = Some l" "i + width l \<le> length buf" "accepts_first_continuation l b1" "w = width l"
      "decode_rest buf i (width l) 2 (add_bits (scalar_prefix l) b1) = Some cp"
      using assms i False by (auto simp: decode_utf8_at_def Let_def b split: option.splits if_splits)
    note row = lead_Some [OF l(1)]
    have prefix: "unat (scalar_prefix l) < 32" using row by (auto simp: row_of_def row_def)
    then have c1: "unat (add_bits (scalar_prefix l) b1) = unat (scalar_prefix l) * 64 + unat b1 mod 64"
      by (intro add_bits_nat) simp
    have small1: "unat (add_bits (scalar_prefix l) b1) < 2048" unfolding c1 using prefix by linarith
    consider (two) "width l = 2" | (three) "width l = 3" | (four) "width l = 4"
      using lead_width [OF l(1)] by blast
    then show ?thesis
    proof cases
      case two
      then have cp: "cp = add_bits (scalar_prefix l) b1" using l(5) by (simp add: decode_rest_eqs)
      have n: "194 \<le> unat b0" "unat b0 \<le> 223" "128 \<le> unat b1" "unat b1 \<le> 191" "unat (scalar_prefix l) = unat b0 - 192"
        using row two l(3) by (auto simp: row_of_def row_def accepts_first_continuation_def word_le_nat_alt)
      show ?thesis using encode_two [OF n(1-4)] l(2,4) two take_drop_nth(1) [of i buf, folded b]
        by (simp add: decoded_def cp c1 n(5))
    next
      case three
      then have cp: "cp = add_bits (add_bits (scalar_prefix l) b1) b2" "is_continuation b2"
        using l(5) by (auto simp: decode_rest_eqs b split: if_splits)
      have c2: "unat cp = unat (add_bits (scalar_prefix l) b1) * 64 + unat b2 mod 64"
        unfolding cp(1) using small1 by (intro add_bits_nat) simp
      have n: "224 \<le> unat b0" "unat b0 \<le> 239" "128 \<le> unat b1" "unat b1 \<le> 191" "unat (scalar_prefix l) = unat b0 - 224"
        "unat b0 = 224 \<Longrightarrow> 160 \<le> unat b1" "unat b0 = 237 \<Longrightarrow> unat b1 \<le> 159"
        using row three l(3) by (auto simp: row_of_def row_def accepts_first_continuation_def word_le_nat_alt)
      have m: "128 \<le> unat b2" "unat b2 \<le> 191" using cp(2) by (simp_all add: is_continuation_iff)
      show ?thesis using encode_three [OF n(1-4) m n(6,7)] l(2,4) three take_drop_nth(2) [of i buf, folded b]
        by (simp add: decoded_def c2 c1 n(5))
    next
      case four
      then have cp: "cp = add_bits (add_bits (add_bits (scalar_prefix l) b1) b2) b3" "is_continuation b2" "is_continuation b3"
        using l(5) by (auto simp: decode_rest_eqs b split: if_splits)
      have c2: "unat (add_bits (add_bits (scalar_prefix l) b1) b2)
          = unat (add_bits (scalar_prefix l) b1) * 64 + unat b2 mod 64"
        using small1 by (intro add_bits_nat) simp
      have small2: "unat (add_bits (add_bits (scalar_prefix l) b1) b2) < 2048 * 64" unfolding c2 using small1 by linarith
      have c3: "unat cp = unat (add_bits (add_bits (scalar_prefix l) b1) b2) * 64 + unat b3 mod 64"
        unfolding cp(1) using small2 by (intro add_bits_nat) simp
      have n: "240 \<le> unat b0" "unat b0 \<le> 244" "128 \<le> unat b1" "unat b1 \<le> 191" "unat (scalar_prefix l) = unat b0 - 240"
        "unat b0 = 240 \<Longrightarrow> 144 \<le> unat b1" "unat b0 = 244 \<Longrightarrow> unat b1 \<le> 143"
        using row four l(3) by (auto simp: row_of_def row_def accepts_first_continuation_def word_le_nat_alt)
      have m: "128 \<le> unat b2" "unat b2 \<le> 191" "128 \<le> unat b3" "unat b3 \<le> 191"
        using cp(2,3) by (simp_all add: is_continuation_iff)
      show ?thesis using encode_four [OF n(1-4) m n(6,7)] l(2,4) four take_drop_nth(3) [of i buf, folded b]
        by (simp add: decoded_def c3 c2 c1 n(5))
    qed
  qed
qed

lemma cont_byte:
  assumes "q < 64"
  shows "unat (of_nat (0x80 + q) :: u8) = 128 + q" "unat (of_nat (0x80 + q) :: u8) mod 64 = q"
    "is_continuation (of_nat (0x80 + q))"
proof -
  show u: "unat (of_nat (0x80 + q) :: u8) = 128 + q" using assms byte_of_nat [of "0x80 + q"] by simp
  have "(128 + q) mod 64 = q" using assms by (simp add: mod_add_left_eq [of 128 64, symmetric])
  then show "unat (of_nat (0x80 + q) :: u8) mod 64 = q" unfolding u .
  show "is_continuation (of_nat (0x80 + q))" unfolding is_continuation_iff u using assms by simp
qed

lemma decode_multi:
  assumes "lead (buf ! i) = Some l" "i + width l \<le> length buf" "\<not> buf ! i < 0x80"
    and "accepts_first_continuation l (buf ! (i + 1))"
    and "decode_rest buf i (width l) 2 (add_bits (scalar_prefix l) (buf ! (i + 1))) = Some cp'"
    and "unat cp' = unat cp"
  shows "decode_utf8_at buf i = Some (cp, width l)"
proof -
  have "cp' = cp" using assms(6) by (simp add: word_unat_eq_iff)
  then show ?thesis using assms lead_width [OF assms(1)] by (auto simp: decode_utf8_at_def Let_def)
qed

lemma decode_complete:
  assumes "decoded buf i cp w"
  shows "decode_utf8_at buf i = Some (cp, w)"
proof -
  define c where "c = unat cp"
  have e: "is_scalar c" "take w (drop i buf) = encode c" "w = length (encode c)" "i + w \<le> length buf"
    using assms unfolding decoded_def c_def by - (elim conjE; assumption)+
  have nth: "k < w \<Longrightarrow> buf ! (i + k) = encode c ! k" for k
    using e(2,4) nth_take [of k w "drop i buf"] by simp
  consider (one) "c < 0x80" | (two) "0x80 \<le> c" "c < 0x800" | (three) "0x800 \<le> c" "c < 0x10000" | (four) "0x10000 \<le> c"
    by linarith
  then show ?thesis
  proof cases
    case one
    then have enc: "encode c = [of_nat c]" by (simp add: encode_def)
    then have w: "w = 1" and b0: "buf ! i = of_nat c" using e(3) nth [of 0] by simp_all
    have "unat (of_nat c :: u8) = c" using one by (intro byte_of_nat) simp
    moreover have "ucast (of_nat c :: u8) = cp"
      by (rule word_unat_eq_iff [THEN iffD2])
        (use one \<open>unat (of_nat c :: u8) = c\<close> in \<open>simp add: unsigned_ucast_eq unsigned_take_bit_eq take_bit_nat_eq_self c_def\<close>)
    ultimately show ?thesis using one w b0 e(4) by (simp add: decode_utf8_at_def word_less_nat_alt)
  next
    case two
    define p q where pq: "p = c div 64" "q = c mod 64"
    have q: "q < 64" and c: "c = p * 64 + q" by (simp_all add: pq)
    have p: "2 \<le> p" "p \<le> 31" using two unfolding c using q by linarith+
    have enc: "encode c = [of_nat (0xC0 + p), of_nat (0x80 + q)]" using two by (simp add: encode_def pq)
    have w: "w = 2" using e(3) enc by simp
    have b: "buf ! i = of_nat (0xC0 + p)" "buf ! (i + 1) = of_nat (0x80 + q)" using nth [of 0] nth [of 1] enc w by simp_all
    have n0: "unat (buf ! i) = 192 + p" unfolding b using byte_of_nat [of "0xC0 + p"] p by simp
    then obtain l where l: "lead (buf ! i) = Some l" "row 2 128 191 p l"
      using lead_exists [of "buf ! i"] p by (auto simp: row_of_def)
    have row: "width l = 2" "unat (scalar_prefix l) = p" using l(2) by (simp_all add: row_def)
    have a1: "unat (add_bits (scalar_prefix l) (buf ! (i + 1))) = p * 64 + q"
      using add_bits_nat [of "scalar_prefix l" "buf ! (i + 1)"] row(2) p cont_byte(2) [OF q] b(2) by simp
    show ?thesis unfolding w row(1) [symmetric]
    proof (rule decode_multi [OF l(1)])
      show "i + width l \<le> length buf" using e(4) w row(1) by simp
      show "\<not> buf ! i < 0x80" using n0 by (simp add: word_less_nat_alt)
      show "accepts_first_continuation l (buf ! (i + 1))"
        unfolding accepts_iff [OF l(2)] b(2) cont_byte(1) [OF q] using q by simp
      show "decode_rest buf i (width l) 2 (add_bits (scalar_prefix l) (buf ! (i + 1)))
          = Some (add_bits (scalar_prefix l) (buf ! (i + 1)))"
        by (simp add: row(1) decode_rest_eqs)
      show "unat (add_bits (scalar_prefix l) (buf ! (i + 1))) = unat cp" using a1 c by (simp add: c_def)
    qed
  next
    case three
    define p q r where pqr: "p = c div 64 div 64" "q = c div 64 mod 64" "r = c mod 64"
    have small: "q < 64" "r < 64" by (simp_all add: pqr)
    have c: "c = 4096 * p + 64 * q + r"
      using div_mult_mod_eq [of c 64] div_mult_mod_eq [of "c div 64" 64] unfolding pqr by linarith
    have p: "p \<le> 15" "p = 0 \<Longrightarrow> 32 \<le> q" using three unfolding c using small by linarith+
    have surrogate: "q \<le> 31" if "p = 13" using e(1) small that unfolding is_scalar_def c by linarith
    have enc: "encode c = [of_nat (0xE0 + p), of_nat (0x80 + q), of_nat (0x80 + r)]"
      using three by (simp add: encode_def pqr div_4096)
    have w: "w = 3" using e(3) enc by simp
    have b: "buf ! i = of_nat (0xE0 + p)" "buf ! (i + 1) = of_nat (0x80 + q)" "buf ! (i + 2) = of_nat (0x80 + r)"
      using nth [of 0] nth [of 1] nth [of 2] enc w by simp_all
    have n0: "unat (buf ! i) = 224 + p" unfolding b using byte_of_nat [of "0xE0 + p"] p(1) by simp
    then obtain l where l: "lead (buf ! i) = Some l" "row_of (224 + p) l"
      using lead_exists [of "buf ! i"] p(1) by auto
    have row: "width l = 3" "unat (scalar_prefix l) = p" using l(2) p(1) by (auto simp: row_of_def row_def)
    have a1: "unat (add_bits (scalar_prefix l) (buf ! (i + 1))) = p * 64 + q"
      using add_bits_nat [of "scalar_prefix l" "buf ! (i + 1)"] row(2) p cont_byte(2) [OF small(1)] b(2) by simp
    have a2: "unat (add_bits (add_bits (scalar_prefix l) (buf ! (i + 1))) (buf ! (i + 2))) = (p * 64 + q) * 64 + r"
      using add_bits_nat [of "add_bits (scalar_prefix l) (buf ! (i + 1))" "buf ! (i + 2)"] a1 p(1) small
        cont_byte(2) [OF small(2)] b(3) by simp
    show ?thesis unfolding w row(1) [symmetric]
    proof (rule decode_multi [OF l(1)])
      show "i + width l \<le> length buf" using e(4) w row(1) by simp
      show "\<not> buf ! i < 0x80" using n0 by (simp add: word_less_nat_alt)
      have u: "unat (buf ! (i + 1)) = 128 + q" unfolding b(2) by (rule cont_byte(1) [OF small(1)])
      show "accepts_first_continuation l (buf ! (i + 1))"
        using l(2) p surrogate small(1) unfolding accepts_first_continuation_def word_le_nat_alt u
        by (auto simp: row_of_def row_def)
      show "decode_rest buf i (width l) 2 (add_bits (scalar_prefix l) (buf ! (i + 1)))
          = Some (add_bits (add_bits (scalar_prefix l) (buf ! (i + 1))) (buf ! (i + 2)))"
        using cont_byte(3) [OF small(2)] b(3) unfolding row(1) decode_rest_eqs by simp
      show "unat (add_bits (add_bits (scalar_prefix l) (buf ! (i + 1))) (buf ! (i + 2))) = unat cp"
        using a2 c by (simp add: c_def)
    qed
  next
    case four
    define p q r t where pqr: "p = c div 64 div 64 div 64" "q = c div 64 div 64 mod 64" "r = c div 64 mod 64" "t = c mod 64"
    have small: "q < 64" "r < 64" "t < 64" by (simp_all add: pqr)
    have c: "c = 262144 * p + 4096 * q + 64 * r + t"
      using div_mult_mod_eq [of c 64] div_mult_mod_eq [of "c div 64" 64] div_mult_mod_eq [of "c div 64 div 64" 64]
      unfolding pqr by linarith
    have p: "p \<le> 4" "p = 0 \<Longrightarrow> 16 \<le> q" "p = 4 \<Longrightarrow> q \<le> 15"
      using four e(1) unfolding is_scalar_def c using small by linarith+
    have enc: "encode c = [of_nat (0xF0 + p), of_nat (0x80 + q), of_nat (0x80 + r), of_nat (0x80 + t)]"
      using four by (simp add: encode_def pqr div_4096)
    have w: "w = 4" using e(3) enc by simp
    have b: "buf ! i = of_nat (0xF0 + p)" "buf ! (i + 1) = of_nat (0x80 + q)" "buf ! (i + 2) = of_nat (0x80 + r)"
      "buf ! (i + 3) = of_nat (0x80 + t)"
      using nth [of 0] nth [of 1] nth [of 2] nth [of 3] enc w by simp_all
    have n0: "unat (buf ! i) = 240 + p" unfolding b using byte_of_nat [of "0xF0 + p"] p(1) by simp
    then obtain l where l: "lead (buf ! i) = Some l" "row_of (240 + p) l"
      using lead_exists [of "buf ! i"] p(1) by auto
    have row: "width l = 4" "unat (scalar_prefix l) = p" using l(2) p(1) by (auto simp: row_of_def row_def)
    let ?a1 = "add_bits (scalar_prefix l) (buf ! (i + 1))"
    let ?a2 = "add_bits ?a1 (buf ! (i + 2))"
    let ?a3 = "add_bits ?a2 (buf ! (i + 3))"
    have a1: "unat ?a1 = p * 64 + q"
      using add_bits_nat [of "scalar_prefix l" "buf ! (i + 1)"] row(2) p cont_byte(2) [OF small(1)] b(2) by simp
    have a2: "unat ?a2 = (p * 64 + q) * 64 + r"
      using add_bits_nat [of ?a1 "buf ! (i + 2)"] a1 p(1) small cont_byte(2) [OF small(2)] b(3) by simp
    have a3: "unat ?a3 = ((p * 64 + q) * 64 + r) * 64 + t"
      using add_bits_nat [of ?a2 "buf ! (i + 3)"] a2 p(1) small cont_byte(2) [OF small(3)] b(4) by simp
    show ?thesis unfolding w row(1) [symmetric]
    proof (rule decode_multi [OF l(1)])
      show "i + width l \<le> length buf" using e(4) w row(1) by simp
      show "\<not> buf ! i < 0x80" using n0 by (simp add: word_less_nat_alt)
      have u: "unat (buf ! (i + 1)) = 128 + q" unfolding b(2) by (rule cont_byte(1) [OF small(1)])
      show "accepts_first_continuation l (buf ! (i + 1))"
        using l(2) p small(1) unfolding accepts_first_continuation_def word_le_nat_alt u
        by (auto simp: row_of_def row_def)
      show "decode_rest buf i (width l) 2 ?a1 = Some ?a3"
        using cont_byte(3) [OF small(2)] cont_byte(3) [OF small(3)] b(3,4) unfolding row(1) decode_rest_eqs by simp
      show "unat ?a3 = unat cp" using a3 c by (simp add: c_def)
    qed
  qed
qed

lemma decode_iff: "decode_utf8_at buf i = Some (cp, w) \<longleftrightarrow> decoded buf i cp w"
  using decode_sound decode_complete by blast

lemma scalar_small: "is_scalar c \<Longrightarrow> unat (of_nat c :: u32) = c"
  by (auto simp: is_scalar_def unat_of_nat)

lemma decode_encode:
  assumes "is_scalar c"
  shows "decode_utf8_at (xs @ encode c @ ys) (length xs) = Some (of_nat c, length (encode c))"
  using assms scalar_small [OF assms] by (simp add: decode_iff decoded_def)

text \<open>
  C31. The strict decoder accepts at an offset exactly the encoding of a scalar value that lies
  there completely, and returns that scalar value and the length of its encoding: nothing
  overlong, truncated, surrogate or above the last code point passes.  A text that is the
  encoding of a list of scalar values is decoded back to it, each value at its own offset.
\<close>

theorem utf8_strict_exact:
  "(decode_utf8_at buf i = Some (cp, w) \<longleftrightarrow>
      i + w \<le> length buf \<and> is_scalar (unat cp) \<and> take w (drop i buf) = encode (unat cp)
      \<and> w = length (encode (unat cp)))
   \<and> ((\<forall>c \<in> set cs. is_scalar c) \<longrightarrow> k < length cs \<longrightarrow>
      decode_utf8_at (concat (map encode cs)) (length (concat (map encode (take k cs))))
      = Some (of_nat (cs ! k), length (encode (cs ! k))))"
proof (intro conjI impI)
  show "decode_utf8_at buf i = Some (cp, w) \<longleftrightarrow> i + w \<le> length buf \<and> is_scalar (unat cp)
      \<and> take w (drop i buf) = encode (unat cp) \<and> w = length (encode (unat cp))"
    by (simp only: decode_iff decoded_def)
  assume "\<forall>c \<in> set cs. is_scalar c" "k < length cs"
  then have "is_scalar (cs ! k)" by simp
  have "cs = take k cs @ cs ! k # drop (Suc k) cs" using \<open>k < length cs\<close> by (simp add: id_take_nth_drop)
  then have "concat (map encode cs) = concat (map encode (take k cs @ cs ! k # drop (Suc k) cs))" by simp
  also have "\<dots> = concat (map encode (take k cs)) @ encode (cs ! k) @ concat (map encode (drop (Suc k) cs))" by simp
  finally have split: "concat (map encode cs) = \<dots>" .
  show "decode_utf8_at (concat (map encode cs)) (length (concat (map encode (take k cs))))
      = Some (of_nat (cs ! k), length (encode (cs ! k)))"
    unfolding split by (rule decode_encode [OF \<open>is_scalar (cs ! k)\<close>])
qed

lemma utf8_strict_exact_witness:
  "decode_utf8_at (concat (map encode [0x41, 0x20AC, 0x1F600])) (length (concat (map encode (take 2 [0x41, 0x20AC, 0x1F600]))))
   = Some (of_nat ([0x41, 0x20AC, 0x1F600] ! 2), length (encode ([0x41, 0x20AC, 0x1F600] ! 2)))"
  by (rule utf8_strict_exact [THEN conjunct2, rule_format]) (auto simp: is_scalar_def)

section \<open>The lossy decoder\<close>

lemma lossy_rest_eqs:
  "lossy_rest buf i 2 2 cp = (cp, 2)"
  "lossy_rest buf i 3 2 cp =
     (if i + 2 < length buf \<and> is_continuation (buf ! (i + 2)) then (add_bits cp (buf ! (i + 2)), 3)
      else (replacement_char, 2))"
  "lossy_rest buf i 4 2 cp =
     (if i + 2 < length buf \<and> is_continuation (buf ! (i + 2)) then
        if i + 3 < length buf \<and> is_continuation (buf ! (i + 3))
        then (add_bits (add_bits cp (buf ! (i + 2))) (buf ! (i + 3)), 4) else (replacement_char, 3)
      else (replacement_char, 2))"
  by (simp_all add: lossy_rest.simps Let_def numeral_eq_Suc)

lemma continuation_never_starts:
  assumes "128 \<le> unat (buf ! j)" "unat (buf ! j) \<le> 191"
  shows "decode_utf8_at buf j = None"
proof -
  have "lead (buf ! j) = None" using lead_rows [of "buf ! j"] assms by (cases "lead (buf ! j)") (auto simp: row_of_def)
  moreover have "\<not> buf ! j < 0x80" using assms by (simp add: word_less_nat_alt)
  ultimately show ?thesis by (simp add: decode_utf8_at_def)
qed

lemma accepted_is_continuation:
  "lead b = Some l \<Longrightarrow> accepts_first_continuation l c \<Longrightarrow> 128 \<le> unat c \<and> unat c \<le> 191"
  using lead_Some [of b l] by (auto simp: row_of_def row_def accepts_first_continuation_def word_le_nat_alt)

text \<open>
  The lossy decoder never fails: it agrees with the strict one wherever that one succeeds,
  and otherwise yields the replacement character and skips between one and three bytes, none
  of them beyond the buffer and none of them the start of a valid character.
\<close>

theorem utf8_lossy_agrees:
  assumes "i < length buf"
  shows "case decode_utf8_at buf i of
      Some r \<Rightarrow> decode_utf8_lossy_at buf i = r
    | None \<Rightarrow> \<exists>w. decode_utf8_lossy_at buf i = (replacement_char, w) \<and> 1 \<le> w \<and> w \<le> 3 \<and> i + w \<le> length buf
        \<and> (\<forall>j. 0 < j \<longrightarrow> j < w \<longrightarrow> decode_utf8_at buf (i + j) = None)"
proof -
  let ?b0 = "buf ! i" and ?b1 = "buf ! (i + 1)"
  let ?skip = "\<lambda>w. decode_utf8_lossy_at buf i = (replacement_char, w) \<and> 1 \<le> w \<and> w \<le> 3 \<and> i + w \<le> length buf
        \<and> (\<forall>j. 0 < j \<longrightarrow> j < w \<longrightarrow> decode_utf8_at buf (i + j) = None)"
  have one: "decode_utf8_at buf i = None \<Longrightarrow> decode_utf8_lossy_at buf i = (replacement_char, 1) \<Longrightarrow> \<exists>w. ?skip w"
    using assms by (intro exI [of _ 1]) simp
  consider (ascii) "?b0 < 0x80" | (no_row) "\<not> ?b0 < 0x80" "lead ?b0 = None"
    | (row) l where "\<not> ?b0 < 0x80" "lead ?b0 = Some l" by (cases "lead ?b0") auto
  then show ?thesis
  proof cases
    case ascii
    then show ?thesis using assms by (simp add: decode_utf8_at_def decode_utf8_lossy_at_def)
  next
    case no_row
    then show ?thesis using assms one by (simp add: decode_utf8_at_def decode_utf8_lossy_at_def)
  next
    case row
    have w2: "2 \<le> width l" using lead_width [OF row(2)] by auto
    have strict: "decode_utf8_at buf i = (if i + width l > length buf \<or> \<not> accepts_first_continuation l ?b1 then None
        else map_option (\<lambda>cp. (cp, width l)) (decode_rest buf i (width l) 2 (add_bits (scalar_prefix l) ?b1)))"
      using assms row by (simp add: decode_utf8_at_def Let_def)
    have lossy: "decode_utf8_lossy_at buf i = (if i + 1 \<ge> length buf \<or> \<not> accepts_first_continuation l ?b1
        then (replacement_char, 1) else lossy_rest buf i (width l) 2 (add_bits (scalar_prefix l) ?b1))"
      using assms row by (simp add: decode_utf8_lossy_at_def Let_def)
    show ?thesis
    proof (cases "i + 1 < length buf \<and> accepts_first_continuation l ?b1")
      case False
      then have "decode_utf8_at buf i = None" "decode_utf8_lossy_at buf i = (replacement_char, 1)"
        using w2 by (auto simp: strict lossy)
      then show ?thesis using one by simp
    next
      case True
      then have never1: "decode_utf8_at buf (i + 1) = None"
        using accepted_is_continuation [OF row(2)] continuation_never_starts by blast
      have never2: "is_continuation (buf ! (i + 2)) \<Longrightarrow> decode_utf8_at buf (i + 2) = None"
        using continuation_never_starts [of buf "i + 2"] by (simp add: is_continuation_iff)
      have below2: "j = 1" if "0 < j" "j < (2 :: nat)" for j using that by simp
      have below3: "j = 1 \<or> j = 2" if "0 < j" "j < (3 :: nat)" for j using that by arith
      have two: "decode_utf8_at buf i = None \<Longrightarrow> decode_utf8_lossy_at buf i = (replacement_char, 2) \<Longrightarrow> \<exists>w. ?skip w"
        using True never1 by (intro exI [of _ 2]) (auto dest!: below2)
      have three: "decode_utf8_at buf i = None \<Longrightarrow> decode_utf8_lossy_at buf i = (replacement_char, 3) \<Longrightarrow>
          i + 2 < length buf \<Longrightarrow> is_continuation (buf ! (i + 2)) \<Longrightarrow> \<exists>w. ?skip w"
        using True never1 never2 by (intro exI [of _ 3]) (auto dest!: below3)
      consider "width l = 2" | "width l = 3" | "width l = 4" using lead_width [OF row(2)] by blast
      then show ?thesis
      proof cases
        case 1
        then show ?thesis using True by (simp add: strict lossy decode_rest_eqs lossy_rest_eqs)
      next
        case 2
        then show ?thesis using True two
          by (cases "i + 2 < length buf \<and> is_continuation (buf ! (i + 2))")
            (auto simp: strict lossy decode_rest_eqs lossy_rest_eqs)
      next
        case 3
        note eqs = strict lossy decode_rest_eqs lossy_rest_eqs
        show ?thesis
        proof (cases "i + 2 < length buf \<and> is_continuation (buf ! (i + 2))")
          case False
          then show ?thesis using True two 3 by (auto simp: eqs)
        next
          case c2: True
          show ?thesis
          proof (cases "i + 3 < length buf \<and> is_continuation (buf ! (i + 3))")
            case False
            then show ?thesis using True three c2 3 by (auto simp: eqs)
          next
            case True
            then show ?thesis using \<open>i + 1 < length buf \<and> _\<close> c2 3 by (simp add: eqs)
          qed
        qed
      qed
    qed
  qed
qed

lemma utf8_lossy_agrees_witness:
  "case decode_utf8_at [0xE2, 0x82, 0x41] 0 of
      Some r \<Rightarrow> decode_utf8_lossy_at [0xE2, 0x82, 0x41] 0 = r
    | None \<Rightarrow> \<exists>w. decode_utf8_lossy_at [0xE2, 0x82, 0x41] 0 = (replacement_char, w) \<and> 1 \<le> w \<and> w \<le> 3
        \<and> 0 + w \<le> length [0xE2 :: u8, 0x82, 0x41]
        \<and> (\<forall>j. 0 < j \<longrightarrow> j < w \<longrightarrow> decode_utf8_at [0xE2, 0x82, 0x41] (0 + j) = None)"
  by (rule utf8_lossy_agrees) simp

end
