(* ===== verification/Test_Channel.thy ===== *)
theory Test_Channel
  imports Runtime_Numbers Runtime_Utf8
begin

text \<open>
  The test failure channel of the runtime (\<open>rue-runtime/src/test_channel.rs\<close>): the JSON string
  escaper, the number writer, and the frames built from them.  A frame is the concatenation of
  the runs that the code emits; the operating-system write of a run is not modelled.
\<close>

section \<open>Escaping\<close>

definition hex_digit :: "nat \<Rightarrow> u8" where
  "hex_digit n = map of_char ''0123456789abcdef'' ! n"

definition unicode_escape :: "u8 \<Rightarrow> bytes" where
  "unicode_escape byte = [92, 117, 48, 48, hex_digit (unat (drop_bit 4 byte)), hex_digit (unat (byte AND 0x0F))]"

definition ascii_escape :: "u8 \<Rightarrow> bytes" where
  "ascii_escape byte =
     (if byte = 34 then [92, 34]
      else if byte = 92 then [92, 92]
      else if byte < 0x20 then unicode_escape byte
      else [])"

definition slice :: "nat \<Rightarrow> nat \<Rightarrow> 'a list \<Rightarrow> 'a list" where
  "slice i j xs = take (j - i) (drop i xs)"

lemma sequence_width_pos: "utf8_sequence_width bs = Some w \<Longrightarrow> 2 \<le> w \<and> w \<le> length bs"
  using lead_width by (fastforce simp: utf8_sequence_width_def split: list.splits option.splits if_splits)

function escape_loop :: "bytes \<Rightarrow> nat \<Rightarrow> nat \<Rightarrow> bytes \<Rightarrow> bytes" where
  "escape_loop bs index run_start out =
     (if index < length bs then
        let byte = bs ! index in
        if byte \<ge> 0x80 then
          case utf8_sequence_width (drop index bs) of
            Some w \<Rightarrow> escape_loop bs (index + w) run_start out
          | None \<Rightarrow>
              escape_loop bs (index + 1) (index + 1) (out @ slice run_start index bs @ unicode_escape byte)
        else
          let escape = ascii_escape byte in
          if escape \<noteq> [] then escape_loop bs (index + 1) (index + 1) (out @ slice run_start index bs @ escape)
          else escape_loop bs (index + 1) run_start out
      else out @ drop run_start bs)"
  by pat_completeness auto
termination
  by (relation "measure (\<lambda>(bs, index, run_start, out). length bs - index)") (auto dest: sequence_width_pos)

declare escape_loop.simps [simp del]

definition escaped :: "bytes \<Rightarrow> bytes" where
  "escaped bs = escape_loop bs 0 0 []"

section \<open>Numbers\<close>

text \<open>The digits, least significant first; \<open>None\<close> is a write past the ten-byte buffer.\<close>

function number_loop :: "u32 \<Rightarrow> bytes \<Rightarrow> bytes option" where
  "number_loop remaining digits =
     (if length digits \<ge> 10 then None
      else
        let digits' = digits @ [48 + ucast (remaining mod 10)]; remaining' = remaining div 10 in
        if remaining' = 0 then Some digits' else number_loop remaining' digits')"
  by pat_completeness auto
termination by (relation "measure (\<lambda>(remaining, digits). 10 - length digits)") auto

declare number_loop.simps [simp del]

definition number :: "u32 \<Rightarrow> bytes option" where
  "number v = map_option rev (number_loop v [])"

section \<open>Frames\<close>

definition ascii :: "string \<Rightarrow> bytes" where
  "ascii = map of_char"

definition newline :: bytes where "newline = [10]"

definition complete_frame :: bytes where
  \<open>complete_frame = ascii ''{"record":"complete","schema":"1.0"}'' @ newline\<close>

definition failure_head_text :: bytes where
  \<open>failure_head_text = ascii ''{"record":"failure","schema":"1.0","kind":"''\<close>

definition message_field :: bytes where \<open>message_field = ascii ''","message":"''\<close>
definition location_field :: bytes where \<open>location_field = ascii ''","location":{"file":"''\<close>
definition line_field :: bytes where \<open>line_field = ascii ''","line":''\<close>
definition column_field :: bytes where \<open>column_field = ascii '',"column":''\<close>
definition payload_field :: bytes where \<open>payload_field = ascii ''},"payload":"''\<close>
definition left_field :: bytes where \<open>left_field = ascii ''},"left":"''\<close>
definition right_field :: bytes where \<open>right_field = ascii ''","right":"''\<close>
definition frame_tail :: bytes where \<open>frame_tail = ascii ''"}'' @ newline\<close>
definition location_tail :: bytes where \<open>location_tail = ascii ''}}'' @ newline\<close>

definition message_bound :: nat where "message_bound = 4096"

definition truncation_marker :: bytes where
  "truncation_marker = [32, 0xE2, 0x80, 0xA6] @ ascii ''[truncated]''"

fun write_message :: "nat \<Rightarrow> bytes list \<Rightarrow> bytes" where
  "write_message remaining [] = []"
| "write_message remaining (run # runs) =
     (if length run > remaining then escaped (take remaining run) @ truncation_marker
      else escaped run @ write_message (remaining - length run) runs)"

definition failure_head :: "bytes \<Rightarrow> bytes list \<Rightarrow> bytes \<Rightarrow> u32 \<Rightarrow> u32 \<Rightarrow> bytes option" where
  "failure_head kind message file line column =
     Option.bind (number line) (\<lambda>line_text.
     Option.bind (number column) (\<lambda>column_text.
     Some (failure_head_text @ escaped kind @ message_field @ write_message message_bound message
       @ location_field @ escaped file @ line_field @ line_text @ column_field @ column_text)))"

definition failure_frame :: "bytes \<Rightarrow> bytes \<Rightarrow> bytes \<Rightarrow> u32 \<Rightarrow> u32 \<Rightarrow> bytes \<Rightarrow> bytes option" where
  "failure_frame kind message file line column payload =
     map_option (\<lambda>head. head @ payload_field @ escaped payload @ frame_tail)
       (failure_head kind [message] file line column)"

definition comparison_message :: "bytes \<Rightarrow> bytes" where
  "comparison_message kind =
     (if kind = ascii ''assert_eq'' then ascii ''assertion failed: left == right''
      else if kind = ascii ''assert_ne'' then ascii ''assertion failed: left != right''
      else ascii ''assertion failed'')"

definition comparison_frame :: "bytes \<Rightarrow> bytes \<Rightarrow> u32 \<Rightarrow> u32 \<Rightarrow> bytes \<Rightarrow> bytes \<Rightarrow> bytes option" where
  "comparison_frame kind file line column left right =
     map_option (\<lambda>head. head @ left_field @ escaped left @ right_field @ escaped right @ frame_tail)
       (failure_head kind [comparison_message kind] file line column)"

definition assert_frame :: "bytes \<Rightarrow> bytes \<Rightarrow> u32 \<Rightarrow> u32 \<Rightarrow> bytes option" where
  "assert_frame message file line column =
     map_option (\<lambda>head. head @ location_tail) (failure_head (ascii ''assert'') [message] file line column)"

definition trap_frame :: "bytes \<Rightarrow> bytes \<Rightarrow> bytes \<Rightarrow> bytes \<Rightarrow> u32 \<Rightarrow> u32 \<Rightarrow> bytes option" where
  "trap_frame kind prefix message file line column =
     map_option (\<lambda>head. head @ location_tail) (failure_head kind [prefix, message] file line column)"

section \<open>A reader\<close>

text \<open>
  The specification: the text a byte string stands for (a well-formed sequence its character,
  any other byte the character of its own value), and a JSON reader of the frames.
\<close>

function text_scalars :: "bytes \<Rightarrow> nat list" where
  "text_scalars [] = []"
| "text_scalars (b # bs) =
     (case utf8_sequence_width (b # bs) of
        Some w \<Rightarrow> unat (fst (the (decode_utf8_at (b # bs) 0))) # text_scalars (drop w (b # bs))
      | None \<Rightarrow> unat b # text_scalars bs)"
  by pat_completeness auto
termination by (relation "measure length") (auto dest: sequence_width_pos)

fun hex_value :: "u8 \<Rightarrow> nat option" where
  "hex_value b =
     (if 48 \<le> b \<and> b \<le> 57 then Some (unat b - 48)
      else if 97 \<le> b \<and> b \<le> 102 then Some (unat b - 87)
      else None)"

definition hex4 :: "bytes \<Rightarrow> nat option" where
  "hex4 ds = foldl (\<lambda>acc d. case (acc, hex_value d) of (Some n, Some k) \<Rightarrow> Some (16 * n + k) | _ \<Rightarrow> None) (Some 0) ds"

definition read_char :: "bytes \<Rightarrow> (nat \<times> bytes) option" where
  "read_char bs =
     (case bs of
        [] \<Rightarrow> None
      | b # rest \<Rightarrow>
          if b = 92 then
            (case rest of
               [] \<Rightarrow> None
             | e # rest' \<Rightarrow>
                 if e = 34 \<or> e = 92 then Some (unat e, rest')
                 else if e = 117 \<and> 4 \<le> length rest' then map_option (\<lambda>n. (n, drop 4 rest')) (hex4 (take 4 rest'))
                 else None)
          else if b < 0x20 \<or> b = 34 then None
          else map_option (\<lambda>(cp, w). (unat cp, drop w bs)) (decode_utf8_at bs 0))"

lemma read_char_shorter: "read_char bs = Some (c, rest) \<Longrightarrow> length rest < length bs"
proof -
  assume r: "read_char bs = Some (c, rest)"
  have "0 < w" if "decode_utf8_at bs 0 = Some (cp, w)" for cp w
    using decode_sound [OF that] by (auto simp: decoded_def encode_def split: if_splits)
  with r show ?thesis
    by (auto simp: read_char_def split: list.splits if_splits)
qed

function read_string :: "bytes \<Rightarrow> (nat list \<times> bytes) option" where
  "read_string bs =
     (case bs of
        [] \<Rightarrow> None
      | b # rest \<Rightarrow>
          if b = 34 then Some ([], rest)
          else case read_char bs of
            None \<Rightarrow> None
          | Some (c, rest') \<Rightarrow> map_option (\<lambda>(cs, r). (c # cs, r)) (read_string rest'))"
  by pat_completeness auto
termination by (relation "measure length") (auto dest: read_char_shorter)

declare read_string.simps [simp del]

definition read_literal :: "bytes \<Rightarrow> bytes \<Rightarrow> bytes option" where
  "read_literal lit bs = (if take (length lit) bs = lit then Some (drop (length lit) bs) else None)"

definition read_number :: "bytes \<Rightarrow> (nat \<times> bytes) option" where
  "read_number bs =
     (let ds = takeWhile is_ascii_digit bs in
      if ds = [] then None else Some (decimal_value ds, drop (length ds) bs))"

record failure_record =
  kind_text :: "nat list"
  message_text :: "nat list"
  file_text :: "nat list"
  line_number :: nat
  column_number :: nat

datatype frame_payload = No_Payload | Payload "nat list" | Sides "nat list" "nat list"

datatype frame_value = Complete | Failure failure_record frame_payload

text \<open>The text of a message given in runs: each run its own text, cut at the bound.\<close>

fun bounded_text :: "nat \<Rightarrow> bytes list \<Rightarrow> nat list" where
  "bounded_text remaining [] = []"
| "bounded_text remaining (run # runs) =
     (if length run > remaining then text_scalars (take remaining run) @ text_scalars truncation_marker
      else text_scalars run @ bounded_text (remaining - length run) runs)"

definition read_head :: "bytes \<Rightarrow> (failure_record \<times> bytes) option" where
  "read_head bs =
     Option.bind (read_literal failure_head_text bs) (\<lambda>bs.
     Option.bind (read_string bs) (\<lambda>(kind, bs).
     Option.bind (read_literal (tl message_field) bs) (\<lambda>bs.
     Option.bind (read_string bs) (\<lambda>(message, bs).
     Option.bind (read_literal (tl location_field) bs) (\<lambda>bs.
     Option.bind (read_string bs) (\<lambda>(file, bs).
     Option.bind (read_literal (tl line_field) bs) (\<lambda>bs.
     Option.bind (read_number bs) (\<lambda>(line, bs).
     Option.bind (read_literal column_field bs) (\<lambda>bs.
     Option.bind (read_number bs) (\<lambda>(column, bs).
     Some (\<lparr>kind_text = kind, message_text = message, file_text = file,
       line_number = line, column_number = column\<rparr>, bs)))))))))))"

definition read_end :: "bytes \<Rightarrow> bytes \<Rightarrow> 'a \<Rightarrow> 'a option" where
  "read_end lit bs x = (if bs = lit then Some x else None)"

definition read_payload :: "bytes \<Rightarrow> frame_payload option" where
  "read_payload bs =
     (if bs = location_tail then Some No_Payload
      else case read_literal payload_field bs of
        Some bs \<Rightarrow> Option.bind (read_string bs) (\<lambda>(payload, bs). read_end (tl frame_tail) bs (Payload payload))
      | None \<Rightarrow>
          Option.bind (read_literal left_field bs) (\<lambda>bs.
          Option.bind (read_string bs) (\<lambda>(left, bs).
          Option.bind (read_literal (tl right_field) bs) (\<lambda>bs.
          Option.bind (read_string bs) (\<lambda>(right, bs). read_end (tl frame_tail) bs (Sides left right))))))"

definition read_frame :: "bytes \<Rightarrow> frame_value option" where
  "read_frame bs =
     (if bs = complete_frame then Some Complete
      else Option.bind (read_head bs) (\<lambda>(head, bs). map_option (Failure head) (read_payload bs)))"

section \<open>The escaper, run by run\<close>

function esc :: "bytes \<Rightarrow> bytes" where
  "esc [] = []"
| "esc (b # bs) =
     (if b \<ge> 0x80 then
        case utf8_sequence_width (b # bs) of
          Some w \<Rightarrow> take w (b # bs) @ esc (drop w (b # bs))
        | None \<Rightarrow> unicode_escape b @ esc bs
      else (if ascii_escape b \<noteq> [] then ascii_escape b else [b]) @ esc bs)"
  by pat_completeness auto
termination by (relation "measure length") (auto dest: sequence_width_pos)

declare esc.simps(2) [simp del] text_scalars.simps(2) [simp del]

lemma slice_Suc: "r \<le> i \<Longrightarrow> i < length xs \<Longrightarrow> slice r (i + 1) xs = slice r i xs @ [xs ! i]"
  by (simp add: slice_def take_Suc_conv_app_nth Suc_diff_le)

lemma slice_add:
  "r \<le> i \<Longrightarrow> i + w \<le> length xs \<Longrightarrow> slice r (i + w) xs = slice r i xs @ take w (drop i xs)"
proof -
  assume "r \<le> i" "i + w \<le> length xs"
  then have "i + w - r = (i - r) + w" "drop (i - r) (drop r xs) = drop i xs" by simp_all
  then show ?thesis unfolding slice_def by (simp only: take_add)
qed

lemma slice_same [simp]: "slice i i xs = []"
  by (simp add: slice_def)

lemma escape_loop_esc:
  "run_start \<le> index \<Longrightarrow> index \<le> length bs \<Longrightarrow>
    escape_loop bs index run_start out = out @ slice run_start index bs @ esc (drop index bs)"
proof (induction bs index run_start out rule: escape_loop.induct)
  case (1 bs index run_start out)
  show ?case
  proof (cases "index < length bs")
    case False
    then show ?thesis using 1 by (subst escape_loop.simps) (simp add: slice_def)
  next
    case True
    let ?b = "bs ! index"
    have cons: "drop index bs = ?b # drop (index + 1) bs" using True by (simp add: Cons_nth_drop_Suc)
    note IH = 1(1) [OF True refl] 1(2) [OF True refl] 1(3) [OF True refl] 1(4) [OF True refl]
    show ?thesis
    proof (cases "?b \<ge> 0x80")
      case high: True
      show ?thesis
      proof (cases "utf8_sequence_width (drop index bs)")
        case None
        then show ?thesis using IH(1) [OF high None] high True 1(5) cons
          by (subst escape_loop.simps) (simp add: esc.simps(2))
      next
        case (Some w)
        then have w: "index + w \<le> length bs" using sequence_width_pos [OF Some] True by auto
        then have "escape_loop bs index run_start out = out @ slice run_start (index + w) bs @ esc (drop (index + w) bs)"
          using IH(2) [OF high Some] Some high True 1(5) by (subst escape_loop.simps) simp
        also have "\<dots> = out @ slice run_start index bs @ take w (drop index bs) @ esc (drop w (drop index bs))"
          using slice_add [OF 1(5) w] by (simp add: add.commute)
        also have "\<dots> = out @ slice run_start index bs @ esc (drop index bs)"
          using Some high cons by (simp add: esc.simps(2))
        finally show ?thesis .
      qed
    next
      case False
      then show ?thesis using IH(3,4) True 1(5) cons slice_Suc [OF 1(5) True]
        by (subst escape_loop.simps) (auto simp: Let_def esc.simps(2))
    qed
  qed
qed

lemma escaped_esc: "escaped bs = esc bs"
  by (simp add: escaped_def escape_loop_esc)

section \<open>Reading back\<close>

lemma read_unicode_escape: "read_char (unicode_escape b @ ys) = Some (unat b, ys)"
proof -
  have "hex4 (drop 2 (unicode_escape b)) = Some (unat b)"
    by (rule all_bytesI [of "\<lambda>b. hex4 (drop 2 (unicode_escape b)) = Some (unat b)"]) code_simp
  then show ?thesis by (simp add: read_char_def unicode_escape_def)
qed

lemma trail_ok_eqs:
  "trail_ok bs 2 2 = True" "trail_ok bs 3 2 = is_continuation (bs ! 2)"
  "trail_ok bs 4 2 = (is_continuation (bs ! 2) \<and> is_continuation (bs ! 3))"
  by (simp_all add: trail_ok.simps numeral_eq_Suc)

lemma sequence_width_decodes:
  assumes "utf8_sequence_width bs = Some w"
  shows "\<exists>cp. decode_utf8_at bs 0 = Some (cp, w) \<and> bs \<noteq> [] \<and> hd bs \<ge> 0x80"
proof -
  obtain b0 rest l where l: "bs = b0 # rest" "lead b0 = Some l" "width l \<le> length bs"
    "accepts_first_continuation l (bs ! 1)" "trail_ok bs (width l) 2" "w = width l"
    using assms by (auto simp: utf8_sequence_width_def not_less split: list.splits option.splits if_splits)
  have high: "\<not> b0 < 0x80" using lead_Some [OF l(2)] by (auto simp: row_of_def word_less_nat_alt)
  have "\<exists>cp. decode_rest bs 0 (width l) 2 (add_bits (scalar_prefix l) (bs ! 1)) = Some cp"
    using lead_width [OF l(2)] l(5) by (auto simp: trail_ok_eqs decode_rest_eqs numeral_2_eq_2 [symmetric])
  then show ?thesis using l high by (auto simp: decode_utf8_at_def Let_def not_less)
qed

lemma decode_prefix:
  assumes "decode_utf8_at bs 0 = Some (cp, w)"
  shows "decode_utf8_at (take w bs @ ys) 0 = Some (cp, w)"
proof -
  have "take w (take w bs @ ys) = take w bs" if "w \<le> length bs" using that by simp
  then show ?thesis using assms unfolding decode_iff decoded_def by auto
qed

lemma read_sequence:
  assumes "utf8_sequence_width bs = Some w"
  shows "read_char (take w bs @ ys) = Some (unat (fst (the (decode_utf8_at bs 0))), ys)
    \<and> hd (take w bs @ ys) \<noteq> 34 \<and> take w bs \<noteq> []"
proof -
  obtain cp where cp: "decode_utf8_at bs 0 = Some (cp, w)" "bs \<noteq> []" "hd bs \<ge> 0x80"
    using sequence_width_decodes [OF assms] by blast
  have w: "2 \<le> w" "w \<le> length bs" using sequence_width_pos [OF assms] by simp_all
  obtain b rest where b: "take w bs @ ys = b # rest" "b = hd bs" using w cp(2) by (cases bs; cases w) auto
  have "b \<noteq> 92" "\<not> b < 0x20" "b \<noteq> 34" using cp(3) b(2) by (auto simp: word_le_nat_alt word_less_nat_alt)
  moreover have "drop w (take w bs @ ys) = ys" using w(2) by simp
  ultimately show ?thesis using decode_prefix [OF cp(1), of ys] cp(1) w b
    by (auto simp: read_char_def b(1) [symmetric] split: list.splits)
qed

lemma read_plain:
  assumes "\<not> b \<ge> 0x80" "ascii_escape b = []"
  shows "read_char (b # ys) = Some (unat b, ys) \<and> b \<noteq> 34"
proof -
  have "b \<noteq> 34" "b \<noteq> 92" "\<not> b < 0x20" using assms(2) by (auto simp: ascii_escape_def unicode_escape_def split: if_splits)
  moreover have "decode_utf8_at (b # ys) 0 = Some (ucast b, 1)" using assms(1) by (simp add: decode_utf8_at_def not_le)
  moreover have "unat (ucast b :: u32) = unat b"
    by (rule all_bytesI [of "\<lambda>b. unat (ucast b :: u32) = unat b"]) code_simp
  ultimately show ?thesis by (simp add: read_char_def)
qed

lemma read_ascii_escape:
  assumes "ascii_escape b \<noteq> []"
  shows "read_char (ascii_escape b @ ys) = Some (unat b, ys) \<and> hd (ascii_escape b) = 92"
  using assms read_unicode_escape [of b ys]
  by (auto simp: ascii_escape_def read_char_def unicode_escape_def)

lemma read_string_step:
  assumes "read_char bs = Some (c, rest)" "bs \<noteq> []" "hd bs \<noteq> 34"
  shows "read_string bs = map_option (\<lambda>(cs, r). (c # cs, r)) (read_string rest)"
  using assms by (subst read_string.simps) (auto split: list.splits)

lemma read_esc:
  "read_string (esc bs @ rest) = map_option (\<lambda>(cs, r). (text_scalars bs @ cs, r)) (read_string rest)"
proof (induction bs rule: esc.induct)
  case 1
  show ?case by (simp add: option.map_ident split_def)
next
  case (2 b bs)
  have step: "read_string (p @ ys) = map_option (\<lambda>(cs, r). (c # cs, r)) (read_string ys)"
    if "read_char (p @ ys) = Some (c, ys)" "p \<noteq> []" "hd p \<noteq> 34" for p c ys
    using that by (intro read_string_step) auto
  show ?case
  proof (cases "b \<ge> 0x80")
    case high: True
    show ?thesis
    proof (cases "utf8_sequence_width (b # bs)")
      case None
      have "read_string (unicode_escape b @ esc bs @ rest) = map_option (\<lambda>(cs, r). (unat b # cs, r)) (read_string (esc bs @ rest))"
        by (rule step [OF read_unicode_escape]) (simp_all add: unicode_escape_def)
      then show ?thesis using 2(1) [OF high None] high None
        by (simp add: esc.simps(2) text_scalars.simps(2) option.map_comp comp_def split_def)
    next
      case (Some w)
      let ?ys = "esc (drop w (b # bs)) @ rest"
      have "read_string (take w (b # bs) @ ?ys) = map_option (\<lambda>(cs, r).
          (unat (fst (the (decode_utf8_at (b # bs) 0))) # cs, r)) (read_string ?ys)"
        using read_sequence [OF Some, of ?ys] by (intro step) auto
      then show ?thesis using 2(2) [OF high Some] high Some
        by (simp add: esc.simps(2) text_scalars.simps(2) option.map_comp comp_def split_def)
    qed
  next
    case False
    have none: "utf8_sequence_width (b # bs) = None"
      using sequence_width_decodes [of "b # bs"] False by (cases "utf8_sequence_width (b # bs)") auto
    define p where "p = (if ascii_escape b \<noteq> [] then ascii_escape b else [b])"
    have "read_string (p @ esc bs @ rest) = map_option (\<lambda>(cs, r). (unat b # cs, r)) (read_string (esc bs @ rest))"
    proof (rule step)
      show "read_char (p @ esc bs @ rest) = Some (unat b, esc bs @ rest)" "hd p \<noteq> 34"
        using read_plain [OF False, of "esc bs @ rest"] read_ascii_escape [of b "esc bs @ rest"]
        by (auto simp: p_def)
    qed (simp add: p_def)
    then show ?thesis using 2(3) [OF False] False none
      by (simp add: esc.simps(2) text_scalars.simps(2) p_def [symmetric] option.map_comp comp_def split_def)
  qed
qed

section \<open>Reading the frames\<close>

lemma number_loop_decimal:
  "n < 2 ^ 32 \<Longrightarrow> length digits + length (decimal n) \<le> 10 \<Longrightarrow>
    number_loop (of_nat n) digits = Some (digits @ rev (decimal n))"
proof (induction n arbitrary: digits rule: less_induct)
  case (less n)
  have u: "unat (of_nat n :: u32) = n" using less.prems(1) by (simp add: unat_of_nat)
  have "n div 10 < 2 ^ 32" using less.prems(1) by (simp add: div_le_dividend le_less_trans)
  then have d: "(of_nat n :: u32) div 10 = of_nat (n div 10)"
    by (intro word_unat_eq_iff [THEN iffD2]) (use less.prems(1) \<open>n div 10 < 2 ^ 32\<close> in \<open>simp add: unat_div u unat_of_nat\<close>)
  have m: "ucast ((of_nat n :: u32) mod 10) = (of_nat (n mod 10) :: u8)"
    by (intro word_unat_eq_iff [THEN iffD2]) (use less.prems(1) in \<open>simp add: unat_mod u unat_of_nat unsigned_ucast_eq unsigned_take_bit_eq take_bit_eq_mod\<close>)
  have z: "(of_nat (n div 10) :: u32) = 0 \<longleftrightarrow> n < 10"
    using \<open>n div 10 < 2 ^ 32\<close> by (simp add: word_unat_eq_iff unat_of_nat div_eq_0_iff)
  show ?case
  proof (cases "n < 10")
    case True
    then show ?thesis using less.prems z d m
      by (subst number_loop.simps) (simp add: decimal.simps [of n])
  next
    case False
    have step: "decimal n = decimal (n div 10) @ [48 + of_nat (n mod 10)]" using False by (subst decimal.simps) simp
    have "number_loop (of_nat (n div 10)) (digits @ [48 + of_nat (n mod 10)])
        = Some (digits @ [48 + of_nat (n mod 10)] @ rev (decimal (n div 10)))"
      using less.IH [of "n div 10" "digits @ [48 + of_nat (n mod 10)]"] \<open>n div 10 < 2 ^ 32\<close> False less.prems(2) step by simp
    then show ?thesis using less.prems(2) step z d m False
      by (subst number_loop.simps) (simp add: Let_def)
  qed
qed

lemma decimal_length: "n < 10 ^ k \<Longrightarrow> 0 < k \<Longrightarrow> length (decimal n) \<le> k"
  using digits0_length [of n k] by (cases "n = 0") (auto simp: digits0_def decimal.simps [of 0])

lemma number_decimal: "number v = Some (decimal (unat v))"
proof -
  have v: "unat v < 2 ^ 32" using unsigned_less [of v, where 'a = nat] by simp
  also have "(2 :: nat) ^ 32 \<le> 10 ^ 10" by simp
  finally have "length (decimal (unat v)) \<le> 10" by (intro decimal_length) simp_all
  then show ?thesis using number_loop_decimal [OF v, of "[]"] by (simp add: number_def)
qed

lemma read_number_decimal:
  assumes "rest = [] \<or> \<not> is_ascii_digit (hd rest)"
  shows "read_number (decimal n @ rest) = Some (n, rest)"
proof -
  have "takeWhile is_ascii_digit (decimal n @ rest) = decimal n"
    using decimal_digits [of n] assms by (cases rest) (auto simp: takeWhile_append)
  then show ?thesis using decimal_digits [of n] by (simp add: read_number_def decimal_value_dec_from Let_def)
qed

lemma read_literal_append [simp]: "read_literal lit (lit @ rest) = Some rest"
  by (simp add: read_literal_def)

lemma truncation_marker_esc: "esc truncation_marker = truncation_marker"
  by code_simp

lemma read_message:
  "read_string (write_message remaining runs @ rest)
    = map_option (\<lambda>(cs, r). (bounded_text remaining runs @ cs, r)) (read_string rest)"
proof (induction remaining runs rule: write_message.induct)
  case (1 remaining)
  show ?case by (simp add: option.map_ident split_def)
next
  case (2 remaining run runs)
  have marker: "read_string (truncation_marker @ rest)
      = map_option (\<lambda>(cs, r). (text_scalars truncation_marker @ cs, r)) (read_string rest)"
    using read_esc [of truncation_marker rest] unfolding truncation_marker_esc .
  show ?case using 2 marker by (simp add: escaped_esc read_esc option.map_comp comp_def split_def)
qed

lemma read_close: "read_string (34 # rest) = Some ([], rest)"
  by (subst read_string.simps) simp

lemma fields_quote:
  "message_field = 34 # tl message_field" "location_field = 34 # tl location_field"
  "line_field = 34 # tl line_field" "right_field = 34 # tl right_field" "frame_tail = 34 # tl frame_tail"
  by code_simp+

lemma read_escaped_field:
  "field = 34 # tl field \<Longrightarrow> read_string (escaped bs @ field @ rest) = Some (text_scalars bs, tl field @ rest)"
  by (metis append_Cons escaped_esc read_esc read_close option.simps(9) case_prod_conv append_Nil2)

lemma read_message_field:
  "field = 34 # tl field \<Longrightarrow>
    read_string (write_message remaining runs @ field @ rest) = Some (bounded_text remaining runs, tl field @ rest)"
  by (metis append_Cons read_message read_close option.simps(9) case_prod_conv append_Nil2)

lemma column_field_digit: "\<not> is_ascii_digit (hd (column_field @ rest))"
proof -
  have "column_field = 44 # tl column_field" by code_simp
  then have "hd (column_field @ rest) = 44" by (metis append_Cons list.sel(1))
  then show ?thesis by (simp add: is_ascii_digit_def)
qed

definition head_of :: "bytes \<Rightarrow> bytes list \<Rightarrow> bytes \<Rightarrow> u32 \<Rightarrow> u32 \<Rightarrow> failure_record" where
  "head_of kind runs file line column =
     \<lparr>kind_text = text_scalars kind, message_text = bounded_text message_bound runs, file_text = text_scalars file,
      line_number = unat line, column_number = unat column\<rparr>"

lemma read_failure_head:
  assumes "rest \<noteq> [] \<longrightarrow> \<not> is_ascii_digit (hd rest)"
  shows "\<exists>head. failure_head kind runs file line column = Some head
    \<and> read_head (head @ rest) = Some (head_of kind runs file line column, rest)"
proof -
  have "read_number (decimal (unat column) @ rest) = Some (unat column, rest)"
    using assms by (intro read_number_decimal) auto
  moreover have "read_number (decimal (unat line) @ column_field @ decimal (unat column) @ rest)
      = Some (unat line, column_field @ decimal (unat column) @ rest)"
    using column_field_digit by (intro read_number_decimal) auto
  ultimately show ?thesis
    by (simp add: failure_head_def number_decimal read_head_def read_escaped_field read_message_field
        fields_quote(1-3) [symmetric] head_of_def)
qed

lemma payload_first:
  "payload_field \<noteq> []" "\<not> is_ascii_digit (hd payload_field)" "left_field \<noteq> []" "\<not> is_ascii_digit (hd left_field)"
  "location_tail \<noteq> []" "\<not> is_ascii_digit (hd location_tail)"
  by code_simp+

lemma literal_conflict:
  "n < length lit \<Longrightarrow> n < length lit' \<Longrightarrow> lit ! n \<noteq> lit' ! n \<Longrightarrow> lit' @ rest \<noteq> lit @ tail"
  by (metis nth_append)

lemma read_literal_conflict:
  assumes "n < length lit" "n < length lit'" "lit ! n \<noteq> lit' ! n"
  shows "read_literal lit (lit' @ rest) = None"
  using literal_conflict [OF assms] by (metis append_take_drop_id read_literal_def)

lemma read_payloads:
  "read_payload location_tail = Some No_Payload"
  "read_payload (payload_field @ escaped payload @ frame_tail) = Some (Payload (text_scalars payload))"
  "read_payload (left_field @ escaped left @ right_field @ escaped right @ frame_tail)
    = Some (Sides (text_scalars left) (text_scalars right))"
proof -
  have last: "read_string (escaped bs @ frame_tail) = Some (text_scalars bs, tl frame_tail)" for bs
    using read_escaped_field [OF fields_quote(5), of bs "[]"] by simp
  have tail: "payload_field @ rest \<noteq> location_tail @ []" "left_field @ rest \<noteq> location_tail @ []" for rest
    by (rule literal_conflict [of 1]; code_simp)+
  have other: "read_literal payload_field (left_field @ rest) = None" for rest
    by (rule read_literal_conflict [of 3]; code_simp)
  show "read_payload location_tail = Some No_Payload" by (simp add: read_payload_def)
  show "read_payload (payload_field @ escaped payload @ frame_tail) = Some (Payload (text_scalars payload))"
    using tail(1) by (simp add: read_payload_def read_end_def last)
  show "read_payload (left_field @ escaped left @ right_field @ escaped right @ frame_tail)
      = Some (Sides (text_scalars left) (text_scalars right))"
    using tail(2) by (simp add: read_payload_def read_end_def other last read_escaped_field [OF fields_quote(4)])
qed

definition one_line :: "bytes \<Rightarrow> bool" where
  "one_line bs \<longleftrightarrow> (\<exists>body. bs = body @ newline \<and> 10 \<notin> set body)"

lemma unicode_escape_line: "10 \<notin> set (unicode_escape b)"
  by (rule all_bytesI [of "\<lambda>b. 10 \<notin> set (unicode_escape b)"]) code_simp

lemma take_encode_high: "utf8_sequence_width bs = Some w \<Longrightarrow> b \<in> set (take w bs) \<Longrightarrow> 0x80 \<le> b"
proof -
  assume w: "utf8_sequence_width bs = Some w" and b: "b \<in> set (take w bs)"
  obtain cp where cp: "decode_utf8_at bs 0 = Some (cp, w)" "bs \<noteq> []" "hd bs \<ge> 0x80"
    using sequence_width_decodes [OF w] by blast
  have e: "take w bs = encode (unat cp)" "is_scalar (unat cp)" "w \<ge> 2"
    using cp(1) sequence_width_pos [OF w] by (auto simp: decode_iff decoded_def)
  have byte: "0x80 \<le> k + (of_nat n :: u8)" if "128 \<le> unat k" "unat k + n < 256" for k n
    using that by (simp add: word_le_nat_alt unat_word_ariths unat_of_nat)
  have "encode (unat cp) \<noteq> [of_nat (unat cp)]"
  proof
    assume "encode (unat cp) = [of_nat (unat cp)]"
    then have "length (take w bs) = 1" using e(1) by simp
    then show False using e(3) sequence_width_pos [OF w] by simp
  qed
  moreover have "0x80 \<le> 0x80 + (of_nat n :: u8)" if "n < 64" for n using that by (intro byte) simp_all
  moreover have "0x80 \<le> 0xC0 + (of_nat n :: u8)" if "n < 64" for n using that by (intro byte) simp_all
  moreover have "0x80 \<le> 0xE0 + (of_nat n :: u8)" if "n < 16" for n using that by (intro byte) simp_all
  moreover have "0x80 \<le> 0xF0 + (of_nat n :: u8)" if "n < 8" for n using that by (intro byte) simp_all
  ultimately show ?thesis using b e(2) unfolding e(1)
    by (auto simp: encode_def is_scalar_def split: if_splits)
qed

lemma esc_line: "10 \<notin> set (esc bs)"
proof (induction bs rule: esc.induct)
  case (2 b bs)
  have "10 \<in> set (take w (b # bs)) \<Longrightarrow> False" if "utf8_sequence_width (b # bs) = Some w" for w
    using take_encode_high [OF that, of 10] by auto
  moreover have "b \<noteq> 10" if "ascii_escape b = []"
    using that by (auto simp: ascii_escape_def unicode_escape_def)
  moreover have "10 \<notin> set (ascii_escape b)"
    using unicode_escape_line [of b] by (auto simp: ascii_escape_def)
  ultimately show ?case using 2 unicode_escape_line [of b]
    by (auto simp: esc.simps(2) split: option.splits)
qed simp

lemma escaped_line: "10 \<notin> set (escaped bs)"
  by (simp add: escaped_esc esc_line)

lemma write_message_line: "10 \<notin> set (write_message remaining runs)"
proof -
  have "10 \<notin> set truncation_marker" by code_simp
  then show ?thesis by (induction remaining runs rule: write_message.induct) (auto simp: escaped_line)
qed

lemma decimal_line: "10 \<notin> set (decimal n)"
  using decimal_digits [of n] by (auto simp: is_ascii_digit_def)

lemma literal_lines:
  "10 \<notin> set failure_head_text" "10 \<notin> set message_field" "10 \<notin> set location_field" "10 \<notin> set line_field"
  "10 \<notin> set column_field" "10 \<notin> set payload_field" "10 \<notin> set left_field" "10 \<notin> set right_field"
  by code_simp+

lemma failure_head_line: "failure_head kind runs file line column = Some head \<Longrightarrow> 10 \<notin> set head"
  by (auto simp: failure_head_def number_decimal literal_lines escaped_line write_message_line decimal_line)

lemma one_line_prefix: "10 \<notin> set body \<Longrightarrow> one_line rest \<Longrightarrow> one_line (body @ rest)"
  unfolding one_line_def by (metis UnE append_assoc set_append)

lemma one_line_tails: "one_line frame_tail" "one_line location_tail" "one_line complete_frame"
proof -
  have quote: "10 \<notin> set (ascii ''\"}'')" "10 \<notin> set (ascii ''}}'')"
    "10 \<notin> set (ascii ''{\"record\":\"complete\",\"schema\":\"1.0\"}'')"
    by code_simp+
  show "one_line frame_tail" "one_line location_tail" "one_line complete_frame"
    using quote by (auto simp: one_line_def frame_tail_def location_tail_def complete_frame_def)
qed

lemma one_line_fields:
  "one_line (payload_field @ escaped payload @ frame_tail)"
  "one_line (left_field @ escaped left @ right_field @ escaped right @ frame_tail)" "one_line location_tail"
  by (simp_all add: one_line_prefix one_line_tails literal_lines escaped_line)

lemma head_not_complete: "failure_head kind runs file line column = Some head \<Longrightarrow> head @ rest \<noteq> complete_frame"
proof -
  assume "failure_head kind runs file line column = Some head"
  then obtain tail where "head @ rest = failure_head_text @ tail"
    by (auto simp: failure_head_def number_decimal)
  moreover have "failure_head_text @ tail \<noteq> complete_frame @ []"
    by (rule literal_conflict [of 11]; code_simp)
  ultimately show ?thesis by simp
qed

lemma read_frame_head:
  assumes "read_payload rest = Some payload" "rest \<noteq> []" "\<not> is_ascii_digit (hd rest)" "one_line rest"
  shows "\<exists>f. map_option (\<lambda>head. head @ rest) (failure_head kind runs file line column) = Some f
    \<and> one_line f \<and> read_frame f = Some (Failure (head_of kind runs file line column) payload)"
proof -
  obtain head where "failure_head kind runs file line column = Some head"
    "read_head (head @ rest) = Some (head_of kind runs file line column, rest)"
    using read_failure_head assms(3) by blast
  then show ?thesis using head_not_complete assms(1,4) failure_head_line one_line_prefix
    by (auto simp: read_frame_def)
qed

lemma failure_frame_back:
  "\<exists>f. failure_frame kind message file line column payload = Some f \<and> one_line f
    \<and> read_frame f = Some (Failure (head_of kind [message] file line column) (Payload (text_scalars payload)))"
  unfolding failure_frame_def by (rule read_frame_head [OF read_payloads(2)]) (simp_all add: payload_first one_line_fields)

lemma comparison_frame_back:
  "\<exists>f. comparison_frame kind file line column left right = Some f \<and> one_line f
    \<and> read_frame f = Some (Failure (head_of kind [comparison_message kind] file line column)
        (Sides (text_scalars left) (text_scalars right)))"
  unfolding comparison_frame_def by (rule read_frame_head [OF read_payloads(3)]) (simp_all add: payload_first one_line_fields)

lemma assert_frame_back:
  "\<exists>f. assert_frame message file line column = Some f \<and> one_line f
    \<and> read_frame f = Some (Failure (head_of (ascii ''assert'') [message] file line column) No_Payload)"
  unfolding assert_frame_def by (rule read_frame_head [OF read_payloads(1)]) (simp_all add: payload_first one_line_fields)

lemma trap_frame_back:
  "\<exists>f. trap_frame kind prefix message file line column = Some f \<and> one_line f
    \<and> read_frame f = Some (Failure (head_of kind [prefix, message] file line column) No_Payload)"
  unfolding trap_frame_def by (rule read_frame_head [OF read_payloads(1)]) (simp_all add: payload_first one_line_fields)

lemma complete_frame_back: "one_line complete_frame \<and> read_frame complete_frame = Some Complete"
  by (simp add: one_line_tails read_frame_def)

text \<open>
  C29. Every frame the channel writes is built, the number writer never overrunning its ten
  bytes, and read back by a JSON reader to exactly the values it was given: kind, message,
  file, line, column and payload or sides.  Quotes, backslashes, control bytes and ill-formed
  UTF-8 inside a value never end it early, no frame has a line break before its end, and a message is cut at 4096 bytes and marked.
\<close>

theorem frames_read_back:
  "one_line complete_frame \<and> read_frame complete_frame = Some Complete
   \<and> (\<exists>f. failure_frame kind message file line column payload = Some f \<and> one_line f
      \<and> read_frame f = Some (Failure (head_of kind [message] file line column) (Payload (text_scalars payload))))
   \<and> (\<exists>f. comparison_frame kind file line column left right = Some f \<and> one_line f
      \<and> read_frame f = Some (Failure (head_of kind [comparison_message kind] file line column)
          (Sides (text_scalars left) (text_scalars right))))
   \<and> (\<exists>f. assert_frame message file line column = Some f \<and> one_line f
      \<and> read_frame f = Some (Failure (head_of (ascii ''assert'') [message] file line column) No_Payload))
   \<and> (\<exists>f. trap_frame kind prefix message file line column = Some f \<and> one_line f
      \<and> read_frame f = Some (Failure (head_of kind [prefix, message] file line column) No_Payload))"
  by (intro conjI failure_frame_back comparison_frame_back assert_frame_back trap_frame_back
      complete_frame_back [THEN conjunct1] complete_frame_back [THEN conjunct2])

end
