(* ===== verification/Failure_Reports.thy ===== *)
theory Failure_Reports
  imports Test_Channel
begin

text \<open>
  How a running program reports a failure (\<open>rue-runtime/src/error.rs\<close> and the entry points of
  \<open>rue-runtime/src/test_channel.rs\<close>): which bytes reach the failure channel and the error
  stream, and the exit status.  The process state is the armed flag, the bytes written so far
  and the exit status; the report gate, which keeps two threads from reporting at once, is not
  modelled, and both streams take every write.
\<close>

section \<open>The process\<close>

record process =
  armed :: bool
  channel :: bytes
  stderr :: bytes
  exit_status :: "nat option"

definition arm_channel :: "process \<Rightarrow> process" where
  "arm_channel p = p\<lparr>armed := True\<rparr>"

definition write_when_armed :: "bytes \<Rightarrow> process \<Rightarrow> process" where
  "write_when_armed bs p = (if \<not> armed p then p else p\<lparr>channel := channel p @ bs\<rparr>)"

text \<open>\<open>None\<close> is a frame whose number overran its buffer.\<close>

definition emit_to_channel :: "bytes option \<Rightarrow> process \<Rightarrow> process option" where
  "emit_to_channel frame p = map_option (\<lambda>bs. write_when_armed bs p) frame"

definition write_stderr :: "bytes \<Rightarrow> process \<Rightarrow> process" where
  "write_stderr bs p = p\<lparr>stderr := stderr p @ bs\<rparr>"

definition exit_with :: "nat \<Rightarrow> process \<Rightarrow> process" where
  "exit_with code p = p\<lparr>exit_status := Some code\<rparr>"

definition terminal_stderr :: "bytes \<Rightarrow> process \<Rightarrow> process" where
  "terminal_stderr bs p = exit_with 101 (write_stderr bs p)"

definition panic_stderr :: "bytes \<Rightarrow> process \<Rightarrow> process" where
  "panic_stderr message p =
     (let p = write_stderr (ascii ''panic: '') p;
          p = (if message \<noteq> [] then write_stderr message p else p)
      in exit_with 101 (write_stderr newline p))"

definition assert_failed_stderr :: "process \<Rightarrow> process" where
  "assert_failed_stderr p = exit_with 101 (write_stderr (ascii ''assertion failed'' @ newline) p)"

section \<open>Reports\<close>

text \<open>A site is a file and a packed position; the null site is \<open>None\<close>.\<close>

type_synonym site = "(bytes \<times> u64) option"

definition site_view :: "site \<Rightarrow> bytes \<times> u32 \<times> u32" where
  "site_view site =
     (case site of
        None \<Rightarrow> ([], 0, 0)
      | Some (file, position) \<Rightarrow> (file, ucast (drop_bit 32 position), ucast position))"

definition report_trap :: "site \<Rightarrow> bytes \<Rightarrow> bytes \<Rightarrow> bytes \<Rightarrow> process \<Rightarrow> process option" where
  "report_trap site kind prefix message p =
     (case site_view site of (file, line, column) \<Rightarrow>
        emit_to_channel (trap_frame kind prefix message file line column) p)"

definition report_panic :: "site \<Rightarrow> bytes \<Rightarrow> process \<Rightarrow> process option" where
  "report_panic site message = report_trap site (ascii ''trap:panic'') (ascii ''panic: '') message"

definition report_panic_no_message :: "site \<Rightarrow> process \<Rightarrow> process option" where
  "report_panic_no_message site = report_trap site (ascii ''trap:panic'') (ascii ''panic'') []"

definition report_bounds_check :: "process \<Rightarrow> process option" where
  "report_bounds_check = report_trap None (ascii ''trap:bounds_check'') (ascii ''error: index out of bounds'') []"

record failure_report =
  report_site :: "bytes \<times> u64"
  report_kind :: bytes
  report_first :: bytes
  report_second :: bytes

definition test_complete :: "process \<Rightarrow> process" where
  "test_complete = write_when_armed complete_frame"

definition test_fail :: "failure_report \<Rightarrow> process \<Rightarrow> process option" where
  "test_fail r p =
     (case site_view (Some (report_site r)) of (file, line, column) \<Rightarrow>
        map_option (panic_stderr (report_first r))
          (emit_to_channel (failure_frame (report_kind r) (report_first r) file line column (report_second r)) p))"

definition test_fail_comparison :: "failure_report \<Rightarrow> process \<Rightarrow> process option" where
  "test_fail_comparison r p =
     (case site_view (Some (report_site r)) of (file, line, column) \<Rightarrow>
        map_option (panic_stderr (comparison_message (report_kind r)))
          (emit_to_channel (comparison_frame (report_kind r) file line column (report_first r) (report_second r)) p))"

definition test_fail_assert :: "failure_report \<Rightarrow> u32 \<Rightarrow> process \<Rightarrow> process option" where
  "test_fail_assert r with_message p =
     (case site_view (Some (report_site r)) of (file, line, column) \<Rightarrow>
        let message = report_first r;
            framed = (if with_message = 0 then ascii ''assertion failed'' else message)
        in map_option (if with_message = 0 then assert_failed_stderr else panic_stderr message)
             (emit_to_channel (assert_frame framed file line column) p))"

definition test_usage_error :: "process \<Rightarrow> process" where
  "test_usage_error = write_stderr (ascii ''rue-test: expected one 16-hex-digit test selector'' @ newline)"

section \<open>Traps\<close>

definition rue_panic :: "bytes \<Rightarrow> u64 \<Rightarrow> bytes \<Rightarrow> process \<Rightarrow> process option" where
  "rue_panic file position message p =
     map_option (panic_stderr message) (report_panic (Some (file, position)) message p)"

definition rue_panic_no_msg :: "bytes \<Rightarrow> u64 \<Rightarrow> process \<Rightarrow> process option" where
  "rue_panic_no_msg file position p =
     map_option (\<lambda>p. exit_with 101 (write_stderr (ascii ''panic'' @ newline) p))
       (report_panic_no_message (Some (file, position)) p)"

definition allocation_failure :: "process \<Rightarrow> process option" where
  "allocation_failure = rue_panic [] 0 (ascii ''out of memory'')"

definition rue_div_by_zero :: "process \<Rightarrow> process" where
  "rue_div_by_zero = terminal_stderr (ascii ''error: division by zero'' @ newline)"

definition rue_overflow :: "process \<Rightarrow> process" where
  "rue_overflow = terminal_stderr (ascii ''error: integer overflow'' @ newline)"

definition rue_intcast_overflow :: "process \<Rightarrow> process" where
  "rue_intcast_overflow = terminal_stderr (ascii ''error: integer cast overflow'' @ newline)"

definition rue_bounds_check :: "process \<Rightarrow> process option" where
  "rue_bounds_check p =
     map_option (terminal_stderr (ascii ''error: index out of bounds'' @ newline)) (report_bounds_check p)"

definition rue_invalid_utf8 :: "process \<Rightarrow> process" where
  "rue_invalid_utf8 = terminal_stderr (ascii ''error: invalid UTF-8'' @ newline)"

definition rue_assert_failed :: "process \<Rightarrow> process" where
  "rue_assert_failed = assert_failed_stderr"

section \<open>What a report leaves behind\<close>

text \<open>
  The specification: the process has ended with status 101, its error stream has grown by the
  given text, and its channel by one line that reads as the given record if the channel was
  armed, by nothing otherwise.
\<close>

definition ended :: "process \<Rightarrow> bytes \<Rightarrow> frame_value \<Rightarrow> process option \<Rightarrow> bool" where
  "ended p text record result \<longleftrightarrow>
     (case result of
        None \<Rightarrow> False
      | Some q \<Rightarrow>
          exit_status q = Some 101 \<and> stderr q = stderr p @ text \<and> armed q = armed p
          \<and> take (length (channel p)) (channel q) = channel p
          \<and> (let added = drop (length (channel p)) (channel q) in
             if armed p then one_line added \<and> read_frame added = Some record else added = []))"

definition silent :: "process \<Rightarrow> bytes \<Rightarrow> process \<Rightarrow> bool" where
  "silent p text q \<longleftrightarrow>
     exit_status q = Some 101 \<and> stderr q = stderr p @ text \<and> armed q = armed p \<and> channel q = channel p"

lemma ended_emit:
  assumes "\<exists>f. frame = Some f \<and> one_line f \<and> read_frame f = Some record"
    and "\<And>q. exit_status (final q) = Some 101 \<and> stderr (final q) = stderr q @ text \<and> armed (final q) = armed q
      \<and> channel (final q) = channel q"
  shows "ended p text record (map_option final (emit_to_channel frame p))"
  using assms by (auto simp: ended_def emit_to_channel_def write_when_armed_def Let_def)

lemma panic_stderr_final:
  "exit_status (panic_stderr message q) = Some 101 \<and> stderr (panic_stderr message q) = stderr q @ ascii ''panic: '' @ message @ newline
    \<and> armed (panic_stderr message q) = armed q \<and> channel (panic_stderr message q) = channel q"
  by (simp add: panic_stderr_def exit_with_def write_stderr_def Let_def)

lemma terminal_stderr_final:
  "exit_status (terminal_stderr text q) = Some 101 \<and> stderr (terminal_stderr text q) = stderr q @ text
    \<and> armed (terminal_stderr text q) = armed q \<and> channel (terminal_stderr text q) = channel q"
  by (simp add: terminal_stderr_def exit_with_def write_stderr_def)

definition located :: "bytes \<Rightarrow> bytes list \<Rightarrow> site \<Rightarrow> failure_record" where
  "located kind message site = (case site_view site of (file, line, column) \<Rightarrow> head_of kind message file line column)"

text \<open>
  Every fatal report ends the process with status 101, adds its pinned text to the error
  stream, and adds to the channel one line that reads back as its record when the process is a
  test image and nothing when it is not.  The record of a trap carries the text of its error
  line; the traps that have no record leave the channel alone.
\<close>

theorem reports_exact:
  "ended p (ascii ''panic: '' @ message @ newline)
     (Failure (located (ascii ''trap:panic'') [ascii ''panic: '', message] (Some (file, position))) No_Payload)
     (rue_panic file position message p)
   \<and> ended p (ascii ''panic'' @ newline)
     (Failure (located (ascii ''trap:panic'') [ascii ''panic'', []] (Some (file, position))) No_Payload)
     (rue_panic_no_msg file position p)
   \<and> ended p (ascii ''error: index out of bounds'' @ newline)
     (Failure (located (ascii ''trap:bounds_check'') [ascii ''error: index out of bounds'', []] None) No_Payload)
     (rue_bounds_check p)
   \<and> ended p (ascii ''panic: '' @ report_first r @ newline)
     (Failure (located (report_kind r) [report_first r] (Some (report_site r))) (Payload (text_scalars (report_second r))))
     (test_fail r p)
   \<and> ended p (ascii ''panic: '' @ comparison_message (report_kind r) @ newline)
     (Failure (located (report_kind r) [comparison_message (report_kind r)] (Some (report_site r)))
       (Sides (text_scalars (report_first r)) (text_scalars (report_second r))))
     (test_fail_comparison r p)
   \<and> ended p (if with_message = 0 then ascii ''assertion failed'' @ newline else ascii ''panic: '' @ report_first r @ newline)
     (Failure (located (ascii ''assert'') [if with_message = 0 then ascii ''assertion failed'' else report_first r]
        (Some (report_site r))) No_Payload)
     (test_fail_assert r with_message p)
   \<and> silent p (ascii ''error: division by zero'' @ newline) (rue_div_by_zero p)
   \<and> silent p (ascii ''error: integer overflow'' @ newline) (rue_overflow p)
   \<and> silent p (ascii ''error: integer cast overflow'' @ newline) (rue_intcast_overflow p)
   \<and> silent p (ascii ''error: invalid UTF-8'' @ newline) (rue_invalid_utf8 p)"
proof (intro conjI)
  note defs = located_def report_trap_def split_def
  show "ended p (ascii ''panic: '' @ message @ newline)
     (Failure (located (ascii ''trap:panic'') [ascii ''panic: '', message] (Some (file, position))) No_Payload)
     (rue_panic file position message p)"
    unfolding rue_panic_def report_panic_def defs by (intro ended_emit trap_frame_back panic_stderr_final)
  show "ended p (ascii ''panic'' @ newline)
     (Failure (located (ascii ''trap:panic'') [ascii ''panic'', []] (Some (file, position))) No_Payload)
     (rue_panic_no_msg file position p)"
    unfolding rue_panic_no_msg_def report_panic_no_message_def defs
    by (intro ended_emit trap_frame_back terminal_stderr_final [unfolded terminal_stderr_def])
  show "ended p (ascii ''error: index out of bounds'' @ newline)
     (Failure (located (ascii ''trap:bounds_check'') [ascii ''error: index out of bounds'', []] None) No_Payload)
     (rue_bounds_check p)"
    unfolding rue_bounds_check_def report_bounds_check_def defs
    by (intro ended_emit trap_frame_back terminal_stderr_final)
  show "ended p (ascii ''panic: '' @ report_first r @ newline)
     (Failure (located (report_kind r) [report_first r] (Some (report_site r))) (Payload (text_scalars (report_second r))))
     (test_fail r p)"
    unfolding test_fail_def defs by (intro ended_emit failure_frame_back panic_stderr_final)
  show "ended p (ascii ''panic: '' @ comparison_message (report_kind r) @ newline)
     (Failure (located (report_kind r) [comparison_message (report_kind r)] (Some (report_site r)))
       (Sides (text_scalars (report_first r)) (text_scalars (report_second r))))
     (test_fail_comparison r p)"
    unfolding test_fail_comparison_def defs by (intro ended_emit comparison_frame_back panic_stderr_final)
  show "ended p (if with_message = 0 then ascii ''assertion failed'' @ newline else ascii ''panic: '' @ report_first r @ newline)
     (Failure (located (ascii ''assert'') [if with_message = 0 then ascii ''assertion failed'' else report_first r]
        (Some (report_site r))) No_Payload)
     (test_fail_assert r with_message p)"
    unfolding test_fail_assert_def defs Let_def
  proof (intro ended_emit assert_frame_back)
    fix q
    let ?final = "if with_message = 0 then assert_failed_stderr else panic_stderr (report_first r)"
    show "exit_status (?final q) = Some 101
      \<and> stderr (?final q) = stderr q @ (if with_message = 0 then ascii ''assertion failed'' @ newline
          else ascii ''panic: '' @ report_first r @ newline)
      \<and> armed (?final q) = armed q \<and> channel (?final q) = channel q"
      using panic_stderr_final [of "report_first r" q]
      by (simp add: assert_failed_stderr_def exit_with_def write_stderr_def)
  qed
qed (simp_all add: silent_def rue_div_by_zero_def rue_overflow_def rue_intcast_overflow_def rue_invalid_utf8_def
  terminal_stderr_final)

end
