(* ===== verification/Edge_Groups.thy ===== *)
theory Edge_Groups
  imports Main
begin

text \<open>
  Flat adjacency tables: offsets and targets, filled by counting, summing and placing.  The
  dominator-tree construction stores its successors and predecessors this way, and the
  liveness analysis its predecessors.  An entry of a table is a \<open>nat\<close>: the sizes of the graph
  and of the instruction list keep every offset below the width of the stored words.
\<close>

section \<open>The structure\<close>

record adjacency =
  offsets :: "nat list"
  targets :: "nat list"

definition adj_of :: "adjacency \<Rightarrow> nat \<Rightarrow> nat list" where
  "adj_of a b = take (offsets a ! (b + 1) - offsets a ! b) (drop (offsets a ! b) (targets a))"

section \<open>Grouping by key\<close>

definition count_keys :: "nat \<Rightarrow> nat list \<Rightarrow> nat list" where
  "count_keys n keys = foldl (\<lambda>os t. os[t + 1 := os ! (t + 1) + 1]) (replicate (n + 1) 0) keys"

definition prefix_sums :: "nat \<Rightarrow> nat list \<Rightarrow> nat list" where
  "prefix_sums n os = foldl (\<lambda>os i. os[i + 1 := os ! (i + 1) + os ! i]) os [0..<n]"

definition place_one :: "nat list \<times> nat list \<Rightarrow> nat \<times> nat \<Rightarrow> nat list \<times> nat list" where
  "place_one st e =
     (case st of (cursor, ts) \<Rightarrow> case e of (t, source) \<Rightarrow>
        (cursor[t := cursor ! t + 1], ts[cursor ! t := source]))"

definition group_edges :: "nat \<Rightarrow> nat list \<Rightarrow> (nat \<times> nat) list \<Rightarrow> adjacency" where
  "group_edges n keys edges =
     (let offs = prefix_sums n (count_keys n keys);
          (cursor, ts) = foldl place_one (offs, replicate (offs ! n) 0) edges
      in \<lparr>offsets = offs, targets = ts\<rparr>)"

section \<open>Counting and summing\<close>

definition below :: "nat list \<Rightarrow> nat \<Rightarrow> nat" where
  "below keys j = length (filter (\<lambda>t. t < j) keys)"

lemma below_Suc: "below keys (Suc j) = below keys j + count_list keys j"
  by (induction keys) (auto simp: below_def less_Suc_eq)

lemma below_0 [simp]: "below keys 0 = 0"
  by (simp add: below_def)

lemma below_mono: "i \<le> j \<Longrightarrow> below keys i \<le> below keys j"
  by (induction j) (auto simp: le_Suc_eq below_Suc)

lemma below_all: "\<forall>t \<in> set keys. t < n \<Longrightarrow> below keys n = length keys"
  by (simp add: below_def)

lemma count_keys_nth:
  assumes "\<forall>t \<in> set keys. t < n"
  shows "length (count_keys n keys) = n + 1 \<and> count_keys n keys ! 0 = 0
    \<and> (\<forall>j < n. count_keys n keys ! (j + 1) = count_list keys j)"
  using assms
proof (induction keys rule: rev_induct)
  case Nil
  then show ?case by (simp add: count_keys_def)
next
  case (snoc t keys)
  have "count_keys n (keys @ [t]) = (count_keys n keys)[t + 1 := count_keys n keys ! (t + 1) + 1]"
    by (simp add: count_keys_def)
  then show ?case using snoc by (auto simp: nth_list_update)
qed

lemma prefix_sums_nth:
  assumes "length os = n + 1" "os ! 0 = 0" "\<forall>j < n. os ! (j + 1) = count_list keys j"
  shows "length (prefix_sums n os) = n + 1 \<and> (\<forall>j \<le> n. prefix_sums n os ! j = below keys j)"
proof -
  let ?step = "\<lambda>os i. os[i + 1 := os ! (i + 1) + os ! i]"
  have "m \<le> n \<Longrightarrow> length (foldl ?step os [0..<m]) = n + 1
      \<and> (\<forall>j \<le> n. foldl ?step os [0..<m] ! j = (if j \<le> m then below keys j else os ! j))" for m
  proof (induction m)
    case 0
    then show ?case using assms(1,2) by auto
  next
    case (Suc m)
    then show ?case using assms(3)
      by (auto simp: nth_list_update below_Suc le_Suc_eq Suc_le_eq)
  qed
  from this [of n] show ?thesis by (simp add: prefix_sums_def)
qed

lemma offsets_nth:
  assumes "\<forall>t \<in> set keys. t < n"
  shows "length (prefix_sums n (count_keys n keys)) = n + 1"
    "j \<le> n \<Longrightarrow> prefix_sums n (count_keys n keys) ! j = below keys j"
  using prefix_sums_nth [of "count_keys n keys" n keys] count_keys_nth [OF assms] by auto

section \<open>Placing\<close>

lemma place_one_eq: "place_one (cursor, ts) (t, source) = (cursor[t := cursor ! t + 1], ts[cursor ! t := source])"
  by (simp add: place_one_def)

definition vals :: "(nat \<times> nat) list \<Rightarrow> nat \<Rightarrow> nat list" where
  "vals edges k = map snd (filter (\<lambda>e. fst e = k) edges)"

lemma vals_snoc: "vals (es @ [(t, s)]) k = (if t = k then vals es k @ [s] else vals es k)"
  by (simp add: vals_def)

lemma length_vals: "length (vals es k) = count_list (map fst es) k"
  by (induction es) (auto simp: vals_def)

lemma place_edges:
  assumes keys: "\<forall>t \<in> set keys. t < n" and "count_list keys = count_list (map fst edges)"
    and "edges = es @ rest" "length offs = n + 1" "\<And>j. j \<le> n \<Longrightarrow> offs ! j = below keys j"
    and "foldl place_one (offs, replicate (below keys n) 0) es = (cursor, ts)"
  shows "length cursor = n + 1 \<and> length ts = below keys n
    \<and> (\<forall>k < n. cursor ! k = below keys k + length (vals es k)
      \<and> (\<forall>i < length (vals es k). ts ! (below keys k + i) = vals es k ! i))"
  using assms(3,6)
proof (induction es arbitrary: rest cursor ts rule: rev_induct)
  case Nil
  then show ?case using assms(4,5) by (auto simp: vals_def)
next
  case (snoc e es)
  obtain t s where e: "e = (t, s)" by force
  obtain cursor' ts' where f: "foldl place_one (offs, replicate (below keys n) 0) es = (cursor', ts')" by force
  have IH: "length cursor' = n + 1" "length ts' = below keys n"
    "\<forall>k < n. cursor' ! k = below keys k + length (vals es k)
      \<and> (\<forall>i < length (vals es k). ts' ! (below keys k + i) = vals es k ! i)"
    using snoc.IH [OF _ f, of "e # rest"] snoc.prems(1) by auto
  have total: "length (vals edges k) = count_list keys k" for k
  using assms(2) by (simp add: length_vals)
  have part: "length (vals es k) + (if t = k then 1 else 0) \<le> count_list keys k" for k
    using total [of k] unfolding snoc.prems(1) e by (auto simp: vals_def)
  have "t \<in> set (map fst edges)" using snoc.prems(1) e by simp
  then have t: "t < n" using keys assms(2) by (metis count_list_0_iff)
  have res: "cursor = cursor'[t := cursor' ! t + 1]" "ts = ts'[cursor' ! t := s]"
    using snoc.prems(2) f e by (auto simp: place_one_eq)
  have pos: "below keys t + length (vals es t) < below keys (Suc t)" using part [of t] by (simp add: below_Suc)
  have room: "below keys (Suc t) \<le> below keys n" using t by (intro below_mono) simp
  have apart: "below keys k + i \<noteq> below keys t + length (vals es t)" if "k < n" "i < length (vals es k)" for k i
  proof (cases k t rule: linorder_cases)
    case less
    then have "below keys (Suc k) \<le> below keys t" by (intro below_mono) simp
    then show ?thesis using part [of k] that by (simp add: below_Suc)
  next
    case greater
    then have "below keys (Suc t) \<le> below keys k" by (intro below_mono) simp
    then show ?thesis using pos by simp
  qed (use that in simp)
  show ?case
  proof (intro conjI allI impI)
    show "length cursor = n + 1" "length ts = below keys n" using IH res by simp_all
  next
    fix k assume k: "k < n"
    show "cursor ! k = below keys k + length (vals (es @ [e]) k)"
      using IH t k by (simp add: res e vals_snoc nth_list_update)
  next
    fix k i assume k: "k < n" "i < length (vals (es @ [e]) k)"
    have ct: "cursor' ! t = below keys t + length (vals es t)" using IH t by simp
    show "ts ! (below keys k + i) = vals (es @ [e]) k ! i"
    proof (cases "i < length (vals es k)")
      case True
      then show ?thesis using IH(3) k(1) apart [OF k(1) True] ct
        by (simp add: res e vals_snoc nth_append)
    next
      case False
      then have "t = k" "i = length (vals es k)" using k(2) by (auto simp: e vals_snoc split: if_splits)
      then show ?thesis using ct IH(2) pos room by (simp add: res e vals_snoc)
    qed
  qed
qed

lemma adj_of_placed:
  assumes k: "k < n" and offs: "offs ! k = below keys k" "offs ! (k + 1) = below keys (k + 1)"
    and ts: "length ts = below keys n" "\<forall>i < length (vals es k). ts ! (below keys k + i) = vals es k ! i"
    and len: "length (vals es k) = count_list keys k"
  shows "adj_of \<lparr>offsets = offs, targets = ts\<rparr> k = vals es k"
proof -
  have room: "below keys (Suc k) \<le> below keys n" using k by (intro below_mono) simp
  show ?thesis
  proof (rule nth_equalityI)
    show "length (adj_of \<lparr>offsets = offs, targets = ts\<rparr> k) = length (vals es k)"
      using offs ts(1) len room by (simp add: adj_of_def below_Suc)
    fix i assume "i < length (adj_of \<lparr>offsets = offs, targets = ts\<rparr> k)"
    then show "adj_of \<lparr>offsets = offs, targets = ts\<rparr> k ! i = vals es k ! i"
      using offs ts room len by (simp add: adj_of_def below_Suc)
  qed
qed

lemma group_edges_of:
  assumes keys: "\<forall>t \<in> set keys. t < n" "count_list keys = count_list (map fst edges)" and k: "k < n"
  shows "adj_of (group_edges n keys edges) k = vals edges k"
proof -
  define offs where "offs = prefix_sums n (count_keys n keys)"
  have offs: "length offs = n + 1" "\<And>j. j \<le> n \<Longrightarrow> offs ! j = below keys j"
    using offsets_nth [OF keys(1)] by (simp_all add: offs_def)
  obtain cursor ts where f: "foldl place_one (offs, replicate (below keys n) 0) edges = (cursor, ts)" by force
  have p: "length ts = below keys n" "\<forall>i < length (vals edges k). ts ! (below keys k + i) = vals edges k ! i"
    using place_edges [OF keys, of edges "[]" offs cursor ts] offs f k by auto
  have g: "group_edges n keys edges = \<lparr>offsets = offs, targets = ts\<rparr>"
    using f offs by (simp add: group_edges_def offs_def [symmetric] Let_def)
  have "length (vals edges k) = count_list keys k" using keys(2) by (simp add: length_vals)
  then show ?thesis unfolding g using offs p k by (intro adj_of_placed) auto
qed

end
