(* ===== verification/Adjacency.thy ===== *)
theory Adjacency
  imports Cfg_Model Edge_Groups
begin

text \<open>
  The flat adjacency of the dominator-tree construction (\<open>Adjacency\<close> in
  \<open>rue-cfg/src/dominators.rs\<close>): offsets and targets, filled by counting, summing and placing.
  A block id is a \<open>nat\<close>; the capacity checks of the graph keep every offset below the width
  of the stored words, which are \<open>nat\<close>s here.
\<close>

section \<open>The structure\<close>

definition add_row :: "cfg \<Rightarrow> nat list \<times> nat list \<Rightarrow> nat \<Rightarrow> nat list \<times> nat list" where
  "add_row g st i =
     (case st of (offs, ts) \<Rightarrow>
        let ts = ts @ visit_successors g i in (offs @ [length ts], ts))"

definition adj_successors :: "cfg \<Rightarrow> nat \<Rightarrow> adjacency" where
  "adj_successors g n =
     (case foldl (add_row g) ([0], []) [0..<n] of (offs, ts) \<Rightarrow> \<lparr>offsets = offs, targets = ts\<rparr>)"

text \<open>The edges in the order in which the reversal visits them, as target and source.\<close>

definition reversed_edges :: "adjacency \<Rightarrow> nat \<Rightarrow> (nat \<times> nat) list" where
  "reversed_edges a n = concat (map (\<lambda>i. map (\<lambda>t. (t, i)) (adj_of a i)) [0..<n])"

definition adj_reversed :: "adjacency \<Rightarrow> nat \<Rightarrow> adjacency" where
  "adj_reversed a n = group_edges n (targets a) (reversed_edges a n)"

section \<open>The two adjacencies\<close>

lemma add_row_eq:
  "add_row g (offs, ts) i = (offs @ [length (ts @ visit_successors g i)], ts @ visit_successors g i)"
  by (simp add: add_row_def Let_def)

lemma successors_rows:
  assumes "foldl (add_row g) ([0], []) [0..<n] = (offs, ts)"
  shows "ts = concat (map (visit_successors g) [0..<n]) \<and> length offs = n + 1
    \<and> (\<forall>j \<le> n. offs ! j = length (concat (map (visit_successors g) [0..<j])))"
  using assms
proof (induction n arbitrary: offs ts)
  case (Suc n)
  obtain offs' ts' where f: "foldl (add_row g) ([0], []) [0..<n] = (offs', ts')" by force
  then have "offs = offs' @ [length (ts' @ visit_successors g n)]" "ts = ts' @ visit_successors g n"
    using Suc.prems f by (auto simp: add_row_eq)
  then show ?case using Suc.IH [OF f] by (auto simp: nth_append le_Suc_eq)
qed simp

lemma adj_successors_of: "b < n \<Longrightarrow> adj_of (adj_successors g n) b = visit_successors g b"
proof -
  assume b: "b < n"
  obtain offs ts where f: "foldl (add_row g) ([0], []) [0..<n] = (offs, ts)" by force
  note rows = successors_rows [OF f]
  have "[0..<n] = [0..<b] @ [b] @ [Suc b..<n]"
    using b upt_add_eq_append [of 0 b "n - b"] by (simp add: upt_conv_Cons)
  then have "ts = concat (map (visit_successors g) [0..<b]) @ visit_successors g b
      @ concat (map (visit_successors g) [Suc b..<n])"
    using rows by simp
  moreover have "offs ! b = length (concat (map (visit_successors g) [0..<b]))"
    "offs ! (b + 1) = length (concat (map (visit_successors g) [0..<b])) + length (visit_successors g b)"
    using rows b by simp_all
  ultimately show ?thesis by (simp add: adj_of_def adj_successors_def f)
qed

lemma adj_reversed_of:
  assumes "\<forall>i < n. \<forall>t \<in> set (visit_successors g i). t < n" "b < n"
  shows "set (adj_of (adj_reversed (adj_successors g n) n) b) = {i. i < n \<and> b \<in> set (visit_successors g i)}"
proof -
  let ?a = "adj_successors g n"
  obtain offs ts where f: "foldl (add_row g) ([0], []) [0..<n] = (offs, ts)" by force
  have t: "targets ?a = concat (map (visit_successors g) [0..<n])"
    using successors_rows [OF f] by (simp add: adj_successors_def f)
  have e: "reversed_edges ?a n = concat (map (\<lambda>i. map (\<lambda>t. (t, i)) (visit_successors g i)) [0..<n])"
    by (auto simp: reversed_edges_def adj_successors_of intro!: arg_cong [where f = concat])
  have "map fst (reversed_edges ?a n) = targets ?a" unfolding e t by (simp add: map_concat comp_def)
  moreover have "\<forall>k \<in> set (targets ?a). k < n" using assms(1) unfolding t by auto
  ultimately have "adj_of (adj_reversed ?a n) b = vals (reversed_edges ?a n) b"
    unfolding adj_reversed_def using assms(2) by (intro group_edges_of) simp_all
  then show ?thesis by (force simp: vals_def e)
qed

end
