(* ===== verification/Dominator_Tree.thy ===== *)
theory Dominator_Tree
  imports Adjacency
begin

text \<open>
  The dominator tree of a control-flow graph and the block order for lowering, as
  \<open>rue-cfg/src/dominators.rs\<close> computes them.  A result \<open>None\<close> is a panic of the source (an
  index out of range, a missing entry that it expects) or a loop that does not end.
\<close>

section \<open>Postorder numbering\<close>

record dfs_state =
  visited :: "bool list"
  stack :: "(nat \<times> nat) list"
  post_order :: "nat list"
  post_num :: "nat option list"

lemma unvisited_decreases:
  assumes "s < length vs" "\<not> vs ! s"
  shows "length (filter Not (vs[s := True])) < length (filter Not vs)"
proof -
  have "vs = take s vs @ vs ! s # drop (Suc s) vs" using assms(1) by (simp add: id_take_nth_drop)
  then have "filter Not vs = filter Not (take s vs) @ filter Not (vs ! s # drop (Suc s) vs)" by (metis filter_append)
  then have "length (filter Not vs) = length (filter Not (take s vs)) + 1 + length (filter Not (drop (Suc s) vs))"
    using assms(2) by simp
  moreover have "length (filter Not (vs[s := True])) = length (filter Not (take s vs)) + length (filter Not (drop (Suc s) vs))"
    using assms(1) by (simp add: upd_conv_take_nth_drop)
  ultimately show ?thesis by simp
qed

function dfs_loop :: "adjacency \<Rightarrow> dfs_state \<Rightarrow> dfs_state option" where
  "dfs_loop succs st =
     (case stack st of
        [] \<Rightarrow> Some st
      | (block, idx) # rest \<Rightarrow>
          let block_succs = adj_of succs block in
          if idx < length block_succs then
            let s = block_succs ! idx; rest = (block, idx + 1) # rest in
            if s \<ge> length (visited st) then None
            else if \<not> visited st ! s then
              dfs_loop succs (st\<lparr>visited := (visited st)[s := True], stack := (s, 0) # rest\<rparr>)
            else dfs_loop succs (st\<lparr>stack := rest\<rparr>)
          else
            dfs_loop succs (st\<lparr>stack := rest,
              post_num := (post_num st)[block := Some (length (post_order st))],
              post_order := post_order st @ [block]\<rparr>))"
  by pat_completeness auto
termination
  by (relation "measures [\<lambda>(succs, st). length (filter Not (visited st)),
      \<lambda>(succs, st). (\<Sum>(b, i) \<leftarrow> stack st. length (adj_of succs b) - i) + length (stack st)]")
    (auto simp: unvisited_decreases)

declare dfs_loop.simps [simp del]

definition dfs :: "adjacency \<Rightarrow> nat \<Rightarrow> nat \<Rightarrow> dfs_state option" where
  "dfs succs e n =
     (let st = \<lparr>visited = replicate n False, stack = [], post_order = [], post_num = replicate n None\<rparr> in
      if e < n then dfs_loop succs (st\<lparr>visited := (visited st)[e := True], stack := [(e, 0)]\<rparr>)
      else Some st)"

section \<open>The fixpoint\<close>

partial_function (option) walk_up ::
  "nat option list \<Rightarrow> nat option list \<Rightarrow> nat \<Rightarrow> nat \<Rightarrow> nat \<Rightarrow> (nat \<times> nat) option" where
  "walk_up idoms post a pa pb =
     (if pa < pb then
        Option.bind (idoms ! a) (\<lambda>a. Option.bind (post ! a) (\<lambda>pa. walk_up idoms post a pa pb))
      else Some (a, pa))"

partial_function (option) intersect ::
  "nat option list \<Rightarrow> nat option list \<Rightarrow> nat \<Rightarrow> nat \<Rightarrow> nat option" where
  "intersect idoms post a b =
     (if a \<noteq> b then
        Option.bind (post ! a) (\<lambda>pa.
        Option.bind (post ! b) (\<lambda>pb.
        Option.bind (walk_up idoms post a pa pb) (\<lambda>(a, pa).
        Option.bind (walk_up idoms post b pb pa) (\<lambda>(b, pb). intersect idoms post a b))))
      else Some a)"

declare walk_up.simps [code] intersect.simps [code]

definition meet_pred ::
  "nat option list \<Rightarrow> nat option list \<Rightarrow> nat option option \<Rightarrow> nat \<Rightarrow> nat option option" where
  "meet_pred idoms post acc p =
     Option.bind acc (\<lambda>new_idom.
       if post ! p = None then Some new_idom
       else if idoms ! p = None then Some new_idom
       else case new_idom of
         None \<Rightarrow> Some (Some p)
       | Some cur \<Rightarrow> map_option Some (intersect idoms post p cur))"

definition new_idom_of :: "nat option list \<Rightarrow> nat option list \<Rightarrow> nat list \<Rightarrow> nat option option" where
  "new_idom_of idoms post ps = foldl (meet_pred idoms post) (Some None) ps"

definition visit_block ::
  "nat \<Rightarrow> adjacency \<Rightarrow> nat option list \<Rightarrow> (nat option list \<times> bool) option \<Rightarrow> nat
    \<Rightarrow> (nat option list \<times> bool) option" where
  "visit_block e preds post st b =
     Option.bind st (\<lambda>(idoms, changed).
       if b = e then Some (idoms, changed)
       else Option.bind (new_idom_of idoms post (adj_of preds b)) (\<lambda>new_idom.
         case new_idom of
           None \<Rightarrow> Some (idoms, changed)
         | Some ni \<Rightarrow> if idoms ! b \<noteq> Some ni then Some (idoms[b := Some ni], True) else Some (idoms, changed)))"

definition sweep ::
  "nat \<Rightarrow> adjacency \<Rightarrow> nat option list \<Rightarrow> nat list \<Rightarrow> nat option list \<Rightarrow> (nat option list \<times> bool) option" where
  "sweep e preds post rpo idoms = foldl (visit_block e preds post) (Some (idoms, False)) rpo"

partial_function (option) fixpoint ::
  "nat \<Rightarrow> adjacency \<Rightarrow> nat option list \<Rightarrow> nat list \<Rightarrow> nat option list \<Rightarrow> nat option list option" where
  "fixpoint e preds post rpo idoms =
     Option.bind (sweep e preds post rpo idoms) (\<lambda>(idoms, changed).
       if changed then fixpoint e preds post rpo idoms else Some idoms)"

declare fixpoint.simps [code]

section \<open>Preorder intervals\<close>

definition tree_edges :: "nat option list \<Rightarrow> (nat \<times> nat) list" where
  "tree_edges idoms =
     concat (map (\<lambda>b. case idoms ! b of
         Some parent \<Rightarrow> if parent \<noteq> b then [(parent, b)] else []
       | None \<Rightarrow> []) [0..<length idoms])"

definition tree_children :: "nat option list \<Rightarrow> nat \<Rightarrow> adjacency" where
  "tree_children idoms n = group_edges n (map fst (tree_edges idoms)) (tree_edges idoms)"

record interval_state =
  next_num :: nat
  pre_num :: "nat option list"
  subtree_last :: "nat list"
  walk_stack :: "(nat \<times> nat) list"

partial_function (option) interval_loop :: "adjacency \<Rightarrow> interval_state \<Rightarrow> interval_state option" where
  "interval_loop children st =
     (case walk_stack st of
        [] \<Rightarrow> Some st
      | (block, cursor) # rest \<Rightarrow>
          let block_children = adj_of children block in
          if cursor < length block_children then
            let child = block_children ! cursor in
            interval_loop children
              (st\<lparr>walk_stack := (child, 0) # (block, cursor + 1) # rest,
                 pre_num := (pre_num st)[child := Some (next_num st)],
                 next_num := next_num st + 1\<rparr>)
          else
            interval_loop children
              (st\<lparr>walk_stack := rest, subtree_last := (subtree_last st)[block := next_num st - 1]\<rparr>))"

declare interval_loop.simps [code]

definition preorder_intervals :: "nat option list \<Rightarrow> nat \<Rightarrow> nat \<Rightarrow> (nat option list \<times> nat list) option" where
  "preorder_intervals idoms e n =
     (let pre = replicate n None; last = replicate n 0 in
      if e \<ge> n then Some (pre, last)
      else map_option (\<lambda>st. (pre_num st, subtree_last st))
        (interval_loop (tree_children idoms n)
          \<lparr>next_num = 1, pre_num = pre[e := Some 0], subtree_last = last, walk_stack = [(e, 0)]\<rparr>))"

section \<open>The tree and its queries\<close>

record dominator_tree =
  tree_idom :: "nat option list"
  tree_post_num :: "nat option list"
  tree_pre_num :: "nat option list"
  tree_subtree_last :: "nat list"

definition compute_tree :: "cfg \<Rightarrow> dominator_tree option" where
  "compute_tree g =
     (let n = length (blocks g); e = entry g; succs = adj_successors g n in
      Option.bind (dfs succs e n) (\<lambda>st.
      let rpo = rev (post_order st);
          idoms = replicate n None;
          idoms = (if e < n then idoms[e := Some e] else idoms)
      in Option.bind (fixpoint e (adj_reversed succs n) (post_num st) rpo idoms) (\<lambda>idoms.
      Option.bind (preorder_intervals idoms e n) (\<lambda>(pre, last).
      Some \<lparr>tree_idom = idoms, tree_post_num = post_num st, tree_pre_num = pre, tree_subtree_last = last\<rparr>))))"

definition get_flat :: "'a option list \<Rightarrow> nat \<Rightarrow> 'a option" where
  "get_flat xs i = (if i < length xs then xs ! i else None)"

definition is_reachable :: "dominator_tree \<Rightarrow> nat \<Rightarrow> bool" where
  "is_reachable t b \<longleftrightarrow> get_flat (tree_post_num t) b \<noteq> None"

definition idom :: "dominator_tree \<Rightarrow> nat \<Rightarrow> nat option" where
  "idom t b =
     (case get_flat (tree_idom t) b of
        Some d \<Rightarrow> if d = b then None else Some d
      | None \<Rightarrow> None)"

definition dominates :: "dominator_tree \<Rightarrow> nat \<Rightarrow> nat \<Rightarrow> bool" where
  "dominates t a b \<longleftrightarrow>
     (case (get_flat (tree_pre_num t) a, get_flat (tree_pre_num t) b) of
        (Some pre_a, Some pre_b) \<Rightarrow> pre_a \<le> pre_b \<and> pre_b \<le> tree_subtree_last t ! a
      | _ \<Rightarrow> a = b)"

section \<open>The lowering order\<close>

text \<open>The heap is reversed, so it gives its least element.\<close>

fun heap_pop :: "nat list \<Rightarrow> (nat \<times> nat list) option" where
  "heap_pop [] = None"
| "heap_pop (x # xs) = (let m = foldl min x xs in Some (m, remove1 m (x # xs)))"

partial_function (option) lower_loop :: "nat list list \<Rightarrow> nat list \<Rightarrow> nat list \<Rightarrow> nat list option" where
  "lower_loop children ready order =
     (case heap_pop ready of
        None \<Rightarrow> Some order
      | Some (index, ready) \<Rightarrow> lower_loop children (ready @ children ! index) (order @ [index]))"

declare lower_loop.simps [code]

definition add_child :: "dominator_tree \<Rightarrow> nat list list \<Rightarrow> nat \<Rightarrow> nat list list" where
  "add_child t children i =
     (case idom t i of Some parent \<Rightarrow> children[parent := children ! parent @ [i]] | None \<Rightarrow> children)"

definition block_lowering_order :: "cfg \<Rightarrow> nat list option" where
  "block_lowering_order g =
     (let n = length (blocks g) in
      Option.bind (compute_tree g) (\<lambda>t.
      let children = foldl (add_child t) (replicate n []) [0..<n];
          ready = (if is_reachable t (entry g) then [entry g] else [])
      in Option.bind (lower_loop children ready []) (\<lambda>order.
         Some (order @ filter (\<lambda>i. \<not> is_reachable t i) [0..<n]))))"

end
