(* ===== verification/Dominator_Dfs.thy ===== *)
theory Dominator_Dfs
  imports Dominator_Tree
begin

text \<open>
  The postorder numbering of the dominator-tree construction: the search ends, numbers exactly
  the reachable blocks, and gives every one of them but the entry a predecessor with a greater
  number.
\<close>

section \<open>Graphs and reachability\<close>

definition flow_ok :: "(nat \<Rightarrow> nat list) \<Rightarrow> nat \<Rightarrow> nat \<Rightarrow> bool" where
  "flow_ok sc n e \<longleftrightarrow> e < n \<and> (\<forall>i < n. \<forall>t \<in> set (sc i). t < n)"

inductive reach :: "(nat \<Rightarrow> nat list) \<Rightarrow> nat \<Rightarrow> nat \<Rightarrow> bool" for sc e where
  reach_entry: "reach sc e e"
| reach_step: "reach sc e a \<Longrightarrow> b \<in> set (sc a) \<Longrightarrow> reach sc e b"

lemma reach_less: "flow_ok sc n e \<Longrightarrow> reach sc e b \<Longrightarrow> b < n"
proof -
  assume ok: "flow_ok sc n e" and "reach sc e b"
  from this(2) show ?thesis using ok by (induction rule: reach.induct) (auto simp: flow_ok_def)
qed

text \<open>
  A numbering: \<open>po\<close> lists the reachable blocks, \<open>post\<close> is the position in it, and every
  reachable block but the entry has a predecessor that is numbered later.
\<close>

definition pos_of :: "nat option list \<Rightarrow> nat \<Rightarrow> nat" where
  "pos_of post b = the (post ! b)"

definition numbering :: "(nat \<Rightarrow> nat list) \<Rightarrow> nat \<Rightarrow> nat \<Rightarrow> nat list \<Rightarrow> nat option list \<Rightarrow> bool" where
  "numbering sc n e po post \<longleftrightarrow>
     length post = n \<and> distinct po \<and> (\<forall>b. b \<in> set po \<longleftrightarrow> reach sc e b) \<and> po \<noteq> [] \<and> last po = e
     \<and> (\<forall>b < n. \<forall>i. post ! b = Some i \<longleftrightarrow> i < length po \<and> po ! i = b)
     \<and> (\<forall>c. reach sc e c \<longrightarrow> c \<noteq> e \<longrightarrow>
         (\<exists>p. reach sc e p \<and> c \<in> set (sc p) \<and> pos_of post c < pos_of post p))"

section \<open>The invariant of the search\<close>

definition on_stack :: "dfs_state \<Rightarrow> nat list" where
  "on_stack st = map fst (stack st)"

definition dfs_inv :: "(nat \<Rightarrow> nat list) \<Rightarrow> nat \<Rightarrow> nat \<Rightarrow> dfs_state \<Rightarrow> bool" where
  "dfs_inv sc n e st \<longleftrightarrow>
     length (visited st) = n \<and> length (post_num st) = n
     \<and> distinct (on_stack st @ post_order st)
     \<and> (\<forall>b. (b < n \<and> visited st ! b) \<longleftrightarrow> b \<in> set (on_stack st) \<union> set (post_order st))
     \<and> (\<forall>b \<in> set (on_stack st) \<union> set (post_order st). reach sc e b)
     \<and> (if stack st = [] then post_order st \<noteq> [] \<and> last (post_order st) = e else last (on_stack st) = e)
     \<and> (\<forall>b \<in> set (post_order st). set (sc b) \<subseteq> set (on_stack st) \<union> set (post_order st))
     \<and> (\<forall>(b, i) \<in> set (stack st). set (take i (sc b)) \<subseteq> set (on_stack st) \<union> set (post_order st))
     \<and> successively (\<lambda>x y. x \<in> set (sc y)) (on_stack st)
     \<and> (\<forall>b < n. \<forall>i. post_num st ! b = Some i \<longleftrightarrow> i < length (post_order st) \<and> post_order st ! i = b)
     \<and> (\<forall>c \<in> set (post_order st). c \<noteq> e \<longrightarrow>
         (\<exists>p \<in> set (on_stack st) \<union> set (post_order st). c \<in> set (sc p)
            \<and> (p \<in> set (on_stack st) \<or> pos_of (post_num st) c < pos_of (post_num st) p)))"

lemma dfs_invD:
  assumes "dfs_inv sc n e st"
  shows "length (visited st) = n" "length (post_num st) = n" "distinct (on_stack st @ post_order st)"
    "(b < n \<and> visited st ! b) \<longleftrightarrow> b \<in> set (on_stack st) \<union> set (post_order st)"
    "b \<in> set (on_stack st) \<union> set (post_order st) \<Longrightarrow> reach sc e b"
    "if stack st = [] then post_order st \<noteq> [] \<and> last (post_order st) = e else last (on_stack st) = e"
    "b \<in> set (post_order st) \<Longrightarrow> set (sc b) \<subseteq> set (on_stack st) \<union> set (post_order st)"
    "(b, i) \<in> set (stack st) \<Longrightarrow> set (take i (sc b)) \<subseteq> set (on_stack st) \<union> set (post_order st)"
    "successively (\<lambda>x y. x \<in> set (sc y)) (on_stack st)"
    "b < n \<Longrightarrow> post_num st ! b = Some i \<longleftrightarrow> i < length (post_order st) \<and> post_order st ! i = b"
    "c \<in> set (post_order st) \<Longrightarrow> c \<noteq> e \<Longrightarrow>
       \<exists>p \<in> set (on_stack st) \<union> set (post_order st). c \<in> set (sc p)
         \<and> (p \<in> set (on_stack st) \<or> pos_of (post_num st) c < pos_of (post_num st) p)"
  using assms unfolding dfs_inv_def by blast+

lemma dfs_advance:
  assumes "dfs_inv sc n e st" "stack st = (b, i) # rest" "i < length (sc b)" "visited st ! (sc b ! i)" "sc b ! i < n"
  shows "dfs_inv sc n e (st\<lparr>stack := (b, i + 1) # rest\<rparr>)"
proof -
  let ?st = "st\<lparr>stack := (b, i + 1) # rest\<rparr>"
  note inv = dfs_invD [OF assms(1)]
  have os: "on_stack ?st = on_stack st" by (simp add: on_stack_def assms(2))
  have "sc b ! i \<in> set (on_stack st) \<union> set (post_order st)" using inv(4) assms(4,5) by blast
  moreover have "set (take (i + 1) (sc b)) = insert (sc b ! i) (set (take i (sc b)))"
    using assms(3) by (simp add: take_Suc_conv_app_nth)
  moreover have "set (take i (sc b)) \<subseteq> set (on_stack st) \<union> set (post_order st)"
    using inv(8) assms(2) by simp
  ultimately have "\<forall>(x, k) \<in> set (stack ?st). set (take k (sc x)) \<subseteq> set (on_stack ?st) \<union> set (post_order ?st)"
    using inv(8) assms(2) unfolding os by auto
  then show ?thesis using assms(1,2) unfolding dfs_inv_def os by simp
qed

lemma dfs_push:
  assumes "dfs_inv sc n e st" "stack st = (b, i) # rest" "i < length (sc b)" "\<not> visited st ! (sc b ! i)" "sc b ! i < n"
  shows "dfs_inv sc n e (st\<lparr>visited := (visited st)[sc b ! i := True], stack := (sc b ! i, 0) # (b, i + 1) # rest\<rparr>)"
proof -
  let ?s = "sc b ! i"
  let ?st = "st\<lparr>visited := (visited st)[?s := True], stack := (?s, 0) # (b, i + 1) # rest\<rparr>"
  note inv = dfs_invD [OF assms(1)]
  have os: "on_stack ?st = ?s # on_stack st" by (simp add: on_stack_def assms(2))
  have new: "?s \<notin> set (on_stack st) \<union> set (post_order st)" using inv(4) assms(4) by blast
  have "reach sc e b" using inv(5) assms(2) by (simp add: on_stack_def)
  then have r: "reach sc e ?s" using assms(3) by (auto intro: reach_step)
  have tk: "set (take (i + 1) (sc b)) = insert ?s (set (take i (sc b)))"
    using assms(3) by (simp add: take_Suc_conv_app_nth)
  have "\<forall>(x, k) \<in> set (stack ?st). set (take k (sc x)) \<subseteq> set (on_stack ?st) \<union> set (post_order ?st)"
    using inv(8) assms(2) tk unfolding os by fastforce
  moreover have "\<forall>x \<in> set (post_order ?st). set (sc x) \<subseteq> set (on_stack ?st) \<union> set (post_order ?st)"
    using inv(7) unfolding os by fastforce
  moreover have "successively (\<lambda>x y. x \<in> set (sc y)) (on_stack ?st)"
    using inv(9) assms(2,3) by (simp add: os on_stack_def)
  moreover have "(\<forall>x. (x < n \<and> visited ?st ! x) \<longleftrightarrow> x \<in> set (on_stack ?st) \<union> set (post_order ?st))"
    using inv(1,4) assms(5) unfolding os by (auto simp: nth_list_update)
  moreover have "\<forall>x \<in> set (on_stack ?st) \<union> set (post_order ?st). reach sc e x"
    using inv(5) r unfolding os by auto
  moreover have "last (on_stack ?st) = e" using inv(6) assms(2) by (simp add: os on_stack_def)
  moreover have "\<forall>c \<in> set (post_order ?st). c \<noteq> e \<longrightarrow>
      (\<exists>p \<in> set (on_stack ?st) \<union> set (post_order ?st). c \<in> set (sc p)
        \<and> (p \<in> set (on_stack ?st) \<or> pos_of (post_num ?st) c < pos_of (post_num ?st) p))"
    using inv(11) unfolding os by fastforce
  moreover have "distinct (on_stack ?st @ post_order ?st)" using inv(3) new unfolding os by auto
  moreover have "stack ?st \<noteq> []" "length (visited ?st) = n" "length (post_num ?st) = n" using inv(1,2) by simp_all
  moreover have "\<forall>x < n. \<forall>k. post_num ?st ! x = Some k \<longleftrightarrow> k < length (post_order ?st) \<and> post_order ?st ! k = x"
    using inv(10) by simp
  ultimately show ?thesis unfolding dfs_inv_def by presburger
qed

lemma dfs_pop:
  assumes "dfs_inv sc n e st" "stack st = (b, i) # rest" "\<not> i < length (sc b)" "flow_ok sc n e"
  shows "dfs_inv sc n e (st\<lparr>stack := rest, post_num := (post_num st)[b := Some (length (post_order st))],
    post_order := post_order st @ [b]\<rparr>)"
proof -
  let ?st = "st\<lparr>stack := rest, post_num := (post_num st)[b := Some (length (post_order st))],
    post_order := post_order st @ [b]\<rparr>"
  note inv = dfs_invD [OF assms(1)]
  have os: "on_stack st = b # on_stack ?st" by (simp add: on_stack_def assms(2))
  have po: "post_order ?st = post_order st @ [b]" by simp
  have same: "set (on_stack ?st) \<union> set (post_order ?st) = set (on_stack st) \<union> set (post_order st)"
    unfolding os po by auto
  have b: "b < n" using inv(5) reach_less [OF assms(4)] by (simp add: os)
  have fresh: "b \<notin> set (post_order st)" using inv(3) by (auto simp: os)
  have num: "post_num ?st ! x = Some k \<longleftrightarrow> k < length (post_order ?st) \<and> post_order ?st ! k = x" if "x < n" for x k
    using inv(2,10) that b fresh by (auto simp: nth_list_update nth_append in_set_conv_nth)
  have old: "pos_of (post_num ?st) x < length (post_order st) \<and> pos_of (post_num ?st) x = pos_of (post_num st) x"
    if x: "x \<in> set (post_order st)" for x
  proof -
    obtain k where k: "k < length (post_order st)" "post_order st ! k = x" using x by (auto simp: in_set_conv_nth)
    have "x < n" using inv(5) x reach_less [OF assms(4)] by simp
    then have "post_num st ! x = Some k" using inv(10) k by blast
    moreover have "x \<noteq> b" using fresh x by blast
    ultimately show ?thesis using k by (auto simp: pos_of_def)
  qed
  have top: "pos_of (post_num ?st) b = length (post_order st)" using b inv(2) by (simp add: pos_of_def)
  have parent: "\<exists>p \<in> set (on_stack ?st) \<union> set (post_order ?st). c \<in> set (sc p)
      \<and> (p \<in> set (on_stack ?st) \<or> pos_of (post_num ?st) c < pos_of (post_num ?st) p)"
    if c: "c \<in> set (post_order ?st)" "c \<noteq> e" for c
  proof (cases "c = b")
    case True
    then have "on_stack ?st \<noteq> []" using inv(6) c(2) assms(2) by (auto simp: os)
    then obtain y ys where "on_stack ?st = y # ys" by (cases "on_stack ?st") auto
    then show ?thesis using inv(9) True by (auto simp: os)
  next
    case False
    then have cp: "c \<in> set (post_order st)" using c(1) by simp
    obtain p where p: "p \<in> set (on_stack st) \<union> set (post_order st)" "c \<in> set (sc p)"
      "p \<in> set (on_stack st) \<or> pos_of (post_num st) c < pos_of (post_num st) p"
      using inv(11) [OF cp c(2)] by blast
    consider (rest) "p \<in> set (on_stack ?st)" | (top) "p = b" | (old) "p \<in> set (post_order st)"
      "pos_of (post_num st) c < pos_of (post_num st) p"
      using p(1,3) inv(3) unfolding os by auto
    then show ?thesis
    proof cases
      case top
      then show ?thesis using p(2) old [OF cp] \<open>pos_of (post_num ?st) b = _\<close> by (intro bexI [of _ b]) auto
    next
      case old': old
      then show ?thesis using p(2) old [OF cp] old [OF old'(1)] by (intro bexI [of _ p]) auto
    qed (use p(2) in blast)
  qed
  have "if stack ?st = [] then post_order ?st \<noteq> [] \<and> last (post_order ?st) = e else last (on_stack ?st) = e"
    using inv(6) assms(2) by (auto simp: os on_stack_def)
  moreover have "distinct (on_stack ?st @ post_order ?st)" using inv(3) by (auto simp: os)
  moreover have "\<forall>x \<in> set (post_order ?st). set (sc x) \<subseteq> set (on_stack ?st) \<union> set (post_order ?st)"
    using inv(7,8) assms(2,3) unfolding same by fastforce
  moreover have "\<forall>(x, k) \<in> set (stack ?st). set (take k (sc x)) \<subseteq> set (on_stack ?st) \<union> set (post_order ?st)"
    using inv(8) assms(2) unfolding same by fastforce
  moreover have "successively (\<lambda>x y. x \<in> set (sc y)) (on_stack ?st)"
    using inv(9) unfolding os by (cases "on_stack ?st") auto
  ultimately show ?thesis using inv(1,2,4,5) num parent unfolding dfs_inv_def same by auto
qed

lemma dfs_loop_inv:
  assumes "flow_ok (adj_of succs) n e" "dfs_inv (adj_of succs) n e st"
  shows "\<exists>st'. dfs_loop succs st = Some st' \<and> dfs_inv (adj_of succs) n e st' \<and> stack st' = []"
  using assms
proof (induction succs st rule: dfs_loop.induct)
  case (1 succs st)
  show ?case
  proof (cases "stack st")
    case Nil
    then show ?thesis using 1(5) by (subst dfs_loop.simps) simp
  next
    case (Cons a rest)
    obtain b i where a: "stack st = (b, i) # rest" using Cons by (cases a) auto
    note inv = dfs_invD [OF 1(5)]
    show ?thesis
    proof (cases "i < length (adj_of succs b)")
      case True
      have "reach (adj_of succs) e b" using inv(5) a by (simp add: on_stack_def)
      then have "b < n" using reach_less 1(4) by blast
      then have s: "adj_of succs b ! i < n" using 1(4) True by (auto simp: flow_ok_def)
      show ?thesis
      proof (cases "visited st ! (adj_of succs b ! i)")
        case vis: True
        show ?thesis using 1(2) [OF a refl refl True refl refl _ _ 1(4) dfs_advance [OF 1(5) a True vis s]] vis True s a inv(1)
          by (subst dfs_loop.simps) (simp add: Let_def)
      next
        case False
        show ?thesis using 1(1) [OF a refl refl True refl refl _ False 1(4) dfs_push [OF 1(5) a True False s]] False True s a inv(1)
          by (subst dfs_loop.simps) (simp add: Let_def)
      qed
    next
      case False
      show ?thesis using 1(3) [OF a refl refl False 1(4) dfs_pop [OF 1(5) a False 1(4)]] False a
        by (subst dfs_loop.simps) (simp add: Let_def)
    qed
  qed
qed

theorem dfs_numbers:
  assumes ok: "flow_ok (adj_of succs) n e"
  shows "\<exists>st. dfs succs e n = Some st \<and> numbering (adj_of succs) n e (post_order st) (post_num st)"
proof -
  let ?sc = "adj_of succs"
  define st0 where "st0 = \<lparr>visited = (replicate n False)[e := True], stack = [(e, 0)], post_order = [], post_num = replicate n None\<rparr>"
  have e: "e < n" using ok by (simp add: flow_ok_def)
  have "dfs_inv ?sc n e st0"
    unfolding dfs_inv_def using e by (auto simp: st0_def on_stack_def nth_list_update reach_entry)
  from dfs_loop_inv [OF ok this] obtain st where st: "dfs_loop succs st0 = Some st" "dfs_inv ?sc n e st" "stack st = []"
    by blast
  note inv = dfs_invD [OF st(2)]
  have none: "on_stack st = []" by (simp add: on_stack_def st(3))
  have "reach ?sc e b \<Longrightarrow> b \<in> set (post_order st)" for b
  proof (induction rule: reach.induct)
    case reach_entry
    show ?case using inv(6) st(3) last_in_set by fastforce
  next
    case (reach_step a b)
    then show ?case using inv(7) none by fastforce
  qed
  then have r: "\<forall>b. b \<in> set (post_order st) \<longleftrightarrow> reach ?sc e b" using inv(5) none by auto
  have "\<exists>p. reach ?sc e p \<and> c \<in> set (?sc p) \<and> pos_of (post_num st) c < pos_of (post_num st) p"
    if "reach ?sc e c" "c \<noteq> e" for c
    using inv(11) [of c] that r none by auto
  then have "numbering ?sc n e (post_order st) (post_num st)"
    unfolding numbering_def using inv(2,3,6,10) none st(3) r by auto
  then show ?thesis using st(1) e by (auto simp: dfs_def Let_def st0_def)
qed

end
