(* ===== verification/Dominator_Paths.thy ===== *)
theory Dominator_Paths
  imports Dominator_Dfs
begin

text \<open>
  Dominance by paths, and partial dominator trees: the trees the fixpoint passes through, with
  the chains of ancestors in them and what the two-finger intersection computes of them.
\<close>

section \<open>Dominance\<close>

definition walk :: "(nat \<Rightarrow> nat list) \<Rightarrow> nat \<Rightarrow> nat list \<Rightarrow> bool" where
  "walk sc e xs \<longleftrightarrow> xs \<noteq> [] \<and> hd xs = e \<and> successively (\<lambda>x y. y \<in> set (sc x)) xs"

definition dom_by :: "(nat \<Rightarrow> nat list) \<Rightarrow> nat \<Rightarrow> nat \<Rightarrow> nat \<Rightarrow> bool" where
  "dom_by sc e a b \<longleftrightarrow> (\<forall>xs. walk sc e xs \<longrightarrow> last xs = b \<longrightarrow> a \<in> set xs)"

lemma walk_snoc: "walk sc e (xs @ [b]) \<longleftrightarrow> (if xs = [] then b = e else walk sc e xs \<and> b \<in> set (sc (last xs)))"
  by (cases "xs = []") (auto simp: walk_def successively_append_iff hd_append)

lemma reach_walk: "reach sc e b \<longleftrightarrow> (\<exists>xs. walk sc e xs \<and> last xs = b)"
proof
  show "reach sc e b \<Longrightarrow> \<exists>xs. walk sc e xs \<and> last xs = b"
  proof (induction rule: reach.induct)
    case reach_entry
    show ?case by (intro exI [of _ "[e]"]) (simp add: walk_def)
  next
    case (reach_step a b)
    then obtain xs where xs: "walk sc e xs" "last xs = a" by blast
    then have "xs \<noteq> []" by (simp add: walk_def)
    with xs have "walk sc e (xs @ [b])" using reach_step.hyps(2) by (simp add: walk_snoc)
    then show ?case by (intro exI [of _ "xs @ [b]"]) simp
  qed
next
  have "walk sc e xs \<Longrightarrow> reach sc e (last xs)" for xs
  proof (induction xs rule: rev_induct)
    case (snoc b xs)
    then show ?case by (auto simp: walk_snoc intro: reach.intros split: if_splits)
  qed (simp add: walk_def)
  then show "\<exists>xs. walk sc e xs \<and> last xs = b \<Longrightarrow> reach sc e b" by blast
qed

lemma dom_self: "dom_by sc e b b"
  by (auto simp: dom_by_def walk_def)

lemma dom_entry: "dom_by sc e x e \<longleftrightarrow> x = e"
proof
  assume d: "dom_by sc e x e"
  have "walk sc e [e]" by (simp add: walk_def)
  from d [unfolded dom_by_def, rule_format, OF this] show "x = e" by simp
qed (simp add: dom_self)

lemma dom_pred: "dom_by sc e x b \<Longrightarrow> b \<in> set (sc p) \<Longrightarrow> x \<noteq> b \<Longrightarrow> dom_by sc e x p"
  unfolding dom_by_def
proof (intro allI impI)
  fix xs
  assume d: "\<forall>xs. walk sc e xs \<longrightarrow> last xs = b \<longrightarrow> x \<in> set xs" and b: "b \<in> set (sc p)" "x \<noteq> b"
    and xs: "walk sc e xs" "last xs = p"
  have "xs \<noteq> []" using xs(1) by (simp add: walk_def)
  then have "walk sc e (xs @ [b])" using xs b by (simp add: walk_snoc)
  with d have "x \<in> set (xs @ [b])" by (metis last_snoc)
  with b show "x \<in> set xs" by simp
qed

section \<open>Parents in the numbering\<close>

definition parent_ok :: "(nat \<Rightarrow> nat list) \<Rightarrow> nat \<Rightarrow> nat option list \<Rightarrow> (nat \<Rightarrow> nat) \<Rightarrow> bool" where
  "parent_ok sc e post par \<longleftrightarrow>
     (\<forall>c. reach sc e c \<longrightarrow> c \<noteq> e \<longrightarrow>
        reach sc e (par c) \<and> c \<in> set (sc (par c)) \<and> pos_of post c < pos_of post (par c))"

lemma numbering_parent: "numbering sc n e po post \<Longrightarrow> \<exists>par. parent_ok sc e post par"
  unfolding numbering_def parent_ok_def by (intro choice) blast

inductive panc :: "nat \<Rightarrow> (nat \<Rightarrow> nat) \<Rightarrow> nat \<Rightarrow> nat \<Rightarrow> bool" for e par where
  panc_refl: "panc e par y y"
| panc_step: "y \<noteq> e \<Longrightarrow> panc e par (par y) x \<Longrightarrow> panc e par y x"

lemma panc_trans: "panc e par y x \<Longrightarrow> panc e par x z \<Longrightarrow> panc e par y z"
  by (induction rule: panc.induct) (auto intro: panc.intros)

lemma panc_pos:
  assumes "parent_ok sc e post par" "panc e par y x" "reach sc e y"
  shows "reach sc e x \<and> pos_of post y \<le> pos_of post x"
  using assms(2,3)
proof (induction rule: panc.induct)
  case (panc_step y x)
  have "reach sc e (par y) \<and> pos_of post y < pos_of post (par y)"
    using assms(1) panc_step.hyps(1) panc_step.prems by (auto simp: parent_ok_def)
  then show ?case using panc_step.IH by force
qed simp

text \<open>A dominator of a block that is not below a given ancestor dominates that ancestor.\<close>

lemma dom_panc:
  assumes "parent_ok sc e post par" "panc e par y d" "reach sc e y"
    and "dom_by sc e x y" "pos_of post d \<le> pos_of post x"
  shows "dom_by sc e x d"
  using assms(2,3,4,5)
proof (induction rule: panc.induct)
  case (panc_step y d)
  have p: "reach sc e (par y)" "y \<in> set (sc (par y))" "pos_of post y < pos_of post (par y)"
    using assms(1) panc_step.hyps(1) panc_step.prems by (auto simp: parent_ok_def)
  have "pos_of post y < pos_of post x"
    using panc_pos [OF assms(1) panc_step.hyps(2) p(1)] p(3) panc_step.prems(3) by linarith
  then have "x \<noteq> y" by blast
  then have "dom_by sc e x (par y)" using dom_pred p(2) panc_step.prems(2) by blast
  then show ?case using panc_step.IH p(1) panc_step.prems(3) by blast
qed

section \<open>Partial trees\<close>

abbreviation anc :: "nat option list \<Rightarrow> nat \<Rightarrow> nat \<Rightarrow> bool" where
  "anc t \<equiv> (\<lambda>y d. t ! y = Some d)\<^sup>*\<^sup>*"

definition tree_ok ::
  "(nat \<Rightarrow> nat list) \<Rightarrow> nat \<Rightarrow> nat \<Rightarrow> nat option list \<Rightarrow> (nat \<Rightarrow> nat) \<Rightarrow> nat option list \<Rightarrow> bool" where
  "tree_ok sc n e post par t \<longleftrightarrow>
     length t = n \<and> t ! e = Some e
     \<and> (\<forall>y < n. \<not> reach sc e y \<longrightarrow> t ! y = None)
     \<and> (\<forall>y d. reach sc e y \<longrightarrow> y \<noteq> e \<longrightarrow> t ! y = Some d \<longrightarrow>
          t ! d \<noteq> None \<and> panc e par (par y) d \<and> (\<forall>x. dom_by sc e x y \<longrightarrow> x \<noteq> y \<longrightarrow> dom_by sc e x d))"

text \<open>The facts about a numbered graph and a partial tree that the lemmas below share.\<close>

definition setting ::
  "(nat \<Rightarrow> nat list) \<Rightarrow> nat \<Rightarrow> nat \<Rightarrow> nat list \<Rightarrow> nat option list \<Rightarrow> (nat \<Rightarrow> nat) \<Rightarrow> bool" where
  "setting sc n e po post par \<longleftrightarrow> flow_ok sc n e \<and> numbering sc n e po post \<and> parent_ok sc e post par"

lemma settingD:
  assumes "setting sc n e po post par"
  shows "flow_ok sc n e" "numbering sc n e po post" "parent_ok sc e post par" "e < n"
    "reach sc e y \<Longrightarrow> y < n"
    "reach sc e y \<Longrightarrow> y \<noteq> e \<Longrightarrow> reach sc e (par y) \<and> y \<in> set (sc (par y)) \<and> pos_of post y < pos_of post (par y)"
  using assms reach_less [of sc n e y] by (auto simp: setting_def flow_ok_def parent_ok_def)

lemma post_reach:
  assumes "setting sc n e po post par"
  shows "y < n \<Longrightarrow> post ! y = None \<longleftrightarrow> \<not> reach sc e y"
    "reach sc e y \<Longrightarrow> post ! y = Some (pos_of post y) \<and> pos_of post y < length po \<and> po ! pos_of post y = y"
proof -
  have num: "\<And>b i. b < n \<Longrightarrow> post ! b = Some i \<longleftrightarrow> i < length po \<and> po ! i = b" "\<And>b. b \<in> set po \<longleftrightarrow> reach sc e b"
    using settingD(2) [OF assms] by (auto simp: numbering_def)
  have r: "post ! y = Some (pos_of post y) \<and> pos_of post y < length po \<and> po ! pos_of post y = y" if y: "reach sc e y" for y
  proof -
    obtain i where "i < length po" "po ! i = y" using num(2) [of y] y by (auto simp: in_set_conv_nth)
    moreover have "y < n" using settingD(5) [OF assms y] .
    ultimately show ?thesis using num(1) [of y i] by (simp add: pos_of_def)
  qed
  show "reach sc e y \<Longrightarrow> post ! y = Some (pos_of post y) \<and> pos_of post y < length po \<and> po ! pos_of post y = y"
    by (rule r)
  show "y < n \<Longrightarrow> post ! y = None \<longleftrightarrow> \<not> reach sc e y"
  proof
    assume "y < n" "post ! y = None"
    then show "\<not> reach sc e y" using r [of y] by auto
  next
    assume y: "y < n" "\<not> reach sc e y"
    show "post ! y = None"
    proof (rule ccontr)
      assume "post ! y \<noteq> None"
      then obtain i where "i < length po" "po ! i = y" using num(1) [OF y(1)] by auto
      then show False using num(2) [of y] y(2) by (metis nth_mem)
    qed
  qed
qed

lemma pos_inj: "setting sc n e po post par \<Longrightarrow> reach sc e a \<Longrightarrow> reach sc e b \<Longrightarrow> pos_of post a = pos_of post b \<Longrightarrow> a = b"
  using post_reach(2) by metis

lemma pos_entry: "setting sc n e po post par \<Longrightarrow> reach sc e y \<Longrightarrow> pos_of post y \<le> pos_of post e"
proof -
  assume s: "setting sc n e po post par" and y: "reach sc e y"
  have po: "po \<noteq> []" "last po = e" "distinct po" using settingD(2) [OF s] by (auto simp: numbering_def)
  note pe = post_reach(2) [OF s reach_entry] and py = post_reach(2) [OF s y]
  have "po ! (length po - 1) = e" using po(1,2) by (simp add: last_conv_nth)
  then have "pos_of post e = length po - 1" using pe po(1,3) nth_eq_iff_index_eq [of po "pos_of post e" "length po - 1"] by simp
  then show ?thesis using py by linarith
qed

lemma tree_step:
  assumes "setting sc n e po post par" "tree_ok sc n e post par t" "reach sc e y" "t ! y = Some d"
  shows "reach sc e d \<and> t ! d \<noteq> None \<and> (y \<noteq> e \<longrightarrow> pos_of post y < pos_of post d) \<and> (y = e \<longrightarrow> d = e)
    \<and> panc e par y d"
proof (cases "y = e")
  case True
  then show ?thesis using assms(2-4) by (auto simp: tree_ok_def panc_refl)
next
  case False
  have p: "reach sc e (par y)" "pos_of post y < pos_of post (par y)" using settingD(6) [OF assms(1,3) False] by simp_all
  have d: "panc e par (par y) d" "t ! d \<noteq> None" using assms(2) [unfolded tree_ok_def] assms(3,4) False by blast+
  have "reach sc e d \<and> pos_of post (par y) \<le> pos_of post d" by (rule panc_pos [OF settingD(3) [OF assms(1)] d(1) p(1)])
  then show ?thesis using d p(2) False panc_step [OF False d(1)] by simp
qed

lemma anc_up:
  assumes "setting sc n e po post par" "tree_ok sc n e post par t" "anc t y x" "reach sc e y" "t ! y \<noteq> None"
  shows "reach sc e x \<and> t ! x \<noteq> None \<and> pos_of post y \<le> pos_of post x \<and> panc e par y x"
  using assms(3,4,5)
proof (induction rule: converse_rtranclp_induct)
  case base
  then show ?case by (simp add: panc_refl)
next
  case (step y z)
  note s = tree_step [OF assms(1,2) step.prems(1) step.hyps(1)]
  have yz: "pos_of post y \<le> pos_of post z" using s by (cases "y = e") auto
  have x: "reach sc e x \<and> t ! x \<noteq> None \<and> pos_of post z \<le> pos_of post x \<and> panc e par z x" using step.IH s by blast
  then have "panc e par y x" using s panc_trans by blast
  then show ?case using x yz by simp
qed

lemma anc_same: "setting sc n e po post par \<Longrightarrow> tree_ok sc n e post par t \<Longrightarrow> anc t y x \<Longrightarrow> reach sc e y \<Longrightarrow> t ! y \<noteq> None
    \<Longrightarrow> pos_of post x \<le> pos_of post y \<Longrightarrow> x = y"
  using anc_up pos_inj by (metis le_antisym)

lemma anc_linear:
  assumes "setting sc n e po post par" "tree_ok sc n e post par t" "reach sc e y" "t ! y \<noteq> None"
    and "anc t y a" "anc t y b" "pos_of post a \<le> pos_of post b"
  shows "anc t a b"
  using assms(5,6,3,4)
proof (induction rule: converse_rtranclp_induct)
  case base
  then show ?case by simp
next
  case (step y z)
  note s = tree_step [OF assms(1,2) step.prems(2) step.hyps(1)]
  show ?case
  proof (cases "y = b")
    case True
    have ba: "anc t b a" using step.hyps True by (auto intro: converse_rtranclp_into_rtranclp)
    then have "a = b" using anc_same [OF assms(1,2) ba] assms(7) step.prems(2,3) True by blast
    then show ?thesis by simp
  next
    case False
    then have "anc t z b" using step.prems(1) step.hyps(1) by (auto elim: converse_rtranclpE)
    then show ?thesis using step.IH s by blast
  qed
qed

lemma anc_entry:
  assumes "setting sc n e po post par" "tree_ok sc n e post par t" "reach sc e y" "t ! y \<noteq> None"
  shows "anc t y e"
  using assms(3,4)
proof (induction "pos_of post e - pos_of post y" arbitrary: y rule: less_induct)
  case less
  show ?case
  proof (cases "y = e")
    case False
    obtain d where d: "t ! y = Some d" using less.prems by auto
    note s = tree_step [OF assms(1,2) less.prems(1) d]
    have "anc t d e" using less.hyps [of d] s False pos_entry [OF assms(1)] by (metis diff_less_mono2 le_eq_less_or_eq less_le_trans)
    then show ?thesis using d by (auto intro: converse_rtranclp_into_rtranclp)
  qed simp
qed

lemma dom_anc:
  assumes "setting sc n e po post par" "tree_ok sc n e post par t" "reach sc e y" "t ! y \<noteq> None" "dom_by sc e x y"
  shows "anc t y x"
  using assms(3,4,5)
proof (induction "pos_of post e - pos_of post y" arbitrary: y rule: less_induct)
  case less
  show ?case
  proof (cases "y = e \<or> x = y")
    case True
    then show ?thesis using less.prems(3) dom_entry by auto
  next
    case False
    obtain d where d: "t ! y = Some d" using less.prems by auto
    note s = tree_step [OF assms(1,2) less.prems(1) d]
    have "dom_by sc e x d" using assms(2) less.prems d False by (auto simp: tree_ok_def)
    then have "anc t d x" using less.hyps [of d] s False pos_entry [OF assms(1)]
      by (metis diff_less_mono2 le_eq_less_or_eq less_le_trans)
    then show ?thesis using d by (auto intro: converse_rtranclp_into_rtranclp)
  qed
qed

text \<open>Two trees that agree from a block upwards have the same ancestors of it.\<close>

lemma anc_agree:
  assumes "setting sc n e po post par" "tree_ok sc n e post par t" "reach sc e y" "t ! y \<noteq> None"
    and "\<And>z. reach sc e z \<Longrightarrow> pos_of post y \<le> pos_of post z \<Longrightarrow> t' ! z = t ! z"
  shows "anc t' y x \<longleftrightarrow> anc t y x"
proof
  have "anc t y x \<Longrightarrow> reach sc e y \<Longrightarrow> t ! y \<noteq> None
      \<Longrightarrow> (\<And>z. reach sc e z \<Longrightarrow> pos_of post y \<le> pos_of post z \<Longrightarrow> t' ! z = t ! z) \<Longrightarrow> anc t' y x" for y
  proof (induction rule: converse_rtranclp_induct)
    case (step y z)
    note s = tree_step [OF assms(1,2) step.prems(1) step.hyps(1)]
    have "t' ! y = Some z" using step.prems(3) [of y] step.prems(1) step.hyps(1) by simp
    moreover have "anc t' z x" using step.IH s step.prems(3) by (cases "y = e") (auto intro: step.prems(3))
    ultimately show ?case by (rule converse_rtranclp_into_rtranclp)
  qed simp
  then show "anc t y x \<Longrightarrow> anc t' y x" using assms(3-5) by blast
  have "anc t' y x \<Longrightarrow> reach sc e y \<Longrightarrow> t ! y \<noteq> None
      \<Longrightarrow> (\<And>z. reach sc e z \<Longrightarrow> pos_of post y \<le> pos_of post z \<Longrightarrow> t' ! z = t ! z) \<Longrightarrow> anc t y x" for y
  proof (induction rule: converse_rtranclp_induct)
    case (step y z)
    have h: "t ! y = Some z" using step.prems(3) [of y] step.prems(1) step.hyps(1) by simp
    note s = tree_step [OF assms(1,2) step.prems(1) h]
    moreover have "anc t z x" using step.IH s step.prems(3) by (cases "y = e") (auto intro: step.prems(3))
    ultimately show ?case using h by (blast intro: converse_rtranclp_into_rtranclp)
  qed simp
  then show "anc t' y x \<Longrightarrow> anc t y x" using assms(3-5) by blast
qed

section \<open>The intersection\<close>

lemma walk_up_result:
  assumes "setting sc n e po post par" "tree_ok sc n e post par t" "reach sc e a" "t ! a \<noteq> None"
    and "pb \<le> pos_of post e"
  shows "\<exists>a'. walk_up t post a (pos_of post a) pb = Some (a', pos_of post a') \<and> anc t a a' \<and> pb \<le> pos_of post a'
    \<and> (\<forall>x. anc t a x \<longrightarrow> pb \<le> pos_of post x \<longrightarrow> anc t a' x)"
  using assms(3,4)
proof (induction "pos_of post e - pos_of post a" arbitrary: a rule: less_induct)
  case less
  show ?case
  proof (cases "pos_of post a < pb")
    case False
    then show ?thesis by (subst walk_up.simps) auto
  next
    case True
    then have "a \<noteq> e" using assms(5) by auto
    obtain d where d: "t ! a = Some d" using less.prems by auto
    note s = tree_step [OF assms(1,2) less.prems(1) d]
    have post: "post ! d = Some (pos_of post d)" using post_reach(2) [OF assms(1)] s by blast
    have "pos_of post e - pos_of post d < pos_of post e - pos_of post a"
      using s \<open>a \<noteq> e\<close> pos_entry [OF assms(1)] by (metis diff_less_mono2 less_le_trans)
    then obtain a' where a': "walk_up t post d (pos_of post d) pb = Some (a', pos_of post a')" "anc t d a'"
      "pb \<le> pos_of post a'" "\<forall>x. anc t d x \<longrightarrow> pb \<le> pos_of post x \<longrightarrow> anc t a' x"
      using less.hyps [of d] s by blast
    have "anc t d x" if "anc t a x" "pb \<le> pos_of post x" for x
      using that(1)
    proof (cases rule: converse_rtranclpE)
      case base
      then show ?thesis using that(2) True by simp
    next
      case (step z)
      then show ?thesis using d by simp
    qed
    moreover have "anc t a a'" using d a'(2) by (auto intro: converse_rtranclp_into_rtranclp)
    moreover have "walk_up t post a (pos_of post a) pb = Some (a', pos_of post a')"
      using a'(1) True d post by (subst walk_up.simps) simp
    ultimately show ?thesis using a' by blast
  qed
qed

lemma intersect_result:
  assumes "setting sc n e po post par" "tree_ok sc n e post par t"
    and "reach sc e a" "t ! a \<noteq> None" "reach sc e b" "t ! b \<noteq> None"
  shows "\<exists>r. intersect t post a b = Some r \<and> reach sc e r \<and> t ! r \<noteq> None
    \<and> (\<forall>x. anc t r x \<longleftrightarrow> anc t a x \<and> anc t b x)"
  using assms(3-6)
proof (induction "2 * pos_of post e - (pos_of post a + pos_of post b)" arbitrary: a b rule: less_induct)
  case less
  show ?case
  proof (cases "a = b")
    case True
    then show ?thesis using less.prems by (subst intersect.simps) auto
  next
    case False
    note up = anc_up [OF assms(1,2)]
    note bound = pos_entry [OF assms(1)]
    obtain a' where a': "walk_up t post a (pos_of post a) (pos_of post b) = Some (a', pos_of post a')" "anc t a a'"
      "pos_of post b \<le> pos_of post a'" "\<forall>x. anc t a x \<longrightarrow> pos_of post b \<le> pos_of post x \<longrightarrow> anc t a' x"
      using walk_up_result [OF assms(1,2) less.prems(1,2) bound [OF less.prems(3)]] by blast
    have ra: "reach sc e a'" "t ! a' \<noteq> None" "pos_of post a \<le> pos_of post a'" using up [OF a'(2)] less.prems by auto
    obtain b' where b': "walk_up t post b (pos_of post b) (pos_of post a') = Some (b', pos_of post b')" "anc t b b'"
      "pos_of post a' \<le> pos_of post b'" "\<forall>x. anc t b x \<longrightarrow> pos_of post a' \<le> pos_of post x \<longrightarrow> anc t b' x"
      using walk_up_result [OF assms(1,2) less.prems(3,4) bound [OF ra(1)]] by blast
    have rb: "reach sc e b'" "t ! b' \<noteq> None" "pos_of post b \<le> pos_of post b'" using up [OF b'(2)] less.prems by auto
    have "pos_of post a \<noteq> pos_of post b" using pos_inj [OF assms(1)] less.prems False by blast
    then have dec: "2 * pos_of post e - (pos_of post a' + pos_of post b') < 2 * pos_of post e - (pos_of post a + pos_of post b)"
      using a'(3) b'(3) ra(3) rb(3) bound [OF ra(1)] bound [OF rb(1)] bound [OF less.prems(1)] bound [OF less.prems(3)] by linarith
    obtain r where r: "intersect t post a' b' = Some r" "reach sc e r" "t ! r \<noteq> None"
      "\<forall>x. anc t r x \<longleftrightarrow> anc t a' x \<and> anc t b' x"
      using less.hyps [OF dec ra(1,2) rb(1,2)] by blast
    have "anc t a' x \<and> anc t b' x \<longleftrightarrow> anc t a x \<and> anc t b x" for x
    proof
      assume "anc t a' x \<and> anc t b' x"
      then show "anc t a x \<and> anc t b x" using a'(2) b'(2) by (meson rtranclp_trans)
    next
      assume x: "anc t a x \<and> anc t b x"
      then have "pos_of post b \<le> pos_of post x" using up less.prems by blast
      then have "anc t a' x" using a'(4) x by blast
      moreover have "pos_of post a' \<le> pos_of post x" using up [OF \<open>anc t a' x\<close> ra(1,2)] by blast
      ultimately show "anc t a' x \<and> anc t b' x" using b'(4) x by blast
    qed
    moreover have "post ! a = Some (pos_of post a)" "post ! b = Some (pos_of post b)"
      using post_reach(2) [OF assms(1)] less.prems by blast+
    then have "intersect t post a b = Some r"
      using a'(1) b'(1) r(1) False by (subst intersect.simps) simp
    ultimately show ?thesis using r by blast
  qed
qed

end
