(* ===== verification/Dominator_Fixpoint.thy ===== *)
theory Dominator_Fixpoint
  imports Dominator_Paths
begin

text \<open>
  The fixpoint of the dominator-tree construction ends, and the ancestors of a block in the
  tree it ends with are the dominators of the block.  The update of one block changes the
  chains of all blocks below it, so the trees within a sweep do not shrink step by step; from
  one finished sweep to the next the chains do (\<open>settled\<close>, \<open>sweep_inv\<close>).
\<close>

section \<open>The update of one block\<close>

lemma anc_first: "anc t y x \<longleftrightarrow> x = y \<or> (\<exists>d. t ! y = Some d \<and> anc t d x)"
  by (auto elim: converse_rtranclpE intro: converse_rtranclp_into_rtranclp)

definition live :: "(nat \<Rightarrow> nat list) \<Rightarrow> nat \<Rightarrow> nat option list \<Rightarrow> nat list \<Rightarrow> nat set" where
  "live sc e t ps = {p \<in> set ps. reach sc e p \<and> t ! p \<noteq> None}"

lemma new_idom_result:
  assumes "setting sc n e po post par" "tree_ok sc n e post par t" "\<forall>p \<in> set ps. p < n"
  shows "\<exists>res. new_idom_of t post ps = Some res
    \<and> (case res of None \<Rightarrow> live sc e t ps = {}
       | Some r \<Rightarrow> live sc e t ps \<noteq> {} \<and> reach sc e r \<and> t ! r \<noteq> None
           \<and> (\<forall>x. anc t r x \<longleftrightarrow> (\<forall>p \<in> live sc e t ps. anc t p x)))"
  using assms(3)
proof (induction ps rule: rev_induct)
  case Nil
  then show ?case by (simp add: new_idom_of_def live_def)
next
  case (snoc p ps)
  obtain res where res: "new_idom_of t post ps = Some res"
    "case res of None \<Rightarrow> live sc e t ps = {}
     | Some r \<Rightarrow> live sc e t ps \<noteq> {} \<and> reach sc e r \<and> t ! r \<noteq> None
         \<and> (\<forall>x. anc t r x \<longleftrightarrow> (\<forall>p \<in> live sc e t ps. anc t p x))"
    using snoc by auto
  have step: "new_idom_of t post (ps @ [p]) = meet_pred t post (Some res) p"
    using res(1) by (simp add: new_idom_of_def)
  have unreached: "post ! p = None \<longleftrightarrow> \<not> reach sc e p" using post_reach(1) [OF assms(1)] snoc.prems by simp
  show ?case
  proof (cases "reach sc e p \<and> t ! p \<noteq> None")
    case False
    then have l': "live sc e t (ps @ [p]) = live sc e t ps" by (auto simp: live_def)
    have "meet_pred t post (Some res) p = Some res" using False unreached by (auto simp: meet_pred_def)
    then have "new_idom_of t post (ps @ [p]) = Some res" using step by simp
    with res(2) show ?thesis unfolding l' by blast
  next
    case True
    then have l: "live sc e t (ps @ [p]) = insert p (live sc e t ps)" by (auto simp: live_def)
    show ?thesis
    proof (cases res)
      case None
      then have "new_idom_of t post (ps @ [p]) = Some (Some p)"
        using True unreached by (simp add: step meet_pred_def)
      then show ?thesis using res(2) None True l by simp
    next
      case (Some cur)
      have cur: "reach sc e cur" "t ! cur \<noteq> None" "live sc e t ps \<noteq> {}"
        "\<forall>x. anc t cur x \<longleftrightarrow> (\<forall>p \<in> live sc e t ps. anc t p x)"
        using res(2) Some by simp_all
      obtain r where r: "intersect t post p cur = Some r" "reach sc e r" "t ! r \<noteq> None"
        "\<forall>x. anc t r x \<longleftrightarrow> anc t p x \<and> anc t cur x"
        using intersect_result [OF assms(1,2) conjunct1 [OF True] conjunct2 [OF True] cur(1,2)] by blast
      have "new_idom_of t post (ps @ [p]) = Some (Some r)"
        using True unreached Some r(1) by (auto simp: step meet_pred_def)
      then show ?thesis using r cur l by simp
    qed
  qed
qed

definition preds_ok :: "(nat \<Rightarrow> nat list) \<Rightarrow> nat \<Rightarrow> adjacency \<Rightarrow> bool" where
  "preds_ok sc n preds \<longleftrightarrow> (\<forall>b < n. set (adj_of preds b) = {p. p < n \<and> b \<in> set (sc p)})"

lemma live_preds:
  assumes "setting sc n e po post par" "preds_ok sc n preds" "b < n"
  shows "live sc e t (adj_of preds b) = {p. reach sc e p \<and> b \<in> set (sc p) \<and> t ! p \<noteq> None}"
  using assms settingD(5) [OF assms(1)] by (auto simp: live_def preds_ok_def)

lemma visit_result:
  assumes s: "setting sc n e po post par" and t: "tree_ok sc n e post par t" and p: "preds_ok sc n preds"
    and b: "reach sc e b" "b \<noteq> e" "t ! par b \<noteq> None"
  shows "\<exists>ni. new_idom_of t post (adj_of preds b) = Some (Some ni) \<and> reach sc e ni \<and> t ! ni \<noteq> None
    \<and> pos_of post b < pos_of post ni \<and> tree_ok sc n e post par (t[b := Some ni])
    \<and> (\<forall>x. anc t ni x \<longleftrightarrow> (\<forall>p. reach sc e p \<longrightarrow> b \<in> set (sc p) \<longrightarrow> t ! p \<noteq> None \<longrightarrow> anc t p x))"
proof -
  have bn: "b < n" using settingD(5) [OF s b(1)] .
  note pb = settingD(6) [OF s b(1,2)]
  note l = live_preds [OF s p bn, of t]
  have "par b \<in> live sc e t (adj_of preds b)" using pb b(3) l by simp
  moreover have "\<forall>p \<in> set (adj_of preds b). p < n" using p bn by (simp add: preds_ok_def)
  ultimately obtain ni where ni: "new_idom_of t post (adj_of preds b) = Some (Some ni)" "reach sc e ni" "t ! ni \<noteq> None"
    "\<forall>x. anc t ni x \<longleftrightarrow> (\<forall>p \<in> live sc e t (adj_of preds b). anc t p x)"
    using new_idom_result [OF s t, of "adj_of preds b"] by (auto split: option.splits)
  have all: "\<forall>x. anc t ni x \<longleftrightarrow> (\<forall>p. reach sc e p \<longrightarrow> b \<in> set (sc p) \<longrightarrow> t ! p \<noteq> None \<longrightarrow> anc t p x)"
    using ni(4) unfolding l by blast
  then have "anc t (par b) ni" using pb b(3) by blast
  note up = anc_up [OF s t this conjunct1 [OF pb] b(3)]
  have pos: "pos_of post b < pos_of post ni" using up pb by linarith
  have dom: "dom_by sc e x ni" if x: "dom_by sc e x b" "x \<noteq> b" for x
  proof -
    have "anc t p x" if "reach sc e p" "b \<in> set (sc p)" "t ! p \<noteq> None" for p
      using dom_anc [OF s t that(1,3)] dom_pred [OF x(1) that(2) x(2)] by blast
    then have "anc t ni x" using all by blast
    then have "pos_of post ni \<le> pos_of post x" using anc_up [OF s t _ ni(2,3)] by blast
    moreover have "panc e par b ni" using up panc_step [OF b(2)] by blast
    ultimately show ?thesis using dom_panc [OF settingD(3) [OF s] _ b(1) x(1)] by blast
  qed
  have len: "length t = n" using t by (simp add: tree_ok_def)
  have "tree_ok sc n e post par (t[b := Some ni])"
    unfolding tree_ok_def
  proof (intro conjI allI impI)
    show "length (t[b := Some ni]) = n" "t[b := Some ni] ! e = Some e" using t b(2) by (simp_all add: tree_ok_def)
    fix y assume "y < n" "\<not> reach sc e y"
    moreover from this have "y \<noteq> b" using b(1) by auto
    ultimately show "t[b := Some ni] ! y = None" using t by (simp add: tree_ok_def)
  next
    fix y d assume y: "reach sc e y" "y \<noteq> e" "t[b := Some ni] ! y = Some d"
    have "d < n" if "t ! y = Some d" using tree_step [OF s t y(1) that] settingD(5) [OF s] by blast
    moreover have "ni < n" using settingD(5) [OF s ni(2)] .
    ultimately show "t[b := Some ni] ! d \<noteq> None" using y t ni(3) bn len
      by (cases "y = b"; cases "d = b") (auto simp: tree_ok_def)
    show "panc e par (par y) d" using y t up bn len by (cases "y = b") (auto simp: tree_ok_def)
    fix x assume "dom_by sc e x y" "x \<noteq> y"
    then show "dom_by sc e x d" using y t dom bn len by (cases "y = b") (auto simp: tree_ok_def)
  qed
  then show ?thesis using ni(1-3) pos all by blast
qed

section \<open>One sweep\<close>

definition full :: "(nat \<Rightarrow> nat list) \<Rightarrow> nat \<Rightarrow> nat option list \<Rightarrow> bool" where
  "full sc e t \<longleftrightarrow> (\<forall>y. reach sc e y \<longrightarrow> t ! y \<noteq> None)"

definition along_parent :: "(nat \<Rightarrow> nat) \<Rightarrow> nat option list \<Rightarrow> nat \<Rightarrow> bool" where
  "along_parent par t y \<longleftrightarrow> (\<forall>x. anc t y x \<longrightarrow> x = y \<or> anc t (par y) x)"

definition settled ::
  "(nat \<Rightarrow> nat list) \<Rightarrow> nat \<Rightarrow> nat \<Rightarrow> nat option list \<Rightarrow> (nat \<Rightarrow> nat) \<Rightarrow> nat option list \<Rightarrow> bool" where
  "settled sc n e post par t \<longleftrightarrow>
     tree_ok sc n e post par t \<and> full sc e t
     \<and> (\<forall>y. reach sc e y \<longrightarrow> y \<noteq> e \<longrightarrow> along_parent par t y)
     \<and> (\<forall>y x. reach sc e y \<longrightarrow> y \<noteq> e \<longrightarrow>
          (\<forall>p. reach sc e p \<longrightarrow> y \<in> set (sc p) \<longrightarrow> anc t p x) \<longrightarrow> anc t y x)"

text \<open>
  The first ancestor of \<open>p\<close> above \<open>y\<close> in the tree before the sweep; while \<open>y\<close> is updated, the
  chain of \<open>p\<close> goes through it.
\<close>

definition first_above :: "nat option list \<Rightarrow> nat option list \<Rightarrow> nat \<Rightarrow> nat \<Rightarrow> nat \<Rightarrow> bool" where
  "first_above post old p y d \<longleftrightarrow>
     anc old p d \<and> pos_of post y < pos_of post d
     \<and> (\<forall>d'. anc old p d' \<longrightarrow> pos_of post y < pos_of post d' \<longrightarrow> pos_of post d \<le> pos_of post d')"

definition reaches_pred ::
  "(nat \<Rightarrow> nat list) \<Rightarrow> nat \<Rightarrow> nat option list \<Rightarrow> nat option list \<Rightarrow> nat option list \<Rightarrow> nat \<Rightarrow> nat \<Rightarrow> nat \<Rightarrow> bool" where
  "reaches_pred sc e post old t y x p \<longleftrightarrow>
     (if pos_of post y < pos_of post p then anc t p x
      else old ! p \<noteq> None \<longrightarrow> (\<exists>d. first_above post old p y d \<and> anc t d x))"

definition sweep_inv ::
  "(nat \<Rightarrow> nat list) \<Rightarrow> nat \<Rightarrow> nat \<Rightarrow> nat option list \<Rightarrow> (nat \<Rightarrow> nat) \<Rightarrow> nat option list \<Rightarrow> nat set
    \<Rightarrow> nat option list \<Rightarrow> bool \<Rightarrow> bool" where
  "sweep_inv sc n e post par old seen t ch \<longleftrightarrow>
     tree_ok sc n e post par t
     \<and> (\<forall>y. reach sc e y \<longrightarrow> y \<notin> seen \<longrightarrow> t ! y = old ! y)
     \<and> (\<forall>y \<in> seen. t ! y \<noteq> None)
     \<and> (full sc e old \<longrightarrow> (\<forall>z x. reach sc e z \<longrightarrow> anc t z x \<longrightarrow> anc old z x))
     \<and> (\<forall>y \<in> seen. y \<noteq> e \<longrightarrow> along_parent par t y)
     \<and> (\<forall>y \<in> seen. y \<noteq> e \<longrightarrow> (\<forall>x. (\<forall>p. reach sc e p \<longrightarrow> y \<in> set (sc p) \<longrightarrow> reaches_pred sc e post old t y x p)
          \<longrightarrow> anc t y x))
     \<and> (ch \<longleftrightarrow> t \<noteq> old)
     \<and> (\<not> ch \<longrightarrow> (\<forall>y \<in> seen. y \<noteq> e \<longrightarrow> (\<forall>x. anc t y x \<longrightarrow> x \<noteq> y \<longrightarrow>
          (\<forall>p. reach sc e p \<longrightarrow> y \<in> set (sc p) \<longrightarrow> t ! p \<noteq> None \<longrightarrow> anc t p x))))"

lemma sweep_invD:
  assumes "sweep_inv sc n e post par old seen t ch"
  shows "tree_ok sc n e post par t" "reach sc e y \<Longrightarrow> y \<notin> seen \<Longrightarrow> t ! y = old ! y" "y \<in> seen \<Longrightarrow> t ! y \<noteq> None"
    "full sc e old \<Longrightarrow> reach sc e z \<Longrightarrow> anc t z x \<Longrightarrow> anc old z x"
    "y \<in> seen \<Longrightarrow> y \<noteq> e \<Longrightarrow> along_parent par t y"
    "y \<in> seen \<Longrightarrow> y \<noteq> e \<Longrightarrow>
      (\<And>p. reach sc e p \<Longrightarrow> y \<in> set (sc p) \<Longrightarrow> reaches_pred sc e post old t y x p) \<Longrightarrow> anc t y x"
    "ch \<longleftrightarrow> t \<noteq> old"
    "\<not> ch \<Longrightarrow> y \<in> seen \<Longrightarrow> y \<noteq> e \<Longrightarrow> anc t y x \<Longrightarrow> x \<noteq> y \<Longrightarrow> reach sc e p \<Longrightarrow> y \<in> set (sc p) \<Longrightarrow> t ! p \<noteq> None \<Longrightarrow> anc t p x"
  using assms unfolding sweep_inv_def by blast+

text \<open>Below the first ancestor above the updated block nothing has changed yet.\<close>

lemma low_chain:
  assumes s: "setting sc n e po post par" and old: "tree_ok sc n e post par old"
    and "anc old p d" "reach sc e p" "old ! p \<noteq> None"
    and "\<And>z. anc old p z \<Longrightarrow> pos_of post z < pos_of post d \<Longrightarrow> t ! z = old ! z"
  shows "anc t p d"
  using assms(3-6)
proof (induction rule: converse_rtranclp_induct)
  case (step y z)
  note st = tree_step [OF s old step.prems(1) step.hyps(1)]
  show ?case
  proof (cases "y = d")
    case False
    have "pos_of post y \<noteq> pos_of post d"
    proof
      assume "pos_of post y = pos_of post d"
      moreover have "anc old y d" using step.hyps by (auto intro: converse_rtranclp_into_rtranclp)
      ultimately have "d = y" using anc_same [OF s old _ step.prems(1,2), of d] by simp
      with False show False by simp
    qed
    moreover have "pos_of post y \<le> pos_of post d"
      using anc_up [OF s old _ step.prems(1,2), of d] step.hyps by (auto intro: converse_rtranclp_into_rtranclp)
    ultimately have "t ! y = Some z" using step.prems(3) [of y] step.hyps(1) by simp
    moreover have "anc t z d"
    proof (rule step.IH)
      show "reach sc e z" "old ! z \<noteq> None" using st by simp_all
      show "t ! w = old ! w" if "anc old z w" "pos_of post w < pos_of post d" for w
        using step.prems(3) that step.hyps(1) by (auto intro: converse_rtranclp_into_rtranclp)
    qed
    ultimately show ?thesis by (rule converse_rtranclp_into_rtranclp)
  qed simp
qed simp

lemma sweep_step:
  assumes s: "setting sc n e po post par" and p: "preds_ok sc n preds"
    and old: "tree_ok sc n e post par old"
    and e'': "full sc e old \<Longrightarrow> settled sc n e post par old"
    and inv: "sweep_inv sc n e post par old seen t ch"
    and seen: "seen = {z. reach sc e z \<and> pos_of post b < pos_of post z}" and b: "reach sc e b"
  shows "\<exists>t' ch'. visit_block e preds post (Some (t, ch)) b = Some (t', ch')
    \<and> sweep_inv sc n e post par old (insert b seen) t' ch'"
proof (cases "b = e")
  case True
  note D = sweep_invD [OF inv]
  have "sweep_inv sc n e post par old (insert b seen) t ch"
    unfolding sweep_inv_def
  proof (intro conjI)
    show "tree_ok sc n e post par t" "ch \<longleftrightarrow> t \<noteq> old" by (fact D(1) D(7))+
    show "\<forall>y. reach sc e y \<longrightarrow> y \<notin> insert b seen \<longrightarrow> t ! y = old ! y" using D(2) by blast
    show "\<forall>y \<in> insert b seen. t ! y \<noteq> None" using D(1,3) True by (auto simp: tree_ok_def)
    show "full sc e old \<longrightarrow> (\<forall>z x. reach sc e z \<longrightarrow> anc t z x \<longrightarrow> anc old z x)" using D(4) by blast
    show "\<forall>y \<in> insert b seen. y \<noteq> e \<longrightarrow> along_parent par t y" using D(5) True by blast
    show "\<forall>y \<in> insert b seen. y \<noteq> e \<longrightarrow> (\<forall>x. (\<forall>p. reach sc e p \<longrightarrow> y \<in> set (sc p) \<longrightarrow>
        reaches_pred sc e post old t y x p) \<longrightarrow> anc t y x)" using D(6) True by blast
    show "\<not> ch \<longrightarrow> (\<forall>y \<in> insert b seen. y \<noteq> e \<longrightarrow> (\<forall>x. anc t y x \<longrightarrow> x \<noteq> y \<longrightarrow>
        (\<forall>p. reach sc e p \<longrightarrow> y \<in> set (sc p) \<longrightarrow> t ! p \<noteq> None \<longrightarrow> anc t p x)))" using D(8) True by blast
  qed
  then show ?thesis using True by (simp add: visit_block_def)
next
  case False
  note D = sweep_invD [OF inv]
  have bn: "b < n" "length t = n" using settingD(5) [OF s b] D(1) by (simp_all add: tree_ok_def)
  note pb = settingD(6) [OF s b False]
  then have pdef: "t ! par b \<noteq> None" using D(3) seen by auto
  obtain ni where ni: "new_idom_of t post (adj_of preds b) = Some (Some ni)" "reach sc e ni" "t ! ni \<noteq> None"
    "pos_of post b < pos_of post ni" "tree_ok sc n e post par (t[b := Some ni])"
    "\<forall>x. anc t ni x \<longleftrightarrow> (\<forall>p. reach sc e p \<longrightarrow> b \<in> set (sc p) \<longrightarrow> t ! p \<noteq> None \<longrightarrow> anc t p x)"
    using visit_result [OF s D(1) p b False pdef] by blast
  define t' where "t' = t[b := Some ni]"
  define ch' where "ch' \<longleftrightarrow> ch \<or> t ! b \<noteq> Some ni"
  have "t[b := Some ni] = t" if "t ! b = Some ni" using that by (metis list_update_id)
  then have v: "visit_block e preds post (Some (t, ch)) b = Some (t', ch')"
    using False ni(1) by (auto simp: visit_block_def t'_def ch'_def)
  have tb: "t' ! b = Some ni" "\<And>z. z \<noteq> b \<Longrightarrow> t' ! z = t ! z" using bn by (simp_all add: t'_def)
  have above: "anc t' z x \<longleftrightarrow> anc t z x" if "reach sc e z" "pos_of post b < pos_of post z" for z x
  proof (rule anc_agree [OF s D(1) that(1)])
    show "t ! z \<noteq> None" using D(3) that seen by blast
    fix w assume "pos_of post z \<le> pos_of post w"
    then have "w \<noteq> b" using that(2) by auto
    then show "t' ! w = t ! w" by (rule tb(2))
  qed
  have ancb: "anc t' b x \<longleftrightarrow> x = b \<or> anc t ni x" for x
    using above [OF ni(2,4)] tb(1) by (subst anc_first) auto
  have obs: "t ! b = old ! b" using D(2) b seen by simp
  have monotone: "anc old z x" if fl: "full sc e old" and z: "reach sc e z" "anc t' z x" for z x
    using z(2,1)
  proof (induction rule: converse_rtranclp_induct)
    case (step y z)
    note st = tree_step [OF s ni(5) [folded t'_def] step.prems step.hyps(1)]
    show ?case
    proof (cases "y = b")
      case True
      then have "anc t' b x" using step.hyps by (auto intro: converse_rtranclp_into_rtranclp)
      then have "x = b \<or> anc t ni x" using ancb by blast
      moreover have "anc old b x" if "anc t ni x"
      proof -
        have "anc old q x" if "reach sc e q" "b \<in> set (sc q)" for q
        proof -
          have "t ! q \<noteq> None" using D(2,3) that(1) fl by (cases "q \<in> seen") (auto simp: full_def)
          then show ?thesis using ni(6) \<open>anc t ni x\<close> that D(4) [OF fl that(1)] by blast
        qed
        then show ?thesis using e'' [OF fl] b False unfolding settled_def by blast
      qed
      ultimately show ?thesis using True by auto
    next
      case False
      then have "anc t y z" using step.hyps(1) tb(2) by auto
      then have "anc old y z" using D(4) [OF fl step.prems] by blast
      moreover have "anc old z x" using step.IH st by blast
      ultimately show ?thesis by (rule rtranclp_trans)
    qed
  qed simp
  have covers: "anc t' b x" if x: "\<And>q. reach sc e q \<Longrightarrow> b \<in> set (sc q) \<Longrightarrow> reaches_pred sc e post old t' b x q" for x
  proof -
    have "anc t q x" if q: "reach sc e q" "b \<in> set (sc q)" "t ! q \<noteq> None" for q
    proof (cases "pos_of post b < pos_of post q")
      case True
      then show ?thesis using x [OF q(1,2)] above [OF q(1) True] by (simp add: reaches_pred_def)
    next
      case low: False
      then have oq: "old ! q \<noteq> None" using D(2) q seen by auto
      obtain d where d: "first_above post old q b d" "anc t' d x"
        using x [OF q(1,2)] low oq by (auto simp: reaches_pred_def)
      have rd: "reach sc e d" "pos_of post b < pos_of post d"
        using d(1) anc_up [OF s old _ q(1) oq] by (auto simp: first_above_def)
      have "anc t q d"
      proof (rule low_chain [OF s old _ q(1) oq])
        show "anc old q d" using d(1) by (simp add: first_above_def)
        fix z assume z: "anc old q z" "pos_of post z < pos_of post d"
        then have "\<not> pos_of post b < pos_of post z" using d(1) by (auto simp: first_above_def)
        moreover have "reach sc e z" using anc_up [OF s old z(1) q(1) oq] by blast
        ultimately show "t ! z = old ! z" using D(2) seen by auto
      qed
      moreover have "anc t d x" using above [OF rd] d(2) by simp
      ultimately show ?thesis by (rule rtranclp_trans)
    qed
    then show ?thesis using ni(6) ancb by blast
  qed
  have rp: "reaches_pred sc e post old t y x q" if "reaches_pred sc e post old t' y x q" "y \<in> seen" "reach sc e q" for y x q
  proof (cases "pos_of post y < pos_of post q")
    case True
    then have "pos_of post b < pos_of post q" using that(2) seen by auto
    then show ?thesis using that True above [OF that(3)] by (simp add: reaches_pred_def)
  next
    case False
    have "anc t d x" if d: "first_above post old q y d" "anc t' d x" "old ! q \<noteq> None" for d
    proof -
      have "reach sc e d" using d anc_up [OF s old _ \<open>reach sc e q\<close>] by (auto simp: first_above_def)
      moreover have "pos_of post b < pos_of post d" using d(1) \<open>y \<in> seen\<close> seen by (auto simp: first_above_def)
      ultimately show ?thesis using above d(2) by blast
    qed
    then show ?thesis using that(1) False by (auto simp: reaches_pred_def)
  qed
  have along: "along_parent par t' y" if "y \<in> insert b seen" "y \<noteq> e" for y
  proof (cases "y = b")
    case True
    then show ?thesis using ancb ni(6) pb pdef above [of "par b"] by (auto simp: along_parent_def)
  next
    case ne: False
    then have y: "y \<in> seen" "reach sc e y" "pos_of post b < pos_of post y" using that(1) seen by auto
    note py = settingD(6) [OF s y(2) that(2)]
    then have "pos_of post b < pos_of post (par y)" using y(3) by linarith
    then show ?thesis using D(5) [OF y(1) that(2)] above [OF y(2,3)] above [of "par y"] py
      by (simp add: along_parent_def)
  qed
  have changed: "ch' \<longleftrightarrow> t' \<noteq> old"
  proof (cases "t = old")
    case True
    then have "\<not> ch" using D(7) by simp
    moreover have "t' = t \<longleftrightarrow> t ! b = Some ni" using bn by (simp add: t'_def list_update_same_conv)
    ultimately show ?thesis using True by (auto simp: ch'_def)
  next
    case False
    then have "ch" using D(7) by simp
    moreover have "t' \<noteq> old"
    proof
      assume "t' = old"
      then have "old ! b = Some ni" using tb(1) by simp
      then have "t[b := Some ni] = t" using obs by (metis list_update_id)
      then show False using \<open>t' = old\<close> False by (simp add: t'_def)
    qed
    ultimately show ?thesis by (simp add: ch'_def)
  qed
  have unchanged: "anc t' q x" if nc: "\<not> ch'" and y: "y \<in> insert b seen" "y \<noteq> e" "anc t' y x" "x \<noteq> y"
    "reach sc e q" "y \<in> set (sc q)" "t' ! q \<noteq> None" for y x q
  proof -
    have same: "t' = t" "\<not> ch" using nc bn by (auto simp: ch'_def t'_def list_update_same_conv)
    show ?thesis
    proof (cases "y = b")
      case True
      then have "anc t ni x" using y ancb by blast
      then show ?thesis using ni(6) True y(5-7) same(1) by blast
    next
      case False
      then show ?thesis using D(8) [OF same(2), of y x q] y same(1) by blast
    qed
  qed
  have "sweep_inv sc n e post par old (insert b seen) t' ch'"
    unfolding sweep_inv_def
  proof (intro conjI)
    show "tree_ok sc n e post par t'" using ni(5) by (simp add: t'_def)
    show "\<forall>y. reach sc e y \<longrightarrow> y \<notin> insert b seen \<longrightarrow> t' ! y = old ! y" using D(2) tb(2) by auto
    show "\<forall>y \<in> insert b seen. t' ! y \<noteq> None"
    proof
      fix y assume "y \<in> insert b seen"
      then show "t' ! y \<noteq> None" using D(3) tb by (cases "y = b") auto
    qed
    show "full sc e old \<longrightarrow> (\<forall>z x. reach sc e z \<longrightarrow> anc t' z x \<longrightarrow> anc old z x)" using monotone by blast
    show "\<forall>y \<in> insert b seen. y \<noteq> e \<longrightarrow> along_parent par t' y" using along by blast
    show "\<forall>y \<in> insert b seen. y \<noteq> e \<longrightarrow> (\<forall>x. (\<forall>p. reach sc e p \<longrightarrow> y \<in> set (sc p) \<longrightarrow>
        reaches_pred sc e post old t' y x p) \<longrightarrow> anc t' y x)"
    proof (intro ballI impI allI)
      fix y x assume y: "y \<in> insert b seen" "y \<noteq> e"
        and x: "\<forall>p. reach sc e p \<longrightarrow> y \<in> set (sc p) \<longrightarrow> reaches_pred sc e post old t' y x p"
      show "anc t' y x"
      proof (cases "y = b")
        case True
        then show ?thesis using covers x by blast
      next
        case False
        then have "y \<in> seen" using y(1) by simp
        then have "anc t y x" using D(6) [OF _ y(2)] x rp by blast
        then show ?thesis using above [of y x] \<open>y \<in> seen\<close> seen by simp
      qed
    qed
    show "ch' \<longleftrightarrow> t' \<noteq> old" by (rule changed)
    show "\<not> ch' \<longrightarrow> (\<forall>y \<in> insert b seen. y \<noteq> e \<longrightarrow> (\<forall>x. anc t' y x \<longrightarrow> x \<noteq> y \<longrightarrow>
        (\<forall>p. reach sc e p \<longrightarrow> y \<in> set (sc p) \<longrightarrow> t' ! p \<noteq> None \<longrightarrow> anc t' p x)))"
      using unchanged by blast
  qed
  then show ?thesis using v by blast
qed


lemma rev_index:
  assumes "z \<in> set xs"
  obtains i where "i < length xs" "rev xs ! i = z"
proof -
  have "z \<in> set (rev xs)" using assms by simp
  then show ?thesis using that unfolding in_set_conv_nth by auto
qed

lemma rpo_prefix:
  assumes "setting sc n e po post par" "rev po = xs @ b # ys"
  shows "set xs = {z. reach sc e z \<and> pos_of post b < pos_of post z} \<and> reach sc e b"
proof -
  have num: "\<And>y. y \<in> set po \<longleftrightarrow> reach sc e y" "distinct po"
    using settingD(2) [OF assms(1)] by (auto simp: numbering_def)
  have po: "po = rev ys @ b # rev xs" using arg_cong [OF assms(2), of rev] by simp
  have b: "reach sc e b" using num(1) [of b] po by simp
  have pos: "pos_of post z = i" if "i < length po" "po ! i = z" for z i
  proof -
    have "z \<in> set po" using that nth_mem by blast
    then have "reach sc e z" using num(1) by blast
    then have "pos_of post z < length po" "po ! pos_of post z = po ! i" using post_reach(2) [OF assms(1)] that by auto
    then show ?thesis using that(1) num(2) by (simp add: nth_eq_iff_index_eq)
  qed
  have pb: "pos_of post b = length ys" by (rule pos) (simp_all add: po nth_append)
  show ?thesis
  proof (intro conjI set_eqI iffI)
    fix z assume "z \<in> set xs"
    then obtain i where i: "i < length xs" "rev xs ! i = z" by (rule rev_index)
    have "pos_of post z = Suc (length ys + i)" using i by (intro pos) (simp_all add: po nth_append)
    moreover have "reach sc e z" using num(1) [of z] \<open>z \<in> set xs\<close> po by simp
    ultimately show "z \<in> {z. reach sc e z \<and> pos_of post b < pos_of post z}" using pb by simp
  next
    fix z assume z: "z \<in> {z. reach sc e z \<and> pos_of post b < pos_of post z}"
    then have "z \<in> set ys \<or> z = b \<or> z \<in> set xs" using num(1) [of z] po by auto
    moreover have False if zy: "z \<in> set ys"
    proof -
      obtain i where i: "i < length ys" "rev ys ! i = z" using zy by (rule rev_index)
      then have "pos_of post z = i" by (intro pos) (simp_all add: po nth_append)
      then show False using z pb i(1) by simp
    qed
    ultimately show "z \<in> set xs" using z by auto
  qed (rule b)
qed

lemma sweep_result:
  assumes s: "setting sc n e po post par" and p: "preds_ok sc n preds"
    and old: "tree_ok sc n e post par old" and e'': "full sc e old \<Longrightarrow> settled sc n e post par old"
  shows "\<exists>t ch. sweep e preds post (rev po) old = Some (t, ch) \<and> sweep_inv sc n e post par old {y. reach sc e y} t ch"
proof -
  have "rev po = xs @ ys \<Longrightarrow> \<exists>t ch. foldl (visit_block e preds post) (Some (old, False)) xs = Some (t, ch)
      \<and> sweep_inv sc n e post par old (set xs) t ch" for xs ys
  proof (induction xs arbitrary: ys rule: rev_induct)
    case Nil
    then show ?case using old by (simp add: sweep_inv_def)
  next
    case (snoc b xs)
    then obtain t ch where t: "foldl (visit_block e preds post) (Some (old, False)) xs = Some (t, ch)"
      "sweep_inv sc n e post par old (set xs) t ch"
      by (metis append.assoc append_Cons append_Nil)
    have "rev po = xs @ b # ys" using snoc.prems by simp
    note pre = rpo_prefix [OF s this]
    show ?case using sweep_step [OF s p old e'' t(2) conjunct1 [OF pre] conjunct2 [OF pre]] t(1) by auto
  qed
  from this [of "rev po" "[]"] obtain t ch where t: "foldl (visit_block e preds post) (Some (old, False)) (rev po) = Some (t, ch)"
    "sweep_inv sc n e post par old (set po) t ch" by auto
  have "set po = {y. reach sc e y}" using settingD(2) [OF s] by (auto simp: numbering_def)
  then show ?thesis using t by (auto simp: sweep_def)
qed

section \<open>From sweep to sweep\<close>

lemma through_panc:
  assumes s: "setting sc n e po post par" and along: "\<And>y. reach sc e y \<Longrightarrow> y \<noteq> e \<Longrightarrow> along_parent par t y"
    and "panc e par y d" "reach sc e y" "anc t y x" "pos_of post d \<le> pos_of post x"
  shows "anc t d x"
  using assms(3-6)
proof (induction rule: panc.induct)
  case (panc_step y d)
  note py = settingD(6) [OF s panc_step.prems(1) panc_step.hyps(1)]
  have "pos_of post (par y) \<le> pos_of post d" using panc_pos [OF settingD(3) [OF s] panc_step.hyps(2)] py by blast
  then have "pos_of post y < pos_of post x" using py panc_step.prems(3) by linarith
  then have "x \<noteq> y" by blast
  then have "anc t (par y) x"
    using along [OF panc_step.prems(1) panc_step.hyps(1)] panc_step.prems(2) by (auto simp: along_parent_def)
  then show ?case using panc_step.IH py panc_step.prems(3) by blast
qed

definition fresh :: "(nat \<Rightarrow> nat list) \<Rightarrow> nat \<Rightarrow> nat option list \<Rightarrow> bool" where
  "fresh sc e t \<longleftrightarrow> (\<forall>y. reach sc e y \<longrightarrow> y \<noteq> e \<longrightarrow> t ! y = None)"

lemma sweep_settles:
  assumes s: "setting sc n e po post par" and old: "tree_ok sc n e post par old"
    and start: "settled sc n e post par old \<or> fresh sc e old"
    and inv: "sweep_inv sc n e post par old {y. reach sc e y} t ch"
  shows "settled sc n e post par t"
proof -
  note D = sweep_invD [OF inv]
  have along: "along_parent par t y" if "reach sc e y" "y \<noteq> e" for y using D(5) that by simp
  have "anc t y x" if y: "reach sc e y" "y \<noteq> e" and x: "\<And>p. reach sc e p \<Longrightarrow> y \<in> set (sc p) \<Longrightarrow> anc t p x" for y x
  proof (rule D(6))
    fix p assume p: "reach sc e p" "y \<in> set (sc p)"
    show "reaches_pred sc e post old t y x p"
    proof (cases "pos_of post y < pos_of post p \<or> old ! p = None")
      case True
      then show ?thesis using x [OF p] by (auto simp: reaches_pred_def)
    next
      case False
      note py = settingD(6) [OF s y]
      have "pos_of post p < pos_of post e"
        using False py pos_entry [OF s, of "par y"] by auto
      then have "p \<noteq> e" by blast
      then have st: "settled sc n e post par old" using start False p(1) by (auto simp: fresh_def)
      then have fl: "full sc e old" by (simp add: settled_def)
      have ox: "anc old p x" using D(4) [OF fl p(1)] x [OF p] by blast
      have "t ! par y \<noteq> None" using D(3) py by blast
      then have posx: "pos_of post y < pos_of post x"
        using anc_up [OF s D(1), of "par y" x] x [of "par y"] py by fastforce
      define P where "P d \<longleftrightarrow> anc old p d \<and> pos_of post y < pos_of post d" for d
      obtain d where d: "P d" "\<forall>d'. P d' \<longrightarrow> pos_of post d \<le> pos_of post d'"
        using ex_has_least_nat [of P x "pos_of post"] ox posx by (auto simp: P_def)
      have "pos_of post d \<le> pos_of post x" using d(2) ox posx by (simp add: P_def)
      moreover have "panc e par p d" using anc_up [OF s old _ p(1)] d(1) False by (auto simp: P_def)
      ultimately have "anc t d x" using through_panc [OF s along _ p(1) x [OF p]] by blast
      then show ?thesis using False d by (auto simp: reaches_pred_def first_above_def P_def)
    qed
  qed (use y in simp_all)
  then show ?thesis using D(1,3) along by (simp add: settled_def full_def)
qed

definition weight :: "(nat \<Rightarrow> nat list) \<Rightarrow> nat \<Rightarrow> nat option list \<Rightarrow> nat option list \<Rightarrow> nat" where
  "weight sc e post t = (\<Sum>y | reach sc e y. pos_of post (the (t ! y)))"

lemma finite_reach: "setting sc n e po post par \<Longrightarrow> finite {y. reach sc e y}"
  by (rule finite_subset [of _ "{..<n}"]) (auto dest: settingD(5))

lemma sweep_grows:
  assumes s: "setting sc n e po post par" and old: "settled sc n e post par old"
    and inv: "sweep_inv sc n e post par old {y. reach sc e y} t ch" and ch: ch
  shows "weight sc e post old < weight sc e post t"
proof -
  note D = sweep_invD [OF inv]
  have ot: "tree_ok sc n e post par old" "full sc e old" using old by (simp_all add: settled_def)
  have up: "pos_of post (the (old ! y)) \<le> pos_of post (the (t ! y))
      \<and> (old ! y \<noteq> t ! y \<longrightarrow> pos_of post (the (old ! y)) < pos_of post (the (t ! y)))" if y: "reach sc e y" for y
  proof (cases "y = e")
    case True
    then show ?thesis using ot(1) D(1) by (simp add: tree_ok_def)
  next
    case False
    obtain d where d: "t ! y = Some d" using D(3) y by blast
    obtain d' where d': "old ! y = Some d'" using ot(2) y by (auto simp: full_def)
    note st = tree_step [OF s D(1) y d] and st' = tree_step [OF s ot(1) y d']
    have "anc old y d" using D(4) [OF ot(2) y, of d] d by (simp add: r_into_rtranclp)
    then have a: "anc old d' d" using d' st False by (subst (asm) anc_first) auto
    note au = anc_up [OF s ot(1) a]
    have "pos_of post d' \<le> pos_of post d" using au st' by blast
    moreover have "pos_of post d' < pos_of post d" if "d' \<noteq> d"
      using pos_inj [OF s, of d' d] st st' that \<open>pos_of post d' \<le> pos_of post d\<close> by fastforce
    ultimately show ?thesis using d d' by auto
  qed
  obtain y where y: "reach sc e y" "old ! y \<noteq> t ! y"
  proof -
    have "t \<noteq> old" using D(7) ch by simp
    moreover have "length t = length old" using ot(1) D(1) by (simp add: tree_ok_def)
    ultimately obtain y where y: "y < length t" "t ! y \<noteq> old ! y" by (metis nth_equalityI)
    then have "reach sc e y" using ot(1) D(1) unfolding tree_ok_def by metis
    then show ?thesis using that y(2) by metis
  qed
  show ?thesis unfolding weight_def
  proof (rule sum_strict_mono_ex1)
    show "finite {y. reach sc e y}" by (rule finite_reach [OF s])
    show "\<forall>y \<in> {y. reach sc e y}. pos_of post (the (old ! y)) \<le> pos_of post (the (t ! y))" using up by blast
    show "\<exists>y \<in> {y. reach sc e y}. pos_of post (the (old ! y)) < pos_of post (the (t ! y))" using up y by blast
  qed
qed

lemma weight_bound:
  assumes s: "setting sc n e po post par" and t: "settled sc n e post par t"
  shows "weight sc e post t \<le> card {y. reach sc e y} * pos_of post e"
proof -
  have "pos_of post (the (t ! y)) \<le> pos_of post e" if "reach sc e y" for y
  proof -
    have "t ! y \<noteq> None" using t that by (simp add: settled_def full_def)
    then obtain d where d: "t ! y = Some d" by blast
    have "reach sc e d" using tree_step [OF s _ that d] t by (simp add: settled_def)
    then show ?thesis using d pos_entry [OF s] by simp
  qed
  then have "(\<Sum>y | reach sc e y. pos_of post (the (t ! y))) \<le> of_nat (card {y. reach sc e y}) * pos_of post e"
    by (intro sum_bounded_above) simp
  then show ?thesis by (simp add: weight_def)
qed

definition closed_tree :: "(nat \<Rightarrow> nat list) \<Rightarrow> nat \<Rightarrow> nat option list \<Rightarrow> bool" where
  "closed_tree sc e t \<longleftrightarrow>
     (\<forall>y x p. reach sc e y \<longrightarrow> y \<noteq> e \<longrightarrow> anc t y x \<longrightarrow> x \<noteq> y \<longrightarrow> reach sc e p \<longrightarrow> y \<in> set (sc p) \<longrightarrow> anc t p x)"

lemma fixpoint_step:
  assumes s: "setting sc n e po post par" and p: "preds_ok sc n preds" and old: "tree_ok sc n e post par old"
    and start: "settled sc n e post par old \<or> fresh sc e old"
    and rec: "\<And>t. settled sc n e post par t \<Longrightarrow> settled sc n e post par old \<Longrightarrow> weight sc e post old < weight sc e post t \<or> False
      \<Longrightarrow> \<exists>t'. fixpoint e preds post (rev po) t = Some t' \<and> settled sc n e post par t' \<and> closed_tree sc e t'"
    and rec0: "\<And>t. settled sc n e post par t \<Longrightarrow> \<not> settled sc n e post par old
      \<Longrightarrow> \<exists>t'. fixpoint e preds post (rev po) t = Some t' \<and> settled sc n e post par t' \<and> closed_tree sc e t'"
  shows "\<exists>t'. fixpoint e preds post (rev po) old = Some t' \<and> settled sc n e post par t' \<and> closed_tree sc e t'"
proof -
  have fs: "settled sc n e post par old" if "full sc e old"
  proof (cases "settled sc n e post par old")
    case False
    then have "fresh sc e old" using start by blast
    then have "y = e" if "reach sc e y" for y using \<open>full sc e old\<close> that unfolding full_def fresh_def by blast
    then show ?thesis using old \<open>full sc e old\<close> unfolding settled_def by metis
  qed
  obtain t ch where t: "sweep e preds post (rev po) old = Some (t, ch)"
    "sweep_inv sc n e post par old {y. reach sc e y} t ch"
    using sweep_result [OF s p old fs] by blast
  have st: "settled sc n e post par t" by (rule sweep_settles [OF s old start t(2)])
  note D = sweep_invD [OF t(2)]
  have eq: "fixpoint e preds post (rev po) old = (if ch then fixpoint e preds post (rev po) t else Some t)"
    using t(1) by (subst fixpoint.simps) simp
  show ?thesis
  proof (cases ch)
    case True
    then show ?thesis unfolding eq using rec [OF st] rec0 [OF st] sweep_grows [OF s _ t(2)] by fastforce
  next
    case False
    have "anc t p x" if "reach sc e y" "y \<noteq> e" "anc t y x" "x \<noteq> y" "reach sc e p" "y \<in> set (sc p)" for y x p
      using D(8) [OF False, of y x p] that D(3) by blast
    then have "closed_tree sc e t" unfolding closed_tree_def by blast
    then show ?thesis using False st unfolding eq by simp
  qed
qed

lemma fixpoint_settled:
  assumes s: "setting sc n e po post par" and p: "preds_ok sc n preds" and t: "settled sc n e post par t"
  shows "\<exists>t'. fixpoint e preds post (rev po) t = Some t' \<and> settled sc n e post par t' \<and> closed_tree sc e t'"
  using t
proof (induction "card {y. reach sc e y} * pos_of post e - weight sc e post t" arbitrary: t rule: less_induct)
  case less
  show ?case
  proof (rule fixpoint_step [OF s p])
    show "tree_ok sc n e post par t" "settled sc n e post par t \<or> fresh sc e t"
      using less.prems by (simp_all add: settled_def)
    fix t' assume "settled sc n e post par t'" "weight sc e post t < weight sc e post t' \<or> False"
    then show "\<exists>t''. fixpoint e preds post (rev po) t' = Some t'' \<and> settled sc n e post par t'' \<and> closed_tree sc e t''"
      using less.hyps weight_bound [OF s] by (meson diff_less_mono2 less_le_trans)
  qed (use less.prems in simp)
qed

theorem fixpoint_dominators:
  assumes s: "setting sc n e po post par" and p: "preds_ok sc n preds"
  shows "\<exists>t. fixpoint e preds post (rev po) ((replicate n None)[e := Some e]) = Some t
    \<and> tree_ok sc n e post par t \<and> full sc e t \<and> (\<forall>y x. reach sc e y \<longrightarrow> anc t y x \<longleftrightarrow> dom_by sc e x y)"
proof -
  let ?t0 = "(replicate n None)[e := Some e] :: nat option list"
  have en: "e < n" using settingD(4) [OF s] .
  have r: "y < n" if "reach sc e y" for y using settingD(5) [OF s that] .
  have t0: "tree_ok sc n e post par ?t0"
    using en r reach_entry by (auto simp: tree_ok_def nth_list_update)
  have "fresh sc e ?t0" using r by (auto simp: fresh_def)
  then obtain t where t: "fixpoint e preds post (rev po) ?t0 = Some t" "settled sc n e post par t" "closed_tree sc e t"
    using fixpoint_step [OF s p t0] fixpoint_settled [OF s p] by blast
  have tt: "tree_ok sc n e post par t" "full sc e t" using t(2) by (simp_all add: settled_def)
  have "walk sc e xs \<Longrightarrow> anc t (last xs) x \<Longrightarrow> x \<in> set xs" for xs x
  proof (induction xs rule: rev_induct)
    case (snoc y xs)
    have ex: "x = e" if "anc t e x" using anc_same [OF s tt(1) that reach_entry] anc_up [OF s tt(1) that reach_entry] tt
        pos_entry [OF s] by (auto simp: tree_ok_def)
    show ?case
    proof (cases "xs = [] \<or> x = y")
      case True
      then show ?thesis using snoc.prems ex by (auto simp: walk_def)
    next
      case False
      then have w: "walk sc e xs" "y \<in> set (sc (last xs))" using snoc.prems(1) by (simp_all add: walk_snoc)
      then have rl: "reach sc e (last xs)" using reach_walk by blast
      then have ry: "reach sc e y" using w(2) by (rule reach_step)
      show ?thesis
      proof (cases "y = e")
        case True
        then show ?thesis using ex snoc.prems w(1) by (auto simp: walk_def)
      next
        case ne: False
        then have "anc t (last xs) x" using t(3) ry rl w(2) snoc.prems(2) False unfolding closed_tree_def by auto
        then show ?thesis using snoc.IH w(1) by simp
      qed
    qed
  qed (simp add: walk_def)
  then have "anc t y x \<Longrightarrow> dom_by sc e x y" for y x by (auto simp: dom_by_def)
  moreover have "dom_by sc e x y \<Longrightarrow> anc t y x" if "reach sc e y" for y x
    using dom_anc [OF s tt(1) that] tt(2) that by (simp add: full_def)
  ultimately show ?thesis using t(1) tt by blast
qed

end
