(* ===== verification/Dominator_Intervals.thy ===== *)
theory Dominator_Intervals
  imports Dominator_Fixpoint
begin

text \<open>
  The preorder walk of the finished tree ends, and its intervals decide ancestry: a block lies
  in the interval of another exactly when the other is its ancestor.
\<close>

section \<open>Child lists\<close>

lemma tree_children_of:
  assumes "\<forall>y < length t. \<forall>d. t ! y = Some d \<longrightarrow> d < n" "length t = n" "b < n"
  shows "adj_of (tree_children t n) b = filter (\<lambda>c. t ! c = Some b \<and> c \<noteq> b) [0..<n]"
proof -
  have keys: "\<forall>k \<in> set (map fst (tree_edges t)). k < n"
    using assms(1) by (auto simp: tree_edges_def split: option.splits if_splits)
  have "adj_of (tree_children t n) b = vals (tree_edges t) b"
    unfolding tree_children_def by (rule group_edges_of [OF keys _ assms(3)]) simp
  also have "\<dots> = concat (map (\<lambda>c. if t ! c = Some b \<and> c \<noteq> b then [c] else []) [0..<n])"
    unfolding tree_edges_def vals_def assms(2)
    by (simp add: filter_concat map_concat comp_def cong: map_cong)
      (auto intro!: arg_cong [where f = concat] split: option.splits)
  also have "\<dots> = filter (\<lambda>c. t ! c = Some b \<and> c \<noteq> b) [0..<n]" for xs
    by (induction n) auto
  finally show ?thesis .
qed

section \<open>The invariant of the walk\<close>

definition numbered :: "interval_state \<Rightarrow> nat \<Rightarrow> bool" where
  "numbered st x \<longleftrightarrow> x < length (pre_num st) \<and> pre_num st ! x \<noteq> None"

definition pre_of :: "interval_state \<Rightarrow> nat \<Rightarrow> nat" where
  "pre_of st x = the (pre_num st ! x)"

definition open_blocks :: "interval_state \<Rightarrow> nat list" where
  "open_blocks st = map fst (walk_stack st)"

definition interval_inv ::
  "(nat \<Rightarrow> nat list) \<Rightarrow> nat \<Rightarrow> nat \<Rightarrow> nat option list \<Rightarrow> interval_state \<Rightarrow> bool" where
  "interval_inv ch n e t st \<longleftrightarrow>
     length (pre_num st) = n \<and> length (subtree_last st) = n
     \<and> numbered st e
     \<and> (\<forall>x. numbered st x \<longrightarrow> pre_of st x < next_num st)
     \<and> (\<forall>x y. numbered st x \<longrightarrow> t ! x = Some y \<longrightarrow> x \<noteq> y \<longrightarrow> numbered st y \<and> pre_of st y < pre_of st x)
     \<and> distinct (open_blocks st) \<and> (\<forall>x \<in> set (open_blocks st). numbered st x)
     \<and> successively (\<lambda>x y. t ! x = Some y \<and> x \<noteq> y) (open_blocks st)
     \<and> (\<forall>(b, c) \<in> set (walk_stack st). \<forall>k < length (ch b). numbered st (ch b ! k) \<longleftrightarrow> k < c)
     \<and> (\<forall>x. numbered st x \<longrightarrow> x \<notin> set (open_blocks st) \<longrightarrow>
          (\<forall>y \<in> set (ch x). numbered st y \<and> y \<notin> set (open_blocks st))
          \<and> subtree_last st ! x < next_num st
          \<and> (\<forall>y. numbered st y \<longrightarrow> anc t y x \<longleftrightarrow> pre_of st x \<le> pre_of st y \<and> pre_of st y \<le> subtree_last st ! x))
     \<and> (\<forall>x \<in> set (open_blocks st). \<forall>y. numbered st y \<longrightarrow> pre_of st x \<le> pre_of st y \<longrightarrow> anc t y x)
     \<and> (\<forall>x. numbered st x \<longrightarrow> t ! x \<noteq> None)"

lemma interval_invD:
  assumes "interval_inv ch n e t st"
  shows "length (pre_num st) = n" "length (subtree_last st) = n" "numbered st e"
    "numbered st x \<Longrightarrow> pre_of st x < next_num st"
    "numbered st x \<Longrightarrow> t ! x = Some y \<Longrightarrow> x \<noteq> y \<Longrightarrow> numbered st y \<and> pre_of st y < pre_of st x"
    "distinct (open_blocks st)" "x \<in> set (open_blocks st) \<Longrightarrow> numbered st x"
    "successively (\<lambda>x y. t ! x = Some y \<and> x \<noteq> y) (open_blocks st)"
    "(b, c) \<in> set (walk_stack st) \<Longrightarrow> k < length (ch b) \<Longrightarrow> numbered st (ch b ! k) \<longleftrightarrow> k < c"
    "numbered st x \<Longrightarrow> x \<notin> set (open_blocks st) \<Longrightarrow> y \<in> set (ch x) \<Longrightarrow> numbered st y \<and> y \<notin> set (open_blocks st)"
    "numbered st x \<Longrightarrow> x \<notin> set (open_blocks st) \<Longrightarrow> subtree_last st ! x < next_num st"
    "numbered st x \<Longrightarrow> x \<notin> set (open_blocks st) \<Longrightarrow> numbered st y \<Longrightarrow>
       anc t y x \<longleftrightarrow> pre_of st x \<le> pre_of st y \<and> pre_of st y \<le> subtree_last st ! x"
    "x \<in> set (open_blocks st) \<Longrightarrow> numbered st y \<Longrightarrow> pre_of st x \<le> pre_of st y \<Longrightarrow> anc t y x"
    "numbered st x \<Longrightarrow> t ! x \<noteq> None"
proof -
  note c = assms [unfolded interval_inv_def]
  show "length (pre_num st) = n" by (rule c [THEN conjunct1, rule_format])
  show "length (subtree_last st) = n" by (rule c [THEN conjunct2, THEN conjunct1, rule_format])
  show "numbered st e" by (rule c [THEN conjunct2, THEN conjunct2, THEN conjunct1, rule_format])
  show "numbered st x \<Longrightarrow> pre_of st x < next_num st" by (rule c [THEN conjunct2, THEN conjunct2, THEN conjunct2, THEN conjunct1, rule_format])
  show "numbered st x \<Longrightarrow> t ! x = Some y \<Longrightarrow> x \<noteq> y \<Longrightarrow> numbered st y \<and> pre_of st y < pre_of st x"
    by (rule c [THEN conjunct2, THEN conjunct2, THEN conjunct2, THEN conjunct2, THEN conjunct1, rule_format])
  show "distinct (open_blocks st)" by (rule c [THEN conjunct2, THEN conjunct2, THEN conjunct2, THEN conjunct2, THEN conjunct2, THEN conjunct1, rule_format])
  show "x \<in> set (open_blocks st) \<Longrightarrow> numbered st x" by (rule c [THEN conjunct2, THEN conjunct2, THEN conjunct2, THEN conjunct2, THEN conjunct2, THEN conjunct2, THEN conjunct1, rule_format])
  show "successively (\<lambda>x y. t ! x = Some y \<and> x \<noteq> y) (open_blocks st)"
    by (rule c [THEN conjunct2, THEN conjunct2, THEN conjunct2, THEN conjunct2, THEN conjunct2, THEN conjunct2, THEN conjunct2, THEN conjunct1, rule_format])
  show "(b, c) \<in> set (walk_stack st) \<Longrightarrow> k < length (ch b) \<Longrightarrow> numbered st (ch b ! k) \<longleftrightarrow> k < c"
    using c [THEN conjunct2, THEN conjunct2, THEN conjunct2, THEN conjunct2, THEN conjunct2, THEN conjunct2, THEN conjunct2, THEN conjunct2, THEN conjunct1] by blast
  note d = c [THEN conjunct2, THEN conjunct2, THEN conjunct2, THEN conjunct2, THEN conjunct2, THEN conjunct2, THEN conjunct2, THEN conjunct2, THEN conjunct2, THEN conjunct1, rule_format]
  show "numbered st x \<Longrightarrow> x \<notin> set (open_blocks st) \<Longrightarrow> y \<in> set (ch x) \<Longrightarrow> numbered st y \<and> y \<notin> set (open_blocks st)"
    by (rule d [THEN conjunct1, rule_format])
  show "numbered st x \<Longrightarrow> x \<notin> set (open_blocks st) \<Longrightarrow> subtree_last st ! x < next_num st"
    by (rule d [THEN conjunct2, THEN conjunct1])
  show "numbered st x \<Longrightarrow> x \<notin> set (open_blocks st) \<Longrightarrow> numbered st y \<Longrightarrow>
       anc t y x \<longleftrightarrow> pre_of st x \<le> pre_of st y \<and> pre_of st y \<le> subtree_last st ! x"
    by (rule d [THEN conjunct2, THEN conjunct2, rule_format])
  show "x \<in> set (open_blocks st) \<Longrightarrow> numbered st y \<Longrightarrow> pre_of st x \<le> pre_of st y \<Longrightarrow> anc t y x"
    by (rule c [THEN conjunct2, THEN conjunct2, THEN conjunct2, THEN conjunct2, THEN conjunct2, THEN conjunct2, THEN conjunct2, THEN conjunct2, THEN conjunct2, THEN conjunct2, THEN conjunct1, rule_format])
  show "numbered st x \<Longrightarrow> t ! x \<noteq> None" by (rule c [THEN conjunct2, THEN conjunct2, THEN conjunct2, THEN conjunct2, THEN conjunct2, THEN conjunct2, THEN conjunct2, THEN conjunct2, THEN conjunct2, THEN conjunct2, THEN conjunct2, rule_format])
qed

text \<open>What the walk needs of the tree: child lists, and no cycle but the one of the entry.\<close>

definition tree_shape :: "(nat \<Rightarrow> nat list) \<Rightarrow> nat \<Rightarrow> nat option list \<Rightarrow> bool" where
  "tree_shape ch n t \<longleftrightarrow>
     (\<forall>b. b < n \<longrightarrow> distinct (ch b) \<and> (\<forall>c. c \<in> set (ch b) \<longleftrightarrow> c < n \<and> t ! c = Some b \<and> c \<noteq> b))
     \<and> (\<forall>x y. x < n \<longrightarrow> t ! x = Some y \<longrightarrow> x \<noteq> y \<longrightarrow> y < n \<and> \<not> anc t y x)"

lemma tree_child:
  assumes "tree_shape ch n t" "b < n" "k < length (ch b)"
  shows "ch b ! k < n" "t ! (ch b ! k) = Some b" "ch b ! k \<noteq> b"
  using assms nth_mem [OF assms(3)] unfolding tree_shape_def by blast+

lemma anc_pre:
  assumes "interval_inv ch n e t st" "anc t y x" "numbered st y"
  shows "numbered st x \<and> pre_of st x \<le> pre_of st y"
  using assms(2,3)
proof (induction rule: converse_rtranclp_induct)
  case (step y z)
  then show ?case using interval_invD(5) [OF assms(1), of y z] by (cases "y = z") force+
qed simp

lemma closed_down:
  assumes inv: "interval_inv ch n e t st" and sh: "tree_shape ch n t"
    and "anc t y x" "numbered st x" "x \<notin> set (open_blocks st)" "\<And>z. anc t y z \<Longrightarrow> z < n"
  shows "numbered st y \<and> y \<notin> set (open_blocks st)"
  using assms(3,6)
proof (induction rule: converse_rtranclp_induct)
  case base
  then show ?case using assms(4,5) by simp
next
  case (step y z)
  have z: "numbered st z \<and> z \<notin> set (open_blocks st)"
    using step.IH step.prems step.hyps(1) by (meson converse_rtranclp_into_rtranclp)
  show ?case
  proof (cases "y = z")
    case False
    have "y < n" "z < n" using step.prems step.hyps(1) by (auto simp: r_into_rtranclp)
    then have "y \<in> set (ch z)" using sh step.hyps(1) False by (simp add: tree_shape_def)
    then show ?thesis using interval_invD(10) [OF inv] z by blast
  qed (use z in simp)
qed

lemma open_chain:
  "successively (\<lambda>x y. t ! x = Some y \<and> x \<noteq> y) (b # bs) \<Longrightarrow> x \<in> set (b # bs) \<Longrightarrow> anc t b x"
proof (induction bs arbitrary: b)
  case (Cons b' bs)
  then show ?case by (auto intro: converse_rtranclp_into_rtranclp)
qed simp

lemma interval_push:
  assumes inv: "interval_inv ch n e t st" and sh: "tree_shape ch n t"
    and st: "walk_stack st = (b, c) # rest" "c < length (ch b)"
    and bounded: "\<forall>x < n. t ! x \<noteq> None \<longrightarrow> (\<forall>z. anc t x z \<longrightarrow> z < n)"
  shows "interval_inv ch n e t (st\<lparr>walk_stack := (ch b ! c, 0) # (b, c + 1) # rest,
      pre_num := (pre_num st)[ch b ! c := Some (next_num st)], next_num := next_num st + 1\<rparr>)"
    and "\<not> numbered st (ch b ! c)" "ch b ! c < n"
proof -
  note D = interval_invD [OF inv]
  let ?x = "ch b ! c"
  let ?st = "st\<lparr>walk_stack := (?x, 0) # (b, c + 1) # rest,
      pre_num := (pre_num st)[?x := Some (next_num st)], next_num := next_num st + 1\<rparr>"
  have ob: "open_blocks st = b # map fst rest" "open_blocks ?st = ?x # open_blocks st"
    using st by (simp_all add: open_blocks_def)
  have nb: "numbered st b" using D(7) ob by simp
  then have bn: "b < n" using D(1) by (simp add: numbered_def)
  note x = tree_child [OF sh bn st(2)]
  then show "?x < n" by simp
  show new: "\<not> numbered st ?x" using D(9) [of b c c] st by simp
  have num: "numbered ?st y \<longleftrightarrow> y = ?x \<or> numbered st y" for y
    using x D(1) by (auto simp: numbered_def nth_list_update)
  have pre: "pre_of ?st ?x = next_num st" "\<And>y. numbered st y \<Longrightarrow> pre_of ?st y = pre_of st y"
    using x D(1) new by (auto simp: pre_of_def) (metis nth_list_update_neq)
  have xopen: "?x \<notin> set (open_blocks st)" using D(7) new by blast
  have up: "anc t ?x y" if "y \<in> set (open_blocks ?st)" for y
    using open_chain [of t ?x "open_blocks st" y] D(8) ob x that by simp
  have fin: "\<not> anc t ?x z" if z: "numbered st z" "z \<notin> set (open_blocks st)" for z
  proof
    assume "anc t ?x z"
    moreover have "?x \<noteq> z" using z new by blast
    ultimately have "anc t b z" using x(2) by (subst (asm) anc_first) auto
    moreover have "y < n" if "anc t b y" for y
      using bounded x that by (auto intro: converse_rtranclp_into_rtranclp)
    ultimately show False using closed_down [OF inv sh _ z] ob by auto
  qed
  have new_children: "\<forall>k < length (ch ?x). \<not> numbered ?st (ch ?x ! k)"
  proof (intro allI impI notI)
    fix k assume k: "k < length (ch ?x)" "numbered ?st (ch ?x ! k)"
    show False using D(5) [of "ch ?x ! k" ?x] tree_child [OF sh x(1) k(1)] num [of "ch ?x ! k"] k(2) new by simp
  qed
  have own_children: "\<forall>k < length (ch b). numbered ?st (ch b ! k) \<longleftrightarrow> k < c + 1"
  proof (intro allI impI)
    fix k assume k: "k < length (ch b)"
    have "distinct (ch b)" using sh bn by (simp add: tree_shape_def)
    then have "ch b ! k = ?x \<longleftrightarrow> k = c" using k st(2) by (simp add: nth_eq_iff_index_eq)
    moreover have "numbered st (ch b ! k) \<longleftrightarrow> k < c" using D(9) [of b c k] st(1) k by simp
    ultimately show "numbered ?st (ch b ! k) \<longleftrightarrow> k < c + 1" unfolding num by linarith
  qed
  have rest_children: "\<forall>(b', c') \<in> set rest. \<forall>k < length (ch b'). numbered ?st (ch b' ! k) \<longleftrightarrow> k < c'"
  proof (intro ballI, unfold case_prod_unfold, intro allI impI)
    fix q k assume "q \<in> set rest" "k < length (ch (fst q))"
    then obtain b' c' where b': "(b', c') \<in> set rest" "k < length (ch b')" and q: "q = (b', c')"
      by (metis prod.collapse)
    have ob': "b' \<in> set (open_blocks st)" "b' \<noteq> b" using b'(1) ob(1) D(6) by force+
    then have "b' < n" using D(1,7) by (auto simp: numbered_def)
    then have "t ! (ch b' ! k) = Some b'" using tree_child [OF sh] b'(2) by blast
    then have "ch b' ! k \<noteq> ?x" using x(2) ob'(2) by auto
    then show "numbered ?st (ch (fst q) ! k) \<longleftrightarrow> k < snd q" using num D(9) [of b' c' k] b' st(1) q by simp
  qed
  show "interval_inv ch n e t ?st"
    unfolding interval_inv_def
  proof (intro conjI)
    show "length (pre_num ?st) = n" "length (subtree_last ?st) = n" using D(1,2) by simp_all
    show "numbered ?st e" using D(3) num by simp
    show "\<forall>y. numbered ?st y \<longrightarrow> pre_of ?st y < next_num ?st" using D(4) num pre by (auto simp: less_Suc_eq)
    show "\<forall>y z. numbered ?st y \<longrightarrow> t ! y = Some z \<longrightarrow> y \<noteq> z \<longrightarrow> numbered ?st z \<and> pre_of ?st z < pre_of ?st y"
    proof (intro allI impI)
      fix y z assume y: "numbered ?st y" "t ! y = Some z" "y \<noteq> z"
      show "numbered ?st z \<and> pre_of ?st z < pre_of ?st y"
      proof (cases "y = ?x")
        case True
        then show ?thesis using y x nb num pre D(4) by auto
      next
        case False
        then show ?thesis using y num pre D(5) by auto
      qed
    qed
    show "distinct (open_blocks ?st)" using D(6) ob xopen by simp
    show "\<forall>y \<in> set (open_blocks ?st). numbered ?st y" using D(7) ob num by auto
    show "successively (\<lambda>x y. t ! x = Some y \<and> x \<noteq> y) (open_blocks ?st)" using D(8) ob x by simp
    show "\<forall>(b', c') \<in> set (walk_stack ?st). \<forall>k < length (ch b'). numbered ?st (ch b' ! k) \<longleftrightarrow> k < c'"
      using new_children own_children rest_children by simp
    show "\<forall>z. numbered ?st z \<longrightarrow> z \<notin> set (open_blocks ?st) \<longrightarrow>
        (\<forall>y \<in> set (ch z). numbered ?st y \<and> y \<notin> set (open_blocks ?st)) \<and> subtree_last ?st ! z < next_num ?st
        \<and> (\<forall>y. numbered ?st y \<longrightarrow> anc t y z \<longleftrightarrow> pre_of ?st z \<le> pre_of ?st y \<and> pre_of ?st y \<le> subtree_last ?st ! z)"
    proof (intro allI impI)
      fix z assume "numbered ?st z" "z \<notin> set (open_blocks ?st)"
      then have z: "numbered st z" "z \<notin> set (open_blocks st)" "z \<noteq> ?x" using num ob by auto
      have sub: "subtree_last ?st ! z = subtree_last st ! z" "next_num ?st = next_num st + 1" by simp_all
      have "numbered ?st y \<and> y \<notin> set (open_blocks ?st)" if "y \<in> set (ch z)" for y
        using D(10) [OF z(1,2) that] num ob new by auto
      moreover have "anc t y z \<longleftrightarrow> pre_of ?st z \<le> pre_of ?st y \<and> pre_of ?st y \<le> subtree_last ?st ! z"
        if "numbered ?st y" for y
      proof (cases "y = ?x")
        case True
        then show ?thesis using fin [OF z(1,2)] D(11) [OF z(1,2)] pre(1) sub by auto
      next
        case False
        then have "numbered st y" using that num by blast
        then show ?thesis using D(12) [OF z(1,2)] pre z sub by simp
      qed
      ultimately show "(\<forall>y \<in> set (ch z). numbered ?st y \<and> y \<notin> set (open_blocks ?st)) \<and> subtree_last ?st ! z < next_num ?st
        \<and> (\<forall>y. numbered ?st y \<longrightarrow> anc t y z \<longleftrightarrow> pre_of ?st z \<le> pre_of ?st y \<and> pre_of ?st y \<le> subtree_last ?st ! z)"
        using D(11) [OF z(1,2)] sub by (metis less_Suc_eq Suc_eq_plus1)
    qed
    show "\<forall>y. numbered ?st y \<longrightarrow> t ! y \<noteq> None" using num x(2) D(14) by auto
    show "\<forall>z \<in> set (open_blocks ?st). \<forall>y. numbered ?st y \<longrightarrow> pre_of ?st z \<le> pre_of ?st y \<longrightarrow> anc t y z"
    proof (intro ballI allI impI)
      fix z y assume z: "z \<in> set (open_blocks ?st)" and y: "numbered ?st y" "pre_of ?st z \<le> pre_of ?st y"
      show "anc t y z"
      proof (cases "y = ?x")
        case True
        then show ?thesis using up z by simp
      next
        case False
        then have y': "numbered st y" "pre_of ?st y = pre_of st y" using y(1) num pre by auto
        then have "z \<noteq> ?x" using D(4) [OF y'(1)] y(2) pre(1) by auto
        then have "z \<in> set (open_blocks st)" using z ob by simp
        then show ?thesis using D(13) y y' pre D(7) by auto
      qed
    qed
  qed
qed


lemma interval_pop:
  assumes inv: "interval_inv ch n e t st" and sh: "tree_shape ch n t"
    and st: "walk_stack st = (b, c) # rest" "\<not> c < length (ch b)"
  shows "interval_inv ch n e t (st\<lparr>walk_stack := rest, subtree_last := (subtree_last st)[b := next_num st - 1]\<rparr>)"
proof -
  note D = interval_invD [OF inv]
  let ?st = "st\<lparr>walk_stack := rest, subtree_last := (subtree_last st)[b := next_num st - 1]\<rparr>"
  have ob: "open_blocks st = b # open_blocks ?st" using st by (simp add: open_blocks_def)
  have nb: "numbered st b" using D(7) ob by simp
  then have bn: "b < n" using D(1) by (simp add: numbered_def)
  have same: "numbered ?st = numbered st" "pre_of ?st = pre_of st" "next_num ?st = next_num st"
    by (simp_all add: fun_eq_iff numbered_def pre_of_def)
  have pos: "0 < next_num st" using D(4) [OF nb] by linarith
  have own: "numbered st y \<and> y \<notin> set (open_blocks ?st)" if y: "y \<in> set (ch b)" for y
  proof -
    obtain k where k: "k < length (ch b)" "ch b ! k = y" using y by (auto simp: in_set_conv_nth)
    note child = tree_child [OF sh bn k(1), unfolded k(2)]
    have "numbered st y" using D(9) [of b c k] st k by auto
    moreover have "y \<notin> set (open_blocks ?st)"
    proof
      assume "y \<in> set (open_blocks ?st)"
      then have "anc t b y" using open_chain D(8) ob by fastforce
      then show False using sh child unfolding tree_shape_def by blast
    qed
    ultimately show ?thesis by simp
  qed
  have last: "anc t y b \<longleftrightarrow> pre_of st b \<le> pre_of st y \<and> pre_of st y \<le> next_num st - 1" if y: "numbered st y" for y
    using anc_pre [OF inv _ y, of b] D(13) [of b y] D(4) [OF y] y ob by fastforce
  show ?thesis
    unfolding interval_inv_def same
  proof (intro conjI)
    show "length (pre_num ?st) = n" "length (subtree_last ?st) = n" using D(1,2) by simp_all
    show "numbered st e" by (rule D(3))
    show "\<forall>x. numbered st x \<longrightarrow> pre_of st x < next_num st" using D(4) by blast
    show "\<forall>x y. numbered st x \<longrightarrow> t ! x = Some y \<longrightarrow> x \<noteq> y \<longrightarrow> numbered st y \<and> pre_of st y < pre_of st x"
      using D(5) by blast
    show "distinct (open_blocks ?st)" "\<forall>x \<in> set (open_blocks ?st). numbered st x" using D(6,7) ob by auto
    show "\<forall>x. numbered st x \<longrightarrow> t ! x \<noteq> None" using D(14) by blast
    show "successively (\<lambda>x y. t ! x = Some y \<and> x \<noteq> y) (open_blocks ?st)"
      using D(8) ob by (cases "open_blocks ?st") auto
    show "\<forall>(b, c) \<in> set (walk_stack ?st). \<forall>k < length (ch b). numbered st (ch b ! k) \<longleftrightarrow> k < c"
      using D(9) st(1) by auto
    show "\<forall>x. numbered st x \<longrightarrow> x \<notin> set (open_blocks ?st) \<longrightarrow>
        (\<forall>y \<in> set (ch x). numbered st y \<and> y \<notin> set (open_blocks ?st)) \<and> subtree_last ?st ! x < next_num st
        \<and> (\<forall>y. numbered st y \<longrightarrow> anc t y x \<longleftrightarrow> pre_of st x \<le> pre_of st y \<and> pre_of st y \<le> subtree_last ?st ! x)"
    proof (intro allI impI)
      fix x assume x: "numbered st x" "x \<notin> set (open_blocks ?st)"
      show "(\<forall>y \<in> set (ch x). numbered st y \<and> y \<notin> set (open_blocks ?st)) \<and> subtree_last ?st ! x < next_num st
        \<and> (\<forall>y. numbered st y \<longrightarrow> anc t y x \<longleftrightarrow> pre_of st x \<le> pre_of st y \<and> pre_of st y \<le> subtree_last ?st ! x)"
      proof (cases "x = b")
        case True
        then have "subtree_last ?st ! x = next_num st - 1" using bn D(2) by simp
        then show ?thesis using True own last pos by simp
      next
        case False
        then have o: "x \<notin> set (open_blocks st)" "subtree_last ?st ! x = subtree_last st ! x" using x ob by simp_all
        then show ?thesis using D(10-12) [OF x(1) o(1)] ob by auto
      qed
    qed
    show "\<forall>x \<in> set (open_blocks ?st). \<forall>y. numbered st y \<longrightarrow> pre_of st x \<le> pre_of st y \<longrightarrow> anc t y x"
      using D(13) ob by simp
  qed
qed

section \<open>The walk\<close>

lemma interval_loop_result:
  assumes "interval_inv (adj_of children) n e t st" "tree_shape (adj_of children) n t"
    and bounded: "\<forall>x < n. t ! x \<noteq> None \<longrightarrow> (\<forall>z. anc t x z \<longrightarrow> z < n)"
  shows "\<exists>st'. interval_loop children st = Some st' \<and> interval_inv (adj_of children) n e t st' \<and> walk_stack st' = []"
  using assms(1)
proof (induction "2 * (n - card {x. numbered st x}) + length (walk_stack st)" arbitrary: st rule: less_induct)
  case less
  note inv = less.prems
  show ?case
  proof (cases "walk_stack st")
    case Nil
    then show ?thesis using inv by (subst interval_loop.simps) simp
  next
    case (Cons a rest)
    obtain b c where st: "walk_stack st = (b, c) # rest" using Cons by (cases a) auto
    show ?thesis
    proof (cases "c < length (adj_of children b)")
      case True
      let ?x = "adj_of children b ! c"
      let ?st = "st\<lparr>walk_stack := (?x, 0) # (b, c + 1) # rest,
        pre_num := (pre_num st)[?x := Some (next_num st)], next_num := next_num st + 1\<rparr>"
      note push = interval_push [OF inv assms(2) st True bounded]
      have len: "length (pre_num st) = n" using interval_invD(1) [OF inv] .
      have "{x. numbered ?st x} = insert ?x {x. numbered st x}"
        using push(3) len by (auto simp: numbered_def nth_list_update)
      moreover have fin: "{x. numbered st x} \<subseteq> {..<n}" using len by (auto simp: numbered_def)
      moreover have "{x. numbered ?st x} \<subseteq> {..<n}" using len by (auto simp: numbered_def)
      moreover have "?x \<notin> {x. numbered st x}" using push(2) by blast
      ultimately have "card {x. numbered ?st x} = card {x. numbered st x} + 1" "card {x. numbered ?st x} \<le> n"
        using finite_subset [OF fin] card_mono [of "{..<n}" "{x. numbered ?st x}"] by (simp_all only: card_insert_disjoint) simp_all
      then have "2 * (n - card {x. numbered ?st x}) + length (walk_stack ?st)
          < 2 * (n - card {x. numbered st x}) + length (walk_stack st)" using st by simp
      from less.hyps [OF this push(1)] show ?thesis using True st by (subst interval_loop.simps) (simp add: Let_def)
    next
      case False
      let ?st = "st\<lparr>walk_stack := rest, subtree_last := (subtree_last st)[b := next_num st - 1]\<rparr>"
      have "numbered ?st = numbered st" by (simp add: fun_eq_iff numbered_def)
      then have "2 * (n - card {x. numbered ?st x}) + length (walk_stack ?st)
          < 2 * (n - card {x. numbered st x}) + length (walk_stack st)" using st by simp
      from less.hyps [OF this interval_pop [OF inv assms(2) st False]] show ?thesis
        using False st by (subst interval_loop.simps) (simp add: Let_def)
    qed
  qed
qed

theorem preorder_intervals_result:
  assumes s: "setting sc n e po post par" and t: "tree_ok sc n e post par t" and fl: "full sc e t"
  shows "\<exists>pre last. preorder_intervals t e n = Some (pre, last) \<and> length pre = n
    \<and> (\<forall>x < n. pre ! x \<noteq> None \<longleftrightarrow> reach sc e x)
    \<and> (\<forall>a b. reach sc e a \<longrightarrow> reach sc e b \<longrightarrow>
         anc t b a \<longleftrightarrow> the (pre ! a) \<le> the (pre ! b) \<and> the (pre ! b) \<le> last ! a)"
proof -
  let ?ch = "adj_of (tree_children t n)"
  have len: "length t = n" using t by (simp add: tree_ok_def)
  have en: "e < n" using settingD(4) [OF s] .
  have rn: "y < n" if "reach sc e y" for y using settingD(5) [OF s that] .
  have def_reach: "reach sc e x" if "x < n" "t ! x \<noteq> None" for x using t that by (auto simp: tree_ok_def)
  have up: "reach sc e z" if "x < n" "t ! x \<noteq> None" "anc t x z" for x z
    using anc_up [OF s t that(3) def_reach [OF that(1,2)] that(2)] by blast
  have edge: "d < n" if "y < n" "t ! y = Some d" for y d
    using up [of y d] that rn by (auto simp: r_into_rtranclp)
  have ch: "?ch b = filter (\<lambda>c. t ! c = Some b \<and> c \<noteq> b) [0..<n]" if "b < n" for b
    using tree_children_of [OF _ len that] edge len by blast
  have sh: "tree_shape ?ch n t"
    unfolding tree_shape_def
  proof (intro conjI allI impI)
    fix b assume "b < n"
    then show "distinct (?ch b)" by (simp add: ch)
    fix c show "c \<in> set (?ch b) \<longleftrightarrow> c < n \<and> t ! c = Some b \<and> c \<noteq> b" using \<open>b < n\<close> by (auto simp: ch)
  next
    fix x y assume x: "x < n" "t ! x = Some y" "x \<noteq> y"
    then show "y < n" using edge by blast
    have rx: "reach sc e x" using def_reach x by simp
    note st = tree_step [OF s t rx x(2)]
    have "x \<noteq> e" using st x(3) by auto
    then show "\<not> anc t y x" using anc_up [OF s t, of y x] st by auto
  qed
  define st0 where "st0 = \<lparr>next_num = 1, pre_num = (replicate n None)[e := Some 0],
    subtree_last = replicate n 0, walk_stack = [(e, 0)]\<rparr>"
  have num0: "numbered st0 x \<longleftrightarrow> x = e" for x using en by (auto simp: numbered_def st0_def nth_list_update)
  have te: "t ! e = Some e" using t by (simp add: tree_ok_def)
  have child_e: "?ch e ! k \<noteq> e" if "k < length (?ch e)" for k using tree_child [OF sh en that] by simp
  have "interval_inv ?ch n e t st0"
    unfolding interval_inv_def num0 using en te child_e
    by (auto simp: st0_def open_blocks_def pre_of_def)
  moreover have "\<forall>x < n. t ! x \<noteq> None \<longrightarrow> (\<forall>z. anc t x z \<longrightarrow> z < n)" using up rn by blast
  ultimately obtain st where
    st: "interval_loop (tree_children t n) st0 = Some st" "interval_inv ?ch n e t st" "walk_stack st = []"
    using interval_loop_result [OF _ sh] by blast
  note D = interval_invD [OF st(2)]
  have none: "open_blocks st = []" by (simp add: open_blocks_def st(3))
  have numbered_reach: "numbered st x \<longleftrightarrow> reach sc e x" if "x < n" for x
  proof
    assume "reach sc e x"
    then have "t ! x \<noteq> None" using fl by (simp add: full_def)
    then have "anc t x e" using anc_entry [OF s t \<open>reach sc e x\<close>] by blast
    then show "numbered st x" using closed_down [OF st(2) sh _ D(3)] none up rn \<open>t ! x \<noteq> None\<close> that by (metis empty_iff list.set(1))
  next
    assume "numbered st x"
    then show "reach sc e x" using D(14) def_reach that by blast
  qed
  have "preorder_intervals t e n = Some (pre_num st, subtree_last st)"
    using st(1) en by (simp add: preorder_intervals_def Let_def st0_def)
  moreover have "pre_num st ! x \<noteq> None \<longleftrightarrow> reach sc e x" if "x < n" for x
    using numbered_reach [OF that] D(1) that by (simp add: numbered_def)
  moreover have "anc t b a \<longleftrightarrow> the (pre_num st ! a) \<le> the (pre_num st ! b) \<and> the (pre_num st ! b) \<le> subtree_last st ! a"
    if "reach sc e a" "reach sc e b" for a b
    using D(12) [of a b] numbered_reach rn that none by (simp add: pre_of_def)
  ultimately show ?thesis using D(1) by blast
qed

end
