(* ===== verification/Lowering_Order.thy ===== *)
theory Lowering_Order
  imports Dominator_Intervals
begin

text \<open>
  The two results about \<open>rue-cfg/src/dominators.rs\<close>: the tree decides reachability, dominance
  and immediate dominance as paths define them, and the block order for lowering places every
  block after its dominators.
\<close>

section \<open>The tree of a graph\<close>

definition cfg_ok :: "cfg \<Rightarrow> bool" where
  "cfg_ok g \<longleftrightarrow> flow_ok (visit_successors g) (length (blocks g)) (entry g)"

definition cfg_walk :: "cfg \<Rightarrow> nat list \<Rightarrow> bool" where
  "cfg_walk g = walk (visit_successors g) (entry g)"

text \<open>A block is reachable when a path from the entry ends in it, and dominated by the blocks on all of these paths.\<close>

definition reached :: "cfg \<Rightarrow> nat \<Rightarrow> bool" where
  "reached g b \<longleftrightarrow> (\<exists>xs. cfg_walk g xs \<and> last xs = b)"

definition dominated :: "cfg \<Rightarrow> nat \<Rightarrow> nat \<Rightarrow> bool" where
  "dominated g a b \<longleftrightarrow> (\<forall>xs. cfg_walk g xs \<and> last xs = b \<longrightarrow> a \<in> set xs)"

lemma walk_agree:
  assumes "flow_ok sc n e" "\<And>b. b < n \<Longrightarrow> sc' b = sc b"
  shows "walk sc' e xs \<longleftrightarrow> walk sc e xs"
proof (induction xs rule: rev_induct)
  case (snoc b xs)
  have "sc' (last xs) = sc (last xs)" if "walk sc e xs"
    using assms reach_less [OF assms(1)] reach_walk that by blast
  then show ?case using snoc by (auto simp: walk_snoc)
qed (simp add: walk_def)

lemma dom_reach: "reach sc e b \<Longrightarrow> dom_by sc e a b \<Longrightarrow> reach sc e a"
proof -
  assume b: "reach sc e b" and a: "dom_by sc e a b"
  obtain xs where xs: "walk sc e xs" "last xs = b" using b reach_walk by blast
  then obtain us vs where "xs = us @ a # vs" using a by (meson dom_by_def split_list)
  then have "walk sc e (us @ [a])" using xs(1) by (auto simp: walk_def successively_append_iff successively_Cons hd_append)
  then show "reach sc e a" using reach_walk by fastforce
qed

lemma idom_entry:
  "length (tree_idom t) = n \<Longrightarrow> b < n \<Longrightarrow> idom t b = Some d \<longleftrightarrow> tree_idom t ! b = Some d \<and> d \<noteq> b"
  by (auto simp: idom_def get_flat_def split: option.splits)

text \<open>What the construction gives, in the vocabulary of the proofs.\<close>

lemma compute_tree_result:
  assumes "cfg_ok g"
  shows "\<exists>t sc po post par. compute_tree g = Some t \<and> setting sc (length (blocks g)) (entry g) po post par
    \<and> tree_ok sc (length (blocks g)) (entry g) post par (tree_idom t) \<and> full sc (entry g) (tree_idom t)
    \<and> (\<forall>b. is_reachable t b \<longleftrightarrow> reach sc (entry g) b)
    \<and> (\<forall>b. reached g b \<longleftrightarrow> reach sc (entry g) b) \<and> (\<forall>a b. dominated g a b \<longleftrightarrow> dom_by sc (entry g) a b)
    \<and> (\<forall>y x. reach sc (entry g) y \<longrightarrow> anc (tree_idom t) y x \<longleftrightarrow> dom_by sc (entry g) x y)
    \<and> (\<forall>a b. dominates t a b \<longleftrightarrow> (if reach sc (entry g) b then dom_by sc (entry g) a b else a = b))"
proof -
  let ?n = "length (blocks g)" and ?e = "entry g"
  let ?succs = "adj_successors g ?n"
  let ?sc = "adj_of ?succs"
  have vs: "flow_ok (visit_successors g) ?n ?e" using assms by (simp add: cfg_ok_def)
  have agree: "?sc b = visit_successors g b" if "b < ?n" for b using adj_successors_of [OF that] .
  then have ok: "flow_ok ?sc ?n ?e" using vs by (simp add: flow_ok_def)
  have w: "cfg_walk g xs \<longleftrightarrow> walk ?sc ?e xs" for xs
    unfolding cfg_walk_def using walk_agree [OF ok] agree by metis
  obtain st where st: "dfs ?succs ?e ?n = Some st" "numbering ?sc ?n ?e (post_order st) (post_num st)"
    using dfs_numbers [OF ok] by blast
  obtain par where par: "parent_ok ?sc ?e (post_num st) par" using numbering_parent [OF st(2)] by blast
  have s: "setting ?sc ?n ?e (post_order st) (post_num st) par" using ok st(2) par by (simp add: setting_def)
  have "preds_ok ?sc ?n (adj_reversed ?succs ?n)"
    using adj_reversed_of [of ?n g] vs agree by (auto simp: preds_ok_def flow_ok_def)
  from fixpoint_dominators [OF s this] obtain idoms where
    fx: "fixpoint ?e (adj_reversed ?succs ?n) (post_num st) (rev (post_order st)) ((replicate ?n None)[?e := Some ?e]) = Some idoms"
    and tree: "tree_ok ?sc ?n ?e (post_num st) par idoms" "full ?sc ?e idoms"
    and dom: "\<forall>y x. reach ?sc ?e y \<longrightarrow> anc idoms y x \<longleftrightarrow> dom_by ?sc ?e x y"
    by blast
  obtain pre last where iv: "preorder_intervals idoms ?e ?n = Some (pre, last)" "length pre = ?n"
    "\<forall>x < ?n. pre ! x \<noteq> None \<longleftrightarrow> reach ?sc ?e x"
    "\<forall>a b. reach ?sc ?e a \<longrightarrow> reach ?sc ?e b \<longrightarrow>
       anc idoms b a \<longleftrightarrow> the (pre ! a) \<le> the (pre ! b) \<and> the (pre ! b) \<le> last ! a"
    using preorder_intervals_result [OF s tree] by blast
  define t where "t = \<lparr>tree_idom = idoms, tree_post_num = post_num st, tree_pre_num = pre, tree_subtree_last = last\<rparr>"
  have "?e < ?n" using ok by (simp add: flow_ok_def)
  then have "compute_tree g = Some t" using st(1) fx iv(1) by (simp add: compute_tree_def Let_def t_def)
  moreover have "is_reachable t b \<longleftrightarrow> reach ?sc ?e b" for b
    using post_reach(1) [OF s, of b] settingD(5) [OF s, of b] st(2)
    by (auto simp: is_reachable_def get_flat_def t_def numbering_def)
  moreover have "reached g b \<longleftrightarrow> reach ?sc ?e b" for b by (simp add: reached_def w reach_walk)
  moreover have "dominated g a b \<longleftrightarrow> dom_by ?sc ?e a b" for a b by (auto simp: dominated_def dom_by_def w)
  moreover have "dominates t a b \<longleftrightarrow> (if reach ?sc ?e b then dom_by ?sc ?e a b else a = b)" for a b
  proof -
    have flat: "get_flat pre x = (if reach ?sc ?e x then Some (the (pre ! x)) else None)" for x
      using iv(2,3) settingD(5) [OF s, of x] by (auto simp: get_flat_def)
    show ?thesis
    proof (cases "reach ?sc ?e b \<and> reach ?sc ?e a")
      case True
      then show ?thesis using iv(4) dom by (simp add: dominates_def t_def flat)
    next
      case False
      then show ?thesis using dom_reach [of ?sc ?e b a] dom_self [of ?sc ?e b]
        by (auto simp: dominates_def t_def flat split: option.splits)
    qed
  qed
  ultimately show ?thesis using s tree dom by (intro exI [of _ t] exI [of _ ?sc] exI) (auto simp: t_def)
qed

lemma idom_closest:
  assumes s: "setting sc n e po post par" and t: "tree_ok sc n e post par (tree_idom t)" "full sc e (tree_idom t)"
    and dom: "\<forall>y x. reach sc e y \<longrightarrow> anc (tree_idom t) y x \<longleftrightarrow> dom_by sc e x y"
  shows "idom t b = Some d \<longleftrightarrow> reach sc e b \<and> dom_by sc e d b \<and> d \<noteq> b
    \<and> (\<forall>c. dom_by sc e c b \<longrightarrow> c \<noteq> b \<longrightarrow> dom_by sc e c d)"
proof -
  have len: "length (tree_idom t) = n" using t(1) by (simp add: tree_ok_def)
  have closest: "dom_by sc e d b \<and> (\<forall>c. dom_by sc e c b \<longrightarrow> c \<noteq> b \<longrightarrow> dom_by sc e c d)"
    if b: "reach sc e b" and d: "tree_idom t ! b = Some d" for d
  proof -
    have rd: "reach sc e d" using tree_step [OF s t(1) b d] by blast
    have "anc (tree_idom t) b d" using d by (simp add: r_into_rtranclp)
    moreover have "anc (tree_idom t) d c" if "anc (tree_idom t) b c" "c \<noteq> b" for c
      using that d by (subst (asm) anc_first) auto
    ultimately show ?thesis using dom b rd by blast
  qed
  show ?thesis
  proof
    assume i: "idom t b = Some d"
    then have "b < n" by (auto simp: idom_def get_flat_def len split: option.splits if_splits)
    then have b: "tree_idom t ! b = Some d" "d \<noteq> b" using i idom_entry [OF len] by blast+
    moreover have "reach sc e b" using t(1) b \<open>b < n\<close> by (auto simp: tree_ok_def)
    ultimately show "reach sc e b \<and> dom_by sc e d b \<and> d \<noteq> b
        \<and> (\<forall>c. dom_by sc e c b \<longrightarrow> c \<noteq> b \<longrightarrow> dom_by sc e c d)" using closest by blast
  next
    assume r: "reach sc e b \<and> dom_by sc e d b \<and> d \<noteq> b
      \<and> (\<forall>c. dom_by sc e c b \<longrightarrow> c \<noteq> b \<longrightarrow> dom_by sc e c d)"
    have "b < n" using settingD(5) [OF s] r by blast
    obtain d' where d': "tree_idom t ! b = Some d'" using t(2) r by (auto simp: full_def)
    have "b \<noteq> e" using r dom_entry by metis
    then have "d' \<noteq> b" using tree_step [OF s t(1) _ d'] r by auto
    then have eq: "dom_by sc e d d'" "dom_by sc e d' d" using closest [OF _ d'] r by blast+
    have rd: "reach sc e d" "reach sc e d'" using dom_reach r closest [OF _ d'] by blast+
    then have "anc (tree_idom t) d' d" "anc (tree_idom t) d d'" using eq dom by blast+
    then have "d = d'" using anc_up [OF s t(1)] anc_same [OF s t(1)] rd t(2) by (metis full_def)
    then show "idom t b = Some d" using d' r idom_entry [OF len \<open>b < n\<close>] by blast
  qed
qed

text \<open>
  C2. The construction returns a tree for every graph whose edges stay inside it, and the
  tree answers exactly by paths: a block is reachable when a path from the entry ends in it; a
  block dominates a reachable one when it is on every such path, and an unreachable one only
  when it is that block; the immediate dominator of a block is the strict dominator of it that
  all its strict dominators dominate.
\<close>

theorem dominator_tree_correct:
  assumes "cfg_ok g"
  shows "\<exists>t. compute_tree g = Some t
    \<and> (\<forall>b. is_reachable t b \<longleftrightarrow> reached g b)
    \<and> (\<forall>a b. dominates t a b \<longleftrightarrow> (if reached g b then dominated g a b else a = b))
    \<and> (\<forall>b d. idom t b = Some d \<longleftrightarrow> reached g b \<and> dominated g d b \<and> d \<noteq> b
         \<and> (\<forall>c. dominated g c b \<longrightarrow> c \<noteq> b \<longrightarrow> dominated g c d))"
proof -
  obtain t sc po post par where t: "compute_tree g = Some t" "setting sc (length (blocks g)) (entry g) po post par"
    "tree_ok sc (length (blocks g)) (entry g) post par (tree_idom t)" "full sc (entry g) (tree_idom t)"
    "\<forall>b. is_reachable t b \<longleftrightarrow> reach sc (entry g) b" "\<forall>b. reached g b \<longleftrightarrow> reach sc (entry g) b"
    "\<forall>a b. dominated g a b \<longleftrightarrow> dom_by sc (entry g) a b"
    "\<forall>y x. reach sc (entry g) y \<longrightarrow> anc (tree_idom t) y x \<longleftrightarrow> dom_by sc (entry g) x y"
    "\<forall>a b. dominates t a b \<longleftrightarrow> (if reach sc (entry g) b then dom_by sc (entry g) a b else a = b)"
    using compute_tree_result [OF assms] by (elim exE conjE) (rule that)
  show ?thesis
    using t(1,5,6,7,9) idom_closest [OF t(2,3,4,8)] by (intro exI [of _ t]) simp
qed

text \<open>A diamond with a loop back to its join and an unreachable block.\<close>

definition plain_block :: "nat list \<Rightarrow> basic_block" where
  "plain_block ts = \<lparr>block_params = [], block_insts = [],
     terminator = (case ts of [] \<Rightarrow> Unreachable | [t] \<Rightarrow> Goto t [] | t # u # _ \<Rightarrow> Branch 0 t [] u [])\<rparr>"

definition diamond :: cfg where
  "diamond = \<lparr>blocks = map plain_block [[2, 1], [3], [3, 1], [4, 3], [], [4]], entry = 0, cfg_values = [],
     ownership_boundary_values = {}, capacity_exceeded = None\<rparr>"

lemma dominator_tree_correct_witness:
  "\<exists>t. compute_tree diamond = Some t \<and> (\<forall>b. is_reachable t b \<longleftrightarrow> reached diamond b)"
proof -
  have "cfg_ok diamond" by code_simp
  from dominator_tree_correct [OF this] show ?thesis by blast
qed

section \<open>The block order\<close>

lemma foldl_min_least: "foldl min x xs \<in> set (x # xs) \<and> (\<forall>y \<in> set (x # xs). foldl min x xs \<le> (y :: nat))"
proof (induction xs arbitrary: x)
  case (Cons a xs)
  from Cons [of "min x a"] show ?case by (auto simp: min_def split: if_splits)
qed simp

lemma heap_pop_result:
  assumes "ready \<noteq> []"
  shows "\<exists>m. heap_pop ready = Some (m, remove1 m ready) \<and> m \<in> set ready \<and> (\<forall>x \<in> set ready. m \<le> x)"
proof -
  obtain x xs where r: "ready = x # xs" using assms by (cases ready) auto
  show ?thesis using foldl_min_least [of x xs] unfolding r by (auto simp: Let_def)
qed

definition child_lists :: "dominator_tree \<Rightarrow> nat \<Rightarrow> nat list list" where
  "child_lists t n = foldl (add_child t) (replicate n []) [0..<n]"

lemma child_lists_nth:
  assumes "\<And>i p. i < n \<Longrightarrow> idom t i = Some p \<Longrightarrow> p < n" "p < n"
  shows "child_lists t n ! p = filter (\<lambda>i. idom t i = Some p) [0..<n]"
proof -
  have "m \<le> n \<Longrightarrow> length (foldl (add_child t) (replicate n []) [0..<m]) = n
      \<and> (\<forall>p < n. foldl (add_child t) (replicate n []) [0..<m] ! p = filter (\<lambda>i. idom t i = Some p) [0..<m])" for m
  proof (induction m)
    case (Suc m)
    then show ?case using assms(1) [of m]
      by (auto simp: add_child_def nth_list_update split: option.splits)
  qed simp
  from this [of n] show ?thesis using assms(2) by (simp add: child_lists_def)
qed

text \<open>
  The state of the loop: the blocks that are ready and those that are placed.  \<open>up\<close> is the
  immediate dominator, \<open>R\<close> the reachable blocks.
\<close>

definition lower_inv ::
  "(nat \<Rightarrow> nat option) \<Rightarrow> (nat \<Rightarrow> nat list) \<Rightarrow> nat set \<Rightarrow> nat \<Rightarrow> nat list \<Rightarrow> nat list \<Rightarrow> bool" where
  "lower_inv up ch R e ready order \<longleftrightarrow>
     distinct (ready @ order) \<and> set (ready @ order) \<subseteq> R \<and> e \<in> set (ready @ order)
     \<and> (\<forall>x \<in> set (ready @ order). x \<noteq> e \<longrightarrow> (\<exists>p \<in> set order. up x = Some p))
     \<and> (\<forall>x \<in> set order. set (ch x) \<subseteq> set (ready @ order))
     \<and> (\<forall>xs x ys. order = xs @ x # ys \<longrightarrow> x \<noteq> e \<longrightarrow> (\<exists>p \<in> set xs. up x = Some p))"

definition children_ok :: "(nat \<Rightarrow> nat option) \<Rightarrow> (nat \<Rightarrow> nat list) \<Rightarrow> nat set \<Rightarrow> nat \<Rightarrow> bool" where
  "children_ok up ch R e \<longleftrightarrow>
     finite R \<and> up e = None
     \<and> (\<forall>p \<in> R. distinct (ch p) \<and> (\<forall>c. c \<in> set (ch p) \<longleftrightarrow> c \<in> R \<and> up c = Some p))"

lemma lower_step:
  assumes ch: "children_ok up ch R e" and inv: "lower_inv up ch R e ready order" and m: "m \<in> set ready"
  shows "lower_inv up ch R e (remove1 m ready @ ch m) (order @ [m])"
proof -
  have d: "distinct ready" "distinct order" "set ready \<inter> set order = {}" using inv by (auto simp: lower_inv_def)
  have rm: "set (remove1 m ready) = set ready - {m}" using d(1) by simp
  have mR: "m \<in> R" using inv m by (auto simp: lower_inv_def)
  then have cm: "distinct (ch m)" "\<And>c. c \<in> set (ch m) \<longleftrightarrow> c \<in> R \<and> up c = Some m"
    using ch by (auto simp: children_ok_def)
  have new: "c \<notin> set (ready @ order)" if c: "c \<in> set (ch m)" for c
  proof
    assume r: "c \<in> set (ready @ order)"
    have "up c = Some m" using cm(2) c by blast
    moreover have "c \<noteq> e" using calculation ch by (auto simp: children_ok_def)
    ultimately have "m \<in> set order" using inv r by (auto simp: lower_inv_def)
    then show False using m d(3) by blast
  qed
  have parent: "\<exists>p \<in> set order. up m = Some p" if "m \<noteq> e" using inv m that by (simp add: lower_inv_def)
  show ?thesis
    unfolding lower_inv_def
  proof (intro conjI)
    show "distinct ((remove1 m ready @ ch m) @ order @ [m])"
      using d rm cm(1) new m by (auto simp: distinct_remove1)
    show "set ((remove1 m ready @ ch m) @ order @ [m]) \<subseteq> R" using inv rm cm(2) mR by (auto simp: lower_inv_def)
    show "e \<in> set ((remove1 m ready @ ch m) @ order @ [m])" using inv rm by (auto simp: lower_inv_def)
    show "\<forall>x \<in> set ((remove1 m ready @ ch m) @ order @ [m]). x \<noteq> e \<longrightarrow> (\<exists>p \<in> set (order @ [m]). up x = Some p)"
      using inv rm cm(2) m by (auto simp: lower_inv_def)
    show "\<forall>x \<in> set (order @ [m]). set (ch x) \<subseteq> set ((remove1 m ready @ ch m) @ order @ [m])"
      using inv rm by (fastforce simp: lower_inv_def)
    show "\<forall>xs x ys. order @ [m] = xs @ x # ys \<longrightarrow> x \<noteq> e \<longrightarrow> (\<exists>p \<in> set xs. up x = Some p)"
    proof (intro allI impI)
      fix xs x ys assume o: "order @ [m] = xs @ x # ys" "x \<noteq> e"
      show "\<exists>p \<in> set xs. up x = Some p"
      proof (cases ys rule: rev_cases)
        case Nil
        then show ?thesis using o parent by auto
      next
        case (snoc zs z)
        then have "order = xs @ x # zs" using o(1) by simp
        then show ?thesis using inv o(2) by (auto simp: lower_inv_def)
      qed
    qed
  qed
qed

text \<open>
  The loop, with a further property \<open>P\<close> of its state that every step keeps.
\<close>

lemma lower_loop_result:
  assumes ch: "children_ok up (\<lambda>p. children ! p) R e" and "lower_inv up (\<lambda>p. children ! p) R e ready order"
    and "P order" and step: "\<And>ready order m. lower_inv up (\<lambda>p. children ! p) R e ready order \<Longrightarrow> P order
      \<Longrightarrow> m \<in> set ready \<Longrightarrow> \<forall>x \<in> set ready. m \<le> x \<Longrightarrow> P (order @ [m])"
  shows "\<exists>order'. lower_loop children ready order = Some order'
    \<and> lower_inv up (\<lambda>p. children ! p) R e [] order' \<and> P order'"
  using assms(2,3)
proof (induction "card R - length order" arbitrary: ready order rule: less_induct)
  case less
  show ?case
  proof (cases "ready = []")
    case True
    then show ?thesis using less.prems by (subst lower_loop.simps) simp
  next
    case False
    obtain m where m: "heap_pop ready = Some (m, remove1 m ready)" "m \<in> set ready" "\<forall>x \<in> set ready. m \<le> x"
      using heap_pop_result [OF False] by blast
    note inv = lower_step [OF ch less.prems(1) m(2)]
    have "distinct (order @ [m])" "set (order @ [m]) \<subseteq> R" using inv by (auto simp: lower_inv_def)
    then have "length (order @ [m]) \<le> card R"
      using ch card_mono [of R "set (order @ [m])"] distinct_card [of "order @ [m]"] by (simp add: children_ok_def)
    then have "card R - length (order @ [m]) < card R - length order" by simp
    from less.hyps [OF this inv step [OF less.prems m(2,3)]] m(1) show ?thesis
      by (subst lower_loop.simps) simp
  qed
qed

lemma lower_complete:
  assumes "children_ok up ch R e" "lower_inv up ch R e [] order" "\<And>x. x \<in> R \<Longrightarrow> (\<lambda>y d. up y = Some d)\<^sup>*\<^sup>* x e"
    and "\<And>y d. y \<in> R \<Longrightarrow> up y = Some d \<Longrightarrow> d \<in> R"
  shows "set order = R"
proof
  show "set order \<subseteq> R" using assms(2) by (simp add: lower_inv_def)
  have "(\<lambda>y d. up y = Some d)\<^sup>*\<^sup>* x e \<Longrightarrow> x \<in> R \<Longrightarrow> x \<in> set order" for x
  proof (induction rule: converse_rtranclp_induct)
    case base
    then show ?case using assms(2) by (simp add: lower_inv_def)
  next
    case (step y z)
    have "z \<in> R" using assms(4) step by blast
    then have "z \<in> set order" "y \<in> set (ch z)" using step assms(1) by (auto simp: children_ok_def)
    then show ?case using assms(2) by (auto simp: lower_inv_def)
  qed
  then show "R \<subseteq> set order" using assms(3) by blast
qed

definition placed_before :: "nat list \<Rightarrow> nat \<Rightarrow> nat \<Rightarrow> bool" where
  "placed_before order a b \<longleftrightarrow> (\<exists>xs ys zs. order = xs @ a # ys @ b # zs)"

lemma lower_sorted:
  assumes inv: "lower_inv up ch R e [] order" and e: "up e = None"
    and "(\<lambda>y d. up y = Some d)\<^sup>*\<^sup>* b a" "order = xs @ b # ys"
  shows "a \<in> set (xs @ [b])"
  using assms(3,4)
proof (induction arbitrary: xs ys rule: converse_rtranclp_induct)
  case (step y z)
  then have "y \<noteq> e" using e by auto
  then have "z \<in> set xs" using inv step.prems step.hyps(1) by (fastforce simp: lower_inv_def)
  then obtain us vs where "xs = us @ z # vs" by (meson split_list)
  then show ?case using step.IH [of us "vs @ y # ys"] step.prems by auto
qed simp

text \<open>Arena order is valid when the reachable blocks come first, each after its dominators.\<close>

definition arena_valid :: "cfg \<Rightarrow> bool" where
  "arena_valid g \<longleftrightarrow>
     (\<forall>b < length (blocks g). reached g b \<longrightarrow>
        (\<forall>a. dominated g a b \<longrightarrow> a \<le> b) \<and> (\<forall>c < length (blocks g). \<not> reached g c \<longrightarrow> b < c))"

lemma arena_step:
  assumes inv: "lower_inv up ch R e ready order" and ch: "children_ok up ch R e"
    and down: "\<And>x y. x \<in> R \<Longrightarrow> y \<le> x \<Longrightarrow> y \<in> R" and up: "\<And>x p. x \<in> R \<Longrightarrow> up x = Some p \<Longrightarrow> p < x \<and> p \<in> R"
    and some: "\<And>x. x \<in> R \<Longrightarrow> x \<noteq> e \<Longrightarrow> up x \<noteq> None"
    and order: "order = [0..<length order]" and m: "m \<in> set ready" "\<forall>x \<in> set ready. m \<le> x"
  shows "order @ [m] = [0..<length (order @ [m])]"
proof -
  let ?k = "length order"
  have mo: "m \<notin> set order" "m \<in> R" using inv m(1) by (auto simp: lower_inv_def)
  have set: "set order = {..<?k}" by (subst order) auto
  then have "?k \<le> m" using mo by auto
  then have k: "?k \<in> R" using down mo(2) by blast
  have ko: "?k \<notin> set order" using set by simp
  have "?k \<in> set (ready @ order)"
  proof (cases "?k = e")
    case True
    then show ?thesis using inv by (simp add: lower_inv_def)
  next
    case False
    obtain p where p: "up ?k = Some p" using some [OF k False] by blast
    then have "p \<in> set order" "?k \<in> set (ch p)" using up [OF k p] set ch k by (auto simp: children_ok_def)
    then show ?thesis using inv by (auto simp: lower_inv_def)
  qed
  then have "m \<le> ?k" using ko m(2) by simp
  then have "m = ?k" using \<open>?k \<le> m\<close> by simp
  then show ?thesis using order by simp
qed

text \<open>
  C13. The lowering order is a permutation of the blocks in which every reachable block comes
  after all its strict dominators and every unreachable block after every reachable one, and it
  is arena order whenever arena order is already such an order.
\<close>

theorem block_lowering_order_correct:
  assumes "cfg_ok g"
  shows "\<exists>order. block_lowering_order g = Some order
    \<and> distinct order \<and> set order = {..<length (blocks g)}
    \<and> (\<forall>a b. reached g b \<longrightarrow> dominated g a b \<longrightarrow> a \<noteq> b \<longrightarrow> placed_before order a b)
    \<and> (\<forall>b c. reached g b \<longrightarrow> c < length (blocks g) \<longrightarrow> \<not> reached g c \<longrightarrow> placed_before order b c)
    \<and> (arena_valid g \<longrightarrow> order = [0..<length (blocks g)])"
proof -
  let ?n = "length (blocks g)" and ?e = "entry g"
  obtain t sc po post par where ct: "compute_tree g = Some t" and s: "setting sc ?n ?e po post par"
    and tr: "tree_ok sc ?n ?e post par (tree_idom t)" "full sc ?e (tree_idom t)"
    and ir: "\<forall>b. is_reachable t b \<longleftrightarrow> reach sc ?e b" and rr: "\<forall>b. reached g b \<longleftrightarrow> reach sc ?e b"
    and dd: "\<forall>a b. dominated g a b \<longleftrightarrow> dom_by sc ?e a b"
    and ad: "\<forall>y x. reach sc ?e y \<longrightarrow> anc (tree_idom t) y x \<longleftrightarrow> dom_by sc ?e x y"
    using compute_tree_result [OF assms] by (elim exE conjE) (rule that)
  let ?up = "idom t" and ?R = "{b. reach sc ?e b}"
  have len: "length (tree_idom t) = ?n" using tr(1) by (simp add: tree_ok_def)
  have rn: "b < ?n" if "reach sc ?e b" for b using settingD(5) [OF s that] .
  note id = idom_closest [OF s tr ad]
  have up_e: "?up ?e = None" using id [of ?e] dom_entry [of sc ?e] by (cases "?up ?e") auto
  have up_R: "reach sc ?e p \<and> reach sc ?e x" if "?up x = Some p" for x p
  proof -
    have "reach sc ?e x" "dom_by sc ?e p x" using id [of x p] that by simp_all
    then show ?thesis using dom_reach by metis
  qed
  have some: "?up x \<noteq> None" if "x \<in> ?R" "x \<noteq> ?e" for x
  proof -
    obtain d where d: "tree_idom t ! x = Some d" using tr(2) \<open>x \<in> ?R\<close> by (auto simp: full_def)
    then have "d \<noteq> x" using tree_step [OF s tr(1) _ d] that by auto
    then show ?thesis using d idom_entry [OF len rn] that by auto
  qed
  have chain: "(\<lambda>y d. ?up y = Some d)\<^sup>*\<^sup>* x a" if "reach sc ?e x" "anc (tree_idom t) x a" for x a
    using that(2,1)
  proof (induction rule: converse_rtranclp_induct)
    case (step y z)
    have z: "reach sc ?e z" using tree_step [OF s tr(1) step.prems step.hyps(1)] by blast
    show ?case
    proof (cases "y = z")
      case False
      then have "?up y = Some z" using idom_entry [OF len rn [OF step.prems]] step.hyps(1) by simp
      then show ?thesis using step.IH [OF z] by (rule converse_rtranclp_into_rtranclp)
    qed (use step.IH [OF z] in simp)
  qed simp
  have nth: "child_lists t ?n ! p = filter (\<lambda>i. ?up i = Some p) [0..<?n]" if "p \<in> ?R" for p
    using child_lists_nth [of ?n t p] up_R rn that by blast
  have ch: "children_ok ?up (\<lambda>p. child_lists t ?n ! p) ?R ?e"
    unfolding children_ok_def using finite_reach [OF s] up_e nth up_R rn by auto
  have e0: "reach sc ?e ?e" by (rule reach_entry)
  have init: "lower_inv ?up (\<lambda>p. child_lists t ?n ! p) ?R ?e [?e] []" using e0 by (simp add: lower_inv_def)
  have down: "y \<in> ?R" if "arena_valid g" "x \<in> ?R" "y \<le> x" for x y
  proof (rule ccontr)
    assume y: "y \<notin> ?R"
    have x: "x < ?n" "reached g x" using that(2) rr rn by auto
    then have "y < ?n" "\<not> reached g y" using that(3) y rr by auto
    then have "x < y" using that(1) x by (simp add: arena_valid_def)
    then show False using that(3) by simp
  qed
  have before: "p < x \<and> p \<in> ?R" if "arena_valid g" "x \<in> ?R" "?up x = Some p" for x p
  proof -
    have p: "dom_by sc ?e p x" "p \<noteq> x" using id [of x p] that(3) by simp_all
    then have "p \<le> x" using that(1,2) rr dd rn [of x] by (auto simp: arena_valid_def)
    then show ?thesis using p(2) up_R [OF that(3)] by simp
  qed
  define P where "P order \<longleftrightarrow> (arena_valid g \<longrightarrow> order = [0..<length order])" for order
  have step: "P (order @ [m])" if "lower_inv ?up (\<lambda>p. child_lists t ?n ! p) ?R ?e ready order" "P order"
    "m \<in> set ready" "\<forall>x \<in> set ready. m \<le> x" for ready order m
    unfolding P_def
  proof
    assume av: "arena_valid g"
    show "order @ [m] = [0..<length (order @ [m])]"
    proof (rule arena_step [OF that(1) ch])
      show "order = [0..<length order]" using that(2) av by (simp add: P_def)
    qed (use down [OF av] before [OF av] some that(3,4) in blast)+
  qed
  have "P []" by (simp add: P_def)
  have "\<exists>order. lower_loop (child_lists t ?n) [?e] [] = Some order
      \<and> lower_inv ?up (\<lambda>p. child_lists t ?n ! p) ?R ?e [] order \<and> P order"
    by (rule lower_loop_result [where P = P, OF ch init \<open>P []\<close>]) (rule step)
  then obtain order where order: "lower_loop (child_lists t ?n) [?e] [] = Some order"
    "lower_inv ?up (\<lambda>p. child_lists t ?n ! p) ?R ?e [] order" "P order"
    by blast
  have all: "set order = ?R"
    by (rule lower_complete [OF ch order(2)]) (use chain anc_entry [OF s tr(1)] tr(2) up_R in \<open>auto simp: full_def\<close>)
  define dead where "dead = filter (\<lambda>i. \<not> is_reachable t i) [0..<?n]"
  have res: "block_lowering_order g = Some (order @ dead)"
    using ct order(1) ir e0 by (simp add: block_lowering_order_def Let_def child_lists_def dead_def)
  have dist: "distinct order" using order(2) by (simp add: lower_inv_def)
  have dead: "set dead = {b. b < ?n \<and> \<not> reach sc ?e b}" "distinct dead" using ir by (auto simp: dead_def)
  show ?thesis
  proof (intro exI [of _ "order @ dead"] conjI allI impI)
    show "block_lowering_order g = Some (order @ dead)" by (rule res)
    show "distinct (order @ dead)" using dist dead all by auto
    show "set (order @ dead) = {..<?n}" using all dead rn by auto
  next
    fix a b assume ab: "reached g b" "dominated g a b" "a \<noteq> b"
    then have b: "reach sc ?e b" "dom_by sc ?e a b" using rr dd by blast+
    then obtain xs ys where o: "order = xs @ b # ys" using all by (metis mem_Collect_eq split_list)
    have "(\<lambda>y d. ?up y = Some d)\<^sup>*\<^sup>* b a" using chain b ad by blast
    then have "a \<in> set xs" using lower_sorted [OF order(2) up_e _ o] ab(3) by auto
    then obtain us vs where "xs = us @ a # vs" by (meson split_list)
    then show "placed_before (order @ dead) a b" using o unfolding placed_before_def
      by (intro exI [of _ us] exI [of _ vs] exI [of _ "ys @ dead"]) simp
  next
    fix b c assume bc: "reached g b" "c < ?n" "\<not> reached g c"
    then obtain xs ys where o: "order = xs @ b # ys" using all rr by (metis mem_Collect_eq split_list)
    obtain us vs where d: "dead = us @ c # vs" using bc dead(1) rr by (metis (mono_tags, lifting) mem_Collect_eq split_list)
    show "placed_before (order @ dead) b c" unfolding placed_before_def
      by (intro exI [of _ xs] exI [of _ "ys @ us"] exI [of _ vs]) (simp add: o d)
  next
    assume av: "arena_valid g"
    then have o: "order = [0..<length order]" using order(3) by (simp add: P_def)
    have "i < length order \<longleftrightarrow> reach sc ?e i" for i using all arg_cong [OF o, of set] by auto
    then have "dead = filter (\<lambda>i. \<not> i < length order) [0..<?n]" using ir by (simp add: dead_def)
    moreover have "length order \<le> ?n" using dist all rn card_mono [of "{..<?n}" ?R] distinct_card [OF dist] by auto
    then have "[0..<?n] = [0..<length order] @ [length order..<?n]" using upt_add_eq_append [of 0 "length order" "?n - length order"] by simp
    ultimately have "dead = [length order..<?n]" by simp
    then show "order @ dead = [0..<?n]" using \<open>[0..<?n] = _\<close> o by metis
  qed
qed

lemma block_lowering_order_correct_witness:
  "\<exists>order. block_lowering_order diamond = Some order \<and> distinct order \<and> set order = {..<length (blocks diamond)}"
proof -
  have "cfg_ok diamond" by code_simp
  from block_lowering_order_correct [OF this] show ?thesis by blast
qed

end
