(* ===== verification/Memory.thy ===== *)
theory Memory
  imports Rue_Prelude
begin

text \<open>
  The memory of a running program as bytes at addresses, with the words that the runtime reads
  and writes in it.  Both targets are little-endian.
\<close>

type_synonym memory = "nat \<Rightarrow> u8"

abbreviation usize_bound :: nat where "usize_bound \<equiv> 2 ^ 64"

fun read_bytes :: "memory \<Rightarrow> nat \<Rightarrow> nat \<Rightarrow> nat" where
  "read_bytes m p 0 = 0"
| "read_bytes m p (Suc n) = unat (m p) + 256 * read_bytes m (Suc p) n"

fun write_bytes :: "memory \<Rightarrow> nat \<Rightarrow> nat \<Rightarrow> nat \<Rightarrow> memory" where
  "write_bytes m p 0 w = m"
| "write_bytes m p (Suc n) w = (write_bytes m (Suc p) n (w div 256))(p := of_nat (w mod 256))"

definition read_word :: "memory \<Rightarrow> nat \<Rightarrow> nat" where
  "read_word m p = read_bytes m p 8"

definition write_word :: "memory \<Rightarrow> nat \<Rightarrow> nat \<Rightarrow> memory" where
  "write_word m p w = write_bytes m p 8 w"

text \<open>What a copy and a fill are meant to do.\<close>

definition moved :: "memory \<Rightarrow> nat \<Rightarrow> nat \<Rightarrow> nat \<Rightarrow> memory" where
  "moved m dst src n = (\<lambda>a. if dst \<le> a \<and> a < dst + n then m (src + (a - dst)) else m a)"

definition filled :: "memory \<Rightarrow> nat \<Rightarrow> u8 \<Rightarrow> nat \<Rightarrow> memory" where
  "filled m dst v n = (\<lambda>a. if dst \<le> a \<and> a < dst + n then v else m a)"

section \<open>Words in memory\<close>

lemma write_bytes_other: "a < p \<or> p + n \<le> a \<Longrightarrow> write_bytes m p n w a = m a"
  by (induction m p n w rule: write_bytes.induct) auto

lemma read_bytes_cong: "(\<And>a. p \<le> a \<Longrightarrow> a < p + n \<Longrightarrow> m a = m' a) \<Longrightarrow> read_bytes m p n = read_bytes m' p n"
  by (induction m p n rule: read_bytes.induct) auto

lemma read_write_bytes: "read_bytes (write_bytes m p n w) p n = w mod 256 ^ n"
proof (induction m p n w rule: write_bytes.induct)
  case (2 m p n w)
  let ?m = "(write_bytes m (Suc p) n (w div 256))(p := of_nat (w mod 256))"
  have "read_bytes ?m (Suc p) n = read_bytes (write_bytes m (Suc p) n (w div 256)) (Suc p) n"
    by (rule read_bytes_cong) simp
  with 2 have "read_bytes ?m (Suc p) n = w div 256 mod 256 ^ n" by simp
  moreover have "unat (?m p) = w mod 256" by (simp add: unat_of_nat take_bit_eq_mod)
  ultimately show ?case by (simp add: mod_mult2_eq del: fun_upd_apply)
qed simp

lemma write_word_other: "a < p \<or> p + 8 \<le> a \<Longrightarrow> write_word m p w a = m a"
  by (simp add: write_word_def write_bytes_other)

lemma read_word_cong: "(\<And>a. p \<le> a \<Longrightarrow> a < p + 8 \<Longrightarrow> m a = m' a) \<Longrightarrow> read_word m p = read_word m' p"
  unfolding read_word_def by (rule read_bytes_cong)

lemma read_write_word: "w < usize_bound \<Longrightarrow> read_word (write_word m p w) p = w"
  by (simp add: read_word_def write_word_def read_write_bytes del: write_bytes.simps read_bytes.simps)

lemma read_write_word_other: "q + 8 \<le> p \<or> p + 8 \<le> q \<Longrightarrow> read_word (write_word m p w) q = read_word m q"
  by (rule read_word_cong) (auto simp: write_word_other)

lemma read_bytes_bound: "read_bytes m p n < 256 ^ n"
proof (induction m p n rule: read_bytes.induct)
  case (2 m p n)
  have "unat (m p) < 256" using unsigned_less[of "m p"] by simp
  with 2 show ?case by simp
qed simp

lemma read_word_bound: "read_word m p < usize_bound"
  using read_bytes_bound[of m p 8] by (simp add: read_word_def)

lemma moved_zero [simp]: "moved m dst src 0 = m"
  by (intro ext) (auto simp: moved_def)

lemma filled_zero [simp]: "filled m dst v 0 = m"
  by (intro ext) (auto simp: filled_def)

text \<open>All bytes of a word are read before any is written.\<close>

lemma unat_byte_bound: "unat (b :: u8) < 256"
  using unsigned_less[of b] by simp

lemma write_read_bytes:
  "write_bytes m dst n (read_bytes m' src n)
     = (\<lambda>a. if dst \<le> a \<and> a < dst + n then m' (src + (a - dst)) else m a)"
proof (induction n arbitrary: dst src)
  case (Suc n)
  have "of_nat (read_bytes m' src (Suc n) mod 256) = m' src"
    using unat_byte_bound[of "m' src"] by simp
  moreover have "read_bytes m' src (Suc n) div 256 = read_bytes m' (Suc src) n"
    using unat_byte_bound[of "m' src"] by simp
  ultimately show ?case using Suc[of "Suc dst" "Suc src"] 
    by (intro ext) (auto simp: le_less_Suc_eq Suc_le_eq intro!: arg_cong[where f = m'])
qed (auto simp: fun_eq_iff)

lemma write_read_word: "write_word m dst (read_word m src) = moved m dst src 8"
  by (simp only: write_word_def read_word_def write_read_bytes moved_def)

lemma write_constant_word: "write_word m dst (read_word (\<lambda>_. v) 0) = filled m dst v 8"
  by (simp only: write_word_def read_word_def write_read_bytes filled_def)

lemma read_bytes_eq: "read_bytes m a n = read_bytes m b n \<longleftrightarrow> (\<forall>i < n. m (a + i) = m (b + i))"
proof (induction n arbitrary: a b)
  case (Suc n)
  have "unat (m a) + 256 * x = unat (m b) + 256 * y \<longleftrightarrow> m a = m b \<and> x = y" for x y
  proof
    assume e: "unat (m a) + 256 * x = unat (m b) + 256 * y"
    then have "(unat (m a) + 256 * x) mod 256 = (unat (m b) + 256 * y) mod 256" by simp
    then have "unat (m a) = unat (m b)"
      using unat_byte_bound[of "m a"] unat_byte_bound[of "m b"] by simp
    with e show "m a = m b \<and> x = y" by (simp add: word_unat_eq_iff)
  qed simp
  then show ?case using Suc[of "Suc a" "Suc b"] by (auto simp: All_less_Suc2)
qed simp

lemma read_word_eq: "read_word m a = read_word m b \<longleftrightarrow> (\<forall>i < 8. m (a + i) = m (b + i))"
  unfolding read_word_def by (rule read_bytes_eq)

end
