(* ===== verification/Memory_Intrinsics.thy ===== *)
theory Memory_Intrinsics
  imports Memory
begin

text \<open>
  The memory intrinsics of the runtime (\<open>rue-runtime/src/memory.rs\<close>): copies, fills and
  comparisons that work in chunks of a word and finish with an unrolled tail.  \<open>None\<close> is a tail
  longer than its table, which the source declares unreachable, without a check.

  The pointers are valid for the lengths given, so no address wraps around.
\<close>

section \<open>Tails\<close>

text \<open>The offsets of the unrolled cases, in the order of the forward case.\<close>

definition tail_offsets :: "nat \<Rightarrow> nat list option" where
  "tail_offsets n = (if n \<le> 7 then Some (take n [0, 1, 2, 3, 4, 5, 6]) else None)"

definition copy_byte :: "nat \<Rightarrow> nat \<Rightarrow> nat \<Rightarrow> memory \<Rightarrow> memory" where
  "copy_byte dst src i m = m(dst + i := m (src + i))"

definition copy_forward_tail :: "memory \<Rightarrow> nat \<Rightarrow> nat \<Rightarrow> nat \<Rightarrow> memory option" where
  "copy_forward_tail m dst src n = map_option (\<lambda>is. fold (copy_byte dst src) is m) (tail_offsets n)"

definition copy_backward_tail :: "memory \<Rightarrow> nat \<Rightarrow> nat \<Rightarrow> nat \<Rightarrow> memory option" where
  "copy_backward_tail m dst src n = map_option (\<lambda>is. fold (copy_byte dst src) (rev is) m) (tail_offsets n)"

definition set_tail :: "memory \<Rightarrow> nat \<Rightarrow> u8 \<Rightarrow> nat \<Rightarrow> memory option" where
  "set_tail m dst v n = map_option (\<lambda>is. fold (\<lambda>i m. m(dst + i := v)) is m) (tail_offsets n)"

text \<open>The comparison has a case more, for a whole chunk.\<close>

fun compare_bytes :: "memory \<Rightarrow> nat \<Rightarrow> nat \<Rightarrow> nat list \<Rightarrow> int" where
  "compare_bytes m a b [] = 0"
| "compare_bytes m a b (i # is) =
     (if m (a + i) \<noteq> m (b + i) then uint (m (a + i)) - uint (m (b + i)) else compare_bytes m a b is)"

definition compare_bounded :: "memory \<Rightarrow> nat \<Rightarrow> nat \<Rightarrow> nat \<Rightarrow> int option" where
  "compare_bounded m a b n =
     (if n \<le> 8 then Some (compare_bytes m a b (take n [0, 1, 2, 3, 4, 5, 6, 7])) else None)"

section \<open>The loops\<close>

abbreviation chunk_size :: nat where "chunk_size \<equiv> 8"

function copy_forward :: "memory \<Rightarrow> nat \<Rightarrow> nat \<Rightarrow> nat \<Rightarrow> memory option" where
  "copy_forward m dst src remaining =
     (if remaining \<ge> chunk_size then
        copy_forward (write_word m dst (read_word m src)) (dst + chunk_size) (src + chunk_size) (remaining - chunk_size)
      else if remaining \<noteq> 0 then copy_forward_tail m dst src remaining
      else Some m)"
  by pat_completeness auto
termination by (relation "measure (\<lambda>(m, dst, src, remaining). remaining)") auto

function copy_backward :: "memory \<Rightarrow> nat \<Rightarrow> nat \<Rightarrow> nat \<Rightarrow> memory option" where
  "copy_backward m dst src remaining =
     (if remaining \<ge> chunk_size then
        let remaining = remaining - chunk_size in
        copy_backward (write_word m (dst + remaining) (read_word m (src + remaining))) dst src remaining
      else if remaining \<noteq> 0 then copy_backward_tail m dst src remaining
      else Some m)"
  by pat_completeness auto
termination by (relation "measure (\<lambda>(m, dst, src, remaining). remaining)") auto

function set_loop :: "memory \<Rightarrow> nat \<Rightarrow> u8 \<Rightarrow> nat \<Rightarrow> nat \<Rightarrow> memory option" where
  "set_loop m cursor v chunk remaining =
     (if remaining \<ge> chunk_size then
        set_loop (write_word m cursor chunk) (cursor + chunk_size) v chunk (remaining - chunk_size)
      else if remaining \<noteq> 0 then set_tail m cursor v remaining
      else Some m)"
  by pat_completeness auto
termination by (relation "measure (\<lambda>(m, cursor, v, chunk, remaining). remaining)") auto

function compare_loop :: "memory \<Rightarrow> nat \<Rightarrow> nat \<Rightarrow> nat \<Rightarrow> nat \<Rightarrow> int option" where
  "compare_loop m s1 s2 offset remaining =
     (if remaining \<ge> chunk_size then
        if read_word m (s1 + offset) \<noteq> read_word m (s2 + offset)
        then compare_bounded m (s1 + offset) (s2 + offset) chunk_size
        else compare_loop m s1 s2 (offset + chunk_size) (remaining - chunk_size)
      else if remaining = 0 then Some 0
      else compare_bounded m (s1 + offset) (s2 + offset) remaining)"
  by pat_completeness auto
termination by (relation "measure (\<lambda>(m, s1, s2, offset, remaining). remaining)") auto

function equal_loop :: "memory \<Rightarrow> nat \<Rightarrow> nat \<Rightarrow> nat \<Rightarrow> nat \<Rightarrow> int option" where
  "equal_loop m s1 s2 offset remaining =
     (if remaining \<ge> chunk_size then
        if read_word m (s1 + offset) \<noteq> read_word m (s2 + offset) then Some 1
        else equal_loop m s1 s2 (offset + chunk_size) (remaining - chunk_size)
      else if remaining = 0 then Some 0
      else map_option (\<lambda>d. if d \<noteq> 0 then 1 else 0) (compare_bounded m (s1 + offset) (s2 + offset) remaining))"
  by pat_completeness auto
termination by (relation "measure (\<lambda>(m, s1, s2, offset, remaining). remaining)") auto

declare copy_forward.simps [simp del] copy_backward.simps [simp del] set_loop.simps [simp del]
  compare_loop.simps [simp del] equal_loop.simps [simp del]

section \<open>The entry points\<close>

text \<open>The copies and fills also return \<open>dst\<close>, which is left out.\<close>

definition memcpy :: "memory \<Rightarrow> nat \<Rightarrow> nat \<Rightarrow> nat \<Rightarrow> memory option" where
  "memcpy m dst src n = copy_forward m dst src n"

definition memmove :: "memory \<Rightarrow> nat \<Rightarrow> nat \<Rightarrow> nat \<Rightarrow> memory option" where
  "memmove m dst src n = (if dst < src then copy_forward m dst src n else copy_backward m dst src n)"

definition memset :: "memory \<Rightarrow> nat \<Rightarrow> int \<Rightarrow> nat \<Rightarrow> memory option" where
  "memset m dst c n =
     (let byte = word_of_int c; chunk = read_word (\<lambda>_. byte) 0 in set_loop m dst byte chunk n)"

definition memcmp :: "memory \<Rightarrow> nat \<Rightarrow> nat \<Rightarrow> nat \<Rightarrow> int option" where
  "memcmp m s1 s2 n = compare_loop m s1 s2 0 n"

definition bcmp :: "memory \<Rightarrow> nat \<Rightarrow> nat \<Rightarrow> nat \<Rightarrow> int option" where
  "bcmp m s1 s2 n = equal_loop m s1 s2 0 n"

definition rue_byte_copy :: "memory \<Rightarrow> nat \<Rightarrow> nat \<Rightarrow> u64 \<Rightarrow> memory option" where
  "rue_byte_copy m dst src n = memcpy m dst src (unat n)"

definition rue_byte_set :: "memory \<Rightarrow> nat \<Rightarrow> u64 \<Rightarrow> u64 \<Rightarrow> memory option" where
  "rue_byte_set m dst v n = memset m dst (sint (ucast v :: u32)) (unat n)"

definition rue_byte_move :: "memory \<Rightarrow> nat \<Rightarrow> nat \<Rightarrow> u64 \<Rightarrow> memory option" where
  "rue_byte_move m dst src n = memmove m dst src (unat n)"

section \<open>Copies\<close>

lemma tail_offsets_upt: "n < chunk_size \<Longrightarrow> tail_offsets n = Some [0..<n]"
proof -
  assume "n < chunk_size"
  moreover have "[0, 1, 2, 3, 4, 5, 6] = [0..<7::nat]" by (simp add: upt_rec)
  ultimately show ?thesis by (simp add: tail_offsets_def take_upt)
qed

lemma copy_byte_moved: "copy_byte dst src i m = moved m (dst + i) (src + i) 1"
  by (auto simp: copy_byte_def moved_def fun_eq_iff le_less_Suc_eq)

text \<open>A copy in two steps, from the front or from the back.\<close>

lemma moved_append:
  assumes "dst \<le> src \<or> src + (k + n) \<le> dst"
  shows "moved (moved m dst src k) (dst + k) (src + k) n = moved m dst src (k + n)"
  using assms by (auto simp: moved_def fun_eq_iff intro!: arg_cong[where f = m])

lemma moved_prepend:
  assumes "src \<le> dst \<or> dst + (k + n) \<le> src"
  shows "moved (moved m (dst + k) (src + k) n) dst src k = moved m dst src (k + n)"
  using assms by (auto simp: moved_def fun_eq_iff intro!: arg_cong[where f = m])

lemma fold_copy_forward:
  "dst \<le> src \<or> src + n \<le> dst \<Longrightarrow> fold (copy_byte dst src) [0..<n] m = moved m dst src n"
  by (induction n) (auto simp: copy_byte_moved moved_append[where n = 1, simplified])

lemma fold_copy_backward:
  "src \<le> dst \<or> dst + n \<le> src \<Longrightarrow> fold (copy_byte dst src) (rev [0..<n]) m = moved m dst src n"
  by (induction n arbitrary: m) (auto simp: copy_byte_moved moved_prepend[where n = 1, simplified])

lemma copy_forward_moved:
  "dst \<le> src \<or> src + n \<le> dst \<Longrightarrow> copy_forward m dst src n = Some (moved m dst src n)"
proof (induction m dst src n rule: copy_forward.induct)
  case (1 m dst src n)
  show ?case
  proof (cases "n \<ge> chunk_size")
    case True
    then have "copy_forward m dst src n
        = Some (moved (moved m dst src chunk_size) (dst + chunk_size) (src + chunk_size) (n - chunk_size))"
      using 1 by (subst copy_forward.simps) (auto simp: write_read_word)
    also have "moved (moved m dst src chunk_size) (dst + chunk_size) (src + chunk_size) (n - chunk_size) = moved m dst src n"
      using 1(2) True by (subst moved_append) auto
    finally show ?thesis .
  next
    case False
    with 1(2) show ?thesis
      by (subst copy_forward.simps) (simp add: copy_forward_tail_def tail_offsets_upt fold_copy_forward)
  qed
qed

lemma copy_backward_moved:
  "src \<le> dst \<or> dst + n \<le> src \<Longrightarrow> copy_backward m dst src n = Some (moved m dst src n)"
proof (induction m dst src n rule: copy_backward.induct)
  case (1 m dst src n)
  show ?case
  proof (cases "n \<ge> chunk_size")
    case True
    then have "copy_backward m dst src n
        = Some (moved (moved m (dst + (n - chunk_size)) (src + (n - chunk_size)) chunk_size) dst src (n - chunk_size))"
      using 1 by (subst copy_backward.simps) (auto simp: write_read_word Let_def)
    also have "moved (moved m (dst + (n - chunk_size)) (src + (n - chunk_size)) chunk_size) dst src (n - chunk_size) = moved m dst src n"
      using 1(2) True by (subst moved_prepend) auto
    finally show ?thesis .
  next
    case False
    with 1(2) show ?thesis
      by (subst copy_backward.simps) (simp add: copy_backward_tail_def tail_offsets_upt fold_copy_backward)
  qed
qed

section \<open>Fills\<close>

lemma filled_append: "filled (filled m dst v k) (dst + k) v n = filled m dst v (k + n)"
  by (auto simp: filled_def fun_eq_iff)

lemma fold_set: "fold (\<lambda>i m. m(dst + i := v)) [0..<n] m = filled m dst v n"
  by (induction n) (auto simp: filled_def fun_eq_iff)

lemma set_loop_filled:
  "chunk = read_word (\<lambda>_. v) 0 \<Longrightarrow> set_loop m dst v chunk n = Some (filled m dst v n)"
proof (induction m dst v chunk n rule: set_loop.induct)
  case (1 m dst v chunk n)
  show ?case
  proof (cases "n \<ge> chunk_size")
    case True
    with 1 have "set_loop m dst v chunk n
        = Some (filled (filled m dst v chunk_size) (dst + chunk_size) v (n - chunk_size))"
      by (subst set_loop.simps) (simp add: write_constant_word)
    then show ?thesis using True by (simp add: filled_append)
  next
    case False
    then show ?thesis by (subst set_loop.simps) (simp add: set_tail_def tail_offsets_upt fold_set)
  qed
qed

lemma memset_filled: "memset m dst c n = Some (filled m dst (word_of_int c) n)"
  by (simp add: memset_def set_loop_filled)

section \<open>Comparisons\<close>

text \<open>The difference of the first bytes that differ, and zero when none does.\<close>

definition first_difference :: "memory \<Rightarrow> nat \<Rightarrow> nat \<Rightarrow> nat \<Rightarrow> int" where
  "first_difference m a b n = compare_bytes m a b [0..<n]"

lemma first_difference_zero [simp]: "first_difference m a b 0 = 0"
  by (simp add: first_difference_def)

lemma compare_bytes_append:
  "compare_bytes m a b (xs @ ys) = (if compare_bytes m a b xs \<noteq> 0 then compare_bytes m a b xs else compare_bytes m a b ys)"
  by (induction xs) (auto simp: word_uint_eq_iff)

lemma compare_bytes_zero: "compare_bytes m a b xs = 0 \<longleftrightarrow> (\<forall>i \<in> set xs. m (a + i) = m (b + i))"
  by (induction xs) (auto simp: word_uint_eq_iff)

lemma compare_bytes_shift: "compare_bytes m (a + k) (b + k) xs = compare_bytes m a b (map (\<lambda>i. k + i) xs)"
  by (induction xs) (auto simp: add.assoc)

lemma first_difference_append:
  "first_difference m a b (k + n)
     = (if first_difference m a b k \<noteq> 0 then first_difference m a b k
        else first_difference m (a + k) (b + k) n)"
proof -
  have "[0..<k + n] = [0..<k] @ map (\<lambda>i. k + i) [0..<n]"
    using upt_add_eq_append[of 0 k n] map_add_upt[of k n] by (simp add: add.commute)
  then show ?thesis by (simp only: first_difference_def compare_bytes_append compare_bytes_shift)
qed

lemma compare_bounded_first: "n \<le> 8 \<Longrightarrow> compare_bounded m a b n = Some (first_difference m a b n)"
proof -
  assume "n \<le> 8"
  moreover have "[0, 1, 2, 3, 4, 5, 6, 7] = [0..<8::nat]" by (simp add: upt_rec)
  ultimately show ?thesis by (simp add: compare_bounded_def first_difference_def take_upt)
qed

lemma read_word_first: "read_word m a = read_word m b \<longleftrightarrow> first_difference m a b 8 = 0"
  unfolding read_word_eq first_difference_def compare_bytes_zero by auto

lemma compare_loop_first:
  "first_difference m s1 s2 offset = 0
   \<Longrightarrow> compare_loop m s1 s2 offset n = Some (first_difference m s1 s2 (offset + n))"
proof (induction m s1 s2 offset n rule: compare_loop.induct)
  case (1 m s1 s2 offset n)
  note app = first_difference_append[of m s1 s2 offset] note zero = 1(2)
  show ?case
  proof (cases "n \<ge> chunk_size")
    case True
    have n: "offset + n = (offset + chunk_size) + (n - chunk_size)" using True by simp
    show ?thesis
    proof (cases "read_word m (s1 + offset) = read_word m (s2 + offset)")
      case eq: True
      then have "first_difference m s1 s2 (offset + chunk_size) = 0" using app[of chunk_size] zero read_word_first by auto
      moreover have "compare_loop m s1 s2 offset n = compare_loop m s1 s2 (offset + chunk_size) (n - chunk_size)"
        using eq True by (subst compare_loop.simps) simp
      ultimately show ?thesis using 1(1)[OF True] eq unfolding n by simp
    next
      case False
      then have d: "first_difference m (s1 + offset) (s2 + offset) chunk_size \<noteq> 0" unfolding read_word_first .
      have e: "first_difference m s1 s2 (offset + chunk_size) = first_difference m (s1 + offset) (s2 + offset) chunk_size"
        unfolding app zero by (simp only: simp_thms if_True if_False)
      from d e have "first_difference m s1 s2 (offset + n) = first_difference m (s1 + offset) (s2 + offset) chunk_size"
        unfolding n first_difference_append[of m s1 s2 "offset + chunk_size"] by simp
      then show ?thesis using False True by (subst compare_loop.simps) (simp add: compare_bounded_first)
    qed
  next
    case False
    then show ?thesis using app[of n] zero by (subst compare_loop.simps) (simp add: compare_bounded_first)
  qed
qed

lemma equal_loop_compare:
  "equal_loop m s1 s2 offset n = map_option (\<lambda>d. if d \<noteq> 0 then 1 else 0) (compare_loop m s1 s2 offset n)"
proof (induction m s1 s2 offset n rule: equal_loop.induct)
  case (1 m s1 s2 offset n)
  then show ?case
    by (subst equal_loop.simps, subst compare_loop.simps) (auto simp: compare_bounded_first read_word_first)
qed

section \<open>The intrinsics\<close>

lemma first_difference_less:
  "first_difference m a b n < 0
   \<longleftrightarrow> (\<exists>i < n. m (a + i) < m (b + i) \<and> (\<forall>j < i. m (a + j) = m (b + j)))"
proof (induction n)
  case (Suc n)
  have "first_difference m a b (Suc n)
      = (if first_difference m a b n \<noteq> 0 then first_difference m a b n
         else uint (m (a + n)) - uint (m (b + n)))"
    by (simp add: first_difference_def compare_bytes_append)
  moreover have "first_difference m a b n = 0 \<longleftrightarrow> (\<forall>i < n. m (a + i) = m (b + i))"
    by (auto simp: first_difference_def compare_bytes_zero)
  ultimately show ?case using Suc by (auto simp: less_Suc_eq word_less_def)
qed simp

lemma byte_of_low_word: "(word_of_int (sint (ucast (v :: u64) :: u32)) :: u8) = ucast v"
  by (rule bit_word_eqI) (simp add: bit_simps)

text \<open>
  C19. A copy of disjoint regions, a move of any regions and a fill do what their names say,
  whatever the length and the alignment, and never reach an unreachable tail; a comparison has
  the sign of the first bytes that differ, and equality is decided exactly.
\<close>

theorem memory_intrinsics_exact:
  "(dst + n \<le> src \<or> src + n \<le> dst \<longrightarrow> memcpy m dst src n = Some (moved m dst src n))
   \<and> memmove m dst src n = Some (moved m dst src n)
   \<and> memset m dst c n = Some (filled m dst (word_of_int c) n)
   \<and> rue_byte_set m dst v (of_nat k) = Some (filled m dst (ucast v) (k mod 2 ^ 64))
   \<and> (\<exists>d. memcmp m s1 s2 n = Some d
        \<and> (d = 0 \<longleftrightarrow> (\<forall>i < n. m (s1 + i) = m (s2 + i)))
        \<and> (d < 0 \<longleftrightarrow> (\<exists>i < n. m (s1 + i) < m (s2 + i) \<and> (\<forall>j < i. m (s1 + j) = m (s2 + j)))))
   \<and> bcmp m s1 s2 n = Some (if \<forall>i < n. m (s1 + i) = m (s2 + i) then 0 else 1)"
proof (intro conjI)
  show "dst + n \<le> src \<or> src + n \<le> dst \<longrightarrow> memcpy m dst src n = Some (moved m dst src n)"
    unfolding memcpy_def by (intro impI copy_forward_moved) auto
  show "memmove m dst src n = Some (moved m dst src n)"
    by (auto simp: memmove_def intro!: copy_forward_moved copy_backward_moved)
  show "memset m dst c n = Some (filled m dst (word_of_int c) n)" by (rule memset_filled)
  show "rue_byte_set m dst v (of_nat k) = Some (filled m dst (ucast v) (k mod 2 ^ 64))"
    by (simp only: rue_byte_set_def memset_filled byte_of_low_word unat_of_nat len_of_numeral_defs) simp
  have cmp: "compare_loop m s1 s2 0 n = Some (first_difference m s1 s2 n)"
    using compare_loop_first[of m s1 s2 0 n] by simp
  have zero: "first_difference m s1 s2 n = 0 \<longleftrightarrow> (\<forall>i < n. m (s1 + i) = m (s2 + i))"
    by (auto simp: first_difference_def compare_bytes_zero)
  show "\<exists>d. memcmp m s1 s2 n = Some d
        \<and> (d = 0 \<longleftrightarrow> (\<forall>i < n. m (s1 + i) = m (s2 + i)))
        \<and> (d < 0 \<longleftrightarrow> (\<exists>i < n. m (s1 + i) < m (s2 + i) \<and> (\<forall>j < i. m (s1 + j) = m (s2 + j))))"
    by (simp add: memcmp_def cmp zero first_difference_less)
  show "bcmp m s1 s2 n = Some (if \<forall>i < n. m (s1 + i) = m (s2 + i) then 0 else 1)"
    by (simp add: bcmp_def equal_loop_compare cmp zero)
qed

theorem memory_intrinsics_exact_witness:
  "memcpy (\<lambda>a. of_nat a) 100 20 11 = Some (moved (\<lambda>a. of_nat a) 100 20 11)"
  using memory_intrinsics_exact[of 100 11 20 "\<lambda>a. of_nat a"] by simp

end
