(* ===== verification/Allocator.thy ===== *)
theory Allocator
  imports Memory_Intrinsics "HOL-Library.Multiset"
begin

text \<open>
  The runtime's allocator (\<open>rue-allocator/src/lib.rs\<close>, as compiled without debug assertions, and
  the entry points of \<open>rue-runtime/src/heap.rs\<close>): power-of-two size classes with free lists that
  are threaded through the freed blocks, arenas that are filled from the front, and mappings of
  their own for large requests.

  The arena headers and free-list links are words in the memory of \<open>Memory\<close>.  The page mapper (\<open>mmap\<close> and \<open>munmap\<close>) is a
  parameter with a state of its own.  An operation is one critical section of the spin lock.
\<close>

text \<open>The compiler's intrinsic for a copy.\<close>

definition copy_nonoverlapping :: "memory \<Rightarrow> nat \<Rightarrow> nat \<Rightarrow> nat \<Rightarrow> memory" where
  "copy_nonoverlapping m src dst n = moved m dst src n"

section \<open>Sizes\<close>

abbreviation page_size :: nat where "page_size \<equiv> 4096"
abbreviation arena_size :: nat where "arena_size \<equiv> 65536"
abbreviation max_small_size :: nat where "max_small_size \<equiv> 16384"
abbreviation min_class_size :: nat where "min_class_size \<equiv> 8"
abbreviation min_class_shift :: nat where "min_class_shift \<equiv> 3"
abbreviation class_count :: nat where "class_count \<equiv> 12"
abbreviation header_size :: nat where "header_size \<equiv> 24"

definition checked_add :: "nat \<Rightarrow> nat \<Rightarrow> nat option" where
  "checked_add a b = (if a + b < usize_bound then Some (a + b) else None)"

definition usize_is_power_of_two :: "nat \<Rightarrow> bool" where
  "usize_is_power_of_two n \<longleftrightarrow> list_ex (\<lambda>k. n = 2 ^ k) [0..<64]"

definition checked_next_power_of_two :: "nat \<Rightarrow> nat option" where
  "checked_next_power_of_two n = find (\<lambda>p. n \<le> p) (map ((^) 2) [0..<64])"

definition checked_next_multiple_of :: "nat \<Rightarrow> nat \<Rightarrow> nat option" where
  "checked_next_multiple_of n k = (if n mod k = 0 then Some n else checked_add n (k - n mod k))"

definition usize_trailing_zeros :: "nat \<Rightarrow> nat" where
  "usize_trailing_zeros n = length (takeWhile (\<lambda>k. \<not> bit n k) [0..<64])"

definition checked_align_up :: "nat \<Rightarrow> nat \<Rightarrow> nat option" where
  "checked_align_up n align =
     map_option (\<lambda>added. added AND (usize_bound - 1 - (align - 1))) (checked_add n (align - 1))"

record small_class =
  class_index :: nat
  block_size :: nat
  block_align :: nat

datatype allocation_kind = Small small_class | Direct (mapping_size: nat)

definition small_class_of :: "nat \<Rightarrow> small_class" where
  "small_class_of bs =
     \<lparr>class_index = usize_trailing_zeros bs - min_class_shift, block_size = bs, block_align = min bs page_size\<rparr>"

definition classify_direct :: "nat \<Rightarrow> allocation_kind option" where
  "classify_direct sz = map_option Direct (checked_next_multiple_of sz page_size)"

definition classify :: "nat \<Rightarrow> nat \<Rightarrow> allocation_kind option" where
  "classify sz align =
     (if sz = 0 \<or> align = 0 \<or> \<not> usize_is_power_of_two align \<or> align > page_size then None
      else if sz \<le> max_small_size then
        case checked_next_power_of_two (max (max sz align) min_class_size) of
          None \<Rightarrow> None
        | Some bs \<Rightarrow> if bs \<le> max_small_size then Some (Small (small_class_of bs)) else classify_direct sz
      else classify_direct sz)"

section \<open>The allocator\<close>

text \<open>
  The mapper decides whether an attempt may proceed, maps pages (\<open>0\<close> is the null pointer), which
  sets the bytes of the new mapping, and takes a mapping back.
\<close>

record 'w page_mapper =
  allocation_permitted :: "'w \<Rightarrow> bool \<times> 'w"
  map_pages :: "nat \<Rightarrow> 'w \<times> memory \<Rightarrow> nat \<times> 'w \<times> memory"
  unmap_pages :: "nat \<Rightarrow> nat \<Rightarrow> 'w \<Rightarrow> 'w"

record 'w heap =
  mem :: memory
  current_arena :: nat
  free_lists :: "nat list"
  world :: 'w

definition new_heap :: "memory \<Rightarrow> 'w \<Rightarrow> 'w heap" where
  "new_heap m w = \<lparr>mem = m, current_arena = 0, free_lists = replicate class_count 0, world = w\<rparr>"

definition map_into :: "'w page_mapper \<Rightarrow> nat \<Rightarrow> 'w heap \<Rightarrow> nat \<times> 'w heap" where
  "map_into M sz h =
     (let (p, w, m) = map_pages M sz (world h, mem h) in (p, h\<lparr>world := w, mem := m\<rparr>))"

definition arena_next :: "memory \<Rightarrow> nat \<Rightarrow> nat" where
  "arena_next m a = read_word m a"

definition arena_bytes :: "memory \<Rightarrow> nat \<Rightarrow> nat" where
  "arena_bytes m a = read_word m (a + 8)"

definition arena_offset :: "memory \<Rightarrow> nat \<Rightarrow> nat" where
  "arena_offset m a = read_word m (a + 16)"

definition write_arena_header :: "memory \<Rightarrow> nat \<Rightarrow> nat \<Rightarrow> nat \<Rightarrow> nat \<Rightarrow> memory" where
  "write_arena_header m a nxt sz off =
     write_word (write_word (write_word m a nxt) (a + 8) sz) (a + 16) off"

definition allocate_from_arena :: "nat \<Rightarrow> small_class \<Rightarrow> 'w heap \<Rightarrow> (nat \<times> 'w heap) option" where
  "allocate_from_arena arena c h =
     (case checked_align_up (arena_offset (mem h) arena) (block_align c) of
        None \<Rightarrow> None
      | Some pointer_offset \<Rightarrow>
          (case checked_add pointer_offset (block_size c) of
             None \<Rightarrow> None
           | Some new_offset \<Rightarrow>
               if new_offset > arena_bytes (mem h) arena then None
               else Some (arena + pointer_offset,
                          h\<lparr>mem := write_word (mem h) (arena + 16) new_offset\<rparr>)))"

definition push_arena :: "nat \<Rightarrow> 'w heap \<Rightarrow> 'w heap" where
  "push_arena mapping h =
     h\<lparr>mem := write_arena_header (mem h) mapping (current_arena h) arena_size header_size,
       current_arena := mapping\<rparr>"

text \<open>The loop of the slow path; \<open>None\<close> is a loop that does not end.\<close>

partial_function (option) arena_loop :: "'w page_mapper \<Rightarrow> small_class \<Rightarrow> 'w heap \<Rightarrow> (nat \<times> 'w heap) option" where
  "arena_loop M c h =
     (case (if current_arena h \<noteq> 0 then allocate_from_arena (current_arena h) c h else None) of
        Some r \<Rightarrow> Some r
      | None \<Rightarrow>
          (let (mapping, h') = map_into M arena_size h in
           if mapping = 0 then Some (0, h') else arena_loop M c (push_arena mapping h')))"

declare arena_loop.simps [code]

definition pop_free :: "nat \<Rightarrow> 'w heap \<Rightarrow> 'w heap" where
  "pop_free i h = h\<lparr>free_lists := (free_lists h)[i := read_word (mem h) (free_lists h ! i)]\<rparr>"

definition allocate_small :: "'w page_mapper \<Rightarrow> small_class \<Rightarrow> 'w heap \<Rightarrow> (nat \<times> 'w heap) option" where
  "allocate_small M c h =
     (let free = free_lists h ! class_index c in
      if free \<noteq> 0 then Some (free, pop_free (class_index c) h) else arena_loop M c h)"

definition release_small :: "nat \<Rightarrow> nat \<Rightarrow> 'w heap \<Rightarrow> 'w heap" where
  "release_small p i h =
     h\<lparr>mem := write_word (mem h) p (free_lists h ! i), free_lists := (free_lists h)[i := p]\<rparr>"

definition allocate :: "'w page_mapper \<Rightarrow> nat \<Rightarrow> nat \<Rightarrow> 'w heap \<Rightarrow> (nat \<times> 'w heap) option" where
  "allocate M sz align h =
     (let (permitted, w) = allocation_permitted M (world h); h = h\<lparr>world := w\<rparr> in
      if \<not> permitted then Some (0, h)
      else
        case classify sz align of
          None \<Rightarrow> Some (0, h)
        | Some (Small c) \<Rightarrow> allocate_small M c h
        | Some (Direct bytes) \<Rightarrow> Some (map_into M bytes h))"

definition deallocate :: "'w page_mapper \<Rightarrow> nat \<Rightarrow> nat \<Rightarrow> nat \<Rightarrow> 'w heap \<Rightarrow> 'w heap" where
  "deallocate M p sz align h =
     (if p = 0 then h
      else
        case classify sz align of
          None \<Rightarrow> h
        | Some (Small c) \<Rightarrow> release_small p (class_index c) h
        | Some (Direct bytes) \<Rightarrow> h\<lparr>world := unmap_pages M p bytes (world h)\<rparr>)"

definition resize_in_place :: "nat \<Rightarrow> nat \<Rightarrow> nat \<Rightarrow> nat \<Rightarrow> bool" where
  "resize_in_place p old_size new_size align =
     (if p = 0 \<or> new_size = 0 then False
      else
        case (classify old_size align, classify new_size align) of
          (Some old_kind, Some new_kind) \<Rightarrow> old_kind = new_kind
        | _ \<Rightarrow> False)"

definition move_block :: "'w page_mapper \<Rightarrow> nat \<Rightarrow> nat \<Rightarrow> nat \<Rightarrow> nat \<Rightarrow> 'w heap \<Rightarrow> (nat \<times> 'w heap) option" where
  "move_block M p old_size new_size align h =
     (case allocate M new_size align h of
        None \<Rightarrow> None
      | Some (q, h') \<Rightarrow>
          if q = 0 then Some (0, h')
          else
            Some (q, deallocate M p old_size align
                       (h'\<lparr>mem := copy_nonoverlapping (mem h') p q (min old_size new_size)\<rparr>)))"

definition reallocate :: "'w page_mapper \<Rightarrow> nat \<Rightarrow> nat \<Rightarrow> nat \<Rightarrow> nat \<Rightarrow> 'w heap \<Rightarrow> (nat \<times> 'w heap) option" where
  "reallocate M p old_size new_size align h =
     (if p = 0 then allocate M new_size align h
      else if new_size = 0 then Some (0, deallocate M p old_size align h)
      else
        case (classify old_size align, classify new_size align) of
          (Some old_kind, Some new_kind) \<Rightarrow>
            if old_kind = new_kind then Some (p, h) else move_block M p old_size new_size align h
        | _ \<Rightarrow> Some (0, h))"

definition alloc_zeroed :: "'w page_mapper \<Rightarrow> nat \<Rightarrow> nat \<Rightarrow> 'w heap \<Rightarrow> (nat \<times> 'w heap) option" where
  "alloc_zeroed M sz align h =
     (case allocate M sz align h of
        None \<Rightarrow> None
      | Some (p, h') \<Rightarrow>
          if p \<noteq> 0 then map_option (\<lambda>m. (p, h'\<lparr>mem := m\<rparr>)) (memset (mem h') p 0 sz) else Some (p, h'))"

end
