(* ===== verification/Allocator_Blocks.thy ===== *)
theory Allocator_Blocks
  imports Allocator
begin

text \<open>
  The sizes and alignments that the classification of a layout promises.
\<close>

section \<open>Powers of two\<close>

lemma usize_is_power_of_two_iff: "usize_is_power_of_two n \<longleftrightarrow> (\<exists>k < 64. n = 2 ^ k)"
  unfolding usize_is_power_of_two_def list_ex_iff by auto

lemma checked_next_power_of_two_Some:
  assumes "checked_next_power_of_two n = Some p"
  obtains k where "k < 64" "p = 2 ^ k" "n \<le> p" "\<forall>j < k. 2 ^ j < n"
proof -
  from assms obtain i where i: "i < 64" "n \<le> 2 ^ i" "p = 2 ^ i" "\<forall>j < i. \<not> n \<le> 2 ^ j"
    unfolding checked_next_power_of_two_def find_Some_iff by (force simp del: upt_rec_numeral)
  then show thesis by (intro that[of i]) auto
qed

lemma bit_power_of_two: "bit ((2::nat) ^ k) i \<longleftrightarrow> i = k"
  using bit_exp_iff[where 'a = nat] by auto

lemma usize_trailing_zeros_power [simp]: "k < 64 \<Longrightarrow> usize_trailing_zeros (2 ^ k) = k"
proof -
  assume k: "k < 64"
  then have "[0..<64] = [0..<k] @ k # [Suc k..<64]"
    by (metis less_imp_le_nat upt_add_eq_append upt_conv_Cons le_add_diff_inverse plus_nat.add_0 zero_le)
  then show ?thesis
    by (simp add: usize_trailing_zeros_def bit_power_of_two del: upt_rec_numeral)
      (subst takeWhile_append2, auto)
qed

lemma small_power: "(2::nat) ^ k \<le> 16384 \<longleftrightarrow> k \<le> 14"
  using power_increasing_iff[of "2::nat" k 14] by simp

lemma page_power: "(2::nat) ^ k \<le> 4096 \<longleftrightarrow> k \<le> 12"
  using power_increasing_iff[of "2::nat" k 12] by simp

lemma min_page_power: "min (2 ^ k) (4096::nat) = 2 ^ min k 12"
  using page_power[of k] by (cases "k \<le> 12") (auto simp: min_def)

section \<open>Rounding\<close>

lemma checked_align_up_Some:
  assumes "checked_align_up n (2 ^ k) = Some r" "k \<le> 12"
  shows "n \<le> r" "2 ^ k dvd r" "r < n + 2 ^ k"
proof -
  let ?a = "n + (2 ^ k - 1)"
  have a: "?a < 2 ^ 64" and "r = ?a AND (2 ^ 64 - 1 - (2 ^ k - 1))"
    using assms(1) by (auto simp: checked_align_up_def checked_add_def split: if_splits)
  then have r: "r = ?a div 2 ^ k * 2 ^ k" using clear_low_bits[of ?a k] assms(2) by simp
  show "2 ^ k dvd r" by (simp add: r)
  have "?a mod 2 ^ k < 2 ^ k" by simp
  moreover have "r + ?a mod 2 ^ k = ?a" unfolding r by (rule div_mult_mod_eq)
  ultimately show "n \<le> r" "r < n + 2 ^ k" by linarith+
qed

section \<open>Classes\<close>

definition kind_size :: "allocation_kind \<Rightarrow> nat" where
  "kind_size kind = (case kind of Small c \<Rightarrow> block_size c | Direct bytes \<Rightarrow> bytes)"

text \<open>The class with a given index.\<close>

definition class_at :: "nat \<Rightarrow> small_class" where
  "class_at i = \<lparr>class_index = i, block_size = 2 ^ (i + 3), block_align = 2 ^ min (i + 3) 12\<rparr>"

lemma classify_Small:
  assumes "classify sz align = Some (Small c)"
  obtains i where "i < 12" "c = class_at i" "sz \<le> 2 ^ (i + 3)" "align dvd 2 ^ min (i + 3) 12" "0 < sz"
proof -
  from assms obtain bs where ok: "0 < sz" "usize_is_power_of_two align" "align \<le> page_size"
    and bs: "checked_next_power_of_two (max (max sz align) min_class_size) = Some bs"
    and "bs \<le> max_small_size" and c: "c = small_class_of bs"
    by (auto simp: classify_def classify_direct_def split: if_splits option.splits)
  from bs obtain k where k: "k < 64" "bs = 2 ^ k" "max (max sz align) 8 \<le> bs"
    by (rule checked_next_power_of_two_Some)
  have "k \<le> 14" using k(2) \<open>bs \<le> max_small_size\<close> small_power by auto
  have "(2::nat) ^ 3 \<le> 2 ^ k" using k(2,3) by simp
  then have "3 \<le> k" by (simp only: power_increasing_iff)
  from ok(2) obtain j where j: "align = 2 ^ j" by (auto simp: usize_is_power_of_two_iff)
  have "j \<le> k" "j \<le> 12" using j k(2,3) ok(3) page_power by auto
  then have "align dvd 2 ^ min k 12" unfolding j by (simp add: le_imp_power_dvd)
  then show thesis
    using \<open>3 \<le> k\<close> \<open>k \<le> 14\<close> k ok(1) c
    by (intro that[of "k - 3"]) (auto simp: class_at_def small_class_of_def min_page_power)
qed

lemma classify_Direct:
  assumes "classify sz align = Some (Direct bytes)"
  shows "page_size dvd bytes" "sz \<le> bytes" "0 < bytes" "align dvd page_size" "0 < sz"
proof -
  from assms have ok: "0 < sz" "usize_is_power_of_two align" "align \<le> page_size"
    and d: "checked_next_multiple_of sz page_size = Some bytes"
    by (auto simp: classify_def classify_direct_def split: if_splits option.splits)
  have bytes: "bytes = (if sz mod page_size = 0 then sz else sz + (page_size - sz mod page_size))"
    using d by (auto simp: checked_next_multiple_of_def checked_add_def split: if_splits)
  have "page_size dvd sz + (page_size - sz mod page_size)"
  proof -
    obtain q r where "sz = q * page_size + r" "r < page_size" "sz mod page_size = r"
      by (rule that[of "sz div page_size" "sz mod page_size"]) simp_all
    then have "sz + (page_size - sz mod page_size) = page_size * (q + 1)" by simp
    then show ?thesis by simp
  qed
  then show "page_size dvd bytes"
    unfolding bytes dvd_eq_mod_eq_0 by (split if_split) blast
  show le: "sz \<le> bytes" unfolding bytes by (split if_split) linarith
  from le ok(1) show "0 < bytes" by (rule order.strict_trans2[rotated])
  from ok(2) obtain j where j: "align = 2 ^ j" by (auto simp: usize_is_power_of_two_iff)
  then have "j \<le> 12" using ok(3) page_power[of j] by simp
  then have "align dvd 2 ^ 12" unfolding j by (rule le_imp_power_dvd)
  then show "align dvd page_size" by simp
  show "0 < sz" by fact
qed

lemma classify_size: "classify sz align = Some kind \<Longrightarrow> 0 < sz \<and> sz \<le> kind_size kind"
  by (cases kind) (force simp: kind_size_def class_at_def elim: classify_Small, simp add: kind_size_def classify_Direct)

end
