(* ===== verification/Allocator_Safety.thy ===== *)
theory Allocator_Safety
  imports Allocator_Blocks
begin

text \<open>
  What the allocator promises its clients: the live blocks are disjoint, aligned and backed by
  mappings, and an operation changes no byte of a live block that it was not given.

  The proof divides the memory of the allocator into extents: arena headers, the unused rest of
  every arena, free blocks, live blocks, and those in transit between two of these.  The
  invariant says that they are disjoint, that the words in headers and free blocks link up, and
  that every extent is mapped.
\<close>

section \<open>Disjoint extents\<close>

definition extent :: "nat \<times> nat \<Rightarrow> nat set" where
  "extent r = {fst r..<fst r + snd r}"

definition apart :: "(nat \<times> nat) multiset \<Rightarrow> bool" where
  "apart M \<longleftrightarrow> (\<forall>r \<in># M. \<forall>q \<in># M - {#r#}. extent r \<inter> extent q = {})"

lemma apart_empty [simp]: "apart {#}"
  by (simp add: apart_def)

lemma apart_add [simp]:
  "apart (add_mset x M) \<longleftrightarrow> apart M \<and> (\<forall>q \<in># M. extent x \<inter> extent q = {})"
proof
  assume ap: "apart (add_mset x M)"
  have "extent r \<inter> extent q = {}" if "r \<in># M" "q \<in># M - {#r#}" for r q
  proof -
    have "q \<in># add_mset x M - {#r#}" using that by (cases "r = x") (auto dest: in_diffD)
    moreover have "r \<in># add_mset x M" using that(1) by simp
    ultimately show ?thesis using ap unfolding apart_def by blast
  qed
  moreover have "extent x \<inter> extent q = {}" if "q \<in># M" for q
    using ap that unfolding apart_def by (metis add_mset_remove_trivial union_single_eq_member)
  ultimately show "apart M \<and> (\<forall>q \<in># M. extent x \<inter> extent q = {})" by (auto simp: apart_def)
next
  assume R: "apart M \<and> (\<forall>q \<in># M. extent x \<inter> extent q = {})"
  show "apart (add_mset x M)" unfolding apart_def
  proof (intro ballI)
    fix r q assume r: "r \<in># add_mset x M" and q: "q \<in># add_mset x M - {#r#}"
    show "extent r \<inter> extent q = {}"
    proof (cases "r = x")
      case False
      then have "r \<in># M" "q = x \<or> q \<in># M - {#r#}" using r q by auto
      with R show ?thesis by (auto simp: apart_def)
    qed (use R q in auto)
  qed
qed

lemma apart_two: "{#r, q#} \<subseteq># M \<Longrightarrow> apart M \<Longrightarrow> extent r \<inter> extent q = {}"
  by (auto simp: subset_mset.le_iff_add)

lemma apart_union: "apart (A + B) \<Longrightarrow> r \<in># A \<Longrightarrow> q \<in># B \<Longrightarrow> extent r \<inter> extent q = {}"
proof -
  assume ap: "apart (A + B)" and "r \<in># A" and q: "q \<in># B"
  then obtain A' where "A = add_mset r A'" by (auto dest: multi_member_split)
  with ap q show ?thesis by simp
qed

lemma apart_right: "apart (A + B) \<Longrightarrow> apart B"
  by (induction A) auto

lemma extent_bounds:
  assumes "extent (p, n) \<subseteq> {0<..<b}" "0 < n"
  shows "0 < p \<and> p < b \<and> p + n \<le> b"
proof -
  have "p \<in> extent (p, n)" "p + n - 1 \<in> extent (p, n)" using assms(2) by (auto simp: extent_def)
  then have "p \<in> {0<..<b}" "p + n - 1 \<in> {0<..<b}" using assms(1) by blast+
  then show ?thesis using assms(2) by auto
qed

text \<open>Disjoint extents within a space.\<close>

definition laid :: "nat set \<Rightarrow> (nat \<times> nat) multiset \<Rightarrow> bool" where
  "laid S M \<longleftrightarrow> apart M \<and> (\<forall>r \<in># M. extent r \<subseteq> S)"

lemma laidD: "laid S M \<Longrightarrow> apart M" "laid S M \<Longrightarrow> r \<in># M \<Longrightarrow> extent r \<subseteq> S"
  by (simp_all add: laid_def)

lemma laid_add:
  "laid S (add_mset r M) \<longleftrightarrow> laid S M \<and> extent r \<subseteq> S \<and> (\<forall>q \<in># M. extent r \<inter> extent q = {})"
  by (auto simp: laid_def)

lemma laid_shrink:
  assumes "laid S (add_mset r M)" "extent x \<subseteq> extent r"
  shows "laid S (add_mset x M)"
  using assms unfolding laid_add by blast

lemma laid_split:
  assumes "laid S (add_mset r M)" "extent x \<subseteq> extent r" "extent y \<subseteq> extent r" "extent x \<inter> extent y = {}"
  shows "laid S (add_mset x (add_mset y M))"
proof -
  have r: "extent r \<subseteq> S" "\<And>q. q \<in># M \<Longrightarrow> extent r \<inter> extent q = {}" using assms(1) by (simp_all add: laid_add)
  have "extent x \<inter> extent q = {}" if "q \<in># add_mset y M" for q
  proof (cases "q = y")
    case False
    with that have "q \<in># M" by simp
    from r(2)[OF this] assms(2) show ?thesis by blast
  qed (simp add: assms(4))
  moreover have "laid S (add_mset y M)" using assms(1,3) by (rule laid_shrink)
  moreover have "extent x \<subseteq> S" using assms(2) r(1) by (rule subset_trans)
  ultimately show ?thesis unfolding laid_add[of S x] by blast
qed

lemma laid_mono: "laid S M \<Longrightarrow> S \<subseteq> S' \<Longrightarrow> laid S' M"
  unfolding laid_def by blast

section \<open>Chains\<close>

fun chain :: "memory \<Rightarrow> nat \<Rightarrow> nat list \<Rightarrow> bool" where
  "chain m p [] \<longleftrightarrow> p = 0"
| "chain m p (x # xs) \<longleftrightarrow> p = x \<and> x \<noteq> 0 \<and> chain m (read_word m x) xs"

lemma chain_cong:
  assumes "\<And>x a. x \<in> set xs \<Longrightarrow> a \<in> {x..<x + 8} \<Longrightarrow> m a = m' a"
  shows "chain m p xs = chain m' p xs"
  using assms
proof (induction xs arbitrary: p)
  case (Cons x xs)
  have "read_word m x = read_word m' x" by (rule read_word_cong) (use Cons.prems in auto)
  with Cons show ?case by auto
qed simp

lemma chain_zero [simp]: "chain m 0 xs \<longleftrightarrow> xs = []"
  by (cases xs) auto

lemma chain_nonzero: "chain m p xs \<Longrightarrow> p \<noteq> 0 \<Longrightarrow> xs = p # tl xs \<and> chain m (read_word m p) (tl xs)"
  by (cases xs) auto

section \<open>The invariant\<close>

type_synonym block = "nat \<times> nat \<times> nat"

text \<open>The storage of a live block of a pointer, a size and an alignment.\<close>

definition block_bytes :: "nat \<Rightarrow> nat \<Rightarrow> nat" where
  "block_bytes sz align = (case classify sz align of None \<Rightarrow> 0 | Some kind \<Rightarrow> kind_size kind)"

definition block_extent :: "block \<Rightarrow> nat \<times> nat" where
  "block_extent b = (case b of (p, sz, align) \<Rightarrow> (p, block_bytes sz align))"

definition class_list :: "nat \<Rightarrow> (nat \<times> nat) list \<Rightarrow> nat list" where
  "class_list i fs = map snd (filter (\<lambda>(j, _). j = i) fs)"

definition header_chunks :: "nat list \<Rightarrow> (nat \<times> nat) multiset" where
  "header_chunks as = image_mset (\<lambda>a. (a, header_size)) (mset as)"

definition rest_chunks :: "memory \<Rightarrow> nat list \<Rightarrow> (nat \<times> nat) multiset" where
  "rest_chunks m as = image_mset (\<lambda>a. (a + arena_offset m a, arena_size - arena_offset m a)) (mset as)"

definition free_chunks :: "(nat \<times> nat) list \<Rightarrow> (nat \<times> nat) multiset" where
  "free_chunks fs = image_mset (\<lambda>(i, p). (p, 2 ^ (i + 3))) (mset fs)"

definition live_chunks :: "block list \<Rightarrow> (nat \<times> nat) multiset" where
  "live_chunks L = image_mset block_extent (mset L)"

lemmas chunk_defs = header_chunks_def rest_chunks_def free_chunks_def live_chunks_def

text \<open>The extents, with those in transit in \<open>X\<close>.\<close>

definition chunks :: "memory \<Rightarrow> nat list \<Rightarrow> (nat \<times> nat) list \<Rightarrow> block list \<Rightarrow> (nat \<times> nat) multiset \<Rightarrow> (nat \<times> nat) multiset" where
  "chunks m as fs L X = header_chunks as + rest_chunks m as + free_chunks fs + live_chunks L + X"

definition links_ok :: "memory \<Rightarrow> nat \<Rightarrow> nat list \<Rightarrow> nat list \<Rightarrow> (nat \<times> nat) list \<Rightarrow> bool" where
  "links_ok m cur fl as fs \<longleftrightarrow>
     chain m cur as
     \<and> (\<forall>a \<in> set as. page_size dvd a \<and> arena_bytes m a = arena_size
          \<and> header_size \<le> arena_offset m a \<and> arena_offset m a \<le> arena_size)
     \<and> length fl = class_count
     \<and> (\<forall>i < class_count. chain m (fl ! i) (class_list i fs))
     \<and> (\<forall>(i, p) \<in> set fs. i < class_count \<and> block_align (class_at i) dvd p)"

definition block_ok :: "(nat \<times> nat) set \<Rightarrow> block \<Rightarrow> bool" where
  "block_ok maps b \<longleftrightarrow>
     (case b of (p, sz, align) \<Rightarrow>
        (case classify sz align of
           None \<Rightarrow> False
         | Some (Small c) \<Rightarrow> block_align c dvd p
         | Some (Direct bytes) \<Rightarrow> page_size dvd p \<and> (p, bytes) \<in> maps))"

definition mapped_space :: "(nat \<times> nat) set \<Rightarrow> nat set" where
  "mapped_space maps = (\<Union>r \<in> maps. extent r)"

definition heap_inv :: "(nat \<times> nat) set \<Rightarrow> 'w heap \<Rightarrow> nat list \<Rightarrow> (nat \<times> nat) list \<Rightarrow> block list \<Rightarrow> (nat \<times> nat) multiset \<Rightarrow> bool" where
  "heap_inv maps h as fs L X \<longleftrightarrow>
     links_ok (mem h) (current_arena h) (free_lists h) as fs
     \<and> laid (mapped_space maps) (chunks (mem h) as fs L X)
     \<and> mapped_space maps \<subseteq> {0<..<usize_bound}
     \<and> (\<forall>b \<in> set L. block_ok maps b)"

lemma heap_invD:
  assumes "heap_inv maps h as fs L X"
  shows "links_ok (mem h) (current_arena h) (free_lists h) as fs" "apart (chunks (mem h) as fs L X)"
    and "\<And>r. r \<in># chunks (mem h) as fs L X \<Longrightarrow> extent r \<subseteq> mapped_space maps"
    and "mapped_space maps \<subseteq> {0<..<usize_bound}"
    and "\<And>b. b \<in> set L \<Longrightarrow> block_ok maps b"
    and "laid (mapped_space maps) (chunks (mem h) as fs L X)"
  using assms by (simp_all add: heap_inv_def laid_def)

lemma links_okD:
  assumes "links_ok m cur fl as fs"
  shows "chain m cur as"
    and "\<And>a. a \<in> set as \<Longrightarrow> page_size dvd a \<and> arena_bytes m a = arena_size \<and> header_size \<le> arena_offset m a \<and> arena_offset m a \<le> arena_size"
    and "length fl = class_count" "\<And>i. i < class_count \<Longrightarrow> chain m (fl ! i) (class_list i fs)"
    and "\<And>i p. (i, p) \<in> set fs \<Longrightarrow> i < class_count \<and> block_align (class_at i) dvd p"
  using assms unfolding links_ok_def by blast+

text \<open>The addresses whose bytes the allocator relies on.\<close>

definition link_space :: "nat list \<Rightarrow> (nat \<times> nat) list \<Rightarrow> nat set" where
  "link_space as fs = (\<Union>a \<in> set as. {a..<a + header_size}) \<union> (\<Union>(i, p) \<in> set fs. {p..<p + 8})"

lemma arena_field_cong:
  assumes "\<And>x. x \<in> {a..<a + header_size} \<Longrightarrow> m x = m' x"
  shows "arena_bytes m a = arena_bytes m' a" "arena_offset m a = arena_offset m' a"
  unfolding arena_bytes_def arena_offset_def by (rule read_word_cong, use assms in simp)+

lemma links_ok_cong:
  assumes "\<And>x. x \<in> link_space as fs \<Longrightarrow> m x = m' x"
  shows "links_ok m cur fl as fs = links_ok m' cur fl as fs"
proof -
  have ar: "m x = m' x" if "a \<in> set as" "x \<in> {a..<a + header_size}" for a x
    using assms that by (auto simp: link_space_def)
  then have "arena_bytes m a = arena_bytes m' a \<and> arena_offset m a = arena_offset m' a" if "a \<in> set as" for a
    using arena_field_cong that by blast
  moreover have "chain m cur as = chain m' cur as"
    by (rule chain_cong) (use ar in auto)
  moreover have "chain m (fl ! i) (class_list i fs) = chain m' (fl ! i) (class_list i fs)" for i
    by (rule chain_cong) (use assms in \<open>fastforce simp: link_space_def class_list_def\<close>)
  ultimately show ?thesis by (simp add: links_ok_def cong: ball_cong)
qed

lemma chunks_cong:
  assumes "\<And>x. x \<in> link_space as fs \<Longrightarrow> m x = m' x"
  shows "chunks m as fs L X = chunks m' as fs L X"
proof -
  have "arena_offset m a = arena_offset m' a" if "a \<in> set as" for a
    by (rule arena_field_cong) (use assms that in \<open>auto simp: link_space_def\<close>)
  then have "rest_chunks m as = rest_chunks m' as"
    unfolding rest_chunks_def by (intro image_mset_cong) simp
  then show ?thesis by (simp add: chunks_def)
qed

lemma heap_inv_mem:
  assumes "heap_inv maps h as fs L X" "\<And>x. x \<in> link_space as fs \<Longrightarrow> m x = mem h x"
  shows "heap_inv maps (h\<lparr>mem := m\<rparr>) as fs L X"
proof -
  have "links_ok m c fl as fs = links_ok (mem h) c fl as fs" "chunks m as fs L X = chunks (mem h) as fs L X" for c fl
    using links_ok_cong chunks_cong assms(2) by blast+
  with assms(1) show ?thesis by (simp add: heap_inv_def)
qed

lemma chunks_parts:
  "chunks m as fs L X = (header_chunks as + rest_chunks m as + free_chunks fs) + (live_chunks L + X)"
  by (simp add: chunks_def ac_simps)

text \<open>Live blocks and extents in transit hold no bookkeeping.\<close>

lemma held_apart:
  assumes "heap_inv maps h as fs L X" "r \<in># live_chunks L + X"
    and "q \<in># header_chunks as + rest_chunks (mem h) as + free_chunks fs"
  shows "extent r \<inter> extent q = {}"
  using apart_union[OF heap_invD(2)[OF assms(1), unfolded chunks_parts] assms(3,2)] by blast

lemma live_apart:
  assumes "heap_inv maps h as fs L X" "r \<in># X" "b \<in> set L"
  shows "extent (block_extent b) \<inter> extent r = {}"
proof -
  have "apart (live_chunks L + X)"
    using heap_invD(2)[OF assms(1)] unfolding chunks_parts by (rule apart_right)
  then show ?thesis by (rule apart_union) (use assms(2,3) in \<open>auto simp: live_chunks_def\<close>)
qed

lemma link_space_chunk:
  assumes "x \<in> link_space as fs"
  obtains q where "q \<in># header_chunks as + free_chunks fs" "x \<in> extent q"
proof -
  have "\<exists>q. q \<in># header_chunks as + free_chunks fs \<and> x \<in> extent q"
  proof (cases "\<exists>a \<in> set as. x \<in> {a..<a + header_size}")
    case True
    then obtain a where "a \<in> set as" "x \<in> {a..<a + header_size}" by blast
    then show ?thesis by (intro exI[of _ "(a, header_size)"]) (auto simp: chunk_defs extent_def)
  next
    case False
    then obtain i p where "(i, p) \<in> set fs" "x \<in> {p..<p + 8}" using assms by (auto simp: link_space_def)
    moreover have "(8::nat) \<le> 2 ^ (i + 3)" by (simp add: power_add)
    ultimately show ?thesis by (intro exI[of _ "(p, 2 ^ (i + 3))"]) (force simp: chunk_defs extent_def)
  qed
  then show thesis using that by blast
qed

lemma held_no_links:
  assumes "heap_inv maps h as fs L X" "r \<in># live_chunks L + X" "x \<in> extent r"
  shows "x \<notin> link_space as fs"
proof
  assume "x \<in> link_space as fs"
  then obtain q where "q \<in># header_chunks as + free_chunks fs" "x \<in> extent q" by (rule link_space_chunk)
  with held_apart[OF assms(1,2), of q] assms(3) show False by auto
qed

text \<open>An update of memory within an extent that is held.\<close>

lemma heap_inv_write:
  assumes "heap_inv maps h as fs L X" "r \<in># live_chunks L + X" "\<And>x. x \<notin> extent r \<Longrightarrow> m x = mem h x"
  shows "heap_inv maps (h\<lparr>mem := m\<rparr>) as fs L X"
  using assms(1) by (rule heap_inv_mem) (use held_no_links[OF assms(1,2)] assms(3) in blast)

definition keeps :: "block list \<Rightarrow> 'w heap \<Rightarrow> 'w heap \<Rightarrow> bool" where
  "keeps L h h' \<longleftrightarrow> (\<forall>b \<in> set L. \<forall>x \<in> extent (block_extent b). mem h' x = mem h x)"

lemma keeps_refl [simp]: "keeps L h h"
  by (simp add: keeps_def)

lemma keeps_trans [trans]: "keeps L h h' \<Longrightarrow> keeps L h' h'' \<Longrightarrow> keeps L h h''"
  by (simp add: keeps_def)

lemma keeps_same_mem: "mem h' = mem h \<Longrightarrow> keeps L h h'"
  by (simp add: keeps_def)

section \<open>Arenas\<close>

lemma current_arena_bound:
  assumes "heap_inv maps h as fs L X" "current_arena h \<noteq> 0"
  shows "current_arena h \<in> set as" "current_arena h < usize_bound"
proof -
  show a: "current_arena h \<in> set as"
    using chain_nonzero[OF links_okD(1)[OF heap_invD(1)[OF assms(1)]] assms(2)] by (metis list.set_intros(1))
  then have "(current_arena h, header_size) \<in># chunks (mem h) as fs L X" by (auto simp: chunks_def chunk_defs)
  then have "extent (current_arena h, header_size) \<subseteq> {0<..<usize_bound}"
    using heap_invD(3,4)[OF assms(1)] by blast
  then show "current_arena h < usize_bound" by (metis extent_bounds zero_less_numeral)
qed

lemma free_pointer_bound:
  assumes "heap_inv maps h as fs L X" "(i, p) \<in> set fs"
  shows "0 < p" "p < usize_bound"
proof -
  have "(p, 2 ^ (i + 3)) \<in># chunks (mem h) as fs L X"
    using assms(2) by (force simp: chunks_def chunk_defs image_iff)
  then have "extent (p, 2 ^ (i + 3)) \<subseteq> {0<..<usize_bound}" using heap_invD(3,4)[OF assms(1)] by blast
  then show "0 < p" "p < usize_bound" using extent_bounds[of p "2 ^ (i + 3)"] by auto
qed

lemma held_bound:
  assumes "heap_inv maps h as fs L X" "(p, n) \<in># X" "0 < n"
  shows "0 < p" "p + n \<le> usize_bound" "extent (p, n) \<subseteq> mapped_space maps"
proof -
  have r: "(p, n) \<in># chunks (mem h) as fs L X" using assms(2) by (simp add: chunks_def)
  show "extent (p, n) \<subseteq> mapped_space maps" by (rule heap_invD(3)[OF assms(1) r])
  then have "extent (p, n) \<subseteq> {0<..<usize_bound}" using heap_invD(4)[OF assms(1)] by blast
  then show "0 < p" "p + n \<le> usize_bound" using extent_bounds assms(3) by blast+
qed

lemma write_arena_header_fields:
  assumes "nxt < usize_bound" "bytes < usize_bound" "off < usize_bound"
  shows "read_word (write_arena_header m a nxt bytes off) a = nxt"
    and "arena_bytes (write_arena_header m a nxt bytes off) a = bytes"
    and "arena_offset (write_arena_header m a nxt bytes off) a = off"
  using assms by (simp_all add: write_arena_header_def arena_bytes_def arena_offset_def read_write_word read_write_word_other)

lemma write_arena_header_other:
  "x < a \<or> a + header_size \<le> x \<Longrightarrow> write_arena_header m a nxt bytes off x = m x"
  by (auto simp: write_arena_header_def write_word_other)

lemma push_arena_inv:
  assumes inv: "heap_inv maps h as fs L {#(q, arena_size)#}" and al: "page_size dvd q"
  shows "heap_inv maps (push_arena q h) (q # as) fs L {#}" "keeps L h (push_arena q h)"
proof -
  let ?m = "write_arena_header (mem h) q (current_arena h) arena_size header_size"
  let ?h = "h\<lparr>mem := ?m\<rparr>"
  have out: "?m x = mem h x" if "x \<notin> extent (q, arena_size)" for x
    using that by (intro write_arena_header_other) (auto simp: extent_def)
  have q: "0 < q" using held_bound[OF inv] by simp
  have cur: "current_arena h < usize_bound" using current_arena_bound[OF inv] by (cases "current_arena h = 0") auto
  note new = write_arena_header_fields[OF cur, of arena_size header_size "mem h" q, simplified]
  have inv': "heap_inv maps ?h as fs L {#(q, arena_size)#}" by (rule heap_inv_write[OF inv, of "(q, arena_size)"]) (use out in simp_all)
  note D = heap_invD[OF inv', simplified]
  have links: "links_ok ?m q (free_lists h) (q # as) fs"
    using D(1) new al q unfolding links_ok_def by simp
  have split: "chunks ?m (q # as) fs L {#}
      = add_mset (q, header_size) (add_mset (q + header_size, arena_size - header_size) (chunks ?m as fs L {#}))"
    by (simp add: chunks_def chunk_defs new)
  have whole: "chunks ?m as fs L {#(q, arena_size)#} = add_mset (q, arena_size) (chunks ?m as fs L {#})"
    by (simp add: chunks_def)
  have "laid (mapped_space maps) (chunks ?m (q # as) fs L {#})"
    unfolding split by (rule laid_split[of _ "(q, arena_size)"]) (use D(6) whole in \<open>auto simp: extent_def\<close>)
  then show "heap_inv maps (push_arena q h) (q # as) fs L {#}"
    using links D(4,5) by (simp add: heap_inv_def push_arena_def)
  have "?m x = mem h x" if "b \<in> set L" "x \<in> extent (block_extent b)" for b x
    using live_apart[OF inv, of "(q, arena_size)" b] that by (intro out) auto
  then show "keeps L h (push_arena q h)" by (simp add: keeps_def push_arena_def)
qed

section \<open>Carving a block\<close>

lemma header_apart:
  assumes "heap_inv maps h (c # as) fs L X" "x \<in> {c..<c + header_size}"
  shows "\<And>a. a \<in> set as \<Longrightarrow> x \<notin> {a..<a + header_size}"
    and "\<And>i p. (i, p) \<in> set fs \<Longrightarrow> x \<notin> extent (p, 2 ^ (i + 3))"
    and "\<And>b. b \<in> set L \<Longrightarrow> x \<notin> extent (block_extent b)"
proof -
  have "chunks (mem h) (c # as) fs L X = add_mset (c, header_size)
      (header_chunks as + rest_chunks (mem h) (c # as) + free_chunks fs + live_chunks L + X)"
    by (simp add: chunks_def chunk_defs)
  with heap_invD(2)[OF assms(1)] have
    "\<And>q. q \<in># header_chunks as + rest_chunks (mem h) (c # as) + free_chunks fs + live_chunks L + X
        \<Longrightarrow> extent (c, header_size) \<inter> extent q = {}"
    by simp
  moreover have "x \<in> extent (c, header_size)" using assms(2) by (simp add: extent_def)
  ultimately have out: "\<And>q. q \<in># header_chunks as + rest_chunks (mem h) (c # as) + free_chunks fs + live_chunks L + X
        \<Longrightarrow> x \<notin> extent q"
    by blast
  show "x \<notin> {a..<a + header_size}" if "a \<in> set as" for a
    using out[of "(a, header_size)"] that by (simp add: header_chunks_def extent_def)
  show "x \<notin> extent (p, 2 ^ (i + 3))" if "(i, p) \<in> set fs" for i p
    by (rule out) (use that in \<open>force simp: free_chunks_def image_iff\<close>)
  show "x \<notin> extent (block_extent b)" if "b \<in> set L" for b
    by (rule out) (use that in \<open>simp add: live_chunks_def\<close>)
qed

lemma bump_inv:
  assumes inv: "heap_inv maps h (c # as) fs L {#}"
    and off: "arena_offset (mem h) c \<le> po" "po + n \<le> arena_size"
  defines "h' \<equiv> h\<lparr>mem := write_word (mem h) (c + 16) (po + n)\<rparr>"
  shows "heap_inv maps h' (c # as) fs L {#(c + po, n)#}" "keeps L h h'"
proof -
  let ?m = "write_word (mem h) (c + 16) (po + n)"
  note D = heap_invD[OF inv] note K = links_okD[OF D(1)]
  have same: "?m x = mem h x" if "x \<notin> {c + 16..<c + header_size}" for x
    using that by (intro write_word_other) auto
  have same_a: "?m x = mem h x" if "a \<in> set as" "x \<in> {a..<a + header_size}" for a x
    using header_apart(1)[OF inv _ that(1)] that(2) by (intro same) auto
  have same_f: "?m x = mem h x" if "(i, p) \<in> set fs" "x \<in> {p..<p + 8}" for i p x
  proof (rule same)
    have "(8::nat) \<le> 2 ^ (i + 3)" by (simp add: power_add)
    then have "x \<in> extent (p, 2 ^ (i + 3))" using that(2) by (auto simp: extent_def)
    then show "x \<notin> {c + 16..<c + header_size}" using header_apart(2)[OF inv _ that(1)] by auto
  qed
  have offs: "arena_offset ?m c = po + n" "arena_bytes ?m c = arena_bytes (mem h) c"
    using off(2) by (simp_all add: arena_offset_def arena_bytes_def read_write_word read_write_word_other)
  have offs_a: "arena_offset ?m a = arena_offset (mem h) a" "arena_bytes ?m a = arena_bytes (mem h) a"
    if "a \<in> set as" for a
    by (rule arena_field_cong; use same_a that in blast)+
  have "chain ?m (current_arena h) (c # as)"
  proof (subst chain_cong[of _ _ "mem h"])
    fix x y assume "x \<in> set (c # as)" "y \<in> {x..<x + 8}"
    then show "?m y = mem h y" by (cases "x = c") (auto intro: same same_a)
  qed (rule K(1))
  moreover have "chain ?m (free_lists h ! i) (class_list i fs)" if "i < class_count" for i
    using K(4)[OF that] by (subst chain_cong[of _ _ "mem h"]) (auto simp: class_list_def intro!: same_f)
  ultimately have links: "links_ok ?m (current_arena h) (free_lists h) (c # as) fs"
    using D(1) offs offs_a off K(2)[of c] by (simp add: links_ok_def)
  have rest: "rest_chunks ?m as = rest_chunks (mem h) as"
    unfolding rest_chunks_def by (intro image_mset_cong) (simp add: offs_a)
  let ?rest = "chunks (mem h) as fs L {#} + {#(c, header_size)#}"
  have before: "chunks (mem h) (c # as) fs L {#}
      = add_mset (c + arena_offset (mem h) c, arena_size - arena_offset (mem h) c) ?rest"
    by (simp add: chunks_def chunk_defs)
  have after: "chunks ?m (c # as) fs L {#(c + po, n)#}
      = add_mset (c + po, n) (add_mset (c + (po + n), arena_size - (po + n)) ?rest)"
    using rest by (simp add: chunks_def chunk_defs offs)
  have "laid (mapped_space maps) (chunks ?m (c # as) fs L {#(c + po, n)#})"
    unfolding after by (rule laid_split[OF D(6)[unfolded before]]) (use off K(2)[of c] in \<open>auto simp: extent_def\<close>)
  then show "heap_inv maps h' (c # as) fs L {#(c + po, n)#}"
    using links D(4,5) by (simp add: heap_inv_def h'_def)
  have "?m x = mem h x" if "b \<in> set L" "x \<in> extent (block_extent b)" for b x
    using header_apart(3)[OF inv _ that(1)] that(2) by (intro same) auto
  then show "keeps L h h'" by (simp add: keeps_def h'_def)
qed

lemma allocate_from_arena_inv:
  assumes inv: "heap_inv maps h as fs L {#}" and cur: "current_arena h \<noteq> 0"
    and r: "allocate_from_arena (current_arena h) (class_at i) h = Some (p, h')"
  shows "heap_inv maps h' as fs L {#(p, 2 ^ (i + 3))#}" "block_align (class_at i) dvd p" "keeps L h h'" "world h' = world h"
proof -
  let ?c = "current_arena h"
  obtain po where po: "checked_align_up (arena_offset (mem h) ?c) (2 ^ min (i + 3) 12) = Some po"
    and no: "po + 2 ^ (i + 3) \<le> arena_bytes (mem h) ?c"
    and p: "p = ?c + po" and h': "h' = h\<lparr>mem := write_word (mem h) (?c + 16) (po + 2 ^ (i + 3))\<rparr>"
    using r by (auto simp: allocate_from_arena_def class_at_def checked_add_def split: option.splits if_splits)
  note K = links_okD[OF heap_invD(1)[OF inv]]
  have c: "?c \<in> set as" by (rule current_arena_bound[OF inv cur])
  obtain as' where as: "as = ?c # as'" using chain_nonzero[OF K(1) cur] by metis
  note a = checked_align_up_Some[OF po, simplified]
  have no': "po + 2 ^ (i + 3) \<le> arena_size" using no K(2)[OF c] by simp
  show "heap_inv maps h' as fs L {#(p, 2 ^ (i + 3))#}" "keeps L h h'"
    using bump_inv[of maps h ?c as' fs L po "2 ^ (i + 3)"] inv as a(1) no' h' p by simp_all
  have "2 ^ min (i + 3) 12 dvd (2::nat) ^ 12" by (rule le_imp_power_dvd) simp
  also have "(2::nat) ^ 12 dvd ?c" using K(2)[OF c] by simp
  finally show "block_align (class_at i) dvd p" using a(2) by (simp add: class_at_def p)
  show "world h' = world h" by (simp add: h')
qed

text \<open>A fresh arena has room for a block of every class.\<close>

lemma fresh_arena_room:
  assumes "arena_offset (mem h) c = header_size" "arena_bytes (mem h) c = arena_size" "i < class_count"
  shows "allocate_from_arena c (class_at i) h \<noteq> None"
proof -
  have "checked_align_up header_size (2 ^ min (i + 3) 12) \<noteq> None"
    using power_increasing[of "min (i + 3) 12" 12 "2::nat"] by (simp add: checked_align_up_def checked_add_def)
  then obtain po where po: "checked_align_up header_size (2 ^ min (i + 3) 12) = Some po" by auto
  have "po < header_size + 2 ^ min (i + 3) 12" by (rule checked_align_up_Some[OF po]) simp
  moreover have "(2::nat) ^ min (i + 3) 12 \<le> 2 ^ 12" "(2::nat) ^ (i + 3) \<le> 2 ^ 14"
    using assms(3) by (intro power_increasing; simp)+
  ultimately have "po + 2 ^ (i + 3) \<le> arena_size" by simp
  then show ?thesis using assms po by (simp add: allocate_from_arena_def class_at_def checked_add_def)
qed

end
