(* ===== verification/Allocator_Operations.thy ===== *)
theory Allocator_Operations
  imports Allocator_Safety
begin

text \<open>
  Every operation of the allocator ends and keeps the invariant, for every page mapper that does
  what the source asks of it, and changes no byte of a live block that it was not given.
\<close>

section \<open>Blocks in transit\<close>

lemma mset_remove1_split:
  assumes "x \<in> set xs"
  obtains K where "mset xs = add_mset x K" "mset (remove1 x xs) = K"
  using assms by (metis insert_DiffM mset_remove1 set_mset_mset)

lemma claim_inv:
  assumes "heap_inv maps h as fs L {#(p, block_bytes sz align)#}" "block_ok maps (p, sz, align)"
  shows "heap_inv maps h as fs ((p, sz, align) # L) {#}"
proof -
  have "chunks (mem h) as fs ((p, sz, align) # L) {#} = chunks (mem h) as fs L {#(p, block_bytes sz align)#}"
    by (simp add: chunks_def live_chunks_def block_extent_def)
  with assms show ?thesis by (simp add: heap_inv_def)
qed

lemma retire_inv:
  assumes "heap_inv maps h as fs L {#}" "b \<in> set L"
  shows "heap_inv maps h as fs (remove1 b L) {#block_extent b#}"
proof -
  obtain K where "mset L = add_mset b K" "mset (remove1 b L) = K" using assms(2) by (rule mset_remove1_split)
  then have "chunks (mem h) as fs (remove1 b L) {#block_extent b#} = chunks (mem h) as fs L {#}"
    by (simp add: chunks_def live_chunks_def del: mset_remove1)
  then show ?thesis using assms(1) set_remove1_subset[of b L] by (auto simp: heap_inv_def)
qed

lemma class_list_Cons [simp]: "class_list i ((j, p) # fs) = (if j = i then p # class_list i fs else class_list i fs)"
  by (simp add: class_list_def)

lemma class_list_Nil [simp]: "class_list i [] = []"
  by (simp add: class_list_def)

lemma class_list_mem: "p \<in> set (class_list i fs) \<longleftrightarrow> (i, p) \<in> set fs"
  by (force simp: class_list_def)

lemma class_list_remove:
  "class_list i fs = p # ps \<Longrightarrow> class_list i (remove1 (i, p) fs) = ps"
  "j \<noteq> i \<Longrightarrow> class_list j (remove1 (i, p) fs) = class_list j fs"
  by (induction fs) (auto split: if_splits)

lemma pop_inv:
  assumes inv: "heap_inv maps h as fs L {#}" and i: "i < class_count" and nz: "free_lists h ! i \<noteq> 0"
  defines "p \<equiv> free_lists h ! i"
  shows "heap_inv maps (pop_free i h) as (remove1 (i, p) fs) L {#(p, 2 ^ (i + 3))#}"
    and "block_align (class_at i) dvd p"
proof -
  let ?fs = "remove1 (i, p) fs"
  note D = heap_invD[OF inv] note K = links_okD[OF D(1)]
  define ps where "ps = tl (class_list i fs)"
  have cl: "class_list i fs = p # ps" and chp: "chain (mem h) (read_word (mem h) p) ps"
    using chain_nonzero[OF K(4)[OF i] nz] by (simp_all add: p_def ps_def)
  have p: "(i, p) \<in> set fs" using cl by (simp flip: class_list_mem)
  then show "block_align (class_at i) dvd p" using K(5) by blast
  obtain K where "mset fs = add_mset (i, p) K" "mset ?fs = K" using p by (rule mset_remove1_split)
  then have "chunks (mem h) as ?fs L {#(p, 2 ^ (i + 3))#} = chunks (mem h) as fs L {#}"
    by (simp add: chunks_def free_chunks_def del: mset_remove1)
  moreover have "chain (mem h) ((free_lists h)[i := read_word (mem h) p] ! j) (class_list j ?fs)" if "j < class_count" for j
  proof (cases "j = i")
    case True
    then show ?thesis using K(3) that chp class_list_remove(1)[OF cl] by simp
  next
    case False
    then show ?thesis using K(4)[OF that] class_list_remove(2)[of j i p fs] by simp
  qed
  moreover have "set ?fs \<subseteq> set fs" by (rule set_remove1_subset)
  ultimately show "heap_inv maps (pop_free i h) as ?fs L {#(p, 2 ^ (i + 3))#}"
    using inv by (auto simp: heap_inv_def links_ok_def pop_free_def p_def)
qed

lemma list_head_bound:
  assumes "heap_inv maps h as fs L X" "i < class_count"
  shows "free_lists h ! i < usize_bound"
proof (cases "free_lists h ! i = 0")
  case False
  have "(i, free_lists h ! i) \<in> set fs"
    using chain_nonzero[OF links_okD(4)[OF heap_invD(1)[OF assms(1)] assms(2)] False]
    by (metis class_list_mem list.set_intros(1))
  then show ?thesis by (rule free_pointer_bound(2)[OF assms(1)])
qed simp

lemma release_inv:
  assumes inv: "heap_inv maps h as fs L {#(p, 2 ^ (i + 3))#}" and i: "i < class_count"
    and al: "block_align (class_at i) dvd p"
  shows "heap_inv maps (release_small p i h) as ((i, p) # fs) L {#}" "keeps L h (release_small p i h)"
proof -
  let ?m = "write_word (mem h) p (free_lists h ! i)" and ?h = "h\<lparr>mem := write_word (mem h) p (free_lists h ! i)\<rparr>"
  have big: "(8::nat) \<le> 2 ^ (i + 3)" by (simp add: power_add)
  have out: "?m x = mem h x" if "x \<notin> extent (p, 2 ^ (i + 3))" for x
    using that big by (intro write_word_other) (auto simp: extent_def)
  have inv': "heap_inv maps ?h as fs L {#(p, 2 ^ (i + 3))#}"
    by (rule heap_inv_write[OF inv, of "(p, 2 ^ (i + 3))"]) (use out in simp_all)
  note D = heap_invD[OF inv', simplified] note K = links_okD[OF D(1)]
  have p: "0 < p" using held_bound(1)[OF inv, of p "2 ^ (i + 3)"] by simp
  have rd: "read_word ?m p = free_lists h ! i" by (rule read_write_word[OF list_head_bound[OF inv i]])
  have "chain ?m ((free_lists h)[i := p] ! j) (class_list j ((i, p) # fs))" if "j < class_count" for j
    using K(3) K(4)[OF that] p rd that by (cases "j = i") simp_all
  moreover have "chunks ?m as ((i, p) # fs) L {#} = chunks ?m as fs L {#(p, 2 ^ (i + 3))#}"
    by (simp add: chunks_def free_chunks_def)
  ultimately show "heap_inv maps (release_small p i h) as ((i, p) # fs) L {#}"
    using inv' i al by (simp add: heap_inv_def links_ok_def release_small_def)
  have "?m x = mem h x" if "b \<in> set L" "x \<in> extent (block_extent b)" for b x
    using live_apart[OF inv, of "(p, 2 ^ (i + 3))" b] that by (intro out) auto
  then show "keeps L h (release_small p i h)" by (simp add: keeps_def release_small_def)
qed

section \<open>The page mapper\<close>

text \<open>
  What the source asks of a page mapper, for a view \<open>mp\<close> of its state as the set of the mappings
  it has handed out: a new mapping is page-aligned, inside the address space and disjoint from
  the others, and only its bytes may change; a mapping that is given back is gone.
\<close>

definition mapping_ok :: "(nat \<times> nat) set \<Rightarrow> memory \<Rightarrow> nat \<Rightarrow> nat \<Rightarrow> (nat \<times> nat) set \<Rightarrow> memory \<Rightarrow> bool" where
  "mapping_ok maps m n p maps' m' \<longleftrightarrow>
     (if p = 0 then maps' = maps \<and> m' = m
      else page_size dvd p \<and> p + n \<le> usize_bound \<and> extent (p, n) \<inter> mapped_space maps = {}
        \<and> maps' = insert (p, n) maps \<and> (\<forall>x. x \<notin> extent (p, n) \<longrightarrow> m' x = m x))"

definition mapper_ok :: "'w page_mapper \<Rightarrow> ('w \<Rightarrow> (nat \<times> nat) set) \<Rightarrow> bool" where
  "mapper_ok M mp \<longleftrightarrow>
     (\<forall>w. mp (snd (allocation_permitted M w)) = mp w)
     \<and> (\<forall>n w m p w' m'. 0 < n \<and> page_size dvd n \<and> map_pages M n (w, m) = (p, w', m')
          \<longrightarrow> mapping_ok (mp w) m n p (mp w') m')
     \<and> (\<forall>p n w. (p, n) \<in> mp w \<longrightarrow> mp (unmap_pages M p n w) = mp w - {(p, n)})"

lemma mapper_okD:
  assumes "mapper_ok M mp"
  shows "mp (snd (allocation_permitted M w)) = mp w"
    and "0 < n \<Longrightarrow> page_size dvd n \<Longrightarrow> map_pages M n (w, m) = (p, w', m') \<Longrightarrow> mapping_ok (mp w) m n p (mp w') m'"
    and "(p, n) \<in> mp w \<Longrightarrow> mp (unmap_pages M p n w) = mp w - {(p, n)}"
  using assms unfolding mapper_ok_def by blast+

lemma block_ok_insert: "block_ok maps b \<Longrightarrow> block_ok (insert r maps) b"
  by (auto simp: block_ok_def split: option.splits allocation_kind.splits)

lemma mapped_space_insert [simp]: "mapped_space (insert r maps) = extent r \<union> mapped_space maps"
  by (auto simp: mapped_space_def)

lemma link_space_mapped:
  assumes "heap_inv maps h as fs L X" "x \<in> link_space as fs"
  shows "x \<in> mapped_space maps"
proof -
  obtain q where "q \<in># header_chunks as + free_chunks fs" "x \<in> extent q" using assms(2) by (rule link_space_chunk)
  then show ?thesis using heap_invD(3)[OF assms(1), of q] by (auto simp: chunks_def)
qed

lemma live_mapped:
  assumes "heap_inv maps h as fs L X" "b \<in> set L"
  shows "extent (block_extent b) \<subseteq> mapped_space maps"
  by (rule heap_invD(3)[OF assms(1)]) (use assms(2) in \<open>simp add: chunks_def live_chunks_def\<close>)

lemma map_into_inv:
  assumes M: "mapper_ok M mp" and inv: "heap_inv (mp (world h)) h as fs L {#}"
    and n: "0 < n" "page_size dvd n" and r: "map_into M n h = (p, h')"
  shows "keeps L h h'" "p = 0 \<Longrightarrow> heap_inv (mp (world h')) h' as fs L {#}"
    and "p \<noteq> 0 \<Longrightarrow> heap_inv (mp (world h')) h' as fs L {#(p, n)#} \<and> page_size dvd p \<and> (p, n) \<in> mp (world h')"
    and "current_arena h' = current_arena h"
proof -
  obtain w' m' where mp: "map_pages M n (world h, mem h) = (p, w', m')" and h': "h' = h\<lparr>world := w', mem := m'\<rparr>"
    using r by (auto simp: map_into_def Let_def split: prod.splits)
  have law: "mapping_ok (mp (world h)) (mem h) n p (mp w') m'" by (rule mapper_okD(2)[OF M n mp])
  have same: "m' x = mem h x" if "x \<in> mapped_space (mp (world h))" for x
    using law that by (auto simp: mapping_ok_def split: if_splits)
  show "keeps L h h'" unfolding keeps_def h' using same live_mapped[OF inv] by (simp add: subset_iff)
  show "current_arena h' = current_arena h" by (simp add: h')
  show "heap_inv (mp (world h')) h' as fs L {#}" if "p = 0"
    using that law inv by (simp add: h' heap_inv_def mapping_ok_def)
  have inv': "heap_inv (mp (world h)) (h\<lparr>mem := m'\<rparr>) as fs L {#}"
    by (rule heap_inv_mem[OF inv]) (use same link_space_mapped[OF inv] in blast)
  show "heap_inv (mp (world h')) h' as fs L {#(p, n)#} \<and> page_size dvd p \<and> (p, n) \<in> mp (world h')" if nz: "p \<noteq> 0"
  proof -
    have l: "page_size dvd p" "p + n \<le> usize_bound" "extent (p, n) \<inter> mapped_space (mp (world h)) = {}"
      "mp w' = insert (p, n) (mp (world h))"
      using law nz by (simp_all add: mapping_ok_def)
    have "chunks m' as fs L {#(p, n)#} = add_mset (p, n) (chunks m' as fs L {#})" by (simp add: chunks_def)
    moreover have "extent (p, n) \<inter> extent q = {}" if "q \<in># chunks m' as fs L {#}" for q
      using heap_invD(3)[OF inv', of q] that l(3) by auto
    moreover have "laid (mapped_space (mp w')) (chunks m' as fs L {#})"
      using laid_mono[OF heap_invD(6)[OF inv'], of "mapped_space (mp w')"] by (simp add: l(4))
    ultimately have "laid (mapped_space (mp w')) (chunks m' as fs L {#(p, n)#})" by (simp add: laid_add l(4))
    moreover have "extent (p, n) \<subseteq> {0<..<usize_bound}" using l(2) nz by (auto simp: extent_def)
    ultimately show ?thesis using inv' l by (auto simp: heap_inv_def h' intro: block_ok_insert)
  qed
qed

section \<open>The operations\<close>

definition heap_ok :: "('w \<Rightarrow> (nat \<times> nat) set) \<Rightarrow> 'w heap \<Rightarrow> block list \<Rightarrow> bool" where
  "heap_ok mp h L \<longleftrightarrow> (\<exists>as fs. heap_inv (mp (world h)) h as fs L {#})"

text \<open>
  The outcome of an allocation: other live blocks keep their bytes, and the result is null or
  the address of an extent of \<open>n\<close> bytes; it is null only when the mapper can fail.
\<close>

definition carved :: "'w page_mapper \<Rightarrow> ('w \<Rightarrow> (nat \<times> nat) set) \<Rightarrow> block list \<Rightarrow> 'w heap \<Rightarrow> nat \<Rightarrow> nat \<Rightarrow> nat \<Rightarrow> 'w heap \<Rightarrow> bool" where
  "carved M mp L h n k p h' \<longleftrightarrow>
     keeps L h h'
     \<and> (if p = 0 then heap_ok mp h' L \<and> (\<exists>n wm. fst (map_pages M n wm) = 0)
        else k dvd p \<and> (\<exists>as fs. heap_inv (mp (world h')) h' as fs L {#(p, n)#}))"

lemma carved_trans: "keeps L h h' \<Longrightarrow> carved M mp L h' n k p h'' \<Longrightarrow> carved M mp L h n k p h''"
  by (auto simp: carved_def keeps_def)

lemma arena_carved:
  assumes inv: "heap_inv (mp (world h)) h as fs L {#}" and cur: "current_arena h \<noteq> 0" and i: "i < class_count"
    and r: "allocate_from_arena (current_arena h) (class_at i) h = Some (p, h')"
  shows "carved M mp L h (2 ^ (i + 3)) (block_align (class_at i)) p h'"
proof -
  note a = allocate_from_arena_inv[OF inv cur r]
  have "0 < p" using held_bound(1)[OF a(1), of p "2 ^ (i + 3)"] by simp
  then show ?thesis unfolding carved_def using a by (auto simp del: One_nat_def)
qed

lemma arena_loop_carved:
  assumes M: "mapper_ok M mp" and inv: "heap_inv (mp (world h)) h as fs L {#}" and i: "i < class_count"
  shows "\<exists>p h'. arena_loop M (class_at i) h = Some (p, h')
           \<and> carved M mp L h (2 ^ (i + 3)) (block_align (class_at i)) p h'"
proof -
  let ?c = "class_at i"
  let ?attempt = "\<lambda>h. if current_arena h \<noteq> 0 then allocate_from_arena (current_arena h) ?c h else None"
  show ?thesis
  proof (cases "?attempt h")
    case (Some r)
    then obtain p h' where r: "current_arena h \<noteq> 0" "allocate_from_arena (current_arena h) ?c h = Some (p, h')"
      by (cases r) (auto split: if_splits)
    have "arena_loop M ?c h = Some (p, h')" by (subst arena_loop.simps) (simp add: r)
    then show ?thesis using arena_carved[where mp = mp, OF inv r(1) i r(2)] by blast
  next
    case None
    obtain q h1 where q: "map_into M arena_size h = (q, h1)" by (cases "map_into M arena_size h")
    have loop: "arena_loop M ?c h = (if q = 0 then Some (0, h1) else arena_loop M ?c (push_arena q h1))"
      by (subst arena_loop.simps, subst None) (simp add: q)
    have "(0::nat) < arena_size" "page_size dvd (arena_size::nat)" by simp_all
    note m = map_into_inv[OF M inv this q]
    show ?thesis
    proof (cases "q = 0")
      case True
      have "fst (map_pages M arena_size (world h, mem h)) = 0" using q True by (auto simp: map_into_def split: prod.splits)
      then have "carved M mp L h (2 ^ (i + 3)) (block_align ?c) 0 h1"
        unfolding carved_def heap_ok_def using m(1) m(2)[OF True] by (metis (mono_tags))
      then show ?thesis using loop True by auto
    next
      case False
      let ?h2 = "push_arena q h1"
      from m(3)[OF False] have q1: "heap_inv (mp (world h1)) h1 as fs L {#(q, arena_size)#}" "page_size dvd q" by auto
      have w2: "world ?h2 = world h1" and c2: "current_arena ?h2 = q" by (simp_all add: push_arena_def)
      have cur1: "current_arena h1 < usize_bound"
        using current_arena_bound(2)[OF q1(1)] by (cases "current_arena h1 = 0") auto
      note new = write_arena_header_fields[OF cur1, of arena_size header_size "mem h1" q, simplified]
      have inv2: "heap_inv (mp (world ?h2)) ?h2 (q # as) fs L {#}" unfolding w2 by (rule push_arena_inv(1)[OF q1])
      have k2: "keeps L h ?h2" using m(1) push_arena_inv(2)[OF q1] by (rule keeps_trans)
      have "allocate_from_arena q ?c ?h2 \<noteq> None"
        by (rule fresh_arena_room) (use new i in \<open>simp_all add: push_arena_def\<close>)
      then obtain p h' where r: "allocate_from_arena (current_arena ?h2) ?c ?h2 = Some (p, h')" by (auto simp: c2)
      have "current_arena ?h2 \<noteq> 0" using False by (simp add: c2)
      then have "arena_loop M ?c ?h2 = Some (p, h')" "carved M mp L ?h2 (2 ^ (i + 3)) (block_align ?c) p h'"
        using arena_carved[where mp = mp, OF inv2 _ i r] by (subst arena_loop.simps, simp_all add: r)
      then show ?thesis using loop False carved_trans[OF k2] by auto
    qed
  qed
qed

lemma allocate_small_carved:
  assumes M: "mapper_ok M mp" and inv: "heap_inv (mp (world h)) h as fs L {#}" and i: "i < class_count"
  shows "\<exists>p h'. allocate_small M (class_at i) h = Some (p, h')
           \<and> carved M mp L h (2 ^ (i + 3)) (block_align (class_at i)) p h'"
proof (cases "free_lists h ! i = 0")
  case True
  then show ?thesis using arena_loop_carved[OF M inv i] by (simp add: allocate_small_def class_at_def)
next
  case False
  have "carved M mp L h (2 ^ (i + 3)) (block_align (class_at i)) (free_lists h ! i) (pop_free i h)"
    using pop_inv[OF inv i False] False by (auto simp: carved_def keeps_def pop_free_def)
  then show ?thesis using False by (simp add: allocate_small_def class_at_def)
qed

definition own :: "nat \<Rightarrow> nat \<Rightarrow> nat \<Rightarrow> block list \<Rightarrow> block list" where
  "own p sz align L = (if p = 0 then L else (p, sz, align) # L)"

definition null_reason :: "'w page_mapper \<Rightarrow> nat \<Rightarrow> nat \<Rightarrow> 'w heap \<Rightarrow> bool" where
  "null_reason M sz align h \<longleftrightarrow>
     \<not> fst (allocation_permitted M (world h)) \<or> classify sz align = None
     \<or> (\<exists>n wm. fst (map_pages M n wm) = 0)"

lemma carved_block:
  assumes "carved M mp L h n k p h'" "n = block_bytes sz align"
    and "\<And>as fs. p \<noteq> 0 \<Longrightarrow> k dvd p \<Longrightarrow> heap_inv (mp (world h')) h' as fs L {#(p, n)#} \<Longrightarrow> block_ok (mp (world h')) (p, sz, align)"
  shows "keeps L h h' \<and> heap_ok mp h' (own p sz align L) \<and> (p = 0 \<longrightarrow> (\<exists>n wm. fst (map_pages M n wm) = 0))"
proof (cases "p = 0")
  case True
  then show ?thesis using assms(1) by (auto simp: carved_def own_def)
next
  case False
  then obtain as fs where "k dvd p" "heap_inv (mp (world h')) h' as fs L {#(p, n)#}" "keeps L h h'"
    using assms(1) by (auto simp: carved_def)
  then show ?thesis
    using claim_inv[of "mp (world h')" h' as fs L p sz align] assms(2,3) False by (auto simp: own_def heap_ok_def)
qed

lemma allocate_ok:
  assumes M: "mapper_ok M mp" and ok: "heap_ok mp h L"
  shows "\<exists>p h'. allocate M sz align h = Some (p, h') \<and> keeps L h h' \<and> heap_ok mp h' (own p sz align L)
           \<and> (p = 0 \<longrightarrow> null_reason M sz align h)"
proof -
  obtain permitted w where pw: "allocation_permitted M (world h) = (permitted, w)" by fastforce
  let ?h = "h\<lparr>world := w\<rparr>"
  obtain as fs where "heap_inv (mp (world h)) h as fs L {#}" using ok by (auto simp: heap_ok_def)
  moreover have "mp w = mp (world h)" using mapper_okD(1)[OF M, of "world h"] by (simp add: pw)
  ultimately have inv: "heap_inv (mp (world ?h)) ?h as fs L {#}" by (simp add: heap_inv_def)
  have k: "keeps L h ?h" by (simp add: keeps_def)
  show ?thesis
  proof (cases "permitted \<and> classify sz align \<noteq> None")
    case False
    then have "allocate M sz align h = Some (0, ?h)" "null_reason M sz align h"
      by (auto simp: allocate_def null_reason_def pw Let_def)
    then show ?thesis using inv k by (auto simp: own_def heap_ok_def)
  next
    case True
    then obtain kind where kind: "classify sz align = Some kind" by auto
    have "\<exists>p h'. allocate M sz align h = Some (p, h') \<and>
       keeps L ?h h' \<and> heap_ok mp h' (own p sz align L) \<and> (p = 0 \<longrightarrow> (\<exists>n wm. fst (map_pages M n wm) = 0))"
    proof (cases kind)
      case (Small c)
      obtain i where i: "i < class_count" "c = class_at i" using classify_Small[OF kind[unfolded Small]] by metis
      have bb: "2 ^ (i + 3) = block_bytes sz align" by (simp add: block_bytes_def kind Small kind_size_def i class_at_def)
      obtain p h' where r: "allocate_small M c ?h = Some (p, h')"
        and c: "carved M mp L ?h (2 ^ (i + 3)) (block_align (class_at i)) p h'"
        using allocate_small_carved[OF M inv i(1)] i(2) by blast
      have "allocate M sz align h = Some (p, h')" using True r by (simp add: allocate_def Let_def pw kind Small)
      moreover note carved_block[OF c bb]
      ultimately show ?thesis by (auto simp: block_ok_def kind Small i(2))
    next
      case (Direct bytes)
      note d = classify_Direct[OF kind[unfolded Direct]]
      have bb: "bytes = block_bytes sz align" by (simp add: block_bytes_def kind Direct kind_size_def)
      obtain p h' where r: "map_into M bytes ?h = (p, h')" by (cases "map_into M bytes ?h")
      note m = map_into_inv[OF M inv d(3,1) r]
      have "allocate M sz align h = Some (p, h')" using True r by (simp add: allocate_def Let_def pw kind Direct)
      moreover have "keeps L ?h h' \<and> heap_ok mp h' (own p sz align L) \<and> (p = 0 \<longrightarrow> (\<exists>n wm. fst (map_pages M n wm) = 0))"
      proof (cases "p = 0")
        case True
        then have "fst (map_pages M bytes (world ?h, mem ?h)) = 0" using r by (auto simp: map_into_def split: prod.splits)
        then show ?thesis using m(1,2) True by (auto simp: own_def heap_ok_def)
      next
        case False
        then have "heap_inv (mp (world h')) h' as fs ((p, sz, align) # L) {#}"
          using m(3) by (intro claim_inv) (auto simp: bb block_ok_def kind Direct)
        then show ?thesis using m(1) False by (auto simp: own_def heap_ok_def)
      qed
      ultimately show ?thesis by blast
    qed
    then show ?thesis using keeps_trans[OF k] unfolding null_reason_def by blast
  qed
qed

lemma block_okD:
  assumes "block_ok maps (p, sz, align)"
  shows "0 < sz" "sz \<le> block_bytes sz align" "align dvd p"
proof -
  obtain kind where kind: "classify sz align = Some kind" using assms by (auto simp: block_ok_def split: option.splits)
  show "0 < sz" "sz \<le> block_bytes sz align" using classify_size[OF kind] by (simp_all add: block_bytes_def kind)
  show "align dvd p"
  proof (cases kind)
    case (Small c)
    then obtain i where "c = class_at i" "align dvd 2 ^ min (i + 3) 12" using classify_Small[of sz align c] kind by metis
    then show ?thesis using assms kind Small by (auto simp: block_ok_def class_at_def intro: dvd_trans)
  next
    case (Direct bytes)
    then show ?thesis using assms kind classify_Direct(4)[of sz align bytes] by (auto simp: block_ok_def intro: dvd_trans)
  qed
qed

lemma mapped_space_minus:
  "X \<subseteq> mapped_space maps \<Longrightarrow> X \<inter> extent r = {} \<Longrightarrow> X \<subseteq> mapped_space (maps - {r})"
  unfolding mapped_space_def by blast

lemma unmap_inv:
  assumes inv: "heap_inv maps h as fs L {#(p, n)#}"
  shows "heap_inv (maps - {(p, n)}) (h\<lparr>world := w\<rparr>) as fs L {#}"
proof -
  have split: "chunks (mem h) as fs L {#(p, n)#} = add_mset (p, n) (chunks (mem h) as fs L {#})" by (simp add: chunks_def)
  note D = heap_invD[OF inv] note la = D(6)[unfolded split laid_add]
  have "extent q \<subseteq> mapped_space (maps - {(p, n)})" if "q \<in># chunks (mem h) as fs L {#}" for q
    using la that laidD(2)[of "mapped_space maps" "chunks (mem h) as fs L {#}" q] by (intro mapped_space_minus) auto
  then have "laid (mapped_space (maps - {(p, n)})) (chunks (mem h) as fs L {#})" using la by (simp add: laid_def)
  moreover have "block_ok (maps - {(p, n)}) b" if b: "b \<in> set L" for b
  proof -
    obtain q sz align where bq: "b = (q, sz, align)" by (cases b)
    note ok = D(5)[OF b, unfolded bq]
    have "q \<in> extent (block_extent b)" using block_okD(1,2)[OF ok] by (simp add: extent_def block_extent_def bq)
    then have "q \<notin> extent (p, n)" using live_apart[OF inv _ b, of "(p, n)"] by auto
    moreover have "classify sz align = Some (Direct n) \<Longrightarrow> 0 < n" by (rule classify_Direct(3))
    ultimately show ?thesis using ok unfolding bq
      by (auto simp: block_ok_def extent_def split: option.splits allocation_kind.splits)
  qed
  moreover have "mapped_space (maps - {(p, n)}) \<subseteq> {0<..<usize_bound}"
    using D(4) unfolding mapped_space_def by blast
  ultimately show ?thesis using D(1) by (simp add: heap_inv_def)
qed

lemma live_nonzero:
  assumes "heap_inv maps h as fs L X" "(p, sz, align) \<in> set L"
  shows "0 < p" "p + block_bytes sz align \<le> usize_bound"
proof -
  note ok = block_okD[OF heap_invD(5)[OF assms]]
  have "extent (p, block_bytes sz align) \<subseteq> {0<..<usize_bound}"
    using live_mapped[OF assms] heap_invD(4)[OF assms(1)] by (auto simp: block_extent_def)
  then show "0 < p" "p + block_bytes sz align \<le> usize_bound" using extent_bounds ok(1,2) by (metis le_zero_eq neq0_conv)+
qed

lemma keeps_subset: "keeps L h h' \<Longrightarrow> set K \<subseteq> set L \<Longrightarrow> keeps K h h'"
  by (auto simp: keeps_def)

lemma deallocate_ok:
  assumes M: "mapper_ok M mp" and ok: "heap_ok mp h L" and b: "(p, sz, align) \<in> set L"
  shows "heap_ok mp (deallocate M p sz align h) (remove1 (p, sz, align) L)
    \<and> keeps (remove1 (p, sz, align) L) h (deallocate M p sz align h)"
proof -
  let ?L = "remove1 (p, sz, align) L"
  obtain as fs where inv: "heap_inv (mp (world h)) h as fs L {#}" using ok by (auto simp: heap_ok_def)
  note p = live_nonzero[OF inv b] note bo = heap_invD(5)[OF inv b]
  have inv': "heap_inv (mp (world h)) h as fs ?L {#(p, block_bytes sz align)#}"
    using retire_inv[OF inv b] by (simp add: block_extent_def)
  obtain kind where kind: "classify sz align = Some kind" using bo by (auto simp: block_ok_def split: option.splits)
  show ?thesis
  proof (cases kind)
    case (Small c)
    obtain i where i: "i < class_count" "c = class_at i" using classify_Small[OF kind[unfolded Small]] by metis
    have d: "deallocate M p sz align h = release_small p i h"
      using p(1) by (simp add: deallocate_def kind Small i(2) class_at_def)
    have "heap_inv (mp (world h)) h as fs ?L {#(p, 2 ^ (i + 3))#}" "block_align (class_at i) dvd p"
      using inv' bo by (simp_all add: block_bytes_def block_ok_def kind Small i(2) kind_size_def class_at_def)
    note r = release_inv[OF this(1) i(1) this(2)]
    have "world (release_small p i h) = world h" by (simp add: release_small_def)
    then show ?thesis unfolding d heap_ok_def using r by metis
  next
    case (Direct n)
    have d: "deallocate M p sz align h = h\<lparr>world := unmap_pages M p n (world h)\<rparr>"
      using p(1) by (simp add: deallocate_def kind Direct)
    have maps: "mp (unmap_pages M p n (world h)) = mp (world h) - {(p, n)}"
      by (rule mapper_okD(3)[OF M]) (use bo in \<open>simp add: block_ok_def kind Direct\<close>)
    have "heap_inv (mp (world h)) h as fs ?L {#(p, n)#}"
      using inv' by (simp add: block_bytes_def kind Direct kind_size_def)
    from unmap_inv[OF this, of "unmap_pages M p n (world h)"]
    have "heap_ok mp (deallocate M p sz align h) ?L" by (auto simp: heap_ok_def d maps)
    then show ?thesis by (simp add: d keeps_def)
  qed
qed

lemma relabel_ok:
  assumes ok: "heap_ok mp h L" and b: "(p, sz, align) \<in> set L" and same: "classify sz' align = classify sz align"
  shows "heap_ok mp h ((p, sz', align) # remove1 (p, sz, align) L)"
proof -
  obtain as fs where inv: "heap_inv (mp (world h)) h as fs L {#}" using ok by (auto simp: heap_ok_def)
  have "block_bytes sz' align = block_bytes sz align" by (simp add: block_bytes_def same)
  then have inv': "heap_inv (mp (world h)) h as fs (remove1 (p, sz, align) L) {#(p, block_bytes sz' align)#}"
    using retire_inv[OF inv b] by (simp add: block_extent_def)
  have "block_ok (mp (world h)) (p, sz', align)" using heap_invD(5)[OF inv b] by (simp add: block_ok_def same)
  from claim_inv[OF inv' this] show ?thesis unfolding heap_ok_def by blast
qed

text \<open>A client may write inside a live block.\<close>

lemma write_ok:
  assumes ok: "heap_ok mp h L" and b: "(p, sz, align) \<in> set L"
    and out: "\<And>x. x \<notin> {p..<p + sz} \<Longrightarrow> m x = mem h x"
  shows "heap_ok mp (h\<lparr>mem := m\<rparr>) L" "keeps (remove1 (p, sz, align) L) h (h\<lparr>mem := m\<rparr>)"
proof -
  obtain as fs where inv: "heap_inv (mp (world h)) h as fs L {#}" using ok by (auto simp: heap_ok_def)
  have sz: "sz \<le> block_bytes sz align" by (rule block_okD(2)[OF heap_invD(5)[OF inv b]])
  let ?r = "block_extent (p, sz, align)"
  have out': "m x = mem h x" if "x \<notin> extent ?r" for x
    using that sz by (intro out) (auto simp: extent_def block_extent_def)
  have "heap_inv (mp (world h)) (h\<lparr>mem := m\<rparr>) as fs L {#}"
    by (rule heap_inv_write[OF inv, of ?r]) (use b out' in \<open>simp_all add: live_chunks_def\<close>)
  then show "heap_ok mp (h\<lparr>mem := m\<rparr>) L" unfolding heap_ok_def by auto
  have "extent (block_extent c) \<inter> extent ?r = {}" if "c \<in> set (remove1 (p, sz, align) L)" for c
    using live_apart[OF retire_inv[OF inv b], of ?r c] that by simp
  then show "keeps (remove1 (p, sz, align) L) h (h\<lparr>mem := m\<rparr>)" using out' unfolding keeps_def by fastforce
qed

definition reown :: "block \<Rightarrow> nat \<Rightarrow> nat \<Rightarrow> block list \<Rightarrow> block list" where
  "reown b sz' q L =
     (if sz' = 0 then remove1 b L else if q = 0 then L else (q, sz', snd (snd b)) # remove1 b L)"

lemma move_block_ok:
  assumes M: "mapper_ok M mp" and ok: "heap_ok mp h L" and b: "(p, sz, align) \<in> set L"
  shows "\<exists>q h'. move_block M p sz sz' align h = Some (q, h')
    \<and> (if q = 0 then heap_ok mp h' L \<and> keeps L h h'
       else heap_ok mp h' ((q, sz', align) # remove1 (p, sz, align) L) \<and> keeps (remove1 (p, sz, align) L) h h'
         \<and> (\<forall>k < min sz sz'. mem h' (q + k) = mem h (p + k)))"
proof -
  let ?b = "(p, sz, align)" and ?c = "\<lambda>q. (q, sz', align)"
  obtain q h1 where a: "allocate M sz' align h = Some (q, h1)" "keeps L h h1" "heap_ok mp h1 (own q sz' align L)"
    using allocate_ok[OF M ok] by blast
  show ?thesis
  proof (cases "q = 0")
    case True
    then show ?thesis using a by (auto simp: move_block_def own_def)
  next
    case False
    let ?m = "copy_nonoverlapping (mem h1) p q (min sz sz')"
    let ?h2 = "h1\<lparr>mem := ?m\<rparr>" and ?h3 = "deallocate M p sz align (h1\<lparr>mem := ?m\<rparr>)"
    have ok1: "heap_ok mp h1 (?c q # L)" using a(3) False by (simp add: own_def)
    have out: "?m x = mem h1 x" if "x \<notin> {q..<q + sz'}" for x
      using that by (auto simp: copy_nonoverlapping_def moved_def)
    have w: "heap_ok mp ?h2 (?c q # L)" "keeps L h1 ?h2"
      using write_ok[OF ok1, of q sz' align ?m] out by simp_all
    obtain as fs where inv1: "heap_inv (mp (world h1)) h1 as fs (?c q # L) {#}" using ok1 by (auto simp: heap_ok_def)
    have szs: "0 < sz'" "sz' \<le> block_bytes sz' align" using block_okD[OF heap_invD(5)[OF inv1, of "?c q"]] by simp_all
    have szb: "0 < sz" "sz \<le> block_bytes sz align" using block_okD[OF heap_invD(5)[OF inv1, of ?b]] b by simp_all
    have dis: "extent (block_extent ?b) \<inter> extent (block_extent (?c q)) = {}"
      using live_apart[OF retire_inv[OF inv1, of "?c q"], of "block_extent (?c q)" ?b] b by simp
    have "?b \<noteq> ?c q" using dis szs by (auto simp: block_extent_def extent_def)
    then have rem: "remove1 ?b (?c q # L) = ?c q # remove1 ?b L" by (simp only: remove1.simps if_False not_sym)
    have d: "heap_ok mp ?h3 (?c q # remove1 ?b L)" "keeps (?c q # remove1 ?b L) ?h2 ?h3"
      using deallocate_ok[OF M w(1), of p sz align] b unfolding rem by simp_all
    have "mem ?h3 (q + k) = mem h (p + k)" if k: "k < min sz sz'" for k
    proof -
      have "q + k \<in> extent (block_extent (?c q))" using k szs by (simp add: block_extent_def extent_def)
      then have "mem ?h3 (q + k) = mem ?h2 (q + k)" using d(2) by (simp add: keeps_def)
      also have "\<dots> = mem h1 (p + k)" using k by (simp add: copy_nonoverlapping_def moved_def)
      also have "p + k \<in> extent (block_extent ?b)" using k szb by (simp add: block_extent_def extent_def)
      then have "mem h1 (p + k) = mem h (p + k)" using a(2) b by (simp add: keeps_def)
      finally show ?thesis .
    qed
    moreover have "keeps (remove1 ?b L) h ?h3"
    proof -
      have sub: "set (remove1 ?b L) \<subseteq> set L" by (rule set_remove1_subset)
      have "keeps (remove1 ?b L) h ?h2" using keeps_subset[OF keeps_trans[OF a(2) w(2)] sub] .
      also have "keeps (remove1 ?b L) ?h2 ?h3" using d(2) by (simp add: keeps_def)
      finally show ?thesis .
    qed
    moreover have "move_block M p sz sz' align h = Some (q, ?h3)" using False by (simp add: move_block_def a(1))
    ultimately show ?thesis using d(1) False by auto
  qed
qed

lemma resize_in_place_same:
  "resize_in_place p sz sz' align \<Longrightarrow> classify sz' align = classify sz align"
  by (auto simp: resize_in_place_def split: if_splits option.splits)

lemma reallocate_ok:
  assumes M: "mapper_ok M mp" and ok: "heap_ok mp h L" and b: "(p, sz, align) \<in> set L"
  shows "\<exists>q h'. reallocate M p sz sz' align h = Some (q, h')
    \<and> heap_ok mp h' (reown (p, sz, align) sz' q L) \<and> keeps (remove1 (p, sz, align) L) h h'
    \<and> (q = 0 \<and> sz' \<noteq> 0 \<longrightarrow> keeps L h h')
    \<and> (q \<noteq> 0 \<longrightarrow> (\<forall>k < min sz sz'. mem h' (q + k) = mem h (p + k)))"
proof -
  obtain as fs where inv: "heap_inv (mp (world h)) h as fs L {#}" using ok by (auto simp: heap_ok_def)
  have p: "0 < p" by (rule live_nonzero(1)[OF inv b])
  obtain kind where kind: "classify sz align = Some kind"
    using heap_invD(5)[OF inv b] by (auto simp: block_ok_def split: option.splits)
  have sub: "set (remove1 (p, sz, align) L) \<subseteq> set L" by (rule set_remove1_subset)
  consider "sz' = 0" | "sz' \<noteq> 0" "classify sz' align = None" | "sz' \<noteq> 0" "classify sz' align = Some kind"
    | kind' where "sz' \<noteq> 0" "classify sz' align = Some kind'" "kind' \<noteq> kind"
    by (metis option.exhaust)
  then show ?thesis
  proof cases
    case 1
    then show ?thesis using deallocate_ok[OF M ok b] p by (simp add: reallocate_def reown_def)
  next
    case 2
    then show ?thesis using ok p by (simp add: reallocate_def kind reown_def)
  next
    case 3
    then have "heap_ok mp h ((p, sz', align) # remove1 (p, sz, align) L)" by (intro relabel_ok[OF ok b]) (simp add: kind)
    then show ?thesis using 3 p by (simp add: reallocate_def kind reown_def)
  next
    case 4
    then have r: "reallocate M p sz sz' align h = move_block M p sz sz' align h"
      using p by (simp add: reallocate_def kind)
    obtain q h' where m: "move_block M p sz sz' align h = Some (q, h')"
      "if q = 0 then heap_ok mp h' L \<and> keeps L h h'
       else heap_ok mp h' ((q, sz', align) # remove1 (p, sz, align) L) \<and> keeps (remove1 (p, sz, align) L) h h'
         \<and> (\<forall>k < min sz sz'. mem h' (q + k) = mem h (p + k))"
      using move_block_ok[OF M ok b] by blast
    show ?thesis
    proof (cases "q = 0")
      case True
      then show ?thesis using r m 4(1) keeps_subset[OF _ sub, of h h'] by (simp add: reown_def)
    next
      case False
      then show ?thesis using r m 4(1) by (simp add: reown_def)
    qed
  qed
qed

lemma alloc_zeroed_ok:
  assumes M: "mapper_ok M mp" and ok: "heap_ok mp h L"
  shows "\<exists>p h'. alloc_zeroed M sz align h = Some (p, h') \<and> keeps L h h' \<and> heap_ok mp h' (own p sz align L)
           \<and> (p \<noteq> 0 \<longrightarrow> (\<forall>k < sz. mem h' (p + k) = 0))"
proof -
  obtain p h1 where a: "allocate M sz align h = Some (p, h1)" "keeps L h h1" "heap_ok mp h1 (own p sz align L)"
    using allocate_ok[OF M ok] by blast
  show ?thesis
  proof (cases "p = 0")
    case True
    then show ?thesis using a by (simp add: alloc_zeroed_def)
  next
    case False
    let ?m = "filled (mem h1) p 0 sz"
    have ok1: "heap_ok mp h1 ((p, sz, align) # L)" using a(3) False by (simp add: own_def)
    have out: "?m x = mem h1 x" if "x \<notin> {p..<p + sz}" for x using that by (auto simp: filled_def)
    have "heap_ok mp (h1\<lparr>mem := ?m\<rparr>) ((p, sz, align) # L)" "keeps L h1 (h1\<lparr>mem := ?m\<rparr>)"
      using write_ok[OF ok1, of p sz align ?m] out by simp_all
    moreover note keeps_trans[OF a(2)]
    ultimately show ?thesis using a(1) False by (auto simp: alloc_zeroed_def own_def memset_filled filled_def)
  qed
qed

end
