(* ===== verification/Allocator_Clients.thy ===== *)
theory Allocator_Clients
  imports Allocator_Operations
begin

text \<open>
  What the allocator promises a client that uses only blocks it owns, in any order of calls.
\<close>

section \<open>Clients\<close>

text \<open>
  A client calls the operations with blocks it owns, and writes bytes inside of them.  The second
  component lists the blocks it owns, with the sizes and alignments it asked for.
\<close>

inductive client_step :: "'w page_mapper \<Rightarrow> 'w heap \<times> block list \<Rightarrow> 'w heap \<times> block list \<Rightarrow> bool" for M where
  allocates: "allocate M sz align h = Some (p, h') \<Longrightarrow> client_step M (h, L) (h', own p sz align L)"
| zeroes: "alloc_zeroed M sz align h = Some (p, h') \<Longrightarrow> client_step M (h, L) (h', own p sz align L)"
| frees: "(p, sz, align) \<in> set L
    \<Longrightarrow> client_step M (h, L) (deallocate M p sz align h, remove1 (p, sz, align) L)"
| resizes: "(p, sz, align) \<in> set L \<Longrightarrow> resize_in_place p sz sz' align
    \<Longrightarrow> client_step M (h, L) (h, (p, sz', align) # remove1 (p, sz, align) L)"
| reallocates: "(p, sz, align) \<in> set L \<Longrightarrow> reallocate M p sz sz' align h = Some (q, h')
    \<Longrightarrow> client_step M (h, L) (h', reown (p, sz, align) sz' q L)"
| stores: "(p, sz, align) \<in> set L \<Longrightarrow> k < sz
    \<Longrightarrow> client_step M (h, L) (h\<lparr>mem := (mem h)(p + k := v)\<rparr>, L)"

inductive_cases client_stepE: "client_step M (h, L) s"

lemma client_step_ok:
  assumes "client_step M s s'" "mapper_ok M mp" "heap_ok mp (fst s) (snd s)"
  shows "heap_ok mp (fst s') (snd s')"
  using assms
proof cases
  case (allocates sz align h p h' L)
  then show ?thesis using allocate_ok[OF assms(2), of h L sz align] assms(3) by auto
next
  case (zeroes sz align h p h' L)
  then show ?thesis using alloc_zeroed_ok[OF assms(2), of h L sz align] assms(3) by auto
next
  case (frees p sz align L h)
  then show ?thesis using deallocate_ok[OF assms(2), of h L p sz align] assms(3) by auto
next
  case (resizes p sz align L sz' h)
  then show ?thesis using relabel_ok[of mp h L p sz align sz'] resize_in_place_same[of p sz sz' align] assms(3) by auto
next
  case (reallocates p sz align L sz' h q h')
  then show ?thesis using reallocate_ok[OF assms(2), of h L p sz align sz'] assms(3) by auto
next
  case (stores p sz align L k h v)
  have "heap_ok mp (h\<lparr>mem := (mem h)(p + k := v)\<rparr>) L"
    by (rule write_ok(1)) (use stores assms(3) in auto)
  then show ?thesis using stores by simp
qed

lemma new_heap_ok:
  assumes "mapped_space (mp w) \<subseteq> {0<..<usize_bound}"
  shows "heap_ok mp (new_heap m w) []"
proof -
  have "heap_inv (mp w) (new_heap m w) [] [] [] {#}"
    using assms by (simp add: heap_inv_def new_heap_def links_ok_def chunks_def chunk_defs laid_def class_list_def)
  then show ?thesis unfolding heap_ok_def by (force simp: new_heap_def)
qed

text \<open>The states a client can bring a fresh allocator to.\<close>

definition client_state :: "'w page_mapper \<Rightarrow> ('w \<Rightarrow> (nat \<times> nat) set) \<Rightarrow> 'w heap \<times> block list \<Rightarrow> bool" where
  "client_state M mp s \<longleftrightarrow>
     mapper_ok M mp
     \<and> (\<exists>m w. mapped_space (mp w) \<subseteq> {0<..<usize_bound} \<and> (client_step M)\<^sup>*\<^sup>* (new_heap m w, []) s)"

lemma client_state_ok:
  assumes "client_state M mp (h, L)"
  shows "heap_ok mp h L"
proof -
  obtain m w where w: "mapped_space (mp w) \<subseteq> {0<..<usize_bound}" and M: "mapper_ok M mp"
    and s: "(client_step M)\<^sup>*\<^sup>* (new_heap m w, []) (h, L)"
    using assms by (auto simp: client_state_def)
  have "heap_ok mp (fst s) (snd s)" if "(client_step M)\<^sup>*\<^sup>* (new_heap m w, []) s" for s
    using that by (induction rule: rtranclp_induct) (auto simp: new_heap_ok[of mp w m, OF w] dest: client_step_ok[OF _ M])
  from this[OF s] show ?thesis by simp
qed

text \<open>The bytes a client may look at.\<close>

definition same_bytes :: "block list \<Rightarrow> 'w heap \<Rightarrow> 'w heap \<Rightarrow> bool" where
  "same_bytes L h h' \<longleftrightarrow> (\<forall>(p, sz, align) \<in> set L. \<forall>k < sz. mem h' (p + k) = mem h (p + k))"

lemma keeps_same_bytes:
  assumes "heap_ok mp h L" "set K \<subseteq> set L" "keeps K h h'"
  shows "same_bytes K h h'"
proof -
  obtain as fs where inv: "heap_inv (mp (world h)) h as fs L {#}" using assms(1) by (auto simp: heap_ok_def)
  have "mem h' (p + k) = mem h (p + k)" if b: "(p, sz, align) \<in> set K" "k < sz" for p sz align k
  proof -
    have "block_ok (mp (world h)) (p, sz, align)" by (rule heap_invD(5)[OF inv]) (use b assms(2) in blast)
    then have "p + k \<in> extent (block_extent (p, sz, align))"
      using block_okD(2) b(2) by (fastforce simp: extent_def block_extent_def)
    then show ?thesis using assms(3) b(1) by (auto simp: keeps_def)
  qed
  then show ?thesis by (auto simp: same_bytes_def)
qed

lemma apart_sorted: "apart (image_mset f (mset L)) \<Longrightarrow> sorted_wrt (\<lambda>x y. extent (f x) \<inter> extent (f y) = {}) L"
  by (induction L) auto

section \<open>A sample mapper\<close>

text \<open>It places a new mapping behind all others, and fails at the end of the address space.\<close>

definition sample_mapper :: "(nat \<times> nat) list page_mapper" where
  "sample_mapper =
     \<lparr>allocation_permitted = (\<lambda>w. (True, w)),
      map_pages = (\<lambda>n (w, m).
        let p = fold max (map (\<lambda>(q, k). q + k) w) page_size in
        if page_size dvd p \<and> p + n \<le> usize_bound then (p, (p, n) # w, m) else (0, w, m)),
      unmap_pages = (\<lambda>p n w. removeAll (p, n) w)\<rparr>"

lemma fold_max_ge: "x \<in> set (a # xs) \<Longrightarrow> (x::nat) \<le> fold max xs a"
  unfolding Max.set_eq_fold[symmetric] by (rule Max_ge) simp_all

lemma sample_mapper_ok: "mapper_ok sample_mapper set"
  unfolding mapper_ok_def
proof (intro conjI allI impI)
  fix w n m p w' m'
  assume "(0::nat) < n \<and> page_size dvd n \<and> map_pages sample_mapper n (w, m) = (p, w', m')"
  then have r: "map_pages sample_mapper n (w, m) = (p, w', m')" by blast
  let ?p = "fold max (map (\<lambda>(q, k). q + k) w) page_size"
  have "page_size \<le> ?p" by (rule fold_max_ge) simp
  moreover have "extent (?p, n) \<inter> extent q = {}" if "q \<in> set w" for q
  proof -
    have "fst q + snd q \<le> ?p" by (rule fold_max_ge) (use that in \<open>force simp: case_prod_beta\<close>)
    then show ?thesis by (auto simp: extent_def)
  qed
  ultimately show "mapping_ok (set w) m n p (set w') m'"
    using r by (auto simp: sample_mapper_def mapping_ok_def mapped_space_def Let_def split: if_splits)
qed (auto simp: sample_mapper_def)

lemma classify_100_8: "classify 100 8 = Some (Small (class_at 4))"
proof -
  have t: "usize_trailing_zeros 128 = 7" using usize_trailing_zeros_power[of 7] by simp
  show ?thesis
    by (simp add: classify_def usize_is_power_of_two_def checked_next_power_of_two_def small_class_of_def t class_at_def upt_rec)
qed

lemma sample_allocation:
  "\<exists>h. allocate sample_mapper 100 8 (new_heap (\<lambda>_. 0) []) = Some (4224, h)"
proof -
  let ?h = "\<lparr>mem = \<lambda>_. 0, current_arena = 0, free_lists = replicate class_count 0, world = [(page_size, arena_size)]\<rparr>"
  let ?h2 = "push_arena page_size ?h"
  have m: "map_into sample_mapper arena_size (new_heap (\<lambda>_. 0) []) = (page_size, ?h)"
    by (simp add: map_into_def sample_mapper_def new_heap_def)
  note new = write_arena_header_fields[of 0 arena_size header_size "\<lambda>_. 0" page_size, simplified]
  have up: "checked_align_up header_size (2 ^ 7) = Some 128"
    by (simp add: checked_align_up_def checked_add_def)
  obtain h where a: "allocate_from_arena page_size (class_at 4) ?h2 = Some (4224, h)"
    using new up by (simp add: allocate_from_arena_def push_arena_def class_at_def checked_add_def)
  have "arena_loop sample_mapper (class_at 4) ?h2 = Some (4224, h)"
    by (subst arena_loop.simps) (use a in \<open>simp add: push_arena_def\<close>)
  then have "arena_loop sample_mapper (class_at 4) (new_heap (\<lambda>_. 0) []) = Some (4224, h)"
    by (subst arena_loop.simps) (simp add: m, simp add: new_heap_def)
  then have "allocate_small sample_mapper (class_at 4) (new_heap (\<lambda>_. 0) []) = Some (4224, h)"
    by (simp add: allocate_small_def, simp add: new_heap_def class_at_def)
  moreover have "allocation_permitted sample_mapper (world (new_heap (\<lambda>_. 0) [])) = (True, [])"
    "new_heap (\<lambda>_. 0) ([] :: (nat \<times> nat) list)\<lparr>world := []\<rparr> = new_heap (\<lambda>_. 0) []"
    by (simp_all add: sample_mapper_def new_heap_def)
  ultimately show ?thesis by (simp add: allocate_def classify_100_8 Let_def)
qed

lemma sample_client: "\<exists>h. client_state sample_mapper set (h, [(4224, 100, 8)])"
proof -
  obtain h where "allocate sample_mapper 100 8 (new_heap (\<lambda>_. 0) []) = Some (4224, h)"
    using sample_allocation by blast
  from client_step.allocates[OF this, of "[]"]
  have "(client_step sample_mapper)\<^sup>*\<^sup>* (new_heap (\<lambda>_. 0) [], []) (h, [(4224, 100, 8)])" by (auto simp: own_def)
  moreover have "mapped_space (set []) \<subseteq> {0<..<usize_bound}" by (simp add: mapped_space_def)
  ultimately show ?thesis using sample_mapper_ok unfolding client_state_def by blast
qed

section \<open>The results\<close>

text \<open>
  C11. In every state a client can reach, its live blocks are non-null, aligned as asked for,
  inside mapped memory, and pairwise disjoint.
\<close>

theorem live_blocks_safe:
  assumes "client_state M mp (h, L)"
  shows "(\<forall>(p, sz, align) \<in> set L. 0 < p \<and> 0 < sz \<and> align dvd p \<and> {p..<p + sz} \<subseteq> mapped_space (mp (world h)))
    \<and> sorted_wrt (\<lambda>(p, sz, _) (q, sz', _). {p..<p + sz} \<inter> {q..<q + sz'} = {}) L"
proof -
  obtain as fs where inv: "heap_inv (mp (world h)) h as fs L {#}"
    using client_state_ok[OF assms] by (auto simp: heap_ok_def)
  have inside: "{p..<p + sz} \<subseteq> extent (block_extent (p, sz, align))" if "(p, sz, align) \<in> set L" for p sz align
    using block_okD(2)[OF heap_invD(5)[OF inv that]] by (auto simp: extent_def block_extent_def)
  have "0 < p \<and> 0 < sz \<and> align dvd p \<and> {p..<p + sz} \<subseteq> mapped_space (mp (world h))"
    if b: "(p, sz, align) \<in> set L" for p sz align
    using live_nonzero(1)[OF inv b] block_okD[OF heap_invD(5)[OF inv b]] inside[OF b] live_mapped[OF inv b] by blast
  moreover have "apart (image_mset block_extent (mset L))"
    using apart_right[of "header_chunks as + rest_chunks (mem h) as + free_chunks fs" "live_chunks L"] heap_invD(2)[OF inv]
    by (simp add: chunks_def live_chunks_def ac_simps)
  from apart_sorted[OF this]
  have "sorted_wrt (\<lambda>(p, sz, _) (q, sz', _). {p..<p + sz} \<inter> {q..<q + sz'} = {}) L"
    by (rule sorted_wrt_mono_rel[rotated]) (use inside in blast)
  ultimately show ?thesis by blast
qed

theorem live_blocks_safe_witness:
  "\<exists>h. client_state sample_mapper set (h, [(4224, 100, 8)]) \<and> {4224..<4324} \<subseteq> mapped_space (set (world h))"
proof -
  obtain h where h: "client_state sample_mapper set (h, [(4224, 100, 8)])" using sample_client by blast
  with live_blocks_safe[OF h] show ?thesis by auto
qed

text \<open>
  C12. Every operation ends.  An allocation, a release and a resize change no byte of another
  live block; a new block is null only for a refused or invalid request or when the mapper can
  fail; a zeroed block is zero; a resized block keeps its bytes up to the smaller size, and a
  resize that fails keeps everything.
\<close>

theorem operations_respect_blocks:
  assumes "client_state M mp (h, L)" "(p, sz, align) \<in> set L"
  shows "(\<exists>q h'. allocate M n k h = Some (q, h') \<and> same_bytes L h h' \<and> (q = 0 \<longrightarrow> null_reason M n k h))
    \<and> (\<exists>q h'. alloc_zeroed M n k h = Some (q, h') \<and> same_bytes L h h'
          \<and> (q \<noteq> 0 \<longrightarrow> (\<forall>i < n. mem h' (q + i) = 0)))
    \<and> same_bytes (remove1 (p, sz, align) L) h (deallocate M p sz align h)
    \<and> (\<exists>q h'. reallocate M p sz n align h = Some (q, h') \<and> same_bytes (remove1 (p, sz, align) L) h h'
          \<and> (q = 0 \<and> n \<noteq> 0 \<longrightarrow> same_bytes L h h')
          \<and> (q \<noteq> 0 \<longrightarrow> (\<forall>i < min sz n. mem h' (q + i) = mem h (p + i))))"
proof (intro conjI)
  have M: "mapper_ok M mp" using assms(1) by (simp add: client_state_def)
  have ok: "heap_ok mp h L" by (rule client_state_ok[OF assms(1)])
  note same = keeps_same_bytes[OF ok]
  have sub: "set (remove1 (p, sz, align) L) \<subseteq> set L" by (rule set_remove1_subset)
  show "\<exists>q h'. allocate M n k h = Some (q, h') \<and> same_bytes L h h' \<and> (q = 0 \<longrightarrow> null_reason M n k h)"
    using allocate_ok[OF M ok] same[OF subset_refl] by blast
  show "\<exists>q h'. alloc_zeroed M n k h = Some (q, h') \<and> same_bytes L h h' \<and> (q \<noteq> 0 \<longrightarrow> (\<forall>i < n. mem h' (q + i) = 0))"
    using alloc_zeroed_ok[OF M ok] same[OF subset_refl] by blast
  show "same_bytes (remove1 (p, sz, align) L) h (deallocate M p sz align h)"
    using deallocate_ok[OF M ok assms(2)] same[OF sub] by blast
  show "\<exists>q h'. reallocate M p sz n align h = Some (q, h') \<and> same_bytes (remove1 (p, sz, align) L) h h'
          \<and> (q = 0 \<and> n \<noteq> 0 \<longrightarrow> same_bytes L h h')
          \<and> (q \<noteq> 0 \<longrightarrow> (\<forall>i < min sz n. mem h' (q + i) = mem h (p + i)))"
    using reallocate_ok[OF M ok assms(2), of n] same[OF sub] same[OF subset_refl] by blast
qed

theorem operations_respect_blocks_witness:
  "\<exists>h h' q. client_state sample_mapper set (h, [(4224, 100, 8)])
     \<and> reallocate sample_mapper 4224 100 5000 8 h = Some (q, h')
     \<and> (q \<noteq> 0 \<longrightarrow> mem h' (q + 99) = mem h 4323)"
proof -
  obtain h where h: "client_state sample_mapper set (h, [(4224, 100, 8)])" using sample_client by blast
  have "(4224, 100, 8) \<in> set [(4224::nat, 100::nat, 8::nat)]" by simp
  from operations_respect_blocks[OF h this, of 1 1] operations_respect_blocks[OF h this, of 5000 8]
  obtain q h' where "reallocate sample_mapper 4224 100 5000 8 h = Some (q, h')"
    "q \<noteq> 0 \<longrightarrow> (\<forall>i < min 100 5000. mem h' (q + i) = mem h (4224 + i))"
    by blast
  then have "q \<noteq> 0 \<longrightarrow> mem h' (q + 99) = mem h 4323" by (force dest: spec[of _ 99])
  with h \<open>reallocate sample_mapper 4224 100 5000 8 h = Some (q, h')\<close> show ?thesis by blast
qed

end
