(* ===== verification/Stack_Verify.thy ===== *)
theory Stack_Verify
  imports Rue_Prelude
begin

text \<open>
  The stack verifier of the code generator (\<open>rue-codegen/src/stack_verify.rs\<close>) with the two
  backends' adapters (\<open>x86_64/verify.rs\<close>, \<open>aarch64/verify.rs\<close>): one pass over the instructions
  that computes the stack depth at each, and rejects misaligned calls, unbalanced returns and
  joins that are reached with different depths.

  A depth is an \<open>i64\<close> whose addition wraps.  The instruction sets are reduced to what the adapters
  tell apart; the text of an error is the datum it is printed from.
\<close>

section \<open>The verifier\<close>

datatype violation = Misaligned int | Unbalanced_Return int | Inconsistent_Join int int

record ('i, 'l) stack_adapter =
  stack_delta :: "'i \<Rightarrow> int"
  defined_label :: "'i \<Rightarrow> 'l option"
  jump_targets :: "'i \<Rightarrow> 'l list"
  is_return :: "'i \<Rightarrow> bool"
  alignment_violation :: "'i \<Rightarrow> int \<Rightarrow> violation option"

record stack_error =
  error_index :: nat
  error_depth :: int
  error_message :: violation

record 'l stack_verifier =
  label_depths :: "'l \<Rightarrow> int option"
  current_depth :: int

definition new_verifier :: "'l stack_verifier" where
  "new_verifier = \<lparr>label_depths = (\<lambda>_. None), current_depth = 0\<rparr>"

definition stack_fault :: "nat \<Rightarrow> 'l stack_verifier \<Rightarrow> violation \<Rightarrow> stack_error" where
  "stack_fault idx st v = \<lparr>error_index = idx, error_depth = current_depth st, error_message = v\<rparr>"

definition verify_join_depth :: "nat \<Rightarrow> int \<Rightarrow> 'l stack_verifier \<Rightarrow> stack_error + 'l stack_verifier" where
  "verify_join_depth idx expected st =
     (if expected \<noteq> current_depth st then Inl (stack_fault idx st (Inconsistent_Join expected (current_depth st)))
      else Inr st)"

definition verify_label :: "nat \<Rightarrow> 'l \<Rightarrow> 'l stack_verifier \<Rightarrow> stack_error + 'l stack_verifier" where
  "verify_label idx l st =
     (case label_depths st l of
        Some expected \<Rightarrow> verify_join_depth idx expected st
      | None \<Rightarrow> Inr (st\<lparr>label_depths := (label_depths st)(l := Some (current_depth st))\<rparr>))"

definition record_jump_target :: "nat \<Rightarrow> 'l \<Rightarrow> 'l stack_verifier \<Rightarrow> stack_error + 'l stack_verifier" where
  "record_jump_target idx l st =
     (case label_depths st l of
        Some expected \<Rightarrow> verify_join_depth idx expected st
      | None \<Rightarrow> Inr (st\<lparr>label_depths := (label_depths st)(l := Some (current_depth st))\<rparr>))"

fun record_jump_targets :: "nat \<Rightarrow> 'l list \<Rightarrow> 'l stack_verifier \<Rightarrow> stack_error + 'l stack_verifier" where
  "record_jump_targets idx [] st = Inr st"
| "record_jump_targets idx (l # ls) st =
     (case record_jump_target idx l st of Inl e \<Rightarrow> Inl e | Inr st \<Rightarrow> record_jump_targets idx ls st)"

definition verify_instruction ::
  "('i, 'l) stack_adapter \<Rightarrow> nat \<Rightarrow> 'i \<Rightarrow> 'l stack_verifier \<Rightarrow> stack_error + 'l stack_verifier" where
  "verify_instruction A idx inst st =
     (let st = st\<lparr>current_depth := wrap_i64 (current_depth st + stack_delta A inst)\<rparr> in
      case alignment_violation A inst (current_depth st) of
        Some v \<Rightarrow> Inl (stack_fault idx st v)
      | None \<Rightarrow>
          if is_return A inst \<and> current_depth st \<noteq> 0 then
            Inl (stack_fault idx st (Unbalanced_Return (current_depth st)))
          else
            case (case defined_label A inst of Some l \<Rightarrow> verify_label idx l st | None \<Rightarrow> Inr st) of
              Inl e \<Rightarrow> Inl e
            | Inr st \<Rightarrow> record_jump_targets idx (jump_targets A inst) st)"

fun verify_from ::
  "('i, 'l) stack_adapter \<Rightarrow> nat \<Rightarrow> 'i list \<Rightarrow> 'l stack_verifier \<Rightarrow> stack_error + 'l stack_verifier" where
  "verify_from A idx [] st = Inr st"
| "verify_from A idx (inst # insts) st =
     (case verify_instruction A idx inst st of Inl e \<Rightarrow> Inl e | Inr st \<Rightarrow> verify_from A (idx + 1) insts st)"

definition verify :: "('i, 'l) stack_adapter \<Rightarrow> 'i list \<Rightarrow> stack_error + unit" where
  "verify A insts = map_sum id (\<lambda>_. ()) (verify_from A 0 insts new_verifier)"

section \<open>The backends\<close>

datatype 'r operand = Virtual nat | Physical 'r

text \<open>Registers other than the stack pointer are told apart by their number only.\<close>

datatype x86_reg = Rsp | X86Reg nat

datatype x86_inst =
    Push "x86_reg operand" | Pop "x86_reg operand" | AddRI "x86_reg operand" "32 word"
  | X86Label nat | Jz nat | Jnz nat | Jo nat | Jno nat | Jb nat | Jae nat | Jbe nat | Ja nat | Jge nat | Jle nat | Jmp nat
  | CallRel nat | CallReg "x86_reg operand" | X86Ret | X86Other

text \<open>Rust's remainder truncates towards zero.\<close>

definition call_alignment :: "int \<Rightarrow> violation option" where
  "call_alignment depth = (if depth smod 16 \<noteq> 0 then Some (Misaligned (depth smod 16)) else None)"

definition x86_stack_delta :: "x86_inst \<Rightarrow> int" where
  "x86_stack_delta inst =
     (case inst of
        Push _ \<Rightarrow> 8
      | Pop _ \<Rightarrow> - 8
      | AddRI dst imm \<Rightarrow> if dst = Physical Rsp then - sint imm else 0
      | _ \<Rightarrow> 0)"

definition x86_label :: "x86_inst \<Rightarrow> nat option" where
  "x86_label inst = (case inst of X86Label l \<Rightarrow> Some l | _ \<Rightarrow> None)"

definition x86_jump_targets :: "x86_inst \<Rightarrow> nat list" where
  "x86_jump_targets inst =
     (case inst of
        Jz l \<Rightarrow> [l] | Jnz l \<Rightarrow> [l] | Jo l \<Rightarrow> [l] | Jno l \<Rightarrow> [l] | Jb l \<Rightarrow> [l] | Jae l \<Rightarrow> [l]
      | Jbe l \<Rightarrow> [l] | Ja l \<Rightarrow> [l] | Jge l \<Rightarrow> [l] | Jle l \<Rightarrow> [l] | Jmp l \<Rightarrow> [l]
      | _ \<Rightarrow> [])"

definition x86_is_return :: "x86_inst \<Rightarrow> bool" where
  "x86_is_return inst = (case inst of X86Ret \<Rightarrow> True | _ \<Rightarrow> False)"

definition x86_alignment_violation :: "x86_inst \<Rightarrow> int \<Rightarrow> violation option" where
  "x86_alignment_violation inst depth =
     (case inst of CallRel _ \<Rightarrow> call_alignment depth | CallReg _ \<Rightarrow> call_alignment depth | _ \<Rightarrow> None)"

definition x86_adapter :: "(x86_inst, nat) stack_adapter" where
  "x86_adapter =
     \<lparr>stack_delta = x86_stack_delta, defined_label = x86_label, jump_targets = x86_jump_targets,
      is_return = x86_is_return, alignment_violation = x86_alignment_violation\<rparr>"

definition x86_verify :: "x86_inst list \<Rightarrow> stack_error + unit" where
  "x86_verify insts = verify x86_adapter insts"

datatype aarch64_reg = Sp | Aarch64Reg nat

datatype aarch64_inst =
    StpPre "aarch64_reg operand" "aarch64_reg operand" "32 word"
  | LdpPost "aarch64_reg operand" "aarch64_reg operand" "32 word"
  | SubImm "aarch64_reg operand" "aarch64_reg operand" "32 word"
  | AddImm "aarch64_reg operand" "aarch64_reg operand" "32 word"
  | Aarch64Label nat | B nat | BCond nat nat | Bvs nat | Bvc nat | Cbz "aarch64_reg operand" nat | Cbnz "aarch64_reg operand" nat
  | Bl nat | Blr "aarch64_reg operand" | Aarch64Ret | Aarch64Other

definition is_sp :: "aarch64_reg operand \<Rightarrow> bool" where
  "is_sp op = (op = Physical Sp)"

definition aarch64_stack_delta :: "aarch64_inst \<Rightarrow> int" where
  "aarch64_stack_delta inst =
     (case inst of
        StpPre _ _ offset \<Rightarrow> sint (- offset)
      | LdpPost _ _ offset \<Rightarrow> - sint offset
      | SubImm dst src imm \<Rightarrow> if is_sp dst \<and> is_sp src then sint imm else 0
      | AddImm dst src imm \<Rightarrow> if is_sp dst \<and> is_sp src then - sint imm else 0
      | _ \<Rightarrow> 0)"

definition aarch64_label :: "aarch64_inst \<Rightarrow> nat option" where
  "aarch64_label inst = (case inst of Aarch64Label l \<Rightarrow> Some l | _ \<Rightarrow> None)"

definition aarch64_jump_targets :: "aarch64_inst \<Rightarrow> nat list" where
  "aarch64_jump_targets inst =
     (case inst of B l \<Rightarrow> [l] | BCond _ l \<Rightarrow> [l] | Bvs l \<Rightarrow> [l] | Bvc l \<Rightarrow> [l] | Cbz _ l \<Rightarrow> [l] | Cbnz _ l \<Rightarrow> [l] | _ \<Rightarrow> [])"

definition aarch64_is_return :: "aarch64_inst \<Rightarrow> bool" where
  "aarch64_is_return inst = (case inst of Aarch64Ret \<Rightarrow> True | _ \<Rightarrow> False)"

definition aarch64_alignment_violation :: "aarch64_inst \<Rightarrow> int \<Rightarrow> violation option" where
  "aarch64_alignment_violation inst depth =
     (case inst of Bl _ \<Rightarrow> call_alignment depth | Blr _ \<Rightarrow> call_alignment depth | _ \<Rightarrow> None)"

definition aarch64_adapter :: "(aarch64_inst, nat) stack_adapter" where
  "aarch64_adapter =
     \<lparr>stack_delta = aarch64_stack_delta, defined_label = aarch64_label, jump_targets = aarch64_jump_targets,
      is_return = aarch64_is_return, alignment_violation = aarch64_alignment_violation\<rparr>"

definition aarch64_verify :: "aarch64_inst list \<Rightarrow> stack_error + unit" where
  "aarch64_verify insts = verify aarch64_adapter insts"

section \<open>Execution\<close>

text \<open>
  What the depths stand for: an instruction moves the stack pointer, and control goes on to the
  next instruction or to a definition of one of the labels that it names.
\<close>

inductive stack_step :: "('i, 'l) stack_adapter \<Rightarrow> 'i list \<Rightarrow> nat \<times> u64 \<Rightarrow> nat \<times> u64 \<Rightarrow> bool" for A insts where
  falls_through: "pc < length insts
    \<Longrightarrow> stack_step A insts (pc, sp) (pc + 1, sp - of_int (stack_delta A (insts ! pc)))"
| jumps: "pc < length insts \<Longrightarrow> l \<in> set (jump_targets A (insts ! pc))
    \<Longrightarrow> target < length insts \<Longrightarrow> defined_label A (insts ! target) = Some l
    \<Longrightarrow> stack_step A insts (pc, sp) (target, sp - of_int (stack_delta A (insts ! pc)))"

section \<open>Depths\<close>

lemma of_int_wrap_i64 [simp]: "(of_int (wrap_i64 x) :: u64) = of_int x"
proof -
  have "wrap_i64 x mod 2 ^ 64 = x mod 2 ^ 64"
    unfolding wrap_i64_def by (metis add_diff_cancel mod_diff_left_eq)
  then show ?thesis by (simp add: word_of_int_eq_iff take_bit_eq_mod)
qed

lemma wrap_i64_add [simp]: "wrap_i64 (wrap_i64 x + y) = wrap_i64 (x + y)"
proof -
  have "(wrap_i64 x + y + 2 ^ 63) mod 2 ^ 64 = ((x + 2 ^ 63) mod 2 ^ 64 + y) mod 2 ^ 64"
    by (simp add: wrap_i64_def algebra_simps)
  then show ?thesis unfolding wrap_i64_def by (simp add: mod_simps algebra_simps)
qed

lemma wrap_i64_idem [simp]: "wrap_i64 (wrap_i64 x) = wrap_i64 x"
  using wrap_i64_add[of x 0] by simp

text \<open>The depth after the first \<open>k\<close> instructions, when the depth before them is \<open>d\<close>.\<close>

definition depth_after :: "('i, 'l) stack_adapter \<Rightarrow> 'i list \<Rightarrow> int \<Rightarrow> nat \<Rightarrow> int" where
  "depth_after A insts d k = wrap_i64 (d + (\<Sum>i \<leftarrow> take k insts. stack_delta A i))"

lemma depth_after_Suc:
  "k < length insts \<Longrightarrow> depth_after A insts d (Suc k) = wrap_i64 (depth_after A insts d k + stack_delta A (insts ! k))"
  by (simp add: depth_after_def take_Suc_conv_app_nth add.assoc)

lemma depth_after_Cons:
  "depth_after A (i # insts) d (Suc k) = depth_after A insts (wrap_i64 (d + stack_delta A i)) k"
  by (simp add: depth_after_def add.assoc)

section \<open>Acceptance\<close>

text \<open>An instruction after which the depth is \<open>d\<close> agrees with the depths \<open>F\<close> of the labels.\<close>

definition inst_typed :: "('i, 'l) stack_adapter \<Rightarrow> ('l \<Rightarrow> int) \<Rightarrow> int \<Rightarrow> 'i \<Rightarrow> bool" where
  "inst_typed A F d inst \<longleftrightarrow>
     alignment_violation A inst d = None \<and> (is_return A inst \<longrightarrow> d = 0)
     \<and> (\<forall>l. defined_label A inst = Some l \<longrightarrow> F l = d) \<and> (\<forall>l \<in> set (jump_targets A inst). F l = d)"

definition insts_typed :: "('i, 'l) stack_adapter \<Rightarrow> ('l \<Rightarrow> int) \<Rightarrow> int \<Rightarrow> 'i list \<Rightarrow> bool" where
  "insts_typed A F d insts \<longleftrightarrow> (\<forall>k < length insts. inst_typed A F (depth_after A insts d (Suc k)) (insts ! k))"

lemma insts_typed_Nil [simp]: "insts_typed A F d []"
  by (simp add: insts_typed_def)

lemma insts_typed_Cons:
  "insts_typed A F d (i # is) \<longleftrightarrow>
     inst_typed A F (wrap_i64 (d + stack_delta A i)) i \<and> insts_typed A F (wrap_i64 (d + stack_delta A i)) is"
  unfolding insts_typed_def by (simp add: All_less_Suc2 depth_after_Cons) (simp add: depth_after_def)

text \<open>The table holds depths of \<open>F\<close> only.\<close>

definition table_ok :: "('l \<Rightarrow> int) \<Rightarrow> 'l stack_verifier \<Rightarrow> bool" where
  "table_ok F st \<longleftrightarrow> (\<forall>l d. label_depths st l = Some d \<longrightarrow> F l = d)"

lemma note_label:
  "record_jump_target idx l st = Inr st' \<Longrightarrow>
     label_depths st \<subseteq>\<^sub>m label_depths st' \<and> current_depth st' = current_depth st \<and> label_depths st' l = Some (current_depth st)"
  by (auto simp: record_jump_target_def verify_join_depth_def map_le_def split: option.splits if_splits)

lemma note_label_complete:
  "table_ok F st \<Longrightarrow> F l = current_depth st \<Longrightarrow> \<exists>st'. record_jump_target idx l st = Inr st' \<and> table_ok F st'"
  by (auto simp: record_jump_target_def verify_join_depth_def table_ok_def split: option.splits)

lemma verify_label_eq: "verify_label = record_jump_target"
  by (simp add: fun_eq_iff verify_label_def record_jump_target_def)

lemma record_jump_targets_ok:
  "record_jump_targets idx ls st = Inr st' \<Longrightarrow>
     label_depths st \<subseteq>\<^sub>m label_depths st' \<and> current_depth st' = current_depth st
     \<and> (\<forall>l \<in> set ls. label_depths st' l = Some (current_depth st))"
proof (induction idx ls st rule: record_jump_targets.induct)
  case (2 idx l ls st)
  then obtain st1 where "record_jump_target idx l st = Inr st1" "record_jump_targets idx ls st1 = Inr st'"
    by (auto split: sum.splits)
  note n = note_label[OF this(1)] and ih = 2(1)[OF this]
  have "label_depths st' l = Some (current_depth st)" using n ih by (metis domI map_le_def)
  then show ?case using n ih by (auto intro: map_le_trans)
qed simp

lemma record_jump_targets_complete:
  "table_ok F st \<Longrightarrow> \<forall>l \<in> set ls. F l = current_depth st
   \<Longrightarrow> \<exists>st'. record_jump_targets idx ls st = Inr st' \<and> table_ok F st' \<and> current_depth st' = current_depth st"
proof (induction idx ls st rule: record_jump_targets.induct)
  case (2 idx l ls st)
  then obtain st1 where st1: "record_jump_target idx l st = Inr st1" "table_ok F st1"
    using note_label_complete[of F st l idx] by auto
  then have "current_depth st1 = current_depth st" by (auto dest: note_label)
  with 2 st1 show ?case by auto
qed simp

lemma verify_instruction_ok:
  assumes "verify_instruction A idx inst st = Inr st'"
  shows "label_depths st \<subseteq>\<^sub>m label_depths st'" "current_depth st' = wrap_i64 (current_depth st + stack_delta A inst)"
    and "table_ok F st' \<Longrightarrow> inst_typed A F (current_depth st') inst"
proof -
  let ?st = "st\<lparr>current_depth := wrap_i64 (current_depth st + stack_delta A inst)\<rparr>"
  obtain st1 where ok: "alignment_violation A inst (current_depth ?st) = None" "is_return A inst \<longrightarrow> current_depth ?st = 0"
    and l: "(case defined_label A inst of Some l \<Rightarrow> record_jump_target idx l ?st | None \<Rightarrow> Inr ?st) = Inr st1"
    and t: "record_jump_targets idx (jump_targets A inst) st1 = Inr st'"
    using assms by (auto simp: verify_instruction_def Let_def verify_label_eq split: option.splits if_splits sum.splits)
  note t' = record_jump_targets_ok[OF t]
  have l': "label_depths ?st \<subseteq>\<^sub>m label_depths st1 \<and> current_depth st1 = current_depth ?st
      \<and> (\<forall>k. defined_label A inst = Some k \<longrightarrow> label_depths st1 k = Some (current_depth ?st))"
    using l note_label[of idx _ ?st st1] by (auto split: option.splits)
  show "label_depths st \<subseteq>\<^sub>m label_depths st'" using l' t' by (auto intro: map_le_trans)
  show d: "current_depth st' = wrap_i64 (current_depth st + stack_delta A inst)" using l' t' by simp
  have "label_depths st' k = Some (current_depth st')" if "defined_label A inst = Some k" for k
    using l' t' that d by (metis domI map_le_def select_convs(2) surjective update_convs(2))
  then show "inst_typed A F (current_depth st') inst" if "table_ok F st'"
    using that ok t' l' d by (auto simp: inst_typed_def table_ok_def)
qed

lemma verify_instruction_complete:
  assumes "table_ok F st" "inst_typed A F (wrap_i64 (current_depth st + stack_delta A inst)) inst"
  shows "\<exists>st'. verify_instruction A idx inst st = Inr st' \<and> table_ok F st'
    \<and> current_depth st' = wrap_i64 (current_depth st + stack_delta A inst)"
proof -
  let ?st = "st\<lparr>current_depth := wrap_i64 (current_depth st + stack_delta A inst)\<rparr>"
  have t: "table_ok F ?st" using assms(1) by (simp add: table_ok_def)
  obtain st1 where l: "(case defined_label A inst of Some l \<Rightarrow> record_jump_target idx l ?st | None \<Rightarrow> Inr ?st) = Inr st1"
    "table_ok F st1" "current_depth st1 = current_depth ?st"
  proof (cases "defined_label A inst")
    case (Some k)
    then obtain st1 where "record_jump_target idx k ?st = Inr st1" "table_ok F st1"
      using note_label_complete[OF t, of k idx] assms(2) by (auto simp: inst_typed_def)
    with Some show thesis using note_label[of idx k ?st st1] by (intro that[of st1]) auto
  qed (use t in \<open>simp add: that\<close>)
  have "\<forall>k \<in> set (jump_targets A inst). F k = current_depth st1" using assms(2) l(3) by (simp add: inst_typed_def)
  from record_jump_targets_complete[OF l(2) this, of idx] l assms(2) show ?thesis
    unfolding verify_instruction_def verify_label_eq by (auto simp: inst_typed_def Let_def)
qed

lemma verify_from_ok:
  "verify_from A idx insts st = Inr st' \<Longrightarrow>
     label_depths st \<subseteq>\<^sub>m label_depths st' \<and> (\<forall>F. table_ok F st' \<longrightarrow> insts_typed A F (current_depth st) insts)"
proof (induction A idx insts st rule: verify_from.induct)
  case (2 A idx inst insts st)
  then obtain st1 where st1: "verify_instruction A idx inst st = Inr st1" "verify_from A (idx + 1) insts st1 = Inr st'"
    by (auto split: sum.splits)
  note i = verify_instruction_ok[OF st1(1)] and ih = 2(1)[OF st1]
  have "insts_typed A F (current_depth st) (inst # insts)" if "table_ok F st'" for F
  proof -
    have "table_ok F st1" using that ih by (auto simp: table_ok_def map_le_def dom_def)
    with i ih that show ?thesis by (simp add: insts_typed_Cons)
  qed
  with i ih show ?case by (auto intro: map_le_trans)
qed simp

lemma verify_from_complete:
  "table_ok F st \<Longrightarrow> insts_typed A F (current_depth st) insts \<Longrightarrow> \<exists>st'. verify_from A idx insts st = Inr st'"
proof (induction A idx insts st rule: verify_from.induct)
  case (2 A idx inst insts st)
  then obtain st1 where "verify_instruction A idx inst st = Inr st1" "table_ok F st1"
    "current_depth st1 = wrap_i64 (current_depth st + stack_delta A inst)"
    using verify_instruction_complete[of F st A inst idx] by (auto simp: insts_typed_Cons)
  with 2 show ?case by (auto simp: insts_typed_Cons)
qed simp

lemma verify_iff_typed: "verify A insts = Inr () \<longleftrightarrow> (\<exists>F. insts_typed A F 0 insts)"
proof
  assume "verify A insts = Inr ()"
  then obtain st' where st': "verify_from A 0 insts new_verifier = Inr st'"
    by (cases "verify_from A 0 insts new_verifier") (auto simp: verify_def)
  have "table_ok (\<lambda>l. case label_depths st' l of Some d \<Rightarrow> d | None \<Rightarrow> 0) st'" by (simp add: table_ok_def)
  then show "\<exists>F. insts_typed A F 0 insts" using verify_from_ok[OF st'] by (auto simp: new_verifier_def)
next
  assume "\<exists>F. insts_typed A F 0 insts"
  then obtain F where F: "insts_typed A F 0 insts" by blast
  have "table_ok F new_verifier" by (simp add: table_ok_def new_verifier_def)
  from verify_from_complete[OF this, of A insts 0] F
  obtain st' where "verify_from A 0 insts new_verifier = Inr st'" by (auto simp: new_verifier_def)
  then show "verify A insts = Inr ()" by (simp add: verify_def)
qed

lemma verify_from_append:
  "verify_from A idx (xs @ ys) st =
     (case verify_from A idx xs st of Inl e \<Rightarrow> Inl e | Inr st \<Rightarrow> verify_from A (idx + length xs) ys st)"
  by (induction A idx xs st rule: verify_from.induct) (auto split: sum.splits)

text \<open>An error names the first instruction that is rejected.\<close>

lemma verify_instruction_index: "verify_instruction A idx inst st = Inl e \<Longrightarrow> error_index e = idx"
proof -
  have "record_jump_target idx l st = Inl e \<Longrightarrow> error_index e = idx" for l st
    by (auto simp: record_jump_target_def verify_join_depth_def stack_fault_def split: option.splits if_splits)
  moreover from this have "record_jump_targets idx ls st = Inl e \<Longrightarrow> error_index e = idx" for ls st
    by (induction idx ls st rule: record_jump_targets.induct) (auto split: sum.splits)
  ultimately show "verify_instruction A idx inst st = Inl e \<Longrightarrow> error_index e = idx"
    by (auto simp: verify_instruction_def Let_def verify_label_eq stack_fault_def split: option.splits if_splits sum.splits)
qed

lemma verify_from_error:
  "verify_from A idx insts st = Inl e \<Longrightarrow>
     \<exists>k < length insts. error_index e = idx + k \<and> (\<exists>st'. verify_from A idx (take k insts) st = Inr st')"
proof (induction A idx insts st rule: verify_from.induct)
  case (2 A idx inst insts st)
  show ?case
  proof (cases "verify_instruction A idx inst st")
    case (Inl e')
    with 2(2) show ?thesis using verify_instruction_index[of A idx inst st e'] by (intro exI[of _ 0]) auto
  next
    case (Inr st1)
    with 2 obtain k where "k < length insts" "error_index e = idx + 1 + k" "\<exists>st'. verify_from A (idx + 1) (take k insts) st1 = Inr st'"
      by auto
    with Inr show ?thesis by (intro exI[of _ "Suc k"]) auto
  qed
qed simp

lemma verify_error:
  assumes "verify A insts = Inl e"
  shows "error_index e < length insts \<and> verify A (take (error_index e) insts) = Inr ()"
  using assms verify_from_error[of A 0 insts new_verifier e]
  by (cases "verify_from A 0 insts new_verifier") (auto simp: verify_def)

section \<open>Soundness\<close>

text \<open>
  What the verifier relies on: a label, a call and a return do not move the stack pointer, and
  a call that passes the alignment check is at a multiple of 16.
\<close>

locale stack_machine =
  fixes A :: "('i, 'l) stack_adapter" and is_call :: "'i \<Rightarrow> bool"
  assumes label_still: "defined_label A i = Some l \<Longrightarrow> stack_delta A i = 0"
    and return_still: "is_return A i \<Longrightarrow> stack_delta A i = 0"
    and call_still: "is_call i \<Longrightarrow> stack_delta A i = 0"
    and call_checked: "is_call i \<Longrightarrow> alignment_violation A i d = None \<Longrightarrow> 16 dvd d"
begin

lemma typed_run:
  assumes "insts_typed A F 0 insts" "(stack_step A insts)\<^sup>*\<^sup>* (0, sp0) s"
  shows "fst s \<le> length insts \<and> snd s = sp0 - of_int (depth_after A insts 0 (fst s))"
  using assms(2)
proof (induction rule: rtranclp_induct)
  case base
  show ?case by (simp add: depth_after_def wrap_i64_def)
next
  case (step s t)
  from step(2) show ?case
  proof cases
    case (falls_through pc sp)
    with step(3) show ?thesis by (simp add: depth_after_Suc)
  next
    case (jumps pc l target sp)
    have "F l = depth_after A insts 0 (Suc pc)" "F l = depth_after A insts 0 (Suc target)"
      using assms(1) jumps unfolding insts_typed_def inst_typed_def by blast+
    moreover have "depth_after A insts 0 (Suc target) = depth_after A insts 0 target"
      using label_still[OF jumps(6)] jumps(5) wrap_i64_add[of _ 0] by (simp add: depth_after_Suc) (simp add: depth_after_def)
    ultimately have "depth_after A insts 0 target = wrap_i64 (depth_after A insts 0 pc + stack_delta A (insts ! pc))"
      using jumps(3) by (simp add: depth_after_Suc)
    with jumps step(3) show ?thesis by simp
  qed
qed

lemma still_depth:
  "pc < length insts \<Longrightarrow> stack_delta A (insts ! pc) = 0 \<Longrightarrow> depth_after A insts 0 (Suc pc) = depth_after A insts 0 pc"
  using wrap_i64_add[of _ 0] by (simp add: depth_after_Suc) (simp add: depth_after_def)

lemma verified_run:
  assumes "verify A insts = Inr ()" "(stack_step A insts)\<^sup>*\<^sup>* (0, sp0) (pc, sp)" "pc < length insts"
  shows "is_call (insts ! pc) \<Longrightarrow> 16 dvd uint (sp0 - sp)" "is_return A (insts ! pc) \<Longrightarrow> sp = sp0"
    and "(stack_step A insts)\<^sup>*\<^sup>* (0, sp0) (pc, sp') \<Longrightarrow> sp' = sp"
proof -
  obtain F where F: "insts_typed A F 0 insts" using assms(1) by (auto simp: verify_iff_typed)
  note run = typed_run[OF F]
  have sp: "sp = sp0 - of_int (depth_after A insts 0 pc)" using run[OF assms(2)] by simp
  have ty: "inst_typed A F (depth_after A insts 0 (Suc pc)) (insts ! pc)" using F assms(3) by (simp add: insts_typed_def)
  show "16 dvd uint (sp0 - sp)" if c: "is_call (insts ! pc)"
  proof -
    have "16 dvd depth_after A insts 0 pc"
      using call_checked[OF c] ty still_depth[OF assms(3) call_still[OF c]] by (simp add: inst_typed_def)
    then have "16 dvd depth_after A insts 0 pc mod 2 ^ 64" by (rule dvd_mod) simp
    then show ?thesis by (simp add: sp uint_word_of_int)
  qed
  show "sp = sp0" if r: "is_return A (insts ! pc)"
    using ty still_depth[OF assms(3) return_still[OF r]] r by (simp add: inst_typed_def sp)
  show "sp' = sp" if "(stack_step A insts)\<^sup>*\<^sup>* (0, sp0) (pc, sp')" using run[OF that] sp by simp
qed

end

lemma call_alignment_dvd: "call_alignment d = None \<Longrightarrow> 16 dvd d"
proof -
  assume "call_alignment d = None"
  then have "d smod 16 = 0" by (simp add: call_alignment_def split: if_splits)
  then have "\<bar>d\<bar> mod 16 = 0" by (auto simp: signed_modulo_int_def sgn_0_0)
  then show "16 dvd d" by (simp add: dvd_eq_mod_eq_0[symmetric])
qed

definition x86_is_call :: "x86_inst \<Rightarrow> bool" where
  "x86_is_call inst = (case inst of CallRel _ \<Rightarrow> True | CallReg _ \<Rightarrow> True | _ \<Rightarrow> False)"

definition aarch64_is_call :: "aarch64_inst \<Rightarrow> bool" where
  "aarch64_is_call inst = (case inst of Bl _ \<Rightarrow> True | Blr _ \<Rightarrow> True | _ \<Rightarrow> False)"

interpretation x86_stack: stack_machine x86_adapter x86_is_call
  by unfold_locales
    (auto simp: x86_adapter_def x86_label_def x86_stack_delta_def x86_is_return_def x86_is_call_def
      x86_alignment_violation_def call_alignment_dvd split: x86_inst.splits)

interpretation aarch64_stack: stack_machine aarch64_adapter aarch64_is_call
  by unfold_locales
    (auto simp: aarch64_adapter_def aarch64_label_def aarch64_stack_delta_def aarch64_is_return_def aarch64_is_call_def
      aarch64_alignment_violation_def call_alignment_dvd split: aarch64_inst.splits)

text \<open>
  C18. Both backends' verifiers accept exactly the code in which every label has one depth, calls
  are aligned and returns are balanced.  In every execution of accepted code the stack pointer
  is 16-byte aligned, relative to the prologue, at every call, has its initial value at every
  return, and has one value at each instruction; an error names the first rejected instruction.
\<close>

theorem stack_verifiers_sound:
  "(x86_verify insts = Inr () \<longleftrightarrow> (\<exists>F. insts_typed x86_adapter F 0 insts))
   \<and> (x86_verify insts = Inr () \<longrightarrow> (stack_step x86_adapter insts)\<^sup>*\<^sup>* (0, sp0) (pc, sp) \<longrightarrow> pc < length insts
        \<longrightarrow> (x86_is_call (insts ! pc) \<longrightarrow> 16 dvd uint (sp0 - sp)) \<and> (x86_is_return (insts ! pc) \<longrightarrow> sp = sp0)
          \<and> (\<forall>sp'. (stack_step x86_adapter insts)\<^sup>*\<^sup>* (0, sp0) (pc, sp') \<longrightarrow> sp' = sp))
   \<and> (aarch64_verify ainsts = Inr () \<longleftrightarrow> (\<exists>F. insts_typed aarch64_adapter F 0 ainsts))
   \<and> (aarch64_verify ainsts = Inr () \<longrightarrow> (stack_step aarch64_adapter ainsts)\<^sup>*\<^sup>* (0, sp0) (pc, sp) \<longrightarrow> pc < length ainsts
        \<longrightarrow> (aarch64_is_call (ainsts ! pc) \<longrightarrow> 16 dvd uint (sp0 - sp)) \<and> (aarch64_is_return (ainsts ! pc) \<longrightarrow> sp = sp0)
          \<and> (\<forall>sp'. (stack_step aarch64_adapter ainsts)\<^sup>*\<^sup>* (0, sp0) (pc, sp') \<longrightarrow> sp' = sp))
   \<and> (x86_verify insts = Inl e \<longrightarrow> error_index e < length insts \<and> x86_verify (take (error_index e) insts) = Inr ())"
proof -
  have r: "is_return x86_adapter = x86_is_return" "is_return aarch64_adapter = aarch64_is_return"
    by (simp_all add: x86_adapter_def aarch64_adapter_def)
  note x = x86_stack.verified_run[of insts sp0 pc sp, folded x86_verify_def, unfolded r]
  note a = aarch64_stack.verified_run[of ainsts sp0 pc sp, folded aarch64_verify_def, unfolded r]
  show ?thesis
    by (intro conjI impI allI; (rule x a; assumption)?)
      (simp_all add: x86_verify_def aarch64_verify_def verify_iff_typed[symmetric] verify_error)
qed

text \<open>A conditional call between a push and its pop; the stack pointer is 16 lower at the call.\<close>

definition balanced_code :: "x86_inst list" where
  "balanced_code =
     [Push (Physical (X86Reg 0)), Push (Physical (X86Reg 1)), Jz 7, CallRel 0, X86Label 7,
      Pop (Physical (X86Reg 1)), Pop (Physical (X86Reg 0)), X86Ret]"

theorem stack_verifiers_sound_witness:
  "x86_verify balanced_code = Inr ()
   \<and> \<not> (stack_step x86_adapter balanced_code)\<^sup>*\<^sup>* (0, 0) (7, 16)"
proof -
  have ok: "x86_verify balanced_code = Inr ()" by code_simp
  moreover have "x86_is_return (balanced_code ! 7)" "7 < length balanced_code"
    by (simp_all add: balanced_code_def x86_is_return_def)
  ultimately show ?thesis using stack_verifiers_sound[of balanced_code 0 7 16] by auto
qed

end
