(* ===== verification/Lexer_Literals.thy ===== *)
theory Lexer_Literals
  imports Rue_Prelude
begin

text \<open>
  The literal callbacks of the lexer (\<open>rue-lexer/src/logos_lexer.rs\<close>): string, integer, float and
  byte literals.  The tokeniser that logos generates calls one of them with the text it has
  matched (the slice) or the text that follows (the remainder); a callback returns how many bytes
  it consumes beyond the match, and a value or an error.

  A character is its scalar value.  The interner is a parameter.  The outer \<open>None\<close> is a panic.
\<close>

type_synonym scalar = nat

datatype byte_fault =
    Unterminated_Byte | Empty_Byte | Line_Ended | Unterminated_Escape | Unknown_Escape scalar
  | Not_Ascii scalar | Not_One_Byte | Missing_Quote

datatype float_fault = Leading_Dot "scalar list" | Empty_Exponent "scalar list"

datatype radix_name = Hexadecimal | Octal | Binary

datatype lex_error =
    UnexpectedCharacter
  | InvalidInteger
  | InvalidStringEscape nat scalar
  | UnterminatedString
  | InternerExhausted bool
  | UppercaseBasePrefix scalar
  | EmptyBasedLiteral radix_name
  | InvalidDigitForBase scalar radix_name nat
  | MalformedByteLiteral byte_fault
  | MalformedFloatLiteral float_fault

definition len_utf8 :: "scalar \<Rightarrow> nat" where
  "len_utf8 c = (if c < 0x80 then 1 else if c < 0x800 then 2 else if c < 0x10000 then 3 else 4)"

definition byte_len :: "scalar list \<Rightarrow> nat" where
  "byte_len cs = (\<Sum>c \<leftarrow> cs. len_utf8 c)"

definition span_offset :: "nat \<Rightarrow> nat option" where
  "span_offset n = (if n < 2 ^ 32 then Some n else None)"

definition is_eol :: "scalar \<Rightarrow> bool" where
  "is_eol c \<longleftrightarrow> c = 10 \<or> c = 13"

section \<open>Strings\<close>

text \<open>The escapes of a string literal: backslash, quote, \<open>n\<close>, \<open>t\<close>, \<open>r\<close> and \<open>0\<close>.\<close>

definition string_escape :: "scalar \<Rightarrow> scalar option" where
  "string_escape e =
     (if e = 92 then Some 92 else if e = 34 then Some 34 else if e = 110 then Some 10
      else if e = 116 then Some 9 else if e = 114 then Some 13 else if e = 48 then Some 0 else None)"

definition first_error :: "lex_error option \<Rightarrow> lex_error \<Rightarrow> lex_error" where
  "first_error pending e = (case pending of Some p \<Rightarrow> p | None \<Rightarrow> e)"

fun scan_string :: "scalar list \<Rightarrow> nat \<Rightarrow> scalar list \<Rightarrow> lex_error option \<Rightarrow> (nat \<times> (lex_error + scalar list)) option" where
  "scan_string [] consumed result pending = Some (consumed, Inl (first_error pending UnterminatedString))"
| "scan_string (c # chars) consumed result pending =
     (if c = 34 then
        Some (consumed + 1, case pending of Some e \<Rightarrow> Inl e | None \<Rightarrow> Inr result)
      else if c = 92 then
        case span_offset (consumed + 1) of
          None \<Rightarrow> None
        | Some backslash_offset \<Rightarrow>
            (let consumed = consumed + len_utf8 c in
             case chars of
               [] \<Rightarrow> Some (consumed, Inl (first_error pending UnterminatedString))
             | e # chars \<Rightarrow>
                 (case string_escape e of
                    Some v \<Rightarrow> scan_string chars (consumed + 1) (result @ [v]) pending
                  | None \<Rightarrow>
                      if is_eol e then Some (consumed, Inl (first_error pending UnterminatedString))
                      else scan_string chars (consumed + len_utf8 e) result
                             (Some (first_error pending (InvalidStringEscape backslash_offset e)))))
      else if is_eol c then Some (consumed, Inl (first_error pending UnterminatedString))
      else scan_string chars (consumed + len_utf8 c) (result @ [c]) pending)"

definition process_string_from_quote ::
  "(scalar list \<Rightarrow> lex_error + nat) \<Rightarrow> scalar list \<Rightarrow> (nat \<times> (lex_error + nat)) option" where
  "process_string_from_quote intern remainder =
     map_option (\<lambda>(consumed, r). (consumed, case r of Inl e \<Rightarrow> Inl e | Inr text \<Rightarrow> intern text))
       (scan_string remainder 0 [] None)"

section \<open>Integers\<close>

definition u64_checked :: "nat \<Rightarrow> nat option" where
  "u64_checked n = (if n < 2 ^ 64 then Some n else None)"

text \<open>The digit step of both integer rules.\<close>

definition push_digit :: "nat \<Rightarrow> nat \<Rightarrow> nat \<Rightarrow> nat option" where
  "push_digit radix v d = Option.bind (u64_checked (v * radix)) (\<lambda>v. u64_checked (v + d))"

definition to_digit :: "nat \<Rightarrow> scalar \<Rightarrow> nat option" where
  "to_digit radix c =
     (let d = (if 48 \<le> c \<and> c \<le> 57 then c - 48
               else if 97 \<le> c \<and> c \<le> 122 then c - 97 + 10
               else if 65 \<le> c \<and> c \<le> 90 then c - 65 + 10 else radix) in
      if d < radix then Some d else None)"

fun decimal_digits :: "scalar list \<Rightarrow> nat \<Rightarrow> (lex_error + nat) option" where
  "decimal_digits [] v = Some (Inr v)"
| "decimal_digits (c # cs) v =
     (if c = 95 then decimal_digits cs v
      else
        case to_digit 10 c of
          None \<Rightarrow> None
        | Some d \<Rightarrow>
            (case push_digit 10 v d of
               None \<Rightarrow> Some (Inl InvalidInteger)
             | Some v \<Rightarrow> decimal_digits cs v))"

definition parse_decimal_literal :: "scalar list \<Rightarrow> (lex_error + nat) option" where
  "parse_decimal_literal spelling = decimal_digits spelling 0"

fun based_digits :: "radix_name \<Rightarrow> nat \<Rightarrow> scalar list \<Rightarrow> nat \<Rightarrow> nat \<Rightarrow> bool \<Rightarrow> (lex_error + nat \<times> bool) option" where
  "based_digits base radix [] i v seen = Some (Inr (v, seen))"
| "based_digits base radix (c # cs) i v seen =
     (if c = 95 then based_digits base radix cs (i + len_utf8 c) v seen
      else
        case span_offset (2 + i) of
          None \<Rightarrow> None
        | Some offset \<Rightarrow>
            (case to_digit radix c of
               None \<Rightarrow> Some (Inl (InvalidDigitForBase c base offset))
             | Some d \<Rightarrow>
                 (case push_digit radix v d of
                    None \<Rightarrow> Some (Inl InvalidInteger)
                  | Some v \<Rightarrow> based_digits base radix cs (i + len_utf8 c) v True)))"

text \<open>The radix of a prefix, in either case.\<close>

definition base_of :: "scalar \<Rightarrow> (radix_name \<times> nat) option" where
  "base_of p =
     (if p = 120 \<or> p = 88 then Some (Hexadecimal, 16)
      else if p = 111 \<or> p = 79 then Some (Octal, 8)
      else if p = 98 \<or> p = 66 then Some (Binary, 2) else None)"

definition parse_based_literal :: "scalar list \<Rightarrow> (lex_error + nat) option" where
  "parse_based_literal spelling =
     (case spelling of
        _ # prefix # digits \<Rightarrow>
          (case base_of prefix of
             None \<Rightarrow> None
           | Some (base, radix) \<Rightarrow>
               if 65 \<le> prefix \<and> prefix \<le> 90 then Some (Inl (UppercaseBasePrefix prefix))
               else
                 map_option
                   (\<lambda>r. case r of
                          Inl e \<Rightarrow> Inl e
                        | Inr (v, seen_digit) \<Rightarrow> if \<not> seen_digit then Inl (EmptyBasedLiteral base) else Inr v)
                   (based_digits base radix digits 0 0 False))
      | _ \<Rightarrow> None)"

section \<open>Floats\<close>

definition intern_float_literal :: "(scalar list \<Rightarrow> lex_error + nat) \<Rightarrow> scalar list \<Rightarrow> lex_error + nat" where
  "intern_float_literal intern spelling =
     (if 95 \<in> set spelling then intern (filter (\<lambda>c. c \<noteq> 95) spelling) else intern spelling)"

definition reject_leading_dot_float :: "scalar list \<Rightarrow> lex_error + nat" where
  "reject_leading_dot_float spelling = Inl (MalformedFloatLiteral (Leading_Dot spelling))"

definition reject_empty_exponent :: "scalar list \<Rightarrow> lex_error + nat" where
  "reject_empty_exponent spelling = Inl (MalformedFloatLiteral (Empty_Exponent spelling))"

section \<open>Bytes\<close>

text \<open>The characters before and after a byte offset; \<open>None\<close> is an offset inside a character.\<close>

fun split_bytes :: "nat \<Rightarrow> scalar list \<Rightarrow> (scalar list \<times> scalar list) option" where
  "split_bytes n [] = (if n = 0 then Some ([], []) else None)"
| "split_bytes n (c # cs) =
     (if n = 0 then Some ([], c # cs)
      else if n < len_utf8 c then None
      else map_option (\<lambda>(a, b). (c # a, b)) (split_bytes (n - len_utf8 c) cs))"

text \<open>Where the recovery stops in the rest of the literal.\<close>

fun resync_stop :: "scalar list \<Rightarrow> nat \<Rightarrow> nat" where
  "resync_stop [] offset = offset"
| "resync_stop (c # cs) offset =
     (if c = 39 then offset + len_utf8 c
      else if is_eol c then offset
      else if c = 92 then
        (case cs of
           [] \<Rightarrow> offset + len_utf8 c
         | d # ds \<Rightarrow> if is_eol d then offset + len_utf8 c else resync_stop ds (offset + len_utf8 c + len_utf8 d))
      else resync_stop cs (offset + len_utf8 c))"

definition resync_byte_literal :: "scalar list \<Rightarrow> nat \<Rightarrow> nat option" where
  "resync_byte_literal remainder consumed =
     (case split_bytes consumed remainder of
        None \<Rightarrow> None
      | Some (front, _) \<Rightarrow>
          (let consumed = (if list_ex is_eol front then byte_len (takeWhile (\<lambda>c. \<not> is_eol c) front) else consumed) in
           case split_bytes consumed remainder of
             None \<Rightarrow> None
           | Some (_, tail) \<Rightarrow> Some (consumed + resync_stop tail 0)))"

definition byte_escape :: "scalar \<Rightarrow> nat option" where
  "byte_escape e =
     (if e = 92 then Some 92 else if e = 39 then Some 39 else if e = 34 then Some 34 else if e = 110 then Some 10
      else if e = 116 then Some 9 else if e = 114 then Some 13 else if e = 48 then Some 0 else None)"

definition byte_error :: "byte_fault \<Rightarrow> nat option \<Rightarrow> (nat \<times> (lex_error + nat)) option" where
  "byte_error fault bump = map_option (\<lambda>n. (n, Inl (MalformedByteLiteral fault))) bump"

text \<open>The content of the literal: its value and its length, or the fault with the bytes to skip.\<close>

definition byte_content :: "scalar list \<Rightarrow> (byte_fault \<times> nat option) + (nat \<times> nat)" where
  "byte_content rest =
     (case rest of
        [] \<Rightarrow> Inl (Unterminated_Byte, Some 0)
      | c # cs \<Rightarrow>
          if c = 39 then Inl (Empty_Byte, resync_byte_literal rest 0)
          else if is_eol c then Inl (Line_Ended, Some 0)
          else if c = 92 then
            (case cs of
               [] \<Rightarrow> Inl (Unterminated_Escape, Some 1)
             | e # _ \<Rightarrow>
                 (case byte_escape e of
                    None \<Rightarrow> Inl (Unknown_Escape e, resync_byte_literal rest (1 + len_utf8 e))
                  | Some v \<Rightarrow> Inr (v, 1 + len_utf8 e)))
          else if c \<ge> 128 then Inl (Not_Ascii c, resync_byte_literal rest (len_utf8 c))
          else Inr (c, 1))"

definition process_byte_literal :: "scalar list \<Rightarrow> (nat \<times> (lex_error + nat)) option" where
  "process_byte_literal rest =
     (case byte_content rest of
        Inl (fault, bump) \<Rightarrow> byte_error fault bump
      | Inr (v, content_len) \<Rightarrow>
          (case split_bytes content_len rest of
             None \<Rightarrow> None
           | Some (_, []) \<Rightarrow> byte_error Missing_Quote (Some content_len)
           | Some (_, c # _) \<Rightarrow>
               if c = 39 then Some (content_len + 1, Inr v)
               else byte_error Not_One_Byte (resync_byte_literal rest content_len)))"

section \<open>Lengths\<close>

lemma byte_len_simps [simp]:
  "byte_len [] = 0" "byte_len (c # cs) = len_utf8 c + byte_len cs" "byte_len (xs @ ys) = byte_len xs + byte_len ys"
  by (simp_all add: byte_len_def)

lemma len_utf8_ascii [simp]: "c < 128 \<Longrightarrow> len_utf8 c = 1"
  by (simp add: len_utf8_def)

lemma len_utf8_pos [simp]: "0 < len_utf8 c"
  by (simp add: len_utf8_def)

lemma split_bytes_append: "split_bytes (byte_len xs) (xs @ ys) = Some (xs, ys)"
proof (induction xs)
  case Nil
  show ?case by (cases ys) simp_all
qed simp

text \<open>A count of bytes that covers whole characters and no end of a line.\<close>

definition within_line :: "nat \<Rightarrow> scalar list \<Rightarrow> bool" where
  "within_line n cs \<longleftrightarrow> (\<exists>front rear. cs = front @ rear \<and> n = byte_len front \<and> (\<forall>c \<in> set front. \<not> is_eol c))"

lemma within_line_zero [simp]: "within_line 0 cs"
  unfolding within_line_def by (intro exI[of _ "[]"] exI[of _ cs]) simp

lemma within_line_add: "\<not> is_eol c \<Longrightarrow> within_line n cs \<Longrightarrow> within_line (len_utf8 c + n) (c # cs)"
  unfolding within_line_def by (metis append_Cons byte_len_simps(2) set_ConsD)

lemma within_line_one: "\<not> is_eol c \<Longrightarrow> n = len_utf8 c \<Longrightarrow> within_line n (c # cs)"
  using within_line_add[of c 0 cs] by simp

section \<open>String literals\<close>

text \<open>The grammar of string content.\<close>

datatype string_item = Plain scalar | Escaped scalar

fun spell :: "string_item \<Rightarrow> scalar list" where
  "spell (Plain c) = [c]"
| "spell (Escaped e) = [92, e]"

fun meaning :: "string_item \<Rightarrow> scalar" where
  "meaning (Plain c) = c"
| "meaning (Escaped e) = the (string_escape e)"

fun item_ok :: "string_item \<Rightarrow> bool" where
  "item_ok (Plain c) \<longleftrightarrow> c \<noteq> 34 \<and> c \<noteq> 92 \<and> \<not> is_eol c"
| "item_ok (Escaped e) \<longleftrightarrow> string_escape e \<noteq> None"

definition spelled :: "string_item list \<Rightarrow> scalar list" where
  "spelled items = concat (map spell items)"

lemma spelled_simps [simp]: "spelled [] = []" "spelled (i # items) = spell i @ spelled items"
  by (simp_all add: spelled_def)

lemma string_escape_ascii: "string_escape e = Some v \<Longrightarrow> len_utf8 e = 1 \<and> \<not> is_eol e"
  by (auto simp: string_escape_def is_eol_def split: if_splits)

lemma scan_items:
  "list_all item_ok items \<Longrightarrow> consumed + byte_len (spelled items) < 2 ^ 32
   \<Longrightarrow> scan_string (spelled items @ rest) consumed result pending
       = scan_string rest (consumed + byte_len (spelled items)) (result @ map meaning items) pending"
proof (induction items arbitrary: consumed result)
  case (Cons i items)
  show ?case
  proof (cases i)
    case (Plain c)
    with Cons show ?thesis by (simp add: ac_simps)
  next
    case (Escaped e)
    then obtain v where v: "string_escape e = Some v" using Cons.prems(1) by auto
    with Cons Escaped show ?thesis by (simp add: span_offset_def string_escape_ascii ac_simps)
  qed
qed simp

lemma scan_closed:
  assumes "list_all item_ok items" "consumed + byte_len (spelled items) < 2 ^ 32"
  shows "scan_string (spelled items @ 34 # rest) consumed result None
    = Some (consumed + byte_len (spelled items) + 1, Inr (result @ map meaning items))"
  by (simp add: scan_items[OF assms])

text \<open>Every outcome other than a panic, and what it says of the text.\<close>

definition stops_unterminated :: "scalar list \<Rightarrow> bool" where
  "stops_unterminated tail \<longleftrightarrow>
     tail = [] \<or> tail = [92] \<or> (\<exists>e rear. is_eol e \<and> (tail = e # rear \<or> tail = 92 # e # rear))"

definition string_outcome :: "scalar list \<Rightarrow> nat \<Rightarrow> lex_error + scalar list \<Rightarrow> scalar list \<Rightarrow> bool" where
  "string_outcome cs consumed r result \<longleftrightarrow>
     (case r of
        Inr text \<Rightarrow> \<exists>items rest. list_all item_ok items \<and> cs = spelled items @ 34 # rest \<and> text = result @ map meaning items
      | Inl (InvalidStringEscape offset e) \<Rightarrow>
          \<exists>items rest. list_all item_ok items \<and> cs = spelled items @ 92 # e # rest
            \<and> offset = consumed + byte_len (spelled items) + 1 \<and> string_escape e = None \<and> \<not> is_eol e
      | Inl UnterminatedString \<Rightarrow>
          \<exists>items tail. list_all item_ok items \<and> cs = spelled items @ tail \<and> stops_unterminated tail
      | _ \<Rightarrow> False)"

lemma string_outcome_cons:
  assumes "item_ok i" "string_outcome cs (consumed + byte_len (spell i)) r (result @ [meaning i])"
  shows "string_outcome (spell i @ cs) consumed r result"
proof -
  show ?thesis
  proof (cases r)
    case (Inl e)
    show ?thesis
    proof (cases e)
      case (InvalidStringEscape offset x)
      with Inl assms(2) obtain items rest where "list_all item_ok items" "cs = spelled items @ 92 # x # rest"
        "offset = consumed + byte_len (spell i) + byte_len (spelled items) + 1" "string_escape x = None" "\<not> is_eol x"
        by (auto simp: string_outcome_def)
      then show ?thesis unfolding Inl InvalidStringEscape string_outcome_def sum.case lex_error.case
        using assms(1) by (intro exI[of _ "i # items"] exI[of _ rest]) simp
    next
      case UnterminatedString
      with Inl assms(2) obtain items tail where "list_all item_ok items" "cs = spelled items @ tail" "stops_unterminated tail"
        by (auto simp: string_outcome_def)
      then show ?thesis unfolding Inl UnterminatedString string_outcome_def sum.case lex_error.case
        using assms(1) by (intro exI[of _ "i # items"] exI[of _ tail]) simp
    qed (use assms(2) Inl in \<open>simp_all add: string_outcome_def\<close>)
  next
    case (Inr t)
    with assms(2) obtain items rest where "list_all item_ok items" "cs = spelled items @ 34 # rest" "t = result @ meaning i # map meaning items"
      by (auto simp: string_outcome_def)
    then show ?thesis unfolding Inr string_outcome_def sum.case
      using assms(1) by (intro exI[of _ "i # items"] exI[of _ rest]) simp
  qed
qed

lemma scan_outcome:
  "consumed + byte_len cs + 1 < 2 ^ 32 \<Longrightarrow>
   \<exists>n r. scan_string cs consumed result pending = Some (consumed + n, r) \<and> within_line n cs
     \<and> (case pending of Some p \<Rightarrow> r = Inl p | None \<Rightarrow> string_outcome cs consumed r result)"
proof (induction cs consumed result pending rule: scan_string.induct)
  case (1 consumed result pending)
  have "string_outcome [] consumed (Inl UnterminatedString) result"
    unfolding string_outcome_def by (auto intro!: exI[of _ "[]"] simp: stops_unterminated_def)
  then show ?case by (auto simp: first_error_def split: option.splits)
next
  case (2 c chars consumed result pending)
  have unterminated: "string_outcome tail consumed (Inl UnterminatedString) result" if "stops_unterminated tail" for tail
    unfolding string_outcome_def sum.case lex_error.case using that
    by (intro exI[of _ "[]"] exI[of _ tail]) simp
  consider (quote) "c = 34" | (backslash) "c = 92" | (eol) "c \<noteq> 34" "c \<noteq> 92" "is_eol c"
    | (plain) "c \<noteq> 34" "c \<noteq> 92" "\<not> is_eol c" by blast
  then show ?case
  proof cases
    case quote
    have "within_line 1 (c # chars)" by (rule within_line_one) (simp_all add: quote is_eol_def)
    moreover have "string_outcome (c # chars) consumed (Inr result) result"
      unfolding string_outcome_def by (auto intro!: exI[of _ "[]"] simp: quote)
    ultimately show ?thesis using quote by (auto split: option.splits)
  next
    case eol
    have "stops_unterminated (c # chars)" using eol by (auto simp: stops_unterminated_def)
    with unterminated eol show ?thesis by (auto simp: first_error_def split: option.splits)
  next
    case plain
    with 2(3)[OF _ _ _] 2(4) obtain n r where ih: "scan_string chars (consumed + len_utf8 c) (result @ [c]) pending = Some (consumed + len_utf8 c + n, r)"
      "within_line n chars" "case pending of Some p \<Rightarrow> r = Inl p | None \<Rightarrow> string_outcome chars (consumed + len_utf8 c) r (result @ [c])"
      by (auto simp: ac_simps)
    have "string_outcome (c # chars) consumed r result" if "pending = None"
      using string_outcome_cons[of "Plain c" chars consumed r result] ih(3) plain that by simp
    with ih plain within_line_add[OF plain(3) ih(2)] show ?thesis
      by (intro exI[of _ "len_utf8 c + n"] exI[of _ r]) (auto simp: ac_simps split: option.splits)
  next
    case backslash
    have off: "span_offset (consumed + 1) = Some (consumed + 1)" using 2(4) by (simp add: span_offset_def backslash)
    have one: "within_line 1 (92 # chars)" by (rule within_line_one) (simp_all add: is_eol_def)
    show ?thesis
    proof (cases chars)
      case Nil
      then show ?thesis using backslash off one unterminated[of "[92]"]
        by (auto simp: first_error_def stops_unterminated_def split: option.splits)
    next
      case (Cons e rest)
      show ?thesis
      proof (cases "string_escape e")
        case (Some v)
        note esc = string_escape_ascii[OF Some]
        obtain n r where ih: "scan_string rest (consumed + 2) (result @ [v]) pending = Some (consumed + 2 + n, r)"
          "within_line n rest" "case pending of Some p \<Rightarrow> r = Inl p | None \<Rightarrow> string_outcome rest (consumed + 2) r (result @ [v])"
          using 2(2)[OF _ backslash off refl Cons Some] 2(4) backslash Cons esc by (auto simp: ac_simps split: option.splits)
        have "string_outcome (92 # e # rest) consumed r result" if "pending = None"
          using string_outcome_cons[of "Escaped e" rest consumed r result] ih(3) Some esc that by simp
        moreover have "within_line (1 + (1 + n)) (92 # e # rest)"
          using within_line_add[of 92 _ "e # rest"] within_line_add[of e n rest] ih(2) esc by (simp add: is_eol_def)
        moreover have "scan_string (c # chars) consumed result pending = Some (consumed + (2 + n), r)"
          using ih(1) off Some by (simp add: backslash Cons ac_simps)
        ultimately show ?thesis using ih(3) unfolding backslash Cons
          by (intro exI[of _ "2 + n"] exI[of _ r]) (auto split: option.splits)
      next
        case None
        show ?thesis
        proof (cases "is_eol e")
          case True
          then have "stops_unterminated (92 # e # rest)" by (auto simp: stops_unterminated_def)
          then show ?thesis using backslash off one unterminated None True Cons
            by (auto simp: first_error_def split: option.splits)
        next
          case False
          let ?p = "first_error pending (InvalidStringEscape (consumed + 1) e)"
          obtain n r where ih: "scan_string rest (consumed + 1 + len_utf8 e) result (Some ?p) = Some (consumed + 1 + len_utf8 e + n, r)"
            "within_line n rest" "r = Inl ?p"
            using 2(1)[OF _ backslash off refl Cons None False] 2(4) backslash Cons by (auto simp: ac_simps)
          have "within_line (1 + (len_utf8 e + n)) (92 # e # rest)"
            using within_line_add[of 92 _ "e # rest"] within_line_add[OF False ih(2)] by (simp add: is_eol_def)
          moreover have "string_outcome (92 # e # rest) consumed (Inl (InvalidStringEscape (consumed + 1) e)) result"
            unfolding string_outcome_def sum.case lex_error.case using None False
            by (intro exI[of _ "[]"] exI[of _ rest]) simp
          moreover have "scan_string (c # chars) consumed result pending = Some (consumed + (1 + (len_utf8 e + n)), Inl ?p)"
            using ih off None False by (simp add: backslash Cons ac_simps)
          ultimately show ?thesis unfolding backslash Cons
            by (intro exI[of _ "1 + (len_utf8 e + n)"] exI[of _ "Inl ?p"]) (auto simp: first_error_def split: option.splits)
        qed
      qed
    qed
  qed
qed

section \<open>Integer literals\<close>

text \<open>The digits of a literal without its separators, and their number.\<close>

definition literal_digits :: "nat \<Rightarrow> scalar list \<Rightarrow> nat list" where
  "literal_digits radix cs = map (\<lambda>c. the (to_digit radix c)) (filter (\<lambda>c. c \<noteq> 95) cs)"

definition digits_number :: "nat \<Rightarrow> nat list \<Rightarrow> nat" where
  "digits_number radix ds = foldl (\<lambda>v d. v * radix + d) 0 ds"

definition digit_or_separator :: "nat \<Rightarrow> scalar \<Rightarrow> bool" where
  "digit_or_separator radix c \<longleftrightarrow> c = 95 \<or> to_digit radix c \<noteq> None"

lemma push_digit_eq: "0 < radix \<Longrightarrow> push_digit radix v d = u64_checked (v * radix + d)"
  by (auto simp: push_digit_def u64_checked_def)

lemma foldl_digits_ge: "0 < radix \<Longrightarrow> (v::nat) \<le> foldl (\<lambda>v d. v * radix + d) v ds"
proof (induction ds arbitrary: v)
  case (Cons d ds)
  have "v \<le> v * radix + d" using Cons.prems by (simp add: trans_le_add1)
  also have "\<dots> \<le> foldl (\<lambda>v d. v * radix + d) (v * radix + d) ds" using Cons by blast
  finally show ?case by simp
qed simp

lemma decimal_digits_eq:
  "list_all (digit_or_separator 10) cs \<Longrightarrow> v < 2 ^ 64
   \<Longrightarrow> decimal_digits cs v
       = (let n = foldl (\<lambda>v d. v * 10 + d) v (literal_digits 10 cs) in
          Some (if n < 2 ^ 64 then Inr n else Inl InvalidInteger))"
proof (induction cs v rule: decimal_digits.induct)
  case (2 c cs v)
  show ?case
  proof (cases "c = 95")
    case True
    with 2 show ?thesis by (simp add: literal_digits_def)
  next
    case False
    then obtain d where d: "to_digit 10 c = Some d" using 2(3) by (auto simp: digit_or_separator_def)
    let ?n = "foldl (\<lambda>v d. v * 10 + d) (v * 10 + d) (literal_digits 10 cs)"
    have n: "foldl (\<lambda>v d. v * 10 + d) v (literal_digits 10 (c # cs)) = ?n" using False d by (simp add: literal_digits_def)
    have ge: "v * 10 + d \<le> ?n" by (rule foldl_digits_ge) simp
    show ?thesis
    proof (cases "v * 10 + d < 2 ^ 64")
      case True
      then show ?thesis using 2(2)[OF False d, of "v * 10 + d"] 2(3) False d n
        by (simp add: push_digit_eq u64_checked_def)
    next
      case False
      then have "\<not> ?n < 2 ^ 64" using ge by linarith
      then show ?thesis using False \<open>c \<noteq> 95\<close> d n by (simp add: push_digit_eq u64_checked_def Let_def)
    qed
  qed
qed (simp add: literal_digits_def)

text \<open>The outcomes of the based rule.\<close>

definition based_outcome :: "radix_name \<Rightarrow> nat \<Rightarrow> scalar list \<Rightarrow> nat \<Rightarrow> nat \<Rightarrow> bool \<Rightarrow> lex_error + nat \<times> bool \<Rightarrow> bool" where
  "based_outcome base radix cs i v seen r \<longleftrightarrow>
     (case r of
        Inr (n, seen') \<Rightarrow>
          list_all (digit_or_separator radix) cs \<and> n = foldl (\<lambda>v d. v * radix + d) v (literal_digits radix cs)
          \<and> n < 2 ^ 64 \<and> (seen' \<longleftrightarrow> seen \<or> (\<exists>c \<in> set cs. c \<noteq> 95))
      | Inl (InvalidDigitForBase c b offset) \<Rightarrow>
          b = base \<and> (\<exists>front rear. cs = front @ c # rear \<and> list_all (digit_or_separator radix) front
            \<and> \<not> digit_or_separator radix c \<and> offset = 2 + i + byte_len front)
      | Inl InvalidInteger \<Rightarrow>
          \<exists>front rear. cs = front @ rear \<and> list_all (digit_or_separator radix) front
            \<and> 2 ^ 64 \<le> foldl (\<lambda>v d. v * radix + d) v (literal_digits radix front)
      | _ \<Rightarrow> False)"

lemma literal_digits_Cons:
  "literal_digits radix (c # cs) = (if c = 95 then literal_digits radix cs else the (to_digit radix c) # literal_digits radix cs)"
  by (simp add: literal_digits_def)

lemma based_outcome_cons:
  assumes "digit_or_separator radix c" "based_outcome base radix cs (i + len_utf8 c) v' (seen \<or> c \<noteq> 95) r"
    and "v' = (if c = 95 then v else v * radix + the (to_digit radix c))"
  shows "based_outcome base radix (c # cs) i v seen r"
proof (cases r)
  case (Inr p)
  then show ?thesis using assms by (cases p) (auto simp: based_outcome_def literal_digits_Cons)
next
  case (Inl e)
  show ?thesis
  proof (cases e)
    case InvalidInteger
    with Inl assms(2) obtain front rear where "cs = front @ rear" "list_all (digit_or_separator radix) front"
      "2 ^ 64 \<le> foldl (\<lambda>v d. v * radix + d) v' (literal_digits radix front)"
      by (auto simp: based_outcome_def)
    then show ?thesis unfolding Inl InvalidInteger based_outcome_def sum.case lex_error.case
      using assms(1,3) by - (rule exI[of _ "c # front"], rule exI[of _ rear], cases "c = 95", simp_all add: literal_digits_Cons)
  next
    case (InvalidDigitForBase x b offset)
    with Inl assms(2) obtain front rear where "b = base" "cs = front @ x # rear" "list_all (digit_or_separator radix) front"
      "\<not> digit_or_separator radix x" "offset = 2 + (i + len_utf8 c) + byte_len front"
      by (auto simp: based_outcome_def)
    then show ?thesis unfolding Inl InvalidDigitForBase based_outcome_def sum.case lex_error.case
      using assms(1) by (intro conjI exI[of _ "c # front"] exI[of _ rear]) simp_all
  qed (use assms(2) Inl in \<open>simp_all add: based_outcome_def\<close>)
qed

lemma based_digits_outcome:
  "0 < radix \<Longrightarrow> 2 + i + byte_len cs < 2 ^ 32 \<Longrightarrow> v < 2 ^ 64
   \<Longrightarrow> \<exists>r. based_digits base radix cs i v seen = Some r \<and> based_outcome base radix cs i v seen r"
proof (induction cs arbitrary: i v seen)
  case Nil
  then show ?case by (simp add: based_outcome_def literal_digits_def)
next
  case (Cons c cs)
  have len: "2 + (i + len_utf8 c) + byte_len cs < 2 ^ 32" using Cons.prems(2) by simp
  have off: "span_offset (2 + i) = Some (2 + i)" using Cons.prems(2) by (simp add: span_offset_def)
  show ?case
  proof (cases "c = 95")
    case True
    obtain r where r: "based_digits base radix cs (i + len_utf8 c) v seen = Some r"
      "based_outcome base radix cs (i + len_utf8 c) v seen r"
      using Cons.IH[OF Cons.prems(1) len Cons.prems(3)] by blast
    have "based_outcome base radix (c # cs) i v seen r"
      by (rule based_outcome_cons[OF _ _ refl]) (use True r(2) in \<open>simp_all add: digit_or_separator_def\<close>)
    then show ?thesis using True r(1) by simp
  next
    case False
    show ?thesis
    proof (cases "to_digit radix c")
      case None
      then have "based_outcome base radix (c # cs) i v seen (Inl (InvalidDigitForBase c base (2 + i)))"
        unfolding based_outcome_def sum.case lex_error.case using False
        by (intro conjI refl exI[of _ "[]"] exI[of _ cs]) (simp_all add: digit_or_separator_def)
      moreover have "based_digits base radix (c # cs) i v seen = Some (Inl (InvalidDigitForBase c base (2 + i)))"
        unfolding based_digits.simps off None using False by simp
      ultimately show ?thesis by blast
    next
      case (Some d)
      have dig: "digit_or_separator radix c" using Some by (simp add: digit_or_separator_def)
      have pd: "push_digit radix v d = (if v * radix + d < 2 ^ 64 then Some (v * radix + d) else None)"
        by (simp only: push_digit_eq[OF Cons.prems(1)] u64_checked_def)
      show ?thesis
      proof (cases "v * radix + d < 2 ^ 64")
        case True
        obtain r where r: "based_digits base radix cs (i + len_utf8 c) (v * radix + d) True = Some r"
          "based_outcome base radix cs (i + len_utf8 c) (v * radix + d) True r"
          using Cons.IH[OF Cons.prems(1) len True] by blast
        have "based_outcome base radix (c # cs) i v seen r"
          by (rule based_outcome_cons[OF dig _ refl]) (use False Some r(2) in simp)
        moreover have "based_digits base radix (c # cs) i v seen = Some r"
          unfolding based_digits.simps off Some using False pd True r(1) by simp
        ultimately show ?thesis by blast
      next
        case big: False
        have "based_outcome base radix (c # cs) i v seen (Inl InvalidInteger)"
          unfolding based_outcome_def sum.case lex_error.case using False Some big dig
          by (intro exI[of _ "[c]"] exI[of _ cs]) (simp add: literal_digits_def)
        moreover have "based_digits base radix (c # cs) i v seen = Some (Inl InvalidInteger)"
          unfolding based_digits.simps off Some using False pd big by simp
        ultimately show ?thesis by blast
      qed
    qed
  qed
qed

section \<open>Byte literals\<close>

lemma resync_stop_within:
  "\<exists>n. resync_stop cs offset = offset + n \<and> within_line n cs"
proof (induction cs offset rule: resync_stop.induct)
  case (2 c cs offset)
  consider "c = 39" | "c \<noteq> 39" "is_eol c" | "c = 92" | "c \<noteq> 39" "\<not> is_eol c" "c \<noteq> 92" by blast
  then show ?case
  proof cases
    case 1
    then show ?thesis using within_line_one[of c "len_utf8 c" cs] by (intro exI[of _ "len_utf8 c"]) (simp add: is_eol_def)
  next
    case 2
    then show ?thesis by (intro exI[of _ 0]) simp
  next
    case 3
    have one: "within_line (len_utf8 c) (c # cs)" by (rule within_line_one) (simp_all add: 3 is_eol_def)
    show ?thesis
    proof (cases cs)
      case Nil
      then show ?thesis using 3 one by (intro exI[of _ "len_utf8 c"]) (simp add: is_eol_def)
    next
      case (Cons d ds)
      show ?thesis
      proof (cases "is_eol d")
        case True
        then show ?thesis using 3 Cons one by (intro exI[of _ "len_utf8 c"]) (simp add: is_eol_def)
      next
        case False
        then obtain n where n: "resync_stop ds (offset + len_utf8 c + len_utf8 d) = offset + len_utf8 c + len_utf8 d + n" "within_line n ds"
          using "2.IH"(1) 3 Cons by (auto simp: is_eol_def)
        have "within_line (len_utf8 c + (len_utf8 d + n)) (c # cs)"
          unfolding Cons by (intro within_line_add n(2)) (use 3 False in \<open>simp_all add: is_eol_def\<close>)
        then show ?thesis using 3 Cons False n(1) by (intro exI[of _ "len_utf8 c + (len_utf8 d + n)"]) (simp add: is_eol_def)
      qed
    qed
  next
    case 4
    then obtain n where "resync_stop cs (offset + len_utf8 c) = offset + len_utf8 c + n" "within_line n cs"
      using "2.IH"(2) by auto
    then show ?thesis using 4 within_line_add[of c n cs] by (intro exI[of _ "len_utf8 c + n"]) simp
  qed
qed simp

lemma within_line_append: "\<forall>c \<in> set xs. \<not> is_eol c \<Longrightarrow> within_line n ys \<Longrightarrow> within_line (byte_len xs + n) (xs @ ys)"
  by (induction xs) (auto intro: within_line_add simp: add.assoc)

lemma resync_within:
  assumes "remainder = front @ rear" "consumed = byte_len front"
  shows "\<exists>n. resync_byte_literal remainder consumed = Some n \<and> within_line n remainder"
proof (cases "list_ex is_eol front")
  case True
  let ?line = "takeWhile (\<lambda>c. \<not> is_eol c) front" and ?rest = "dropWhile (\<lambda>c. \<not> is_eol c) front @ rear"
  have r: "remainder = ?line @ ?rest" using assms(1) by simp
  obtain n where n: "resync_stop ?rest 0 = n" "within_line n ?rest" using resync_stop_within[of ?rest 0] by auto
  have "resync_byte_literal remainder consumed = Some (byte_len ?line + n)"
    unfolding resync_byte_literal_def using True n(1) split_bytes_append[of front rear] split_bytes_append[of ?line ?rest]
    by (simp add: Let_def assms(2) flip: r) (simp add: assms(1))
  moreover have "within_line (byte_len ?line + n) (?line @ ?rest)"
    by (rule within_line_append[OF _ n(2)]) (auto dest: set_takeWhileD)
  ultimately show ?thesis using r by metis
next
  case False
  obtain n where n: "resync_stop rear 0 = n" "within_line n rear" using resync_stop_within[of rear 0] by auto
  have "resync_byte_literal remainder consumed = Some (byte_len front + n)"
    using False n(1) split_bytes_append[of front rear] assms by (simp add: resync_byte_literal_def Let_def)
  moreover have "within_line (byte_len front + n) (front @ rear)"
    by (rule within_line_append[OF _ n(2)]) (use False in \<open>auto simp: list_ex_iff\<close>)
  ultimately show ?thesis using assms(1) by blast
qed

lemma byte_escape_ascii: "byte_escape e = Some v \<Longrightarrow> len_utf8 e = 1 \<and> \<not> is_eol e"
  by (auto simp: byte_escape_def is_eol_def split: if_splits)

text \<open>The spelling of a byte.\<close>

definition spells_byte :: "scalar list \<Rightarrow> nat \<Rightarrow> bool" where
  "spells_byte cs v \<longleftrightarrow>
     (\<exists>c. cs = [c] \<and> c < 128 \<and> c \<noteq> 39 \<and> c \<noteq> 92 \<and> \<not> is_eol c \<and> v = c) \<or> (\<exists>e. cs = [92, e] \<and> byte_escape e = Some v)"

lemma byte_content_Inr:
  "byte_content rest = Inr (v, n) \<longleftrightarrow> (\<exists>front rear. rest = front @ rear \<and> spells_byte front v \<and> n = byte_len front)"
proof
  assume b: "byte_content rest = Inr (v, n)"
  then obtain c cs where rest: "rest = c # cs" by (auto simp: byte_content_def split: list.splits)
  show "\<exists>front rear. rest = front @ rear \<and> spells_byte front v \<and> n = byte_len front"
  proof (cases "c = 92")
    case True
    then obtain e ds where "cs = e # ds" "byte_escape e = Some v" "n = 1 + len_utf8 e"
      using b rest by (auto simp: byte_content_def is_eol_def split: list.splits option.splits)
    then show ?thesis using rest True byte_escape_ascii[of e v]
      by (intro exI[of _ "[92, e]"] exI[of _ ds]) (auto simp: spells_byte_def)
  next
    case False
    then have "c < 128" "c \<noteq> 39" "\<not> is_eol c" "v = c" "n = 1"
      using b rest by (auto simp: byte_content_def split: if_splits)
    then show ?thesis using rest False by (intro exI[of _ "[c]"] exI[of _ cs]) (auto simp: spells_byte_def)
  qed
next
  assume "\<exists>front rear. rest = front @ rear \<and> spells_byte front v \<and> n = byte_len front"
  then show "byte_content rest = Inr (v, n)"
    by (auto simp: spells_byte_def byte_content_def byte_escape_ascii is_eol_def)
qed

lemma spells_byte_line: "spells_byte cs v \<Longrightarrow> \<forall>c \<in> set cs. \<not> is_eol c"
  by (auto simp: spells_byte_def is_eol_def dest: byte_escape_ascii)

lemma byte_content_Inl:
  assumes "byte_content rest = Inl (fault, bump)"
  shows "\<exists>n. bump = Some n \<and> within_line n rest"
proof (cases rest)
  case Nil
  then show ?thesis using assms by (auto simp: byte_content_def)
next
  case (Cons c cs)
  consider "c = 39" | "c \<noteq> 39" "is_eol c" | "c = 92" "cs = []" | e ds where "c = 92" "cs = e # ds" | "c \<noteq> 39" "\<not> is_eol c" "c \<noteq> 92"
    by (metis neq_Nil_conv)
  then show ?thesis
  proof cases
    case 1
    then show ?thesis using assms Cons resync_within[of rest "[]" rest 0] by (auto simp: byte_content_def)
  next
    case 2
    then show ?thesis using assms Cons by (auto simp: byte_content_def)
  next
    case 3
    then have "within_line 1 rest" unfolding Cons by (intro within_line_one) (simp_all add: is_eol_def)
    then show ?thesis using assms Cons 3 by (auto simp: byte_content_def is_eol_def)
  next
    case 4
    then have "byte_escape e = None" "bump = resync_byte_literal rest (1 + len_utf8 e)"
      using assms Cons by (auto simp: byte_content_def is_eol_def split: option.splits)
    then show ?thesis using 4 Cons resync_within[of rest "[92, e]" ds "1 + len_utf8 e"] by simp
  next
    case 5
    then have "bump = resync_byte_literal rest (len_utf8 c)"
      using assms Cons by (auto simp: byte_content_def split: if_splits)
    then show ?thesis using Cons resync_within[of rest "[c]" cs "len_utf8 c"] by simp
  qed
qed
section \<open>What the callbacks promise\<close>

text \<open>A character of a string or an escape pair, valid or not, that does not leave the line.\<close>

fun raw_ok :: "string_item \<Rightarrow> bool" where
  "raw_ok (Plain c) \<longleftrightarrow> c \<noteq> 34 \<and> c \<noteq> 92 \<and> \<not> is_eol c"
| "raw_ok (Escaped e) \<longleftrightarrow> \<not> is_eol e"

lemma scan_resyncs:
  "list_all raw_ok items \<Longrightarrow> consumed + byte_len (spelled items) < 2 ^ 32
   \<Longrightarrow> \<exists>r. scan_string (spelled items @ 34 # rest) consumed result pending = Some (consumed + byte_len (spelled items) + 1, r)"
proof (induction items arbitrary: consumed result pending)
  case (Cons i items)
  show ?case
  proof (cases i)
    case (Plain c)
    then show ?thesis using Cons.prems Cons.IH[of "consumed + len_utf8 c" "result @ [c]" pending] by (simp add: ac_simps)
  next
    case (Escaped e)
    have off: "span_offset (consumed + 1) = Some (consumed + 1)" using Cons.prems(2) Escaped
      by (simp add: span_offset_def)
    show ?thesis
    proof (cases "string_escape e")
      case None
      then show ?thesis using Cons.prems off Escaped
          Cons.IH[of "consumed + 1 + len_utf8 e" result "Some (first_error pending (InvalidStringEscape (consumed + 1) e))"]
        by (simp add: ac_simps)
    next
      case (Some v)
      then show ?thesis using Cons.prems off Escaped Cons.IH[of "consumed + 2" "result @ [v]" pending]
        by (simp add: string_escape_ascii ac_simps)
    qed
  qed
qed simp

text \<open>What a result of the string callback says of the text after the opening quote.\<close>

definition string_verdict :: "(scalar list \<Rightarrow> lex_error + nat) \<Rightarrow> scalar list \<Rightarrow> nat \<Rightarrow> lex_error + nat \<Rightarrow> bool" where
  "string_verdict intern remainder n r \<longleftrightarrow>
     (\<exists>items rest. list_all item_ok items \<and> remainder = spelled items @ 34 # rest
        \<and> n = byte_len (spelled items) + 1 \<and> r = intern (map meaning items))
     \<or> (\<exists>items e rest. list_all item_ok items \<and> remainder = spelled items @ 92 # e # rest
        \<and> string_escape e = None \<and> \<not> is_eol e \<and> r = Inl (InvalidStringEscape (byte_len (spelled items) + 1) e))
     \<or> (\<exists>items tail. list_all item_ok items \<and> remainder = spelled items @ tail \<and> stops_unterminated tail
        \<and> r = Inl UnterminatedString)"

text \<open>
  C23. The string callback never panics on a text whose offsets fit 32 bits, and never consumes past
  the end of the line.  It succeeds exactly on content spelled with plain characters and the six
  escapes up to a quote, with the meaning of that content interned; an invalid escape is reported
  as the first one, with its offset; everything else is unterminated.  Whatever the escapes are, a
  literal that is closed on its line is consumed through its closing quote.
\<close>

theorem string_literal_exact:
  assumes "byte_len remainder + 1 < 2 ^ 32"
  shows "(case process_string_from_quote intern remainder of
            None \<Rightarrow> False
          | Some (n, r) \<Rightarrow> within_line n remainder \<and> string_verdict intern remainder n r)
    \<and> (\<forall>raw rest. list_all raw_ok raw \<and> remainder = spelled raw @ 34 # rest
         \<longrightarrow> map_option fst (process_string_from_quote intern remainder) = Some (byte_len (spelled raw) + 1))"
proof (intro conjI allI impI)
  obtain n r where scan: "scan_string remainder 0 [] None = Some (n, r)" "within_line n remainder"
    "string_outcome remainder 0 r []"
    using scan_outcome[of 0 remainder "[]" None] assms by auto
  have "string_verdict intern remainder n (case r of Inl e \<Rightarrow> Inl e | Inr t \<Rightarrow> intern t)"
  proof (cases r)
    case (Inl e)
    then show ?thesis using scan(3) by (cases e) (auto simp: string_outcome_def string_verdict_def)
  next
    case (Inr t)
    then obtain items rest where "list_all item_ok items" "remainder = spelled items @ 34 # rest" "t = map meaning items"
      using scan(3) by (auto simp: string_outcome_def)
    then show ?thesis using scan(1) scan_closed[of items 0 rest "[]"] assms Inr
      by (auto simp: string_verdict_def)
  qed
  then show "case process_string_from_quote intern remainder of
            None \<Rightarrow> False
          | Some (n, r) \<Rightarrow> within_line n remainder \<and> string_verdict intern remainder n r"
    using scan by (simp add: process_string_from_quote_def)
next
  fix raw rest
  assume "list_all raw_ok raw \<and> remainder = spelled raw @ 34 # rest"
  then show "map_option fst (process_string_from_quote intern remainder) = Some (byte_len (spelled raw) + 1)"
    using scan_resyncs[of raw 0 rest "[]" None] assms by (auto simp: process_string_from_quote_def)
qed

text \<open>The content \<open>a\n\<close> and a quote, with \<open>z\<close> after it.\<close>

theorem string_literal_exact_witness:
  "map_option fst (process_string_from_quote (\<lambda>t. Inr (sum_list t)) [97, 92, 110, 34, 122]) = Some 4"
proof -
  let ?rem = "[97, 92, 110, 34, 122]" and ?raw = "[Plain 97, Escaped 110]"
  have len: "byte_len ?rem + 1 < 2 ^ 32" by simp
  have raw: "list_all raw_ok ?raw \<and> ?rem = spelled ?raw @ 34 # [122]" by (simp add: is_eol_def)
  have bytes: "byte_len (spelled ?raw) + 1 = 4" by simp
  show ?thesis
    using string_literal_exact[OF len, of "\<lambda>t. Inr (sum_list t)", THEN conjunct2, THEN spec, THEN spec, THEN mp, OF raw]
    unfolding bytes .
qed
text \<open>What a result of the based rule says of the digits after the prefix.\<close>

definition based_verdict :: "radix_name \<Rightarrow> nat \<Rightarrow> scalar list \<Rightarrow> lex_error + nat \<Rightarrow> bool" where
  "based_verdict base radix digits r \<longleftrightarrow>
     (case r of
        Inr n \<Rightarrow>
          list_all (digit_or_separator radix) digits \<and> (\<exists>c \<in> set digits. c \<noteq> 95)
          \<and> n = digits_number radix (literal_digits radix digits) \<and> n < 2 ^ 64
      | Inl (InvalidDigitForBase c b offset) \<Rightarrow>
          b = base \<and> (\<exists>front rear. digits = front @ c # rear \<and> list_all (digit_or_separator radix) front
            \<and> \<not> digit_or_separator radix c \<and> offset = 2 + byte_len front)
      | Inl InvalidInteger \<Rightarrow>
          \<exists>front rear. digits = front @ rear \<and> list_all (digit_or_separator radix) front
            \<and> 2 ^ 64 \<le> digits_number radix (literal_digits radix front)
      | Inl (EmptyBasedLiteral b) \<Rightarrow> b = base \<and> (\<forall>c \<in> set digits. c = 95)
      | _ \<Rightarrow> False)"

lemma based_verdict_of_outcome:
  assumes "based_outcome base radix digits 0 0 False r"
  shows "based_verdict base radix digits
    (case r of Inl e \<Rightarrow> Inl e | Inr (v, seen_digit) \<Rightarrow> if \<not> seen_digit then Inl (EmptyBasedLiteral base) else Inr v)"
proof (cases r)
  case (Inl e)
  then show ?thesis using assms by (cases e) (simp_all add: based_outcome_def based_verdict_def digits_number_def)
next
  case (Inr p)
  then show ?thesis using assms by (cases p) (auto simp: based_outcome_def based_verdict_def digits_number_def)
qed

lemma base_of_pos: "base_of p = Some (base, radix) \<Longrightarrow> 0 < radix"
  by (auto simp: base_of_def split: if_splits)

lemma parse_based_verdict:
  assumes "base_of p = Some (base, radix)" "\<not> (65 \<le> p \<and> p \<le> 90)" "2 + byte_len digits < 2 ^ 32"
  shows "\<exists>r. parse_based_literal (z # p # digits) = Some r \<and> based_verdict base radix digits r"
proof -
  obtain r where r: "based_digits base radix digits 0 0 False = Some r" "based_outcome base radix digits 0 0 False r"
    using based_digits_outcome[OF base_of_pos[OF assms(1)], of 0 digits 0 base False] assms(3) by auto
  have "parse_based_literal (z # p # digits) = Some
    (case r of Inl e \<Rightarrow> Inl e | Inr (v, seen_digit) \<Rightarrow> if \<not> seen_digit then Inl (EmptyBasedLiteral base) else Inr v)"
    unfolding parse_based_literal_def using assms(1,2) r(1) by auto
  then show ?thesis using based_verdict_of_outcome[OF r(2)] by blast
qed

text \<open>
  C26. On digits and separators the decimal rule returns the number they spell, or
  \<open>InvalidInteger\<close> when it does not fit 64 bits, and never panics.  On a lower-case base prefix the
  based rule returns the number, within 64 bits, exactly of digits of the base and separators with
  at least one digit; its errors name the first digit outside the base and its offset, a prefix of
  digits that overflows, or a literal of separators alone.
\<close>

theorem integer_literal_exact:
  assumes "list_all (digit_or_separator 10) spelling"
    and "base_of p = Some (base, radix)" "\<not> (65 \<le> p \<and> p \<le> 90)" "2 + byte_len digits < 2 ^ 32"
  shows "parse_decimal_literal spelling
      = Some (if digits_number 10 (literal_digits 10 spelling) < 2 ^ 64
              then Inr (digits_number 10 (literal_digits 10 spelling)) else Inl InvalidInteger)
    \<and> (\<exists>r. parse_based_literal (48 # p # digits) = Some r \<and> based_verdict base radix digits r)"
  using decimal_digits_eq[OF assms(1), of 0] parse_based_verdict[OF assms(2-)]
  by (simp_all add: parse_decimal_literal_def digits_number_def Let_def)

text \<open>\<open>1_000\<close> and \<open>0xff\<close>.\<close>

theorem integer_literal_exact_witness:
  "parse_decimal_literal [49, 95, 48, 48, 48] = Some (Inr 1000)
   \<and> (\<exists>r. parse_based_literal (48 # 120 # [102, 102]) = Some r \<and> based_verdict Hexadecimal 16 [102, 102] r)"
proof
  have dec: "list_all (digit_or_separator 10) [49, 95, 48, 48, 48]"
    by (simp add: digit_or_separator_def to_digit_def)
  have base: "base_of 120 = Some (Hexadecimal, 16)" "\<not> (65 \<le> (120::nat) \<and> (120::nat) \<le> 90)"
    "2 + byte_len [102, 102] < 2 ^ 32"
    by (simp_all add: base_of_def)
  have number: "digits_number 10 (literal_digits 10 [49, 95, 48, 48, 48]) = 1000"
    by (simp add: digits_number_def literal_digits_def to_digit_def)
  show "parse_decimal_literal [49, 95, 48, 48, 48] = Some (Inr 1000)"
    using integer_literal_exact[OF dec base] unfolding number by simp
  show "\<exists>r. parse_based_literal (48 # 120 # [102, 102]) = Some r \<and> based_verdict Hexadecimal 16 [102, 102] r"
    using integer_literal_exact[OF dec base] by blast
qed

lemma byte_content_split:
  assumes "byte_content rest = Inr (v, n)"
  obtains front rear where "rest = front @ rear" "spells_byte front v" "n = byte_len front"
    "split_bytes n rest = Some (front, rear)"
  using assms byte_content_Inr[of rest v n] split_bytes_append by metis

text \<open>The spelled prefix and its byte are determined by the text.\<close>

lemma byte_content_unique:
  assumes "rest = front @ rear" "spells_byte front v"
  shows "byte_content rest = Inr (v, byte_len front)"
  using byte_content_Inr[of rest v "byte_len front"] assms by blast

text \<open>
  The text of a literal on its line: plain characters and escaped ones, up to a closing quote that
  no backslash escapes, the end of the line or a backslash before it, or the end of the text.
\<close>

fun line_item :: "string_item \<Rightarrow> bool" where
  "line_item (Plain c) \<longleftrightarrow> c \<noteq> 39 \<and> c \<noteq> 92 \<and> \<not> is_eol c"
| "line_item (Escaped e) \<longleftrightarrow> \<not> is_eol e"

definition literal_ends :: "scalar list \<Rightarrow> nat \<Rightarrow> bool" where
  "literal_ends cs n \<longleftrightarrow> (\<exists>items rear. cs = spelled items @ rear \<and> list_all line_item items
     \<and> ((\<exists>xs. rear = 39 # xs) \<and> n = byte_len (spelled items) + 1
        \<or> (rear = [] \<or> is_eol (hd rear)) \<and> n = byte_len (spelled items)
        \<or> (\<exists>xs. rear = 92 # xs \<and> (xs = [] \<or> is_eol (hd xs))) \<and> n = byte_len (spelled items) + 1))"

lemma literal_ends_item:
  assumes "line_item i" "literal_ends cs n"
  shows "literal_ends (spell i @ cs) (byte_len (spell i) + n)"
proof -
  obtain items rear where r: "cs = spelled items @ rear" "list_all line_item items"
    "(\<exists>xs. rear = 39 # xs) \<and> n = byte_len (spelled items) + 1 \<or> (rear = [] \<or> is_eol (hd rear)) \<and> n = byte_len (spelled items)
      \<or> (\<exists>xs. rear = 92 # xs \<and> (xs = [] \<or> is_eol (hd xs))) \<and> n = byte_len (spelled items) + 1"
    using assms(2) by (auto simp: literal_ends_def)
  then show ?thesis using assms(1) unfolding literal_ends_def by (intro exI[of _ "i # items"] exI[of _ rear]) auto
qed

lemma literal_ends_stop:
  "cs = 39 # xs \<Longrightarrow> literal_ends cs 1" "cs = [] \<or> is_eol (hd cs) \<Longrightarrow> literal_ends cs 0"
  "cs = 92 # xs \<Longrightarrow> xs = [] \<or> is_eol (hd xs) \<Longrightarrow> literal_ends cs 1"
  unfolding literal_ends_def by (intro exI[of _ "[]"] exI[of _ cs]; simp)+

lemma resync_stop_ends: "\<exists>n. resync_stop cs offset = offset + n \<and> literal_ends cs n"
proof (induction cs offset rule: resync_stop.induct)
  case (2 c cs offset)
  consider "c = 39" | "c \<noteq> 39" "is_eol c" | "c = 92" "cs = [] \<or> is_eol (hd cs)" | d ds where "c = 92" "cs = d # ds" "\<not> is_eol d"
    | "line_item (Plain c)"
    by (cases cs) auto
  then show ?case
  proof cases
    case 4
    then obtain n where n: "resync_stop ds (offset + len_utf8 c + len_utf8 d) = offset + len_utf8 c + len_utf8 d + n" "literal_ends ds n"
      using "2.IH"(1) by (auto simp: is_eol_def)
    show ?thesis using n(1) 4 literal_ends_item[OF _ n(2), of "Escaped d"]
      by (intro exI[of _ "len_utf8 c + len_utf8 d + n"]) (simp add: is_eol_def)
  next
    case 5
    then obtain n where n: "resync_stop cs (offset + len_utf8 c) = offset + len_utf8 c + n" "literal_ends cs n"
      using "2.IH"(2) by auto
    show ?thesis using n(1) 5 literal_ends_item[OF 5 n(2)] by (intro exI[of _ "len_utf8 c + n"]) simp
  qed (use literal_ends_stop in \<open>auto simp: is_eol_def split: list.splits\<close>)
qed (use literal_ends_stop(2) in auto)

lemma resync_stop_items:
  "list_all line_item items \<Longrightarrow> resync_stop (spelled items @ rear) offset = resync_stop rear (offset + byte_len (spelled items))"
proof (induction items arbitrary: offset)
  case (Cons i items)
  then show ?case by (cases i) (auto simp: is_eol_def add.assoc)
qed simp

lemma literal_ends_unique:
  assumes "literal_ends cs m" "literal_ends cs n"
  shows "m = n"
proof -
  have "resync_stop cs 0 = m" if e: "literal_ends cs m" for m
  proof -
    obtain items rear where r: "cs = spelled items @ rear" "list_all line_item items"
      "(\<exists>xs. rear = 39 # xs) \<and> m = byte_len (spelled items) + 1 \<or> (rear = [] \<or> is_eol (hd rear)) \<and> m = byte_len (spelled items)
        \<or> (\<exists>xs. rear = 92 # xs \<and> (xs = [] \<or> is_eol (hd xs))) \<and> m = byte_len (spelled items) + 1"
      using e unfolding literal_ends_def by (elim exE conjE) (rule that)
    consider xs where "rear = 39 # xs" "m = byte_len (spelled items) + 1" | "rear = [] \<or> is_eol (hd rear)" "m = byte_len (spelled items)"
      | xs where "rear = 92 # xs" "xs = [] \<or> is_eol (hd xs)" "m = byte_len (spelled items) + 1"
      using r(3) by blast
    then have "resync_stop rear (byte_len (spelled items)) = m"
    proof cases
      case 2
      then show ?thesis by (cases rear) (auto simp: is_eol_def)
    next
      case 3
      then show ?thesis by (cases xs) (simp_all add: is_eol_def)
    qed simp
    then show ?thesis using resync_stop_items[OF r(2), of rear 0] r(1) by simp
  qed
  then show ?thesis using assms by metis
qed

lemma resync_after_item:
  assumes "rest = spell i @ rear" "line_item i" "k = byte_len (spell i)"
  shows "\<exists>n. resync_byte_literal rest k = Some n \<and> literal_ends rest n"
proof -
  have "\<not> list_ex is_eol (spell i)" using assms(2) by (cases i) (auto simp: is_eol_def)
  then have "resync_byte_literal rest k = Some (k + resync_stop rear 0)"
    using split_bytes_append[of "spell i" rear] assms(1,3) by (simp add: resync_byte_literal_def)
  then show ?thesis using resync_stop_ends[of rear 0] literal_ends_item[OF assms(2)] assms(1,3) by auto
qed

text \<open>What is wrong with a literal that is not well formed.\<close>

fun faulty :: "byte_fault \<Rightarrow> scalar list \<Rightarrow> bool" where
  "faulty Unterminated_Byte rest \<longleftrightarrow> rest = []"
| "faulty Empty_Byte rest \<longleftrightarrow> (\<exists>xs. rest = 39 # xs)"
| "faulty Line_Ended rest \<longleftrightarrow> (\<exists>c xs. rest = c # xs \<and> is_eol c)"
| "faulty Unterminated_Escape rest \<longleftrightarrow> rest = [92]"
| "faulty (Unknown_Escape e) rest \<longleftrightarrow> (\<exists>xs. rest = 92 # e # xs) \<and> byte_escape e = None"
| "faulty (Not_Ascii c) rest \<longleftrightarrow> (\<exists>xs. rest = c # xs) \<and> 128 \<le> c"
| "faulty Missing_Quote rest \<longleftrightarrow> (\<exists>v. spells_byte rest v)"
| "faulty Not_One_Byte rest \<longleftrightarrow> (\<exists>front v c xs. rest = front @ c # xs \<and> spells_byte front v \<and> c \<noteq> 39)"

definition byte_verdict :: "scalar list \<Rightarrow> lex_error + nat \<Rightarrow> bool" where
  "byte_verdict rest r \<longleftrightarrow>
     (case r of
        Inr v \<Rightarrow> \<exists>front rear. rest = front @ 39 # rear \<and> spells_byte front v
      | Inl e \<Rightarrow> (\<exists>fault. e = MalformedByteLiteral fault \<and> faulty fault rest)
          \<and> \<not> (\<exists>front rear v. rest = front @ 39 # rear \<and> spells_byte front v))"

lemma spells_item: "spells_byte front v \<Longrightarrow> \<exists>i. front = spell i \<and> line_item i"
  using byte_escape_ascii by (auto simp: spells_byte_def intro: exI[of _ "Plain v"] exI[of _ "Escaped e" for e])

lemma byte_content_fault:
  assumes "byte_content rest = Inl (fault, bump)"
  shows "faulty fault rest \<and> (\<exists>n. bump = Some n \<and> literal_ends rest n)"
proof (cases rest)
  case Nil
  then show ?thesis using assms literal_ends_stop(2) by (auto simp: byte_content_def)
next
  case (Cons c cs)
  consider "c = 39" | "c \<noteq> 39" "is_eol c" | "c = 92" "cs = []" | e ds where "c = 92" "cs = e # ds" | "c \<noteq> 39" "\<not> is_eol c" "c \<noteq> 92"
    by (metis neq_Nil_conv)
  then show ?thesis
  proof cases
    case 1
    have "fault = Empty_Byte" "bump = resync_byte_literal rest 0" using assms Cons 1 by (auto simp: byte_content_def)
    moreover have "resync_byte_literal rest 0 = Some 1" using Cons 1 by (simp add: resync_byte_literal_def)
    ultimately show ?thesis using Cons 1 literal_ends_stop(1)[of rest cs] by auto
  next
    case 2
    then show ?thesis using assms Cons literal_ends_stop(2)[of rest] by (auto simp: byte_content_def)
  next
    case 3
    then show ?thesis using assms Cons literal_ends_stop(3)[of rest "[]"] by (auto simp: byte_content_def is_eol_def)
  next
    case 4
    then have f: "fault = Unknown_Escape e" "byte_escape e = None" "bump = resync_byte_literal rest (1 + len_utf8 e)"
      using assms Cons by (auto simp: byte_content_def is_eol_def split: option.splits)
    show ?thesis
    proof (cases "is_eol e")
      case True
      then have "resync_byte_literal rest (1 + len_utf8 e) = Some 1"
        using split_bytes_append[of "[92, e]" ds] split_bytes_append[of "[92]" "e # ds"] 4 Cons
        by (auto simp: resync_byte_literal_def is_eol_def)
      then show ?thesis using f 4 Cons True literal_ends_stop(3)[of rest "e # ds"] by simp
    next
      case False
      then show ?thesis using f 4 Cons resync_after_item[of rest "Escaped e" ds "1 + len_utf8 e"] by simp
    qed
  next
    case 5
    then have "fault = Not_Ascii c" "bump = resync_byte_literal rest (len_utf8 c)" "128 \<le> c"
      using assms Cons by (auto simp: byte_content_def split: if_splits)
    then show ?thesis using Cons 5 resync_after_item[of rest "Plain c" cs "len_utf8 c"] by simp
  qed
qed

lemma byte_literal_outcome:
  "case process_byte_literal rest of
     None \<Rightarrow> False
   | Some (n, r) \<Rightarrow> literal_ends rest n \<and> within_line n rest \<and> byte_verdict rest r"
proof (cases "byte_content rest")
  case (Inl p)
  obtain fault bump where p: "p = (fault, bump)" by (cases p)
  obtain n where n: "bump = Some n" "literal_ends rest n" "faulty fault rest" using byte_content_fault Inl p by blast
  have "within_line n rest" using byte_content_Inl Inl p n(1) by blast
  moreover have "\<not> (\<exists>front rear v. rest = front @ 39 # rear \<and> spells_byte front v)"
    using byte_content_unique Inl by (metis Inl_Inr_False)
  ultimately show ?thesis using Inl p n by (simp add: process_byte_literal_def byte_error_def byte_verdict_def)
next
  case (Inr p)
  obtain v k where p: "p = (v, k)" by (cases p)
  obtain front rear where fr: "rest = front @ rear" "spells_byte front v" "k = byte_len front"
    "split_bytes k rest = Some (front, rear)"
    using byte_content_split Inr p by blast
  obtain i where i: "front = spell i" "line_item i" using spells_item[OF fr(2)] by blast
  have ends: "literal_ends rest (k + m)" if "literal_ends rear m" for m
    using literal_ends_item[OF i(2) that] fr(1,3) i(1) by simp
  have line: "within_line (k + m) rest" if "within_line m rear" for m
    using within_line_append[OF spells_byte_line[OF fr(2)] that] fr(1,3) by simp
  have none: "\<not> (\<exists>front' rear' v'. rest = front' @ 39 # rear' \<and> spells_byte front' v')" if "\<And>xs. rear \<noteq> 39 # xs"
  proof
    assume "\<exists>front' rear' v'. rest = front' @ 39 # rear' \<and> spells_byte front' v'"
    then obtain front' rear' v' where o: "rest = front' @ 39 # rear'" "spells_byte front' v'" by blast
    from byte_content_unique[OF o] have "byte_len front' = k" using Inr p by simp
    then have "rear = 39 # rear'" using fr(4) o(1) split_bytes_append[of front' "39 # rear'"] by simp
    then show False using that by blast
  qed
  show ?thesis
  proof (cases rear)
    case Nil
    then show ?thesis using Inr p fr none ends[of 0] line[of 0] literal_ends_stop(2)[of rear]
      by (auto simp: process_byte_literal_def byte_error_def byte_verdict_def)
  next
    case (Cons c cs)
    show ?thesis
    proof (cases "c = 39")
      case True
      then show ?thesis using Inr p fr Cons ends[of 1] line[of 1] within_line_one[of 39 1 cs] literal_ends_stop(1)[of rear cs]
        by (auto simp: process_byte_literal_def byte_verdict_def is_eol_def)
    next
      case False
      obtain n where n: "resync_byte_literal rest k = Some n" "within_line n rest" using resync_within fr(1,3) by blast
      have "literal_ends rest n" using resync_after_item[OF fr(1)[unfolded i(1)] i(2)] n(1) fr(3) i(1) by auto
      then show ?thesis using Inr p fr n none Cons False
        by (auto simp: process_byte_literal_def byte_error_def byte_verdict_def)
    qed
  qed
qed

text \<open>
  C24. The byte callback never panics, and always consumes the literal to its end: through the
  first closing quote that no backslash escapes, or else up to the end of the line, or of the text.
  It succeeds exactly when one ASCII character, printable or not, other than a quote, a backslash
  or an end of line, or one of the seven escapes, stands before a closing quote, with that byte.
  Otherwise it reports what is wrong.
\<close>

theorem byte_literal_exact:
  "case process_byte_literal rest of
     None \<Rightarrow> False
   | Some (n, r) \<Rightarrow> (\<forall>m. literal_ends rest m \<longleftrightarrow> m = n) \<and> within_line n rest \<and> byte_verdict rest r"
  using byte_literal_outcome[of rest] literal_ends_unique[of rest] by (auto split: option.splits)

end
