(* ===== verification/Calling_Convention.thy ===== *)
theory Calling_Convention
  imports Rue_Prelude
begin

text \<open>
  The calling conventions and their descriptions (\<open>rue-target/src/calling_convention.rs\<close>), keyed
  by the targets of \<open>rue-target/src/lib.rs\<close>.  A convention names a row, a description is the data
  that the placement of arguments and results reads (\<open>Lowered_Signature\<close>).  The native convention
  has no description of its own: it borrows the row of its target and widens the result registers.

  A \<open>u32\<close> or \<open>u64\<close> field is a \<open>nat\<close>; none of these rules computes near a bound.
\<close>

datatype target = X86_64Linux | Aarch64Linux | Aarch64Macos

definition target_all :: "target list" where
  "target_all = [X86_64Linux, Aarch64Linux, Aarch64Macos]"

datatype calling_convention = Rue | X86_64SysV | Aarch64Aapcs | Aarch64AapcsDarwin

datatype stacked_argument_packing = EightByteSlots | NaturalSize

datatype c_register_class = Gp | Fp

datatype sret_register_kind = ArgumentRegister | DedicatedRegister

datatype narrow_integer_extension = CalleeExtendsOnUse | CallerExtendsBelow32

datatype aggregate_classification_rule = SysVEightbyte | Aapcs64Composite

record c_convention_spec =
  gp_argument_registers :: nat
  fp_argument_registers :: nat
  gp_return_registers :: nat
  fp_return_registers :: nat
  sret_register :: sret_register_kind
  sret_pointer_echoed_in_result_register :: bool
  call_stack_alignment :: nat
  shadow_space_bytes :: nat
  stacked_argument_packing :: stacked_argument_packing
  narrow_integer_extension :: narrow_integer_extension
  aggregate_rule :: aggregate_classification_rule
  max_aggregate_register_bytes :: nat
  max_aggregate_return_bytes :: nat

definition argument_registers :: "c_convention_spec \<Rightarrow> c_register_class \<Rightarrow> nat" where
  "argument_registers s cls = (case cls of Gp \<Rightarrow> gp_argument_registers s | Fp \<Rightarrow> fp_argument_registers s)"

definition return_registers :: "c_convention_spec \<Rightarrow> c_register_class \<Rightarrow> nat" where
  "return_registers s cls = (case cls of Gp \<Rightarrow> gp_return_registers s | Fp \<Rightarrow> fp_return_registers s)"

definition sret_pointer_in_argument_register :: "c_convention_spec \<Rightarrow> bool" where
  "sret_pointer_in_argument_register s \<longleftrightarrow> sret_register s = ArgumentRegister"

section \<open>The rows\<close>

definition x86_64_sysv :: c_convention_spec where
  "x86_64_sysv =
     \<lparr>gp_argument_registers = 6, fp_argument_registers = 8, gp_return_registers = 2, fp_return_registers = 2,
      sret_register = ArgumentRegister, sret_pointer_echoed_in_result_register = True,
      call_stack_alignment = 16, shadow_space_bytes = 0, stacked_argument_packing = EightByteSlots,
      narrow_integer_extension = CalleeExtendsOnUse, aggregate_rule = SysVEightbyte,
      max_aggregate_register_bytes = 16, max_aggregate_return_bytes = 16\<rparr>"

definition aarch64_aapcs :: c_convention_spec where
  "aarch64_aapcs =
     \<lparr>gp_argument_registers = 8, fp_argument_registers = 8, gp_return_registers = 2, fp_return_registers = 4,
      sret_register = DedicatedRegister, sret_pointer_echoed_in_result_register = False,
      call_stack_alignment = 16, shadow_space_bytes = 0, stacked_argument_packing = EightByteSlots,
      narrow_integer_extension = CalleeExtendsOnUse, aggregate_rule = Aapcs64Composite,
      max_aggregate_register_bytes = 16, max_aggregate_return_bytes = 16\<rparr>"

definition aarch64_aapcs_darwin :: c_convention_spec where
  "aarch64_aapcs_darwin = aarch64_aapcs\<lparr>stacked_argument_packing := NaturalSize, narrow_integer_extension := CallerExtendsBelow32\<rparr>"

definition c_for_target :: "target \<Rightarrow> calling_convention" where
  "c_for_target t =
     (case t of X86_64Linux \<Rightarrow> X86_64SysV | Aarch64Linux \<Rightarrow> Aarch64Aapcs | Aarch64Macos \<Rightarrow> Aarch64AapcsDarwin)"

definition is_rue :: "calling_convention \<Rightarrow> bool" where
  "is_rue c \<longleftrightarrow> c = Rue"

definition is_c :: "calling_convention \<Rightarrow> bool" where
  "is_c c \<longleftrightarrow> \<not> is_rue c"

text \<open>The native convention is not a row of this table: asking for it panics.\<close>

definition c_spec :: "calling_convention \<Rightarrow> c_convention_spec option" where
  "c_spec c =
     (case c of
        X86_64SysV \<Rightarrow> Some x86_64_sysv
      | Aarch64Aapcs \<Rightarrow> Some aarch64_aapcs
      | Aarch64AapcsDarwin \<Rightarrow> Some aarch64_aapcs_darwin
      | Rue \<Rightarrow> None)"

definition stacked_packing_of :: "calling_convention \<Rightarrow> stacked_argument_packing option" where
  "stacked_packing_of c = map_option stacked_argument_packing (c_spec c)"

section \<open>Names\<close>

definition convention_name :: "calling_convention \<Rightarrow> string" where
  "convention_name c =
     (case c of
        Rue \<Rightarrow> ''rue''
      | X86_64SysV \<Rightarrow> ''x86-64-sysv''
      | Aarch64Aapcs \<Rightarrow> ''aarch64-aapcs''
      | Aarch64AapcsDarwin \<Rightarrow> ''aarch64-aapcs-darwin'')"

definition c_rows :: "calling_convention list" where
  "c_rows = [X86_64SysV, Aarch64Aapcs, Aarch64AapcsDarwin]"

definition parse_abi_string :: "string \<Rightarrow> calling_convention option" where
  "parse_abi_string name = find (\<lambda>c. convention_name c = name) c_rows"

definition is_implemented_by :: "calling_convention \<Rightarrow> target \<Rightarrow> bool" where
  "is_implemented_by c t \<longleftrightarrow> is_rue c \<or> c_for_target t = c"

definition implementing_targets :: "calling_convention \<Rightarrow> target list" where
  "implementing_targets c = filter (is_implemented_by c) target_all"

section \<open>A convention and its description\<close>

record convention_spec =
  pair_convention :: calling_convention
  pair_spec :: c_convention_spec

definition native_fp_return_registers :: nat where
  "native_fp_return_registers = 8"

definition native_gp_return_registers :: "target \<Rightarrow> nat" where
  "native_gp_return_registers t = (case t of X86_64Linux \<Rightarrow> 6 | Aarch64Linux \<Rightarrow> 8 | Aarch64Macos \<Rightarrow> 8)"

definition native_return_bank_bytes :: "nat \<Rightarrow> nat" where
  "native_return_bank_bytes gp =
     (let widest = (if gp > native_fp_return_registers then gp else native_fp_return_registers) in widest * 8)"

definition c_pairing :: "calling_convention \<Rightarrow> convention_spec option" where
  "c_pairing c =
     (if is_c c then map_option (\<lambda>s. \<lparr>pair_convention = c, pair_spec = s\<rparr>) (c_spec c) else None)"

definition c_pairing_for_target :: "target \<Rightarrow> convention_spec option" where
  "c_pairing_for_target t = c_pairing (c_for_target t)"

definition native_pairing :: "target \<Rightarrow> convention_spec option" where
  "native_pairing t =
     map_option
       (\<lambda>s. \<lparr>pair_convention = Rue,
             pair_spec = s\<lparr>gp_return_registers := native_gp_return_registers t,
                           fp_return_registers := native_fp_return_registers,
                           max_aggregate_return_bytes := native_return_bank_bytes (native_gp_return_registers t)\<rparr>\<rparr>)
       (c_spec (c_for_target t))"

definition is_native :: "convention_spec \<Rightarrow> bool" where
  "is_native p \<longleftrightarrow> is_rue (pair_convention p)"

section \<open>The ABI a declaration names\<close>

datatype foreign_abi = C_Abi | Explicit calling_convention

definition c_abi_string :: string where
  "c_abi_string = ''C''"

definition parse_foreign_abi :: "string \<Rightarrow> foreign_abi option" where
  "parse_foreign_abi s = (if s = c_abi_string then Some C_Abi else map_option Explicit (parse_abi_string s))"

definition accepted_abi_strings :: "string list" where
  "accepted_abi_strings = c_abi_string # map convention_name c_rows"

definition resolve_abi :: "foreign_abi \<Rightarrow> target \<Rightarrow> calling_convention" where
  "resolve_abi abi t = (case abi of C_Abi \<Rightarrow> c_for_target t | Explicit c \<Rightarrow> c)"

definition abi_string :: "foreign_abi \<Rightarrow> string" where
  "abi_string abi = (case abi of C_Abi \<Rightarrow> c_abi_string | Explicit c \<Rightarrow> convention_name c)"

section \<open>Facts about the tables\<close>

lemmas convention_simps =
  c_spec_def c_for_target_def c_pairing_def native_pairing_def is_c_def is_rue_def
  x86_64_sysv_def aarch64_aapcs_def aarch64_aapcs_darwin_def
  native_gp_return_registers_def native_fp_return_registers_def native_return_bank_bytes_def

text \<open>The descriptions a placement can run under.\<close>

definition placeable :: "c_convention_spec \<Rightarrow> bool" where
  "placeable s \<longleftrightarrow>
     (\<exists>c p. c_pairing c = Some p \<and> s = pair_spec p) \<or> (\<exists>t p. native_pairing t = Some p \<and> s = pair_spec p)"

lemma c_pairing_cases:
  assumes "c_pairing c = Some p"
  shows "(c, p) \<in> {(X86_64SysV, \<lparr>pair_convention = X86_64SysV, pair_spec = x86_64_sysv\<rparr>),
    (Aarch64Aapcs, \<lparr>pair_convention = Aarch64Aapcs, pair_spec = aarch64_aapcs\<rparr>),
    (Aarch64AapcsDarwin, \<lparr>pair_convention = Aarch64AapcsDarwin, pair_spec = aarch64_aapcs_darwin\<rparr>)}"
  using assms by (cases c) (auto simp: c_pairing_def c_spec_def is_c_def is_rue_def)

definition native_spec :: "target \<Rightarrow> c_convention_spec" where
  "native_spec t = (case c_spec (c_for_target t) of
     Some s \<Rightarrow> s\<lparr>gp_return_registers := native_gp_return_registers t, fp_return_registers := 8, max_aggregate_return_bytes := 64\<rparr>
   | None \<Rightarrow> x86_64_sysv)"

lemma native_pairing_eq: "native_pairing t = Some \<lparr>pair_convention = Rue, pair_spec = native_spec t\<rparr>"
  by (cases t) (simp_all add: native_spec_def convention_simps)

lemma placeable_facts:
  assumes "placeable s"
  shows "gp_argument_registers s \<le> 8 \<and> fp_argument_registers s = 8 \<and> call_stack_alignment s = 16 \<and> shadow_space_bytes s = 0
    \<and> max_aggregate_register_bytes s = 16 \<and> 1 \<le> gp_argument_registers s \<and> gp_return_registers s \<le> 8 \<and> fp_return_registers s \<le> 8
    \<and> max_aggregate_return_bytes s \<le> 64"
proof -
  from assms consider c p where "c_pairing c = Some p" "s = pair_spec p" | t where "s = native_spec t"
    by (auto simp: placeable_def native_pairing_eq)
  then show ?thesis
  proof cases
    case 1
    then show ?thesis using c_pairing_cases[OF 1(1)] by (auto simp: convention_simps)
  next
    case 2
    then show ?thesis by (cases t) (simp_all add: native_spec_def convention_simps)
  qed
qed

text \<open>Every written ABI string names one boundary, and is the one printed for it.\<close>

lemma abi_string_roundtrip: "parse_foreign_abi (abi_string abi) = Some abi \<longleftrightarrow> abi \<noteq> Explicit Rue"
proof (cases abi)
  case C_Abi
  then show ?thesis by (simp add: abi_string_def parse_foreign_abi_def)
next
  case (Explicit c)
  then show ?thesis
    by (cases c) (simp_all add: abi_string_def parse_foreign_abi_def c_abi_string_def convention_name_def
        parse_abi_string_def c_rows_def)
qed

lemma parse_abi_string_Some: "parse_abi_string s = Some c \<longleftrightarrow> c \<noteq> Rue \<and> s = convention_name c"
  by (cases c) (auto simp: parse_abi_string_def c_rows_def convention_name_def)

lemma parse_foreign_abi_Some: "parse_foreign_abi s = Some abi \<longleftrightarrow> abi \<noteq> Explicit Rue \<and> s = abi_string abi"
proof (cases abi)
  case C_Abi
  then show ?thesis by (auto simp: parse_foreign_abi_def abi_string_def c_abi_string_def)
next
  case (Explicit c)
  have "convention_name c \<noteq> c_abi_string" by (cases c) (simp_all add: convention_name_def c_abi_string_def)
  then show ?thesis using Explicit by (auto simp: parse_foreign_abi_def abi_string_def parse_abi_string_Some)
qed

lemma accepted_abi_strings_exact: "s \<in> set accepted_abi_strings \<longleftrightarrow> parse_foreign_abi s \<noteq> None"
proof -
  have "s \<in> set accepted_abi_strings \<longleftrightarrow> (\<exists>abi. abi \<noteq> Explicit Rue \<and> s = abi_string abi)"
  proof
    assume "s \<in> set accepted_abi_strings"
    then show "\<exists>abi. abi \<noteq> Explicit Rue \<and> s = abi_string abi"
      by (auto simp: accepted_abi_strings_def c_rows_def abi_string_def intro: exI[of _ C_Abi]
          exI[of _ "Explicit X86_64SysV"] exI[of _ "Explicit Aarch64Aapcs"] exI[of _ "Explicit Aarch64AapcsDarwin"])
  next
    assume "\<exists>abi. abi \<noteq> Explicit Rue \<and> s = abi_string abi"
    then obtain abi where a: "abi \<noteq> Explicit Rue" "s = abi_string abi" by blast
    show "s \<in> set accepted_abi_strings"
    proof (cases abi)
      case (Explicit c)
      then show ?thesis using a by (cases c) (simp_all add: accepted_abi_strings_def c_rows_def abi_string_def)
    qed (simp add: a accepted_abi_strings_def abi_string_def)
  qed
  also have "\<dots> \<longleftrightarrow> parse_foreign_abi s \<noteq> None" using parse_foreign_abi_Some by auto
  finally show ?thesis .
qed

text \<open>Each C row is implemented by exactly the target whose C boundary follows it.\<close>

lemma implementing_targets_exact:
  "t \<in> set (implementing_targets c) \<longleftrightarrow> c = Rue \<or> resolve_abi C_Abi t = c"
  by (cases t) (auto simp: implementing_targets_def target_all_def is_implemented_by_def is_rue_def resolve_abi_def)

end
