(* ===== verification/Lowered_Signature.thy ===== *)
theory Lowered_Signature
  imports Calling_Convention
begin

text \<open>
  The one classifier of call signatures (\<open>rue-air/src/lowered_signature.rs\<close>, with the scalar kinds
  of \<open>rue-air/src/call_abi.rs\<close>): from facts about the types of the parameters and the result to
  the registers, stack bytes and pointers that carry them.

  A fixed-capacity array with a length is the list of its first elements; pushing past the
  capacity panics (\<open>None\<close>).  The placement walk passes the placer on.
\<close>

section \<open>Saturating arithmetic\<close>

definition max_u32 :: nat where "max_u32 = 2 ^ 32 - 1"
definition max_u64 :: nat where "max_u64 = 2 ^ 64 - 1"

definition sat_add_u32 :: "nat \<Rightarrow> nat \<Rightarrow> nat" where
  "sat_add_u32 a b = min (a + b) max_u32"

definition sat_add_u64 :: "nat \<Rightarrow> nat \<Rightarrow> nat" where
  "sat_add_u64 a b = min (a + b) max_u64"

definition sat_mul_u64 :: "nat \<Rightarrow> nat \<Rightarrow> nat" where
  "sat_mul_u64 a b = min (a * b) max_u64"

definition div_ceil :: "nat \<Rightarrow> nat \<Rightarrow> nat" where
  "div_ceil a b = a div b + (if a mod b = 0 then 0 else 1)"

definition align_up :: "nat \<Rightarrow> nat \<Rightarrow> nat" where
  "align_up v align = sat_add_u64 v (align - 1) AND (2 ^ 64 - 1 - (align - 1))"

definition saturate_u32 :: "nat \<Rightarrow> nat" where
  "saturate_u32 v = (if v \<le> max_u32 then v else max_u32)"

definition eightbytes :: "nat \<Rightarrow> nat" where
  "eightbytes sz = saturate_u32 (div_ceil sz 8)"

section \<open>Facts about types\<close>

datatype arg_convention = ByValue | ByReference

datatype c_abi_scalar_kind =
    Kind_I8 | Kind_I16 | Kind_I32 | Kind_U8 | Kind_U16 | Kind_U32 | Kind_Bool | Kind_F32 | Kind_F64 | RegisterWidth

datatype scalar_abi_extension = No_Extension | Signed_From nat | Unsigned_From nat

definition scalar_register_class :: "c_abi_scalar_kind \<Rightarrow> c_register_class" where
  "scalar_register_class k = (if k = Kind_F32 \<or> k = Kind_F64 then Fp else Gp)"

definition natural_bytes :: "c_abi_scalar_kind \<Rightarrow> nat" where
  "natural_bytes k =
     (case k of
        Kind_I8 \<Rightarrow> 1 | Kind_U8 \<Rightarrow> 1 | Kind_Bool \<Rightarrow> 1
      | Kind_I16 \<Rightarrow> 2 | Kind_U16 \<Rightarrow> 2
      | Kind_I32 \<Rightarrow> 4 | Kind_U32 \<Rightarrow> 4 | Kind_F32 \<Rightarrow> 4
      | Kind_F64 \<Rightarrow> 8 | RegisterWidth \<Rightarrow> 8)"

definition scalar_extension :: "c_abi_scalar_kind \<Rightarrow> scalar_abi_extension" where
  "scalar_extension k =
     (case k of
        Kind_I8 \<Rightarrow> Signed_From 8 | Kind_I16 \<Rightarrow> Signed_From 16 | Kind_I32 \<Rightarrow> Signed_From 32
      | Kind_U8 \<Rightarrow> Unsigned_From 8 | Kind_Bool \<Rightarrow> Unsigned_From 8
      | Kind_U16 \<Rightarrow> Unsigned_From 16 | Kind_U32 \<Rightarrow> Unsigned_From 32
      | Kind_F32 \<Rightarrow> No_Extension | Kind_F64 \<Rightarrow> No_Extension | RegisterWidth \<Rightarrow> No_Extension)"

definition extension_is_noop :: "scalar_abi_extension \<Rightarrow> bool" where
  "extension_is_noop e \<longleftrightarrow> e = No_Extension"

definition extension_natural_bytes :: "scalar_abi_extension \<Rightarrow> nat" where
  "extension_natural_bytes e =
     (case e of No_Extension \<Rightarrow> 8 | Signed_From bits \<Rightarrow> bits div 8 | Unsigned_From bits \<Rightarrow> bits div 8)"

definition max_leaf_classified_bytes :: nat where
  "max_leaf_classified_bytes = 64"

definition recorded_eightbytes :: nat where
  "recorded_eightbytes = max_leaf_classified_bytes div 8"

datatype c_abi_leaf_kind = Leaf_Integer | Leaf_F32 | Leaf_F64

definition float_bytes :: "c_abi_leaf_kind \<Rightarrow> nat option" where
  "float_bytes k = (case k of Leaf_Integer \<Rightarrow> None | Leaf_F32 \<Rightarrow> Some 4 | Leaf_F64 \<Rightarrow> Some 8)"

record c_abi_leaf =
  leaf_offset :: nat
  leaf_width :: nat
  leaf_kind :: c_abi_leaf_kind

definition integer_leaf :: "nat \<Rightarrow> nat \<Rightarrow> c_abi_leaf" where
  "integer_leaf offset width = \<lparr>leaf_offset = offset, leaf_width = width, leaf_kind = Leaf_Integer\<rparr>"

definition f32_leaf :: "nat \<Rightarrow> c_abi_leaf" where
  "f32_leaf offset = \<lparr>leaf_offset = offset, leaf_width = 4, leaf_kind = Leaf_F32\<rparr>"

definition f64_leaf :: "nat \<Rightarrow> c_abi_leaf" where
  "f64_leaf offset = \<lparr>leaf_offset = offset, leaf_width = 8, leaf_kind = Leaf_F64\<rparr>"

datatype float_members = Mixed | Homogeneous nat nat

record aggregate_leaves =
  integer_eightbytes :: u64
  float_eightbytes :: u64
  floats :: float_members
  unaligned :: bool

definition eightbyte_mask :: "nat \<Rightarrow> u64" where
  "eightbyte_mask sz =
     (let count = div_ceil sz 8 in if count \<ge> recorded_eightbytes then - 1 else push_bit count 1 - 1)"

definition all_integer_leaves :: "nat \<Rightarrow> aggregate_leaves" where
  "all_integer_leaves sz =
     \<lparr>integer_eightbytes = eightbyte_mask sz, float_eightbytes = 0, floats = Mixed, unaligned = False\<rparr>"

text \<open>The eightbytes a leaf reaches, up to the recorded ones.\<close>

definition leaf_eightbytes :: "c_abi_leaf \<Rightarrow> nat list" where
  "leaf_eightbytes l =
     (let first = leaf_offset l div 8;
          last = max (sat_add_u64 (leaf_offset l) (leaf_width l - 1)) (leaf_offset l) div 8 in
      [first..<Suc (min last (recorded_eightbytes - 1))])"

definition set_bits_of :: "u64 \<Rightarrow> nat list \<Rightarrow> u64" where
  "set_bits_of w es = foldl (\<lambda>w e. w OR push_bit e 1) w es"

definition merge_floats :: "float_members \<Rightarrow> nat option \<Rightarrow> float_members" where
  "merge_floats fs b =
     (case fs of
        Mixed \<Rightarrow> Mixed
      | Homogeneous width count \<Rightarrow>
          (case b of
             None \<Rightarrow> Mixed
           | Some w \<Rightarrow>
               if count = 0 then Homogeneous w 1
               else if width = w then Homogeneous width (sat_add_u32 count 1)
               else Mixed))"

definition push_leaf :: "aggregate_leaves \<Rightarrow> c_abi_leaf \<Rightarrow> aggregate_leaves" where
  "push_leaf a l =
     (let a = (if leaf_width l \<noteq> 0 \<and> leaf_offset l mod leaf_width l \<noteq> 0 then a\<lparr>unaligned := True\<rparr> else a);
          a = (case leaf_kind l of
                 Leaf_Integer \<Rightarrow> a\<lparr>integer_eightbytes := set_bits_of (integer_eightbytes a) (leaf_eightbytes l)\<rparr>
               | _ \<Rightarrow> a\<lparr>float_eightbytes := set_bits_of (float_eightbytes a) (leaf_eightbytes l)\<rparr>) in
      a\<lparr>floats := merge_floats (floats a) (float_bytes (leaf_kind l))\<rparr>)"

definition from_leaves :: "nat \<Rightarrow> c_abi_leaf list \<Rightarrow> aggregate_leaves" where
  "from_leaves sz leaves =
     (if leaves = [] then all_integer_leaves sz
      else foldl push_leaf
             \<lparr>integer_eightbytes = 0, float_eightbytes = 0, floats = Homogeneous 0 0, unaligned = False\<rparr> leaves)"

datatype eightbyte_class = Integer | Sse

definition eightbyte_register_class :: "eightbyte_class \<Rightarrow> c_register_class" where
  "eightbyte_register_class c = (case c of Integer \<Rightarrow> Gp | Sse \<Rightarrow> Fp)"

definition eightbyte_class_at :: "aggregate_leaves \<Rightarrow> nat \<Rightarrow> eightbyte_class" where
  "eightbyte_class_at a i =
     (if i \<ge> recorded_eightbytes then Integer
      else
        let b = push_bit i 1 :: u64 in
        if integer_eightbytes a AND b \<noteq> 0 then Integer
        else if float_eightbytes a AND b \<noteq> 0 then Sse
        else Integer)"

definition homogeneous_floats :: "aggregate_leaves \<Rightarrow> (nat \<times> nat) option" where
  "homogeneous_floats a =
     (case floats a of Homogeneous width count \<Rightarrow> if count > 0 then Some (width, count) else None | Mixed \<Rightarrow> None)"

datatype c_abi_type_facts =
    ZeroSized
  | Scalar c_abi_scalar_kind c_register_class
  | Aggregate nat nat aggregate_leaves

definition by_reference_pointer :: c_abi_type_facts where
  "by_reference_pointer = Scalar RegisterWidth Gp"

definition integer_aggregate :: "nat \<Rightarrow> nat \<Rightarrow> c_abi_type_facts" where
  "integer_aggregate sz align = Aggregate sz align (all_integer_leaves sz)"

definition as_argument :: "c_abi_type_facts \<Rightarrow> arg_convention \<Rightarrow> c_abi_type_facts" where
  "as_argument facts mode = (case mode of ByReference \<Rightarrow> by_reference_pointer | ByValue \<Rightarrow> facts)"

definition facts_extension :: "c_abi_type_facts \<Rightarrow> scalar_abi_extension" where
  "facts_extension facts = (case facts of Scalar k _ \<Rightarrow> scalar_extension k | _ \<Rightarrow> No_Extension)"

section \<open>Classes and pieces\<close>

definition capacity :: nat where
  "capacity = 8"

definition all_integer_classes :: "nat \<Rightarrow> eightbyte_class list option" where
  "all_integer_classes count = (if 1 \<le> count \<and> count \<le> capacity then Some (replicate count Integer) else None)"

definition classify_eightbytes :: "aggregate_leaves \<Rightarrow> nat \<Rightarrow> eightbyte_class list option" where
  "classify_eightbytes a count =
     map_option (\<lambda>classes. foldl (\<lambda>cs i. cs[i := eightbyte_class_at a i]) classes [0..<count])
       (all_integer_classes count)"

definition registers_in :: "eightbyte_class list \<Rightarrow> c_register_class \<Rightarrow> nat" where
  "registers_in classes cls = length (filter (\<lambda>e. eightbyte_register_class e = cls) classes)"

definition uniform_register_class :: "eightbyte_class list \<Rightarrow> c_register_class option" where
  "uniform_register_class classes =
     (case classes of
        [] \<Rightarrow> None
      | c # _ \<Rightarrow>
          (let first = eightbyte_register_class c in
           if list_all (\<lambda>c. eightbyte_register_class c = first) classes then Some first else None))"

record register_piece =
  piece_class :: c_register_class
  piece_index :: nat

definition push_piece :: "register_piece list \<Rightarrow> register_piece \<Rightarrow> register_piece list option" where
  "push_piece pieces p = (if length pieces < capacity then Some (pieces @ [p]) else None)"

fun push_pieces :: "register_piece list \<Rightarrow> register_piece list \<Rightarrow> register_piece list option" where
  "push_pieces pieces [] = Some pieces"
| "push_pieces pieces (p # ps) = Option.bind (push_piece pieces p) (\<lambda>pieces. push_pieces pieces ps)"

definition consecutive :: "c_register_class \<Rightarrow> nat \<Rightarrow> nat \<Rightarrow> register_piece list option" where
  "consecutive cls first count =
     push_pieces [] (map (\<lambda>offset. \<lparr>piece_class = cls, piece_index = sat_add_u32 first offset\<rparr>) [0..<count])"

definition one_piece :: "c_register_class \<Rightarrow> nat \<Rightarrow> register_piece list option" where
  "one_piece cls i = consecutive cls i 1"

definition uniform_class :: "register_piece list \<Rightarrow> c_register_class option" where
  "uniform_class pieces =
     (case pieces of
        [] \<Rightarrow> None
      | p # _ \<Rightarrow> if list_all (\<lambda>q. piece_class q = piece_class p) pieces then Some (piece_class p) else None)"

definition first_index :: "register_piece list \<Rightarrow> nat option" where
  "first_index pieces = (case pieces of [] \<Rightarrow> None | p # _ \<Rightarrow> Some (piece_index p))"

section \<open>Placements\<close>

datatype pointer_location = Pointer_Register nat | Pointer_Stack nat

datatype arg_location =
    Omitted
  | Registers "register_piece list"
  | Stack (stack_offset: nat) (stack_size: nat) (stack_align: nat)
  | Indirect pointer_location nat nat

record lowered_argument =
  location :: arg_location
  arg_extension :: scalar_abi_extension

datatype lowered_return =
    Void
  | Return_Registers "register_piece list" scalar_abi_extension
  | Sret sret_register_kind bool nat nat

definition uses_sret :: "lowered_return \<Rightarrow> bool" where
  "uses_sret r = (case r of Sret _ _ _ _ \<Rightarrow> True | _ \<Rightarrow> False)"

definition register_pieces :: "lowered_return \<Rightarrow> register_piece list" where
  "register_pieces r = (case r of Return_Registers pieces _ \<Rightarrow> pieces | _ \<Rightarrow> [])"

definition return_extension :: "lowered_return \<Rightarrow> scalar_abi_extension" where
  "return_extension r = (case r of Return_Registers _ e \<Rightarrow> e | _ \<Rightarrow> No_Extension)"

record lowered_signature =
  sig_convention :: convention_spec
  arguments :: "lowered_argument list"
  sig_return :: lowered_return
  stack_bytes :: nat

definition sret_in_argument_register :: "lowered_signature \<Rightarrow> bool" where
  "sret_in_argument_register s = (case sig_return s of Sret ArgumentRegister _ _ _ \<Rightarrow> True | _ \<Rightarrow> False)"

definition indirect_copy_sizes :: "lowered_signature \<Rightarrow> (nat \<times> nat) list" where
  "indirect_copy_sizes s =
     concat (map (\<lambda>a. case location a of Indirect _ sz align \<Rightarrow> [(sz, align)] | _ \<Rightarrow> []) (arguments s))"

record stacked_placement =
  placed_offset :: nat
  placed_size :: nat
  placed_align :: nat

record argument_area =
  area_spec :: c_convention_spec
  area_offset :: nat

definition new_area :: "c_convention_spec \<Rightarrow> argument_area" where
  "new_area s = \<lparr>area_spec = s, area_offset = shadow_space_bytes s\<rparr>"

definition claim_area :: "argument_area \<Rightarrow> nat \<Rightarrow> nat \<Rightarrow> stacked_placement \<times> argument_area" where
  "claim_area a sz align =
     (let offset = align_up (area_offset a) align in
      (\<lparr>placed_offset = saturate_u32 offset, placed_size = saturate_u32 sz, placed_align = saturate_u32 align\<rparr>,
       a\<lparr>area_offset := sat_add_u64 offset sz\<rparr>))"

definition claim_scalar :: "argument_area \<Rightarrow> nat \<Rightarrow> stacked_placement \<times> argument_area" where
  "claim_scalar a natural_size =
     (case stacked_argument_packing (area_spec a) of
        NaturalSize \<Rightarrow> (let bytes = max 1 (min natural_size 8) in claim_area a bytes bytes)
      | EightByteSlots \<Rightarrow> claim_area a (sat_mul_u64 (eightbytes natural_size) 8) 8)"

definition claim_aggregate :: "argument_area \<Rightarrow> nat \<Rightarrow> stacked_placement \<times> argument_area" where
  "claim_aggregate a sz = claim_area a (sat_mul_u64 (eightbytes sz) 8) 8"

definition reserved_bytes :: "argument_area \<Rightarrow> nat" where
  "reserved_bytes a = saturate_u32 (align_up (area_offset a) (call_stack_alignment (area_spec a)))"

record placer =
  placer_spec :: c_convention_spec
  gp_used :: nat
  fp_used :: nat
  area :: argument_area

definition new_placer :: "c_convention_spec \<Rightarrow> placer" where
  "new_placer s = \<lparr>placer_spec = s, gp_used = 0, fp_used = 0, area = new_area s\<rparr>"

definition used :: "placer \<Rightarrow> c_register_class \<Rightarrow> nat" where
  "used p cls = (case cls of Gp \<Rightarrow> gp_used p | Fp \<Rightarrow> fp_used p)"

definition consume :: "placer \<Rightarrow> c_register_class \<Rightarrow> nat \<Rightarrow> placer" where
  "consume p cls count =
     (case cls of
        Gp \<Rightarrow> p\<lparr>gp_used := sat_add_u32 (gp_used p) count\<rparr>
      | Fp \<Rightarrow> p\<lparr>fp_used := sat_add_u32 (fp_used p) count\<rparr>)"

definition exhaust :: "placer \<Rightarrow> c_register_class \<Rightarrow> placer" where
  "exhaust p cls =
     (let all = argument_registers (placer_spec p) cls in
      case cls of Gp \<Rightarrow> p\<lparr>gp_used := all\<rparr> | Fp \<Rightarrow> p\<lparr>fp_used := all\<rparr>)"

definition claim_registers :: "placer \<Rightarrow> c_register_class \<Rightarrow> nat \<Rightarrow> (nat \<times> placer) option" where
  "claim_registers p cls count =
     (let first = used p cls in
      if sat_add_u32 first count > argument_registers (placer_spec p) cls then None
      else Some (first, consume p cls count))"

text \<open>The outer \<open>None\<close> is a panic, the inner one the refusal.\<close>

fun claim_each :: "placer \<Rightarrow> register_piece list \<Rightarrow> eightbyte_class list \<Rightarrow> (register_piece list \<times> placer) option" where
  "claim_each p pieces [] = Some (pieces, p)"
| "claim_each p pieces (e # classes) =
     (let cls = eightbyte_register_class e; index = used p cls in
      Option.bind (push_piece pieces \<lparr>piece_class = cls, piece_index = index\<rparr>)
        (\<lambda>pieces. claim_each (consume p cls 1) pieces classes))"

definition claim_classified_registers :: "placer \<Rightarrow> eightbyte_class list \<Rightarrow> (register_piece list \<times> placer) option option" where
  "claim_classified_registers p classes =
     (if list_ex (\<lambda>cls. sat_add_u32 (used p cls) (registers_in classes cls) > argument_registers (placer_spec p) cls) [Gp, Fp]
      then Some None
      else map_option Some (claim_each p [] classes))"

section \<open>Arguments\<close>

definition stacked :: "stacked_placement \<Rightarrow> arg_location" where
  "stacked s = Stack (placed_offset s) (placed_size s) (placed_align s)"

text \<open>Claim from the argument area of the placer.\<close>

definition stack_scalar :: "placer \<Rightarrow> nat \<Rightarrow> stacked_placement \<times> placer" where
  "stack_scalar p natural_size = (let (s, a) = claim_scalar (area p) natural_size in (s, p\<lparr>area := a\<rparr>))"

definition stack_aggregate :: "placer \<Rightarrow> nat \<Rightarrow> arg_location \<times> placer" where
  "stack_aggregate p sz = (let (s, a) = claim_aggregate (area p) sz in (stacked s, p\<lparr>area := a\<rparr>))"

definition homogeneous_float_members :: "nat \<Rightarrow> aggregate_leaves \<Rightarrow> nat option" where
  "homogeneous_float_members sz leaves =
     Option.bind (homogeneous_floats leaves)
       (\<lambda>(width, count). if count \<le> 4 \<and> width * count = sz then Some count else None)"

definition lower_homogeneous :: "placer \<Rightarrow> nat \<Rightarrow> nat \<Rightarrow> (arg_location \<times> placer) option" where
  "lower_homogeneous p sz members =
     (case claim_registers p Fp members of
        Some (first, p) \<Rightarrow> map_option (\<lambda>pieces. (Registers pieces, p)) (consecutive Fp first members)
      | None \<Rightarrow> Some (stack_aggregate (exhaust p Fp) sz))"

definition lower_in_registers :: "placer \<Rightarrow> bool \<Rightarrow> nat \<Rightarrow> aggregate_leaves \<Rightarrow> (arg_location \<times> placer) option" where
  "lower_in_registers p aapcs sz leaves =
     (let count = eightbytes sz in
      case (if aapcs then all_integer_classes count else classify_eightbytes leaves count) of
        None \<Rightarrow> None
      | Some classes \<Rightarrow>
          (case claim_classified_registers p classes of
             None \<Rightarrow> None
           | Some (Some (pieces, p)) \<Rightarrow> Some (Registers pieces, p)
           | Some None \<Rightarrow>
               (let p = (if aapcs then exhaust p Gp else p) in Some (stack_aggregate p sz))))"

definition lower_in_memory :: "placer \<Rightarrow> nat \<Rightarrow> nat \<Rightarrow> arg_location \<times> placer" where
  "lower_in_memory p sz align =
     (case aggregate_rule (placer_spec p) of
        SysVEightbyte \<Rightarrow> stack_aggregate p sz
      | Aapcs64Composite \<Rightarrow>
          (let (pointer, p) =
             (case claim_registers p Gp 1 of
                Some (index, p) \<Rightarrow> (Pointer_Register index, p)
              | None \<Rightarrow> (let (s, p) = stack_scalar p 8 in (Pointer_Stack (placed_offset s), p))) in
           (Indirect pointer (saturate_u32 sz) (saturate_u32 align), p)))"

definition lower_aggregate_argument :: "placer \<Rightarrow> nat \<Rightarrow> nat \<Rightarrow> aggregate_leaves \<Rightarrow> (arg_location \<times> placer) option" where
  "lower_aggregate_argument p sz align leaves =
     (if sz = 0 then Some (Omitted, p)
      else
        let aapcs = (aggregate_rule (placer_spec p) = Aapcs64Composite) in
        case (if aapcs then homogeneous_float_members sz leaves else None) of
          Some members \<Rightarrow> lower_homogeneous p sz members
        | None \<Rightarrow>
            (let memory_by_alignment = (\<not> aapcs \<and> unaligned leaves) in
             if \<not> memory_by_alignment \<and> sz \<le> max_aggregate_register_bytes (placer_spec p)
             then lower_in_registers p aapcs sz leaves
             else Some (lower_in_memory p sz align)))"

definition lower_argument :: "placer \<Rightarrow> c_abi_type_facts \<Rightarrow> (arg_location \<times> placer) option" where
  "lower_argument p facts =
     (case facts of
        ZeroSized \<Rightarrow> Some (Omitted, p)
      | Scalar kind cls \<Rightarrow>
          (case claim_registers p cls 1 of
             Some (index, p) \<Rightarrow> map_option (\<lambda>pieces. (Registers pieces, p)) (one_piece cls index)
           | None \<Rightarrow> (let (s, p) = stack_scalar p (natural_bytes kind) in Some (stacked s, p)))
      | Aggregate sz align leaves \<Rightarrow> lower_aggregate_argument p sz align leaves)"

fun lower_arguments ::
  "placer \<Rightarrow> (c_abi_type_facts \<times> arg_convention) list \<Rightarrow> (lowered_argument list \<times> placer) option" where
  "lower_arguments p [] = Some ([], p)"
| "lower_arguments p ((facts, mode) # params) =
     (let facts = as_argument facts mode in
      case lower_argument p facts of
        None \<Rightarrow> None
      | Some (loc, p) \<Rightarrow>
          map_option (\<lambda>(args, p). (\<lparr>location = loc, arg_extension = facts_extension facts\<rparr> # args, p))
            (lower_arguments p params))"

definition place_signature ::
  "convention_spec \<Rightarrow> (c_abi_type_facts \<times> arg_convention) list \<Rightarrow> lowered_return \<Rightarrow> lowered_signature option" where
  "place_signature pairing params ret =
     (let s = pair_spec pairing;
          p = new_placer s;
          p = (if uses_sret ret \<and> sret_pointer_in_argument_register s then consume p Gp 1 else p) in
      map_option
        (\<lambda>(args, p). \<lparr>sig_convention = pairing, arguments = args, sig_return = ret, stack_bytes = reserved_bytes (area p)\<rparr>)
        (lower_arguments p params))"

section \<open>Results\<close>

fun return_each :: "nat \<Rightarrow> nat \<Rightarrow> register_piece list \<Rightarrow> eightbyte_class list \<Rightarrow> register_piece list option" where
  "return_each gp fp pieces [] = Some pieces"
| "return_each gp fp pieces (e # classes) =
     (case eightbyte_register_class e of
        Gp \<Rightarrow> Option.bind (push_piece pieces \<lparr>piece_class = Gp, piece_index = gp\<rparr>)
                (\<lambda>pieces. return_each (gp + 1) fp pieces classes)
      | Fp \<Rightarrow> Option.bind (push_piece pieces \<lparr>piece_class = Fp, piece_index = fp\<rparr>)
                (\<lambda>pieces. return_each gp (fp + 1) pieces classes))"

definition claim_return_registers :: "c_convention_spec \<Rightarrow> eightbyte_class list \<Rightarrow> register_piece list option option" where
  "claim_return_registers s classes =
     (if list_ex (\<lambda>cls. registers_in classes cls > return_registers s cls) [Gp, Fp] then Some None
      else map_option Some (return_each 0 0 [] classes))"

definition indirect_return :: "c_convention_spec \<Rightarrow> nat \<Rightarrow> nat \<Rightarrow> lowered_return" where
  "indirect_return s sz align =
     Sret (sret_register s) (sret_pointer_echoed_in_result_register s) (saturate_u32 sz) (saturate_u32 align)"

definition lower_composite_return ::
  "c_convention_spec \<Rightarrow> bool \<Rightarrow> nat \<Rightarrow> nat \<Rightarrow> aggregate_leaves \<Rightarrow> lowered_return option" where
  "lower_composite_return s aapcs sz align leaves =
     (let memory_by_alignment = (\<not> aapcs \<and> unaligned leaves);
          count = eightbytes sz in
      if \<not> memory_by_alignment \<and> sz \<le> max_aggregate_return_bytes s \<and> count \<le> capacity then
        (case (if aapcs then all_integer_classes count else classify_eightbytes leaves count) of
           None \<Rightarrow> None
         | Some classes \<Rightarrow>
             (case claim_return_registers s classes of
                None \<Rightarrow> None
              | Some (Some pieces) \<Rightarrow> Some (Return_Registers pieces No_Extension)
              | Some None \<Rightarrow> Some (indirect_return s sz align)))
      else Some (indirect_return s sz align))"

definition lower_aggregate_return :: "c_convention_spec \<Rightarrow> nat \<Rightarrow> nat \<Rightarrow> aggregate_leaves \<Rightarrow> lowered_return option" where
  "lower_aggregate_return s sz align leaves =
     (if sz = 0 then Some Void
      else
        let aapcs = (aggregate_rule s = Aapcs64Composite) in
        case (if aapcs then homogeneous_float_members sz leaves else None) of
          Some members \<Rightarrow>
            if members \<le> return_registers s Fp
            then map_option (\<lambda>pieces. Return_Registers pieces No_Extension) (consecutive Fp 0 members)
            else lower_composite_return s aapcs sz align leaves
        | None \<Rightarrow> lower_composite_return s aapcs sz align leaves)"

definition lower_return :: "c_convention_spec \<Rightarrow> c_abi_type_facts \<Rightarrow> lowered_return option" where
  "lower_return s result =
     (case result of
        ZeroSized \<Rightarrow> Some Void
      | Scalar kind cls \<Rightarrow> map_option (\<lambda>pieces. Return_Registers pieces (scalar_extension kind)) (one_piece cls 0)
      | Aggregate sz align leaves \<Rightarrow> lower_aggregate_return s sz align leaves)"

definition lower_native_return :: "convention_spec \<Rightarrow> c_abi_type_facts \<Rightarrow> lowered_return option" where
  "lower_native_return pairing result =
     map_option (\<lambda>r. case r of Return_Registers pieces _ \<Rightarrow> Return_Registers pieces No_Extension | other \<Rightarrow> other)
       (lower_return (pair_spec pairing) result)"

section \<open>The entry points\<close>

definition lower_c_signature ::
  "calling_convention \<Rightarrow> (c_abi_type_facts \<times> arg_convention) list \<Rightarrow> c_abi_type_facts \<Rightarrow> lowered_signature option" where
  "lower_c_signature convention params result =
     Option.bind (c_pairing convention) (\<lambda>pairing.
       Option.bind (lower_return (pair_spec pairing) result) (place_signature pairing params))"

definition lower_native_signature ::
  "convention_spec \<Rightarrow> (c_abi_type_facts \<times> arg_convention) list \<Rightarrow> lowered_return \<Rightarrow> lowered_signature option" where
  "lower_native_signature pairing params result = place_signature pairing params result"

end
