(* ===== verification/Argument_Placement.thy ===== *)
theory Argument_Placement
  imports Lowered_Signature
begin

text \<open>
  Where the arguments of a signature go: every walk of the placer hands out each register at most
  once, in order, and stack bytes that do not overlap.  The two register banks and the argument
  area are three cursors that only move forward; the locale states what a step does to a cursor,
  and is interpreted on all three.
\<close>

section \<open>Arithmetic\<close>

lemma div_ceil_bounds:
  assumes "0 < b"
  shows "a \<le> div_ceil a b * b" "div_ceil a b * b < a + b"
proof -
  have e: "a div b * b + a mod b = a" and l: "a mod b < b" using assms by simp_all
  have d: "div_ceil a b * b = a div b * b + (if a mod b = 0 then 0 else b)"
    by (simp add: div_ceil_def add_mult_distrib)
  have "a \<le> div_ceil a b * b \<and> div_ceil a b * b < a + b"
  proof (cases "a mod b = 0")
    case True
    then show ?thesis unfolding d if_P[OF True] using e assms by linarith
  next
    case False
    then show ?thesis unfolding d if_not_P[OF False] using e l by linarith
  qed
  then show "a \<le> div_ceil a b * b" "div_ceil a b * b < a + b" by auto
qed

lemma align_up_bounds:
  assumes "v + 2 ^ k < 2 ^ 64" "k \<le> 63"
  shows "v \<le> align_up v (2 ^ k)" "align_up v (2 ^ k) < v + 2 ^ k" "2 ^ k dvd align_up v (2 ^ k)"
proof -
  let ?a = "v + (2 ^ k - 1)"
  have "sat_add_u64 v (2 ^ k - 1) = ?a" using assms(1) by (simp add: sat_add_u64_def max_u64_def)
  moreover have "?a < 2 ^ 64" using assms(1) by simp
  ultimately have r: "align_up v (2 ^ k) = ?a div 2 ^ k * 2 ^ k"
    unfolding align_up_def using clear_low_bits[of ?a k] assms(2) by simp
  show "2 ^ k dvd align_up v (2 ^ k)" by (simp add: r)
  have "?a mod 2 ^ k < 2 ^ k" by simp
  moreover have "align_up v (2 ^ k) + ?a mod 2 ^ k = ?a" unfolding r by (rule div_mult_mod_eq)
  ultimately show "v \<le> align_up v (2 ^ k)" "align_up v (2 ^ k) < v + 2 ^ k" by linarith+
qed

lemma eightbytes_small: "sz + 16 < 2 ^ 32 \<Longrightarrow> eightbytes sz = div_ceil sz 8"
  using div_ceil_bounds(2)[of 8 sz] by (simp add: eightbytes_def saturate_u32_def max_u32_def)

section \<open>Spans\<close>

text \<open>Spans (start, length) that follow one another between two bounds.\<close>

fun ordered_spans :: "nat \<Rightarrow> (nat \<times> nat) list \<Rightarrow> nat \<Rightarrow> bool" where
  "ordered_spans lo [] hi \<longleftrightarrow> lo \<le> hi"
| "ordered_spans lo ((start, len) # spans) hi \<longleftrightarrow> lo \<le> start \<and> ordered_spans (start + len) spans hi"

lemma ordered_spans_le: "ordered_spans lo spans hi \<Longrightarrow> lo \<le> hi"
  by (induction lo spans hi rule: ordered_spans.induct) auto

lemma ordered_spans_append:
  "ordered_spans lo xs mid \<Longrightarrow> ordered_spans mid ys hi \<Longrightarrow> ordered_spans lo (xs @ ys) hi"
proof (induction lo xs mid rule: ordered_spans.induct)
  case (1 lo hi')
  then show ?case by (cases ys) auto
qed auto

lemma ordered_spans_mono: "ordered_spans lo xs mid \<Longrightarrow> mid \<le> hi \<Longrightarrow> ordered_spans lo xs hi"
  by (induction lo xs mid rule: ordered_spans.induct) auto

lemma ordered_spans_disjoint:
  "ordered_spans lo spans hi \<longleftrightarrow>
     lo \<le> hi \<and> (\<forall>(start, len) \<in> set spans. lo \<le> start \<and> start + len \<le> hi)
     \<and> sorted_wrt (\<lambda>(start, len) (start', _). start + len \<le> start') spans"
proof (induction lo spans hi rule: ordered_spans.induct)
  case (2 lo start len spans hi)
  then show ?case using ordered_spans_le[of "start + len" spans hi] by fastforce
qed simp

text \<open>The registers of a bank, and the stack bytes, that a location takes.\<close>

definition piece_spans :: "c_register_class \<Rightarrow> register_piece list \<Rightarrow> (nat \<times> nat) list" where
  "piece_spans cls pieces = map (\<lambda>p. (piece_index p, 1)) (filter (\<lambda>p. piece_class p = cls) pieces)"

definition register_spans :: "c_register_class \<Rightarrow> arg_location \<Rightarrow> (nat \<times> nat) list" where
  "register_spans cls loc =
     (case loc of
        Registers pieces \<Rightarrow> piece_spans cls pieces
      | Indirect (Pointer_Register i) _ _ \<Rightarrow> if cls = Gp then [(i, 1)] else []
      | _ \<Rightarrow> [])"

definition stack_spans :: "arg_location \<Rightarrow> (nat \<times> nat) list" where
  "stack_spans loc =
     (case loc of
        Stack offset sz _ \<Rightarrow> [(offset, sz)]
      | Indirect (Pointer_Stack offset) _ _ \<Rightarrow> [(offset, 8)]
      | _ \<Rightarrow> [])"

section \<open>The cursors of a walk\<close>

text \<open>Bytes that an argument takes from the argument area at most.\<close>

definition stack_need :: "c_abi_type_facts \<Rightarrow> nat" where
  "stack_need facts = (case facts of ZeroSized \<Rightarrow> 0 | Scalar _ _ \<Rightarrow> 16 | Aggregate sz _ _ \<Rightarrow> sz + 16)"

definition argument_facts :: "(c_abi_type_facts \<times> arg_convention) list \<Rightarrow> c_abi_type_facts list" where
  "argument_facts params = map (\<lambda>(facts, mode). as_argument facts mode) params"

text \<open>A placer between two arguments, with room for the rest.\<close>

definition placer_ok :: "placer \<Rightarrow> c_abi_type_facts list \<Rightarrow> bool" where
  "placer_ok p fs \<longleftrightarrow>
     placeable (placer_spec p) \<and> area_spec (area p) = placer_spec p
     \<and> (\<forall>cls. used p cls \<le> argument_registers (placer_spec p) cls)
     \<and> area_offset (area p) + sum_list (map stack_need fs) + 16 < 2 ^ 32"

locale cursor =
  fixes pos :: "placer \<Rightarrow> nat" and spans :: "arg_location \<Rightarrow> (nat \<times> nat) list"
  assumes step: "placer_ok p (f # fs) \<Longrightarrow> lower_argument p f = Some (loc, p')
    \<Longrightarrow> placer_ok p' fs \<and> ordered_spans (pos p) (spans loc) (pos p')"
begin

lemma walk:
  "placer_ok p (argument_facts params) \<Longrightarrow> lower_arguments p params = Some (args, p')
   \<Longrightarrow> placer_ok p' [] \<and> ordered_spans (pos p) (concat (map (spans \<circ> location) args)) (pos p')"
proof (induction params arbitrary: p args)
  case Nil
  then show ?case by (simp add: argument_facts_def)
next
  case (Cons param params)
  obtain facts mode where param: "param = (facts, mode)" by (cases param)
  let ?f = "as_argument facts mode"
  obtain loc q rest where step': "lower_argument p ?f = Some (loc, q)" "lower_arguments q params = Some (rest, p')"
    and args: "args = \<lparr>location = loc, arg_extension = facts_extension ?f\<rparr> # rest"
    using Cons.prems(2) by (auto simp: param Let_def split: option.splits)
  have ok: "placer_ok p (?f # argument_facts params)" using Cons.prems(1) by (simp add: argument_facts_def param)
  from step[OF ok step'(1)] have q: "placer_ok q (argument_facts params)" "ordered_spans (pos p) (spans loc) (pos q)" by auto
  from Cons.IH[OF q(1) step'(2)] q(2) show ?case by (auto simp: args intro: ordered_spans_append)
qed

text \<open>After a step that fills the cursor, nothing more is handed out.\<close>

lemma nothing_after:
  assumes "placer_ok p (argument_facts params)" "lower_arguments p params = Some (args, p')" "pos p' \<le> pos p"
    and "(start, len) \<in> set (concat (map (spans \<circ> location) args))"
  shows "len = 0"
proof -
  have "ordered_spans (pos p) (concat (map (spans \<circ> location) args)) (pos p')" using walk assms(1,2) by blast
  then show ?thesis using assms(3,4) unfolding ordered_spans_disjoint by fastforce
qed

end

section \<open>Claims\<close>

lemma used_consume [simp]:
  "used p cls + n \<le> max_u32 \<Longrightarrow> used (consume p cls n) c = used p c + (if c = cls then n else 0)"
  by (cases cls; cases c) (simp_all add: used_def consume_def sat_add_u32_def)

lemma consume_frame [simp]: "placer_spec (consume p cls n) = placer_spec p" "area (consume p cls n) = area p"
  by (cases cls; simp add: consume_def)+

lemma used_exhaust [simp]: "used (exhaust p cls) c = (if c = cls then argument_registers (placer_spec p) cls else used p c)"
  by (cases cls; cases c) (simp_all add: used_def exhaust_def)

lemma exhaust_frame [simp]: "placer_spec (exhaust p cls) = placer_spec p" "area (exhaust p cls) = area p"
  by (cases cls; simp add: exhaust_def)+

lemma used_area [simp]: "used (p\<lparr>area := a\<rparr>) c = used p c"
  by (cases c) (simp_all add: used_def)

lemma argument_registers_le: "placeable s \<Longrightarrow> argument_registers s cls \<le> 8"
  using placeable_facts[of s] by (cases cls) (simp_all add: argument_registers_def)

lemma claim_registers_eq:
  assumes "used p cls \<le> 8" "n \<le> 8"
  shows "claim_registers p cls n
    = (if used p cls + n \<le> argument_registers (placer_spec p) cls then Some (used p cls, consume p cls n) else None)"
  using assms by (auto simp: claim_registers_def Let_def sat_add_u32_def max_u32_def)

lemma push_pieces_eq: "length pieces + length ps \<le> 8 \<Longrightarrow> push_pieces pieces ps = Some (pieces @ ps)"
  by (induction ps arbitrary: pieces) (simp_all add: push_piece_def capacity_def)

lemma consecutive_eq:
  assumes "count \<le> 8" "first \<le> 8"
  shows "consecutive cls first count = Some (map (\<lambda>offset. \<lparr>piece_class = cls, piece_index = first + offset\<rparr>) [0..<count])"
proof -
  have "map (\<lambda>offset. \<lparr>piece_class = cls, piece_index = sat_add_u32 first offset\<rparr>) [0..<count]
      = map (\<lambda>offset. \<lparr>piece_class = cls, piece_index = first + offset\<rparr>) [0..<count]"
    using assms by (intro map_cong refl) (auto simp: sat_add_u32_def max_u32_def)
  then show ?thesis unfolding consecutive_def using push_pieces_eq[of "[]"] assms by simp
qed

lemma consecutive_spans:
  "ordered_spans first
     (piece_spans c (map (\<lambda>offset. \<lparr>piece_class = cls, piece_index = first + offset\<rparr>) [0..<count]))
     (first + (if c = cls then count else 0))"
proof (induction count)
  case (Suc count)
  then have "ordered_spans first (piece_spans c (map (\<lambda>offset. \<lparr>piece_class = cls, piece_index = first + offset\<rparr>) [0..<count]))
     (first + (if c = cls then count else 0))" by simp
  from ordered_spans_append[OF this, of "if c = cls then [(first + count, 1)] else []" "first + (if c = cls then Suc count else 0)"]
  show ?case by (auto simp: piece_spans_def)
qed (simp add: piece_spans_def)

lemma claim_each_spans:
  "length pieces + length classes \<le> 8 \<Longrightarrow> \<forall>cls. used p cls + registers_in classes cls \<le> 8
   \<Longrightarrow> \<exists>ps p'. claim_each p pieces classes = Some (pieces @ ps, p') \<and> length ps = length classes
         \<and> placer_spec p' = placer_spec p \<and> area p' = area p
         \<and> (\<forall>cls. used p' cls = used p cls + registers_in classes cls \<and> ordered_spans (used p cls) (piece_spans cls ps) (used p' cls))"
proof (induction classes arbitrary: p pieces)
  case Nil
  then show ?case by (simp add: registers_in_def piece_spans_def)
next
  case (Cons e classes)
  let ?cls = "eightbyte_register_class e"
  let ?piece = "\<lparr>piece_class = ?cls, piece_index = used p ?cls\<rparr>"
  let ?p = "consume p ?cls 1"
  have count: "registers_in (e # classes) cls = registers_in classes cls + (if cls = ?cls then 1 else 0)" for cls
    by (auto simp: registers_in_def)
  have u: "used ?p cls = used p cls + (if cls = ?cls then 1 else 0)" for cls
    using Cons.prems(2)[rule_format, of ?cls] by (simp add: max_u32_def)
  have "\<forall>cls. used ?p cls + registers_in classes cls \<le> 8" using Cons.prems(2) unfolding u count by (simp add: ac_simps)
  then obtain ps p' where ih: "claim_each ?p (pieces @ [?piece]) classes = Some (pieces @ [?piece] @ ps, p')" "length ps = length classes"
    "placer_spec p' = placer_spec p" "area p' = area p"
    "\<forall>cls. used p' cls = used ?p cls + registers_in classes cls \<and> ordered_spans (used ?p cls) (piece_spans cls ps) (used p' cls)"
    using Cons.IH[of "pieces @ [?piece]" ?p] Cons.prems(1) by auto
  have "claim_each p pieces (e # classes) = Some (pieces @ (?piece # ps), p')"
    using ih(1) Cons.prems(1) by (simp add: Let_def push_piece_def capacity_def)
  moreover have "used p' cls = used p cls + registers_in (e # classes) cls" for cls
    using ih(5)[rule_format, of cls] unfolding u count by simp
  moreover have "ordered_spans (used p cls) (piece_spans cls (?piece # ps)) (used p cls + registers_in (e # classes) cls)" for cls
    using ih(5)[rule_format, of cls] unfolding u count by (auto simp: piece_spans_def)
  ultimately show ?case using ih(2-4) by (intro exI[of _ "?piece # ps"] exI[of _ p']) (simp del: claim_each.simps)
qed

section \<open>The argument area\<close>

lemma claim_area_eq:
  assumes "area_offset a + 2 ^ k + sz < 2 ^ 32" "k \<le> 3"
  obtains offset where "claim_area a sz (2 ^ k)
      = (\<lparr>placed_offset = offset, placed_size = sz, placed_align = 2 ^ k\<rparr>, a\<lparr>area_offset := offset + sz\<rparr>)"
    "area_offset a \<le> offset" "offset < area_offset a + 2 ^ k" "2 ^ k dvd offset"
proof
  let ?o = "align_up (area_offset a) (2 ^ k)"
  have k: "(2::nat) ^ k \<le> 2 ^ 3" by (rule power_increasing) (use assms(2) in simp_all)
  have "area_offset a + 2 ^ k < 2 ^ 64" using assms(1) by simp
  note b = align_up_bounds[OF this] 
  show "area_offset a \<le> ?o" "?o < area_offset a + 2 ^ k" "2 ^ k dvd ?o" using b assms(2) by simp_all
  have "?o < area_offset a + 2 ^ k" using b(2) assms(2) by simp
  then show "claim_area a sz (2 ^ k)
      = (\<lparr>placed_offset = ?o, placed_size = sz, placed_align = 2 ^ k\<rparr>, a\<lparr>area_offset := ?o + sz\<rparr>)"
    using assms(1) k by (simp add: claim_area_def Let_def saturate_u32_def max_u32_def sat_add_u64_def max_u64_def)
qed

lemma natural_bytes_cases: "natural_bytes k \<in> {1, 2, 4, 8}"
  by (cases k) (simp_all add: natural_bytes_def)

lemma stack_scalar_eq:
  assumes "area_offset (area p) + 16 < 2 ^ 32" "n \<in> {1, 2, 4, 8}"
  obtains offset sz al where "stack_scalar p n
      = (\<lparr>placed_offset = offset, placed_size = sz, placed_align = al\<rparr>, p\<lparr>area := (area p)\<lparr>area_offset := offset + sz\<rparr>\<rparr>)"
    "area_offset (area p) \<le> offset" "offset + sz \<le> area_offset (area p) + 16" "al dvd offset" "n \<le> sz" "0 < sz" "n = 8 \<Longrightarrow> sz = 8 \<and> al = 8"
proof -
  have "\<exists>k \<le> 3. n = 2 ^ k"
  proof -
    have "n = 2 ^ 0 \<or> n = 2 ^ 1 \<or> n = 2 ^ 2 \<or> n = 2 ^ 3" using assms(2) by auto
    then show ?thesis by (metis le_refl numeral_le_iff one_le_numeral semiring_norm(68) semiring_norm(72) zero_le)
  qed
  then obtain k where k: "n = 2 ^ k" "k \<le> 3" by blast
  have bytes: "max 1 (min n 8) = n" "eightbytes n = 1" "n \<le> 8"
    using assms(2) by (auto simp: eightbytes_def div_ceil_def saturate_u32_def max_u32_def)
  show thesis
  proof (cases "stacked_argument_packing (area_spec (area p))")
    case NaturalSize
    have room: "area_offset (area p) + 2 ^ k + n < 2 ^ 32" using assms(1) bytes(3) k(1) by simp
    obtain offset where o: "claim_area (area p) n (2 ^ k)
        = (\<lparr>placed_offset = offset, placed_size = n, placed_align = 2 ^ k\<rparr>, (area p)\<lparr>area_offset := offset + n\<rparr>)"
      "area_offset (area p) \<le> offset" "offset < area_offset (area p) + 2 ^ k" "2 ^ k dvd offset"
      by (rule claim_area_eq[OF room k(2)])
    show thesis
      by (rule that[of offset n "2 ^ k"]) (use o bytes k NaturalSize in \<open>simp_all add: stack_scalar_def claim_scalar_def Let_def\<close>)
  next
    case EightByteSlots
    have room: "area_offset (area p) + 2 ^ 3 + 8 < 2 ^ 32" using assms(1) by simp
    obtain offset where o: "claim_area (area p) 8 (2 ^ 3)
        = (\<lparr>placed_offset = offset, placed_size = 8, placed_align = 2 ^ 3\<rparr>, (area p)\<lparr>area_offset := offset + 8\<rparr>)"
      "area_offset (area p) \<le> offset" "offset < area_offset (area p) + 2 ^ 3" "2 ^ 3 dvd offset"
      by (rule claim_area_eq[OF room order_refl])
    show thesis
      by (rule that[of offset 8 8])
        (use o bytes EightByteSlots in \<open>simp_all add: stack_scalar_def claim_scalar_def Let_def sat_mul_u64_def max_u64_def\<close>)
  qed
qed

lemma stack_aggregate_eq:
  assumes "area_offset (area p) + sz + 16 < 2 ^ 32" "0 < sz"
  obtains offset len where "stack_aggregate p sz = (Stack offset len 8, p\<lparr>area := (area p)\<lparr>area_offset := offset + len\<rparr>\<rparr>)"
    "area_offset (area p) \<le> offset" "offset + len \<le> area_offset (area p) + sz + 16" "8 dvd offset" "sz \<le> len"
proof -
  let ?len = "div_ceil sz 8 * 8"
  have len: "sz \<le> ?len" "?len < sz + 8" using div_ceil_bounds[of 8 sz] by simp_all
  have eb: "sat_mul_u64 (eightbytes sz) 8 = ?len"
    using assms(1) len by (simp add: eightbytes_small sat_mul_u64_def max_u64_def)
  have room: "area_offset (area p) + 2 ^ 3 + ?len < 2 ^ 32" using assms(1) len(2) by simp
  obtain offset where o: "claim_area (area p) ?len (2 ^ 3)
      = (\<lparr>placed_offset = offset, placed_size = ?len, placed_align = 2 ^ 3\<rparr>, (area p)\<lparr>area_offset := offset + ?len\<rparr>)"
    "area_offset (area p) \<le> offset" "offset < area_offset (area p) + 2 ^ 3" "2 ^ 3 dvd offset"
    by (rule claim_area_eq[OF room order_refl])
  show thesis
    by (rule that[of offset ?len]) (use o len eb in \<open>simp_all add: stack_aggregate_def claim_aggregate_def stacked_def\<close>)
qed

section \<open>One argument\<close>

text \<open>The whole value of an argument is carried by its location.\<close>

definition carries :: "c_abi_type_facts \<Rightarrow> arg_location \<Rightarrow> bool" where
  "carries facts loc \<longleftrightarrow>
     (case facts of
        ZeroSized \<Rightarrow> loc = Omitted
      | Scalar kind cls \<Rightarrow>
          (case loc of
             Registers pieces \<Rightarrow> length pieces = 1 \<and> list_all (\<lambda>p. piece_class p = cls) pieces
           | Stack _ sz' _ \<Rightarrow> natural_bytes kind \<le> sz'
           | _ \<Rightarrow> False)
      | Aggregate sz align leaves \<Rightarrow>
          (case loc of
             Omitted \<Rightarrow> sz = 0
           | Registers pieces \<Rightarrow>
               length pieces = eightbytes sz
               \<or> (homogeneous_float_members sz leaves = Some (length pieces) \<and> list_all (\<lambda>p. piece_class p = Fp) pieces)
           | Stack _ sz' _ \<Rightarrow> sz \<le> sz'
           | Indirect _ sz' align' \<Rightarrow> sz' = sz \<and> align' = saturate_u32 align))"

definition stack_aligned :: "arg_location \<Rightarrow> bool" where
  "stack_aligned loc =
     (case loc of
        Stack offset sz align \<Rightarrow> align dvd offset \<and> 0 < sz
      | Indirect (Pointer_Stack offset) _ _ \<Rightarrow> 8 dvd offset
      | _ \<Rightarrow> True)"

text \<open>The bank that an argument of the AArch64 rules asks for.\<close>

definition wanted_bank :: "c_abi_type_facts \<Rightarrow> c_register_class" where
  "wanted_bank facts =
     (case facts of
        ZeroSized \<Rightarrow> Gp
      | Scalar _ cls \<Rightarrow> cls
      | Aggregate sz _ leaves \<Rightarrow> if homogeneous_float_members sz leaves = None then Gp else Fp)"

definition advances :: "placer \<Rightarrow> c_abi_type_facts \<Rightarrow> arg_location \<Rightarrow> placer \<Rightarrow> bool" where
  "advances p f loc p' \<longleftrightarrow>
     placer_spec p' = placer_spec p \<and> area_spec (area p') = area_spec (area p)
     \<and> (\<forall>cls. ordered_spans (used p cls) (register_spans cls loc) (used p' cls)
          \<and> used p' cls \<le> argument_registers (placer_spec p) cls)
     \<and> ordered_spans (area_offset (area p)) (stack_spans loc) (area_offset (area p'))
     \<and> area_offset (area p') \<le> area_offset (area p) + stack_need f
     \<and> stack_aligned loc \<and> carries f loc
     \<and> (aggregate_rule (placer_spec p) = Aapcs64Composite \<and> stack_spans loc \<noteq> []
          \<longrightarrow> used p' (wanted_bank f) = argument_registers (placer_spec p) (wanted_bank f))"

lemma placer_ok_used: "placer_ok p fs \<Longrightarrow> used p cls \<le> 8"
  using argument_registers_le[of "placer_spec p" cls] unfolding placer_ok_def by (meson le_trans)

lemma placer_ok_step: "placer_ok p (f # fs) \<Longrightarrow> advances p f loc p' \<Longrightarrow> placer_ok p' fs"
  by (auto simp: placer_ok_def advances_def)

lemma claim_run:
  assumes ok: "placer_ok p (f # fs)" and n: "n \<le> 8" and fits: "used p cls + n \<le> argument_registers (placer_spec p) cls"
  obtains pieces where "claim_registers p cls n = Some (used p cls, consume p cls n)"
    "consecutive cls (used p cls) n = Some pieces" "length pieces = n" "list_all (\<lambda>q. piece_class q = cls) pieces"
    "\<And>c. ordered_spans (used p c) (piece_spans c pieces) (used (consume p cls n) c)"
    "\<And>c. used (consume p cls n) c \<le> argument_registers (placer_spec p) c"
proof
  let ?pieces = "map (\<lambda>offset. \<lparr>piece_class = cls, piece_index = used p cls + offset\<rparr>) [0..<n]"
  note u = placer_ok_used[OF ok]
  show "claim_registers p cls n = Some (used p cls, consume p cls n)" using claim_registers_eq[OF u n] fits by simp
  show "consecutive cls (used p cls) n = Some ?pieces" by (rule consecutive_eq[OF n u])
  show "length ?pieces = n" "list_all (\<lambda>q. piece_class q = cls) ?pieces" by (simp_all add: list_all_iff)
  have c: "used (consume p cls n) c = used p c + (if c = cls then n else 0)" for c
    using u[of cls] n by (intro used_consume) (simp add: max_u32_def)
  show "ordered_spans (used p c) (piece_spans c ?pieces) (used (consume p cls n) c)" for c
    using consecutive_spans[of "used p cls" c cls n] unfolding c by (auto simp: piece_spans_def filter_empty_conv)
  show "used (consume p cls n) c \<le> argument_registers (placer_spec p) c" for c
    using ok fits unfolding c by (auto simp: placer_ok_def)
qed

lemma advances_stacked:
  assumes ok: "placer_ok p (f # fs)" and q: "placer_spec q = placer_spec p" "area q = area p"
    and u: "\<And>cls. used p cls \<le> used q cls" "\<And>cls. used q cls \<le> argument_registers (placer_spec p) cls"
    and stack: "area_offset (area p) \<le> offset" "offset + len \<le> area_offset (area p) + stack_need f" "al dvd offset" "0 < len"
    and c: "carries f (Stack offset len al)"
    and full: "aggregate_rule (placer_spec p) = Aapcs64Composite
      \<Longrightarrow> used q (wanted_bank f) = argument_registers (placer_spec p) (wanted_bank f)"
  shows "advances p f (Stack offset len al) (q\<lparr>area := (area p)\<lparr>area_offset := offset + len\<rparr>\<rparr>)"
  unfolding advances_def using assms by (simp add: register_spans_def stack_spans_def stack_aligned_def)

lemma lower_scalar_step:
  assumes ok: "placer_ok p (Scalar k cls # fs)"
  shows "\<exists>loc p'. lower_argument p (Scalar k cls) = Some (loc, p') \<and> advances p (Scalar k cls) loc p'"
proof (cases "used p cls + 1 \<le> argument_registers (placer_spec p) cls")
  case True
  obtain pieces where r: "claim_registers p cls 1 = Some (used p cls, consume p cls 1)"
    "consecutive cls (used p cls) 1 = Some pieces" "length pieces = 1" "list_all (\<lambda>q. piece_class q = cls) pieces"
    "\<And>c. ordered_spans (used p c) (piece_spans c pieces) (used (consume p cls 1) c)"
    "\<And>c. used (consume p cls 1) c \<le> argument_registers (placer_spec p) c"
    by (rule claim_run[OF ok _ True]) simp_all
  have "lower_argument p (Scalar k cls) = Some (Registers pieces, consume p cls 1)"
    using r(1,2) by (simp add: lower_argument_def one_piece_def)
  moreover have "advances p (Scalar k cls) (Registers pieces) (consume p cls 1)"
    unfolding advances_def using r(3-6)
    by (simp add: register_spans_def stack_spans_def stack_aligned_def carries_def del: used_consume)
  ultimately show ?thesis by blast
next
  case False
  have room: "area_offset (area p) + 16 < 2 ^ 32" using ok by (simp add: placer_ok_def)
  obtain offset sz al where s: "stack_scalar p (natural_bytes k)
      = (\<lparr>placed_offset = offset, placed_size = sz, placed_align = al\<rparr>, p\<lparr>area := (area p)\<lparr>area_offset := offset + sz\<rparr>\<rparr>)"
    "area_offset (area p) \<le> offset" "offset + sz \<le> area_offset (area p) + 16" "al dvd offset" "natural_bytes k \<le> sz" "0 < sz"
    by (rule stack_scalar_eq[OF room natural_bytes_cases])
  have none: "claim_registers p cls 1 = None" using claim_registers_eq[of p cls 1] placer_ok_used[OF ok] False by simp
  have full: "used p cls = argument_registers (placer_spec p) cls" using ok False by (auto simp: placer_ok_def intro: antisym)
  have "advances p (Scalar k cls) (Stack offset sz al) (p\<lparr>area := (area p)\<lparr>area_offset := offset + sz\<rparr>\<rparr>)"
    by (rule advances_stacked[OF ok])
      (use ok s full in \<open>simp_all add: placer_ok_def stack_need_def carries_def wanted_bank_def\<close>)
  then show ?thesis using none s(1) by (simp add: lower_argument_def stacked_def)
qed

lemma homogeneous_float_members_le: "homogeneous_float_members sz leaves = Some n \<Longrightarrow> n \<le> 4"
  by (auto simp: homogeneous_float_members_def split: if_splits Option.bind_splits)

lemma stack_aggregate_step:
  assumes ok: "placer_ok p (Aggregate sz align leaves # fs)" and sz: "0 < sz" and q: "placer_spec q = placer_spec p" "area q = area p"
    and u: "\<And>cls. used p cls \<le> used q cls" "\<And>cls. used q cls \<le> argument_registers (placer_spec p) cls"
    and full: "aggregate_rule (placer_spec p) = Aapcs64Composite
      \<Longrightarrow> used q (wanted_bank (Aggregate sz align leaves)) = argument_registers (placer_spec p) (wanted_bank (Aggregate sz align leaves))"
  shows "\<exists>loc p'. stack_aggregate q sz = (loc, p') \<and> advances p (Aggregate sz align leaves) loc p'"
proof -
  have room: "area_offset (area q) + sz + 16 < 2 ^ 32" using ok q by (simp add: placer_ok_def stack_need_def)
  obtain offset len where s: "stack_aggregate q sz = (Stack offset len 8, q\<lparr>area := (area q)\<lparr>area_offset := offset + len\<rparr>\<rparr>)"
    "area_offset (area q) \<le> offset" "offset + len \<le> area_offset (area q) + sz + 16" "8 dvd offset" "sz \<le> len"
    by (rule stack_aggregate_eq[OF room sz])
  have "advances p (Aggregate sz align leaves) (Stack offset len 8) (q\<lparr>area := (area p)\<lparr>area_offset := offset + len\<rparr>\<rparr>)"
    by (rule advances_stacked[OF ok q u _ _ _ _ _ full])
      (use s sz q in \<open>simp_all add: stack_need_def carries_def\<close>)
  then show ?thesis using s(1) q by auto
qed

lemma lower_homogeneous_step:
  assumes ok: "placer_ok p (Aggregate sz align leaves # fs)" and sz: "0 < sz"
    and members: "homogeneous_float_members sz leaves = Some n"
  shows "\<exists>loc p'. lower_homogeneous p sz n = Some (loc, p') \<and> advances p (Aggregate sz align leaves) loc p'"
proof -
  note n = homogeneous_float_members_le[OF members]
  show ?thesis
  proof (cases "used p Fp + n \<le> argument_registers (placer_spec p) Fp")
    case True
    obtain pieces where r: "claim_registers p Fp n = Some (used p Fp, consume p Fp n)"
      "consecutive Fp (used p Fp) n = Some pieces" "length pieces = n" "list_all (\<lambda>q. piece_class q = Fp) pieces"
      "\<And>c. ordered_spans (used p c) (piece_spans c pieces) (used (consume p Fp n) c)"
      "\<And>c. used (consume p Fp n) c \<le> argument_registers (placer_spec p) c"
      by (rule claim_run[OF ok _ True]) (use n in simp_all)
    have "lower_homogeneous p sz n = Some (Registers pieces, consume p Fp n)"
      using r(1,2) by (simp add: lower_homogeneous_def)
    moreover have "advances p (Aggregate sz align leaves) (Registers pieces) (consume p Fp n)"
      unfolding advances_def using r(3-6) members
      by (simp add: register_spans_def stack_spans_def stack_aligned_def carries_def del: used_consume)
    ultimately show ?thesis by blast
  next
    case False
    have none: "claim_registers p Fp n = None" using claim_registers_eq[of p Fp n] placer_ok_used[OF ok] False n by simp
    have "\<exists>loc p'. stack_aggregate (exhaust p Fp) sz = (loc, p') \<and> advances p (Aggregate sz align leaves) loc p'"
      by (rule stack_aggregate_step[OF ok sz])
        (use ok members in \<open>auto simp: wanted_bank_def placer_ok_def\<close>)
    then show ?thesis using none by (simp add: lower_homogeneous_def)
  qed
qed

lemma foldl_update_all:
  assumes "length xs = n"
  shows "foldl (\<lambda>cs i. cs[i := f i]) xs [0..<n] = map f [0..<n]"
proof -
  have "foldl (\<lambda>cs i. cs[i := f i]) xs [0..<k] = map f [0..<k] @ drop k xs" if "k \<le> n" for k
    using that
  proof (induction k)
    case (Suc k)
    then show ?case using assms by (simp add: list_update_append Cons_nth_drop_Suc[symmetric])
  qed simp
  from this[of n] show ?thesis using assms by simp
qed

lemma classify_eightbytes_eq:
  "classify_eightbytes a n = (if 1 \<le> n \<and> n \<le> 8 then Some (map (eightbyte_class_at a) [0..<n]) else None)"
  by (simp add: classify_eightbytes_def all_integer_classes_def capacity_def foldl_update_all)

text \<open>The classes under either rule.\<close>

definition argument_classes :: "bool \<Rightarrow> nat \<Rightarrow> aggregate_leaves \<Rightarrow> eightbyte_class list" where
  "argument_classes aapcs n leaves = (if aapcs then replicate n Integer else map (eightbyte_class_at leaves) [0..<n])"

lemma argument_classes_eq:
  "1 \<le> n \<Longrightarrow> n \<le> 8 \<Longrightarrow> (if aapcs then all_integer_classes n else classify_eightbytes leaves n) = Some (argument_classes aapcs n leaves)"
  by (simp add: argument_classes_def all_integer_classes_def classify_eightbytes_eq capacity_def)

lemma length_argument_classes [simp]: "length (argument_classes aapcs n leaves) = n"
  by (simp add: argument_classes_def)

lemma registers_in_le: "registers_in classes cls \<le> length classes"
  by (simp add: registers_in_def)

lemma lower_in_registers_step:
  assumes ok: "placer_ok p (Aggregate sz align leaves # fs)" and sz: "0 < sz" "sz \<le> 16"
    and aapcs: "aapcs \<longleftrightarrow> aggregate_rule (placer_spec p) = Aapcs64Composite" "aapcs \<Longrightarrow> homogeneous_float_members sz leaves = None"
  shows "\<exists>loc p'. lower_in_registers p aapcs sz leaves = Some (loc, p') \<and> advances p (Aggregate sz align leaves) loc p'"
proof -
  let ?n = "eightbytes sz" and ?classes = "argument_classes aapcs (eightbytes sz) leaves"
  have n: "1 \<le> ?n" "?n \<le> 2" using sz div_ceil_bounds[of 8 sz] by (simp_all add: eightbytes_small)
  have classes: "(if aapcs then all_integer_classes ?n else classify_eightbytes leaves ?n) = Some ?classes"
    using n by (intro argument_classes_eq) simp_all
  have sat: "sat_add_u32 (used p cls) (registers_in ?classes cls) = used p cls + registers_in ?classes cls" for cls
    using placer_ok_used[OF ok, of cls] registers_in_le[of ?classes cls] n by (simp add: sat_add_u32_def max_u32_def)
  show ?thesis
  proof (cases "\<forall>cls. used p cls + registers_in ?classes cls \<le> argument_registers (placer_spec p) cls")
    case True
    have "used p cls + registers_in ?classes cls \<le> 8" for cls
      using True argument_registers_le[of "placer_spec p" cls] ok unfolding placer_ok_def by (meson le_trans)
    then obtain pieces p' where c: "claim_each p [] ?classes = Some (pieces, p')" "length pieces = ?n"
      "placer_spec p' = placer_spec p" "area p' = area p"
      "\<forall>cls. used p' cls = used p cls + registers_in ?classes cls \<and> ordered_spans (used p cls) (piece_spans cls pieces) (used p' cls)"
      using claim_each_spans[of "[]" ?classes p] n by auto
    have "claim_classified_registers p ?classes = Some (Some (pieces, p'))"
      using True c(1) sat by (simp add: claim_classified_registers_def not_less)
    then have "lower_in_registers p aapcs sz leaves = Some (Registers pieces, p')"
      unfolding lower_in_registers_def Let_def classes by simp
    moreover have "advances p (Aggregate sz align leaves) (Registers pieces) p'"
    proof -
      have "ordered_spans (used p cls) (piece_spans cls pieces) (used p' cls)" for cls using c(5) by blast
      moreover have "used p' cls \<le> argument_registers (placer_spec p) cls" for cls
        using c(5) True by (metis (no_types))
      ultimately have "ordered_spans (used p cls) (piece_spans cls pieces) (used p' cls)
          \<and> used p' cls \<le> argument_registers (placer_spec p) cls" for cls by blast
      then show ?thesis unfolding advances_def using c(2-4)
        by (simp add: register_spans_def stack_spans_def stack_aligned_def carries_def)
    qed
    ultimately show ?thesis by blast
  next
    case False
    then obtain c where c: "argument_registers (placer_spec p) c < used p c + registers_in ?classes c" by (auto simp: not_le)
    then have "claim_classified_registers p ?classes = Some None"
      using sat by (cases c) (auto simp: claim_classified_registers_def)
    then have low: "lower_in_registers p aapcs sz leaves = Some (stack_aggregate (if aapcs then exhaust p Gp else p) sz)"
      unfolding lower_in_registers_def Let_def classes by simp
    have "\<exists>loc p'. stack_aggregate (if aapcs then exhaust p Gp else p) sz = (loc, p') \<and> advances p (Aggregate sz align leaves) loc p'"
      by (rule stack_aggregate_step[OF ok sz(1)])
        (use ok aapcs in \<open>auto simp: wanted_bank_def placer_ok_def\<close>)
    then show ?thesis using low by simp
  qed
qed

lemma lower_in_memory_step:
  assumes ok: "placer_ok p (Aggregate sz align leaves # fs)" and sz: "0 < sz"
    and hfa: "aggregate_rule (placer_spec p) = Aapcs64Composite \<Longrightarrow> homogeneous_float_members sz leaves = None"
  shows "\<exists>loc p'. lower_in_memory p sz align = (loc, p') \<and> advances p (Aggregate sz align leaves) loc p'"
proof (cases "aggregate_rule (placer_spec p)")
  case SysVEightbyte
  have "\<exists>loc p'. stack_aggregate p sz = (loc, p') \<and> advances p (Aggregate sz align leaves) loc p'"
    by (rule stack_aggregate_step[OF ok sz]) (use ok SysVEightbyte in \<open>auto simp: placer_ok_def\<close>)
  then show ?thesis using SysVEightbyte by (simp add: lower_in_memory_def)
next
  case Aapcs64Composite
  let ?f = "Aggregate sz align leaves"
  have size32: "saturate_u32 sz = sz" using ok by (simp add: placer_ok_def stack_need_def saturate_u32_def max_u32_def)
  have bank: "wanted_bank ?f = Gp" using hfa[OF Aapcs64Composite] by (simp add: wanted_bank_def)
  show ?thesis
  proof (cases "used p Gp + 1 \<le> argument_registers (placer_spec p) Gp")
    case True
    obtain pieces where r: "claim_registers p Gp 1 = Some (used p Gp, consume p Gp 1)"
      "consecutive Gp (used p Gp) 1 = Some pieces"
      "\<And>c. ordered_spans (used p c) (piece_spans c pieces) (used (consume p Gp 1) c)"
      "\<And>c. used (consume p Gp 1) c \<le> argument_registers (placer_spec p) c"
      by (rule claim_run[OF ok _ True]) simp_all
    let ?loc = "Indirect (Pointer_Register (used p Gp)) sz (saturate_u32 align)"
    have "register_spans c ?loc = piece_spans c pieces" for c
      using r(2) consecutive_eq[of 1 "used p Gp" Gp] placer_ok_used[OF ok, of Gp]
      by (cases c) (auto simp: register_spans_def piece_spans_def)
    then have "advances p ?f ?loc (consume p Gp 1)"
      unfolding advances_def using r(3,4)
      by (simp add: stack_spans_def stack_aligned_def carries_def del: used_consume)
    moreover have "lower_in_memory p sz align = (?loc, consume p Gp 1)"
      using r(1) Aapcs64Composite size32 by (simp add: lower_in_memory_def)
    ultimately show ?thesis by blast
  next
    case False
    have none: "claim_registers p Gp 1 = None" using claim_registers_eq[of p Gp 1] placer_ok_used[OF ok] False by simp
    have full: "used p Gp = argument_registers (placer_spec p) Gp" using ok False by (auto simp: placer_ok_def intro: antisym)
    have room: "area_offset (area p) + 16 < 2 ^ 32" using ok by (simp add: placer_ok_def)
    obtain offset len al where s: "stack_scalar p 8
        = (\<lparr>placed_offset = offset, placed_size = len, placed_align = al\<rparr>, p\<lparr>area := (area p)\<lparr>area_offset := offset + len\<rparr>\<rparr>)"
      "area_offset (area p) \<le> offset" "offset + len \<le> area_offset (area p) + 16" "al dvd offset" "len = 8" "al = 8"
      by (rule stack_scalar_eq[OF room, of 8]) auto
    let ?loc = "Indirect (Pointer_Stack offset) sz (saturate_u32 align)"
    have "advances p ?f ?loc (p\<lparr>area := (area p)\<lparr>area_offset := offset + len\<rparr>\<rparr>)"
      unfolding advances_def using s ok full bank
      by (simp add: register_spans_def stack_spans_def stack_aligned_def carries_def stack_need_def placer_ok_def)
    moreover have "lower_in_memory p sz align = (?loc, p\<lparr>area := (area p)\<lparr>area_offset := offset + len\<rparr>\<rparr>)"
      using none s(1) Aapcs64Composite size32 by (simp add: lower_in_memory_def)
    ultimately show ?thesis by blast
  qed
qed

lemma lower_argument_step:
  assumes ok: "placer_ok p (f # fs)"
  shows "\<exists>loc p'. lower_argument p f = Some (loc, p') \<and> advances p f loc p'"
proof (cases f)
  case ZeroSized
  have "advances p f Omitted p"
    using ok by (simp add: ZeroSized advances_def register_spans_def stack_spans_def stack_aligned_def carries_def placer_ok_def)
  then show ?thesis by (simp add: ZeroSized lower_argument_def)
next
  case (Scalar k cls)
  then show ?thesis using lower_scalar_step ok by blast
next
  case (Aggregate sz align leaves)
  note ok' = ok[unfolded Aggregate]
  let ?aapcs = "aggregate_rule (placer_spec p) = Aapcs64Composite"
  have max16: "max_aggregate_register_bytes (placer_spec p) = 16"
    using ok placeable_facts[of "placer_spec p"] by (simp add: placer_ok_def)
  consider (zero) "sz = 0" | (hfa) n where "0 < sz" ?aapcs "homogeneous_float_members sz leaves = Some n"
    | (plain) "0 < sz" "?aapcs \<Longrightarrow> homogeneous_float_members sz leaves = None" by fastforce
  then show ?thesis
  proof cases
    case zero
    then have "advances p f Omitted p"
      using ok by (simp add: Aggregate advances_def register_spans_def stack_spans_def stack_aligned_def carries_def placer_ok_def)
    then show ?thesis using zero by (simp add: Aggregate lower_argument_def lower_aggregate_argument_def)
  next
    case hfa
    then show ?thesis using lower_homogeneous_step[OF ok' hfa(1,3)]
      by (simp add: Aggregate lower_argument_def lower_aggregate_argument_def)
  next
    case plain
    then have none: "(if ?aapcs then homogeneous_float_members sz leaves else None) = None" by simp
    have "lower_argument p f =
      (if \<not> (\<not> ?aapcs \<and> unaligned leaves) \<and> sz \<le> 16 then lower_in_registers p ?aapcs sz leaves else Some (lower_in_memory p sz align))"
      unfolding Aggregate lower_argument_def lower_aggregate_argument_def c_abi_type_facts.case Let_def none max16
      using plain(1) by simp
    then show ?thesis
      using lower_in_registers_step[OF ok' plain(1) _ refl plain(2)] lower_in_memory_step[OF ok' plain]
      unfolding Aggregate by (auto simp del: not_le)
  qed
qed

section \<open>The three cursors\<close>

lemma step_advances:
  assumes "placer_ok p (f # fs)" "lower_argument p f = Some (loc, p')"
  shows "advances p f loc p'"
  using lower_argument_step[OF assms(1)] assms(2) by auto

interpretation gp_cursor: cursor "\<lambda>p. used p Gp" "register_spans Gp"
  by unfold_locales (use placer_ok_step step_advances advances_def in blast)

interpretation fp_cursor: cursor "\<lambda>p. used p Fp" "register_spans Fp"
  by unfold_locales (use placer_ok_step step_advances advances_def in blast)

interpretation stack_cursor: cursor "\<lambda>p. area_offset (area p)" stack_spans
  by unfold_locales (use placer_ok_step step_advances advances_def in blast)

lemma lower_arguments_total:
  "placer_ok p (argument_facts params) \<Longrightarrow>
   \<exists>args p'. lower_arguments p params = Some (args, p')
     \<and> list_all2 (\<lambda>f a. carries f (location a) \<and> stack_aligned (location a)) (argument_facts params) args
     \<and> placer_spec p' = placer_spec p"
proof (induction params arbitrary: p)
  case Nil
  then show ?case by (simp add: argument_facts_def)
next
  case (Cons param params)
  obtain facts mode where param: "param = (facts, mode)" by (cases param)
  have ok: "placer_ok p (as_argument facts mode # argument_facts params)"
    using Cons.prems by (simp add: argument_facts_def param)
  from lower_argument_step[OF ok] obtain loc q
    where q: "lower_argument p (as_argument facts mode) = Some (loc, q)" "advances p (as_argument facts mode) loc q" by blast
  from Cons.IH[OF placer_ok_step[OF ok q(2)]] obtain args p' where ih: "lower_arguments q params = Some (args, p')"
    "list_all2 (\<lambda>f a. carries f (location a) \<and> stack_aligned (location a)) (argument_facts params) args"
    "placer_spec p' = placer_spec q" by blast
  with q show ?case by (simp add: param Let_def argument_facts_def advances_def)
qed

section \<open>A whole signature\<close>

definition all_spans :: "(arg_location \<Rightarrow> (nat \<times> nat) list) \<Rightarrow> lowered_signature \<Rightarrow> (nat \<times> nat) list" where
  "all_spans spans s = concat (map (spans \<circ> location) (arguments s))"

text \<open>The general register that a hidden result pointer takes.\<close>

definition hidden_registers :: "lowered_signature \<Rightarrow> nat" where
  "hidden_registers s =
     (if uses_sret (sig_return s) \<and> sret_pointer_in_argument_register (pair_spec (sig_convention s)) then 1 else 0)"

definition sound_placement :: "(c_abi_type_facts \<times> arg_convention) list \<Rightarrow> lowered_signature \<Rightarrow> bool" where
  "sound_placement params s \<longleftrightarrow>
     (let row = pair_spec (sig_convention s) in
      list_all2 (\<lambda>f a. carries f (location a) \<and> stack_aligned (location a)) (argument_facts params) (arguments s)
      \<and> ordered_spans (hidden_registers s) (all_spans (register_spans Gp) s) (gp_argument_registers row)
      \<and> ordered_spans 0 (all_spans (register_spans Fp) s) (fp_argument_registers row)
      \<and> ordered_spans 0 (all_spans stack_spans s) (stack_bytes s)
      \<and> 16 dvd stack_bytes s)"

definition signature_need :: "(c_abi_type_facts \<times> arg_convention) list \<Rightarrow> nat" where
  "signature_need params = sum_list (map stack_need (argument_facts params)) + 32"

text \<open>The placer that a signature starts with.\<close>

definition start_placer :: "convention_spec \<Rightarrow> lowered_return \<Rightarrow> placer" where
  "start_placer pairing ret =
     (let s = pair_spec pairing; p = new_placer s in
      if uses_sret ret \<and> sret_pointer_in_argument_register s then consume p Gp 1 else p)"

lemma start_placer_ok:
  assumes "placeable (pair_spec pairing)" "signature_need params < 2 ^ 32"
  shows "placer_ok (start_placer pairing ret) (argument_facts params)"
    and "used (start_placer pairing ret) Gp
      = (if uses_sret ret \<and> sret_pointer_in_argument_register (pair_spec pairing) then 1 else 0)"
    and "used (start_placer pairing ret) Fp = 0" "area_offset (area (start_placer pairing ret)) = 0"
    and "placer_spec (start_placer pairing ret) = pair_spec pairing"
proof -
  note f = placeable_facts[OF assms(1)]
  have u: "used (new_placer s) cls = 0" for s cls by (cases cls) (simp_all add: used_def new_placer_def)
  have a: "1 \<le> argument_registers (pair_spec pairing) Gp" using f by (simp add: argument_registers_def)
  show used: "used (start_placer pairing ret) Gp
      = (if uses_sret ret \<and> sret_pointer_in_argument_register (pair_spec pairing) then 1 else 0)"
    "used (start_placer pairing ret) Fp = 0"
    by (simp_all add: start_placer_def Let_def u max_u32_def)
  show spec: "placer_spec (start_placer pairing ret) = pair_spec pairing" "area_offset (area (start_placer pairing ret)) = 0"
    using f by (simp_all add: start_placer_def Let_def new_placer_def new_area_def)
  have "area_spec (area (start_placer pairing ret)) = pair_spec pairing"
    by (simp add: start_placer_def Let_def new_placer_def new_area_def)
  moreover have "used (start_placer pairing ret) cls \<le> argument_registers (pair_spec pairing) cls" for cls
    using used a by (cases cls) simp_all
  ultimately show "placer_ok (start_placer pairing ret) (argument_facts params)"
    using assms spec by (simp add: placer_ok_def signature_need_def)
qed

lemma place_signature_eq:
  "place_signature pairing params ret = map_option
     (\<lambda>(args, p). \<lparr>sig_convention = pairing, arguments = args, sig_return = ret, stack_bytes = reserved_bytes (area p)\<rparr>)
     (lower_arguments (start_placer pairing ret) params)"
  by (simp add: place_signature_def start_placer_def Let_def)

lemma reserved_bytes_bounds:
  assumes "placer_ok p []"
  shows "area_offset (area p) \<le> reserved_bytes (area p)" "16 dvd reserved_bytes (area p)"
proof -
  have al: "call_stack_alignment (area_spec (area p)) = 2 ^ 4" and off: "area_offset (area p) + 16 < 2 ^ 32"
    using assms placeable_facts[of "placer_spec p"] by (simp_all add: placer_ok_def)
  have "area_offset (area p) + 2 ^ 4 < 2 ^ 64" using off by simp
  note b = align_up_bounds[OF this, simplified]
  have "reserved_bytes (area p) = align_up (area_offset (area p)) 16"
    using off b(2) by (simp add: reserved_bytes_def al saturate_u32_def max_u32_def)
  then show "area_offset (area p) \<le> reserved_bytes (area p)" "16 dvd reserved_bytes (area p)" using b by simp_all
qed

lemma place_signature_sound:
  assumes "placeable (pair_spec pairing)" "signature_need params < 2 ^ 32"
  shows "\<exists>s. place_signature pairing params ret = Some s \<and> sig_convention s = pairing \<and> sig_return s = ret \<and> sound_placement params s"
proof -
  note start = start_placer_ok[OF assms, of ret]
  obtain args p' where w: "lower_arguments (start_placer pairing ret) params = Some (args, p')"
    "list_all2 (\<lambda>f a. carries f (location a) \<and> stack_aligned (location a)) (argument_facts params) args"
    "placer_spec p' = pair_spec pairing"
    using lower_arguments_total[OF start(1)] start(5) by auto
  note gp = gp_cursor.walk[OF start(1) w(1)] and fp = fp_cursor.walk[OF start(1) w(1)] and st = stack_cursor.walk[OF start(1) w(1)]
  have u: "used p' cls \<le> argument_registers (pair_spec pairing) cls" for cls using gp w(3) by (simp add: placer_ok_def)
  have "used p' Gp \<le> gp_argument_registers (pair_spec pairing)" "used p' Fp \<le> fp_argument_registers (pair_spec pairing)"
    using u[of Gp] u[of Fp] by (simp_all add: argument_registers_def)
  then show ?thesis
    using gp fp st w(1,2) start(2-4) reserved_bytes_bounds[of p']
    by (auto simp: place_signature_eq sound_placement_def all_spans_def hidden_registers_def Let_def intro: ordered_spans_mono)
qed

end
