(* ===== verification/Signature_Results.thy ===== *)
theory Signature_Results
  imports Argument_Placement
begin

text \<open>
  What the lowering of signatures promises as a whole: sound placements at both entry points, the
  native convention as an extension of the C convention of its target, the rule of AArch64 that no
  register is filled behind a stacked argument, and the classification of aggregates by their
  leaves.
\<close>

section \<open>Results\<close>

lemma return_each_total: "length pieces + length classes \<le> 8 \<Longrightarrow> \<exists>ps. return_each gp fp pieces classes = Some ps"
  by (induction classes arbitrary: gp fp pieces)
    (auto simp: push_piece_def capacity_def split: c_register_class.splits)

lemma all_banks: "(\<forall>cls. P cls) \<longleftrightarrow> P Gp \<and> P Fp"
  by (metis c_register_class.exhaust)

lemma eightbytes_pos: "0 < sz \<Longrightarrow> 1 \<le> eightbytes sz"
  using div_ceil_bounds(1)[of 8 sz] by (cases "div_ceil sz 8") (simp_all add: eightbytes_def saturate_u32_def max_u32_def)

text \<open>The registers of a composite result, when the row has them.\<close>

definition fits_bank :: "c_convention_spec \<Rightarrow> bool \<Rightarrow> nat \<Rightarrow> aggregate_leaves \<Rightarrow> bool" where
  "fits_bank s aapcs sz leaves \<longleftrightarrow>
     (aapcs \<or> \<not> unaligned leaves) \<and> sz \<le> max_aggregate_return_bytes s \<and> eightbytes sz \<le> 8
     \<and> (\<forall>cls. registers_in (argument_classes aapcs (eightbytes sz) leaves) cls \<le> return_registers s cls)"

lemma composite_return_cases:
  assumes "0 < sz"
  shows "lower_composite_return s aapcs sz align leaves
    = (if fits_bank s aapcs sz leaves
       then map_option (\<lambda>ps. Return_Registers ps No_Extension) (return_each 0 0 [] (argument_classes aapcs (eightbytes sz) leaves))
       else Some (indirect_return s sz align))"
proof (cases "(aapcs \<or> \<not> unaligned leaves) \<and> sz \<le> max_aggregate_return_bytes s \<and> eightbytes sz \<le> 8")
  case True
  let ?classes = "argument_classes aapcs (eightbytes sz) leaves"
  have classes: "(if aapcs then all_integer_classes (eightbytes sz) else classify_eightbytes leaves (eightbytes sz)) = Some ?classes"
    using True eightbytes_pos[OF assms] by (intro argument_classes_eq) simp_all
  have ex: "list_ex (\<lambda>cls. registers_in ?classes cls > return_registers s cls) [Gp, Fp]
      \<longleftrightarrow> \<not> (\<forall>cls. registers_in ?classes cls \<le> return_registers s cls)"
    by (auto simp: all_banks not_le)
  have "lower_composite_return s aapcs sz align leaves
    = (case claim_return_registers s ?classes of
         None \<Rightarrow> None
       | Some (Some pieces) \<Rightarrow> Some (Return_Registers pieces No_Extension)
       | Some None \<Rightarrow> Some (indirect_return s sz align))"
    unfolding lower_composite_return_def Let_def classes option.case using True by (simp add: capacity_def)
  also have "\<dots> = (if \<forall>cls. registers_in ?classes cls \<le> return_registers s cls
       then map_option (\<lambda>ps. Return_Registers ps No_Extension) (return_each 0 0 [] ?classes)
       else Some (indirect_return s sz align))"
    unfolding claim_return_registers_def ex by (cases "return_each 0 0 [] ?classes") simp_all
  finally show ?thesis using True by (simp add: fits_bank_def)
next
  case False
  then show ?thesis by (auto simp: lower_composite_return_def fits_bank_def Let_def capacity_def)
qed

text \<open>A wider bank keeps every result that comes back in registers.\<close>

definition widens :: "c_convention_spec \<Rightarrow> c_convention_spec \<Rightarrow> bool" where
  "widens s s' \<longleftrightarrow>
     aggregate_rule s' = aggregate_rule s \<and> max_aggregate_return_bytes s \<le> max_aggregate_return_bytes s'
     \<and> (\<forall>cls. return_registers s cls \<le> return_registers s' cls)
     \<and> (aggregate_rule s = Aapcs64Composite \<longrightarrow> 4 \<le> return_registers s Fp)"

lemma lower_return_widens:
  assumes w: "widens s s'" and r: "lower_return s result = Some r" and regs: "\<not> uses_sret r"
  shows "lower_return s' result = Some r"
proof (cases result)
  case (Aggregate sz align leaves)
  let ?aapcs = "aggregate_rule s = Aapcs64Composite"
  have rule: "aggregate_rule s' = aggregate_rule s" using w by (simp add: widens_def)
  show ?thesis
  proof (cases "sz = 0")
    case True
    then show ?thesis using r by (simp add: Aggregate lower_return_def lower_aggregate_return_def)
  next
    case False
    show ?thesis
    proof (cases "if ?aapcs then homogeneous_float_members sz leaves else None")
      case (Some n)
      then have "?aapcs" "homogeneous_float_members sz leaves = Some n" by (simp_all split: if_splits)
      then have "n \<le> return_registers s Fp" "n \<le> return_registers s' Fp"
        using homogeneous_float_members_le[of sz leaves n] w unfolding widens_def by (meson le_trans)+
      then show ?thesis using r False Some
        unfolding Aggregate lower_return_def lower_aggregate_return_def Let_def c_abi_type_facts.case rule by simp
    next
      case None
      have low: "lower_return t result = lower_composite_return t ?aapcs sz align leaves" if "aggregate_rule t = aggregate_rule s" for t
        using False None unfolding Aggregate lower_return_def lower_aggregate_return_def Let_def c_abi_type_facts.case that by simp
      have fits: "fits_bank s ?aapcs sz leaves"
        using r regs False unfolding low[OF refl] by (auto simp: composite_return_cases uses_sret_def indirect_return_def split: if_splits)
      then have "fits_bank s' ?aapcs sz leaves" using w unfolding fits_bank_def widens_def by (meson le_trans)
      then show ?thesis using r fits False unfolding low[OF refl] low[OF rule] by (simp add: composite_return_cases)
    qed
  qed
qed (use r in \<open>simp_all add: lower_return_def\<close>)

lemma lower_return_total: "\<exists>r. lower_return s result = Some r"
proof (cases result)
  case (Scalar k cls)
  then show ?thesis by (simp add: lower_return_def one_piece_def consecutive_eq)
next
  case (Aggregate sz align leaves)
  have comp: "\<exists>r. lower_composite_return s aapcs sz align leaves = Some r" if "0 < sz" for aapcs
  proof (cases "fits_bank s aapcs sz leaves")
    case True
    then have "\<exists>ps. return_each 0 0 [] (argument_classes aapcs (eightbytes sz) leaves) = Some ps"
      by (intro return_each_total) (simp add: fits_bank_def)
    then show ?thesis using True that by (auto simp: composite_return_cases)
  qed (simp add: composite_return_cases that)
  show ?thesis
    using comp homogeneous_float_members_le[of sz leaves]
    by (auto simp: Aggregate lower_return_def lower_aggregate_return_def Let_def consecutive_eq split: option.splits)
qed (simp add: lower_return_def)

section \<open>Rows that place arguments alike\<close>

definition same_arguments :: "c_convention_spec \<Rightarrow> c_convention_spec \<Rightarrow> bool" where
  "same_arguments s s' \<longleftrightarrow>
     (\<forall>cls. argument_registers s' cls = argument_registers s cls)
     \<and> stacked_argument_packing s' = stacked_argument_packing s \<and> aggregate_rule s' = aggregate_rule s
     \<and> max_aggregate_register_bytes s' = max_aggregate_register_bytes s
     \<and> call_stack_alignment s' = call_stack_alignment s \<and> shadow_space_bytes s' = shadow_space_bytes s
     \<and> sret_register s' = sret_register s"

definition respec :: "c_convention_spec \<Rightarrow> placer \<Rightarrow> placer" where
  "respec s p = p\<lparr>placer_spec := s, area := (area p)\<lparr>area_spec := s\<rparr>\<rparr>"

lemma respec_simps [simp]:
  "placer_spec (respec s p) = s" "used (respec s p) cls = used p cls" "area (respec s p) = (area p)\<lparr>area_spec := s\<rparr>"
  "consume (respec s p) cls n = respec s (consume p cls n)"
  by (cases cls; simp add: respec_def used_def consume_def)+

definition alike :: "c_convention_spec \<Rightarrow> placer \<Rightarrow> bool" where
  "alike s p \<longleftrightarrow> same_arguments (placer_spec p) s \<and> area_spec (area p) = placer_spec p"

lemma respec_exhaust: "alike s p \<Longrightarrow> exhaust (respec s p) cls = respec s (exhaust p cls)"
  by (cases cls) (simp_all add: alike_def exhaust_def respec_def Let_def same_arguments_def)

lemma respec_claim_registers:
  "alike s p \<Longrightarrow> claim_registers (respec s p) cls n = map_option (map_prod id (respec s)) (claim_registers p cls n)"
  by (simp add: alike_def claim_registers_def Let_def same_arguments_def)

lemma respec_stack_scalar: "alike s p \<Longrightarrow> stack_scalar (respec s p) n = map_prod id (respec s) (stack_scalar p n)"
  by (auto simp: alike_def stack_scalar_def claim_scalar_def claim_area_def Let_def same_arguments_def respec_def
      split: stacked_argument_packing.splits)

lemma respec_stack_aggregate: "stack_aggregate (respec s p) sz = map_prod id (respec s) (stack_aggregate p sz)"
  by (simp add: stack_aggregate_def claim_aggregate_def claim_area_def Let_def respec_def)

lemma respec_claim_each:
  "claim_each (respec s p) pieces classes = map_option (map_prod id (respec s)) (claim_each p pieces classes)"
proof (induction classes arbitrary: p pieces)
  case (Cons e classes)
  then show ?case by (cases "push_piece pieces \<lparr>piece_class = eightbyte_register_class e, piece_index = used p (eightbyte_register_class e)\<rparr>")
      (simp_all add: Let_def)
qed simp

lemma respec_claim_classified:
  "alike s p \<Longrightarrow> claim_classified_registers (respec s p) classes
    = map_option (map_option (map_prod id (respec s))) (claim_classified_registers p classes)"
  by (cases "claim_each p [] classes")
    (simp_all add: claim_classified_registers_def respec_claim_each alike_def same_arguments_def)

lemmas respec_claims = respec_exhaust respec_claim_registers respec_stack_scalar respec_stack_aggregate respec_claim_classified

lemma respec_lower_homogeneous:
  assumes "alike s p"
  shows "lower_homogeneous (respec s p) sz n = map_option (map_prod id (respec s)) (lower_homogeneous p sz n)"
  unfolding lower_homogeneous_def respec_claim_registers[OF assms] respec_exhaust[OF assms] respec_stack_aggregate
  by (cases "claim_registers p Fp n") (auto simp: option.map_comp comp_def)

lemma respec_lower_in_registers:
  assumes "alike s p"
  shows "lower_in_registers (respec s p) aapcs sz leaves = map_option (map_prod id (respec s)) (lower_in_registers p aapcs sz leaves)"
proof (cases "if aapcs then all_integer_classes (eightbytes sz) else classify_eightbytes leaves (eightbytes sz)")
  case None
  then show ?thesis by (simp add: lower_in_registers_def)
next
  case (Some classes)
  have ex: "(if aapcs then exhaust (respec s p) Gp else respec s p) = respec s (if aapcs then exhaust p Gp else p)"
    using respec_exhaust[OF assms] by simp
  show ?thesis
    unfolding lower_in_registers_def Let_def Some option.case ex respec_claim_classified[OF assms] respec_stack_aggregate
    by (auto split: option.splits)
qed

lemma respec_lower_in_memory:
  assumes "alike s p"
  shows "lower_in_memory (respec s p) sz align = map_prod id (respec s) (lower_in_memory p sz align)"
proof -
  have rule: "aggregate_rule (placer_spec (respec s p)) = aggregate_rule (placer_spec p)"
    using assms by (simp add: alike_def same_arguments_def)
  show ?thesis
    unfolding lower_in_memory_def rule respec_claim_registers[OF assms] respec_stack_aggregate respec_stack_scalar[OF assms]
    by (auto split: aggregate_classification_rule.splits option.splits prod.splits)
qed

lemma respec_lower_argument:
  assumes "alike s p"
  shows "lower_argument (respec s p) f = map_option (map_prod id (respec s)) (lower_argument p f)"
proof (cases f)
  case (Scalar k cls)
  show ?thesis unfolding Scalar lower_argument_def c_abi_type_facts.case respec_claim_registers[OF assms] respec_stack_scalar[OF assms]
    by (auto simp: option.map_comp comp_def split: option.splits prod.splits)
next
  case (Aggregate sz align leaves)
  have row: "aggregate_rule (placer_spec (respec s p)) = aggregate_rule (placer_spec p)"
    "max_aggregate_register_bytes (placer_spec (respec s p)) = max_aggregate_register_bytes (placer_spec p)"
    using assms by (simp_all add: alike_def same_arguments_def)
  show ?thesis
    unfolding Aggregate lower_argument_def lower_aggregate_argument_def c_abi_type_facts.case Let_def row
      respec_lower_homogeneous[OF assms] respec_lower_in_registers[OF assms] respec_lower_in_memory[OF assms]
    by (auto split: option.splits)
qed (simp add: lower_argument_def)

lemma respec_lower_arguments:
  "placer_ok p (argument_facts params) \<Longrightarrow> alike s p
   \<Longrightarrow> lower_arguments (respec s p) params = map_option (map_prod id (respec s)) (lower_arguments p params)"
proof (induction params arbitrary: p)
  case (Cons param params)
  obtain facts mode where param: "param = (facts, mode)" by (cases param)
  have ok: "placer_ok p (as_argument facts mode # argument_facts params)"
    using Cons.prems(1) by (simp add: argument_facts_def param)
  from lower_argument_step[OF ok] obtain loc q
    where q: "lower_argument p (as_argument facts mode) = Some (loc, q)" "advances p (as_argument facts mode) loc q" by blast
  have "alike s q" using Cons.prems(2) q(2) by (simp add: alike_def advances_def)
  from Cons.IH[OF placer_ok_step[OF ok q(2)] this] show ?case
    by (cases "lower_arguments q params") (auto simp: param Let_def respec_lower_argument[OF Cons.prems(2)] q(1))
qed simp

text \<open>Two rows that place alike give one placement, whatever the result is.\<close>

lemma place_signature_alike:
  assumes ok: "placeable (pair_spec pairing)" "signature_need params < 2 ^ 32"
    and same: "same_arguments (pair_spec pairing) (pair_spec pairing')" and ret: "uses_sret ret' = uses_sret ret"
    and p: "place_signature pairing params ret = Some sig"
  shows "\<exists>sig'. place_signature pairing' params ret' = Some sig' \<and> arguments sig' = arguments sig \<and> stack_bytes sig' = stack_bytes sig"
proof -
  let ?s = "pair_spec pairing'"
  have start: "start_placer pairing' ret' = respec ?s (start_placer pairing ret)"
    using same ret by (simp add: start_placer_def Let_def same_arguments_def new_placer_def new_area_def respec_def
        sret_pointer_in_argument_register_def consume_def)
  have al: "alike ?s (start_placer pairing ret)"
    using same by (simp add: alike_def start_placer_def Let_def new_placer_def new_area_def)
  obtain args q where w: "lower_arguments (start_placer pairing ret) params = Some (args, q)"
    and sig: "arguments sig = args" "stack_bytes sig = reserved_bytes (area q)"
    using p by (auto simp: place_signature_eq)
  have "placer_ok q []" using gp_cursor.walk[OF start_placer_ok(1)[OF ok] w] by simp
  moreover have "placer_spec q = pair_spec pairing"
    using lower_arguments_total[OF start_placer_ok(1)[OF ok, of ret]] w start_placer_ok(5)[OF ok] by auto
  ultimately have "area_spec (area q) = pair_spec pairing" by (simp add: placer_ok_def)
  then have "reserved_bytes (area (respec ?s q)) = reserved_bytes (area q)"
    using same by (simp add: reserved_bytes_def same_arguments_def)
  then show ?thesis
    using respec_lower_arguments[OF start_placer_ok(1)[OF ok] al] w sig by (simp add: place_signature_eq start)
qed

section \<open>No register behind a stacked argument\<close>

lemma register_spans_len: "(start, len) \<in> set (register_spans cls loc) \<Longrightarrow> len = 1"
  by (auto simp: register_spans_def piece_spans_def split: arg_location.splits pointer_location.splits if_splits)

lemma no_registers_left:
  assumes ok: "placer_ok q (argument_facts params)" and w: "lower_arguments q params = Some (args, p')"
    and full: "used q cls = argument_registers (placer_spec q) cls" and a: "a \<in> set args"
  shows "register_spans cls (location a) = []"
proof (rule ccontr)
  assume "register_spans cls (location a) \<noteq> []"
  then obtain start len where sp: "(start, len) \<in> set (register_spans cls (location a))"
    by (metis list.set_intros(1) neq_Nil_conv surj_pair)
  then have mem: "(start, len) \<in> set (concat (map (register_spans cls \<circ> location) args))" using a by auto
  have le: "used p' cls \<le> used q cls"
    using gp_cursor.walk[OF ok w] lower_arguments_total[OF ok] w full by (simp add: placer_ok_def)
  have "len = 0"
    using gp_cursor.nothing_after[OF ok w] fp_cursor.nothing_after[OF ok w] le mem by (cases cls) (simp_all add: comp_def)
  then show False using register_spans_len[OF sp] by simp
qed

lemma lower_arguments_nth:
  "placer_ok p (argument_facts params) \<Longrightarrow> lower_arguments p params = Some (args, p') \<Longrightarrow> i < length params
   \<Longrightarrow> \<exists>q q'. placer_spec q = placer_spec p \<and> advances q (argument_facts params ! i) (location (args ! i)) q'
         \<and> placer_ok q' (argument_facts (drop (Suc i) params))
         \<and> lower_arguments q' (drop (Suc i) params) = Some (drop (Suc i) args, p')"
proof (induction params arbitrary: p args i)
  case (Cons param params)
  obtain facts mode where param: "param = (facts, mode)" by (cases param)
  have ok: "placer_ok p (as_argument facts mode # argument_facts params)"
    using Cons.prems(1) by (simp add: argument_facts_def param)
  obtain loc q rest where w: "lower_argument p (as_argument facts mode) = Some (loc, q)" "lower_arguments q params = Some (rest, p')"
    and args: "args = \<lparr>location = loc, arg_extension = facts_extension (as_argument facts mode)\<rparr> # rest"
    using Cons.prems(2) by (auto simp: param Let_def split: option.splits)
  note adv = step_advances[OF ok w(1)]
  note okq = placer_ok_step[OF ok adv]
  show ?case
  proof (cases i)
    case 0
    then show ?thesis using adv okq w(2) args by (intro exI[of _ p] exI[of _ q]) (simp add: argument_facts_def param)
  next
    case (Suc k)
    have "placer_spec q = placer_spec p" using adv by (simp add: advances_def)
    then show ?thesis using Cons.IH[OF okq w(2), of k] Cons.prems(3) Suc args
      by (simp add: argument_facts_def)
  qed
qed simp

section \<open>Leaves\<close>

text \<open>A leaf reaches an eightbyte when one of its bytes lies in it.\<close>

definition reaches :: "c_abi_leaf \<Rightarrow> nat \<Rightarrow> bool" where
  "reaches l i \<longleftrightarrow> leaf_offset l div 8 \<le> i \<and> i \<le> (leaf_offset l + (leaf_width l - 1)) div 8"

definition leaf_ok :: "c_abi_leaf \<Rightarrow> bool" where
  "leaf_ok l \<longleftrightarrow> leaf_offset l + leaf_width l < 2 ^ 64"

lemma leaf_eightbytes_reaches: "leaf_ok l \<Longrightarrow> i < 8 \<Longrightarrow> i \<in> set (leaf_eightbytes l) \<longleftrightarrow> reaches l i"
proof -
  assume l: "leaf_ok l" "i < 8"
  have "sat_add_u64 (leaf_offset l) (leaf_width l - 1) = leaf_offset l + (leaf_width l - 1)"
    using l(1) by (simp add: leaf_ok_def sat_add_u64_def max_u64_def)
  then show ?thesis using l(2)
    by (auto simp: leaf_eightbytes_def Let_def reaches_def recorded_eightbytes_def max_leaf_classified_bytes_def simp del: upt_Suc)
qed

lemma leaf_eightbytes_small: "e \<in> set (leaf_eightbytes l) \<Longrightarrow> e < 8"
  by (auto simp: leaf_eightbytes_def Let_def recorded_eightbytes_def max_leaf_classified_bytes_def simp del: upt_Suc)

lemma bit_set_bits_of: "\<forall>e \<in> set es. e < 8 \<Longrightarrow> i < 8 \<Longrightarrow> bit (set_bits_of w es) i \<longleftrightarrow> bit w i \<or> i \<in> set es"
proof (induction es arbitrary: w)
  case (Cons e es)
  then have "bit (set_bits_of (w OR push_bit e 1) es) i \<longleftrightarrow> bit (w OR push_bit e 1) i \<or> i \<in> set es" by simp
  moreover have "bit (w OR push_bit e 1) i \<longleftrightarrow> bit w i \<or> i = e" using Cons.prems by (auto simp: bit_simps)
  ultimately show ?case by (auto simp: set_bits_of_def)
qed (simp add: set_bits_of_def)

lemma push_leaf_bits:
  assumes "leaf_ok l" "i < 8"
  shows "bit (integer_eightbytes (push_leaf a l)) i \<longleftrightarrow> bit (integer_eightbytes a) i \<or> (leaf_kind l = Leaf_Integer \<and> reaches l i)"
    and "bit (float_eightbytes (push_leaf a l)) i \<longleftrightarrow> bit (float_eightbytes a) i \<or> (leaf_kind l \<noteq> Leaf_Integer \<and> reaches l i)"
    and "unaligned (push_leaf a l) \<longleftrightarrow> unaligned a \<or> leaf_width l \<noteq> 0 \<and> leaf_offset l mod leaf_width l \<noteq> 0"
    and "floats (push_leaf a l) = merge_floats (floats a) (float_bytes (leaf_kind l))"
proof -
  have b: "bit (set_bits_of w (leaf_eightbytes l)) i \<longleftrightarrow> bit w i \<or> reaches l i" for w
    using bit_set_bits_of[of "leaf_eightbytes l" i w] leaf_eightbytes_reaches[OF assms] leaf_eightbytes_small assms(2) by blast
  show "bit (integer_eightbytes (push_leaf a l)) i \<longleftrightarrow> bit (integer_eightbytes a) i \<or> (leaf_kind l = Leaf_Integer \<and> reaches l i)"
    "bit (float_eightbytes (push_leaf a l)) i \<longleftrightarrow> bit (float_eightbytes a) i \<or> (leaf_kind l \<noteq> Leaf_Integer \<and> reaches l i)"
    "unaligned (push_leaf a l) \<longleftrightarrow> unaligned a \<or> leaf_width l \<noteq> 0 \<and> leaf_offset l mod leaf_width l \<noteq> 0"
    "floats (push_leaf a l) = merge_floats (floats a) (float_bytes (leaf_kind l))"
    by (cases "leaf_kind l"; simp add: push_leaf_def Let_def b)+
qed

lemma foldl_push_leaf:
  "\<forall>l \<in> set ls. leaf_ok l \<Longrightarrow> i < 8 \<Longrightarrow>
     (bit (integer_eightbytes (foldl push_leaf a ls)) i \<longleftrightarrow>
        bit (integer_eightbytes a) i \<or> (\<exists>l \<in> set ls. leaf_kind l = Leaf_Integer \<and> reaches l i))
     \<and> (bit (float_eightbytes (foldl push_leaf a ls)) i \<longleftrightarrow>
        bit (float_eightbytes a) i \<or> (\<exists>l \<in> set ls. leaf_kind l \<noteq> Leaf_Integer \<and> reaches l i))
     \<and> (unaligned (foldl push_leaf a ls) \<longleftrightarrow>
        unaligned a \<or> (\<exists>l \<in> set ls. leaf_width l \<noteq> 0 \<and> leaf_offset l mod leaf_width l \<noteq> 0))
     \<and> floats (foldl push_leaf a ls) = foldl merge_floats (floats a) (map (\<lambda>l. float_bytes (leaf_kind l)) ls)"
  by (induction ls arbitrary: a) (auto simp: push_leaf_bits)

lemma merge_floats_simps:
  "merge_floats Mixed b = Mixed"
  "0 < c \<Longrightarrow> c < max_u32 \<Longrightarrow> merge_floats (Homogeneous w c) b = (if b = Some w then Homogeneous w (c + 1) else Mixed)"
  by (cases b; simp add: merge_floats_def sat_add_u32_def)+

lemma foldl_merge_Mixed [simp]: "foldl merge_floats Mixed bs = Mixed"
  by (induction bs) (simp_all add: merge_floats_simps)

lemma foldl_merge_floats:
  "0 < c \<Longrightarrow> c + length bs \<le> max_u32 \<Longrightarrow>
   foldl merge_floats (Homogeneous w c) bs = (if \<forall>b \<in> set bs. b = Some w then Homogeneous w (c + length bs) else Mixed)"
  by (induction bs arbitrary: c) (auto simp: merge_floats_simps)

lemma and_push_bit_iff: "i < 64 \<Longrightarrow> (w :: u64) AND push_bit i 1 \<noteq> 0 \<longleftrightarrow> bit w i"
proof -
  assume i: "i < 64"
  have "bit (w AND push_bit i 1) n \<longleftrightarrow> n = i \<and> bit w i" for n using i by (auto simp: bit_simps)
  then show ?thesis by (metis bit_eq_iff bit_0_eq bot_apply bot_bool_def)
qed

lemma from_leaves_facts:
  assumes "\<forall>l \<in> set leaves. leaf_ok l" "length leaves < 2 ^ 32"
  shows "i < 8 \<Longrightarrow> eightbyte_class_at (from_leaves sz leaves) i = Sse
      \<longleftrightarrow> (\<exists>l \<in> set leaves. reaches l i) \<and> (\<forall>l \<in> set leaves. reaches l i \<longrightarrow> leaf_kind l \<noteq> Leaf_Integer)"
    and "homogeneous_floats (from_leaves sz leaves) = Some (w, n)
      \<longleftrightarrow> leaves \<noteq> [] \<and> n = length leaves \<and> (\<forall>l \<in> set leaves. float_bytes (leaf_kind l) = Some w)"
    and "unaligned (from_leaves sz leaves) \<longleftrightarrow> (\<exists>l \<in> set leaves. leaf_width l \<noteq> 0 \<and> leaf_offset l mod leaf_width l \<noteq> 0)"
proof -
  let ?a = "\<lparr>integer_eightbytes = 0, float_eightbytes = 0, floats = Homogeneous 0 0, unaligned = False\<rparr> :: aggregate_leaves"
  have fold: "from_leaves sz leaves = foldl push_leaf ?a leaves" if "leaves \<noteq> []" using that by (simp add: from_leaves_def)
  show "eightbyte_class_at (from_leaves sz leaves) i = Sse
      \<longleftrightarrow> (\<exists>l \<in> set leaves. reaches l i) \<and> (\<forall>l \<in> set leaves. reaches l i \<longrightarrow> leaf_kind l \<noteq> Leaf_Integer)" if i: "i < 8"
  proof (cases "leaves = []")
    case True
    then show ?thesis by (simp add: from_leaves_def all_integer_leaves_def eightbyte_class_at_def Let_def)
  next
    case False
    have c: "eightbyte_class_at a i = Sse \<longleftrightarrow> \<not> bit (integer_eightbytes a) i \<and> bit (float_eightbytes a) i" for a
      using i and_push_bit_iff[of i "integer_eightbytes a"] and_push_bit_iff[of i "float_eightbytes a"]
      by (simp add: eightbyte_class_at_def Let_def recorded_eightbytes_def max_leaf_classified_bytes_def)
    show ?thesis unfolding fold[OF False] c using foldl_push_leaf[OF assms(1) i, of ?a] by auto
  qed
  show "homogeneous_floats (from_leaves sz leaves) = Some (w, n)
      \<longleftrightarrow> leaves \<noteq> [] \<and> n = length leaves \<and> (\<forall>l \<in> set leaves. float_bytes (leaf_kind l) = Some w)"
  proof (cases leaves)
    case Nil
    then show ?thesis by (simp add: from_leaves_def all_integer_leaves_def homogeneous_floats_def)
  next
    case (Cons l ls)
    let ?b = "float_bytes (leaf_kind l)"
    have "floats (from_leaves sz leaves) = foldl merge_floats (Homogeneous 0 0) (map (\<lambda>l. float_bytes (leaf_kind l)) leaves)"
      using foldl_push_leaf[OF assms(1), of 0 ?a] fold Cons by simp
    also have "\<dots> = foldl merge_floats (case ?b of None \<Rightarrow> Mixed | Some w \<Rightarrow> Homogeneous w 1) (map (\<lambda>l. float_bytes (leaf_kind l)) ls)"
      by (cases ?b) (simp_all add: Cons merge_floats_def)
    finally show ?thesis
      using assms(2) foldl_merge_floats[of 1 "map (\<lambda>l. float_bytes (leaf_kind l)) ls"]
      by (cases ?b) (auto simp: Cons homogeneous_floats_def max_u32_def)
  qed
  show "unaligned (from_leaves sz leaves) \<longleftrightarrow> (\<exists>l \<in> set leaves. leaf_width l \<noteq> 0 \<and> leaf_offset l mod leaf_width l \<noteq> 0)"
  proof (cases "leaves = []")
    case True
    then show ?thesis by (simp add: from_leaves_def all_integer_leaves_def)
  next
    case False
    then show ?thesis using foldl_push_leaf[OF assms(1), of 0 ?a] fold by simp
  qed
qed

section \<open>The promises\<close>

text \<open>
  C14. Lowering is total on every C convention and on the native convention of every target, and
  its placements are sound: each argument is carried whole; within each register bank the
  arguments take registers of the roster in ascending order, each at most once, and none takes the
  register of a hidden result pointer; the stack bytes follow one another, aligned, within the
  reserved area, whose size is a multiple of 16.  The signature is assumed to need less than
  4 GiB of stack.
\<close>

theorem signature_placements_sound:
  assumes "signature_need params < 2 ^ 32" and "c \<noteq> Rue"
  shows "(\<exists>s. lower_c_signature c params result = Some s \<and> sound_placement params s)
    \<and> (\<exists>pairing s. native_pairing t = Some pairing \<and> lower_native_signature pairing params ret = Some s
         \<and> sig_return s = ret \<and> sound_placement params s)"
proof
  obtain pairing where p: "c_pairing c = Some pairing"
    using assms(2) by (cases c) (simp_all add: c_pairing_def c_spec_def is_c_def is_rue_def)
  then have "placeable (pair_spec pairing)" by (auto simp: placeable_def)
  moreover obtain r where "lower_return (pair_spec pairing) result = Some r" using lower_return_total by blast
  ultimately show "\<exists>s. lower_c_signature c params result = Some s \<and> sound_placement params s"
    using place_signature_sound[of pairing params r] assms(1) p by (auto simp: lower_c_signature_def)
next
  have "placeable (native_spec t)" by (auto simp: placeable_def native_pairing_eq)
  then show "\<exists>pairing s. native_pairing t = Some pairing \<and> lower_native_signature pairing params ret = Some s
       \<and> sig_return s = ret \<and> sound_placement params s"
    using place_signature_sound[of "\<lparr>pair_convention = Rue, pair_spec = native_spec t\<rparr>" params ret] assms(1)
    by (auto simp: native_pairing_eq lower_native_signature_def)
qed

text \<open>A byte and a struct of 24 bytes by value, and an \<open>inout\<close> argument, on x86-64 Linux.\<close>

theorem signature_placements_sound_witness:
  "\<exists>s. lower_c_signature X86_64SysV
         [(Scalar Kind_I8 Gp, ByValue), (integer_aggregate 24 8, ByValue), (integer_aggregate 64 8, ByReference)] ZeroSized = Some s
       \<and> length (arguments s) = 3"
proof -
  let ?params = "[(Scalar Kind_I8 Gp, ByValue), (integer_aggregate 24 8, ByValue), (integer_aggregate 64 8, ByReference)]"
  have need: "signature_need ?params < 2 ^ 32"
    by (simp add: signature_need_def argument_facts_def as_argument_def stack_need_def by_reference_pointer_def integer_aggregate_def)
  have "X86_64SysV \<noteq> Rue" by simp
  from signature_placements_sound[OF need this, of ZeroSized] obtain s
    where "lower_c_signature X86_64SysV ?params ZeroSized = Some s" "sound_placement ?params s" by blast
  moreover from this(2) have "length (arguments s) = 3"
    by (auto simp: sound_placement_def Let_def argument_facts_def dest!: list_all2_lengthD)
  ultimately show ?thesis by blast
qed

lemma native_widens: "\<exists>p. c_pairing (c_for_target t) = Some p \<and> pair_spec p \<noteq> native_spec t
    \<and> widens (pair_spec p) (native_spec t) \<and> same_arguments (pair_spec p) (native_spec t)"
  by (cases t)
    (auto simp: convention_simps native_spec_def widens_def same_arguments_def all_banks return_registers_def argument_registers_def)

text \<open>
  C15. The native convention extends the C convention of its target: a result that C returns in
  registers comes back in the same registers, with nothing left to extend; and whenever both
  results agree on whether a hidden pointer is passed, every argument has the same place and the
  same stack area is reserved.
\<close>

theorem native_extends_c:
  assumes "signature_need params < 2 ^ 32"
    and "lower_c_signature (c_for_target t) params result = Some s" and "native_pairing t = Some pairing"
  shows "\<exists>ret ns. lower_native_return pairing result = Some ret \<and> lower_native_signature pairing params ret = Some ns
    \<and> return_extension ret = No_Extension
    \<and> (\<not> uses_sret (sig_return s) \<longrightarrow> \<not> uses_sret ret \<and> register_pieces ret = register_pieces (sig_return s))
    \<and> (uses_sret ret = uses_sret (sig_return s) \<longrightarrow> arguments ns = arguments s \<and> stack_bytes ns = stack_bytes s)"
proof -
  let ?strip = "\<lambda>r. case r of Return_Registers pieces _ \<Rightarrow> Return_Registers pieces No_Extension | other \<Rightarrow> other"
  have pairing: "pairing = \<lparr>pair_convention = Rue, pair_spec = native_spec t\<rparr>" using assms(3) by (simp add: native_pairing_eq)
  obtain p where p: "c_pairing (c_for_target t) = Some p" "widens (pair_spec p) (native_spec t)" "same_arguments (pair_spec p) (native_spec t)"
    using native_widens by blast
  then obtain r where r: "lower_return (pair_spec p) result = Some r" "place_signature p params r = Some s"
    using assms(2) by (auto simp: lower_c_signature_def split: Option.bind_splits)
  have sr: "sig_return s = r" using r(2) by (auto simp: place_signature_eq)
  obtain r' where r': "lower_return (native_spec t) result = Some r'" using lower_return_total by blast
  let ?ret = "?strip r'"
  have ret: "lower_native_return pairing result = Some ?ret" using r' by (simp add: lower_native_return_def pairing)
  have strip: "uses_sret (?strip x) = uses_sret x" "register_pieces (?strip x) = register_pieces x" "return_extension (?strip x) = No_Extension" for x
    by (cases x; simp add: uses_sret_def register_pieces_def return_extension_def)+
  have same: "r' = r" if "\<not> uses_sret r" using lower_return_widens[OF p(2) r(1) that] r' by simp
  have ok: "placeable (pair_spec p)" "placeable (native_spec t)"
    using p(1) by (auto simp: placeable_def native_pairing_eq)
  obtain ns where ns: "place_signature pairing params ?ret = Some ns"
    using place_signature_sound[of pairing params ?ret] ok(2) assms(1) pairing by auto
  have "arguments ns = arguments s \<and> stack_bytes ns = stack_bytes s" if "uses_sret ?ret = uses_sret r"
    using place_signature_alike[OF ok(1) assms(1) _ that r(2), of pairing] p(3) ns by (simp add: pairing)
  then show ?thesis using ret ns strip same unfolding sr lower_native_signature_def by (metis (no_types, lifting))
qed

text \<open>A word and a struct of two words by value, returning a word, on AArch64 Linux.\<close>

theorem native_extends_c_witness:
  "\<exists>ret. lower_native_return \<lparr>pair_convention = Rue, pair_spec = native_spec Aarch64Linux\<rparr> (Scalar Kind_I32 Gp) = Some ret
     \<and> return_extension ret = No_Extension"
proof -
  let ?params = "[(Scalar RegisterWidth Gp, ByValue), (integer_aggregate 16 8, ByValue)]"
  have need: "signature_need ?params < 2 ^ 32"
    by (simp add: signature_need_def argument_facts_def as_argument_def stack_need_def integer_aggregate_def)
  have "placeable aarch64_aapcs"
    by (auto simp: placeable_def intro!: exI[of _ Aarch64Aapcs] simp: c_pairing_def c_spec_def is_c_def is_rue_def)
  moreover obtain r where "lower_return aarch64_aapcs (Scalar Kind_I32 Gp) = Some r" using lower_return_total by blast
  ultimately obtain s where s: "lower_c_signature (c_for_target Aarch64Linux) ?params (Scalar Kind_I32 Gp) = Some s"
    using place_signature_sound[of "\<lparr>pair_convention = Aarch64Aapcs, pair_spec = aarch64_aapcs\<rparr>" ?params r] need
    by (auto simp: lower_c_signature_def c_for_target_def c_pairing_def c_spec_def is_c_def is_rue_def)
  show ?thesis using native_extends_c[OF need s native_pairing_eq] by blast
qed

text \<open>
  Under the AArch64 rules no argument is placed in a register behind a stacked one: once an
  argument, or the pointer to its copy, has gone to the stack, every later argument finds the bank
  it wanted exhausted.
\<close>

theorem aapcs_no_backfill:
  assumes "placeable (pair_spec pairing)" "signature_need params < 2 ^ 32" "aggregate_rule (pair_spec pairing) = Aapcs64Composite"
    and "place_signature pairing params ret = Some s" "i < j" "j < length params"
    and "stack_spans (location (arguments s ! i)) \<noteq> []"
  shows "register_spans (wanted_bank (argument_facts params ! i)) (location (arguments s ! j)) = []"
proof -
  note ok = start_placer_ok[OF assms(1,2), of ret]
  obtain args p' where w: "lower_arguments (start_placer pairing ret) params = Some (args, p')" and args: "arguments s = args"
    using assms(4) by (auto simp: place_signature_eq)
  obtain q q' where q: "placer_spec q = pair_spec pairing" "advances q (argument_facts params ! i) (location (args ! i)) q'"
    "placer_ok q' (argument_facts (drop (Suc i) params))" "lower_arguments q' (drop (Suc i) params) = Some (drop (Suc i) args, p')"
    using lower_arguments_nth[OF ok(1) w, of i] assms(5,6) ok(5) by auto
  have "length args = length params"
    using lower_arguments_total[OF ok(1)] w by (auto simp: argument_facts_def dest: list_all2_lengthD)
  then have "args ! j \<in> set (drop (Suc i) args)" using assms(5,6) by (auto simp: in_set_conv_nth intro!: exI[of _ "j - Suc i"])
  moreover have "used q' (wanted_bank (argument_facts params ! i)) = argument_registers (placer_spec q') (wanted_bank (argument_facts params ! i))"
    using q(1,2) assms(3,7) args by (simp add: advances_def)
  ultimately show ?thesis using no_registers_left[OF q(3,4)] args by simp
qed

text \<open>
  C25. Folding the leaves of an aggregate, in any order, answers the three questions of the rules
  exactly: an eightbyte is of the floating-point class when some leaf reaches it and every leaf that
  does is a float; the aggregate is homogeneous when all its leaves are floats of one width, and
  their number is the member count; and some leaf is unaligned when its width does not divide its
  offset.
\<close>

theorem aggregate_classification_exact:
  assumes "\<forall>l \<in> set leaves. leaf_ok l" "length leaves < 2 ^ 32"
  shows "(\<forall>i < 8. eightbyte_class_at (from_leaves sz leaves) i = Sse
      \<longleftrightarrow> (\<exists>l \<in> set leaves. reaches l i) \<and> (\<forall>l \<in> set leaves. reaches l i \<longrightarrow> leaf_kind l \<noteq> Leaf_Integer))
    \<and> (homogeneous_floats (from_leaves sz leaves) = Some (w, n)
      \<longleftrightarrow> leaves \<noteq> [] \<and> n = length leaves \<and> (\<forall>l \<in> set leaves. float_bytes (leaf_kind l) = Some w))
    \<and> (unaligned (from_leaves sz leaves) \<longleftrightarrow> (\<exists>l \<in> set leaves. leaf_width l \<noteq> 0 \<and> leaf_offset l mod leaf_width l \<noteq> 0))"
  by (intro conjI allI impI from_leaves_facts[OF assms])

text \<open>A struct of an \<open>f64\<close> and an \<open>i64\<close>: its first eightbyte is a float, its second is not.\<close>

theorem aggregate_classification_exact_witness:
  "eightbyte_class_at (from_leaves 16 [f64_leaf 0, integer_leaf 8 8]) 0 = Sse
   \<and> eightbyte_class_at (from_leaves 16 [f64_leaf 0, integer_leaf 8 8]) 1 \<noteq> Sse"
proof -
  let ?leaves = "[f64_leaf 0, integer_leaf 8 8]"
  have ok: "\<forall>l \<in> set ?leaves. leaf_ok l" "length ?leaves < 2 ^ 32"
    by (simp_all add: leaf_ok_def f64_leaf_def integer_leaf_def)
  have r: "reaches (f64_leaf 0) 0" "\<not> reaches (integer_leaf 8 8) 0" "reaches (integer_leaf 8 8) 1"
    by (simp_all add: reaches_def f64_leaf_def integer_leaf_def)
  have k: "leaf_kind (f64_leaf 0) = Leaf_F64" "leaf_kind (integer_leaf 8 8) = Leaf_Integer"
    by (simp_all add: f64_leaf_def integer_leaf_def)
  note c = aggregate_classification_exact[OF ok, of 16 0 0, THEN conjunct1, rule_format]
  show ?thesis using c[of 0] c[of 1] r k by simp
qed

text \<open>
  The leaves of an aggregate larger than 64 bytes never matter: as an argument or as a result,
  under any description, it is placed as if it held integers only, which is what the projection
  reports for it without a walk.
\<close>

theorem large_aggregates_need_no_leaves:
  assumes "placeable (placer_spec p)" "max_leaf_classified_bytes < sz"
    and "\<forall>l \<in> set leaves. leaf_ok l" "length leaves < 2 ^ 32"
  shows "lower_argument p (Aggregate sz align (from_leaves sz leaves)) = lower_argument p (integer_aggregate sz align)
    \<and> lower_return (placer_spec p) (Aggregate sz align (from_leaves sz leaves)) = lower_return (placer_spec p) (integer_aggregate sz align)"
proof -
  have sz: "64 < sz" using assms(2) by (simp add: max_leaf_classified_bytes_def)
  have "w \<le> 8" if "homogeneous_floats (from_leaves sz leaves) = Some (w, n)" for w n
  proof -
    have "leaves \<noteq> []" "\<forall>l \<in> set leaves. float_bytes (leaf_kind l) = Some w"
      using that from_leaves_facts(2)[OF assms(3,4)] by auto
    then show ?thesis by (cases leaves) (auto simp: float_bytes_def split: c_abi_leaf_kind.splits)
  qed
  then have small: "w * n \<le> 32" if "homogeneous_floats (from_leaves sz leaves) = Some (w, n)" "n \<le> 4" for w n
    using mult_le_mono[of w 8 n 4] that by simp
  have none: "homogeneous_float_members sz (from_leaves sz leaves) = None"
  proof (cases "homogeneous_floats (from_leaves sz leaves)")
    case (Some p)
    then show ?thesis using small[of "fst p" "snd p"] sz by (cases p) (auto simp: homogeneous_float_members_def)
  qed (simp add: homogeneous_float_members_def)
  have none': "homogeneous_float_members sz (all_integer_leaves sz) = None"
    by (simp add: homogeneous_float_members_def homogeneous_floats_def all_integer_leaves_def)
  have big: "\<not> sz \<le> max_aggregate_register_bytes (placer_spec p)" using placeable_facts[OF assms(1)] sz by simp
  have "max_aggregate_return_bytes (placer_spec p) \<le> 64"
    using placeable_facts[OF assms(1)] by simp
  then have "\<not> fits_bank (placer_spec p) a sz l" for a l using sz by (simp add: fits_bank_def)
  then have comp: "lower_composite_return (placer_spec p) a sz align l = Some (indirect_return (placer_spec p) sz align)" for a l
    using composite_return_cases[of sz] sz by simp
  show ?thesis
    unfolding integer_aggregate_def lower_argument_def lower_return_def lower_aggregate_argument_def lower_aggregate_return_def
      c_abi_type_facts.case Let_def none none' comp if_cancel option.case using big by simp
qed

text \<open>An array of sixteen \<open>f64\<close>.\<close>

theorem large_aggregates_need_no_leaves_witness:
  "lower_return x86_64_sysv (Aggregate 128 8 (from_leaves 128 (map (\<lambda>i. f64_leaf (8 * i)) [0..<16])))
    = lower_return x86_64_sysv (integer_aggregate 128 8)"
proof -
  let ?leaves = "map (\<lambda>i. f64_leaf (8 * i)) [0..<16]"
  have row: "placeable (placer_spec (new_placer x86_64_sysv))"
    by (auto simp: placeable_def new_placer_def intro!: exI[of _ X86_64SysV] simp: c_pairing_def c_spec_def is_c_def is_rue_def)
  have sz: "max_leaf_classified_bytes < 128" by (simp add: max_leaf_classified_bytes_def)
  have leaves: "\<forall>l \<in> set ?leaves. leaf_ok l" "length ?leaves < 2 ^ 32"
    by (auto simp: leaf_ok_def f64_leaf_def)
  show ?thesis using large_aggregates_need_no_leaves[OF row sz leaves, of 8] by (simp add: new_placer_def)
qed

text \<open>At 64 bytes the leaves do matter: eight floats come back in registers on x86-64, eight words do not.\<close>

lemma leaf_bound_tight:
  "lower_return (native_spec X86_64Linux) (integer_aggregate 64 8) \<noteq>
   lower_return (native_spec X86_64Linux) (Aggregate 64 8 (from_leaves 64 (map (\<lambda>i. f64_leaf (8 * i)) [0..<8])))"
proof -
  let ?s = "native_spec X86_64Linux" and ?words = "all_integer_leaves 64"
    and ?floats = "from_leaves 64 (map (\<lambda>i. f64_leaf (8 * i)) [0..<8])"
  have row: "aggregate_rule ?s = SysVEightbyte" "max_aggregate_return_bytes ?s = 64" "gp_return_registers ?s = 6" "fp_return_registers ?s = 8"
    by (simp_all add: native_spec_def convention_simps)
  have ret: "lower_return ?s (Aggregate 64 8 l) = lower_composite_return ?s False 64 8 l" for l
    by (simp add: lower_return_def lower_aggregate_return_def row)
  have eight: "eightbytes 64 = 8" by (simp add: eightbytes_small div_ceil_def)
  have leaves: "\<forall>l \<in> set (map (\<lambda>i. f64_leaf (8 * i)) [0..<8]). leaf_ok l" "length (map (\<lambda>i. f64_leaf (8 * i)) [0..<8]) < 2 ^ 32"
    by (auto simp: leaf_ok_def f64_leaf_def)
  have "eightbyte_class_at ?words i = Integer" for i
    by (simp add: eightbyte_class_at_def all_integer_leaves_def Let_def)
  then have "registers_in (argument_classes False 8 ?words) Gp = 8"
    by (simp add: registers_in_def argument_classes_def eightbyte_register_class_def comp_def)
  then have words: "\<not> fits_bank ?s False 64 ?words"
    by (auto simp: fits_bank_def eight return_registers_def row intro!: exI[of _ Gp])
  have "eightbyte_class_at ?floats i = Sse" if "i < 8" for i
    unfolding from_leaves_facts(1)[OF leaves that] using that
    by (auto simp: reaches_def f64_leaf_def intro!: bexI[of _ i])
  then have "argument_classes False 8 ?floats = replicate 8 Sse"
    by (simp add: argument_classes_def list_eq_iff_nth_eq del: upt_Suc)
  moreover have "\<not> unaligned ?floats"
    unfolding from_leaves_facts(3)[OF leaves] by (auto simp: f64_leaf_def)
  ultimately have floats: "fits_bank ?s False 64 ?floats"
    by (simp add: fits_bank_def eight row all_banks registers_in_def eightbyte_register_class_def return_registers_def)
  show ?thesis unfolding integer_aggregate_def ret
    using words floats by (auto simp: composite_return_cases indirect_return_def map_option_case split: option.splits)
qed

text \<open>Three structs of four doubles and a double, on AArch64 Linux: the third struct is stacked.\<close>

definition four_doubles :: c_abi_type_facts where
  "four_doubles = Aggregate 32 8 \<lparr>integer_eightbytes = 0, float_eightbytes = 15, floats = Homogeneous 8 4, unaligned = False\<rparr>"

theorem aapcs_no_backfill_witness:
  "\<exists>s. place_signature \<lparr>pair_convention = Aarch64Aapcs, pair_spec = aarch64_aapcs\<rparr>
        [(four_doubles, ByValue), (four_doubles, ByValue), (four_doubles, ByValue), (Scalar Kind_F64 Fp, ByValue)] Void = Some s
      \<and> register_spans Fp (location (arguments s ! 3)) = []"
proof -
  let ?pairing = "\<lparr>pair_convention = Aarch64Aapcs, pair_spec = aarch64_aapcs\<rparr>"
  let ?params = "[(four_doubles, ByValue), (four_doubles, ByValue), (four_doubles, ByValue), (Scalar Kind_F64 Fp, ByValue)]"
  have row: "placeable (pair_spec ?pairing)" "aggregate_rule (pair_spec ?pairing) = Aapcs64Composite"
    by (auto simp: placeable_def aarch64_aapcs_def intro!: exI[of _ Aarch64Aapcs] simp: c_pairing_def c_spec_def is_c_def is_rue_def)
  have need: "signature_need ?params < 2 ^ 32"
    by (simp add: signature_need_def argument_facts_def as_argument_def stack_need_def four_doubles_def)
  have hfa: "wanted_bank four_doubles = Fp" "homogeneous_float_members 32 \<lparr>integer_eightbytes = 0, float_eightbytes = 15, floats = Homogeneous 8 4, unaligned = False\<rparr> = Some 4"
    by (simp_all add: wanted_bank_def four_doubles_def homogeneous_float_members_def homogeneous_floats_def)
  obtain s where s: "place_signature ?pairing ?params Void = Some s" using place_signature_sound[OF row(1) need] by blast
  have "stack_spans (location (arguments s ! 2)) \<noteq> []"
    using s hfa(2) unfolding place_signature_def
    by (auto simp: Let_def lower_argument_def lower_aggregate_argument_def lower_homogeneous_def four_doubles_def as_argument_def
        aarch64_aapcs_def new_placer_def uses_sret_def claim_registers_def used_def consume_def sat_add_u32_def max_u32_def
        argument_registers_def consecutive_eq stack_aggregate_def stack_spans_def stacked_def split: option.splits prod.splits)
  moreover have "wanted_bank (argument_facts ?params ! 2) = Fp"
    by (simp add: argument_facts_def as_argument_def hfa)
  ultimately have "register_spans Fp (location (arguments s ! 3)) = []"
    using aapcs_no_backfill[OF row(1) need row(2) s, of 2 3] by simp
  with s show ?thesis by blast
qed

end
