(* ===== verification/Exact_Decimal.thy ===== *)
theory Exact_Decimal
  imports Complex_Main Integer_Semantics
begin

text \<open>
  The exact identity of decimal floating-point literals (\<open>rue-air/src/exact_decimal.rs\<close>): the
  canonical text \<open><significand>e<exponent>\<close>, computed with decimal strings of any length, and its
  display.  The conversions to and from machine floats are not modelled: they are the standard
  library's parser and a third-party formatter.

  A text is the list of its bytes.  The inner helpers are called on digits only.
\<close>

type_synonym ascii = "nat list"

definition ascii_digit :: "nat \<Rightarrow> bool" where
  "ascii_digit b \<longleftrightarrow> 48 \<le> b \<and> b \<le> 57"

text \<open>The standard library's decimal rendering of a count.\<close>

function decimal_of :: "nat \<Rightarrow> ascii" where
  "decimal_of n = (if n < 10 then [48 + n] else decimal_of (n div 10) @ [48 + n mod 10])"
  by pat_completeness auto
termination by (relation "measure id") auto

declare decimal_of.simps [simp del]

definition trim_zeros :: "ascii \<Rightarrow> ascii" where
  "trim_zeros text = dropWhile (\<lambda>b. b = 48) text"

text \<open>The parts before and after the first match.\<close>

definition split_first :: "(nat \<Rightarrow> bool) \<Rightarrow> ascii \<Rightarrow> (ascii \<times> ascii) option" where
  "split_first P text =
     (case dropWhile (\<lambda>b. \<not> P b) text of
        [] \<Rightarrow> None
      | _ # rest \<Rightarrow> Some (takeWhile (\<lambda>b. \<not> P b) text, rest))"

section \<open>Decimal magnitudes\<close>

fun compare_same_length :: "ascii \<Rightarrow> ascii \<Rightarrow> cmp_ordering" where
  "compare_same_length [] [] = Equal"
| "compare_same_length [] (_ # _) = Less"
| "compare_same_length (_ # _) [] = Greater"
| "compare_same_length (a # as) (b # bs) = (if a < b then Less else if b < a then Greater else compare_same_length as bs)"

definition compare_magnitudes :: "ascii \<Rightarrow> ascii \<Rightarrow> cmp_ordering" where
  "compare_magnitudes lhs rhs =
     (if length lhs < length rhs then Less
      else if length rhs < length lhs then Greater
      else compare_same_length lhs rhs)"

text \<open>The loop of the addition, from the last digit on; the bytes it pushes.\<close>

function add_digits :: "ascii \<Rightarrow> ascii \<Rightarrow> nat \<Rightarrow> ascii" where
  "add_digits [] [] carry =
     (if carry = 0 then [] else (48 + carry mod 10) # add_digits [] [] (carry div 10))"
| "add_digits (l # ls) [] carry =
     (let sum = (l - 48) + carry in (48 + sum mod 10) # add_digits ls [] (sum div 10))"
| "add_digits [] (r # rs) carry =
     (let sum = (r - 48) + carry in (48 + sum mod 10) # add_digits [] rs (sum div 10))"
| "add_digits (l # ls) (r # rs) carry =
     (let sum = (l - 48) + (r - 48) + carry in (48 + sum mod 10) # add_digits ls rs (sum div 10))"
  by pat_completeness auto
termination by (relation "measures [\<lambda>(l, r, c). length l + length r, \<lambda>(l, r, c). c]") auto

definition add_magnitudes :: "ascii \<Rightarrow> ascii \<Rightarrow> ascii" where
  "add_magnitudes lhs rhs = rev (add_digits (rev lhs) (rev rhs) 0)"

fun subtract_digits :: "ascii \<Rightarrow> ascii \<Rightarrow> int \<Rightarrow> ascii" where
  "subtract_digits [] rs borrow = []"
| "subtract_digits (l # ls) rs borrow =
     (let digit = int (l - 48) - borrow;
          r = (case rs of [] \<Rightarrow> 0 | b # _ \<Rightarrow> int (b - 48));
          rs = (case rs of [] \<Rightarrow> [] | _ # bs \<Rightarrow> bs);
          (digit, borrow) = (if digit < r then (digit + 10, 1) else (digit, 0)) in
      (48 + nat (digit - r)) # subtract_digits ls rs borrow)"

fun pop_zeros :: "ascii \<Rightarrow> ascii" where
  "pop_zeros [] = []"
| "pop_zeros [d] = [d]"
| "pop_zeros (d # ds) = (if d = 48 then pop_zeros ds else d # ds)"

text \<open>The result is built from the last digit on; its end, where zeros are popped, is its front reversed.\<close>

definition subtract_magnitudes :: "ascii \<Rightarrow> ascii \<Rightarrow> ascii" where
  "subtract_magnitudes lhs rhs = pop_zeros (rev (subtract_digits (rev lhs) (rev rhs) 0))"

section \<open>Signed exponents\<close>

record signed_decimal =
  negative :: bool
  magnitude :: ascii

definition parse_signed_decimal :: "ascii \<Rightarrow> signed_decimal option" where
  "parse_signed_decimal text =
     (let (neg, digits) =
        (case text of
           b # rest \<Rightarrow> if b = 45 then (True, rest) else if b = 43 then (False, rest) else (False, text)
         | [] \<Rightarrow> (False, text)) in
      if digits = [] \<or> \<not> list_all ascii_digit digits then None
      else
        let m = trim_zeros digits in
        Some \<lparr>negative = neg \<and> m \<noteq> [], magnitude = (if m = [] then [48] else m)\<rparr>)"

definition add_signed_count :: "signed_decimal \<Rightarrow> bool \<Rightarrow> nat \<Rightarrow> signed_decimal" where
  "add_signed_count d positive count =
     (if count = 0 then d
      else
        let rhs = decimal_of count in
        if negative d \<noteq> positive then d\<lparr>magnitude := add_magnitudes (magnitude d) rhs\<rparr>
        else
          case compare_magnitudes (magnitude d) rhs of
            Greater \<Rightarrow> d\<lparr>magnitude := subtract_magnitudes (magnitude d) rhs\<rparr>
          | Equal \<Rightarrow> d\<lparr>negative := False, magnitude := [48]\<rparr>
          | Less \<Rightarrow> d\<lparr>negative := \<not> negative d, magnitude := subtract_magnitudes rhs (magnitude d)\<rparr>)"

definition render_signed_decimal :: "signed_decimal \<Rightarrow> ascii" where
  "render_signed_decimal d = (if negative d then 45 # magnitude d else magnitude d)"

section \<open>Canonical texts\<close>

text \<open>\<open>e\<close> or \<open>E\<close>.\<close>

definition is_exponent_mark :: "nat \<Rightarrow> bool" where
  "is_exponent_mark b \<longleftrightarrow> b = 101 \<or> b = 69"

definition canonical_decimal_literal :: "ascii \<Rightarrow> ascii option" where
  "canonical_decimal_literal text =
     (let (mantissa, exponent) = (case split_first is_exponent_mark text of None \<Rightarrow> (text, [48]) | Some p \<Rightarrow> p);
          (whole, fraction) = (case split_first (\<lambda>b. b = 46) mantissa of None \<Rightarrow> (mantissa, []) | Some p \<Rightarrow> p) in
      if whole = [] \<or> \<not> list_all ascii_digit whole \<or> \<not> list_all ascii_digit fraction then None
      else
        let digits = trim_zeros (whole @ fraction) in
        if digits = [] then Some [48, 101, 48]
        else
          let trailing = length (takeWhile (\<lambda>b. b = 48) (rev digits));
              significand = take (length digits - trailing) digits in
          case parse_signed_decimal exponent of
            None \<Rightarrow> None
          | Some e \<Rightarrow>
              (let e = add_signed_count e False (length fraction);
                   e = add_signed_count e True trailing in
               Some (significand @ 101 # render_signed_decimal e)))"

definition with_sign :: "bool \<Rightarrow> ascii \<Rightarrow> ascii" where
  "with_sign neg m = (if neg then 45 # m else m)"

definition integer_float_value_text :: "int \<Rightarrow> ascii option" where
  "integer_float_value_text v =
     map_option (with_sign (v < 0)) (canonical_decimal_literal (decimal_of (nat \<bar>v\<bar>)))"

definition negated_integer_float_value_text :: "nat \<Rightarrow> ascii option" where
  "negated_integer_float_value_text m = map_option (with_sign True) (canonical_decimal_literal (decimal_of m))"

section \<open>Display\<close>

text \<open>The standard library's parser of an \<open>i64\<close>.\<close>

definition digits_value :: "ascii \<Rightarrow> nat" where
  "digits_value ds = foldl (\<lambda>v b. v * 10 + (b - 48)) 0 ds"

definition parse_i64 :: "ascii \<Rightarrow> int option" where
  "parse_i64 text =
     (let (neg, digits) =
        (case text of
           b # rest \<Rightarrow> if b = 45 then (True, rest) else if b = 43 then (False, rest) else (False, text)
         | [] \<Rightarrow> (False, text)) in
      if digits = [] \<or> \<not> list_all ascii_digit digits then None
      else
        let v = (if neg then - int (digits_value digits) else int (digits_value digits)) in
        if - (2 ^ 63) \<le> v \<and> v < 2 ^ 63 then Some v else None)"

definition show_int :: "int \<Rightarrow> ascii" where
  "show_int v = (if v < 0 then 45 # decimal_of (nat (- v)) else decimal_of (nat v))"

definition display_magnitude :: "ascii \<Rightarrow> int \<Rightarrow> int \<Rightarrow> ascii" where
  "display_magnitude digits exponent point =
     (if -4 \<le> point \<and> point \<le> 16 then
        if exponent \<ge> 0 then digits @ replicate (nat exponent) 48 @ [46, 48]
        else if point > 0 then take (nat point) digits @ 46 # drop (nat point) digits
        else [48, 46] @ replicate (nat (- point)) 48 @ digits
      else
        let lead = take 1 digits; rest = drop 1 digits;
            scientific = point - 1;
            exponent_sign = (if scientific \<ge> 0 then [43] else []) in
        if rest = [] then lead @ 101 # exponent_sign @ show_int scientific
        else lead @ 46 # rest @ 101 # exponent_sign @ show_int scientific)"

text \<open>The point is computed in an \<open>i64\<close>: \<open>None\<close> is its overflow.\<close>

definition display_float_value_text :: "ascii \<Rightarrow> ascii option" where
  "display_float_value_text text =
     (let (sign, m) = (case text of b # rest \<Rightarrow> if b = 45 then ([45], rest) else ([], text) | [] \<Rightarrow> ([], text)) in
      case split_first (\<lambda>b. b = 101) m of
        None \<Rightarrow> Some text
      | Some (digits, exponent) \<Rightarrow>
          (case parse_i64 exponent of
             None \<Rightarrow> Some text
           | Some exponent \<Rightarrow>
               if digits = [] \<or> \<not> list_all ascii_digit digits then Some text
               else if length digits \<ge> 2 ^ 63 then Some text
               else
                 let point = int (length digits) + exponent in
                 if point < 2 ^ 63 then Some (sign @ display_magnitude digits exponent point) else None))"

end
