(* ===== verification/Decimal_Strings.thy ===== *)
theory Decimal_Strings
  imports Exact_Decimal
begin

text \<open>
  Decimal strings and the numbers they spell: what addition, subtraction, comparison and the signed
  exponents of \<open>Exact_Decimal\<close> compute.
\<close>

section \<open>Values\<close>

abbreviation all_digits :: "ascii \<Rightarrow> bool" where
  "all_digits ds \<equiv> list_all ascii_digit ds"

lemma ascii_digit_mod [simp]: "ascii_digit (48 + n mod 10)"
  using mod_less_divisor[of 10 n] by (simp add: ascii_digit_def)

lemma ascii_digit_add: "ascii_digit (48 + n) \<longleftrightarrow> n \<le> 9"
  by (auto simp: ascii_digit_def)

lemma digits_value_snoc [simp]: "digits_value (ds @ [d]) = digits_value ds * 10 + (d - 48)"
  by (simp add: digits_value_def)

lemma digits_value_Nil [simp]: "digits_value [] = 0"
  by (simp add: digits_value_def)

lemma digits_value_append: "digits_value (as @ bs) = digits_value as * 10 ^ length bs + digits_value bs"
proof (induction bs rule: rev_induct)
  case (snoc b bs)
  have "digits_value (as @ bs @ [b]) = digits_value (as @ bs) * 10 + (b - 48)"
    using digits_value_snoc[of "as @ bs" b] by simp
  then show ?case by (simp add: snoc algebra_simps)
qed simp

lemma digits_value_Cons: "digits_value (d # ds) = (d - 48) * 10 ^ length ds + digits_value ds"
  using digits_value_append[of "[d]" ds] by (simp add: digits_value_def)

lemma digits_value_less: "all_digits ds \<Longrightarrow> digits_value ds < 10 ^ length ds"
proof (induction ds rule: rev_induct)
  case (snoc d ds)
  then have "d - 48 \<le> 9" "digits_value ds < 10 ^ length ds" by (auto simp: ascii_digit_def)
  then show ?case by simp
qed simp

text \<open>The value of a string read from its last digit on.\<close>

fun lsb_value :: "ascii \<Rightarrow> nat" where
  "lsb_value [] = 0"
| "lsb_value (d # ds) = (d - 48) + 10 * lsb_value ds"

lemma lsb_value_rev: "lsb_value (rev ds) = digits_value ds"
proof -
  have "lsb_value xs = digits_value (rev xs)" for xs by (induction xs) simp_all
  from this[of "rev ds"] show ?thesis by simp
qed

text \<open>A magnitude: digits without leading zeros.\<close>

definition normal :: "ascii \<Rightarrow> bool" where
  "normal ds \<longleftrightarrow> ds \<noteq> [] \<and> all_digits ds \<and> (hd ds = 48 \<longrightarrow> ds = [48])"

lemma normal_ge: "normal ds \<Longrightarrow> ds \<noteq> [48] \<Longrightarrow> 10 ^ (length ds - 1) \<le> digits_value ds"
proof (cases ds)
  case (Cons d ds')
  assume "normal ds" "ds \<noteq> [48]"
  then have "1 \<le> d - 48" using Cons by (auto simp: normal_def ascii_digit_def)
  then have "1 * 10 ^ length ds' \<le> (d - 48) * 10 ^ length ds'" by (rule mult_le_mono1)
  then have "10 ^ length ds' \<le> (d - 48) * 10 ^ length ds' + digits_value ds'" by linarith
  then show ?thesis by (simp only: Cons digits_value_Cons list.size(4) add_Suc_right add_0_right diff_Suc_1)
qed (simp add: normal_def)

lemma decimal_of_normal: "normal (decimal_of n) \<and> digits_value (decimal_of n) = n"
proof (induction n rule: decimal_of.induct)
  case (1 n)
  show ?case
  proof (cases "n < 10")
    case True
    then show ?thesis by (auto simp: decimal_of.simps[of n] normal_def ascii_digit_def digits_value_def)
  next
    case False
    then have ih: "normal (decimal_of (n div 10))" "digits_value (decimal_of (n div 10)) = n div 10" using 1 by auto
    have "decimal_of (n div 10) \<noteq> [48]" using ih(2) False by (auto simp: digits_value_def)
    then have "hd (decimal_of (n div 10)) \<noteq> 48" using ih(1) by (auto simp: normal_def)
    then show ?thesis using ih False
      by (simp add: decimal_of.simps[of n] normal_def ascii_digit_def hd_append)
  qed
qed

lemma normal_unique: "normal ds \<Longrightarrow> decimal_of (digits_value ds) = ds"
proof (induction ds rule: rev_induct)
  case (snoc d ds)
  have d: "48 \<le> d" "d \<le> 57" "all_digits ds" using snoc.prems by (auto simp: normal_def ascii_digit_def)
  show ?case
  proof (cases "ds = []")
    case True
    then show ?thesis using d by (simp add: decimal_of.simps digits_value_def)
  next
    case False
    then have n: "normal ds" and "ds \<noteq> [48]" using snoc.prems d by (auto simp: normal_def hd_append)
    then have "1 \<le> digits_value ds" using normal_ge[of ds] by (meson le_trans one_le_numeral one_le_power)
    obtain e where e: "d = 48 + e" "e \<le> 9" using d(1,2) that[of "d - 48"] by simp
    have "digits_value (ds @ [d]) = digits_value ds * 10 + e" by (simp add: e)
    then have "\<not> digits_value (ds @ [d]) < 10" "digits_value (ds @ [d]) div 10 = digits_value ds"
      "digits_value (ds @ [d]) mod 10 = e" using \<open>1 \<le> digits_value ds\<close> e(2) by simp_all
    then show ?thesis using snoc.IH[OF n] e(1) unfolding decimal_of.simps[of "digits_value (ds @ [d])"] by simp
  qed
qed (simp add: normal_def)

lemma trim_zeros_value: "digits_value (trim_zeros ds) = digits_value ds"
  by (induction ds) (simp_all add: trim_zeros_def digits_value_Cons)

lemma trim_zeros_digits: "all_digits ds \<Longrightarrow> all_digits (trim_zeros ds)"
  by (auto simp: trim_zeros_def list_all_iff dest: set_dropWhileD)

lemma trim_zeros_normal: "all_digits ds \<Longrightarrow> trim_zeros ds \<noteq> [] \<Longrightarrow> normal (trim_zeros ds) \<and> trim_zeros ds \<noteq> [48]"
  using hd_dropWhile[of "\<lambda>b. b = 48" ds] trim_zeros_digits[of ds] by (auto simp: normal_def trim_zeros_def)

lemma trim_zeros_empty: "all_digits ds \<Longrightarrow> trim_zeros ds = [] \<longleftrightarrow> digits_value ds = 0"
proof
  assume "all_digits ds" "digits_value ds = 0"
  then show "trim_zeros ds = []"
    using trim_zeros_normal[of ds] normal_ge[of "trim_zeros ds"] trim_zeros_value[of ds]
    by (metis le_zero_eq power_not_zero zero_neq_numeral)
next
  assume "trim_zeros ds = []"
  then show "digits_value ds = 0" using trim_zeros_value[of ds] by simp
qed

section \<open>Addition\<close>

declare add_digits.simps(1) [simp del]

lemma add_digits_carry:
  "add_digits [] [] 0 = []"
  "c \<noteq> 0 \<Longrightarrow> add_digits [] [] c = (48 + c mod 10) # add_digits [] [] (c div 10)"
  by (subst add_digits.simps(1), simp)+

lemma add_digits_value:
  "all_digits l \<Longrightarrow> all_digits r \<Longrightarrow> lsb_value (add_digits l r c) = lsb_value l + lsb_value r + c \<and> all_digits (add_digits l r c)"
proof (induction l r c rule: add_digits.induct)
  case (1 c)
  show ?case
  proof (cases "c = 0")
    case False
    then have "lsb_value (add_digits [] [] (c div 10)) = c div 10" "all_digits (add_digits [] [] (c div 10))" using 1 by auto
    then show ?thesis using False by (simp add: add_digits_carry(2))
  qed (simp add: add_digits_carry)
qed (simp_all add: Let_def algebra_simps)

definition top_ok :: "ascii \<Rightarrow> bool" where
  "top_ok ds \<longleftrightarrow> ds = [] \<or> last ds \<noteq> 48"

lemma top_ok_Cons: "top_ok rest \<Longrightarrow> (rest = [] \<Longrightarrow> x \<noteq> 48) \<Longrightarrow> top_ok (x # rest)"
  by (auto simp: top_ok_def)

lemma top_ok_tl: "top_ok (d # ds) \<Longrightarrow> top_ok ds"
  by (auto simp: top_ok_def)

lemma add_digits_empty: "add_digits l r c = [] \<longleftrightarrow> l = [] \<and> r = [] \<and> c = 0"
  by (cases "(l, r, c)" rule: add_digits.cases; cases "c = 0") (simp_all add: Let_def add_digits_carry)

lemma digit_mod:
  fixes s :: nat
  shows "48 + s mod 10 = 48 \<longleftrightarrow> s mod 10 = 0" "s div 10 = 0 \<Longrightarrow> s mod 10 = s"
proof -
  show "48 + s mod 10 = 48 \<longleftrightarrow> s mod 10 = 0" by linarith
  assume "s div 10 = 0"
  then have "s < 10" by linarith
  then show "s mod 10 = s" by (rule mod_less)
qed

lemma add_digits_top:
  "all_digits l \<Longrightarrow> all_digits r \<Longrightarrow> top_ok l \<Longrightarrow> top_ok r \<Longrightarrow> top_ok (add_digits l r c)"
proof (induction l r c rule: add_digits.induct)
  case (1 c)
  show ?case
  proof (cases "c = 0")
    case False
    then have "top_ok (add_digits [] [] (c div 10))" using 1 by (simp add: top_ok_def)
    moreover have "48 + c mod 10 \<noteq> 48" if "add_digits [] [] (c div 10) = []"
      using that False unfolding add_digits_empty digit_mod(1) by (simp add: digit_mod(2))
    ultimately show ?thesis using False by (simp add: add_digits_carry(2) top_ok_Cons)
  qed (simp add: top_ok_def add_digits_carry(1))
next
  case (2 l ls c)
  let ?s = "(l - 48) + c"
  have "top_ok (add_digits ls [] (?s div 10))" using 2 by (simp add: top_ok_tl top_ok_def[of "[]"])
  moreover have "48 + ?s mod 10 \<noteq> 48" if "add_digits ls [] (?s div 10) = []"
    using that 2(2,4) unfolding add_digits_empty digit_mod(1) by (auto simp: digit_mod(2) top_ok_def ascii_digit_def)
  ultimately show ?case by (simp add: Let_def top_ok_Cons)
next
  case (3 r rs c)
  let ?s = "(r - 48) + c"
  have "top_ok (add_digits [] rs (?s div 10))" using 3 by (simp add: top_ok_tl top_ok_def[of "[]"])
  moreover have "48 + ?s mod 10 \<noteq> 48" if "add_digits [] rs (?s div 10) = []"
    using that 3(3,5) unfolding add_digits_empty digit_mod(1) by (auto simp: digit_mod(2) top_ok_def ascii_digit_def)
  ultimately show ?case by (simp add: Let_def top_ok_Cons)
next
  case (4 l ls r rs c)
  let ?s = "(l - 48) + (r - 48) + c"
  have "top_ok (add_digits ls rs (?s div 10))" using 4 by (simp add: top_ok_tl)
  moreover have "48 + ?s mod 10 \<noteq> 48" if "add_digits ls rs (?s div 10) = []"
    using that 4(2,4) unfolding add_digits_empty digit_mod(1) by (auto simp: digit_mod(2) top_ok_def ascii_digit_def)
  ultimately show ?case by (simp add: Let_def top_ok_Cons)
qed

lemma normal_top: "normal ds \<Longrightarrow> ds = [48] \<or> top_ok (rev ds)"
  by (cases ds) (auto simp: normal_def top_ok_def)

lemma top_normal: "all_digits ds \<Longrightarrow> ds \<noteq> [] \<Longrightarrow> top_ok (rev ds) \<Longrightarrow> normal ds"
  by (cases ds) (auto simp: normal_def top_ok_def)

lemma add_magnitudes_exact:
  assumes "normal a" "normal b" "b \<noteq> [48]"
  shows "normal (add_magnitudes a b)" "digits_value (add_magnitudes a b) = digits_value a + digits_value b"
proof -
  have d: "all_digits (rev a)" "all_digits (rev b)" using assms(1,2) by (simp_all add: normal_def)
  note v = add_digits_value[OF d, of 0]
  show "digits_value (add_magnitudes a b) = digits_value a + digits_value b"
    using v lsb_value_rev[of "add_magnitudes a b"] by (simp add: add_magnitudes_def lsb_value_rev)
  have b: "top_ok (rev b)" "rev b \<noteq> []" using assms(2,3) normal_top[of b] by (auto simp: normal_def)
  have "top_ok (add_digits (rev a) (rev b) 0)"
  proof (cases "a = [48]")
    case True
    have "add_digits [48] (rev b) 0 = add_digits [] (rev b) 0" using b(2) by (cases "rev b") (simp_all add: Let_def)
    then show ?thesis using True add_digits_top[of "[]" "rev b" 0] d(2) b(1) by (simp add: top_ok_def[of "[]"])
  next
    case False
    then show ?thesis using normal_top[OF assms(1)] add_digits_top[OF d] b(1) by simp
  qed
  moreover have "add_digits (rev a) (rev b) 0 \<noteq> []" using b(2) by (simp add: add_digits_empty)
  ultimately show "normal (add_magnitudes a b)" using v by (intro top_normal) (simp_all add: add_magnitudes_def)
qed

section \<open>Subtraction\<close>

lemma subtract_digits_value:
  "all_digits l \<Longrightarrow> all_digits r \<Longrightarrow> b \<in> {0, 1} \<Longrightarrow> int (lsb_value r) + b \<le> int (lsb_value l)
   \<Longrightarrow> int (lsb_value (subtract_digits l r b)) = int (lsb_value l) - int (lsb_value r) - b
     \<and> all_digits (subtract_digits l r b) \<and> length (subtract_digits l r b) = length l"
proof (induction l arbitrary: r b)
  case Nil
  then show ?case by auto
next
  case (Cons l ls)
  define r0 where "r0 = (case r of [] \<Rightarrow> 0 | d # _ \<Rightarrow> int (d - 48))"
  define rs where "rs = (case r of [] \<Rightarrow> [] | _ # ds \<Rightarrow> ds)"
  have digit: "int (x - 48) \<le> 9" if "ascii_digit x" for x using that by (simp add: ascii_digit_def)
  have "int (lsb_value r) = r0 + 10 * int (lsb_value rs) \<and> 0 \<le> r0 \<and> r0 \<le> 9 \<and> all_digits rs"
  proof (cases r)
    case r: (Cons d ds)
    then have "int (d - 48) \<le> 9" using Cons.prems(2) digit by simp
    then show ?thesis using r Cons.prems(2) by (simp add: r0_def rs_def)
  qed (simp add: r0_def rs_def)
  then have r: "int (lsb_value r) = r0 + 10 * int (lsb_value rs)" "0 \<le> r0" "r0 \<le> 9" "all_digits rs" by blast+
  have l: "0 \<le> int (l - 48)" "int (l - 48) \<le> 9" "all_digits ls" using Cons.prems(1) digit by simp_all
  define d where "d = int (l - 48) - b"
  have b: "0 \<le> b" "b \<le> 1" using Cons.prems(3) by auto
  have le: "r0 + 10 * int (lsb_value rs) + b \<le> int (l - 48) + 10 * int (lsb_value ls)" using Cons.prems(4) r(1) by simp
  show ?case
  proof (cases "d < r0")
    case True
    then have "int (lsb_value rs) + 1 \<le> int (lsb_value ls)" using le b by (simp add: d_def)
    then have ih: "int (lsb_value (subtract_digits ls rs 1)) = int (lsb_value ls) - int (lsb_value rs) - 1"
      "all_digits (subtract_digits ls rs 1)" "length (subtract_digits ls rs 1) = length ls"
      using Cons.IH[OF l(3) r(4), of 1] by simp_all
    have s: "subtract_digits (l # ls) r b = (48 + nat (d + 10 - r0)) # subtract_digits ls rs 1"
      using True by (simp add: Let_def d_def r0_def rs_def)
    have "0 \<le> d + 10 - r0" "d + 10 - r0 \<le> 9" using True b l r by (simp_all add: d_def)
    then show ?thesis using ih r(1) unfolding s by (simp add: ascii_digit_add d_def)
  next
    case False
    then have "int (lsb_value rs) + 0 \<le> int (lsb_value ls)" using le b l r by (simp add: d_def)
    then have ih: "int (lsb_value (subtract_digits ls rs 0)) = int (lsb_value ls) - int (lsb_value rs) - 0"
      "all_digits (subtract_digits ls rs 0)" "length (subtract_digits ls rs 0) = length ls"
      using Cons.IH[OF l(3) r(4), of 0] by simp_all
    have s: "subtract_digits (l # ls) r b = (48 + nat (d - r0)) # subtract_digits ls rs 0"
      using False by (simp add: Let_def d_def r0_def rs_def)
    have "0 \<le> d - r0" "d - r0 \<le> 9" using False b l r by (simp_all add: d_def)
    then show ?thesis using ih r(1) unfolding s by (simp add: ascii_digit_add d_def)
  qed
qed

lemma pop_zeros_value: "digits_value (pop_zeros ds) = digits_value ds"
  by (induction ds rule: pop_zeros.induct) (simp_all add: digits_value_Cons)

lemma pop_zeros_normal: "all_digits ds \<Longrightarrow> ds \<noteq> [] \<Longrightarrow> normal (pop_zeros ds)"
  by (induction ds rule: pop_zeros.induct) (auto simp: normal_def)

lemma subtract_magnitudes_exact:
  assumes "normal a" "normal b" "digits_value b \<le> digits_value a"
  shows "normal (subtract_magnitudes a b)" "digits_value (subtract_magnitudes a b) = digits_value a - digits_value b"
proof -
  have d: "all_digits (rev a)" "all_digits (rev b)" "a \<noteq> []" using assms(1,2) by (simp_all add: normal_def)
  have s: "int (lsb_value (subtract_digits (rev a) (rev b) 0)) = int (digits_value a) - int (digits_value b)"
    "all_digits (subtract_digits (rev a) (rev b) 0)" "length (subtract_digits (rev a) (rev b) 0) = length a"
    using subtract_digits_value[OF d(1,2), of 0] assms(3) by (simp_all add: lsb_value_rev)
  then show "normal (subtract_magnitudes a b)"
    unfolding subtract_magnitudes_def using d(3) by (intro pop_zeros_normal) auto
  have "digits_value (rev (subtract_digits (rev a) (rev b) 0)) = lsb_value (subtract_digits (rev a) (rev b) 0)"
    using lsb_value_rev[of "rev (subtract_digits (rev a) (rev b) 0)"] by simp
  then show "digits_value (subtract_magnitudes a b) = digits_value a - digits_value b"
    using s(1) by (simp add: subtract_magnitudes_def pop_zeros_value)
qed

section \<open>Comparison\<close>

lemma compare_same_length_value:
  "length a = length b \<Longrightarrow> all_digits a \<Longrightarrow> all_digits b \<Longrightarrow>
   compare_same_length a b = (if digits_value a < digits_value b then Less else if digits_value b < digits_value a then Greater else Equal)"
proof (induction a b rule: compare_same_length.induct)
  case (4 a as b bs)
  have "ascii_digit a" "ascii_digit b" using 4 by simp_all
  then have ab: "48 \<le> a" "48 \<le> b" by (simp_all add: ascii_digit_def)
  have d: "48 \<le> a" "48 \<le> b" "digits_value as < 10 ^ length as" "digits_value bs < 10 ^ length as"
    using ab 4 digits_value_less[of as] digits_value_less[of bs] by simp_all
  have less: "(x - 48) * 10 ^ length as + digits_value xs < (y - 48) * 10 ^ length as + digits_value ys"
    if "x < y" "48 \<le> x" "digits_value xs < 10 ^ length as" for x y xs ys
  proof -
    have "x - 48 + 1 \<le> y - 48" using that by simp
    then have "(x - 48 + 1) * 10 ^ length as \<le> (y - 48) * 10 ^ length as" by (rule mult_le_mono1)
    then show ?thesis using that(3) by (simp add: add_mult_distrib)
  qed
  consider "a < b" | "b < a" | "a = b" by linarith
  then show ?case
  proof cases
    case 1
    then show ?thesis using less[OF 1 d(1,3), of bs] 4 by (simp add: digits_value_Cons)
  next
    case 2
    then show ?thesis using less[OF 2 d(2,4), of as] 4 by (simp add: digits_value_Cons)
  next
    case 3
    then show ?thesis using 4 by (simp add: digits_value_Cons)
  qed
qed simp_all

lemma shorter_less:
  assumes "normal a" "normal b" "length a < length b"
  shows "digits_value a < digits_value b"
proof -
  have "length a \<noteq> 0" using assms(1) by (simp add: normal_def)
  then have "b \<noteq> [48]" using assms(3) by auto
  have "digits_value a < 10 ^ length a" using assms(1) digits_value_less by (simp add: normal_def)
  also have "\<dots> \<le> 10 ^ (length b - 1)" by (rule power_increasing) (use assms(3) in simp_all)
  also have "\<dots> \<le> digits_value b" by (rule normal_ge[OF assms(2) \<open>b \<noteq> [48]\<close>])
  finally show ?thesis .
qed

lemma compare_magnitudes_exact:
  assumes "normal a" "normal b"
  shows "compare_magnitudes a b = (if digits_value a < digits_value b then Less else if digits_value b < digits_value a then Greater else Equal)"
  using shorter_less[OF assms] shorter_less[OF assms(2,1)] compare_same_length_value[of a b] assms
  by (auto simp: compare_magnitudes_def normal_def)

section \<open>Signed exponents\<close>

definition signed_decimal_value :: "signed_decimal \<Rightarrow> int" where
  "signed_decimal_value d = (if negative d then - int (digits_value (magnitude d)) else int (digits_value (magnitude d)))"

definition signed_ok :: "signed_decimal \<Rightarrow> bool" where
  "signed_ok d \<longleftrightarrow> normal (magnitude d) \<and> (negative d \<longrightarrow> magnitude d \<noteq> [48])"

lemma normal_zero: "normal ds \<Longrightarrow> digits_value ds = 0 \<longleftrightarrow> ds = [48]"
proof
  assume "normal ds" "digits_value ds = 0"
  then show "ds = [48]" using normal_ge[of ds] by (metis le_zero_eq power_not_zero zero_neq_numeral)
qed (simp add: digits_value_def)

lemma render_signed_decimal_exact: "signed_ok d \<Longrightarrow> render_signed_decimal d = show_int (signed_decimal_value d)"
  using normal_unique[of "magnitude d"] normal_zero[of "magnitude d"]
  by (auto simp: signed_ok_def signed_decimal_value_def render_signed_decimal_def show_int_def)

text \<open>A signed decimal: an optional sign and digits.\<close>

definition spells_int :: "ascii \<Rightarrow> int \<Rightarrow> bool" where
  "spells_int text v \<longleftrightarrow>
     (\<exists>ds. ds \<noteq> [] \<and> all_digits ds \<and>
        (text = ds \<and> v = int (digits_value ds) \<or> text = 43 # ds \<and> v = int (digits_value ds)
         \<or> text = 45 # ds \<and> v = - int (digits_value ds)))"

definition make_signed :: "bool \<Rightarrow> ascii \<Rightarrow> signed_decimal" where
  "make_signed neg ds =
     \<lparr>negative = neg \<and> trim_zeros ds \<noteq> [], magnitude = (if trim_zeros ds = [] then [48] else trim_zeros ds)\<rparr>"

lemma make_signed_exact:
  assumes "all_digits ds"
  shows "signed_ok (make_signed neg ds)"
    "signed_decimal_value (make_signed neg ds) = (if neg then - int (digits_value ds) else int (digits_value ds))"
proof -
  have "normal [48]" "digits_value [48] = 0" by (simp_all add: normal_def ascii_digit_def digits_value_def)
  then show "signed_ok (make_signed neg ds)"
    "signed_decimal_value (make_signed neg ds) = (if neg then - int (digits_value ds) else int (digits_value ds))"
    using trim_zeros_normal[OF assms] trim_zeros_empty[OF assms] trim_zeros_value[of ds]
    by (auto simp: make_signed_def signed_ok_def signed_decimal_value_def)
qed

lemma parse_signed_decimal_exact:
  assumes "spells_int text v"
  obtains d where "parse_signed_decimal text = Some d" "signed_ok d" "signed_decimal_value d = v"
proof -
  obtain ds where ds: "ds \<noteq> []" "all_digits ds"
    "text = ds \<and> v = int (digits_value ds) \<or> text = 43 # ds \<and> v = int (digits_value ds) \<or> text = 45 # ds \<and> v = - int (digits_value ds)"
    using assms by (auto simp: spells_int_def)
  obtain b bs where b: "ds = b # bs" using ds(1) by (cases ds) auto
  have "ascii_digit b" using ds(2) b by simp
  then have "b \<noteq> 45" "b \<noteq> 43" by (auto simp: ascii_digit_def)
  then have "parse_signed_decimal text = Some (make_signed (text = 45 # ds) ds)"
    using ds b by (auto simp: parse_signed_decimal_def make_signed_def Let_def)
  moreover have "v = (if text = 45 # ds then - int (digits_value ds) else int (digits_value ds))"
    using ds(3) \<open>b \<noteq> 45\<close> b by auto
  ultimately show thesis using that make_signed_exact[OF ds(2)] by simp
qed

lemma add_signed_count_exact:
  assumes "signed_ok d"
  shows "signed_ok (add_signed_count d positive count)
    \<and> signed_decimal_value (add_signed_count d positive count) = signed_decimal_value d + (if positive then int count else - int count)"
proof (cases "count = 0")
  case True
  then show ?thesis using assms by (simp add: add_signed_count_def)
next
  case False
  let ?m = "magnitude d" and ?r = "decimal_of count"
  have m: "normal ?m" "negative d \<Longrightarrow> digits_value ?m \<noteq> 0"
    using assms normal_zero by (auto simp: signed_ok_def)
  have r: "normal ?r" "digits_value ?r = count" "?r \<noteq> [48]"
    using decimal_of_normal[of count] False normal_zero[of ?r] by auto
  note add = add_magnitudes_exact[OF m(1) r(1,3)]
  note cmp = compare_magnitudes_exact[OF m(1) r(1), unfolded r(2)]
  show ?thesis
  proof (cases "negative d = positive")
    case sign: False
    have "digits_value (add_magnitudes ?m ?r) \<noteq> 0" using add(2) r(2) False by simp
    then have "add_magnitudes ?m ?r \<noteq> [48]" using normal_zero[OF add(1)] by simp
    then show ?thesis using sign False add r(2)
      by (auto simp: add_signed_count_def signed_ok_def signed_decimal_value_def Let_def)
  next
    case sign: True
    consider "digits_value ?m < count" | "count < digits_value ?m" | "digits_value ?m = count" by linarith
    then show ?thesis
    proof cases
      case 1
      have s: "normal (subtract_magnitudes ?r ?m)" "digits_value (subtract_magnitudes ?r ?m) = count - digits_value ?m"
        using subtract_magnitudes_exact[OF r(1) m(1)] 1 r(2) by simp_all
      then have "subtract_magnitudes ?r ?m \<noteq> [48]" using 1 normal_zero[OF s(1)] by simp
      then show ?thesis using sign False 1 s cmp
        by (auto simp: add_signed_count_def signed_ok_def signed_decimal_value_def Let_def)
    next
      case 2
      have s: "normal (subtract_magnitudes ?m ?r)" "digits_value (subtract_magnitudes ?m ?r) = digits_value ?m - count"
        using subtract_magnitudes_exact[OF m(1) r(1)] 2 r(2) by simp_all
      then have "subtract_magnitudes ?m ?r \<noteq> [48]" using 2 normal_zero[OF s(1)] by simp
      then show ?thesis using sign False 2 s cmp
        by (auto simp: add_signed_count_def signed_ok_def signed_decimal_value_def Let_def)
    next
      case 3
      then show ?thesis using sign False cmp
        by (auto simp: add_signed_count_def signed_ok_def signed_decimal_value_def Let_def normal_def ascii_digit_def digits_value_def)
    qed
  qed
qed

end
