(* ===== verification/Decimal_Results.thy ===== *)
theory Decimal_Results
  imports Decimal_Strings
begin

text \<open>
  What the canonical texts mean: a literal denotes a real number, two literals have one canonical
  text exactly when they denote one number, and the display of a canonical text denotes the number
  of the text.
\<close>

section \<open>The grammar of literals\<close>

definition literal_parts :: "ascii \<Rightarrow> ascii \<Rightarrow> ascii \<Rightarrow> int \<Rightarrow> bool" where
  "literal_parts text whole fraction e \<longleftrightarrow>
     (\<exists>frac_part exp_part. text = whole @ frac_part @ exp_part \<and> whole \<noteq> [] \<and> all_digits whole \<and> all_digits fraction
        \<and> (frac_part = [] \<and> fraction = [] \<or> frac_part = 46 # fraction)
        \<and> (exp_part = [] \<and> e = 0 \<or> (\<exists>mark s. is_exponent_mark mark \<and> exp_part = mark # s \<and> spells_int s e)))"

definition denotes :: "ascii \<Rightarrow> real \<Rightarrow> bool" where
  "denotes text v \<longleftrightarrow>
     (\<exists>whole fraction e. literal_parts text whole fraction e
        \<and> v = real (digits_value (whole @ fraction)) * 10 powi (e - int (length fraction)))"

definition canonical_text :: "nat \<Rightarrow> int \<Rightarrow> ascii" where
  "canonical_text m e = decimal_of m @ 101 # show_int e"

lemma split_first_none: "\<forall>b \<in> set xs. \<not> P b \<Longrightarrow> split_first P xs = None"
proof -
  assume "\<forall>b \<in> set xs. \<not> P b"
  then have "dropWhile (\<lambda>b. \<not> P b) xs = []" by simp
  then show ?thesis unfolding split_first_def by (simp only: list.case)
qed

lemma split_first_some: "\<forall>b \<in> set xs. \<not> P b \<Longrightarrow> P y \<Longrightarrow> split_first P (xs @ y # ys) = Some (xs, ys)"
  by (simp add: split_first_def)

lemma digits_not: "all_digits ds \<Longrightarrow> b \<in> set ds \<Longrightarrow> b \<noteq> 46 \<and> \<not> is_exponent_mark b \<and> b \<noteq> 45 \<and> b \<noteq> 43 \<and> b \<noteq> 101"
  by (auto simp: list_all_iff ascii_digit_def is_exponent_mark_def)

text \<open>The splits of the code find the parts.\<close>

lemma split_parts:
  assumes "literal_parts text whole fraction e"
  obtains mantissa exponent where
    "(case split_first is_exponent_mark text of None \<Rightarrow> (text, [48]) | Some p \<Rightarrow> p) = (mantissa, exponent)"
    "(case split_first (\<lambda>b. b = 46) mantissa of None \<Rightarrow> (mantissa, []) | Some p \<Rightarrow> p) = (whole, fraction)"
    "spells_int exponent e"
proof -
  from assms obtain fp ep where t: "text = (whole @ fp) @ ep" and d: "whole \<noteq> []" "all_digits whole" "all_digits fraction"
    and fp: "fp = [] \<and> fraction = [] \<or> fp = 46 # fraction"
    and ep: "ep = [] \<and> e = 0 \<or> (\<exists>mark s. is_exponent_mark mark \<and> ep = mark # s \<and> spells_int s e)"
    unfolding literal_parts_def by auto
  have m: "\<forall>b \<in> set (whole @ fp). \<not> is_exponent_mark b"
    using fp digits_not[OF d(2)] digits_not[OF d(3)] by (auto simp: is_exponent_mark_def[of 46])
  have w: "\<forall>b \<in> set whole. \<not> (b = 46)" using digits_not[OF d(2)] by auto
  have f: "(case split_first (\<lambda>b. b = 46) (whole @ fp) of None \<Rightarrow> (whole @ fp, []) | Some p \<Rightarrow> p) = (whole, fraction)"
  proof (cases "fp = []")
    case True
    then show ?thesis using fp split_first_none[of whole "\<lambda>b. b = 46"] w by simp
  next
    case False
    then show ?thesis using fp split_first_some[of whole "\<lambda>b. b = 46" 46 fraction] w by simp
  qed
  have zero: "spells_int [48] 0" by (auto simp: spells_int_def ascii_digit_def digits_value_def intro!: exI[of _ "[48]"])
  show thesis
  proof (cases "ep = []")
    case True
    then show ?thesis using that[of "whole @ fp" "[48]"] f ep zero split_first_none[OF m] t by auto
  next
    case False
    then obtain mark s where "is_exponent_mark mark" "ep = mark # s" "spells_int s e" using ep by auto
    then show ?thesis using that[of "whole @ fp" s] f split_first_some[OF m, of mark s] t by simp
  qed
qed

text \<open>The zeros at the end of a significand.\<close>

lemma trailing_zeros:
  fixes ds :: ascii
  defines "n \<equiv> length (takeWhile (\<lambda>b. b = 48) (rev ds))"
  assumes "normal ds" "ds \<noteq> [48]"
  shows "normal (take (length ds - n) ds)" "digits_value ds = digits_value (take (length ds - n) ds) * 10 ^ n"
    "\<not> 10 dvd digits_value (take (length ds - n) ds)"
proof -
  let ?s = "rev (dropWhile (\<lambda>b. b = 48) (rev ds))"
  have "rev ds = takeWhile (\<lambda>b. b = 48) (rev ds) @ dropWhile (\<lambda>b. b = 48) (rev ds)" by simp
  then have split: "ds = ?s @ rev (takeWhile (\<lambda>b. b = 48) (rev ds))" by (metis rev_append rev_rev_ident)
  have zeros: "rev (takeWhile (\<lambda>b. b = 48) (rev ds)) = replicate n 48"
    unfolding n_def by (intro replicate_eqI) (auto dest: set_takeWhileD)
  have ds: "ds = ?s @ replicate n 48" using split zeros by simp
  have len: "length ds - n = length ?s" using ds by (metis add_diff_cancel_right' length_append length_replicate)
  have take: "take (length ds - n) ds = ?s" unfolding len using ds by (metis append_eq_conv_conj)
  have zero: "digits_value (replicate k 48) = 0" for k by (induction k) (simp_all add: digits_value_Cons)
  have digits: "all_digits ?s" using assms(2) ds unfolding normal_def by (metis list_all_append)
  have ne: "?s \<noteq> []"
  proof
    assume "?s = []"
    then have "ds = replicate n 48" using ds by (metis append_Nil)
    then have "digits_value ds = 0" using zero by metis
    then show False using normal_zero[OF assms(2)] assms(3) by simp
  qed
  have "hd ?s = hd ds" using ds ne by (metis hd_append2)
  then have "hd ?s \<noteq> 48" using assms(2,3) by (auto simp: normal_def)
  then show "normal (take (length ds - n) ds)" unfolding take using digits ne by (simp add: normal_def)
  show "digits_value ds = digits_value (take (length ds - n) ds) * 10 ^ n"
    unfolding take using digits_value_append[of ?s "replicate n 48"] ds zero by simp
  have last: "last ?s \<noteq> 48" using ne hd_dropWhile[of "\<lambda>b. b = 48" "rev ds"] by (simp add: last_rev)
  obtain xs x where x: "?s = xs @ [x]" using ne by (metis append_butlast_last_id)
  then have "ascii_digit x" "x \<noteq> 48" using digits last by auto
  then obtain k where k: "x = 48 + k" "k \<noteq> 0" "k < 10"
    using that[of "x - 48"] by (auto simp: ascii_digit_def)
  have "digits_value ?s = digits_value xs * 10 + k" unfolding x by (simp add: k(1))
  then have "digits_value ?s mod 10 \<noteq> 0" using k(2,3) by simp
  then show "\<not> 10 dvd digits_value (take (length ds - n) ds)" unfolding take by (simp add: dvd_eq_mod_eq_0)
qed

section \<open>Canonical texts\<close>

lemma show_int_spells: "spells_int (show_int e) e"
proof (cases "e < 0")
  case True
  then show ?thesis using decimal_of_normal[of "nat (- e)"]
    by (auto simp: spells_int_def show_int_def normal_def intro!: exI[of _ "decimal_of (nat (- e))"])
next
  case False
  then show ?thesis using decimal_of_normal[of "nat e"]
    by (auto simp: spells_int_def show_int_def normal_def intro!: exI[of _ "decimal_of (nat e)"])
qed

lemma canonical_text_denotes: "denotes (canonical_text m e) (real m * 10 powi e)"
proof -
  have "literal_parts (canonical_text m e) (decimal_of m) [] e"
    using decimal_of_normal[of m] show_int_spells[of e] unfolding literal_parts_def
    by - (rule exI[of _ "[]"], rule exI[of _ "101 # show_int e"], simp add: canonical_text_def normal_def is_exponent_mark_def)
  then show ?thesis using decimal_of_normal[of m] unfolding denotes_def
    by - (rule exI[of _ "decimal_of m"], rule exI[of _ "[]"], rule exI[of _ e], simp)
qed

lemma canonical_of_parts:
  assumes "literal_parts text whole fraction e"
  obtains m k where "canonical_decimal_literal text = Some (canonical_text m k)"
    "real (digits_value (whole @ fraction)) * 10 powi (e - int (length fraction)) = real m * 10 powi k"
    "m = 0 \<and> k = 0 \<or> \<not> 10 dvd m"
proof -
  obtain mantissa exponent where split: "(case split_first is_exponent_mark text of None \<Rightarrow> (text, [48]) | Some p \<Rightarrow> p) = (mantissa, exponent)"
    "(case split_first (\<lambda>b. b = 46) mantissa of None \<Rightarrow> (mantissa, []) | Some p \<Rightarrow> p) = (whole, fraction)" "spells_int exponent e"
    by (rule split_parts[OF assms])
  have d: "whole \<noteq> []" "all_digits whole" "all_digits fraction" using assms by (auto simp: literal_parts_def)
  then have all: "all_digits (whole @ fraction)" by simp
  let ?digits = "trim_zeros (whole @ fraction)"
  show thesis
  proof (cases "?digits = []")
    case True
    then have "digits_value (whole @ fraction) = 0" using trim_zeros_empty[OF all] by blast
    moreover have "canonical_decimal_literal text = Some (canonical_text 0 0)"
      using True d unfolding canonical_decimal_literal_def split Let_def prod.case
      by (simp add: canonical_text_def show_int_def decimal_of.simps)
    ultimately show thesis using that[of 0 0] by simp
  next
    case False
    let ?n = "length (takeWhile (\<lambda>b. b = 48) (rev ?digits))"
    let ?s = "take (length ?digits - ?n) ?digits"
    have norm: "normal ?digits" "?digits \<noteq> [48]" using trim_zeros_normal[OF all False] by auto
    note s = trailing_zeros[OF norm]
    obtain x where x: "parse_signed_decimal exponent = Some x" "signed_ok x" "signed_decimal_value x = e"
      by (rule parse_signed_decimal_exact[OF split(3)])
    let ?x = "add_signed_count (add_signed_count x False (length fraction)) True ?n"
    have k: "signed_ok ?x" "signed_decimal_value ?x = e - int (length fraction) + int ?n"
      using add_signed_count_exact[OF x(2), of False "length fraction"] x(3)
        add_signed_count_exact[of "add_signed_count x False (length fraction)" True ?n] by simp_all
    have "canonical_decimal_literal text = Some (?s @ 101 # render_signed_decimal ?x)"
      using False d unfolding canonical_decimal_literal_def split Let_def prod.case x(1) by simp
    moreover have "?s @ 101 # render_signed_decimal ?x = canonical_text (digits_value ?s) (signed_decimal_value ?x)"
      unfolding canonical_text_def render_signed_decimal_exact[OF k(1)] normal_unique[OF s(1)] ..
    moreover have "real (digits_value (whole @ fraction)) * 10 powi (e - int (length fraction))
        = real (digits_value ?s) * 10 powi (signed_decimal_value ?x)"
      using s(2) trim_zeros_value[of "whole @ fraction"] unfolding k(2) by (simp add: power_int_add)
    ultimately show thesis using that s(3) by metis
  qed
qed

text \<open>A number has one canonical form.\<close>

lemma canonical_form_unique:
  assumes "real m * 10 powi e = real n * 10 powi k"
    and "m = 0 \<and> e = 0 \<or> \<not> 10 dvd m" "n = 0 \<and> k = 0 \<or> \<not> 10 dvd n"
  shows "m = n \<and> e = k"
proof -
  have step: "a = b \<and> i = j" if eq: "real a * 10 powi i = real b * 10 powi j" and le: "i \<le> j" and a: "\<not> 10 dvd a" for a b i j
  proof -
    have "(10::real) powi j = 10 ^ nat (j - i) * 10 powi i"
      using le power_int_add[of "10::real" i "j - i"] by (simp add: power_int_def)
    then have "real a * 10 powi i = (real b * 10 ^ nat (j - i)) * 10 powi i" using eq by simp
    moreover have "(10::real) powi i \<noteq> 0" by simp
    ultimately have "real a = real b * 10 ^ nat (j - i)" by (metis mult_right_cancel)
    then have ab: "a = b * 10 ^ nat (j - i)" by (metis of_nat_eq_iff of_nat_mult of_nat_numeral of_nat_power)
    have "i = j"
    proof (rule ccontr)
      assume "i \<noteq> j"
      then have "0 < nat (j - i)" using le by simp
      then have "(10::nat) dvd 10 ^ nat (j - i)" by (simp add: dvd_power)
      then have "10 dvd a" unfolding ab by (rule dvd_mult)
      then show False using a by blast
    qed
    then show ?thesis using ab by simp
  qed
  show ?thesis
  proof (cases "m = 0 \<or> n = 0")
    case True
    then have "m = 0" "n = 0" using assms(1) by auto
    then show ?thesis using assms(2,3) by simp
  next
    case False
    then have "\<not> 10 dvd m" "\<not> 10 dvd n" using assms(2,3) by auto
    then show ?thesis using step[of m e n k] step[of n k m e] assms(1) by (metis linear)
  qed
qed

lemma show_int_inj: "show_int a = show_int b \<Longrightarrow> a = b"
  using parse_signed_decimal_exact[OF show_int_spells[of a]] parse_signed_decimal_exact[OF show_int_spells[of b]]
  by (metis option.inject)

lemma canonical_text_inj: "canonical_text m e = canonical_text n k \<Longrightarrow> m = n \<and> e = k"
proof -
  assume eq: "canonical_text m e = canonical_text n k"
  have no: "\<forall>b \<in> set (decimal_of x). \<not> (b = 101)" for x
    using decimal_of_normal[of x] digits_not[of "decimal_of x"] by (auto simp: normal_def)
  have "split_first (\<lambda>b. b = 101) (canonical_text x y) = Some (decimal_of x, show_int y)" for x y
    using split_first_some[OF no, of 101] by (simp add: canonical_text_def)
  then have "decimal_of m = decimal_of n" "show_int e = show_int k" using eq by (metis option.inject prod.inject)+
  then show ?thesis using decimal_of_normal show_int_inj by metis
qed

lemma canonical_of_denotes:
  assumes "denotes text v"
  obtains m e where "canonical_decimal_literal text = Some (canonical_text m e)" "v = real m * 10 powi e"
    "m = 0 \<and> e = 0 \<or> \<not> 10 dvd m"
  using assms canonical_of_parts unfolding denotes_def by metis

text \<open>A compile-time integer takes the canonical text of its value.\<close>

lemma integer_float_value_text_exact:
  obtains m e where "integer_float_value_text v = Some (with_sign (v < 0) (canonical_text m e))"
    "real_of_int \<bar>v\<bar> = real m * 10 powi e"
proof -
  have "literal_parts (decimal_of (nat \<bar>v\<bar>)) (decimal_of (nat \<bar>v\<bar>)) [] 0"
    using decimal_of_normal[of "nat \<bar>v\<bar>"] unfolding literal_parts_def
    by - (rule exI[of _ "[]"], rule exI[of _ "[]"], simp add: normal_def)
  then have "denotes (decimal_of (nat \<bar>v\<bar>)) (real_of_int \<bar>v\<bar>)"
    using decimal_of_normal[of "nat \<bar>v\<bar>"] unfolding denotes_def
    by - (rule exI[of _ "decimal_of (nat \<bar>v\<bar>)"], rule exI[of _ "[]"], rule exI[of _ 0], simp)
  then obtain m e where "canonical_decimal_literal (decimal_of (nat \<bar>v\<bar>)) = Some (canonical_text m e)" "real_of_int \<bar>v\<bar> = real m * 10 powi e"
    by (rule canonical_of_denotes)
  then show thesis using that[of m e] by (simp add: integer_float_value_text_def)
qed

section \<open>Display\<close>

lemma parse_i64_show: "- (2 ^ 63) \<le> e \<Longrightarrow> e < 2 ^ 63 \<Longrightarrow> parse_i64 (show_int e) = Some e"
proof -
  assume e: "- (2 ^ 63) \<le> e" "e < 2 ^ 63"
  have d: "decimal_of n \<noteq> []" "all_digits (decimal_of n)" "digits_value (decimal_of n) = n" for n
    using decimal_of_normal[of n] by (auto simp: normal_def)
  show ?thesis
  proof (cases "e < 0")
    case True
    then show ?thesis using e d[of "nat (- e)"] by (simp add: parse_i64_def show_int_def Let_def)
  next
    case False
    obtain b bs where b: "decimal_of (nat e) = b # bs" using d(1)[of "nat e"] by (cases "decimal_of (nat e)") auto
    then have "b \<noteq> 45" "b \<noteq> 43" using d(2)[of "nat e"] digits_not[of "decimal_of (nat e)" b] by auto
    then show ?thesis using e d[of "nat e"] False b by (simp add: parse_i64_def show_int_def Let_def)
  qed
qed

lemma denotesI:
  assumes "text = whole @ 46 # fraction @ ep" "whole \<noteq> []" "all_digits whole" "all_digits fraction"
    and "ep = [] \<and> e = 0 \<or> (\<exists>mark s. is_exponent_mark mark \<and> ep = mark # s \<and> spells_int s e)"
    and "v = real (digits_value (whole @ fraction)) * 10 powi (e - int (length fraction))"
  shows "denotes text v"
  unfolding denotes_def literal_parts_def
  by (rule exI[of _ whole], rule exI[of _ fraction], rule exI[of _ e], intro conjI assms(6),
      rule exI[of _ "46 # fraction"], rule exI[of _ ep]) (use assms(1-5) in simp)

lemma digits_value_zeros: "digits_value (ds @ replicate n 48) = digits_value ds * 10 ^ n" "digits_value (replicate n 48 @ ds) = digits_value ds"
proof -
  have zero: "digits_value (replicate k 48) = 0" for k by (induction k) (simp_all add: digits_value_Cons)
  show "digits_value (ds @ replicate n 48) = digits_value ds * 10 ^ n" "digits_value (replicate n 48 @ ds) = digits_value ds"
    by (simp_all add: digits_value_append zero)
qed

lemma display_magnitude_denotes:
  assumes d: "ds \<noteq> []" "all_digits ds" and point: "point = int (length ds) + e"
  shows "denotes (display_magnitude ds e point) (real (digits_value ds) * 10 powi e)"
proof -
  have zeros: "all_digits (replicate n 48)" for n by (simp add: list_all_iff ascii_digit_def)
  have digit: "ascii_digit 48" by (simp add: ascii_digit_def)
  consider (whole) "-4 \<le> point" "point \<le> 16" "0 \<le> e" | (mid) "-4 \<le> point" "point \<le> 16" "e < 0" "0 < point"
    | (small) "-4 \<le> point" "point \<le> 16" "e < 0" "point \<le> 0" | (sci) "\<not> (-4 \<le> point \<and> point \<le> 16)" by linarith
  then show ?thesis
  proof cases
    case whole
    have "digits_value ((ds @ replicate (nat e) 48) @ [48]) = digits_value ds * 10 ^ nat e * 10"
      using digits_value_snoc[of "ds @ replicate (nat e) 48" 48] digits_value_zeros(1)[of ds "nat e"] by simp
    then have v: "real (digits_value ds) * 10 powi e = real (digits_value ((ds @ replicate (nat e) 48) @ [48])) * 10 powi (0 - int (length [48::nat]))"
      using whole(3) by (simp add: power_int_def)
    have shape: "display_magnitude ds e point = (ds @ replicate (nat e) 48) @ 46 # [48] @ []"
      using whole by (simp add: display_magnitude_def)
    show ?thesis by (rule denotesI[OF shape _ _ _ _ v]) (use d zeros digit in simp_all)
  next
    case mid
    have shape: "display_magnitude ds e point = take (nat point) ds @ 46 # drop (nat point) ds @ []"
      using mid by (simp add: display_magnitude_def)
    have len: "int (length (drop (nat point) ds)) = - e" using mid point by simp
    have v: "real (digits_value ds) * 10 powi e = real (digits_value (take (nat point) ds @ drop (nat point) ds)) * 10 powi (0 - int (length (drop (nat point) ds)))"
      unfolding len by simp
    have "all_digits (take (nat point) ds)" "all_digits (drop (nat point) ds)"
      using d(2) by (metis append_take_drop_id list_all_append)+
    then show ?thesis by (intro denotesI[OF shape _ _ _ _ v]) (use d mid in simp_all)
  next
    case small
    have shape: "display_magnitude ds e point = [48] @ 46 # (replicate (nat (- point)) 48 @ ds) @ []"
      using small by (simp add: display_magnitude_def)
    have len: "int (length (replicate (nat (- point)) 48 @ ds)) = - e" using small point by simp
    have "digits_value ([48] @ replicate (nat (- point)) 48 @ ds) = digits_value ds"
      using digits_value_zeros(2)[of "Suc (nat (- point))" ds] by simp
    then have v: "real (digits_value ds) * 10 powi e = real (digits_value ([48] @ replicate (nat (- point)) 48 @ ds)) * 10 powi (0 - int (length (replicate (nat (- point)) 48 @ ds)))"
      unfolding len by simp
    show ?thesis by (rule denotesI[OF shape _ _ _ _ v]) (use d zeros digit in simp_all)
  next
    case sci
    obtain b bs where b: "ds = b # bs" using d(1) by (cases ds) auto
    let ?s = "point - 1" and ?sign = "if 0 \<le> point - 1 then [43] else [] :: ascii"
    have spells: "spells_int (?sign @ show_int ?s) ?s"
    proof (cases "0 \<le> ?s")
      case True
      then show ?thesis using decimal_of_normal[of "nat ?s"]
        by (auto simp: spells_int_def show_int_def normal_def intro!: exI[of _ "decimal_of (nat ?s)"])
    qed (simp add: show_int_spells)
    have ep: "101 # ?sign @ show_int ?s = [] \<and> ?s = 0 \<or> (\<exists>mark s. is_exponent_mark mark \<and> 101 # ?sign @ show_int ?s = mark # s \<and> spells_int s ?s)"
      using spells by (auto simp: is_exponent_mark_def)
    show ?thesis
    proof (cases "bs = []")
      case True
      have shape: "display_magnitude ds e point = [b] @ [] @ (101 # ?sign @ show_int ?s)"
        unfolding display_magnitude_def if_not_P[OF sci] Let_def using True b by simp
      have parts: "literal_parts (display_magnitude ds e point) [b] [] ?s"
        unfolding literal_parts_def
        by (rule exI[of _ "[]"], rule exI[of _ "101 # ?sign @ show_int ?s"]) (use shape ep d b in simp)
      have "?s = e" using point True b by simp
      then show ?thesis using parts True b unfolding denotes_def
        by - (rule exI[of _ "[b]"], rule exI[of _ "[]"], rule exI[of _ "?s"], simp)
    next
      case False
      have shape: "display_magnitude ds e point = [b] @ 46 # bs @ (101 # ?sign @ show_int ?s)"
        unfolding display_magnitude_def if_not_P[OF sci] Let_def using False b by simp
      have len: "?s - int (length bs) = e" using point b by simp
      have v: "real (digits_value ds) * 10 powi e = real (digits_value ([b] @ bs)) * 10 powi (?s - int (length bs))"
        unfolding len using b by simp
      show ?thesis by (rule denotesI[OF shape _ _ _ ep v]) (use d b in simp_all)
    qed
  qed
qed

section \<open>The promises\<close>

text \<open>
  C27. Every literal of the grammar has a canonical text, which denotes the same real number and is
  in the one form (a significand without zeros at either end) that the number has; so two literals
  have equal canonical texts exactly when they denote equal numbers, whatever their length.
\<close>

theorem canonical_text_is_identity:
  assumes "denotes s v" "denotes t w"
  shows "(\<exists>m e. canonical_decimal_literal s = Some (canonical_text m e) \<and> v = real m * 10 powi e
        \<and> denotes (canonical_text m e) v \<and> (m = 0 \<and> e = 0 \<or> \<not> 10 dvd m))
    \<and> (canonical_decimal_literal s = canonical_decimal_literal t \<longleftrightarrow> v = w)"
proof -
  obtain m e where s: "canonical_decimal_literal s = Some (canonical_text m e)" "v = real m * 10 powi e" "m = 0 \<and> e = 0 \<or> \<not> 10 dvd m"
    by (rule canonical_of_denotes[OF assms(1)])
  obtain n k where t: "canonical_decimal_literal t = Some (canonical_text n k)" "w = real n * 10 powi k" "n = 0 \<and> k = 0 \<or> \<not> 10 dvd n"
    by (rule canonical_of_denotes[OF assms(2)])
  have "canonical_decimal_literal s = canonical_decimal_literal t \<longleftrightarrow> v = w"
    using s t canonical_form_unique[of m e n k] canonical_text_inj[of m e n k] by auto
  then show ?thesis using s canonical_text_denotes by blast
qed

text \<open>\<open>3.0\<close> and \<open>0.3e1\<close>.\<close>

theorem canonical_text_is_identity_witness:
  "canonical_decimal_literal [51, 46, 48] = canonical_decimal_literal [48, 46, 51, 101, 49]"
proof -
  have "denotes [51, 46, 48] 3"
    by (rule denotesI[of _ "[51]" "[48]" "[]" 0]) (simp_all add: ascii_digit_def digits_value_def)
  moreover have "denotes [48, 46, 51, 101, 49] 3"
  proof (rule denotesI[of _ "[48]" "[51]" "[101, 49]" 1])
    show "[101, 49] = [] \<and> (1::int) = 0 \<or> (\<exists>mark s. is_exponent_mark mark \<and> [101, 49] = mark # s \<and> spells_int s 1)"
      by (auto simp: is_exponent_mark_def spells_int_def ascii_digit_def digits_value_def intro!: exI[of _ "[49]"])
  qed (simp_all add: ascii_digit_def digits_value_def)
  ultimately show ?thesis using canonical_text_is_identity by blast
qed

text \<open>
  C36. The display of a canonical text denotes the same number, with its sign, in every notation it
  chooses, as long as the digits and the exponent fit their counters; an exponent that fits but
  moves the point out of range overflows.
\<close>

theorem display_keeps_value:
  assumes "- (2 ^ 63) \<le> e" "e < 2 ^ 63" "length (decimal_of m) < 2 ^ 63"
  shows "if int (length (decimal_of m)) + e < 2 ^ 63
    then \<exists>d. display_float_value_text (with_sign neg (canonical_text m e)) = Some (with_sign neg d) \<and> denotes d (real m * 10 powi e)
    else display_float_value_text (with_sign neg (canonical_text m e)) = None"
proof -
  let ?ds = "decimal_of m" and ?point = "int (length (decimal_of m)) + e"
  have d: "?ds \<noteq> []" "all_digits ?ds" "digits_value ?ds = m" using decimal_of_normal[of m] by (auto simp: normal_def)
  have split: "split_first (\<lambda>b. b = 101) (canonical_text m e) = Some (?ds, show_int e)"
    unfolding canonical_text_def by (rule split_first_some) (use digits_not[OF d(2)] in auto)
  obtain b bs where b: "?ds = b # bs" using d(1) by (cases ?ds) auto
  then have "b \<noteq> 45" using digits_not[OF d(2)] by auto
  then have sign: "(case with_sign neg (canonical_text m e) of b # rest \<Rightarrow> if b = 45 then ([45], rest) else ([], with_sign neg (canonical_text m e))
      | [] \<Rightarrow> ([], with_sign neg (canonical_text m e))) = (if neg then [45] else [], canonical_text m e)"
    using b by (simp add: with_sign_def canonical_text_def)
  have "display_float_value_text (with_sign neg (canonical_text m e))
    = (if ?point < 2 ^ 63 then Some ((if neg then [45] else []) @ display_magnitude ?ds e ?point) else None)"
    unfolding display_float_value_text_def sign Let_def prod.case split option.case parse_i64_show[OF assms(1,2)]
    using d assms(3) by simp
  then show ?thesis using display_magnitude_denotes[OF d(1,2) refl, of e] d(3)
    by (auto simp: with_sign_def)
qed

text \<open>\<open>-15e-1\<close> is displayed as a text of \<open>-1.5\<close>.\<close>

theorem display_keeps_value_witness:
  "\<exists>d. display_float_value_text [45, 49, 53, 101, 45, 49] = Some (45 # d) \<and> denotes d (3 / 2)"
proof -
  have t: "with_sign True (canonical_text 15 (-1)) = [45, 49, 53, 101, 45, 49]" "decimal_of 15 = [49, 53]"
    by (simp_all add: with_sign_def canonical_text_def show_int_def decimal_of.simps)
  show ?thesis
    using display_keeps_value[of "-1" 15 True] unfolding t by (simp add: with_sign_def power_int_minus)
qed

end
