(* ===== verification/Liveness.thy ===== *)
theory Liveness
  imports Reg_Class Edge_Groups
begin

text \<open>
  The liveness analysis of \<open>rue-codegen/src/liveness.rs\<close>, with the result types of
  \<open>rue-codegen/src/regalloc.rs\<close>: labels and successors, basic blocks, the worklist over
  blocks, live ranges, diverging instructions, and loop depths.

  The backend's trait implementation is a record of functions, the adapter.  A virtual register,
  a label and an instruction index are natural numbers; a list with inline storage is a list
  (the backends keep within its capacity).  \<open>None\<close> is a panic or a worklist that does not end.
\<close>

section \<open>Facts\<close>

record live_range =
  start_at :: nat
  end_at :: nat

definition overlaps :: "live_range \<Rightarrow> live_range \<Rightarrow> bool" where
  "overlaps r q \<longleftrightarrow> start_at r \<le> end_at q \<and> start_at q \<le> end_at r"

record ('i, 'r) liveness_adapter =
  label :: "'i \<Rightarrow> nat option"
  successors :: "nat \<Rightarrow> 'i \<Rightarrow> (nat \<rightharpoonup> nat) \<Rightarrow> nat list"
  uses_of :: "'i \<Rightarrow> nat list"
  defs_of :: "'i \<Rightarrow> nat list"
  clobbers_of :: "'i \<Rightarrow> 'r list"
  never_returns :: "'i \<Rightarrow> bool"

definition fallthrough_successor :: "nat \<Rightarrow> nat \<Rightarrow> nat list" where
  "fallthrough_successor idx num_insts = (if idx + 1 < num_insts then [idx + 1] else [])"

definition branch_successor :: "nat \<Rightarrow> (nat \<rightharpoonup> nat) \<Rightarrow> nat list" where
  "branch_successor l label_to_idx = (case label_to_idx l of None \<Rightarrow> [] | Some t \<Rightarrow> [t])"

definition conditional_successors :: "nat \<Rightarrow> nat \<Rightarrow> (nat \<rightharpoonup> nat) \<Rightarrow> nat \<Rightarrow> nat list" where
  "conditional_successors idx l label_to_idx num_insts =
     (let succs = (if idx + 1 < num_insts then [idx + 1] else [])
      in case label_to_idx l of Some t \<Rightarrow> succs @ [t] | None \<Rightarrow> succs)"

definition build_label_map :: "('i, 'r) liveness_adapter \<Rightarrow> 'i list \<Rightarrow> nat \<rightharpoonup> nat" where
  "build_label_map a insts =
     foldl (\<lambda>m (idx, inst). case label a inst of Some l \<Rightarrow> m(l \<mapsto> idx) | None \<Rightarrow> m)
       (\<lambda>_. None) (enumerate 0 insts)"

definition build_successor_lists ::
  "('i, 'r) liveness_adapter \<Rightarrow> 'i list \<Rightarrow> (nat \<rightharpoonup> nat) \<Rightarrow> nat list list" where
  "build_successor_lists a insts label_to_idx =
     map (\<lambda>(idx, inst). successors a idx inst label_to_idx) (enumerate 0 insts)"

definition has_back_edge :: "nat list list \<Rightarrow> bool" where
  "has_back_edge succs =
     list_ex (\<lambda>(from_idx, ss). list_ex (\<lambda>to_idx. to_idx \<le> from_idx) ss) (enumerate 0 succs)"

section \<open>Basic blocks\<close>

record block_partition =
  starts :: "nat list"
  block_of :: "nat list"

definition partition_len :: "block_partition \<Rightarrow> nat" where
  "partition_len p = length (starts p) - 1"

definition block_span :: "block_partition \<Rightarrow> nat \<Rightarrow> nat \<times> nat" where
  "block_span p b = (starts p ! b, starts p ! (b + 1) - 1)"

definition mark_leaders :: "nat \<Rightarrow> nat \<times> nat list \<Rightarrow> bool list \<Rightarrow> bool list option" where
  "mark_leaders num_insts row is_leader =
     (case row of (idx, succs) \<Rightarrow>
        let falls_through = (length succs = 1 \<and> succs ! 0 = idx + 1);
            is_leader = (if \<not> falls_through \<and> idx + 1 < num_insts
                         then is_leader[idx + 1 := True] else is_leader)
        in fold_option (\<lambda>s leader. if s \<noteq> idx + 1 then put_at leader s True else Some leader)
             succs is_leader)"

definition own_instruction :: "nat list \<times> nat list \<Rightarrow> nat \<times> bool \<Rightarrow> nat list \<times> nat list" where
  "own_instruction st row =
     (case st of (firsts, owners) \<Rightarrow> case row of (idx, leader) \<Rightarrow>
        let firsts = (if leader then firsts @ [idx] else firsts)
        in (firsts, owners[idx := length firsts - 1]))"

definition partition_blocks :: "nat \<Rightarrow> nat list list \<Rightarrow> block_partition option" where
  "partition_blocks num_insts succs =
     (if num_insts = 0 \<or> 2 ^ 32 \<le> num_insts then None
      else Option.bind
        (fold_option (mark_leaders num_insts) (enumerate 0 succs) ((replicate num_insts False)[0 := True]))
        (\<lambda>is_leader. case foldl own_instruction ([], replicate num_insts 0) (enumerate 0 is_leader) of
           (firsts, owners) \<Rightarrow> Some \<lparr>starts = firsts @ [num_insts], block_of = owners\<rparr>))"

section \<open>Live sets under construction\<close>

record working_live_set =
  members :: "nat list"
  positions :: "nat list"

definition with_width :: "nat \<Rightarrow> working_live_set" where
  "with_width width = \<lparr>members = [], positions = replicate width 0\<rparr>"

definition contains :: "nat \<Rightarrow> working_live_set \<Rightarrow> bool option" where
  "contains vreg s =
     Option.bind (get_at (positions s) vreg) (\<lambda>position.
       Some (position < length (members s) \<and> members s ! position = vreg))"

definition insert_vreg :: "nat \<Rightarrow> working_live_set \<Rightarrow> working_live_set option" where
  "insert_vreg vreg s =
     Option.bind (contains vreg s) (\<lambda>present.
       if present then Some s
       else Some \<lparr>members = members s @ [vreg], positions = (positions s)[vreg := length (members s)]\<rparr>)"

definition swap_remove :: "nat \<Rightarrow> 'a list \<Rightarrow> 'a list" where
  "swap_remove i xs = butlast (xs[i := last xs])"

definition remove_vreg :: "nat \<Rightarrow> working_live_set \<Rightarrow> working_live_set option" where
  "remove_vreg vreg s =
     Option.bind (contains vreg s) (\<lambda>present.
       if \<not> present then Some s
       else let position = positions s ! vreg;
                ms = swap_remove position (members s)
            in if position < length ms
               then Option.bind (put_at (positions s) (ms ! position) position)
                      (\<lambda>ps. Some \<lparr>members = ms, positions = ps\<rparr>)
               else Some (s\<lparr>members := ms\<rparr>))"

definition clear_set :: "working_live_set \<Rightarrow> working_live_set" where
  "clear_set s = s\<lparr>members := []\<rparr>"

definition union_from :: "nat list \<Rightarrow> working_live_set \<Rightarrow> working_live_set option" where
  "union_from other s = fold_option insert_vreg other s"

definition matches :: "nat list \<Rightarrow> working_live_set \<Rightarrow> bool option" where
  "matches solved s =
     (if length solved \<noteq> length (members s) then Some False
      else fold_option (\<lambda>vreg ok. if ok then contains vreg s else Some False) solved True)"

definition published :: "working_live_set \<Rightarrow> nat list" where
  "published s = sort (members s)"

section \<open>Solving\<close>

definition collect_block_live_out ::
  "nat \<Rightarrow> block_partition \<Rightarrow> nat list list \<Rightarrow> nat list list \<Rightarrow> working_live_set \<Rightarrow> working_live_set option" where
  "collect_block_live_out b p succs live_in out =
     fold_option
       (\<lambda>s out. Option.bind (get_at (block_of p) s) (\<lambda>c. union_from (live_in ! c) out))
       (succs ! snd (block_span p b)) (clear_set out)"

definition transfer_inst ::
  "nat list list \<Rightarrow> nat list list \<Rightarrow> nat \<Rightarrow> working_live_set \<Rightarrow> working_live_set option" where
  "transfer_inst inst_uses inst_defs idx s =
     Option.bind (fold_option remove_vreg (inst_defs ! idx) s) (fold_option insert_vreg (inst_uses ! idx))"

definition transfer_block ::
  "nat \<Rightarrow> block_partition \<Rightarrow> nat list list \<Rightarrow> nat list list \<Rightarrow> nat list list \<Rightarrow> nat list list
     \<Rightarrow> working_live_set \<Rightarrow> working_live_set option" where
  "transfer_block b p succs inst_uses inst_defs live_in scratch =
     (case block_span p b of (start, end_idx) \<Rightarrow>
        Option.bind (collect_block_live_out b p succs live_in scratch)
          (fold_option (transfer_inst inst_uses inst_defs) (rev [start..<end_idx + 1])))"

definition shift_offsets :: "nat \<Rightarrow> nat list \<Rightarrow> nat list" where
  "shift_offsets n os = (foldl (\<lambda>os idx. os[idx := os ! (idx - 1)]) os (rev [1..<n]))[0 := 0]"

definition build_predecessor_csr :: "nat list list \<Rightarrow> adjacency" where
  "build_predecessor_csr succs =
     (let n = length succs;
          os = prefix_sums n (count_keys n (concat succs));
          placed = foldl place_one (os, replicate (os ! n) 0)
            (concat (map (\<lambda>source. map (\<lambda>s. (s, source)) (succs ! source)) (rev [0..<n])))
      in \<lparr>offsets = shift_offsets n (fst placed), targets = snd placed\<rparr>)"

record solve_state =
  queue :: "nat list"
  queued :: "bool list"
  live_in_sets :: "nat list list"
  scratch :: working_live_set

definition requeue :: "nat \<Rightarrow> solve_state \<Rightarrow> solve_state" where
  "requeue predecessor st =
     (if queued st ! predecessor then st
      else st\<lparr>queued := (queued st)[predecessor := True], queue := queue st @ [predecessor]\<rparr>)"

definition visit_live_block ::
  "block_partition \<Rightarrow> nat list list \<Rightarrow> nat list list \<Rightarrow> nat list list \<Rightarrow> adjacency \<Rightarrow> nat
     \<Rightarrow> solve_state \<Rightarrow> solve_state option" where
  "visit_live_block p succs inst_uses inst_defs preds b st =
     Option.bind (transfer_block b p succs inst_uses inst_defs (live_in_sets st) (scratch st)) (\<lambda>s.
     Option.bind (matches (live_in_sets st ! b) s) (\<lambda>same.
       let st = st\<lparr>queued := (queued st)[b := False], scratch := s\<rparr>
       in Some (if same then st
          else foldl (\<lambda>st q. requeue q st)
                 (st\<lparr>live_in_sets := (live_in_sets st)[b := published s]\<rparr>) (adj_of preds b))))"

partial_function (option) drain ::
  "block_partition \<Rightarrow> nat list list \<Rightarrow> nat list list \<Rightarrow> nat list list \<Rightarrow> adjacency
     \<Rightarrow> solve_state \<Rightarrow> solve_state option" where
  "drain p succs inst_uses inst_defs preds st =
     (case queue st of
        [] \<Rightarrow> Some st
      | b # q \<Rightarrow> Option.bind (visit_live_block p succs inst_uses inst_defs preds b (st\<lparr>queue := q\<rparr>))
                  (drain p succs inst_uses inst_defs preds))"

declare drain.simps [code]

definition sweep_block ::
  "block_partition \<Rightarrow> nat list list \<Rightarrow> nat list list \<Rightarrow> nat list list \<Rightarrow> nat
     \<Rightarrow> nat list list \<times> working_live_set \<Rightarrow> (nat list list \<times> working_live_set) option" where
  "sweep_block p succs inst_uses inst_defs b st =
     (case st of (live_in, s) \<Rightarrow>
        Option.bind (transfer_block b p succs inst_uses inst_defs live_in s) (\<lambda>s.
          Some (live_in[b := published s], s)))"

definition block_successors :: "block_partition \<Rightarrow> nat list list \<Rightarrow> nat list list option" where
  "block_successors p succs =
     fold_option (\<lambda>b rows.
       Option.bind (fold_option (\<lambda>s row. Option.bind (get_at (block_of p) s) (\<lambda>c. Some (row @ [c])))
         (succs ! snd (block_span p b)) []) (\<lambda>row. Some (rows @ [row])))
       [0..<partition_len p] []"

definition solve_block_liveness ::
  "nat \<Rightarrow> nat list list \<Rightarrow> nat list list \<Rightarrow> nat list list \<Rightarrow> block_partition \<Rightarrow> bool \<Rightarrow> nat list list option" where
  "solve_block_liveness vreg_count succs inst_uses inst_defs p back_edge =
     (let n = partition_len p;
          empty = replicate n [];
          s = with_width vreg_count
      in if back_edge
         then Option.bind (block_successors p succs) (\<lambda>rows.
              Option.bind (drain p succs inst_uses inst_defs (build_predecessor_csr rows)
                  \<lparr>queue = rev [0..<n], queued = replicate n True, live_in_sets = empty, scratch = s\<rparr>)
                (\<lambda>st. Some (live_in_sets st)))
         else Option.bind (fold_option (sweep_block p succs inst_uses inst_defs) (rev [0..<n]) (empty, s))
                (\<lambda>st. Some (fst st)))"

end
