(* ===== verification/Loop_Depth.thy ===== *)
theory Loop_Depth
  imports Rue_Prelude
begin

text \<open>
  Loop depths: \<open>LoopInfo\<close> of \<open>rue-codegen/src/regalloc.rs\<close>, which answers for the greatest
  depth in a range from a sparse table over runs of equal depth, and \<open>compute_loop_info\<close> of
  \<open>rue-codegen/src/liveness.rs\<close>, which finds the depths from the back edges.
\<close>

section \<open>The definitions\<close>

record loop_info =
  depths :: "nat list"
  loop_max :: nat
  run_starts :: "nat list"
  run_max :: "nat list list"

definition no_loops :: "nat \<Rightarrow> loop_info" where
  "no_loops count = \<lparr>depths = replicate count 0, loop_max = 0, run_starts = [], run_max = []\<rparr>"

text \<open>The number of significant bits of an index: the word width less its leading zeros.\<close>

fun bit_width :: "nat \<Rightarrow> nat" where
  "bit_width n = (if n = 0 then 0 else 1 + bit_width (n div 2))"

declare bit_width.simps [simp del]

definition add_run :: "nat list \<Rightarrow> nat list \<times> nat list \<Rightarrow> nat \<times> nat \<Rightarrow> nat list \<times> nat list" where
  "add_run ds runs row =
     (case row of (index, depth) \<Rightarrow>
        if index = 0 \<or> depth \<noteq> ds ! (index - 1) then (fst runs @ [index], snd runs @ [depth]) else runs)"

definition add_level :: "nat \<Rightarrow> nat list list \<Rightarrow> nat \<Rightarrow> nat list list" where
  "add_level runs table level =
     (let span = 2 ^ level;
          half = span div 2;
          previous = table ! (level - 1)
      in table @ [map (\<lambda>index. max (previous ! index) (previous ! (index + half))) [0..<runs + 1 - span]])"

definition from_depths :: "nat list \<Rightarrow> loop_info" where
  "from_depths ds =
     (let greatest = foldl max 0 ds
      in if greatest = 0 then \<lparr>depths = ds, loop_max = greatest, run_starts = [], run_max = []\<rparr>
      else case foldl (add_run ds) ([], []) (enumerate 0 ds) of (firsts, run_depths) \<Rightarrow>
        let runs = length run_depths
        in \<lparr>depths = ds, loop_max = greatest, run_starts = firsts,
            run_max = foldl (add_level runs) [run_depths] [1..<bit_width runs]\<rparr>)"

definition depth_at :: "loop_info \<Rightarrow> nat \<Rightarrow> nat" where
  "depth_at l i = (if i < length (depths l) then depths l ! i else 0)"

definition run_of :: "loop_info \<Rightarrow> nat \<Rightarrow> nat" where
  "run_of l i = length (takeWhile (\<lambda>start. start \<le> i) (run_starts l)) - 1"

definition max_depth_in_range :: "loop_info \<Rightarrow> nat \<Rightarrow> nat \<Rightarrow> nat" where
  "max_depth_in_range l start end_idx =
     (if loop_max l = 0 then 0
      else if end_idx < start \<or> length (depths l) \<le> start then 0
      else let end_idx = min end_idx (length (depths l) - 1);
               first = run_of l start;
               final = run_of l end_idx;
               len = final - first + 1;
               level = bit_width len - 1;
               window = 2 ^ level;
               table = run_max l ! level
           in max (table ! first) (table ! (final + 1 - window)))"

definition count_back_edges :: "nat list list \<Rightarrow> nat \<Rightarrow> int list" where
  "count_back_edges succs n =
     foldl (\<lambda>deltas (from_idx, to_idx).
         if to_idx \<le> from_idx
         then let deltas = deltas[to_idx := deltas ! to_idx + 1]
              in deltas[from_idx + 1 := deltas ! (from_idx + 1) - 1]
         else deltas)
       (replicate (n + 1) 0) (concat (map (\<lambda>(from_idx, ss). map (Pair from_idx) ss) (enumerate 0 succs)))"

definition saturated_depth :: "int \<Rightarrow> nat" where
  "saturated_depth e = (if 0 \<le> e \<and> e < 2 ^ 32 then nat e else 2 ^ 32 - 1)"

definition compute_loop_info :: "nat \<Rightarrow> nat list list \<Rightarrow> loop_info" where
  "compute_loop_info n succs =
     (if n = 0 then no_loops 0
      else from_depths (snd (foldl (\<lambda>(enclosing, ds) delta.
          (enclosing + delta, ds @ [saturated_depth (enclosing + delta)]))
        (0, []) (take n (count_back_edges succs n)))))"

section \<open>Bit widths\<close>

lemma bit_width_0 [simp]: "bit_width 0 = 0"
  by (simp add: bit_width.simps)

lemma bit_width_bounds: "0 < n \<Longrightarrow> 0 < bit_width n \<and> 2 ^ (bit_width n - 1) \<le> n \<and> n < 2 ^ bit_width n"
proof (induction n rule: bit_width.induct)
  case (1 n)
  show ?case
  proof (cases "n div 2 = 0")
    case True
    then have "n = 1" using 1(2) by simp
    then show ?thesis by (simp add: bit_width.simps)
  next
    case False
    then have ih: "0 < bit_width (n div 2)" "2 ^ (bit_width (n div 2) - 1) \<le> n div 2" "n div 2 < 2 ^ bit_width (n div 2)"
      using 1 by auto
    obtain w where w: "bit_width (n div 2) = Suc w" using ih(1) gr0_implies_Suc by blast
    have e: "bit_width n = Suc (Suc w)" using 1(2) w by (simp add: bit_width.simps[of n])
    have "2 * 2 ^ w \<le> n" using ih(2) unfolding w by simp
    moreover have "n < 2 * (2 * 2 ^ w)" using ih(3) unfolding w power_Suc by linarith
    ultimately show ?thesis unfolding e by simp
  qed
qed

lemma level_below: "0 < m \<Longrightarrow> m \<le> n \<Longrightarrow> bit_width m - 1 < bit_width n"
proof -
  assume m: "0 < m" "m \<le> n"
  have "2 ^ (bit_width m - 1) < (2 :: nat) ^ bit_width n"
    using bit_width_bounds[of m] bit_width_bounds[of n] m by linarith
  then show ?thesis by simp
qed

section \<open>The sparse table\<close>

lemma add_level_eq:
  "add_level runs table level = table @ [map (\<lambda>i. max (table ! (level - 1) ! i) (table ! (level - 1) ! (i + 2 ^ level div 2)))
     [0..<runs + 1 - 2 ^ level]]"
  by (simp add: add_level_def Let_def)

lemma Max_join:
  fixes f :: "nat \<Rightarrow> nat"
  assumes "a \<le> b" "c \<le> d" "b \<le> d" "c \<le> b + 1" "a \<le> c"
  shows "max (Max (f ` {a..b})) (Max (f ` {c..d})) = Max (f ` {a..d})"
proof -
  have "{a..d} = {a..b} \<union> {c..d}" using assms by auto
  then show ?thesis using assms by (simp add: image_Un Max_Un)
qed

lemma sparse_table:
  assumes "rd \<noteq> []" "m \<le> bit_width (length rd)" "0 < m"
  shows "length (foldl (add_level (length rd)) [rd] [1..<m]) = m
    \<and> (\<forall>k < m. \<forall>i. i + 2 ^ k \<le> length rd \<longrightarrow>
        foldl (add_level (length rd)) [rd] [1..<m] ! k ! i = Max ((!) rd ` {i..i + 2 ^ k - 1}))"
  using assms(2,3)
proof (induction m)
  case (Suc m)
  show ?case
  proof (cases "m = 0")
    case True
    then show ?thesis by simp
  next
    case False
    define t where "t = foldl (add_level (length rd)) [rd] [1..<m]"
    have ih: "length t = m" "\<forall>k < m. \<forall>i. i + 2 ^ k \<le> length rd \<longrightarrow> t ! k ! i = Max ((!) rd ` {i..i + 2 ^ k - 1})"
      using Suc False by (simp_all add: t_def)
    have step: "foldl (add_level (length rd)) [rd] [1..<Suc m] = add_level (length rd) t m"
      using False by (simp add: t_def)
    have half: "2 ^ m div 2 = (2 :: nat) ^ (m - 1)" "(2 :: nat) ^ m = 2 ^ (m - 1) + 2 ^ (m - 1)"
      using False by (cases m; simp)+
    have "max (t ! (m - 1) ! i) (t ! (m - 1) ! (i + 2 ^ (m - 1))) = Max ((!) rd ` {i..i + 2 ^ m - 1})"
      if i: "i + 2 ^ m \<le> length rd" for i
    proof -
      have "t ! (m - 1) ! i = Max ((!) rd ` {i..i + 2 ^ (m - 1) - 1})"
        "t ! (m - 1) ! (i + 2 ^ (m - 1)) = Max ((!) rd ` {i + 2 ^ (m - 1)..i + 2 ^ m - 1})"
        using ih(2) False i half(2) by (simp_all add: add.assoc)
      moreover have "0 < (2 :: nat) ^ (m - 1)" by simp
      ultimately show ?thesis using half(2) by (simp only:) (intro Max_join; linarith)
    qed
    then show ?thesis
      unfolding step using ih by (auto simp: add_level_eq nth_append less_Suc_eq half(1))
  qed
qed simp

section \<open>Runs\<close>

text \<open>The runs of a prefix: where each starts, and that the depth is constant in between.\<close>

definition in_run :: "nat list \<Rightarrow> nat list \<times> nat list \<Rightarrow> nat \<Rightarrow> nat \<Rightarrow> bool" where
  "in_run ds st i r \<longleftrightarrow> r < length (fst st) \<and> fst st ! r \<le> i
     \<and> (r + 1 < length (fst st) \<longrightarrow> i < fst st ! (r + 1)) \<and> ds ! i = snd st ! r"

definition runs_of :: "nat list \<Rightarrow> nat \<Rightarrow> nat list \<times> nat list \<Rightarrow> bool" where
  "runs_of ds n st \<longleftrightarrow> length (fst st) = length (snd st) \<and> sorted_wrt (<) (fst st) \<and> set (fst st) \<subseteq> {..<n}
     \<and> (\<forall>i < n. \<exists>r. in_run ds st i r)"

lemma in_run_push:
  assumes "in_run ds (fs, rs) i r" "length fs = length rs" "i < n"
  shows "in_run ds (fs @ [n], rs @ [d]) i r"
  using assms by (auto simp: in_run_def nth_append)

lemma in_run_next:
  assumes "in_run ds (fs, rs) i r" "set fs \<subseteq> {..<Suc i}" "ds ! Suc i = ds ! i"
  shows "in_run ds (fs, rs) (Suc i) r"
proof -
  have "fs ! (r + 1) < Suc i" if "r + 1 < length fs" using assms(2) nth_mem[OF that] by auto
  then show ?thesis using assms(1,3) by (auto simp: in_run_def)
qed

lemma runs_found:
  assumes "n \<le> length ds"
  shows "runs_of ds n (foldl (add_run ds) ([], []) (enumerate 0 (take n ds)))"
  using assms
proof (induction n)
  case 0
  then show ?case by (simp add: runs_of_def)
next
  case (Suc n)
  obtain fs rs where st: "foldl (add_run ds) ([], []) (enumerate 0 (take n ds)) = (fs, rs)" by force
  have ih: "length fs = length rs" "sorted_wrt (<) fs" "set fs \<subseteq> {..<n}" "\<forall>i < n. \<exists>r. in_run ds (fs, rs) i r"
    using Suc st by (auto simp: runs_of_def)
  have "enumerate 0 (take (Suc n) ds) = enumerate 0 (take n ds) @ [(n, ds ! n)]"
    using Suc.prems by (simp add: take_Suc_conv_app_nth enumerate_append_eq)
  then have step: "foldl (add_run ds) ([], []) (enumerate 0 (take (Suc n) ds)) = add_run ds (fs, rs) (n, ds ! n)"
    using st by simp
  show ?case
  proof (cases "n = 0 \<or> ds ! n \<noteq> ds ! (n - 1)")
    case True
    have e: "add_run ds (fs, rs) (n, ds ! n) = (fs @ [n], rs @ [ds ! n])" using True by (auto simp: add_run_def)
    have "in_run ds (fs @ [n], rs @ [ds ! n]) n (length fs)" using ih(1) by (simp add: in_run_def nth_append)
    then have "\<forall>i < Suc n. \<exists>r. in_run ds (fs @ [n], rs @ [ds ! n]) i r"
      using ih(1,4) in_run_push less_SucE by metis
    then show ?thesis using ih unfolding step e by (auto simp: runs_of_def sorted_wrt_append)
  next
    case False
    then obtain m where m: "n = Suc m" by (cases n) auto
    have e: "add_run ds (fs, rs) (n, ds ! n) = (fs, rs)" using False by (auto simp: add_run_def)
    obtain r where "in_run ds (fs, rs) m r" using ih(4) m by auto
    then have "in_run ds (fs, rs) n r" using ih(3) False unfolding m by (intro in_run_next) auto
    then show ?thesis using ih unfolding step e by (auto simp: runs_of_def less_Suc_eq)
  qed
qed

lemma takeWhile_run:
  fixes fs :: "nat list"
  assumes "sorted_wrt (<) fs" "r < length fs" "fs ! r \<le> i" "r + 1 < length fs \<longrightarrow> i < fs ! (r + 1)"
  shows "length (takeWhile (\<lambda>s. s \<le> i) fs) = r + 1"
proof -
  have "takeWhile (\<lambda>s. s \<le> i) fs = take (r + 1) fs"
  proof (rule takeWhile_eq_take_P_nth)
    fix k assume "k < r + 1" "k < length fs"
    then have "fs ! k \<le> fs ! r"
      using assms(2) sorted_wrt_nth_less[OF assms(1), of k r] by (cases "k = r") (auto intro: less_imp_le)
    then show "fs ! k \<le> i" using assms(3) by (rule order_trans)
  next
    assume "r + 1 < length fs"
    then show "\<not> fs ! (r + 1) \<le> i" using assms(4) by simp
  qed
  then show ?thesis using assms(2) by simp
qed

section \<open>Range maxima\<close>

lemma foldl_max_0: "foldl max 0 xs = Max (insert 0 (set (xs :: nat list)))"
  by (induction xs rule: rev_induct) (simp_all add: max.commute insert_commute)

text \<open>What a query answers: the greatest depth of an instruction in the range, or 0.\<close>

definition greatest_depth :: "nat list \<Rightarrow> nat \<Rightarrow> nat \<Rightarrow> nat" where
  "greatest_depth ds s e = Max (insert 0 {ds ! i |i. s \<le> i \<and> i \<le> e \<and> i < length ds})"

lemma run_of_in_run:
  assumes "sorted_wrt (<) fs" "in_run ds (fs, rs) i r" "run_starts l = fs"
  shows "run_of l i = r"
  using takeWhile_run[OF assms(1), of r i] assms(2,3) by (simp add: run_of_def in_run_def)

lemma run_order:
  assumes "sorted_wrt (<) fs" "in_run ds (fs, rs) i r" "in_run ds (fs, rs) j q" "i \<le> j"
  shows "r \<le> q"
proof (rule ccontr)
  assume "\<not> r \<le> q"
  then have "q + 1 \<le> r" by simp
  moreover have "r < length fs" using assms(2) by (simp add: in_run_def)
  ultimately have "fs ! (q + 1) \<le> fs ! r"
    using sorted_wrt_nth_less[OF assms(1), of "q + 1" r] by (cases "q + 1 = r") (auto intro: less_imp_le)
  moreover have "j < fs ! (q + 1)" using assms(3) \<open>q + 1 \<le> r\<close> \<open>r < length fs\<close> by (simp add: in_run_def)
  ultimately show False using assms(2,4) by (simp add: in_run_def)
qed

text \<open>Runs between the first and the last of a range start inside the range.\<close>

lemma depths_of_range:
  assumes runs: "runs_of ds (length ds) (fs, rs)" and r: "in_run ds (fs, rs) s first" "in_run ds (fs, rs) e fin"
    and le: "s \<le> e" "e < length ds"
  shows "(!) ds ` {s..e} = (!) rs ` {first..fin}"
proof -
  have fs: "length fs = length rs" "sorted_wrt (<) fs" "set fs \<subseteq> {..<length ds}"
    "\<And>i. i < length ds \<Longrightarrow> \<exists>q. in_run ds (fs, rs) i q"
    using runs by (auto simp: runs_of_def)
  show ?thesis
  proof (intro equalityI subsetI)
    fix d assume "d \<in> (!) ds ` {s..e}"
    then obtain i where i: "d = ds ! i" "s \<le> i" "i \<le> e" by auto
    then obtain q where q: "in_run ds (fs, rs) i q" using fs(4) le by force
    then have "first \<le> q" "q \<le> fin" using run_order[OF fs(2)] r i by blast+
    then show "d \<in> (!) rs ` {first..fin}" using q i(1) by (auto simp: in_run_def)
  next
    fix d assume "d \<in> (!) rs ` {first..fin}"
    then obtain q where q: "d = rs ! q" "first \<le> q" "q \<le> fin" by auto
    have fin: "fin < length fs" "fs ! fin \<le> e" using r(2) by (auto simp: in_run_def)
    show "d \<in> (!) ds ` {s..e}"
    proof (cases "q = first")
      case True
      then show ?thesis using r(1) q(1) le by (auto simp: in_run_def intro: image_eqI[of _ _ s])
    next
      case False
      then have "s < fs ! (first + 1)" "fs ! (first + 1) \<le> fs ! q"
        using r(1) q fin sorted_wrt_nth_less[OF fs(2), of "first + 1" q]
        by (cases "first + 1 = q"; auto simp: in_run_def)+
      moreover have "fs ! q \<le> e"
        using q fin sorted_wrt_nth_less[OF fs(2), of q fin] by (cases "q = fin") auto
      ultimately have b: "s \<le> fs ! q" "fs ! q \<le> e" by simp_all
      obtain p where p: "in_run ds (fs, rs) (fs ! q) p" using fs(4)[of "fs ! q"] b(2) le by auto
      have "length (takeWhile (\<lambda>x. x \<le> fs ! q) fs) = p + 1" using takeWhile_run[OF fs(2)] p by (simp add: in_run_def)
      moreover have "length (takeWhile (\<lambda>x. x \<le> fs ! q) fs) = q + 1"
        using q fin sorted_wrt_nth_less[OF fs(2), of q "q + 1"] by (intro takeWhile_run[OF fs(2)]) auto
      ultimately have "ds ! (fs ! q) = rs ! q" using p by (simp add: in_run_def)
      then show ?thesis using b q(1) by (intro image_eqI[of _ _ "fs ! q"]) auto
    qed
  qed
qed

lemma window_max:
  assumes "rs \<noteq> []" "first \<le> fin" "fin < length rs"
    and "table = foldl (add_level (length rs)) [rs] [1..<bit_width (length rs)]"
    and "level = bit_width (fin - first + 1) - 1"
  shows "max (table ! level ! first) (table ! level ! (fin + 1 - 2 ^ level)) = Max ((!) rs ` {first..fin})"
proof -
  let ?len = "fin - first + 1"
  have w: "2 ^ level \<le> ?len" "?len < 2 * 2 ^ level"
    using bit_width_bounds[of ?len] unfolding assms(5) by (cases "bit_width ?len"; simp)+
  have level: "level < bit_width (length rs)" unfolding assms(5) using assms by (intro level_below) auto
  have pos: "(0 :: nat) < 2 ^ level" by simp
  have entry: "table ! level ! i = Max ((!) rs ` {i..i + 2 ^ level - 1})" if "i + 2 ^ level \<le> length rs" for i
    using sparse_table[OF assms(1) order_refl] assms(4) level that by fastforce
  have "table ! level ! first = Max ((!) rs ` {first..first + 2 ^ level - 1})"
    by (rule entry) (use w assms in linarith)
  moreover have "table ! level ! (fin + 1 - 2 ^ level) = Max ((!) rs ` {fin + 1 - 2 ^ level..fin})"
    using entry[of "fin + 1 - 2 ^ level"] w assms(2,3) pos by simp
  ultimately show ?thesis using w assms(2) pos by (simp only:) (intro Max_join; linarith)
qed

lemma max_depth_exact:
  "max_depth_in_range (from_depths ds) s e = greatest_depth ds s e"
proof (cases "foldl max 0 ds = 0")
  case True
  then have "\<forall>d \<in> set ds. d = 0" by (simp add: foldl_max_0 Max_eq_iff)
  then have "insert 0 {ds ! i |i. s \<le> i \<and> i \<le> e \<and> i < length ds} = {0}" by auto
  then have "greatest_depth ds s e = 0" unfolding greatest_depth_def by (simp only: Max_singleton)
  then show ?thesis using True by (simp add: from_depths_def max_depth_in_range_def Let_def)
next
  case False
  obtain fs rs where runs: "foldl (add_run ds) ([], []) (enumerate 0 ds) = (fs, rs)" by force
  have ok: "runs_of ds (length ds) (fs, rs)" using runs_found[of "length ds" ds] runs by simp
  define table where "table = foldl (add_level (length rs)) [rs] [1..<bit_width (length rs)]"
  have l: "from_depths ds = \<lparr>depths = ds, loop_max = foldl max 0 ds, run_starts = fs, run_max = table\<rparr>"
    using False runs by (simp add: from_depths_def table_def Let_def)
  show ?thesis
  proof (cases "e < s \<or> length ds \<le> s")
    case True
    then have none: "{ds ! i |i. s \<le> i \<and> i \<le> e \<and> i < length ds} = {}" by auto
    show ?thesis unfolding greatest_depth_def none using True by (auto simp: l max_depth_in_range_def Let_def)
  next
    case in_range: False
    define e' where "e' = min e (length ds - 1)"
    have e': "s \<le> e'" "e' < length ds" using in_range by (auto simp: e'_def)
    then obtain a z where r: "in_run ds (fs, rs) s a" "in_run ds (fs, rs) e' z"
      using ok by (force simp: runs_of_def)
    have fs: "sorted_wrt (<) fs" "length fs = length rs" using ok by (simp_all add: runs_of_def)
    have len: "rs \<noteq> []" "z < length rs" "a \<le> z"
      using r(2) fs run_order[OF fs(1) r e'(1)] by (auto simp: in_run_def)
    have q: "run_of (from_depths ds) s = a" "run_of (from_depths ds) e' = z"
      using run_of_in_run[OF fs(1)] r by (simp_all add: l)
    have img: "{ds ! i |i. s \<le> i \<and> i \<le> e \<and> i < length ds} = (!) ds ` {s..e'}"
      using in_range unfolding setcompr_eq_image by (intro arg_cong[where f = "image _"]) (auto simp: e'_def)
    have "max_depth_in_range (from_depths ds) s e = Max ((!) rs ` {a..z})"
      using in_range False q window_max[OF len(1,3,2) table_def refl]
      by (simp add: max_depth_in_range_def l e'_def Let_def)
    also have "\<dots> = Max ((!) ds ` {s..e'})" using depths_of_range[OF ok r e'] by simp
    also have "\<dots> = greatest_depth ds s e"
      unfolding greatest_depth_def img using e' by (subst Max_insert) auto
    finally show ?thesis .
  qed
qed

section \<open>Back edges\<close>

definition enclosing_back_edges :: "nat list list \<Rightarrow> nat \<Rightarrow> nat" where
  "enclosing_back_edges succs i =
     sum_list (map (\<lambda>(from_idx, ss). length (filter (\<lambda>to_idx. to_idx \<le> i \<and> i \<le> from_idx) ss)) (enumerate 0 succs))"

definition delta_of :: "(nat \<times> nat) list \<Rightarrow> nat \<Rightarrow> int" where
  "delta_of es j = int (length (filter (\<lambda>(f, t). t \<le> f \<and> t = j) es)) - int (length (filter (\<lambda>(f, t). t \<le> f \<and> f + 1 = j) es))"

lemma deltas_found:
  assumes "\<forall>(f, t) \<in> set es. f < n"
  shows "length (foldl (\<lambda>deltas (f, t). if t \<le> f then let deltas = deltas[t := deltas ! t + 1]
              in deltas[f + 1 := deltas ! (f + 1) - 1] else deltas) (replicate (n + 1) (0 :: int)) es) = n + 1
    \<and> (\<forall>j \<le> n. foldl (\<lambda>deltas (f, t). if t \<le> f then let deltas = deltas[t := deltas ! t + 1]
              in deltas[f + 1 := deltas ! (f + 1) - 1] else deltas) (replicate (n + 1) 0) es ! j = delta_of es j)"
  using assms
proof (induction es rule: rev_induct)
  case Nil
  then show ?case by (auto simp: delta_of_def simp del: replicate_Suc)
next
  case (snoc e es)
  obtain f t where e: "e = (f, t)" by force
  show ?case using snoc unfolding e
    by (auto simp: delta_of_def Let_def nth_list_update)
qed

lemma prefix_of_deltas:
  "(\<Sum>j \<le> i. delta_of es j) = int (length (filter (\<lambda>(f, t). t \<le> i \<and> i \<le> f) es))"
proof (induction es)
  case Nil
  then show ?case by (simp add: delta_of_def)
next
  case (Cons e es)
  obtain f t where e: "e = (f, t)" by force
  have "delta_of ((f, t) # es) j = delta_of es j + (if t \<le> f \<and> t = j then 1 else 0) - (if t \<le> f \<and> f + 1 = j then 1 else 0)" for j
    by (simp add: delta_of_def)
  moreover have "(\<Sum>j \<le> i. (if t \<le> f \<and> t = j then 1 else 0 :: int)) = (if t \<le> f \<and> t \<le> i then 1 else 0)"
    "(\<Sum>j \<le> i. (if t \<le> f \<and> f + 1 = j then 1 else 0 :: int)) = (if t \<le> f \<and> f + 1 \<le> i then 1 else 0)"
    by (auto simp: sum.delta')
  ultimately show ?case using Cons unfolding e by (auto simp: sum.distrib sum_subtractf)
qed

lemma depths_summed:
  "foldl (\<lambda>(enclosing, ds) delta. (enclosing + delta, ds @ [saturated_depth (enclosing + delta)])) (0, []) xs
    = (sum_list xs, map (\<lambda>i. saturated_depth (sum_list (take (i + 1) xs))) [0..<length xs])"
  by (induction xs rule: rev_induct) (auto simp: nth_append)

lemma depths_from_depths [simp]: "depths (from_depths ds) = ds"
  by (simp add: from_depths_def Let_def split: prod.split)

lemma loop_depths:
  assumes "length succs = n" "i < n"
  shows "length (depths (compute_loop_info n succs)) = n
    \<and> depths (compute_loop_info n succs) ! i = min (enclosing_back_edges succs i) (2 ^ 32 - 1)"
proof -
  define es where "es = concat (map (\<lambda>(from_idx, ss). map (Pair from_idx) ss) (enumerate 0 succs))"
  have es: "\<forall>(f, t) \<in> set es. f < n" using assms(1) by (auto simp: es_def in_set_enumerate_eq)
  define d where "d = count_back_edges succs n"
  have d: "length d = n + 1" "\<forall>j \<le> n. d ! j = delta_of es j"
    using deltas_found[OF es] by (simp_all add: d_def count_back_edges_def es_def)
  have "sum_list (take (i + 1) (take n d)) = (\<Sum>j \<le> i. delta_of es j)"
    using d assms(2) by (simp add: sum_list_sum_nth min_def atLeast0LessThan lessThan_Suc_atMost)
  also have "\<dots> = int (enclosing_back_edges succs i)"
    unfolding prefix_of_deltas es_def enclosing_back_edges_def
    by (simp add: filter_concat length_concat comp_def case_prod_unfold)
  finally have "sum_list (take (i + 1) (take n d)) = int (enclosing_back_edges succs i)" .
  moreover have "depths (compute_loop_info n succs)
      = map (\<lambda>i. saturated_depth (sum_list (take (i + 1) (take n d)))) [0..<n]"
    using assms(2) d by (simp add: compute_loop_info_def depths_summed d_def)
  ultimately show ?thesis using assms(2) by (auto simp: saturated_depth_def)
qed

end
