(* ===== verification/Live_Analysis.thy ===== *)
theory Live_Analysis
  imports Liveness Loop_Depth
begin

text \<open>
  The products of the liveness analysis of \<open>rue-codegen/src/liveness.rs\<close>: live ranges, the rows
  of the diagnostic listing, diverging instructions, and the entry points that put them together.
\<close>

section \<open>Live ranges\<close>

definition widen :: "nat \<Rightarrow> live_range option \<Rightarrow> live_range" where
  "widen idx r = (case r of
     Some r \<Rightarrow> \<lparr>start_at = (if idx < start_at r then idx else start_at r),
                end_at = (if end_at r < idx then idx else end_at r)\<rparr>
   | None \<Rightarrow> \<lparr>start_at = idx, end_at = idx\<rparr>)"

definition extend_range :: "nat \<Rightarrow> nat \<Rightarrow> live_range option list \<Rightarrow> live_range option list option" where
  "extend_range idx vreg ranges =
     Option.bind (get_at ranges vreg) (\<lambda>r. put_at ranges vreg (Some (widen idx r)))"

definition extend_at ::
  "nat list list \<Rightarrow> nat list list \<Rightarrow> nat \<Rightarrow> live_range option list \<Rightarrow> live_range option list option" where
  "extend_at inst_uses inst_defs idx ranges =
     Option.bind (fold_option (extend_range idx) (inst_defs ! idx) ranges)
       (fold_option (extend_range idx) (inst_uses ! idx))"

definition extend_over_block ::
  "block_partition \<Rightarrow> nat list list \<Rightarrow> nat list list \<Rightarrow> nat
     \<Rightarrow> live_range option list \<times> working_live_set \<Rightarrow> (live_range option list \<times> working_live_set) option" where
  "extend_over_block p live_in succs b st =
     (case st of (ranges, out) \<Rightarrow> case block_span p b of (start, end_idx) \<Rightarrow>
        Option.bind (fold_option (extend_range start) (live_in ! b) ranges) (\<lambda>ranges.
        Option.bind (collect_block_live_out b p succs live_in out) (\<lambda>out.
        Option.bind (fold_option (extend_range end_idx) (members out) ranges) (\<lambda>ranges.
          Some (ranges, out)))))"

definition build_live_ranges ::
  "nat \<Rightarrow> nat \<Rightarrow> nat list list \<Rightarrow> nat list list \<Rightarrow> nat list list \<Rightarrow> (block_partition \<times> nat list list) option
     \<Rightarrow> live_range option list option" where
  "build_live_ranges num_insts vreg_count inst_uses inst_defs succs cyclic =
     Option.bind (fold_option (extend_at inst_uses inst_defs) [0..<num_insts] (replicate vreg_count None)) (\<lambda>ranges.
       case cyclic of
         None \<Rightarrow> Some ranges
       | Some (p, live_in) \<Rightarrow>
           Option.bind (fold_option (extend_over_block p live_in succs) [0..<partition_len p]
             (ranges, with_width vreg_count)) (\<lambda>st. Some (fst st)))"

section \<open>The diagnostic rows\<close>

record instruction_liveness =
  row_index :: nat
  row_live_in :: "nat set"
  row_live_out :: "nat set"
  row_defs :: "nat list"
  row_uses :: "nat list"

definition liveness_row ::
  "nat list list \<Rightarrow> nat list list \<Rightarrow> nat \<Rightarrow> instruction_liveness list \<times> working_live_set
     \<Rightarrow> (instruction_liveness list \<times> working_live_set) option" where
  "liveness_row inst_uses inst_defs idx st =
     (case st of (rows, s) \<Rightarrow>
        Option.bind (transfer_inst inst_uses inst_defs idx s) (\<lambda>t.
          Some (rows @ [\<lparr>row_index = idx, row_live_in = set (members t), row_live_out = set (members s),
                         row_defs = inst_defs ! idx, row_uses = inst_uses ! idx\<rparr>], t)))"

definition block_liveness_rows ::
  "nat list list \<Rightarrow> nat list list \<Rightarrow> nat list list \<Rightarrow> block_partition \<Rightarrow> nat list list \<Rightarrow> nat
     \<Rightarrow> instruction_liveness list \<times> working_live_set \<Rightarrow> (instruction_liveness list \<times> working_live_set) option" where
  "block_liveness_rows succs inst_uses inst_defs p live_in b st =
     (case st of (rows, s) \<Rightarrow> case block_span p b of (start, end_idx) \<Rightarrow>
        Option.bind (collect_block_live_out b p succs live_in s) (\<lambda>s.
        Option.bind (fold_option (liveness_row inst_uses inst_defs) (rev [start..<end_idx + 1]) ([], s)) (\<lambda>(block_rows, s).
          Some (rows @ rev block_rows, s))))"

definition instruction_liveness_rows ::
  "nat \<Rightarrow> nat \<Rightarrow> nat list list \<Rightarrow> nat list list \<Rightarrow> nat list list \<Rightarrow> block_partition \<Rightarrow> nat list list
     \<Rightarrow> instruction_liveness list option" where
  "instruction_liveness_rows num_insts vreg_count succs inst_uses inst_defs p live_in =
     Option.bind (fold_option (block_liveness_rows succs inst_uses inst_defs p live_in) [0..<partition_len p]
         ([], with_width vreg_count))
       (\<lambda>(rows, s). if length rows = num_insts then Some rows else None)"

section \<open>Divergence\<close>

record divergence_state =
  marked :: "bool list"
  unmarked :: "nat list"
  work :: "nat list"

text \<open>The last entry of the vector \<open>worklist\<close> is the head of \<open>work\<close>.\<close>

definition retire_edge :: "nat \<Rightarrow> divergence_state \<Rightarrow> divergence_state option" where
  "retire_edge pred st =
     (if marked st ! pred then Some st
      else if unmarked st ! pred = 0 then None
      else let left = unmarked st ! pred - 1;
               st = st\<lparr>unmarked := (unmarked st)[pred := left]\<rparr>
           in Some (if left = 0 then st\<lparr>marked := (marked st)[pred := True], work := pred # work st\<rparr> else st))"

partial_function (option) spread :: "adjacency \<Rightarrow> divergence_state \<Rightarrow> divergence_state option" where
  "spread preds st =
     (case work st of
        [] \<Rightarrow> Some st
      | idx # rest \<Rightarrow> Option.bind (fold_option retire_edge (adj_of preds idx) (st\<lparr>work := rest\<rparr>)) (spread preds))"

declare spread.simps [code]

definition compute_divergence :: "nat list list \<Rightarrow> bool list \<Rightarrow> bool list option" where
  "compute_divergence succs non_returning =
     (let n = length succs;
          worklist = map fst (filter snd (enumerate 0 non_returning))
      in if worklist = [] then Some (replicate n False)
      else Option.bind (fold_option (\<lambda>idx ds. put_at ds idx True) worklist (replicate n False)) (\<lambda>diverging.
        if \<not> list_all (list_all (\<lambda>s. s < n)) succs then None
        else let preds = group_edges n (concat succs)
                   (concat (map (\<lambda>i. map (\<lambda>s. (s, i)) (succs ! i)) [0..<n]))
             in Option.bind (spread preds
                  \<lparr>marked = diverging, unmarked = map length succs, work = rev worklist\<rparr>)
                (\<lambda>st. Some (marked st))))"

definition collect_diverging_uses :: "nat \<Rightarrow> nat list list \<Rightarrow> bool list \<Rightarrow> bool list option" where
  "collect_diverging_uses vreg_count inst_uses diverging =
     fold_option (\<lambda>(idx, us) slots.
         Option.bind (get_at diverging idx) (\<lambda>d.
           Some (if \<not> d then slots else foldl (\<lambda>slots v. slots[v := True]) slots us)))
       (enumerate 0 inst_uses) (replicate vreg_count False)"

section \<open>The analysis\<close>

record 'r liveness_info =
  ranges :: "live_range option list"
  clobbers_at :: "'r list list"
  non_returning_at :: "bool list"
  diverging_at :: "bool list"
  diverging_uses :: "bool list"
  info_classes :: vreg_classes

record liveness_debug_info =
  debug_rows :: "instruction_liveness list"
  debug_ranges :: "live_range option list"
  debug_vreg_count :: nat

definition empty_liveness :: "vreg_classes \<Rightarrow> 'r liveness_info" where
  "empty_liveness cs = \<lparr>ranges = [], clobbers_at = [], non_returning_at = [], diverging_at = [],
     diverging_uses = [], info_classes = cs\<rparr>"

definition analyze_inner ::
  "('i, 'r) liveness_adapter \<Rightarrow> 'i list \<Rightarrow> nat \<Rightarrow> vreg_classes \<Rightarrow> bool \<Rightarrow> bool
     \<Rightarrow> ('r liveness_info \<times> liveness_debug_info option \<times> loop_info option) option" where
  "analyze_inner a insts vreg_count cs collect_debug collect_loops =
     (let num_insts = length insts in
      if num_insts = 0 then
        Some (empty_liveness cs,
          then_some collect_debug \<lparr>debug_rows = [], debug_ranges = [], debug_vreg_count = vreg_count\<rparr>,
          then_some collect_loops (no_loops 0))
      else
        let succs = build_successor_lists a insts (build_label_map a insts);
            loops = then_some collect_loops (compute_loop_info num_insts succs);
            inst_uses = map (uses_of a) insts;
            inst_defs = map (defs_of a) insts;
            back_edge = has_back_edge succs
        in
        Option.bind (if collect_debug \<or> back_edge
            then Option.bind (partition_blocks num_insts succs) (\<lambda>p.
                 Option.bind (solve_block_liveness vreg_count succs inst_uses inst_defs p back_edge) (\<lambda>live_in.
                   Some (Some (p, live_in))))
            else Some None) (\<lambda>block_liveness.
        Option.bind (build_live_ranges num_insts vreg_count inst_uses inst_defs succs
            (if back_edge then block_liveness else None)) (\<lambda>rs.
        Option.bind (if collect_debug
            then Option.bind block_liveness (\<lambda>(p, live_in).
                 Option.bind (instruction_liveness_rows num_insts vreg_count succs inst_uses inst_defs p live_in) (\<lambda>rows.
                   Some (Some \<lparr>debug_rows = rows, debug_ranges = rs, debug_vreg_count = vreg_count\<rparr>)))
            else Some None) (\<lambda>debug.
        let non_returning = map (never_returns a) insts in
        Option.bind (compute_divergence succs non_returning) (\<lambda>diverging.
        Option.bind (collect_diverging_uses vreg_count inst_uses diverging) (\<lambda>uses.
          Some (\<lparr>ranges = rs, clobbers_at = map (clobbers_of a) insts, non_returning_at = non_returning,
                 diverging_at = diverging, diverging_uses = uses, info_classes = cs\<rparr>, debug, loops)))))))"

definition analyze :: "('i, 'r) liveness_adapter \<Rightarrow> 'i list \<Rightarrow> nat \<Rightarrow> vreg_classes \<Rightarrow> 'r liveness_info option" where
  "analyze a insts vreg_count cs =
     Option.bind (analyze_inner a insts vreg_count cs False False) (\<lambda>(info, _, _). Some info)"

definition analyze_with_debug ::
  "('i, 'r) liveness_adapter \<Rightarrow> 'i list \<Rightarrow> nat \<Rightarrow> vreg_classes \<Rightarrow> ('r liveness_info \<times> liveness_debug_info) option" where
  "analyze_with_debug a insts vreg_count cs =
     Option.bind (analyze_inner a insts vreg_count cs True False) (\<lambda>(info, debug, _).
       Option.bind debug (\<lambda>d. Some (info, d)))"

definition analyze_with_loops ::
  "('i, 'r) liveness_adapter \<Rightarrow> 'i list \<Rightarrow> nat \<Rightarrow> vreg_classes \<Rightarrow> ('r liveness_info \<times> loop_info) option" where
  "analyze_with_loops a insts vreg_count cs =
     Option.bind (analyze_inner a insts vreg_count cs False True) (\<lambda>(info, _, loops).
       Option.bind loops (\<lambda>l. Some (info, l)))"

definition analyze_with_debug_and_loops ::
  "('i, 'r) liveness_adapter \<Rightarrow> 'i list \<Rightarrow> nat \<Rightarrow> vreg_classes
     \<Rightarrow> ('r liveness_info \<times> liveness_debug_info \<times> loop_info) option" where
  "analyze_with_debug_and_loops a insts vreg_count cs =
     Option.bind (analyze_inner a insts vreg_count cs True True) (\<lambda>(info, debug, loops).
       Option.bind debug (\<lambda>d. Option.bind loops (\<lambda>l. Some (info, d, l))))"

definition analyze_debug ::
  "('i, 'r) liveness_adapter \<Rightarrow> 'i list \<Rightarrow> nat \<Rightarrow> vreg_classes \<Rightarrow> liveness_debug_info option" where
  "analyze_debug a insts vreg_count cs =
     Option.bind (analyze_with_debug (a\<lparr>clobbers_of := \<lambda>_. [], never_returns := \<lambda>_. False\<rparr>) insts vreg_count cs)
       (\<lambda>(_, d). Some d)"

definition analyze_loops :: "('i, 'r) liveness_adapter \<Rightarrow> 'i list \<Rightarrow> loop_info" where
  "analyze_loops a insts =
     (if length insts = 0 then no_loops 0
      else compute_loop_info (length insts) (build_successor_lists a insts (build_label_map a insts)))"

section \<open>Reading the result\<close>

definition class_of_vreg :: "'r liveness_info \<Rightarrow> nat \<Rightarrow> reg_class" where
  "class_of_vreg l v = class_of (of_nat v) (info_classes l)"

definition instruction_count :: "'r liveness_info \<Rightarrow> nat" where
  "instruction_count l = length (clobbers_at l)"

definition range_of :: "'r liveness_info \<Rightarrow> nat \<Rightarrow> live_range option" where
  "range_of l v = (if v < length (ranges l) then ranges l ! v else None)"

definition interferes :: "'r liveness_info \<Rightarrow> nat \<Rightarrow> nat \<Rightarrow> bool" where
  "interferes l a b = (case range_of l a of Some ra \<Rightarrow>
     (case range_of l b of Some rb \<Rightarrow> overlaps ra rb | None \<Rightarrow> False) | None \<Rightarrow> False)"

definition is_non_returning :: "'r liveness_info \<Rightarrow> nat \<Rightarrow> bool" where
  "is_non_returning l i = (if i < length (non_returning_at l) then non_returning_at l ! i else False)"

definition diverges_at :: "'r liveness_info \<Rightarrow> nat \<Rightarrow> bool" where
  "diverges_at l i = (if i < length (diverging_at l) then diverging_at l ! i else False)"

definition has_diverging_use :: "'r liveness_info \<Rightarrow> nat \<Rightarrow> bool" where
  "has_diverging_use l v = (if v < length (diverging_uses l) then diverging_uses l ! v else True)"

definition merge_into :: "nat \<Rightarrow> nat \<Rightarrow> 'r liveness_info \<Rightarrow> 'r liveness_info option" where
  "merge_into absorbed representative l =
     (if class_of_vreg l absorbed \<noteq> class_of_vreg l representative then None
      else let merged = (case (range_of l absorbed, range_of l representative) of
             (Some a, Some r) \<Rightarrow> Some \<lparr>start_at = min (start_at a) (start_at r), end_at = max (end_at a) (end_at r)\<rparr>
           | (only, None) \<Rightarrow> only
           | (None, only) \<Rightarrow> only)
      in Option.bind (put_at (ranges l) representative merged) (\<lambda>rs.
         Option.bind (put_at rs absorbed None) (\<lambda>rs.
           Some (l\<lparr>ranges := rs, diverging_uses :=
             (if has_diverging_use l absorbed then (diverging_uses l)[representative := True]
              else diverging_uses l)\<rparr>))))"

end
