(* ===== verification/Regalloc.thy ===== *)
theory Regalloc
  imports Live_Analysis
begin

text \<open>
  The register allocator of \<open>rue-codegen/src/regalloc.rs\<close>: spill costs, the indexes over clobbers
  and divergence, register files, coalescing, spill slots, and the linear scan with and without
  rematerialisation.

  A register file is a function of the register class, an allocation table a list indexed by
  virtual register.  The sentinel of the dense coalescing tables is \<open>None\<close>.  A result \<open>None\<close> of an
  operation is a panic of the source.
\<close>

section \<open>Spill costs\<close>

record cost_model =
  base_spill_cost :: nat
  loop_depth_multiplier :: nat
  use_loop_aware_spilling :: bool

definition default_cost_model :: cost_model where
  "default_cost_model = \<lparr>base_spill_cost = 1, loop_depth_multiplier = 10, use_loop_aware_spilling = True\<rparr>"

definition spill_cost :: "cost_model \<Rightarrow> nat \<Rightarrow> nat" where
  "spill_cost m depth =
     (if \<not> use_loop_aware_spilling m then base_spill_cost m
      else min (base_spill_cost m * min (loop_depth_multiplier m ^ depth) (2 ^ 32 - 1)) (2 ^ 32 - 1))"

definition spill_priority :: "cost_model \<Rightarrow> nat \<Rightarrow> nat \<Rightarrow> nat" where
  "spill_priority m depth remaining =
     (if \<not> use_loop_aware_spilling m then 2 ^ 64 - 1 - remaining
      else let cost = spill_cost m depth;
               len = max remaining 1
           in min (cost * 1000) (2 ^ 64 - 1) - min len 999)"

section \<open>The clobber index\<close>

record 'r tracked_clobbers =
  tracked_reg :: 'r
  all_counts :: "nat list"
  returning_only :: "nat list"

definition count_clobber ::
  "'r liveness_info \<Rightarrow> bool \<Rightarrow> 'r \<Rightarrow> (nat list \<times> nat list) \<times> nat \<times> nat \<Rightarrow> nat \<Rightarrow> (nat list \<times> nat list) \<times> nat \<times> nat" where
  "count_clobber l both reg st idx =
     (case st of ((xs, ys), running, running_returning) \<Rightarrow>
        let hit = (\<not> is_non_returning l idx \<and> reg \<in> set (clobbers_at l ! idx));
            running = (if hit then running + 1 else running);
            running_returning = (if hit \<and> \<not> diverges_at l idx then running_returning + 1 else running_returning)
        in ((xs @ [running], if both then ys @ [running_returning] else ys), running, running_returning))"

definition clobber_counts :: "'r liveness_info \<Rightarrow> bool \<Rightarrow> 'r \<Rightarrow> nat list \<times> nat list" where
  "clobber_counts l both reg =
     fst (foldl (count_clobber l both reg) (([0], if both then [0] else []), 0, 0) [0..<length (clobbers_at l)])"

definition build_clobber_index :: "'r liveness_info \<Rightarrow> 'r list \<Rightarrow> 'r tracked_clobbers list" where
  "build_clobber_index l tracked =
     (let both = list_ex (\<lambda>idx. diverges_at l idx \<and> \<not> is_non_returning l idx \<and> clobbers_at l ! idx \<noteq> [])
            [0..<length (clobbers_at l)]
      in map (\<lambda>reg. case clobber_counts l both reg of
           (xs, ys) \<Rightarrow> \<lparr>tracked_reg = reg, all_counts = xs, returning_only = ys\<rparr>) tracked)"

definition is_clobbered_during :: "'r tracked_clobbers list \<Rightarrow> 'r \<Rightarrow> live_range \<Rightarrow> bool \<Rightarrow> bool" where
  "is_clobbered_during index reg r ignore_diverging =
     (case find (\<lambda>e. tracked_reg e = reg) index of
        None \<Rightarrow> True
      | Some e \<Rightarrow>
          let counts = (if ignore_diverging \<and> returning_only e \<noteq> [] then returning_only e else all_counts e);
              limit = length counts - 1
          in counts ! min (start_at r) limit < counts ! min (end_at r + 1) limit)"

section \<open>The divergence index\<close>

definition returning_counts :: "'r liveness_info \<Rightarrow> nat list" where
  "returning_counts l =
     fst (foldl (\<lambda>(xs, running) idx.
         let running = (if \<not> diverges_at l idx then running + 1 else running) in (xs @ [running], running))
       ([0], 0) [0..<instruction_count l])"

definition build_divergence_index :: "'r liveness_info \<Rightarrow> nat list" where
  "build_divergence_index l = (if \<not> list_ex (\<lambda>d. d) (diverging_at l) then [] else returning_counts l)"

definition range_diverges :: "nat list \<Rightarrow> live_range \<Rightarrow> bool" where
  "range_diverges returning_before r =
     (if returning_before = [] then False
      else let limit = length returning_before - 1
           in returning_before ! min (end_at r + 1) limit = returning_before ! min (start_at r) limit)"

section \<open>Register files\<close>

record 'r save_classes =
  caller_saved :: "'r list"
  callee_saved :: "'r list"
  compact_callee_saved :: "'r list"

type_synonym 'r register_file = "reg_class \<Rightarrow> 'r save_classes"

definition empty_classes :: "'r save_classes" where
  "empty_classes = \<lparr>caller_saved = [], callee_saved = [], compact_callee_saved = []\<rparr>"

definition callee_saved_only :: "'r list \<Rightarrow> 'r save_classes" where
  "callee_saved_only regs = \<lparr>caller_saved = [], callee_saved = regs, compact_callee_saved = []\<rparr>"

definition is_callee_saved :: "'r save_classes \<Rightarrow> 'r \<Rightarrow> bool" where
  "is_callee_saved save reg \<longleftrightarrow> reg \<in> set (callee_saved save)"

definition gp_only :: "'r save_classes \<Rightarrow> 'r register_file" where
  "gp_only save class = (case class of Gp \<Rightarrow> save | Fp \<Rightarrow> empty_classes)"

definition caller_saved_flattened :: "'r register_file \<Rightarrow> 'r list" where
  "caller_saved_flattened file = concat (map (\<lambda>class. caller_saved (file class)) class_all)"

section \<open>Coalescing\<close>

record coalesce_candidate =
  cand_inst :: nat
  cand_dst :: nat
  cand_src :: nat

record coalesce_result =
  coalesce_map :: "nat option list"
  eliminated_moves :: "bool list"
  eliminated_count :: nat

definition empty_coalesce :: coalesce_result where
  "empty_coalesce = \<lparr>coalesce_map = [], eliminated_moves = [], eliminated_count = 0\<rparr>"

definition with_vreg_count :: "nat \<Rightarrow> coalesce_result" where
  "with_vreg_count n = \<lparr>coalesce_map = replicate n None, eliminated_moves = [], eliminated_count = 0\<rparr>"

definition representative :: "coalesce_result \<Rightarrow> nat \<Rightarrow> nat" where
  "representative c v =
     (if v < length (coalesce_map c) then (case coalesce_map c ! v of Some r \<Rightarrow> r | None \<Rightarrow> v) else v)"

definition is_eliminated :: "coalesce_result \<Rightarrow> nat \<Rightarrow> bool" where
  "is_eliminated c i = (if i < length (eliminated_moves c) then eliminated_moves c ! i else False)"

definition mark_eliminated :: "nat \<Rightarrow> coalesce_result \<Rightarrow> coalesce_result" where
  "mark_eliminated i c =
     (let moves = eliminated_moves c;
          moves = (if length moves \<le> i then moves @ replicate (i + 1 - length moves) False else moves)
      in if \<not> moves ! i
         then c\<lparr>eliminated_moves := moves[i := True], eliminated_count := eliminated_count c + 1\<rparr>
         else c\<lparr>eliminated_moves := moves\<rparr>)"

partial_function (option) find_root :: "nat option list \<Rightarrow> nat \<Rightarrow> (nat \<times> nat option list) option" where
  "find_root parent v =
     (if length parent \<le> v then Some (v, parent)
      else case parent ! v of
        None \<Rightarrow> Some (v, parent)
      | Some p \<Rightarrow> Option.bind (find_root parent p) (\<lambda>(root, parent). Some (root, parent[v := Some root])))"

declare find_root.simps [code]

type_synonym 'r coalesce_state = "coalesce_result \<times> nat option list \<times> 'r liveness_info"

definition coalesce_step :: "coalesce_candidate \<Rightarrow> 'r coalesce_state \<Rightarrow> 'r coalesce_state option" where
  "coalesce_step c st =
     (case st of (res, parent, l) \<Rightarrow>
        Option.bind (find_root parent (cand_dst c)) (\<lambda>(dst, parent).
        Option.bind (find_root parent (cand_src c)) (\<lambda>(src, parent).
          if dst = src then Some (mark_eliminated (cand_inst c) res, parent, l)
          else if class_of_vreg l dst \<noteq> class_of_vreg l src then Some (res, parent, l)
          else case (range_of l dst, range_of l src) of
            (Some dst_range, Some src_range) \<Rightarrow>
              if end_at src_range \<le> cand_inst c \<and> cand_inst c \<le> start_at dst_range then
                Option.bind (put_at parent dst (Some src)) (\<lambda>parent.
                Option.bind (put_at (coalesce_map res) dst (Some src)) (\<lambda>m.
                Option.bind (merge_into dst src l) (\<lambda>l.
                  Some (mark_eliminated (cand_inst c) (res\<lparr>coalesce_map := m\<rparr>), parent, l))))
              else Some (res, parent, l)
          | _ \<Rightarrow> Some (res, parent, l))))"

definition coalesce :: "coalesce_candidate list \<Rightarrow> 'r liveness_info \<Rightarrow> (coalesce_result \<times> 'r liveness_info) option" where
  "coalesce candidates l =
     (let n = length (ranges l)
      in if 2 ^ 32 - 1 < n then None
         else Option.bind (fold_option coalesce_step candidates (with_vreg_count n, replicate n None, l))
           (\<lambda>(res, _, l). Some (res, l)))"

section \<open>Allocations and spill slots\<close>

datatype remat_op = Const32 int | Const64 int | StringPtr nat | StringLen nat | StringCap nat

datatype 'r allocation = Register 'r | Spill int | Rematerialize remat_op

record spill_allocator =
  spill_slots :: "nat option list"
  min_slot_end :: "nat option"
  base_slots :: nat

definition new_spill_allocator :: "nat \<Rightarrow> spill_allocator" where
  "new_spill_allocator existing_locals = \<lparr>spill_slots = [], min_slot_end = None, base_slots = existing_locals\<rparr>"

definition offset_for_slot :: "spill_allocator \<Rightarrow> nat \<Rightarrow> int" where
  "offset_for_slot s slot_index =
     (let one_based = min (min (base_slots s + slot_index) (2 ^ 64 - 1) + 1) (2 ^ 64 - 1);
          bytes = min (one_based * 8) (2 ^ 64 - 1)
      in if bytes < 2 ^ 31 then - int bytes else - (2 ^ 31))"

definition least_end :: "nat option list \<Rightarrow> nat option" where
  "least_end xs = foldl (\<lambda>acc x. case acc of None \<Rightarrow> Some x | Some a \<Rightarrow> Some (min a x)) None
     (map the (filter (\<lambda>x. x \<noteq> None) xs))"

definition slot_is_dead :: "nat \<Rightarrow> nat option \<Rightarrow> bool" where
  "slot_is_dead start slot = (case slot of Some e \<Rightarrow> e < start | None \<Rightarrow> False)"

definition allocate_slot :: "nat \<Rightarrow> nat \<Rightarrow> spill_allocator \<Rightarrow> int \<times> spill_allocator" where
  "allocate_slot start end_idx s =
     (let reusable = (if (case min_slot_end s of Some m \<Rightarrow> m < start | None \<Rightarrow> False)
                      then find (\<lambda>i. slot_is_dead start (spill_slots s ! i)) [0..<length (spill_slots s)]
                      else None)
      in case reusable of
           Some i \<Rightarrow>
             let ss = (spill_slots s)[i := Some end_idx]
             in (offset_for_slot s i, s\<lparr>spill_slots := ss, min_slot_end := least_end ss\<rparr>)
         | None \<Rightarrow>
             (offset_for_slot s (length (spill_slots s)),
              s\<lparr>spill_slots := spill_slots s @ [Some end_idx],
                min_slot_end := Some (case min_slot_end s of Some m \<Rightarrow> min m end_idx | None \<Rightarrow> end_idx)\<rparr>))"

definition num_slots :: "spill_allocator \<Rightarrow> nat" where
  "num_slots s = length (spill_slots s)"

section \<open>Choosing a register\<close>

type_synonym 'r active = "(nat \<times> 'r \<times> nat) list"

definition is_used :: "'r active \<Rightarrow> 'r \<Rightarrow> bool" where
  "is_used active candidate = list_ex (\<lambda>(_, reg, _). reg = candidate) active"

definition pick_free_register ::
  "'r save_classes \<Rightarrow> 'r tracked_clobbers list \<Rightarrow> 'r active \<Rightarrow> 'r list \<Rightarrow> live_range \<Rightarrow> bool \<Rightarrow> 'r option" where
  "pick_free_register save index active sunk r off_diverging_paths =
     or_else (find (\<lambda>reg. reg \<in> set sunk \<and> \<not> is_used active reg) (compact_callee_saved save))
       (or_else (find (\<lambda>reg. \<not> is_used active reg \<and> \<not> is_clobbered_during index reg r off_diverging_paths) (caller_saved save))
         (find (\<lambda>reg. \<not> is_used active reg) (callee_saved save)))"

definition register_survives_range ::
  "'r save_classes \<Rightarrow> 'r tracked_clobbers list \<Rightarrow> 'r \<Rightarrow> live_range \<Rightarrow> bool \<Rightarrow> bool" where
  "register_survives_range save index reg r off_diverging_paths \<longleftrightarrow>
     is_callee_saved save reg \<or> \<not> is_clobbered_during index reg r off_diverging_paths"

record 'r scan_inputs =
  vregs_by_start :: "(nat \<times> live_range) list"
  clobber_index :: "'r tracked_clobbers list"
  divergence_index :: "nat list"

definition new_scan_inputs :: "nat \<Rightarrow> 'r liveness_info \<Rightarrow> 'r register_file \<Rightarrow> 'r scan_inputs" where
  "new_scan_inputs vreg_count l file =
     \<lparr>vregs_by_start = sort_key (\<lambda>(_, r). start_at r)
        (concat (map (\<lambda>v. case range_of l v of Some r \<Rightarrow> [(v, r)] | None \<Rightarrow> []) [0..<vreg_count])),
      clobber_index = build_clobber_index l (caller_saved_flattened file),
      divergence_index = build_divergence_index l\<rparr>"

definition reuse_pass_could_differ :: "'r register_file \<Rightarrow> 'r list \<Rightarrow> bool" where
  "reuse_pass_could_differ file baseline_saved =
     list_ex (\<lambda>class. caller_saved (file class) \<noteq> []
       \<and> list_ex (\<lambda>reg. reg \<in> set baseline_saved) (compact_callee_saved (file class))) class_all"

end
