(* ===== verification/Linear_Scan.thy ===== *)
theory Linear_Scan
  imports Regalloc
begin

text \<open>
  The linear scan of \<open>rue-codegen/src/regalloc.rs\<close>: one pass over the intervals in the order of
  their starts, with and without rematerialisation, and the two passes of which the better one is
  kept.

  The source writes the pass twice, once for each variant; so does the model.  The lists of
  intervals that hold a register are a function of the register class.
\<close>

section \<open>The state of a pass\<close>

record 'r scan_state =
  assigned :: "'r allocation option list"
  slots :: spill_allocator
  saved :: "'r list"
  holders :: "reg_class \<Rightarrow> 'r active"
  spilled :: "nat list"

definition new_scan_state :: "nat \<Rightarrow> nat \<Rightarrow> 'r scan_state" where
  "new_scan_state vreg_count existing_locals =
     \<lparr>assigned = replicate vreg_count None, slots = new_spill_allocator existing_locals, saved = [],
      holders = (\<lambda>_. []), spilled = []\<rparr>"

definition expire_old :: "nat \<Rightarrow> 'r active \<Rightarrow> 'r active" where
  "expire_old start act = filter (\<lambda>(_, _, e). start \<le> e) act"

definition hold :: "reg_class \<Rightarrow> nat \<Rightarrow> 'r \<Rightarrow> nat \<Rightarrow> 'r scan_state \<Rightarrow> 'r scan_state option" where
  "hold class v reg end_idx st =
     Option.bind (put_at (assigned st) v (Some (Register reg))) (\<lambda>as.
       Some (st\<lparr>assigned := as, holders := (holders st)(class := holders st class @ [(v, reg, end_idx)])\<rparr>))"

definition record_save :: "'r save_classes \<Rightarrow> 'r \<Rightarrow> bool \<Rightarrow> 'r scan_state \<Rightarrow> 'r scan_state" where
  "record_save save reg confined st =
     (if is_callee_saved save reg \<and> \<not> confined \<and> reg \<notin> set (saved st)
      then st\<lparr>saved := saved st @ [reg]\<rparr> else st)"

definition spill_to_slot :: "nat \<Rightarrow> nat \<Rightarrow> nat \<Rightarrow> 'r scan_state \<Rightarrow> 'r scan_state option" where
  "spill_to_slot v start end_idx st =
     (case allocate_slot start end_idx (slots st) of (offset, slots') \<Rightarrow>
        Option.bind (put_at (assigned st) v (Some (Spill offset))) (\<lambda>as.
          Some (st\<lparr>assigned := as, slots := slots', spilled := spilled st @ [v]\<rparr>)))"

definition remaining_priority :: "cost_model \<Rightarrow> loop_info \<Rightarrow> nat \<Rightarrow> nat \<Rightarrow> nat" where
  "remaining_priority m loops start end_idx =
     spill_priority m (max_depth_in_range loops start end_idx) (end_idx - start)"

section \<open>One interval\<close>

definition weigh_holder ::
  "'r save_classes \<Rightarrow> 'r tracked_clobbers list \<Rightarrow> cost_model \<Rightarrow> loop_info \<Rightarrow> live_range \<Rightarrow> bool
     \<Rightarrow> nat option \<times> nat \<Rightarrow> nat \<times> nat \<times> 'r \<times> nat \<Rightarrow> nat option \<times> nat" where
  "weigh_holder save index m loops r off best row =
     (case best of (best_idx, best_priority) \<Rightarrow> case row of (i, _, reg, e) \<Rightarrow>
        if \<not> register_survives_range save index reg r off then best
        else let priority = remaining_priority m loops (start_at r) e
             in if priority < best_priority then (Some i, priority) else best)"

definition scan_step ::
  "'r liveness_info \<Rightarrow> 'r register_file \<Rightarrow> cost_model \<Rightarrow> loop_info \<Rightarrow> 'r scan_inputs \<Rightarrow> 'r list
     \<Rightarrow> nat \<times> live_range \<Rightarrow> 'r scan_state \<Rightarrow> 'r scan_state option" where
  "scan_step l file m loops inputs sunk row st =
     (case row of (v, r) \<Rightarrow>
        let class = class_of_vreg l v;
            save = file class;
            act = expire_old (start_at r) (holders st class);
            st = st\<lparr>holders := (holders st)(class := act)\<rparr>;
            off = (\<not> has_diverging_use l v);
            confined = range_diverges (divergence_index inputs) r
        in case pick_free_register save (clobber_index inputs) act sunk r off of
          Some reg \<Rightarrow> map_option (record_save save reg confined) (hold class v reg (end_at r) st)
        | None \<Rightarrow>
          (case fst (foldl (weigh_holder save (clobber_index inputs) m loops r off)
              (None, remaining_priority m loops (start_at r) (end_at r)) (enumerate 0 act)) of
            Some idx \<Rightarrow>
              (case act ! idx of (evicted, freed, evicted_end) \<Rightarrow>
                 let st = st\<lparr>holders := (holders st)(class := take idx act @ drop (idx + 1) act)\<rparr>
                 in Option.bind (range_of l evicted) (\<lambda>q.
                    Option.bind (spill_to_slot evicted (start_at q) evicted_end st)
                      (hold class v freed (end_at r))))
          | None \<Rightarrow> spill_to_slot v (start_at r) (end_at r) st))"

section \<open>One interval, with rematerialisation\<close>

definition can_remat :: "remat_op option list \<Rightarrow> nat \<Rightarrow> remat_op option" where
  "can_remat infos v = (if v < length infos then infos ! v else None)"

definition remat_priority :: "remat_op option list \<Rightarrow> cost_model \<Rightarrow> loop_info \<Rightarrow> nat \<Rightarrow> nat \<Rightarrow> nat \<Rightarrow> nat" where
  "remat_priority infos m loops v start end_idx =
     (if can_remat infos v \<noteq> None then 0 else remaining_priority m loops start end_idx)"

definition should_replace :: "bool \<Rightarrow> bool \<Rightarrow> nat \<Rightarrow> nat \<Rightarrow> bool" where
  "should_replace active_is_remat best_is_remat active_priority best_priority =
     (if active_is_remat \<and> \<not> best_is_remat then True
      else if \<not> active_is_remat \<and> best_is_remat then False
      else active_priority < best_priority)"

definition weigh_holder_remat ::
  "remat_op option list \<Rightarrow> 'r save_classes \<Rightarrow> 'r tracked_clobbers list \<Rightarrow> cost_model \<Rightarrow> loop_info \<Rightarrow> live_range \<Rightarrow> bool
     \<Rightarrow> nat option \<times> nat \<times> bool \<Rightarrow> nat \<times> nat \<times> 'r \<times> nat \<Rightarrow> nat option \<times> nat \<times> bool" where
  "weigh_holder_remat infos save index m loops r off best row =
     (case best of (best_idx, best_priority, best_is_remat) \<Rightarrow> case row of (i, u, reg, e) \<Rightarrow>
        if \<not> register_survives_range save index reg r off then best
        else let is_remat = (can_remat infos u \<noteq> None);
                 priority = remat_priority infos m loops u (start_at r) e
             in if should_replace is_remat best_is_remat priority best_priority
                then (Some i, priority, is_remat) else best)"

definition displace ::
  "remat_op option list \<Rightarrow> nat \<Rightarrow> nat option \<Rightarrow> nat \<Rightarrow> 'r scan_state \<Rightarrow> 'r scan_state option" where
  "displace infos v start end_idx st =
     (case can_remat infos v of
        Some op \<Rightarrow> Option.bind (put_at (assigned st) v (Some (Rematerialize op))) (\<lambda>as. Some (st\<lparr>assigned := as\<rparr>))
      | None \<Rightarrow> Option.bind start (\<lambda>start. spill_to_slot v start end_idx st))"

definition scan_step_with_remat ::
  "remat_op option list \<Rightarrow> 'r liveness_info \<Rightarrow> 'r register_file \<Rightarrow> cost_model \<Rightarrow> loop_info \<Rightarrow> 'r scan_inputs \<Rightarrow> 'r list
     \<Rightarrow> nat \<times> live_range \<Rightarrow> 'r scan_state \<Rightarrow> 'r scan_state option" where
  "scan_step_with_remat infos l file m loops inputs sunk row st =
     (case row of (v, r) \<Rightarrow>
        let class = class_of_vreg l v;
            save = file class;
            act = expire_old (start_at r) (holders st class);
            st = st\<lparr>holders := (holders st)(class := act)\<rparr>;
            off = (\<not> has_diverging_use l v);
            confined = range_diverges (divergence_index inputs) r
        in case pick_free_register save (clobber_index inputs) act sunk r off of
          Some reg \<Rightarrow> map_option (record_save save reg confined) (hold class v reg (end_at r) st)
        | None \<Rightarrow>
          (case fst (foldl (weigh_holder_remat infos save (clobber_index inputs) m loops r off)
              (None, remat_priority infos m loops v (start_at r) (end_at r), can_remat infos v \<noteq> None)
              (enumerate 0 act)) of
            Some idx \<Rightarrow>
              (case act ! idx of (evicted, freed, evicted_end) \<Rightarrow>
                 let st = st\<lparr>holders := (holders st)(class := take idx act @ drop (idx + 1) act)\<rparr>
                 in Option.bind (displace infos evicted (map_option start_at (range_of l evicted)) evicted_end st)
                      (hold class v freed (end_at r)))
          | None \<Rightarrow> displace infos v (Some (start_at r)) (end_at r) st))"

section \<open>A pass\<close>

record 'r regalloc_debug_info =
  rd_live_ranges :: "(nat \<times> nat \<times> nat) list"
  rd_interference :: "(nat \<times> nat) list"
  rd_allocations :: "(nat \<times> 'r allocation) list"
  rd_spills :: "nat list"
  rd_callee_saved_used :: "'r list"

type_synonym 'r scan_result = "'r allocation option list \<times> nat \<times> 'r list \<times> 'r regalloc_debug_info"

definition debug_live_ranges :: "nat \<Rightarrow> 'r liveness_info \<Rightarrow> (nat \<times> nat \<times> nat) list" where
  "debug_live_ranges vreg_count l =
     concat (map (\<lambda>v. case range_of l v of Some r \<Rightarrow> [(v, start_at r, end_at r)] | None \<Rightarrow> []) [0..<vreg_count])"

definition debug_interference :: "(nat \<times> live_range) list \<Rightarrow> (nat \<times> nat) list" where
  "debug_interference rows =
     concat (map (\<lambda>i. concat (map (\<lambda>j. case rows ! i of (v1, r1) \<Rightarrow> case rows ! j of (v2, r2) \<Rightarrow>
         if overlaps r1 r2 then [(v1, v2)] else []) [i + 1..<length rows])) [0..<length rows])"

definition debug_allocations :: "'r allocation option list \<Rightarrow> (nat \<times> 'r allocation) list" where
  "debug_allocations as = concat (map (\<lambda>(i, a). case a of Some a \<Rightarrow> [(i, a)] | None \<Rightarrow> []) (enumerate 0 as))"

definition scan_result_of ::
  "nat \<Rightarrow> 'r liveness_info \<Rightarrow> 'r scan_inputs \<Rightarrow> bool \<Rightarrow> 'r scan_state \<Rightarrow> 'r scan_result" where
  "scan_result_of vreg_count l inputs collect_debug st =
     (assigned st, num_slots (slots st), saved st,
      \<lparr>rd_live_ranges = (if collect_debug then debug_live_ranges vreg_count l else []),
       rd_interference = (if collect_debug then debug_interference (vregs_by_start inputs) else []),
       rd_allocations = (if collect_debug then debug_allocations (assigned st) else []),
       rd_spills = spilled st,
       rd_callee_saved_used = (if collect_debug then saved st else [])\<rparr>)"

definition scan_intervals ::
  "nat \<Rightarrow> 'r liveness_info \<Rightarrow> 'r register_file \<Rightarrow> nat \<Rightarrow> bool \<Rightarrow> cost_model \<Rightarrow> loop_info
     \<Rightarrow> 'r scan_inputs \<Rightarrow> 'r list \<Rightarrow> 'r scan_result option" where
  "scan_intervals vreg_count l file existing_locals collect_debug m loops inputs sunk =
     Option.bind (fold_option (scan_step l file m loops inputs sunk) (vregs_by_start inputs)
         (new_scan_state vreg_count existing_locals))
       (\<lambda>st. Some (scan_result_of vreg_count l inputs collect_debug st))"

definition scan_intervals_with_remat ::
  "nat \<Rightarrow> 'r liveness_info \<Rightarrow> 'r register_file \<Rightarrow> nat \<Rightarrow> bool \<Rightarrow> cost_model \<Rightarrow> loop_info
     \<Rightarrow> remat_op option list \<Rightarrow> 'r scan_inputs \<Rightarrow> 'r list \<Rightarrow> 'r scan_result option" where
  "scan_intervals_with_remat vreg_count l file existing_locals collect_debug m loops infos inputs sunk =
     Option.bind (fold_option (scan_step_with_remat infos l file m loops inputs sunk) (vregs_by_start inputs)
         (new_scan_state vreg_count existing_locals))
       (\<lambda>st. Some (scan_result_of vreg_count l inputs collect_debug st))"

section \<open>Two passes\<close>

definition registers_held :: "'r allocation option list \<Rightarrow> nat" where
  "registers_held as = length (filter (\<lambda>a. case a of Some (Register _) \<Rightarrow> True | _ \<Rightarrow> False) as)"

definition accept_reuse_pass :: "'r scan_result \<Rightarrow> 'r scan_result \<Rightarrow> bool" where
  "accept_reuse_pass baseline reuse =
     (case baseline of (baseline_allocation, baseline_spills, baseline_saved, _) \<Rightarrow>
      case reuse of (reuse_allocation, reuse_spills, reuse_saved, _) \<Rightarrow>
        list_all (\<lambda>reg. reg \<in> set baseline_saved) reuse_saved
        \<and> registers_held baseline_allocation \<le> registers_held reuse_allocation
        \<and> reuse_spills \<le> baseline_spills)"

definition linear_scan_impl ::
  "nat \<Rightarrow> 'r liveness_info \<Rightarrow> 'r register_file \<Rightarrow> nat \<Rightarrow> bool \<Rightarrow> cost_model \<Rightarrow> loop_info \<Rightarrow> 'r scan_result option" where
  "linear_scan_impl vreg_count l file existing_locals collect_debug m loops =
     (let inputs = new_scan_inputs vreg_count l file
      in Option.bind (scan_intervals vreg_count l file existing_locals collect_debug m loops inputs []) (\<lambda>baseline.
         if \<not> reuse_pass_could_differ file (fst (snd (snd baseline))) then Some baseline
         else Option.bind (scan_intervals vreg_count l file existing_locals collect_debug m loops inputs
             (fst (snd (snd baseline)))) (\<lambda>reuse.
           Some (if accept_reuse_pass baseline reuse then reuse else baseline))))"

definition linear_scan_impl_with_remat ::
  "nat \<Rightarrow> 'r liveness_info \<Rightarrow> 'r register_file \<Rightarrow> nat \<Rightarrow> bool \<Rightarrow> cost_model \<Rightarrow> loop_info \<Rightarrow> remat_op option list
     \<Rightarrow> 'r scan_result option" where
  "linear_scan_impl_with_remat vreg_count l file existing_locals collect_debug m loops infos =
     (let inputs = new_scan_inputs vreg_count l file
      in Option.bind (scan_intervals_with_remat vreg_count l file existing_locals collect_debug m loops infos inputs [])
        (\<lambda>baseline.
         if \<not> reuse_pass_could_differ file (fst (snd (snd baseline))) then Some baseline
         else Option.bind (scan_intervals_with_remat vreg_count l file existing_locals collect_debug m loops infos inputs
             (fst (snd (snd baseline)))) (\<lambda>reuse.
           Some (if accept_reuse_pass baseline reuse then reuse else baseline))))"

section \<open>Entry points\<close>

definition flat_cost_model :: cost_model where
  "flat_cost_model = default_cost_model\<lparr>use_loop_aware_spilling := False\<rparr>"

definition without_debug :: "'r scan_result \<Rightarrow> 'r allocation option list \<times> nat \<times> 'r list" where
  "without_debug res = (case res of (allocation, num_spills, used, _) \<Rightarrow> (allocation, num_spills, used))"

definition linear_scan ::
  "nat \<Rightarrow> 'r liveness_info \<Rightarrow> 'r list \<Rightarrow> nat \<Rightarrow> ('r allocation option list \<times> nat \<times> 'r list) option" where
  "linear_scan vreg_count l regs existing_locals =
     map_option without_debug (linear_scan_impl vreg_count l (gp_only (callee_saved_only regs)) existing_locals
       False flat_cost_model (no_loops (instruction_count l)))"

definition linear_scan_with_cost_model ::
  "nat \<Rightarrow> 'r liveness_info \<Rightarrow> 'r list \<Rightarrow> nat \<Rightarrow> cost_model \<Rightarrow> loop_info
     \<Rightarrow> ('r allocation option list \<times> nat \<times> 'r list) option" where
  "linear_scan_with_cost_model vreg_count l regs existing_locals m loops =
     map_option without_debug (linear_scan_impl vreg_count l (gp_only (callee_saved_only regs)) existing_locals
       False m loops)"

definition linear_scan_with_remat ::
  "nat \<Rightarrow> 'r liveness_info \<Rightarrow> 'r list \<Rightarrow> nat \<Rightarrow> remat_op option list
     \<Rightarrow> ('r allocation option list \<times> nat \<times> 'r list) option" where
  "linear_scan_with_remat vreg_count l regs existing_locals infos =
     map_option without_debug (linear_scan_impl_with_remat vreg_count l (gp_only (callee_saved_only regs)) existing_locals
       False flat_cost_model (no_loops (instruction_count l)) infos)"

definition linear_scan_with_debug ::
  "nat \<Rightarrow> 'r liveness_info \<Rightarrow> 'r list \<Rightarrow> nat \<Rightarrow> 'r scan_result option" where
  "linear_scan_with_debug vreg_count l regs existing_locals =
     linear_scan_impl vreg_count l (gp_only (callee_saved_only regs)) existing_locals
       True flat_cost_model (no_loops (instruction_count l))"

end
