(* ===== verification/Clobber_Index.thy ===== *)
theory Clobber_Index
  imports Regalloc
begin

text \<open>
  The two indexes of the allocator answer questions about every instruction of a range from prefix
  counts.  The locale says what a table of prefix counts is and what it can answer; it is
  interpreted on the counts of clobbers, of clobbers on returning paths, and of instructions that
  do not diverge.
\<close>

definition count_below :: "(nat \<Rightarrow> bool) \<Rightarrow> nat \<Rightarrow> nat" where
  "count_below P i = length (filter P [0..<i])"

lemma count_below_Suc [simp]: "count_below P (Suc i) = count_below P i + (if P i then 1 else 0)"
  by (simp add: count_below_def)

lemma count_below_mono: "i \<le> j \<Longrightarrow> count_below P i \<le> count_below P j"
  by (induction rule: dec_induct) auto

lemma count_below_less: "count_below P i < count_below P j \<longleftrightarrow> (\<exists>k. i \<le> k \<and> k < j \<and> P k)"
proof (cases "i \<le> j")
  case True
  then show ?thesis
  proof (induction rule: dec_induct)
    case (step j)
    then show ?case using count_below_mono[of i j P] by (auto simp: less_Suc_eq)
  qed simp
next
  case False
  then show ?thesis using count_below_mono[of j i P] by auto
qed

locale prefix_counts =
  fixes P :: "nat \<Rightarrow> bool" and n :: nat and xs :: "nat list"
  assumes table: "xs = map (count_below P) [0..<Suc n]"
begin

lemma limit: "xs \<noteq> []" "length xs - Suc 0 = n"
  unfolding table by simp_all

lemma entry: "i \<le> n \<Longrightarrow> xs ! i = count_below P i"
  unfolding table by (simp del: upt_Suc)

lemma some_in_range:
  "xs ! min s (length xs - Suc 0) < xs ! min (Suc e) (length xs - Suc 0) \<longleftrightarrow> (\<exists>i. s \<le> i \<and> i \<le> e \<and> i < n \<and> P i)"
proof -
  have "min s n \<le> k \<and> k < min (Suc e) n \<longleftrightarrow> s \<le> k \<and> k \<le> e \<and> k < n" for k by auto
  then show ?thesis unfolding limit by (simp add: entry count_below_less flip: conj_assoc)
qed

lemma none_in_range:
  assumes "s \<le> e"
  shows "xs ! min (Suc e) (length xs - Suc 0) = xs ! min s (length xs - Suc 0) \<longleftrightarrow> (\<forall>i. s \<le> i \<and> i \<le> e \<and> i < n \<longrightarrow> \<not> P i)"
proof -
  have "xs ! min s n \<le> xs ! min (Suc e) n" using assms by (simp add: entry count_below_mono)
  then show ?thesis using some_in_range[of s e] unfolding limit by auto
qed

end

definition clobber_hit :: "'r liveness_info \<Rightarrow> 'r \<Rightarrow> nat \<Rightarrow> bool" where
  "clobber_hit l reg i \<longleftrightarrow> \<not> is_non_returning l i \<and> reg \<in> set (clobbers_at l ! i)"

lemma counts_so_far:
  "foldl (count_clobber l both reg) (([0], if both then [0] else []), 0, 0) [0..<n] =
     ((map (count_below (clobber_hit l reg)) [0..<Suc n],
       if both then map (count_below (\<lambda>i. clobber_hit l reg i \<and> \<not> diverges_at l i)) [0..<Suc n] else []),
      count_below (clobber_hit l reg) n, count_below (\<lambda>i. clobber_hit l reg i \<and> \<not> diverges_at l i) n)"
  by (induction n) (auto simp: count_clobber_def clobber_hit_def count_below_def Let_def)

lemma returning_so_far:
  "foldl (\<lambda>(xs, running) idx.
         let running = (if \<not> diverges_at l idx then running + 1 else running) in (xs @ [running], running))
     ([0], 0) [0..<n]
   = (map (count_below (\<lambda>i. \<not> diverges_at l i)) [0..<Suc n], count_below (\<lambda>i. \<not> diverges_at l i) n)"
  by (induction n) (auto simp: count_below_def Let_def)

interpretation every: prefix_counts "clobber_hit l reg" "length (clobbers_at l)" "fst (clobber_counts l both reg)"
  for l reg both
  by unfold_locales (simp only: clobber_counts_def counts_so_far fst_conv)

interpretation returning: prefix_counts "\<lambda>i. clobber_hit l reg i \<and> \<not> diverges_at l i" "length (clobbers_at l)"
    "snd (clobber_counts l True reg)" for l reg
  using counts_so_far[of l True reg "length (clobbers_at l)"]
  by unfold_locales (simp add: clobber_counts_def del: upt_Suc)

interpretation alive: prefix_counts "\<lambda>i. \<not> diverges_at l i" "instruction_count l" "returning_counts l" for l
  by unfold_locales (simp add: returning_counts_def returning_so_far del: upt_Suc)

section \<open>What the indexes answer\<close>

text \<open>An instruction of the range destroys the register, and the interval cares about it.\<close>

definition clobbers_range :: "'r liveness_info \<Rightarrow> 'r \<Rightarrow> live_range \<Rightarrow> bool \<Rightarrow> bool" where
  "clobbers_range l reg r off \<longleftrightarrow> (\<exists>i. start_at r \<le> i \<and> i \<le> end_at r \<and> i < length (clobbers_at l)
     \<and> clobber_hit l reg i \<and> \<not> (off \<and> diverges_at l i))"

lemma find_tracked:
  assumes "reg \<in> set tracked" "\<And>reg. tracked_reg (f reg) = reg"
  shows "find (\<lambda>e. tracked_reg e = reg) (map f tracked) = Some (f reg)"
  using assms(1) by (induction tracked) (auto simp: assms(2))

lemma clobbered_iff:
  assumes "reg \<in> set tracked"
  shows "is_clobbered_during (build_clobber_index l tracked) reg r off \<longleftrightarrow> clobbers_range l reg r off"
proof -
  let ?n = "length (clobbers_at l)"
  define both where "both = list_ex (\<lambda>idx. diverges_at l idx \<and> \<not> is_non_returning l idx \<and> clobbers_at l ! idx \<noteq> []) [0..<?n]"
  have found: "find (\<lambda>e. tracked_reg e = reg) (build_clobber_index l tracked)
      = Some \<lparr>tracked_reg = reg, all_counts = fst (clobber_counts l both reg), returning_only = snd (clobber_counts l both reg)\<rparr>"
    using find_tracked[OF assms, where f = "\<lambda>reg. case clobber_counts l both reg of
        (xs, ys) \<Rightarrow> \<lparr>tracked_reg = reg, all_counts = xs, returning_only = ys\<rparr>"]
    by (simp add: build_clobber_index_def both_def[symmetric] case_prod_unfold Let_def)
  show ?thesis
  proof (cases both)
    case True
    then show ?thesis using returning.limit(1)[of l reg]
      by (auto simp: is_clobbered_during_def found clobbers_range_def Let_def every.some_in_range returning.some_in_range)
  next
    case False
    then have none: "snd (clobber_counts l both reg) = []"
      using counts_so_far[of l False reg ?n] by (simp add: clobber_counts_def del: upt_Suc)
    have "\<not> diverges_at l i" if "i < ?n" "clobber_hit l reg i" for i
      using False that by (auto simp: both_def clobber_hit_def list_ex_iff)
    then show ?thesis
      by (auto simp: is_clobbered_during_def found none clobbers_range_def Let_def every.some_in_range)
  qed
qed

lemma range_diverges_iff:
  assumes "start_at r \<le> end_at r"
  shows "range_diverges (build_divergence_index l) r \<longleftrightarrow> True \<in> set (diverging_at l)
    \<and> (\<forall>i. start_at r \<le> i \<and> i \<le> end_at r \<and> i < instruction_count l \<longrightarrow> diverges_at l i)"
proof (cases "True \<in> set (diverging_at l)")
  case True
  then have "list_ex (\<lambda>d. d) (diverging_at l)" by (auto simp: list_ex_iff)
  then show ?thesis using alive.none_in_range[OF assms, of l] alive.limit(1)[of l] True
    by (simp add: range_diverges_def build_divergence_index_def Let_def)
next
  case False
  then have "\<not> list_ex (\<lambda>d. d) (diverging_at l)" by (auto simp: list_ex_iff)
  then show ?thesis using False by (simp add: range_diverges_def build_divergence_index_def)
qed

end
