(* ===== verification/Scan_Invariant.thy ===== *)
theory Scan_Invariant
  imports Linear_Scan Clobber_Index
begin

text \<open>
  What holds after every interval of a linear scan: an interval is assigned once it has been
  scanned, a register is shared only by intervals of which one ended before the other started, and
  so is a spill slot.
\<close>

section \<open>What the scan relies on\<close>

definition class_regs :: "'r save_classes \<Rightarrow> 'r set" where
  "class_regs save = set (caller_saved save) \<union> set (callee_saved save)"

definition file_ok :: "'r register_file \<Rightarrow> bool" where
  "file_ok file \<longleftrightarrow> class_regs (file Gp) \<inter> class_regs (file Fp) = {}
     \<and> (\<forall>c. set (compact_callee_saved (file c)) \<subseteq> set (callee_saved (file c)))"

lemma classes_disjoint: "file_ok file \<Longrightarrow> reg \<in> class_regs (file c) \<Longrightarrow> reg \<in> class_regs (file d) \<Longrightarrow> c = d"
  by (cases c; cases d) (auto simp: file_ok_def)

definition ranges_ok :: "'r liveness_info \<Rightarrow> bool" where
  "ranges_ok l \<longleftrightarrow> (\<forall>v r. range_of l v = Some r \<longrightarrow> start_at r \<le> end_at r)"

definition tracks_file :: "'r liveness_info \<Rightarrow> 'r register_file \<Rightarrow> 'r scan_inputs \<Rightarrow> bool" where
  "tracks_file l file inputs \<longleftrightarrow> clobber_index inputs = build_clobber_index l (caller_saved_flattened file)
     \<and> divergence_index inputs = build_divergence_index l"

lemma tracked_flattened: "reg \<in> set (caller_saved (file c)) \<Longrightarrow> reg \<in> set (caller_saved_flattened file)"
  by (cases c) (auto simp: caller_saved_flattened_def class_all_def)

text \<open>A register that can hold the interval of a virtual register.\<close>

definition can_hold :: "'r liveness_info \<Rightarrow> 'r register_file \<Rightarrow> nat \<Rightarrow> live_range \<Rightarrow> 'r \<Rightarrow> bool" where
  "can_hold l file v r reg \<longleftrightarrow> reg \<in> class_regs (file (class_of_vreg l v))
     \<and> (reg \<in> set (callee_saved (file (class_of_vreg l v))) \<or> \<not> clobbers_range l reg r (\<not> has_diverging_use l v))"

lemma pick_result:
  assumes "file_ok file" "tracks_file l file inputs"
    and "pick_free_register (file (class_of_vreg l v)) (clobber_index inputs) act sunk r (\<not> has_diverging_use l v) = Some reg"
  shows "can_hold l file v r reg \<and> \<not> is_used act reg"
  using assms tracked_flattened[of _ "file" "class_of_vreg l v"]
  by (auto simp: pick_free_register_def or_else_Some can_hold_def class_regs_def file_ok_def tracks_file_def find_Some_iff
      clobbered_iff dest!: nth_mem)

lemma survives_result:
  assumes "tracks_file l file inputs" "reg \<in> class_regs (file (class_of_vreg l v))"
    and "register_survives_range (file (class_of_vreg l v)) (clobber_index inputs) reg r (\<not> has_diverging_use l v)"
  shows "can_hold l file v r reg"
  using assms tracked_flattened[of reg "file" "class_of_vreg l v"]
  by (auto simp: can_hold_def register_survives_range_def is_callee_saved_def class_regs_def tracks_file_def clobbered_iff)

lemma weighed_result:
  assumes "fst (foldl (weigh_holder_remat infos save index m loops r off) (None, p, b) (enumerate 0 act)) = Some idx"
  shows "idx < length act \<and> register_survives_range save index (fst (snd (act ! idx))) r off"
proof -
  have "\<forall>row \<in> set rows. fst row < length act \<and> act ! fst row = snd row \<Longrightarrow>
      fst (foldl (weigh_holder_remat infos save index m loops r off) best rows) = Some idx \<Longrightarrow>
      fst best = Some idx \<or> idx < length act \<and> register_survives_range save index (fst (snd (act ! idx))) r off"
    for rows best
  proof (induction rows arbitrary: best)
    case (Cons row rows)
    let ?next = "weigh_holder_remat infos save index m loops r off best row"
    have "fst ?next = Some idx \<or> idx < length act \<and> register_survives_range save index (fst (snd (act ! idx))) r off"
      using Cons by (intro Cons.IH) auto
    then show ?case using Cons.prems(1)
      by (cases best; cases row) (auto simp: weigh_holder_remat_def Let_def split: if_splits)
  qed simp
  from this[of "enumerate 0 act" "(None, p, b)"] show ?thesis
    using assms by (auto simp: in_set_enumerate_eq)
qed

section \<open>Spill slots\<close>

lemma base_allocate [simp]: "base_slots (snd (allocate_slot start e s)) = base_slots s"
  by (simp add: allocate_slot_def Let_def split: option.split)

lemma allocate_slot_result:
  assumes "allocate_slot start e s = (offset, s')"
  shows "\<exists>i. offset = offset_for_slot s i \<and> base_slots s' = base_slots s
    \<and> (i < length (spill_slots s) \<and> spill_slots s' = (spill_slots s)[i := Some e]
          \<and> (\<exists>old. spill_slots s ! i = Some old \<and> old < start)
       \<or> i = length (spill_slots s) \<and> spill_slots s' = spill_slots s @ [Some e])"
  using assms
  by (auto simp: allocate_slot_def slot_is_dead_def Let_def find_Some_iff split: option.splits if_splits)

definition slot_cell :: "nat \<Rightarrow> nat \<Rightarrow> int" where
  "slot_cell base i = offset_for_slot (new_spill_allocator base) i"

lemma offset_is_cell: "offset_for_slot s i = slot_cell (base_slots s) i"
  by (simp add: slot_cell_def offset_for_slot_def new_spill_allocator_def)

lemma slot_cell_small:
  assumes "base + i < max_slots" "max_slots * 8 < 2 ^ 31"
  shows "slot_cell base i = - int (8 * (base + i + 1))"
  using assms by (simp add: slot_cell_def offset_for_slot_def new_spill_allocator_def Let_def min_def)

text \<open>
  The slots hold the intervals: the recorded end of a slot bounds the ends of all that were put
  there, and no two of them overlap.
\<close>

definition slots_hold :: "(nat \<Rightarrow> live_range) \<Rightarrow> 'r allocation option list \<Rightarrow> spill_allocator \<Rightarrow> (nat \<Rightarrow> nat) \<Rightarrow> bool" where
  "slots_hold rg as s cell \<longleftrightarrow> (\<forall>v offset. v < length as \<and> as ! v = Some (Spill offset) \<longrightarrow>
     offset = slot_cell (base_slots s) (cell v)
     \<and> (\<exists>e. cell v < length (spill_slots s) \<and> spill_slots s ! cell v = Some e \<and> end_at (rg v) \<le> e)
     \<and> (\<forall>u offset'. u < length as \<and> as ! u = Some (Spill offset') \<and> u \<noteq> v \<and> cell u = cell v \<longrightarrow> \<not> overlaps (rg u) (rg v)))"

lemma slots_hold_other:
  assumes "slots_hold rg as s cell" "\<And>offset. a \<noteq> Some (Spill offset)" "v < length as"
  shows "slots_hold rg (as[v := a]) s cell"
  using assms by (auto simp: slots_hold_def nth_list_update split: if_splits)

lemma slots_hold_spill:
  assumes inv: "slots_hold rg as s cell" and v: "v < length as" "\<And>offset. as ! v \<noteq> Some (Spill offset)"
    and alloc: "allocate_slot (start_at (rg v)) (end_at (rg v)) s = (offset, s')"
    and ok: "start_at (rg v) \<le> end_at (rg v)"
  shows "\<exists>cell'. slots_hold rg (as[v := Some (Spill offset)]) s' cell'"
proof -
  obtain i where i: "offset = offset_for_slot s i" "base_slots s' = base_slots s"
    "i < length (spill_slots s) \<and> spill_slots s' = (spill_slots s)[i := Some (end_at (rg v))]
          \<and> (\<exists>old. spill_slots s ! i = Some old \<and> old < start_at (rg v))
       \<or> i = length (spill_slots s) \<and> spill_slots s' = spill_slots s @ [Some (end_at (rg v))]"
    using allocate_slot_result[OF alloc] by blast
  let ?cell = "cell(v := i)"
  have before: "end_at (rg u) < start_at (rg v) \<or> i \<noteq> cell u" if "u < length as" "as ! u = Some (Spill off)" for u off
    using inv i(3) that by (fastforce simp: slots_hold_def)
  have "slots_hold rg (as[v := Some (Spill offset)]) s' ?cell"
    unfolding slots_hold_def
  proof (intro allI impI, elim conjE)
    fix u off
    assume u: "u < length (as[v := Some (Spill offset)])" "as[v := Some (Spill offset)] ! u = Some (Spill off)"
    show "off = slot_cell (base_slots s') (?cell u)
     \<and> (\<exists>e. ?cell u < length (spill_slots s') \<and> spill_slots s' ! ?cell u = Some e \<and> end_at (rg u) \<le> e)
     \<and> (\<forall>x offset'. x < length (as[v := Some (Spill offset)]) \<and> as[v := Some (Spill offset)] ! x = Some (Spill offset') \<and> x \<noteq> u
          \<and> ?cell x = ?cell u \<longrightarrow> \<not> overlaps (rg x) (rg u))"
    proof (cases "u = v")
      case True
      have "off = slot_cell (base_slots s') i" using u v True i(1,2) by (simp add: offset_is_cell)
      moreover have "\<exists>e. i < length (spill_slots s') \<and> spill_slots s' ! i = Some e \<and> end_at (rg v) \<le> e"
        using i(3) by auto
      moreover have "\<not> overlaps (rg x) (rg v)"
        if "x < length as" "as ! x = Some (Spill offset')" "x \<noteq> v" "cell x = i" for x offset'
        using before[OF that(1,2)] that(4) by (auto simp: overlaps_def)
      ultimately show ?thesis using True by auto
    next
      case False
      then have u': "u < length as" "as ! u = Some (Spill off)" using u by auto
      then obtain e where e: "off = slot_cell (base_slots s) (cell u)" "cell u < length (spill_slots s)"
        "spill_slots s ! cell u = Some e" "end_at (rg u) \<le> e"
        "\<forall>x offset'. x < length as \<and> as ! x = Some (Spill offset') \<and> x \<noteq> u \<and> cell x = cell u \<longrightarrow> \<not> overlaps (rg x) (rg u)"
        using inv unfolding slots_hold_def by meson
      have "\<exists>e. cell u < length (spill_slots s') \<and> spill_slots s' ! cell u = Some e \<and> end_at (rg u) \<le> e"
        using i(3) e(2-4) before[OF u'] ok by (auto simp: nth_list_update nth_append)
      moreover have "\<not> overlaps (rg v) (rg u)" if "i = cell u"
        using before[OF u'] that by (auto simp: overlaps_def)
      ultimately show ?thesis using False e(1,5) i(2) by (auto simp: nth_list_update)
    qed
  qed
  then show ?thesis by blast
qed

section \<open>The scan without recipes\<close>

lemma weigh_without_recipes:
  assumes "\<And>v. can_remat infos v = None"
  shows "foldl (weigh_holder_remat infos save index m loops r off) (i, p, False) rows =
    (case foldl (weigh_holder save index m loops r off) (i, p) rows of (i, p) \<Rightarrow> (i, p, False))"
proof (induction rows arbitrary: i p)
  case (Cons row rows)
  obtain j u reg e where row: "row = (j, u, reg, e)" by (metis prod_cases4)
  have "weigh_holder_remat infos save index m loops r off (i, p, False) row =
    (case weigh_holder save index m loops r off (i, p) row of (i, p) \<Rightarrow> (i, p, False))"
    by (simp add: row weigh_holder_remat_def weigh_holder_def remat_priority_def should_replace_def assms Let_def)
  then show ?case using Cons by (cases "weigh_holder save index m loops r off (i, p) row") simp
qed simp

lemma step_without_recipes:
  assumes "\<And>v. can_remat infos v = None"
  shows "scan_step_with_remat infos l file m loops inputs sunk row st = scan_step l file m loops inputs sunk row st"
proof -
  have displace: "displace infos v (map_option start_at (range_of l v)) e s
      = Option.bind (range_of l v) (\<lambda>q. spill_to_slot v (start_at q) e s)" for v e s
    by (cases "range_of l v") (simp_all add: displace_def assms)
  have self: "displace infos v (Some a) e s = spill_to_slot v a e s" for v a e s
    by (simp add: displace_def assms)
  show ?thesis
    by (simp add: scan_step_with_remat_def scan_step_def weigh_without_recipes assms displace self remat_priority_def
        Let_def Option.bind_assoc case_prod_unfold cong: option.case_cong)
qed

lemma scan_without_recipes:
  assumes "\<And>v. can_remat infos v = None"
  shows "scan_intervals_with_remat n l file locals d m loops infos inputs sunk = scan_intervals n l file locals d m loops inputs sunk"
proof -
  have "scan_step_with_remat infos l file m loops inputs sunk = scan_step l file m loops inputs sunk"
    by (intro ext step_without_recipes[OF assms])
  then show ?thesis by (simp add: scan_intervals_with_remat_def scan_intervals_def)
qed

section \<open>The invariant\<close>

definition row_ok :: "nat \<Rightarrow> 'r liveness_info \<Rightarrow> nat \<times> live_range \<Rightarrow> bool" where
  "row_ok n l row \<longleftrightarrow> fst row < n \<and> range_of l (fst row) = Some (snd row) \<and> start_at (snd row) \<le> end_at (snd row)"

definition rg :: "'r liveness_info \<Rightarrow> nat \<Rightarrow> live_range" where
  "rg l v = the (range_of l v)"

text \<open>The interval lives in a diverging region, so its register need not be saved.\<close>

abbreviation confined :: "'r liveness_info \<Rightarrow> nat \<Rightarrow> bool" where
  "confined l v \<equiv> range_diverges (build_divergence_index l) (rg l v)"

definition holders_inv :: "'r liveness_info \<Rightarrow> nat set \<Rightarrow> 'r allocation option list \<Rightarrow> (reg_class \<Rightarrow> 'r active) \<Rightarrow> bool" where
  "holders_inv l D as hs \<longleftrightarrow> (\<forall>c. distinct (map fst (hs c)) \<and> distinct (map (fst \<circ> snd) (hs c))
     \<and> (\<forall>(v, reg, e) \<in> set (hs c). v \<in> D \<and> class_of_vreg l v = c \<and> as ! v = Some (Register reg) \<and> e = end_at (rg l v)))"

definition registers_inv ::
  "'r liveness_info \<Rightarrow> 'r register_file \<Rightarrow> nat set \<Rightarrow> nat \<Rightarrow> 'r allocation option list \<Rightarrow> (reg_class \<Rightarrow> 'r active) \<Rightarrow> bool" where
  "registers_inv l file D now as hs \<longleftrightarrow> (\<forall>v \<in> D. \<forall>reg. as ! v = Some (Register reg) \<longrightarrow>
     can_hold l file v (rg l v) reg
     \<and> ((v, reg, end_at (rg l v)) \<in> set (hs (class_of_vreg l v)) \<or> end_at (rg l v) < now)
     \<and> (\<forall>u \<in> D. u \<noteq> v \<and> as ! u = Some (Register reg) \<longrightarrow> \<not> overlaps (rg l u) (rg l v)))"

definition saves_inv ::
  "'r liveness_info \<Rightarrow> 'r register_file \<Rightarrow> nat set \<Rightarrow> 'r allocation option list \<Rightarrow> 'r list \<Rightarrow> bool" where
  "saves_inv l file D as sv \<longleftrightarrow> distinct sv
     \<and> (\<forall>reg \<in> set sv. \<exists>v \<in> D. reg \<in> set (callee_saved (file (class_of_vreg l v))) \<and> \<not> confined l v)
     \<and> (\<forall>v \<in> D. \<forall>reg. as ! v = Some (Register reg) \<and> reg \<in> set (callee_saved (file (class_of_vreg l v)))
          \<longrightarrow> reg \<in> set sv \<or> confined l v
            \<or> (\<exists>u \<in> D. confined l u \<and> class_of_vreg l u = class_of_vreg l v \<and> (\<forall>reg. as ! u \<noteq> Some (Register reg))))"

text \<open>
  \<open>D\<close> are the registers scanned so far, \<open>E\<close> those of them whose registers are accounted for: all of
  them, except while an interval is being displaced.
\<close>

definition scan_inv ::
  "nat \<Rightarrow> 'r liveness_info \<Rightarrow> 'r register_file \<Rightarrow> remat_op option list \<Rightarrow> nat \<Rightarrow> nat set \<Rightarrow> nat set \<Rightarrow> nat
     \<Rightarrow> 'r scan_state \<Rightarrow> bool" where
  "scan_inv n l file infos base D E now st \<longleftrightarrow> length (assigned st) = n
     \<and> (\<forall>v < n. assigned st ! v = None \<longleftrightarrow> v \<notin> D)
     \<and> (\<forall>v op. v < n \<and> assigned st ! v = Some (Rematerialize op) \<longrightarrow> can_remat infos v = Some op)
     \<and> base_slots (slots st) = base \<and> (\<exists>cell. slots_hold (rg l) (assigned st) (slots st) cell)
     \<and> holders_inv l D (assigned st) (holders st)
     \<and> registers_inv l file E now (assigned st) (holders st)"

lemma expired_inv:
  assumes inv: "scan_inv n l file infos base D D now st" and now: "now \<le> s"
  shows "scan_inv n l file infos base D D s (st\<lparr>holders := (holders st)(c := expire_old s (holders st c))\<rparr>)"
proof -
  have sub: "set (((holders st)(c := expire_old s (holders st c))) d) \<subseteq> set (holders st d)" for d
    by (auto simp: expire_old_def)
  have "holders_inv l D (assigned st) ((holders st)(c := expire_old s (holders st c)))"
    using inv by (auto simp: scan_inv_def holders_inv_def expire_old_def distinct_map_filter)
  moreover have "registers_inv l file D s (assigned st) ((holders st)(c := expire_old s (holders st c)))"
    using inv now unfolding scan_inv_def registers_inv_def
    by (auto simp: expire_old_def)
  ultimately show ?thesis using inv by (simp add: scan_inv_def)
qed

lemma hold_inv:
  assumes inv: "scan_inv n l file infos base D D now st" and v: "v \<notin> D" "v < n"
    and now: "start_at (rg l v) = now" and D: "D \<subseteq> {..<n}"
    and fok: "file_ok file" and can: "can_hold l file v (rg l v) reg"
    and unused: "\<not> is_used (holders st (class_of_vreg l v)) reg"
  shows "\<exists>st'. hold (class_of_vreg l v) v reg (end_at (rg l v)) st = Some st'
    \<and> scan_inv n l file infos base (insert v D) (insert v D) now st'
    \<and> assigned st' = (assigned st)[v := Some (Register reg)] \<and> saved st' = saved st"
proof -
  let ?c = "class_of_vreg l v" and ?as = "(assigned st)[v := Some (Register reg)]"
  let ?hs = "(holders st)(class_of_vreg l v := holders st (class_of_vreg l v) @ [(v, reg, end_at (rg l v))])"
  have len: "length (assigned st) = n" using inv by (simp add: scan_inv_def)
  have vs: "v \<notin> fst ` set (holders st c)" for c using inv v(1) by (fastforce simp: scan_inv_def holders_inv_def)
  have regs: "reg \<notin> (fst \<circ> snd) ` set (holders st ?c)" using unused by (auto simp: is_used_def list_ex_iff)
  have free: "end_at (rg l u) < now" if u: "u \<in> D" "assigned st ! u = Some (Register reg)" for u
  proof -
    have "can_hold l file u (rg l u) reg" using inv u by (simp add: scan_inv_def registers_inv_def)
    then have "class_of_vreg l u = ?c" using can classes_disjoint[OF fok] by (auto simp: can_hold_def)
    moreover have "(u, reg, end_at (rg l u)) \<notin> set (holders st ?c)" using regs by force
    ultimately show ?thesis using inv u by (auto simp: scan_inv_def registers_inv_def)
  qed
  have same: "u \<noteq> v \<Longrightarrow> ?as ! u = assigned st ! u" for u by simp
  have "holders_inv l (insert v D) ?as ?hs"
    using inv vs regs v len
    by (fastforce simp: scan_inv_def holders_inv_def nth_list_update image_iff)
  moreover have "registers_inv l file (insert v D) now ?as ?hs"
    unfolding registers_inv_def
  proof (intro ballI allI impI conjI)
    fix u q assume u: "u \<in> insert v D" "?as ! u = Some (Register q)"
    show "can_hold l file u (rg l u) q" using u v len can inv
      by (cases "u = v") (auto simp: scan_inv_def registers_inv_def)
    show "(u, q, end_at (rg l u)) \<in> set (?hs (class_of_vreg l u)) \<or> end_at (rg l u) < now"
      using u v len inv by (cases "u = v") (auto simp: scan_inv_def registers_inv_def)
    fix x assume x: "x \<in> insert v D" "x \<noteq> u \<and> ?as ! x = Some (Register q)"
    show "\<not> overlaps (rg l x) (rg l u)"
    proof (cases "x = v \<or> u = v")
      case True
      have "q = reg" using True u x v len by auto
      then show ?thesis using True u x v len now free[of x] free[of u] by (auto simp: overlaps_def)
    next
      case False
      then show ?thesis using u x inv by (auto simp: scan_inv_def registers_inv_def)
    qed
  qed
  moreover have "\<exists>cell. slots_hold (rg l) ?as (slots st) cell"
    using inv v len slots_hold_other[of "rg l" "assigned st" "slots st" _ "Some (Register reg)" v]
    by (auto simp: scan_inv_def)
  ultimately have "scan_inv n l file infos base (insert v D) (insert v D) now (st\<lparr>assigned := ?as, holders := ?hs\<rparr>)"
    using inv len v D by (auto simp: scan_inv_def nth_list_update)
  then show ?thesis using len v by (simp add: hold_def put_at_def)
qed

lemma displace_inv:
  assumes inv: "scan_inv n l file infos base D (D - {x}) now st" and x: "x < n" "\<And>offset. assigned st ! x \<noteq> Some (Spill offset)"
    and out: "\<And>c. x \<notin> fst ` set (holders st c)" and ok: "start_at (rg l x) \<le> end_at (rg l x)"
  shows "\<exists>st' a. displace infos x (Some (start_at (rg l x))) (end_at (rg l x)) st = Some st'
    \<and> scan_inv n l file infos base (insert x D) (insert x D) now st'
    \<and> assigned st' = (assigned st)[x := Some a] \<and> (\<forall>reg. a \<noteq> Register reg)
    \<and> holders st' = holders st \<and> saved st' = saved st"
proof -
  have len: "length (assigned st) = n" using inv by (simp add: scan_inv_def)
  have hs: "holders_inv l (insert x D) ((assigned st)[x := Some a]) (holders st)" for a
    using inv out by (fastforce simp: scan_inv_def holders_inv_def image_iff)
  have rs: "registers_inv l file (insert x D) now ((assigned st)[x := Some a]) (holders st)" if "\<forall>reg. a \<noteq> Register reg" for a
    using inv x(1) len that by (auto simp: scan_inv_def registers_inv_def nth_list_update split: if_splits)
  show ?thesis
  proof (cases "can_remat infos x")
    case (Some op)
    have "\<exists>cell. slots_hold (rg l) ((assigned st)[x := Some (Rematerialize op)]) (slots st) cell"
      using inv x len slots_hold_other[of "rg l" "assigned st" "slots st" _ "Some (Rematerialize op)" x]
      by (auto simp: scan_inv_def)
    then have "scan_inv n l file infos base (insert x D) (insert x D) now (st\<lparr>assigned := (assigned st)[x := Some (Rematerialize op)]\<rparr>)"
      using inv len x(1) hs rs Some by (auto simp: scan_inv_def nth_list_update)
    then show ?thesis using Some x(1) len by (auto simp: displace_def put_at_def)
  next
    case None
    obtain off ss where alloc: "allocate_slot (start_at (rg l x)) (end_at (rg l x)) (slots st) = (off, ss)" by force
    have "\<exists>cell. slots_hold (rg l) ((assigned st)[x := Some (Spill off)]) ss cell"
      using inv x len alloc ok slots_hold_spill[of "rg l" "assigned st" "slots st" _ x off ss] by (auto simp: scan_inv_def)
    moreover have "base_slots ss = base" using inv base_allocate[of "start_at (rg l x)" "end_at (rg l x)" "slots st"]
      by (simp add: scan_inv_def alloc)
    ultimately have "scan_inv n l file infos base (insert x D) (insert x D) now
        (st\<lparr>assigned := (assigned st)[x := Some (Spill off)], slots := ss, spilled := spilled st @ [x]\<rparr>)"
      using inv len x(1) hs rs by (auto simp: scan_inv_def nth_list_update)
    then show ?thesis using None x(1) len alloc by (auto simp: displace_def spill_to_slot_def put_at_def)
  qed
qed

section \<open>Saves\<close>

lemma displace_saves:
  assumes "saves_inv l file D as sv" "x < length as" "\<forall>reg. a \<noteq> Register reg"
  shows "saves_inv l file (insert x D) (as[x := Some a]) sv"
  using assms unfolding saves_inv_def by (auto simp: nth_list_update split: if_splits) metis+

lemma hold_saves:
  assumes "saves_inv l file D as sv" "v \<notin> D" "v < length as"
    and "reg \<in> set (callee_saved (file (class_of_vreg l v))) \<Longrightarrow> reg \<in> set sv \<or> confined l v
      \<or> (\<exists>u \<in> D. confined l u \<and> class_of_vreg l u = class_of_vreg l v \<and> (\<forall>reg. as ! u \<noteq> Some (Register reg)))"
  shows "saves_inv l file (insert v D) (as[v := Some (Register reg)]) sv"
proof -
  have same: "u \<in> D \<Longrightarrow> as[v := Some (Register reg)] ! u = as ! u" for u using assms(2) by (cases "u = v") auto
  show ?thesis using assms unfolding saves_inv_def
    by (auto simp: same)
qed

lemma record_saves:
  assumes inv: "saves_inv l file D (assigned st) (saved st)" and v: "v \<notin> D" "v < length (assigned st)"
    and st': "assigned st' = (assigned st)[v := Some (Register reg)]" "saved st' = saved st"
  shows "saves_inv l file (insert v D) (assigned (record_save (file (class_of_vreg l v)) reg (confined l v) st'))
    (saved (record_save (file (class_of_vreg l v)) reg (confined l v) st'))"
proof -
  let ?sv = "saved (record_save (file (class_of_vreg l v)) reg (confined l v) st')"
  have sv: "?sv = saved st \<or> ?sv = saved st @ [reg] \<and> reg \<notin> set (saved st) \<and> \<not> confined l v
      \<and> reg \<in> set (callee_saved (file (class_of_vreg l v)))"
    by (auto simp: record_save_def st' is_callee_saved_def)
  have kept: "reg \<in> set (callee_saved (file (class_of_vreg l v))) \<Longrightarrow> reg \<in> set ?sv \<or> confined l v"
    by (auto simp: record_save_def st' is_callee_saved_def)
  have same: "u \<in> D \<Longrightarrow> (assigned st)[v := Some (Register reg)] ! u = assigned st ! u" for u using v(1) by (cases "u = v") auto
  have "assigned (record_save (file (class_of_vreg l v)) reg (confined l v) st') = (assigned st)[v := Some (Register reg)]"
    by (simp add: record_save_def st')
  then show ?thesis using inv v sv kept unfolding saves_inv_def
    by (auto simp: same) (metis same Un_iff set_append)+
qed

section \<open>A step\<close>

lemma set_without:
  assumes "distinct xs" "i < length xs"
  shows "set (take i xs @ drop (i + 1) xs) = set xs - {xs ! i}"
proof -
  have "xs = take i xs @ xs ! i # drop (i + 1) xs" using id_take_nth_drop[OF assms(2)] by simp
  then have "set xs = insert (xs ! i) (set (take i xs @ drop (i + 1) xs)) \<and> xs ! i \<notin> set (take i xs @ drop (i + 1) xs)"
    using assms(1) by (metis distinct_append distinct.simps(2) Un_iff Un_insert_right disjoint_iff list.set_intros(1) list.simps(15) set_append)
  then show ?thesis by auto
qed

lemma distinct_without: "distinct (map f xs) \<Longrightarrow> distinct (map f (take i xs @ drop (i + 1) xs))"
  using set_take_disj_set_drop_if_distinct[of "map f xs" i "i + 1"]
  by (simp add: distinct_take distinct_drop take_map drop_map flip: take_map drop_map)

lemma released_inv:
  assumes inv: "scan_inv n l file infos base D D now st" and i: "i < length (holders st c)" "holders st c ! i = (u, reg, e)"
    and st': "st' = st\<lparr>holders := (holders st)(c := take i (holders st c) @ drop (i + 1) (holders st c))\<rparr>"
  shows "scan_inv n l file infos base D (D - {u}) now st' \<and> (\<forall>d. u \<notin> fst ` set (holders st' d))
    \<and> \<not> is_used (holders st' c) reg"
proof -
  let ?hs = "holders st'"
  have dist: "distinct (map fst (holders st c))" "distinct (map (fst \<circ> snd) (holders st c))" "distinct (holders st c)"
    using inv by (auto simp: scan_inv_def holders_inv_def distinct_map)
  have hc: "set (?hs c) = set (holders st c) - {(u, reg, e)}"
    using set_without[OF dist(3) i(1)] by (simp add: st' i(2))
  have mem: "(u, reg, e) \<in> set (holders st c)" using i nth_mem by metis
  have hs: "set (?hs d) \<subseteq> set (holders st d)" for d using hc by (cases "d = c") (auto simp: st')
  have "holders_inv l D (assigned st) ?hs"
    unfolding holders_inv_def
  proof (intro allI conjI)
    fix d
    have d: "distinct (map fst (holders st d))" "distinct (map (fst \<circ> snd) (holders st d))"
      "\<forall>(v, reg, e) \<in> set (holders st d). v \<in> D \<and> class_of_vreg l v = d \<and> assigned st ! v = Some (Register reg)
        \<and> e = end_at (rg l v)"
      using inv by (auto simp: scan_inv_def holders_inv_def)
    show "distinct (map fst (?hs d))" using d(1) distinct_without[OF d(1), of i] by (cases "d = c") (simp_all add: st')
    show "distinct (map (fst \<circ> snd) (?hs d))" using d(2) distinct_without[OF d(2), of i] by (cases "d = c") (simp_all add: st')
    show "\<forall>(v, reg, e) \<in> set (?hs d). v \<in> D \<and> class_of_vreg l v = d \<and> assigned st ! v = Some (Register reg)
        \<and> e = end_at (rg l v)"
      using d(3) hs[of d] by blast
  qed
  moreover have "registers_inv l file (D - {u}) now (assigned st) ?hs"
    unfolding registers_inv_def
  proof (intro ballI allI impI conjI)
    fix w q assume w: "w \<in> D - {u}" "assigned st ! w = Some (Register q)"
    show "can_hold l file w (rg l w) q" using inv w by (simp add: scan_inv_def registers_inv_def)
    have "(w, q, end_at (rg l w)) \<in> set (holders st (class_of_vreg l w)) \<or> end_at (rg l w) < now"
      using inv w by (simp add: scan_inv_def registers_inv_def)
    then show "(w, q, end_at (rg l w)) \<in> set (?hs (class_of_vreg l w)) \<or> end_at (rg l w) < now"
      using w hc by (cases "class_of_vreg l w = c") (auto simp: st')
    fix x assume "x \<in> D - {u}" "x \<noteq> w \<and> assigned st ! x = Some (Register q)"
    then show "\<not> overlaps (rg l x) (rg l w)" using inv w by (simp add: scan_inv_def registers_inv_def)
  qed
  ultimately have "scan_inv n l file infos base D (D - {u}) now st'" using inv by (simp add: scan_inv_def st')
  moreover have "u \<notin> fst ` set (?hs d)" for d
  proof (cases "d = c")
    case True
    then show ?thesis using hc eq_key_imp_eq_value[OF dist(1) mem] by force
  next
    case False
    have "class_of_vreg l u = c" using inv mem by (auto simp: scan_inv_def holders_inv_def)
    then show ?thesis using inv hs[of d] False by (fastforce simp: scan_inv_def holders_inv_def)
  qed
  moreover have "\<not> is_used (?hs c) reg"
  proof -
    have "inj_on (fst \<circ> snd) (set (holders st c))" using dist(2) by (simp add: distinct_map)
    then have "w = u \<and> f = e" if "(w, reg, f) \<in> set (holders st c)" for w f
      using inj_onD[where x = "(w, reg, f)" and y = "(u, reg, e)"] that mem by (metis comp_apply fst_conv snd_conv)
    then show ?thesis using hc by (auto simp: is_used_def list_ex_iff)
  qed
  ultimately show ?thesis by blast
qed

lemma step_inv:
  assumes inv: "scan_inv n l file infos base D D now st" and sv: "saves_inv l file D (assigned st) (saved st)"
    and row: "row_ok n l (v, r)" and v: "v \<notin> D" and now: "now \<le> start_at r"
    and D: "D \<subseteq> {..<n}" "\<forall>u \<in> D. range_of l u = Some (rg l u)" and fok: "file_ok file" and tracks: "tracks_file l file inputs"
    and rok: "ranges_ok l"
  shows "\<exists>st'. scan_step_with_remat infos l file m loops inputs sunk (v, r) st = Some st'
    \<and> scan_inv n l file infos base (insert v D) (insert v D) (start_at r) st'
    \<and> saves_inv l file (insert v D) (assigned st') (saved st')"
proof -
  let ?c = "class_of_vreg l v" and ?s = "start_at r" and ?off = "\<not> has_diverging_use l v"
  define act where "act = expire_old ?s (holders st ?c)"
  define st1 where "st1 = st\<lparr>holders := (holders st)(?c := act)\<rparr>"
  have rv: "rg l v = r" "v < n" "?s \<le> end_at r" using row by (auto simp: row_ok_def rg_def)
  have inv1: "scan_inv n l file infos base D D ?s st1" unfolding st1_def act_def by (rule expired_inv[OF inv now])
  have act: "holders st1 ?c = act" "assigned st1 = assigned st" "saved st1 = saved st" by (simp_all add: st1_def)
  have len: "length (assigned st) = n" using inv by (simp add: scan_inv_def)
  have conf: "confined l v = range_diverges (divergence_index inputs) r" using tracks by (simp add: tracks_file_def rv)
  note step = scan_step_with_remat_def Let_def act_def[symmetric] st1_def[symmetric]
  have v_new: "assigned st1 ! v = None" "\<And>c. v \<notin> fst ` set (holders st1 c)"
    using inv1 v rv(2) by (fastforce simp: scan_inv_def holders_inv_def)+
  show ?thesis
  proof (cases "pick_free_register (file ?c) (clobber_index inputs) act sunk r ?off")
    case (Some reg)
    then have reg: "can_hold l file v (rg l v) reg" "\<not> is_used (holders st1 ?c) reg"
      using pick_result[OF fok tracks] rv(1) act by auto
    obtain st2 where st2: "hold ?c v reg (end_at r) st1 = Some st2"
      "scan_inv n l file infos base (insert v D) (insert v D) ?s st2"
      "assigned st2 = (assigned st1)[v := Some (Register reg)]" "saved st2 = saved st1"
      using hold_inv[OF inv1 v rv(2) _ D(1) fok reg] rv(1) by auto
    let ?st3 = "record_save (file ?c) reg (confined l v) st2"
    have "scan_step_with_remat infos l file m loops inputs sunk (v, r) st = Some ?st3"
      using Some st2(1) by (simp add: step conf)
    moreover have "scan_inv n l file infos base (insert v D) (insert v D) ?s ?st3"
      using st2(2) by (simp add: scan_inv_def record_save_def)
    moreover have "saves_inv l file (insert v D) (assigned ?st3) (saved ?st3)"
      using record_saves[OF sv v _ , of st2 reg] rv(2) len st2(3,4) act by simp
    ultimately show ?thesis by blast
  next
    case None
    let ?w = "fst (foldl (weigh_holder_remat infos (file ?c) (clobber_index inputs) m loops r ?off)
      (None, remat_priority infos m loops v (start_at r) (end_at r), can_remat infos v \<noteq> None) (enumerate 0 act))"
    show ?thesis
    proof (cases ?w)
      case keep: None
      obtain st2 a where st2: "displace infos v (Some ?s) (end_at r) st1 = Some st2"
        "scan_inv n l file infos base (insert v D) (insert v D) ?s st2"
        "assigned st2 = (assigned st1)[v := Some a]" "\<forall>reg. a \<noteq> Register reg" "saved st2 = saved st1"
        using displace_inv[of n l "file" infos base D v ?s st1] inv1 v rv v_new by auto
      have "scan_step_with_remat infos l file m loops inputs sunk (v, r) st = Some st2"
        using None keep st2(1) by (simp add: step)
      moreover have "saves_inv l file (insert v D) (assigned st2) (saved st2)"
        using displace_saves[OF sv] st2(3-5) act rv(2) len by simp
      ultimately show ?thesis using st2(2) by blast
    next
      case (Some i)
      obtain u freed e where u: "act ! i = (u, freed, e)" by (metis prod_cases3)
      have i: "i < length act" "register_survives_range (file ?c) (clobber_index inputs) freed r ?off"
        using weighed_result[OF Some] u by auto
      have mem: "(u, freed, e) \<in> set (holders st1 ?c)" using i(1) u act(1) nth_mem by metis
      have hu: "u \<in> D" "class_of_vreg l u = ?c" "assigned st ! u = Some (Register freed)" "e = end_at (rg l u)"
        using inv1 mem act(2) by (auto simp: scan_inv_def holders_inv_def)
      define st2 where "st2 = st1\<lparr>holders := (holders st1)(?c := take i act @ drop (i + 1) act)\<rparr>"
      have rel: "scan_inv n l file infos base D (D - {u}) ?s st2" "\<And>d. u \<notin> fst ` set (holders st2 d)" "\<not> is_used (holders st2 ?c) freed"
        using released_inv[OF inv1, of i ?c u freed e st2] i(1) u act(1) by (auto simp: st2_def)
      have ru: "range_of l u = Some (rg l u)" "start_at (rg l u) \<le> end_at (rg l u)" "u < n"
        using D hu(1) rok by (auto simp: ranges_ok_def)
      have fields: "assigned st2 = assigned st" "saved st2 = saved st" by (simp_all add: st2_def st1_def)
      obtain st3 a where st3: "displace infos u (Some (start_at (rg l u))) (end_at (rg l u)) st2 = Some st3"
        "scan_inv n l file infos base D D ?s st3" "assigned st3 = (assigned st)[u := Some a]" "\<forall>reg. a \<noteq> Register reg"
        "holders st3 = holders st2" "saved st3 = saved st"
        using displace_inv[OF rel(1) ru(3) _ rel(2) ru(2)] hu(1,3) fields by (auto simp: insert_absorb)
      have "can_hold l file u (rg l u) freed" using inv hu by (simp add: scan_inv_def registers_inv_def)
      then have "can_hold l file v (rg l v) freed"
        using survives_result[OF tracks _ i(2)] hu(2) rv(1) by (simp add: can_hold_def)
      then obtain st4 where st4: "hold ?c v freed (end_at r) st3 = Some st4"
        "scan_inv n l file infos base (insert v D) (insert v D) ?s st4"
        "assigned st4 = (assigned st3)[v := Some (Register freed)]" "saved st4 = saved st3"
        using hold_inv[OF st3(2) v rv(2) _ D(1) fok] rel(3) st3(5) rv(1) by auto
      have "scan_step_with_remat infos l file m loops inputs sunk (v, r) st = Some st4"
        using None Some u st3(1)[unfolded st2_def] st4(1) by (simp add: step ru(1) hu(4))
      moreover have "saves_inv l file (insert v D) (assigned st4) (saved st4)"
      proof -
        have "saves_inv l file D (assigned st3) (saved st3)"
          using displace_saves[OF sv, of u a] st3(3,4,6) hu(1) ru(3) len by (simp add: insert_absorb)
        moreover have "freed \<in> set (saved st3) \<or> confined l v
            \<or> (\<exists>u \<in> D. confined l u \<and> class_of_vreg l u = ?c \<and> (\<forall>reg. assigned st3 ! u \<noteq> Some (Register reg)))"
          if callee: "freed \<in> set (callee_saved (file ?c))"
        proof -
          have u': "\<forall>reg. assigned st3 ! u \<noteq> Some (Register reg)" using st3(3,4) ru(3) len by auto
          consider "freed \<in> set (saved st)" | "confined l u"
            | w where "w \<in> D" "confined l w" "class_of_vreg l w = ?c" "\<forall>reg. assigned st ! w \<noteq> Some (Register reg)"
            using sv hu callee unfolding saves_inv_def by metis
          then show ?thesis
          proof cases
            case 3
            then have "\<forall>reg. assigned st3 ! w \<noteq> Some (Register reg)" using u' st3(3) by (cases "w = u") auto
            then show ?thesis using 3 by blast
          qed (use st3(6) hu u' in auto)
        qed
        ultimately show ?thesis
          using hold_saves[of l "file" D "assigned st3" "saved st3" v freed] v rv(2) len st3(3) st4(3,4) by simp
      qed
      ultimately show ?thesis using st4(2) by blast
    qed
  qed
qed

end
