(* ===== verification/Coalescing.thy ===== *)
theory Coalescing
  imports Regalloc
begin

text \<open>
  Coalescing, for candidates in the order of their instructions, as the backends list them: the
  representative of a register answers for all that are merged into it, and two merged registers
  meet at most at a move that is deleted.
\<close>

lemma is_eliminated_mark [simp]: "is_eliminated (mark_eliminated i c) j \<longleftrightarrow> j = i \<or> is_eliminated c j"
  by (auto simp: is_eliminated_def mark_eliminated_def Let_def nth_append nth_list_update)

lemma is_eliminated_map [simp]: "is_eliminated (c\<lparr>coalesce_map := m\<rparr>) j = is_eliminated c j"
  by (simp add: is_eliminated_def)

lemma coalesce_map_mark [simp]: "coalesce_map (mark_eliminated i c) = coalesce_map c"
  by (simp add: mark_eliminated_def Let_def)

text \<open>The same analysis of the same code, with merged ranges.\<close>

definition same_code :: "'r liveness_info \<Rightarrow> 'r liveness_info \<Rightarrow> bool" where
  "same_code l0 l \<longleftrightarrow> clobbers_at l = clobbers_at l0 \<and> non_returning_at l = non_returning_at l0
     \<and> diverging_at l = diverging_at l0 \<and> info_classes l = info_classes l0
     \<and> length (ranges l) = length (ranges l0) \<and> length (diverging_uses l) = length (diverging_uses l0)"

definition covered :: "'r liveness_info \<Rightarrow> nat \<Rightarrow> 'r liveness_info \<Rightarrow> nat \<Rightarrow> bool" where
  "covered l0 v l x \<longleftrightarrow> (\<forall>q. range_of l0 v = Some q \<longrightarrow>
     (\<exists>r. range_of l x = Some r \<and> start_at r \<le> start_at q \<and> end_at q \<le> end_at r))
     \<and> (has_diverging_use l0 v \<longrightarrow> has_diverging_use l x)"

text \<open>Two registers with one representative meet at most at a deleted move.\<close>

definition meet_at_move :: "'r liveness_info \<Rightarrow> coalesce_result \<Rightarrow> nat \<Rightarrow> nat \<Rightarrow> bool" where
  "meet_at_move l0 c u v \<longleftrightarrow> (\<forall>q r. range_of l0 u = Some q \<and> range_of l0 v = Some r \<and> overlaps q r \<longrightarrow>
     (\<exists>i. is_eliminated c i \<and> (end_at q = i \<and> start_at r = i \<or> end_at r = i \<and> start_at q = i)))"

definition coalesced :: "'r liveness_info \<Rightarrow> coalesce_candidate list \<Rightarrow> coalesce_result \<Rightarrow> 'r liveness_info \<Rightarrow> bool" where
  "coalesced l0 done_cands c l \<longleftrightarrow> same_code l0 l \<and> length (coalesce_map c) = length (ranges l0)
     \<and> (\<forall>v. representative c (representative c v) = representative c v
          \<and> class_of_vreg l0 (representative c v) = class_of_vreg l0 v \<and> covered l0 v l (representative c v))
     \<and> (\<forall>v. representative c v \<noteq> v \<longrightarrow> range_of l v = None \<and> representative c v < length (ranges l0))
     \<and> (\<forall>u v. u \<noteq> v \<and> representative c u = representative c v \<longrightarrow> meet_at_move l0 c u v)
     \<and> (\<forall>i. is_eliminated c i \<longrightarrow> i \<in> cand_inst ` set done_cands)
     \<and> (\<forall>k \<in> set done_cands. is_eliminated c (cand_inst k) \<longrightarrow> representative c (cand_dst k) = representative c (cand_src k))"

definition coalesce_inv ::
  "'r liveness_info \<Rightarrow> coalesce_candidate list \<Rightarrow> 'r coalesce_state \<Rightarrow> bool" where
  "coalesce_inv l0 done_cands st \<longleftrightarrow> (case st of (c, parent, l) \<Rightarrow> parent = coalesce_map c \<and> coalesced l0 done_cands c l
     \<and> (\<forall>v < length parent. parent ! v \<noteq> Some v)
     \<and> (\<forall>v q. range_of l v = Some q \<longrightarrow> start_at q \<le> end_at q)
     \<and> (\<forall>v. representative c v \<noteq> v \<longrightarrow> (\<exists>r. range_of l (representative c v) = Some r
          \<and> (\<exists>k \<in> set done_cands. start_at r \<le> cand_inst k))))"

lemma find_root_rep:
  assumes "\<And>v. representative c (representative c v) = representative c v"
    and loops: "\<forall>v < length (coalesce_map c). coalesce_map c ! v \<noteq> Some v"
  shows "find_root (coalesce_map c) v = Some (representative c v, coalesce_map c)"
proof (cases "v < length (coalesce_map c)")
  case False
  then show ?thesis by (subst find_root.simps) (simp add: representative_def)
next
  case True
  show ?thesis
  proof (cases "coalesce_map c ! v")
    case None
    then show ?thesis using True by (subst find_root.simps) (simp add: representative_def)
  next
    case (Some p)
    have rep: "representative c v = p" using True Some by (simp add: representative_def)
    have root: "find_root (coalesce_map c) p = Some (p, coalesce_map c)"
      using assms(1)[of v] rep loops
      by (subst find_root.simps) (auto simp: representative_def split: option.splits if_splits)
    have "(coalesce_map c)[v := Some p] = coalesce_map c" using True Some by (metis list_update_id)
    then show ?thesis using True Some rep root by (subst find_root.simps) simp
  qed
qed

lemma covered_trans:
  assumes "covered l0 v l x" "\<And>r. range_of l x = Some r \<Longrightarrow> \<exists>q. range_of l' y = Some q \<and> start_at q \<le> start_at r \<and> end_at r \<le> end_at q"
    and "has_diverging_use l x \<Longrightarrow> has_diverging_use l' y"
  shows "covered l0 v l' y"
proof -
  have "\<exists>r. range_of l' y = Some r \<and> start_at r \<le> start_at q \<and> end_at q \<le> end_at r" if q: "range_of l0 v = Some q" for q
  proof -
    obtain r where "range_of l x = Some r" "start_at r \<le> start_at q" "end_at q \<le> end_at r"
      using assms(1) q by (auto simp: covered_def)
    then show ?thesis using assms(2)[of r] by (meson order_trans)
  qed
  then show ?thesis using assms(1,3) by (simp add: covered_def)
qed

lemma merged_ranges:
  assumes "merge_into dst src l = Some l'" "range_of l dst = Some rd" "range_of l src = Some rs" "dst \<noteq> src"
  shows "range_of l' x = (if x = src then Some \<lparr>start_at = min (start_at rd) (start_at rs), end_at = max (end_at rd) (end_at rs)\<rparr>
      else if x = dst then None else range_of l x)"
    and "has_diverging_use l' x = (has_diverging_use l x \<or> x = src \<and> has_diverging_use l dst)"
    and "same_code l l'"
proof -
  have len: "dst < length (ranges l)" "src < length (ranges l)" using assms(2,3) by (auto simp: range_of_def split: if_splits)
  let ?m = "\<lparr>start_at = min (start_at rd) (start_at rs), end_at = max (end_at rd) (end_at rs)\<rparr>"
  have l': "l' = l\<lparr>ranges := (ranges l)[src := Some ?m, dst := None],
      diverging_uses := (if has_diverging_use l dst then (diverging_uses l)[src := True] else diverging_uses l)\<rparr>"
    using assms len by (auto simp: merge_into_def put_at_def split: if_splits)
  show "range_of l' x = (if x = src then Some ?m else if x = dst then None else range_of l x)"
    using len assms(4) by (auto simp: range_of_def l' nth_list_update)
  show "has_diverging_use l' x = (has_diverging_use l x \<or> x = src \<and> has_diverging_use l dst)"
    by (cases "x = src") (auto simp: has_diverging_use_def l')
  show "same_code l l'" by (simp add: same_code_def l')
qed

lemma coalesce_merge:
  assumes inv: "coalesce_inv l0 done_cands (c, coalesce_map c, l)" and new: "\<forall>j \<in> set done_cands. cand_inst j < cand_inst k"
    and roots: "representative c (cand_dst k) = dst" "representative c (cand_src k) = src" "dst \<noteq> src"
    and cls: "class_of_vreg l dst = class_of_vreg l src"
    and rd: "range_of l dst = Some rd" and rs: "range_of l src = Some rs"
    and order: "end_at rs \<le> cand_inst k" "cand_inst k \<le> start_at rd"
    and l': "merge_into dst src l = Some l'"
    and c': "c' = mark_eliminated (cand_inst k) (c\<lparr>coalesce_map := (coalesce_map c)[dst := Some src]\<rparr>)"
  shows "coalesce_inv l0 (done_cands @ [k]) (c', coalesce_map c', l')"
proof -
  have C: "coalesced l0 done_cands c l" using inv by (simp add: coalesce_inv_def)
  have wf: "start_at q \<le> end_at q" if "range_of l x = Some q" for x q using inv that by (force simp: coalesce_inv_def)
  have loops: "\<forall>v < length (coalesce_map c). coalesce_map c ! v \<noteq> Some v" using inv by (simp add: coalesce_inv_def)
  have chain: "\<forall>v. representative c v \<noteq> v \<longrightarrow> (\<exists>r. range_of l (representative c v) = Some r
      \<and> (\<exists>k \<in> set done_cands. start_at r \<le> cand_inst k))" using inv by (simp add: coalesce_inv_def)
  have idem: "representative c (representative c v) = representative c v" for v using C by (simp add: coalesced_def)
  have len: "length (coalesce_map c) = length (ranges l0)" "length (ranges l) = length (ranges l0)"
    using C by (auto simp: coalesced_def same_code_def)
  have small: "dst < length (ranges l0)" "src < length (ranges l0)"
    using rd rs len(2) by (auto simp: range_of_def split: if_splits)
  have sd: "representative c dst = dst" "representative c src = src"
    using idem[of "cand_dst k"] idem[of "cand_src k"] roots(1,2) by simp_all
  have alone: "representative c v \<noteq> dst" if ne: "v \<noteq> dst" for v
  proof
    assume "representative c v = dst"
    then obtain r j where "range_of l dst = Some r" "j \<in> set done_cands" "start_at r \<le> cand_inst j"
      using chain ne by metis
    then show False using new rd order(2) by fastforce
  qed
  have rep: "representative c' v = (if v = dst then src else representative c v)" for v
    using small len(1) by (auto simp: c' representative_def nth_list_update)
  note m = merged_ranges[OF l' rd rs roots(3)]
  have cov: "covered l0 v l' (representative c' v)" for v
  proof -
    have cv: "covered l0 v l (representative c v)" using C by (simp add: coalesced_def)
    show ?thesis
    proof (rule covered_trans[OF cv])
      fix r assume r: "range_of l (representative c v) = Some r"
      show "\<exists>q. range_of l' (representative c' v) = Some q \<and> start_at q \<le> start_at r \<and> end_at r \<le> end_at q"
        using r rd rs sd alone[of v] by (cases "v = dst"; cases "representative c v = src") (auto simp: rep m(1))
    next
      assume "has_diverging_use l (representative c v)"
      then show "has_diverging_use l' (representative c' v)" using sd by (auto simp: rep m(2))
    qed
  qed
  have meets: "meet_at_move l0 c' dst v \<and> meet_at_move l0 c' v dst" if v: "representative c v = src" for v
  proof -
    have "covered l0 dst l dst" "covered l0 v l src" using C sd v unfolding coalesced_def by metis+
    then have "end_at r = cand_inst k \<and> start_at q = cand_inst k"
      if "range_of l0 dst = Some q" "range_of l0 v = Some r" "start_at q \<le> end_at r" for q r
      using that rd rs order unfolding covered_def by fastforce
    moreover have "is_eliminated c' (cand_inst k)" by (simp add: c')
    ultimately show ?thesis unfolding meet_at_move_def overlaps_def by blast
  qed
  have old: "meet_at_move l0 c' u v" if "meet_at_move l0 c u v" for u v
    using that unfolding meet_at_move_def c' by fastforce
  have same: "same_code l0 l'" using C m(3) by (simp add: coalesced_def same_code_def)
  have "coalesced l0 (done_cands @ [k]) c' l'"
    unfolding coalesced_def
  proof (intro conjI allI impI ballI)
    fix v
    show "representative c' (representative c' v) = representative c' v" using idem alone sd by (auto simp: rep)
    show "class_of_vreg l0 (representative c' v) = class_of_vreg l0 v"
      using C sd cls by (auto simp: rep coalesced_def class_of_vreg_def same_code_def)
    show "covered l0 v l' (representative c' v)" by (rule cov)
    assume v: "representative c' v \<noteq> v"
    show "range_of l' v = None" using C v sd unfolding coalesced_def by (auto simp: rep m(1) split: if_splits)
    show "representative c' v < length (ranges l0)" using C v small unfolding coalesced_def by (auto simp: rep split: if_splits)
  next
    fix u v assume uv: "u \<noteq> v \<and> representative c' u = representative c' v"
    show "meet_at_move l0 c' u v"
    proof (cases "u = dst \<or> v = dst")
      case True
      then show ?thesis using uv meets[of u] meets[of v] by (auto simp: rep split: if_splits)
    next
      case False
      then show ?thesis using uv C old by (auto simp: rep coalesced_def)
    qed
  next
    fix i assume "is_eliminated c' i"
    then show "i \<in> cand_inst ` set (done_cands @ [k])" using C by (auto simp: c' coalesced_def)
  next
    fix j assume j: "j \<in> set (done_cands @ [k])" "is_eliminated c' (cand_inst j)"
    show "representative c' (cand_dst j) = representative c' (cand_src j)"
    proof (cases "j = k")
      case True
      then show ?thesis using roots alone sd by (auto simp: rep)
    next
      case False
      then have "j \<in> set done_cands" using j by simp
      then have "cand_inst j \<noteq> cand_inst k" using new by auto
      then have "representative c (cand_dst j) = representative c (cand_src j)"
        using C j(2) \<open>j \<in> set done_cands\<close> by (simp add: coalesced_def c')
      then show ?thesis using alone[of "cand_dst j"] alone[of "cand_src j"] sd(1) unfolding rep by metis
    qed
  next
    show "same_code l0 l'" by (rule same)
    show "length (coalesce_map c') = length (ranges l0)" using len by (simp add: c')
  qed
  moreover have "\<forall>v < length (coalesce_map c'). coalesce_map c' ! v \<noteq> Some v"
    using loops roots(3) small(1) len(1) by (auto simp: c' nth_list_update)
  moreover have "\<forall>v q. range_of l' v = Some q \<longrightarrow> start_at q \<le> end_at q"
    using wf wf[OF rd] wf[OF rs] by (auto simp: m(1) min_def max_def split: if_splits)
  moreover have "\<exists>r. range_of l' (representative c' v) = Some r \<and> (\<exists>j \<in> set (done_cands @ [k]). start_at r \<le> cand_inst j)"
    if v: "representative c' v \<noteq> v" for v
  proof (cases "representative c' v = src")
    case True
    have "start_at rs \<le> cand_inst k" using wf[OF rs] order(1) by simp
    then show ?thesis using True by (auto simp: m(1) min_def intro!: bexI[of _ k])
  next
    case False
    then have "representative c v \<noteq> v" "v \<noteq> dst" using v by (auto simp: rep split: if_splits)
    then obtain r j where "range_of l (representative c v) = Some r" "j \<in> set done_cands" "start_at r \<le> cand_inst j"
      using inv by (auto simp: coalesce_inv_def)
    then show ?thesis using False alone \<open>v \<noteq> dst\<close> by (auto simp: rep m(1))
  qed
  ultimately show ?thesis by (auto simp: coalesce_inv_def)
qed

lemma coalesce_step_inv:
  assumes inv: "coalesce_inv l0 done_cands st" and new: "\<forall>j \<in> set done_cands. cand_inst j < cand_inst k"
  shows "\<exists>st'. coalesce_step k st = Some st' \<and> coalesce_inv l0 (done_cands @ [k]) st'"
proof -
  obtain c parent l where st: "st = (c, parent, l)" by (metis prod_cases3)
  have parent: "parent = coalesce_map c" and C: "coalesced l0 done_cands c l"
    and loops: "\<forall>v < length (coalesce_map c). coalesce_map c ! v \<noteq> Some v"
    using inv by (auto simp: coalesce_inv_def st)
  have idem: "representative c (representative c v) = representative c v" for v using C by (simp add: coalesced_def)
  define dst src where "dst = representative c (cand_dst k)" and "src = representative c (cand_src k)"
  have unmarked: "\<not> is_eliminated c (cand_inst k)" using C new unfolding coalesced_def by fastforce
  have keep: "coalesce_inv l0 (done_cands @ [k]) (c, parent, l)"
    using inv C unmarked unfolding st coalesce_inv_def coalesced_def by auto metis
  have mark: "coalesce_inv l0 (done_cands @ [k]) (mark_eliminated (cand_inst k) c, parent, l)" if same: "dst = src"
  proof -
    have rep: "representative (mark_eliminated (cand_inst k) c) = representative c" by (simp add: representative_def fun_eq_iff)
    have meets: "meet_at_move l0 c u v \<Longrightarrow> meet_at_move l0 (mark_eliminated (cand_inst k) c) u v" for u v
      unfolding meet_at_move_def by fastforce
    have "representative c (cand_dst k) = representative c (cand_src k)" using same by (simp add: dst_def src_def)
    then have "coalesced l0 (done_cands @ [k]) (mark_eliminated (cand_inst k) c) l"
      using C new unfolding coalesced_def rep by (auto intro: meets)
    then show ?thesis using inv unfolding coalesce_inv_def st by (auto simp: rep) metis
  qed
  have roots: "find_root parent (cand_dst k) = Some (dst, parent)" "find_root parent (cand_src k) = Some (src, parent)"
    using find_root_rep[OF idem loops] by (simp_all add: parent dst_def src_def)
  show ?thesis
  proof (cases "dst = src")
    case True
    then show ?thesis using mark roots by (simp add: coalesce_step_def st)
  next
    case False
    show ?thesis
    proof (cases "class_of_vreg l dst = class_of_vreg l src \<and> (\<exists>rd rs. range_of l dst = Some rd \<and> range_of l src = Some rs
        \<and> end_at rs \<le> cand_inst k \<and> cand_inst k \<le> start_at rd)")
      case True
      then obtain rd rs where r: "class_of_vreg l dst = class_of_vreg l src" "range_of l dst = Some rd" "range_of l src = Some rs"
        "end_at rs \<le> cand_inst k" "cand_inst k \<le> start_at rd" by blast
      have small: "dst < length (ranges l)" "src < length (ranges l)" using r by (auto simp: range_of_def split: if_splits)
      then obtain l' where l': "merge_into dst src l = Some l'" using r(1) by (auto simp: merge_into_def put_at_def Let_def)
      have n: "length (coalesce_map c) = length (ranges l)" using C by (simp add: coalesced_def same_code_def)
      define c' where "c' = mark_eliminated (cand_inst k) (c\<lparr>coalesce_map := (coalesce_map c)[dst := Some src]\<rparr>)"
      have "coalesce_inv l0 (done_cands @ [k]) (c', coalesce_map c', l')"
        using coalesce_merge[OF _ new _ _ False r l' c'_def] inv by (simp add: st parent dst_def src_def)
      moreover have "coalesce_step k st = Some (c', coalesce_map c', l')"
        using roots False r small n l' by (simp add: coalesce_step_def st put_at_def parent c'_def)
      ultimately show ?thesis by blast
    next
      case no: False
      then have "coalesce_step k st = Some (c, parent, l)"
        using roots False by (auto simp: coalesce_step_def st split: option.split)
      then show ?thesis using keep by simp
    qed
  qed
qed

lemma coalesce_result:
  assumes "sorted_wrt (<) (map cand_inst cands)" "length (ranges l0) < 2 ^ 32"
    and "\<forall>v q. range_of l0 v = Some q \<longrightarrow> start_at q \<le> end_at q"
  shows "\<exists>c l. coalesce cands l0 = Some (c, l) \<and> coalesced l0 cands c l
    \<and> (\<forall>v q. range_of l v = Some q \<longrightarrow> start_at q \<le> end_at q)"
proof -
  let ?n = "length (ranges l0)"
  have rep: "representative (with_vreg_count ?n) v = v" for v by (simp add: representative_def with_vreg_count_def)
  have none: "\<not> is_eliminated (with_vreg_count ?n) i" "coalesce_map (with_vreg_count ?n) = replicate ?n None" for i
    by (simp_all add: is_eliminated_def with_vreg_count_def)
  have "coalesce_inv l0 [] (with_vreg_count ?n, replicate ?n None, l0)"
    using assms(3) by (auto simp: coalesce_inv_def coalesced_def rep same_code_def covered_def none)
  moreover have "\<exists>st'. coalesce_step k st = Some st' \<and> coalesce_inv l0 (pre @ [k]) st'"
    if "cands = pre @ k # rest" "coalesce_inv l0 pre st" for pre k rest st
    using coalesce_step_inv[OF that(2), of k] assms(1) that(1) by (auto simp: sorted_wrt_append)
  ultimately obtain st where st: "fold_option coalesce_step cands (with_vreg_count ?n, replicate ?n None, l0) = Some st"
    "coalesce_inv l0 cands st"
    using fold_option_induct[where P = "coalesce_inv l0" and f = coalesce_step and xs = cands] by blast
  then show ?thesis using assms(2) by (cases st) (auto simp: coalesce_def Let_def coalesce_inv_def)
qed

end
