(* ===== verification/Frame_Layout.thy ===== *)
theory Frame_Layout
  imports Rue_Prelude
begin

text \<open>
  Stack frames: \<open>rue-codegen/src/frame_layout.rs\<close> with the budget of
  \<open>rue-air/src/layout.rs\<close>, the frame decisions of \<open>codegen_pipeline.rs\<close>, and the adjustment that both emitters make to offsets from the frame pointer.

  An unsigned integer is a \<open>nat\<close>, an \<open>i32\<close> an \<open>int\<close>, with the range checks of the source written
  out (\<open>within\<close>, \<open>to_i32\<close>, \<open>i32_ok\<close>).  A result that may be \<open>FrameBudgetExceeded\<close> is a sum; a panic
  is \<open>None\<close>.
\<close>

section \<open>Checked conversions\<close>

datatype frame_budget_exceeded = Frame_Budget_Exceeded

type_synonym 'a budgeted = "frame_budget_exceeded + 'a"

definition and_then :: "'a budgeted \<Rightarrow> ('a \<Rightarrow> 'b budgeted) \<Rightarrow> 'b budgeted" where
  "and_then r f = (case r of Inl e \<Rightarrow> Inl e | Inr x \<Rightarrow> f x)"

definition within :: "nat \<Rightarrow> nat \<Rightarrow> nat budgeted" where
  "within width n = (if n < 2 ^ width then Inr n else Inl Frame_Budget_Exceeded)"

definition to_i32 :: "nat \<Rightarrow> int budgeted" where
  "to_i32 n = (if n < 2 ^ 31 then Inr (int n) else Inl Frame_Budget_Exceeded)"

definition expect :: "'a budgeted \<Rightarrow> 'a option" where
  "expect r = (case r of Inl _ \<Rightarrow> None | Inr x \<Rightarrow> Some x)"

definition i32_ok :: "int \<Rightarrow> int option" where
  "i32_ok x = (if - (2 ^ 31) \<le> x \<and> x < 2 ^ 31 then Some x else None)"

definition i64_ok :: "int \<Rightarrow> int option" where
  "i64_ok x = (if - (2 ^ 63) \<le> x \<and> x < 2 ^ 63 then Some x else None)"

definition u64_ok :: "nat \<Rightarrow> nat option" where
  "u64_ok n = (if n < 2 ^ 64 then Some n else None)"

definition as_i32 :: "nat \<Rightarrow> int" where
  "as_i32 n = (int n + 2 ^ 31) mod 2 ^ 32 - 2 ^ 31"

definition as_u64 :: "int \<Rightarrow> nat" where
  "as_u64 x = nat (x mod 2 ^ 64)"

section \<open>Cells and regions\<close>

definition slot_bytes :: nat where "slot_bytes = 8"

definition stack_frame_alignment :: nat where "stack_frame_alignment = 16"

definition max_function_frame_bytes :: nat where
  "max_function_frame_bytes = ((2 ^ 31 - 1) div 16) * 16"

definition checked_function_frame_slots :: "nat \<Rightarrow> nat \<Rightarrow> nat option" where
  "checked_function_frame_slots current additional =
     (let total = current + additional
      in then_some (total \<le> max_function_frame_bytes div 8) total)"

definition frame_cell_bytes :: nat where "frame_cell_bytes = slot_bytes"

definition checked_aligned_region_bytes :: "nat \<Rightarrow> nat budgeted" where
  "checked_aligned_region_bytes bytes =
     and_then (within 64 (bytes + (stack_frame_alignment - 1))) (\<lambda>b.
       let aligned = b div stack_frame_alignment * stack_frame_alignment in
       if max_function_frame_bytes < aligned then Inl Frame_Budget_Exceeded else within 32 aligned)"

definition checked_cell_region_bytes :: "nat \<Rightarrow> nat budgeted" where
  "checked_cell_region_bytes num_cells =
     and_then (and_then (within 64 (num_cells * frame_cell_bytes))
         (\<lambda>bytes. if max_function_frame_bytes < bytes then Inl Frame_Budget_Exceeded else Inr bytes))
       (within 32)"

definition checked_aligned_cell_region_bytes :: "nat \<Rightarrow> nat budgeted" where
  "checked_aligned_cell_region_bytes num_cells =
     and_then (checked_cell_region_bytes num_cells) checked_aligned_region_bytes"

definition checked_cell_region_padding_bytes :: "nat \<Rightarrow> nat budgeted" where
  "checked_cell_region_padding_bytes num_cells =
     and_then (checked_cell_region_bytes num_cells) (\<lambda>raw.
     and_then (checked_aligned_cell_region_bytes num_cells) (\<lambda>aligned.
       if raw \<le> aligned then Inr (aligned - raw) else Inl Frame_Budget_Exceeded))"

definition checked_cell_byte_offset :: "nat \<Rightarrow> int budgeted" where
  "checked_cell_byte_offset cell_index = and_then (within 64 (cell_index * frame_cell_bytes)) to_i32"

definition slot_byte_offset :: "nat \<Rightarrow> int option" where
  "slot_byte_offset slot = expect (checked_cell_byte_offset slot)"

definition checked_displacement_bytes :: "nat \<Rightarrow> int budgeted" where
  "checked_displacement_bytes bytes = to_i32 bytes"

definition checked_incoming_stack_arg_offset :: "nat \<Rightarrow> nat \<Rightarrow> nat \<Rightarrow> int budgeted" where
  "checked_incoming_stack_arg_offset entry_base_bytes abi_index register_arg_count =
     and_then (if register_arg_count \<le> abi_index then Inr (abi_index - register_arg_count) else Inl Frame_Budget_Exceeded)
       (\<lambda>stack_index. and_then (checked_cell_byte_offset stack_index) (\<lambda>cell_offset.
          and_then (if cell_offset < 0 then Inl Frame_Budget_Exceeded else Inr (nat cell_offset)) (\<lambda>cell.
          and_then (within 64 (entry_base_bytes + cell)) to_i32)))"

definition checked_incoming_stack_arg_byte_offset :: "nat \<Rightarrow> nat \<Rightarrow> int budgeted" where
  "checked_incoming_stack_arg_byte_offset entry_base_bytes area_offset =
     and_then (within 64 (entry_base_bytes + area_offset)) to_i32"

definition checked_call_area_from_stack_bytes :: "nat \<Rightarrow> nat \<Rightarrow> nat \<Rightarrow> nat budgeted" where
  "checked_call_area_from_stack_bytes stack_bytes sret_storage_bytes indirect_argument_bytes =
     and_then (and_then (within 64 (sret_storage_bytes + indirect_argument_bytes)) (\<lambda>bytes. within 64 (bytes + stack_bytes)))
       checked_aligned_region_bytes"

definition checked_call_area_bytes :: "nat \<Rightarrow> nat \<Rightarrow> nat \<Rightarrow> nat budgeted" where
  "checked_call_area_bytes stack_slots sret_storage_bytes indirect_argument_bytes =
     and_then (checked_aligned_cell_region_bytes stack_slots) (\<lambda>stack_bytes.
       checked_call_area_from_stack_bytes stack_bytes sret_storage_bytes indirect_argument_bytes)"

definition slot_offset_pre_saved :: "nat \<Rightarrow> int option" where
  "slot_offset_pre_saved slot =
     Option.bind (expect (checked_cell_byte_offset (slot + 1))) (\<lambda>offset. i32_ok (- offset))"

definition slot_region_bytes :: "nat \<Rightarrow> int option" where
  "slot_region_bytes num_slots = expect (to_i32 (frame_cell_bytes * num_slots))"

definition align_frame_size :: "int \<Rightarrow> int option" where
  "align_frame_size bytes =
     Option.bind (expect (checked_aligned_region_bytes (as_u64 bytes))) (\<lambda>aligned. expect (to_i32 aligned))"

section \<open>Saved registers\<close>

datatype frame_pointer = Established | Pointer_Omitted

datatype saved_reg_scheme = X86_64 | Aarch64

definition aarch64_callee_saved_pairs_bytes :: "nat \<Rightarrow> nat option" where
  "aarch64_callee_saved_pairs_bytes num_callee_saved =
     Option.bind (u64_ok (num_callee_saved + 1)) (\<lambda>n.
       let pairs = n div 2 in u64_ok (pairs * stack_frame_alignment))"

definition callee_saved_bytes :: "saved_reg_scheme \<Rightarrow> nat \<Rightarrow> nat option" where
  "callee_saved_bytes sch num_callee_saved =
     (case sch of
        X86_64 \<Rightarrow> u64_ok (num_callee_saved * frame_cell_bytes)
      | Aarch64 \<Rightarrow> aarch64_callee_saved_pairs_bytes num_callee_saved)"

definition saved_area_bytes :: "saved_reg_scheme \<Rightarrow> nat \<Rightarrow> nat option" where
  "saved_area_bytes sch num_callee_saved =
     (case sch of
        X86_64 \<Rightarrow> callee_saved_bytes X86_64 num_callee_saved
      | Aarch64 \<Rightarrow> Option.bind (callee_saved_bytes Aarch64 num_callee_saved)
          (\<lambda>bytes. u64_ok (stack_frame_alignment + bytes)))"

definition aarch64_slot_offset :: "nat \<Rightarrow> nat \<Rightarrow> int option" where
  "aarch64_slot_offset num_callee_saved slot =
     Option.bind (aarch64_callee_saved_pairs_bytes num_callee_saved) (\<lambda>bytes.
     Option.bind (i32_ok (- as_i32 bytes)) (\<lambda>below.
     Option.bind (slot_offset_pre_saved slot) (\<lambda>offset. i32_ok (below + offset))))"

definition aarch64_callee_saved_pair_offset :: "nat \<Rightarrow> int option" where
  "aarch64_callee_saved_pair_offset pair_index =
     Option.bind (i32_ok (as_i32 pair_index + 1)) (\<lambda>k. i32_ok (- int stack_frame_alignment * k))"

section \<open>The layout of a frame\<close>

record frame_layout =
  layout_scheme :: saved_reg_scheme
  layout_pointer :: frame_pointer
  layout_saved :: nat
  layout_slots :: nat

definition frameless :: "saved_reg_scheme \<Rightarrow> nat \<Rightarrow> frame_layout option" where
  "frameless sch num_callee_saved =
     map_option (\<lambda>bytes. \<lparr>layout_scheme = sch, layout_pointer = Pointer_Omitted, layout_saved = bytes, layout_slots = 0\<rparr>)
       (callee_saved_bytes sch num_callee_saved)"

definition try_new :: "saved_reg_scheme \<Rightarrow> nat \<Rightarrow> nat \<Rightarrow> frame_layout budgeted option" where
  "try_new sch num_callee_saved num_slots =
     Option.bind (saved_area_bytes sch num_callee_saved) (\<lambda>saved. Some (
       and_then (within 64 (frame_cell_bytes * num_slots)) (\<lambda>slots.
       and_then (case sch of X86_64 \<Rightarrow> within 64 (saved + slots) | Aarch64 \<Rightarrow> Inr slots) (\<lambda>unaligned.
       and_then (checked_aligned_region_bytes unaligned) (\<lambda>_.
       and_then (if sch = Aarch64
                 then and_then (checked_aligned_region_bytes slots) (\<lambda>aligned.
                   and_then (within 64 (saved + aligned)) (\<lambda>bytes.
                     if max_function_frame_bytes < bytes then Inl Frame_Budget_Exceeded else Inr ()))
                 else Inr ()) (\<lambda>_.
         Inr \<lparr>layout_scheme = sch, layout_pointer = Established, layout_saved = saved, layout_slots = num_slots\<rparr>))))))"

definition layout_saved_bytes :: "frame_layout \<Rightarrow> int" where
  "layout_saved_bytes l = as_i32 (layout_saved l)"

definition slot_offset :: "frame_layout \<Rightarrow> nat \<Rightarrow> int option" where
  "slot_offset l slot =
     Option.bind (i32_ok (- layout_saved_bytes l)) (\<lambda>below.
     Option.bind (slot_offset_pre_saved slot) (\<lambda>offset. i32_ok (below + offset)))"

definition layout_alignment :: "frame_layout \<Rightarrow> nat" where
  "layout_alignment l =
     (case (layout_pointer l, layout_scheme l) of
        (Pointer_Omitted, X86_64) \<Rightarrow> frame_cell_bytes | _ \<Rightarrow> stack_frame_alignment)"

definition slot_size :: "frame_layout \<Rightarrow> nat \<Rightarrow> nat" where
  "slot_size l slot = frame_cell_bytes"

definition frame_size :: "frame_layout \<Rightarrow> nat option" where
  "frame_size l =
     (if layout_pointer l = Pointer_Omitted then Some (layout_saved l)
      else Option.bind (slot_region_bytes (layout_slots l)) (\<lambda>slots.
        case layout_scheme l of
          X86_64 \<Rightarrow> Option.bind (i32_ok (layout_saved_bytes l + slots)) (\<lambda>bytes.
            map_option as_u64 (align_frame_size bytes))
        | Aarch64 \<Rightarrow> Option.bind (align_frame_size slots) (\<lambda>bytes. u64_ok (layout_saved l + as_u64 bytes))))"

section \<open>The frame of a compiled function\<close>

fun slot_sum_from :: "nat \<Rightarrow> nat list \<Rightarrow> nat option" where
  "slot_sum_from acc [] = Some acc"
| "slot_sum_from acc (part # parts) = (if acc + part < 2 ^ 32 then slot_sum_from (acc + part) parts else None)"

definition checked_slot_sum :: "nat list \<Rightarrow> nat option" where
  "checked_slot_sum parts = slot_sum_from 0 parts"

definition plan_frame_pointer :: "nat \<Rightarrow> bool \<Rightarrow> frame_pointer" where
  "plan_frame_pointer total_slots is_leaf = (if total_slots = 0 \<and> is_leaf then Pointer_Omitted else Established)"

definition existing_slots :: "nat \<Rightarrow> nat \<Rightarrow> bool \<Rightarrow> nat budgeted" where
  "existing_slots frame_local_slots homed_param_slots has_sret =
     (case checked_slot_sum [frame_local_slots, homed_param_slots, of_bool has_sret] of
        None \<Rightarrow> Inl Frame_Budget_Exceeded | Some n \<Rightarrow> Inr n)"

definition plan_frame ::
  "saved_reg_scheme \<Rightarrow> bool \<Rightarrow> nat \<Rightarrow> nat \<Rightarrow> nat \<Rightarrow> bool \<Rightarrow> nat \<Rightarrow> (nat \<times> frame_layout) budgeted option" where
  "plan_frame sch is_leaf frame_local_slots num_spills homed_param_slots has_sret num_callee_saved =
     (case checked_slot_sum [frame_local_slots, num_spills] of
        None \<Rightarrow> Some (Inl Frame_Budget_Exceeded)
      | Some total_locals \<Rightarrow>
         (case checked_slot_sum [total_locals, homed_param_slots, of_bool has_sret] of
            None \<Rightarrow> Some (Inl Frame_Budget_Exceeded)
          | Some total_slots \<Rightarrow>
             (case plan_frame_pointer total_slots is_leaf of
                Pointer_Omitted \<Rightarrow> map_option (\<lambda>l. Inr (total_locals, l)) (frameless sch num_callee_saved)
              | Established \<Rightarrow> map_option (map_sum id (Pair total_locals)) (try_new sch num_callee_saved total_slots))))"

section \<open>Offsets in emitted code\<close>

record frame_emitter =
  emitter_callee_saved :: nat
  emitter_frameless :: bool
  emitter_frame_reference :: bool

definition note_frame_reference :: "frame_emitter \<Rightarrow> frame_emitter" where
  "note_frame_reference e = (if emitter_frameless e then e\<lparr>emitter_frame_reference := True\<rparr> else e)"

definition x86_64_adjust_fp_offset :: "bool \<Rightarrow> int \<Rightarrow> frame_emitter \<Rightarrow> (int \<times> frame_emitter) option" where
  "x86_64_adjust_fp_offset base_is_fp offset e =
     (if \<not> base_is_fp then Some (offset, e)
      else let e = note_frame_reference e in
        if offset < 0
        then Option.bind (saved_area_bytes X86_64 (emitter_callee_saved e)) (\<lambda>bytes.
          map_option (\<lambda>adjusted. (adjusted, e)) (i32_ok (offset - as_i32 bytes)))
        else Some (offset, e))"

definition aarch64_adjust_fp_offset :: "bool \<Rightarrow> int \<Rightarrow> frame_emitter \<Rightarrow> (int \<times> frame_emitter) option" where
  "aarch64_adjust_fp_offset base_is_fp offset e =
     (if \<not> base_is_fp then Some (offset, e)
      else let e = note_frame_reference e in
        if offset < 0
        then Option.bind (aarch64_callee_saved_pairs_bytes (emitter_callee_saved e)) (\<lambda>bytes.
          map_option (\<lambda>adjusted. (adjusted, e)) (i64_ok (offset - wrap_i64 (int bytes))))
        else Some (offset, e))"

end
