(* ===== verification/Alloc_Driver.thy ===== *)
theory Alloc_Driver
  imports Linear_Scan Frame_Layout
begin

text \<open>
  The lifecycle of register allocation: \<open>RegAllocDriver\<close> and \<open>rematerialization_info\<close> of
  \<open>rue-codegen/src/regalloc.rs\<close>.

  The trait \<open>RegAllocBackend\<close> is a record of functions over an opaque machine representation.  A
  cancellation authority is a function from the number of the check to its answer; the authority
  \<open>NONE\<close> answers no.  The outer \<open>None\<close> is a panic, an error of the compilation an \<open>Inl\<close>.
\<close>

section \<open>The backend\<close>

datatype 'e alloc_error = Canceled | Function_frame_too_large nat | Backend_error 'e

record 'r allocation_context =
  ctx_allocation :: "'r allocation option list"
  ctx_coalesce :: coalesce_result

record 'i rewrite_buffer =
  before_insts :: "'i list"
  main_insts :: "'i list"
  after_insts :: "'i list"

record ('m, 'i, 'r, 'e) regalloc_backend =
  backend_vreg_count :: "'m \<Rightarrow> nat"
  backend_instructions :: "'m \<Rightarrow> 'i list"
  backend_defs :: "'i \<Rightarrow> nat list"
  rematerialization :: "'i \<Rightarrow> (nat \<times> remat_op) option"
  backend_analyze_with_loops :: "'m \<Rightarrow> ('r liveness_info \<times> loop_info) option"
  backend_analyze_with_debug_and_loops :: "'m \<Rightarrow> ('r liveness_info \<times> liveness_debug_info \<times> loop_info) option"
  coalesce_candidates :: "'i list \<Rightarrow> coalesce_candidate list"
  backend_register_file :: "'r register_file"
  physical_operands :: "'i \<Rightarrow> 'r list"
  new_mir :: 'm
  take_symbols :: "'m \<Rightarrow> string list \<times> 'm"
  set_symbols :: "string list \<Rightarrow> 'm \<Rightarrow> 'm"
  into_instructions :: "'m \<Rightarrow> 'i list"
  push_inst :: "'i \<Rightarrow> 'm \<Rightarrow> 'm"
  rewrite_inst :: "'r allocation_context \<Rightarrow> 'i \<Rightarrow> 'i rewrite_buffer \<Rightarrow> ('e alloc_error + 'i rewrite_buffer) option"

definition allocation_of :: "'r allocation_context \<Rightarrow> nat \<Rightarrow> 'r allocation option option" where
  "allocation_of ctx v = get_at (ctx_allocation ctx) (representative (ctx_coalesce ctx) v)"

definition empty_buffer :: "'i rewrite_buffer" where
  "empty_buffer = \<lparr>before_insts = [], main_insts = [], after_insts = []\<rparr>"

definition push_before :: "'i \<Rightarrow> 'i rewrite_buffer \<Rightarrow> 'i rewrite_buffer" where
  "push_before i b = b\<lparr>before_insts := before_insts b @ [i]\<rparr>"

definition push_main :: "'i \<Rightarrow> 'i rewrite_buffer \<Rightarrow> 'i rewrite_buffer" where
  "push_main i b = b\<lparr>main_insts := main_insts b @ [i]\<rparr>"

definition push_after :: "'i \<Rightarrow> 'i rewrite_buffer \<Rightarrow> 'i rewrite_buffer" where
  "push_after i b = b\<lparr>after_insts := after_insts b @ [i]\<rparr>"

definition drain_ordered :: "'i rewrite_buffer \<Rightarrow> 'i list" where
  "drain_ordered b = before_insts b @ main_insts b @ after_insts b"

section \<open>Rematerialisation\<close>

datatype remat_state = Unknown | Eligible remat_op | Ineligible

definition join_recipe :: "remat_state \<Rightarrow> remat_op option \<Rightarrow> remat_state" where
  "join_recipe s recipe =
     (case (s, recipe) of
        (Ineligible, _) \<Rightarrow> Ineligible
      | (Unknown, Some op) \<Rightarrow> Eligible op
      | (Eligible old, Some op) \<Rightarrow> if old = op then Eligible old else Ineligible
      | _ \<Rightarrow> Ineligible)"

definition note_definition ::
  "('m, 'i, 'r, 'e) regalloc_backend \<Rightarrow> coalesce_result \<Rightarrow> 'i \<Rightarrow> nat \<Rightarrow> remat_state list \<Rightarrow> remat_state list option" where
  "note_definition b c inst defined states =
     (let rep = representative c defined;
          recipe = (case rematerialization b inst of
            Some (v, op) \<Rightarrow> if v = defined then Some op else None | None \<Rightarrow> None)
      in Option.bind (get_at states rep) (\<lambda>s. put_at states rep (join_recipe s recipe)))"

definition rematerialization_info :: "('m, 'i, 'r, 'e) regalloc_backend \<Rightarrow> 'm \<Rightarrow> coalesce_result \<Rightarrow> remat_op option list option" where
  "rematerialization_info b mir c =
     Option.bind (fold_option (\<lambda>(idx, inst) states.
         if is_eliminated c idx then Some states
         else fold_option (note_definition b c inst) (backend_defs b inst) states)
       (enumerate 0 (backend_instructions b mir)) (replicate (backend_vreg_count b mir) Unknown))
       (\<lambda>states. Some (map (\<lambda>s. case s of Eligible op \<Rightarrow> Some op | _ \<Rightarrow> None) states))"

section \<open>The driver\<close>

record ('m, 'r) alloc_driver =
  driver_mir :: 'm
  driver_allocation :: "'r allocation option list"
  vreg_info :: "remat_op option list"
  driver_liveness :: "'r liveness_info"
  liveness_debug :: "liveness_debug_info option"
  driver_loops :: loop_info
  driver_coalesce :: coalesce_result
  num_spills :: nat
  used_callee_saved :: "'r list"
  driver_locals :: nat

definition names_no_allocatable :: "('m, 'i, 'r, 'e) regalloc_backend \<Rightarrow> 'm \<Rightarrow> bool" where
  "names_no_allocatable b mir =
     list_all (\<lambda>inst. list_all (\<lambda>reg. list_all (\<lambda>class.
         reg \<notin> set (caller_saved (backend_register_file b class))
         \<and> reg \<notin> set (callee_saved (backend_register_file b class))) class_all)
       (physical_operands b inst)) (backend_instructions b mir)"

definition new_with_artifacts ::
  "('m, 'i, 'r, 'e) regalloc_backend \<Rightarrow> 'm \<Rightarrow> nat \<Rightarrow> bool \<Rightarrow> ('m, 'r) alloc_driver option" where
  "new_with_artifacts b mir existing_locals capture_liveness =
     (if \<not> names_no_allocatable b mir then None
      else Option.bind (if capture_liveness
          then map_option (\<lambda>(l, d, loops). (l, Some d, loops)) (backend_analyze_with_debug_and_loops b mir)
          else map_option (\<lambda>(l, loops). (l, None, loops)) (backend_analyze_with_loops b mir))
        (\<lambda>(l, debug, loops).
          if (of_nat (length (info_classes l)) :: u32) \<noteq> of_nat (backend_vreg_count b mir) then None
          else Option.bind (coalesce (coalesce_candidates b (backend_instructions b mir)) l) (\<lambda>(c, l).
            Option.bind (rematerialization_info b mir c) (\<lambda>infos.
              Some \<lparr>driver_mir = mir, driver_allocation = replicate (backend_vreg_count b mir) None, vreg_info = infos,
                driver_liveness = l, liveness_debug = debug, driver_loops = loops, driver_coalesce = c,
                num_spills = 0, used_callee_saved = [], driver_locals = existing_locals\<rparr>))))"

definition assign_registers_with_debug ::
  "('m, 'i, 'r, 'e) regalloc_backend \<Rightarrow> bool \<Rightarrow> ('m, 'r) alloc_driver \<Rightarrow> (('m, 'r) alloc_driver \<times> 'r regalloc_debug_info) option" where
  "assign_registers_with_debug b collect_debug d =
     Option.bind (linear_scan_impl_with_remat (backend_vreg_count b (driver_mir d)) (driver_liveness d)
         (backend_register_file b) (driver_locals d) collect_debug default_cost_model (driver_loops d) (vreg_info d))
       (\<lambda>(allocation, spills, used, debug).
         Some (d\<lparr>driver_allocation := allocation, num_spills := spills, used_callee_saved := used\<rparr>, debug))"

definition assign_registers ::
  "('m, 'i, 'r, 'e) regalloc_backend \<Rightarrow> ('m, 'r) alloc_driver \<Rightarrow> ('m, 'r) alloc_driver option" where
  "assign_registers b d = map_option fst (assign_registers_with_debug b False d)"

definition validate_spill_budget :: "('m, 'r) alloc_driver \<Rightarrow> 'e alloc_error + unit" where
  "validate_spill_budget d =
     (case checked_function_frame_slots (driver_locals d) (num_spills d) of
        Some _ \<Rightarrow> Inr () | None \<Rightarrow> Inl (Function_frame_too_large max_function_frame_bytes))"

definition rematerialized_here :: "('m, 'i, 'r, 'e) regalloc_backend \<Rightarrow> 'r allocation_context \<Rightarrow> 'i \<Rightarrow> bool option" where
  "rematerialized_here b ctx inst =
     (case rematerialization b inst of
        None \<Rightarrow> Some False
      | Some (defined, recipe) \<Rightarrow> map_option (\<lambda>a. case a of Some (Rematerialize sel) \<Rightarrow> sel = recipe | _ \<Rightarrow> False)
          (allocation_of ctx defined))"

primrec rewrite_from ::
  "('m, 'i, 'r, 'e) regalloc_backend \<Rightarrow> 'r allocation_context \<Rightarrow> (nat \<Rightarrow> bool) \<Rightarrow> nat \<Rightarrow> 'i list \<Rightarrow> 'm
     \<Rightarrow> ('e alloc_error + 'm) option" where
  "rewrite_from b ctx canceled idx [] mir = Some (Inr mir)"
| "rewrite_from b ctx canceled idx (inst # insts) mir =
     (if canceled (idx + 2) then Some (Inl Canceled)
      else if is_eliminated (ctx_coalesce ctx) idx then rewrite_from b ctx canceled (idx + 1) insts mir
      else Option.bind (rematerialized_here b ctx inst) (\<lambda>skip.
        if skip then rewrite_from b ctx canceled (idx + 1) insts mir
        else Option.bind (rewrite_inst b ctx inst empty_buffer) (\<lambda>res. case res of
            Inl e \<Rightarrow> Some (Inl e)
          | Inr buffer \<Rightarrow> rewrite_from b ctx canceled (idx + 1) insts
              (fold (push_inst b) (drain_ordered buffer) mir))))"

definition rewrite_instructions ::
  "('m, 'i, 'r, 'e) regalloc_backend \<Rightarrow> (nat \<Rightarrow> bool) \<Rightarrow> ('m, 'r) alloc_driver
     \<Rightarrow> ('e alloc_error + ('m, 'r) alloc_driver) option" where
  "rewrite_instructions b canceled d =
     (case take_symbols b (driver_mir d) of (symbols, mir) \<Rightarrow>
        map_option (map_sum id (\<lambda>m. d\<lparr>driver_mir := m\<rparr>))
          (rewrite_from b \<lparr>ctx_allocation = driver_allocation d, ctx_coalesce = driver_coalesce d\<rparr> canceled 0
            (into_instructions b mir) (set_symbols b symbols (new_mir b))))"

text \<open>The checks are numbered: 0 and 1 around the assignment, then one per instruction.\<close>

definition finish_allocation ::
  "('m, 'i, 'r, 'e) regalloc_backend \<Rightarrow> (nat \<Rightarrow> bool) \<Rightarrow> ('m, 'r) alloc_driver
     \<Rightarrow> ('e alloc_error + ('m, 'r) alloc_driver) option" where
  "finish_allocation b canceled d =
     (case validate_spill_budget d of Inl e \<Rightarrow> Some (Inl e) | Inr _ \<Rightarrow> rewrite_instructions b canceled d)"

definition allocate_with_artifacts ::
  "('m, 'i, 'r, 'e) regalloc_backend \<Rightarrow> bool \<Rightarrow> (nat \<Rightarrow> bool) \<Rightarrow> ('m, 'r) alloc_driver
     \<Rightarrow> ('e alloc_error + 'm \<times> nat \<times> 'r list \<times> liveness_debug_info option \<times> 'r regalloc_debug_info option) option" where
  "allocate_with_artifacts b capture_regalloc canceled d =
     (if canceled 0 then Some (Inl Canceled)
      else Option.bind (if capture_regalloc
          then map_option (\<lambda>(d, debug). (d, Some debug)) (assign_registers_with_debug b True d)
          else map_option (\<lambda>d. (d, None)) (assign_registers b d)) (\<lambda>(d, debug).
        if canceled 1 then Some (Inl Canceled)
        else map_option (map_sum id (\<lambda>d. (driver_mir d, num_spills d, used_callee_saved d, liveness_debug d, debug)))
          (finish_allocation b canceled d)))"

definition never_canceled :: "nat \<Rightarrow> bool" where
  "never_canceled n = False"

definition allocate_with_spills ::
  "('m, 'i, 'r, 'e) regalloc_backend \<Rightarrow> ('m, 'r) alloc_driver \<Rightarrow> ('e alloc_error + 'm \<times> nat \<times> 'r list) option" where
  "allocate_with_spills b d =
     Option.bind (assign_registers b d) (\<lambda>d.
       map_option (map_sum id (\<lambda>d. (driver_mir d, num_spills d, used_callee_saved d))) (finish_allocation b never_canceled d))"

definition allocate_mir ::
  "('m, 'i, 'r, 'e) regalloc_backend \<Rightarrow> ('m, 'r) alloc_driver \<Rightarrow> ('e alloc_error + 'm) option" where
  "allocate_mir b d =
     Option.bind (assign_registers b d) (\<lambda>d. map_option (map_sum id driver_mir) (finish_allocation b never_canceled d))"

definition allocate_with_debug ::
  "('m, 'i, 'r, 'e) regalloc_backend \<Rightarrow> ('m, 'r) alloc_driver
     \<Rightarrow> ('e alloc_error + 'm \<times> nat \<times> 'r list \<times> 'r regalloc_debug_info) option" where
  "allocate_with_debug b d =
     Option.bind (assign_registers_with_debug b True d) (\<lambda>(d, debug).
       map_option (map_sum id (\<lambda>d. (driver_mir d, num_spills d, used_callee_saved d, debug)))
         (finish_allocation b never_canceled d))"

end
