(* ===== verification/Remat_Recipes.thy ===== *)
theory Remat_Recipes
  imports Alloc_Driver
begin

text \<open>
  The recipes of rematerialisation: a coalesced value has a recipe exactly when it is defined and
  all its definitions that are not deleted moves give that recipe.
\<close>

text \<open>The join of the recipes of a list of definitions, in any order.\<close>

definition joined :: "remat_op option list \<Rightarrow> remat_state" where
  "joined recipes = (if recipes = [] then Unknown
     else if \<exists>op. \<forall>r \<in> set recipes. r = Some op then Eligible (the (hd recipes)) else Ineligible)"

lemma joined_Nil [simp]: "joined [] = Unknown"
  by (simp add: joined_def)

lemma joined_Eligible: "joined recipes = Eligible op \<longleftrightarrow> recipes \<noteq> [] \<and> (\<forall>r \<in> set recipes. r = Some op)"
  by (cases recipes) (auto simp: joined_def)

lemma join_joined: "join_recipe (joined recipes) r = joined (recipes @ [r])"
proof (cases recipes)
  case (Cons a as)
  then show ?thesis
    by (cases "\<exists>op. \<forall>r \<in> set recipes. r = Some op"; cases r) (auto simp: joined_def join_recipe_def)
qed (auto simp: joined_def join_recipe_def split: option.split)

definition recipe_at :: "('m, 'i, 'r, 'e) regalloc_backend \<Rightarrow> 'i \<Rightarrow> nat \<Rightarrow> remat_op option" where
  "recipe_at b inst defined = (case rematerialization b inst of
     Some (v, op) \<Rightarrow> if v = defined then Some op else None | None \<Rightarrow> None)"

lemma recipe_at_Some: "recipe_at b inst d = Some op \<longleftrightarrow> rematerialization b inst = Some (d, op)"
  by (auto simp: recipe_at_def split: option.split)

text \<open>The definitions that count, in the order of the code.\<close>

definition noted :: "('m, 'i, 'r, 'e) regalloc_backend \<Rightarrow> coalesce_result \<Rightarrow> nat \<times> 'i \<Rightarrow> ('i \<times> nat) list" where
  "noted b c row = (case row of (idx, inst) \<Rightarrow> if is_eliminated c idx then [] else map (Pair inst) (backend_defs b inst))"

definition recipes_of :: "('m, 'i, 'r, 'e) regalloc_backend \<Rightarrow> coalesce_result \<Rightarrow> ('i \<times> nat) list \<Rightarrow> nat \<Rightarrow> remat_op option list" where
  "recipes_of b c ds x = map (\<lambda>(inst, d). recipe_at b inst d) (filter (\<lambda>(_, d). representative c d = x) ds)"

lemma note_definition_joined:
  assumes "representative c d < w"
  shows "note_definition b c inst d (map (\<lambda>x. joined (recipes_of b c ds x)) [0..<w])
    = Some (map (\<lambda>x. joined (recipes_of b c (ds @ [(inst, d)]) x)) [0..<w])"
proof -
  have "(map (\<lambda>x. joined (recipes_of b c ds x)) [0..<w])
      [representative c d := join_recipe (joined (recipes_of b c ds (representative c d))) (recipe_at b inst d)]
    = map (\<lambda>x. joined (recipes_of b c (ds @ [(inst, d)]) x)) [0..<w]"
    by (rule nth_equalityI) (auto simp: nth_list_update recipes_of_def join_joined)
  then show ?thesis using assms
    by (simp add: note_definition_def Let_def bind_eq_Some_conv flip: recipe_at_def)
qed

lemma note_definitions_joined:
  assumes "\<forall>d \<in> set defs. representative c d < w"
  shows "fold_option (note_definition b c inst) defs (map (\<lambda>x. joined (recipes_of b c ds x)) [0..<w])
    = Some (map (\<lambda>x. joined (recipes_of b c (ds @ map (Pair inst) defs) x)) [0..<w])"
  using assms
proof (induction defs arbitrary: ds)
  case (Cons d defs)
  then show ?case using note_definition_joined[of c d w b inst ds] Cons.IH[of "ds @ [(inst, d)]"] by simp
qed simp

lemma note_rows_joined:
  assumes "\<forall>row \<in> set rows. \<not> is_eliminated c (fst row) \<longrightarrow> (\<forall>d \<in> set (backend_defs b (snd row)). representative c d < w)"
  shows "fold_option (\<lambda>(idx, inst) states. if is_eliminated c idx then Some states
        else fold_option (note_definition b c inst) (backend_defs b inst) states) rows
      (map (\<lambda>x. joined (recipes_of b c ds x)) [0..<w])
    = Some (map (\<lambda>x. joined (recipes_of b c (ds @ concat (map (noted b c) rows)) x)) [0..<w])"
  using assms
proof (induction rows arbitrary: ds)
  case (Cons row rows)
  then show ?case
    using note_definitions_joined[of "backend_defs b (snd row)" c w b "snd row" ds] Cons.IH[of ds]
      Cons.IH[of "ds @ map (Pair (snd row)) (backend_defs b (snd row))"]
    by (cases row) (auto simp: noted_def)
qed simp

text \<open>The instructions define the value, and every definition that counts gives the recipe.\<close>

definition recomputes :: "('m, 'i, 'r, 'e) regalloc_backend \<Rightarrow> 'm \<Rightarrow> coalesce_result \<Rightarrow> nat \<Rightarrow> remat_op \<Rightarrow> bool" where
  "recomputes b mir c x op \<longleftrightarrow> (let def_at = (\<lambda>idx d. idx < length (backend_instructions b mir) \<and> \<not> is_eliminated c idx
        \<and> d \<in> set (backend_defs b (backend_instructions b mir ! idx)) \<and> representative c d = x)
     in (\<exists>idx d. def_at idx d)
       \<and> (\<forall>idx d. def_at idx d \<longrightarrow> rematerialization b (backend_instructions b mir ! idx) = Some (d, op)))"

lemma recipes_exact:
  assumes "\<And>idx d. idx < length (backend_instructions b mir) \<Longrightarrow> \<not> is_eliminated c idx
      \<Longrightarrow> d \<in> set (backend_defs b (backend_instructions b mir ! idx)) \<Longrightarrow> representative c d < backend_vreg_count b mir"
  shows "\<exists>infos. rematerialization_info b mir c = Some infos \<and> length infos = backend_vreg_count b mir
    \<and> (\<forall>x < backend_vreg_count b mir. \<forall>op. infos ! x = Some op \<longleftrightarrow> recomputes b mir c x op)"
proof -
  let ?insts = "backend_instructions b mir" and ?w = "backend_vreg_count b mir"
  let ?ds = "concat (map (noted b c) (enumerate 0 ?insts))"
  let ?states = "map (\<lambda>x. joined (recipes_of b c ?ds x)) [0..<?w]"
  have "replicate ?w Unknown = map (\<lambda>x. joined (recipes_of b c [] x)) [0..<?w]"
    by (simp add: recipes_of_def map_replicate_trivial)
  then have run: "rematerialization_info b mir c = Some (map (\<lambda>s. case s of Eligible op \<Rightarrow> Some op | _ \<Rightarrow> None) ?states)"
    using note_rows_joined[of "enumerate 0 ?insts" c b ?w "[]"] assms
    by (fastforce simp: rematerialization_info_def in_set_enumerate_eq)
  have mem: "(inst, d) \<in> set ?ds \<longleftrightarrow> (\<exists>idx < length ?insts. \<not> is_eliminated c idx \<and> ?insts ! idx = inst \<and> d \<in> set (backend_defs b inst))"
    for inst d by (force simp: noted_def in_set_enumerate_eq split: if_splits)
  have eq: "recomputes b mir c x op \<longleftrightarrow> joined (recipes_of b c ?ds x) = Eligible op" for x op
  proof -
    have "joined (recipes_of b c ?ds x) = Eligible op \<longleftrightarrow> (\<exists>inst d. (inst, d) \<in> set ?ds \<and> representative c d = x)
        \<and> (\<forall>inst d. (inst, d) \<in> set ?ds \<and> representative c d = x \<longrightarrow> recipe_at b inst d = Some op)"
      unfolding joined_Eligible recipes_of_def by (auto simp: filter_empty_conv simp del: set_concat)
    then show ?thesis unfolding mem recipe_at_Some recomputes_def Let_def by blast
  qed
  show ?thesis using run by (auto simp: eq split: remat_state.split)
qed

end
