(* ===== verification/Live_Sets.thy ===== *)
theory Live_Sets
  imports Liveness "HOL-Library.Multiset"
begin

text \<open>
  The live set under construction implements sets of registers: the position table validates
  itself, so membership is exact without ever clearing the table.  The locale states what the
  solver needs of such a set; it is interpreted on the operations of \<open>Liveness\<close>.
\<close>

section \<open>The contract\<close>

definition row_step :: "nat list list \<Rightarrow> nat list list \<Rightarrow> nat \<Rightarrow> nat set \<Rightarrow> nat set" where
  "row_step inst_uses inst_defs i X = set (inst_uses ! i) \<union> (X - set (inst_defs ! i))"

definition backward :: "nat list list \<Rightarrow> nat list list \<Rightarrow> nat list \<Rightarrow> nat set \<Rightarrow> nat set" where
  "backward inst_uses inst_defs idxs X = foldl (\<lambda>X i. row_step inst_uses inst_defs i X) X idxs"

locale register_set =
  fixes ok :: "'s \<Rightarrow> bool" and elems :: "'s \<Rightarrow> nat set" and universe :: "nat set"
    and ins rem :: "nat \<Rightarrow> 's \<Rightarrow> 's option"
  assumes ins: "ok s \<Longrightarrow> v \<in> universe \<Longrightarrow> \<exists>s'. ins v s = Some s' \<and> ok s' \<and> elems s' = insert v (elems s)"
    and rem: "ok s \<Longrightarrow> v \<in> universe \<Longrightarrow> \<exists>s'. rem v s = Some s' \<and> ok s' \<and> elems s' = elems s - {v}"
begin

lemma ins_all:
  assumes "ok s" "set vs \<subseteq> universe"
  shows "\<exists>s'. fold_option ins vs s = Some s' \<and> ok s' \<and> elems s' = elems s \<union> set vs"
  using assms
proof (induction vs arbitrary: s)
  case (Cons v vs)
  then obtain s' where "ins v s = Some s'" "ok s'" "elems s' = insert v (elems s)" using ins[of s v] by auto
  then show ?case using Cons.IH[of s'] Cons.prems by auto
qed simp

lemma rem_all:
  assumes "ok s" "set vs \<subseteq> universe"
  shows "\<exists>s'. fold_option rem vs s = Some s' \<and> ok s' \<and> elems s' = elems s - set vs"
  using assms
proof (induction vs arbitrary: s)
  case (Cons v vs)
  then obtain s' where "rem v s = Some s'" "ok s'" "elems s' = elems s - {v}" using rem[of s v] by auto
  then show ?case using Cons.IH[of s'] Cons.prems by auto
qed simp

lemma row:
  assumes "ok s" "set (defs ! i) \<subseteq> universe" "set (uses ! i) \<subseteq> universe"
  shows "\<exists>s'. Option.bind (fold_option rem (defs ! i) s) (fold_option ins (uses ! i)) = Some s' \<and> ok s'
    \<and> elems s' = row_step uses defs i (elems s)"
proof -
  obtain s1 where 1: "fold_option rem (defs ! i) s = Some s1" "ok s1" "elems s1 = elems s - set (defs ! i)"
    using rem_all assms by blast
  obtain s2 where "fold_option ins (uses ! i) s1 = Some s2" "ok s2" "elems s2 = elems s1 \<union> set (uses ! i)"
    using ins_all 1(2) assms(3) by blast
  then show ?thesis using 1 by (auto simp: row_step_def)
qed

lemma rows:
  assumes "ok s" "\<forall>i \<in> set idxs. set (defs ! i) \<subseteq> universe \<and> set (uses ! i) \<subseteq> universe"
  shows "\<exists>s'. fold_option (\<lambda>i s. Option.bind (fold_option rem (defs ! i) s) (fold_option ins (uses ! i))) idxs s = Some s'
    \<and> ok s' \<and> elems s' = backward uses defs idxs (elems s)"
  using assms
proof (induction idxs arbitrary: s)
  case Nil
  then show ?case by (simp add: backward_def)
next
  case (Cons i idxs)
  then obtain s' where "Option.bind (fold_option rem (defs ! i) s) (fold_option ins (uses ! i)) = Some s'" "ok s'"
    "elems s' = row_step uses defs i (elems s)"
    using row[of s defs i uses] by auto
  then show ?case using Cons.IH[of s'] Cons.prems by (auto simp: backward_def)
qed

end

section \<open>The implementation\<close>

definition live_set_ok :: "nat \<Rightarrow> working_live_set \<Rightarrow> bool" where
  "live_set_ok w s \<longleftrightarrow> length (positions s) = w \<and> distinct (members s) \<and> set (members s) \<subseteq> {..<w}
     \<and> (\<forall>i < length (members s). positions s ! (members s ! i) = i)"

lemma with_width_ok [simp]: "live_set_ok w (with_width w)" "members (with_width w) = []"
  by (simp_all add: live_set_ok_def with_width_def)

lemma clear_set_ok [simp]: "live_set_ok w s \<Longrightarrow> live_set_ok w (clear_set s)" "members (clear_set s) = []"
  by (simp_all add: live_set_ok_def clear_set_def)

lemma contains_eq: "live_set_ok w s \<Longrightarrow> v < w \<Longrightarrow> contains v s = Some (v \<in> set (members s))"
  by (auto simp: contains_def get_at_def live_set_ok_def in_set_conv_nth)

lemma insert_vreg_ok:
  assumes "live_set_ok w s" "v < w"
  shows "\<exists>s'. insert_vreg v s = Some s' \<and> live_set_ok w s' \<and> set (members s') = insert v (set (members s))"
  using assms by (auto simp: insert_vreg_def contains_eq live_set_ok_def nth_append nth_list_update in_set_conv_nth insert_absorb)

lemma swap_remove_nth:
  assumes "i < length xs"
  shows "length (swap_remove i xs) = length xs - 1"
    "j < length xs - 1 \<Longrightarrow> swap_remove i xs ! j = (if j = i then last xs else xs ! j)"
  using assms by (auto simp: swap_remove_def nth_butlast nth_list_update)

lemma mset_swap_remove:
  assumes "i < length xs"
  shows "mset (swap_remove i xs) = mset xs - {#xs ! i#}"
proof -
  let ?ys = "xs[i := last xs]"
  have ne: "?ys \<noteq> []" using assms by auto
  have "last ?ys = last xs" using assms ne by (cases "i = length xs - 1") (auto simp: last_conv_nth)
  then have "add_mset (last xs) (mset (butlast ?ys)) = mset ?ys"
    using append_butlast_last_id[OF ne] by (metis add_mset_add_single mset.simps(1,2) mset_append)
  also have "\<dots> = add_mset (last xs) (mset xs - {#xs ! i#})" using assms by (rule mset_update)
  finally show ?thesis by (simp add: swap_remove_def)
qed

lemma remove_vreg_ok:
  assumes ok: "live_set_ok w s" and v: "v < w"
  shows "\<exists>s'. remove_vreg v s = Some s' \<and> live_set_ok w s' \<and> set (members s') = set (members s) - {v}"
proof (cases "v \<in> set (members s)")
  case False
  then show ?thesis using contains_eq[OF ok v] ok by (auto simp: remove_vreg_def)
next
  case True
  define m where "m = members s"
  define ps where "ps = positions s"
  obtain p where p: "p < length m" "m ! p = v" using True by (auto simp: in_set_conv_nth m_def)
  have s: "length ps = w" "distinct m" "set m \<subseteq> {..<w}" "\<And>i. i < length m \<Longrightarrow> ps ! (m ! i) = i"
    using ok by (auto simp: live_set_ok_def m_def ps_def)
  have pos: "ps ! v = p" using s(4) p by auto
  define ms where "ms = swap_remove p m"
  have ms: "length ms = length m - 1" "\<And>j. j < length m - 1 \<Longrightarrow> ms ! j = (if j = p then last m else m ! j)"
    using swap_remove_nth[OF p(1)] by (auto simp: ms_def)
  have bag: "mset ms = mset m - {#v#}" using mset_swap_remove[OF p(1)] p(2) by (simp add: ms_def)
  then have bag': "mset (v # ms) = mset m" using True by (simp add: m_def)
  have "distinct (v # ms)" using mset_eq_imp_distinct_iff[OF bag'] s(2) by simp
  moreover have "set (v # ms) = set m" using arg_cong[OF bag', of set_mset] by simp
  ultimately have dist: "distinct ms" and set: "set ms = set m - {v}" by auto
  define ps' where "ps' = (if p < length ms then ps[ms ! p := p] else ps)"
  have moved: "ms ! p \<in> set m" "ms ! p < w" if "p < length ms" using that set s(3) nth_mem[OF that] by auto
  have res: "remove_vreg v s = Some \<lparr>members = ms, positions = ps'\<rparr>"
    using contains_eq[OF ok v] True pos moved s(1)
    by (auto simp: remove_vreg_def Let_def ms_def[symmetric] m_def[symmetric] ps_def[symmetric] ps'_def put_at_def)
  have "ps' ! (ms ! i) = i" if "i < length ms" for i
  proof (cases "i = p")
    case True
    then show ?thesis using that moved s(1) by (simp add: ps'_def)
  next
    case False
    then have e: "ms ! i = m ! i" using ms(2)[of i] that ms(1) by simp
    have "ms ! i \<noteq> ms ! p" if "p < length ms" using nth_eq_iff_index_eq[OF dist] \<open>i < length ms\<close> that False by blast
    then have "ps' ! (ms ! i) = ps ! (ms ! i)" by (auto simp: ps'_def)
    then show ?thesis using s(4)[of i] that ms(1) e by simp
  qed
  then have "live_set_ok w \<lparr>members = ms, positions = ps'\<rparr>"
    using dist set s(1,3) by (auto simp: live_set_ok_def ps'_def)
  then show ?thesis using res set by (auto simp: m_def)
qed

interpretation ws: register_set "live_set_ok w" "\<lambda>s. set (members s)" "{..<w}" insert_vreg remove_vreg for w
  by unfold_locales (auto simp: insert_vreg_ok remove_vreg_ok)

lemma matches_exact:
  assumes ok: "live_set_ok w s" and solved: "set solved \<subseteq> {..<w}" "distinct solved"
  shows "matches solved s = Some (set solved = set (members s))"
proof -
  have fold: "fold_option (\<lambda>v b. if b then contains v s else Some False) vs b = Some (b \<and> set vs \<subseteq> set (members s))"
    if "set vs \<subseteq> {..<w}" for vs b
    using that
  proof (induction vs arbitrary: b)
    case (Cons v vs)
    have "contains v s = Some (v \<in> set (members s))" using contains_eq[OF ok] Cons.prems by simp
    then show ?case using Cons by auto
  qed simp
  have "length solved = card (set solved)" "length (members s) = card (set (members s))"
    using ok solved(2) by (simp_all add: live_set_ok_def distinct_card)
  moreover have "set solved \<subseteq> set (members s) \<Longrightarrow> card (set solved) = card (set (members s)) \<Longrightarrow> set solved = set (members s)"
    by (intro card_subset_eq) auto
  ultimately show ?thesis using fold[OF solved(1), of True] by (auto simp: matches_def)
qed

lemma published_props:
  assumes "live_set_ok w s"
  shows "set (published s) = set (members s)" "sorted_wrt (<) (published s)"
  using assms by (auto simp: published_def live_set_ok_def strict_sorted_iff)

end
