(* ===== verification/Live_Blocks.thy ===== *)
theory Live_Blocks
  imports Live_Sets
begin

text \<open>
  What liveness means, and why block boundaries are enough: a register is live before an
  instruction when some path from it reads the register before writing it; inside a block the
  rows are a straight composition.
\<close>

section \<open>Liveness over paths\<close>

inductive live_at :: "nat list list \<Rightarrow> nat list list \<Rightarrow> nat list list \<Rightarrow> nat \<Rightarrow> nat \<Rightarrow> bool"
  for succs inst_uses inst_defs v where
  here: "i < length succs \<Longrightarrow> v \<in> set (inst_uses ! i) \<Longrightarrow> live_at succs inst_uses inst_defs v i"
| there: "i < length succs \<Longrightarrow> j \<in> set (succs ! i) \<Longrightarrow> live_at succs inst_uses inst_defs v j
    \<Longrightarrow> v \<notin> set (inst_defs ! i) \<Longrightarrow> live_at succs inst_uses inst_defs v i"

inductive_cases live_atE: "live_at succs inst_uses inst_defs v i"

definition live_out :: "nat list list \<Rightarrow> nat list list \<Rightarrow> nat list list \<Rightarrow> nat \<Rightarrow> nat \<Rightarrow> bool" where
  "live_out succs inst_uses inst_defs v i \<longleftrightarrow> (\<exists>j \<in> set (succs ! i). live_at succs inst_uses inst_defs v j)"

lemma live_at_iff:
  assumes "i < length succs"
  shows "live_at succs inst_uses inst_defs v i \<longleftrightarrow>
    v \<in> row_step inst_uses inst_defs i {v. live_out succs inst_uses inst_defs v i}"
  using assms by (auto simp: row_step_def live_out_def intro: live_at.intros elim: live_atE)

lemma live_at_bound: "live_at succs inst_uses inst_defs v i \<Longrightarrow> i < length succs"
  by (auto elim: live_atE)

definition code_ok :: "nat \<Rightarrow> nat list list \<Rightarrow> nat list list \<Rightarrow> nat list list \<Rightarrow> bool" where
  "code_ok w succs inst_uses inst_defs \<longleftrightarrow>
     0 < length succs \<and> length succs < 2 ^ 32 \<and> length inst_uses = length succs \<and> length inst_defs = length succs
     \<and> (\<forall>i < length succs. set (succs ! i) \<subseteq> {..<length succs}
       \<and> set (inst_uses ! i) \<subseteq> {..<w} \<and> set (inst_defs ! i) \<subseteq> {..<w})"

lemma live_at_width: "code_ok w succs inst_uses inst_defs \<Longrightarrow> live_at succs inst_uses inst_defs v i \<Longrightarrow> v < w"
  by (rotate_tac, induction rule: live_at.induct) (auto simp: code_ok_def)

section \<open>The partition\<close>

definition partition_ok :: "nat list list \<Rightarrow> block_partition \<Rightarrow> bool" where
  "partition_ok succs p \<longleftrightarrow> sorted_wrt (<) (starts p) \<and> starts p \<noteq> [] \<and> starts p ! 0 = 0 \<and> last (starts p) = length succs
     \<and> length (block_of p) = length succs
     \<and> (\<forall>i < length succs. block_of p ! i < partition_len p
          \<and> starts p ! (block_of p ! i) \<le> i \<and> i < starts p ! (block_of p ! i + 1)
          \<and> (i + 1 \<in> set (starts p) \<or> succs ! i = [i + 1])
          \<and> (\<forall>s \<in> set (succs ! i). s \<in> set (starts p) \<or> s = i + 1))"

lemma mark_leaders_result:
  assumes "length L = n" "set ss \<subseteq> {..<n}" "idx < n"
  shows "\<exists>L'. mark_leaders n (idx, ss) L = Some L' \<and> length L' = n \<and> (\<forall>i < n. L ! i \<longrightarrow> L' ! i)
    \<and> (idx + 1 < n \<longrightarrow> L' ! (idx + 1) \<or> ss = [idx + 1]) \<and> (\<forall>s \<in> set ss. L' ! s \<or> s = idx + 1)"
proof -
  define L1 where "L1 = (if \<not> (length ss = 1 \<and> ss ! 0 = idx + 1) \<and> idx + 1 < n then L[idx + 1 := True] else L)"
  have "\<exists>L'. fold_option (\<lambda>s L. if s \<noteq> idx + 1 then put_at L s True else Some L) ss L1 = Some L'
    \<and> (length L' = n \<and> (\<forall>i < n. L1 ! i \<longrightarrow> L' ! i) \<and> (\<forall>s \<in> set ss. L' ! s \<or> s = idx + 1))"
    by (rule fold_option_induct[where P = "\<lambda>pre L'. length L' = n \<and> (\<forall>i < n. L1 ! i \<longrightarrow> L' ! i) \<and> (\<forall>s \<in> set pre. L' ! s \<or> s = idx + 1)"])
      (use assms in \<open>auto simp: L1_def put_at_def nth_list_update\<close>)
  then obtain L' where L': "fold_option (\<lambda>s L. if s \<noteq> idx + 1 then put_at L s True else Some L) ss L1 = Some L'"
    "length L' = n" "\<forall>i < n. L1 ! i \<longrightarrow> L' ! i" "\<forall>s \<in> set ss. L' ! s \<or> s = idx + 1" by blast
  have "idx + 1 < n \<longrightarrow> L1 ! (idx + 1) \<or> ss = [idx + 1]"
    using assms by (auto simp: L1_def length_Suc_conv)
  moreover have "\<forall>i < n. L ! i \<longrightarrow> L1 ! i" using assms(1) by (auto simp: L1_def nth_list_update)
  ultimately show ?thesis using L' by (auto simp: mark_leaders_def L1_def Let_def)
qed

lemma leaders_marked:
  assumes "length succs = n" "0 < n" "\<forall>i < n. set (succs ! i) \<subseteq> {..<n}"
  shows "\<exists>L. fold_option (mark_leaders n) (enumerate 0 succs) ((replicate n False)[0 := True]) = Some L
    \<and> length L = n \<and> L ! 0 \<and> (\<forall>i < n. (i + 1 < n \<longrightarrow> L ! (i + 1) \<or> succs ! i = [i + 1])
      \<and> (\<forall>s \<in> set (succs ! i). L ! s \<or> s = i + 1))"
proof -
  let ?P = "\<lambda>pre L. length L = n \<and> L ! 0 \<and> (\<forall>(i, ss) \<in> set pre. (i + 1 < n \<longrightarrow> L ! (i + 1) \<or> ss = [i + 1])
      \<and> (\<forall>s \<in> set ss. L ! s \<or> s = i + 1))"
  have "\<exists>L. fold_option (mark_leaders n) (enumerate 0 succs) ((replicate n False)[0 := True]) = Some L \<and> ?P (enumerate 0 succs) L"
  proof (rule fold_option_induct)
    show "?P [] ((replicate n False)[0 := True])" using assms(2) by simp
    fix pre x rest L
    assume e: "enumerate 0 succs = pre @ x # rest" and P: "?P pre L"
    have mem: "\<forall>y \<in> set (pre @ x # rest). fst y < n \<and> snd y = succs ! fst y"
      unfolding e[symmetric] using assms(1) by (auto simp: in_set_enumerate_eq)
    obtain i ss where x: "x = (i, ss)" by force
    have i: "i < n" "ss = succs ! i" "set ss \<subseteq> {..<n}" using mem assms(3) x by auto
    then obtain L' where L': "mark_leaders n (i, ss) L = Some L'" "length L' = n" "\<forall>i < n. L ! i \<longrightarrow> L' ! i"
      "i + 1 < n \<longrightarrow> L' ! (i + 1) \<or> ss = [i + 1]" "\<forall>s \<in> set ss. L' ! s \<or> s = i + 1"
      using mark_leaders_result[of L n ss i] P by auto
    have "\<forall>(j, ss) \<in> set pre. (j + 1 < n \<longrightarrow> L' ! (j + 1) \<or> ss = [j + 1]) \<and> (\<forall>s \<in> set ss. L' ! s \<or> s = j + 1)"
    proof (clarify, intro conjI impI ballI)
      fix j qs assume j: "(j, qs) \<in> set pre"
      have P': "(j + 1 < n \<longrightarrow> L ! (j + 1) \<or> qs = [j + 1]) \<and> (\<forall>s \<in> set qs. L ! s \<or> s = j + 1)" using P j by blast
      show "L' ! (j + 1) \<or> qs = [j + 1]" if "j + 1 < n" using P' that L'(3) by blast
      fix s assume s: "s \<in> set qs"
      have "fst (j, qs) < n \<and> snd (j, qs) = succs ! fst (j, qs)" using bspec[OF mem, of "(j, qs)"] j by simp
      then have "s < n" using s assms(3) by auto
      then show "L' ! s \<or> s = j + 1" using P' s L'(3) by blast
    qed
    moreover have "L' ! 0" using L'(3) P assms(2) by blast
    ultimately show "\<exists>L'. mark_leaders n x L = Some L' \<and> ?P (pre @ [x]) L'" using L' x by auto
  qed
  then obtain L where L: "fold_option (mark_leaders n) (enumerate 0 succs) ((replicate n False)[0 := True]) = Some L"
    "?P (enumerate 0 succs) L" by blast
  have "(i, succs ! i) \<in> set (enumerate 0 succs)" if "i < n" for i
    using that assms(1) by (simp add: in_set_enumerate_eq)
  moreover have "\<forall>r \<in> set (enumerate 0 succs). (fst r + 1 < n \<longrightarrow> L ! (fst r + 1) \<or> snd r = [fst r + 1])
      \<and> (\<forall>s \<in> set (snd r). L ! s \<or> s = fst r + 1)"
    using L(2) by (simp add: case_prod_unfold)
  ultimately have "(i + 1 < n \<longrightarrow> L ! (i + 1) \<or> succs ! i = [i + 1]) \<and> (\<forall>s \<in> set (succs ! i). L ! s \<or> s = i + 1)"
    if "i < n" for i using that by fastforce
  then show ?thesis using L by auto
qed

definition firsts_of :: "bool list \<Rightarrow> nat \<Rightarrow> nat list" where
  "firsts_of L m = filter (\<lambda>i. L ! i) [0..<m]"

lemma firsts_of_simps [simp]: "firsts_of L 0 = []" "firsts_of L (Suc m) = firsts_of L m @ (if L ! m then [m] else [])"
  by (simp_all add: firsts_of_def)

lemma firsts_of_mem: "i \<in> set (firsts_of L m) \<longleftrightarrow> i < m \<and> L ! i"
  by (auto simp: firsts_of_def)

lemma firsts_of_sorted: "sorted_wrt (<) (firsts_of L m)"
  by (simp add: firsts_of_def sorted_wrt_filter)

lemma own_instruction_eq:
  "own_instruction (fs, os) (i, l) = (if l then fs @ [i] else fs, os[i := length (if l then fs @ [i] else fs) - 1])"
  by (simp add: own_instruction_def Let_def)

lemma owners_found:
  assumes "length L = n" "m \<le> n"
  shows "\<exists>os. foldl own_instruction ([], replicate n 0) (enumerate 0 (take m L)) = (firsts_of L m, os)
    \<and> length os = n \<and> (\<forall>i < m. os ! i = length (firsts_of L (Suc i)) - 1)"
  using assms(2)
proof (induction m)
  case (Suc m)
  then obtain os where ih: "foldl own_instruction ([], replicate n 0) (enumerate 0 (take m L)) = (firsts_of L m, os)"
    "length os = n" "\<forall>i < m. os ! i = length (firsts_of L (Suc i)) - 1" by auto
  have "enumerate 0 (take (Suc m) L) = enumerate 0 (take m L) @ [(m, L ! m)]"
    using Suc.prems assms(1) by (simp add: take_Suc_conv_app_nth enumerate_append_eq)
  then have "foldl own_instruction ([], replicate n 0) (enumerate 0 (take (Suc m) L))
      = (firsts_of L (Suc m), os[m := length (firsts_of L (Suc m)) - 1])"
    using ih(1) by (simp only: foldl_append foldl_Cons foldl_Nil own_instruction_eq firsts_of_simps) simp
  moreover have "os[m := length (firsts_of L (Suc m)) - 1] ! i = length (firsts_of L (Suc i)) - 1" if "i < Suc m" for i
    using that ih(2,3) Suc.prems by (cases "i = m") (auto simp del: firsts_of_simps)
  ultimately show ?case using ih(2) by (auto simp del: firsts_of_simps)
qed simp

lemma partition_blocks_ok:
  assumes "code_ok w succs inst_uses inst_defs"
  shows "\<exists>p. partition_blocks (length succs) succs = Some p \<and> partition_ok succs p"
proof -
  let ?n = "length succs"
  have n: "0 < ?n" "?n < 2 ^ 32" "\<forall>i < ?n. set (succs ! i) \<subseteq> {..<?n}" using assms by (auto simp: code_ok_def)
  obtain L where L: "fold_option (mark_leaders ?n) (enumerate 0 succs) ((replicate ?n False)[0 := True]) = Some L"
    "length L = ?n" "L ! 0" "\<forall>i < ?n. (i + 1 < ?n \<longrightarrow> L ! (i + 1) \<or> succs ! i = [i + 1])
      \<and> (\<forall>s \<in> set (succs ! i). L ! s \<or> s = i + 1)"
    using leaders_marked[OF refl n(1,3)] by blast
  obtain os where os: "foldl own_instruction ([], replicate ?n 0) (enumerate 0 L) = (firsts_of L ?n, os)"
    "length os = ?n" "\<forall>i < ?n. os ! i = length (firsts_of L (Suc i)) - 1"
    using owners_found[OF L(2) order_refl] L(2) by auto
  define p where "p = \<lparr>starts = firsts_of L ?n @ [?n], block_of = os\<rparr>"
  have res: "partition_blocks ?n succs = Some p"
    using n L os by (simp add: partition_blocks_def p_def)
  have len: "partition_len p = length (firsts_of L ?n)" by (simp add: partition_len_def p_def)
  have owner: "os ! i < length (firsts_of L ?n) \<and> starts p ! (os ! i) \<le> i \<and> i < starts p ! (os ! i + 1)" if i: "i < ?n" for i
  proof -
    let ?pre = "firsts_of L (Suc i)"
    have "0 \<in> set ?pre" using L(3) by (simp add: firsts_of_mem del: firsts_of_simps)
    then have ne: "?pre \<noteq> []" by auto
    have "[0..<?n] = [0..<Suc i] @ [Suc i..<?n]" using i upt_add_eq_append[of 0 "Suc i" "?n - Suc i"] by (simp only: le_add_diff_inverse Suc_leI le0)
    then have split: "firsts_of L ?n = ?pre @ filter (\<lambda>i. L ! i) [Suc i..<?n]" by (simp add: firsts_of_def)
    define post where "post = filter (\<lambda>i. L ! i) [Suc i..<?n] @ [?n]"
    have st: "starts p = ?pre @ post" by (simp add: p_def split post_def)
    have "os ! i = length ?pre - 1" using os(3) i by simp
    then have b: "os ! i < length ?pre" "os ! i + 1 = length ?pre" using ne by (cases ?pre; simp)+
    have "?pre ! (os ! i) \<in> set ?pre" using b(1) by (rule nth_mem)
    then have "?pre ! (os ! i) \<le> i" by (simp only: firsts_of_mem less_Suc_eq_le)
    moreover have "post ! 0 \<in> set post" by (rule nth_mem) (simp add: post_def)
    then have "i < post ! 0" using i by (auto simp: post_def)
    ultimately show ?thesis using b split by (simp add: st nth_append del: firsts_of_simps)
  qed
  have "[0..<?n] = 0 # [1..<?n]" using n(1) by (simp add: upt_conv_Cons)
  then have "starts p ! 0 = 0" using L(3) by (simp add: p_def firsts_of_def)
  then have "partition_ok succs p"
    unfolding partition_ok_def len
    using owner L(4) os(2) n(3) by (auto simp: p_def sorted_wrt_append firsts_of_sorted firsts_of_mem)
  then show ?thesis using res by blast
qed

section \<open>Reading a partition\<close>

definition block_out :: "nat list list \<Rightarrow> block_partition \<Rightarrow> (nat \<Rightarrow> nat set) \<Rightarrow> nat \<Rightarrow> nat set" where
  "block_out succs p LI b = (\<Union>s \<in> set (succs ! snd (block_span p b)). LI (block_of p ! s))"

definition block_in ::
  "nat list list \<Rightarrow> nat list list \<Rightarrow> nat list list \<Rightarrow> block_partition \<Rightarrow> (nat \<Rightarrow> nat set) \<Rightarrow> nat \<Rightarrow> nat set" where
  "block_in succs inst_uses inst_defs p LI b =
     backward inst_uses inst_defs (rev [fst (block_span p b)..<snd (block_span p b) + 1]) (block_out succs p LI b)"

lemma starts_mono:
  assumes "partition_ok succs p" "i \<le> j" "j < length (starts p)"
  shows "starts p ! i \<le> starts p ! j"
  using assms sorted_wrt_nth_less[of "(<)" "starts p" i j] by (cases "i = j") (auto simp: partition_ok_def intro: less_imp_le)

lemma span_props:
  assumes ok: "partition_ok succs p" and b: "b < partition_len p"
  shows "fst (block_span p b) \<le> snd (block_span p b)" "snd (block_span p b) < length succs"
    "snd (block_span p b) + 1 = starts p ! (b + 1)"
proof -
  have b': "b + 1 < length (starts p)" using b by (simp add: partition_len_def)
  have "starts p ! b < starts p ! (b + 1)"
    using ok b' sorted_wrt_nth_less[of "(<)" "starts p" b "b + 1"] by (simp add: partition_ok_def)
  moreover have "starts p ! (b + 1) \<le> starts p ! (length (starts p) - 1)" using b' by (intro starts_mono[OF ok]) auto
  moreover have "starts p ! (length (starts p) - 1) = length succs"
    using ok last_conv_nth[of "starts p"] by (simp add: partition_ok_def)
  ultimately show "fst (block_span p b) \<le> snd (block_span p b)" "snd (block_span p b) < length succs"
    "snd (block_span p b) + 1 = starts p ! (b + 1)"
    by (simp_all add: block_span_def)
qed

lemma block_unique:
  assumes ok: "partition_ok succs p" and b: "b < partition_len p" "starts p ! b \<le> i" "i < starts p ! (b + 1)" and i: "i < length succs"
  shows "block_of p ! i = b"
proof -
  let ?c = "block_of p ! i"
  have c: "?c < partition_len p" "starts p ! ?c \<le> i" "i < starts p ! (?c + 1)" using ok i by (auto simp: partition_ok_def)
  show ?thesis
  proof (cases ?c b rule: linorder_cases)
    case less
    then have "starts p ! (?c + 1) \<le> starts p ! b" using b(1) by (intro starts_mono[OF ok]) (auto simp: partition_len_def)
    then show ?thesis using c b by simp
  next
    case greater
    then have "starts p ! (b + 1) \<le> starts p ! ?c" using c(1) by (intro starts_mono[OF ok]) (auto simp: partition_len_def)
    then show ?thesis using c b by simp
  qed
qed

lemma in_block:
  assumes "partition_ok succs p" "i < length succs" "b = block_of p ! i"
  shows "b < partition_len p" "fst (block_span p b) \<le> i" "i \<le> snd (block_span p b)"
  using assms by (auto simp: partition_ok_def block_span_def)

lemma not_a_start:
  assumes ok: "partition_ok succs p" and b: "b < partition_len p" and i: "starts p ! b < i" "i < starts p ! (b + 1)"
  shows "i \<notin> set (starts p)"
proof
  assume "i \<in> set (starts p)"
  then obtain c where c: "c < length (starts p)" "starts p ! c = i" by (auto simp: in_set_conv_nth)
  show False
  proof (cases "c \<le> b")
    case True
    then have "starts p ! c \<le> starts p ! b" using b by (intro starts_mono[OF ok]) (auto simp: partition_len_def)
    then show False using c i by simp
  next
    case False
    then have "starts p ! (b + 1) \<le> starts p ! c" using c(1) by (intro starts_mono[OF ok]) auto
    then show False using c i by simp
  qed
qed

lemma inside_block:
  assumes ok: "partition_ok succs p" and b: "b < partition_len p" and i: "fst (block_span p b) \<le> i" "i < snd (block_span p b)"
  shows "succs ! i = [i + 1]"
proof -
  have "i + 1 \<notin> set (starts p)"
    using i span_props(3)[OF ok b] by (intro not_a_start[OF ok b]) (auto simp: block_span_def)
  moreover have "i < length succs" using i span_props(2)[OF ok b] by simp
  ultimately show ?thesis using ok by (auto simp: partition_ok_def)
qed

lemma block_target:
  assumes ok: "partition_ok succs p" and b: "b < partition_len p" and s: "s \<in> set (succs ! snd (block_span p b))" "s < length succs"
  shows "starts p ! (block_of p ! s) = s" "block_of p ! s < partition_len p"
proof -
  let ?e = "snd (block_span p b)"
  have "s \<in> set (starts p) \<or> s = ?e + 1" using ok s span_props(2)[OF ok b] by (auto simp: partition_ok_def)
  moreover have "?e + 1 \<in> set (starts p)" using span_props(3)[OF ok b] b by (simp add: partition_len_def)
  ultimately obtain c where c: "c < length (starts p)" "starts p ! c = s" by (auto simp: in_set_conv_nth)
  have "c \<noteq> length (starts p) - 1" using c s(2) ok by (auto simp: partition_ok_def last_conv_nth)
  then have c': "c < partition_len p" using c(1) by (simp add: partition_len_def)
  have "s < starts p ! (c + 1)"
    using ok c c' sorted_wrt_nth_less[of "(<)" "starts p" c "c + 1"] by (simp add: partition_ok_def partition_len_def)
  then have "block_of p ! s = c" using c c' s(2) by (intro block_unique[OF ok]) auto
  then show "starts p ! (block_of p ! s) = s" "block_of p ! s < partition_len p" using c c' by auto
qed

section \<open>Rows of a block\<close>

lemma backward_step:
  "i \<le> e \<Longrightarrow> backward us ds (rev [i..<e + 1]) X = row_step us ds i (backward us ds (rev [i + 1..<e + 1]) X)"
proof -
  assume "i \<le> e"
  then have "rev [i..<e + 1] = rev [i + 1..<e + 1] @ [i]" by (simp add: upt_conv_Cons del: upt_Suc)
  then show ?thesis by (simp add: backward_def del: upt_Suc)
qed

definition row_in ::
  "nat list list \<Rightarrow> nat list list \<Rightarrow> nat list list \<Rightarrow> block_partition \<Rightarrow> (nat \<Rightarrow> nat set) \<Rightarrow> nat \<Rightarrow> nat set" where
  "row_in succs us ds p LI i =
     backward us ds (rev [i..<snd (block_span p (block_of p ! i)) + 1]) (block_out succs p LI (block_of p ! i))"

text \<open>A solution of the block equations contains every live register, at every instruction.\<close>

lemma rows_contain_live:
  assumes ok: "partition_ok succs p" and flow: "code_ok w succs us ds"
    and sol: "\<And>b. b < partition_len p \<Longrightarrow> block_in succs us ds p LI b \<subseteq> LI b"
    and live: "live_at succs us ds v i"
  shows "v \<in> row_in succs us ds p LI i"
  using live
proof (induction rule: live_at.induct)
  case (here i)
  then show ?case unfolding row_in_def backward_step[OF in_block(3)[OF ok here(1) refl]] by (simp add: row_step_def)
next
  case (there i j)
  let ?b = "block_of p ! i"
  note b = in_block[OF ok there(1) refl]
  let ?e = "snd (block_span p ?b)"
  have j: "j < length succs" using flow there(1,2) by (auto simp: code_ok_def)
  have "v \<in> backward us ds (rev [i + 1..<?e + 1]) (block_out succs p LI ?b)"
  proof (cases "i < ?e")
    case True
    then have "j = i + 1" using inside_block[OF ok b(1,2) True] there(2) by simp
    moreover have "block_of p ! (i + 1) = ?b"
      using True b span_props(2,3)[OF ok b(1)] by (intro block_unique[OF ok]) (auto simp: block_span_def)
    ultimately show ?thesis using there.IH by (simp add: row_in_def)
  next
    case False
    then have i: "i = ?e" using b by simp
    note t = block_target[OF ok b(1), of j]
    have c: "starts p ! (block_of p ! j) = j" "block_of p ! j < partition_len p" using t there(2) j i by auto
    have "row_in succs us ds p LI j = block_in succs us ds p LI (block_of p ! j)"
      using c by (simp add: row_in_def block_in_def block_span_def)
    then have "v \<in> LI (block_of p ! j)" using there.IH sol[OF c(2)] by auto
    then have "v \<in> block_out succs p LI ?b" using there(2) i by (auto simp: block_out_def)
    then show ?thesis using i by (simp add: backward_def)
  qed
  then show ?case using there(4) unfolding row_in_def backward_step[OF b(3)] by (simp add: row_step_def)
qed

text \<open>And no more than the live registers, when it starts below them.\<close>

lemma rows_live:
  assumes ok: "partition_ok succs p" and flow: "code_ok w succs us ds" and b: "b < partition_len p"
    and LI: "\<And>c. c < partition_len p \<Longrightarrow> LI c \<subseteq> {v. live_at succs us ds v (starts p ! c)}"
    and i: "fst (block_span p b) \<le> i" "i \<le> snd (block_span p b)"
    and v: "v \<in> backward us ds (rev [i..<snd (block_span p b) + 1]) (block_out succs p LI b)"
  shows "live_at succs us ds v i"
  using i(2,1) v
proof (induction i rule: inc_induct)
  case base
  let ?e = "snd (block_span p b)"
  have e: "?e < length succs" using span_props(2)[OF ok b] .
  have "v \<in> row_step us ds ?e (block_out succs p LI b)"
    using base by (simp add: backward_def)
  moreover have "v \<in> {v. live_out succs us ds v ?e}" if vo: "v \<in> block_out succs p LI b"
  proof -
    obtain s where s: "s \<in> set (succs ! ?e)" "v \<in> LI (block_of p ! s)" using vo by (auto simp: block_out_def)
    have "s < length succs" using s(1) e flow by (auto simp: code_ok_def)
    then have "starts p ! (block_of p ! s) = s" "block_of p ! s < partition_len p" using block_target[OF ok b s(1)] by auto
    then show ?thesis using LI s by (force simp: live_out_def)
  qed
  ultimately show ?case by (auto simp: live_at_iff[OF e] row_step_def)
next
  case (step i)
  let ?e = "snd (block_span p b)"
  have i: "i < length succs" using step(2) span_props(2)[OF ok b] by simp
  have s: "succs ! i = [i + 1]" using inside_block[OF ok b step.prems(1) step(2)] .
  have "v \<in> row_step us ds i (backward us ds (rev [i + 1..<?e + 1]) (block_out succs p LI b))"
    using step.prems(2) unfolding backward_step[OF less_imp_le[OF step(2)]] .
  then show ?case using step.IH step.prems(1) s by (auto simp: live_at_iff[OF i] row_step_def live_out_def)
qed

end
