(* ===== verification/Live_Solve.thy ===== *)
theory Live_Solve
  imports Live_Blocks
begin

text \<open>
  The block equations have a least solution, and the solver of \<open>rue-codegen/src/liveness.rs\<close>
  ends with it: the worklist on a graph with back edges, the single sweep on one without.
\<close>

section \<open>The transfer of a block\<close>

definition sets_ok :: "nat \<Rightarrow> nat \<Rightarrow> nat list list \<Rightarrow> bool" where
  "sets_ok w n li \<longleftrightarrow> length li = n \<and> (\<forall>b < n. set (li ! b) \<subseteq> {..<w} \<and> distinct (li ! b))"

abbreviation entry_sets :: "nat list list \<Rightarrow> nat \<Rightarrow> nat set" where
  "entry_sets li \<equiv> \<lambda>b. set (li ! b)"

lemma transfer_inst_eq:
  "transfer_inst us ds = (\<lambda>i s. Option.bind (fold_option remove_vreg (ds ! i) s) (fold_option insert_vreg (us ! i)))"
  by (simp add: fun_eq_iff transfer_inst_def)

lemma collect_result:
  assumes ok: "partition_ok succs p" and flow: "code_ok w succs us ds" and b: "b < partition_len p"
    and s: "live_set_ok w s" and li: "sets_ok w (partition_len p) li"
  shows "\<exists>s'. collect_block_live_out b p succs li s = Some s' \<and> live_set_ok w s'
    \<and> set (members s') = block_out succs p (entry_sets li) b"
proof -
  let ?ss = "succs ! snd (block_span p b)"
  have ss: "\<forall>q \<in> set ?ss. q < length succs" using flow span_props(2)[OF ok b] by (auto simp: code_ok_def)
  have "\<exists>s'. fold_option (\<lambda>q out. Option.bind (get_at (block_of p) q) (\<lambda>c. union_from (li ! c) out)) ?ss (clear_set s) = Some s'
    \<and> (live_set_ok w s' \<and> set (members s') = (\<Union>q \<in> set ?ss. set (li ! (block_of p ! q))))"
  proof (rule fold_option_induct[where P = "\<lambda>pre s'. live_set_ok w s' \<and> set (members s') = (\<Union>q \<in> set pre. set (li ! (block_of p ! q)))"])
    show "live_set_ok w (clear_set s) \<and> set (members (clear_set s)) = (\<Union>q \<in> set []. set (li ! (block_of p ! q)))"
      using s by simp
    fix pre q rest t
    assume e: "?ss = pre @ q # rest" and t: "live_set_ok w t \<and> set (members t) = (\<Union>q \<in> set pre. set (li ! (block_of p ! q)))"
    have q: "q < length succs" using ss e by auto
    then have c: "block_of p ! q < partition_len p" "q < length (block_of p)" using ok by (auto simp: partition_ok_def)
    then have "set (li ! (block_of p ! q)) \<subseteq> {..<w}" using li by (simp add: sets_ok_def)
    then show "\<exists>s'. Option.bind (get_at (block_of p) q) (\<lambda>c. union_from (li ! c) t) = Some s'
      \<and> (live_set_ok w s' \<and> set (members s') = (\<Union>q \<in> set (pre @ [q]). set (li ! (block_of p ! q))))"
      using ws.ins_all[of w t "li ! (block_of p ! q)"] t c(2) by (auto simp: union_from_def get_at_def)
  qed
  then show ?thesis by (simp add: collect_block_live_out_def block_out_def)
qed

lemma transfer_result:
  assumes ok: "partition_ok succs p" and flow: "code_ok w succs us ds" and b: "b < partition_len p"
    and s: "live_set_ok w s" and li: "sets_ok w (partition_len p) li"
  shows "\<exists>s'. transfer_block b p succs us ds li s = Some s' \<and> live_set_ok w s'
    \<and> set (members s') = block_in succs us ds p (entry_sets li) b"
proof -
  obtain s1 where 1: "collect_block_live_out b p succs li s = Some s1" "live_set_ok w s1"
    "set (members s1) = block_out succs p (entry_sets li) b"
    using collect_result[OF assms] by blast
  let ?is = "rev [fst (block_span p b)..<snd (block_span p b) + 1]"
  have "\<forall>i \<in> set ?is. set (ds ! i) \<subseteq> {..<w} \<and> set (us ! i) \<subseteq> {..<w}"
    using flow span_props(2)[OF ok b] unfolding code_ok_def set_rev set_upt by (metis Suc_eq_plus1 atLeastLessThan_iff less_Suc_eq_le le_less_trans)
  then obtain s2 where "fold_option (transfer_inst us ds) ?is s1 = Some s2" "live_set_ok w s2"
    "set (members s2) = backward us ds ?is (set (members s1))"
    using ws.rows[OF 1(2), of ?is ds us] unfolding transfer_inst_eq by blast
  then show ?thesis using 1 by (auto simp: transfer_block_def block_in_def case_prod_unfold)
qed

lemma row_step_mono: "X \<subseteq> Y \<Longrightarrow> row_step us ds i X \<subseteq> row_step us ds i Y"
  by (auto simp: row_step_def)

lemma backward_mono: "X \<subseteq> Y \<Longrightarrow> backward us ds idxs X \<subseteq> backward us ds idxs Y"
  by (induction idxs arbitrary: X Y) (auto simp: backward_def row_step_mono)

lemma block_in_mono:
  assumes "\<And>c. LI c \<subseteq> LJ c"
  shows "block_in succs us ds p LI b \<subseteq> block_in succs us ds p LJ b"
  unfolding block_in_def block_out_def by (intro backward_mono UN_mono assms) simp

section \<open>Predecessors\<close>

lemma count_list_concat: "count_list (concat xss) k = sum_list (map (\<lambda>xs. count_list xs k) xss)"
  by (induction xss) simp_all

lemma placing_keeps:
  assumes "\<forall>(t, s) \<in> set es. t < n"
  shows "fst (foldl place_one (cursor, ts) es) ! n = cursor ! n"
  using assms by (induction es arbitrary: cursor ts) (auto simp: place_one_eq)

lemma shift_result:
  assumes "length os = n + 1" "0 < n"
  shows "length (shift_offsets n os) = n + 1 \<and> shift_offsets n os ! n = os ! n
    \<and> (\<forall>j < n. shift_offsets n os ! j = (if j = 0 then 0 else os ! (j - 1)))"
proof -
  let ?f = "\<lambda>os idx. os[idx := os ! (idx - 1)]"
  have loop: "length (foldl ?f os (rev [m..<n])) = n + 1
      \<and> (\<forall>j \<le> n. foldl ?f os (rev [m..<n]) ! j = (if m \<le> j \<and> j < n then os ! (j - 1) else os ! j))"
    if "1 \<le> m" "m \<le> n" for m
    using that(2,1)
  proof (induction m rule: inc_induct)
    case base
    then show ?case using assms(1) by simp
  next
    case (step m)
    have "rev [m..<n] = rev [Suc m..<n] @ [m]" using step.hyps by (simp add: upt_conv_Cons)
    then have "foldl ?f os (rev [m..<n]) = ?f (foldl ?f os (rev [Suc m..<n])) m" by simp
    then show ?case using step by (auto simp: nth_list_update)
  qed
  show ?thesis using loop[of 1] assms by (auto simp: shift_offsets_def)
qed

lemma predecessor_csr:
  assumes rows: "\<forall>i < length succs. set (succs ! i) \<subseteq> {..<length succs}" and k: "k < length succs"
  shows "set (adj_of (build_predecessor_csr succs) k) = {i. i < length succs \<and> k \<in> set (succs ! i)}"
proof -
  define n where "n = length succs"
  define keys where "keys = concat succs"
  define es where "es = concat (map (\<lambda>source. map (\<lambda>s. (s, source)) (succs ! source)) (rev [0..<n]))"
  define os where "os = prefix_sums n (count_keys n keys)"
  have keys: "\<forall>t \<in> set keys. t < n" using rows by (fastforce simp: keys_def n_def in_set_conv_nth)
  have fst_es: "map fst es = concat (map ((!) succs) (rev [0..<n]))" by (simp add: es_def map_concat comp_def)
  have count: "count_list keys = count_list (map fst es)"
  proof
    fix t
    have "map (\<lambda>xs. count_list xs t) succs = map (\<lambda>i. count_list (succs ! i) t) [0..<n]"
      by (rule nth_equalityI) (simp_all add: n_def)
    moreover have "sum_list (map (\<lambda>i. count_list (succs ! i) t) (rev [0..<n])) = sum_list (map (\<lambda>i. count_list (succs ! i) t) [0..<n])"
      unfolding rev_map[symmetric] by (rule sum_list.rev)
    ultimately show "count_list keys t = count_list (map fst es) t"
      by (simp add: fst_es keys_def count_list_concat comp_def)
  qed
  have os: "length os = n + 1" "\<And>j. j \<le> n \<Longrightarrow> os ! j = below keys j"
    using offsets_nth[OF keys] by (simp_all add: os_def)
  obtain cursor ts where f: "foldl place_one (os, replicate (below keys n) 0) es = (cursor, ts)" by force
  have p: "length cursor = n + 1" "length ts = below keys n"
    "\<And>k. k < n \<Longrightarrow> cursor ! k = below keys k + length (vals es k)"
    "\<And>k. k < n \<Longrightarrow> \<forall>i < length (vals es k). ts ! (below keys k + i) = vals es k ! i"
    using place_edges[OF keys count, of es "[]" os cursor ts] os f by auto
  have n0: "0 < n" using k unfolding n_def by linarith
  have es_lt: "\<forall>(t, s) \<in> set es. t < n" using rows by (auto simp: es_def n_def)
  have "cursor ! n = below keys n" using placing_keeps[OF es_lt, of os "replicate (below keys n) 0"] f os by simp
  moreover have len: "length (vals es j) = count_list keys j" for j using count by (simp add: length_vals)
  ultimately have shifted: "shift_offsets n cursor ! j = below keys j" if "j \<le> n" for j
    using shift_result[OF p(1) n0] that p(3)[of "j - 1"] below_Suc[of keys "j - 1"]
    by (cases "j = n"; cases "j = 0") auto
  have "build_predecessor_csr succs = \<lparr>offsets = shift_offsets n cursor, targets = ts\<rparr>"
    using f os by (simp add: build_predecessor_csr_def n_def[symmetric] keys_def[symmetric] es_def[symmetric] os_def[symmetric] Let_def)
  moreover have "adj_of \<lparr>offsets = shift_offsets n cursor, targets = ts\<rparr> k = vals es k"
    using k shifted p(2,4) len by (intro adj_of_placed[of k n _ keys]) (auto simp: n_def)
  ultimately have "adj_of (build_predecessor_csr succs) k = vals es k" by simp
  moreover have "set (vals es k) = {i. i < n \<and> k \<in> set (succs ! i)}" by (force simp: vals_def es_def)
  ultimately show ?thesis by (simp add: n_def)
qed

section \<open>The worklist\<close>

definition queue_ok :: "nat \<Rightarrow> solve_state \<Rightarrow> bool" where
  "queue_ok n st \<longleftrightarrow> length (queued st) = n \<and> distinct (queue st) \<and> set (queue st) = {b. b < n \<and> queued st ! b}"

lemma requeue_ok:
  assumes "queue_ok n st" "q < n"
  shows "queue_ok n (requeue q st)" "queued (requeue q st) = (queued st)[q := True]"
    "live_in_sets (requeue q st) = live_in_sets st" "scratch (requeue q st) = scratch st"
proof -
  have st: "length (queued st) = n" "distinct (queue st)" "set (queue st) = {b. b < n \<and> queued st ! b}"
    using assms(1) by (auto simp: queue_ok_def)
  show "queued (requeue q st) = (queued st)[q := True]"
    using list_update_id[of "queued st" q] by (cases "queued st ! q") (simp_all add: requeue_def)
  show "queue_ok n (requeue q st)"
  proof (cases "queued st ! q")
    case True
    then show ?thesis using assms(1) by (simp add: requeue_def)
  next
    case False
    then have "q \<notin> set (queue st)" using st(3) by simp
    moreover have "insert q {b. b < n \<and> queued st ! b} = {b. b < n \<and> (queued st)[q := True] ! b}"
      using assms(2) st(1) by (auto simp: nth_list_update)
    ultimately show ?thesis using False st by (simp add: requeue_def queue_ok_def)
  qed
qed (simp_all add: requeue_def)

lemma requeue_all:
  assumes "queue_ok n st" "set qs \<subseteq> {..<n}"
  shows "queue_ok n (foldl (\<lambda>st q. requeue q st) st qs)
    \<and> live_in_sets (foldl (\<lambda>st q. requeue q st) st qs) = live_in_sets st
    \<and> scratch (foldl (\<lambda>st q. requeue q st) st qs) = scratch st
    \<and> (\<forall>b < n. queued (foldl (\<lambda>st q. requeue q st) st qs) ! b \<longleftrightarrow> queued st ! b \<or> b \<in> set qs)"
  using assms
proof (induction qs arbitrary: st)
  case (Cons q qs)
  note r = requeue_ok[OF Cons.prems(1), of q]
  have q: "q < n" using Cons.prems(2) by simp
  have len: "length (queued st) = n" using Cons.prems(1) by (simp add: queue_ok_def)
  show ?case
    using Cons.IH[of "requeue q st"] r[OF q] Cons.prems(2) len by (auto simp: nth_list_update)
qed simp

definition solving ::
  "nat \<Rightarrow> nat list list \<Rightarrow> nat list list \<Rightarrow> nat list list \<Rightarrow> block_partition \<Rightarrow> nat list list \<Rightarrow> bool" where
  "solving w succs us ds p li \<longleftrightarrow> sets_ok w (partition_len p) li
     \<and> (\<forall>b < partition_len p. set (li ! b) \<subseteq> {v. live_at succs us ds v (starts p ! b)}
          \<and> set (li ! b) \<subseteq> block_in succs us ds p (entry_sets li) b)"

definition solve_inv ::
  "nat \<Rightarrow> nat list list \<Rightarrow> nat list list \<Rightarrow> nat list list \<Rightarrow> block_partition \<Rightarrow> solve_state \<Rightarrow> bool" where
  "solve_inv w succs us ds p st \<longleftrightarrow> solving w succs us ds p (live_in_sets st) \<and> live_set_ok w (scratch st)
     \<and> queue_ok (partition_len p) st
     \<and> (\<forall>b < partition_len p. \<not> queued st ! b \<longrightarrow>
          block_in succs us ds p (entry_sets (live_in_sets st)) b \<subseteq> set (live_in_sets st ! b))"

definition to_grow :: "nat \<Rightarrow> nat list list \<Rightarrow> nat" where
  "to_grow w li = (\<Sum>b < length li. w - length (li ! b))"

text \<open>Publishing the transfer of a block keeps the solution between nothing and liveness.\<close>

lemma publish_block:
  assumes ok: "partition_ok succs p" and flow: "code_ok w succs us ds" and b: "b < partition_len p"
    and inv: "solving w succs us ds p li" and s: "live_set_ok w s" "set (members s) = block_in succs us ds p (entry_sets li) b"
  shows "solving w succs us ds p (li[b := published s])"
    "\<And>c. set (li ! c) \<subseteq> set (li[b := published s] ! c)"
    "set (li ! b) \<noteq> set (members s) \<Longrightarrow> to_grow w (li[b := published s]) < to_grow w li"
proof -
  define li' where "li' = li[b := published s]"
  have li: "length li = partition_len p" "\<And>c. c < partition_len p \<Longrightarrow> set (li ! c) \<subseteq> {..<w} \<and> distinct (li ! c)"
    "\<And>c. c < partition_len p \<Longrightarrow> set (li ! c) \<subseteq> {v. live_at succs us ds v (starts p ! c)}"
    "\<And>c. c < partition_len p \<Longrightarrow> set (li ! c) \<subseteq> block_in succs us ds p (entry_sets li) c"
    using inv by (auto simp: solving_def sets_ok_def)
  have pub: "set (published s) = block_in succs us ds p (entry_sets li) b" "sorted_wrt (<) (published s)"
    "set (published s) \<subseteq> {..<w}"
    using published_props[OF s(1)] s by (auto simp: live_set_ok_def)
  have dist: "distinct (published s)" using pub(2) by (simp add: strict_sorted_iff)
  show sub: "set (li ! c) \<subseteq> set (li[b := published s] ! c)" for c
    using li(4)[OF b] pub(1) li(1) b by (cases "c = b") auto
  have mono: "block_in succs us ds p (entry_sets li) c \<subseteq> block_in succs us ds p (entry_sets li') c" for c
    using sub by (intro block_in_mono) (simp add: li'_def)
  have "block_in succs us ds p (entry_sets li) b \<subseteq> {v. live_at succs us ds v (starts p ! b)}"
  proof -
    have e: "starts p ! b = fst (block_span p b)" by (simp add: block_span_def)
    show ?thesis
      using rows_live[OF ok flow b li(3) order_refl span_props(1)[OF ok b]] unfolding block_in_def e by blast
  qed
  then show "solving w succs us ds p (li[b := published s])"
    using li pub dist mono b unfolding solving_def sets_ok_def li'_def[symmetric]
    by (auto simp: li'_def nth_list_update split: if_splits) blast+
  assume grow: "set (li ! b) \<noteq> set (members s)"
  have "set (li ! b) \<subset> set (published s)" using grow li(4)[OF b] pub(1) s(2) by auto
  then have "card (set (li ! b)) < card (set (published s))" by (intro psubset_card_mono) auto
  moreover have "card (set (published s)) \<le> w" using card_mono[OF _ pub(3)] by simp
  ultimately have less: "w - length (published s) < w - length (li ! b)"
    using li(2)[OF b] dist by (simp add: distinct_card)
  show "to_grow w (li[b := published s]) < to_grow w li"
    unfolding to_grow_def length_list_update
    by (rule sum_strict_mono_ex1) (use less b li(1) in \<open>auto simp: nth_list_update\<close>)
qed

definition csr_ok :: "nat list list \<Rightarrow> block_partition \<Rightarrow> adjacency \<Rightarrow> bool" where
  "csr_ok succs p preds \<longleftrightarrow> (\<forall>b < partition_len p. set (adj_of preds b)
     = {c. c < partition_len p \<and> b \<in> (\<lambda>s. block_of p ! s) ` set (succs ! snd (block_span p c))})"

lemma block_in_unchanged:
  assumes "\<forall>s \<in> set (succs ! snd (block_span p c)). LI (block_of p ! s) = LJ (block_of p ! s)"
  shows "block_in succs us ds p LI c = block_in succs us ds p LJ c"
  using assms by (simp add: block_in_def block_out_def)

text \<open>The work left: growth of the sets first, then the queue.\<close>

definition work_left :: "nat \<Rightarrow> nat \<Rightarrow> solve_state \<Rightarrow> nat" where
  "work_left w n st = to_grow w (live_in_sets st) * (n + 1) + length (queue st)"

lemma solve_visit_result:
  assumes ok: "partition_ok succs p" and flow: "code_ok w succs us ds" and preds: "csr_ok succs p preds"
    and inv: "solve_inv w succs us ds p st" and q: "queue st = b # q"
  shows "\<exists>st'. visit_live_block p succs us ds preds b (st\<lparr>queue := q\<rparr>) = Some st' \<and> solve_inv w succs us ds p st'
    \<and> work_left w (partition_len p) st' < work_left w (partition_len p) st"
proof -
  let ?n = "partition_len p"
  define li where "li = live_in_sets st"
  have sol: "solving w succs us ds p li" and scr: "live_set_ok w (scratch st)" and que: "queue_ok ?n st"
    and settled: "\<And>c. c < ?n \<Longrightarrow> \<not> queued st ! c \<Longrightarrow> block_in succs us ds p (entry_sets li) c \<subseteq> set (li ! c)"
    using inv by (auto simp: solve_inv_def li_def)
  have b: "b < ?n" "b \<notin> set q" "distinct q" "insert b (set q) = {c. c < ?n \<and> queued st ! c}" "length (queued st) = ?n"
    using que q by (auto simp: queue_ok_def)
  have li: "sets_ok w ?n li" using sol by (simp add: solving_def)
  obtain s where s: "transfer_block b p succs us ds li (scratch st) = Some s" "live_set_ok w s"
    "set (members s) = block_in succs us ds p (entry_sets li) b"
    using transfer_result[OF ok flow b(1) scr li] by blast
  have m: "matches (li ! b) s = Some (set (li ! b) = set (members s))"
    using li b(1) by (intro matches_exact[OF s(2)]) (auto simp: sets_ok_def)
  define st1 where "st1 = st\<lparr>queue := q, queued := (queued st)[b := False], scratch := s\<rparr>"
  have "set q = {c. c < ?n \<and> queued st ! c} - {b}" using b(2,4) by blast
  then have que1: "queue_ok ?n st1" using b(1,3,5) by (auto simp: queue_ok_def st1_def nth_list_update)
  have st1: "live_in_sets st1 = li" "scratch st1 = s" "\<And>c. c < ?n \<Longrightarrow> queued st1 ! c \<longleftrightarrow> queued st ! c \<and> c \<noteq> b"
    "queue st1 = q"
    using b(1,5) by (auto simp: st1_def li_def nth_list_update)
  show ?thesis
  proof (cases "set (li ! b) = set (members s)")
    case True
    have res: "visit_live_block p succs us ds preds b (st\<lparr>queue := q\<rparr>) = Some st1"
      using s m True by (simp add: visit_live_block_def li_def st1_def)
    have "block_in succs us ds p (entry_sets li) c \<subseteq> set (li ! c)" if "c < ?n" "\<not> queued st1 ! c" for c
      using settled[OF that(1)] st1(3)[OF that(1)] that(2) True s(3) by (cases "c = b") simp_all
    then have "solve_inv w succs us ds p st1"
      unfolding solve_inv_def st1 using sol s(2) que1 by simp
    moreover have "work_left w ?n st1 < work_left w ?n st" by (simp add: work_left_def st1 q li_def)
    ultimately show ?thesis using res by blast
  next
    case False
    define li' where "li' = li[b := published s]"
    define st2 where "st2 = foldl (\<lambda>st q. requeue q st) (st1\<lparr>live_in_sets := li'\<rparr>) (adj_of preds b)"
    have res: "visit_live_block p succs us ds preds b (st\<lparr>queue := q\<rparr>) = Some st2"
      using s m False by (simp add: visit_live_block_def li_def li'_def st1_def st2_def)
    note pub = publish_block[OF ok flow b(1) sol s(2,3), folded li'_def]
    have adj: "set (adj_of preds b) = {c. c < ?n \<and> b \<in> (\<lambda>s. block_of p ! s) ` set (succs ! snd (block_span p c))}"
      using preds b(1) by (simp add: csr_ok_def)
    have "queue_ok ?n (st1\<lparr>live_in_sets := li'\<rparr>)" using que1 by (simp add: queue_ok_def)
    then have st2: "queue_ok ?n st2" "live_in_sets st2 = li'" "scratch st2 = s"
      "\<And>c. c < ?n \<Longrightarrow> queued st2 ! c \<longleftrightarrow> queued st1 ! c \<or> c \<in> set (adj_of preds b)"
      using requeue_all[of ?n "st1\<lparr>live_in_sets := li'\<rparr>" "adj_of preds b"] adj st1 by (auto simp: st2_def)
    have "block_in succs us ds p (entry_sets li') c \<subseteq> set (li' ! c)" if c: "c < ?n" "\<not> queued st2 ! c" for c
    proof -
      have nb: "b \<notin> (\<lambda>s. block_of p ! s) ` set (succs ! snd (block_span p c))" using st2(4) adj c by auto
      then have same: "block_in succs us ds p (entry_sets li') c = block_in succs us ds p (entry_sets li) c"
      proof (intro block_in_unchanged ballI)
        fix t assume "t \<in> set (succs ! snd (block_span p c))"
        then have "b \<noteq> block_of p ! t" using nb by blast
        then show "set (li' ! (block_of p ! t)) = set (li ! (block_of p ! t))" by (simp add: li'_def)
      qed
      show ?thesis
      proof (cases "c = b")
        case True
        then show ?thesis using same s(3) published_props(1)[OF s(2)] li b(1) by (simp add: li'_def sets_ok_def)
      next
        case False
        then have "\<not> queued st ! c" using st2(4) st1(3) c by auto
        then show ?thesis using same settled c(1) False by (simp add: li'_def)
      qed
    qed
    then have "solve_inv w succs us ds p st2" unfolding solve_inv_def st2 using pub(1) s(2) st2(1) by simp
    moreover have "work_left w ?n st2 < work_left w ?n st"
    proof -
      have "length (queue st2) = card (set (queue st2))" using st2(1) distinct_card[of "queue st2"] by (simp add: queue_ok_def)
      also have "\<dots> \<le> card {..<?n}" using st2(1) by (intro card_mono) (auto simp: queue_ok_def)
      finally have "length (queue st2) \<le> ?n" by simp
      moreover have "to_grow w li' + 1 \<le> to_grow w li" using pub(3) False by simp
      then have "(to_grow w li' + 1) * (?n + 1) \<le> to_grow w li * (?n + 1)" by (rule mult_le_mono1)
      then have "to_grow w li' * (?n + 1) + (?n + 1) \<le> to_grow w li * (?n + 1)" by (simp only: add_mult_distrib mult_1)
      moreover have "x + (n + 1) \<le> y \<Longrightarrow> l \<le> n \<Longrightarrow> x + l < y + k" for x n y l k :: nat by arith
      ultimately show ?thesis unfolding work_left_def st2(2) li_def[symmetric] by blast
    qed
    ultimately show ?thesis using res by blast
  qed
qed

lemma drain_result:
  assumes ok: "partition_ok succs p" and flow: "code_ok w succs us ds" and preds: "csr_ok succs p preds"
    and inv: "solve_inv w succs us ds p st"
  shows "\<exists>st'. drain p succs us ds preds st = Some st' \<and> solve_inv w succs us ds p st' \<and> queue st' = []"
  using inv
proof (induction "work_left w (partition_len p) st" arbitrary: st rule: less_induct)
  case less
  show ?case
  proof (cases "queue st")
    case Nil
    then show ?thesis using less.prems by (subst drain.simps) simp
  next
    case (Cons b q)
    then obtain st1 where st1: "visit_live_block p succs us ds preds b (st\<lparr>queue := q\<rparr>) = Some st1"
      "solve_inv w succs us ds p st1" "work_left w (partition_len p) st1 < work_left w (partition_len p) st"
      using solve_visit_result[OF ok flow preds less.prems] by blast
    obtain st2 where "drain p succs us ds preds st1 = Some st2" "solve_inv w succs us ds p st2" "queue st2 = []"
      using less.hyps[OF st1(3,2)] by blast
    then show ?thesis using Cons st1(1) by (subst drain.simps) simp
  qed
qed

section \<open>The solution\<close>

definition block_solution :: "nat \<Rightarrow> nat list list \<Rightarrow> nat list list \<Rightarrow> nat list list \<Rightarrow> block_partition \<Rightarrow> nat list list \<Rightarrow> bool" where
  "block_solution w succs us ds p li \<longleftrightarrow> sets_ok w (partition_len p) li
     \<and> (\<forall>b < partition_len p. set (li ! b) = {v. live_at succs us ds v (starts p ! b)})"

lemma settled_solution:
  assumes ok: "partition_ok succs p" and flow: "code_ok w succs us ds" and sol: "solving w succs us ds p li"
    and settled: "\<And>b. b < partition_len p \<Longrightarrow> block_in succs us ds p (entry_sets li) b \<subseteq> set (li ! b)"
  shows "block_solution w succs us ds p li"
proof -
  have "v \<in> set (li ! b)" if b: "b < partition_len p" and v: "live_at succs us ds v (starts p ! b)" for b v
  proof -
    have "starts p ! b < starts p ! (b + 1)" "starts p ! b < length succs"
      using span_props[OF ok b] by (auto simp: block_span_def)
    then have "block_of p ! (starts p ! b) = b" using b by (intro block_unique[OF ok]) auto
    then have "v \<in> block_in succs us ds p (entry_sets li) b"
      using rows_contain_live[OF ok flow settled v] by (simp add: row_in_def block_in_def block_span_def)
    then show ?thesis using settled[OF b] by blast
  qed
  then show ?thesis using sol by (auto simp: block_solution_def solving_def)
qed

lemma nothing_solving: "solving w succs us ds p (replicate (partition_len p) [])"
  by (simp add: solving_def sets_ok_def)

lemma block_rows:
  assumes ok: "partition_ok succs p" and flow: "code_ok w succs us ds"
  shows "block_successors p succs
    = Some (map (\<lambda>b. map (\<lambda>s. block_of p ! s) (succs ! snd (block_span p b))) [0..<partition_len p])"
proof -
  have row: "fold_option (\<lambda>s row. Option.bind (get_at (block_of p) s) (\<lambda>c. Some (row @ [c]))) ss row
      = Some (row @ map (\<lambda>s. block_of p ! s) ss)" if "set ss \<subseteq> {..<length succs}" for ss row
    using that ok by (induction ss arbitrary: row) (auto simp: get_at_def partition_ok_def)
  have "set (succs ! snd (block_span p b)) \<subseteq> {..<length succs}" if "b < partition_len p" for b
    using span_props(2)[OF ok that] flow by (simp add: code_ok_def)
  then have "fold_option (\<lambda>b rows.
       Option.bind (fold_option (\<lambda>s row. Option.bind (get_at (block_of p) s) (\<lambda>c. Some (row @ [c])))
         (succs ! snd (block_span p b)) []) (\<lambda>row. Some (rows @ [row]))) bs rows
     = Some (rows @ map (\<lambda>b. map (\<lambda>s. block_of p ! s) (succs ! snd (block_span p b))) bs)"
    if "set bs \<subseteq> {..<partition_len p}" for bs rows
    using that by (induction bs arbitrary: rows) (simp_all add: row)
  then show ?thesis unfolding block_successors_def by (simp add: atLeast0LessThan)
qed

lemma preds_found:
  assumes ok: "partition_ok succs p" and flow: "code_ok w succs us ds" and rows: "block_successors p succs = Some rows"
  shows "csr_ok succs p (build_predecessor_csr rows)"
proof -
  have r: "rows = map (\<lambda>b. map (\<lambda>s. block_of p ! s) (succs ! snd (block_span p b))) [0..<partition_len p]"
    using block_rows[OF ok flow] rows by simp
  have "block_of p ! s < partition_len p" if "b < partition_len p" "s \<in> set (succs ! snd (block_span p b))" for b s
    using block_target(2)[OF ok that] span_props(2)[OF ok that(1)] flow that(2) by (auto simp: code_ok_def)
  then have "\<forall>i < length rows. set (rows ! i) \<subseteq> {..<length rows}" by (auto simp: r)
  then have "set (adj_of (build_predecessor_csr rows) b) = {i. i < length rows \<and> b \<in> set (rows ! i)}"
    if "b < partition_len p" for b
    using that by (intro predecessor_csr) (simp_all add: r)
  then show ?thesis by (auto simp: csr_ok_def r)
qed

lemma back_edge_iff: "has_back_edge succs \<longleftrightarrow> (\<exists>i < length succs. \<exists>j \<in> set (succs ! i). j \<le> i)"
proof -
  have "has_back_edge succs \<longleftrightarrow> (\<exists>r \<in> set (enumerate 0 succs). \<exists>j \<in> set (snd r). j \<le> fst r)"
    by (simp add: has_back_edge_def list_ex_iff case_prod_unfold)
  also have "set (enumerate 0 succs) = (\<lambda>i. (i, succs ! i)) ` {..<length succs}"
    by (auto simp: in_set_enumerate_eq image_iff)
  finally show ?thesis by simp blast
qed

lemma solve_sweep_result:
  assumes ok: "partition_ok succs p" and flow: "code_ok w succs us ds" and fwd: "\<not> has_back_edge succs"
  shows "\<exists>st. fold_option (sweep_block p succs us ds) (rev [0..<partition_len p]) (replicate (partition_len p) [], with_width w) = Some st
    \<and> block_solution w succs us ds p (fst st)"
proof -
  let ?n = "partition_len p"
  let ?P = "\<lambda>pre st. solving w succs us ds p (fst st) \<and> live_set_ok w (snd st)
    \<and> (\<forall>b \<in> set pre. block_in succs us ds p (entry_sets (fst st)) b \<subseteq> set (fst st ! b))"
  have "\<exists>st. fold_option (sweep_block p succs us ds) (rev [0..<?n]) (replicate ?n [], with_width w) = Some st \<and> ?P (rev [0..<?n]) st"
  proof (rule fold_option_induct)
    show "?P [] (replicate ?n [], with_width w)" by (simp add: nothing_solving)
    fix pre b rest st
    assume e: "rev [0..<?n] = pre @ b # rest" and P: "?P pre st"
    have "[0..<?n] = rev rest @ b # rev pre" using arg_cong[OF e, of rev] by simp
    then have b: "b < ?n" "\<forall>c \<in> set pre. b < c"
      using sorted_wrt_upt[of 0 ?n] set_upt[of 0 ?n] by (auto simp: sorted_wrt_append)
    have pre: "\<forall>c \<in> set pre. c < ?n" using e by (metis Un_iff atLeastLessThan_iff set_append set_rev set_upt)
    define li where "li = fst st"
    obtain s where s: "transfer_block b p succs us ds li (snd st) = Some s" "live_set_ok w s"
      "set (members s) = block_in succs us ds p (entry_sets li) b"
      using transfer_result[OF ok flow b(1), of "snd st" li] P by (auto simp: solving_def li_def)
    have sol: "solving w succs us ds p li" using P by (simp add: li_def)
    note pub = publish_block[OF ok flow b(1) sol s(2,3)]
    have "block_in succs us ds p (entry_sets (li[b := published s])) c = block_in succs us ds p (entry_sets li) c"
      if c: "c < ?n" "b \<le> c" for c
    proof (rule block_in_unchanged, rule ballI)
      fix q assume q: "q \<in> set (succs ! snd (block_span p c))"
      note e = span_props[OF ok c(1)]
      have "snd (block_span p c) < q" using fwd q e(2) by (auto simp: back_edge_iff not_le)
      moreover have ql: "q < length succs" using q e(2) flow by (auto simp: code_ok_def)
      ultimately have "starts p ! c < starts p ! (block_of p ! q)"
        using block_target(1)[OF ok c(1) q ql] e(1) by (simp add: block_span_def)
      then have "\<not> block_of p ! q \<le> c" using starts_mono[OF ok, of "block_of p ! q" c] c(1) by (fastforce simp: partition_len_def)
      then show "set (li[b := published s] ! (block_of p ! q)) = set (li ! (block_of p ! q))" using c(2) by simp
    qed
    then have same: "block_in succs us ds p (entry_sets (li[b := published s])) c = block_in succs us ds p (entry_sets li) c"
      if "c \<in> set (pre @ [b])" for c
      using that b pre by (auto intro: less_imp_le)
    have len: "length li = ?n" using sol by (simp add: solving_def sets_ok_def)
    have "block_in succs us ds p (entry_sets (li[b := published s])) c \<subseteq> set (li[b := published s] ! c)"
      if c: "c \<in> set (pre @ [b])" for c
    proof (cases "c = b")
      case True
      then show ?thesis unfolding same[OF c] using s(3) published_props(1)[OF s(2)] b(1) len by simp
    next
      case False
      then show ?thesis unfolding same[OF c] using P c by (simp add: li_def)
    qed
    then show "\<exists>st'. sweep_block p succs us ds b st = Some st' \<and> ?P (pre @ [b]) st'"
      using s pub(1) by (auto simp: sweep_block_def li_def case_prod_unfold)
  qed
  then obtain st where st: "fold_option (sweep_block p succs us ds) (rev [0..<?n]) (replicate ?n [], with_width w) = Some st"
    "?P (rev [0..<?n]) st" by blast
  then show ?thesis using settled_solution[OF ok flow] by auto
qed

lemma solve_exact:
  assumes ok: "partition_ok succs p" and flow: "code_ok w succs us ds" and back_edge: "has_back_edge succs \<longrightarrow> cyclic"
  shows "\<exists>li. solve_block_liveness w succs us ds p cyclic = Some li \<and> block_solution w succs us ds p li"
proof (cases cyclic)
  case False
  then show ?thesis using solve_sweep_result[OF ok flow] back_edge by (auto simp: solve_block_liveness_def Let_def)
next
  case True
  obtain rows where rows: "block_successors p succs = Some rows" using block_rows[OF ok flow] by blast
  let ?st = "\<lparr>queue = rev [0..<partition_len p], queued = replicate (partition_len p) True,
    live_in_sets = replicate (partition_len p) [], scratch = with_width w\<rparr>"
  have "solve_inv w succs us ds p ?st" by (auto simp: solve_inv_def nothing_solving queue_ok_def)
  then obtain st where st: "drain p succs us ds (build_predecessor_csr rows) ?st = Some st"
    "solve_inv w succs us ds p st" "queue st = []"
    using drain_result[OF ok flow preds_found[OF ok flow rows]] by blast
  have "block_solution w succs us ds p (live_in_sets st)"
    using st(2,3) by (intro settled_solution[OF ok flow]) (auto simp: solve_inv_def queue_ok_def)
  then show ?thesis using True rows st(1) by (auto simp: solve_block_liveness_def Let_def)
qed

end
