(* ===== verification/Live_Ranges.thy ===== *)
theory Live_Ranges
  imports Live_Solve Live_Analysis
begin

text \<open>
  Live ranges are the hulls of the places where a register is written, read or live: exactly so
  when the block sets are consulted, and on forward code from definitions and uses alone, as far
  as control can reach.
\<close>

section \<open>Hulls\<close>

definition hull :: "nat set \<Rightarrow> live_range option" where
  "hull S = (if S = {} then None else Some \<lparr>start_at = Min S, end_at = Max S\<rparr>)"

lemma widen_hull: "finite S \<Longrightarrow> Some (widen i (hull S)) = hull (insert i S)"
  by (cases "S = {}") (simp_all add: hull_def widen_def Min_insert Max_insert min_def max_def del: Min_less_iff Min_le_iff Max_less_iff Min_gr_iff Min_ge_iff Max_ge_iff Max_le_iff Max_gr_iff)

lemma hull_covers: "finite S \<Longrightarrow> i \<in> S \<Longrightarrow> \<exists>r. hull S = Some r \<and> start_at r \<le> i \<and> i \<le> end_at r"
  by (auto simp: hull_def)

lemma hull_between:
  assumes "A \<subseteq> C" "finite C" "\<And>c. c \<in> C \<Longrightarrow> \<exists>a \<in> A. a \<le> c" "\<And>c. c \<in> C \<Longrightarrow> \<exists>a \<in> A. c \<le> a"
  shows "hull A = hull C"
proof (cases "C = {}")
  case True
  then show ?thesis using assms(1) by simp
next
  case False
  have fin: "finite A" using assms(1,2) finite_subset by blast
  have ne: "A \<noteq> {}" using False assms(3) by blast
  have "Min A = Min C"
  proof (rule antisym)
    obtain a where "a \<in> A" "a \<le> Min C" using assms(3)[OF Min_in[OF assms(2) False]] by blast
    then show "Min A \<le> Min C" using Min_le[OF fin] le_trans by blast
    show "Min C \<le> Min A" using assms(1) ne assms(2) by (rule Min_antimono)
  qed
  moreover have "Max A = Max C"
  proof (rule antisym)
    obtain a where "a \<in> A" "Max C \<le> a" using assms(4)[OF Max_in[OF assms(2) False]] by blast
    then show "Max C \<le> Max A" using Max_ge[OF fin] le_trans by blast
    show "Max A \<le> Max C" using assms(1) ne assms(2) by (rule Max_mono)
  qed
  ultimately show ?thesis using False ne by (simp add: hull_def)
qed

definition hulls :: "nat \<Rightarrow> (nat \<Rightarrow> nat set) \<Rightarrow> live_range option list \<Rightarrow> bool" where
  "hulls w T rs \<longleftrightarrow> length rs = w \<and> (\<forall>v < w. finite (T v) \<and> rs ! v = hull (T v))"

lemma extend_ranges:
  assumes "hulls w T rs" "set vs \<subseteq> {..<w}"
  shows "\<exists>rs'. fold_option (extend_range i) vs rs = Some rs'
    \<and> hulls w (\<lambda>v. if v \<in> set vs then insert i (T v) else T v) rs'"
  using assms
proof (induction vs arbitrary: T rs)
  case (Cons v vs)
  have v: "v < w" "length rs = w" using Cons.prems by (auto simp: hulls_def)
  have step: "extend_range i v rs = Some (rs[v := Some (widen i (rs ! v))])"
    using v by (simp add: extend_range_def get_at_def put_at_def)
  have "hulls w (T(v := insert i (T v))) (rs[v := Some (widen i (rs ! v))])"
    using Cons.prems(1) v by (auto simp: hulls_def nth_list_update widen_hull)
  then obtain rs' where rs': "fold_option (extend_range i) vs (rs[v := Some (widen i (rs ! v))]) = Some rs'"
    "hulls w (\<lambda>u. if u \<in> set vs then insert i ((T(v := insert i (T v))) u) else (T(v := insert i (T v))) u) rs'"
    using Cons.IH Cons.prems(2) by fastforce
  have "(\<lambda>u. if u \<in> set vs then insert i ((T(v := insert i (T v))) u) else (T(v := insert i (T v))) u)
      = (\<lambda>u. if u \<in> set (v # vs) then insert i (T u) else T u)"
    by (auto simp: fun_eq_iff)
  then show ?case using rs' step by simp
qed (simp add: hulls_def)

definition touched :: "nat list list \<Rightarrow> nat list list \<Rightarrow> nat \<Rightarrow> nat \<Rightarrow> nat set" where
  "touched us ds n v = {i. i < n \<and> (v \<in> set (us ! i) \<or> v \<in> set (ds ! i))}"

lemma touched_ranges:
  assumes "code_ok w succs us ds" "n \<le> length succs"
  shows "\<exists>rs. fold_option (extend_at us ds) [0..<n] (replicate w None) = Some rs \<and> hulls w (touched us ds n) rs"
  using assms(2)
proof (induction n)
  case 0
  then show ?case by (simp add: hulls_def touched_def hull_def)
next
  case (Suc n)
  then obtain rs where rs: "fold_option (extend_at us ds) [0..<n] (replicate w None) = Some rs" "hulls w (touched us ds n) rs"
    by auto
  have sub: "set (ds ! n) \<subseteq> {..<w}" "set (us ! n) \<subseteq> {..<w}" using assms(1) Suc.prems by (auto simp: code_ok_def)
  obtain r1 where r1: "fold_option (extend_range n) (ds ! n) rs = Some r1"
    "hulls w (\<lambda>v. if v \<in> set (ds ! n) then insert n (touched us ds n v) else touched us ds n v) r1"
    using extend_ranges[OF rs(2) sub(1)] by blast
  obtain r2 where r2: "fold_option (extend_range n) (us ! n) r1 = Some r2"
    "hulls w (\<lambda>v. if v \<in> set (us ! n) then insert n (if v \<in> set (ds ! n) then insert n (touched us ds n v) else touched us ds n v)
      else if v \<in> set (ds ! n) then insert n (touched us ds n v) else touched us ds n v) r2"
    using extend_ranges[OF r1(2) sub(2)] by blast
  have "(\<lambda>v. if v \<in> set (us ! n) then insert n (if v \<in> set (ds ! n) then insert n (touched us ds n v) else touched us ds n v)
      else if v \<in> set (ds ! n) then insert n (touched us ds n v) else touched us ds n v) = touched us ds (Suc n)"
    by (auto simp: fun_eq_iff touched_def less_Suc_eq)
  moreover have "extend_at us ds n rs = Some r2" using r1(1) r2(1) by (simp add: extend_at_def)
  ultimately show ?case using rs(1) r2(2) by (simp add: fold_option_append)
qed

section \<open>Boundaries\<close>

definition boundaries :: "nat list list \<Rightarrow> block_partition \<Rightarrow> (nat \<Rightarrow> nat set) \<Rightarrow> nat \<Rightarrow> nat \<Rightarrow> nat set" where
  "boundaries succs p LI n v = {starts p ! b |b. b < n \<and> v \<in> LI b}
     \<union> {snd (block_span p b) |b. b < n \<and> v \<in> block_out succs p LI b}"

lemma boundaries_Suc:
  "boundaries succs p LI (Suc n) v = boundaries succs p LI n v \<union> (if v \<in> LI n then {starts p ! n} else {})
     \<union> (if v \<in> block_out succs p LI n then {snd (block_span p n)} else {})"
  by (auto simp: boundaries_def less_Suc_eq)

lemma boundary_ranges:
  assumes ok: "partition_ok succs p" and flow: "code_ok w succs us ds" and li: "sets_ok w (partition_len p) li"
    and rs: "hulls w T rs" and n: "n \<le> partition_len p"
  shows "\<exists>rs' s. fold_option (extend_over_block p li succs) [0..<n] (rs, with_width w) = Some (rs', s)
    \<and> live_set_ok w s \<and> hulls w (\<lambda>v. T v \<union> boundaries succs p (entry_sets li) n v) rs'"
  using n
proof (induction n)
  case 0
  then show ?case using rs by (simp add: boundaries_def)
next
  case (Suc n)
  then obtain r s where r: "fold_option (extend_over_block p li succs) [0..<n] (rs, with_width w) = Some (r, s)"
    "live_set_ok w s" "hulls w (\<lambda>v. T v \<union> boundaries succs p (entry_sets li) n v) r"
    by auto
  have b: "n < partition_len p" using Suc.prems by simp
  have sub: "set (li ! n) \<subseteq> {..<w}" using li b by (simp add: sets_ok_def)
  obtain r1 where r1: "fold_option (extend_range (starts p ! n)) (li ! n) r = Some r1"
    "hulls w (\<lambda>v. if v \<in> set (li ! n) then insert (starts p ! n) (T v \<union> boundaries succs p (entry_sets li) n v)
      else T v \<union> boundaries succs p (entry_sets li) n v) r1"
    using extend_ranges[OF r(3) sub] by blast
  obtain s1 where s1: "collect_block_live_out n p succs li s = Some s1" "live_set_ok w s1"
    "set (members s1) = block_out succs p (entry_sets li) n"
    using collect_result[OF ok flow b r(2) li] by blast
  have sub1: "set (members s1) \<subseteq> {..<w}" using s1(2) by (simp add: live_set_ok_def)
  obtain r2 where r2: "fold_option (extend_range (snd (block_span p n))) (members s1) r1 = Some r2"
    "hulls w (\<lambda>v. if v \<in> set (members s1)
      then insert (snd (block_span p n)) (if v \<in> set (li ! n) then insert (starts p ! n) (T v \<union> boundaries succs p (entry_sets li) n v)
        else T v \<union> boundaries succs p (entry_sets li) n v)
      else if v \<in> set (li ! n) then insert (starts p ! n) (T v \<union> boundaries succs p (entry_sets li) n v)
        else T v \<union> boundaries succs p (entry_sets li) n v) r2"
    using extend_ranges[OF r1(2) sub1] by blast
  have "extend_over_block p li succs n (r, s) = Some (r2, s1)"
    using r1(1) s1(1) r2(1) by (simp add: extend_over_block_def case_prod_unfold) (simp add: block_span_def)
  moreover have "(\<lambda>v. if v \<in> set (members s1)
      then insert (snd (block_span p n)) (if v \<in> set (li ! n) then insert (starts p ! n) (T v \<union> boundaries succs p (entry_sets li) n v)
        else T v \<union> boundaries succs p (entry_sets li) n v)
      else if v \<in> set (li ! n) then insert (starts p ! n) (T v \<union> boundaries succs p (entry_sets li) n v)
        else T v \<union> boundaries succs p (entry_sets li) n v)
    = (\<lambda>v. T v \<union> boundaries succs p (entry_sets li) (Suc n) v)"
    by (auto simp: fun_eq_iff boundaries_Suc s1(3))
  ultimately show ?case using r(1) r2(2) s1(2) by (simp add: fold_option_append)
qed

section \<open>The places a register occupies\<close>

definition occupied :: "nat list list \<Rightarrow> nat list list \<Rightarrow> nat list list \<Rightarrow> nat \<Rightarrow> nat set" where
  "occupied succs us ds v = touched us ds (length succs) v \<union> {i. live_at succs us ds v i}"

lemma occupied_bound: "i \<in> occupied succs us ds v \<Longrightarrow> i < length succs"
  by (auto simp: occupied_def touched_def dest: live_at_bound)

lemma finite_occupied [simp]: "finite (occupied succs us ds v)"
  by (rule finite_subset[of _ "{..<length succs}"]) (auto dest: occupied_bound)

lemma solution_out:
  assumes ok: "partition_ok succs p" and flow: "code_ok w succs us ds" and sol: "block_solution w succs us ds p li"
    and b: "b < partition_len p"
  shows "block_out succs p (entry_sets li) b = {v. live_out succs us ds v (snd (block_span p b))}"
proof -
  have "set (li ! (block_of p ! s)) = {v. live_at succs us ds v s}" if s: "s \<in> set (succs ! snd (block_span p b))" for s
  proof -
    have "s < length succs" using s flow span_props(2)[OF ok b] by (auto simp: code_ok_def)
    then show ?thesis using block_target[OF ok b s] sol by (simp add: block_solution_def)
  qed
  then show ?thesis by (auto simp: block_out_def live_out_def)
qed

lemma boundary_below:
  assumes ok: "partition_ok succs p" and sol: "block_solution w succs us ds p li" and b: "b < partition_len p"
    and i: "fst (block_span p b) \<le> i" "i \<le> snd (block_span p b)" and live: "live_at succs us ds v i"
  shows "\<exists>a \<in> touched us ds (length succs) v \<union> boundaries succs p (entry_sets li) (partition_len p) v. a \<le> i"
  using i(1) live i(2)
proof (induction i rule: dec_induct)
  case base
  then have "v \<in> set (li ! b)" using sol b by (simp add: block_solution_def block_span_def)
  then have "starts p ! b \<in> boundaries succs p (entry_sets li) (partition_len p) v" using b by (auto simp: boundaries_def)
  then show ?case by (auto simp: block_span_def)
next
  case (step i)
  have i: "i < length succs" "succs ! i = [i + 1]"
    using span_props(2)[OF ok b] step inside_block[OF ok b, of i] by auto
  have out: "live_out succs us ds v i" using step.prems(1) i(2) by (simp add: live_out_def)
  show ?case
  proof (cases "v \<in> set (ds ! i)")
    case True
    then show ?thesis using i(1) by (intro bexI[of _ i]) (auto simp: touched_def)
  next
    case False
    then have "live_at succs us ds v i" using out by (auto simp: live_at_iff[OF i(1)] row_step_def)
    then show ?thesis using step.IH step.prems(2) by (meson Suc_leD le_SucI)
  qed
qed

lemma boundary_above:
  assumes ok: "partition_ok succs p" and flow: "code_ok w succs us ds" and sol: "block_solution w succs us ds p li"
    and b: "b < partition_len p"
    and i: "i \<le> snd (block_span p b)" "fst (block_span p b) \<le> i" and live: "live_at succs us ds v i"
  shows "\<exists>a \<in> touched us ds (length succs) v \<union> boundaries succs p (entry_sets li) (partition_len p) v. i \<le> a"
  using i(1,2) live
proof (induction i rule: inc_induct)
  case base
  let ?e = "snd (block_span p b)"
  have e: "?e < length succs" using span_props(2)[OF ok b] .
  show ?case
  proof (cases "v \<in> set (us ! ?e)")
    case True
    then show ?thesis using e by (intro bexI[of _ ?e]) (auto simp: touched_def)
  next
    case False
    then have "live_out succs us ds v ?e" using base.prems(2) by (auto simp: live_at_iff[OF e] row_step_def)
    then have "v \<in> block_out succs p (entry_sets li) b" by (simp add: solution_out[OF ok flow sol b])
    then show ?thesis using b by (intro bexI[of _ ?e]) (auto simp: boundaries_def)
  qed
next
  case (step i)
  have i: "i < length succs" "succs ! i = [i + 1]"
    using span_props(2)[OF ok b] step inside_block[OF ok b, of i] by auto
  show ?case
  proof (cases "v \<in> set (us ! i)")
    case True
    then show ?thesis using i by (intro bexI[of _ i]) (auto simp: touched_def)
  next
    case False
    then have "live_at succs us ds v (Suc i)"
      using step.prems(2) i(2) by (auto simp: live_at_iff[OF i(1)] row_step_def live_out_def)
    then show ?thesis using step.IH step.prems(1) by (meson Suc_leD le_SucI)
  qed
qed

lemma boundaries_suffice:
  assumes ok: "partition_ok succs p" and flow: "code_ok w succs us ds" and sol: "block_solution w succs us ds p li"
  shows "hull (touched us ds (length succs) v \<union> boundaries succs p (entry_sets li) (partition_len p) v)
    = hull (occupied succs us ds v)"
proof (rule hull_between)
  show "touched us ds (length succs) v \<union> boundaries succs p (entry_sets li) (partition_len p) v \<subseteq> occupied succs us ds v"
  proof
    fix a assume "a \<in> touched us ds (length succs) v \<union> boundaries succs p (entry_sets li) (partition_len p) v"
    then consider "a \<in> touched us ds (length succs) v"
      | b where "a = starts p ! b" "b < partition_len p" "v \<in> set (li ! b)"
      | b where "a = snd (block_span p b)" "b < partition_len p" "v \<in> block_out succs p (entry_sets li) b"
      by (auto simp: boundaries_def)
    then show "a \<in> occupied succs us ds v"
    proof cases
      case 1
      then show ?thesis by (simp add: occupied_def)
    next
      case (2 b)
      then show ?thesis using sol by (auto simp: occupied_def block_solution_def)
    next
      case (3 b)
      note e = span_props(2)[OF ok 3(2)]
      have "live_out succs us ds v a" using 3 solution_out[OF ok flow sol 3(2)] by simp
      then show ?thesis using e 3(1) by (auto simp: occupied_def touched_def live_at_iff row_step_def)
    qed
  qed
  fix c assume c: "c \<in> occupied succs us ds v"
  note blk = in_block[OF ok occupied_bound[OF c] refl]
  show "\<exists>a \<in> touched us ds (length succs) v \<union> boundaries succs p (entry_sets li) (partition_len p) v. a \<le> c"
    using c boundary_below[OF ok sol blk] by (auto simp: occupied_def)
  show "\<exists>a \<in> touched us ds (length succs) v \<union> boundaries succs p (entry_sets li) (partition_len p) v. c \<le> a"
    using c boundary_above[OF ok flow sol blk(1,3,2)] by (auto simp: occupied_def)
qed simp

section \<open>The ranges\<close>

lemma cyclic_ranges:
  assumes ok: "partition_ok succs p" and flow: "code_ok w succs us ds" and sol: "block_solution w succs us ds p li"
  shows "\<exists>rs. build_live_ranges (length succs) w us ds succs (Some (p, li)) = Some rs
    \<and> hulls w (occupied succs us ds) rs"
proof -
  obtain r where r: "fold_option (extend_at us ds) [0..<length succs] (replicate w None) = Some r"
    "hulls w (touched us ds (length succs)) r"
    using touched_ranges[OF flow order_refl] by blast
  have li: "sets_ok w (partition_len p) li" using sol by (simp add: block_solution_def)
  obtain rs s where rs: "fold_option (extend_over_block p li succs) [0..<partition_len p] (r, with_width w) = Some (rs, s)"
    "hulls w (\<lambda>v. touched us ds (length succs) v \<union> boundaries succs p (entry_sets li) (partition_len p) v) rs"
    using boundary_ranges[OF ok flow li r(2) order_refl] by blast
  have "hulls w (occupied succs us ds) rs"
    using rs(2) boundaries_suffice[OF ok flow sol] by (simp add: hulls_def)
  then show ?thesis using r(1) rs(1) by (simp add: build_live_ranges_def)
qed

lemma forward_ranges:
  assumes flow: "code_ok w succs us ds"
  shows "\<exists>rs. build_live_ranges (length succs) w us ds succs None = Some rs
    \<and> hulls w (touched us ds (length succs)) rs"
  using touched_ranges[OF flow order_refl] by (auto simp: build_live_ranges_def)

inductive reached_inst :: "nat list list \<Rightarrow> nat \<Rightarrow> bool" for succs where
  entry: "0 < length succs \<Longrightarrow> reached_inst succs 0"
| step: "reached_inst succs i \<Longrightarrow> j \<in> set (succs ! i) \<Longrightarrow> reached_inst succs j"

lemma reached_bound: "code_ok w succs us ds \<Longrightarrow> reached_inst succs i \<Longrightarrow> i < length succs"
  by (rotate_tac, induction rule: reached_inst.induct) (auto simp: code_ok_def)

lemma forward_def_before:
  assumes flow: "code_ok w succs us ds" and fwd: "\<not> has_back_edge succs" and entry: "\<not> live_at succs us ds v 0"
    and i: "reached_inst succs i"
  shows "i < length succs \<and> (live_at succs us ds v i \<longrightarrow> (\<exists>d < i. d \<in> touched us ds (length succs) v))"
  using i
proof (induction rule: reached_inst.induct)
  case (step i j)
  then have ij: "i < length succs" "j < length succs" "i < j"
    using flow fwd by (auto simp: code_ok_def back_edge_iff not_le)
  have "\<exists>d < j. d \<in> touched us ds (length succs) v" if "live_at succs us ds v j"
  proof (cases "v \<in> set (ds ! i)")
    case True
    then show ?thesis using ij by (auto simp: touched_def)
  next
    case False
    then have "live_at succs us ds v i" by (rule live_at.there[OF ij(1) step.hyps(2) that])
    then show ?thesis using step.IH ij(3) by (meson less_trans)
  qed
  then show ?case using ij(2) by blast
qed (use entry in simp)

lemma forward_use_after:
  assumes flow: "code_ok w succs us ds" and fwd: "\<not> has_back_edge succs" and i: "live_at succs us ds v i"
  shows "\<exists>u \<ge> i. u \<in> touched us ds (length succs) v"
  using i
proof (induction rule: live_at.induct)
  case (here i)
  then show ?case by (intro exI[of _ i]) (auto simp: touched_def)
next
  case (there i j)
  then have "i < j" using fwd by (auto simp: back_edge_iff not_le)
  then show ?case using there.IH by (meson less_imp_le order_trans)
qed

text \<open>What the allocator relies on: a range contains every reachable place its register occupies.\<close>

definition covers :: "nat list list \<Rightarrow> nat list list \<Rightarrow> nat list list \<Rightarrow> live_range option list \<Rightarrow> nat \<Rightarrow> bool" where
  "covers succs us ds rs v \<longleftrightarrow> (\<forall>i. reached_inst succs i \<and> i \<in> occupied succs us ds v \<longrightarrow>
     (\<exists>r. rs ! v = Some r \<and> start_at r \<le> i \<and> i \<le> end_at r))"

lemma forward_covers:
  assumes flow: "code_ok w succs us ds" and fwd: "\<not> has_back_edge succs" and entry: "\<not> live_at succs us ds v 0"
    and rs: "hulls w (touched us ds (length succs)) rs" and v: "v < w"
  shows "covers succs us ds rs v"
proof (unfold covers_def, intro allI impI, elim conjE)
  fix i assume i: "reached_inst succs i" "i \<in> occupied succs us ds v"
  let ?T = "touched us ds (length succs) v"
  have fin: "finite ?T" and r: "rs ! v = hull ?T" using rs v by (auto simp: hulls_def)
  have "\<exists>d \<in> ?T. d \<le> i" "\<exists>u \<in> ?T. i \<le> u"
    using i(2) forward_def_before[OF flow fwd entry i(1)] forward_use_after[OF flow fwd]
    by (auto simp: occupied_def intro: less_imp_le)
  then obtain d u where "d \<in> ?T" "d \<le> i" "u \<in> ?T" "i \<le> u" by blast
  then have "?T \<noteq> {}" "Min ?T \<le> i" "i \<le> Max ?T" using fin by (auto intro: Min.coboundedI Max.coboundedI order_trans)
  then show "\<exists>r. rs ! v = Some r \<and> start_at r \<le> i \<and> i \<le> end_at r" by (simp add: r hull_def)
qed

lemma cyclic_covers: "hulls w (occupied succs us ds) rs \<Longrightarrow> v < w \<Longrightarrow> covers succs us ds rs v"
  using hull_covers[OF finite_occupied] by (auto simp: covers_def hulls_def)

end
