(* ===== verification/Divergence.thy ===== *)
theory Divergence
  imports Live_Analysis
begin

text \<open>
  The instructions that control can only leave by aborting: \<open>compute_divergence\<close> ends, and marks
  exactly the least set that holds every never-returning call and every instruction all of whose
  successors are in it.
\<close>

inductive diverges :: "nat list list \<Rightarrow> bool list \<Rightarrow> nat \<Rightarrow> bool" for succs nr where
  never: "i < length succs \<Longrightarrow> nr ! i \<Longrightarrow> diverges succs nr i"
| all_do: "i < length succs \<Longrightarrow> succs ! i \<noteq> [] \<Longrightarrow> (\<And>j. j \<in> set (succs ! i) \<Longrightarrow> diverges succs nr j)
    \<Longrightarrow> diverges succs nr i"

text \<open>The successors that the walk has not retired.\<close>

definition left_of :: "nat set \<Rightarrow> nat list \<Rightarrow> nat" where
  "left_of P ss = length (filter (\<lambda>s. s \<notin> P) ss)"

lemma left_of_insert: "j \<notin> P \<Longrightarrow> left_of P ss = count_list ss j + left_of (insert j P) ss"
  by (induction ss) (auto simp: left_of_def)

lemma left_of_0: "left_of P ss = 0 \<longleftrightarrow> set ss \<subseteq> P"
  by (auto simp: left_of_def filter_empty_conv)

definition spread_inv :: "nat list list \<Rightarrow> bool list \<Rightarrow> nat set \<Rightarrow> nat list \<Rightarrow> (nat \<Rightarrow> nat) \<Rightarrow> divergence_state \<Rightarrow> bool" where
  "spread_inv succs nr P extra retired st \<longleftrightarrow> length (marked st) = length succs \<and> length (unmarked st) = length succs
     \<and> distinct (work st) \<and> set (work st) \<inter> (P \<union> set extra) = {}
     \<and> {i. i < length succs \<and> marked st ! i} = P \<union> set extra \<union> set (work st)
     \<and> (\<forall>i < length succs. (marked st ! i \<longrightarrow> diverges succs nr i) \<and> (nr ! i \<longrightarrow> marked st ! i))
     \<and> (\<forall>i < length succs. \<not> marked st ! i \<longrightarrow>
          unmarked st ! i + retired i = left_of P (succs ! i) \<and> (succs ! i \<noteq> [] \<longrightarrow> 0 < unmarked st ! i))"

lemma retire_edge_inv:
  assumes inv: "spread_inv succs nr P [j] (count_list pre) st" and j: "j \<notin> P"
    and q: "q < length succs" "count_list (pre @ [q]) q \<le> count_list (succs ! q) j"
  shows "\<exists>st'. retire_edge q st = Some st' \<and> spread_inv succs nr P [j] (count_list (pre @ [q])) st'"
proof -
  let ?n = "length succs"
  have len: "length (marked st) = ?n" "length (unmarked st) = ?n"
    and wrk: "distinct (work st)" "set (work st) \<inter> (P \<union> {j}) = {}" "{i. i < ?n \<and> marked st ! i} = P \<union> {j} \<union> set (work st)"
    and snd: "\<And>i. i < ?n \<Longrightarrow> marked st ! i \<Longrightarrow> diverges succs nr i" "\<And>i. i < ?n \<Longrightarrow> nr ! i \<Longrightarrow> marked st ! i"
    and cnt: "\<And>i. i < ?n \<Longrightarrow> \<not> marked st ! i \<Longrightarrow> unmarked st ! i + count_list pre i = left_of P (succs ! i)
      \<and> (succs ! i \<noteq> [] \<longrightarrow> 0 < unmarked st ! i)"
    using inv by (auto simp: spread_inv_def)
  have other: "count_list (pre @ [q]) i = count_list pre i" if "i \<noteq> q" for i using that by simp
  show ?thesis
  proof (cases "marked st ! q")
    case True
    have "spread_inv succs nr P [j] (count_list (pre @ [q])) st"
      unfolding spread_inv_def using len wrk snd cnt other True by (metis empty_set list.simps(15) set_ConsD list.set(1))
    then show ?thesis using True by (simp add: retire_edge_def)
  next
    case False
    have ne: "succs ! q \<noteq> []" using q(2) by auto
    have c: "0 < unmarked st ! q" "unmarked st ! q + count_list pre q = left_of P (succs ! q)"
      using cnt[OF q(1) False] ne by auto
    define u where "u = unmarked st ! q - 1"
    have u: "u + count_list (pre @ [q]) q = left_of P (succs ! q)" using c by (simp add: u_def)
    show ?thesis
    proof (cases "u = 0")
      case True
      have "left_of (insert j P) (succs ! q) = 0" using u True q(2) left_of_insert[OF j, of "succs ! q"] by simp
      then have sub: "set (succs ! q) \<subseteq> P \<union> {j}" by (simp add: left_of_0)
      have "diverges succs nr q"
        using q(1) ne by (rule diverges.all_do) (use sub wrk(3) snd in blast)
      then have "diverges succs nr i" if "i < ?n" "(marked st)[q := True] ! i" for i
        using that snd(1)[OF that(1)] len(1) by (cases "i = q") auto
      moreover define st' where "st' = st\<lparr>unmarked := (unmarked st)[q := u], marked := (marked st)[q := True], work := q # work st\<rparr>"
      have "q \<notin> P \<union> {j} \<union> set (work st)" using False wrk(3) q(1) by blast
      moreover have "{i. i < ?n \<and> marked st' ! i} = insert q {i. i < ?n \<and> marked st ! i}"
        using q(1) len(1) by (auto simp: st'_def nth_list_update)
      ultimately have "spread_inv succs nr P [j] (count_list (pre @ [q])) st'"
        unfolding spread_inv_def using len wrk snd cnt other
        by (auto simp: st'_def nth_list_update)
      then show ?thesis using False True c(1) by (simp add: retire_edge_def Let_def u_def st'_def)
    next
      case nz: False
      have "spread_inv succs nr P [j] (count_list (pre @ [q])) (st\<lparr>unmarked := (unmarked st)[q := u]\<rparr>)"
        unfolding spread_inv_def using len wrk snd cnt other u nz by (auto simp: nth_list_update)
      then show ?thesis using False nz c(1) by (simp add: retire_edge_def Let_def u_def)
    qed
  qed
qed

lemma retire_all:
  assumes inv: "spread_inv succs nr P [j] (\<lambda>_. 0) st" and j: "j \<notin> P"
    and qs: "\<And>q. count_list qs q = (if q < length succs then count_list (succs ! q) j else 0)"
  shows "\<exists>st'. fold_option retire_edge qs st = Some st' \<and> spread_inv succs nr (insert j P) [] (\<lambda>_. 0) st'"
proof -
  have "\<exists>st'. fold_option retire_edge qs st = Some st' \<and> spread_inv succs nr P [j] (count_list qs) st'"
  proof (rule fold_option_induct[where P = "\<lambda>pre st. spread_inv succs nr P [j] (count_list pre) st"])
    have "count_list ([] :: nat list) = (\<lambda>_. 0)" by (simp add: fun_eq_iff)
    then show "spread_inv succs nr P [j] (count_list []) st" using inv by simp
    fix pre q rest s
    assume e: "qs = pre @ q # rest" and s: "spread_inv succs nr P [j] (count_list pre) s"
    have "count_list qs q \<noteq> 0" unfolding e by simp
    then have "q < length succs" "count_list qs q = count_list (succs ! q) j" using qs[of q] by (auto split: if_splits)
    moreover have "count_list (pre @ [q]) q \<le> count_list qs q" unfolding e by simp
    ultimately show "\<exists>s'. retire_edge q s = Some s' \<and> spread_inv succs nr P [j] (count_list (pre @ [q])) s'"
      using retire_edge_inv[OF s j] by simp
  qed
  then obtain st' where st': "fold_option retire_edge qs st = Some st'" "spread_inv succs nr P [j] (count_list qs) st'" by blast
  have "unmarked st' ! i = left_of (insert j P) (succs ! i)" if "i < length succs" "\<not> marked st' ! i" for i
    using st'(2) that qs[of i] left_of_insert[OF j, of "succs ! i"] by (auto simp: spread_inv_def)
  then have "spread_inv succs nr (insert j P) [] (\<lambda>_. 0) st'"
    using st'(2) by (auto simp: spread_inv_def)
  then show ?thesis using st'(1) by blast
qed

definition preds_of :: "nat list list \<Rightarrow> adjacency" where
  "preds_of succs = group_edges (length succs) (concat succs)
     (concat (map (\<lambda>i. map (\<lambda>s. (s, i)) (succs ! i)) [0..<length succs]))"

lemma count_list_filter_map: "count_list (map snd (filter (\<lambda>e. fst e = k) (map (\<lambda>s. (s, i)) ss))) q = (if q = i then count_list ss k else 0)"
  by (induction ss) auto

lemma count_vals_rows:
  "count_list (vals (concat (map (\<lambda>i. map (\<lambda>s. (s, i)) (succs ! i)) [0..<n])) k) q
    = (if q < n then count_list (succs ! q) k else 0)"
proof (induction n)
  case (Suc n)
  have "vals (xs @ ys) k = vals xs k @ vals ys k" for xs ys by (simp add: vals_def)
  then show ?case using Suc by (auto simp: vals_def count_list_filter_map less_Suc_eq)
qed (simp add: vals_def)

lemma count_preds:
  assumes "\<forall>i < length succs. set (succs ! i) \<subseteq> {..<length succs}" "k < length succs"
  shows "count_list (adj_of (preds_of succs) k) q = (if q < length succs then count_list (succs ! q) k else 0)"
proof -
  let ?es = "concat (map (\<lambda>i. map (\<lambda>s. (s, i)) (succs ! i)) [0..<length succs])"
  have m: "map ((!) succs) [0..<length succs] = succs" by (rule map_nth)
  have "map fst ?es = concat succs" using m by (simp add: map_concat comp_def)
  moreover have "\<forall>t \<in> set (concat succs). t < length succs" using assms(1) by (fastforce simp: in_set_conv_nth)
  ultimately have "adj_of (preds_of succs) k = vals ?es k"
    unfolding preds_of_def using assms(2) by (intro group_edges_of) simp_all
  then show ?thesis by (simp add: count_vals_rows)
qed

lemma spread_result:
  assumes rows: "\<forall>i < length succs. set (succs ! i) \<subseteq> {..<length succs}" and inv: "spread_inv succs nr P [] (\<lambda>_. 0) st"
  shows "\<exists>st' Q. spread (preds_of succs) st = Some st' \<and> spread_inv succs nr Q [] (\<lambda>_. 0) st' \<and> work st' = [] \<and> P \<subseteq> Q"
  using inv
proof (induction "length succs - card P" arbitrary: P st rule: less_induct)
  case less
  show ?case
  proof (cases "work st")
    case Nil
    then show ?thesis using less.prems by (subst spread.simps) auto
  next
    case (Cons j rest)
    have sub: "insert j P \<subseteq> {..<length succs}" and j: "j \<notin> P"
      using less.prems Cons by (auto simp: spread_inv_def)
    have "spread_inv succs nr P [j] (\<lambda>_. 0) (st\<lparr>work := rest\<rparr>)"
      using less.prems Cons by (auto simp: spread_inv_def)
    then obtain st1 where st1: "fold_option retire_edge (adj_of (preds_of succs) j) (st\<lparr>work := rest\<rparr>) = Some st1"
      "spread_inv succs nr (insert j P) [] (\<lambda>_. 0) st1"
      using retire_all[OF _ j count_preds[OF rows]] sub by blast
    have fin: "finite P" using sub finite_subset by auto
    have "card (insert j P) \<le> length succs" using card_mono[OF _ sub] by simp
    then have "length succs - card (insert j P) < length succs - card P" using j fin by simp
    from less.hyps[OF this st1(2)] show ?thesis using Cons st1(1) by (subst spread.simps) auto
  qed
qed

lemma seeds_marked:
  assumes "set idxs \<subseteq> {..<n}"
  shows "\<exists>ds. fold_option (\<lambda>i ds. put_at ds i True) idxs (replicate n False) = Some ds \<and> length ds = n \<and> (\<forall>i < n. ds ! i \<longleftrightarrow> i \<in> set idxs)"
proof -
  have "\<exists>ds. fold_option (\<lambda>i ds. put_at ds i True) idxs (replicate n False) = Some ds
      \<and> (length ds = n \<and> (\<forall>i < n. ds ! i \<longleftrightarrow> i \<in> set idxs))"
    by (rule fold_option_induct[where P = "\<lambda>pre ds. length ds = n \<and> (\<forall>i < n. ds ! i \<longleftrightarrow> i \<in> set pre)"])
      (use assms in \<open>auto simp: put_at_def nth_list_update\<close>)
  then show ?thesis .
qed

text \<open>The walk computes the least set.\<close>

lemma divergence_exact:
  assumes len: "length nr = length succs" and rows: "\<forall>i < length succs. set (succs ! i) \<subseteq> {..<length succs}"
  shows "\<exists>ds. compute_divergence succs nr = Some ds \<and> length ds = length succs
    \<and> (\<forall>i < length succs. ds ! i \<longleftrightarrow> diverges succs nr i)"
proof -
  let ?n = "length succs"
  let ?w = "map fst (filter snd (enumerate 0 nr))"
  have w: "set ?w = {i. i < ?n \<and> nr ! i}" using len by (auto simp: in_set_enumerate_eq image_iff)
  have dist: "distinct ?w" using distinct_enumerate by (intro distinct_map_filter) (simp add: distinct_map)
  show ?thesis
  proof (cases "?w = []")
    case True
    have "\<not> diverges succs nr i" for i
    proof
      assume "diverges succs nr i"
      then show False
      proof (induction rule: diverges.induct)
        case (never i)
        then show ?case using w True by auto
      next
        case (all_do i)
        then show ?case by (cases "succs ! i") auto
      qed
    qed
    then show ?thesis using True by (simp add: compute_divergence_def Let_def)
  next
    case False
    obtain ds where ds: "fold_option (\<lambda>i ds. put_at ds i True) ?w (replicate ?n False) = Some ds" "length ds = ?n"
      "\<forall>i < ?n. ds ! i \<longleftrightarrow> i \<in> set ?w"
      using seeds_marked[of ?w ?n] w by auto
    let ?st = "\<lparr>marked = ds, unmarked = map length succs, work = rev ?w\<rparr>"
    have "spread_inv succs nr {} [] (\<lambda>_. 0) ?st"
      using ds w dist by (auto simp: spread_inv_def left_of_def intro: diverges.never)
    then obtain st Q where st: "spread (preds_of succs) ?st = Some st" "spread_inv succs nr Q [] (\<lambda>_. 0) st" "work st = []"
      using spread_result[OF rows] by blast
    have all: "list_all (list_all (\<lambda>s. s < ?n)) succs" 
    proof -
      have "\<forall>ss \<in> set succs. set ss \<subseteq> {..<?n}" using rows by (metis in_set_conv_nth)
      then show ?thesis by (auto simp: list_all_iff)
    qed
    have res: "compute_divergence succs nr = Some (marked st)"
      using False ds(1) all st(1) by (simp add: compute_divergence_def Let_def preds_of_def)
    have Q: "Q = {i. i < ?n \<and> marked st ! i}" "length (marked st) = ?n" using st(2,3) by (auto simp: spread_inv_def)
    have "marked st ! i" if "diverges succs nr i" for i
      using that
    proof (induction rule: diverges.induct)
      case (never i)
      then show ?case using st(2) by (simp add: spread_inv_def)
    next
      case (all_do i)
      show ?case
      proof (rule ccontr)
        assume m: "\<not> marked st ! i"
        then have "0 < left_of Q (succs ! i)" using st(2) all_do(1,2) by (auto simp: spread_inv_def)
        then have "\<not> set (succs ! i) \<subseteq> Q" using left_of_0[of Q "succs ! i"] by simp
        moreover have "set (succs ! i) \<subseteq> Q" using all_do(1,4) rows by (auto simp: Q)
        ultimately show False by blast
      qed
    qed
    then show ?thesis using res Q(2) st(2) by (auto simp: spread_inv_def)
  qed
qed

end
