(* ===== verification/Live_Results.thy ===== *)
theory Live_Results
  imports Live_Ranges Divergence
begin

text \<open>
  The liveness analysis as a whole: it always returns, and every table of its result is what the
  definition over paths says.
\<close>

section \<open>The diagnostic rows\<close>

definition row_spec :: "nat list list \<Rightarrow> nat list list \<Rightarrow> nat list list \<Rightarrow> nat \<Rightarrow> instruction_liveness" where
  "row_spec succs us ds i = \<lparr>row_index = i, row_live_in = {v. live_at succs us ds v i},
     row_live_out = {v. live_out succs us ds v i}, row_defs = ds ! i, row_uses = us ! i\<rparr>"

lemma live_row:
  assumes flow: "code_ok w succs us ds" and i: "i < length succs" and s: "live_set_ok w s"
    and out: "set (members s) = {v. live_out succs us ds v i}"
  shows "\<exists>t. liveness_row us ds i (rows, s) = Some (rows @ [row_spec succs us ds i], t) \<and> live_set_ok w t
    \<and> set (members t) = {v. live_at succs us ds v i}"
proof -
  obtain t where t: "transfer_inst us ds i s = Some t" "live_set_ok w t" "set (members t) = row_step us ds i (set (members s))"
    using ws.row[OF s, of ds i us] flow i by (auto simp: transfer_inst_def code_ok_def)
  have "set (members t) = {v. live_at succs us ds v i}" unfolding t(3) out by (auto simp: live_at_iff[OF i])
  then show ?thesis using t(1,2) out by (auto simp: liveness_row_def row_spec_def)
qed

lemma rows_of_block:
  assumes ok: "partition_ok succs p" and flow: "code_ok w succs us ds" and b: "b < partition_len p"
    and s: "live_set_ok w s" "set (members s) = {v. live_out succs us ds v (snd (block_span p b))}"
    and k: "k \<le> snd (block_span p b)" "fst (block_span p b) \<le> k"
  shows "\<exists>t. fold_option (liveness_row us ds) (rev [k..<snd (block_span p b) + 1]) ([], s)
      = Some (map (row_spec succs us ds) (rev [k..<snd (block_span p b) + 1]), t) \<and> live_set_ok w t
    \<and> set (members t) = {v. live_at succs us ds v k}"
  using k
proof (induction k rule: inc_induct)
  case base
  then show ?case using live_row[OF flow span_props(2)[OF ok b] s, of "[]"] by auto
next
  case (step k)
  let ?e = "snd (block_span p b)"
  have i: "k < length succs" "succs ! k = [k + 1]"
    using span_props(2)[OF ok b] step inside_block[OF ok b, of k] by auto
  obtain t where t: "fold_option (liveness_row us ds) (rev [Suc k..<?e + 1]) ([], s)
      = Some (map (row_spec succs us ds) (rev [Suc k..<?e + 1]), t)" "live_set_ok w t"
    "set (members t) = {v. live_at succs us ds v (Suc k)}"
    using step by auto
  have "set (members t) = {v. live_out succs us ds v k}" using t(3) i(2) by (simp add: live_out_def)
  then obtain t' where "liveness_row us ds k (map (row_spec succs us ds) (rev [Suc k..<?e + 1]), t)
      = Some (map (row_spec succs us ds) (rev [Suc k..<?e + 1]) @ [row_spec succs us ds k], t')" "live_set_ok w t'"
    "set (members t') = {v. live_at succs us ds v k}"
    using live_row[OF flow i(1) t(2)] by blast
  moreover have "rev [k..<?e + 1] = rev [Suc k..<?e + 1] @ [k]" using step.hyps by (simp add: upt_conv_Cons del: upt_Suc)
  ultimately show ?case using t(1) by (simp add: fold_option_append del: upt_Suc)
qed

lemma rows_of_blocks:
  assumes ok: "partition_ok succs p" and flow: "code_ok w succs us ds" and sol: "block_solution w succs us ds p li"
    and n: "n \<le> partition_len p"
  shows "\<exists>s. fold_option (block_liveness_rows succs us ds p li) [0..<n] ([], with_width w)
      = Some (map (row_spec succs us ds) [0..<starts p ! n], s) \<and> live_set_ok w s"
  using n
proof (induction n)
  case 0
  then show ?case using ok by (simp add: partition_ok_def)
next
  case (Suc n)
  then obtain s where s: "fold_option (block_liveness_rows succs us ds p li) [0..<n] ([], with_width w)
      = Some (map (row_spec succs us ds) [0..<starts p ! n], s)" "live_set_ok w s" by auto
  have b: "n < partition_len p" using Suc.prems by simp
  let ?e = "snd (block_span p n)"
  have span: "fst (block_span p n) = starts p ! n" by (simp add: block_span_def)
  note e = span_props[OF ok b]
  have li: "sets_ok w (partition_len p) li" using sol by (simp add: block_solution_def)
  obtain s1 where s1: "collect_block_live_out n p succs li s = Some s1" "live_set_ok w s1"
    "set (members s1) = {v. live_out succs us ds v ?e}"
    using collect_result[OF ok flow b s(2) li] solution_out[OF ok flow sol b] by auto
  obtain t where t: "fold_option (liveness_row us ds) (rev [starts p ! n..<?e + 1]) ([], s1)
      = Some (map (row_spec succs us ds) (rev [starts p ! n..<?e + 1]), t)" "live_set_ok w t"
    using rows_of_block[OF ok flow b s1(2,3) e(1) order_refl] unfolding span by blast
  have "[0..<starts p ! n] @ [starts p ! n..<?e + 1] = [0..<starts p ! Suc n]"
    using e upt_add_eq_append[of 0 "starts p ! n" "?e + 1 - starts p ! n"] by (simp add: span)
  then have "block_liveness_rows succs us ds p li n (map (row_spec succs us ds) [0..<starts p ! n], s)
      = Some (map (row_spec succs us ds) [0..<starts p ! Suc n], t)"
    using s1(1) t(1) unfolding block_liveness_rows_def
    by (simp add: case_prod_unfold span rev_map del: upt_Suc flip: map_append)
  then show ?case using s(1) t(2) by (simp add: fold_option_append)
qed

lemma rows_exact:
  assumes ok: "partition_ok succs p" and flow: "code_ok w succs us ds" and sol: "block_solution w succs us ds p li"
  shows "instruction_liveness_rows (length succs) w succs us ds p li = Some (map (row_spec succs us ds) [0..<length succs])"
proof -
  have "starts p ! partition_len p = length succs"
    using ok last_conv_nth[of "starts p"] by (simp add: partition_ok_def partition_len_def)
  then show ?thesis using rows_of_blocks[OF ok flow sol order_refl] by (auto simp: instruction_liveness_rows_def)
qed

section \<open>Diverging uses\<close>

lemma mark_all: "length (foldl (\<lambda>slots v. slots[v := True]) slots vs) = length slots
    \<and> (\<forall>v < length slots. foldl (\<lambda>slots v. slots[v := True]) slots vs ! v \<longleftrightarrow> slots ! v \<or> v \<in> set vs)"
proof (induction vs arbitrary: slots)
  case (Cons a vs)
  have "slots[a := True] ! v \<longleftrightarrow> slots ! v \<or> v = a" if "v < length slots" for v
    using that by (cases "v = a") auto
  then show ?case using Cons[of "slots[a := True]"] by auto
qed simp

lemma diverging_uses_exact:
  assumes "length diverging = length us"
  shows "\<exists>slots. collect_diverging_uses w us diverging = Some slots \<and> length slots = w
    \<and> (\<forall>v < w. slots ! v \<longleftrightarrow> (\<exists>i < length us. diverging ! i \<and> v \<in> set (us ! i)))"
proof -
  let ?f = "\<lambda>(idx, us) slots. Option.bind (get_at diverging idx) (\<lambda>d.
    Some (if \<not> d then slots else foldl (\<lambda>slots v. slots[v := True]) slots us))"
  let ?P = "\<lambda>pre slots. length slots = w \<and> (\<forall>v < w. slots ! v \<longleftrightarrow> (\<exists>r \<in> set pre. diverging ! fst r \<and> v \<in> set (snd r)))"
  have "\<exists>slots. fold_option ?f (enumerate 0 us) (replicate w False) = Some slots \<and> ?P (enumerate 0 us) slots"
  proof (rule fold_option_induct)
    show "?P [] (replicate w False)" by simp
    fix pre r rest slots
    assume e: "enumerate 0 us = pre @ r # rest" and P: "?P pre slots"
    have "r \<in> set (enumerate 0 us)" unfolding e by simp
    then have "fst r < length diverging" using assms by (auto simp: in_set_enumerate_eq)
    then show "\<exists>s. ?f r slots = Some s \<and> ?P (pre @ [r]) s"
      using P mark_all[of slots "snd r"] by (auto simp: case_prod_unfold get_at_def)
  qed
  then obtain slots where s: "collect_diverging_uses w us diverging = Some slots" "?P (enumerate 0 us) slots"
    by (auto simp: collect_diverging_uses_def)
  have "set (enumerate 0 us) = (\<lambda>i. (i, us ! i)) ` {..<length us}" by (auto simp: in_set_enumerate_eq image_iff)
  then show ?thesis using s by (auto simp: Bex_def)
qed

section \<open>The analysis\<close>

definition adapter_succs :: "('i, 'r) liveness_adapter \<Rightarrow> 'i list \<Rightarrow> nat list list" where
  "adapter_succs a insts = build_successor_lists a insts (build_label_map a insts)"

definition adapter_uses :: "('i, 'r) liveness_adapter \<Rightarrow> 'i list \<Rightarrow> nat list list" where
  "adapter_uses a insts = map (uses_of a) insts"

definition adapter_defs :: "('i, 'r) liveness_adapter \<Rightarrow> 'i list \<Rightarrow> nat list list" where
  "adapter_defs a insts = map (defs_of a) insts"

definition adapter_ok :: "('i, 'r) liveness_adapter \<Rightarrow> 'i list \<Rightarrow> nat \<Rightarrow> bool" where
  "adapter_ok a insts w \<longleftrightarrow> code_ok w (adapter_succs a insts) (adapter_uses a insts) (adapter_defs a insts)"

definition range_sets :: "nat list list \<Rightarrow> nat list list \<Rightarrow> nat list list \<Rightarrow> nat \<Rightarrow> nat set" where
  "range_sets succs us ds v =
     (if has_back_edge succs then occupied succs us ds v else touched us ds (length succs) v)"

definition analysis_spec ::
  "('i, 'r) liveness_adapter \<Rightarrow> 'i list \<Rightarrow> nat \<Rightarrow> vreg_classes \<Rightarrow> 'r liveness_info \<Rightarrow> bool" where
  "analysis_spec a insts w cs info \<longleftrightarrow>
     hulls w (range_sets (adapter_succs a insts) (adapter_uses a insts) (adapter_defs a insts)) (ranges info)
     \<and> clobbers_at info = map (clobbers_of a) insts \<and> non_returning_at info = map (never_returns a) insts
     \<and> info_classes info = cs
     \<and> length (diverging_at info) = length insts \<and> length (diverging_uses info) = w
     \<and> (\<forall>i < length insts. diverging_at info ! i \<longleftrightarrow> diverges (adapter_succs a insts) (map (never_returns a) insts) i)
     \<and> (\<forall>v < w. diverging_uses info ! v \<longleftrightarrow>
          (\<exists>i < length insts. diverges (adapter_succs a insts) (map (never_returns a) insts) i \<and> v \<in> set (adapter_uses a insts ! i)))"

lemma length_adapter [simp]: "length (adapter_succs a insts) = length insts" "length (adapter_uses a insts) = length insts"
  by (simp_all add: adapter_succs_def build_successor_lists_def adapter_uses_def)

lemma analysis_spec_unique:
  assumes i: "analysis_spec a insts w cs i" and j: "analysis_spec a insts w cs j"
  shows "i = (j :: 'r liveness_info)"
proof -
  have "ranges i = ranges j" "diverging_at i = diverging_at j" "diverging_uses i = diverging_uses j"
    using i j by (auto simp: analysis_spec_def hulls_def intro!: nth_equalityI)
  then show ?thesis using i j by (intro liveness_info.equality) (simp_all add: analysis_spec_def)
qed

lemma analyze_inner_exact:
  assumes ok: "adapter_ok a insts w"
  shows "\<exists>info. analyze_inner a insts w cs debug loops = Some (info,
      then_some debug \<lparr>debug_rows = map (row_spec (adapter_succs a insts) (adapter_uses a insts) (adapter_defs a insts)) [0..<length insts],
        debug_ranges = ranges info, debug_vreg_count = w\<rparr>,
      then_some loops (compute_loop_info (length insts) (adapter_succs a insts)))
    \<and> analysis_spec a insts w cs info"
proof -
  define succs where "succs = adapter_succs a insts"
  define us where "us = adapter_uses a insts"
  define ds where "ds = adapter_defs a insts"
  define n where "n = length insts"
  have flow: "code_ok w succs us ds" using ok by (simp add: adapter_ok_def succs_def us_def ds_def)
  have len: "length succs = n" "length us = n" by (simp_all add: succs_def us_def n_def)
  have n0: "n \<noteq> 0" using flow len by (auto simp: code_ok_def)
  obtain p where p: "partition_blocks n succs = Some p" "partition_ok succs p"
    using partition_blocks_ok[OF flow] len by auto
  obtain li where li: "solve_block_liveness w succs us ds p (has_back_edge succs) = Some li" "block_solution w succs us ds p li"
    using solve_exact[OF p(2) flow] by blast
  obtain rs where rs: "build_live_ranges n w us ds succs (if has_back_edge succs then Some (p, li) else None) = Some rs"
    "hulls w (range_sets succs us ds) rs"
  proof (cases "has_back_edge succs")
    case True
    then have "range_sets succs us ds = occupied succs us ds" by (simp add: fun_eq_iff range_sets_def)
    then show ?thesis using that cyclic_ranges[OF p(2) flow li(2)] len True by auto
  next
    case False
    then have "range_sets succs us ds = touched us ds (length succs)" by (simp add: fun_eq_iff range_sets_def)
    then show ?thesis using that forward_ranges[OF flow] len False by auto
  qed
  have rows: "instruction_liveness_rows n w succs us ds p li = Some (map (row_spec succs us ds) [0..<n])"
    using rows_exact[OF p(2) flow li(2)] len by simp
  have "\<forall>i < length succs. set (succs ! i) \<subseteq> {..<length succs}" using flow by (simp add: code_ok_def)
  then obtain dv where dv: "compute_divergence succs (map (never_returns a) insts) = Some dv" "length dv = n"
    "\<forall>i < n. dv ! i \<longleftrightarrow> diverges succs (map (never_returns a) insts) i"
    using divergence_exact[of "map (never_returns a) insts" succs] len by (auto simp: n_def)
  obtain du where du: "collect_diverging_uses w us dv = Some du" "length du = w"
    "\<forall>v < w. du ! v \<longleftrightarrow> (\<exists>i < n. dv ! i \<and> v \<in> set (us ! i))"
    using diverging_uses_exact[of dv us w] dv(2) len by auto
  define info where "info = \<lparr>ranges = rs, clobbers_at = map (clobbers_of a) insts,
    non_returning_at = map (never_returns a) insts, diverging_at = dv, diverging_uses = du, info_classes = cs\<rparr>"
  have eqs: "build_successor_lists a insts (build_label_map a insts) = succs" "map (uses_of a) insts = us"
    "map (defs_of a) insts = ds" "length insts = n"
    by (simp_all add: succs_def adapter_succs_def us_def adapter_uses_def ds_def adapter_defs_def n_def)
  have "analyze_inner a insts w cs debug loops = Some (info,
      then_some debug \<lparr>debug_rows = map (row_spec succs us ds) [0..<n], debug_ranges = ranges info, debug_vreg_count = w\<rparr>,
      then_some loops (compute_loop_info n succs))"
    using n0 p(1) li(1) rs(1) rows dv(1) du(1)
    by (cases debug; cases "has_back_edge succs") (simp_all add: analyze_inner_def Let_def eqs info_def then_some_def)
  moreover have "analysis_spec a insts w cs info"
    using rs(2) dv(2,3) du(2,3)
    by (simp add: analysis_spec_def info_def succs_def[symmetric] us_def[symmetric] ds_def[symmetric] n_def[symmetric] cong: conj_cong)
  ultimately show ?thesis unfolding succs_def us_def ds_def n_def by blast
qed

section \<open>Results\<close>

lemma live_out_occupied:
  assumes "code_ok w succs us ds" "live_out succs us ds v i" "i < length succs"
  shows "i \<in> occupied succs us ds v"
  using assms live_at_iff[of i succs us ds v] by (auto simp: occupied_def touched_def row_step_def)

text \<open>Straight-line code over lists of registers, for examples.\<close>

definition straight_line :: "nat \<Rightarrow> (nat list \<times> nat list, nat) liveness_adapter" where
  "straight_line n = \<lparr>label = (\<lambda>_. None), successors = (\<lambda>i _ _. fallthrough_successor i n), uses_of = fst, defs_of = snd,
     clobbers_of = (\<lambda>_. []), never_returns = (\<lambda>_. False)\<rparr>"

lemmas straight_line_simps = straight_line_def fallthrough_successor_def adapter_ok_def code_ok_def adapter_succs_def
  adapter_uses_def adapter_defs_def build_successor_lists_def

text \<open>
  C7. The analysis returns on every instruction sequence whose successors and registers are in
  range, through each of its entry points with the same facts.  On a cyclic graph every live
  range is the least interval around all points where the register is live, read or written; on
  a forward graph it is the interval around the reads and writes.  The rows of the listing are
  the sets of registers live over paths.  The diverging instructions are those from which every
  path ends in an instruction that never returns, and the diverging uses the registers that such
  an instruction reads.
\<close>

theorem analysis_exact:
  assumes "adapter_ok a insts w"
  shows "\<exists>info rows. analyze a insts w cs = Some info \<and> analysis_spec a insts w cs info
    \<and> analyze_with_loops a insts w cs = Some (info, compute_loop_info (length insts) (adapter_succs a insts))
    \<and> analyze_with_debug a insts w cs = Some (info, \<lparr>debug_rows = rows, debug_ranges = ranges info, debug_vreg_count = w\<rparr>)
    \<and> rows = map (row_spec (adapter_succs a insts) (adapter_uses a insts) (adapter_defs a insts)) [0..<length insts]"
proof -
  let ?rows = "map (row_spec (adapter_succs a insts) (adapter_uses a insts) (adapter_defs a insts)) [0..<length insts]"
  have same: "analyze_inner a insts w cs debug loops = map_option (\<lambda>i. (i,
      then_some debug \<lparr>debug_rows = ?rows, debug_ranges = ranges i, debug_vreg_count = w\<rparr>,
      then_some loops (compute_loop_info (length insts) (adapter_succs a insts))))
        (map_option fst (analyze_inner a insts w cs False False))" for debug loops
  proof -
    obtain i where i: "analyze_inner a insts w cs debug loops = Some (i,
      then_some debug \<lparr>debug_rows = ?rows, debug_ranges = ranges i, debug_vreg_count = w\<rparr>,
      then_some loops (compute_loop_info (length insts) (adapter_succs a insts)))" "analysis_spec a insts w cs i"
      using analyze_inner_exact[OF assms] by blast
    obtain j x where j: "analyze_inner a insts w cs False False = Some (j, x)" "analysis_spec a insts w cs j"
      using analyze_inner_exact[OF assms] by blast
    show ?thesis using analysis_spec_unique[OF i(2) j(2)] i(1) j(1) by simp
  qed
  obtain info x where info: "analyze_inner a insts w cs False False = Some (info, x)" "analysis_spec a insts w cs info"
    using analyze_inner_exact[OF assms] by blast
  show ?thesis
    using info same[of False False] same[of False True] same[of True False]
    by (auto simp: analyze_def analyze_with_loops_def analyze_with_debug_def then_some_def)
qed

theorem analysis_exact_witness:
  "\<exists>info. analyze (straight_line 2) [([], [0]), ([0], [])] 1 [Gp] = Some info
    \<and> analysis_spec (straight_line 2) [([], [0]), ([0], [])] 1 [Gp] info"
proof -
  have "adapter_ok (straight_line 2) [([], [0]), ([0], [])] 1"
    by (simp add: straight_line_simps All_less_Suc)
  then show ?thesis using analysis_exact by blast
qed

lemma analyze_spec:
  assumes "adapter_ok a insts w" "analyze a insts w cs = Some info"
  shows "analysis_spec a insts w cs info"
  using analyze_inner_exact[OF assms(1), of cs False False] assms(2) by (auto simp: analyze_def)

lemma range_covers:
  assumes ok: "adapter_ok a insts w" and an: "analyze a insts w cs = Some info" and reach: "reached_inst (adapter_succs a insts) i"
    and x: "x < w" "\<not> live_at (adapter_succs a insts) (adapter_uses a insts) (adapter_defs a insts) x 0"
      "x \<in> set (adapter_uses a insts ! i) \<or> x \<in> set (adapter_defs a insts ! i)
         \<or> live_at (adapter_succs a insts) (adapter_uses a insts) (adapter_defs a insts) x i
         \<or> live_out (adapter_succs a insts) (adapter_uses a insts) (adapter_defs a insts) x i"
  shows "\<exists>r. range_of info x = Some r \<and> start_at r \<le> i \<and> i \<le> end_at r"
proof -
  let ?s = "adapter_succs a insts" and ?u = "adapter_uses a insts" and ?d = "adapter_defs a insts"
  have flow: "code_ok w ?s ?u ?d" using ok by (simp add: adapter_ok_def)
  have spec: "analysis_spec a insts w cs info" using analyze_spec[OF ok an] .
  have i: "i < length ?s" using reached_bound[OF flow reach] .
  have "i \<in> occupied ?s ?u ?d x"
    using x i live_out_occupied[OF flow _ i] by (auto simp: occupied_def touched_def)
  moreover have "covers ?s ?u ?d (ranges info) x"
    using spec x flow forward_covers[OF flow, of x] cyclic_covers[of w ?s ?u ?d "ranges info" x]
    by (cases "has_back_edge ?s") (auto simp: analysis_spec_def range_sets_def[abs_def] hulls_def)
  moreover have "x < length (ranges info)" using spec x by (auto simp: analysis_spec_def hulls_def)
  ultimately show ?thesis using reach by (auto simp: covers_def range_of_def)
qed

text \<open>
  Two registers that are both live, read or written around one reachable instruction are
  reported as interfering, provided neither is read before it is written on some path from the
  entry.  In particular a register that is written and one that is live afterwards interfere.
\<close>

theorem live_values_interfere:
  assumes "adapter_ok a insts w" "analyze a insts w cs = Some info" "reached_inst (adapter_succs a insts) i"
    and "\<forall>x \<in> {u, v}. x < w
      \<and> \<not> live_at (adapter_succs a insts) (adapter_uses a insts) (adapter_defs a insts) x 0
      \<and> (x \<in> set (adapter_uses a insts ! i) \<or> x \<in> set (adapter_defs a insts ! i)
         \<or> live_at (adapter_succs a insts) (adapter_uses a insts) (adapter_defs a insts) x i
         \<or> live_out (adapter_succs a insts) (adapter_uses a insts) (adapter_defs a insts) x i)"
  shows "interferes info u v"
proof -
  have "\<exists>r. range_of info x = Some r \<and> start_at r \<le> i \<and> i \<le> end_at r" if "x \<in> {u, v}" for x
    using range_covers[OF assms(1-3), of x] assms(4) that by blast
  from this[of u] this[of v] show ?thesis by (auto simp: interferes_def overlaps_def)
qed

theorem live_values_interfere_witness:
  "\<exists>info. analyze (straight_line 3) [([], [0]), ([], [1]), ([0, 1], [])] 2 [Gp, Gp] = Some info \<and> interferes info 0 1"
proof -
  let ?a = "straight_line 3 :: (nat list \<times> nat list, nat) liveness_adapter"
  let ?c = "[([], [0]), ([], [1]), ([0, 1], [])] :: (nat list \<times> nat list) list"
  have ok: "adapter_ok ?a ?c 2" by (simp add: straight_line_simps All_less_Suc)
  have succs: "adapter_succs ?a ?c = [[1], [2], []]" "adapter_uses ?a ?c = [[], [], [0, 1]]" "adapter_defs ?a ?c = [[0], [1], []]"
    by (simp_all add: straight_line_simps)
  have r: "reached_inst [[1], [2], []] 1" by (rule reached_inst.step[OF reached_inst.entry]) simp_all
  have two: "live_at [[1], [2], []] [[], [], [0, 1]] [[0], [1], []] x 2" if "x = 0 \<or> x = 1" for x
    using that by (intro live_at.here) auto
  have one: "live_at [[1], [2], []] [[], [], [0, 1]] [[0], [1], []] 0 1"
    by (rule live_at.there[OF _ _ two]) simp_all
  have "\<not> live_at [[1], [2], []] [[], [], [0, 1]] [[0], [1], []] 1 1" by (auto elim: live_atE)
  then have zero: "\<not> live_at [[1], [2], []] [[], [], [0, 1]] [[0], [1], []] x 0" if "x = 0 \<or> x = 1" for x
    using that by (auto elim: live_atE)
  obtain info where "analyze ?a ?c 2 [Gp, Gp] = Some info" using analysis_exact[OF ok, of "[Gp, Gp]"] by blast
  then show ?thesis using live_values_interfere[OF ok, of "[Gp, Gp]" info 1 0 1, unfolded succs] r one zero by auto
qed

text \<open>
  C30. The worklist over basic blocks ends on every graph, with or without loops, and leaves for
  each block exactly the registers that some path from its first instruction reads before it
  writes them.  The blocks partition the instructions, and control enters a block only at its
  start.
\<close>

theorem block_liveness_exact:
  assumes "code_ok w succs us ds" "has_back_edge succs \<longrightarrow> cyclic"
  shows "\<exists>p li. partition_blocks (length succs) succs = Some p \<and> partition_ok succs p
    \<and> solve_block_liveness w succs us ds p cyclic = Some li \<and> length li = partition_len p
    \<and> (\<forall>b < partition_len p. distinct (li ! b) \<and> set (li ! b) = {v. live_at succs us ds v (starts p ! b)})"
proof -
  obtain p where p: "partition_blocks (length succs) succs = Some p" "partition_ok succs p"
    using partition_blocks_ok[OF assms(1)] by blast
  moreover obtain li where "solve_block_liveness w succs us ds p cyclic = Some li" "block_solution w succs us ds p li"
    using solve_exact[OF p(2) assms] by blast
  ultimately show ?thesis by (auto simp: block_solution_def sets_ok_def)
qed

theorem block_liveness_exact_witness:
  "\<exists>p li. partition_blocks (length [[1], [0 :: nat]]) [[1], [0]] = Some p
    \<and> solve_block_liveness 1 [[1], [0]] [[], [0]] [[0], []] p True = Some li"
proof -
  have "code_ok 1 [[1], [0]] [[], [0]] [[0], []]" by (simp add: code_ok_def All_less_Suc)
  then show ?thesis using block_liveness_exact[of 1 "[[1], [0]]" "[[], [0]]" "[[0], []]" True] by blast
qed

text \<open>
  C34. The depth of an instruction is the number of back edges whose span encloses it, up to the
  largest \<open>u32\<close>, and the sparse table over runs of equal depth answers for every range with the
  greatest depth in it.
\<close>

theorem loop_depths_exact:
  assumes "length succs = n"
  shows "depth_at (compute_loop_info n succs) i = (if i < n then min (enclosing_back_edges succs i) (2 ^ 32 - 1) else 0)
    \<and> max_depth_in_range (compute_loop_info n succs) s e
        = Max (insert 0 {depth_at (compute_loop_info n succs) j |j. s \<le> j \<and> j \<le> e \<and> j < n})"
proof -
  obtain ds where l: "compute_loop_info n succs = from_depths ds"
  proof (cases "n = 0")
    case True
    then have "compute_loop_info n succs = from_depths []"
      by (simp add: compute_loop_info_def no_loops_def from_depths_def)
    then show ?thesis by (rule that)
  next
    case False
    then show ?thesis by (intro that) (simp add: compute_loop_info_def)
  qed
  have n: "length ds = n" if "0 < n" using loop_depths[OF assms that] by (simp add: l)
  show ?thesis
  proof (cases "n = 0")
    case True
    then have "ds = []" using arg_cong[OF l, of depths] by (simp add: compute_loop_info_def no_loops_def)
    then show ?thesis using True unfolding l max_depth_exact by (auto simp: depth_at_def greatest_depth_def)
  next
    case False
    then have "{depth_at (compute_loop_info n succs) j |j. s \<le> j \<and> j \<le> e \<and> j < n} = {ds ! j |j. s \<le> j \<and> j \<le> e \<and> j < length ds}"
      using n by (auto simp: l depth_at_def)
    then show ?thesis using False n loop_depths[OF assms, of i] unfolding l max_depth_exact
      by (auto simp: greatest_depth_def depth_at_def)
  qed
qed

theorem loop_depths_exact_witness: "max_depth_in_range (compute_loop_info 3 [[1], [1, 2], []]) 0 2 = 1"
proof -
  let ?l = "compute_loop_info 3 [[1], [1, 2], []]"
  have d: "depth_at ?l 0 = 0" "depth_at ?l 1 = 1" "depth_at ?l 2 = 0"
    using loop_depths_exact[of "[[1], [1, 2], []]" 3 0] loop_depths_exact[of "[[1], [1, 2], []]" 3 1]
      loop_depths_exact[of "[[1], [1, 2], []]" 3 2]
    by (simp_all add: enclosing_back_edges_def)
  have "{j. 0 \<le> j \<and> j \<le> 2 \<and> j < 3} = {0, 1, 2 :: nat}" by auto
  then have "{depth_at ?l j |j. 0 \<le> j \<and> j \<le> 2 \<and> j < 3} = depth_at ?l ` {0, 1, 2}"
    unfolding setcompr_eq_image by simp
  then show ?thesis using loop_depths_exact[of "[[1], [1, 2], []]" 3 0 0 2] d by (simp add: insert_commute)
qed

end
