(* ===== verification/Allocation_Sound.thy ===== *)
theory Allocation_Sound
  imports Scan_Invariant Coalescing Remat_Recipes Live_Results
begin

text \<open>
  Each pass of the scan is sound, and so is the better of the two; what that says of the code when
  analysis, coalescing, scan and driver are put together.
\<close>

section \<open>A pass\<close>

lemma range_rows:
  "set (concat (map (\<lambda>v. case range_of l v of Some r \<Rightarrow> [(v, r)] | None \<Rightarrow> []) [0..<n]))
     = {(v, r). v < n \<and> range_of l v = Some r}
   \<and> distinct (map fst (concat (map (\<lambda>v. case range_of l v of Some r \<Rightarrow> [(v, r)] | None \<Rightarrow> []) [0..<n])))"
proof (induction n)
  case (Suc n)
  let ?rows = "\<lambda>n. concat (map (\<lambda>v. case range_of l v of Some r \<Rightarrow> [(v, r)] | None \<Rightarrow> []) [0..<n])"
  have e: "?rows (Suc n) = ?rows n @ (case range_of l n of Some r \<Rightarrow> [(n, r)] | None \<Rightarrow> [])" by simp
  show ?case using Suc unfolding e by (auto simp: less_Suc_eq split: option.splits)
qed simp

lemma scan_rows:
  "set (vregs_by_start (new_scan_inputs n l file)) = {(v, r). v < n \<and> range_of l v = Some r}" "distinct (map fst (vregs_by_start (new_scan_inputs n l file)))"
  "sorted_wrt (\<lambda>a b. start_at (snd a) \<le> start_at (snd b)) (vregs_by_start (new_scan_inputs n l file))"
proof -
  let ?rows = "vregs_by_start (new_scan_inputs n l file)"
  define src where "src = concat (map (\<lambda>v. case range_of l v of Some r \<Rightarrow> [(v, r)] | None \<Rightarrow> []) [0..<n])"
  have src: "set src = {(v, r). v < n \<and> range_of l v = Some r}" "distinct (map fst src)"
    using range_rows[where l = l and n = n] by (simp_all add: src_def)
  have rows: "?rows = sort_key (\<lambda>(_, r). start_at r) src" by (simp add: new_scan_inputs_def src_def)
  show "set ?rows = {(v, r). v < n \<and> range_of l v = Some r}" using src(1) by (simp add: rows)
  show "distinct (map fst ?rows)" using src(2) by (simp add: rows distinct_map)
  have "sorted (map (\<lambda>(_, r). start_at r) ?rows)" by (simp add: rows)
  then show "sorted_wrt (\<lambda>a b. start_at (snd a) \<le> start_at (snd b)) ?rows" by (simp add: sorted_map case_prod_unfold)
qed

definition ranged :: "nat \<Rightarrow> 'r liveness_info \<Rightarrow> nat set" where
  "ranged n l = {v. v < n \<and> range_of l v \<noteq> None}"

definition allocation_sound ::
  "nat \<Rightarrow> 'r liveness_info \<Rightarrow> 'r register_file \<Rightarrow> remat_op option list \<Rightarrow> nat \<Rightarrow> 'r scan_result \<Rightarrow> bool" where
  "allocation_sound n l file infos base res \<longleftrightarrow> (case res of (as, k, sv, _) \<Rightarrow> length as = n
     \<and> (\<forall>v < n. as ! v = None \<longleftrightarrow> range_of l v = None)
     \<and> (\<forall>v < n. \<forall>op. as ! v = Some (Rematerialize op) \<longrightarrow> can_remat infos v = Some op)
     \<and> (\<forall>v < n. \<forall>reg. as ! v = Some (Register reg) \<longrightarrow> can_hold l file v (rg l v) reg
          \<and> (\<forall>u < n. u \<noteq> v \<and> as ! u = Some (Register reg) \<longrightarrow> \<not> interferes l u v))
     \<and> (\<exists>cell. \<forall>v < n. \<forall>offset. as ! v = Some (Spill offset) \<longrightarrow> cell v < k \<and> offset = slot_cell base (cell v)
          \<and> (\<forall>u < n. \<forall>offset'. u \<noteq> v \<and> as ! u = Some (Spill offset') \<and> cell u = cell v \<longrightarrow> \<not> interferes l u v))
     \<and> saves_inv l file (ranged n l) as sv)"

lemma interferes_ranged:
  "u \<in> ranged n l \<Longrightarrow> v \<in> ranged n l \<Longrightarrow> interferes l u v \<longleftrightarrow> overlaps (rg l u) (rg l v)"
  by (auto simp: interferes_def ranged_def rg_def)

lemma pass_sound:
  assumes rok: "ranges_ok l" and fok: "file_ok file"
  shows "\<exists>res. scan_intervals_with_remat n l file base d m loops infos (new_scan_inputs n l file) sunk = Some res
    \<and> allocation_sound n l file infos base res"
proof -
  let ?inputs = "new_scan_inputs n l file"
  let ?rows = "vregs_by_start ?inputs"
  note rows = scan_rows[of n l "file"]
  have tracks: "tracks_file l file ?inputs" by (simp add: tracks_file_def new_scan_inputs_def)
  define P where "P pre st \<longleftrightarrow> (\<exists>now. (pre = [] \<and> now = 0 \<or> (\<exists>row \<in> set pre. now = start_at (snd row)))
      \<and> scan_inv n l file infos base (fst ` set pre) (fst ` set pre) now st
      \<and> saves_inv l file (fst ` set pre) (assigned st) (saved st))" for pre :: "(nat \<times> live_range) list" and st :: "'a scan_state"
  have "\<exists>st. fold_option (scan_step_with_remat infos l file m loops ?inputs sunk) ?rows (new_scan_state n base) = Some st \<and> P ?rows st"
  proof (rule fold_option_induct)
    have "slots_hold (rg l) (replicate n None) (new_spill_allocator base) cell" for cell by (auto simp: slots_hold_def)
    then show "P [] (new_scan_state n base)"
      by (auto simp: P_def scan_inv_def holders_inv_def registers_inv_def saves_inv_def new_scan_state_def new_spill_allocator_def)
  next
    fix pre row rest st assume e: "?rows = pre @ row # rest" and P: "P pre st"
    obtain v r where row: "row = (v, r)" by force
    have mem: "set pre \<subseteq> {(v, r). v < n \<and> range_of l v = Some r}" "v < n" "range_of l v = Some r"
      using rows(1) unfolding e row by auto
    have v: "v \<notin> fst ` set pre" using rows(2) unfolding e row by auto
    have order: "\<forall>a \<in> set pre. start_at (snd a) \<le> start_at r" using rows(3) unfolding e row by (simp add: sorted_wrt_append)
    obtain now where now: "pre = [] \<and> now = 0 \<or> (\<exists>row \<in> set pre. now = start_at (snd row))"
      "scan_inv n l file infos base (fst ` set pre) (fst ` set pre) now st"
      "saves_inv l file (fst ` set pre) (assigned st) (saved st)" using P by (auto simp: P_def)
    have "row_ok n l (v, r)" using mem rok by (simp add: row_ok_def ranges_ok_def)
    moreover have "now \<le> start_at r" using now(1) order by auto
    moreover have "fst ` set pre \<subseteq> {..<n}" "\<forall>u \<in> fst ` set pre. range_of l u = Some (rg l u)"
      using mem(1) by (auto simp: rg_def)
    ultimately obtain st' where st': "scan_step_with_remat infos l file m loops ?inputs sunk (v, r) st = Some st'"
      "scan_inv n l file infos base (insert v (fst ` set pre)) (insert v (fst ` set pre)) (start_at r) st'"
      "saves_inv l file (insert v (fst ` set pre)) (assigned st') (saved st')"
      using step_inv[OF now(2,3) _ v _ _ _ fok tracks rok, of r m loops sunk] by blast
    have "fst ` set (pre @ [row]) = insert v (fst ` set pre)" by (simp add: row)
    then have "P (pre @ [row]) st'"
      unfolding P_def using st'(2,3) by (intro exI[of _ "start_at r"]) (simp add: row)
    then show "\<exists>st'. scan_step_with_remat infos l file m loops ?inputs sunk row st = Some st' \<and> P (pre @ [row]) st'"
      using st'(1) unfolding row by blast
  qed
  then obtain st where st: "fold_option (scan_step_with_remat infos l file m loops ?inputs sunk) ?rows (new_scan_state n base) = Some st"
    "P ?rows st" by blast
  have D: "fst ` set ?rows = ranged n l" unfolding rows(1) by (force simp: ranged_def)
  obtain now where inv: "scan_inv n l file infos base (ranged n l) (ranged n l) now st"
    "saves_inv l file (ranged n l) (assigned st) (saved st)" using st(2) by (auto simp: P_def D)
  have as: "length (assigned st) = n" "\<forall>v < n. assigned st ! v = None \<longleftrightarrow> range_of l v = None"
    using inv(1) by (auto simp: scan_inv_def ranged_def)
  have in_ranged: "v \<in> ranged n l" if "v < n" "assigned st ! v = Some a" for v a using as(2) that by (force simp: ranged_def)
  obtain cell where cell: "slots_hold (rg l) (assigned st) (slots st) cell" "base_slots (slots st) = base"
    using inv(1) by (auto simp: scan_inv_def)
  have regs: "can_hold l file v (rg l v) reg \<and> (\<forall>u < n. u \<noteq> v \<and> assigned st ! u = Some (Register reg) \<longrightarrow> \<not> interferes l u v)"
    if v: "v < n" "assigned st ! v = Some (Register reg)" for v reg
  proof -
    have ri: "registers_inv l file (ranged n l) now (assigned st) (holders st)" using inv(1) by (simp add: scan_inv_def)
    have "\<not> interferes l u v" if "u < n" "u \<noteq> v" "assigned st ! u = Some (Register reg)" for u
      using ri v that interferes_ranged[OF in_ranged[OF that(1,3)] in_ranged[OF v]] in_ranged
      by (auto simp: registers_inv_def)
    then show ?thesis using ri v in_ranged[OF v] by (auto simp: registers_inv_def)
  qed
  have spills: "cell v < num_slots (slots st) \<and> offset = slot_cell base (cell v)
      \<and> (\<forall>u < n. \<forall>offset'. u \<noteq> v \<and> assigned st ! u = Some (Spill offset') \<and> cell u = cell v \<longrightarrow> \<not> interferes l u v)"
    if v: "v < n" "assigned st ! v = Some (Spill offset)" for v offset
  proof -
    have "\<not> interferes l u v" if "u < n" "u \<noteq> v" "assigned st ! u = Some (Spill offset')" "cell u = cell v" for u offset'
      using cell(1) v that as(1) interferes_ranged[OF in_ranged[OF that(1,3)] in_ranged[OF v]] by (auto simp: slots_hold_def)
    then show ?thesis using cell v as(1) by (auto simp: slots_hold_def num_slots_def)
  qed
  have "allocation_sound n l file infos base (scan_result_of n l ?inputs d st)"
    using as inv regs spills unfolding allocation_sound_def scan_result_of_def by (auto simp: scan_inv_def intro!: exI[of _ cell])
  then show ?thesis using st(1) by (simp add: scan_intervals_with_remat_def)
qed

section \<open>Both passes\<close>

text \<open>The result is no worse than the first pass alone.\<close>

definition no_costlier :: "'r scan_result \<Rightarrow> 'r scan_result \<Rightarrow> bool" where
  "no_costlier baseline res \<longleftrightarrow> (case baseline of (as, k, sv, _) \<Rightarrow> case res of (as', k', sv', _) \<Rightarrow>
     set sv' \<subseteq> set sv \<and> registers_held as \<le> registers_held as' \<and> k' \<le> k)"

lemma passes_sound:
  assumes rok: "ranges_ok l" and fok: "file_ok file"
  shows "\<exists>res baseline. linear_scan_impl_with_remat n l file base d m loops infos = Some res
    \<and> scan_intervals_with_remat n l file base d m loops infos (new_scan_inputs n l file) [] = Some baseline
    \<and> allocation_sound n l file infos base res \<and> no_costlier baseline res"
proof -
  obtain b where b: "scan_intervals_with_remat n l file base d m loops infos (new_scan_inputs n l file) [] = Some b"
    "allocation_sound n l file infos base b" using pass_sound[OF assms] by blast
  obtain r where r: "scan_intervals_with_remat n l file base d m loops infos (new_scan_inputs n l file) (fst (snd (snd b))) = Some r"
    "allocation_sound n l file infos base r" using pass_sound[OF assms] by blast
  have "no_costlier b b" by (auto simp: no_costlier_def split: prod.split)
  moreover have "no_costlier b r" if "accept_reuse_pass b r"
    using that by (auto simp: no_costlier_def accept_reuse_pass_def list_all_iff split: prod.splits)
  moreover have "linear_scan_impl_with_remat n l file base d m loops infos
      = Some (if \<not> reuse_pass_could_differ file (fst (snd (snd b))) then b else if accept_reuse_pass b r then r else b)"
    using b(1) r(1) by (simp add: linear_scan_impl_with_remat_def Let_def)
  ultimately show ?thesis using b r(2)
    by (intro exI[of _ "if \<not> reuse_pass_could_differ file (fst (snd (snd b))) then b else if accept_reuse_pass b r then r else b"]
        exI[of _ b]) simp
qed

text \<open>The second pass is kept exactly when it could differ and is accepted.\<close>

lemma kept_pass:
  assumes "scan_intervals_with_remat n l file base d m loops infos (new_scan_inputs n l file) [] = Some (as0, k0, sv0, dbg0)"
    and "scan_intervals_with_remat n l file base d m loops infos (new_scan_inputs n l file) sv0 = Some again"
  shows "linear_scan_impl_with_remat n l file base d m loops infos
    = Some (if reuse_pass_could_differ file sv0 \<and> accept_reuse_pass (as0, k0, sv0, dbg0) again then again else (as0, k0, sv0, dbg0))"
  using assms by (simp add: linear_scan_impl_with_remat_def Let_def)

lemma fewer_slots_fit: "checked_function_frame_slots base k0 \<noteq> None \<Longrightarrow> k \<le> k0 \<Longrightarrow> checked_function_frame_slots base k \<noteq> None"
  by (auto simp: checked_function_frame_slots_def then_some_def Let_def split: if_splits)

section \<open>Places\<close>

definition max_frame_slots :: nat where
  "max_frame_slots = max_function_frame_bytes div 8"

lemma slot_cell_in_frame:
  assumes "checked_function_frame_slots base k \<noteq> None" "i < k"
  shows "slot_cell base i = - int (8 * (base + i + 1))"
proof (rule slot_cell_small)
  show "base + i < max_function_frame_bytes div 8"
    using assms by (auto simp: checked_function_frame_slots_def Let_def then_some_def split: if_splits)
  show "max_function_frame_bytes div 8 * 8 < 2 ^ 31" by (simp add: max_function_frame_bytes_def)
qed

text \<open>Two values are kept in one place.\<close>

definition shares_place :: "'r allocation option \<Rightarrow> 'r allocation option \<Rightarrow> bool" where
  "shares_place a b \<longleftrightarrow> (\<exists>reg. a = Some (Register reg) \<and> b = Some (Register reg))
     \<or> (\<exists>offset. a = Some (Spill offset) \<and> b = Some (Spill offset))"

lemma apart:
  assumes "allocation_sound n l file infos base (as, k, sv, dbg)" "checked_function_frame_slots base k \<noteq> None"
    and "u < n" "v < n" "u \<noteq> v" "interferes l u v"
  shows "\<not> shares_place (as ! u) (as ! v)"
proof
  assume "shares_place (as ! u) (as ! v)"
  then consider reg where "as ! u = Some (Register reg)" "as ! v = Some (Register reg)"
    | offset where "as ! u = Some (Spill offset)" "as ! v = Some (Spill offset)"
    by (auto simp: shares_place_def)
  then show False
  proof cases
    case 1
    then show False using assms by (auto simp: allocation_sound_def)
  next
    case 2
    obtain cell where cell: "\<And>v offset. v < n \<Longrightarrow> as ! v = Some (Spill offset) \<Longrightarrow> cell v < k \<and> offset = slot_cell base (cell v)
          \<and> (\<forall>u < n. \<forall>offset'. u \<noteq> v \<and> as ! u = Some (Spill offset') \<and> cell u = cell v \<longrightarrow> \<not> interferes l u v)"
      using assms(1) unfolding allocation_sound_def prod.case by metis
    have "slot_cell base (cell u) = slot_cell base (cell v)" using cell[OF assms(3) 2(1)] cell[OF assms(4) 2(2)] by simp
    then have "cell u = cell v"
      using cell[OF assms(3) 2(1)] cell[OF assms(4) 2(2)] by (simp add: slot_cell_in_frame[OF assms(2)])
    then show False using cell[OF assms(4) 2(2)] assms(3,5,6) 2(1) by blast
  qed
qed

lemma interferes_covered:
  assumes "covered l0 u l x" "covered l0 v l y" "interferes l0 u v"
  shows "interferes l x y"
proof -
  obtain q r where qr: "range_of l0 u = Some q" "range_of l0 v = Some r" "overlaps q r"
    using assms(3) by (auto simp: interferes_def split: option.splits)
  obtain q' r' where "range_of l x = Some q'" "start_at q' \<le> start_at q" "end_at q \<le> end_at q'"
    "range_of l y = Some r'" "start_at r' \<le> start_at r" "end_at r \<le> end_at r'"
    using assms(1,2) qr(1,2) unfolding covered_def by metis
  then show ?thesis using qr(3) by (simp add: interferes_def overlaps_def)
qed

section \<open>Diverging regions\<close>

lemma live_in_diverging:
  assumes "live_at succs us ds v i" "diverges succs nr i" "\<forall>i < length succs. nr ! i \<longrightarrow> succs ! i = []"
  shows "\<exists>j < length succs. diverges succs nr j \<and> v \<in> set (us ! j)"
  using assms(1,2)
proof (induction rule: live_at.induct)
  case (there i j)
  have "diverges succs nr j" using there.prems(1)
  proof (cases rule: diverges.cases)
    case never
    then show ?thesis using assms(3) there.hyps(1,2) by auto
  next
    case all_do
    then show ?thesis using there.hyps(2) by blast
  qed
  then show ?case by (rule there.IH)
qed blast

lemma live_out_of_diverging:
  assumes "live_out succs us ds v i" "i < length succs" "\<forall>i < length succs. nr ! i \<longrightarrow> succs ! i = []"
  shows "\<not> nr ! i \<and> (diverges succs nr i \<longrightarrow> (\<exists>j < length succs. diverges succs nr j \<and> v \<in> set (us ! j)))"
proof -
  obtain j where j: "j \<in> set (succs ! i)" "live_at succs us ds v j" using assms(1) by (auto simp: live_out_def)
  have nr: "\<not> nr ! i" using j(1) assms(2,3) by auto
  have "diverges succs nr j" if "diverges succs nr i"
    using that
  proof (cases rule: diverges.cases)
    case all_do
    then show ?thesis using j(1) by blast
  qed (use nr in simp)
  then show ?thesis using live_in_diverging[OF j(2) _ assms(3)] nr by blast
qed

section \<open>Code, analysis, coalescing and scan together\<close>

text \<open>A call that never returns has no successors, which is what the backends report of it.\<close>

definition traps_end :: "('i, 'r) liveness_adapter \<Rightarrow> 'i list \<Rightarrow> bool" where
  "traps_end a insts \<longleftrightarrow> (\<forall>i < length insts. never_returns a (insts ! i) \<longrightarrow> adapter_succs a insts ! i = [])"

text \<open>What the driver computes for a piece of code: facts, merged facts, and an allocation.\<close>

definition allocated ::
  "('i, 'r) liveness_adapter \<Rightarrow> 'i list \<Rightarrow> nat \<Rightarrow> vreg_classes \<Rightarrow> coalesce_candidate list \<Rightarrow> 'r register_file \<Rightarrow> nat
     \<Rightarrow> coalesce_result \<Rightarrow> 'r allocation option list \<Rightarrow> nat \<Rightarrow> bool" where
  "allocated a insts w cs cands file base c as k \<longleftrightarrow> (\<exists>l0 l d m loops infos sv dbg.
     analyze a insts w cs = Some l0 \<and> coalesce cands l0 = Some (c, l)
     \<and> linear_scan_impl_with_remat w l file base d m loops infos = Some (as, k, sv, dbg))"

definition in_play :: "('i, 'r) liveness_adapter \<Rightarrow> 'i list \<Rightarrow> nat \<Rightarrow> nat \<Rightarrow> bool" where
  "in_play a insts i x \<longleftrightarrow> \<not> live_at (adapter_succs a insts) (adapter_uses a insts) (adapter_defs a insts) x 0
     \<and> (x \<in> set (adapter_uses a insts ! i) \<or> x \<in> set (adapter_defs a insts ! i)
        \<or> live_at (adapter_succs a insts) (adapter_uses a insts) (adapter_defs a insts) x i
        \<or> live_out (adapter_succs a insts) (adapter_uses a insts) (adapter_defs a insts) x i)"

lemma play_covered:
  assumes ok: "adapter_ok a insts w" and an: "analyze a insts w cs = Some info"
    and reach: "reached_inst (adapter_succs a insts) i" and x: "x < w" "in_play a insts i x"
  shows "\<exists>r. range_of info x = Some r \<and> start_at r \<le> i \<and> i \<le> end_at r"
  using range_covers[OF ok an reach] x by (auto simp: in_play_def)

lemma analysis_ranges:
  assumes "adapter_ok a insts w" "analyze a insts w cs = Some info"
  shows "ranges_ok info" "length (ranges info) = w" "analysis_spec a insts w cs info"
proof -
  show spec: "analysis_spec a insts w cs info" using analyze_spec[OF assms] .
  then show "length (ranges info) = w" by (simp add: analysis_spec_def hulls_def)
  show "ranges_ok info"
    using spec by (auto simp: ranges_ok_def analysis_spec_def hulls_def hull_def range_of_def split: if_splits)
qed

lemma in_play_width:
  assumes "adapter_ok a insts w" "i < length insts" "in_play a insts i x"
  shows "x < w"
proof -
  have flow: "code_ok w (adapter_succs a insts) (adapter_uses a insts) (adapter_defs a insts)"
    using assms(1) by (simp add: adapter_ok_def)
  then show ?thesis using assms(2,3) live_at_width[OF flow] by (auto simp: in_play_def live_out_def code_ok_def)
qed

lemma reached_width:
  assumes "adapter_ok a insts w" "reached_inst (adapter_succs a insts) i"
  shows "i < length insts"
  using assms reached_bound[of w "adapter_succs a insts" _ _ i] by (auto simp: adapter_ok_def)

lemma allocated_facts:
  assumes ok: "adapter_ok a insts w" and cands: "sorted_wrt (<) (map cand_inst cands)" and fok: "file_ok file"
    and alloc: "allocated a insts w cs cands file base c as k"
  obtains l0 l infos sv dbg where "analyze a insts w cs = Some l0" "analysis_spec a insts w cs l0" "coalesced l0 cands c l"
    "allocation_sound w l file infos base (as, k, sv, dbg)"
proof -
  obtain l0 l d m loops infos sv dbg where r: "analyze a insts w cs = Some l0" "coalesce cands l0 = Some (c, l)"
    "linear_scan_impl_with_remat w l file base d m loops infos = Some (as, k, sv, dbg)"
    using alloc by (auto simp: allocated_def)
  note l0 = analysis_ranges[OF ok r(1)]
  have "\<not> 2 ^ 32 - 1 < length (ranges l0)" using r(2) by (auto simp: coalesce_def Let_def)
  then have l: "coalesced l0 cands c l" "ranges_ok l"
    using coalesce_result[OF cands, of l0] l0(1) r(2) by (auto simp: ranges_ok_def)
  have "allocation_sound w l file infos base (as, k, sv, dbg)"
    using passes_sound[OF l(2) fok, of w base d m loops infos] r(3) by auto
  then show ?thesis using that r(1) l0(3) l(1) by blast
qed

section \<open>The driver\<close>

lemma loops_only_added:
  assumes "analyze_with_loops a insts w cs = Some (info, loops)"
  shows "analyze a insts w cs = Some info"
proof -
  have "analyze_inner a insts w cs False True = map_option (\<lambda>(i, d, _). (i, d, Some loops')) (analyze_inner a insts w cs False False)"
    if "loops' = (if insts = [] then no_loops 0
      else compute_loop_info (length insts) (build_successor_lists a insts (build_label_map a insts)))" for loops'
    by (simp add: analyze_inner_def Let_def then_some_def map_option_bind comp_def that cong: if_cong)
  then show ?thesis using assms
    by (auto simp: analyze_def analyze_with_loops_def bind_eq_Some_conv split: prod.splits)
qed

lemma finish_result:
  assumes "finish_allocation b canceled drv = Some (Inr drv')"
  shows "checked_function_frame_slots (driver_locals drv) (num_spills drv) \<noteq> None
    \<and> (\<exists>m. drv' = drv\<lparr>driver_mir := m\<rparr>
      \<and> rewrite_from b \<lparr>ctx_allocation = driver_allocation drv, ctx_coalesce = driver_coalesce drv\<rparr> canceled 0
          (into_instructions b (snd (take_symbols b (driver_mir drv))))
          (set_symbols b (fst (take_symbols b (driver_mir drv))) (new_mir b)) = Some (Inr m))"
proof -
  let ?run = "rewrite_from b \<lparr>ctx_allocation = driver_allocation drv, ctx_coalesce = driver_coalesce drv\<rparr> canceled 0
      (into_instructions b (snd (take_symbols b (driver_mir drv))))
      (set_symbols b (fst (take_symbols b (driver_mir drv))) (new_mir b))"
  have fits: "checked_function_frame_slots (driver_locals drv) (num_spills drv) \<noteq> None"
    and run: "map_option (map_sum id (\<lambda>m. drv\<lparr>driver_mir := m\<rparr>)) ?run = Some (Inr drv')"
    using assms by (auto simp: finish_allocation_def validate_spill_budget_def rewrite_instructions_def case_prod_unfold
        split: option.splits)
  from run obtain res where res: "?run = Some res" "map_sum id (\<lambda>m. drv\<lparr>driver_mir := m\<rparr>) res = Inr drv'" by auto
  then show ?thesis using fits by (cases res) auto
qed

text \<open>What a run of the driver computes.\<close>

lemma driver_run:
  assumes "new_with_artifacts b mir base False = Some drv" "allocate_with_spills b drv = Some (Inr (m, k, used))"
  obtains l0 loops c l infos as dbg where
    "backend_analyze_with_loops b mir = Some (l0, loops)" "names_no_allocatable b mir"
    "coalesce (coalesce_candidates b (backend_instructions b mir)) l0 = Some (c, l)" "rematerialization_info b mir c = Some infos"
    "linear_scan_impl_with_remat (backend_vreg_count b mir) l (backend_register_file b) base False default_cost_model loops infos
      = Some (as, k, used, dbg)"
    "checked_function_frame_slots base k \<noteq> None"
    "rewrite_from b \<lparr>ctx_allocation = as, ctx_coalesce = c\<rparr> never_canceled 0 (into_instructions b (snd (take_symbols b mir)))
      (set_symbols b (fst (take_symbols b mir)) (new_mir b)) = Some (Inr m)"
proof -
  let ?insts = "backend_instructions b mir" and ?w = "backend_vreg_count b mir"
  obtain l0 loops c l infos where d: "backend_analyze_with_loops b mir = Some (l0, loops)" "names_no_allocatable b mir"
    "coalesce (coalesce_candidates b ?insts) l0 = Some (c, l)" "rematerialization_info b mir c = Some infos"
    "drv = \<lparr>driver_mir = mir, driver_allocation = replicate ?w None, vreg_info = infos, driver_liveness = l, liveness_debug = None,
      driver_loops = loops, driver_coalesce = c, num_spills = 0, used_callee_saved = [], driver_locals = base\<rparr>"
    using assms(1) by (auto simp: new_with_artifacts_def bind_eq_Some_conv split: if_splits prod.splits)
  let ?after = "\<lambda>as k sv. drv\<lparr>driver_allocation := as, num_spills := k, used_callee_saved := sv\<rparr>"
  obtain as k' sv dbg where s: "linear_scan_impl_with_remat ?w l (backend_register_file b) base False default_cost_model loops infos
      = Some (as, k', sv, dbg)"
    "map_option (map_sum id (\<lambda>d. (driver_mir d, num_spills d, used_callee_saved d)))
      (finish_allocation b never_canceled (?after as k' sv)) = Some (Inr (m, k, used))"
    using assms(2) by (auto simp: allocate_with_spills_def assign_registers_def assign_registers_with_debug_def d(5) bind_eq_Some_conv)
  then obtain res where res: "finish_allocation b never_canceled (?after as k' sv) = Some res"
    "map_sum id (\<lambda>d. (driver_mir d, num_spills d, used_callee_saved d)) res = Inr (m, k, used)" by auto
  then obtain drv' where f: "finish_allocation b never_canceled (?after as k' sv) = Some (Inr drv')"
    "driver_mir drv' = m" "num_spills drv' = k" "used_callee_saved drv' = used" by (cases res) auto
  have same: "k' = k" "sv = used" using finish_result[OF f(1)] f(3,4) by auto
  show ?thesis using that[OF d(1-4) s(1)[unfolded same]] finish_result[OF f(1)] f(2) by (auto simp: d(5) same)
qed

end
