(* ===== verification/Allocation_Results.thy ===== *)
theory Allocation_Results
  imports Allocation_Sound
begin

text \<open>
  What register allocation guarantees: it always returns, values that are in play together are kept
  apart, and the values that the code keeps across an instruction survive what it destroys.
\<close>

section \<open>Examples\<close>

text \<open>Code whose instructions list their facts: reads, writes, clobbers, whether they never return, successors.\<close>

type_synonym listed_inst = "nat list \<times> nat list \<times> nat list \<times> bool \<times> nat list"

definition listed :: "(listed_inst, nat) liveness_adapter" where
  "listed = \<lparr>label = (\<lambda>_. None), successors = (\<lambda>_ (_, _, _, _, ss) _. ss), uses_of = fst, defs_of = fst \<circ> snd,
     clobbers_of = fst \<circ> snd \<circ> snd, never_returns = fst \<circ> snd \<circ> snd \<circ> snd\<rparr>"

lemma listed_tables:
  "adapter_succs listed insts = map (\<lambda>(_, _, _, _, ss). ss) insts" "adapter_uses listed insts = map fst insts"
  "adapter_defs listed insts = map (fst \<circ> snd) insts"
proof -
  have "map (\<lambda>(idx, inst). f inst) (enumerate n xs) = map f xs" for f :: "listed_inst \<Rightarrow> nat list" and n xs
    by (induction xs arbitrary: n) auto
  then show "adapter_succs listed insts = map (\<lambda>(_, _, _, _, ss). ss) insts"
    by (simp add: adapter_succs_def build_successor_lists_def listed_def case_prod_unfold)
  show "adapter_uses listed insts = map fst insts" "adapter_defs listed insts = map (fst \<circ> snd) insts"
    by (simp_all add: adapter_uses_def adapter_defs_def listed_def comp_def)
qed

text \<open>Two values live across an instruction that destroys both registers of the file.\<close>

definition two_values :: "listed_inst list" where
  "two_values = [([], [0], [], False, [1]), ([], [1], [], False, [2]), ([], [], [7, 8], False, [3]), ([0, 1], [], [], False, [])]"

definition two_facts :: "nat liveness_info" where
  "two_facts = \<lparr>ranges = [Some \<lparr>start_at = 0, end_at = 3\<rparr>, Some \<lparr>start_at = 1, end_at = 3\<rparr>],
     clobbers_at = [[], [], [7, 8], []], non_returning_at = replicate 4 False, diverging_at = replicate 4 False,
     diverging_uses = [False, False], info_classes = [Gp, Gp]\<rparr>"

abbreviation two_registers :: "nat register_file" where
  "two_registers \<equiv> gp_only (callee_saved_only [7, 8])"

lemma file_ok_two: "file_ok two_registers"
  by (auto simp: file_ok_def gp_only_def callee_saved_only_def empty_classes_def class_regs_def split: reg_class.split)

lemma two_tables:
  "adapter_succs listed two_values = [[1], [2], [3], []]" "adapter_uses listed two_values = [[], [], [], [0, 1]]"
  "adapter_defs listed two_values = [[0], [1], [], []]"
  by (simp_all add: listed_tables two_values_def)

lemma two_ok: "adapter_ok listed two_values 2"
  by (simp add: adapter_ok_def two_tables code_ok_def All_less_Suc)

lemma two_analysis: "analyze listed two_values 2 [Gp, Gp] = Some two_facts"
  by code_simp

lemma two_play:
  assumes "v = 0 \<or> v = 1"
  shows "in_play listed two_values 2 v" "live_out (adapter_succs listed two_values) (adapter_uses listed two_values)
    (adapter_defs listed two_values) v 2"
proof -
  let ?live = "live_at [[1], [2], [3], []] [[], [], [], [0, 1]] [[0], [1], [], []]"
  have "?live v 3" using assms by (intro live_at.here) auto
  then show out: "live_out (adapter_succs listed two_values) (adapter_uses listed two_values) (adapter_defs listed two_values) v 2"
    by (simp add: live_out_def two_tables)
  have "\<not> ?live 1 1" by (auto elim: live_atE)
  then have "\<not> ?live v 0" using assms by (auto elim: live_atE)
  then show "in_play listed two_values 2 v" using out by (simp add: in_play_def two_tables)
qed

lemma two_reached: "reached_inst (adapter_succs listed two_values) 2"
proof -
  have "reached_inst [[1], [2], [3], []] 1" by (rule reached_inst.step[OF reached_inst.entry]) simp_all
  then show ?thesis unfolding two_tables by (rule reached_inst.step) simp
qed

lemmas scan_simps = linear_scan_impl_with_remat_def scan_intervals_with_remat_def scan_step_with_remat_def
  new_scan_state_def new_spill_allocator_def gp_only_def callee_saved_only_def Let_def expire_old_def
  pick_free_register_def or_else_def is_used_def hold_def put_at_def record_save_def can_remat_def is_callee_saved_def
  weigh_holder_remat_def register_survives_range_def remat_priority_def should_replace_def displace_def
  reuse_pass_could_differ_def class_all_def empty_classes_def scan_result_of_def num_slots_def

lemma two_scan:
  "\<exists>sv dbg. linear_scan_impl_with_remat 2 two_facts two_registers base False m loops infos
    = Some ([Some (Register 7), Some (Register 8)], 0, sv, dbg)"
proof -
  have rows: "vregs_by_start (new_scan_inputs 2 two_facts f) = [(0, \<lparr>start_at = 0, end_at = 3\<rparr>), (1, \<lparr>start_at = 1, end_at = 3\<rparr>)]"
    "divergence_index (new_scan_inputs 2 two_facts f) = build_divergence_index two_facts" for f
    by (simp_all add: new_scan_inputs_def range_of_def two_facts_def upt_rec numeral_2_eq_2)
  have "class_of_vreg two_facts v = Gp" for v
    by (simp add: class_of_vreg_def class_of_def two_facts_def nth_Cons split: nat.split)
  moreover have "replicate 2 None = [None, None :: nat allocation option]" by (simp add: numeral_2_eq_2)
  ultimately show ?thesis
    unfolding linear_scan_impl_with_remat_def scan_intervals_with_remat_def Let_def rows
    by (simp add: scan_simps rows)
qed

lemma coalesce_two: "coalesce [] two_facts = Some (with_vreg_count 2, two_facts)"
proof -
  have "length (ranges two_facts) = 2" by (simp add: two_facts_def)
  then show ?thesis by (simp add: coalesce_def Let_def)
qed

lemma two_allocated:
  "allocated listed two_values 2 [Gp, Gp] [] two_registers 0 (with_vreg_count 2) [Some (Register 7), Some (Register 8)] 0"
proof -
  have "coalesce [] two_facts = Some (with_vreg_count 2, two_facts)" by (rule coalesce_two)
  then show ?thesis using two_analysis two_scan unfolding allocated_def by blast
qed

text \<open>
  A value written in an arm that traps and again on the path that returns, and a constant that
  lives in the arm only.
\<close>

definition trapping_arm :: "listed_inst list" where
  "trapping_arm = [([], [], [], False, [1, 4]), ([], [0], [], False, [2]), ([0], [1], [], False, [3]), ([], [], [], True, []),
     ([], [1], [], False, [5]), ([1], [], [], False, [])]"

definition arm_facts :: "nat liveness_info" where
  "arm_facts = \<lparr>ranges = [Some \<lparr>start_at = 1, end_at = 2\<rparr>, Some \<lparr>start_at = 2, end_at = 5\<rparr>], clobbers_at = replicate 6 [],
     non_returning_at = [False, False, False, True, False, False], diverging_at = [False, True, True, True, False, False],
     diverging_uses = [True, False], info_classes = [Gp, Gp]\<rparr>"

abbreviation one_register :: "nat register_file" where
  "one_register \<equiv> gp_only (callee_saved_only [7])"

lemma arm_analysis: "analyze listed trapping_arm 2 [Gp, Gp] = Some arm_facts"
  by code_simp

lemma arm_confined:
  "range_diverges (build_divergence_index arm_facts) \<lparr>start_at = Suc 0, end_at = 2\<rparr>"
  "\<not> range_diverges (build_divergence_index arm_facts) \<lparr>start_at = 2, end_at = 5\<rparr>"
  by code_simp+

lemma arm_scan:
  "\<exists>dbg. linear_scan_impl_with_remat 2 arm_facts one_register 0 False default_cost_model (no_loops 6) [Some (Const32 1), None]
    = Some ([Some (Rematerialize (Const32 1)), Some (Register 7)], 0, [], dbg)"
proof -
  have rows: "vregs_by_start (new_scan_inputs 2 arm_facts f) = [(0, \<lparr>start_at = 1, end_at = 2\<rparr>), (1, \<lparr>start_at = 2, end_at = 5\<rparr>)]"
    "divergence_index (new_scan_inputs 2 arm_facts f) = build_divergence_index arm_facts" for f
    by (simp_all add: new_scan_inputs_def range_of_def arm_facts_def upt_rec numeral_2_eq_2)
  have "class_of_vreg arm_facts v = Gp" for v
    by (simp add: class_of_vreg_def class_of_def arm_facts_def nth_Cons split: nat.split)
  moreover have "replicate 2 None = [None, None :: nat allocation option]" by (simp add: numeral_2_eq_2)
  ultimately show ?thesis
    unfolding linear_scan_impl_with_remat_def scan_intervals_with_remat_def Let_def rows
    by (simp add: scan_simps rows arm_confined)
qed

text \<open>
  A value that ends before another starts, across a value that lives through a loop and a clobber
  of the caller-saved register.
\<close>

definition swap_facts :: "nat liveness_info" where
  "swap_facts = \<lparr>ranges = [Some \<lparr>start_at = 0, end_at = 2\<rparr>, Some \<lparr>start_at = 1, end_at = 7\<rparr>, Some \<lparr>start_at = 2, end_at = 3\<rparr>],
     clobbers_at = [[], [], [], [], [], [], [11], []], non_returning_at = replicate 8 False, diverging_at = replicate 8 False,
     diverging_uses = [False, False, False], info_classes = [Gp, Gp, Gp]\<rparr>"

definition swap_loops :: loop_info where
  "swap_loops = \<lparr>depths = [0, 0, 0, 0, 1, 1, 0, 0], loop_max = 1, run_starts = [0, 4, 6], run_max = [[0, 1, 0], [1, 1]]\<rparr>"

definition compact_registers :: "nat register_file" where
  "compact_registers = gp_only \<lparr>caller_saved = [11], callee_saved = [3], compact_callee_saved = [3]\<rparr>"

lemma swap_clobbers:
  "is_clobbered_during (build_clobber_index swap_facts [11]) 11 \<lparr>start_at = 0, end_at = 2\<rparr> True = False"
  "is_clobbered_during (build_clobber_index swap_facts [11]) 11 \<lparr>start_at = Suc 0, end_at = 7\<rparr> True = True"
  "is_clobbered_during (build_clobber_index swap_facts [11]) 11 \<lparr>start_at = 2, end_at = 3\<rparr> True = False"
  by code_simp+

lemma swap_depths:
  "max_depth_in_range swap_loops 2 2 = 0" "max_depth_in_range swap_loops 2 3 = 0" "max_depth_in_range swap_loops 2 7 = 1"
  "max_depth_in_range swap_loops (Suc 0) 2 = 0" "max_depth_in_range swap_loops (Suc 0) 7 = 1"
  by code_simp+

lemma swap_rows:
  "vregs_by_start (new_scan_inputs 3 swap_facts f) = [(0, \<lparr>start_at = 0, end_at = 2\<rparr>), (1, \<lparr>start_at = 1, end_at = 7\<rparr>), (2, \<lparr>start_at = 2, end_at = 3\<rparr>)]"
  "divergence_index (new_scan_inputs 3 swap_facts f) = []"
  "clobber_index (new_scan_inputs 3 swap_facts compact_registers) = build_clobber_index swap_facts [11]"
  by (simp_all add: new_scan_inputs_def range_of_def swap_facts_def upt_rec build_divergence_index_def list_ex_iff caller_saved_flattened_def
     compact_registers_def gp_only_def class_all_def empty_classes_def)

lemma swap_pass:
  "\<exists>dbg. scan_intervals_with_remat 3 swap_facts compact_registers 0 False default_cost_model swap_loops [] (new_scan_inputs 3 swap_facts compact_registers) []
    = Some ([Some (Register 11), Some (Register 3), Some (Spill (- 8))], 1, [3], dbg)"
  "\<exists>dbg. scan_intervals_with_remat 3 swap_facts compact_registers 0 False default_cost_model swap_loops [] (new_scan_inputs 3 swap_facts compact_registers) [3]
    = Some ([Some (Spill (- 8)), Some (Register 3), Some (Register 11)], 1, [3], dbg)"
proof -
  have gp: "class_of_vreg swap_facts 0 = Gp" "class_of_vreg swap_facts (Suc 0) = Gp" "class_of_vreg swap_facts 2 = Gp"
    by (simp_all add: class_of_vreg_def class_of_def swap_facts_def)
  have use: "has_diverging_use swap_facts 0 = False" "has_diverging_use swap_facts (Suc 0) = False" "has_diverging_use swap_facts 2 = False"
    by (simp_all add: has_diverging_use_def swap_facts_def)
  have rg: "range_of swap_facts 0 = Some \<lparr>start_at = 0, end_at = 2\<rparr>" "range_of swap_facts (Suc 0) = Some \<lparr>start_at = 1, end_at = 7\<rparr>"
    by (simp_all add: range_of_def swap_facts_def)
  have regs: "compact_registers Gp = \<lparr>caller_saved = [11], callee_saved = [3], compact_callee_saved = [3]\<rparr>"
    by (simp add: compact_registers_def gp_only_def)
  have none: "replicate 3 None = [None, None, None :: nat allocation option]" by (simp add: numeral_3_eq_3)
  note s = scan_simps swap_rows gp use swap_clobbers swap_depths regs none rg spill_to_slot_def allocate_slot_def offset_for_slot_def
    remaining_priority_def spill_priority_def default_cost_model_def spill_cost_def range_diverges_def
  show "\<exists>dbg. scan_intervals_with_remat 3 swap_facts compact_registers 0 False default_cost_model swap_loops [] (new_scan_inputs 3 swap_facts compact_registers) []
    = Some ([Some (Register 11), Some (Register 3), Some (Spill (- 8))], 1, [3], dbg)"
    by (simp add: s)
  show "\<exists>dbg. scan_intervals_with_remat 3 swap_facts compact_registers 0 False default_cost_model swap_loops [] (new_scan_inputs 3 swap_facts compact_registers) [3]
    = Some ([Some (Spill (- 8)), Some (Register 3), Some (Register 11)], 1, [3], dbg)"
    by (simp add: s)
qed

text \<open>The second pass is kept although it takes the register of the first value and spills that value.\<close>

lemma swap_ok: "ranges_ok swap_facts" "file_ok compact_registers" "reuse_pass_could_differ compact_registers [3]"
  by (auto simp: ranges_ok_def range_of_def swap_facts_def nth_Cons file_ok_def compact_registers_def gp_only_def empty_classes_def
      class_regs_def reuse_pass_could_differ_def class_all_def split: nat.splits reg_class.split)

lemma reuse_pass_displaces_value:
  "\<exists>dbg dbg0. scan_intervals_with_remat 3 swap_facts compact_registers 0 False default_cost_model swap_loops []
      (new_scan_inputs 3 swap_facts compact_registers) []
      = Some ([Some (Register 11), Some (Register 3), Some (Spill (- 8))], 1, [3], dbg0)
    \<and> linear_scan_impl_with_remat 3 swap_facts compact_registers 0 False default_cost_model swap_loops []
      = Some ([Some (Spill (- 8)), Some (Register 3), Some (Register 11)], 1, [3], dbg)"
proof -
  obtain dbg0 dbg where p: "scan_intervals_with_remat 3 swap_facts compact_registers 0 False default_cost_model swap_loops []
      (new_scan_inputs 3 swap_facts compact_registers) [] = Some ([Some (Register 11), Some (Register 3), Some (Spill (- 8))], 1, [3], dbg0)"
    "scan_intervals_with_remat 3 swap_facts compact_registers 0 False default_cost_model swap_loops []
      (new_scan_inputs 3 swap_facts compact_registers) [3] = Some ([Some (Spill (- 8)), Some (Register 3), Some (Register 11)], 1, [3], dbg)"
    using swap_pass by blast
  then show ?thesis using kept_pass[OF p] swap_ok(3) by (simp add: accept_reuse_pass_def registers_held_def)
qed

section \<open>Results\<close>

text \<open>
  C5. A value that is live after a reachable instruction is never destroyed by it: when its
  register is among those the instruction clobbers, it is a register that the convention preserves.
  This holds through analysis, coalescing and scan, although the scan disregards the clobbers of
  calls that never return and, for a value that no diverging instruction reads, of whole diverging
  regions.
\<close>

theorem clobbers_spare_live_values:
  assumes "adapter_ok a insts w" "traps_end a insts" "sorted_wrt (<) (map cand_inst cands)" "file_ok file"
    and "allocated a insts w cs cands file base c as k"
    and "reached_inst (adapter_succs a insts) i" "in_play a insts i v"
    and "live_out (adapter_succs a insts) (adapter_uses a insts) (adapter_defs a insts) v i"
    and "as ! representative c v = Some (Register reg)" "reg \<in> set (clobbers_of a (insts ! i))"
  shows "reg \<in> set (callee_saved (file (class_of (of_nat v) cs)))"
proof -
  let ?s = "adapter_succs a insts" and ?x = "representative c v" and ?nr = "map (never_returns a) insts"
  have i: "i < length insts" using reached_width[OF assms(1,6)] .
  have v: "v < w" using in_play_width[OF assms(1) i assms(7)] .
  obtain l0 l infos sv dbg where f: "analyze a insts w cs = Some l0" "analysis_spec a insts w cs l0" "coalesced l0 cands c l"
    "allocation_sound w l file infos base (as, k, sv, dbg)" using allocated_facts[OF assms(1,3,4,5)] .
  have len: "length (ranges l0) = w" using f(2) by (simp add: analysis_spec_def hulls_def)
  have cov: "covered l0 v l ?x" "class_of_vreg l0 ?x = class_of_vreg l0 v" using f(3) by (simp_all add: coalesced_def)
  obtain q where q: "range_of l0 v = Some q" "start_at q \<le> i" "i \<le> end_at q"
    using play_covered[OF assms(1) f(1) assms(6) v assms(7)] by blast
  then obtain r where r: "range_of l ?x = Some r" "start_at r \<le> i" "i \<le> end_at r"
    using cov(1) by (fastforce simp: covered_def)
  have x: "?x < w" using f(3) len v unfolding coalesced_def by metis
  have same: "clobbers_at l = map (clobbers_of a) insts" "non_returning_at l = ?nr" "diverging_at l = diverging_at l0"
    "info_classes l = cs" using f(2,3) by (simp_all add: coalesced_def same_code_def analysis_spec_def)
  have div: "length (diverging_at l0) = length insts" "diverging_at l0 ! i \<longleftrightarrow> diverges ?s ?nr i"
    using f(2) i by (simp_all add: analysis_spec_def)
  have out: "\<not> ?nr ! i" "diverges ?s ?nr i \<longrightarrow> (\<exists>j < length insts. diverges ?s ?nr j \<and> v \<in> set (adapter_uses a insts ! j))"
    using live_out_of_diverging[OF assms(8), of ?nr] assms(2) i by (simp_all add: traps_end_def)
  have "has_diverging_use l ?x" if "diverges ?s ?nr i"
  proof -
    have "has_diverging_use l0 v" using that out(2) f(2) v by (auto simp: analysis_spec_def has_diverging_use_def)
    then show ?thesis using cov(1) by (simp add: covered_def)
  qed
  then have "clobbers_range l reg r (\<not> has_diverging_use l ?x)"
    using r(2,3) i same out(1) div assms(10)
    by (auto simp: clobbers_range_def clobber_hit_def is_non_returning_def diverges_at_def intro!: exI[of _ i])
  moreover have "can_hold l file ?x (rg l ?x) reg"
    using f(4) x assms(9) unfolding allocation_sound_def prod.case by blast
  moreover have "rg l ?x = r" by (simp add: rg_def r(1))
  moreover have "class_of_vreg l ?x = class_of (of_nat v) cs"
    using cov(2) same(4) f(2) by (simp add: class_of_vreg_def analysis_spec_def)
  ultimately show ?thesis by (simp add: can_hold_def)
qed

theorem clobbers_spare_live_values_witness: "7 \<in> set (callee_saved (two_registers (class_of (of_nat 0) [Gp, Gp])))"
proof -
  have "traps_end listed two_values" by (simp add: traps_end_def listed_tables two_values_def listed_def All_less_Suc)
  moreover have "7 \<in> set (clobbers_of listed (two_values ! 2))" by (simp add: listed_def two_values_def)
  moreover have "[Some (Register 7), Some (Register 8)] ! representative (with_vreg_count 2) 0 = Some (Register (7 :: nat))"
    by (simp add: representative_def with_vreg_count_def numeral_2_eq_2)
  ultimately show ?thesis
    using clobbers_spare_live_values[OF two_ok _ _ file_ok_two two_allocated two_reached two_play, of 0 7] by simp
qed

text \<open>
  C6. Two registers that are both live, read or written around one reachable instruction are kept
  in different places, registers or spill slots, unless the instruction is a move that coalescing
  deletes.
\<close>

theorem live_values_kept_apart:
  assumes "adapter_ok a insts w" "sorted_wrt (<) (map cand_inst cands)" "file_ok file"
    and "allocated a insts w cs cands file base c as k" "checked_function_frame_slots base k \<noteq> None"
    and "reached_inst (adapter_succs a insts) i" "in_play a insts i u" "in_play a insts i v" "u \<noteq> v"
  shows "is_eliminated c i \<or> \<not> shares_place (as ! representative c u) (as ! representative c v)"
proof -
  have i: "i < length insts" using reached_width[OF assms(1,6)] .
  have w: "u < w" "v < w" using in_play_width[OF assms(1) i] assms(7,8) by blast+
  obtain l0 l infos sv dbg where f: "analyze a insts w cs = Some l0" "analysis_spec a insts w cs l0" "coalesced l0 cands c l"
    "allocation_sound w l file infos base (as, k, sv, dbg)" using allocated_facts[OF assms(1-4)] .
  obtain q r where qr: "range_of l0 u = Some q" "start_at q \<le> i" "i \<le> end_at q"
    "range_of l0 v = Some r" "start_at r \<le> i" "i \<le> end_at r"
    using play_covered[OF assms(1) f(1) assms(6)] w assms(7,8) by metis
  have ov: "overlaps q r" using qr by (simp add: overlaps_def)
  show ?thesis
  proof (cases "representative c u = representative c v")
    case True
    then have "meet_at_move l0 c u v" using f(3) assms(9) by (simp add: coalesced_def)
    then obtain j where "is_eliminated c j" "end_at q = j \<and> start_at r = j \<or> end_at r = j \<and> start_at q = j"
      using qr(1,4) ov by (auto simp: meet_at_move_def)
    then show ?thesis using qr by auto
  next
    case False
    have "length (ranges l0) = w" using f(2) by (simp add: analysis_spec_def hulls_def)
    then have x: "representative c u < w" "representative c v < w" using f(3) w unfolding coalesced_def by metis+
    have "interferes l0 u v" using qr ov by (simp add: interferes_def)
    moreover have "covered l0 u l (representative c u)" "covered l0 v l (representative c v)"
      using f(3) by (simp_all add: coalesced_def)
    ultimately have "interferes l (representative c u) (representative c v)" using interferes_covered by blast
    then show ?thesis using apart[OF f(4) assms(5) x False] by blast
  qed
qed

theorem live_values_kept_apart_witness: "\<not> shares_place (Some (Register 7)) (Some (Register (8 :: nat)))"
proof -
  have rep: "representative (with_vreg_count 2) v = v" for v by (simp add: representative_def with_vreg_count_def)
  have "\<not> is_eliminated (with_vreg_count 2) 2" by (simp add: is_eliminated_def with_vreg_count_def)
  moreover have "checked_function_frame_slots 0 0 \<noteq> None" by (simp add: checked_function_frame_slots_def then_some_def)
  ultimately show ?thesis
    using live_values_kept_apart[OF two_ok _ file_ok_two two_allocated _ two_reached two_play(1) two_play(1), of 0 1]
    by (simp add: rep)
qed

text \<open>
  C8. Allocation never panics on code whose facts are in range: the analysis, the coalescing and
  both passes return, every register that is in play at a reachable instruction has a place
  through its representative, and every spill slot lies between the locals and the end of the frame.
\<close>

theorem allocation_total:
  assumes "adapter_ok a insts w" "w < 2 ^ 32" "sorted_wrt (<) (map cand_inst cands)" "file_ok file"
  shows "\<exists>l0 c l as k sv dbg. analyze a insts w cs = Some l0 \<and> coalesce cands l0 = Some (c, l)
    \<and> linear_scan_impl_with_remat w l file base d m loops infos = Some (as, k, sv, dbg) \<and> length as = w
    \<and> (\<forall>i v. reached_inst (adapter_succs a insts) i \<and> in_play a insts i v \<longrightarrow> as ! representative c v \<noteq> None)
    \<and> (checked_function_frame_slots base k \<noteq> None \<longrightarrow> (\<forall>v < w. \<forall>offset. as ! v = Some (Spill offset) \<longrightarrow>
         - int (8 * (base + k)) \<le> offset \<and> offset < - int (8 * base) \<and> 8 dvd offset))"
proof -
  obtain l0 where l0: "analyze a insts w cs = Some l0" using analysis_exact[OF assms(1)] by blast
  note r = analysis_ranges[OF assms(1) l0]
  obtain c l where c: "coalesce cands l0 = Some (c, l)" "coalesced l0 cands c l" "ranges_ok l"
    using coalesce_result[OF assms(3), of l0] r(1,2) assms(2) by (auto simp: ranges_ok_def)
  obtain as k sv dbg where s: "linear_scan_impl_with_remat w l file base d m loops infos = Some (as, k, sv, dbg)"
    "allocation_sound w l file infos base (as, k, sv, dbg)"
    using passes_sound[OF c(3) assms(4), of w base d m loops infos] by (metis prod_cases4)
  have "as ! representative c v \<noteq> None" if "reached_inst (adapter_succs a insts) i" "in_play a insts i v" for i v
  proof -
    have v: "v < w" using in_play_width[OF assms(1) reached_width[OF assms(1) that(1)] that(2)] .
    then have x: "representative c v < w" using c(2) r(2) unfolding coalesced_def by metis
    have "covered l0 v l (representative c v)" using c(2) by (simp add: coalesced_def)
    then have "range_of l (representative c v) \<noteq> None"
      using play_covered[OF assms(1) l0 that(1) v that(2)] by (auto simp: covered_def)
    then show ?thesis using s(2) x by (simp add: allocation_sound_def)
  qed
  moreover have "- int (8 * (base + k)) \<le> offset \<and> offset < - int (8 * base) \<and> 8 dvd offset"
    if b: "checked_function_frame_slots base k \<noteq> None" and v: "v < w" "as ! v = Some (Spill offset)" for v offset
  proof -
    obtain i where i: "i < k" "offset = slot_cell base i" using s(2) v unfolding allocation_sound_def prod.case by blast
    have "offset = - 8 * int (base + i + 1)" using slot_cell_in_frame[OF b i(1)] i(2) by simp
    then show ?thesis using i(1) by simp
  qed
  moreover have "length as = w" using s(2) by (simp add: allocation_sound_def)
  ultimately show ?thesis using l0 c(1) s(1) by blast
qed

theorem allocation_total_witness:
  "\<exists>l0 c l as k sv dbg. analyze listed two_values 2 [Gp, Gp] = Some l0 \<and> coalesce [] l0 = Some (c, l)
    \<and> linear_scan_impl_with_remat 2 l two_registers 3 True default_cost_model (no_loops 4) [] = Some (as, k, sv, dbg)
    \<and> as ! representative c 0 \<noteq> None"
proof -
  have "(2 :: nat) < 2 ^ 32" by simp
  then show ?thesis
    using allocation_total[OF two_ok _ _ file_ok_two, of "[]" "[Gp, Gp]" 3 True default_cost_model "no_loops 4" "[]"]
      two_reached two_play(1)[of 0] by fastforce
qed

text \<open>
  C20. The second pass costs nothing by the measures of the code.  It is kept exactly when it could
  differ and saves only registers that the first pass saves, keeps at least as many values in
  registers, and uses at most as many spill slots; otherwise, and always when the first pass
  commits no compact register, the result is that of the first pass.  Whichever pass is kept, intervals that
  interfere have different places.  It is the number of values in registers that does not drop: a
  value may lose its register to another, as in \<open>reuse_pass_displaces_value\<close>.
\<close>

theorem reuse_pass_is_free:
  assumes "ranges_ok l" "file_ok file"
  shows "\<exists>as k sv dbg as0 k0 sv0 dbg0 as1 k1 sv1 dbg1.
      linear_scan_impl_with_remat n l file base d m loops infos = Some (as, k, sv, dbg)
    \<and> scan_intervals_with_remat n l file base d m loops infos (new_scan_inputs n l file) [] = Some (as0, k0, sv0, dbg0)
    \<and> scan_intervals_with_remat n l file base d m loops infos (new_scan_inputs n l file) sv0 = Some (as1, k1, sv1, dbg1)
    \<and> set sv \<subseteq> set sv0 \<and> registers_held as0 \<le> registers_held as \<and> k \<le> k0
    \<and> (if (\<exists>class. caller_saved (file class) \<noteq> [] \<and> set (compact_callee_saved (file class)) \<inter> set sv0 \<noteq> {})
          \<and> set sv1 \<subseteq> set sv0 \<and> registers_held as0 \<le> registers_held as1 \<and> k1 \<le> k0
        then (as, k, sv, dbg) = (as1, k1, sv1, dbg1) else (as, k, sv, dbg) = (as0, k0, sv0, dbg0))
    \<and> (\<forall>u < n. \<forall>v < n. u \<noteq> v \<and> interferes l u v \<and> as ! u = as ! v \<longrightarrow> (\<forall>reg. as ! u \<noteq> Some (Register reg)))
    \<and> (checked_function_frame_slots base k0 \<noteq> None \<longrightarrow>
        (\<forall>u < n. \<forall>v < n. u \<noteq> v \<and> interferes l u v \<longrightarrow> \<not> shares_place (as ! u) (as ! v)))"
proof -
  obtain as k sv dbg as0 k0 sv0 dbg0 where r: "linear_scan_impl_with_remat n l file base d m loops infos = Some (as, k, sv, dbg)"
    "scan_intervals_with_remat n l file base d m loops infos (new_scan_inputs n l file) [] = Some (as0, k0, sv0, dbg0)"
    "allocation_sound n l file infos base (as, k, sv, dbg)" "no_costlier (as0, k0, sv0, dbg0) (as, k, sv, dbg)"
    using passes_sound[OF assms, of n base d m loops infos] by (metis prod_cases4)
  obtain as1 k1 sv1 dbg1 where again: "scan_intervals_with_remat n l file base d m loops infos (new_scan_inputs n l file) sv0
      = Some (as1, k1, sv1, dbg1)" using pass_sound[OF assms, of n base d m loops infos sv0] by (metis prod_cases4)
  have could: "reuse_pass_could_differ file sv0
      \<longleftrightarrow> (\<exists>class. caller_saved (file class) \<noteq> [] \<and> set (compact_callee_saved (file class)) \<inter> set sv0 \<noteq> {})"
    by (auto simp: reuse_pass_could_differ_def list_ex_iff)
  have accept: "accept_reuse_pass (as0, k0, sv0, dbg0) (as1, k1, sv1, dbg1)
      \<longleftrightarrow> set sv1 \<subseteq> set sv0 \<and> registers_held as0 \<le> registers_held as1 \<and> k1 \<le> k0"
    by (auto simp: accept_reuse_pass_def list_all_iff)
  have kept: "(as, k, sv, dbg) = (if reuse_pass_could_differ file sv0 \<and> accept_reuse_pass (as0, k0, sv0, dbg0) (as1, k1, sv1, dbg1)
      then (as1, k1, sv1, dbg1) else (as0, k0, sv0, dbg0))" using kept_pass[OF r(2) again] r(1) by simp
  have free: "set sv \<subseteq> set sv0" "registers_held as0 \<le> registers_held as" "k \<le> k0" using r(4) by (simp_all add: no_costlier_def)
  have "\<forall>reg. as ! u \<noteq> Some (Register reg)" if "u < n" "v < n" "u \<noteq> v" "interferes l u v" "as ! u = as ! v" for u v
  proof (intro allI notI)
    fix reg assume "as ! u = Some (Register reg)"
    then show False using r(3) that unfolding allocation_sound_def prod.case by metis
  qed
  moreover have "\<not> shares_place (as ! u) (as ! v)"
    if "checked_function_frame_slots base k0 \<noteq> None" "u < n" "v < n" "u \<noteq> v" "interferes l u v" for u v
    using apart[OF r(3) fewer_slots_fit[OF that(1) free(3)] that(2-)] .
  ultimately show ?thesis using r(1,2) again kept free unfolding could accept
    by (intro exI conjI) (assumption | blast | simp)+
qed

theorem reuse_pass_is_free_witness:
  "\<exists>dbg. linear_scan_impl_with_remat 3 swap_facts compact_registers 0 False default_cost_model swap_loops []
      = Some ([Some (Spill (- 8)), Some (Register 3), Some (Register 11)], 1, [3], dbg)
    \<and> \<not> shares_place (Some (Register 3)) (Some (Register (11 :: nat)))"
proof -
  obtain dbg0 dbg where p: "scan_intervals_with_remat 3 swap_facts compact_registers 0 False default_cost_model swap_loops []
      (new_scan_inputs 3 swap_facts compact_registers) [] = Some ([Some (Register 11), Some (Register 3), Some (Spill (- 8))], 1, [3], dbg0)"
    "scan_intervals_with_remat 3 swap_facts compact_registers 0 False default_cost_model swap_loops []
      (new_scan_inputs 3 swap_facts compact_registers) [3] = Some ([Some (Spill (- 8)), Some (Register 3), Some (Register 11)], 1, [3], dbg)"
    using swap_pass by blast
  have could: "caller_saved (compact_registers Gp) \<noteq> [] \<and> set (compact_callee_saved (compact_registers Gp)) \<inter> set [3] \<noteq> {}"
    by (simp add: compact_registers_def gp_only_def)
  have meet: "interferes swap_facts 1 2" by (simp add: interferes_def range_of_def swap_facts_def overlaps_def)
  have fits: "checked_function_frame_slots 0 1 \<noteq> None"
    by (simp add: checked_function_frame_slots_def then_some_def max_function_frame_bytes_def)
  let ?run = "linear_scan_impl_with_remat 3 swap_facts compact_registers 0 False default_cost_model swap_loops []"
  let ?pass = "scan_intervals_with_remat 3 swap_facts compact_registers 0 False default_cost_model swap_loops []
      (new_scan_inputs 3 swap_facts compact_registers)"
  obtain as k sv d as0 k0 sv0 d0 as1 k1 sv1 d1 where r: "?run = Some (as, k, sv, d)" "?pass [] = Some (as0, k0, sv0, d0)"
    "?pass sv0 = Some (as1, k1, sv1, d1)"
    "if (\<exists>class. caller_saved (compact_registers class) \<noteq> [] \<and> set (compact_callee_saved (compact_registers class)) \<inter> set sv0 \<noteq> {})
          \<and> set sv1 \<subseteq> set sv0 \<and> registers_held as0 \<le> registers_held as1 \<and> k1 \<le> k0
        then (as, k, sv, d) = (as1, k1, sv1, d1) else (as, k, sv, d) = (as0, k0, sv0, d0)"
    "checked_function_frame_slots 0 k0 \<noteq> None \<longrightarrow>
        (\<forall>u < 3. \<forall>v < 3. u \<noteq> v \<and> interferes swap_facts u v \<longrightarrow> \<not> shares_place (as ! u) (as ! v))"
    using reuse_pass_is_free[OF swap_ok(1,2), of 3 0 False default_cost_model swap_loops "[]"]
    by (elim exE conjE) (rule that, assumption+)
  have first: "as0 = [Some (Register 11), Some (Register 3), Some (Spill (- 8))]" "k0 = 1" "sv0 = [3]" using p(1) r(2) by simp_all
  have second: "as1 = [Some (Spill (- 8)), Some (Register 3), Some (Register 11)]" "k1 = 1" "sv1 = [3]" "d1 = dbg"
    using p(2) r(3) unfolding first by simp_all
  have "registers_held as0 \<le> registers_held as1" by (simp add: first second registers_held_def)
  then have res: "(as, k, sv, d) = (as1, k1, sv1, d1)" using r(4) could unfolding first second by (metis order_refl)
  have "\<not> shares_place (as ! 1) (as ! 2)" using r(5) meet fits unfolding first by simp
  then show ?thesis using r(1) res second by simp
qed

text \<open>
  Without recipes the scan with rematerialisation is the scan without, so the entry points
  that take no recipes compute the same allocation.
\<close>

theorem scan_with_remat_refines:
  assumes "\<forall>op \<in> set infos. op = None"
  shows "linear_scan_impl_with_remat n l file base d m loops infos = linear_scan_impl n l file base d m loops
    \<and> linear_scan_with_remat n l regs base infos = linear_scan n l regs base"
proof -
  have "can_remat infos v = None" for v using assms nth_mem by (fastforce simp: can_remat_def)
  then have pass: "scan_intervals_with_remat n l f base d m loops infos = scan_intervals n l f base d m loops" for d m loops f
    by (intro ext scan_without_recipes)
  have "linear_scan_impl_with_remat n l f base d m loops infos = linear_scan_impl n l f base d m loops" for d m loops f
    unfolding linear_scan_impl_with_remat_def linear_scan_impl_def pass ..
  then show ?thesis by (simp add: linear_scan_with_remat_def linear_scan_def)
qed

theorem scan_with_remat_refines_witness:
  "linear_scan_with_remat 2 two_facts [7] 0 [None, None] = linear_scan 2 two_facts [7] 0"
  using scan_with_remat_refines[of "[None, None]" 2 two_facts "two_registers" 0 False default_cost_model "no_loops 4" "[7]"] by simp

text \<open>
  C9. Coalescing is safe: it returns; the representative of a register is its own representative,
  has its class, and its interval and diverging uses cover those of every register merged into it;
  two registers with one representative meet at most at a deleted move, and a deleted move copies
  within one representative.
\<close>

theorem coalescing_safe:
  assumes "sorted_wrt (<) (map cand_inst cands)" "length (ranges l0) < 2 ^ 32" "ranges_ok l0"
  shows "\<exists>c l. coalesce cands l0 = Some (c, l)
    \<and> (\<forall>v. representative c (representative c v) = representative c v
         \<and> class_of_vreg l (representative c v) = class_of_vreg l0 v \<and> covered l0 v l (representative c v))
    \<and> (\<forall>u v. u \<noteq> v \<and> representative c u = representative c v \<longrightarrow> meet_at_move l0 c u v)
    \<and> (\<forall>k \<in> set cands. is_eliminated c (cand_inst k) \<longrightarrow> representative c (cand_dst k) = representative c (cand_src k))"
proof -
  obtain c l where c: "coalesce cands l0 = Some (c, l)" "coalesced l0 cands c l"
    using coalesce_result[OF assms(1,2)] assms(3) by (auto simp: ranges_ok_def)
  have "class_of_vreg l v = class_of_vreg l0 v" for v
    using c(2) by (simp add: coalesced_def same_code_def class_of_vreg_def)
  then show ?thesis using c by (auto simp: coalesced_def)
qed

text \<open>A move between two values that meet at it: it is deleted, and they are merged.\<close>

definition move_facts :: "nat liveness_info" where
  "move_facts = \<lparr>ranges = [Some \<lparr>start_at = 0, end_at = 1\<rparr>, Some \<lparr>start_at = 1, end_at = 2\<rparr>], clobbers_at = [[], [], []],
     non_returning_at = replicate 3 False, diverging_at = replicate 3 False, diverging_uses = [False, False], info_classes = [Gp, Gp]\<rparr>"

lemma coalesce_move:
  "\<exists>l. coalesce [\<lparr>cand_inst = 1, cand_dst = 1, cand_src = 0\<rparr>] move_facts
    = Some (\<lparr>coalesce_map = [None, Some 0], eliminated_moves = [False, True], eliminated_count = 1\<rparr>, l)"
proof -
  have "replicate 2 None = [None, None :: nat option]" by (simp add: numeral_2_eq_2)
  then show ?thesis
    by (simp add: coalesce_def Let_def move_facts_def coalesce_step_def find_root.simps class_of_vreg_def class_of_def range_of_def
        put_at_def merge_into_def mark_eliminated_def with_vreg_count_def get_at_def)
qed

theorem coalescing_safe_witness:
  "\<exists>c l. coalesce [\<lparr>cand_inst = 1, cand_dst = 1, cand_src = 0\<rparr>] move_facts = Some (c, l)
    \<and> representative c 1 = representative c 0 \<and> covered move_facts 1 l (representative c 1) \<and> meet_at_move move_facts c 0 1"
proof -
  have "length (ranges move_facts) < 2 ^ 32" "ranges_ok move_facts"
    by (auto simp: move_facts_def ranges_ok_def range_of_def nth_Cons split: nat.splits if_splits)
  then obtain c l where c: "coalesce [\<lparr>cand_inst = 1, cand_dst = 1, cand_src = 0\<rparr>] move_facts = Some (c, l)"
    "covered move_facts 1 l (representative c 1)"
    "\<forall>u v. u \<noteq> v \<and> representative c u = representative c v \<longrightarrow> meet_at_move move_facts c u v"
    "is_eliminated c 1 \<longrightarrow> representative c 1 = representative c 0"
    using coalescing_safe[of "[\<lparr>cand_inst = 1, cand_dst = 1, cand_src = 0\<rparr>]" move_facts] by fastforce
  have "is_eliminated c 1" using c(1) coalesce_move by (auto simp: is_eliminated_def)
  then show ?thesis using c by (metis zero_neq_one)
qed

text \<open>
  C21. When no interval is confined to a diverging region, every callee-saved register that holds
  a value is recorded for the prologue to save.
\<close>

theorem saves_cover_registers:
  assumes "ranges_ok l" "file_ok file" "linear_scan_impl_with_remat n l file base d m loops infos = Some (as, k, sv, dbg)"
    and "\<forall>u < n. range_of l u \<noteq> None \<longrightarrow> \<not> confined l u"
    and "v < n" "as ! v = Some (Register reg)" "reg \<in> set (callee_saved (file (class_of_vreg l v)))"
  shows "reg \<in> set sv"
proof -
  have s: "allocation_sound n l file infos base (as, k, sv, dbg)"
    using passes_sound[OF assms(1,2), of n base d m loops infos] assms(3) by auto
  have "saves_inv l file (ranged n l) as sv" using s by (simp add: allocation_sound_def)
  moreover have "v \<in> ranged n l" using s assms(5,6) by (auto simp: allocation_sound_def ranged_def)
  ultimately show ?thesis using assms(4,6,7) unfolding saves_inv_def ranged_def by blast
qed

theorem saves_cover_registers_witness:
  "\<exists>as k sv dbg. linear_scan_impl_with_remat 2 two_facts two_registers 0 False default_cost_model (no_loops 4) [] = Some (as, k, sv, dbg)
    \<and> 7 \<in> set sv"
proof -
  obtain sv dbg where s: "linear_scan_impl_with_remat 2 two_facts two_registers 0 False default_cost_model (no_loops 4) []
    = Some ([Some (Register 7), Some (Register 8)], 0, sv, dbg)" using two_scan by blast
  have "\<not> confined two_facts u" for u by (simp add: build_divergence_index_def two_facts_def range_diverges_def list_ex_iff)
  moreover have "7 \<in> set (callee_saved (two_registers (class_of_vreg two_facts 0)))"
    by (simp add: class_of_vreg_def class_of_def two_facts_def gp_only_def callee_saved_only_def)
  ultimately have "7 \<in> set sv"
    using saves_cover_registers[OF analysis_ranges(1)[OF two_ok two_analysis] file_ok_two s, of 0 7] by simp
  then show ?thesis using s by blast
qed

text \<open>
  C22. Rewriting keeps the order of the code: the result is the expansions of the instructions one
  after the other, each the instructions before, at and after it; a deleted move and the definition
  of a rematerialised value expand to nothing.
\<close>

theorem rewriting_keeps_order:
  assumes "rewrite_from b ctx canceled idx insts mir = Some (Inr m)"
  shows "\<exists>outs. length outs = length insts \<and> m = fold (push_inst b) (concat outs) mir
    \<and> (\<forall>j < length insts. if is_eliminated (ctx_coalesce ctx) (idx + j) \<or> rematerialized_here b ctx (insts ! j) = Some True
         then outs ! j = []
         else \<exists>buf. rewrite_inst b ctx (insts ! j) empty_buffer = Some (Inr buf)
           \<and> outs ! j = before_insts buf @ main_insts buf @ after_insts buf)"
  using assms
proof (induction insts arbitrary: idx mir)
  case (Cons inst insts)
  define out where "out = (if is_eliminated (ctx_coalesce ctx) idx \<or> rematerialized_here b ctx inst = Some True then []
    else case rewrite_inst b ctx inst empty_buffer of Some (Inr buf) \<Rightarrow> drain_ordered buf | _ \<Rightarrow> [])"
  have step: "rewrite_from b ctx canceled (idx + 1) insts (fold (push_inst b) out mir) = Some (Inr m)
    \<and> (\<not> (is_eliminated (ctx_coalesce ctx) idx \<or> rematerialized_here b ctx inst = Some True)
        \<longrightarrow> (\<exists>buf. rewrite_inst b ctx inst empty_buffer = Some (Inr buf) \<and> out = drain_ordered buf))"
  proof (cases "is_eliminated (ctx_coalesce ctx) idx \<or> rematerialized_here b ctx inst = Some True")
    case True
    then show ?thesis using Cons.prems by (auto simp: out_def split: if_splits)
  next
    case False
    then obtain res where res: "rewrite_inst b ctx inst empty_buffer = Some res"
      "(case res of Inl e \<Rightarrow> Some (Inl e)
        | Inr buffer \<Rightarrow> rewrite_from b ctx canceled (Suc idx) insts (fold (push_inst b) (drain_ordered buffer) mir)) = Some (Inr m)"
      using Cons.prems by (auto simp: bind_eq_Some_conv split: if_splits)
    then show ?thesis using False by (cases res) (auto simp: out_def)
  qed
  then obtain outs where outs: "length outs = length insts" "m = fold (push_inst b) (concat outs) (fold (push_inst b) out mir)"
    "\<forall>j < length insts. if is_eliminated (ctx_coalesce ctx) (idx + 1 + j) \<or> rematerialized_here b ctx (insts ! j) = Some True
         then outs ! j = []
         else \<exists>buf. rewrite_inst b ctx (insts ! j) empty_buffer = Some (Inr buf)
           \<and> outs ! j = before_insts buf @ main_insts buf @ after_insts buf"
    using Cons.IH by blast
  show ?case
  proof (intro exI[of _ "out # outs"] conjI allI impI)
    fix j assume "j < length (inst # insts)"
    then show "if is_eliminated (ctx_coalesce ctx) (idx + j) \<or> rematerialized_here b ctx ((inst # insts) ! j) = Some True
         then (out # outs) ! j = []
         else \<exists>buf. rewrite_inst b ctx ((inst # insts) ! j) empty_buffer = Some (Inr buf)
           \<and> (out # outs) ! j = before_insts buf @ main_insts buf @ after_insts buf"
      using step outs(3) by (cases j) (auto simp: out_def drain_ordered_def)
  qed (use outs(1,2) in auto)
qed simp

definition plain_backend :: "(nat list, nat, nat, unit) regalloc_backend" where
  "plain_backend = \<lparr>backend_vreg_count = (\<lambda>_. 2), backend_instructions = id, backend_defs = (\<lambda>_. []), rematerialization = (\<lambda>_. None),
     backend_analyze_with_loops = (\<lambda>_. Some (two_facts, no_loops 4)), backend_analyze_with_debug_and_loops = (\<lambda>_. None),
     coalesce_candidates = (\<lambda>_. []), backend_register_file = two_registers, physical_operands = (\<lambda>_. []), new_mir = [],
     take_symbols = Pair [], set_symbols = (\<lambda>_. id), into_instructions = id, push_inst = (\<lambda>i m. m @ [i]),
     rewrite_inst = (\<lambda>_ i b. Some (Inr (push_after (i + 1) (push_main i b))))\<rparr>"

theorem rewriting_keeps_order_witness:
  "\<exists>outs. [4, 5, 6, 7] = concat outs \<and> length outs = 2 \<and> outs ! 0 = [4, 5 :: nat]"
proof -
  let ?ctx = "\<lparr>ctx_allocation = [], ctx_coalesce = with_vreg_count 2\<rparr> :: nat allocation_context"
  have "rewrite_from plain_backend ?ctx never_canceled 0 [4, 6] [] = Some (Inr [4, 5, 6, 7])"
    by (simp add: plain_backend_def never_canceled_def is_eliminated_def with_vreg_count_def rematerialized_here_def
        push_main_def push_after_def empty_buffer_def drain_ordered_def)
  from rewriting_keeps_order[OF this]
  obtain outs where o: "length outs = length [4, 6 :: nat]" "[4, 5, 6, 7] = fold (push_inst plain_backend) (concat outs) []"
    "\<forall>j < length [4, 6 :: nat]. if is_eliminated (ctx_coalesce ?ctx) (0 + j) \<or> rematerialized_here plain_backend ?ctx ([4, 6] ! j) = Some True
       then outs ! j = []
       else \<exists>buf. rewrite_inst plain_backend ?ctx ([4, 6] ! j) empty_buffer = Some (Inr buf)
         \<and> outs ! j = before_insts buf @ main_insts buf @ after_insts buf" by blast
  have "outs ! 0 = [4, 5]"
    using o(3)[rule_format, of 0] by (simp add: plain_backend_def is_eliminated_def with_vreg_count_def rematerialized_here_def
        push_main_def push_after_def empty_buffer_def)
  have "fold (push_inst plain_backend) xs ys = ys @ xs" for xs ys
    by (induction xs arbitrary: ys) (simp_all add: plain_backend_def)
  then show ?thesis using o(1,2) \<open>outs ! 0 = [4, 5]\<close> by (intro exI[of _ outs]) simp
qed

text \<open>
  An eviction forgets a save: a constant that lives in a trapping arm takes a callee-saved
  register without a save, and is displaced by a value that the returning path reads; the register
  is handed over and never recorded, so the prologue does not preserve it.
\<close>

lemma evicted_save_forgotten:
  "\<exists>l dbg. analyze listed trapping_arm 2 [Gp, Gp] = Some l
    \<and> linear_scan_impl_with_remat 2 l one_register 0 False default_cost_model (no_loops 6) [Some (Const32 1), None]
        = Some ([Some (Rematerialize (Const32 1)), Some (Register 7)], 0, [], dbg)
    \<and> \<not> confined l 1 \<and> \<not> diverges_at l 5 \<and> 7 \<in> set (callee_saved (one_register (class_of_vreg l 1)))"
proof -
  have "\<not> confined arm_facts 1" using arm_confined(2) by (simp add: rg_def range_of_def arm_facts_def)
  moreover have "\<not> diverges_at arm_facts 5" by (simp add: diverges_at_def arm_facts_def)
  moreover have "7 \<in> set (callee_saved (one_register (class_of_vreg arm_facts 1)))"
    by (simp add: class_of_vreg_def class_of_def arm_facts_def gp_only_def callee_saved_only_def)
  ultimately show ?thesis using arm_analysis arm_scan by blast
qed

text \<open>
  C10. What the driver returns is the rewriting of the code under one allocation, and the registers
  it asks the prologue to save are those that this allocation records.  The allocation is the scan
  of the merged facts of the code's own analysis with the recipes of its own definitions: a value is
  recomputed only by a recipe that every definition that counts gives; values that interfere have
  different places; a saved register is recorded once and is one that the convention preserves; and
  every preserved register that holds a value is recorded, except for values confined to diverging
  regions and where such a value was evicted.  The spill slots fit the frame beside the locals, and
  code that names an allocatable register is refused.
\<close>

theorem driver_allocates:
  defines "places \<equiv> (\<lambda>w l as. \<forall>u < w. \<forall>v < w. u \<noteq> v \<and> interferes l u v \<longrightarrow> \<not> shares_place (as ! u) (as ! v))"
  assumes "backend_analyze_with_loops b mir = analyze_with_loops a (backend_instructions b mir) (backend_vreg_count b mir) cs"
    and "adapter_ok a (backend_instructions b mir) (backend_vreg_count b mir)"
    and "\<forall>inst \<in> set (backend_instructions b mir). backend_defs b inst = defs_of a inst"
    and "sorted_wrt (<) (map cand_inst (coalesce_candidates b (backend_instructions b mir)))" "file_ok (backend_register_file b)"
    and "new_with_artifacts b mir base False = Some drv" "allocate_with_spills b drv = Some (Inr (m, k, used))"
  shows "\<exists>l0 loops c l infos as dbg.
      analyze_with_loops a (backend_instructions b mir) (backend_vreg_count b mir) cs = Some (l0, loops)
    \<and> coalesce (coalesce_candidates b (backend_instructions b mir)) l0 = Some (c, l)
    \<and> linear_scan_impl_with_remat (backend_vreg_count b mir) l (backend_register_file b) base False default_cost_model loops infos
        = Some (as, k, used, dbg)
    \<and> rematerialization_info b mir c = Some infos
    \<and> (\<forall>v < backend_vreg_count b mir. \<forall>op. infos ! v = Some op \<longleftrightarrow> recomputes b mir c v op)
    \<and> rewrite_from b \<lparr>ctx_allocation = as, ctx_coalesce = c\<rparr> never_canceled 0 (into_instructions b (snd (take_symbols b mir)))
        (set_symbols b (fst (take_symbols b mir)) (new_mir b)) = Some (Inr m)
    \<and> (\<forall>v < backend_vreg_count b mir. \<forall>op. as ! v = Some (Rematerialize op) \<longrightarrow> recomputes b mir c v op)
    \<and> places (backend_vreg_count b mir) l as
    \<and> distinct used \<and> (\<forall>reg \<in> set used. \<exists>v < backend_vreg_count b mir.
        reg \<in> set (callee_saved (backend_register_file b (class_of_vreg l v))) \<and> \<not> confined l v)
    \<and> (\<forall>v < backend_vreg_count b mir. \<forall>reg. as ! v = Some (Register reg)
        \<and> reg \<in> set (callee_saved (backend_register_file b (class_of_vreg l v))) \<longrightarrow> reg \<in> set used \<or> confined l v
          \<or> (\<exists>u < backend_vreg_count b mir. confined l u \<and> class_of_vreg l u = class_of_vreg l v
              \<and> (\<forall>reg. as ! u \<noteq> Some (Register reg))))
    \<and> checked_function_frame_slots base k \<noteq> None \<and> names_no_allocatable b mir"
proof -
  let ?insts = "backend_instructions b mir" and ?w = "backend_vreg_count b mir" and ?file = "backend_register_file b"
  obtain l0 loops c l infos as dbg where d: "backend_analyze_with_loops b mir = Some (l0, loops)" "names_no_allocatable b mir"
    "coalesce (coalesce_candidates b ?insts) l0 = Some (c, l)" "rematerialization_info b mir c = Some infos"
    "linear_scan_impl_with_remat ?w l ?file base False default_cost_model loops infos = Some (as, k, used, dbg)"
    "checked_function_frame_slots base k \<noteq> None"
    "rewrite_from b \<lparr>ctx_allocation = as, ctx_coalesce = c\<rparr> never_canceled 0 (into_instructions b (snd (take_symbols b mir)))
      (set_symbols b (fst (take_symbols b mir)) (new_mir b)) = Some (Inr m)"
    using driver_run[OF assms(7,8)] .
  have an: "analyze_with_loops a ?insts ?w cs = Some (l0, loops)" using assms(2) d(1) by simp
  note r = analysis_ranges[OF assms(3) loops_only_added[OF an]]
  have "\<not> 2 ^ 32 - 1 < length (ranges l0)" using d(3) by (auto simp: coalesce_def Let_def)
  then have co: "coalesced l0 (coalesce_candidates b ?insts) c l" "ranges_ok l"
    using coalesce_result[OF assms(5), of l0] r(1) d(3) by (auto simp: ranges_ok_def)
  have sound: "allocation_sound ?w l ?file infos base (as, k, used, dbg)"
    using passes_sound[OF co(2) assms(6), of ?w base False default_cost_model loops infos] d(5) by auto
  have rep: "representative c x < ?w" if "idx < length ?insts" "x \<in> set (backend_defs b (?insts ! idx))" for idx x
  proof -
    have "x \<in> set (adapter_defs a ?insts ! idx)" using that assms(4) by (simp add: adapter_defs_def)
    then have "x < ?w" using that(1) assms(3) by (auto simp: adapter_ok_def code_ok_def)
    then show ?thesis using co(1) r(2) unfolding coalesced_def by metis
  qed
  then have infos: "length infos = ?w" "\<forall>v < ?w. \<forall>op. infos ! v = Some op \<longleftrightarrow> recomputes b mir c v op"
    using recipes_exact[of b mir c] d(4) by auto
  have "\<forall>v < ?w. \<forall>op. as ! v = Some (Rematerialize op) \<longrightarrow> recomputes b mir c v op"
    using sound infos by (auto simp: allocation_sound_def can_remat_def)
  moreover have "places ?w l as" using apart[OF sound d(6)] by (simp add: places_def)
  moreover have sv: "saves_inv l ?file (ranged ?w l) as used" using sound by (simp add: allocation_sound_def)
  have "distinct used \<and> (\<forall>reg \<in> set used. \<exists>v < ?w. reg \<in> set (callee_saved (?file (class_of_vreg l v))) \<and> \<not> confined l v)"
    using sv unfolding saves_inv_def ranged_def by blast
  moreover have "reg \<in> set used \<or> confined l v \<or> (\<exists>u < ?w. confined l u \<and> class_of_vreg l u = class_of_vreg l v
      \<and> (\<forall>reg. as ! u \<noteq> Some (Register reg)))"
    if "v < ?w" "as ! v = Some (Register reg)" "reg \<in> set (callee_saved (?file (class_of_vreg l v)))" for v reg
  proof -
    have "v \<in> ranged ?w l" using sound that(1,2) by (auto simp: allocation_sound_def ranged_def)
    then show ?thesis using sv that(2,3) unfolding saves_inv_def ranged_def by blast
  qed
  ultimately show ?thesis using an d infos by blast
qed

text \<open>
  Three values that are live across an instruction that destroys both registers; the third is a
  constant.
\<close>

definition three_values :: "listed_inst list" where
  "three_values = [([], [0], [], False, [1]), ([], [1], [], False, [2]), ([], [2], [], False, [3]),
     ([], [], [7, 8], False, [4]), ([0, 1, 2], [], [], False, [])]"

definition three_facts :: "nat liveness_info" where
  "three_facts = \<lparr>ranges = [Some \<lparr>start_at = 0, end_at = 4\<rparr>, Some \<lparr>start_at = 1, end_at = 4\<rparr>, Some \<lparr>start_at = 2, end_at = 4\<rparr>],
     clobbers_at = [[], [], [], [7, 8], []], non_returning_at = replicate 5 False, diverging_at = replicate 5 False,
     diverging_uses = [False, False, False], info_classes = [Gp, Gp, Gp]\<rparr>"

definition listed_backend :: "(listed_inst list, listed_inst, nat, unit) regalloc_backend" where
  "listed_backend = \<lparr>backend_vreg_count = (\<lambda>_. 3), backend_instructions = id, backend_defs = fst \<circ> snd,
     rematerialization = (\<lambda>(_, ds, _). if ds = [2] then Some (2, Const32 5) else None),
     backend_analyze_with_loops = (\<lambda>m. analyze_with_loops listed m 3 [Gp, Gp, Gp]), backend_analyze_with_debug_and_loops = (\<lambda>_. None),
     coalesce_candidates = (\<lambda>_. []), backend_register_file = two_registers, physical_operands = (\<lambda>_. []), new_mir = [],
     take_symbols = Pair [], set_symbols = (\<lambda>_. id), into_instructions = id, push_inst = (\<lambda>i m. m @ [i]),
     rewrite_inst = (\<lambda>_ i b. Some (Inr (push_main i b)))\<rparr>"

lemma three_ok: "adapter_ok listed three_values 3"
  by (simp add: adapter_ok_def listed_tables three_values_def code_ok_def All_less_Suc)

lemma three_analysis: "analyze listed three_values 3 [Gp, Gp, Gp] = Some three_facts"
  by code_simp

lemma three_recipes: "rematerialization_info listed_backend three_values (with_vreg_count 3) = Some [None, None, Some (Const32 5)]"
  by (simp add: rematerialization_info_def listed_backend_def three_values_def is_eliminated_def with_vreg_count_def numeral_3_eq_3
      note_definition_def representative_def get_at_def put_at_def join_recipe_def)

lemma three_scan:
  "\<exists>dbg. linear_scan_impl_with_remat 3 three_facts two_registers base False m loops [None, None, Some (Const32 5)]
    = Some ([Some (Register 7), Some (Register 8), Some (Rematerialize (Const32 5))], 0, [7, 8], dbg)"
proof -
  have rows: "vregs_by_start (new_scan_inputs 3 three_facts f)
      = [(0, \<lparr>start_at = 0, end_at = 4\<rparr>), (1, \<lparr>start_at = 1, end_at = 4\<rparr>), (2, \<lparr>start_at = 2, end_at = 4\<rparr>)]"
    "divergence_index (new_scan_inputs 3 three_facts f) = []" for f
    by (simp_all add: new_scan_inputs_def range_of_def three_facts_def upt_rec build_divergence_index_def list_ex_iff)
  have gp: "class_of_vreg three_facts 0 = Gp" "class_of_vreg three_facts (Suc 0) = Gp" "class_of_vreg three_facts 2 = Gp"
    by (simp_all add: class_of_vreg_def class_of_def three_facts_def)
  have none: "replicate 3 None = [None, None, None :: nat allocation option]" by (simp add: numeral_3_eq_3)
  show ?thesis by (simp add: scan_simps rows gp none range_diverges_def)
qed

theorem driver_allocates_witness:
  "\<exists>drv c. new_with_artifacts listed_backend three_values 0 False = Some drv
    \<and> allocate_with_spills listed_backend drv = Some (Inr ([([], [0], [], False, [1]), ([], [1], [], False, [2]),
        ([], [], [7, 8], False, [4]), ([0, 1, 2], [], [], False, [])], 0, [7, 8]))
    \<and> recomputes listed_backend three_values c 2 (Const32 5)"
proof -
  obtain loops where loops: "analyze_with_loops listed three_values 3 [Gp, Gp, Gp] = Some (three_facts, loops)"
    using analysis_exact[OF three_ok, of "[Gp, Gp, Gp]"] three_analysis by auto
  have co: "coalesce [] three_facts = Some (with_vreg_count 3, three_facts)"
    by (simp add: coalesce_def Let_def three_facts_def numeral_3_eq_3)
  have names: "names_no_allocatable listed_backend three_values"
    by (simp add: names_no_allocatable_def listed_backend_def list_all_iff)
  have b: "backend_analyze_with_loops listed_backend three_values = Some (three_facts, loops)"
    "backend_vreg_count listed_backend three_values = 3" "backend_instructions listed_backend three_values = three_values"
    "coalesce_candidates listed_backend three_values = []" "backend_register_file listed_backend = two_registers"
    using loops by (simp_all add: listed_backend_def)
  have "length (info_classes three_facts) = 3" by (simp add: three_facts_def)
  then obtain drv where drv: "new_with_artifacts listed_backend three_values 0 False = Some drv" "driver_mir drv = three_values"
    "driver_liveness drv = three_facts" "driver_loops drv = loops" "driver_locals drv = 0" "driver_coalesce drv = with_vreg_count 3"
    "vreg_info drv = [None, None, Some (Const32 5)]"
    using names co b three_recipes by (simp add: new_with_artifacts_def)
  obtain dbg where s: "linear_scan_impl_with_remat 3 three_facts two_registers 0 False default_cost_model loops (vreg_info drv)
    = Some ([Some (Register 7), Some (Register 8), Some (Rematerialize (Const32 5))], 0, [7, 8], dbg)"
    using three_scan drv(7) by metis
  let ?m = "[([], [0], [], False, [1]), ([], [1], [], False, [2]), ([], [], [7, 8], False, [4]), ([0, 1, 2], [], [], False, [])]"
  have run: "allocate_with_spills listed_backend drv = Some (Inr (?m, 0, [7, 8]))"
    using drv s by (simp add: allocate_with_spills_def assign_registers_def assign_registers_with_debug_def b
        finish_allocation_def validate_spill_budget_def checked_function_frame_slots_def then_some_def rewrite_instructions_def)
      (simp add: listed_backend_def three_values_def never_canceled_def is_eliminated_def with_vreg_count_def rematerialized_here_def
        push_main_def empty_buffer_def drain_ordered_def allocation_of_def representative_def get_at_def)
  have defs: "\<forall>inst \<in> set three_values. backend_defs listed_backend inst = defs_of listed inst"
    by (simp add: listed_backend_def listed_def)
  obtain l0 loops' c l infos as dbg' where f: "analyze_with_loops listed three_values 3 [Gp, Gp, Gp] = Some (l0, loops')"
    "coalesce [] l0 = Some (c, l)"
    "linear_scan_impl_with_remat 3 l two_registers 0 False default_cost_model loops' infos = Some (as, 0, [7, 8], dbg')"
    "rematerialization_info listed_backend three_values c = Some infos"
    "\<forall>v < 3. \<forall>op. as ! v = Some (Rematerialize op) \<longrightarrow> recomputes listed_backend three_values c v op"
    using driver_allocates[of listed_backend three_values listed "[Gp, Gp, Gp]" 0 drv ?m 0 "[7, 8]"] loops three_ok defs file_ok_two
      drv(1) run unfolding b by auto
  have "c = with_vreg_count 3" "l = three_facts" "infos = [None, None, Some (Const32 5)]"
    using f(1,2,4) loops co three_recipes by auto
  then have "as ! 2 = Some (Rematerialize (Const32 5))" using f(3) three_scan[of 0 default_cost_model loops'] by auto
  then have "recomputes listed_backend three_values c 2 (Const32 5)" using f(5)[rule_format, of 2] by simp
  then show ?thesis using drv(1) run by blast
qed

end
