(* ===== verification/Frame_Cells.thy ===== *)
theory Frame_Cells
  imports Frame_Layout
begin

text \<open>
  What the frame arithmetic computes: rounding, the size of a frame, and the cells of saved
  registers and slots.
\<close>

named_theorems frame_sizes \<open>the constants of frames\<close>

lemmas [frame_sizes] = stack_frame_alignment_def slot_bytes_def frame_cell_bytes_def

definition round16 :: "nat \<Rightarrow> nat" where
  "round16 n = (n + 15) div 16 * 16"

lemma round16_bounds: "n \<le> round16 n" "round16 n < n + 16" "16 dvd round16 n" "round16 n mod 16 = 0"
  unfolding round16_def by presburger+

lemma round16_mono: "m \<le> n \<Longrightarrow> round16 m \<le> round16 n"
  by (simp add: round16_def div_le_mono)

lemma round16_fixed: "16 dvd n \<Longrightarrow> round16 n = n"
  by (auto simp: round16_def elim!: dvdE)

lemma budget_small: "max_function_frame_bytes = 2147483632"
  by (simp add: max_function_frame_bytes_def)

lemma and_then_Inr [simp]: "and_then r f = Inr y \<longleftrightarrow> (\<exists>x. r = Inr x \<and> f x = Inr y)"
  by (auto simp: and_then_def split: sum.splits)

lemma and_then_run [simp]: "and_then (Inr x) f = f x" "and_then (Inl e) f = Inl e"
  by (simp_all add: and_then_def)

lemma within_cases: "within w n = (if n < 2 ^ w then Inr n else Inl Frame_Budget_Exceeded)"
  by (simp add: within_def)

lemma aligned_region: "checked_aligned_region_bytes b =
    (if round16 b \<le> max_function_frame_bytes then Inr (round16 b) else Inl Frame_Budget_Exceeded)"
proof (cases "b + 15 < 2 ^ 64")
  case True
  then show ?thesis
    by (auto simp: checked_aligned_region_bytes_def within_def frame_sizes round16_def budget_small Let_def)
next
  case False
  then have "\<not> round16 b \<le> max_function_frame_bytes" using round16_bounds(1)[of b] by (simp add: budget_small)
  then show ?thesis using False by (simp add: checked_aligned_region_bytes_def within_def frame_sizes)
qed

lemma cell_region: "checked_cell_region_bytes n =
    (if 8 * n \<le> max_function_frame_bytes then Inr (8 * n) else Inl Frame_Budget_Exceeded)"
  by (auto simp: checked_cell_region_bytes_def within_def frame_sizes budget_small)

lemma cell_offset: "checked_cell_byte_offset i = (if 8 * i < 2 ^ 31 then Inr (int (8 * i)) else Inl Frame_Budget_Exceeded)"
  by (auto simp: checked_cell_byte_offset_def within_def to_i32_def frame_sizes)

lemma pre_saved: "slot_offset_pre_saved slot = (if 8 * (slot + 1) < 2 ^ 31 then Some (- int (8 * (slot + 1))) else None)"
  unfolding slot_offset_pre_saved_def cell_offset by (auto simp: expect_def i32_ok_def)

lemma as_i32_small: "n < 2 ^ 31 \<Longrightarrow> as_i32 n = int n"
  by (simp add: as_i32_def)

lemma as_u64_small: "as_u64 (int n) = n" if "n < 2 ^ 64"
  using that by (simp add: as_u64_def)

section \<open>The size of a frame\<close>

definition pairs_bytes :: "nat \<Rightarrow> nat" where
  "pairs_bytes n = 16 * ((n + 1) div 2)"

lemma pairs_bytes_bounds: "8 * n \<le> pairs_bytes n" "16 dvd pairs_bytes n"
  unfolding pairs_bytes_def by presburger+

definition saved_below :: "saved_reg_scheme \<Rightarrow> nat \<Rightarrow> nat" where
  "saved_below sch n = (case sch of X86_64 \<Rightarrow> 8 * n | Aarch64 \<Rightarrow> pairs_bytes n)"

definition frame_total :: "saved_reg_scheme \<Rightarrow> nat \<Rightarrow> nat \<Rightarrow> nat" where
  "frame_total sch n slots =
     (case sch of X86_64 \<Rightarrow> round16 (8 * n + 8 * slots) | Aarch64 \<Rightarrow> 16 + pairs_bytes n + round16 (8 * slots))"

definition frame_entry :: "saved_reg_scheme \<Rightarrow> nat" where
  "frame_entry sch = (case sch of X86_64 \<Rightarrow> 0 | Aarch64 \<Rightarrow> 16)"

lemma pairs_small: "n + 1 < 2 ^ 60 \<Longrightarrow> pairs_bytes n < 2 ^ 63"
proof -
  assume n: "n + 1 < 2 ^ 60"
  have "pairs_bytes n \<le> 8 * (n + 1)" unfolding pairs_bytes_def by presburger
  then show ?thesis using n by simp
qed

lemma pairs_value: "n + 1 < 2 ^ 60 \<Longrightarrow> aarch64_callee_saved_pairs_bytes n = Some (pairs_bytes n)"
  using pairs_small[of n] by (auto simp: aarch64_callee_saved_pairs_bytes_def u64_ok_def pairs_bytes_def frame_sizes Let_def)

lemma saved_value: "n + 1 < 2 ^ 60 \<Longrightarrow> saved_area_bytes sch n = Some (frame_entry sch + saved_below sch n)"
  using pairs_small[of n] pairs_value[of n]
  by (cases sch) (simp_all add: saved_area_bytes_def callee_saved_bytes_def frame_entry_def saved_below_def u64_ok_def frame_sizes)

lemma total_aligned: "16 dvd frame_total sch n slots"
  using round16_bounds(3) pairs_bytes_bounds(2) by (cases sch) (simp_all add: frame_total_def)

lemma total_covers: "frame_entry sch + saved_below sch n + 8 * slots \<le> frame_total sch n slots"
  using round16_bounds(1)[of "8 * n + 8 * slots"] round16_bounds(1)[of "8 * slots"]
  by (cases sch) (simp_all add: frame_total_def frame_entry_def saved_below_def)

lemma total_tight: "frame_total sch n slots < frame_entry sch + saved_below sch n + 8 * slots + 16"
  using round16_bounds(2)[of "8 * n + 8 * slots"] round16_bounds(2)[of "8 * slots"]
  by (cases sch) (simp_all add: frame_total_def frame_entry_def saved_below_def)

definition framed :: "saved_reg_scheme \<Rightarrow> nat \<Rightarrow> nat \<Rightarrow> frame_layout" where
  "framed sch n slots =
     \<lparr>layout_scheme = sch, layout_pointer = Established, layout_saved = frame_entry sch + saved_below sch n, layout_slots = slots\<rparr>"

lemma try_new_exact:
  assumes "n + 1 < 2 ^ 60"
  shows "try_new sch n slots = Some (if frame_total sch n slots \<le> max_function_frame_bytes
    then Inr (framed sch n slots) else Inl Frame_Budget_Exceeded)"
proof (cases sch)
  case X86_64
  have over: "\<not> round16 (8 * n + 8 * slots) \<le> max_function_frame_bytes" if "2 ^ 64 \<le> 8 * n + 8 * slots"
    using round16_bounds(1)[of "8 * n + 8 * slots"] that by (simp add: budget_small)
  show ?thesis
  proof (cases "8 * n + 8 * slots < 2 ^ 64")
    case True
    then show ?thesis using saved_value[OF assms, of X86_64]
      by (simp add: X86_64 try_new_def within_def aligned_region frame_total_def framed_def saved_below_def frame_entry_def frame_sizes)
  next
    case False
    then show ?thesis using saved_value[OF assms, of X86_64] over
      by (auto simp add: X86_64 try_new_def within_def frame_total_def saved_below_def frame_entry_def frame_sizes)
  qed
next
  case Aarch64
  have small: "pairs_bytes n < 2 ^ 63" using pairs_small[OF assms] .
  show ?thesis
  proof (cases "round16 (8 * slots) \<le> max_function_frame_bytes")
    case True
    then have "8 * slots < 2 ^ 64" using round16_bounds(1)[of "8 * slots"] by (simp add: budget_small)
    then show ?thesis using True small saved_value[OF assms, of Aarch64]
      by (simp add: Aarch64 try_new_def within_def aligned_region frame_total_def framed_def saved_below_def frame_entry_def frame_sizes
          budget_small)
  next
    case False
    then show ?thesis using saved_value[OF assms, of Aarch64]
      by (auto simp: Aarch64 try_new_def within_def aligned_region frame_total_def saved_below_def frame_entry_def frame_sizes)
  qed
qed

lemma align_value: "align_frame_size (int b) = Some (int (round16 b))" if "round16 b \<le> max_function_frame_bytes"
  using that round16_bounds(1)[of b]
  by (simp add: align_frame_size_def as_u64_small aligned_region expect_def to_i32_def budget_small)

lemma frame_size_value:
  assumes "frame_total sch n slots \<le> max_function_frame_bytes"
  shows "frame_size (framed sch n slots) = Some (frame_total sch n slots)"
proof -
  have c: "frame_entry sch + saved_below sch n + 8 * slots \<le> 2147483632"
    using assms total_covers[of sch n slots] by (simp add: budget_small)
  then have s: "slot_region_bytes slots = Some (int (8 * slots))"
    by (simp add: slot_region_bytes_def to_i32_def expect_def frame_sizes)
  show ?thesis
  proof (cases sch)
    case X86_64
    have r: "round16 (8 * n + 8 * slots) \<le> max_function_frame_bytes" using assms by (simp add: X86_64 frame_total_def)
    have "int (8 * n) + int (8 * slots) = int (8 * n + 8 * slots)" by simp
    then show ?thesis using c align_value[OF r] r
      unfolding X86_64 frame_size_def framed_def layout_saved_bytes_def
      by (simp add: s as_i32_small frame_entry_def saved_below_def i32_ok_def as_u64_small frame_total_def budget_small)
  next
    case Aarch64
    have r: "round16 (8 * slots) \<le> max_function_frame_bytes" "16 + pairs_bytes n + round16 (8 * slots) < 2 ^ 64"
      using assms by (simp_all add: Aarch64 frame_total_def budget_small)
    then show ?thesis using align_value[OF r(1)] unfolding Aarch64 frame_size_def framed_def
      by (simp add: s frame_entry_def saved_below_def as_u64_small u64_ok_def frame_total_def budget_small)
  qed
qed

end
