(* ===== verification/Frame_Results.thy ===== *)
theory Frame_Results
  imports Frame_Cells
begin

text \<open>What a planned frame guarantees to the code that is emitted for it.\<close>

lemma slot_sum_from_value: "acc < 2 ^ 32 \<Longrightarrow> slot_sum_from acc parts = then_some (acc + sum_list parts < 2 ^ 32) (acc + sum_list parts)"
  by (induction parts arbitrary: acc) (auto simp: then_some_def add.assoc)

lemma slot_sum_value: "checked_slot_sum parts = then_some (sum_list parts < 2 ^ 32) (sum_list parts)"
  by (simp add: checked_slot_sum_def slot_sum_from_value)

lemma saved_below_small:
  assumes "frame_total sch n slots \<le> max_function_frame_bytes" "i < slots"
  shows "saved_below sch n + 8 * (i + 1) + frame_entry sch \<le> frame_total sch n slots"
    "saved_below sch n + 8 * (i + 1) \<le> 2147483632"
proof -
  have "8 * (i + 1) \<le> 8 * slots" using assms(2) by simp
  then show "saved_below sch n + 8 * (i + 1) + frame_entry sch \<le> frame_total sch n slots"
    using total_covers[of sch n slots] by linarith
  then show "saved_below sch n + 8 * (i + 1) \<le> 2147483632" using assms(1) by (simp add: budget_small)
qed

text \<open>The offset from the frame pointer that the emitters write for a slot.\<close>

definition emitted_offset :: "saved_reg_scheme \<Rightarrow> frame_emitter \<Rightarrow> nat \<Rightarrow> int option" where
  "emitted_offset sch e slot = Option.bind (slot_offset_pre_saved slot) (\<lambda>offset. map_option fst
     (case sch of X86_64 \<Rightarrow> x86_64_adjust_fp_offset True offset e | Aarch64 \<Rightarrow> aarch64_adjust_fp_offset True offset e))"

lemma emitted_value:
  assumes "frame_total sch n slots \<le> max_function_frame_bytes" "i < slots" "n + 1 < 2 ^ 60" "emitter_callee_saved e = n"
  shows "emitted_offset sch e i = Some (- int (saved_below sch n + 8 * (i + 1)))"
proof -
  note s = saved_below_small(2)[OF assms(1,2)]
  have p: "slot_offset_pre_saved i = Some (- int (8 * (i + 1)))" using s by (simp add: pre_saved)
  show ?thesis
  proof (cases sch)
    case X86_64
    have "saved_area_bytes X86_64 n = Some (8 * n)" using saved_value[OF assms(3), of X86_64] by (simp add: frame_entry_def saved_below_def)
    then show ?thesis using s X86_64 assms(4)
      by (simp add: emitted_offset_def p x86_64_adjust_fp_offset_def note_frame_reference_def Let_def as_i32_small i32_ok_def saved_below_def)
  next
    case Aarch64
    have w: "wrap_i64 (int (pairs_bytes n)) = int (pairs_bytes n)" using s Aarch64 by (simp add: wrap_i64_def saved_below_def)
    show ?thesis using s Aarch64 assms(4) pairs_value[OF assms(3)]
      by (simp add: emitted_offset_def p aarch64_adjust_fp_offset_def note_frame_reference_def Let_def w i64_ok_def saved_below_def)
  qed
qed

text \<open>The offset that the layout itself reports for a slot lies lower by the pair of frame pointer and link register.\<close>

lemma reported_value:
  assumes "frame_total sch n cells \<le> max_function_frame_bytes" "i < cells"
  shows "slot_offset (framed sch n cells) i = Some (- int (frame_entry sch + saved_below sch n + 8 * (i + 1)))"
proof -
  note s = saved_below_small[OF assms]
  then have b: "frame_entry sch + saved_below sch n + 8 * (i + 1) \<le> 2147483632"
    using assms(1) unfolding budget_small by linarith
  then have "slot_offset_pre_saved i = Some (- int (8 * (i + 1)))" by (simp add: pre_saved)
  then show ?thesis using b by (simp add: slot_offset_def framed_def layout_saved_bytes_def as_i32_small i32_ok_def)
qed

lemma plan_value:
  assumes "n + 1 < 2 ^ 60" "cells = locals + spills + homed + of_bool sret"
  shows "plan_frame sch leaf locals spills homed sret n = Some (
      if 2 ^ 32 \<le> cells then Inl Frame_Budget_Exceeded
      else if cells = 0 \<and> leaf
        then Inr (0, \<lparr>layout_scheme = sch, layout_pointer = Pointer_Omitted, layout_saved = saved_below sch n, layout_slots = 0\<rparr>)
      else if frame_total sch n cells \<le> max_function_frame_bytes then Inr (locals + spills, framed sch n cells)
      else Inl Frame_Budget_Exceeded)"
proof -
  have f: "frameless sch n = Some \<lparr>layout_scheme = sch, layout_pointer = Pointer_Omitted, layout_saved = saved_below sch n, layout_slots = 0\<rparr>"
    using pairs_value[OF assms(1)] assms(1)
    by (cases sch) (simp_all add: frameless_def callee_saved_bytes_def saved_below_def u64_ok_def frame_sizes)
  show ?thesis
    by (auto simp: plan_frame_def slot_sum_value then_some_def assms(2) plan_frame_pointer_def f try_new_exact[OF assms(1)]
        split: frame_pointer.split)
qed

text \<open>
  C37. A frame is planned exactly when its size fits the budget and its slots fit 32 bits.  Its size is
  the pair of frame pointer and link register (AArch64), the saved registers (in pairs on AArch64)
  and the slots, rounded up by less than 16 bytes to a multiple of 16; the offset that the emitter
  writes for a slot puts its eight bytes below the saved registers and inside the frame, each slot
  in a cell of its own.  The layout reports the same offset on x86-64, and one that is 16 bytes
  lower on AArch64.  A leaf function without slots has no frame pointer, and a frame of saved
  registers only.
\<close>

theorem frame_plan_exact:
  fixes n locals spills homed :: nat and sret :: bool
  defines "cells \<equiv> locals + spills + homed + of_bool sret"
  assumes "n + 1 < 2 ^ 60"
  shows "case plan_frame sch leaf locals spills homed sret n of
      None \<Rightarrow> False
    | Some (Inl _) \<Rightarrow> 2 ^ 32 \<le> cells \<or> max_function_frame_bytes < frame_total sch n cells
    | Some (Inr (frame_locals, l)) \<Rightarrow> frame_locals = locals + spills
        \<and> (if cells = 0 \<and> leaf then layout_pointer l = Pointer_Omitted \<and> frame_size l = Some (saved_below sch n)
           else layout_pointer l = Established \<and> frame_total sch n cells \<le> max_function_frame_bytes
             \<and> frame_size l = Some (frame_total sch n cells) \<and> 16 dvd frame_total sch n cells
             \<and> frame_total sch n cells < frame_entry sch + saved_below sch n + 8 * cells + 16
             \<and> (\<forall>i < cells. \<forall>e. emitter_callee_saved e = n \<longrightarrow>
                 emitted_offset sch e i = Some (- int (saved_below sch n + 8 * (i + 1)))
                 \<and> slot_offset l i = Some (- int (frame_entry sch + saved_below sch n + 8 * (i + 1)))
                 \<and> frame_entry sch + saved_below sch n + 8 * (i + 1) \<le> frame_total sch n cells))"
proof -
  note p = plan_value[OF assms(2) meta_eq_to_obj_eq[OF cells_def], of sch leaf]
  consider "2 ^ 32 \<le> cells" | "cells < 2 ^ 32" "cells = 0 \<and> leaf"
    | "cells < 2 ^ 32" "\<not> (cells = 0 \<and> leaf)" "frame_total sch n cells \<le> max_function_frame_bytes"
    | "cells < 2 ^ 32" "\<not> (cells = 0 \<and> leaf)" "max_function_frame_bytes < frame_total sch n cells" by linarith
  then show ?thesis
  proof cases
    case 2
    moreover have "locals + spills = 0" using 2(2) by (simp add: cells_def)
    ultimately show ?thesis unfolding p by (simp add: frame_size_def)
  next
    case 3
    have "emitted_offset sch e i = Some (- int (saved_below sch n + 8 * (i + 1)))
        \<and> slot_offset (framed sch n cells) i = Some (- int (frame_entry sch + saved_below sch n + 8 * (i + 1)))
        \<and> frame_entry sch + saved_below sch n + 8 * (i + 1) \<le> frame_total sch n cells"
      if "i < cells" "emitter_callee_saved e = n" for i e
      using emitted_value[OF 3(3) that(1) assms(2) that(2)] reported_value[OF 3(3) that(1)] saved_below_small(1)[OF 3(3) that(1)] by simp
    then show ?thesis using 3 frame_size_value[OF 3(3)] total_aligned total_tight unfolding p
      by (simp add: framed_def) auto
  qed (auto simp: p)
qed

theorem frame_plan_exact_witness:
  "\<exists>l. plan_frame Aarch64 False 2 1 0 False 3 = Some (Inr (3, l)) \<and> frame_size l = Some 80
    \<and> emitted_offset Aarch64 \<lparr>emitter_callee_saved = 3, emitter_frameless = False, emitter_frame_reference = False\<rparr> 2 = Some (- 56)"
proof -
  let ?e = "\<lparr>emitter_callee_saved = 3, emitter_frameless = False, emitter_frame_reference = False\<rparr>"
  have n: "(3 :: nat) + 1 < 2 ^ 60" by simp
  have below: "saved_below Aarch64 3 = 32" "frame_entry Aarch64 = 16" by (simp_all add: saved_below_def pairs_bytes_def frame_entry_def)
  have size: "frame_total Aarch64 3 3 = 80" by (simp add: frame_total_def pairs_bytes_def round16_def)
  have run: "plan_frame Aarch64 False 2 1 0 False 3 = Some (Inr (3, framed Aarch64 3 3))"
    by (simp add: plan_value[OF n refl] size budget_small)
  have e: "emitter_callee_saved ?e = 3" by simp
  show ?thesis using frame_plan_exact[OF n, where sch = Aarch64 and leaf = False and locals = 2 and spills = 1 and homed = 0 and sret = False] e unfolding run by (auto simp: size below)
qed

end
