(* ===== verification/Type_Layout.thy ===== *)
theory Type_Layout
  imports Lowered_Signature
begin

text \<open>
  The physical layout of types (\<open>rue-air/src/intern_pool.rs\<close> with the shapes of \<open>layout.rs\<close>): how
  many slots a value decomposes into, its size and alignment in memory, where its fields lie, and
  which bytes are padding.

  A type is what the pool resolves it to: a leaf, or a structure, array or enum over the types of
  its parts.  By-value containment is acyclic, so such a type is a finite tree.  Sizes are \<open>u64\<close> and
  slot counts \<open>u32\<close>, saturating where the source saturates; the sums of leaf ranges do not
  overflow below the limit on the slots of a type (\<open>max_type_slots\<close>, of \<open>sema/typeck.rs\<close>).
\<close>

section \<open>Types\<close>

datatype leaf_type =
    I8_T | I16_T | I32_T | I64_T | U8_T | U16_T | U32_T | U64_T | Bool_T | F32_T | F64_T
  | Error_T | Ptr_Const_T | Ptr_Mut_T | Function_T
  | Unit_T | Never_T | Comptime_Type_T | Comptime_Float_T | Module_T

datatype rue_type =
    Leaf_T leaf_type
  | Struct_T "rue_type list"
  | Array_T rue_type nat
  | Enum_T "rue_type list list"

definition leaf_slot_count :: "leaf_type \<Rightarrow> nat" where
  "leaf_slot_count k = (case k of
      Unit_T \<Rightarrow> 0 | Never_T \<Rightarrow> 0 | Comptime_Type_T \<Rightarrow> 0 | Comptime_Float_T \<Rightarrow> 0 | Module_T \<Rightarrow> 0
    | _ \<Rightarrow> 1)"

definition sum_slots :: "nat list \<Rightarrow> nat" where
  "sum_slots ns = foldl sat_add_u32 0 ns"

fun abi_slot_count :: "rue_type \<Rightarrow> nat" where
  "abi_slot_count (Leaf_T k) = leaf_slot_count k"
| "abi_slot_count (Struct_T fs) = sum_slots (map abi_slot_count fs)"
| "abi_slot_count (Array_T element len) = saturate_u32 (sat_mul_u64 (abi_slot_count element) len)"
| "abi_slot_count (Enum_T variants) =
     sat_add_u32 1 (foldl max 0 (map (\<lambda>payload. sum_slots (map abi_slot_count payload)) variants))"

definition max_type_slots :: nat where
  "max_type_slots = (2 ^ 31 - 1) div 8"

section \<open>Aggregates from the sizes of their parts\<close>

record compact_aggregate =
  agg_size :: nat
  agg_align :: nat
  agg_offsets :: "nat list"
  agg_padding :: "(nat \<times> nat) list"

record compact_enum =
  tag_size :: nat
  tag_align :: nat
  payload_offset :: nat
  enum_size :: nat
  enum_align :: nat
  variant_offsets :: "nat list list"

definition layout_align_up :: "nat \<Rightarrow> nat \<Rightarrow> nat" where
  "layout_align_up offset align =
     (let bump = align - 1 in sat_add_u64 offset bump AND (2 ^ 64 - 1 - bump))"

definition place_field :: "nat list \<times> (nat \<times> nat) list \<times> nat \<times> nat \<Rightarrow> nat \<times> nat \<Rightarrow> nat list \<times> (nat \<times> nat) list \<times> nat \<times> nat" where
  "place_field st field =
     (case st of (offsets, padding, offset, alignment) \<Rightarrow> case field of (field_size, field_align) \<Rightarrow>
        let placed = layout_align_up offset field_align in
        (offsets @ [placed], if offset < placed then padding @ [(offset, placed)] else padding,
         sat_add_u64 placed field_size, max alignment field_align))"

definition compact_struct_layout :: "(nat \<times> nat) list \<Rightarrow> compact_aggregate" where
  "compact_struct_layout fs =
     (case foldl place_field ([], [], 0, 1) fs of (offsets, padding, offset, alignment) \<Rightarrow>
        let sz = layout_align_up offset alignment in
        \<lparr>agg_size = sz, agg_align = alignment, agg_offsets = offsets,
         agg_padding = (if offset < sz then padding @ [(offset, sz)] else padding)\<rparr>)"

definition place_payload :: "nat list \<times> nat \<times> nat \<Rightarrow> nat \<times> nat \<Rightarrow> nat list \<times> nat \<times> nat" where
  "place_payload st field =
     (case st of (offsets, offset, alignment) \<Rightarrow> case field of (field_size, field_align) \<Rightarrow>
        let placed = layout_align_up offset field_align in
        (offsets @ [placed], sat_add_u64 placed field_size, max alignment field_align))"

definition compact_variant_payload :: "(nat \<times> nat) list \<Rightarrow> nat list \<times> nat \<times> nat" where
  "compact_variant_payload payload = foldl place_payload ([], 0, 1) payload"

definition compact_enum_tag :: "nat \<Rightarrow> nat \<times> nat" where
  "compact_enum_tag variant_count =
     (let width = (if variant_count \<le> 256 then 1 else if variant_count \<le> 65536 then 2 else 4)
      in (width, width))"

definition compact_enum_layout :: "(nat \<times> nat) list list \<Rightarrow> compact_enum" where
  "compact_enum_layout variants =
     (case compact_enum_tag (length variants) of (tag_sz, tag_al) \<Rightarrow>
        let locals = map compact_variant_payload variants;
            payload_align = foldl max 1 (map (\<lambda>(_, _, align). align) locals);
            payload_size = foldl max 0 (map (\<lambda>(_, packed, _). packed) locals);
            payload = layout_align_up tag_sz payload_align;
            alignment = max tag_al payload_align
        in \<lparr>tag_size = tag_sz, tag_align = tag_al, payload_offset = payload,
            enum_size = layout_align_up (sat_add_u64 payload payload_size) alignment, enum_align = alignment,
            variant_offsets = map (\<lambda>(offsets, _, _). map (sat_add_u64 payload) offsets) locals\<rparr>)"

section \<open>Sizes and alignments\<close>

definition leaf_size_align :: "leaf_type \<Rightarrow> nat \<times> nat" where
  "leaf_size_align k = (case k of
      I8_T \<Rightarrow> (1, 1) | U8_T \<Rightarrow> (1, 1) | Bool_T \<Rightarrow> (1, 1)
    | I16_T \<Rightarrow> (2, 2) | U16_T \<Rightarrow> (2, 2)
    | I32_T \<Rightarrow> (4, 4) | U32_T \<Rightarrow> (4, 4) | F32_T \<Rightarrow> (4, 4)
    | I64_T \<Rightarrow> (8, 8) | U64_T \<Rightarrow> (8, 8) | F64_T \<Rightarrow> (8, 8)
    | Ptr_Const_T \<Rightarrow> (8, 8) | Ptr_Mut_T \<Rightarrow> (8, 8) | Function_T \<Rightarrow> (8, 8) | Error_T \<Rightarrow> (8, 8)
    | Unit_T \<Rightarrow> (0, 1) | Never_T \<Rightarrow> (0, 1) | Comptime_Type_T \<Rightarrow> (0, 1) | Comptime_Float_T \<Rightarrow> (0, 1) | Module_T \<Rightarrow> (0, 1))"

definition normalized :: "nat \<times> nat \<Rightarrow> nat \<times> nat" where
  "normalized sa = (if fst sa = 0 then (0, 1) else sa)"

fun compact_size_align :: "rue_type \<Rightarrow> nat \<times> nat" where
  "compact_size_align (Leaf_T k) = normalized (leaf_size_align k)"
| "compact_size_align (Struct_T fs) =
     (let l = compact_struct_layout (map compact_size_align fs) in normalized (agg_size l, agg_align l))"
| "compact_size_align (Array_T element len) =
     (case compact_size_align element of (element_size, element_align) \<Rightarrow>
        normalized (sat_mul_u64 element_size len, max element_align 1))"
| "compact_size_align (Enum_T variants) =
     (let l = compact_enum_layout (map (map compact_size_align) variants) in normalized (enum_size l, enum_align l))"

definition struct_layout :: "rue_type list \<Rightarrow> compact_aggregate" where
  "struct_layout fs = compact_struct_layout (map compact_size_align fs)"

definition enum_layout :: "rue_type list list \<Rightarrow> compact_enum" where
  "enum_layout variants = compact_enum_layout (map (map compact_size_align) variants)"

definition size_of :: "rue_type \<Rightarrow> nat" where "size_of t = fst (compact_size_align t)"

definition align_of :: "rue_type \<Rightarrow> nat" where "align_of t = snd (compact_size_align t)"

section \<open>Offsets\<close>

definition struct_field_offset :: "rue_type list \<Rightarrow> nat \<Rightarrow> nat" where
  "struct_field_offset fs i =
     (let offsets = agg_offsets (struct_layout fs) in if i < length offsets then offsets ! i else 0)"

definition enum_payload_field_offset :: "rue_type list list \<Rightarrow> nat \<Rightarrow> nat \<Rightarrow> nat" where
  "enum_payload_field_offset variants v i =
     (let l = enum_layout variants in
      if v < length (variant_offsets l) \<and> i < length (variant_offsets l ! v) then variant_offsets l ! v ! i
      else payload_offset l)"

definition struct_field_slot_offset :: "rue_type list \<Rightarrow> nat \<Rightarrow> nat" where
  "struct_field_slot_offset fs i = sum_slots (map abi_slot_count (take i fs))"

definition enum_payload_slot_offset :: "rue_type list list \<Rightarrow> nat \<Rightarrow> nat \<Rightarrow> nat" where
  "enum_payload_slot_offset variants v i =
     foldl sat_add_u32 1 (map abi_slot_count (take i (if v < length variants then variants ! v else [])))"

section \<open>Layouts\<close>

datatype layout =
    Layout (layout_size: nat) (layout_align: nat) (layout_stride: nat) (layout_kind: layout_kind)
and layout_kind =
    Scalar_Kind
  | Array_Kind layout nat
  | Struct_Kind "nat list" "(nat \<times> nat) list"
  | Enum_Kind layout nat "nat list list"

fun compact_layout_of :: "rue_type \<Rightarrow> layout" where
  "compact_layout_of (Leaf_T k) =
     (case compact_size_align (Leaf_T k) of (sz, align) \<Rightarrow> Layout sz align sz Scalar_Kind)"
| "compact_layout_of (Struct_T fs) =
     (case compact_size_align (Struct_T fs) of (sz, align) \<Rightarrow>
        let l = struct_layout fs in Layout sz align sz (Struct_Kind (agg_offsets l) (agg_padding l)))"
| "compact_layout_of (Array_T element len) =
     (case compact_size_align (Array_T element len) of (sz, align) \<Rightarrow>
        Layout sz align sz (Array_Kind (compact_layout_of element) len))"
| "compact_layout_of (Enum_T variants) =
     (case compact_size_align (Enum_T variants) of (sz, align) \<Rightarrow>
        let l = enum_layout variants in
        Layout sz align sz (Enum_Kind (Layout (tag_size l) (tag_align l) (tag_size l) Scalar_Kind)
          (payload_offset l) (variant_offsets l)))"

section \<open>Padding\<close>

text \<open>The byte ranges of the leaves of a type placed at a base.\<close>

fun leaf_ranges :: "rue_type \<Rightarrow> nat \<Rightarrow> (nat \<times> nat) list"
  and field_ranges :: "rue_type list \<Rightarrow> nat list \<Rightarrow> nat \<Rightarrow> (nat \<times> nat) list"
  and variant_ranges :: "rue_type list list \<Rightarrow> nat list list \<Rightarrow> nat \<Rightarrow> (nat \<times> nat) list" where
  "leaf_ranges (Leaf_T k) base =
     (let sz = size_of (Leaf_T k) in if 0 < sz then [(base, base + sz)] else [])"
| "leaf_ranges (Struct_T fs) base = field_ranges fs (agg_offsets (struct_layout fs)) base"
| "leaf_ranges (Array_T element len) base =
     concat (map (\<lambda>k. leaf_ranges element (base + k * size_of element)) [0..<len])"
| "leaf_ranges (Enum_T variants) base =
     (let l = enum_layout variants in
      (base, base + tag_size l) # variant_ranges variants (variant_offsets l) base)"
| "field_ranges (field # fs) (offset # offsets) base =
     leaf_ranges field (base + offset) @ field_ranges fs offsets base"
| "field_ranges fs offsets base = []"
| "variant_ranges (payload # payloads) (offsets # rest) base =
     field_ranges payload offsets base @ variant_ranges payloads rest base"
| "variant_ranges payloads offsets base = []"

definition padding_step :: "(nat \<times> nat) list \<times> nat \<Rightarrow> nat \<times> nat \<Rightarrow> (nat \<times> nat) list \<times> nat" where
  "padding_step st r =
     (case st of (ranges, cursor) \<Rightarrow> case r of (start, end) \<Rightarrow>
        (if cursor < start then ranges @ [(cursor, start)] else ranges, max cursor end))"

definition compact_image_padding_ranges :: "rue_type \<Rightarrow> (nat \<times> nat) list" where
  "compact_image_padding_ranges t =
     (if size_of t = 0 then []
      else case foldl padding_step ([], 0) (sort_key fst (leaf_ranges t 0)) of
        (ranges, cursor) \<Rightarrow> if cursor < size_of t then ranges @ [(cursor, size_of t)] else ranges)"

end
