(* ===== verification/Layout_Facts.thy ===== *)
theory Layout_Facts
  imports Type_Layout Argument_Placement
begin

text \<open>
  Layouts are sound: sizes are multiples of alignments, parts lie apart, in order and aligned, an
  image is at most eight bytes for each slot of its value, and the padding is exactly the bytes
  that no leaf covers.
\<close>

section \<open>Rounding\<close>

definition natural_aligns :: "nat set" where
  "natural_aligns = {1, 2, 4, 8}"

lemma natural_cases: "a \<in> natural_aligns \<Longrightarrow> a = 1 \<or> a = 2 \<or> a = 4 \<or> a = 8"
  by (auto simp: natural_aligns_def)

lemma natural_one [simp]: "1 \<in> natural_aligns" "Suc 0 \<in> natural_aligns"
  by (simp_all add: natural_aligns_def)

lemma natural_facts:
  assumes "a \<in> natural_aligns"
  shows "0 < a" "a \<le> 8" "a dvd 8"
  using natural_cases[OF assms] by auto

lemma natural_dvd: "a \<in> natural_aligns \<Longrightarrow> b \<in> natural_aligns \<Longrightarrow> a \<le> b \<Longrightarrow> a dvd b"
  by (auto simp: natural_aligns_def)

lemma natural_max: "a \<in> natural_aligns \<Longrightarrow> b \<in> natural_aligns \<Longrightarrow> max a b \<in> natural_aligns"
  by (simp add: max_def)

lemma align_up_div:
  assumes "a \<in> natural_aligns"
  shows "layout_align_up v a = min (v + (a - 1)) (2 ^ 64 - 1) div a * a"
proof -
  obtain k where k: "a = 2 ^ k" "k \<le> 64"
  proof -
    have "a = 2 ^ 0 \<or> a = 2 ^ 1 \<or> a = 2 ^ 2 \<or> a = 2 ^ 3" using natural_cases[OF assms] by simp
    then show thesis using that[of 0] that[of 1] that[of 2] that[of 3] by auto
  qed
  have "sat_add_u64 v (a - 1) = min (v + (a - 1)) (2 ^ 64 - 1)" by (simp add: sat_add_u64_def max_u64_def)
  moreover have "min (v + (a - 1)) (2 ^ 64 - 1) < (2 :: nat) ^ 64" by simp
  ultimately show ?thesis using clear_low_bits[of "min (v + (a - 1)) (2 ^ 64 - 1)" k] k
    by (simp add: layout_align_up_def Let_def)
qed

lemma align_up_exact:
  assumes "a \<in> natural_aligns" "v < 2 ^ 62"
  shows "v \<le> layout_align_up v a" "layout_align_up v a < v + a" "a dvd layout_align_up v a"
proof -
  have e: "layout_align_up v a = (v + (a - 1)) div a * a"
    using assms natural_facts(2)[OF assms(1)] by (simp add: align_up_div min_def)
  show "a dvd layout_align_up v a" by (simp add: e)
  have "(v + (a - 1)) mod a < a" using natural_facts(1)[OF assms(1)] by simp
  moreover have "(v + (a - 1)) div a * a + (v + (a - 1)) mod a = v + (a - 1)" by simp
  ultimately show "v \<le> layout_align_up v a" "layout_align_up v a < v + a"
    unfolding e using natural_facts(1)[OF assms(1)] by linarith+
qed

lemma align_up_le:
  assumes "a \<in> natural_aligns" "v \<le> m" "a dvd m" "m < 2 ^ 62"
  shows "layout_align_up v a \<le> m"
proof (rule ccontr)
  assume "\<not> layout_align_up v a \<le> m"
  then have l: "m < layout_align_up v a" by simp
  have "v < 2 ^ 62" using assms(2,4) by simp
  note u = align_up_exact[OF assms(1) this]
  have "m + a \<le> layout_align_up v a"
    using l assms(3) u(3) by (auto elim!: dvdE simp: mult_less_cancel1) (metis Suc_leI mult_Suc_right mult_le_mono2 add.commute)
  then show False using u(2) assms(2) by linarith
qed

lemma align_up_large: "a \<in> natural_aligns \<Longrightarrow> 2 ^ 62 \<le> v \<Longrightarrow> 2 ^ 62 \<le> layout_align_up v a"
  using natural_cases[of a] by (auto simp: align_up_div min_def)

section \<open>Sums and maxima\<close>

lemma sum_slots_from: "foldl sat_add_u32 (min k max_u32) ns = min (k + sum_list ns) max_u32"
proof (induction ns arbitrary: k)
  case (Cons n ns)
  have "sat_add_u32 (min k max_u32) n = min (k + n) max_u32" by (simp add: sat_add_u32_def)
  then show ?case using Cons.IH[of "k + n"] by (simp add: add.assoc)
qed simp

lemma sum_slots_eq: "sum_slots ns = min (sum_list ns) max_u32"
  using sum_slots_from[of 0 ns] by (simp add: sum_slots_def)

lemma foldl_max:
  fixes a :: nat
  shows "a \<le> foldl max a xs" "x \<in> set xs \<Longrightarrow> x \<le> foldl max a xs" "foldl max a xs = a \<or> foldl max a xs \<in> set xs"
proof (induction xs arbitrary: a)
  case (Cons y ys)
  { case 1 show ?case using Cons.IH(1)[of "max a y"] by simp }
  { case 2 show ?case using 2 Cons.IH(1)[of "max a y"] Cons.IH(2)[of "max a y"] by auto }
  { case 3 show ?case using Cons.IH(3)[of "max a y"] by (auto simp: max_def split: if_splits) }
qed simp_all

lemma foldl_max_le: "(\<And>x. x \<in> set xs \<Longrightarrow> x \<le> m) \<Longrightarrow> a \<le> m \<Longrightarrow> foldl max a xs \<le> (m :: nat)"
  using foldl_max(3)[of a xs] by metis

lemma foldl_max_natural:
  assumes "a \<in> natural_aligns" "\<And>x. x \<in> set xs \<Longrightarrow> x \<in> natural_aligns"
  shows "foldl max a xs \<in> natural_aligns"
  using foldl_max(3)[of a xs] assms by metis

section \<open>Placing parts\<close>

lemma place_payload_pair [simp]:
  "place_payload (offs, lo, al) (s, a) = (offs @ [layout_align_up lo a], sat_add_u64 (layout_align_up lo a) s, max al a)"
  by (simp add: place_payload_def Let_def)

lemma place_field_payload:
  "foldl place_field (offs, pad, lo, al) fs = (offs', pad', hi, al')
    \<Longrightarrow> foldl place_payload (offs, lo, al) fs = (offs', hi, al')"
proof (induction fs arbitrary: offs pad lo al)
  case (Cons f fs)
  then show ?case by (cases f) (simp add: place_field_def Let_def)
qed simp

lemma payload_align: "foldl place_payload (offs, lo, al) fs = (offs', hi, al')
    \<Longrightarrow> al' = foldl max al (map snd fs) \<and> length offs' = length offs + length fs"
proof (induction fs arbitrary: offs lo al)
  case (Cons f fs)
  then show ?case by (cases f) auto
qed simp

lemma payload_small:
  assumes "foldl place_payload (offs, lo, al) fs = (offs', hi, al')" "hi < 2 ^ 62"
    "\<And>f. f \<in> set fs \<Longrightarrow> snd f \<in> natural_aligns"
  shows "lo < 2 ^ 62"
  using assms
proof (induction fs arbitrary: offs lo al)
  case (Cons f fs)
  obtain s a where f: "f = (s, a)" by (cases f)
  have a: "a \<in> natural_aligns" using Cons.prems(3)[of f] f by simp
  have step: "foldl place_payload (offs @ [layout_align_up lo a], sat_add_u64 (layout_align_up lo a) s, max al a) fs = (offs', hi, al')"
    using Cons.prems(1) by (simp add: f)
  have "sat_add_u64 (layout_align_up lo a) s < 2 ^ 62"
    by (rule Cons.IH[OF step Cons.prems(2)]) (simp add: Cons.prems(3))
  then have "layout_align_up lo a < 2 ^ 62" by (auto simp: sat_add_u64_def max_u64_def)
  then show ?case using align_up_large[OF a, of lo] by linarith
qed simp

lemma payload_spans:
  assumes "foldl place_payload (offs, lo, al) fs = (offs', hi, al')" "hi < 2 ^ 62"
    "\<And>f. f \<in> set fs \<Longrightarrow> snd f \<in> natural_aligns"
  shows "\<exists>new. offs' = offs @ new \<and> length new = length fs \<and> ordered_spans lo (zip new (map fst fs)) hi
    \<and> list_all2 (\<lambda>p f. snd f dvd p) new fs"
  using assms
proof (induction fs arbitrary: offs lo al)
  case (Cons f fs)
  obtain s a where f: "f = (s, a)" by (cases f)
  have a: "a \<in> natural_aligns" using Cons.prems(3)[of f] f by simp
  let ?p = "layout_align_up lo a"
  have step: "foldl place_payload (offs @ [?p], sat_add_u64 ?p s, max al a) fs = (offs', hi, al')"
    using Cons.prems(1) by (simp add: f)
  have small: "sat_add_u64 ?p s < 2 ^ 62" using payload_small[OF step Cons.prems(2)] Cons.prems(3) by simp
  then have e: "sat_add_u64 ?p s = ?p + s" by (auto simp: sat_add_u64_def max_u64_def min_def split: if_splits)
  have "lo < 2 ^ 62" using payload_small[OF Cons.prems] by simp
  note u = align_up_exact[OF a this]
  obtain new where n: "offs' = (offs @ [?p]) @ new" "length new = length fs"
    "ordered_spans (?p + s) (zip new (map fst fs)) hi" "list_all2 (\<lambda>p f. snd f dvd p) new fs"
    using Cons.IH[OF step Cons.prems(2)] Cons.prems(3) by (auto simp: e)
  then show ?case using u by (intro exI[of _ "?p # new"]) (auto simp: f)
qed simp

lemma payload_bounded:
  assumes "foldl place_payload (offs, lo, al) fs = (offs', hi, al')"
    "list_all2 (\<lambda>f n. fst f \<le> 8 * n \<and> snd f \<in> natural_aligns) fs ns" "lo \<le> 8 * k" "k + sum_list ns < 2 ^ 32"
  shows "hi \<le> 8 * (k + sum_list ns)"
  using assms
proof (induction fs arbitrary: offs lo al k ns)
  case (Cons f fs)
  obtain s a where f: "f = (s, a)" by (cases f)
  obtain n ns' where ns: "ns = n # ns'" using Cons.prems(2) by (cases ns) auto
  have s: "s \<le> 8 * n" "a \<in> natural_aligns" using Cons.prems(2) by (auto simp: f ns)
  let ?p = "layout_align_up lo a"
  have p: "?p \<le> 8 * k"
    using natural_facts(3)[OF s(2)] Cons.prems(3,4) by (intro align_up_le[OF s(2)]) auto
  have "sat_add_u64 ?p s \<le> 8 * (k + n)" using p s(1) by (simp add: sat_add_u64_def)
  then have "hi \<le> 8 * ((k + n) + sum_list ns')"
    using Cons.prems by (intro Cons.IH[of "offs @ [?p]" _ "max al a" ns' "k + n"]) (simp_all add: f ns add.assoc)
  then show ?case by (simp add: ns add.assoc)
qed auto

section \<open>Sizes of types\<close>

text \<open>The types that semantic analysis admits; below its limit no count saturates.\<close>

definition sized :: "rue_type \<Rightarrow> bool" where
  "sized t \<longleftrightarrow> abi_slot_count t \<le> max_type_slots"

lemmas slot_limits = max_type_slots_def max_u32_def

lemma sized_u32: "sized t \<Longrightarrow> abi_slot_count t < max_u32"
  by (simp add: sized_def slot_limits)

lemma normalized_natural: "snd sa \<in> natural_aligns \<Longrightarrow> snd (normalized sa) \<in> natural_aligns"
  by (cases sa) (simp add: normalized_def natural_aligns_def)

lemma struct_parts:
  obtains offs pad hi al where
    "foldl place_payload ([], 0, 1) fs = (offs, hi, al)"
    "compact_struct_layout fs = \<lparr>agg_size = layout_align_up hi al, agg_align = al, agg_offsets = offs,
       agg_padding = (if hi < layout_align_up hi al then pad @ [(hi, layout_align_up hi al)] else pad)\<rparr>"
    "foldl place_field ([], [], 0, 1) fs = (offs, pad, hi, al)"
proof -
  obtain offs pad hi al where "foldl place_field ([], [], 0, 1) fs = (offs, pad, hi, al)" by (metis prod_cases4)
  then show thesis using that place_field_payload by (auto simp: compact_struct_layout_def Let_def)
qed

definition payload_aligns :: "(nat \<times> nat) list list \<Rightarrow> nat" where
  "payload_aligns variants = foldl max 1 (map (\<lambda>v. foldl max 1 (map snd v)) variants)"

definition payload_sizes :: "(nat \<times> nat) list list \<Rightarrow> nat" where
  "payload_sizes variants = foldl max 0 (map (\<lambda>v. fst (snd (compact_variant_payload v))) variants)"

lemma variant_align: "snd (snd (compact_variant_payload v)) = foldl max 1 (map snd v)"
  using payload_align[of "[]" 0 1 v] by (cases "compact_variant_payload v") (simp add: compact_variant_payload_def)

lemma enum_parts:
  "compact_enum_layout variants =
     (let tag = fst (compact_enum_tag (length variants)); payload = layout_align_up tag (payload_aligns variants);
          align = max tag (payload_aligns variants)
      in \<lparr>tag_size = tag, tag_align = tag, payload_offset = payload,
          enum_size = layout_align_up (sat_add_u64 payload (payload_sizes variants)) align, enum_align = align,
          variant_offsets = map (\<lambda>v. map (sat_add_u64 payload) (fst (compact_variant_payload v))) variants\<rparr>)"
proof -
  obtain w where w: "compact_enum_tag (length variants) = (w, w)" by (simp add: compact_enum_tag_def Let_def)
  have "map (\<lambda>(_, _, align). align) (map compact_variant_payload variants) = map (\<lambda>v. foldl max 1 (map snd v)) variants"
    "map (\<lambda>(_, packed, _). packed) (map compact_variant_payload variants) = map (\<lambda>v. fst (snd (compact_variant_payload v))) variants"
    "map (\<lambda>(offsets, _, _). map (sat_add_u64 p) offsets) (map compact_variant_payload variants)
      = map (\<lambda>v. map (sat_add_u64 p) (fst (compact_variant_payload v))) variants" for p
    by (auto simp: split_beta variant_align simp del: One_nat_def)
  then show ?thesis
    by (simp only: compact_enum_layout_def w Let_def prod.case payload_aligns_def[symmetric] payload_sizes_def[symmetric] fst_conv)
qed

lemma tag_natural: "fst (compact_enum_tag n) \<in> natural_aligns" "fst (compact_enum_tag n) \<le> 4" "fst (compact_enum_tag n) \<in> {1, 2, 4}"
  by (simp_all add: compact_enum_tag_def natural_aligns_def Let_def)

lemma payload_aligns_natural:
  "(\<And>v f. v \<in> set variants \<Longrightarrow> f \<in> set v \<Longrightarrow> snd f \<in> natural_aligns) \<Longrightarrow> payload_aligns variants \<in> natural_aligns"
  unfolding payload_aligns_def by (intro foldl_max_natural natural_one(1)) (auto intro!: foldl_max_natural)

lemma align_natural: "align_of t \<in> natural_aligns"
proof (induction t rule: compact_size_align.induct)
  case (1 k)
  then show ?case by (simp add: align_of_def leaf_size_align_def normalized_def natural_aligns_def split: leaf_type.split)
next
  case (2 fs)
  obtain offs hi al pad where s: "foldl place_payload ([], 0, 1) (map compact_size_align fs) = (offs, hi, al)"
    "agg_align (compact_struct_layout (map compact_size_align fs)) = al"
    by (rule struct_parts[of "map compact_size_align fs"]) auto
  have "al = foldl max 1 (map snd (map compact_size_align fs))" using payload_align[OF s(1)] by simp
  moreover have "foldl max 1 (map snd (map compact_size_align fs)) \<in> natural_aligns"
    using 2 by (intro foldl_max_natural) (auto simp: natural_aligns_def align_of_def)
  ultimately show ?case using s(2) by (simp add: align_of_def Let_def normalized_natural)
next
  case (3 element len)
  then show ?case
    by (cases "compact_size_align element") (auto simp: align_of_def max_def intro!: normalized_natural)
next
  case (4 variants)
  have "payload_aligns (map (map compact_size_align) variants) \<in> natural_aligns"
  proof (rule payload_aligns_natural)
    fix v f assume "v \<in> set (map (map compact_size_align) variants)" "f \<in> set v"
    then obtain payload t where "payload \<in> set variants" "t \<in> set payload" "f = compact_size_align t" by auto
    then show "snd f \<in> natural_aligns" using 4[of payload t] by (simp add: align_of_def)
  qed
  then show ?case using tag_natural(1)
    by (simp add: align_of_def Let_def enum_parts normalized_natural natural_max)
qed

lemma size_zero_align: "size_of t = 0 \<Longrightarrow> align_of t = 1"
  by (cases t) (auto simp: size_of_def align_of_def normalized_def Let_def split: prod.splits if_splits)

text \<open>The parts of a sized type are sized; those of an empty array need not be.\<close>

lemma sum_slots_member: "x \<in> set xs \<Longrightarrow> sum_slots (map abi_slot_count xs) \<le> max_type_slots \<Longrightarrow> sized x"
  using member_le_sum_list[of "abi_slot_count x" "map abi_slot_count xs"] by (auto simp: sum_slots_eq sized_def slot_limits)

lemma sized_field: "sized (Struct_T fs) \<Longrightarrow> f \<in> set fs \<Longrightarrow> sized f"
  using sum_slots_member by (simp add: sized_def[of "Struct_T fs"])

lemma sized_struct: "sized (Struct_T fs) \<Longrightarrow> abi_slot_count (Struct_T fs) = sum_list (map abi_slot_count fs)"
  by (auto simp: sized_def sum_slots_eq slot_limits min_def split: if_splits)

lemma sized_array:
  assumes "sized (Array_T element len)" "0 < len"
  shows "sized element" "abi_slot_count (Array_T element len) = abi_slot_count element * len"
proof -
  have "saturate_u32 (sat_mul_u64 (abi_slot_count element) len) \<le> max_type_slots" using assms(1) by (simp add: sized_def)
  then have s: "abi_slot_count element * len \<le> max_type_slots"
    by (auto simp: saturate_u32_def sat_mul_u64_def slot_limits max_u64_def min_def split: if_splits)
  then show "abi_slot_count (Array_T element len) = abi_slot_count element * len"
    by (simp add: saturate_u32_def sat_mul_u64_def slot_limits max_u64_def)
  have "abi_slot_count element \<le> abi_slot_count element * len" using assms(2) by (cases len) simp_all
  then show "sized element" unfolding sized_def using s by (rule le_trans)
qed

lemma sized_enum:
  assumes "sized (Enum_T variants)"
  shows "payload \<in> set variants \<Longrightarrow> sum_list (map abi_slot_count payload) < abi_slot_count (Enum_T variants)"
    "payload \<in> set variants \<Longrightarrow> f \<in> set payload \<Longrightarrow> sized f"
    "0 < abi_slot_count (Enum_T variants)"
proof -
  let ?m = "foldl max 0 (map (\<lambda>payload. sum_slots (map abi_slot_count payload)) variants)"
  have m: "1 + ?m \<le> max_type_slots" "abi_slot_count (Enum_T variants) = 1 + ?m"
    using assms by (auto simp: sized_def sat_add_u32_def min_def slot_limits split: if_splits)
  have p: "sum_slots (map abi_slot_count payload) \<le> ?m" if "payload \<in> set variants" for payload
    using that foldl_max(2)[of "sum_slots (map abi_slot_count payload)" "map (\<lambda>payload. sum_slots (map abi_slot_count payload)) variants" 0] by simp
  { assume v: "payload \<in> set variants"
    have "min (sum_list (map abi_slot_count payload)) max_u32 \<le> ?m" using p[OF v] by (simp add: sum_slots_eq)
    then show "sum_list (map abi_slot_count payload) < abi_slot_count (Enum_T variants)"
      using m by (auto simp: min_def slot_limits split: if_splits) }
  { assume v: "payload \<in> set variants" "f \<in> set payload"
    show "sized f" using p[OF v(1)] m(1) by (intro sum_slots_member[OF v(2)]) simp }
  show "0 < abi_slot_count (Enum_T variants)" using m(2) by simp
qed

lemma fields_all2:
  assumes "\<And>f. f \<in> set fs \<Longrightarrow> size_of f \<le> 8 * abi_slot_count f"
  shows "list_all2 (\<lambda>f n. fst f \<le> 8 * n \<and> snd f \<in> natural_aligns) (map compact_size_align fs) (map abi_slot_count fs)"
  using assms align_natural by (auto simp: list_all2_conv_all_nth size_of_def align_of_def)

lemma fields_natural: "f \<in> set (map compact_size_align fs) \<Longrightarrow> snd f \<in> natural_aligns"
  using align_natural by (auto simp: align_of_def)

lemma fields_bounded:
  assumes "foldl place_payload ([], 0, 1) (map compact_size_align fs) = (offs, hi, al)"
    "\<And>f. f \<in> set fs \<Longrightarrow> size_of f \<le> 8 * abi_slot_count f" "sum_list (map abi_slot_count fs) < max_u32"
  shows "hi \<le> 8 * sum_list (map abi_slot_count fs)" "hi < 2 ^ 62" "al \<in> natural_aligns"
proof -
  show "hi \<le> 8 * sum_list (map abi_slot_count fs)"
    using payload_bounded[OF assms(1) fields_all2[OF assms(2)], of 0] assms(3) by (simp add: max_u32_def)
  then show "hi < 2 ^ 62" using assms(3) by (simp add: max_u32_def)
  have "al = foldl max 1 (map snd (map compact_size_align fs))" using payload_align[OF assms(1)] by simp
  then show "al \<in> natural_aligns" using align_natural by (auto intro!: foldl_max_natural simp: align_of_def)
qed

lemma size_bounded: "sized t \<Longrightarrow> size_of t \<le> 8 * abi_slot_count t"
proof (induction t rule: compact_size_align.induct)
  case (1 k)
  then show ?case by (simp add: size_of_def leaf_size_align_def normalized_def leaf_slot_count_def split: leaf_type.split)
next
  case (2 fs)
  obtain offs pad hi al where s: "foldl place_payload ([], 0, 1) (map compact_size_align fs) = (offs, hi, al)"
    "agg_size (compact_struct_layout (map compact_size_align fs)) = layout_align_up hi al"
    by (rule struct_parts[of "map compact_size_align fs"]) auto
  have ih: "size_of f \<le> 8 * abi_slot_count f" if "f \<in> set fs" for f using 2 sized_field that by blast
  have n: "sum_list (map abi_slot_count fs) < max_u32" using sized_u32[OF 2(2)] sized_struct[OF 2(2)] by simp
  note b = fields_bounded[OF s(1) ih n]
  have "layout_align_up hi al \<le> 8 * sum_list (map abi_slot_count fs)"
    using b natural_facts(3)[OF b(3)] n by (intro align_up_le[OF b(3)]) (auto simp: max_u32_def)
  moreover have "size_of (Struct_T fs) \<le> layout_align_up hi al" by (simp add: size_of_def normalized_def Let_def s(2))
  ultimately show ?case using sized_struct[OF 2(2)] by simp
next
  case (3 element len)
  show ?case
  proof (cases "len = 0")
    case True
    then show ?thesis by (simp add: size_of_def normalized_def sat_mul_u64_def split: prod.split)
  next
    case False
    then have l: "0 < len" by simp
    have "size_of (Array_T element len) \<le> size_of element * len"
      by (auto simp: size_of_def normalized_def sat_mul_u64_def split: prod.split)
    also have "\<dots> \<le> 8 * abi_slot_count element * len" using 3(1)[OF sized_array(1)[OF 3(2) l]] by simp
    finally show ?thesis using sized_array(2)[OF 3(2) l] by simp
  qed
next
  case (4 variants)
  let ?vs = "map (map compact_size_align) variants" and ?n = "abi_slot_count (Enum_T variants)"
  let ?tag = "fst (compact_enum_tag (length ?vs))" and ?al = "payload_aligns ?vs"
  have al: "?al \<in> natural_aligns" by (rule payload_aligns_natural) (auto intro: fields_natural)
  have n: "?n < max_u32" "0 < ?n" using sized_u32[OF 4(2)] sized_enum(3)[OF 4(2)] by simp_all
  have sz: "fst (snd (compact_variant_payload v)) \<le> 8 * (?n - 1)" if v: "v \<in> set ?vs" for v
  proof -
    obtain payload where p: "payload \<in> set variants" "v = map compact_size_align payload" using v by auto
    obtain offs hi a where h: "foldl place_payload ([], 0, 1) v = (offs, hi, a)" by (metis prod_cases3)
    have ih: "size_of f \<le> 8 * abi_slot_count f" if "f \<in> set payload" for f using 4(1)[OF p(1) that sized_enum(2)[OF 4(2) p(1) that]] .
    have s: "sum_list (map abi_slot_count payload) < ?n" using sized_enum(1)[OF 4(2) p(1)] .
    have "hi \<le> 8 * sum_list (map abi_slot_count payload)"
      by (rule fields_bounded(1)[OF h[unfolded p(2)] ih]) (use s n(1) in linarith)+
    then show ?thesis using h s by (simp add: compact_variant_payload_def)
  qed
  have pay: "payload_sizes ?vs \<le> 8 * (?n - 1)"
    unfolding payload_sizes_def using sz by (intro foldl_max_le) auto
  have off: "layout_align_up ?tag ?al \<le> 8"
    using tag_natural(2)[of "length ?vs"] natural_facts(3)[OF al] by (intro align_up_le[OF al]) auto
  have a: "max ?tag ?al \<in> natural_aligns" using al tag_natural(1) by (simp add: natural_max)
  have "sat_add_u64 (layout_align_up ?tag ?al) (payload_sizes ?vs) \<le> 8 * ?n"
    using pay off n(2) by (simp add: sat_add_u64_def)
  then have "layout_align_up (sat_add_u64 (layout_align_up ?tag ?al) (payload_sizes ?vs)) (max ?tag ?al) \<le> 8 * ?n"
    using natural_facts(3)[OF a] n(1) by (intro align_up_le[OF a]) (auto simp: max_u32_def)
  moreover have "size_of (Enum_T variants) \<le> layout_align_up (sat_add_u64 (layout_align_up ?tag ?al) (payload_sizes ?vs)) (max ?tag ?al)"
    by (simp add: size_of_def normalized_def enum_parts Let_def)
  ultimately show ?case by simp
qed

lemma size_small: "sized t \<Longrightarrow> size_of t < 2 ^ 31"
  using size_bounded[of t] by (simp add: sized_def slot_limits)

section \<open>Where the parts of a type lie\<close>

lemma fst_sizes: "map fst (map compact_size_align fs) = map size_of fs"
  by (simp add: size_of_def)

lemma ordered_spans_within: "ordered_spans lo spans hi \<Longrightarrow> (s, n) \<in> set spans \<Longrightarrow> lo \<le> s \<and> s + n \<le> hi"
  by (induction lo spans hi rule: ordered_spans.induct) (auto dest: ordered_spans_le)

lemma ordered_spans_shift:
  "ordered_spans lo spans hi \<Longrightarrow> ordered_spans (b + lo) (map (\<lambda>(s, n). (b + s, n)) spans) (b + hi)"
  by (induction lo spans hi rule: ordered_spans.induct) (auto simp: add.assoc)

lemma struct_fields:
  assumes "sized (Struct_T fs)"
  shows "length (agg_offsets (struct_layout fs)) = length fs"
    "ordered_spans 0 (zip (agg_offsets (struct_layout fs)) (map size_of fs)) (size_of (Struct_T fs))"
    "list_all2 (\<lambda>p f. align_of f dvd p) (agg_offsets (struct_layout fs)) fs"
    "align_of (Struct_T fs) dvd size_of (Struct_T fs)"
proof -
  obtain offs pad hi al where s: "foldl place_payload ([], 0, 1) (map compact_size_align fs) = (offs, hi, al)"
    "struct_layout fs = \<lparr>agg_size = layout_align_up hi al, agg_align = al, agg_offsets = offs,
       agg_padding = (if hi < layout_align_up hi al then pad @ [(hi, layout_align_up hi al)] else pad)\<rparr>"
    by (rule struct_parts[of "map compact_size_align fs"]) (auto simp: struct_layout_def)
  have n: "sum_list (map abi_slot_count fs) < max_u32" using sized_u32[OF assms] sized_struct[OF assms] by simp
  have b: "hi < 2 ^ 62" "al \<in> natural_aligns"
    using fields_bounded[OF s(1) _ n] size_bounded sized_field[OF assms] by blast+
  note u = align_up_exact[OF b(2,1)]
  obtain new where new: "offs = new" "length new = length fs"
    "ordered_spans 0 (zip new (map fst (map compact_size_align fs))) hi" "list_all2 (\<lambda>p f. snd f dvd p) new (map compact_size_align fs)"
    using payload_spans[OF s(1) b(1) fields_natural] by auto
  have sz: "size_of (Struct_T fs) = layout_align_up hi al"
    "align_of (Struct_T fs) dvd size_of (Struct_T fs)"
    using u(3) s(2) by (auto simp: size_of_def align_of_def normalized_def Let_def struct_layout_def)
  show "align_of (Struct_T fs) dvd size_of (Struct_T fs)" by (rule sz(2))
  show "length (agg_offsets (struct_layout fs)) = length fs" using new(1,2) s(2) by simp
  show "ordered_spans 0 (zip (agg_offsets (struct_layout fs)) (map size_of fs)) (size_of (Struct_T fs))"
    using ordered_spans_mono[OF new(3)[unfolded fst_sizes] u(1)] s(2) new(1) sz(1) by simp
  show "list_all2 (\<lambda>p f. align_of f dvd p) (agg_offsets (struct_layout fs)) fs"
    using new(1,2,4) s(2) by (auto simp: list_all2_conv_all_nth align_of_def)
qed

lemma enum_fields:
  assumes "sized (Enum_T variants)"
  shows "tag_size (enum_layout variants) \<in> {1, 2, 4}" "tag_size (enum_layout variants) \<le> payload_offset (enum_layout variants)"
    "length (variant_offsets (enum_layout variants)) = length variants"
    "\<And>v. v < length variants \<Longrightarrow> length (variant_offsets (enum_layout variants) ! v) = length (variants ! v)
      \<and> ordered_spans (payload_offset (enum_layout variants))
          (zip (variant_offsets (enum_layout variants) ! v) (map size_of (variants ! v))) (size_of (Enum_T variants))
      \<and> list_all2 (\<lambda>p f. align_of f dvd p) (variant_offsets (enum_layout variants) ! v) (variants ! v)"
    "align_of (Enum_T variants) dvd size_of (Enum_T variants)"
    "payload_offset (enum_layout variants) \<le> size_of (Enum_T variants)"
proof -
  let ?vs = "map (map compact_size_align) variants"
  let ?tag = "fst (compact_enum_tag (length variants))" and ?al = "payload_aligns ?vs"
  let ?pay = "layout_align_up ?tag ?al"
  have al: "?al \<in> natural_aligns" by (rule payload_aligns_natural) (auto intro: fields_natural)
  have l: "enum_layout variants = \<lparr>tag_size = ?tag, tag_align = ?tag, payload_offset = ?pay,
      enum_size = layout_align_up (sat_add_u64 ?pay (payload_sizes ?vs)) (max ?tag ?al), enum_align = max ?tag ?al,
      variant_offsets = map (\<lambda>v. map (sat_add_u64 ?pay) (fst (compact_variant_payload v))) ?vs\<rparr>"
    unfolding enum_layout_def enum_parts Let_def length_map ..
  have t: "?tag < 2 ^ 62" using tag_natural(2)[of "length variants"] by simp
  note u = align_up_exact[OF al t]
  have small: "?pay < 16" using u(2) tag_natural(2)[of "length variants"] natural_facts(2)[OF al] by linarith
  show "tag_size (enum_layout variants) \<in> {1, 2, 4}" using tag_natural(3) by (simp add: l)
  show "tag_size (enum_layout variants) \<le> payload_offset (enum_layout variants)" using u(1) by (simp add: l)
  show len: "length (variant_offsets (enum_layout variants)) = length variants" by (simp add: l)
  have run: "\<exists>offs hi. compact_variant_payload (map compact_size_align p) = (offs, hi, foldl max 1 (map snd (map compact_size_align p)))
      \<and> length offs = length p \<and> hi < 2 ^ 40 \<and> ordered_spans 0 (zip offs (map size_of p)) hi
      \<and> list_all2 (\<lambda>q f. align_of f dvd q) offs p" if p: "p \<in> set variants" for p
  proof -
    obtain offs hi a where h: "foldl place_payload ([], 0, 1) (map compact_size_align p) = (offs, hi, a)" by (metis prod_cases3)
    have n: "sum_list (map abi_slot_count p) < max_u32"
      using sized_enum(1)[OF assms p] sized_u32[OF assms] by simp
    have "hi \<le> 8 * sum_list (map abi_slot_count p)"
      using fields_bounded(1)[OF h _ n] size_bounded sized_enum(2)[OF assms p] by blast
    then have hi: "hi < 2 ^ 40" "hi < 2 ^ 62" using n by (simp_all add: max_u32_def)
    have "length offs = length p \<and> ordered_spans 0 (zip offs (map size_of p)) hi
      \<and> list_all2 (\<lambda>q f. snd f dvd q) offs (map compact_size_align p)"
      using payload_spans[OF h hi(2) fields_natural[of _ p], unfolded fst_sizes] by simp
    then show ?thesis using payload_align[OF h] h hi(1)
      by (auto simp: compact_variant_payload_def list_all2_conv_all_nth align_of_def)
  qed
  have pay: "payload_sizes ?vs < 2 ^ 40"
  proof -
    have "fst (snd (compact_variant_payload v)) \<le> 2 ^ 40 - 1" if "v \<in> set ?vs" for v using that run by fastforce
    then have "payload_sizes ?vs \<le> 2 ^ 40 - 1" unfolding payload_sizes_def by (intro foldl_max_le) auto
    then show ?thesis by simp
  qed
  have plus: "sat_add_u64 ?pay n = ?pay + n" if "n < 2 ^ 40" for n
    using that small by (simp add: sat_add_u64_def max_u64_def)
  have a: "max ?tag ?al \<in> natural_aligns" using al tag_natural(1) by (simp add: natural_max)
  have fits: "?pay + payload_sizes ?vs < 2 ^ 62" using small pay by simp
  note w = align_up_exact[OF a fits]
  have es: "enum_size (enum_layout variants) = layout_align_up (?pay + payload_sizes ?vs) (max ?tag ?al)"
    "enum_align (enum_layout variants) = max ?tag ?al"
    by (simp_all only: l compact_enum.simps plus[OF pay])
  have sz: "size_of (Enum_T variants) = layout_align_up (?pay + payload_sizes ?vs) (max ?tag ?al)"
    "align_of (Enum_T variants) dvd size_of (Enum_T variants)"
    using w(3) es by (auto simp: size_of_def align_of_def normalized_def Let_def simp flip: enum_layout_def)
  show "payload_offset (enum_layout variants) \<le> size_of (Enum_T variants)" using w(1) by (simp add: l sz(1))
  show "align_of (Enum_T variants) dvd size_of (Enum_T variants)" by (rule sz(2))
  fix v assume v: "v < length variants"
  then have m: "variants ! v \<in> set variants" by simp
  obtain offs hi where r: "compact_variant_payload (map compact_size_align (variants ! v))
      = (offs, hi, foldl max 1 (map snd (map compact_size_align (variants ! v))))"
    "length offs = length (variants ! v)" "hi < 2 ^ 40" "ordered_spans 0 (zip offs (map size_of (variants ! v))) hi"
    "list_all2 (\<lambda>q f. align_of f dvd q) offs (variants ! v)" using run[OF m] by blast
  have hi: "hi \<le> payload_sizes ?vs"
    using foldl_max(2)[of hi "map (\<lambda>v. fst (snd (compact_variant_payload v))) ?vs" 0] m r(1)
    by (force simp: payload_sizes_def image_iff)
  have small_off: "x < 2 ^ 40" if "x \<in> set offs" for x
    using that r(2,3) ordered_spans_within[OF r(4), of x] by (fastforce simp: in_set_conv_nth set_zip)
  have offs: "variant_offsets (enum_layout variants) ! v = map ((+) ?pay) offs"
    using v r(1) small_off by (simp add: l plus)
  have "ordered_spans (?pay + 0) (map (\<lambda>(s, n). (?pay + s, n)) (zip offs (map size_of (variants ! v)))) (?pay + hi)"
    by (rule ordered_spans_shift[OF r(4)])
  moreover have "map (\<lambda>(s, n). (?pay + s, n)) (zip offs (map size_of (variants ! v))) = zip (map ((+) ?pay) offs) (map size_of (variants ! v))"
    by (simp add: zip_map1)
  moreover have "?pay + hi \<le> size_of (Enum_T variants)" using hi w(1) sz(1) by simp
  ultimately have "ordered_spans ?pay (zip (map ((+) ?pay) offs) (map size_of (variants ! v))) (size_of (Enum_T variants))"
    using ordered_spans_mono by simp
  moreover have "list_all2 (\<lambda>p f. align_of f dvd p) (map ((+) ?pay) offs) (variants ! v)"
  proof -
    have "align_of f dvd ?pay" if "f \<in> set (variants ! v)" for f
    proof -
      have "align_of f \<le> foldl max 1 (map snd (map compact_size_align (variants ! v)))"
        using that foldl_max(2)[of "align_of f" "map snd (map compact_size_align (variants ! v))" 1] by (simp add: align_of_def)
      also have "\<dots> \<le> ?al" using m foldl_max(2)[of "foldl max 1 (map snd (map compact_size_align (variants ! v)))" "map (\<lambda>v. foldl max 1 (map snd v)) ?vs" 1]
        by (simp add: payload_aligns_def)
      finally have "align_of f dvd ?al" using natural_dvd[OF align_natural al] by blast
      then show ?thesis using u(3) by (rule dvd_trans)
    qed
    then show ?thesis using r(2,5) by (auto simp: list_all2_conv_all_nth)
  qed
  ultimately show "length (variant_offsets (enum_layout variants) ! v) = length (variants ! v)
      \<and> ordered_spans (payload_offset (enum_layout variants))
          (zip (variant_offsets (enum_layout variants) ! v) (map size_of (variants ! v))) (size_of (Enum_T variants))
      \<and> list_all2 (\<lambda>p f. align_of f dvd p) (variant_offsets (enum_layout variants) ! v) (variants ! v)"
    using r(2) offs by (simp add: l)
qed

section \<open>Leaves and padding\<close>

definition covers :: "(nat \<times> nat) list \<Rightarrow> nat \<Rightarrow> bool" where
  "covers ranges x \<longleftrightarrow> (\<exists>(s, e) \<in> set ranges. s \<le> x \<and> x < e)"

lemma covers_simps [simp]:
  "\<not> covers [] x" "covers (r # ranges) x \<longleftrightarrow> fst r \<le> x \<and> x < snd r \<or> covers ranges x"
  "covers (xs @ ys) x \<longleftrightarrow> covers xs x \<or> covers ys x"
  by (auto simp: covers_def)

lemma covers_concat: "covers (concat xss) x \<longleftrightarrow> (\<exists>xs \<in> set xss. covers xs x)"
  by (auto simp: covers_def)

lemma padding_walk:
  assumes "sorted_wrt (\<lambda>r q. fst r \<le> fst q) ranges" "\<And>r. r \<in> set ranges \<Longrightarrow> fst r \<le> snd r"
    "foldl padding_step (out, c) ranges = (out', c')"
  shows "c \<le> c' \<and> (\<forall>r \<in> set ranges. snd r \<le> c')
    \<and> (\<forall>x. covers out' x \<longleftrightarrow> covers out x \<or> c \<le> x \<and> x < c' \<and> \<not> covers ranges x)
    \<and> (c' = c \<or> c' \<in> snd ` set ranges)"
  using assms
proof (induction ranges arbitrary: out c)
  case (Cons r ranges)
  obtain s e where r: "r = (s, e)" by (cases r)
  let ?out = "if c < s then out @ [(c, s)] else out" and ?c = "max c e"
  have "padding_step (out, c) r = (?out, ?c)" by (simp add: r padding_step_def)
  then have "foldl padding_step (?out, ?c) ranges = (out', c')" using Cons.prems(3) by simp
  then have ih: "?c \<le> c'" "\<forall>r \<in> set ranges. snd r \<le> c'" "c' = ?c \<or> c' \<in> snd ` set ranges"
    "\<And>x. covers out' x \<longleftrightarrow> covers ?out x \<or> ?c \<le> x \<and> x < c' \<and> \<not> covers ranges x"
    using Cons.IH[of ?out ?c] Cons.prems(1,2) by auto
  have se: "s \<le> e" using Cons.prems(2)[of r] by (simp add: r)
  have low: "\<not> covers ranges x" if "x < s" for x
    using Cons.prems(1) that by (fastforce simp: covers_def r)
  have "covers out' x \<longleftrightarrow> covers out x \<or> c \<le> x \<and> x < c' \<and> \<not> covers (r # ranges) x" for x
  proof (cases "x < s")
    case True
    have "covers ?out x \<longleftrightarrow> covers out x \<or> c \<le> x" using True by auto
    moreover have "\<not> ?c \<le> x" "x < c'" using True se ih(1) by simp_all
    ultimately show ?thesis using ih(4)[of x] low[OF True] True by (auto simp: r)
  next
    case False
    then have "covers ?out x \<longleftrightarrow> covers out x" by auto
    then show ?thesis using ih(4)[of x] False by (auto simp: r)
  qed
  then show ?case using ih by (auto simp: r max_def split: if_splits)
qed auto

lemma field_ranges_set: "set (field_ranges fs offs base) = (\<Union>(f, p) \<in> set (zip fs offs). set (leaf_ranges f (base + p)))"
  by (induction fs arbitrary: offs) (auto, (case_tac offs; auto)+)

lemma variant_ranges_set: "set (variant_ranges vs rest base) = (\<Union>(v, offs) \<in> set (zip vs rest). set (field_ranges v offs base))"
  by (induction vs arbitrary: rest) (auto, (case_tac rest; auto)+)

lemma placed_part:
  assumes "ordered_spans lo (zip offs (map size_of fs)) hi" "(f, p) \<in> set (zip fs offs)"
  shows "lo \<le> p" "p + size_of f \<le> hi"
proof -
  have "(p, size_of f) \<in> set (zip offs (map size_of fs))" using assms(2) by (force simp: set_zip)
  then show "lo \<le> p" "p + size_of f \<le> hi" using ordered_spans_within[OF assms(1)] by auto
qed

lemma leaf_ranges_within:
  "sized t \<Longrightarrow> (s, e) \<in> set (leaf_ranges t base) \<Longrightarrow> base \<le> s \<and> s < e \<and> e \<le> base + size_of t"
proof (induction t arbitrary: base s e rule: compact_size_align.induct)
  case (1 k)
  then show ?case by (auto simp: Let_def split: if_splits)
next
  case (2 fs)
  then obtain f p where f: "(f, p) \<in> set (zip fs (agg_offsets (struct_layout fs)))" "(s, e) \<in> set (leaf_ranges f (base + p))"
    by (auto simp: field_ranges_set)
  have m: "f \<in> set fs" using f(1) by (rule set_zip_leftD)
  show ?case using 2(1)[OF m sized_field[OF 2(2) m] f(2)] placed_part[OF struct_fields(2)[OF 2(2)] f(1)] by simp
next
  case (3 element len)
  then obtain k where k: "k < len" "(s, e) \<in> set (leaf_ranges element (base + k * size_of element))" by auto
  have l: "0 < len" using k(1) by simp
  have "size_of (Array_T element len) = size_of element * len"
    using size_bounded[OF 3(2)] sized_u32[OF 3(2)] max_u32_def
    by (auto simp: size_of_def normalized_def sat_mul_u64_def max_u64_def min_def split: prod.splits if_splits)
  moreover have "k * size_of element + size_of element \<le> len * size_of element"
    using k(1) mult_le_mono1[of "Suc k" len "size_of element"] by simp
  ultimately show ?case using 3(1)[OF sized_array(1)[OF 3(2) l] k(2)] by (simp add: mult.commute)
next
  case (4 variants)
  note en = enum_fields[OF 4(2)]
  consider "s = base" "e = base + tag_size (enum_layout variants)"
    | v offs where "(v, offs) \<in> set (zip variants (variant_offsets (enum_layout variants)))" "(s, e) \<in> set (field_ranges v offs base)"
    using 4(3) by (auto simp: variant_ranges_set Let_def)
  then show ?case
  proof cases
    case 1
    then show ?thesis using en(1,2,6) by auto
  next
    case (2 v offs)
    obtain i where i: "i < length variants" "v = variants ! i" "offs = variant_offsets (enum_layout variants) ! i"
      using 2(1) by (auto simp: set_zip)
    obtain f p where f: "(f, p) \<in> set (zip v offs)" "(s, e) \<in> set (leaf_ranges f (base + p))"
      using 2(2) by (auto simp: field_ranges_set)
    have m: "v \<in> set variants" "f \<in> set v" using i f(1) by (auto dest: set_zip_leftD)
    show ?thesis using 4(1)[OF m sized_enum(2)[OF 4(2) m] f(2)] placed_part[OF _ f(1)] en(4)[OF i(1)] i(2,3) by fastforce
  qed
qed

lemma padding_exact:
  assumes "sized t"
  shows "covers (compact_image_padding_ranges t) x \<longleftrightarrow> x < size_of t \<and> \<not> covers (leaf_ranges t 0) x"
proof (cases "size_of t = 0")
  case True
  then show ?thesis by (simp add: compact_image_padding_ranges_def)
next
  case False
  let ?r = "sort_key fst (leaf_ranges t 0)"
  obtain out c where w: "foldl padding_step ([], 0) ?r = (out, c)" by (metis surj_pair)
  have sorted: "sorted_wrt (\<lambda>r q. fst r \<le> fst q) ?r" using sorted_sort_key[of fst "leaf_ranges t 0"] by (simp add: sorted_map)
  have within: "fst r \<le> snd r \<and> snd r \<le> size_of t" if "r \<in> set ?r" for r
    using that leaf_ranges_within[OF assms, of "fst r" "snd r" 0] by simp
  note p = padding_walk[OF sorted _ w]
  have c: "c \<le> size_of t" using p within by auto
  have same: "covers ?r x = covers (leaf_ranges t 0) x" by (simp add: covers_def)
  have low: "x < c" if cov: "covers (leaf_ranges t 0) x"
  proof -
    obtain r where r: "r \<in> set (leaf_ranges t 0)" "x < snd r" using cov by (auto simp: covers_def)
    then show ?thesis using p within by fastforce
  qed
  have out: "covers out x \<longleftrightarrow> x < c \<and> \<not> covers (leaf_ranges t 0) x" using p within same by auto
  have "covers (compact_image_padding_ranges t) x \<longleftrightarrow> covers out x \<or> c \<le> x \<and> x < size_of t"
    using False by (auto simp: compact_image_padding_ranges_def w)
  then show ?thesis using out low c by auto
qed

end
