(* ===== verification/Layout_Results.thy ===== *)
theory Layout_Results
  imports Layout_Facts
begin

text \<open>What the layout of a type guarantees.\<close>

lemma sized_parts_apart:
  assumes "ordered_spans lo (zip offs (map size_of fs)) hi" "length offs = length fs" "i < length fs"
  shows "lo \<le> offs ! i" "offs ! i + size_of (fs ! i) \<le> hi" "i < j \<Longrightarrow> j < length fs \<Longrightarrow> offs ! i + size_of (fs ! i) \<le> offs ! j"
proof -
  let ?spans = "zip offs (map size_of fs)"
  have n: "length ?spans = length fs" "\<And>k. k < length fs \<Longrightarrow> ?spans ! k = (offs ! k, size_of (fs ! k))"
    using assms(2) by simp_all
  then have "(offs ! i, size_of (fs ! i)) \<in> set ?spans" using assms(3) by (metis nth_mem)
  moreover have spans: "\<forall>(start, len) \<in> set ?spans. lo \<le> start \<and> start + len \<le> hi"
      "sorted_wrt (\<lambda>(start, len) (start', _). start + len \<le> start') ?spans"
    using assms(1) unfolding ordered_spans_disjoint by blast+
  ultimately show "lo \<le> offs ! i" "offs ! i + size_of (fs ! i) \<le> hi" by auto
  show "offs ! i + size_of (fs ! i) \<le> offs ! j" if "i < j" "j < length fs"
    using sorted_wrt_nth_less[OF spans(2) that(1)] n that assms(3) by simp
qed

lemma array_size:
  assumes "sized (Array_T element len)"
  shows "size_of (Array_T element len) = size_of element * len"
    "size_of (Array_T element len) \<noteq> 0 \<Longrightarrow> align_of (Array_T element len) = align_of element"
proof -
  obtain s a where sa: "compact_size_align element = (s, a)" by (cases "compact_size_align element")
  have "normalized (sat_mul_u64 s len, max a 1) = compact_size_align (Array_T element len)" by (simp add: sa)
  then have e: "size_of (Array_T element len) = sat_mul_u64 s len" "size_of (Array_T element len) \<noteq> 0 \<Longrightarrow> align_of (Array_T element len) = max a 1"
    by (auto simp: size_of_def align_of_def normalized_def sa split: if_splits)
  have "size_of (Array_T element len) < 2 ^ 31" using size_small[OF assms] .
  then show "size_of (Array_T element len) = size_of element * len"
    using e(1) by (auto simp: sat_mul_u64_def max_u64_def min_def size_of_def sa split: if_splits)
  have "0 < a" using natural_facts(1)[OF align_natural[of element]] by (simp add: align_of_def sa)
  then show "size_of (Array_T element len) \<noteq> 0 \<Longrightarrow> align_of (Array_T element len) = align_of element"
    using e(2) by (simp add: align_of_def sa)
qed

lemma align_divides: "sized t \<Longrightarrow> align_of t dvd size_of t"
proof (induction t rule: compact_size_align.induct)
  case (1 k)
  then show ?case by (simp add: size_of_def align_of_def leaf_size_align_def normalized_def split: leaf_type.split)
next
  case (3 element len)
  show ?case
  proof (cases "size_of (Array_T element len) = 0")
    case False
    then have "0 < len" using array_size(1)[OF 3(2)] by (cases len) auto
    then show ?thesis using 3 array_size[OF 3(2)] sized_array(1)[OF 3(2)] False by simp
  qed simp
qed (use struct_fields(4) enum_fields(5) in blast)+

text \<open>
  C38. Every type within the limit of semantic analysis has a sound layout.  The alignment is 1, 2, 4
  or 8 and divides the size, which is at most eight bytes for each slot.  Fields of a structure and
  of each payload of an enum lie in order, apart, aligned and inside the value, payloads behind the
  tag; the elements of an array follow each other.  The padding is exactly the bytes that no leaf of
  the value, in any variant, covers.
\<close>

theorem type_layout_sound:
  assumes "sized t"
  shows "align_of t \<in> {1, 2, 4, 8} \<and> align_of t dvd size_of t \<and> size_of t \<le> 8 * abi_slot_count t
    \<and> (\<forall>x. covers (compact_image_padding_ranges t) x \<longleftrightarrow> x < size_of t \<and> \<not> covers (leaf_ranges t 0) x)
    \<and> (\<forall>(s, e) \<in> set (leaf_ranges t 0). s < e \<and> e \<le> size_of t)
    \<and> (case t of
        Leaf_T k \<Rightarrow> True
      | Struct_T fs \<Rightarrow> \<forall>i < length fs. align_of (fs ! i) dvd struct_field_offset fs i
          \<and> struct_field_offset fs i + size_of (fs ! i) \<le> size_of t
          \<and> (\<forall>j < length fs. i < j \<longrightarrow> struct_field_offset fs i + size_of (fs ! i) \<le> struct_field_offset fs j)
      | Array_T element len \<Rightarrow> size_of t = size_of element * len \<and> (0 < size_of t \<longrightarrow> align_of t = align_of element)
      | Enum_T vs \<Rightarrow> tag_size (enum_layout vs) \<in> {1, 2, 4} \<and> (\<forall>v < length vs. \<forall>i < length (vs ! v).
          align_of (vs ! v ! i) dvd enum_payload_field_offset vs v i
          \<and> tag_size (enum_layout vs) \<le> enum_payload_field_offset vs v i
          \<and> enum_payload_field_offset vs v i + size_of (vs ! v ! i) \<le> size_of t
          \<and> (\<forall>j < length (vs ! v). i < j \<longrightarrow>
              enum_payload_field_offset vs v i + size_of (vs ! v ! i) \<le> enum_payload_field_offset vs v j)))"
proof -
  have "align_of t \<in> {1, 2, 4, 8}" using align_natural[of t] by (simp add: natural_aligns_def)
  moreover have "\<forall>(s, e) \<in> set (leaf_ranges t 0). s < e \<and> e \<le> size_of t"
    using leaf_ranges_within[OF assms, of _ _ 0] by auto
  moreover have "case t of
        Leaf_T k \<Rightarrow> True
      | Struct_T fs \<Rightarrow> \<forall>i < length fs. align_of (fs ! i) dvd struct_field_offset fs i
          \<and> struct_field_offset fs i + size_of (fs ! i) \<le> size_of t
          \<and> (\<forall>j < length fs. i < j \<longrightarrow> struct_field_offset fs i + size_of (fs ! i) \<le> struct_field_offset fs j)
      | Array_T element len \<Rightarrow> size_of t = size_of element * len \<and> (0 < size_of t \<longrightarrow> align_of t = align_of element)
      | Enum_T vs \<Rightarrow> tag_size (enum_layout vs) \<in> {1, 2, 4} \<and> (\<forall>v < length vs. \<forall>i < length (vs ! v).
          align_of (vs ! v ! i) dvd enum_payload_field_offset vs v i
          \<and> tag_size (enum_layout vs) \<le> enum_payload_field_offset vs v i
          \<and> enum_payload_field_offset vs v i + size_of (vs ! v ! i) \<le> size_of t
          \<and> (\<forall>j < length (vs ! v). i < j \<longrightarrow>
              enum_payload_field_offset vs v i + size_of (vs ! v ! i) \<le> enum_payload_field_offset vs v j))"
  proof (cases t)
    case (Struct_T fs)
    note f = struct_fields[OF assms[unfolded Struct_T]]
    have "struct_field_offset fs i = agg_offsets (struct_layout fs) ! i" if "i < length fs" for i
      using that f(1) by (simp add: struct_field_offset_def)
    then show ?thesis unfolding Struct_T
      using sized_parts_apart[OF f(2,1)] f(3) by (auto simp: list_all2_conv_all_nth)
  next
    case (Array_T element len)
    then show ?thesis using array_size[of element len] assms by simp
  next
    case (Enum_T vs)
    note f = enum_fields[OF assms[unfolded Enum_T]]
    have "align_of (vs ! v ! i) dvd enum_payload_field_offset vs v i
          \<and> tag_size (enum_layout vs) \<le> enum_payload_field_offset vs v i
          \<and> enum_payload_field_offset vs v i + size_of (vs ! v ! i) \<le> size_of t
          \<and> (\<forall>j < length (vs ! v). i < j \<longrightarrow>
              enum_payload_field_offset vs v i + size_of (vs ! v ! i) \<le> enum_payload_field_offset vs v j)"
      if v: "v < length vs" "i < length (vs ! v)" for v i
    proof -
      have o: "enum_payload_field_offset vs v j = variant_offsets (enum_layout vs) ! v ! j" if "j < length (vs ! v)" for j
        using that f(3) f(4)[OF v(1)] v(1) by (simp add: enum_payload_field_offset_def Let_def)
      note s = sized_parts_apart[OF conjunct1[OF conjunct2[OF f(4)[OF v(1)]]] conjunct1[OF f(4)[OF v(1)]] v(2)]
      show ?thesis using s f(2) f(4)[OF v(1)] o v(2) unfolding Enum_T by (auto simp: list_all2_conv_all_nth)
    qed
    then show ?thesis using f(1) unfolding Enum_T by simp
  qed simp
  ultimately show ?thesis using align_divides[OF assms] size_bounded[OF assms] padding_exact[OF assms] by blast
qed

text \<open>A byte, a four-byte integer, and a byte again.\<close>

theorem type_layout_sound_witness:
  "covers (compact_image_padding_ranges (Struct_T [Leaf_T U8_T, Leaf_T I32_T, Leaf_T U8_T])) 2
   \<and> align_of (Leaf_T I32_T) dvd struct_field_offset [Leaf_T U8_T, Leaf_T I32_T, Leaf_T U8_T] 1"
proof -
  let ?fs = "[Leaf_T U8_T, Leaf_T I32_T, Leaf_T U8_T]"
  have s: "sized (Struct_T ?fs)" by (simp add: sized_def sum_slots_def leaf_slot_count_def sat_add_u32_def max_u32_def max_type_slots_def)
  have sizes: "compact_size_align (Leaf_T U8_T) = (1, 1)" "compact_size_align (Leaf_T I32_T) = (4, 4)"
    by (simp_all add: leaf_size_align_def normalized_def)
  have l: "struct_layout ?fs = \<lparr>agg_size = 12, agg_align = 4, agg_offsets = [0, 4, 8], agg_padding = [(1, 4), (9, 12)]\<rparr>"
    by (simp add: struct_layout_def sizes compact_struct_layout_def place_field_def align_up_div natural_aligns_def sat_add_u64_def
        max_u64_def Let_def del: compact_size_align.simps)
  then have "size_of (Struct_T ?fs) = 12" by (simp add: size_of_def normalized_def struct_layout_def Let_def)
  moreover have "leaf_ranges (Struct_T ?fs) 0 = [(0, 1), (4, 8), (8, 9)]"
    by (simp add: l size_of_def leaf_size_align_def normalized_def)
  ultimately show ?thesis using type_layout_sound[OF s] by (auto simp: covers_def)
qed

end
