(* ===== verification/Spec2Isabelle.thy ===== *)
theory Spec2Isabelle
  imports Integer_Semantics Ownership_State Sched_List Const_Fold Peephole Failure_Reports Lowering_Order
    Allocator_Clients Stack_Verify Lexer_Literals Signature_Results Decimal_Results
    Allocation_Results Frame_Results Layout_Results
begin

text \<open>
  \<^bold>\<open>The program.\<close>  Rue is a compiler written in Rust, with a runtime that is linked into every
  program it compiles.  Source text becomes tokens (\<open>rue-lexer\<close>), a tree (\<open>rue-parser\<close>), an
  untyped representation (\<open>rue-rir\<close>), typed bodies (\<open>rue-air\<close>, where ownership is checked and
  compile-time integers are evaluated), control-flow graphs that are optimised (\<open>rue-cfg\<close>),
  machine instructions that are scheduled and allocated to registers (\<open>rue-codegen\<close>), and an
  executable (\<open>rue-linker\<close>).  At run time \<open>rue-runtime\<close> supplies traps, text and number
  conversion, and memory.  All paths below are under \<open>src/crates/\<close>.

  \<^bold>\<open>The theories.\<close>  Each one models one part and says at its start how its state corresponds to
  the code.
  \<^item> \<open>Rue_Prelude\<close>: the integer conventions, options, spans, and generic lemmas.
  \<^item> \<open>Lexer_Literals\<close>: the literal callbacks of \<open>rue-lexer/src/logos_lexer.rs\<close>: what a string,
    integer or byte literal denotes, and where the lexer resumes after a malformed one.
  \<^item> \<open>Integer_Semantics\<close>: \<open>rue-air/src/integer_semantics.rs\<close>, the kernel that gives every
    fixed-width integer operation its meaning.  Constant folding calls it.
  \<^item> \<open>Exact_Decimal\<close>: \<open>rue-air/src/exact_decimal.rs\<close>, the canonical texts of float literals;
    \<open>Decimal_Strings\<close> proves the arithmetic on decimal strings, \<open>Decimal_Results\<close> what the texts mean.
  \<^item> \<open>Branch_Join\<close> (a locale), \<open>Move_State\<close>, \<open>Ownership_State\<close>:
    \<open>rue-air/src/sema/ownership_state.rs\<close> and the divergence provenance of \<open>sema/context.rs\<close>:
    what has been moved on every path, across scopes, branches, loops and expressions.  The
    locale states the contract of a join; \<open>Move_State\<close> interprets it on the join of move maps,
    and \<open>Ownership_State\<close> takes the arm joins from it.
  \<^item> \<open>Cfg_Model\<close>: the graph of \<open>rue-cfg/src/inst.rs\<close>, with the type kinds of
    \<open>rue-air/src/types.rs\<close>; \<open>Const_Fold\<close> and \<open>Peephole\<close>: the folding kernel and the peephole
    pass (\<open>rue-cfg/src/opt/constfold.rs\<close>, \<open>opt/peephole.rs\<close>).
  \<^item> \<open>Adjacency\<close>, \<open>Dominator_Tree\<close>: every definition of \<open>rue-cfg/src/dominators.rs\<close>.  The proofs
    follow the phases of the construction: \<open>Dominator_Dfs\<close> (numbering), \<open>Dominator_Paths\<close> (what
    dominance means, and the intersection of two chains), \<open>Dominator_Fixpoint\<close> (the iteration
    ends, and ends with the dominators), \<open>Dominator_Intervals\<close> (preorder intervals decide
    ancestry), \<open>Lowering_Order\<close> (the results, and the block order for lowering).
  \<^item> \<open>Dependence\<close> (a locale for tables of facts, interpreted by the tables of the scheduler),
    \<open>Sched_Graph\<close>, \<open>Sched_List\<close>: the instruction scheduler
    (\<open>rue-codegen/src/schedule_core.rs\<close>, \<open>reg_class.rs\<close>).
  \<^item> \<open>Liveness\<close>, \<open>Loop_Depth\<close>, \<open>Live_Analysis\<close>: every definition of
    \<open>rue-codegen/src/liveness.rs\<close>, with the result types of \<open>regalloc.rs\<close>.  The proofs: live sets
    under construction implement finite sets (\<open>Live_Sets\<close>, a locale), block boundaries are enough
    (\<open>Live_Blocks\<close>), the solver ends with the liveness of paths (\<open>Live_Solve\<close>), ranges
    (\<open>Live_Ranges\<close>), diverging regions (\<open>Divergence\<close>), and the results (\<open>Live_Results\<close>).
    \<open>Edge_Groups\<close> holds the compressed edge tables that liveness shares with the dominators, and
    \<open>Reg_Class\<close> the register classes (\<open>reg_class.rs\<close>).
  \<^item> \<open>Regalloc\<close>, \<open>Linear_Scan\<close>, \<open>Alloc_Driver\<close>: every definition of \<open>rue-codegen/src/regalloc.rs\<close>
    (costs, indexes, coalescing, spill slots; the two passes of the scan, with and without
    rematerialisation; recipes, rewriting and the driver).  The proofs: prefix counts decide clobbers and divergence
    (\<open>Clobber_Index\<close>, a locale interpreted on the three counters), the state of a scan
    (\<open>Scan_Invariant\<close>), merged intervals (\<open>Coalescing\<close>), recipes (\<open>Remat_Recipes\<close>), what an allocation promises against the
    liveness of paths (\<open>Allocation_Sound\<close>), and the results (\<open>Allocation_Results\<close>).
  \<^item> \<open>Frame_Layout\<close>: every definition of \<open>rue-codegen/src/frame_layout.rs\<close>, the frame budget of
    \<open>rue-air/src/layout.rs\<close>, the frame decisions of \<open>codegen_pipeline.rs\<close>, and the adjustment of
    frame offsets in both emitters.  \<open>Frame_Cells\<close> holds the arithmetic, \<open>Frame_Results\<close> the results.
  \<^item> \<open>Type_Layout\<close>: slot counts, sizes, alignments, field offsets, tags and padding of types
    (\<open>rue-air/src/intern_pool.rs\<close>); \<open>Layout_Facts\<close> proves where parts and leaves lie,
    \<open>Layout_Results\<close> holds the results.
  \<^item> \<open>Stack_Verify\<close>: the stack verifier \<open>rue-codegen/src/stack_verify.rs\<close> and both backends'
    adapters; the locale states what it relies on and is interpreted on both.
  \<^item> \<open>Calling_Convention\<close>: every row of \<open>rue-target/src/calling_convention.rs\<close>;
    \<open>Lowered_Signature\<close>: the classifier of signatures (\<open>rue-air/src/lowered_signature.rs\<close> and the
    scalar kinds of \<open>call_abi.rs\<close>).  \<open>Argument_Placement\<close> proves what a walk over the arguments
    hands out, with a locale for a cursor that is interpreted on both register banks and on the
    argument area; \<open>Signature_Results\<close> holds the results.
  \<^item> \<open>Runtime_Numbers\<close>, \<open>Runtime_Utf8\<close>: parsing and printing of integers, and UTF-8
    (\<open>rue-runtime/src/parse.rs\<close>, \<open>string.rs\<close>, \<open>utf8.rs\<close>).
  \<^item> \<open>Test_Channel\<close>, \<open>Failure_Reports\<close>: the failure records of \<open>rue-runtime/src/test_channel.rs\<close>
    with a specification of the reader, and every trap of \<open>error.rs\<close> that writes them.
  \<^item> \<open>Memory\<close> (bytes, words and the meaning of copies and fills), \<open>Memory_Intrinsics\<close>:
    \<open>rue-runtime/src/memory.rs\<close>.
  \<^item> \<open>Allocator\<close>: every operation of \<open>rue-allocator/src/lib.rs\<close> (as compiled without debug
    assertions) over an explicit byte memory, with \<open>alloc_zeroed\<close> of \<open>rue-runtime/src/heap.rs\<close>.
    \<open>Allocator_Blocks\<close> holds words, rounding and size classes, \<open>Allocator_Safety\<close> the invariant,
    \<open>Allocator_Operations\<close> its preservation, \<open>Allocator_Clients\<close> the results.

  \<^bold>\<open>Conventions.\<close>  A panic of the source (an index out of range, an overflow, a failed
  expectation) is \<open>None\<close>, and so is a loop that does not end: a loop whose end is not structural
  is a \<open>partial_function (option)\<close>, and the theorem about it states a result \<open>Some\<close>.  No
  definition takes fuel.  An \<open>i128\<close> is an \<open>int\<close> with the range checks of the source; a register
  image is a word of its width; an index is a \<open>nat\<close>.  A vector is a list, a hash map a partial
  function, an interned symbol or an arena index a \<open>nat\<close>.

  \<^bold>\<open>What the lemmas show.\<close>
  \<^item> Lexer: a literal is accepted exactly when it is spelled by the grammar, with its value; the
    error names the first fault, and the lexer resumes after the literal, on its line.
  \<^item> Integers: the operations agree with the mathematical ones, with overflow reported exactly
    where the result does not fit, and the register-image forms implement them with canonical images.
  \<^item> Decimals: a canonical text identifies the real number that a literal denotes, at any length.
  \<^item> Ownership: a set-level specification of which paths may and must have been moved; joins are
    sound and independent of the order of arms; scopes, loops and expressions restore exactly
    what they save.
  \<^item> Optimiser: folding and peephole rewriting keep the value of every instruction and every trap,
    for an evaluator in which operations outside the integers are arbitrary.
  \<^item> Dominators: the construction ends on every graph, and its answers are the path definitions;
    the lowering order is a permutation that respects them.
  \<^item> Scheduler: the dependency graph orders every conflicting pair, list scheduling ends with a
    greedy linear extension of it, and the reordered instructions compute the same state on every
    machine on which independent instructions commute.
  \<^item> Liveness: the solver ends on every graph with exactly the registers that some path reads before
    writing; live ranges are the least intervals around them; registers in play at one reachable
    instruction interfere; diverging regions and loop depths are their definitions over the graph.
  \<^item> Register allocation: the passes return on every function; a register that is in play has a
    place, and two that are in play together have different ones except at a move that coalescing
    deletes; a clobber does not destroy a value that is live after it; a value is recomputed only by
    a recipe that all its definitions give; the second pass is kept exactly when it saves no new
    register, spills no more and keeps as many values in registers (which values those are may change:
    \<open>reuse_pass_displaces_value\<close>); the rewritten code is the expansions in order.  Every
    callee-saved register in use is recorded, except when an eviction hands over one that an
    interval confined to a diverging region held (\<open>evicted_save_forgotten\<close>).
  \<^item> Frames: a frame is planned exactly when it fits the budget, and the offsets that the emitters write
    give every slot a cell of its own below the saved registers.
  \<^item> Layouts: for every type within the limit on slots, parts lie apart, aligned and inside the value,
    and the padding is exactly what no leaf covers.
  \<^item> Calls: no two arguments of a signature share a register or a stack byte; the native
    convention agrees with C wherever C returns in registers; an aggregate is classified as the
    rules say of its leaves.
  \<^item> Stack verifier: acceptance is a typing of labels by depths, and typed code keeps the stack
    pointer aligned and balanced on every path.
  \<^item> Runtime: parsing accepts exactly the decimal numbers of the type and inverts printing; the
    decoders accept exactly UTF-8; every trap writes one record that reads back to its arguments.
  \<^item> Memory: the chunked intrinsics equal their bytewise meaning, for every overlap.
  \<^item> Allocator: in every state that a client can reach, live blocks are disjoint, aligned and
    mapped, and no operation changes a byte of a block it was not given.

  \<^bold>\<open>Parameters.\<close>  The machine adapter of the scheduler, with its commutation law; the heap behind
  strings; the page mapper under the allocator (\<open>mapper_ok\<close> states what its documentation asks
  of it); the interner of the lexer; the liveness adapter of a backend (labels,
  successors, reads, writes and clobbers of an instruction), in which a call that never returns has
  no successor (\<open>traps_end\<close>); the allocation backend (a record of its functions), with its register
  file (\<open>file_ok\<close>) and its candidates in the order of their instructions; the values of instructions the optimiser passes do not interpret.

  \<^bold>\<open>Not modelled.\<close>  The phases whose state is a whole representation (semantic analysis, CFG
  construction and verification, instruction selection, linking), because no
  part of them has an interface small enough to be translated completely so far; the query engine,
  the driver and the test tools, which orchestrate processes, threads and files; the system-call
  layer of the runtime; the text of the listings of liveness and allocation.  Of the type pool, only the
  layout of resolved types is modelled; of the code generation pipeline, only its frame decisions.
\<close>

end
